(* ===== verification/Aat_Prelude.thy ===== *)
theory Aat_Prelude
  imports Main "HOL-Library.Word"
begin

text \<open>
  Shared ground of the development: the part-select operations of the HLS integer type
  \<^verbatim>\<open>ap_uint<W>\<close> on \<open>'a word\<close>, and the generic lemmas on words and lists that the component
  theories use.  \<open>x.range(hi,lo)\<close> as a value is \<open>rng hi lo x\<close>; the assignment
  \<open>x.range(hi,lo) = v\<close> is \<open>x := upd hi lo v x\<close>.  Assigning a value to a variable of another
  width truncates or zero-extends, which is the type of the result of \<open>rng\<close> here.
\<close>

unbundle bit_operations_syntax

named_theorems rng_simps \<open>part-select laws, oriented to push a read through an update\<close>

section \<open>Part select\<close>

definition rng :: "nat \<Rightarrow> nat \<Rightarrow> 'a::len word \<Rightarrow> 'b::len word" where
  "rng hi lo w = ucast (take_bit (Suc hi - lo) (drop_bit lo w))"

definition upd :: "nat \<Rightarrow> nat \<Rightarrow> 'b::len word \<Rightarrow> 'a::len word \<Rightarrow> 'a word" where
  "upd hi lo v w =
     (w AND NOT (push_bit lo (mask (Suc hi - lo)))) OR
     push_bit lo (take_bit (Suc hi - lo) (ucast v))"

lemma bit_rng [bit_simps]:
  "bit (rng hi lo (w :: 'a::len word) :: 'b::len word) n \<longleftrightarrow>
     n < LENGTH('b) \<and> lo + n \<le> hi \<and> bit w (lo + n)"
  by (auto simp: rng_def bit_simps)

lemma bit_upd [bit_simps]:
  "bit (upd hi lo (v :: 'b::len word) (w :: 'a::len word)) n \<longleftrightarrow>
     (if lo \<le> n \<and> n \<le> hi then n < LENGTH('a) \<and> bit v (n - lo) else bit w n)"
  by (auto simp: upd_def bit_simps dest: bit_imp_le_length)

lemma rng_upd_same [rng_simps]:
  fixes v :: "'b::len word" and w :: "'a::len word"
  assumes "LENGTH('b) = Suc hi - lo" and "lo \<le> hi" and "hi < LENGTH('a)"
  shows "rng hi lo (upd hi lo v w) = v"
  by (rule bit_word_eqI) (use assms in \<open>auto simp: bit_simps\<close>)

lemma rng_upd_inside:
  fixes v :: "'b::len word" and w :: "'a::len word"
  assumes "lo' \<le> lo" and "lo \<le> hi" and "hi \<le> hi'" and "hi' < LENGTH('a)"
  shows "(rng hi lo (upd hi' lo' v w) :: 'c::len word) = rng (hi - lo') (lo - lo') v"
  by (rule bit_word_eqI) (use assms in \<open>auto simp: bit_simps\<close>)

lemma rng_upd_disjoint [rng_simps]:
  fixes v :: "'b::len word" and w :: "'a::len word"
  assumes "hi < lo' \<or> hi' < lo"
  shows "(rng hi lo (upd hi' lo' v w) :: 'c::len word) = rng hi lo w"
  by (rule bit_word_eqI) (use assms in \<open>auto simp: bit_simps\<close>)

lemma rng_rng [rng_simps]:
  fixes w :: "'a::len word"
  assumes "hi + lo' \<le> hi'" and "hi < LENGTH('c)"
  shows "(rng hi lo (rng hi' lo' w :: 'c::len word) :: 'b::len word) = rng (hi + lo') (lo + lo') w"
  by (rule bit_word_eqI) (use assms in \<open>auto simp: bit_simps ac_simps\<close>)

lemma rng_all:
  fixes w :: "'a::len word"
  assumes "Suc hi = LENGTH('a)"
  shows "rng hi 0 w = w"
  by (rule bit_word_eqI) (use assms in \<open>auto simp: bit_simps\<close>)

lemma rng_zero [simp]: "rng hi lo 0 = 0"
  by (simp add: rng_def)

lemma unat_rng_less:
  fixes w :: "'a::len word"
  assumes "lo \<le> hi"
  shows "unat (rng hi lo w :: 'b::len word) < 2 ^ (Suc hi - lo)"
proof -
  have "take_bit (Suc hi - lo) (rng hi lo w :: 'b word) = rng hi lo w"
    by (rule bit_word_eqI) (auto simp: bit_simps)
  then have "unat (rng hi lo w :: 'b word) = take_bit (Suc hi - lo) (unat (rng hi lo w :: 'b word))"
    by (metis unsigned_take_bit_eq)
  then show ?thesis
    by (metis take_bit_nat_less_exp)
qed

section \<open>Counters\<close>

text \<open>A 32-bit counter that is bumped once per event counts events modulo \<open>2 ^ 32\<close>.\<close>

lemma word_add_of_nat_Suc: "(c :: 'a::len word) + of_nat n + 1 = c + of_nat (Suc n)"
  by (simp add: ac_simps)

lemma unat_of_nat_small:
  assumes "n < 2 ^ LENGTH('a::len)"
  shows "unat (of_nat n :: 'a word) = n"
  using assms by (simp add: unat_of_nat take_bit_nat_eq_self)

text \<open>Widening loses nothing.\<close>

lemma ucast_widen_inject:
  fixes x y :: "'a::len word"
  assumes "LENGTH('a) \<le> LENGTH('b::len)"
  shows "(ucast x :: 'b word) = ucast y \<longleftrightarrow> x = y"
proof -
  have narrow: "(ucast (ucast z :: 'b word) :: 'a word) = z" for z :: "'a word"
    by (rule bit_word_eqI) (use assms in \<open>auto simp: bit_simps\<close>)
  show ?thesis by (metis narrow)
qed

lemma word32_max: "(d :: 32 word) \<le> 0xffffffff"
  using unsigned_less [of d, where ?'a = nat] by (simp add: word_le_nat_alt)

section \<open>Lists\<close>

lemma take_Suc_tl: "xs \<noteq> [] \<Longrightarrow> take (Suc n) xs = hd xs # take n (tl xs)"
  by (cases xs) auto

lemma list5_eqI:
  assumes "length xs = 5" and "length ys = 5"
    and "xs ! 0 = ys ! 0" "xs ! 1 = ys ! 1" "xs ! 2 = ys ! 2" "xs ! 3 = ys ! 3" "xs ! 4 = ys ! 4"
  shows "xs = ys"
proof (rule nth_equalityI)
  show "length xs = length ys" using assms by simp
  fix i assume "i < length xs"
  then have "i = 0 \<or> i = 1 \<or> i = 2 \<or> i = 3 \<or> i = 4" using assms by arith
  then show "xs ! i = ys ! i" using assms by auto
qed

lemma upt_0_5: "[0..<5] = [0, 1, 2, 3, 4]"
  by (simp add: upt_rec)

section \<open>Partial steps\<close>

text \<open>\<open>n\<close> calls of a step that may block (\<open>None\<close>).\<close>

fun iter_opt :: "('s \<Rightarrow> 's option) \<Rightarrow> nat \<Rightarrow> 's \<Rightarrow> 's option" where
  "iter_opt f 0 s = Some s"
| "iter_opt f (Suc n) s = (case f s of None \<Rightarrow> None | Some s' \<Rightarrow> iter_opt f n s')"

lemma iter_opt_add:
  "iter_opt f (m + n) s = (case iter_opt f m s of None \<Rightarrow> None | Some s' \<Rightarrow> iter_opt f n s')"
  by (induction m arbitrary: s) (auto split: option.splits)

lemma iter_opt_inv:
  assumes "\<And>s. P s \<Longrightarrow> \<exists>s'. f s = Some s' \<and> P s'"
  shows "P s \<Longrightarrow> \<exists>s'. iter_opt f n s = Some s' \<and> P s'"
proof (induction n arbitrary: s)
  case 0
  then show ?case by simp
next
  case (Suc n)
  from assms [OF Suc.prems] obtain s' where s': "f s = Some s'" "P s'" by blast
  from Suc.IH [OF s'(2)] s'(1) show ?case by simp
qed

lemma word1_cases: "(p :: 1 word) = 0 \<or> p = 1"
proof -
  have "unat p < 2" using unsigned_less [of p, where ?'a = nat] by simp
  then have "unat p = 0 \<or> unat p = 1" by arith
  then show ?thesis by (auto simp: word_unat_eq_iff)
qed

lemma word1_not_0 [simp]: "(p :: 1 word) \<noteq> 0 \<longleftrightarrow> p = 1"
  using word1_cases [of p] by auto

section \<open>Ring buffers indexed by a wrapping counter\<close>

text \<open>
  A ring of \<open>2 ^ LENGTH('a)\<close> cells is a function on \<open>'a word\<close>; writing at the index and bumping
  it wraps by itself.  After any number of writes, each of the last \<open>2 ^ LENGTH('a)\<close> written
  values is still in its cell.
\<close>

fun ringWrite :: "('a::len word \<Rightarrow> 'b) \<times> 'a word \<Rightarrow> 'b list \<Rightarrow> ('a word \<Rightarrow> 'b) \<times> 'a word" where
  "ringWrite (r, t) [] = (r, t)"
| "ringWrite (r, t) (x # xs) = ringWrite (r(t := x), t + 1) xs"

lemma ringWrite_append: "ringWrite rt (xs @ ys) = ringWrite (ringWrite rt xs) ys"
  by (induction rt xs rule: ringWrite.induct) simp_all

lemma snd_ringWrite: "snd (ringWrite (r, t) xs) = t + of_nat (length xs)"
  by (induction xs arbitrary: r t) (simp_all add: ac_simps)

lemma of_nat_word_inject:
  assumes "i < j" and "j < i + 2 ^ LENGTH('a::len)"
  shows "(of_nat i :: 'a word) \<noteq> of_nat j"
proof
  assume "(of_nat i :: 'a word) = of_nat j"
  then have "(of_nat (j - i) :: 'a word) = 0"
    using assms(1) by (simp add: of_nat_diff)
  moreover have "j - i < 2 ^ LENGTH('a)" using assms by linarith
  ultimately have "j - i = 0" by (metis unat_0 unat_of_nat_small)
  with assms(1) show False by simp
qed

lemma ringWrite_lookup:
  fixes t :: "'a::len word"
  assumes "i < length xs" and "length xs \<le> i + 2 ^ LENGTH('a)"
  shows "fst (ringWrite (r, t) xs) (t + of_nat i) = xs ! i"
  using assms
proof (induction xs rule: rev_induct)
  case Nil
  then show ?case by simp
next
  case (snoc x xs)
  let ?p = "ringWrite (r, t) xs"
  have w: "fst (ringWrite (r, t) (xs @ [x])) = (fst ?p)(t + of_nat (length xs) := x)"
    by (cases ?p) (simp add: ringWrite_append snd_ringWrite [of r t xs, symmetric])
  show ?case
  proof (cases "i = length xs")
    case True
    then show ?thesis by (simp add: w)
  next
    case False
    then have lt: "i < length xs" using snoc.prems by simp
    have "length xs < i + 2 ^ LENGTH('a)" using snoc.prems by simp
    then have "(of_nat i :: 'a word) \<noteq> of_nat (length xs)" using lt by (rule of_nat_word_inject [rotated])
    then show ?thesis using lt snoc.IH snoc.prems by (simp add: w nth_append)
  qed
qed

end
