(* ===== verification/Hls_Stream.thy ===== *)
theory Hls_Stream
  imports Aat_Prelude
begin

text \<open>
  The stream type \<^verbatim>\<open>hls::stream<T>\<close> of the HLS C++ language, and the contract that every
  pipeline stage of the kernels keeps.

  A stream is a FIFO: \<open>empty()\<close>, \<open>read()\<close> of the oldest element, \<open>write()\<close> behind
  the youngest, and \<open>full()\<close> against the depth that the top function declares for it.  The locale
  \<open>fifo\<close> states these laws and is interpreted on the list model below.

  The kernels are free-running: the top function is called once per clock, and every stage does
  at most one unit of work per call.  The locale \<open>stage\<close> is the contract of such a stage (a
  Mealy machine that takes one element per call from its input stream, or idles), and its lemmas
  give what a run of any length does.  \<open>map_stage\<close> is the common special case whose memory is
  just a 32-bit event counter.
\<close>

section \<open>FIFO streams\<close>

type_synonym 'a hls_stream = "'a list"

definition s_empty :: "'a hls_stream \<Rightarrow> bool" where
  "s_empty s \<longleftrightarrow> s = []"

definition s_head :: "'a hls_stream \<Rightarrow> 'a" where
  "s_head s = hd s"

definition s_rest :: "'a hls_stream \<Rightarrow> 'a hls_stream" where
  "s_rest s = tl s"

definition s_write :: "'a hls_stream \<Rightarrow> 'a \<Rightarrow> 'a hls_stream" where
  "s_write s x = s @ [x]"

definition s_full :: "nat \<Rightarrow> 'a hls_stream \<Rightarrow> bool" where
  "s_full depth s \<longleftrightarrow> depth \<le> length s"

locale fifo =
  fixes new :: "'q"
    and empty :: "'q \<Rightarrow> bool"
    and front :: "'q \<Rightarrow> 'a"
    and pop :: "'q \<Rightarrow> 'q"
    and push :: "'q \<Rightarrow> 'a \<Rightarrow> 'q"
    and contents :: "'q \<Rightarrow> 'a list"
  assumes contents_new: "contents new = []"
    and empty_iff: "empty q \<longleftrightarrow> contents q = []"
    and front_hd: "\<not> empty q \<Longrightarrow> front q = hd (contents q)"
    and contents_pop: "contents (pop q) = tl (contents q)"
    and contents_push: "contents (push q x) = contents q @ [x]"
begin

lemma contents_push_all: "contents (foldl push q xs) = contents q @ xs"
  by (induction xs arbitrary: q) (simp_all add: contents_push)

lemma contents_pop_n: "contents ((pop ^^ n) q) = drop n (contents q)"
  by (induction n) (simp_all add: contents_pop drop_Suc tl_drop)

text \<open>What comes out is what went in, in the order it went in.\<close>

lemma fifo_order:
  assumes "n < length xs"
  shows "\<not> empty ((pop ^^ n) (foldl push new xs))"
    and "front ((pop ^^ n) (foldl push new xs)) = xs ! n"
proof -
  have c: "contents ((pop ^^ n) (foldl push new xs)) = drop n xs"
    by (simp add: contents_pop_n contents_push_all contents_new)
  show ne: "\<not> empty ((pop ^^ n) (foldl push new xs))"
    using assms by (simp add: empty_iff c)
  show "front ((pop ^^ n) (foldl push new xs)) = xs ! n"
    using front_hd [OF ne] assms by (simp add: c hd_drop_conv_nth)
qed

end

interpretation hls: fifo "[]" s_empty s_head s_rest s_write "\<lambda>q. q"
  by unfold_locales (auto simp: s_empty_def s_head_def s_rest_def s_write_def)

lemma s_empty_Nil [simp]: "s_empty []"
  and s_empty_Cons [simp]: "\<not> s_empty (x # xs)"
  and s_head_Cons [simp]: "s_head (x # xs) = x"
  and s_rest_Cons [simp]: "s_rest (x # xs) = xs"
  by (simp_all add: s_empty_def s_head_def s_rest_def)

section \<open>Stages\<close>

text \<open>The reference behaviour of a stage: fold the machine over the inputs.\<close>

fun mealy :: "('m \<Rightarrow> 'a \<Rightarrow> 'm \<times> 'b list) \<Rightarrow> 'm \<Rightarrow> 'a list \<Rightarrow> 'm \<times> 'b list" where
  "mealy f m [] = (m, [])"
| "mealy f m (x # xs) =
     (let (m', ys) = f m x; (m'', zs) = mealy f m' xs in (m'', ys @ zs))"

lemma fst_mealy_Cons [simp]: "fst (mealy f m (x # xs)) = fst (mealy f (fst (f m x)) xs)"
  and snd_mealy_Cons [simp]: "snd (mealy f m (x # xs)) = snd (f m x) @ snd (mealy f (fst (f m x)) xs)"
  by (simp_all add: Let_def split: prod.splits)

lemma mealy_append:
  "mealy f m (xs @ ys) =
     (let (m', us) = mealy f m xs; (m'', vs) = mealy f m' ys in (m'', us @ vs))"
  by (induction xs arbitrary: m) (auto simp: Let_def split: prod.splits)

declare mealy.simps(2) [simp del]

lemma mealy_count:
  "mealy (\<lambda>c x. (c + 1, emit x)) (c :: 'a::len word) xs = (c + of_nat (length xs), concat (map emit xs))"
  by (induction xs arbitrary: c) (simp_all add: mealy.simps(2) ac_simps)

locale stage =
  fixes step :: "'s \<Rightarrow> 's"
    and inv :: "'s \<Rightarrow> bool"
    and inq :: "'s \<Rightarrow> 'a list"
    and outq :: "'s \<Rightarrow> 'b list"
    and mem :: "'s \<Rightarrow> 'm"
    and nxt :: "'m \<Rightarrow> 'a \<Rightarrow> 'm \<times> 'b list"
  assumes inv_step: "inv s \<Longrightarrow> inv (step s)"
    and idle: "inv s \<Longrightarrow> inq s = [] \<Longrightarrow>
      inq (step s) = [] \<and> outq (step s) = outq s \<and> mem (step s) = mem s"
    and fire: "inv s \<Longrightarrow> inq s = x # xs \<Longrightarrow> nxt (mem s) x = (m', ys) \<Longrightarrow>
      inq (step s) = xs \<and> outq (step s) = outq s @ ys \<and> mem (step s) = m'"
begin

lemma inv_run: "inv s \<Longrightarrow> inv ((step ^^ n) s)"
  by (induction n) (simp_all add: inv_step)

text \<open>\<open>n\<close> calls process the first \<open>n\<close> queued elements, in order, each exactly once.\<close>

lemma run:
  assumes "inv s"
  shows "inq ((step ^^ n) s) = drop n (inq s) \<and>
    outq ((step ^^ n) s) = outq s @ snd (mealy nxt (mem s) (take n (inq s))) \<and>
    mem ((step ^^ n) s) = fst (mealy nxt (mem s) (take n (inq s)))"
proof (induction n)
  case 0
  then show ?case by simp
next
  case (Suc n)
  let ?t = "(step ^^ n) s"
  have inv: "inv ?t" using assms by (rule inv_run)
  show ?case
  proof (cases "drop n (inq s)")
    case Nil
    then have "length (inq s) \<le> n" by simp
    with Suc.IH idle [OF inv] Nil show ?thesis by simp
  next
    case (Cons x xs)
    then have lt: "n < length (inq s)" and x: "x = inq s ! n" and xs: "xs = drop (Suc n) (inq s)"
      by (metis drop_eq_Nil list.distinct(1) not_le,
          metis Cons_nth_drop_Suc drop_eq_Nil list.distinct(1) list.inject not_le,
          metis drop_Suc list.sel(3) tl_drop)
    obtain m' ys where nx: "nxt (mem ?t) x = (m', ys)" by (cases "nxt (mem ?t) x")
    have "inq ?t = x # xs" using Suc.IH Cons by simp
    note f = fire [OF inv this nx]
    have "take (Suc n) (inq s) = take n (inq s) @ [x]"
      using lt x by (simp add: take_Suc_conv_app_nth)
    with f nx Suc.IH xs show ?thesis
      by (auto simp: mealy_append mealy.simps(2) Let_def split: prod.splits)
  qed
qed

lemma drain:
  assumes "inv s" and "length (inq s) \<le> n"
  shows "inq ((step ^^ n) s) = []"
    and "outq ((step ^^ n) s) = outq s @ snd (mealy nxt (mem s) (inq s))"
    and "mem ((step ^^ n) s) = fst (mealy nxt (mem s) (inq s))"
  using run [OF assms(1), of n] assms(2) by simp_all

end

locale map_stage =
  fixes step :: "'s \<Rightarrow> 's"
    and inv :: "'s \<Rightarrow> bool"
    and inq :: "'s \<Rightarrow> 'a list"
    and outq :: "'s \<Rightarrow> 'b list"
    and count :: "'s \<Rightarrow> 32 word"
    and emit :: "'a \<Rightarrow> 'b list"
  assumes m_inv: "inv s \<Longrightarrow> inv (step s)"
    and m_idle: "inv s \<Longrightarrow> inq s = [] \<Longrightarrow>
      inq (step s) = [] \<and> outq (step s) = outq s \<and> count (step s) = count s"
    and m_fire: "inv s \<Longrightarrow> inq s = x # xs \<Longrightarrow>
      inq (step s) = xs \<and> outq (step s) = outq s @ emit x \<and> count (step s) = count s + 1"

sublocale map_stage \<subseteq> counted: stage step inv inq outq count "\<lambda>c x. (c + 1, emit x)"
  by unfold_locales (use m_inv m_idle m_fire in auto)

context map_stage
begin

lemma map_run:
  assumes "inv s"
  shows "inq ((step ^^ n) s) = drop n (inq s)"
    and "outq ((step ^^ n) s) = outq s @ concat (map emit (take n (inq s)))"
    and "count ((step ^^ n) s) = count s + of_nat (min n (length (inq s)))"
  using counted.run [OF assms, of n] by (simp_all add: mealy_count min.commute)

lemma map_drain:
  assumes "inv s" and "length (inq s) \<le> n"
  shows "inq ((step ^^ n) s) = []"
    and "outq ((step ^^ n) s) = outq s @ concat (map emit (inq s))"
    and "count ((step ^^ n) s) = count s + of_nat (length (inq s))"
  using map_run [OF assms(1), of n] assms(2) by (simp_all add: min_absorb2)

end

section \<open>Stages that may trap\<close>

text \<open>A stage whose work on an element may fail (\<open>None\<close>: an operation the source leaves undefined).  It runs
  exactly as long as every element it takes is acceptable.\<close>

locale guarded_stage =
  fixes gstep :: "'s \<Rightarrow> 's option"
    and inv :: "'s \<Rightarrow> bool"
    and inq :: "'s \<Rightarrow> 'a list"
    and outq :: "'s \<Rightarrow> 'b list"
    and mem :: "'s \<Rightarrow> 'm"
    and ok :: "'a \<Rightarrow> bool"
    and nxt :: "'m \<Rightarrow> 'a \<Rightarrow> 'm \<times> 'b list"
  assumes g_idle: "inv s \<Longrightarrow> inq s = [] \<Longrightarrow>
      \<exists>t. gstep s = Some t \<and> inv t \<and> inq t = [] \<and> outq t = outq s \<and> mem t = mem s"
    and g_fire: "inv s \<Longrightarrow> inq s = x # xs \<Longrightarrow> ok x \<Longrightarrow> nxt (mem s) x = (m', ys) \<Longrightarrow>
      \<exists>t. gstep s = Some t \<and> inv t \<and> inq t = xs \<and> outq t = outq s @ ys \<and> mem t = m'"
    and g_trap: "inv s \<Longrightarrow> inq s = x # xs \<Longrightarrow> \<not> ok x \<Longrightarrow> gstep s = None"
begin

lemma g_run:
  "inv s \<Longrightarrow> list_all ok (take n (inq s)) \<Longrightarrow>
    \<exists>t. iter_opt gstep n s = Some t \<and> inv t \<and> inq t = drop n (inq s) \<and>
      outq t = outq s @ snd (mealy nxt (mem s) (take n (inq s))) \<and>
      mem t = fst (mealy nxt (mem s) (take n (inq s)))"
proof (induction n arbitrary: s)
  case 0
  then show ?case by simp
next
  case (Suc n)
  show ?case
  proof (cases "inq s")
    case Nil
    with g_idle [OF Suc.prems(1)] obtain t where "gstep s = Some t" "inv t" "inq t = []" "outq t = outq s" "mem t = mem s"
      by blast
    with Suc.IH [of t] Nil show ?thesis by simp
  next
    case (Cons x xs)
    obtain m' ys where nx: "nxt (mem s) x = (m', ys)" by (cases "nxt (mem s) x")
    with g_fire [OF Suc.prems(1) Cons _ nx] Suc.prems(2) Cons obtain t where
      t: "gstep s = Some t" "inv t" "inq t = xs" "outq t = outq s @ ys" "mem t = m'" by auto
    with Suc.IH [of t] Suc.prems(2) Cons nx show ?thesis by simp
  qed
qed

lemma g_trapped:
  "inv s \<Longrightarrow> \<not> list_all ok (take n (inq s)) \<Longrightarrow> iter_opt gstep n s = None"
proof (induction n arbitrary: s)
  case 0
  then show ?case by simp
next
  case (Suc n)
  then obtain x xs where q: "inq s = x # xs" by (cases "inq s") auto
  show ?case
  proof (cases "ok x")
    case True
    obtain m' ys where nx: "nxt (mem s) x = (m', ys)" by (cases "nxt (mem s) x")
    with g_fire [OF Suc.prems(1) q True nx] obtain t where
      "gstep s = Some t" "inv t" "inq t = xs" by blast
    with Suc.IH [of t] Suc.prems(2) q True show ?thesis by simp
  next
    case False
    with g_trap [OF Suc.prems(1) q] show ?thesis by simp
  qed
qed

lemma g_returns: "inv s \<Longrightarrow> (\<exists>t. iter_opt gstep n s = Some t) \<longleftrightarrow> list_all ok (take n (inq s))"
  using g_run g_trapped by fastforce

end

sublocale stage \<subseteq> total: guarded_stage "\<lambda>s. Some (step s)" inv inq outq mem "\<lambda>_. True" nxt
  by unfold_locales (use inv_step idle fire in auto)

end
