(* ===== verification/Aat_Interfaces.thy ===== *)
theory Aat_Interfaces
  imports Hls_Stream
begin

text \<open>
  \<^verbatim>\<open>hw/common/include/aat_defines.hpp\<close>, \<^verbatim>\<open>aat_interfaces.hpp\<close> and
  \<^verbatim>\<open>aat_interfaces.cpp\<close>: the constants, the message structs the kernels exchange and the
  \<^verbatim>\<open>mmInterface\<close> functions that lay them out in wide stream words.

  A struct is a record with the widths of its fields; a packed stream word is its \<^verbatim>\<open>data\<close> field
  (the kernels modelled here neither set nor read the side-band fields of these streams, except
  where a component says so).  A \<open>*Pack\<close> function assigns slices of \<^verbatim>\<open>dest->data\<close>, so it takes
  the word that \<open>dest\<close> held before: slices that are not assigned keep their bits.

  The locales \<open>codec\<close> and \<open>full_codec\<close> state what the two ends of a stream rely on.
\<close>

section \<open>Constants\<close>

abbreviation NUM_SYMBOL :: nat where "NUM_SYMBOL \<equiv> 256"
abbreviation NUM_LEVEL :: nat where "NUM_LEVEL \<equiv> 5"
abbreviation LEVEL_UNSPECIFIED :: "8 word" where "LEVEL_UNSPECIFIED \<equiv> - 1"

abbreviation ORDERBOOK_ADD :: "8 word" where "ORDERBOOK_ADD \<equiv> 0"
abbreviation ORDERBOOK_MODIFY :: "8 word" where "ORDERBOOK_MODIFY \<equiv> 1"
abbreviation ORDERBOOK_DELETE :: "8 word" where "ORDERBOOK_DELETE \<equiv> 2"
abbreviation ORDERBOOK_TRANSACT_VISIBLE :: "8 word" where "ORDERBOOK_TRANSACT_VISIBLE \<equiv> 3"
abbreviation ORDERBOOK_TRANSACT_HIDDEN :: "8 word" where "ORDERBOOK_TRANSACT_HIDDEN \<equiv> 4"
abbreviation ORDERBOOK_HALT :: "8 word" where "ORDERBOOK_HALT \<equiv> 6"

abbreviation ORDER_BID :: "8 word" where "ORDER_BID \<equiv> 0"
abbreviation ORDER_ASK :: "8 word" where "ORDER_ASK \<equiv> 1"

abbreviation ORDERENTRY_ADD :: "8 word" where "ORDERENTRY_ADD \<equiv> 0"

abbreviation TXSTATUS_SUCCESS :: "2 word" where "TXSTATUS_SUCCESS \<equiv> 0"
abbreviation TXSTATUS_CLOSED :: "2 word" where "TXSTATUS_CLOSED \<equiv> 1"
abbreviation TXSTATUS_OUTOFSPACE :: "2 word" where "TXSTATUS_OUTOFSPACE \<equiv> 2"

section \<open>Message structs\<close>

record orderBookOperation =
  obo_timestamp :: "64 word"
  obo_opCode :: "8 word"
  obo_symbolIndex :: "8 word"
  obo_orderId :: "32 word"
  obo_orderCount :: "32 word"
  obo_quantity :: "32 word"
  obo_price :: "32 word"
  obo_direction :: "8 word"
  obo_level :: "8 word"

record orderBookResponse =
  obr_timestamp :: "56 word"
  obr_symbolIndex :: "8 word"
  obr_bidCount :: "160 word"
  obr_bidPrice :: "160 word"
  obr_bidQuantity :: "160 word"
  obr_askCount :: "160 word"
  obr_askPrice :: "160 word"
  obr_askQuantity :: "160 word"

record orderEntryOperation =
  oeo_timestamp :: "64 word"
  oeo_opCode :: "8 word"
  oeo_symbolIndex :: "8 word"
  oeo_orderId :: "32 word"
  oeo_quantity :: "32 word"
  oeo_price :: "32 word"
  oeo_direction :: "8 word"

record orderEntryOperationEncode =
  oee_timestamp :: "64 word"
  oee_opCode :: "8 word"
  oee_symbolIndex :: "8 word"
  oee_orderId :: "80 word"
  oee_quantity :: "80 word"
  oee_price :: "80 word"
  oee_direction :: "8 word"

record ipTuple =
  ipt_address :: "32 word"
  ipt_port :: "16 word"

record ipUdpMeta =
  udp_srcAddress :: "32 word"
  udp_srcPort :: "16 word"
  udp_dstAddress :: "32 word"
  udp_dstPort :: "16 word"
  udp_length :: "16 word"
  udp_subSum :: "16 word"
  udp_validSum :: "1 word"

record ipTcpReadRequest =
  rrq_sessionID :: "16 word"
  rrq_length :: "16 word"

record ipTcpTxMeta =
  txm_sessionID :: "16 word"
  txm_length :: "16 word"
  txm_subSum :: "16 word"
  txm_validSum :: "1 word"

record ipTcpNotification =
  ntf_sessionID :: "16 word"
  ntf_length :: "16 word"
  ntf_ipAddress :: "32 word"
  ntf_dstPort :: "16 word"
  ntf_closed :: "8 word"
  ntf_opened :: "8 word"
  ntf_rsvd :: "8 word"

record ipTcpConnectionStatus =
  cst_sessionID :: "16 word"
  cst_success :: "8 word"

record ipTcpTxStatus =
  txs_sessionID :: "16 word"
  txs_length :: "16 word"
  txs_space :: "30 word"
  txs_error :: "2 word"

text \<open>The 64-bit AXI stream word; \<^verbatim>\<open>strb\<close> is never read by the modelled kernels.\<close>

record axiWord =
  ax_data :: "64 word"
  ax_keep :: "8 word"
  ax_last :: bool

text \<open>A packet is a non-empty burst of words of which only the final one carries \<open>last\<close>.\<close>

fun is_packet :: "axiWord list \<Rightarrow> bool" where
  "is_packet [] = False"
| "is_packet [w] = ax_last w"
| "is_packet (w # v # ws) = (\<not> ax_last w \<and> is_packet (v # ws))"

lemma is_packet_Cons: "is_packet (w # ws) \<longleftrightarrow> (if ax_last w then ws = [] else is_packet ws)"
  by (cases ws) auto

lemma is_packet_nonempty: "is_packet ws \<Longrightarrow> ws \<noteq> []"
  by auto

section \<open>Pack and unpack\<close>

definition orderBookOperationPack :: "orderBookOperation \<Rightarrow> 224 word \<Rightarrow> 224 word" where
  "orderBookOperationPack src dest =
     upd 7 0 (obo_level src) (
     upd 15 8 (obo_direction src) (
     upd 47 16 (obo_price src) (
     upd 79 48 (obo_quantity src) (
     upd 111 80 (obo_orderCount src) (
     upd 143 112 (obo_orderId src) (
     upd 151 144 (obo_symbolIndex src) (
     upd 159 152 (obo_opCode src) (
     upd 223 160 (obo_timestamp src) dest))))))))"

definition orderBookOperationUnpack :: "224 word \<Rightarrow> orderBookOperation" where
  "orderBookOperationUnpack d =
     \<lparr>obo_timestamp = rng 223 160 d, obo_opCode = rng 159 152 d, obo_symbolIndex = rng 151 144 d,
      obo_orderId = rng 143 112 d, obo_orderCount = rng 111 80 d, obo_quantity = rng 79 48 d,
      obo_price = rng 47 16 d, obo_direction = rng 15 8 d, obo_level = rng 7 0 d\<rparr>"

definition orderBookResponsePack :: "orderBookResponse \<Rightarrow> 1024 word \<Rightarrow> 1024 word" where
  "orderBookResponsePack src dest =
     upd 159 0 (obr_askQuantity src) (
     upd 319 160 (obr_askPrice src) (
     upd 479 320 (obr_askCount src) (
     upd 639 480 (obr_bidQuantity src) (
     upd 799 640 (obr_bidPrice src) (
     upd 959 800 (obr_bidCount src) (
     upd 967 960 (obr_symbolIndex src) (
     upd 1023 968 (obr_timestamp src) dest)))))))"

definition orderBookResponseUnpack :: "1024 word \<Rightarrow> orderBookResponse" where
  "orderBookResponseUnpack d =
     \<lparr>obr_timestamp = rng 1023 968 d, obr_symbolIndex = rng 967 960 d,
      obr_bidCount = rng 959 800 d, obr_bidPrice = rng 799 640 d, obr_bidQuantity = rng 639 480 d,
      obr_askCount = rng 479 320 d, obr_askPrice = rng 319 160 d, obr_askQuantity = rng 159 0 d\<rparr>"

definition orderEntryOperationPack :: "orderEntryOperation \<Rightarrow> 184 word \<Rightarrow> 184 word" where
  "orderEntryOperationPack src dest =
     upd 7 0 (oeo_direction src) (
     upd 39 8 (oeo_price src) (
     upd 71 40 (oeo_quantity src) (
     upd 103 72 (oeo_orderId src) (
     upd 111 104 (oeo_symbolIndex src) (
     upd 119 112 (oeo_opCode src) (
     upd 183 120 (oeo_timestamp src) dest))))))"

definition orderEntryOperationUnpack :: "184 word \<Rightarrow> orderEntryOperation" where
  "orderEntryOperationUnpack d =
     \<lparr>oeo_timestamp = rng 183 120 d, oeo_opCode = rng 119 112 d, oeo_symbolIndex = rng 111 104 d,
      oeo_orderId = rng 103 72 d, oeo_quantity = rng 71 40 d, oeo_price = rng 39 8 d,
      oeo_direction = rng 7 0 d\<rparr>"

text \<open>\<^verbatim>\<open>ipTuplePack\<close> is also the name of the packed type, hence the suffix here and below.\<close>

definition ipTuplePack_fn :: "ipTuple \<Rightarrow> 64 word \<Rightarrow> 64 word" where
  "ipTuplePack_fn src dest =
     upd 31 0 (ipt_address src) (
     upd 47 32 (ipt_port src) dest)"

definition udpMetaPack :: "ipUdpMeta \<Rightarrow> 256 word \<Rightarrow> 256 word" where
  "udpMetaPack src dest =
     upd 31 0 (udp_srcAddress src) (
     upd 47 32 (udp_srcPort src) (
     upd 79 48 (udp_dstAddress src) (
     upd 95 80 (udp_dstPort src) (
     upd 111 96 (udp_length src) (
     upd 127 112 (udp_subSum src) (
     upd 128 128 (udp_validSum src) dest))))))"

definition udpMetaUnpack :: "256 word \<Rightarrow> ipUdpMeta" where
  "udpMetaUnpack d =
     \<lparr>udp_srcAddress = rng 31 0 d, udp_srcPort = rng 47 32 d, udp_dstAddress = rng 79 48 d,
      udp_dstPort = rng 95 80 d, udp_length = rng 111 96 d, udp_subSum = rng 127 112 d,
      udp_validSum = rng 128 128 d\<rparr>"

definition ipTcpReadRequestPack_fn :: "ipTcpReadRequest \<Rightarrow> 32 word \<Rightarrow> 32 word" where
  "ipTcpReadRequestPack_fn src dest =
     upd 15 0 (rrq_sessionID src) (
     upd 31 16 (rrq_length src) dest)"

definition ipTcpTxMetaPack_fn :: "ipTcpTxMeta \<Rightarrow> 64 word \<Rightarrow> 64 word" where
  "ipTcpTxMetaPack_fn src dest =
     upd 15 0 (txm_sessionID src) (
     upd 31 16 (txm_length src) (
     upd 47 32 (txm_subSum src) (
     upd 48 48 (txm_validSum src) dest)))"

definition ipTcpNotificationUnpack :: "128 word \<Rightarrow> ipTcpNotification" where
  "ipTcpNotificationUnpack d =
     \<lparr>ntf_sessionID = rng 15 0 d, ntf_length = rng 31 16 d, ntf_ipAddress = rng 63 32 d,
      ntf_dstPort = rng 79 64 d, ntf_closed = rng 87 80 d, ntf_opened = rng 95 88 d,
      ntf_rsvd = rng 103 96 d\<rparr>"

definition ipTcpConnectionStatusUnpack :: "32 word \<Rightarrow> ipTcpConnectionStatus" where
  "ipTcpConnectionStatusUnpack d =
     \<lparr>cst_sessionID = rng 15 0 d, cst_success = rng 23 16 d\<rparr>"

definition ipTcpTxStatusStreamUnpack :: "64 word \<Rightarrow> ipTcpTxStatus" where
  "ipTcpTxStatusStreamUnpack d =
     \<lparr>txs_sessionID = rng 15 0 d, txs_length = rng 31 16 d, txs_space = rng 61 32 d,
      txs_error = rng 63 62 d\<rparr>"

section \<open>What the ends of a stream rely on\<close>

text \<open>The receiver reads the fields the sender wrote, whatever the word held before.\<close>

locale codec =
  fixes pack :: "'a \<Rightarrow> 'w \<Rightarrow> 'w"
    and unpack :: "'w \<Rightarrow> 'a"
  assumes unpack_pack [simp]: "unpack (pack x d) = x"
begin

lemma pack_inject: "pack x d = pack y e \<Longrightarrow> x = y"
  by (metis unpack_pack)

lemma unpack_stream: "map unpack (map (\<lambda>x. pack x d) xs) = xs"
  by (simp add: comp_def)

end

text \<open>When the fields cover the word, nothing of the old contents survives either.\<close>

locale full_codec = codec +
  assumes pack_unpack: "pack (unpack w) d = w"
begin

lemma pack_dest_irrelevant: "pack x d = pack x e"
  by (metis pack_unpack unpack_pack)

lemma unpack_inject: "unpack v = unpack w \<longleftrightarrow> v = w"
  by (metis pack_unpack)

lemma pack_surj: "\<exists>x. \<forall>d. pack x d = w"
  by (metis pack_unpack)

end

interpretation ob_op: full_codec orderBookOperationPack orderBookOperationUnpack
proof
  fix x d show "orderBookOperationUnpack (orderBookOperationPack x d) = x"
    by (simp add: orderBookOperationUnpack_def orderBookOperationPack_def rng_simps)
next
  fix w d show "orderBookOperationPack (orderBookOperationUnpack w) d = w"
    by (rule bit_word_eqI) (auto simp: orderBookOperationUnpack_def orderBookOperationPack_def bit_simps)
qed

interpretation ob_resp: full_codec orderBookResponsePack orderBookResponseUnpack
proof
  fix x d show "orderBookResponseUnpack (orderBookResponsePack x d) = x"
    by (simp add: orderBookResponseUnpack_def orderBookResponsePack_def rng_simps)
next
  fix w d show "orderBookResponsePack (orderBookResponseUnpack w) d = w"
    by (rule bit_word_eqI) (auto simp: orderBookResponseUnpack_def orderBookResponsePack_def bit_simps)
qed

interpretation oe_op: full_codec orderEntryOperationPack orderEntryOperationUnpack
proof
  fix x d show "orderEntryOperationUnpack (orderEntryOperationPack x d) = x"
    by (simp add: orderEntryOperationUnpack_def orderEntryOperationPack_def rng_simps)
next
  fix w d show "orderEntryOperationPack (orderEntryOperationUnpack w) d = w"
    by (rule bit_word_eqI) (auto simp: orderEntryOperationUnpack_def orderEntryOperationPack_def bit_simps)
qed

interpretation udp_meta: codec udpMetaPack udpMetaUnpack
  by unfold_locales (simp add: udpMetaUnpack_def udpMetaPack_def rng_simps)

section \<open>Properties\<close>

text \<open>C11: the order book message formats are bijections between structs and stream words: unpacking gives back
  the struct whatever the destination word held before, and packing an unpacked word gives back the
  word, so no bit of a word is lost or left over.\<close>

theorem order_book_codecs:
  "orderBookOperationUnpack (orderBookOperationPack op d) = op \<and>
   orderBookOperationPack (orderBookOperationUnpack w) d = w \<and>
   orderBookResponseUnpack (orderBookResponsePack r e) = r \<and>
   orderBookResponsePack (orderBookResponseUnpack v) e = v \<and>
   orderEntryOperationUnpack (orderEntryOperationPack oe f) = oe \<and>
   orderEntryOperationPack (orderEntryOperationUnpack u) f = u"
  using ob_op.pack_unpack ob_resp.pack_unpack oe_op.pack_unpack by simp

end
