(* ===== verification/Order_Book.thy ===== *)
theory Order_Book
  imports Aat_Interfaces
begin

text \<open>
  \<^verbatim>\<open>hw/orderBook/orderbook.cpp\<close>, \<^verbatim>\<open>orderbook.hpp\<close>, \<^verbatim>\<open>orderbook_top.cpp\<close>: the order book
  kernel.  For every symbol the kernel keeps six 160-bit vectors (count, price and quantity for the
  bid and the ask side), each of them five 32-bit price levels, level 0 lowest.  The slot
  operations below are the slice assignments of the \<^verbatim>\<open>switch(level)\<close> bodies, which the source
  repeats for the three vectors of either side.

  The specification is a map from side and symbol to a list of five \<open>bookLevel\<close>s, on which add is
  list insertion, delete is list removal and modify is list update; \<open>absBook\<close> relates the two.
\<close>

section \<open>Book storage\<close>

record orderBook =
  orderBookBidCount :: "8 word \<Rightarrow> 160 word"
  orderBookBidPrice :: "8 word \<Rightarrow> 160 word"
  orderBookBidQuantity :: "8 word \<Rightarrow> 160 word"
  orderBookAskCount :: "8 word \<Rightarrow> 160 word"
  orderBookAskPrice :: "8 word \<Rightarrow> 160 word"
  orderBookAskQuantity :: "8 word \<Rightarrow> 160 word"

definition emptyBook :: orderBook where
  "emptyBook =
     \<lparr>orderBookBidCount = \<lambda>_. 0, orderBookBidPrice = \<lambda>_. 0, orderBookBidQuantity = \<lambda>_. 0,
      orderBookAskCount = \<lambda>_. 0, orderBookAskPrice = \<lambda>_. 0, orderBookAskQuantity = \<lambda>_. 0\<rparr>"

definition queryPriceLevel :: "8 word \<Rightarrow> 8 word" where
  "queryPriceLevel level = (if LEVEL_UNSPECIFIED = level then 0 else level)"

text \<open>The body of \<^verbatim>\<open>switch(level)\<close> in \<^verbatim>\<open>operationAdd\<close>, for one vector.\<close>

definition addSlot :: "8 word \<Rightarrow> 32 word \<Rightarrow> 160 word \<Rightarrow> 160 word" where
  "addSlot level v w =
     (if level = 0 then upd 31 0 v (upd 159 32 (rng 127 0 w :: 128 word) w)
      else if level = 1 then upd 63 32 v (upd 159 64 (rng 127 32 w :: 96 word) w)
      else if level = 2 then upd 95 64 v (upd 159 96 (rng 127 64 w :: 64 word) w)
      else if level = 3 then upd 127 96 v (upd 159 128 (rng 127 96 w :: 32 word) w)
      else if level = 4 then upd 159 128 v w
      else w)"

definition modifySlot :: "8 word \<Rightarrow> 32 word \<Rightarrow> 160 word \<Rightarrow> 160 word" where
  "modifySlot level v w =
     (if level = 0 then upd 31 0 v w
      else if level = 1 then upd 63 32 v w
      else if level = 2 then upd 95 64 v w
      else if level = 3 then upd 127 96 v w
      else if level = 4 then upd 159 128 v w
      else w)"

definition deleteSlot :: "8 word \<Rightarrow> 160 word \<Rightarrow> 160 word" where
  "deleteSlot level w =
     (if level = 0 then upd 159 128 (0 :: 32 word) (upd 127 0 (rng 159 32 w :: 128 word) w)
      else if level = 1 then upd 159 128 (0 :: 32 word) (upd 127 32 (rng 159 64 w :: 96 word) w)
      else if level = 2 then upd 159 128 (0 :: 32 word) (upd 127 64 (rng 159 96 w :: 64 word) w)
      else if level = 3 then upd 159 128 (0 :: 32 word) (upd 127 96 (rng 159 128 w :: 32 word) w)
      else if level = 4 then upd 159 128 (0 :: 32 word) w
      else w)"

section \<open>Book operations\<close>

definition operationAdd ::
  "8 word \<Rightarrow> 32 word \<Rightarrow> 32 word \<Rightarrow> 32 word \<Rightarrow> 8 word \<Rightarrow> 8 word \<Rightarrow> orderBook \<Rightarrow> orderBook" where
  "operationAdd symbolIndex orderCount quantity price direction level b =
     (if ORDER_BID = direction then
        b\<lparr>orderBookBidCount := (orderBookBidCount b)(symbolIndex := addSlot level orderCount (orderBookBidCount b symbolIndex)),
          orderBookBidPrice := (orderBookBidPrice b)(symbolIndex := addSlot level price (orderBookBidPrice b symbolIndex)),
          orderBookBidQuantity := (orderBookBidQuantity b)(symbolIndex := addSlot level quantity (orderBookBidQuantity b symbolIndex))\<rparr>
      else if ORDER_ASK = direction then
        b\<lparr>orderBookAskCount := (orderBookAskCount b)(symbolIndex := addSlot level orderCount (orderBookAskCount b symbolIndex)),
          orderBookAskPrice := (orderBookAskPrice b)(symbolIndex := addSlot level price (orderBookAskPrice b symbolIndex)),
          orderBookAskQuantity := (orderBookAskQuantity b)(symbolIndex := addSlot level quantity (orderBookAskQuantity b symbolIndex))\<rparr>
      else b)"

definition operationModify ::
  "8 word \<Rightarrow> 32 word \<Rightarrow> 32 word \<Rightarrow> 32 word \<Rightarrow> 8 word \<Rightarrow> 8 word \<Rightarrow> orderBook \<Rightarrow> orderBook" where
  "operationModify symbolIndex orderCount quantity price direction level b =
     (if ORDER_BID = direction then
        b\<lparr>orderBookBidCount := (orderBookBidCount b)(symbolIndex := modifySlot level orderCount (orderBookBidCount b symbolIndex)),
          orderBookBidPrice := (orderBookBidPrice b)(symbolIndex := modifySlot level price (orderBookBidPrice b symbolIndex)),
          orderBookBidQuantity := (orderBookBidQuantity b)(symbolIndex := modifySlot level quantity (orderBookBidQuantity b symbolIndex))\<rparr>
      else if ORDER_ASK = direction then
        b\<lparr>orderBookAskCount := (orderBookAskCount b)(symbolIndex := modifySlot level orderCount (orderBookAskCount b symbolIndex)),
          orderBookAskPrice := (orderBookAskPrice b)(symbolIndex := modifySlot level price (orderBookAskPrice b symbolIndex)),
          orderBookAskQuantity := (orderBookAskQuantity b)(symbolIndex := modifySlot level quantity (orderBookAskQuantity b symbolIndex))\<rparr>
      else b)"

text \<open>\<^verbatim>\<open>operationDelete\<close> ignores the count, quantity and price of the operation.\<close>

definition operationDelete ::
  "8 word \<Rightarrow> 32 word \<Rightarrow> 32 word \<Rightarrow> 32 word \<Rightarrow> 8 word \<Rightarrow> 8 word \<Rightarrow> orderBook \<Rightarrow> orderBook" where
  "operationDelete symbolIndex orderCount quantity price direction level b =
     (if ORDER_BID = direction then
        b\<lparr>orderBookBidCount := (orderBookBidCount b)(symbolIndex := deleteSlot level (orderBookBidCount b symbolIndex)),
          orderBookBidPrice := (orderBookBidPrice b)(symbolIndex := deleteSlot level (orderBookBidPrice b symbolIndex)),
          orderBookBidQuantity := (orderBookBidQuantity b)(symbolIndex := deleteSlot level (orderBookBidQuantity b symbolIndex))\<rparr>
      else if ORDER_ASK = direction then
        b\<lparr>orderBookAskCount := (orderBookAskCount b)(symbolIndex := deleteSlot level (orderBookAskCount b symbolIndex)),
          orderBookAskPrice := (orderBookAskPrice b)(symbolIndex := deleteSlot level (orderBookAskPrice b symbolIndex)),
          orderBookAskQuantity := (orderBookAskQuantity b)(symbolIndex := deleteSlot level (orderBookAskQuantity b symbolIndex))\<rparr>
      else b)"

text \<open>The two transact operations and halt are placeholders that only log.\<close>

definition operationTransactVisible :: "orderBook \<Rightarrow> orderBook" where
  "operationTransactVisible b = b"

definition operationTransactHidden :: "orderBook \<Rightarrow> orderBook" where
  "operationTransactHidden b = b"

definition operationHalt :: "orderBook \<Rightarrow> orderBook" where
  "operationHalt b = b"

text \<open>The opcode dispatch of \<^verbatim>\<open>operationProcess\<close> and the response it builds.\<close>

definition bookApply :: "orderBookOperation \<Rightarrow> orderBook \<Rightarrow> orderBook" where
  "bookApply operation b =
     (let opCode = obo_opCode operation; symbolIndex = obo_symbolIndex operation;
          orderCount = obo_orderCount operation; quantity = obo_quantity operation;
          price = obo_price operation; direction = obo_direction operation;
          level = obo_level operation in
      if ORDERBOOK_ADD = opCode then operationAdd symbolIndex orderCount quantity price direction level b
      else if ORDERBOOK_MODIFY = opCode then operationModify symbolIndex orderCount quantity price direction level b
      else if ORDERBOOK_DELETE = opCode then operationDelete symbolIndex orderCount quantity price direction level b
      else if ORDERBOOK_TRANSACT_VISIBLE = opCode then operationTransactVisible b
      else if ORDERBOOK_TRANSACT_HIDDEN = opCode then operationTransactHidden b
      else if ORDERBOOK_HALT = opCode then operationHalt b
      else b)"

definition bookResponse :: "orderBookOperation \<Rightarrow> orderBook \<Rightarrow> orderBookResponse" where
  "bookResponse operation b =
     (let symbolIndex = obo_symbolIndex operation in
      \<lparr>obr_timestamp = rng 55 0 (obo_timestamp operation), obr_symbolIndex = symbolIndex,
       obr_bidCount = orderBookBidCount b symbolIndex, obr_bidPrice = orderBookBidPrice b symbolIndex,
       obr_bidQuantity = orderBookBidQuantity b symbolIndex,
       obr_askCount = orderBookAskCount b symbolIndex, obr_askPrice = orderBookAskPrice b symbolIndex,
       obr_askQuantity = orderBookAskQuantity b symbolIndex\<rparr>)"

section \<open>The kernel\<close>

text \<open>
  The status registers and the static counters behind them have the same shape; a stage bumps its
  counters and copies them to the registers on every call, idle or not.  The reserved registers
  are left out.
\<close>

record orderBookRegs =
  rg_rxOperation :: "32 word"
  rg_processOperation :: "32 word"
  rg_invalidOperation :: "32 word"
  rg_generateResponse :: "32 word"
  rg_txResponse :: "32 word"
  rg_addOperation :: "32 word"
  rg_modifyOperation :: "32 word"
  rg_deleteOperation :: "32 word"
  rg_transactOperation :: "32 word"
  rg_haltOperation :: "32 word"
  rg_timestampError :: "32 word"
  rg_operationError :: "32 word"
  rg_symbolError :: "32 word"
  rg_directionError :: "32 word"
  rg_levelError :: "32 word"
  rg_rxEvent :: "32 word"

definition zeroRegs :: orderBookRegs where
  "zeroRegs =
     \<lparr>rg_rxOperation = 0, rg_processOperation = 0, rg_invalidOperation = 0, rg_generateResponse = 0,
      rg_txResponse = 0, rg_addOperation = 0, rg_modifyOperation = 0, rg_deleteOperation = 0,
      rg_transactOperation = 0, rg_haltOperation = 0, rg_timestampError = 0, rg_operationError = 0,
      rg_symbolError = 0, rg_directionError = 0, rg_levelError = 0, rg_rxEvent = 0\<rparr>"

record obKernel =
  ob_book :: orderBook
  ob_count :: orderBookRegs
  ob_status :: orderBookRegs
  ob_capture :: "1024 word"
  ob_operationStreamPack :: "224 word hls_stream"
  ob_operationStreamFIFO :: "orderBookOperation hls_stream"
  ob_responseStreamFIFO :: "orderBookResponse hls_stream"
  ob_responseStreamPack :: "1024 word hls_stream"
  ob_dataMoveStreamPack :: "1024 word hls_stream"
  ob_eventStream :: "8 word hls_stream"

record orderBookRegControl =
  obc_control :: "32 word"
  obc_capture :: "32 word"

definition operationPull :: "obKernel \<Rightarrow> obKernel" where
  "operationPull k =
     (let k' = (if \<not> s_empty (ob_operationStreamPack k) then
                  k\<lparr>ob_operationStreamPack := s_rest (ob_operationStreamPack k),
                    ob_operationStreamFIFO := s_write (ob_operationStreamFIFO k)
                      (orderBookOperationUnpack (s_head (ob_operationStreamPack k))),
                    ob_count := (ob_count k)\<lparr>rg_rxOperation := rg_rxOperation (ob_count k) + 1\<rparr>\<rparr>
                else k)
      in k'\<lparr>ob_status := (ob_status k')\<lparr>rg_rxOperation := rg_rxOperation (ob_count k')\<rparr>\<rparr>)"

definition countOpCode :: "8 word \<Rightarrow> orderBookRegs \<Rightarrow> orderBookRegs" where
  "countOpCode opCode c =
     (if ORDERBOOK_ADD = opCode then c\<lparr>rg_addOperation := rg_addOperation c + 1\<rparr>
      else if ORDERBOOK_MODIFY = opCode then c\<lparr>rg_modifyOperation := rg_modifyOperation c + 1\<rparr>
      else if ORDERBOOK_DELETE = opCode then c\<lparr>rg_deleteOperation := rg_deleteOperation c + 1\<rparr>
      else if ORDERBOOK_TRANSACT_VISIBLE = opCode then c\<lparr>rg_transactOperation := rg_transactOperation c + 1\<rparr>
      else if ORDERBOOK_TRANSACT_HIDDEN = opCode then c\<lparr>rg_transactOperation := rg_transactOperation c + 1\<rparr>
      else if ORDERBOOK_HALT = opCode then c\<lparr>rg_haltOperation := rg_haltOperation c + 1\<rparr>
      else c\<lparr>rg_invalidOperation := rg_invalidOperation c + 1\<rparr>)"

definition countProcess :: "orderBookOperation \<Rightarrow> orderBookRegs \<Rightarrow> orderBookRegs" where
  "countProcess operation c =
     (let c1 = countOpCode (obo_opCode operation) (c\<lparr>rg_processOperation := rg_processOperation c + 1\<rparr>)
      in c1\<lparr>rg_generateResponse := rg_generateResponse c1 + 1\<rparr>)"

definition publishProcess :: "orderBookRegs \<Rightarrow> orderBookRegs \<Rightarrow> orderBookRegs" where
  "publishProcess c r =
     r\<lparr>rg_processOperation := rg_processOperation c, rg_invalidOperation := rg_invalidOperation c,
       rg_generateResponse := rg_generateResponse c, rg_addOperation := rg_addOperation c,
       rg_modifyOperation := rg_modifyOperation c, rg_deleteOperation := rg_deleteOperation c,
       rg_transactOperation := rg_transactOperation c, rg_haltOperation := rg_haltOperation c,
       rg_timestampError := rg_timestampError c, rg_operationError := rg_operationError c,
       rg_symbolError := rg_symbolError c, rg_directionError := rg_directionError c,
       rg_levelError := rg_levelError c\<rparr>"

definition operationProcess :: "obKernel \<Rightarrow> obKernel" where
  "operationProcess k =
     (let k' = (if \<not> s_empty (ob_operationStreamFIFO k) then
                  (let operation = s_head (ob_operationStreamFIFO k);
                       b = bookApply operation (ob_book k) in
                   k\<lparr>ob_operationStreamFIFO := s_rest (ob_operationStreamFIFO k),
                     ob_book := b,
                     ob_responseStreamFIFO := s_write (ob_responseStreamFIFO k) (bookResponse operation b),
                     ob_count := countProcess operation (ob_count k)\<rparr>)
                else k)
      in k'\<lparr>ob_status := publishProcess (ob_count k') (ob_status k')\<rparr>)"

definition responsePush :: "orderBookRegControl \<Rightarrow> obKernel \<Rightarrow> obKernel" where
  "responsePush ctl k =
     (let k' = (if \<not> s_empty (ob_responseStreamFIFO k) then
                  (let responsePack = orderBookResponsePack (s_head (ob_responseStreamFIFO k)) 0 in
                   k\<lparr>ob_responseStreamFIFO := s_rest (ob_responseStreamFIFO k),
                     ob_responseStreamPack := s_write (ob_responseStreamPack k) responsePack,
                     ob_count := (ob_count k)\<lparr>rg_txResponse := rg_txResponse (ob_count k) + 1\<rparr>,
                     ob_dataMoveStreamPack :=
                       (if bit (obc_control ctl) 3 then s_write (ob_dataMoveStreamPack k) responsePack
                        else ob_dataMoveStreamPack k),
                     ob_capture := (if \<not> bit (obc_capture ctl) 31 then responsePack else ob_capture k)\<rparr>)
                else k)
      in k'\<lparr>ob_status := (ob_status k')\<lparr>rg_txResponse := rg_txResponse (ob_count k')\<rparr>\<rparr>)"

definition ob_eventHandler :: "obKernel \<Rightarrow> obKernel" where
  "ob_eventHandler k =
     (let k' = (if \<not> s_empty (ob_eventStream k) then
                  k\<lparr>ob_eventStream := s_rest (ob_eventStream k),
                    ob_count := (ob_count k)\<lparr>rg_rxEvent := rg_rxEvent (ob_count k) + 1\<rparr>\<rparr>
                else k)
      in k'\<lparr>ob_status := (ob_status k')\<lparr>rg_rxEvent := rg_rxEvent (ob_count k')\<rparr>\<rparr>)"

definition orderBookTop :: "orderBookRegControl \<Rightarrow> obKernel \<Rightarrow> obKernel" where
  "orderBookTop ctl k = ob_eventHandler (responsePush ctl (operationProcess (operationPull k)))"

text \<open>\<^verbatim>\<open>responseDump\<close>, the drain of the response stream used without a pricing engine.\<close>

definition responseDump :: "1024 word \<Rightarrow> 1024 word hls_stream \<Rightarrow> 1024 word \<times> 1024 word hls_stream" where
  "responseDump dump s = (if \<not> s_empty s then (s_head s, s_rest s) else (dump, s))"

section \<open>Specification: a side is a list of five levels\<close>

definition slots :: "160 word \<Rightarrow> 32 word list" where
  "slots w = [rng 31 0 w, rng 63 32 w, rng 95 64 w, rng 127 96 w, rng 159 128 w]"

lemma length_slots [simp]: "length (slots w) = 5"
  by (simp add: slots_def)

lemma slots_inject: "slots v = slots w \<longleftrightarrow> v = w"
proof
  assume eq: "slots v = slots w"
  show "v = w"
  proof (rule bit_word_eqI)
    fix n assume n: "n < LENGTH(160)"
    have slot: "bit v n = bit w n" if "lo \<le> n" "n \<le> lo + 31" "(rng (lo + 31) lo v :: 32 word) = rng (lo + 31) lo w" for lo
    proof -
      have "bit (rng (lo + 31) lo v :: 32 word) (n - lo) = bit (rng (lo + 31) lo w :: 32 word) (n - lo)"
        using that(3) by simp
      then show ?thesis using that(1,2) by (auto simp: bit_simps)
    qed
    consider "n \<le> 31" | "32 \<le> n" "n \<le> 63" | "64 \<le> n" "n \<le> 95" | "96 \<le> n" "n \<le> 127" | "128 \<le> n"
      by linarith
    then show "bit v n = bit w n"
      using eq n slot [of 0] slot [of 32] slot [of 64] slot [of 96] slot [of 128]
      by cases (simp_all add: slots_def)
  qed
qed simp

definition insertLevel :: "nat \<Rightarrow> 'a \<Rightarrow> 'a list \<Rightarrow> 'a list" where
  "insertLevel i x xs = take NUM_LEVEL (take i xs @ x # drop i xs)"

definition removeLevel :: "nat \<Rightarrow> 'a \<Rightarrow> 'a list \<Rightarrow> 'a list" where
  "removeLevel i z xs = take i xs @ drop (Suc i) xs @ [z]"

lemma removeLevel_insertLevel:
  "i < NUM_LEVEL \<Longrightarrow> length xs = NUM_LEVEL \<Longrightarrow> removeLevel i z (insertLevel i x xs) = take 4 xs @ [z]"
  by (auto simp: removeLevel_def insertLevel_def numeral_eq_Suc length_Suc_conv less_Suc_eq)

lemma level_cases:
  fixes level :: "8 word"
  assumes "unat level < 5"
  obtains "level = 0" | "level = 1" | "level = 2" | "level = 3" | "level = 4"
proof -
  have "unat level = unat (0 :: 8 word) \<or> unat level = unat (1 :: 8 word) \<or> unat level = unat (2 :: 8 word) \<or>
    unat level = unat (3 :: 8 word) \<or> unat level = unat (4 :: 8 word)"
    using assms by auto
  then show thesis using that by (auto simp only: word_unat_eq_iff)
qed

lemma slots_addSlot: "unat level < 5 \<Longrightarrow> slots (addSlot level v w) = insertLevel (unat level) v (slots w)"
  by (erule level_cases)
    (simp_all add: addSlot_def slots_def insertLevel_def rng_simps rng_upd_inside)

lemma slots_modifySlot: "unat level < 5 \<Longrightarrow> slots (modifySlot level v w) = (slots w)[unat level := v]"
  by (erule level_cases) (simp_all add: modifySlot_def slots_def rng_simps)

lemma slots_deleteSlot: "unat level < 5 \<Longrightarrow> slots (deleteSlot level w) = removeLevel (unat level) 0 (slots w)"
  by (erule level_cases)
    (simp_all add: deleteSlot_def slots_def removeLevel_def rng_simps rng_upd_inside)

lemma unsupported_level:
  assumes "5 \<le> unat level"
  shows "addSlot level v w = w" and "modifySlot level v w = w" and "deleteSlot level w = w"
  using assms by (auto simp: addSlot_def modifySlot_def deleteSlot_def)

record bookLevel =
  lv_count :: "32 word"
  lv_price :: "32 word"
  lv_quantity :: "32 word"

definition noLevel :: bookLevel where
  "noLevel = \<lparr>lv_count = 0, lv_price = 0, lv_quantity = 0\<rparr>"

definition zipLevels :: "160 word \<Rightarrow> 160 word \<Rightarrow> 160 word \<Rightarrow> bookLevel list" where
  "zipLevels c p q =
     map (\<lambda>i. \<lparr>lv_count = slots c ! i, lv_price = slots p ! i, lv_quantity = slots q ! i\<rparr>) [0..<NUM_LEVEL]"

datatype side = Bid | Ask

definition side_of :: "8 word \<Rightarrow> side option" where
  "side_of direction = (if direction = ORDER_BID then Some Bid
                        else if direction = ORDER_ASK then Some Ask else None)"

fun bookSide :: "orderBook \<Rightarrow> side \<Rightarrow> 8 word \<Rightarrow> bookLevel list" where
  "bookSide b Bid s = zipLevels (orderBookBidCount b s) (orderBookBidPrice b s) (orderBookBidQuantity b s)"
| "bookSide b Ask s = zipLevels (orderBookAskCount b s) (orderBookAskPrice b s) (orderBookAskQuantity b s)"

type_synonym absBook = "side \<Rightarrow> 8 word \<Rightarrow> bookLevel list"

text \<open>What one operation does to the abstract book.\<close>

definition absApply :: "orderBookOperation \<Rightarrow> absBook \<Rightarrow> absBook" where
  "absApply operation B =
     (case side_of (obo_direction operation) of
        None \<Rightarrow> B
      | Some d \<Rightarrow>
          (let s = obo_symbolIndex operation; i = unat (obo_level operation);
               l = \<lparr>lv_count = obo_orderCount operation, lv_price = obo_price operation,
                    lv_quantity = obo_quantity operation\<rparr> in
           if NUM_LEVEL \<le> i then B
           else if obo_opCode operation = ORDERBOOK_ADD then B(d := (B d)(s := insertLevel i l (B d s)))
           else if obo_opCode operation = ORDERBOOK_MODIFY then B(d := (B d)(s := (B d s)[i := l]))
           else if obo_opCode operation = ORDERBOOK_DELETE then B(d := (B d)(s := removeLevel i noLevel (B d s)))
           else B))"

lemma length_zipLevels [simp]: "length (zipLevels c p q) = 5"
  by (simp add: zipLevels_def)

lemma length_bookSide [simp]: "length (bookSide b d s) = 5"
  by (cases d) simp_all

lemma zipLevels_inject:
  "zipLevels c p q = zipLevels c' p' q' \<longleftrightarrow> c = c' \<and> p = p' \<and> q = q'"
  by (simp add: zipLevels_def upt_0_5 slots_inject [symmetric]) (auto simp: slots_def)

lemma zipLevels_add:
  "unat level < 5 \<Longrightarrow> zipLevels (addSlot level c0 c) (addSlot level p0 p) (addSlot level q0 q) =
    insertLevel (unat level) \<lparr>lv_count = c0, lv_price = p0, lv_quantity = q0\<rparr> (zipLevels c p q)"
  by (simp add: zipLevels_def slots_addSlot, erule level_cases)
    (simp_all add: insertLevel_def slots_def upt_0_5)

lemma zipLevels_modify:
  "unat level < 5 \<Longrightarrow> zipLevels (modifySlot level c0 c) (modifySlot level p0 p) (modifySlot level q0 q) =
    (zipLevels c p q)[unat level := \<lparr>lv_count = c0, lv_price = p0, lv_quantity = q0\<rparr>]"
  by (simp add: zipLevels_def slots_modifySlot, erule level_cases)
    (simp_all add: slots_def upt_0_5)

lemma zipLevels_delete:
  "unat level < 5 \<Longrightarrow> zipLevels (deleteSlot level c) (deleteSlot level p) (deleteSlot level q) =
    removeLevel (unat level) noLevel (zipLevels c p q)"
  by (simp add: zipLevels_def slots_deleteSlot, erule level_cases)
    (simp_all add: removeLevel_def slots_def upt_0_5 noLevel_def)

lemmas book_op_defs = operationAdd_def operationModify_def operationDelete_def
  operationTransactVisible_def operationTransactHidden_def operationHalt_def

lemma bookSide_apply_bad_level:
  assumes "5 \<le> unat (obo_level operation)"
  shows "bookApply operation b = b"
  using assms by (simp add: bookApply_def book_op_defs unsupported_level Let_def)

lemma bookSide_apply_bad_direction:
  assumes "side_of (obo_direction operation) = None"
  shows "bookApply operation b = b"
  using assms by (auto simp: bookApply_def book_op_defs side_of_def Let_def split: if_splits)

lemma bookSide_apply:
  "bookSide (bookApply operation b) = absApply operation (bookSide b)"
proof (cases "side_of (obo_direction operation)")
  case None
  then show ?thesis by (simp add: bookSide_apply_bad_direction absApply_def)
next
  case (Some d)
  show ?thesis
  proof (cases "5 \<le> unat (obo_level operation)")
    case True
    then show ?thesis using Some by (simp add: bookSide_apply_bad_level absApply_def Let_def)
  next
    case False
    then have lv: "unat (obo_level operation) < 5" by simp
    show ?thesis
    proof (intro ext)
      fix e s
      show "bookSide (bookApply operation b) e s = absApply operation (bookSide b) e s"
        using Some lv
        by (cases d; cases e)
          (simp_all add: bookApply_def absApply_def book_op_defs side_of_def Let_def
             zipLevels_add zipLevels_modify zipLevels_delete split: if_splits)
    qed
  qed
qed

section \<open>The stages of the kernel\<close>

interpretation ob_pull: map_stage operationPull "\<lambda>_. True" ob_operationStreamPack ob_operationStreamFIFO
    "\<lambda>k. rg_rxOperation (ob_count k)" "\<lambda>w. [orderBookOperationUnpack w]"
  by unfold_locales (simp_all add: operationPull_def s_write_def Let_def)

interpretation ob_process: stage operationProcess "\<lambda>_. True" ob_operationStreamFIFO ob_responseStreamFIFO
    "\<lambda>k. (ob_book k, ob_count k)"
    "\<lambda>(b, c) x. ((bookApply x b, countProcess x c), [bookResponse x (bookApply x b)])"
  by unfold_locales (auto simp: operationProcess_def s_write_def Let_def)

interpretation ob_push: map_stage "responsePush ctl" "\<lambda>_. True" ob_responseStreamFIFO ob_responseStreamPack
    "\<lambda>k. rg_txResponse (ob_count k)" "\<lambda>r. [orderBookResponsePack r 0]" for ctl
  by unfold_locales (simp_all add: responsePush_def s_write_def Let_def)

interpretation ob_event: map_stage ob_eventHandler "\<lambda>_. True" ob_eventStream "\<lambda>_. [] :: unit list"
    "\<lambda>k. rg_rxEvent (ob_count k)" "\<lambda>_. []"
  by unfold_locales (simp_all add: ob_eventHandler_def Let_def)

text \<open>
  One call of the top function moves one operation through all three stages, because each stage
  writes the FIFO that the next one reads.  So the kernel as a whole is again a stage.
\<close>

definition ob_idle_fifos :: "obKernel \<Rightarrow> bool" where
  "ob_idle_fifos k \<longleftrightarrow> ob_operationStreamFIFO k = [] \<and> ob_responseStreamFIFO k = []"

definition ob_step :: "orderBook \<Rightarrow> 224 word \<Rightarrow> orderBook \<times> 1024 word list" where
  "ob_step b w =
     (let x = orderBookOperationUnpack w; b' = bookApply x b in
      (b', [orderBookResponsePack (bookResponse x b') 0]))"

lemmas ob_stage_defs = operationPull_def operationProcess_def responsePush_def ob_eventHandler_def

interpretation ob_top: stage "orderBookTop ctl" ob_idle_fifos ob_operationStreamPack ob_responseStreamPack
    ob_book ob_step for ctl
proof (unfold_locales, goal_cases)
  case (1 k)
  then show ?case
    by (cases "ob_operationStreamPack k")
      (simp_all add: orderBookTop_def ob_stage_defs ob_idle_fifos_def s_write_def Let_def)
next
  case (2 k)
  then show ?case
    by (simp add: orderBookTop_def ob_stage_defs ob_idle_fifos_def Let_def)
next
  case (3 k w ws b ys)
  then show ?case
    by (auto simp: orderBookTop_def ob_stage_defs ob_idle_fifos_def ob_step_def s_write_def Let_def)
qed

lemma mealy_ob_step_book:
  "bookSide (fst (mealy ob_step b ws)) = fold absApply (map orderBookOperationUnpack ws) (bookSide b)"
  by (induction ws arbitrary: b) (simp_all add: ob_step_def Let_def bookSide_apply)

text \<open>The response of an operation shows the two sides of its symbol after the operation.\<close>

definition responseSide :: "1024 word \<Rightarrow> side \<Rightarrow> bookLevel list" where
  "responseSide w d =
     (let r = orderBookResponseUnpack w in
      case d of
        Bid \<Rightarrow> zipLevels (obr_bidCount r) (obr_bidPrice r) (obr_bidQuantity r)
      | Ask \<Rightarrow> zipLevels (obr_askCount r) (obr_askPrice r) (obr_askQuantity r))"

fun absResponses :: "absBook \<Rightarrow> orderBookOperation list \<Rightarrow> (8 word \<times> (side \<Rightarrow> bookLevel list)) list" where
  "absResponses B [] = []"
| "absResponses B (x # xs) =
     (let B' = absApply x B; s = obo_symbolIndex x in
      (s, \<lambda>d. B' d s) # absResponses B' xs)"

definition viewResponse :: "1024 word \<Rightarrow> 8 word \<times> (side \<Rightarrow> bookLevel list)" where
  "viewResponse w = (obr_symbolIndex (orderBookResponseUnpack w), responseSide w)"

lemma viewResponse_pack:
  "viewResponse (orderBookResponsePack (bookResponse x b) 0) =
     (obo_symbolIndex x, \<lambda>d. bookSide b d (obo_symbolIndex x))"
proof -
  have "responseSide (orderBookResponsePack (bookResponse x b) 0) d = bookSide b d (obo_symbolIndex x)" for d
    by (cases d) (simp_all add: responseSide_def bookResponse_def Let_def)
  then show ?thesis
    by (auto simp: viewResponse_def bookResponse_def Let_def)
qed

lemma mealy_ob_step_responses:
  "map viewResponse (snd (mealy ob_step b ws)) =
     absResponses (bookSide b) (map orderBookOperationUnpack ws)"
  by (induction ws arbitrary: b)
    (simp_all add: ob_step_def Let_def bookSide_apply viewResponse_pack)

section \<open>Counters\<close>

text \<open>Every operation is counted under exactly one opcode counter and answered once.\<close>

definition ob_counts_ok :: "orderBookRegs \<Rightarrow> bool" where
  "ob_counts_ok c \<longleftrightarrow>
     rg_processOperation c = rg_addOperation c + rg_modifyOperation c + rg_deleteOperation c
       + rg_transactOperation c + rg_haltOperation c + rg_invalidOperation c \<and>
     rg_generateResponse c = rg_processOperation c \<and>
     rg_timestampError c = 0 \<and> rg_operationError c = 0 \<and> rg_symbolError c = 0 \<and>
     rg_directionError c = 0 \<and> rg_levelError c = 0"

lemma ob_counts_ok_countProcess: "ob_counts_ok c \<Longrightarrow> ob_counts_ok (countProcess x c)"
  by (simp add: ob_counts_ok_def countProcess_def countOpCode_def Let_def)

lemma ob_counts_ok_top:
  assumes "ob_counts_ok (ob_count k)"
  shows "ob_counts_ok (ob_count (orderBookTop ctl k))"
proof -
  have keep: "ob_counts_ok (c\<lparr>rg_rxOperation := a\<rparr>) = ob_counts_ok c"
    "ob_counts_ok (c\<lparr>rg_txResponse := a\<rparr>) = ob_counts_ok c"
    "ob_counts_ok (c\<lparr>rg_rxEvent := a\<rparr>) = ob_counts_ok c" for c a
    by (simp_all add: ob_counts_ok_def)
  have "ob_counts_ok (ob_count (operationPull k))"
    using assms by (simp add: operationPull_def Let_def keep)
  then have "ob_counts_ok (ob_count (operationProcess (operationPull k)))"
    by (simp add: operationProcess_def Let_def ob_counts_ok_countProcess)
  then show ?thesis
    by (simp add: orderBookTop_def responsePush_def ob_eventHandler_def Let_def keep)
qed

lemma ob_counts_ok_run: "ob_counts_ok (ob_count k) \<Longrightarrow> ob_counts_ok (ob_count ((orderBookTop ctl ^^ n) k))"
  by (induction n) (simp_all add: ob_counts_ok_top)

section \<open>Properties\<close>

text \<open>C1: the kernel refines the abstract book.  When its internal FIFOs are empty, any number of calls that is
  at least the number of queued operations applies exactly these operations, in order, to the lists
  of price levels, and emits one response per operation with the levels of its symbol at that moment.\<close>

theorem orderBookTop_refines:
  assumes "ob_idle_fifos k" and "length (ob_operationStreamPack k) \<le> n"
  shows "bookSide (ob_book ((orderBookTop ctl ^^ n) k)) =
      fold absApply (map orderBookOperationUnpack (ob_operationStreamPack k)) (bookSide (ob_book k)) \<and>
    (\<exists>rs. ob_responseStreamPack ((orderBookTop ctl ^^ n) k) = ob_responseStreamPack k @ rs \<and>
      map viewResponse rs =
        absResponses (bookSide (ob_book k)) (map orderBookOperationUnpack (ob_operationStreamPack k)))"
  using ob_top.drain [OF assms, of ctl] by (auto simp: mealy_ob_step_book mealy_ob_step_responses)

definition sampleOperation :: orderBookOperation where
  "sampleOperation =
     \<lparr>obo_timestamp = 9, obo_opCode = ORDERBOOK_ADD, obo_symbolIndex = 3, obo_orderId = 1,
      obo_orderCount = 2, obo_quantity = 500, obo_price = 120, obo_direction = ORDER_BID, obo_level = 0\<rparr>"

definition sampleKernel :: obKernel where
  "sampleKernel =
     \<lparr>ob_book = emptyBook, ob_count = zeroRegs, ob_status = zeroRegs, ob_capture = 0,
      ob_operationStreamPack = [orderBookOperationPack sampleOperation 0], ob_operationStreamFIFO = [],
      ob_responseStreamFIFO = [], ob_responseStreamPack = [], ob_dataMoveStreamPack = [], ob_eventStream = []\<rparr>"

theorem orderBookTop_refines_witness:
  "bookSide (ob_book ((orderBookTop \<lparr>obc_control = 0, obc_capture = 0\<rparr> ^^ 1) sampleKernel)) =
     absApply sampleOperation (bookSide emptyBook)"
  using orderBookTop_refines [of sampleKernel 1 "\<lparr>obc_control = 0, obc_capture = 0\<rparr>"]
  by (simp add: sampleKernel_def ob_idle_fifos_def)

text \<open>Deleting the level that has just been added restores the side, except that its lowest level has been
  pushed off the end and is now empty.\<close>

theorem add_then_delete:
  assumes "side_of (obo_direction operation) = Some d" and "unat (obo_level operation) < NUM_LEVEL"
  shows "bookSide (bookApply (operation\<lparr>obo_opCode := ORDERBOOK_DELETE\<rparr>)
      (bookApply (operation\<lparr>obo_opCode := ORDERBOOK_ADD\<rparr>) b)) d (obo_symbolIndex operation) =
    take 4 (bookSide b d (obo_symbolIndex operation)) @ [noLevel]"
  using assms by (simp add: bookSide_apply absApply_def Let_def removeLevel_insertLevel)

theorem add_then_delete_witness:
  "bookSide (bookApply (sampleOperation\<lparr>obo_opCode := ORDERBOOK_DELETE\<rparr>)
      (bookApply (sampleOperation\<lparr>obo_opCode := ORDERBOOK_ADD\<rparr>) emptyBook)) Bid 3 =
    take 4 (bookSide emptyBook Bid 3) @ [noLevel]"
  using add_then_delete [of sampleOperation Bid emptyBook]
  by (simp add: sampleOperation_def side_of_def)

text \<open>An operation touches only the side and the symbol it names, and none at all when its level, its direction
  or its opcode is not one the book supports.\<close>

theorem book_frame:
  assumes "side_of (obo_direction operation) \<noteq> Some d \<or> obo_symbolIndex operation \<noteq> s \<or>
    NUM_LEVEL \<le> unat (obo_level operation) \<or>
    obo_opCode operation \<notin> {ORDERBOOK_ADD, ORDERBOOK_MODIFY, ORDERBOOK_DELETE}"
  shows "bookSide (bookApply operation b) d s = bookSide b d s"
  using assms by (auto simp: bookSide_apply absApply_def Let_def split: option.splits)

theorem book_frame_witness: "bookSide (bookApply sampleOperation emptyBook) Ask 3 = bookSide emptyBook Ask 3"
  using book_frame [of sampleOperation Ask 3 emptyBook] by (simp add: sampleOperation_def side_of_def)

text \<open>In every run from load, each processed operation is counted under exactly one opcode counter and
  answered by one response, and the five error counters never move, although the code has error
  cases for direction and level that these registers are meant to report.\<close>

theorem book_counters:
  assumes "ob_count k = zeroRegs"
  shows "ob_counts_ok (ob_count ((orderBookTop ctl ^^ n) k))"
  by (rule ob_counts_ok_run) (simp add: assms ob_counts_ok_def zeroRegs_def)

theorem book_counters_witness:
  "ob_counts_ok (ob_count ((orderBookTop \<lparr>obc_control = 0, obc_capture = 0\<rparr> ^^ 7) sampleKernel))"
  using book_counters [of sampleKernel 7 "\<lparr>obc_control = 0, obc_capture = 0\<rparr>"] by (simp add: sampleKernel_def)

end
