(* ===== verification/Order_Book_Data_Mover.thy ===== *)
theory Order_Book_Data_Mover
  imports Order_Book
begin

text \<open>
  \<^verbatim>\<open>OrderBook::responseMove\<close> and \<^verbatim>\<open>OrderBook::operationMove\<close> of
  \<^verbatim>\<open>hw/orderBook/orderbook.cpp\<close> and \<^verbatim>\<open>orderbook_data_mover_top.cpp\<close>: the kernel that
  moves book responses to a host ring buffer and order operations from another one, with a
  dispatch throttle and a round-trip latency capture.  Both rings have \<open>65536\<close> cells
  (\<^verbatim>\<open>OB_DM_RING_BUF_LEN\<close>), so a ring is a function on the 16-bit index.
\<close>

record dmRegControl =
  dmc_control :: "32 word"
  dmc_indexTxHead :: "32 word"
  dmc_indexRxTail :: "32 word"
  dmc_rxThrottleRate :: "32 word"

record dmRegStatus =
  dms_indexTxTail :: "32 word"
  dms_txResponse :: "32 word"
  dms_indexRxHead :: "32 word"
  dms_rxOperation :: "32 word"
  dms_latencyMin :: "32 word"
  dms_latencyMax :: "32 word"
  dms_latencySum :: "32 word"
  dms_latencyCount :: "32 word"
  dms_cyclesPre :: "32 word"
  dms_cyclesPost :: "32 word"
  dms_rxThrottleCount :: "32 word"
  dms_rxThrottleEvent :: "32 word"

text \<open>The static variables of the two functions, the rings, the streams and the status registers.\<close>

record dmKernel =
  tx_countCycles :: "32 word"
  tx_countIndexTail :: "16 word"
  tx_countTxResponse :: "32 word"
  tx_ringBuffer :: "16 word \<Rightarrow> 1024 word"
  dm_responseStreamPack :: "1024 word hls_stream"
  rx_countCycles :: "32 word"
  rx_countIndexHead :: "16 word"
  rx_countRxOperation :: "32 word"
  rx_countRxThrottle :: "32 word"
  rx_countRxBackpressure :: "32 word"
  rx_latencyMin :: "32 word"
  rx_latencyMax :: "32 word"
  rx_latencySum :: "32 word"
  rx_latencyCount :: "32 word"
  rx_ringBuffer :: "16 word \<Rightarrow> 256 word"
  dm_operationStreamPack :: "184 word hls_stream"
  dm_status :: dmRegStatus

abbreviation OB_DM_HALT :: "32 word \<Rightarrow> bool" where "OB_DM_HALT ctl \<equiv> bit ctl 0"
abbreviation OB_DM_RTT_ENABLE :: "32 word \<Rightarrow> bool" where "OB_DM_RTT_ENABLE ctl \<equiv> bit ctl 1"
abbreviation OB_DM_RTT_RESET :: "32 word \<Rightarrow> bool" where "OB_DM_RTT_RESET ctl \<equiv> bit ctl 2"

definition tx_tick :: "32 word \<Rightarrow> dmKernel \<Rightarrow> dmKernel" where
  "tx_tick control k =
     (if OB_DM_RTT_RESET control then k\<lparr>tx_countCycles := 0\<rparr>
      else if OB_DM_RTT_ENABLE control then k\<lparr>tx_countCycles := tx_countCycles k + 1\<rparr>
      else k)"

definition tx_transfer :: "32 word \<Rightarrow> dmKernel \<Rightarrow> dmKernel" where
  "tx_transfer control k =
     (if \<not> s_empty (dm_responseStreamPack k) then
        (let data = s_head (dm_responseStreamPack k);
             data = (if OB_DM_RTT_ENABLE control then upd 1023 968 (tx_countCycles k) data else data) in
         k\<lparr>dm_responseStreamPack := s_rest (dm_responseStreamPack k),
           tx_ringBuffer := (tx_ringBuffer k)(tx_countIndexTail k := data),
           tx_countIndexTail := tx_countIndexTail k + 1,
           tx_countTxResponse := tx_countTxResponse k + 1\<rparr>)
      else k)"

definition responseMove :: "dmRegControl \<Rightarrow> dmKernel \<Rightarrow> dmKernel" where
  "responseMove ctl k =
     (let k' = tx_transfer (dmc_control ctl) (tx_tick (dmc_control ctl) k) in
      k'\<lparr>dm_status := (dm_status k')
           \<lparr>dms_cyclesPre := tx_countCycles k', dms_indexTxTail := ucast (tx_countIndexTail k'),
            dms_txResponse := tx_countTxResponse k'\<rparr>\<rparr>)"

definition rx_tick :: "32 word \<Rightarrow> dmKernel \<Rightarrow> dmKernel" where
  "rx_tick control k =
     (if OB_DM_RTT_RESET control then
        k\<lparr>rx_countCycles := 0, rx_latencyMin := 0xffffffff, rx_latencyMax := 0, rx_latencySum := 0,
          rx_latencyCount := 0\<rparr>
      else if OB_DM_RTT_ENABLE control then k\<lparr>rx_countCycles := rx_countCycles k + 1\<rparr>
      else k)"

definition rx_measure :: "184 word \<Rightarrow> dmKernel \<Rightarrow> dmKernel" where
  "rx_measure operationPack k =
     (let operation = orderEntryOperationUnpack operationPack;
          latencyDiff = (ucast (ucast (rx_countCycles k) - oeo_timestamp operation :: 64 word) :: 32 word) in
      k\<lparr>rx_latencySum := rx_latencySum k + latencyDiff,
        rx_latencyCount := rx_latencyCount k + 1,
        rx_latencyMin := (if latencyDiff < rx_latencyMin k then latencyDiff else rx_latencyMin k),
        rx_latencyMax := (if rx_latencyMax k < latencyDiff then latencyDiff else rx_latencyMax k)\<rparr>)"

definition rx_dispatch :: "dmRegControl \<Rightarrow> dmKernel \<Rightarrow> dmKernel" where
  "rx_dispatch ctl k =
     (let operationPack = (ucast (rx_ringBuffer k (rx_countIndexHead k)) :: 184 word);
          k1 = k\<lparr>rx_countIndexHead := rx_countIndexHead k + 1,
                 rx_countRxOperation := rx_countRxOperation k + 1\<rparr>;
          k2 = (if OB_DM_HALT (dmc_control ctl) then k1\<lparr>rx_countRxThrottle := 0\<rparr>
                else k1\<lparr>dm_operationStreamPack := s_write (dm_operationStreamPack k1) operationPack,
                        rx_countRxThrottle := dmc_rxThrottleRate ctl\<rparr>)
      in if OB_DM_RTT_ENABLE (dmc_control ctl) then rx_measure operationPack k2 else k2)"

definition rx_body :: "dmRegControl \<Rightarrow> dmKernel \<Rightarrow> dmKernel" where
  "rx_body ctl k =
     (if rx_countRxThrottle k = 0 then
        (if ucast (rx_countIndexHead k) \<noteq> dmc_indexRxTail ctl then rx_dispatch ctl k else k)
      else
        (let k' = k\<lparr>rx_countRxThrottle := rx_countRxThrottle k - 1\<rparr> in
         if ucast (rx_countIndexHead k') \<noteq> dmc_indexRxTail ctl \<and> rx_countRxThrottle k' = 0
         then k'\<lparr>rx_countRxBackpressure := rx_countRxBackpressure k' + 1\<rparr> else k'))"

definition operationMove :: "dmRegControl \<Rightarrow> dmKernel \<Rightarrow> dmKernel" where
  "operationMove ctl k =
     (let k' = rx_body ctl (rx_tick (dmc_control ctl) k) in
      k'\<lparr>dm_status := (dm_status k')
           \<lparr>dms_indexRxHead := ucast (rx_countIndexHead k'), dms_rxOperation := rx_countRxOperation k',
            dms_latencyMin := rx_latencyMin k', dms_latencyMax := rx_latencyMax k',
            dms_latencySum := rx_latencySum k', dms_latencyCount := rx_latencyCount k',
            dms_cyclesPost := rx_countCycles k', dms_rxThrottleCount := rx_countRxThrottle k',
            dms_rxThrottleEvent := rx_countRxBackpressure k'\<rparr>\<rparr>)"

definition orderBookDataMoverTop :: "dmRegControl \<Rightarrow> dmKernel \<Rightarrow> dmKernel" where
  "orderBookDataMoverTop ctl k = operationMove ctl (responseMove ctl k)"

lemmas tx_defs = responseMove_def tx_transfer_def tx_tick_def
lemmas rx_defs = operationMove_def rx_body_def rx_dispatch_def rx_measure_def rx_tick_def

section \<open>Responses to the host ring\<close>

text \<open>
  The payload of a ring cell is the response without its timestamp slice, which the round-trip
  measurement overwrites when it is enabled.
\<close>

definition tx_payload :: "1024 word \<Rightarrow> 968 word" where
  "tx_payload w = rng 967 0 w"

definition tx_view :: "dmKernel \<Rightarrow> (16 word \<Rightarrow> 968 word) \<times> 16 word" where
  "tx_view k = (tx_payload \<circ> tx_ringBuffer k, tx_countIndexTail k)"

definition tx_store :: "(16 word \<Rightarrow> 968 word) \<times> 16 word \<Rightarrow> 1024 word \<Rightarrow>
    ((16 word \<Rightarrow> 968 word) \<times> 16 word) \<times> unit list" where
  "tx_store rt w = (((fst rt)(snd rt := tx_payload w), snd rt + 1), [])"

lemma tx_payload_upd [simp]: "tx_payload (upd 1023 968 (c :: 32 word) w) = tx_payload w"
  by (simp add: tx_payload_def rng_simps)

interpretation dm_tx: stage "responseMove ctl" "\<lambda>_. True" dm_responseStreamPack "\<lambda>_. []" tx_view tx_store for ctl
proof (unfold_locales, goal_cases)
  case 1
  then show ?case by simp
next
  case (2 k)
  then show ?case by (simp add: tx_defs tx_view_def Let_def)
next
  case (3 k w ws m ys)
  then show ?case
    by (auto simp: tx_defs tx_view_def tx_store_def Let_def fun_eq_iff split: if_splits)
qed

lemma mealy_tx_store: "fst (mealy tx_store rt ws) = ringWrite rt (map tx_payload ws)"
  by (induction ws arbitrary: rt) (auto simp: tx_store_def)

text \<open>After the input is drained, every one of the last \<open>65536\<close> responses is in its cell.\<close>

lemma dm_tx_ring:
  assumes "length (dm_responseStreamPack k) \<le> n" and "i < length (dm_responseStreamPack k)"
    and "length (dm_responseStreamPack k) \<le> i + 65536"
  shows "tx_payload (tx_ringBuffer ((responseMove ctl ^^ n) k) (tx_countIndexTail k + of_nat i)) =
    tx_payload (dm_responseStreamPack k ! i)"
proof -
  let ?ws = "dm_responseStreamPack k"
  have "tx_view ((responseMove ctl ^^ n) k) = ringWrite (tx_view k) (map tx_payload ?ws)"
    using dm_tx.drain(3) [of k n ctl] assms(1) by (simp add: mealy_tx_store)
  then have "tx_payload \<circ> tx_ringBuffer ((responseMove ctl ^^ n) k) =
      fst (ringWrite (tx_payload \<circ> tx_ringBuffer k, tx_countIndexTail k) (map tx_payload ?ws))"
    by (simp add: tx_view_def prod_eq_iff)
  from fun_cong [OF this, of "tx_countIndexTail k + of_nat i"] show ?thesis
    using assms(2,3) by (simp add: ringWrite_lookup)
qed

section \<open>Operations from the host ring\<close>

text \<open>The fields that decide what is dispatched, and one call on them.\<close>

definition rx_view :: "dmKernel \<Rightarrow> 32 word \<times> 16 word \<times> 184 word list" where
  "rx_view k = (rx_countRxThrottle k, rx_countIndexHead k, dm_operationStreamPack k)"

definition rx_next :: "dmRegControl \<Rightarrow> (16 word \<Rightarrow> 256 word) \<Rightarrow>
    32 word \<times> 16 word \<times> 184 word list \<Rightarrow> 32 word \<times> 16 word \<times> 184 word list" where
  "rx_next ctl ring = (\<lambda>(t, h, out).
     if t \<noteq> 0 then (t - 1, h, out)
     else if ucast h = dmc_indexRxTail ctl then (t, h, out)
     else if OB_DM_HALT (dmc_control ctl) then (0, h + 1, out)
     else (dmc_rxThrottleRate ctl, h + 1, out @ [ucast (ring h)]))"

lemma rx_view_move: "rx_view (operationMove ctl k) = rx_next ctl (rx_ringBuffer k) (rx_view k)"
  by (auto simp: rx_view_def rx_next_def rx_defs s_write_def Let_def)

lemma rx_ring_move [simp]: "rx_ringBuffer (operationMove ctl k) = rx_ringBuffer k"
  by (auto simp: rx_defs Let_def)

lemma rx_ring_run [simp]: "rx_ringBuffer ((operationMove ctl ^^ n) k) = rx_ringBuffer k"
  by (induction n) simp_all

lemma rx_view_run: "rx_view ((operationMove ctl ^^ n) k) = (rx_next ctl (rx_ringBuffer k) ^^ n) (rx_view k)"
  by (induction n) (simp_all add: rx_view_move)

text \<open>While the throttle counts down nothing is dispatched.\<close>

lemma rx_throttled:
  "j \<le> unat t \<Longrightarrow> (rx_next ctl ring ^^ j) (t, h, out) = (t - of_nat j, h, out)"
proof (induction j)
  case 0
  then show ?case by simp
next
  case (Suc j)
  have "unat (of_nat j :: 32 word) = j"
    using Suc.prems unsigned_less [of t, where ?'a = nat] by (simp add: unat_of_nat_small)
  then have "t \<noteq> of_nat j" using Suc.prems by auto
  then show ?case
    using Suc by (simp add: rx_next_def algebra_simps)
qed

text \<open>One dispatch and the throttle that follows it: \<open>rate + 1\<close> calls, one ring entry.\<close>

lemma rx_group:
  assumes "\<not> OB_DM_HALT (dmc_control ctl)" and "ucast h \<noteq> dmc_indexRxTail ctl"
  shows "(rx_next ctl ring ^^ Suc (unat (dmc_rxThrottleRate ctl))) (0, h, out) =
    (0, h + 1, out @ [ucast (ring h)])"
proof -
  have "(rx_next ctl ring ^^ Suc (unat (dmc_rxThrottleRate ctl))) (0, h, out) =
      (rx_next ctl ring ^^ unat (dmc_rxThrottleRate ctl)) (dmc_rxThrottleRate ctl, h + 1, out @ [ucast (ring h)])"
    using assms by (simp add: funpow_swap1 rx_next_def)
  then show ?thesis by (simp add: rx_throttled)
qed

lemma ring_not_at_tail:
  assumes "dmc_indexRxTail ctl = ucast (h + of_nat m :: 16 word)" and "0 < m" and "m < 65536"
  shows "ucast h \<noteq> dmc_indexRxTail ctl"
proof
  assume "ucast h = dmc_indexRxTail ctl"
  then have "(ucast h :: 32 word) = ucast (h + of_nat m)" using assms(1) by simp
  then have "h = h + of_nat m"
    using ucast_widen_inject [of h "h + of_nat m", where ?'b = 32] by simp
  then have z: "unat (of_nat m :: 16 word) = 0"
    by (metis add_cancel_right_right unat_0)
  have "unat (of_nat m :: 16 word) = m"
    by (rule unat_of_nat_small) (use assms(3) in simp)
  with z assms(2) show False by simp
qed

lemma rx_groups:
  assumes "\<not> OB_DM_HALT (dmc_control ctl)" and "dmc_indexRxTail ctl = ucast (h + of_nat m :: 16 word)"
    and "m < 65536" and "q \<le> m"
  shows "(rx_next ctl ring ^^ (q * Suc (unat (dmc_rxThrottleRate ctl)))) (0, h, out) =
    (0, h + of_nat q, out @ map (\<lambda>i. ucast (ring (h + of_nat i))) [0..<q])"
  using assms(2-4)
proof (induction q arbitrary: m h out)
  case 0
  then show ?case by simp
next
  case (Suc q)
  then obtain m' where m: "m = Suc m'" by (cases m) auto
  have ne: "ucast h \<noteq> dmc_indexRxTail ctl"
    by (rule ring_not_at_tail [OF Suc.prems(1)]) (use Suc.prems m in simp_all)
  let ?g = "Suc (unat (dmc_rxThrottleRate ctl))"
  have "(rx_next ctl ring ^^ (Suc q * ?g)) (0, h, out) =
      (rx_next ctl ring ^^ (q * ?g)) ((rx_next ctl ring ^^ ?g) (0, h, out))"
    by (simp only: mult_Suc add.commute [of ?g] funpow_add o_apply)
  also have "\<dots> = (rx_next ctl ring ^^ (q * ?g)) (0, h + 1, out @ [ucast (ring h)])"
    by (simp only: rx_group [OF assms(1) ne])
  also have "\<dots> = (0, h + 1 + of_nat q, (out @ [ucast (ring h)]) @ map (\<lambda>i. ucast (ring (h + 1 + of_nat i))) [0..<q])"
    by (rule Suc.IH [of _ m']) (use Suc.prems m in \<open>simp_all add: ac_simps\<close>)
  also have "\<dots> = (0, h + of_nat (Suc q), out @ map (\<lambda>i. ucast (ring (h + of_nat i))) [0..<Suc q])"
    by (simp add: map_upt_Suc ac_simps del: upt_Suc)
  finally show ?case .
qed

lemma rx_at_tail: "ucast h = dmc_indexRxTail ctl \<Longrightarrow> (rx_next ctl ring ^^ n) (0, h, out) = (0, h, out)"
  by (induction n) (simp_all add: rx_next_def)

text \<open>The entries that have left after \<open>n\<close> calls and the throttle then: one entry at the first call of each group of
  \<open>rate + 1\<close> calls, until all \<open>m\<close> have left.\<close>

definition entriesOut :: "nat \<Rightarrow> nat \<Rightarrow> nat \<Rightarrow> nat" where
  "entriesOut rate m n = min m ((n + rate) div Suc rate)"

definition throttleAfter :: "nat \<Rightarrow> nat \<Rightarrow> nat \<Rightarrow> nat" where
  "throttleAfter rate m n = (if n < m * Suc rate \<and> n mod Suc rate \<noteq> 0 then Suc rate - n mod Suc rate else 0)"

lemma entriesOut_group: "q < m \<Longrightarrow> 0 < j \<Longrightarrow> j \<le> rate \<Longrightarrow> entriesOut rate m (q * Suc rate + j) = Suc q"
proof -
  assume q: "q < m" and j: "0 < j" "j \<le> rate"
  then obtain i where i: "j = Suc i" by (cases j) auto
  have "q * Suc rate + j + rate = i + Suc q * Suc rate" by (simp add: i)
  moreover have "(i + Suc q * Suc rate) div Suc rate = Suc q" using j i by (subst div_mult_self1) simp_all
  ultimately show ?thesis using q by (simp add: entriesOut_def min_def del: mult_Suc mult_Suc_right)
qed

lemma entriesOut_whole: "q \<le> m \<Longrightarrow> entriesOut rate m (q * Suc rate) = q"
  by (simp add: entriesOut_def min_def del: mult_Suc mult_Suc_right)

lemma rx_paced:
  assumes "\<not> OB_DM_HALT (dmc_control ctl)" and "dmc_indexRxTail ctl = ucast (h + of_nat m :: 16 word)"
    and "m < 65536" and "rate = unat (dmc_rxThrottleRate ctl)"
  shows "(rx_next ctl ring ^^ n) (0, h, out) = (of_nat (throttleAfter rate m n), h + of_nat (entriesOut rate m n),
    out @ map (\<lambda>i. ucast (ring (h + of_nat i))) [0..<entriesOut rate m n])"
proof (cases "n < m * Suc rate")
  case False
  define r where "r = n - m * Suc rate"
  have n: "n = r + m * Suc rate" using False by (simp add: r_def)
  have "entriesOut rate m n = m"
    unfolding entriesOut_def n by (simp add: min_def less_eq_div_iff_mult_less_eq not_le)
  moreover have "(rx_next ctl ring ^^ n) (0, h, out) = (0, h + of_nat m, out @ map (\<lambda>i. ucast (ring (h + of_nat i))) [0..<m])"
    unfolding n funpow_add o_apply rx_groups [OF assms(1-3) order_refl, folded assms(4)]
    by (rule rx_at_tail) (simp add: assms(2))
  ultimately show ?thesis using False by (simp add: throttleAfter_def)
next
  case True
  define q j where "q = n div Suc rate" and "j = n mod Suc rate"
  have n: "n = j + q * Suc rate" unfolding q_def j_def by (rule mod_div_mult_eq [symmetric])
  have j: "j \<le> rate" using mod_less_divisor [of "Suc rate" n] by (simp add: j_def del: mod_less_divisor)
  have q: "q < m" using True unfolding q_def by (simp add: less_mult_imp_div_less)
  have g: "(rx_next ctl ring ^^ (q * Suc rate)) (0, h, out) =
      (0, h + of_nat q, out @ map (\<lambda>i. ucast (ring (h + of_nat i))) [0..<q])"
    using rx_groups [OF assms(1-3), of q] q assms(4) by simp
  show ?thesis
  proof (cases j)
    case 0
    have "throttleAfter rate m n = 0" using 0 by (simp add: throttleAfter_def flip: j_def)
    moreover have "n = q * Suc rate" using n 0 by simp
    ultimately show ?thesis using g q entriesOut_whole [of q m rate] by (simp del: mult_Suc_right)
  next
    case (Suc i)
    have "dmc_indexRxTail ctl = ucast ((h + of_nat q) + of_nat (m - q) :: 16 word)"
      using assms(2) q by (simp add: of_nat_diff)
    then have ne: "ucast (h + of_nat q) \<noteq> dmc_indexRxTail ctl"
      by (rule ring_not_at_tail) (use q assms(3) in simp_all)
    have e: "entriesOut rate m n = Suc q" using entriesOut_group [OF q, of j rate] j Suc by (simp add: n add.commute)
    have t: "throttleAfter rate m n = rate - i" using True j Suc by (simp add: throttleAfter_def flip: j_def)
    have "(rx_next ctl ring ^^ n) (0, h, out) =
        (rx_next ctl ring ^^ i) (rx_next ctl ring (0, h + of_nat q, out @ map (\<lambda>i. ucast (ring (h + of_nat i))) [0..<q]))"
      unfolding n funpow_add o_apply g Suc by (simp add: funpow_swap1)
    also have "\<dots> = (rx_next ctl ring ^^ i) (dmc_rxThrottleRate ctl, h + of_nat (Suc q),
        out @ map (\<lambda>i. ucast (ring (h + of_nat i))) [0..<Suc q])"
      using assms(1) ne by (simp add: rx_next_def ac_simps)
    also have "\<dots> = (dmc_rxThrottleRate ctl - of_nat i, h + of_nat (Suc q), out @ map (\<lambda>i. ucast (ring (h + of_nat i))) [0..<Suc q])"
      by (rule rx_throttled) (use j Suc assms(4) in simp)
    also have "dmc_rxThrottleRate ctl - of_nat i = of_nat (rate - i)"
      using j Suc assms(4) by (simp add: of_nat_diff)
    finally show ?thesis unfolding e t .
  qed
qed

section \<open>Latency capture\<close>

text \<open>Once a sample has been taken, the minimum is at most the maximum.\<close>

definition latency_ok :: "dmKernel \<Rightarrow> bool" where
  "latency_ok k \<longleftrightarrow> rx_latencyMin k = 0xffffffff \<and> rx_latencyMax k = 0 \<or> rx_latencyMin k \<le> rx_latencyMax k"

lemma latency_minmax:
  fixes lo hi d :: "32 word"
  assumes "lo = 0xffffffff \<and> hi = 0 \<or> lo \<le> hi"
  shows "(if d < lo then d else lo) \<le> (if hi < d then d else hi)"
  using assms word32_max [of d] by (auto simp: not_less)

lemma latency_ok_measure: "latency_ok k \<Longrightarrow> latency_ok (rx_measure w k)"
  using latency_minmax [of "rx_latencyMin k" "rx_latencyMax k"]
  by (simp add: latency_ok_def rx_measure_def Let_def)

lemma latency_ok_fields:
  "rx_latencyMin k' = rx_latencyMin k \<Longrightarrow> rx_latencyMax k' = rx_latencyMax k \<Longrightarrow>
    latency_ok k' = latency_ok k"
  by (simp add: latency_ok_def)

lemma latency_ok_dispatch: "latency_ok k \<Longrightarrow> latency_ok (rx_dispatch ctl k)"
  by (auto simp: rx_dispatch_def Let_def intro!: latency_ok_measure elim: latency_ok_fields [THEN iffD2, rotated 2])

lemma latency_ok_body: "latency_ok k \<Longrightarrow> latency_ok (rx_body ctl k)"
  by (auto simp: rx_body_def Let_def intro!: latency_ok_dispatch elim: latency_ok_fields [THEN iffD2, rotated 2])

lemma latency_ok_move: "latency_ok k \<Longrightarrow> latency_ok (operationMove ctl k)"
proof -
  assume "latency_ok k"
  then have "latency_ok (rx_tick (dmc_control ctl) k)"
    by (auto simp: latency_ok_def rx_tick_def)
  then have "latency_ok (rx_body ctl (rx_tick (dmc_control ctl) k))"
    by (rule latency_ok_body)
  then show ?thesis by (simp add: operationMove_def Let_def latency_ok_def)
qed

section \<open>Properties\<close>

definition sampleMover :: dmKernel where
  "sampleMover =
     \<lparr>tx_countCycles = 0, tx_countIndexTail = 65535, tx_countTxResponse = 0, tx_ringBuffer = \<lambda>i. 0,
      dm_responseStreamPack = [5, 6], rx_countCycles = 0, rx_countIndexHead = 0, rx_countRxOperation = 0,
      rx_countRxThrottle = 0, rx_countRxBackpressure = 0, rx_latencyMin = 0xffffffff, rx_latencyMax = 0,
      rx_latencySum = 0, rx_latencyCount = 0, rx_ringBuffer = \<lambda>i. ucast i + 7, dm_operationStreamPack = [],
      dm_status = \<lparr>dms_indexTxTail = 0, dms_txResponse = 0, dms_indexRxHead = 0, dms_rxOperation = 0,
        dms_latencyMin = 0, dms_latencyMax = 0, dms_latencySum = 0, dms_latencyCount = 0, dms_cyclesPre = 0,
        dms_cyclesPost = 0, dms_rxThrottleCount = 0, dms_rxThrottleEvent = 0\<rparr>\<rparr>"

definition sampleMoverControl :: dmRegControl where
  "sampleMoverControl =
     \<lparr>dmc_control = 0, dmc_indexTxHead = 0, dmc_indexRxTail = 2, dmc_rxThrottleRate = 3\<rparr>"

text \<open>C10: operations leave the host ring in order and paced.  With \<open>m < 65536\<close> entries between head and tail and
  the throttle idle, one entry leaves at the first call of each \<open>rate + 1\<close> calls and none at the others, across
  the wrap of the ring, until the head is at the tail: after any number \<open>n\<close> of calls exactly the first
  \<open>min m \<lceil>n / (rate + 1)\<rceil>\<close> entries have been dispatched, and the throttle counts down the calls to the next.\<close>

theorem operationMove_drains:
  assumes "\<not> OB_DM_HALT (dmc_control ctl)" and "rx_countRxThrottle k = 0"
    and "dmc_indexRxTail ctl = ucast (rx_countIndexHead k + of_nat m :: 16 word)" and "m < 65536"
    and "rate = unat (dmc_rxThrottleRate ctl)" and "d = min m ((n + rate) div (rate + 1))"
  shows "rx_view ((operationMove ctl ^^ n) k) =
    (of_nat (if n < m * (rate + 1) \<and> n mod (rate + 1) \<noteq> 0 then rate + 1 - n mod (rate + 1) else 0),
     rx_countIndexHead k + of_nat d,
     dm_operationStreamPack k @ map (\<lambda>i. ucast (rx_ringBuffer k (rx_countIndexHead k + of_nat i))) [0..<d])"
proof -
  have d: "d = entriesOut rate m n" by (simp add: assms(6) entriesOut_def)
  have t: "(if n < m * (rate + 1) \<and> n mod (rate + 1) \<noteq> 0 then rate + 1 - n mod (rate + 1) else 0) = throttleAfter rate m n"
    by (simp add: throttleAfter_def)
  show ?thesis
    unfolding d t rx_view_run using rx_paced [OF assms(1,3,4,5)] by (simp add: rx_view_def assms(2))
qed

theorem operationMove_drains_witness:
  "rx_view ((operationMove sampleMoverControl ^^ 3) sampleMover) = (1, 1, [7]) \<and>
   rx_view ((operationMove sampleMoverControl ^^ 5) sampleMover) = (3, 2, [7, 8])"
  using operationMove_drains [of sampleMoverControl sampleMover 2 3 1 3]
    operationMove_drains [of sampleMoverControl sampleMover 2 3 2 5]
  by (simp add: sampleMoverControl_def sampleMover_def upt_rec del: funpow.simps)

text \<open>Responses reach the host ring.  Once the input is drained, each of the last 65536 responses is in the
  cell of its index, apart from the timestamp slice that the round-trip measurement may overwrite.
  The kernel never reads the host's index, so a response further back has been overwritten.\<close>

theorem responseMove_ring:
  assumes "length (dm_responseStreamPack k) \<le> n" and "i < length (dm_responseStreamPack k)"
    and "length (dm_responseStreamPack k) \<le> i + 65536"
  shows "tx_payload (tx_ringBuffer ((responseMove ctl ^^ n) k) (tx_countIndexTail k + of_nat i)) =
    tx_payload (dm_responseStreamPack k ! i)"
  by (rule dm_tx_ring [OF assms])

theorem responseMove_ring_witness:
  "tx_payload (tx_ringBuffer ((responseMove sampleMoverControl ^^ 2) sampleMover) (65535 + of_nat 1)) = tx_payload 6"
  using responseMove_ring [of sampleMover 2 1 sampleMoverControl] by (simp add: sampleMover_def)

text \<open>The captured latency minimum never exceeds the maximum once a sample has been taken, through resets and
  changes of the control registers between calls.\<close>

theorem latency_min_max:
  "latency_ok k \<Longrightarrow> latency_ok (fold orderBookDataMoverTop ctls k)"
proof (induction ctls arbitrary: k)
  case (Cons ctl ctls)
  have "latency_ok (responseMove ctl k)"
    using Cons.prems by (auto simp: tx_defs latency_ok_def Let_def)
  then show ?case using Cons.IH latency_ok_move by (simp add: orderBookDataMoverTop_def)
qed simp

theorem latency_min_max_witness: "latency_ok (fold orderBookDataMoverTop [sampleMoverControl] sampleMover)"
  by (rule latency_min_max) (simp add: latency_ok_def sampleMover_def)

end
