(* ===== verification/Clock_Tick.thy ===== *)
theory Clock_Tick
  imports Aat_Interfaces
begin

text \<open>
  \<^verbatim>\<open>ClockTickGenerator::tickProcess\<close> of
  \<^verbatim>\<open>hw/clockTickGenerator/clock_tick_generator.cpp\<close>: five interval timers that wake up the
  event handlers of the other kernels.  One call of \<open>tickProcess\<close> is one clock cycle.

  The locale \<open>ticker\<close> is the contract of one timer inside the kernel; it is interpreted for each of
  the five, with the interval register that the code really compares against.
\<close>

record clockTickRegControl =
  ckc_control :: "32 word"
  ckc_interval00 :: "32 word"
  ckc_interval01 :: "32 word"
  ckc_interval02 :: "32 word"
  ckc_interval03 :: "32 word"
  ckc_interval04 :: "32 word"

record clockTickRegStatus =
  cks_tickCount :: "32 word"
  cks_txCount00 :: "32 word"
  cks_txCount01 :: "32 word"
  cks_txCount02 :: "32 word"
  cks_txCount03 :: "32 word"
  cks_txCount04 :: "32 word"

record clockTickKernel =
  ck_freeCount :: "32 word"
  ck_tickCount00 :: "32 word"
  ck_tickCount01 :: "32 word"
  ck_tickCount02 :: "32 word"
  ck_tickCount03 :: "32 word"
  ck_tickCount04 :: "32 word"
  ck_txCount00 :: "32 word"
  ck_txCount01 :: "32 word"
  ck_txCount02 :: "32 word"
  ck_txCount03 :: "32 word"
  ck_txCount04 :: "32 word"
  ck_eventStream00 :: "8 word hls_stream"
  ck_eventStream01 :: "8 word hls_stream"
  ck_eventStream02 :: "8 word hls_stream"
  ck_eventStream03 :: "8 word hls_stream"
  ck_eventStream04 :: "8 word hls_stream"
  ck_status :: clockTickRegStatus

text \<open>The block the code repeats for each timer: tick count, transmit count, event stream.\<close>

type_synonym timer = "32 word \<times> 32 word \<times> 8 word hls_stream"

fun tick_timer :: "bool \<Rightarrow> 32 word \<Rightarrow> timer \<Rightarrow> timer" where
  "tick_timer enable interval (tick, tx, events) =
     (if enable then
        (if tick = interval then (0, tx + 1, s_write events 1) else (tick + 1, tx, events))
      else (0, tx, events))"

definition tickProcess :: "clockTickRegControl \<Rightarrow> clockTickKernel \<Rightarrow> clockTickKernel" where
  "tickProcess ctl k =
     (let control = ckc_control ctl;
          (tickCount00, txCount00, eventStream00) = tick_timer (bit control 0) (ckc_interval00 ctl)
            (ck_tickCount00 k, ck_txCount00 k, ck_eventStream00 k);
          (tickCount01, txCount01, eventStream01) = tick_timer (bit control 1) (ckc_interval01 ctl)
            (ck_tickCount01 k, ck_txCount01 k, ck_eventStream01 k);
          (tickCount02, txCount02, eventStream02) = tick_timer (bit control 2) (ckc_interval02 ctl)
            (ck_tickCount02 k, ck_txCount02 k, ck_eventStream02 k);
          (tickCount03, txCount03, eventStream03) = tick_timer (bit control 3) (ckc_interval03 ctl)
            (ck_tickCount03 k, ck_txCount03 k, ck_eventStream03 k);
          (tickCount04, txCount04, eventStream04) = tick_timer (bit control 4) (ckc_interval03 ctl)
            (ck_tickCount04 k, ck_txCount04 k, ck_eventStream04 k);
          freeCount = ck_freeCount k + 1 in
      k\<lparr>ck_freeCount := freeCount,
        ck_tickCount00 := tickCount00, ck_tickCount01 := tickCount01, ck_tickCount02 := tickCount02,
        ck_tickCount03 := tickCount03, ck_tickCount04 := tickCount04,
        ck_txCount00 := txCount00, ck_txCount01 := txCount01, ck_txCount02 := txCount02,
        ck_txCount03 := txCount03, ck_txCount04 := txCount04,
        ck_eventStream00 := eventStream00, ck_eventStream01 := eventStream01,
        ck_eventStream02 := eventStream02, ck_eventStream03 := eventStream03,
        ck_eventStream04 := eventStream04,
        ck_status := \<lparr>cks_tickCount = freeCount, cks_txCount00 = txCount00, cks_txCount01 = txCount01,
          cks_txCount02 = txCount02, cks_txCount03 = txCount03, cks_txCount04 = txCount04\<rparr>\<rparr>)"

text \<open>The static variables are zero when the kernel is loaded.\<close>

definition clockTickReset :: clockTickKernel where
  "clockTickReset =
     \<lparr>ck_freeCount = 0, ck_tickCount00 = 0, ck_tickCount01 = 0, ck_tickCount02 = 0,
      ck_tickCount03 = 0, ck_tickCount04 = 0, ck_txCount00 = 0, ck_txCount01 = 0, ck_txCount02 = 0,
      ck_txCount03 = 0, ck_txCount04 = 0, ck_eventStream00 = [], ck_eventStream01 = [],
      ck_eventStream02 = [], ck_eventStream03 = [], ck_eventStream04 = [],
      ck_status = \<lparr>cks_tickCount = 0, cks_txCount00 = 0, cks_txCount01 = 0, cks_txCount02 = 0,
        cks_txCount03 = 0, cks_txCount04 = 0\<rparr>\<rparr>"

definition timer00 :: "clockTickKernel \<Rightarrow> timer" where
  "timer00 k = (ck_tickCount00 k, ck_txCount00 k, ck_eventStream00 k)"

definition timer01 :: "clockTickKernel \<Rightarrow> timer" where
  "timer01 k = (ck_tickCount01 k, ck_txCount01 k, ck_eventStream01 k)"

definition timer02 :: "clockTickKernel \<Rightarrow> timer" where
  "timer02 k = (ck_tickCount02 k, ck_txCount02 k, ck_eventStream02 k)"

definition timer03 :: "clockTickKernel \<Rightarrow> timer" where
  "timer03 k = (ck_tickCount03 k, ck_txCount03 k, ck_eventStream03 k)"

definition timer04 :: "clockTickKernel \<Rightarrow> timer" where
  "timer04 k = (ck_tickCount04 k, ck_txCount04 k, ck_eventStream04 k)"

lemmas timer_defs = timer00_def timer01_def timer02_def timer03_def timer04_def

section \<open>One timer\<close>

text \<open>Until the count meets the interval nothing is emitted; the comparison is for equality, so a
  count above the interval first wraps around.\<close>

lemma tick_count:
  "j \<le> unat (interval - tick) \<Longrightarrow>
    (tick_timer True interval ^^ j) (tick, tx, events) = (tick + of_nat j, tx, events)"
proof (induction j)
  case 0
  then show ?case by simp
next
  case (Suc j)
  have "unat (of_nat j :: 32 word) = j"
    using Suc.prems unsigned_less [of "interval - tick", where ?'a = nat]
    by (simp add: unat_of_nat_small)
  then have "tick + of_nat j \<noteq> interval" using Suc.prems by auto
  then show ?case using Suc by (simp add: ac_simps)
qed

lemma tick_fire:
  "(tick_timer True interval ^^ Suc (unat (interval - tick))) (tick, tx, events) =
    (0, tx + 1, events @ [1])"
  by (simp add: tick_count s_write_def)

lemma tick_periods:
  "(tick_timer True interval ^^ (m * Suc (unat interval))) (0, tx, events) =
    (0, tx + of_nat m, events @ replicate m 1)"
proof (induction m arbitrary: tx events)
  case 0
  then show ?case by simp
next
  case (Suc m)
  have "(tick_timer True interval ^^ (Suc m * Suc (unat interval))) (0, tx, events) =
      (tick_timer True interval ^^ (m * Suc (unat interval)))
        ((tick_timer True interval ^^ Suc (unat interval)) (0, tx, events))"
    by (simp only: mult_Suc add.commute [of "Suc (unat interval)"] funpow_add o_apply)
  also have "\<dots> = (tick_timer True interval ^^ (m * Suc (unat interval))) (0, tx + 1, events @ [1])"
    using tick_fire [of interval 0 tx events] by simp
  finally show ?case by (simp only: Suc.IH) (simp add: ac_simps)
qed

locale ticker =
  fixes step :: "'k \<Rightarrow> 'k"
    and view :: "'k \<Rightarrow> timer"
    and enable :: bool
    and interval :: "32 word"
  assumes view_step: "view (step k) = tick_timer enable interval (view k)"
begin

lemma view_run: "view ((step ^^ n) k) = (tick_timer enable interval ^^ n) (view k)"
  by (induction n) (simp_all add: view_step)

lemma disabled_idle:
  assumes "\<not> enable" and "view k = (tick, tx, events)"
  shows "view ((step ^^ Suc n) k) = (0, tx, events)"
  using assms by (induction n) (simp_all add: view_step)

text \<open>The first event comes on call \<open>unat (interval - tick) + 1\<close> and not before.\<close>

lemma next_event:
  assumes "enable" and "view k = (tick, tx, events)"
  shows "j \<le> unat (interval - tick) \<Longrightarrow> view ((step ^^ j) k) = (tick + of_nat j, tx, events)"
    and "view ((step ^^ Suc (unat (interval - tick))) k) = (0, tx + 1, events @ [1])"
  using assms tick_count [of j interval tick tx events] tick_fire [of interval tick tx events]
  by (simp_all only: view_run)

text \<open>From the start of a period, \<open>m\<close> periods and \<open>r\<close> further calls give exactly \<open>m\<close> events.\<close>

lemma periods:
  assumes "enable" and "view k = (0, tx, events)" and "r \<le> unat interval"
  shows "view ((step ^^ (m * Suc (unat interval) + r)) k) =
    (of_nat r, tx + of_nat m, events @ replicate m 1)"
proof -
  have "view ((step ^^ (m * Suc (unat interval) + r)) k) =
      (tick_timer True interval ^^ r) ((tick_timer True interval ^^ (m * Suc (unat interval))) (0, tx, events))"
    using assms(1,2) by (simp add: view_run add.commute [of _ r] funpow_add del: funpow.simps mult_Suc_right)
  also have "\<dots> = (of_nat r, tx + of_nat m, events @ replicate m 1)"
    using tick_count [of r interval 0] assms(3) by (simp only: tick_periods) simp
  finally show ?thesis .
qed

end

section \<open>The five timers of the kernel\<close>

interpretation tk00: ticker "tickProcess ctl" timer00 "bit (ckc_control ctl) 0" "ckc_interval00 ctl" for ctl
  by unfold_locales (simp add: tickProcess_def timer_defs case_prod_beta Let_def del: tick_timer.simps)

interpretation tk01: ticker "tickProcess ctl" timer01 "bit (ckc_control ctl) 1" "ckc_interval01 ctl" for ctl
  by unfold_locales (simp add: tickProcess_def timer_defs case_prod_beta Let_def del: tick_timer.simps)

interpretation tk02: ticker "tickProcess ctl" timer02 "bit (ckc_control ctl) 2" "ckc_interval02 ctl" for ctl
  by unfold_locales (simp add: tickProcess_def timer_defs case_prod_beta Let_def del: tick_timer.simps)

interpretation tk03: ticker "tickProcess ctl" timer03 "bit (ckc_control ctl) 3" "ckc_interval03 ctl" for ctl
  by unfold_locales (simp add: tickProcess_def timer_defs case_prod_beta Let_def del: tick_timer.simps)

interpretation tk04: ticker "tickProcess ctl" timer04 "bit (ckc_control ctl) 4" "ckc_interval03 ctl" for ctl
  by unfold_locales (simp add: tickProcess_def timer_defs case_prod_beta Let_def del: tick_timer.simps)

text \<open>Nothing but the third interval reaches the fifth timer.\<close>

lemma tickProcess_interval04: "tickProcess (ctl\<lparr>ckc_interval04 := i\<rparr>) k = tickProcess ctl k"
  by (simp add: tickProcess_def del: tick_timer.simps)

lemma tick_freeCount: "ck_freeCount ((tickProcess ctl ^^ n) k) = ck_freeCount k + of_nat n"
  by (induction n) (simp_all add: tickProcess_def Let_def case_prod_beta ac_simps del: tick_timer.simps)

section \<open>Properties\<close>

definition sampleClockControl :: clockTickRegControl where
  "sampleClockControl =
     \<lparr>ckc_control = 31, ckc_interval00 = 2, ckc_interval01 = 3, ckc_interval02 = 4, ckc_interval03 = 5,
      ckc_interval04 = 6\<rparr>"

text \<open>An enabled timer emits one event every \<open>interval + 1\<close> cycles: \<open>m\<close> periods and \<open>r \<le> interval\<close> further
  calls after load give exactly \<open>m\<close> events and leave the count at \<open>r\<close>.  The fifth timer runs
  on the interval of the fourth.\<close>

theorem timer_periods:
  assumes "bit (ckc_control ctl) 0" and "r \<le> unat (ckc_interval00 ctl)"
    and "bit (ckc_control ctl) 4" and "q \<le> unat (ckc_interval03 ctl)"
  shows "timer00 ((tickProcess ctl ^^ (m * Suc (unat (ckc_interval00 ctl)) + r)) clockTickReset) =
      (of_nat r, of_nat m, replicate m 1) \<and>
    timer04 ((tickProcess ctl ^^ (n * Suc (unat (ckc_interval03 ctl)) + q)) clockTickReset) =
      (of_nat q, of_nat n, replicate n 1)"
  using tk00.periods [OF assms(1) _ assms(2), of clockTickReset 0 "[]" m]
    tk04.periods [OF assms(3) _ assms(4), of clockTickReset 0 "[]" n]
  by (simp add: timer_defs clockTickReset_def)

theorem timer_periods_witness:
  "timer00 ((tickProcess sampleClockControl ^^ (7 * 3 + 1)) clockTickReset) = (1, 7, replicate 7 1)"
  using timer_periods [where ctl = sampleClockControl and r = 1 and q = 0 and m = 7 and n = 0]
  by (simp add: sampleClockControl_def bit_simps del: replicate.simps)

text \<open>From any count, whatever the interval was before, the next event of the first timer comes on call
  \<open>(interval - count) mod 2 ^ 32 + 1\<close> and not before: lowering the interval below the running count
  makes the timer count through the whole 32-bit range first.\<close>

theorem timer_next_event:
  assumes "bit (ckc_control ctl) 0" and "j \<le> unat (ckc_interval00 ctl - ck_tickCount00 k)"
  shows "ck_eventStream00 ((tickProcess ctl ^^ j) k) = ck_eventStream00 k \<and>
    ck_eventStream00 ((tickProcess ctl ^^ Suc (unat (ckc_interval00 ctl - ck_tickCount00 k))) k) =
      ck_eventStream00 k @ [1]"
proof -
  have v: "timer00 k = (ck_tickCount00 k, ck_txCount00 k, ck_eventStream00 k)" by (simp add: timer00_def)
  from tk00.next_event(1) [OF assms(1) v assms(2)] tk00.next_event(2) [OF assms(1) v]
  show ?thesis by (simp add: timer00_def del: funpow.simps)
qed

theorem timer_next_event_witness:
  "ck_eventStream00 ((tickProcess sampleClockControl ^^ Suc (unat (2 - 0 :: 32 word))) clockTickReset) = [1]"
  using timer_next_event [of sampleClockControl 0 clockTickReset]
  by (simp add: sampleClockControl_def clockTickReset_def bit_simps del: funpow.simps)

text \<open>The register \<^verbatim>\<open>interval04\<close> has no effect at all: runs that differ only in it are equal.\<close>

theorem interval04_unused:
  "(tickProcess (ctl\<lparr>ckc_interval04 := i\<rparr>) ^^ n) k = (tickProcess ctl ^^ n) k"
proof -
  have "tickProcess (ctl\<lparr>ckc_interval04 := i\<rparr>) = tickProcess ctl"
    by (rule ext) (rule tickProcess_interval04)
  then show ?thesis by simp
qed

end
