(* ===== verification/Line_Filter.thy ===== *)
theory Line_Filter
  imports Aat_Interfaces
begin

text \<open>
  \<^verbatim>\<open>LineFilter::portFilter\<close> of \<^verbatim>\<open>hw/lineHandler/linehandler.cpp\<close>: the
  per-port stage of the line handler that looks up the address and port of each UDP packet in a table
  of 16 filters, forwards the packets that match together with a split identifier, drops the
  others, and optionally echoes everything.

  A register array of \<^verbatim>\<open>NUM_FILTERS\<close> entries is a function of its index.  The two stack
  variables that the echo path packs without having initialised every field are inputs of the model.
\<close>

abbreviation NUM_FILTERS :: nat where "NUM_FILTERS \<equiv> 16"
abbreviation LH_FILTER_DISABLE :: "32 word \<Rightarrow> bool" where "LH_FILTER_DISABLE ctl \<equiv> bit ctl 4"
abbreviation LH_ECHO_ENABLE :: "32 word \<Rightarrow> bool" where "LH_ECHO_ENABLE ctl \<equiv> bit ctl 3"

text \<open>The depth of the streams between the filters and the arbitrator
  (\<^verbatim>\<open>linehandler_top.cpp\<close>).\<close>

abbreviation FILTERED_DEPTH :: nat where "FILTERED_DEPTH \<equiv> 64"

record lineFilterControl =
  lfc_control :: "32 word"
  lfc_echoAddress :: "32 word"
  lfc_echoPort :: "32 word"
  lfc_filterAddress :: "nat \<Rightarrow> 32 word"
  lfc_filterPort :: "nat \<Rightarrow> 32 word"
  lfc_filterSplitIdx :: "nat \<Rightarrow> 32 word"
  lfc_stackMeta :: ipUdpMeta
  lfc_stackPack :: "256 word"

datatype filterState = GET_VALID | FWD | DROP

record lineFilter =
  lf_state :: filterState
  lf_countRxWord :: "32 word"
  lf_countRxMeta :: "32 word"
  lf_countDropWord :: "32 word"
  lf_inputStream :: "axiWord hls_stream"
  lf_inputMetaStream :: "256 word hls_stream"
  lf_echoStream :: "axiWord hls_stream"
  lf_echoMetaStream :: "256 word hls_stream"
  lf_outputStream :: "axiWord hls_stream"
  lf_portIdStream :: "3 word hls_stream"
  lf_regRxWord :: "32 word"
  lf_regRxMeta :: "32 word"
  lf_regDropWord :: "32 word"
  lf_regDebugAddress :: "32 word"
  lf_regDebugPort :: "32 word"

text \<open>\<^verbatim>\<open>ap_uint<16>::countLeadingZeros\<close>.\<close>

definition countLeadingZeros :: "16 word \<Rightarrow> nat" where
  "countLeadingZeros w = length (takeWhile (\<lambda>n. \<not> bit w n) (rev [0..<16]))"

definition filterHit :: "lineFilterControl \<Rightarrow> ipUdpMeta \<Rightarrow> nat \<Rightarrow> bool" where
  "filterHit ctl meta i \<longleftrightarrow>
     udp_srcAddress meta = lfc_filterAddress ctl i \<and> ucast (udp_srcPort meta) = lfc_filterPort ctl i"

text \<open>\<open>filterChk[(NUM_FILTERS-1)-i] = \<dots>\<close> for every \<open>i\<close>, starting from \<open>0\<close>.\<close>

definition filterChk :: "lineFilterControl \<Rightarrow> ipUdpMeta \<Rightarrow> 16 word" where
  "filterChk ctl meta =
     foldl (\<lambda>chk i. if filterHit ctl meta i then set_bit (NUM_FILTERS - 1 - i) chk
                    else unset_bit (NUM_FILTERS - 1 - i) chk) 0 [0..<NUM_FILTERS]"

definition filterMeta :: "lineFilterControl \<Rightarrow> lineFilter \<Rightarrow> lineFilter" where
  "filterMeta ctl k =
     (let currMeta = udpMetaUnpack (s_head (lf_inputMetaStream k));
          k = k\<lparr>lf_inputMetaStream := s_rest (lf_inputMetaStream k),
                lf_countRxMeta := lf_countRxMeta k + 1,
                lf_regDebugAddress := udp_srcAddress currMeta,
                lf_regDebugPort := 0x0000ffff AND ucast (udp_srcPort currMeta)\<rparr>;
          chk = filterChk ctl currMeta in
      if LH_FILTER_DISABLE (lfc_control ctl) then
        k\<lparr>lf_portIdStream := s_write (lf_portIdStream k) 0, lf_state := FWD\<rparr>
      else if chk \<noteq> 0 then
        (let chkIdx = (of_nat (countLeadingZeros chk) :: 3 word) in
         k\<lparr>lf_portIdStream := s_write (lf_portIdStream k) (ucast (lfc_filterSplitIdx ctl (unat chkIdx))),
           lf_state := FWD\<rparr>)
      else k\<lparr>lf_state := DROP\<rparr>)"

definition echoMeta :: "lineFilterControl \<Rightarrow> lineFilter \<Rightarrow> lineFilter" where
  "echoMeta ctl k =
     (if LH_ECHO_ENABLE (lfc_control ctl) then
        k\<lparr>lf_echoMetaStream := s_write (lf_echoMetaStream k)
            (udpMetaPack ((lfc_stackMeta ctl)\<lparr>udp_srcAddress := lfc_echoAddress ctl,
               udp_srcPort := ucast (lfc_echoPort ctl)\<rparr>) (lfc_stackPack ctl))\<rparr>
      else k)"

definition echoWord :: "lineFilterControl \<Rightarrow> axiWord \<Rightarrow> lineFilter \<Rightarrow> lineFilter" where
  "echoWord ctl w k =
     (if LH_ECHO_ENABLE (lfc_control ctl) then k\<lparr>lf_echoStream := s_write (lf_echoStream k) w\<rparr> else k)"

definition forwardWord :: "lineFilterControl \<Rightarrow> lineFilter \<Rightarrow> lineFilter" where
  "forwardWord ctl k =
     (if \<not> s_empty (lf_inputStream k) \<and> \<not> s_full FILTERED_DEPTH (lf_outputStream k) then
        (let currData = s_head (lf_inputStream k) in
         echoWord ctl currData
           (k\<lparr>lf_inputStream := s_rest (lf_inputStream k),
              lf_countRxWord := lf_countRxWord k + 1,
              lf_outputStream := s_write (lf_outputStream k) currData,
              lf_state := (if ax_last currData then GET_VALID else FWD)\<rparr>))
      else k)"

definition dropWord :: "lineFilterControl \<Rightarrow> lineFilter \<Rightarrow> lineFilter" where
  "dropWord ctl k =
     (if \<not> s_empty (lf_inputStream k) then
        (let currData = s_head (lf_inputStream k) in
         echoWord ctl currData
           (k\<lparr>lf_inputStream := s_rest (lf_inputStream k),
              lf_countDropWord := lf_countDropWord k + 1,
              lf_state := (if ax_last currData then GET_VALID else DROP)\<rparr>))
      else k)"

definition portFilter :: "lineFilterControl \<Rightarrow> lineFilter \<Rightarrow> lineFilter" where
  "portFilter ctl k =
     (let k = (case lf_state k of
                 GET_VALID \<Rightarrow>
                   if \<not> s_empty (lf_inputMetaStream k) then echoMeta ctl (filterMeta ctl k) else k
               | FWD \<Rightarrow> forwardWord ctl k
               | DROP \<Rightarrow> dropWord ctl k) in
      k\<lparr>lf_regRxWord := lf_countRxWord k, lf_regRxMeta := lf_countRxMeta k,
        lf_regDropWord := lf_countDropWord k\<rparr>)"

lemmas filter_defs = portFilter_def filterMeta_def echoMeta_def echoWord_def forwardWord_def dropWord_def

section \<open>The table lookup\<close>

lemma filterChk_fold:
  "m \<le> 16 \<Longrightarrow> bit (foldl (\<lambda>chk i. if P i then set_bit (15 - i) chk else unset_bit (15 - i) chk) (0 :: 16 word) [0..<m]) n
    \<longleftrightarrow> n < 16 \<and> 15 - n < m \<and> P (15 - n)"
proof (induction m)
  case 0
  then show ?case by simp
next
  case (Suc m)
  then have "n < 16 \<Longrightarrow> 15 - m = n \<longleftrightarrow> 15 - n = m" by arith
  with Suc show ?case
    by (auto simp: bit_set_bit_iff bit_unset_bit_iff less_Suc_eq dest: bit_imp_le_length)
qed

lemma bit_filterChk: "bit (filterChk ctl meta) n \<longleftrightarrow> n < 16 \<and> filterHit ctl meta (15 - n)"
  using filterChk_fold [of 16 "filterHit ctl meta" n] by (auto simp: filterChk_def cong: if_cong)

definition firstHit :: "(nat \<Rightarrow> bool) \<Rightarrow> nat" where
  "firstHit P = length (takeWhile (\<lambda>i. \<not> P i) [0..<16])"

lemma rev_upt_16: "rev [0..<16] = map (\<lambda>i. 15 - i) [0..<16]"
  by (simp add: upt_rec)

lemma clz_filterChk: "countLeadingZeros (filterChk ctl meta) = firstHit (filterHit ctl meta)"
proof -
  have "takeWhile (\<lambda>i. \<not> bit (filterChk ctl meta) (15 - i)) [0..<16] =
      takeWhile (\<lambda>i. \<not> filterHit ctl meta i) [0..<16]"
    by (rule takeWhile_cong) (auto simp: bit_filterChk)
  then show ?thesis
    by (simp only: countLeadingZeros_def firstHit_def rev_upt_16 takeWhile_map length_map o_def)
qed

lemma filterChk_zero: "filterChk ctl meta = 0 \<longleftrightarrow> (\<forall>i<16. \<not> filterHit ctl meta i)"
proof
  assume z: "filterChk ctl meta = 0"
  show "\<forall>i<16. \<not> filterHit ctl meta i"
  proof (intro allI impI)
    fix i :: nat assume "i < 16"
    then have "15 - i < 16" and "15 - (15 - i) = i" by arith+
    then have "bit (filterChk ctl meta) (15 - i) \<longleftrightarrow> filterHit ctl meta i" by (simp add: bit_filterChk)
    with z show "\<not> filterHit ctl meta i" by simp
  qed
next
  assume "\<forall>i<16. \<not> filterHit ctl meta i"
  then show "filterChk ctl meta = 0" by (auto simp: bit_eq_iff bit_filterChk)
qed

lemma firstHit_eq:
  assumes "i < 16" and "P i" and "\<And>j. j < i \<Longrightarrow> \<not> P j"
  shows "firstHit P = i"
proof -
  have "[0..<16] = [0..<i] @ i # [Suc i..<16]"
    using assms(1) upt_add_eq_append [of 0 i "16 - i"] by (simp add: upt_conv_Cons)
  moreover have "takeWhile (\<lambda>i. \<not> P i) ([0..<i] @ i # [Suc i..<16]) = [0..<i]"
    using assms(2,3) by (subst takeWhile_append2) auto
  ultimately show ?thesis by (simp add: firstHit_def)
qed

text \<open>The decision for one packet: its split identifier, or nothing when it is dropped.\<close>

definition filterDecision :: "lineFilterControl \<Rightarrow> ipUdpMeta \<Rightarrow> 3 word option" where
  "filterDecision ctl meta =
     (if LH_FILTER_DISABLE (lfc_control ctl) then Some 0
      else if \<exists>i<16. filterHit ctl meta i then
        Some (ucast (lfc_filterSplitIdx ctl (firstHit (filterHit ctl meta) mod 8)))
      else None)"

text \<open>What the table is meant to say: the split identifier of the first matching entry.\<close>

definition filterIntended :: "lineFilterControl \<Rightarrow> ipUdpMeta \<Rightarrow> 3 word option" where
  "filterIntended ctl meta =
     (if LH_FILTER_DISABLE (lfc_control ctl) then Some 0
      else if \<exists>i<16. filterHit ctl meta i then
        Some (ucast (lfc_filterSplitIdx ctl (firstHit (filterHit ctl meta))))
      else None)"

lemma unat_of_nat_3: "unat (of_nat n :: 3 word) = n mod 8"
  by (simp add: unat_of_nat take_bit_eq_mod)

lemma filterMeta_decision:
  "lf_portIdStream (filterMeta ctl k) = lf_portIdStream k @
     (case filterDecision ctl (udpMetaUnpack (s_head (lf_inputMetaStream k))) of None \<Rightarrow> [] | Some i \<Rightarrow> [i])"
  "lf_state (filterMeta ctl k) =
     (case filterDecision ctl (udpMetaUnpack (s_head (lf_inputMetaStream k))) of None \<Rightarrow> DROP | Some i \<Rightarrow> FWD)"
  by (auto simp: filterMeta_def filterDecision_def Let_def filterChk_zero clz_filterChk unat_of_nat_3
      s_write_def)

section \<open>Whole packets\<close>

text \<open>The part of the state that says where the packets go.\<close>

definition lf_view :: "lineFilter \<Rightarrow> filterState \<times> 256 word list \<times> axiWord list \<times> axiWord list \<times> 3 word list" where
  "lf_view k = (lf_state k, lf_inputMetaStream k, lf_inputStream k, lf_outputStream k, lf_portIdStream k)"

fun lf_next :: "lineFilterControl \<Rightarrow>
    filterState \<times> 256 word list \<times> axiWord list \<times> axiWord list \<times> 3 word list \<Rightarrow>
    filterState \<times> 256 word list \<times> axiWord list \<times> axiWord list \<times> 3 word list" where
  "lf_next ctl (GET_VALID, m # ms, ws, out, ids) =
     (case filterDecision ctl (udpMetaUnpack m) of
        None \<Rightarrow> (DROP, ms, ws, out, ids) | Some i \<Rightarrow> (FWD, ms, ws, out, ids @ [i]))"
| "lf_next ctl (FWD, ms, w # ws, out, ids) =
     (if length out < FILTERED_DEPTH
      then (if ax_last w then GET_VALID else FWD, ms, ws, out @ [w], ids) else (FWD, ms, w # ws, out, ids))"
| "lf_next ctl (DROP, ms, w # ws, out, ids) = (if ax_last w then GET_VALID else DROP, ms, ws, out, ids)"
| "lf_next ctl v = v"

lemma lf_view_step: "lf_view (portFilter ctl k) = lf_next ctl (lf_view k)"
proof (cases "lf_state k")
  case GET_VALID
  have same: "lf_inputMetaStream (filterMeta ctl k) = s_rest (lf_inputMetaStream k)"
      "lf_inputStream (filterMeta ctl k) = lf_inputStream k"
      "lf_outputStream (filterMeta ctl k) = lf_outputStream k"
    by (simp_all add: filterMeta_def Let_def)
  show ?thesis
    using GET_VALID
    by (cases "lf_inputMetaStream k")
       (auto simp: lf_view_def portFilter_def echoMeta_def Let_def filterMeta_decision same split: option.splits)
next
  case FWD
  then show ?thesis
    by (cases "lf_inputStream k")
       (auto simp: lf_view_def portFilter_def forwardWord_def echoWord_def s_full_def s_write_def Let_def)
next
  case DROP
  then show ?thesis
    by (cases "lf_inputStream k")
       (auto simp: lf_view_def portFilter_def dropWord_def echoWord_def Let_def)
qed

lemma lf_view_run: "lf_view ((portFilter ctl ^^ n) k) = (lf_next ctl ^^ n) (lf_view k)"
  by (induction n) (simp_all add: lf_view_step)

lemma lf_forward_packet:
  "is_packet p \<Longrightarrow> length out + length p \<le> FILTERED_DEPTH \<Longrightarrow>
    (lf_next ctl ^^ length p) (FWD, ms, p @ ws, out, ids) = (GET_VALID, ms, ws, out @ p, ids)"
  by (induction p arbitrary: out) (auto simp: is_packet_Cons funpow_swap1)

lemma lf_drop_packet:
  "is_packet p \<Longrightarrow> (lf_next ctl ^^ length p) (DROP, ms, p @ ws, out, ids) = (GET_VALID, ms, ws, out, ids)"
  by (induction p) (auto simp: is_packet_Cons funpow_swap1)

lemma lf_packet:
  assumes "is_packet p" and "length out + length p \<le> FILTERED_DEPTH"
  shows "(lf_next ctl ^^ Suc (length p)) (GET_VALID, m # ms, p @ ws, out, ids) =
    (case filterDecision ctl (udpMetaUnpack m) of
       None \<Rightarrow> (GET_VALID, ms, ws, out, ids)
     | Some i \<Rightarrow> (GET_VALID, ms, ws, out @ p, ids @ [i]))"
  using assms
  by (simp add: funpow_Suc_right lf_forward_packet lf_drop_packet del: funpow.simps split: option.splits)

section \<open>Properties\<close>

definition sampleFilterControl :: lineFilterControl where
  "sampleFilterControl =
     \<lparr>lfc_control = 0, lfc_echoAddress = 0, lfc_echoPort = 0,
      lfc_filterAddress = \<lambda>i. of_nat i, lfc_filterPort = \<lambda>i. 7, lfc_filterSplitIdx = \<lambda>i. if i < 8 then 1 else 2,
      lfc_stackMeta = \<lparr>udp_srcAddress = 0, udp_srcPort = 0, udp_dstAddress = 0, udp_dstPort = 0,
        udp_length = 0, udp_subSum = 0, udp_validSum = 0\<rparr>,
      lfc_stackPack = 0\<rparr>"

definition sampleMeta :: "32 word \<Rightarrow> ipUdpMeta" where
  "sampleMeta a = \<lparr>udp_srcAddress = a, udp_srcPort = 7, udp_dstAddress = 0, udp_dstPort = 0,
     udp_length = 0, udp_subSum = 0, udp_validSum = 0\<rparr>"

definition sampleWord :: "bool \<Rightarrow> axiWord" where
  "sampleWord l = \<lparr>ax_data = 1, ax_keep = 255, ax_last = l\<rparr>"

text \<open>A packet is forwarded or dropped as a whole.  With the packet queued and room for it downstream, one call
  for the lookup and one per word either move all its words to the output and one split identifier to
  the arbitrator, or discard all of them and emit nothing, as the filter table decides.\<close>

theorem portFilter_packet:
  assumes "lf_view k = (GET_VALID, m # ms, p @ ws, out, ids)"
    and "is_packet p" and "length out + length p \<le> FILTERED_DEPTH"
  shows "lf_view ((portFilter ctl ^^ Suc (length p)) k) =
    (case filterDecision ctl (udpMetaUnpack m) of
       None \<Rightarrow> (GET_VALID, ms, ws, out, ids)
     | Some i \<Rightarrow> (GET_VALID, ms, ws, out @ p, ids @ [i]))"
  using lf_packet [OF assms(2,3), of ctl m ms ws ids] by (simp only: lf_view_run assms(1))

definition sampleFilter :: "256 word list \<Rightarrow> axiWord list \<Rightarrow> lineFilter" where
  "sampleFilter ms ws =
     \<lparr>lf_state = GET_VALID, lf_countRxWord = 0, lf_countRxMeta = 0, lf_countDropWord = 0,
      lf_inputStream = ws, lf_inputMetaStream = ms, lf_echoStream = [], lf_echoMetaStream = [],
      lf_outputStream = [], lf_portIdStream = [], lf_regRxWord = 0, lf_regRxMeta = 0,
      lf_regDropWord = 0, lf_regDebugAddress = 0, lf_regDebugPort = 0\<rparr>"

theorem portFilter_packet_witness:
  "lf_view ((portFilter (sampleFilterControl\<lparr>lfc_control := 16\<rparr>) ^^ Suc 2)
      (sampleFilter [udpMetaPack (sampleMeta 9) 0] [sampleWord False, sampleWord True])) =
    (GET_VALID, [], [], [sampleWord False, sampleWord True], [0])"
proof -
  let ?p = "[sampleWord False, sampleWord True]"
  have v: "lf_view (sampleFilter [udpMetaPack (sampleMeta 9) 0] ?p) =
      (GET_VALID, udpMetaPack (sampleMeta 9) 0 # [], ?p @ [], [], [])"
    by (simp add: lf_view_def sampleFilter_def)
  have p: "is_packet ?p" "length ([] :: axiWord list) + length ?p \<le> FILTERED_DEPTH"
    by (simp_all add: sampleWord_def)
  show ?thesis
    using portFilter_packet [OF v p, of "sampleFilterControl\<lparr>lfc_control := 16\<rparr>"]
    by (simp add: filterDecision_def bit_simps eval_nat_numeral del: funpow.simps)
qed

text \<open>A packet whose first matching table entry is number \<open>i \<ge> 8\<close> gets the split identifier of entry \<open>i - 8\<close>,
  because the index is truncated to the three bits of \<^verbatim>\<open>lhSplitId_t\<close>, although the comment
  in the code and the 16 entries of the table say it is the identifier of the matching entry.\<close>

theorem split_id_truncated:
  assumes "lf_state k = GET_VALID" and "lf_inputMetaStream k = m # ms"
    and "\<not> LH_FILTER_DISABLE (lfc_control ctl)"
    and "8 \<le> i" and "i < 16" and "filterHit ctl (udpMetaUnpack m) i"
    and "\<forall>j<i. \<not> filterHit ctl (udpMetaUnpack m) j"
  shows "lf_portIdStream (portFilter ctl k) = lf_portIdStream k @ [ucast (lfc_filterSplitIdx ctl (i - 8))]"
proof -
  have "filterDecision ctl (udpMetaUnpack m) = Some (ucast (lfc_filterSplitIdx ctl (i - 8)))"
    using assms firstHit_eq [of i "filterHit ctl (udpMetaUnpack m)"]
    by (auto simp: filterDecision_def le_mod_geq)
  then have "lf_next ctl (lf_view k) =
      (FWD, ms, lf_inputStream k, lf_outputStream k, lf_portIdStream k @ [ucast (lfc_filterSplitIdx ctl (i - 8))])"
    using assms(1,2) by (simp add: lf_view_def)
  then show ?thesis
    using lf_view_step [of ctl k] by (simp add: lf_view_def)
qed

theorem split_id_truncated_witness:
  "lf_portIdStream (portFilter sampleFilterControl (sampleFilter [udpMetaPack (sampleMeta 9) 0] [])) = [1] \<and>
   filterIntended sampleFilterControl (sampleMeta 9) = Some 2"
proof -
  have nine: "j < 9 \<Longrightarrow> (9 :: 32 word) \<noteq> of_nat j" for j :: nat
    using of_nat_word_inject [of j 9, where ?'a = 32] by auto
  have "lf_portIdStream (portFilter sampleFilterControl (sampleFilter [udpMetaPack (sampleMeta 9) 0] [])) = [1]"
    using split_id_truncated [of "sampleFilter [udpMetaPack (sampleMeta 9) 0] []" "udpMetaPack (sampleMeta 9) 0"
        "[]" sampleFilterControl 9] nine
    by (auto simp: sampleFilter_def sampleFilterControl_def sampleMeta_def filterHit_def)
  moreover have "firstHit (filterHit sampleFilterControl (sampleMeta 9)) = 9"
    by (rule firstHit_eq) (use nine in \<open>auto simp: sampleFilterControl_def sampleMeta_def filterHit_def\<close>)
  ultimately show ?thesis
    by (auto simp: filterIntended_def sampleFilterControl_def sampleMeta_def filterHit_def intro!: exI [of _ 9])
qed

end
