(* ===== verification/Line_Arbitrator.thy ===== *)
theory Line_Arbitrator
  imports Line_Filter
begin

text \<open>
  \<^verbatim>\<open>LineHandler::lineArbitrator\<close> and \<^verbatim>\<open>LineHandler::eventHandler\<close> of
  \<^verbatim>\<open>hw/lineHandler/linehandler.cpp\<close>: the A/B line arbitration that merges the two
  filtered feeds into one by sequence number, with one expected number per split.

  What the code declares twice, as \<open>\<dots>0\<close> and \<open>\<dots>1\<close>, is a function of the port number here.  The
  read of the split identifier blocks when that stream is empty, so a call is a partial function:
  \<open>None\<close> is a call that never returns.
\<close>

abbreviation LH_RESET_SEQ_NUM :: "32 word \<Rightarrow> bool" where "LH_RESET_SEQ_NUM ctl \<equiv> bit ctl 0"

record arbControl =
  ac_control :: "32 word"
  ac_resetTimerInterval :: "32 word"

datatype arbState = ARB_FETCH | ARB_DECODE | ARB_FORWARD_0 | ARB_FORWARD_1 | ARB_DROP_0 | ARB_DROP_1

record arbRegStatus =
  as_totalSent :: "32 word"
  as_totalWordSent :: "32 word"
  as_totalMissed :: "32 word"
  as_rxFeed :: "1 word \<Rightarrow> 32 word"
  as_txFeed :: "1 word \<Rightarrow> 32 word"
  as_discarded :: "1 word \<Rightarrow> 32 word"

record lineArb =
  la_state :: arbState
  la_wordIn :: axiWord
  la_resetTimerCounter :: "32 word"
  la_activePort :: "1 word"
  la_splitId :: "3 word"
  la_seqNumReceived :: "32 word"
  la_seqNumExpected :: "3 word \<Rightarrow> 32 word"
  la_arbForward :: bool
  la_countTotalSent :: "32 word"
  la_countTotalWordSent :: "32 word"
  la_countTotalMissed :: "32 word"
  la_countRxFeed :: "1 word \<Rightarrow> 32 word"
  la_countTxFeed :: "1 word \<Rightarrow> 32 word"
  la_countDiscarded :: "1 word \<Rightarrow> 32 word"
  la_portStrm :: "1 word \<Rightarrow> axiWord hls_stream"
  la_splitIdStrm :: "1 word \<Rightarrow> 3 word hls_stream"
  la_outputFeed :: "axiWord hls_stream"
  la_regs :: arbRegStatus

definition arbPrologue :: "arbControl \<Rightarrow> lineArb \<Rightarrow> lineArb" where
  "arbPrologue ctl k =
     (let k = (if la_resetTimerCounter k \<noteq> 0
               then k\<lparr>la_resetTimerCounter := la_resetTimerCounter k - 1\<rparr> else k) in
      if LH_RESET_SEQ_NUM (ac_control ctl) then k\<lparr>la_seqNumExpected := \<lambda>i. 0\<rparr> else k)"

text \<open>The four read blocks of \<^verbatim>\<open>ARB_FETCH\<close>, for port \<open>p\<close>.\<close>

definition arbReadPort :: "1 word \<Rightarrow> lineArb \<Rightarrow> lineArb option" where
  "arbReadPort p k =
     (if s_empty (la_splitIdStrm k p) then None
      else Some (let word = s_head (la_portStrm k p) in
        k\<lparr>la_activePort := p, la_wordIn := word,
          la_portStrm := (la_portStrm k)(p := s_rest (la_portStrm k p)),
          la_splitId := s_head (la_splitIdStrm k p),
          la_splitIdStrm := (la_splitIdStrm k)(p := s_rest (la_splitIdStrm k p)),
          la_seqNumReceived := rng 31 0 (ax_data word),
          la_state := ARB_DECODE\<rparr>))"

definition arbFetch :: "lineArb \<Rightarrow> lineArb option" where
  "arbFetch k =
     (if 1 = la_activePort k then
        (if \<not> s_empty (la_portStrm k 0) then arbReadPort 0 k
         else if \<not> s_empty (la_portStrm k 1) then arbReadPort 1 k
         else Some k)
      else
        (if \<not> s_empty (la_portStrm k 1) then arbReadPort 1 k
         else if \<not> s_empty (la_portStrm k 0) then arbReadPort 0 k
         else Some k))"

text \<open>The arbitration decision: forward or not, the new expected number, the new reset timer, and
  whether a gap is counted.\<close>

definition arbDecision :: "32 word \<Rightarrow> 32 word \<Rightarrow> 32 word \<Rightarrow> 32 word \<Rightarrow> bool \<times> 32 word \<times> 32 word \<times> bool" where
  "arbDecision interval seq expected timer =
     (if 0 = seq then
        (if timer \<noteq> 0 then (False, expected, timer, False) else (True, seq + 1, interval, False))
      else if seq < expected then (False, expected, timer, False)
      else if seq = expected then (True, seq + 1, timer, False)
      else if timer \<noteq> 0 then (False, expected, timer, False)
      else (True, seq + 1, timer, True))"

definition arbDecode :: "arbControl \<Rightarrow> lineArb \<Rightarrow> lineArb" where
  "arbDecode ctl k =
     (let (forward, expected, timer, missed) =
            arbDecision (ac_resetTimerInterval ctl) (la_seqNumReceived k)
              (la_seqNumExpected k (la_splitId k)) (la_resetTimerCounter k);
          port = la_activePort k;
          k = k\<lparr>la_arbForward := forward,
                la_seqNumExpected := (la_seqNumExpected k)(la_splitId k := expected),
                la_resetTimerCounter := timer,
                la_countTotalMissed := la_countTotalMissed k + (if missed then 1 else 0),
                la_countRxFeed := (la_countRxFeed k)(port := la_countRxFeed k port + 1)\<rparr>
      in if forward then
           k\<lparr>la_outputFeed := s_write (la_outputFeed k) (la_wordIn k),
             la_countTotalWordSent := la_countTotalWordSent k + 1,
             la_countTotalSent := la_countTotalSent k + 1,
             la_state := (if 0 = port then ARB_FORWARD_0 else ARB_FORWARD_1)\<rparr>
         else k\<lparr>la_state := (if 0 = port then ARB_DROP_0 else ARB_DROP_1)\<rparr>)"

definition arbForward :: "1 word \<Rightarrow> lineArb \<Rightarrow> lineArb" where
  "arbForward p k =
     (let k = (if \<not> s_empty (la_portStrm k p) then
                 (let word = s_head (la_portStrm k p) in
                  k\<lparr>la_wordIn := word, la_portStrm := (la_portStrm k)(p := s_rest (la_portStrm k p)),
                    la_outputFeed := s_write (la_outputFeed k) word,
                    la_countTotalWordSent := la_countTotalWordSent k + 1\<rparr>)
               else k)
      in if ax_last (la_wordIn k) then
           k\<lparr>la_state := ARB_FETCH, la_countTxFeed := (la_countTxFeed k)(p := la_countTxFeed k p + 1),
             la_countTotalSent := la_countTotalSent k + 1\<rparr>
         else k)"

definition arbDrop :: "1 word \<Rightarrow> lineArb \<Rightarrow> lineArb" where
  "arbDrop p k =
     (let k = (if \<not> s_empty (la_portStrm k p) then
                 k\<lparr>la_wordIn := s_head (la_portStrm k p),
                   la_portStrm := (la_portStrm k)(p := s_rest (la_portStrm k p))\<rparr>
               else k)
      in if ax_last (la_wordIn k) then
           k\<lparr>la_state := ARB_FETCH,
             la_countDiscarded := (la_countDiscarded k)(p := la_countDiscarded k p + 1)\<rparr>
         else k)"

definition arbPublish :: "lineArb \<Rightarrow> lineArb" where
  "arbPublish k =
     k\<lparr>la_regs := \<lparr>as_totalSent = la_countTotalSent k, as_totalWordSent = la_countTotalWordSent k,
        as_totalMissed = la_countTotalMissed k, as_rxFeed = la_countRxFeed k,
        as_txFeed = la_countTxFeed k, as_discarded = la_countDiscarded k\<rparr>\<rparr>"

definition lineArbitrator :: "arbControl \<Rightarrow> lineArb \<Rightarrow> lineArb option" where
  "lineArbitrator ctl k =
     (let k = arbPrologue ctl k in
      map_option arbPublish
        (case la_state k of
           ARB_FETCH \<Rightarrow> arbFetch k
         | ARB_DECODE \<Rightarrow> Some (arbDecode ctl k)
         | ARB_FORWARD_0 \<Rightarrow> Some (arbForward 0 k)
         | ARB_FORWARD_1 \<Rightarrow> Some (arbForward 1 k)
         | ARB_DROP_0 \<Rightarrow> Some (arbDrop 0 k)
         | ARB_DROP_1 \<Rightarrow> Some (arbDrop 1 k)))"

section \<open>One packet\<close>

definition countdown :: "nat \<Rightarrow> 32 word \<Rightarrow> 32 word" where
  "countdown n t = (if unat t \<le> n then 0 else t - of_nat n)"

lemma countdown_0 [simp]: "countdown 0 t = t"
  by (auto simp: countdown_def unat_eq_0)

lemma countdown_add [simp]: "countdown n (countdown m t) = countdown (m + n) t"
proof (cases "unat t \<le> m")
  case False
  have lt: "unat t < 2 ^ 32" using unsigned_less [of t, where ?'a = nat] by simp
  have "(of_nat m :: 32 word) \<le> t"
    using False lt by (simp add: word_le_nat_alt unat_of_nat_small)
  then have "unat (t - of_nat m) = unat t - m"
    using False lt by (simp add: unat_sub unat_of_nat_small)
  with False show ?thesis by (auto simp: countdown_def)
qed (simp add: countdown_def)

lemma arbPrologue_no_reset:
  "\<not> LH_RESET_SEQ_NUM (ac_control ctl) \<Longrightarrow>
    arbPrologue ctl k = k\<lparr>la_resetTimerCounter := countdown 1 (la_resetTimerCounter k)\<rparr>"
proof -
  have "t = 0 \<or> \<not> unat t \<le> 1 \<or> t = 1" for t :: "32 word"
    by (cases "unat t = 0"; cases "unat t = 1") (auto simp: word_unat_eq_iff)
  then show "\<not> LH_RESET_SEQ_NUM (ac_control ctl) \<Longrightarrow>
      arbPrologue ctl k = k\<lparr>la_resetTimerCounter := countdown 1 (la_resetTimerCounter k)\<rparr>"
    by (auto simp: arbPrologue_def countdown_def dest: meta_spec [of _ "la_resetTimerCounter k"])
qed

definition forwarding :: "1 word \<Rightarrow> arbState" where
  "forwarding p = (if 0 = p then ARB_FORWARD_0 else ARB_FORWARD_1)"

definition dropping :: "1 word \<Rightarrow> arbState" where
  "dropping p = (if 0 = p then ARB_DROP_0 else ARB_DROP_1)"

lemma arb_forwarding:
  "\<not> LH_RESET_SEQ_NUM (ac_control ctl) \<Longrightarrow> la_state k = forwarding p \<Longrightarrow>
    lineArbitrator ctl k = Some (arbPublish (arbForward p (arbPrologue ctl k)))"
  using word1_cases [of p] by (auto simp: lineArbitrator_def forwarding_def arbPrologue_def Let_def)

lemma arb_dropping:
  "\<not> LH_RESET_SEQ_NUM (ac_control ctl) \<Longrightarrow> la_state k = dropping p \<Longrightarrow>
    lineArbitrator ctl k = Some (arbPublish (arbDrop p (arbPrologue ctl k)))"
  using word1_cases [of p] by (auto simp: lineArbitrator_def dropping_def arbPrologue_def Let_def)

text \<open>The rest of a forwarded packet takes one call per word.\<close>

lemma arb_forward_rest:
  assumes "\<not> LH_RESET_SEQ_NUM (ac_control ctl)"
  shows "is_packet ws \<Longrightarrow> la_state k = forwarding p \<Longrightarrow> la_portStrm k p = ws @ rest \<Longrightarrow>
    iter_opt (lineArbitrator ctl) (length ws) k = Some (arbPublish
      (k\<lparr>la_state := ARB_FETCH, la_wordIn := last ws,
         la_resetTimerCounter := countdown (length ws) (la_resetTimerCounter k),
         la_portStrm := (la_portStrm k)(p := rest),
         la_outputFeed := la_outputFeed k @ ws,
         la_countTotalWordSent := la_countTotalWordSent k + of_nat (length ws),
         la_countTxFeed := (la_countTxFeed k)(p := la_countTxFeed k p + 1),
         la_countTotalSent := la_countTotalSent k + 1\<rparr>))"
proof (induction ws arbitrary: k)
  case Nil
  then show ?case by simp
next
  case (Cons w ws)
  let ?k1 = "arbPublish (arbForward p (arbPrologue ctl k))"
  have step: "lineArbitrator ctl k = Some ?k1" using assms Cons.prems by (simp add: arb_forwarding)
  show ?case
  proof (cases "ax_last w")
    case True
    then have [simp]: "ws = []" using Cons.prems by (simp add: is_packet_Cons)
    show ?thesis
      using True assms Cons.prems
      by (simp add: step) (simp add: arbForward_def arbPrologue_no_reset arbPublish_def s_write_def Let_def fun_upd_def)
  next
    case False
    then have ws: "is_packet ws" using Cons.prems by (simp add: is_packet_Cons)
    have st: "la_state ?k1 = forwarding p" "la_portStrm ?k1 p = ws @ rest"
      using False assms Cons.prems by (simp_all add: arbForward_def arbPrologue_no_reset arbPublish_def Let_def)
    show ?thesis
      using False assms Cons.prems is_packet_nonempty [OF ws]
      by (simp add: step Cons.IH [OF ws st])
         (simp add: arbForward_def arbPrologue_no_reset arbPublish_def s_write_def Let_def fun_upd_def ac_simps cong: if_cong)
  qed
qed

lemma arb_drop_rest:
  assumes "\<not> LH_RESET_SEQ_NUM (ac_control ctl)"
  shows "is_packet ws \<Longrightarrow> la_state k = dropping p \<Longrightarrow> la_portStrm k p = ws @ rest \<Longrightarrow>
    iter_opt (lineArbitrator ctl) (length ws) k = Some (arbPublish
      (k\<lparr>la_state := ARB_FETCH, la_wordIn := last ws,
         la_resetTimerCounter := countdown (length ws) (la_resetTimerCounter k),
         la_portStrm := (la_portStrm k)(p := rest),
         la_countDiscarded := (la_countDiscarded k)(p := la_countDiscarded k p + 1)\<rparr>))"
proof (induction ws arbitrary: k)
  case Nil
  then show ?case by simp
next
  case (Cons w ws)
  let ?k1 = "arbPublish (arbDrop p (arbPrologue ctl k))"
  have step: "lineArbitrator ctl k = Some ?k1" using assms Cons.prems by (simp add: arb_dropping)
  show ?case
  proof (cases "ax_last w")
    case True
    then have [simp]: "ws = []" using Cons.prems by (simp add: is_packet_Cons)
    show ?thesis
      using True assms Cons.prems
      by (simp add: step) (simp add: arbDrop_def arbPrologue_no_reset arbPublish_def Let_def fun_upd_def)
  next
    case False
    then have ws: "is_packet ws" using Cons.prems by (simp add: is_packet_Cons)
    have st: "la_state ?k1 = dropping p" "la_portStrm ?k1 p = ws @ rest"
      using False assms Cons.prems by (simp_all add: arbDrop_def arbPrologue_no_reset arbPublish_def Let_def)
    show ?thesis
      using False assms Cons.prems is_packet_nonempty [OF ws]
      by (simp add: step Cons.IH [OF ws st])
         (simp add: arbDrop_def arbPrologue_no_reset arbPublish_def Let_def fun_upd_def ac_simps cong: if_cong)
  qed
qed

text \<open>A packet that the round robin picks is forwarded or dropped as a whole.  It takes one call per word and
  one for the decision, which sees the reset timer two calls later.\<close>

definition otherPort :: "1 word \<Rightarrow> 1 word" where
  "otherPort p = (if p = 0 then 1 else 0)"

definition arbPicks :: "1 word \<Rightarrow> lineArb \<Rightarrow> bool" where
  "arbPicks p k \<longleftrightarrow> la_state k = ARB_FETCH \<and> (la_activePort k \<noteq> p \<or> la_portStrm k (otherPort p) = [])"

lemma arbFetch_picks:
  assumes "arbPicks p k" and "la_portStrm k p \<noteq> []"
  shows "arbFetch k = arbReadPort p k"
  using assms word1_cases [of p] word1_cases [of "la_activePort k"]
  by (auto simp: arbPicks_def otherPort_def arbFetch_def s_empty_def)

definition seqOf :: "axiWord \<Rightarrow> 32 word" where
  "seqOf w = rng 31 0 (ax_data w)"

definition arbAfter :: "arbControl \<Rightarrow> 1 word \<Rightarrow> axiWord \<Rightarrow> axiWord list \<Rightarrow> axiWord list \<Rightarrow> 3 word \<Rightarrow> 3 word list \<Rightarrow>
    lineArb \<Rightarrow> lineArb \<Rightarrow> bool" where
  "arbAfter ctl p w ws rest i ids k k' \<longleftrightarrow>
     (case arbDecision (ac_resetTimerInterval ctl) (seqOf w) (la_seqNumExpected k i)
             (countdown 2 (la_resetTimerCounter k)) of
        (forward, expected, timer, missed) \<Rightarrow>
          la_state k' = ARB_FETCH \<and> la_activePort k' = p \<and>
          la_portStrm k' = (la_portStrm k)(p := rest) \<and>
          la_splitIdStrm k' = (la_splitIdStrm k)(p := ids) \<and>
          la_outputFeed k' = la_outputFeed k @ (if forward then w # ws else []) \<and>
          la_seqNumExpected k' = (la_seqNumExpected k)(i := expected) \<and>
          la_resetTimerCounter k' = countdown (length ws) timer \<and>
          la_countTotalMissed k' = la_countTotalMissed k + (if missed then 1 else 0) \<and>
          la_countTotalWordSent k' = la_countTotalWordSent k + (if forward then of_nat (Suc (length ws)) else 0) \<and>
          la_countTotalSent k' = la_countTotalSent k + (if forward then 2 else 0) \<and>
          la_countRxFeed k' = (la_countRxFeed k)(p := la_countRxFeed k p + 1) \<and>
          la_countTxFeed k' = (la_countTxFeed k)(p := la_countTxFeed k p + (if forward then 1 else 0)) \<and>
          la_countDiscarded k' =
            (la_countDiscarded k)(p := la_countDiscarded k p + (if forward then 0 else 1)))"

lemma arb_start:
  assumes "\<not> LH_RESET_SEQ_NUM (ac_control ctl)" and "arbPicks p k"
    and "la_portStrm k p = w # ws" and "la_splitIdStrm k p = i # ids"
    and "arbDecision (ac_resetTimerInterval ctl) (seqOf w) (la_seqNumExpected k i)
       (countdown 2 (la_resetTimerCounter k)) = (forward, expected, timer, missed)"
  shows "\<exists>k'. iter_opt (lineArbitrator ctl) 2 k = Some k' \<and>
    la_state k' = (if forward then forwarding p else dropping p) \<and> la_activePort k' = p \<and>
    la_portStrm k' = (la_portStrm k)(p := ws) \<and> la_splitIdStrm k' = (la_splitIdStrm k)(p := ids) \<and>
    la_outputFeed k' = la_outputFeed k @ (if forward then [w] else []) \<and>
    la_seqNumExpected k' = (la_seqNumExpected k)(i := expected) \<and> la_resetTimerCounter k' = timer \<and>
    la_countTotalMissed k' = la_countTotalMissed k + (if missed then 1 else 0) \<and>
    la_countTotalWordSent k' = la_countTotalWordSent k + (if forward then 1 else 0) \<and>
    la_countTotalSent k' = la_countTotalSent k + (if forward then 1 else 0) \<and>
    la_countRxFeed k' = (la_countRxFeed k)(p := la_countRxFeed k p + 1) \<and>
    la_countTxFeed k' = la_countTxFeed k \<and> la_countDiscarded k' = la_countDiscarded k"
proof -
  let ?k1 = "arbPublish (the (arbReadPort p (arbPrologue ctl k)))"
  let ?k2 = "arbPublish (arbDecode ctl (arbPrologue ctl ?k1))"
  have "arbPicks p (arbPrologue ctl k)" "la_portStrm (arbPrologue ctl k) p \<noteq> []"
    using assms by (simp_all add: arbPicks_def arbPrologue_no_reset)
  note fetch = arbFetch_picks [OF this]
  have fetching: "la_state (arbPrologue ctl k) = ARB_FETCH"
    using assms(1,2) by (simp add: arbPicks_def arbPrologue_no_reset)
  have 1: "lineArbitrator ctl k = Some ?k1"
    unfolding lineArbitrator_def Let_def fetch fetching arbState.case
    using assms(1,4) by (simp add: arbReadPort_def arbPrologue_no_reset)
  have 2: "lineArbitrator ctl ?k1 = Some ?k2"
    using assms(1,4) by (simp add: lineArbitrator_def arbReadPort_def arbPublish_def arbPrologue_no_reset Let_def)
  have "iter_opt (lineArbitrator ctl) 2 k = Some ?k2"
    using 1 2 by (simp only: numeral_2_eq_2 iter_opt.simps option.case)
  then show ?thesis
    using assms
    by (intro exI [of _ ?k2])
       (simp add: arbReadPort_def arbDecode_def arbPublish_def arbPrologue_no_reset seqOf_def forwarding_def
         dropping_def numeral_2_eq_2 s_write_def Let_def)
qed

lemma arb_packet:
  assumes "\<not> LH_RESET_SEQ_NUM (ac_control ctl)" and "arbPicks p k"
    and "la_portStrm k p = w # ws @ rest" and "is_packet ws" and "la_splitIdStrm k p = i # ids"
  shows "\<exists>k'. iter_opt (lineArbitrator ctl) (2 + length ws) k = Some k' \<and> arbAfter ctl p w ws rest i ids k k'"
proof -
  obtain forward expected timer missed where d:
    "arbDecision (ac_resetTimerInterval ctl) (seqOf w) (la_seqNumExpected k i)
       (countdown 2 (la_resetTimerCounter k)) = (forward, expected, timer, missed)"
    by (metis prod_cases4)
  from arb_start [OF assms(1,2,3,5) d] obtain k2
    where start: "iter_opt (lineArbitrator ctl) 2 k = Some k2"
      and f: "la_state k2 = (if forward then forwarding p else dropping p)" "la_activePort k2 = p"
        "la_portStrm k2 = (la_portStrm k)(p := ws @ rest)" "la_splitIdStrm k2 = (la_splitIdStrm k)(p := ids)"
        "la_outputFeed k2 = la_outputFeed k @ (if forward then [w] else [])"
        "la_seqNumExpected k2 = (la_seqNumExpected k)(i := expected)" "la_resetTimerCounter k2 = timer"
        "la_countTotalMissed k2 = la_countTotalMissed k + (if missed then 1 else 0)"
        "la_countTotalWordSent k2 = la_countTotalWordSent k + (if forward then 1 else 0)"
        "la_countTotalSent k2 = la_countTotalSent k + (if forward then 1 else 0)"
        "la_countRxFeed k2 = (la_countRxFeed k)(p := la_countRxFeed k p + 1)"
        "la_countTxFeed k2 = la_countTxFeed k" "la_countDiscarded k2 = la_countDiscarded k"
    by blast
  have port: "la_portStrm k2 p = ws @ rest" by (simp add: f(3))
  have go: "iter_opt (lineArbitrator ctl) (2 + length ws) k = iter_opt (lineArbitrator ctl) (length ws) k2"
    by (simp only: iter_opt_add start option.case)
  show ?thesis
  proof (cases forward)
    case True
    with f(1) have "la_state k2 = forwarding p" by simp
    from arb_forward_rest [OF assms(1,4) this port] True show ?thesis
      unfolding go by (simp add: arbAfter_def d f(2-) arbPublish_def)
  next
    case False
    with f(1) have "la_state k2 = dropping p" by simp
    from arb_drop_rest [OF assms(1,4) this port] False show ?thesis
      unfolding go by (simp add: arbAfter_def d f(2-) arbPublish_def)
  qed
qed

section \<open>The sequence numbers that pass\<close>

fun arbForwarded :: "32 word \<Rightarrow> 32 word list \<Rightarrow> 32 word list" where
  "arbForwarded expected [] = []"
| "arbForwarded expected (s # ss) =
     (case arbDecision 0 s expected 0 of
        (forward, expected', _, _) \<Rightarrow> (if forward then [s] else []) @ arbForwarded expected' ss)"

lemma word32_less_Suc: "(s :: 32 word) \<noteq> - 1 \<Longrightarrow> s + 1 \<le> x \<longleftrightarrow> s < x"
proof -
  assume "s \<noteq> - 1"
  then have "1 + s \<noteq> 0" by (simp add: eq_neg_iff_add_eq_0 add.commute)
  from unatSuc [OF this] show ?thesis by (simp add: word_le_nat_alt word_less_nat_alt add.commute Suc_le_eq)
qed

text \<open>Without resets, exactly the running maxima of the merged sequence pass.\<close>

lemma arbForwarded_maxima:
  assumes "0 \<notin> set ss" and "- 1 \<notin> set ss"
  shows "arbForwarded e ss = map (nth ss) [j \<leftarrow> [0..<length ss]. e \<le> ss ! j \<and> (\<forall>i<j. ss ! i < ss ! j)]"
  using assms
proof (induction ss arbitrary: e)
  case Nil
  then show ?case by simp
next
  case (Cons s ss)
  have all: "(\<forall>i<Suc j. (s # ss) ! i < x) \<longleftrightarrow> s < x \<and> (\<forall>i<j. ss ! i < x)" for j x
    by (auto simp: less_Suc_eq_0_disj)
  have idx: "map (nth (s # ss)) [j \<leftarrow> [0..<length (s # ss)]. e \<le> (s # ss) ! j \<and> (\<forall>i<j. (s # ss) ! i < (s # ss) ! j)] =
     (if e \<le> s then [s] else []) @ map (nth ss) [j \<leftarrow> [0..<length ss]. (e \<le> ss ! j \<and> s < ss ! j) \<and> (\<forall>i<j. ss ! i < ss ! j)]"
    by (simp add: upt_conv_Cons map_Suc_upt [symmetric] filter_map o_def all conj_assoc del: upt_Suc map_Suc_upt)
  show ?case
  proof (cases "s < e")
    case True
    then have "e \<le> x \<and> s < x \<longleftrightarrow> e \<le> x" for x by auto
    then show ?thesis
      unfolding idx using Cons True by (simp add: arbDecision_def not_le)
  next
    case False
    have "e \<le> x \<and> s < x \<longleftrightarrow> s + 1 \<le> x" for x
      using False Cons.prems word32_less_Suc [of s x] by auto
    then show ?thesis
      unfolding idx using Cons False by (simp add: arbDecision_def not_less)
  qed
qed

section \<open>Properties\<close>

definition sampleArb :: "axiWord list \<Rightarrow> 3 word list \<Rightarrow> lineArb" where
  "sampleArb ws ids =
     \<lparr>la_state = ARB_FETCH, la_wordIn = \<lparr>ax_data = 0, ax_keep = 0, ax_last = False\<rparr>,
      la_resetTimerCounter = 0, la_activePort = 1, la_splitId = 0, la_seqNumReceived = 0,
      la_seqNumExpected = \<lambda>i. 0, la_arbForward = False, la_countTotalSent = 0,
      la_countTotalWordSent = 0, la_countTotalMissed = 0, la_countRxFeed = \<lambda>p. 0,
      la_countTxFeed = \<lambda>p. 0, la_countDiscarded = \<lambda>p. 0, la_portStrm = \<lambda>p. if p = 0 then ws else [],
      la_splitIdStrm = \<lambda>p. if p = 0 then ids else [], la_outputFeed = [],
      la_regs = \<lparr>as_totalSent = 0, as_totalWordSent = 0, as_totalMissed = 0, as_rxFeed = \<lambda>p. 0,
        as_txFeed = \<lambda>p. 0, as_discarded = \<lambda>p. 0\<rparr>\<rparr>"

definition sampleArbControl :: arbControl where
  "sampleArbControl = \<lparr>ac_control = 0, ac_resetTimerInterval = 0\<rparr>"

text \<open>A packet of two words or more that the round robin picks is forwarded whole or dropped whole, in one call
  per word and one for the decision, and the expected number, the reset timer and all counters change
  as the decision says.  The total of sent packets goes up by two for each forwarded packet.\<close>

theorem lineArbitrator_packet:
  assumes "\<not> LH_RESET_SEQ_NUM (ac_control ctl)" and "arbPicks p k"
    and "la_portStrm k p = w # ws @ rest" and "is_packet (w # ws)" and "ws \<noteq> []"
    and "la_splitIdStrm k p = i # ids"
  shows "\<exists>k'. iter_opt (lineArbitrator ctl) (2 + length ws) k = Some k' \<and> arbAfter ctl p w ws rest i ids k k'"
proof -
  have "is_packet ws" using assms(4,5) by (simp add: is_packet_Cons split: if_splits)
  from arb_packet [OF assms(1-3) this assms(6)] show ?thesis .
qed

theorem lineArbitrator_packet_witness:
  "\<exists>k'. iter_opt (lineArbitrator sampleArbControl) 3 (sampleArb [sampleWord False, sampleWord True] [2]) = Some k' \<and>
     la_outputFeed k' = [sampleWord False, sampleWord True] \<and> la_countTotalSent k' = 2 \<and>
     la_countTotalMissed k' = 1 \<and> la_seqNumExpected k' 2 = 2"
proof -
  have h: "\<not> LH_RESET_SEQ_NUM (ac_control sampleArbControl)"
    "arbPicks 0 (sampleArb [sampleWord False, sampleWord True] [2])"
    "la_portStrm (sampleArb [sampleWord False, sampleWord True] [2]) 0 = sampleWord False # [sampleWord True] @ []"
    "is_packet [sampleWord False, sampleWord True]" "[sampleWord True] \<noteq> []"
    "la_splitIdStrm (sampleArb [sampleWord False, sampleWord True] [2]) 0 = 2 # []"
    by (simp_all add: sampleArb_def sampleArbControl_def arbPicks_def otherPort_def sampleWord_def)
  have "seqOf (sampleWord False) = 1" by (simp add: seqOf_def sampleWord_def rng_def)
  with lineArbitrator_packet [OF h] show ?thesis
    by (auto simp: arbAfter_def arbDecision_def sampleArb_def sampleArbControl_def countdown_def
        simp del: iter_opt.simps)
qed

text \<open>The sequence numbers that pass on one split are exactly the running maxima of the merged arrivals, from
  the expected number on: nothing passes twice, nothing passes out of order, and nothing that is
  ahead of everything before it is dropped.  (Zero and the largest number are the reset and the wrap.)\<close>

theorem arbitration_maxima:
  assumes "0 \<notin> set ss" and "- 1 \<notin> set ss"
  shows "arbForwarded e ss = map (nth ss) [j \<leftarrow> [0..<length ss]. e \<le> ss ! j \<and> (\<forall>i<j. ss ! i < ss ! j)]"
  by (rule arbForwarded_maxima [OF assms])

theorem arbitration_maxima_witness:
  "let ss = [1, 3, 2] in arbForwarded 2 ss = [3] \<and>
     arbForwarded 2 ss = map (nth ss) [j \<leftarrow> [0..<length ss]. 2 \<le> ss ! j \<and> (\<forall>i<j. ss ! i < ss ! j)]"
proof -
  have "arbForwarded 2 [1, 3, 2] = [3]" by (simp add: arbDecision_def)
  then show ?thesis unfolding Let_def by (intro conjI arbitration_maxima) simp_all
qed

text \<open>A packet of a single word that is forwarded takes the first word of the next queued packet with it,
  without checking that packet's sequence number and without its split identifier.\<close>

theorem single_word_packet_merges:
  assumes "\<not> LH_RESET_SEQ_NUM (ac_control ctl)" and "arbPicks p k"
    and "la_portStrm k p = w # v # rest" and "ax_last w" and "la_splitIdStrm k p = i # ids"
    and "fst (arbDecision (ac_resetTimerInterval ctl) (seqOf w) (la_seqNumExpected k i)
      (countdown 2 (la_resetTimerCounter k)))"
  shows "\<exists>k'. iter_opt (lineArbitrator ctl) 3 k = Some k' \<and> la_outputFeed k' = la_outputFeed k @ [w, v] \<and>
    la_portStrm k' p = rest \<and> la_splitIdStrm k' p = ids \<and>
    la_state k' = (if ax_last v then ARB_FETCH else forwarding p)"
proof -
  obtain expected timer missed where d:
    "arbDecision (ac_resetTimerInterval ctl) (seqOf w) (la_seqNumExpected k i)
       (countdown 2 (la_resetTimerCounter k)) = (True, expected, timer, missed)"
    using assms(6) by (metis prod_cases4 fst_conv)
  from arb_start [OF assms(1,2,3,5) d] obtain k2
    where k2: "iter_opt (lineArbitrator ctl) 2 k = Some k2" "la_state k2 = forwarding p"
        "la_portStrm k2 = (la_portStrm k)(p := v # rest)" "la_splitIdStrm k2 = (la_splitIdStrm k)(p := ids)"
        "la_outputFeed k2 = la_outputFeed k @ [w]"
    by auto
  have "iter_opt (lineArbitrator ctl) (2 + 1) k = lineArbitrator ctl k2"
    by (simp only: iter_opt_add [of _ 2 1] k2(1) option.case) (simp add: option.case_eq_if)
  moreover have "lineArbitrator ctl k2 = Some (arbPublish (arbForward p (arbPrologue ctl k2)))"
    by (rule arb_forwarding [OF assms(1) k2(2)])
  ultimately show ?thesis
    using k2 by (simp add: arbForward_def arbPrologue_no_reset [OF assms(1)] arbPublish_def s_write_def Let_def
        numeral_3_eq_3 del: iter_opt.simps)
qed

theorem single_word_packet_merges_witness:
  "\<exists>k'. iter_opt (lineArbitrator sampleArbControl) 3
      (sampleArb [sampleWord True, sampleWord False, sampleWord True] [2, 5]) = Some k' \<and>
    la_outputFeed k' = [sampleWord True, sampleWord False] \<and> la_splitIdStrm k' 0 = [5]"
proof -
  let ?k = "sampleArb [sampleWord True, sampleWord False, sampleWord True] [2, 5]"
  have h: "\<not> LH_RESET_SEQ_NUM (ac_control sampleArbControl)" "arbPicks 0 ?k"
    "la_portStrm ?k 0 = sampleWord True # sampleWord False # [sampleWord True]" "ax_last (sampleWord True)"
    "la_splitIdStrm ?k 0 = 2 # [5]"
    by (simp_all add: sampleArb_def sampleArbControl_def arbPicks_def otherPort_def sampleWord_def)
  have "seqOf (sampleWord True) = 1" by (simp add: seqOf_def sampleWord_def rng_def)
  then have "fst (arbDecision (ac_resetTimerInterval sampleArbControl) (seqOf (sampleWord True))
      (la_seqNumExpected ?k 2) (countdown 2 (la_resetTimerCounter ?k)))"
    by (simp add: arbDecision_def sampleArb_def countdown_def)
  from single_word_packet_merges [OF h this] show ?thesis by (auto simp: sampleArb_def simp del: iter_opt.simps)
qed

end
