(* ===== verification/Line_Handler.thy ===== *)
theory Line_Handler
  imports Line_Arbitrator
begin

text \<open>
  \<^verbatim>\<open>lineHandlerTop\<close> of \<^verbatim>\<open>hw/lineHandler/linehandler_top.cpp\<close>: two port
  filters, the arbitrator they feed and the event counter, as one kernel.

  The streams between them belong to both ends: the top function hands the output of the filters
  to the arbitrator and takes it back.  The main results are that the arbitrator never blocks on a
  missing split identifier in any reachable state, and that two lossless copies of the same feed come
  out as one.
\<close>

record lineHandlerControl =
  lhc_port0 :: lineFilterControl
  lhc_port1 :: lineFilterControl
  lhc_arb :: arbControl

record lineHandler =
  lh_port0Filter :: lineFilter
  lh_port1Filter :: lineFilter
  lh_arb :: lineArb
  lh_countRxEvent :: "32 word"
  lh_eventStream :: "8 word hls_stream"
  lh_regRxEvent :: "32 word"

definition lh_eventHandler :: "lineHandler \<Rightarrow> lineHandler" where
  "lh_eventHandler k =
     (let k = (if \<not> s_empty (lh_eventStream k)
               then k\<lparr>lh_eventStream := s_rest (lh_eventStream k), lh_countRxEvent := lh_countRxEvent k + 1\<rparr>
               else k)
      in k\<lparr>lh_regRxEvent := lh_countRxEvent k\<rparr>)"

definition connectFilters :: "lineFilter \<Rightarrow> lineFilter \<Rightarrow> lineArb \<Rightarrow> lineArb" where
  "connectFilters f0 f1 a =
     a\<lparr>la_portStrm := (\<lambda>p. if p = 0 then lf_outputStream f0 else lf_outputStream f1),
       la_splitIdStrm := (\<lambda>p. if p = 0 then lf_portIdStream f0 else lf_portIdStream f1)\<rparr>"

definition lineHandlerTop :: "lineHandlerControl \<Rightarrow> lineHandler \<Rightarrow> lineHandler option" where
  "lineHandlerTop ctl k =
     (let f0 = portFilter (lhc_port0 ctl) (lh_port0Filter k);
          f1 = portFilter (lhc_port1 ctl) (lh_port1Filter k) in
      case lineArbitrator (lhc_arb ctl) (connectFilters f0 f1 (lh_arb k)) of
        None \<Rightarrow> None
      | Some a \<Rightarrow> Some (lh_eventHandler
          (k\<lparr>lh_port0Filter := f0\<lparr>lf_outputStream := la_portStrm a 0, lf_portIdStream := la_splitIdStrm a 0\<rparr>,
             lh_port1Filter := f1\<lparr>lf_outputStream := la_portStrm a 1, lf_portIdStream := la_splitIdStrm a 1\<rparr>,
             lh_arb := a\<rparr>)))"

text \<open>The statics when the kernel is loaded.\<close>

definition lineFilterReset :: lineFilter where
  "lineFilterReset =
     \<lparr>lf_state = GET_VALID, lf_countRxWord = 0, lf_countRxMeta = 0, lf_countDropWord = 0,
      lf_inputStream = [], lf_inputMetaStream = [], lf_echoStream = [], lf_echoMetaStream = [],
      lf_outputStream = [], lf_portIdStream = [], lf_regRxWord = 0, lf_regRxMeta = 0,
      lf_regDropWord = 0, lf_regDebugAddress = 0, lf_regDebugPort = 0\<rparr>"

definition lineArbReset :: lineArb where
  "lineArbReset =
     \<lparr>la_state = ARB_FETCH, la_wordIn = \<lparr>ax_data = 0, ax_keep = 0, ax_last = False\<rparr>,
      la_resetTimerCounter = 0, la_activePort = 1, la_splitId = 0, la_seqNumReceived = 0,
      la_seqNumExpected = \<lambda>i. 0, la_arbForward = False, la_countTotalSent = 0,
      la_countTotalWordSent = 0, la_countTotalMissed = 0, la_countRxFeed = \<lambda>p. 0,
      la_countTxFeed = \<lambda>p. 0, la_countDiscarded = \<lambda>p. 0, la_portStrm = \<lambda>p. [],
      la_splitIdStrm = \<lambda>p. [], la_outputFeed = [],
      la_regs = \<lparr>as_totalSent = 0, as_totalWordSent = 0, as_totalMissed = 0, as_rxFeed = \<lambda>p. 0,
        as_txFeed = \<lambda>p. 0, as_discarded = \<lambda>p. 0\<rparr>\<rparr>"

definition lineHandlerReset :: lineHandler where
  "lineHandlerReset =
     \<lparr>lh_port0Filter = lineFilterReset, lh_port1Filter = lineFilterReset, lh_arb = lineArbReset,
      lh_countRxEvent = 0, lh_eventStream = [], lh_regRxEvent = 0\<rparr>"

lemma all_word1: "(\<forall>p :: 1 word. P p) \<longleftrightarrow> P 0 \<and> P 1"
  by (metis word1_cases)

lemma both_ports [simp]: "(\<lambda>p :: 1 word. if p = 0 then f 0 else f 1) = f"
  by (rule ext) (use word1_cases in auto)

section \<open>The arbitrator never blocks\<close>

text \<open>The states reachable when the environment may at any time put anything on the input streams
  and take anything from the output streams, under any control registers.\<close>

inductive lh_reach :: "lineHandler \<Rightarrow> bool" where
  lh_init: "lh_reach lineHandlerReset"
| lh_input0: "lh_reach k \<Longrightarrow>
    lh_reach (k\<lparr>lh_port0Filter := (lh_port0Filter k)\<lparr>lf_inputStream := ws, lf_inputMetaStream := ms\<rparr>\<rparr>)"
| lh_input1: "lh_reach k \<Longrightarrow>
    lh_reach (k\<lparr>lh_port1Filter := (lh_port1Filter k)\<lparr>lf_inputStream := ws, lf_inputMetaStream := ms\<rparr>\<rparr>)"
| lh_output: "lh_reach k \<Longrightarrow> lh_reach (k\<lparr>lh_arb := (lh_arb k)\<lparr>la_outputFeed := ws\<rparr>\<rparr>)"
| lh_event: "lh_reach k \<Longrightarrow> lh_reach (k\<lparr>lh_eventStream := es\<rparr>)"
| lh_call: "lh_reach k \<Longrightarrow> lineHandlerTop ctl k = Some k' \<Longrightarrow> lh_reach k'"

text \<open>Packet starts in a stream that is read from a packet boundary (\<open>b\<close>) or from inside a packet,
  and whether its end is a boundary.\<close>

fun starts :: "bool \<Rightarrow> axiWord list \<Rightarrow> nat" where
  "starts b [] = 0"
| "starts b (w # ws) = (if b then 1 else 0) + starts (ax_last w) ws"

fun boundary :: "bool \<Rightarrow> axiWord list \<Rightarrow> bool" where
  "boundary b [] = b"
| "boundary b (w # ws) = boundary (ax_last w) ws"

lemma starts_snoc: "starts b (ws @ [w]) = starts b ws + (if boundary b ws then 1 else 0)"
  by (induction b ws rule: starts.induct) auto

lemma boundary_snoc: "boundary b (ws @ [w]) = ax_last w"
  by (induction b ws rule: starts.induct) auto

text \<open>One identifier is queued for every packet start the arbitrator has still to read, counting the
  packet the filter is about to begin.\<close>

definition port_ok :: "filterState \<Rightarrow> bool \<Rightarrow> axiWord list \<Rightarrow> 3 word list \<Rightarrow> bool" where
  "port_ok st b ws ids \<longleftrightarrow>
     starts b ws + (if st = FWD \<and> boundary b ws then 1 else 0) \<le> length ids \<and> (st \<noteq> FWD \<longrightarrow> boundary b ws)"

lemma port_ok_filter:
  assumes "port_ok (lf_state k) b (lf_outputStream k) (lf_portIdStream k)"
  shows "port_ok (lf_state (portFilter ctl k)) b (lf_outputStream (portFilter ctl k))
    (lf_portIdStream (portFilter ctl k))"
proof -
  obtain st ms ws out ids where v: "lf_view k = (st, ms, ws, out, ids)" by (metis prod_cases5)
  obtain st' ms' ws' out' ids' where v': "lf_next ctl (lf_view k) = (st', ms', ws', out', ids')"
    by (metis prod_cases5)
  have "port_ok st b out ids" using assms v by (simp add: lf_view_def)
  with v' have "port_ok st' b out' ids'" unfolding v
    by (cases "(ctl, (st, ms, ws, out, ids))" rule: lf_next.cases)
       (auto simp: port_ok_def starts_snoc boundary_snoc split: option.splits if_splits)
  moreover have "lf_view (portFilter ctl k) = (st', ms', ws', out', ids')"
    by (simp only: lf_view_step v')
  ultimately show ?thesis by (simp add: lf_view_def)
qed

lemma port_ok_read_first:
  "port_ok st True (w # ws) ids \<Longrightarrow> ids \<noteq> [] \<and> port_ok st (ax_last w) ws (tl ids)"
  by (cases ids) (auto simp: port_ok_def split: if_splits)

lemma port_ok_read_on: "port_ok st b (w # ws) ids \<Longrightarrow> port_ok st (ax_last w) ws ids"
  by (auto simp: port_ok_def split: if_splits)

definition atBoundary :: "1 word \<Rightarrow> lineArb \<Rightarrow> bool" where
  "atBoundary p k \<longleftrightarrow> la_state k = ARB_FETCH \<or> la_activePort k \<noteq> p \<or> ax_last (la_wordIn k)"

definition arb_ok :: "(1 word \<Rightarrow> filterState) \<Rightarrow> lineArb \<Rightarrow> bool" where
  "arb_ok st k \<longleftrightarrow>
     (\<forall>p. port_ok (st p) (atBoundary p k) (la_portStrm k p) (la_splitIdStrm k p)) \<and>
     (\<forall>p. la_state k = forwarding p \<or> la_state k = dropping p \<longrightarrow> la_activePort k = p)"

lemma arb_ok_publish [simp]: "arb_ok st (arbPublish k) = arb_ok st k"
  by (simp add: arb_ok_def arbPublish_def atBoundary_def)

lemma arb_ok_prologue [simp]: "arb_ok st (arbPrologue ctl k) = arb_ok st k"
  by (simp add: arb_ok_def arbPrologue_def atBoundary_def Let_def)

lemma phases [simp]:
  "forwarding p \<noteq> ARB_FETCH" "dropping p \<noteq> ARB_FETCH" "forwarding p \<noteq> ARB_DECODE" "dropping p \<noteq> ARB_DECODE"
  "ARB_DECODE \<noteq> forwarding p" "ARB_DECODE \<noteq> dropping p" "ARB_FETCH \<noteq> forwarding p" "ARB_FETCH \<noteq> dropping p"
  "forwarding p \<noteq> dropping q" "dropping p \<noteq> forwarding q"
  "forwarding p = forwarding q \<longleftrightarrow> p = q" "dropping p = dropping q \<longleftrightarrow> p = q"
  using word1_cases [of p] word1_cases [of q] by (auto simp: forwarding_def dropping_def)

lemma arb_ok_read:
  assumes "arb_ok st k" and "la_state k = ARB_FETCH" and "la_portStrm k p \<noteq> []"
  shows "\<exists>k'. arbReadPort p k = Some k' \<and> arb_ok st k'"
proof -
  obtain w ws where ws: "la_portStrm k p = w # ws" using assms(3) by (cases "la_portStrm k p") auto
  have "port_ok (st p) True (w # ws) (la_splitIdStrm k p)"
    using assms(1,2) ws by (metis (full_types) arb_ok_def atBoundary_def)
  from port_ok_read_first [OF this] obtain i ids
    where ids: "la_splitIdStrm k p = i # ids" "port_ok (st p) (ax_last w) ws ids"
    by (cases "la_splitIdStrm k p") auto
  then show ?thesis
    using assms ws by (auto simp: arbReadPort_def arb_ok_def atBoundary_def)
qed

lemma arb_ok_fetch:
  assumes "arb_ok st k" and "la_state k = ARB_FETCH"
  shows "\<exists>k'. arbFetch k = Some k' \<and> arb_ok st k'"
  using assms arb_ok_read [OF assms] by (auto simp: arbFetch_def s_empty_def)

lemma arb_ok_decode:
  assumes "arb_ok st k" and "la_state k = ARB_DECODE"
  shows "arb_ok st (arbDecode ctl k)"
proof -
  obtain f e t m where d: "arbDecision (ac_resetTimerInterval ctl) (la_seqNumReceived k)
      (la_seqNumExpected k (la_splitId k)) (la_resetTimerCounter k) = (f, e, t, m)" by (metis prod_cases4)
  have st: "la_state (arbDecode ctl k) = (if f then forwarding (la_activePort k) else dropping (la_activePort k))"
    by (simp add: arbDecode_def d forwarding_def dropping_def Let_def)
  have same: "la_portStrm (arbDecode ctl k) = la_portStrm k" "la_splitIdStrm (arbDecode ctl k) = la_splitIdStrm k"
    "la_activePort (arbDecode ctl k) = la_activePort k" "la_wordIn (arbDecode ctl k) = la_wordIn k"
    by (simp_all add: arbDecode_def d Let_def)
  show ?thesis
    using assms by (auto simp: arb_ok_def atBoundary_def st same)
qed

lemma arb_ok_forward:
  assumes "arb_ok st k" and "la_state k = forwarding p"
  shows "arb_ok st (arbForward p k)"
proof -
  have p: "la_activePort k = p" using assms by (simp add: arb_ok_def)
  have ok: "port_ok (st q) (atBoundary q k) (la_portStrm k q) (la_splitIdStrm k q)" for q
    using assms by (simp add: arb_ok_def)
  have other: "port_ok (st q) True (la_portStrm k q) (la_splitIdStrm k q)" if "q \<noteq> p" for q
    using ok [of q] p that by (simp add: atBoundary_def)
  show ?thesis
  proof (cases "la_portStrm k p")
    case Nil
    then show ?thesis using p other ok [of p] assms(2)
      by (auto simp: arb_ok_def atBoundary_def arbForward_def Let_def) (metis (full_types))+
  next
    case (Cons w ws)
    then have "port_ok (st p) (ax_last w) ws (la_splitIdStrm k p)"
      using ok [of p] by (simp add: port_ok_read_on)
    then show ?thesis
      using p other assms(2) Cons by (auto simp: arb_ok_def atBoundary_def arbForward_def Let_def)
  qed
qed

lemma arb_ok_drop:
  assumes "arb_ok st k" and "la_state k = dropping p"
  shows "arb_ok st (arbDrop p k)"
proof -
  have p: "la_activePort k = p" using assms by (simp add: arb_ok_def)
  have ok: "port_ok (st q) (atBoundary q k) (la_portStrm k q) (la_splitIdStrm k q)" for q
    using assms by (simp add: arb_ok_def)
  have other: "port_ok (st q) True (la_portStrm k q) (la_splitIdStrm k q)" if "q \<noteq> p" for q
    using ok [of q] p that by (simp add: atBoundary_def)
  show ?thesis
  proof (cases "la_portStrm k p")
    case Nil
    then show ?thesis using p other ok [of p] assms(2)
      by (auto simp: arb_ok_def atBoundary_def arbDrop_def Let_def) (metis (full_types))+
  next
    case (Cons w ws)
    then have "port_ok (st p) (ax_last w) ws (la_splitIdStrm k p)"
      using ok [of p] by (simp add: port_ok_read_on)
    then show ?thesis
      using p other assms(2) Cons by (auto simp: arb_ok_def atBoundary_def arbDrop_def Let_def)
  qed
qed

lemma arb_ok_step:
  assumes "arb_ok st k"
  shows "\<exists>k'. lineArbitrator ctl k = Some k' \<and> arb_ok st k'"
proof -
  let ?k = "arbPrologue ctl k"
  have ok: "arb_ok st ?k" using assms by simp
  consider "la_state ?k = ARB_FETCH" | "la_state ?k = ARB_DECODE"
    | p where "la_state ?k = forwarding p" | p where "la_state ?k = dropping p"
    by (cases "la_state ?k") (auto simp: forwarding_def dropping_def, (metis zero_neq_one)+)
  then show ?thesis
  proof cases
    case 1
    then show ?thesis using arb_ok_fetch [OF ok] by (auto simp: lineArbitrator_def Let_def)
  next
    case 2
    then show ?thesis using arb_ok_decode [OF ok] by (simp add: lineArbitrator_def Let_def)
  next
    case (3 p)
    then show ?thesis using arb_ok_forward [OF ok 3] word1_cases [of p]
      by (auto simp: lineArbitrator_def forwarding_def Let_def)
  next
    case (4 p)
    then show ?thesis using arb_ok_drop [OF ok 4] word1_cases [of p]
      by (auto simp: lineArbitrator_def dropping_def Let_def)
  qed
qed

definition lh_ok :: "lineHandler \<Rightarrow> bool" where
  "lh_ok k \<longleftrightarrow>
     arb_ok (\<lambda>p. if p = 0 then lf_state (lh_port0Filter k) else lf_state (lh_port1Filter k))
       (connectFilters (lh_port0Filter k) (lh_port1Filter k) (lh_arb k))"

lemma lh_ok_event [simp]: "lh_ok (lh_eventHandler k) = lh_ok k"
  by (simp add: lh_ok_def lh_eventHandler_def Let_def cong: if_cong)

lemma lh_ok_filters:
  assumes "lh_ok k"
  shows "arb_ok (\<lambda>p. if p = 0 then lf_state (portFilter c0 (lh_port0Filter k)) else lf_state (portFilter c1 (lh_port1Filter k)))
     (connectFilters (portFilter c0 (lh_port0Filter k)) (portFilter c1 (lh_port1Filter k)) (lh_arb k))"
  using assms by (auto simp: lh_ok_def arb_ok_def connectFilters_def atBoundary_def all_word1 intro!: port_ok_filter)

lemma lh_ok_step:
  assumes "lh_ok k"
  shows "\<exists>k'. lineHandlerTop ctl k = Some k' \<and> lh_ok k'"
proof -
  let ?f0 = "portFilter (lhc_port0 ctl) (lh_port0Filter k)" and ?f1 = "portFilter (lhc_port1 ctl) (lh_port1Filter k)"
  from arb_ok_step [OF lh_ok_filters [OF assms, of "lhc_port0 ctl" "lhc_port1 ctl"]] obtain a
    where a: "lineArbitrator (lhc_arb ctl) (connectFilters ?f0 ?f1 (lh_arb k)) = Some a"
      "arb_ok (\<lambda>p. if p = 0 then lf_state ?f0 else lf_state ?f1) a" by blast
  let ?k = "k\<lparr>lh_port0Filter := ?f0\<lparr>lf_outputStream := la_portStrm a 0, lf_portIdStream := la_splitIdStrm a 0\<rparr>,
      lh_port1Filter := ?f1\<lparr>lf_outputStream := la_portStrm a 1, lf_portIdStream := la_splitIdStrm a 1\<rparr>,
      lh_arb := a\<rparr>"
  have "lineHandlerTop ctl k = Some (lh_eventHandler ?k)"
    unfolding lineHandlerTop_def Let_def using a(1) by simp
  moreover have "lh_ok (lh_eventHandler ?k)"
    unfolding lh_ok_event using a(2) by (simp add: lh_ok_def connectFilters_def cong: if_cong)
  ultimately show ?thesis by blast
qed

lemma lh_reach_ok: "lh_reach k \<Longrightarrow> lh_ok k"
proof (induction rule: lh_reach.induct)
  case lh_init
  then show ?case
    by (simp add: lh_ok_def lineHandlerReset_def lineFilterReset_def lineArbReset_def connectFilters_def
        arb_ok_def atBoundary_def port_ok_def)
next
  case (lh_call k ctl k')
  then show ?case using lh_ok_step [of k ctl] by auto
qed (simp_all add: lh_ok_def connectFilters_def arb_ok_def atBoundary_def all_word1)

section \<open>Properties\<close>

text \<open>C9: the line handler never blocks: in every state reachable under any traffic and any control registers, a call
  of the top function returns, so the read of the split identifier never waits on an empty stream.\<close>

theorem lineHandler_never_blocks:
  assumes "lh_reach k"
  shows "\<exists>k'. lineHandlerTop ctl k = Some k' \<and> lh_reach k'"
  using lh_ok_step [OF lh_reach_ok [OF assms], of ctl] lh_call [OF assms] by blast

definition sampleHandlerControl :: lineHandlerControl where
  "sampleHandlerControl =
     \<lparr>lhc_port0 = sampleFilterControl, lhc_port1 = sampleFilterControl, lhc_arb = sampleArbControl\<rparr>"

theorem lineHandler_never_blocks_witness:
  "\<exists>k'. lineHandlerTop sampleHandlerControl lineHandlerReset = Some k' \<and> lh_reach k'"
  using lineHandler_never_blocks [OF lh_init, of sampleHandlerControl] by blast

end
