(* ===== verification/Line_Feeds.thy ===== *)
theory Line_Feeds
  imports Line_Handler
begin

text \<open>
  The arbitrator on whole queues of packets.  The specification is at the level of packets: the round
  robin fixes the order in which the packets of the two ports are taken (\<open>arbOrder\<close>), and the
  decision function folded over that order says which of them pass (\<open>arbPass\<close>).  The kernel
  refines it, and two lossless copies of a feed come out as one.
\<close>

text \<open>A packet of two words or more: its split identifier, its first word, the rest of its words.\<close>

type_synonym feedPacket = "3 word \<times> axiWord \<times> axiWord list"

definition packetWords :: "feedPacket list \<Rightarrow> axiWord list" where
  "packetWords ps = concat (map (\<lambda>(i, w, ws). w # ws) ps)"

definition packetIds :: "feedPacket list \<Rightarrow> 3 word list" where
  "packetIds ps = map fst ps"

definition packetSeq :: "feedPacket \<Rightarrow> 32 word" where
  "packetSeq p = seqOf (fst (snd p))"

fun longPacket :: "feedPacket \<Rightarrow> bool" where
  "longPacket (i, w, ws) = (\<not> ax_last w \<and> is_packet ws)"

text \<open>The flag says that port 0 has the turn.\<close>

fun arbOrder :: "bool \<Rightarrow> 'a list \<Rightarrow> 'a list \<Rightarrow> 'a list" where
  "arbOrder turn0 [] [] = []"
| "arbOrder turn0 (x # xs) [] = x # arbOrder False xs []"
| "arbOrder turn0 [] (y # ys) = y # arbOrder True [] ys"
| "arbOrder turn0 (x # xs) (y # ys) =
     (if turn0 then x # arbOrder False xs (y # ys) else y # arbOrder True (x # xs) ys)"

fun arbPass :: "32 word \<Rightarrow> (3 word \<Rightarrow> 32 word) \<Rightarrow> 32 word \<Rightarrow> feedPacket list \<Rightarrow> feedPacket list" where
  "arbPass interval expected timer [] = []"
| "arbPass interval expected timer ((i, w, ws) # ps) =
     (case arbDecision interval (seqOf w) (expected i) (countdown 2 timer) of
        (forward, e, timer', _) \<Rightarrow>
          (if forward then [(i, w, ws)] else []) @
          arbPass interval (expected(i := e)) (countdown (length ws) timer') ps)"

lemma packetWords_simps [simp]:
  "packetWords [] = []" "packetWords ((i, w, ws) # ps) = w # ws @ packetWords ps"
  "packetWords (xs @ ys) = packetWords xs @ packetWords ys"
  by (simp_all add: packetWords_def)

lemma packetIds_simps [simp]: "packetIds [] = []" "packetIds (p # ps) = fst p # packetIds ps"
  by (simp_all add: packetIds_def)

text \<open>The queues of both ports.\<close>

definition feeds :: "feedPacket list \<Rightarrow> feedPacket list \<Rightarrow> lineArb \<Rightarrow> bool" where
  "feeds q0 q1 k \<longleftrightarrow>
     la_portStrm k = (\<lambda>p. packetWords (if p = 0 then q0 else q1)) \<and>
     la_splitIdStrm k = (\<lambda>p. packetIds (if p = 0 then q0 else q1))"

lemma packetWords_Nil_iff: "packetWords ps = [] \<longleftrightarrow> ps = []"
  by (cases ps) (auto simp: packetWords_def)

lemma port_0_1: "p \<noteq> 0 \<Longrightarrow> p = (1 :: 1 word)"
  by simp

text \<open>Port \<open>p\<close> serves one packet, after which the queues are \<open>q0\<close> and \<open>q1\<close>.\<close>

definition takes :: "arbControl \<Rightarrow> 1 word \<Rightarrow> 3 word \<Rightarrow> axiWord \<Rightarrow> axiWord list \<Rightarrow> feedPacket list \<Rightarrow>
    feedPacket list \<Rightarrow> lineArb \<Rightarrow> bool" where
  "takes ctl p i w ws q0 q1 k \<longleftrightarrow>
     (\<exists>k'. iter_opt (lineArbitrator ctl) (2 + length ws) k = Some k' \<and> la_state k' = ARB_FETCH \<and>
        la_activePort k' = p \<and> feeds q0 q1 k' \<and>
        (case arbDecision (ac_resetTimerInterval ctl) (seqOf w) (la_seqNumExpected k i)
            (countdown 2 (la_resetTimerCounter k)) of
          (forward, e, t, m) \<Rightarrow> la_outputFeed k' = la_outputFeed k @ (if forward then w # ws else []) \<and>
            la_seqNumExpected k' = (la_seqNumExpected k)(i := e) \<and>
            la_resetTimerCounter k' = countdown (length ws) t))"

lemma arb_take0:
  assumes "\<not> LH_RESET_SEQ_NUM (ac_control ctl)" and "la_state k = ARB_FETCH" and "longPacket (i, w, ws)"
    and "feeds ((i, w, ws) # q0) q1 k" and "la_activePort k = 1 \<or> q1 = []"
  shows "takes ctl 0 i w ws q0 q1 k"
proof -
  have "arbPicks 0 k"
    using assms(2,4,5) by (auto simp: arbPicks_def otherPort_def feeds_def)
  moreover have "la_portStrm k 0 = w # ws @ packetWords q0" "la_splitIdStrm k 0 = i # packetIds q0"
    using assms(4) by (simp_all add: feeds_def)
  ultimately obtain k' where k': "iter_opt (lineArbitrator ctl) (2 + length ws) k = Some k'"
      "arbAfter ctl 0 w ws (packetWords q0) i (packetIds q0) k k'"
    using arb_packet [OF assms(1)] assms(3) by force
  have "feeds q0 q1 k'"
    using k'(2) assms(4) by (auto simp: arbAfter_def feeds_def fun_eq_iff split: prod.splits)
  then show ?thesis
    unfolding takes_def using k' by (intro exI [of _ k']) (auto simp: arbAfter_def split: prod.splits)
qed

lemma arb_take1:
  assumes "\<not> LH_RESET_SEQ_NUM (ac_control ctl)" and "la_state k = ARB_FETCH" and "longPacket (i, w, ws)"
    and "feeds q0 ((i, w, ws) # q1) k" and "la_activePort k \<noteq> 1 \<or> q0 = []"
  shows "takes ctl 1 i w ws q0 q1 k"
proof -
  have "arbPicks 1 k"
    using assms(2,4,5) by (auto simp: arbPicks_def otherPort_def feeds_def)
  moreover have "la_portStrm k 1 = w # ws @ packetWords q1" "la_splitIdStrm k 1 = i # packetIds q1"
    using assms(4) by (simp_all add: feeds_def)
  ultimately obtain k' where k': "iter_opt (lineArbitrator ctl) (2 + length ws) k = Some k'"
      "arbAfter ctl 1 w ws (packetWords q1) i (packetIds q1) k k'"
    using arb_packet [OF assms(1)] assms(3) by force
  have "feeds q0 q1 k'"
    using k'(2) assms(4) by (auto simp: arbAfter_def feeds_def fun_eq_iff dest: port_0_1 split: prod.splits)
  then show ?thesis
    unfolding takes_def using k' by (intro exI [of _ k']) (auto simp: arbAfter_def split: prod.splits)
qed

text \<open>The number of calls that drains the queues: one per word and one per packet.\<close>

definition feedCalls :: "feedPacket list \<Rightarrow> nat" where
  "feedCalls ps = sum_list (map (\<lambda>(i, w, ws). 2 + length ws) ps)"

lemma feedCalls_Cons [simp]: "feedCalls ((i, w, ws) # ps) = (2 + length ws) + feedCalls ps"
  and feedCalls_Nil [simp]: "feedCalls [] = 0"
  by (simp_all add: feedCalls_def)

definition drains :: "arbControl \<Rightarrow> feedPacket list \<Rightarrow> lineArb \<Rightarrow> bool" where
  "drains ctl ps k \<longleftrightarrow>
     (\<exists>k'. iter_opt (lineArbitrator ctl) (feedCalls ps) k = Some k' \<and> la_state k' = ARB_FETCH \<and>
        feeds [] [] k' \<and> la_outputFeed k' = la_outputFeed k @ packetWords
          (arbPass (ac_resetTimerInterval ctl) (la_seqNumExpected k) (la_resetTimerCounter k) ps))"

lemma drains_Cons:
  assumes "takes ctl p i w ws q0 q1 k"
    and "\<And>k1. la_state k1 = ARB_FETCH \<Longrightarrow> la_activePort k1 = p \<Longrightarrow> feeds q0 q1 k1 \<Longrightarrow> drains ctl ps k1"
  shows "drains ctl ((i, w, ws) # ps) k"
proof -
  obtain forward e t m where d: "arbDecision (ac_resetTimerInterval ctl) (seqOf w) (la_seqNumExpected k i)
      (countdown 2 (la_resetTimerCounter k)) = (forward, e, t, m)" by (metis prod_cases4)
  from assms(1) obtain k1 where
    k1: "iter_opt (lineArbitrator ctl) (2 + length ws) k = Some k1" "la_state k1 = ARB_FETCH"
      "la_activePort k1 = p" "feeds q0 q1 k1"
      "la_outputFeed k1 = la_outputFeed k @ (if forward then w # ws else [])"
      "la_seqNumExpected k1 = (la_seqNumExpected k)(i := e)" "la_resetTimerCounter k1 = countdown (length ws) t"
    by (auto simp: takes_def d)
  from assms(2) [OF k1(2,3,4)] obtain k' where
    k': "iter_opt (lineArbitrator ctl) (feedCalls ps) k1 = Some k'" "la_state k' = ARB_FETCH" "feeds [] [] k'"
      "la_outputFeed k' = la_outputFeed k1 @ packetWords
        (arbPass (ac_resetTimerInterval ctl) (la_seqNumExpected k1) (la_resetTimerCounter k1) ps)"
    by (auto simp: drains_def)
  have "iter_opt (lineArbitrator ctl) (feedCalls ((i, w, ws) # ps)) k = Some k'"
    by (simp only: feedCalls_Cons iter_opt_add [of _ "2 + length ws"] k1(1) k'(1) option.case)
  then show ?thesis
    unfolding drains_def using k' k1(5-7) by (intro exI [of _ k']) (simp add: d)
qed

lemma arb_feeds:
  assumes "\<not> LH_RESET_SEQ_NUM (ac_control ctl)"
  shows "la_state k = ARB_FETCH \<Longrightarrow> feeds q0 q1 k \<Longrightarrow> list_all longPacket (q0 @ q1) \<Longrightarrow>
    turn0 = (la_activePort k = 1) \<Longrightarrow> drains ctl (arbOrder turn0 q0 q1) k"
proof (induction turn0 q0 q1 arbitrary: k rule: arbOrder.induct)
  case (1 turn0)
  then show ?case by (simp add: drains_def)
next
  case (2 turn0 x xs)
  obtain i w ws where x: "x = (i, w, ws)" by (cases x)
  have "takes ctl 0 i w ws xs [] k" using arb_take0 [OF assms 2(2)] 2(3,4) by (simp add: x)
  from drains_Cons [OF this] 2(1) 2(4) show ?case by (simp add: x)
next
  case (3 turn0 y ys)
  obtain i w ws where y: "y = (i, w, ws)" by (cases y)
  have "takes ctl 1 i w ws [] ys k" using arb_take1 [OF assms 3(2)] 3(3,4) by (simp add: y)
  from drains_Cons [OF this] 3(1) 3(4) show ?case by (simp add: y)
next
  case (4 turn0 x xs y ys)
  obtain i w ws j v vs where xy: "x = (i, w, ws)" "y = (j, v, vs)" by (cases x, cases y)
  show ?case
  proof (cases turn0)
    case True
    have "takes ctl 0 i w ws xs (y # ys) k" using arb_take0 [OF assms 4(3)] 4(4-6) True by (simp add: xy)
    from drains_Cons [OF this] 4(1) 4(5) True show ?thesis by (simp add: xy)
  next
    case False
    have "takes ctl 1 j v vs (x # xs) ys k" using arb_take1 [OF assms 4(3)] 4(4-6) False by (simp add: xy)
    from drains_Cons [OF this] 4(2) 4(5) False show ?thesis by (simp add: xy)
  qed
qed

section \<open>Two copies of a feed\<close>

lemma arbOrder_shuffles: "arbOrder turn0 xs ys \<in> shuffles xs ys"
  by (induction turn0 xs ys rule: arbOrder.induct) (auto simp: Cons_in_shuffles_iff)

text \<open>A gapless feed on split \<open>i\<close> that starts at sequence number \<open>e\<close> and does not wrap.\<close>

definition gapless :: "3 word \<Rightarrow> 32 word \<Rightarrow> feedPacket list \<Rightarrow> bool" where
  "gapless i e ps \<longleftrightarrow> e \<noteq> 0 \<and> unat e + length ps < 2 ^ 32 \<and>
     (\<forall>j<length ps. fst (ps ! j) = i \<and> packetSeq (ps ! j) = e + of_nat j)"

lemma gapless_order:
  assumes "gapless i e ps" and "j < length ps" and "m \<le> length ps"
  shows "e + of_nat j \<noteq> 0" and "e + of_nat j < e + of_nat m \<longleftrightarrow> j < m"
    and "e + of_nat j = e + of_nat m \<longleftrightarrow> j = m"
proof -
  have u: "unat (e + of_nat n) = unat e + n" if "n \<le> length ps" for n
    using assms(1) that by (simp add: gapless_def unat_word_ariths unat_of_nat_small)
  have "unat e \<noteq> 0" using assms(1) by (simp add: gapless_def unat_eq_0)
  then show "e + of_nat j \<noteq> 0" using u [of j] assms(2) by (metis add_is_0 less_imp_le unat_0)
  show "e + of_nat j < e + of_nat m \<longleftrightarrow> j < m" "e + of_nat j = e + of_nat m \<longleftrightarrow> j = m"
    using u [of j] u [of m] assms(2,3) by (simp_all add: word_less_nat_alt word_unat_eq_iff)
qed

lemma arbPass_two_copies:
  assumes "gapless i e ps"
  shows "zs \<in> shuffles (drop a ps) (drop b ps) \<Longrightarrow> a \<le> length ps \<Longrightarrow> b \<le> length ps \<Longrightarrow>
    expected i = e + of_nat (max a b) \<Longrightarrow> arbPass interval expected 0 zs = drop (max a b) ps"
proof (induction zs arbitrary: a b expected)
  case Nil
  then show ?case by simp
next
  case (Cons z zs)
  obtain n a' b' where n: "n < length ps" "z = ps ! n" "n \<le> max a b" "zs \<in> shuffles (drop a' ps) (drop b' ps)"
    "a' \<le> length ps" "b' \<le> length ps" "max a' b' = (if n = max a b then Suc n else max a b)"
  proof (cases "a < length ps \<and> z = ps ! a \<and> zs \<in> shuffles (drop (Suc a) ps) (drop b ps)")
    case True
    then show ?thesis using that [of a "Suc a" b] Cons.prems by auto
  next
    case False
    with Cons.prems have "b < length ps \<and> z = ps ! b \<and> zs \<in> shuffles (drop a ps) (drop (Suc b) ps)"
      by (auto simp: Cons_in_shuffles_iff hd_drop_conv_nth drop_Suc tl_drop)
    then show ?thesis using that [of b a "Suc b"] Cons.prems by auto
  qed
  obtain w ws where z: "z = (i, w, ws)" "seqOf w = e + of_nat n"
    using assms n(1,2) by (cases "ps ! n") (auto simp: gapless_def packetSeq_def)
  note ord = gapless_order [OF assms n(1), of "max a b"]
  show ?case
  proof (cases "n = max a b")
    case True
    have "(expected(i := e + of_nat n + 1)) i = e + of_nat (max a' b')"
      using n(7) True by (simp add: ac_simps)
    then have "arbPass interval (expected(i := e + of_nat n + 1)) 0 zs = drop (max a' b') ps"
      by (rule Cons.IH [OF n(4-6)])
    with n(7) True have pass: "arbPass interval (expected(i := e + of_nat n + 1)) 0 zs = drop (Suc n) ps"
      by (simp only: if_True simp_thms)
    have "arbDecision interval (seqOf w) (expected i) 0 = (True, e + of_nat n + 1, 0, False)"
      using True ord(1) Cons.prems(2-4) z(2) by (simp add: arbDecision_def)
    then have "arbPass interval expected 0 (z # zs) = z # arbPass interval (expected(i := e + of_nat n + 1)) 0 zs"
      by (simp add: z(1) countdown_def fun_upd_def)
    also have "\<dots> = drop (max a b) ps"
      unfolding pass using True n(1,2) by (simp add: Cons_nth_drop_Suc)
    finally show ?thesis .
  next
    case False
    then have "arbPass interval expected 0 zs = drop (max a b) ps"
      using Cons.IH [OF n(4-6), of expected] n(7) Cons.prems by simp
    then show ?thesis
      using False ord Cons.prems n(3) z fun_upd_idem [of expected i, OF refl]
      by (simp add: arbDecision_def countdown_def)
  qed
qed

section \<open>Properties\<close>

text \<open>C3: line arbitration at the level of packets.  With any queues of packets of two words or more on both ports,
  the arbitrator serves them round robin and returns after one call per word and one per packet,
  both queues are drained, and the output is exactly the words of the packets that the decision
  function passes, folded over the order of service.\<close>

theorem lineArbitrator_refines:
  assumes "\<not> LH_RESET_SEQ_NUM (ac_control ctl)" and "la_state k = ARB_FETCH" and "feeds q0 q1 k"
    and "list_all longPacket (q0 @ q1)"
  shows "drains ctl (arbOrder (la_activePort k = 1) q0 q1) k"
  by (rule arb_feeds [OF assms refl])

text \<open>C2: two lossless lines give one feed.  When both ports carry the same gapless packets of one split, from the
  expected number on and with the reset timer idle, the output is that feed once, complete and in order.\<close>

theorem two_lines_one_feed:
  assumes "\<not> LH_RESET_SEQ_NUM (ac_control ctl)" and "la_state k = ARB_FETCH" and "feeds ps ps k"
    and "list_all longPacket ps" and "gapless i (la_seqNumExpected k i) ps" and "la_resetTimerCounter k = 0"
  shows "\<exists>n k'. iter_opt (lineArbitrator ctl) n k = Some k' \<and> feeds [] [] k' \<and>
    la_outputFeed k' = la_outputFeed k @ packetWords ps"
proof -
  let ?zs = "arbOrder (la_activePort k = 1) ps ps"
  have "drains ctl ?zs k" by (rule arb_feeds [OF assms(1-3) _ refl]) (simp add: assms(4))
  moreover have "arbPass (ac_resetTimerInterval ctl) (la_seqNumExpected k) 0 ?zs = ps"
    using arbPass_two_copies [OF assms(5), of ?zs 0 0 "la_seqNumExpected k"] by (simp add: arbOrder_shuffles)
  ultimately show ?thesis by (auto simp: drains_def assms(6))
qed

definition samplePacket :: feedPacket where
  "samplePacket = (2, sampleWord False, [sampleWord True])"

definition sampleLines :: lineArb where
  "sampleLines = (sampleArb [] [])\<lparr>la_seqNumExpected := \<lambda>i. 1,
     la_portStrm := \<lambda>p. packetWords [samplePacket], la_splitIdStrm := \<lambda>p. packetIds [samplePacket]\<rparr>"

lemma sampleLines_ok:
  "\<not> LH_RESET_SEQ_NUM (ac_control sampleArbControl)" "la_state sampleLines = ARB_FETCH"
  "feeds [samplePacket] [samplePacket] sampleLines" "list_all longPacket [samplePacket]"
  "gapless 2 (la_seqNumExpected sampleLines 2) [samplePacket]" "la_resetTimerCounter sampleLines = 0"
  by (simp_all add: sampleArbControl_def sampleLines_def sampleArb_def feeds_def samplePacket_def sampleWord_def
      gapless_def packetSeq_def seqOf_def rng_def)

theorem lineArbitrator_refines_witness:
  "drains sampleArbControl (arbOrder True [samplePacket] [samplePacket]) sampleLines"
  using lineArbitrator_refines [OF sampleLines_ok(1-3)] sampleLines_ok(4)
  by (simp add: sampleLines_def sampleArb_def)

theorem two_lines_one_feed_witness:
  "\<exists>n k'. iter_opt (lineArbitrator sampleArbControl) n sampleLines = Some k' \<and>
     la_outputFeed k' = [sampleWord False, sampleWord True]"
  using two_lines_one_feed [OF sampleLines_ok]
  by (auto simp: samplePacket_def sampleLines_def sampleArb_def simp del: iter_opt.simps)

end
