(* ===== verification/Stream_Bytes.thy ===== *)
theory Stream_Bytes
  imports Aat_Interfaces
begin

text \<open>
  Packets on 64-bit AXI streams as the bytes they carry.  A word has eight lanes, a byte each with a keep
  flag; \<open>carries ws bs\<close> says that the words \<open>ws\<close> are one packet with exactly the bytes
  \<open>bs\<close>: full words, then a last word with its kept bytes first.  Joining the upper lanes of each
  word with the lower lanes of the next is how the stream functions of the repository drop bytes at the
  front of a packet or make room there; \<open>carries_joinRest\<close> is what that does to the bytes.
\<close>

definition zeroWord :: axiWord where
  "zeroWord = \<lparr>ax_data = 0, ax_keep = 0, ax_last = False\<rparr>"

section \<open>Words as bytes\<close>

text \<open>The eight bytes of a word, lowest first, each with its keep flag; the valid ones are those kept.\<close>

definition byteAt :: "64 word \<Rightarrow> nat \<Rightarrow> 8 word" where
  "byteAt d i = rng (8 * i + 7) (8 * i) d"

definition lanes :: "axiWord \<Rightarrow> (8 word \<times> bool) list" where
  "lanes w = map (\<lambda>i. (byteAt (ax_data w) i, bit (ax_keep w) i)) [0..<8]"

definition validBytes :: "axiWord list \<Rightarrow> 8 word list" where
  "validBytes ws = map fst (filter snd (concat (map lanes ws)))"

lemma length_lanes [simp]: "length (lanes w) = 8"
  by (simp add: lanes_def)

lemma lanes_last [simp]: "lanes (w\<lparr>ax_last := l\<rparr>) = lanes w"
  by (simp add: lanes_def)

lemma nth_lanes: "i < 8 \<Longrightarrow> lanes w ! i = (byteAt (ax_data w) i, bit (ax_keep w) i)"
  by (simp add: lanes_def)

lemma lanes_zero: "lanes zeroWord = replicate 8 (0, False)"
  by (rule nth_equalityI) (simp_all add: nth_lanes zeroWord_def byteAt_def)

lemma validBytes_simps [simp]:
  "validBytes [] = []" "validBytes (w # ws) = map fst (filter snd (lanes w)) @ validBytes ws"
  by (simp_all add: validBytes_def)

section \<open>Joining words\<close>

text \<open>The upper lanes of \<open>p\<close> from \<open>n\<close> on, then the first \<open>n\<close> of \<open>c\<close>, in a variable
  that held \<open>w\<close>.\<close>

definition joinWord :: "nat \<Rightarrow> axiWord \<Rightarrow> axiWord \<Rightarrow> axiWord \<Rightarrow> axiWord" where
  "joinWord n p c w =
     w\<lparr>ax_data := upd 63 (64 - 8 * n) (rng (8 * n - 1) 0 (ax_data c) :: 64 word)
                   (upd (63 - 8 * n) 0 (rng 63 (8 * n) (ax_data p) :: 64 word) (ax_data w)),
       ax_keep := upd 7 (8 - n) (rng (n - 1) 0 (ax_keep c) :: 8 word)
                   (upd (7 - n) 0 (rng 7 n (ax_keep p) :: 8 word) (ax_keep w))\<rparr>"

lemma lanes_joinWord:
  assumes "0 < n" and "n < 8"
  shows "lanes (joinWord n p c w) = drop n (lanes p) @ take n (lanes c)"
proof (rule nth_equalityI)
  show "length (lanes (joinWord n p c w)) = length (drop n (lanes p) @ take n (lanes c))"
    using assms by simp
  fix i assume "i < length (lanes (joinWord n p c w))"
  then have i: "i < 8" by simp
  have data: "byteAt (ax_data (joinWord n p c w)) i =
      (if i < 8 - n then byteAt (ax_data p) (i + n) else byteAt (ax_data c) (i + n - 8))"
  proof (rule bit_word_eqI)
    fix j assume "j < LENGTH(8)"
    then have j: "j < 8" by simp
    show "bit (byteAt (ax_data (joinWord n p c w)) i) j =
        bit (if i < 8 - n then byteAt (ax_data p) (i + n) else byteAt (ax_data c) (i + n - 8)) j"
    proof (cases "i < 8 - n")
      case True
      then have "8 * i + j \<le> 63 - 8 * n" "\<not> 64 - 8 * n \<le> 8 * i + j" "j + (i * 8 + n * 8) \<le> 63"
        using j assms by arith+
      then show ?thesis
        using True i j by (simp add: joinWord_def byteAt_def bit_simps algebra_simps)
    next
      case False
      then have "64 - 8 * n \<le> 8 * i + j" "8 * i + j - (64 - 8 * n) \<le> 8 * n - 1"
        "8 * i + j - (64 - 8 * n) = 8 * (i + n - 8) + j" "8 * (i + n - 8) + j < 64"
        using i j assms by arith+
      then show ?thesis
        using False i j by (simp add: joinWord_def byteAt_def bit_simps)
    qed
  qed
  have keep: "bit (ax_keep (joinWord n p c w)) i =
      (if i < 8 - n then bit (ax_keep p) (i + n) else bit (ax_keep c) (i + n - 8))"
  proof (cases "i < 8 - n")
    case True
    then show ?thesis using i assms by (auto simp: joinWord_def bit_simps add.commute)
  next
    case False
    then have "8 - n \<le> i" "i - (8 - n) \<le> n - 1" "i - (8 - n) = i + n - 8" "i + n - 8 < 8"
      using i assms by arith+
    then show ?thesis using False i by (simp add: joinWord_def bit_simps)
  qed
  show "lanes (joinWord n p c w) ! i = (drop n (lanes p) @ take n (lanes c)) ! i"
    using i assms by (auto simp: nth_lanes data keep nth_append add.commute)
qed

lemma rng_keep_zero:
  "(rng 7 n (k :: 8 word) :: 8 word) = 0 \<longleftrightarrow> (\<forall>i. n \<le> i \<and> i < 8 \<longrightarrow> \<not> bit k i)"
proof
  assume z: "(rng 7 n k :: 8 word) = 0"
  show "\<forall>i. n \<le> i \<and> i < 8 \<longrightarrow> \<not> bit k i"
  proof (intro allI impI)
    fix i assume i: "n \<le> i \<and> i < 8"
    then have "bit (rng 7 n k :: 8 word) (i - n) \<longleftrightarrow> bit k i" by (auto simp: bit_simps)
    with z show "\<not> bit k i" by simp
  qed
next
  assume "\<forall>i. n \<le> i \<and> i < 8 \<longrightarrow> \<not> bit k i"
  then show "(rng 7 n k :: 8 word) = 0" by (auto simp: bit_eq_iff bit_simps)
qed

text \<open>When no byte of a word above the offset is kept, dropping them loses no valid byte.\<close>

lemma filter_drop_lanes:
  "(rng 7 n (ax_keep w) :: 8 word) = 0 \<Longrightarrow> filter snd (drop n (lanes w)) = []"
  by (auto simp: rng_keep_zero filter_empty_conv in_set_conv_nth nth_lanes)

section \<open>Packets and their bytes\<close>

definition kept :: "8 word list \<Rightarrow> (8 word \<times> bool) list" where
  "kept bs = map (\<lambda>b. (b, True)) bs"

definition lastWord :: "axiWord \<Rightarrow> 8 word list \<Rightarrow> bool" where
  "lastWord w bs \<longleftrightarrow> ax_last w \<and> bs \<noteq> [] \<and> length bs \<le> 8 \<and> take (length bs) (lanes w) = kept bs \<and>
     list_all (\<lambda>l. \<not> snd l) (drop (length bs) (lanes w))"

fun carries :: "axiWord list \<Rightarrow> 8 word list \<Rightarrow> bool" where
  "carries [] bs = False"
| "carries (w # ws) bs =
     (if ws = [] then lastWord w bs
      else \<not> ax_last w \<and> 8 < length bs \<and> lanes w = kept (take 8 bs) \<and> carries ws (drop 8 bs))"

declare carries.simps(2) [simp del]

lemma carries_single: "carries [w] bs = lastWord w bs"
  by (simp add: carries.simps(2))

lemma carries_Cons: "ws \<noteq> [] \<Longrightarrow> carries (w # ws) bs \<longleftrightarrow>
    \<not> ax_last w \<and> 8 < length bs \<and> lanes w = kept (take 8 bs) \<and> carries ws (drop 8 bs)"
  by (simp add: carries.simps(2))

lemma kept_simps [simp]:
  "kept [] = []" "kept (b # bs) = (b, True) # kept bs" "kept (as @ bs) = kept as @ kept bs"
  "length (kept bs) = length bs" "map fst (kept bs) = bs" "filter snd (kept bs) = kept bs"
  "take n (kept bs) = kept (take n bs)" "drop n (kept bs) = kept (drop n bs)" "kept bs = kept cs \<longleftrightarrow> bs = cs"
  "kept bs = [] \<longleftrightarrow> bs = []" "i < length bs \<Longrightarrow> kept bs ! i = (bs ! i, True)"
  by (simp_all add: kept_def o_def take_map drop_map inj_map_eq_map inj_on_def filter_map)

lemma carries_nonempty: "carries ws bs \<Longrightarrow> ws \<noteq> [] \<and> bs \<noteq> []"
  by (cases ws) (auto simp: carries.simps(2) lastWord_def split: if_splits)

lemma carries_packet: "carries ws bs \<Longrightarrow> is_packet ws"
  by (induction ws arbitrary: bs) (auto simp: carries.simps(2) lastWord_def is_packet_Cons split: if_splits)

lemma lastWord_lanes: "lastWord w bs \<longleftrightarrow> ax_last w \<and> bs \<noteq> [] \<and> (\<exists>js. lanes w = kept bs @ map (\<lambda>j. (j, False)) js)"
proof
  assume w: "lastWord w bs"
  have "drop (length bs) (lanes w) = map (\<lambda>j. (j, False)) (map fst (drop (length bs) (lanes w)))"
    using w by (intro nth_equalityI) (auto simp: lastWord_def list_all_length prod_eq_iff)
  then have "lanes w = kept bs @ map (\<lambda>j. (j, False)) (map fst (drop (length bs) (lanes w)))"
    using w append_take_drop_id [of "length bs" "lanes w"] by (simp add: lastWord_def)
  with w show "ax_last w \<and> bs \<noteq> [] \<and> (\<exists>js. lanes w = kept bs @ map (\<lambda>j. (j, False)) js)"
    unfolding lastWord_def by blast
next
  assume "ax_last w \<and> bs \<noteq> [] \<and> (\<exists>js. lanes w = kept bs @ map (\<lambda>j. (j, False)) js)"
  then obtain js where w: "ax_last w" "bs \<noteq> []" "lanes w = kept bs @ map (\<lambda>j. (j, False)) js" by blast
  from arg_cong [OF w(3), of length] have "length bs \<le> 8" by simp
  with w show "lastWord w bs" by (simp add: lastWord_def list_all_length)
qed

lemma carries_validBytes: "carries ws bs \<Longrightarrow> validBytes ws = bs"
proof (induction ws arbitrary: bs)
  case Nil
  then show ?case by simp
next
  case (Cons w ws)
  show ?case
  proof (cases "ws = []")
    case True
    then have "lastWord w bs" using Cons.prems by (simp add: carries_single)
    then obtain js where "lanes w = kept bs @ map (\<lambda>j. (j, False)) js" by (auto simp: lastWord_lanes)
    with True show ?thesis by (simp add: filter_map o_def)
  next
    case False
    with Cons.prems Cons.IH [of "drop 8 bs"] show ?thesis by (simp add: carries_Cons)
  qed
qed

text \<open>What the joining of all words of a packet gives: it ends with the word after which nothing is kept.  The last word
  may be joined with a word \<open>e\<close> of which no byte is kept.\<close>

fun joinEnd :: "axiWord \<Rightarrow> nat \<Rightarrow> axiWord \<Rightarrow> axiWord list \<Rightarrow> axiWord list" where
  "joinEnd e n p [] = [(joinWord n p e zeroWord)\<lparr>ax_last := True\<rparr>]"
| "joinEnd e n p (w # ws) =
     (let fin = ((rng 7 n (ax_keep w) :: 8 word) = 0) in
      (joinWord n p w zeroWord)\<lparr>ax_last := fin\<rparr> # (if ax_last w \<and> fin then [] else joinEnd e n w ws))"

abbreviation joinRest :: "nat \<Rightarrow> axiWord \<Rightarrow> axiWord list \<Rightarrow> axiWord list" where
  "joinRest \<equiv> joinEnd zeroWord"

lemma nothing_kept:
  assumes "lanes w = kept bs @ map (\<lambda>j. (j, False)) js"
  shows "(rng 7 n (ax_keep w) :: 8 word) = 0 \<longleftrightarrow> length bs \<le> n"
proof -
  have len: "length bs + length js = 8" using arg_cong [OF assms, of length] by simp
  have "bit (ax_keep w) i \<longleftrightarrow> i < length bs" if "i < 8" for i
    using arg_cong [OF assms, of "\<lambda>l. snd (l ! i)"] that len by (auto simp: nth_lanes nth_append split: if_splits)
  then show ?thesis using len by (auto simp: rng_keep_zero)
qed

lemma full_kept: "lanes w = kept bs \<Longrightarrow> n < 8 \<Longrightarrow> (rng 7 n (ax_keep w) :: 8 word) \<noteq> 0"
  using nothing_kept [of w bs "[]" n] length_lanes [of w] by auto

lemma carries_joinEnd:
  assumes "0 < n" and "n < 8" and "\<And>i. i < n \<Longrightarrow> \<not> bit (ax_keep e) i"
  shows "carries (p # ws) bs \<Longrightarrow> n < length bs \<Longrightarrow> carries (joinEnd e n p ws) (drop n bs)"
proof (induction ws arbitrary: p bs)
  case Nil
  then obtain js where p: "lanes p = kept bs @ map (\<lambda>j. (j, False)) js"
    by (auto simp: carries_single lastWord_lanes)
  have "take n (lanes e) = map (\<lambda>j. (j, False)) (map fst (take n (lanes e)))"
    using assms by (intro nth_equalityI) (auto simp: nth_lanes)
  then have "lanes (joinWord n p e zeroWord) = kept (drop n bs) @ map (\<lambda>j. (j, False)) (js @ map fst (take n (lanes e)))"
    using p Nil.prems(2) assms(1,2) by (simp add: lanes_joinWord)
  then have "\<exists>js. lanes (joinWord n p e zeroWord) = kept (drop n bs) @ map (\<lambda>j. (j, False)) js" by blast
  with Nil.prems(2) show ?case by (simp add: carries_single lastWord_lanes)
next
  case (Cons w ws)
  have p: "8 < length bs" "lanes p = kept (take 8 bs)" "carries (w # ws) (drop 8 bs)"
    using Cons.prems(1) by (simp_all add: carries_Cons)
  have x: "lanes (joinWord n p w zeroWord) = kept (drop n (take 8 bs)) @ take n (lanes w)"
    using p(1,2) assms by (simp add: lanes_joinWord)
  show ?case
  proof (cases "ax_last w \<and> (rng 7 n (ax_keep w) :: 8 word) = 0")
    case True
    then have "ws = []" using carries_packet [OF p(3)] by (simp add: is_packet_Cons)
    then obtain js where w: "lanes w = kept (drop 8 bs) @ map (\<lambda>j. (j, False)) js"
      using p(3) by (auto simp: carries_single lastWord_lanes)
    have m: "length bs \<le> n + 8" using True nothing_kept [OF w, of n] by (simp add: le_diff_conv)
    have "drop n (take 8 bs) @ drop 8 bs = drop n bs"
      using p(1) assms append_take_drop_id [of "8 - n" "drop n bs"] by (simp add: drop_take)
    then have "lanes (joinWord n p w zeroWord) = kept (drop n bs) @ map (\<lambda>j. (j, False)) (take (n + 8 - length bs) js)"
      using x w m p(1) by (simp add: take_map flip: kept_simps(3))
    with True Cons.prems(2) show ?thesis by (simp add: carries_single lastWord_lanes Let_def) blast
  next
    case False
    have open_: "(rng 7 n (ax_keep w) :: 8 word) \<noteq> 0 \<and> n < length (drop 8 bs) \<and> take n (lanes w) = kept (take n (drop 8 bs))"
    proof (cases "ws = []")
      case True
      then obtain js where w: "lanes w = kept (drop 8 bs) @ map (\<lambda>j. (j, False)) js" "ax_last w"
        using p(3) by (auto simp: carries_single lastWord_lanes)
      with False nothing_kept [OF w(1), of n] show ?thesis by simp
    next
      case 1: False
      with p(3) have "lanes w = kept (take 8 (drop 8 bs))" "8 < length (drop 8 bs)" by (simp_all add: carries_Cons)
      with full_kept [of w _ n] assms(2) show ?thesis by auto
    qed
    have "take 8 (drop n bs) = drop n (take 8 bs) @ take n (drop 8 bs)"
      using p(1) assms take_add [of "8 - n" n "drop n bs"] by (simp add: drop_take add.commute)
    with x open_ have "lanes (joinWord n p w zeroWord) = kept (take 8 (drop n bs))" by simp
    moreover have "carries (joinEnd e n w ws) (drop n (drop 8 bs))" by (rule Cons.IH [OF p(3)]) (use open_ in simp)
    moreover have "drop n (drop 8 bs) = drop 8 (drop n bs)" by (simp add: add.commute)
    moreover have "8 < length (drop n bs)" using open_ by auto
    moreover have "joinEnd e n w ws \<noteq> []" by (cases ws) (simp_all add: Let_def)
    ultimately show ?thesis using False open_ by (simp add: carries_Cons Let_def)
  qed
qed

lemma carries_joinRest:
  assumes "0 < n" and "n < 8"
  shows "carries (p # ws) bs \<Longrightarrow> n < length bs \<Longrightarrow> carries (joinRest n p ws) (drop n bs)"
  by (rule carries_joinEnd [OF assms]) (simp_all add: zeroWord_def)

text \<open>The keep flags of a word of a packet.\<close>

lemma bit_keep:
  assumes "lanes w = kept bs @ map (\<lambda>j. (j, False)) js" and "n < 8"
  shows "bit (ax_keep w) n \<longleftrightarrow> n < length bs"
  using arg_cong [OF assms(1), of "\<lambda>l. snd (l ! n)"] arg_cong [OF assms(1), of length] assms(2)
  by (auto simp: nth_lanes nth_append split: if_splits)

lemma keep_flag:
  assumes "carries (w # ws) bs" and "n < 8"
  shows "bit (ax_keep w) n \<longleftrightarrow> n < length bs" and "(rng 7 n (ax_keep w) :: 8 word) = 0 \<longleftrightarrow> length bs \<le> n"
    and "ax_last w \<longleftrightarrow> ws = []"
proof -
  have "(bit (ax_keep w) n \<longleftrightarrow> n < length bs) \<and> ((rng 7 n (ax_keep w) :: 8 word) = 0 \<longleftrightarrow> length bs \<le> n) \<and> (ax_last w \<longleftrightarrow> ws = [])"
  proof (cases "ws = []")
    case True
    then obtain js where "lanes w = kept bs @ map (\<lambda>j. (j, False)) js" "ax_last w"
      using assms(1) by (auto simp: carries_single lastWord_lanes)
    with bit_keep nothing_kept assms(2) True show ?thesis by blast
  next
    case False
    then have w: "lanes w = kept (take 8 bs) @ map (\<lambda>j. (j, False)) []" "8 < length bs" "\<not> ax_last w"
      using assms(1) by (simp_all add: carries_Cons)
    with bit_keep [OF w(1) assms(2)] nothing_kept [OF w(1), of n] assms(2) False show ?thesis by simp
  qed
  then show "bit (ax_keep w) n \<longleftrightarrow> n < length bs" and "(rng 7 n (ax_keep w) :: 8 word) = 0 \<longleftrightarrow> length bs \<le> n"
    and "ax_last w \<longleftrightarrow> ws = []" by blast+
qed

lemma carries_byteAt: "carries (w # ws) bs \<Longrightarrow> i < 8 \<Longrightarrow> i < length bs \<Longrightarrow> byteAt (ax_data w) i = bs ! i"
proof (cases "ws = []")
  case True
  assume c: "carries (w # ws) bs" and i: "i < 8" "i < length bs"
  from c True obtain js where "lanes w = kept bs @ map (\<lambda>j. (j, False)) js" by (auto simp: carries_single lastWord_lanes)
  from arg_cong [OF this, of "\<lambda>l. fst (l ! i)"] i show ?thesis by (simp add: nth_lanes nth_append)
next
  case False
  assume c: "carries (w # ws) bs" and i: "i < 8" "i < length bs"
  from c False have "lanes w = kept (take 8 bs)" by (simp add: carries_Cons)
  from arg_cong [OF this, of "\<lambda>l. fst (l ! i)"] i show ?thesis by (simp add: nth_lanes)
qed

end
