(* ===== verification/Feed_Align.thy ===== *)
theory Feed_Align
  imports Stream_Bytes
begin

text \<open>
  The template functions \<^verbatim>\<open>binaryStreamAlign\<close> and \<^verbatim>\<open>fixStreamAlign\<close> of
  \<^verbatim>\<open>hw/feedHandler/feedhandler.hpp\<close>, which have the same body: they drop the first
  \<open>offset\<close> bytes of every packet and shift the rest down.  The main result is at the level of bytes:
  the valid bytes that leave an aligner are the valid bytes that entered, without the first ones.

  The code assigns complementary slices of the data and of the keep flags; an empty slice
  (\<open>offset = 0\<close> in the remainder state) assigns nothing here.
\<close>

datatype alignState = PKG | REMAINDER

record aligner =
  al_stateId :: alignState
  al_firstWord :: bool
  al_prevWord :: axiWord
  al_input :: "axiWord hls_stream"
  al_output :: "axiWord hls_stream"

text \<open>The slice assignments, for a stack variable that held \<open>w\<close>.\<close>

definition shiftWord :: "8 word \<Rightarrow> axiWord \<Rightarrow> axiWord \<Rightarrow> axiWord \<Rightarrow> axiWord" where
  "shiftWord offset prevWord currWord w =
     (let n = unat offset in
      w\<lparr>ax_data := upd 63 (64 - 8 * n) (rng (8 * n - 1) 0 (ax_data currWord) :: 64 word)
                    (upd (63 - 8 * n) 0 (rng 63 (8 * n) (ax_data prevWord) :: 64 word) (ax_data w)),
        ax_keep := upd 7 (8 - n) (rng (n - 1) 0 (ax_keep currWord) :: 8 word)
                    (upd (7 - n) 0 (rng 7 n (ax_keep prevWord) :: 8 word) (ax_keep w))\<rparr>)"

definition streamAlign :: "8 word \<Rightarrow> aligner \<Rightarrow> aligner" where
  "streamAlign offset k =
     (case al_stateId k of
        PKG \<Rightarrow>
          if \<not> s_empty (al_input k) then
            (let currWord = s_head (al_input k);
                 write = (\<not> al_firstWord k \<or> offset = 0);
                 sendWord =
                   (if \<not> write then zeroWord
                    else if offset = 0 then currWord
                    else (shiftWord offset (al_prevWord k) currWord zeroWord)
                      \<lparr>ax_last := ((rng 7 (unat offset) (ax_keep currWord) :: 8 word) = 0)\<rparr>) in
             k\<lparr>al_input := s_rest (al_input k),
               al_output := (if write then s_write (al_output k) sendWord else al_output k),
               al_prevWord := currWord,
               al_firstWord := ax_last currWord,
               al_stateId := (if ax_last currWord \<and> \<not> ax_last sendWord then REMAINDER else PKG)\<rparr>)
          else k
      | REMAINDER \<Rightarrow>
          k\<lparr>al_output := s_write (al_output k)
               ((shiftWord offset (al_prevWord k) zeroWord zeroWord)\<lparr>ax_last := True\<rparr>),
            al_stateId := PKG\<rparr>)"

lemma lanes_shiftWord:
  assumes "0 < unat offset" and "unat offset < 8"
  shows "lanes (shiftWord offset p c w) = drop (unat offset) (lanes p) @ take (unat offset) (lanes c)"
proof -
  have "shiftWord offset p c w = joinWord (unat offset) p c w" by (simp add: shiftWord_def joinWord_def Let_def)
  then show ?thesis by (simp add: lanes_joinWord [OF assms])
qed

section \<open>Whole packets\<close>

text \<open>What an aligner with a fixed non-zero offset emits for the rest of a packet after the word \<open>p\<close>.\<close>

fun alignRest :: "8 word \<Rightarrow> axiWord \<Rightarrow> axiWord list \<Rightarrow> axiWord list" where
  "alignRest offset p [] = [(shiftWord offset p zeroWord zeroWord)\<lparr>ax_last := True\<rparr>]"
| "alignRest offset p (w # ws) =
     (let fin = ((rng 7 (unat offset) (ax_keep w) :: 8 word) = 0) in
      (shiftWord offset p w zeroWord)\<lparr>ax_last := fin\<rparr> #
        (if ax_last w \<and> fin then [] else alignRest offset w ws))"

lemma align_step:
  assumes "offset \<noteq> 0" and "al_stateId k = PKG" and "\<not> al_firstWord k" and "al_input k = w # ws"
  shows "streamAlign offset k =
    (let fin = ((rng 7 (unat offset) (ax_keep w) :: 8 word) = 0) in
     k\<lparr>al_input := ws,
       al_output := al_output k @ [(shiftWord offset (al_prevWord k) w zeroWord)\<lparr>ax_last := fin\<rparr>],
       al_prevWord := w, al_firstWord := ax_last w,
       al_stateId := (if ax_last w \<and> \<not> fin then REMAINDER else PKG)\<rparr>)"
  using assms by (simp add: streamAlign_def s_write_def Let_def)

lemma align_rest:
  assumes "offset \<noteq> 0"
  shows "is_packet ws \<Longrightarrow> al_stateId k = PKG \<Longrightarrow> \<not> al_firstWord k \<Longrightarrow> al_input k = ws @ rest \<Longrightarrow>
    (streamAlign offset ^^ length (alignRest offset (al_prevWord k) ws)) k =
      k\<lparr>al_input := rest, al_output := al_output k @ alignRest offset (al_prevWord k) ws,
        al_prevWord := last ws, al_firstWord := True\<rparr>"
proof (induction ws arbitrary: k)
  case Nil
  then show ?case by simp
next
  case (Cons w ws)
  let ?fin = "(rng 7 (unat offset) (ax_keep w) :: 8 word) = 0"
  have st: "streamAlign offset k =
     k\<lparr>al_input := ws @ rest,
       al_output := al_output k @ [(shiftWord offset (al_prevWord k) w zeroWord)\<lparr>ax_last := ?fin\<rparr>],
       al_prevWord := w, al_firstWord := ax_last w,
       al_stateId := (if ax_last w \<and> \<not> ?fin then REMAINDER else PKG)\<rparr>"
    using align_step [OF assms Cons.prems(2,3), of w "ws @ rest"] Cons.prems(4) by (simp add: Let_def)
  show ?case
  proof (cases "ax_last w")
    case True
    then have [simp]: "ws = []" using Cons.prems(1) by (simp add: is_packet_Cons)
    show ?thesis
      using True Cons.prems(2) st by (simp add: funpow_swap1 Let_def) (simp add: streamAlign_def s_write_def)
  next
    case False
    then have ws: "is_packet ws" using Cons.prems(1) by (simp add: is_packet_Cons)
    show ?thesis
      using False Cons.prems(2) is_packet_nonempty [OF ws] Cons.IH [OF ws, of "streamAlign offset k"]
      by (simp add: st funpow_swap1 Let_def)
  qed
qed

lemma align_packet:
  assumes "offset \<noteq> 0" and "is_packet (p # ws)" and "al_stateId k = PKG" and "al_firstWord k"
    and "al_input k = p # ws @ rest"
  shows "(streamAlign offset ^^ Suc (length (alignRest offset p ws))) k =
      k\<lparr>al_input := rest, al_output := al_output k @ alignRest offset p ws,
        al_prevWord := last (p # ws), al_firstWord := True\<rparr>"
proof -
  have 1: "streamAlign offset k = k\<lparr>al_input := ws @ rest, al_prevWord := p, al_firstWord := ax_last p,
      al_stateId := (if ax_last p then REMAINDER else PKG)\<rparr>"
    using assms by (simp add: streamAlign_def zeroWord_def Let_def)
  show ?thesis
  proof (cases "ax_last p")
    case True
    then show ?thesis
      using assms(2,3,4) by (simp add: funpow_Suc_right 1 is_packet_Cons del: funpow.simps)
        (simp add: streamAlign_def s_write_def)
  next
    case False
    then have "is_packet ws" using assms(2) by (simp add: is_packet_Cons)
    from align_rest [OF assms(1) this, of "streamAlign offset k" rest] False assms(3,4) is_packet_nonempty [OF this]
    show ?thesis by (simp add: funpow_Suc_right 1 del: funpow.simps)
  qed
qed

text \<open>The valid bytes of the output.\<close>

lemma validBytes_alignRest:
  assumes "0 < unat offset" and "unat offset < 8"
  shows "ws = [] \<or> is_packet ws \<Longrightarrow> validBytes (alignRest offset p ws) =
    map fst (filter snd (drop (unat offset) (lanes p))) @ validBytes ws"
proof (induction ws arbitrary: p)
  case Nil
  then show ?case by (simp add: lanes_shiftWord [OF assms] lanes_zero)
next
  case (Cons w ws)
  let ?n = "unat offset"
  have split: "filter snd (lanes w) = filter snd (take ?n (lanes w)) @ filter snd (drop ?n (lanes w))"
    by (simp flip: filter_append)
  show ?case
  proof (cases "ax_last w \<and> (rng 7 ?n (ax_keep w) :: 8 word) = 0")
    case True
    then have "ws = []" using Cons.prems by (simp add: is_packet_Cons)
    with True show ?thesis
      by (simp add: lanes_shiftWord [OF assms] split filter_drop_lanes Let_def)
  next
    case False
    have "ws = [] \<or> is_packet ws" using Cons.prems by (auto simp: is_packet_Cons split: if_splits)
    from Cons.IH [OF this, of w] False show ?thesis
      by (auto simp: lanes_shiftWord [OF assms] split Let_def)
  qed
qed

section \<open>Properties\<close>

text \<open>With an offset of 1 to 7 an aligner drops exactly the first bytes of a packet: the output is one packet
  whose valid bytes are those of the input after the first \<open>offset\<close> lanes, in order, with none lost
  at the end, and the aligner is ready for the next packet.\<close>

theorem streamAlign_bytes:
  assumes "0 < unat offset" and "unat offset < 8" and "is_packet (p # ws)" and "al_stateId k = PKG"
    and "al_firstWord k" and "al_input k = p # ws @ rest"
  shows "\<exists>n out k'. (streamAlign offset ^^ n) k = k' \<and> al_stateId k' = PKG \<and> al_firstWord k' \<and>
    al_input k' = rest \<and> al_output k' = al_output k @ out \<and>
    validBytes out = map fst (filter snd (drop (unat offset) (lanes p))) @ validBytes ws"
proof -
  have ne: "offset \<noteq> 0" using assms(1) by auto
  have "ws = [] \<or> is_packet ws" using assms(3) by (auto simp: is_packet_Cons split: if_splits)
  with align_packet [OF ne assms(3-6)] validBytes_alignRest [OF assms(1,2)] show ?thesis
    by (intro exI [of _ "Suc (length (alignRest offset p ws))"] exI [of _ "alignRest offset p ws"]
        exI [of _ "(streamAlign offset ^^ Suc (length (alignRest offset p ws))) k"])
       (simp add: assms(4) del: funpow.simps)
qed

definition sampleAligner :: aligner where
  "sampleAligner = \<lparr>al_stateId = PKG, al_firstWord = True, al_prevWord = zeroWord,
     al_input = [\<lparr>ax_data = 0x0807060504030201, ax_keep = 255, ax_last = True\<rparr>], al_output = []\<rparr>"

theorem streamAlign_bytes_witness:
  "\<exists>n out. al_output ((streamAlign 2 ^^ n) sampleAligner) = out \<and>
     validBytes out = map fst (filter snd (drop 2 (lanes \<lparr>ax_data = 0x0807060504030201, ax_keep = 255, ax_last = True\<rparr>)))"
proof -
  have h: "0 < unat (2 :: 8 word)" "unat (2 :: 8 word) < 8"
    "is_packet (\<lparr>ax_data = 0x0807060504030201, ax_keep = 255, ax_last = True\<rparr> # [])"
    "al_stateId sampleAligner = PKG" "al_firstWord sampleAligner"
    "al_input sampleAligner = \<lparr>ax_data = 0x0807060504030201, ax_keep = 255, ax_last = True\<rparr> # [] @ []"
    by (simp_all add: sampleAligner_def)
  from streamAlign_bytes [OF h] show ?thesis by (auto simp: sampleAligner_def simp del: funpow.simps)
qed

end
