(* ===== verification/Feed_Packets.thy ===== *)
theory Feed_Packets
  imports Feed_Align
begin

text \<open>
  \<^verbatim>\<open>FeedHandler::udpPacketHandler\<close> and
  \<^verbatim>\<open>FeedHandler::binaryPacketHandler\<close> of \<^verbatim>\<open>hw/feedHandler/feedhandler.cpp\<close>:
  the first strips the 12-byte packet header from each UDP packet, the second cuts the rest into
  messages, sends their template identifiers ahead and marks their ends.

  The depth of the FIFO behind a handler is left to the tool by the source and is a parameter.
  A shift register of depth one is the word it holds.
\<close>

section \<open>The packet header\<close>

datatype udpState = UDP_DECODE | UDP_FWDUDP | UDP_REMAINDER

record udpHandler =
  uh_stateId :: udpState
  uh_Sreg :: axiWord
  uh_wordCount :: "1 word"
  uh_countProcessWord :: "32 word"
  uh_countProcessPacket :: "32 word"
  uh_inputStream :: "axiWord hls_stream"
  uh_outputStream :: "axiWord hls_stream"
  uh_regProcessWord :: "32 word"
  uh_regProcessPacket :: "32 word"

definition udpDecode :: "udpHandler \<Rightarrow> udpHandler" where
  "udpDecode k =
     (if \<not> s_empty (uh_inputStream k) then
        (let currWord = s_head (uh_inputStream k);
             k = k\<lparr>uh_inputStream := s_rest (uh_inputStream k),
                   uh_countProcessWord := uh_countProcessWord k + 1\<rparr> in
         if 1 = uh_wordCount k
         then k\<lparr>uh_wordCount := 0, uh_Sreg := currWord, uh_stateId := UDP_FWDUDP\<rparr>
         else k\<lparr>uh_wordCount := uh_wordCount k + 1\<rparr>)
      else k)"

definition joinHalves :: "axiWord \<Rightarrow> axiWord \<Rightarrow> 64 word" where
  "joinHalves prevData currWord =
     upd 63 32 (rng 31 0 (ax_data currWord) :: 32 word) (upd 31 0 (rng 63 32 (ax_data prevData) :: 32 word) 0)"

definition udpForward :: "nat \<Rightarrow> udpHandler \<Rightarrow> udpHandler" where
  "udpForward depth k =
     (if \<not> s_empty (uh_inputStream k) \<and> \<not> s_full depth (uh_outputStream k) then
        (let currWord = s_head (uh_inputStream k);
             sendWord = \<lparr>ax_data = joinHalves (uh_Sreg k) currWord, ax_keep = 0xFF, ax_last = False\<rparr> in
         k\<lparr>uh_inputStream := s_rest (uh_inputStream k),
           uh_outputStream := s_write (uh_outputStream k) sendWord,
           uh_Sreg := currWord,
           uh_stateId := (if ax_last currWord then UDP_REMAINDER else UDP_FWDUDP)\<rparr>)
      else k)"

definition udpRemainder :: "udpHandler \<Rightarrow> udpHandler" where
  "udpRemainder k =
     k\<lparr>uh_outputStream := s_write (uh_outputStream k)
          \<lparr>ax_data = joinHalves (uh_Sreg k) zeroWord, ax_keep = 0xF, ax_last = True\<rparr>,
        uh_countProcessPacket := uh_countProcessPacket k + 1,
        uh_stateId := UDP_DECODE\<rparr>"

definition udpPacketHandler :: "nat \<Rightarrow> udpHandler \<Rightarrow> udpHandler" where
  "udpPacketHandler depth k =
     (let k = (case uh_stateId k of
                 UDP_DECODE \<Rightarrow> udpDecode k
               | UDP_FWDUDP \<Rightarrow> udpForward depth k
               | UDP_REMAINDER \<Rightarrow> udpRemainder k)
      in k\<lparr>uh_regProcessWord := uh_countProcessWord k, uh_regProcessPacket := uh_countProcessPacket k\<rparr>)"

lemmas udp_defs = udpPacketHandler_def udpDecode_def udpForward_def udpRemainder_def

text \<open>The two 32-bit halves of each word, low half first.\<close>

definition halves :: "axiWord list \<Rightarrow> 32 word list" where
  "halves ws = concat (map (\<lambda>w. [rng 31 0 (ax_data w), rng 63 32 (ax_data w)]) ws)"

lemma halves_simps [simp]:
  "halves [] = []" "halves (w # ws) = rng 31 0 (ax_data w) # rng 63 32 (ax_data w) # halves ws"
  by (simp_all add: halves_def)

lemma rng_joinHalves [simp]:
  "(rng 31 0 (joinHalves p c) :: 32 word) = rng 63 32 (ax_data p)"
  "(rng 63 32 (joinHalves p c) :: 32 word) = rng 31 0 (ax_data c)"
  by (simp_all add: joinHalves_def rng_simps)

text \<open>The words that leave the handler for the words \<open>ws\<close> after the word \<open>p\<close>.\<close>

fun udpRest :: "axiWord \<Rightarrow> axiWord list \<Rightarrow> axiWord list" where
  "udpRest p [] = [\<lparr>ax_data = joinHalves p zeroWord, ax_keep = 0xF, ax_last = True\<rparr>]"
| "udpRest p (w # ws) = \<lparr>ax_data = joinHalves p w, ax_keep = 0xFF, ax_last = False\<rparr> # udpRest w ws"

lemma length_udpRest [simp]: "length (udpRest p ws) = Suc (length ws)"
  by (induction p ws rule: udpRest.induct) simp_all

lemma is_packet_udpRest: "is_packet (udpRest p ws)"
  by (induction p ws rule: udpRest.induct) (simp_all add: is_packet_Cons)

lemma halves_udpRest: "halves (udpRest p ws) = rng 63 32 (ax_data p) # halves ws @ [0]"
  by (induction p ws rule: udpRest.induct) (simp_all add: zeroWord_def)

definition uh_view :: "udpHandler \<Rightarrow> udpState \<times> axiWord \<times> 1 word \<times> axiWord list \<times> axiWord list \<times> 32 word" where
  "uh_view k = (uh_stateId k, uh_Sreg k, uh_wordCount k, uh_inputStream k, uh_outputStream k, uh_countProcessPacket k)"

fun uh_next :: "nat \<Rightarrow> udpState \<times> axiWord \<times> 1 word \<times> axiWord list \<times> axiWord list \<times> 32 word \<Rightarrow>
    udpState \<times> axiWord \<times> 1 word \<times> axiWord list \<times> axiWord list \<times> 32 word" where
  "uh_next depth (UDP_DECODE, s, c, w # ws, out, n) =
     (if 1 = c then (UDP_FWDUDP, w, 0, ws, out, n) else (UDP_DECODE, s, c + 1, ws, out, n))"
| "uh_next depth (UDP_FWDUDP, s, c, w # ws, out, n) =
     (if length out < depth
      then (if ax_last w then UDP_REMAINDER else UDP_FWDUDP, w, c, ws,
            out @ [\<lparr>ax_data = joinHalves s w, ax_keep = 0xFF, ax_last = False\<rparr>], n)
      else (UDP_FWDUDP, s, c, w # ws, out, n))"
| "uh_next depth (UDP_REMAINDER, s, c, ws, out, n) =
     (UDP_DECODE, s, c, ws, out @ [\<lparr>ax_data = joinHalves s zeroWord, ax_keep = 0xF, ax_last = True\<rparr>], n + 1)"
| "uh_next depth v = v"

lemma uh_view_step: "uh_view (udpPacketHandler depth k) = uh_next depth (uh_view k)"
  by (cases "uh_stateId k"; cases "uh_inputStream k")
     (auto simp: uh_view_def udp_defs s_write_def s_full_def Let_def)

lemma uh_view_run: "uh_view ((udpPacketHandler depth ^^ n) k) = (uh_next depth ^^ n) (uh_view k)"
  by (induction n) (simp_all add: uh_view_step)

lemma udp_rest:
  "is_packet ws \<Longrightarrow> length out + length ws \<le> depth \<Longrightarrow>
    (uh_next depth ^^ Suc (length ws)) (UDP_FWDUDP, s, c, ws @ rest, out, n) =
      (UDP_DECODE, last ws, c, rest, out @ udpRest s ws, n + 1)"
proof (induction ws arbitrary: s out)
  case Nil
  then show ?case by simp
next
  case (Cons w ws)
  show ?case
  proof (cases "ax_last w")
    case True
    then have "ws = []" using Cons.prems by (simp add: is_packet_Cons)
    then show ?thesis using True Cons.prems by (simp add: funpow_swap1)
  next
    case False
    then have ws: "is_packet ws" using Cons.prems by (simp add: is_packet_Cons)
    let ?o = "\<lparr>ax_data = joinHalves s w, ax_keep = 0xFF, ax_last = False\<rparr>"
    have "(uh_next depth ^^ Suc (length (w # ws))) (UDP_FWDUDP, s, c, (w # ws) @ rest, out, n) =
        (uh_next depth ^^ Suc (length ws)) (UDP_FWDUDP, w, c, ws @ rest, out @ [?o], n)"
      using False Cons.prems by (simp add: funpow_Suc_right del: funpow.simps)
    also have "\<dots> = (UDP_DECODE, last ws, c, rest, (out @ [?o]) @ udpRest w ws, n + 1)"
      using Cons.prems(2) by (intro Cons.IH [OF ws]) simp
    finally show ?thesis using is_packet_nonempty [OF ws] by simp
  qed
qed

lemma udp_packet:
  assumes "is_packet (u # v # ws)" and "ws \<noteq> []" and "length out + length ws \<le> depth"
  shows "(uh_next depth ^^ (3 + length ws)) (UDP_DECODE, s, 0, u # v # ws @ rest, out, n) =
    (UDP_DECODE, last ws, 0, rest, out @ udpRest v ws, n + 1)"
proof -
  have "is_packet ws" using assms(1,2) by (auto simp: is_packet_Cons split: if_splits)
  from udp_rest [OF this assms(3)] show ?thesis
    by (simp add: numeral_3_eq_3 funpow_Suc_right del: funpow.simps)
qed

section \<open>The messages of a packet\<close>

datatype binaryState = BIN_DECODE | BIN_FWDFIX

text \<open>The aligner's input is the stream from the UDP handler and its output is
  \<^verbatim>\<open>inputStreamAlign\<close>.\<close>

record binaryHandler =
  bh_stateId :: binaryState
  bh_wordCount :: "2 word"
  bh_msgSize :: "16 word"
  bh_receivedBytes :: "16 word"
  bh_blockLength :: "16 word"
  bh_offset :: "8 word"
  bh_countProcessBinary :: "32 word"
  bh_align :: aligner
  bh_outputStream :: "axiWord hls_stream"
  bh_templateIdStream :: "16 word hls_stream"
  bh_regProcessBinary :: "32 word"

definition binaryDecode :: "binaryHandler \<Rightarrow> binaryHandler" where
  "binaryDecode k =
     (if \<not> s_empty (al_output (bh_align k)) then
        (let currWord = s_head (al_output (bh_align k));
             k = k\<lparr>bh_align := (bh_align k)\<lparr>al_output := s_rest (al_output (bh_align k))\<rparr>\<rparr>;
             k = (if bh_wordCount k = 0 then
                    k\<lparr>bh_msgSize := rng 15 0 (ax_data currWord), bh_blockLength := rng 31 16 (ax_data currWord),
                      bh_templateIdStream := s_write (bh_templateIdStream k) (rng 47 32 (ax_data currWord))\<rparr>
                  else if bh_wordCount k = 1 then
                    k\<lparr>bh_outputStream := s_write (bh_outputStream k)
                        \<lparr>ax_data = upd 15 0 (0 :: 16 word) (ax_data currWord), ax_keep = 0xFF, ax_last = False\<rparr>,
                      bh_receivedBytes := 14\<rparr>
                  else k)
         in if bh_wordCount k = 1 then k\<lparr>bh_wordCount := 0, bh_stateId := BIN_FWDFIX\<rparr>
            else k\<lparr>bh_wordCount := bh_wordCount k + 1\<rparr>)
      else k)"

definition binaryForward :: "nat \<Rightarrow> binaryHandler \<Rightarrow> binaryHandler" where
  "binaryForward depth k =
     (if \<not> s_empty (al_output (bh_align k)) \<and> \<not> s_full depth (bh_outputStream k) then
        (let currWord = s_head (al_output (bh_align k));
             k = k\<lparr>bh_align := (bh_align k)\<lparr>al_output := s_rest (al_output (bh_align k))\<rparr>,
                   bh_receivedBytes := bh_receivedBytes k + 8\<rparr>
         in if bh_msgSize k \<le> bh_receivedBytes k \<or> ax_last currWord then
              k\<lparr>bh_offset := (if ax_last currWord then 0 else rng 2 0 (bh_msgSize k)),
                bh_outputStream := s_write (bh_outputStream k) (currWord\<lparr>ax_last := True\<rparr>),
                bh_countProcessBinary := bh_countProcessBinary k + 1,
                bh_stateId := BIN_DECODE\<rparr>
            else k\<lparr>bh_outputStream := s_write (bh_outputStream k) currWord\<rparr>)
      else k)"

definition binaryPacketHandler :: "nat \<Rightarrow> binaryHandler \<Rightarrow> binaryHandler" where
  "binaryPacketHandler depth k =
     (let k = k\<lparr>bh_align := streamAlign (bh_offset k) (bh_align k)\<rparr>;
          k = (case bh_stateId k of BIN_DECODE \<Rightarrow> binaryDecode k | BIN_FWDFIX \<Rightarrow> binaryForward depth k)
      in k\<lparr>bh_regProcessBinary := bh_countProcessBinary k\<rparr>)"

lemmas binary_defs = binaryPacketHandler_def binaryDecode_def binaryForward_def

text \<open>Between packets: nothing aligned is waiting, and the aligner passes words through.\<close>

definition binaryReady :: "binaryHandler \<Rightarrow> bool" where
  "binaryReady k \<longleftrightarrow> bh_offset k = 0 \<and> al_stateId (bh_align k) = PKG \<and> al_output (bh_align k) = []"

lemma streamAlign_0:
  assumes "al_stateId a = PKG" and "al_input a = w # ws" and "al_output a = []"
  shows "streamAlign 0 a = a\<lparr>al_input := ws, al_output := [w], al_prevWord := w, al_firstWord := ax_last w\<rparr>"
  using assms by (simp add: streamAlign_def s_write_def Let_def)

text \<open>The words \<open>ws\<close> after the header complete a message of size \<open>m\<close> when \<open>r\<close> bytes have been received.\<close>

fun completes :: "16 word \<Rightarrow> 16 word \<Rightarrow> axiWord list \<Rightarrow> bool" where
  "completes m r [] = False"
| "completes m r (w # ws) =
     (if m \<le> r + 8 \<or> ax_last w then ws = [] else completes m (r + 8) ws)"

definition markLast :: "axiWord list \<Rightarrow> axiWord list" where
  "markLast ws = butlast ws @ [(last ws)\<lparr>ax_last := True\<rparr>]"

lemma binary_forward_words:
  "completes (bh_msgSize k) (bh_receivedBytes k) ws \<Longrightarrow> binaryReady k \<Longrightarrow> bh_stateId k = BIN_FWDFIX \<Longrightarrow>
    al_input (bh_align k) = ws @ rest \<Longrightarrow> length (bh_outputStream k) + length ws \<le> depth \<Longrightarrow>
    \<exists>k'. (binaryPacketHandler depth ^^ length ws) k = k' \<and> bh_stateId k' = BIN_DECODE \<and>
      bh_wordCount k' = bh_wordCount k \<and> bh_outputStream k' = bh_outputStream k @ markLast ws \<and>
      bh_templateIdStream k' = bh_templateIdStream k \<and>
      bh_offset k' = (if ax_last (last ws) then 0 else ucast (rng 2 0 (bh_msgSize k) :: 3 word)) \<and>
      al_input (bh_align k') = rest \<and> al_output (bh_align k') = [] \<and> al_stateId (bh_align k') = PKG \<and>
      bh_countProcessBinary k' = bh_countProcessBinary k + 1"
proof (induction ws arbitrary: k)
  case Nil
  then show ?case by simp
next
  case (Cons w ws)
  let ?k1 = "binaryPacketHandler depth k"
  have a: "streamAlign 0 (bh_align k) =
      (bh_align k)\<lparr>al_input := ws @ rest, al_output := [w], al_prevWord := w, al_firstWord := ax_last w\<rparr>"
    using streamAlign_0 [of "bh_align k" w "ws @ rest"] Cons.prems(2,4) by (simp add: binaryReady_def)
  have r: "(rng 2 0 m :: 8 word) = ucast (rng 2 0 m :: 3 word)" for m :: "16 word"
    by (rule bit_word_eqI) (auto simp: bit_simps)
  show ?case
  proof (cases "bh_msgSize k \<le> bh_receivedBytes k + 8 \<or> ax_last w")
    case True
    then have "ws = []" using Cons.prems(1) by (auto split: if_splits)
    then show ?thesis
      using True Cons.prems(2,3,5)
      by (auto simp: binaryPacketHandler_def binaryForward_def a binaryReady_def s_full_def s_write_def
          markLast_def r Let_def)
  next
    case False
    then have c: "completes (bh_msgSize k) (bh_receivedBytes k + 8) ws" using Cons.prems(1) by (auto split: if_splits)
    have k1: "bh_msgSize ?k1 = bh_msgSize k" "bh_receivedBytes ?k1 = bh_receivedBytes k + 8" "binaryReady ?k1"
        "bh_stateId ?k1 = BIN_FWDFIX" "al_input (bh_align ?k1) = ws @ rest"
        "bh_outputStream ?k1 = bh_outputStream k @ [w]" "bh_wordCount ?k1 = bh_wordCount k"
        "bh_templateIdStream ?k1 = bh_templateIdStream k" "bh_countProcessBinary ?k1 = bh_countProcessBinary k"
      using False Cons.prems(2,3,5)
      by (simp_all add: binaryPacketHandler_def binaryForward_def a binaryReady_def s_full_def s_write_def Let_def)
    have ne: "ws \<noteq> []" using c by auto
    from Cons.IH [of ?k1] c k1 Cons.prems(5) ne show ?thesis
      by (simp add: funpow_swap1 markLast_def)
  qed
qed

lemma binary_message:
  assumes "binaryReady k" and "bh_stateId k = BIN_DECODE" and "bh_wordCount k = 0"
    and "al_input (bh_align k) = u # v # ws @ rest"
    and "completes (rng 15 0 (ax_data u)) 14 ws" and "Suc (length (bh_outputStream k) + length ws) \<le> depth"
  shows "\<exists>k'. (binaryPacketHandler depth ^^ (2 + length ws)) k = k' \<and> bh_stateId k' = BIN_DECODE \<and>
      bh_wordCount k' = 0 \<and>
      bh_outputStream k' = bh_outputStream k @
        \<lparr>ax_data = upd 15 0 (0 :: 16 word) (ax_data v), ax_keep = 0xFF, ax_last = False\<rparr> # markLast ws \<and>
      bh_templateIdStream k' = bh_templateIdStream k @ [rng 47 32 (ax_data u)] \<and>
      bh_offset k' = (if ax_last (last ws) then 0 else ucast (rng 2 0 (ax_data u) :: 3 word)) \<and>
      al_input (bh_align k') = rest \<and> al_output (bh_align k') = [] \<and> al_stateId (bh_align k') = PKG \<and>
      bh_countProcessBinary k' = bh_countProcessBinary k + 1"
proof -
  let ?k1 = "binaryPacketHandler depth k"
  let ?k2 = "binaryPacketHandler depth ?k1"
  have a1: "streamAlign 0 (bh_align k) =
      (bh_align k)\<lparr>al_input := v # ws @ rest, al_output := [u], al_prevWord := u, al_firstWord := ax_last u\<rparr>"
    using streamAlign_0 [of "bh_align k" u "v # ws @ rest"] assms(1,4) by (simp add: binaryReady_def)
  have k1: "binaryReady ?k1" "bh_stateId ?k1 = BIN_DECODE" "bh_wordCount ?k1 = 1"
      "al_input (bh_align ?k1) = v # ws @ rest" "bh_msgSize ?k1 = rng 15 0 (ax_data u)"
      "bh_outputStream ?k1 = bh_outputStream k" "bh_countProcessBinary ?k1 = bh_countProcessBinary k"
      "bh_templateIdStream ?k1 = bh_templateIdStream k @ [rng 47 32 (ax_data u)]"
    using assms(1-3) by (simp_all add: binaryPacketHandler_def binaryDecode_def a1 binaryReady_def s_write_def Let_def)
  have a2: "streamAlign 0 (bh_align ?k1) =
      (bh_align ?k1)\<lparr>al_input := ws @ rest, al_output := [v], al_prevWord := v, al_firstWord := ax_last v\<rparr>"
    using streamAlign_0 [of "bh_align ?k1" v "ws @ rest"] k1(1,4) by (simp add: binaryReady_def)
  have k2: "binaryReady ?k2" "bh_stateId ?k2 = BIN_FWDFIX" "bh_wordCount ?k2 = 0"
      "al_input (bh_align ?k2) = ws @ rest" "bh_msgSize ?k2 = rng 15 0 (ax_data u)" "bh_receivedBytes ?k2 = 14"
      "bh_outputStream ?k2 = bh_outputStream k @
        [\<lparr>ax_data = upd 15 0 (0 :: 16 word) (ax_data v), ax_keep = 0xFF, ax_last = False\<rparr>]"
      "bh_countProcessBinary ?k2 = bh_countProcessBinary k"
      "bh_templateIdStream ?k2 = bh_templateIdStream k @ [rng 47 32 (ax_data u)]"
    using k1 by (simp_all add: binaryPacketHandler_def [of depth "?k1"] binaryDecode_def a2 binaryReady_def s_write_def Let_def)
  have o: "(rng 2 0 (rng 15 0 (ax_data u) :: 16 word) :: 3 word) = rng 2 0 (ax_data u)"
    by (rule bit_word_eqI) (auto simp: bit_simps)
  have "(binaryPacketHandler depth ^^ (2 + length ws)) k = (binaryPacketHandler depth ^^ length ws) ?k2"
    by (simp add: numeral_2_eq_2 funpow_Suc_right del: funpow.simps)
  with binary_forward_words [of ?k2 ws rest depth] k2 assms(5,6) show ?thesis
    by (simp add: o del: funpow.simps)
qed

text \<open>A message whose size field covers exactly the words up to \<open>ws\<close>, none of them the last of the
  packet but perhaps the final one, is completed by them.\<close>

lemma completes_size:
  "ws \<noteq> [] \<Longrightarrow> unat m \<le> r + 8 * length ws \<Longrightarrow> r + 8 * (length ws - 1) < unat m \<Longrightarrow>
    unat m + 8 < 65536 \<Longrightarrow> \<forall>w\<in>set (butlast ws). \<not> ax_last w \<Longrightarrow> completes m (of_nat r) ws"
proof (induction ws arbitrary: r)
  case Nil
  then show ?case by simp
next
  case (Cons w ws)
  have r: "unat (of_nat (r + 8) :: 16 word) = r + 8"
    by (rule unat_of_nat_small) (use Cons.prems(3,4) in simp)
  have e: "of_nat r + 8 = (of_nat (r + 8) :: 16 word)" by simp
  show ?case
  proof (cases "ws = []")
    case True
    then show ?thesis using Cons.prems(2) by (simp add: e word_le_nat_alt r del: of_nat_add)
  next
    case False
    then obtain n where n: "length ws = Suc n" by (cases ws) auto
    have "\<not> m \<le> of_nat (r + 8)" using Cons.prems(3) n by (simp add: word_le_nat_alt r del: of_nat_add)
    moreover have "completes m (of_nat (r + 8)) ws"
      by (rule Cons.IH) (use False Cons.prems n in auto)
    ultimately show ?thesis using False Cons.prems(5) by (simp add: e del: of_nat_add)
  qed
qed

section \<open>Properties\<close>

text \<open>The UDP packet handler strips the 12-byte header: for a queued packet of three words or more, with room
  downstream, one call per word and one more emit a packet whose 32-bit halves are those of the
  input without the first three, padded by one zero half.\<close>

theorem udp_header_stripped:
  assumes "uh_view k = (UDP_DECODE, s, 0, p @ rest, out, n)" and "is_packet p" and "3 \<le> length p"
    and "length out + length p \<le> depth + 2"
  shows "\<exists>q s'. uh_view ((udpPacketHandler depth ^^ Suc (length p)) k) = (UDP_DECODE, s', 0, rest, out @ q, n + 1) \<and>
    is_packet q \<and> halves q = drop 3 (halves p) @ [0]"
proof -
  from assms(3) obtain u v w ws' where "p = u # v # w # ws'"
    by (auto simp: numeral_3_eq_3 Suc_le_length_iff)
  then obtain ws where p: "p = u # v # ws" "ws \<noteq> []" by blast
  have "uh_view ((udpPacketHandler depth ^^ (3 + length ws)) k) =
      (UDP_DECODE, last ws, 0, rest, out @ udpRest v ws, n + 1)"
    using udp_packet [of u v ws out depth s rest n] assms by (simp only: uh_view_run) (simp add: p)
  then show ?thesis
    by (intro exI [of _ "udpRest v ws"] exI [of _ "last ws"])
       (simp add: p is_packet_udpRest halves_udpRest numeral_3_eq_3)
qed

definition sampleUdp :: udpHandler where
  "sampleUdp =
     \<lparr>uh_stateId = UDP_DECODE, uh_Sreg = zeroWord, uh_wordCount = 0, uh_countProcessWord = 0,
      uh_countProcessPacket = 0, uh_inputStream = [zeroWord, zeroWord, zeroWord\<lparr>ax_last := True\<rparr>],
      uh_outputStream = [], uh_regProcessWord = 0, uh_regProcessPacket = 0\<rparr>"

theorem udp_header_stripped_witness:
  "\<exists>q s'. uh_view ((udpPacketHandler 2 ^^ 4) sampleUdp) = (UDP_DECODE, s', 0, [], q, 1) \<and> halves q = [0, 0, 0, 0]"
proof -
  let ?p = "[zeroWord, zeroWord, zeroWord\<lparr>ax_last := True\<rparr>]"
  have h: "uh_view sampleUdp = (UDP_DECODE, zeroWord, 0, ?p @ [], [], 0)" "is_packet ?p" "3 \<le> length ?p"
    "length ([] :: axiWord list) + length ?p \<le> 2 + 2"
    by (simp_all add: uh_view_def sampleUdp_def zeroWord_def)
  have "Suc (length ?p) = 4" by simp
  with udp_header_stripped [OF h] show ?thesis
    by (simp add: zeroWord_def eval_nat_numeral del: funpow.simps) blast
qed

text \<open>A packet of two words is not recognised as over: the handler waits in the forwarding state and treats the
  words of the next packet as its continuation.\<close>

theorem udp_runt_merges:
  assumes "uh_view k = (UDP_DECODE, s, 0, u # v # w # rest, out, n)" and "ax_last v" and "length out < depth"
  shows "uh_view ((udpPacketHandler depth ^^ 3) k) =
    (if ax_last w then UDP_REMAINDER else UDP_FWDUDP, w, 0, rest,
     out @ [\<lparr>ax_data = joinHalves v w, ax_keep = 0xFF, ax_last = False\<rparr>], n)"
  using assms(1,3) by (simp only: uh_view_run) (simp add: numeral_3_eq_3)

theorem udp_runt_merges_witness:
  "uh_outputStream ((udpPacketHandler 2 ^^ 3)
      (sampleUdp\<lparr>uh_inputStream := [zeroWord, zeroWord\<lparr>ax_last := True\<rparr>, zeroWord]\<rparr>)) =
    [\<lparr>ax_data = joinHalves (zeroWord\<lparr>ax_last := True\<rparr>) zeroWord, ax_keep = 0xFF, ax_last = False\<rparr>]"
proof -
  let ?k = "sampleUdp\<lparr>uh_inputStream := [zeroWord, zeroWord\<lparr>ax_last := True\<rparr>, zeroWord]\<rparr>"
  have h: "uh_view ?k = (UDP_DECODE, zeroWord, 0, zeroWord # zeroWord\<lparr>ax_last := True\<rparr> # zeroWord # [], [], 0)"
    "ax_last (zeroWord\<lparr>ax_last := True\<rparr>)" "length ([] :: axiWord list) < 2"
    by (simp_all add: uh_view_def sampleUdp_def)
  from udp_runt_merges [OF h] show ?thesis by (simp add: uh_view_def del: funpow.simps)
qed

text \<open>A message at the start of a packet is cut out whole: its template identifier goes ahead, the 10-byte
  message header is blanked down to two bytes that the next aligner drops, its words follow up to the
  size field or the end of the packet, and only the final one is marked last.  What the aligner skips
  for the next message of the packet is the size of this message modulo 8.\<close>

theorem binary_message_cut:
  assumes "binaryReady k" and "bh_stateId k = BIN_DECODE" and "bh_wordCount k = 0"
    and "al_input (bh_align k) = u # v # ws @ rest"
    and "completes (rng 15 0 (ax_data u)) 14 ws" and "Suc (length (bh_outputStream k) + length ws) \<le> depth"
  shows "\<exists>k'. (binaryPacketHandler depth ^^ (2 + length ws)) k = k' \<and> bh_stateId k' = BIN_DECODE \<and>
    bh_outputStream k' = bh_outputStream k @
      \<lparr>ax_data = upd 15 0 (0 :: 16 word) (ax_data v), ax_keep = 0xFF, ax_last = False\<rparr> # markLast ws \<and>
    bh_templateIdStream k' = bh_templateIdStream k @ [rng 47 32 (ax_data u)] \<and>
    bh_offset k' = (if ax_last (last ws) then 0 else ucast (rng 2 0 (ax_data u) :: 3 word)) \<and>
    al_input (bh_align k') = rest"
  using binary_message [OF assms] by blast

definition sampleBinary :: binaryHandler where
  "sampleBinary =
     \<lparr>bh_stateId = BIN_DECODE, bh_wordCount = 0, bh_msgSize = 0, bh_receivedBytes = 0, bh_blockLength = 0,
      bh_offset = 0, bh_countProcessBinary = 0,
      bh_align = \<lparr>al_stateId = PKG, al_firstWord = True, al_prevWord = zeroWord,
        al_input = [zeroWord\<lparr>ax_data := 20\<rparr>, zeroWord, zeroWord\<lparr>ax_last := True\<rparr>], al_output = []\<rparr>,
      bh_outputStream = [], bh_templateIdStream = [], bh_regProcessBinary = 0\<rparr>"

theorem binary_message_cut_witness:
  "\<exists>k'. (binaryPacketHandler 2 ^^ 3) sampleBinary = k' \<and> length (bh_outputStream k') = 2 \<and> bh_offset k' = 0"
proof -
  have h: "binaryReady sampleBinary" "bh_stateId sampleBinary = BIN_DECODE" "bh_wordCount sampleBinary = 0"
    "al_input (bh_align sampleBinary) = zeroWord\<lparr>ax_data := 20\<rparr> # zeroWord # [zeroWord\<lparr>ax_last := True\<rparr>] @ []"
    "completes (rng 15 0 (ax_data (zeroWord\<lparr>ax_data := 20\<rparr>))) 14 [zeroWord\<lparr>ax_last := True\<rparr>]"
    "Suc (length (bh_outputStream sampleBinary) + length [zeroWord\<lparr>ax_last := True\<rparr>]) \<le> 2"
    by (simp_all add: sampleBinary_def binaryReady_def)
  have "2 + length [zeroWord\<lparr>ax_last := True\<rparr>] = 3" by simp
  with binary_message_cut [OF h] show ?thesis by (auto simp: sampleBinary_def markLast_def simp del: funpow.simps)
qed

end
