(* ===== verification/Fix_Price.thy ===== *)
theory Fix_Price
  imports Aat_Prelude
begin

text \<open>
  The price conversion of the FIX decoder, \<open>price64bit = (mantissa * PRICE_EXPONENT)\<close> of
  \<^verbatim>\<open>hw/feedHandler/feedhandler.cpp\<close> with \<open>PRICE_EXPONENT = 0.00001\<close>
  (\<^verbatim>\<open>aat_defines.hpp\<close>): a 64-bit integer is converted to an IEEE 754 double, multiplied
  by the double nearest to \<open>0.00001\<close> and truncated to a 64-bit integer.

  Doubles are modelled by their exact values.  A non-negative integer is rounded to 53 significant
  bits, to nearest and ties to even (\<open>round53\<close>); the constant is \<open>5902958103587057 / 2 ^ 69\<close>; no
  value in reach is subnormal or overflows.  The result is that for every mantissa of a price that
  fits in 32 bits the conversion is the exact integer division.
\<close>

fun bitLength :: "nat \<Rightarrow> nat" where
  "bitLength n = (if n = 0 then 0 else Suc (bitLength (n div 2)))"

declare bitLength.simps [simp del]

definition round53 :: "nat \<Rightarrow> nat" where
  "round53 n =
     (let s = bitLength n - 53; q = n div 2 ^ s; r = n mod 2 ^ s in
      if s = 0 then n
      else if 2 ^ (s - 1) < r \<or> r = 2 ^ (s - 1) \<and> odd q then Suc q * 2 ^ s
      else q * 2 ^ s)"

definition PRICE_EXPONENT_mantissa :: nat where
  "PRICE_EXPONENT_mantissa = 5902958103587057"

text \<open>The magnitude of the product, as a multiple of \<open>2 ^ - 69\<close>, truncated to an integer.\<close>

definition scaleMagnitude :: "nat \<Rightarrow> nat" where
  "scaleMagnitude m = round53 (round53 m * PRICE_EXPONENT_mantissa) div 2 ^ 69"

definition scalePrice :: "64 word \<Rightarrow> 64 word" where
  "scalePrice mantissa =
     (if sint mantissa < 0 then - of_nat (scaleMagnitude (nat (- sint mantissa)))
      else of_nat (scaleMagnitude (nat (sint mantissa))))"

section \<open>Rounding\<close>

lemma bitLength_bounds: "n < 2 ^ bitLength n \<and> (n \<noteq> 0 \<longrightarrow> 2 ^ (bitLength n - 1) \<le> n)"
proof (induction n rule: bitLength.induct)
  case (1 n)
  show ?case
  proof (cases "n = 0")
    case False
    have l: "bitLength n = Suc (bitLength (n div 2))" using False by (subst bitLength.simps) simp
    have ih: "n div 2 < 2 ^ bitLength (n div 2)" "n div 2 \<noteq> 0 \<Longrightarrow> 2 ^ (bitLength (n div 2) - 1) \<le> n div 2"
      using 1 [OF False] by auto
    have "n < 2 * 2 ^ bitLength (n div 2)" using ih(1) by linarith
    moreover have "2 ^ bitLength (n div 2) \<le> n"
    proof (cases "n div 2 = 0")
      case True
      then show ?thesis using False by (simp add: bitLength.simps)
    next
      case False
      then have "bitLength (n div 2) = Suc (bitLength (n div 2) - 1)" by (subst (1 2) bitLength.simps) simp
      then have "2 ^ bitLength (n div 2) = 2 * 2 ^ (bitLength (n div 2) - (1 :: nat)) * (1 :: nat)"
        by (metis mult_1_right power_Suc)
      then show ?thesis using ih(2) [OF False] by linarith
    qed
    ultimately show ?thesis by (simp add: l)
  qed (simp add: bitLength.simps)
qed

lemma bitLength_le:
  assumes "n < 2 ^ k"
  shows "bitLength n \<le> k"
proof (rule ccontr)
  assume "\<not> bitLength n \<le> k"
  moreover have "bitLength 0 = 0" by (simp add: bitLength.simps)
  ultimately have "k \<le> bitLength n - 1" and "n \<noteq> 0" by (auto intro: ccontr)
  then have "2 ^ k \<le> n"
    using bitLength_bounds [of n] by (meson le_trans one_le_numeral power_increasing)
  with assms show False by simp
qed

text \<open>Integers below \<open>2 ^ 53\<close> are doubles; otherwise the error is at most half a unit of the last place,
  and rounding never crosses a multiple of that unit.\<close>

lemma round53_exact: "n < 2 ^ 53 \<Longrightarrow> round53 n = n"
  using bitLength_le [of n 53] by (simp add: round53_def Let_def)

lemma round53_upper:
  assumes "n < 2 ^ k" and "53 < k"
  shows "round53 n \<le> n + 2 ^ (k - 54)"
proof -
  let ?s = "bitLength n - 53"
  have s: "?s \<le> k - 53" using bitLength_le [OF assms(1)] by simp
  show ?thesis
  proof (cases "?s = 0")
    case True
    then show ?thesis by (simp add: round53_def Let_def)
  next
    case False
    then obtain t where t: "?s = Suc t" by (cases ?s) auto
    have "Suc (n div 2 ^ ?s) * 2 ^ ?s + n mod 2 ^ ?s = n + 2 ^ ?s"
      by (simp add: algebra_simps)
    moreover have "n div 2 ^ ?s * 2 ^ ?s \<le> n" by simp
    moreover have "(2 :: nat) ^ t \<le> 2 ^ (k - 54)" using s t by (intro power_increasing) simp_all
    moreover have "(2 :: nat) ^ ?s = 2 * 2 ^ t" by (simp add: t)
    ultimately have "2 ^ t \<le> n mod 2 ^ ?s \<Longrightarrow> Suc (n div 2 ^ ?s) * 2 ^ ?s \<le> n + 2 ^ (k - 54)"
      and "n div 2 ^ ?s * 2 ^ ?s \<le> n + 2 ^ (k - 54)" by linarith+
    then show ?thesis using False t by (auto simp: round53_def Let_def)
  qed
qed

lemma round53_lower:
  assumes "x * 2 ^ j \<le> n" and "n < 2 ^ (53 + j)"
  shows "x * 2 ^ j \<le> round53 n"
proof -
  let ?s = "bitLength n - 53"
  have s: "?s \<le> j" using bitLength_le [OF assms(2)] by simp
  then obtain d where d: "j = d + ?s" by (metis le_add_diff_inverse2)
  have e: "x * 2 ^ j = x * 2 ^ d * 2 ^ ?s" by (subst d) (simp only: power_add mult.assoc)
  have "x * 2 ^ d * 2 ^ ?s \<le> n" using assms(1) by (simp only: e)
  then have "x * 2 ^ d \<le> n div 2 ^ ?s" by (simp add: less_eq_div_iff_mult_less_eq)
  then have "x * 2 ^ d * 2 ^ ?s \<le> n div 2 ^ ?s * 2 ^ ?s" by simp
  then have low: "x * 2 ^ j \<le> n div 2 ^ ?s * 2 ^ ?s"
    by (simp only: e)
  then show ?thesis
    using assms(1) by (auto simp: round53_def Let_def)
qed

section \<open>The conversion is exact\<close>

lemma div_between: "p * d \<le> n \<Longrightarrow> n < (p + 1) * d \<Longrightarrow> n div d = (p :: nat)"
  by (rule div_nat_eqI) (simp_all add: mult.commute)

lemma scaleMagnitude_div:
  assumes "m < 2 ^ 32 * 100000"
  shows "scaleMagnitude m = m div 100000"
proof -
  let ?c = PRICE_EXPONENT_mantissa and ?p = "m div 100000"
  have c: "?c * 100000 = 2 ^ 69 + 48288" by (simp add: PRICE_EXPONENT_mantissa_def)
  have P: "round53 m = m" by (rule round53_exact) (use assms in simp)
  have lt: "m * ?c < 2 ^ 102"
  proof -
    have "m * ?c < 2 ^ 32 * 100000 * ?c" using assms by (simp add: PRICE_EXPONENT_mantissa_def)
    also have "\<dots> < 2 ^ 102" by (simp add: PRICE_EXPONENT_mantissa_def)
    finally show ?thesis .
  qed
  have div: "?p * 100000 \<le> m" "m < (?p + 1) * 100000" by simp_all
  have p: "?p < 2 ^ 32" using assms by simp
  have "?p * 2 ^ 69 \<le> ?p * 100000 * ?c" by (simp add: PRICE_EXPONENT_mantissa_def)
  also have "\<dots> \<le> m * ?c" using div(1) by (rule mult_le_mono1)
  finally have low: "?p * 2 ^ 69 \<le> round53 (m * ?c)"
    by (rule round53_lower) (use lt in simp)
  have "m * ?c + ?c \<le> (?p + 1) * (?c * 100000)"
  proof -
    have "m + 1 \<le> (?p + 1) * 100000" using div(2) by linarith
    then have "(m + 1) * ?c \<le> (?p + 1) * 100000 * ?c" by (rule mult_le_mono1)
    then show ?thesis by (simp add: algebra_simps)
  qed
  moreover have "(?p + 1) * (?c * 100000) = (?p + 1) * 2 ^ 69 + (?p + 1) * 48288"
    by (simp only: c distrib_left)
  moreover have "(?p + 1) * 48288 \<le> 2 ^ 32 * 48288" using p by simp
  moreover have "2 ^ 32 * 48288 + 2 ^ 48 < ?c" by (simp add: PRICE_EXPONENT_mantissa_def)
  moreover have "round53 (m * ?c) \<le> m * ?c + 2 ^ 48" using round53_upper [OF lt] by simp
  ultimately have up: "round53 (m * ?c) < (?p + 1) * 2 ^ 69" by linarith
  show ?thesis
    unfolding scaleMagnitude_def P
    by (rule div_between [OF low up])
qed

lemma scalePrice_div:
  assumes "unat mantissa < 2 ^ 32 * 100000"
  shows "scalePrice mantissa = of_nat (unat mantissa div 100000)"
proof -
  have "unat mantissa < 2 ^ 63" using assms by simp
  then have "int (unat mantissa) < int (2 ^ 63)" by (simp only: of_nat_less_iff)
  then have "uint mantissa < 2 ^ 63" by simp
  moreover have "- (2 ^ 63) \<le> uint mantissa" by (rule order_trans [of _ 0]) simp_all
  ultimately have "sint mantissa = int (unat mantissa)"
    using signed_take_bit_int_eq_self [of 63 "uint mantissa"] by (simp add: sint_uint)
  then show ?thesis using assms by (simp add: scalePrice_def scaleMagnitude_div)
qed

section \<open>Properties\<close>

text \<open>The floating-point price conversion is exact: for every mantissa of a non-negative price that fits in 32
  bits, multiplying by the double \<open>0.00001\<close> and truncating gives the integer quotient by 100000, with
  no rounding error at any of the \<open>2 ^ 32 * 100000\<close> values.\<close>

theorem price_conversion_exact:
  assumes "unat mantissa < 2 ^ 32 * 100000"
  shows "scalePrice mantissa = of_nat (unat mantissa div 100000)"
  by (rule scalePrice_div [OF assms])

theorem price_conversion_exact_witness: "scalePrice 12345678 = 123"
  using price_conversion_exact [of 12345678] by simp

end
