(* ===== verification/Fix_Decoder.thy ===== *)
theory Fix_Decoder
  imports Feed_Align Fix_Price
begin

text \<open>
  \<^verbatim>\<open>FeedHandler::fixDecoderTop\<close>, \<^verbatim>\<open>fixDecoder\<close>,
  \<^verbatim>\<open>MDIncrementalRefreshBook32\<close> and \<^verbatim>\<open>symbolLookup\<close> of
  \<^verbatim>\<open>hw/feedHandler/feedhandler.cpp\<close>: the decoder of the market data incremental
  refresh message, which turns each of its book entries into an order book operation, and the
  lookup of the security identifier.

  The specification reads an entry as one 256-bit little-endian block (\<open>entryWord\<close>,
  \<open>decodeEntry\<close>); the decoder sees it spread over five stream words, two bytes off.
\<close>

section \<open>The refresh message\<close>

datatype refreshState = RB_DECODE | RB_GROUPDECODE | RB_GROUP2SETUP | RB_GROUPDECODE2

record refreshBook =
  rb_stateId :: refreshState
  rb_wordCount :: "16 word"
  rb_groupWordCount :: "16 word"
  rb_groupWordCount2 :: "16 word"
  rb_numOfGroups :: "16 word"
  rb_numOfGroups2 :: "16 word"
  rb_time :: "64 word"
  rb_matchEvent :: "8 word"
  rb_groupBlockLen :: "16 word"
  rb_groupRepeat :: "8 word"
  rb_groupBlockLen2 :: "16 word"
  rb_groupRepeat2 :: "8 word"
  rb_rptSeq :: "32 word"
  rb_orderPriority :: "64 word"
  rb_mantissa :: "64 word"
  rb_price64bit :: "64 word"
  rb_orderQty :: "32 word"
  rb_securityID :: "32 word"
  rb_updateAction :: "8 word"
  rb_entrySize :: "32 word"
  rb_priceLevel :: "8 word"
  rb_entryType :: "8 word"
  rb_orderID :: "64 word"
  rb_displyQty :: "32 word"
  rb_refId :: "8 word"
  rb_orderUpdate :: "8 word"
  rb_Sreg :: "64 word"

text \<open>What a word adds to the two output streams: a security identifier and an operation.\<close>

type_synonym fixEmit = "(32 word \<times> orderBookOperation) list"

definition refreshHeader :: "64 word \<Rightarrow> refreshBook \<Rightarrow> refreshBook" where
  "refreshHeader d k =
     (let k = (if rb_wordCount k = 0 then
                 k\<lparr>rb_time := upd 31 0 (rng 63 32 d :: 32 word) (rb_time k)\<rparr>
               else if rb_wordCount k = 1 then
                 k\<lparr>rb_time := upd 63 32 (rng 31 0 d :: 32 word) (rb_time k),
                   rb_matchEvent := rng 39 32 d,
                   rb_groupBlockLen := upd 7 0 (rng 63 56 d :: 8 word) (rb_groupBlockLen k)\<rparr>
               else if rb_wordCount k = 2 then
                 k\<lparr>rb_groupBlockLen := upd 15 8 (rng 7 0 d :: 8 word) (rb_groupBlockLen k),
                   rb_groupRepeat := rng 15 8 d,
                   rb_Sreg := d\<rparr>
               else k)
      in if rb_wordCount k = 2 then k\<lparr>rb_wordCount := 0, rb_stateId := RB_GROUPDECODE\<rparr>
         else k\<lparr>rb_wordCount := rb_wordCount k + 1\<rparr>)"

definition refreshOperation :: "refreshBook \<Rightarrow> orderBookOperation" where
  "refreshOperation k =
     \<lparr>obo_timestamp = rb_time k, obo_opCode = rb_updateAction k, obo_symbolIndex = 0, obo_orderId = 0,
      obo_orderCount = rb_orderQty k, obo_quantity = rb_entrySize k, obo_price = rng 31 0 (rb_price64bit k),
      obo_direction = rb_entryType k - 0x30, obo_level = rb_priceLevel k\<rparr>"

definition refreshEntry :: "64 word \<Rightarrow> refreshBook \<Rightarrow> refreshBook \<times> fixEmit" where
  "refreshEntry d k =
     (if rb_groupWordCount k = 0 then
        (k\<lparr>rb_mantissa := upd 63 48 (rng 15 0 d :: 16 word) (upd 47 0 (rng 63 16 (rb_Sreg k) :: 48 word) (rb_mantissa k)),
           rb_entrySize := rng 47 16 d,
           rb_securityID := upd 15 0 (rng 63 48 d :: 16 word) (rb_securityID k)\<rparr>, [])
      else if rb_groupWordCount k = 1 then
        (k\<lparr>rb_securityID := upd 31 16 (rng 15 0 d :: 16 word) (rb_securityID k),
           rb_rptSeq := rng 47 16 d,
           rb_orderQty := upd 15 0 (rng 63 48 d :: 16 word) (rb_orderQty k),
           rb_price64bit := scalePrice (rb_mantissa k)\<rparr>, [])
      else if rb_groupWordCount k = 2 then
        (k\<lparr>rb_orderQty := upd 31 16 (rng 15 0 d :: 16 word) (rb_orderQty k),
           rb_priceLevel := rng 23 16 d,
           rb_updateAction := rng 31 24 d,
           rb_entryType := rng 39 32 d\<rparr>, [])
      else if rb_groupWordCount k = 3 then
        (k\<lparr>rb_Sreg := d\<rparr>, [(rb_securityID k, refreshOperation k)])
      else (k, []))"

definition refreshGroup :: "64 word \<Rightarrow> refreshBook \<Rightarrow> refreshBook \<times> fixEmit" where
  "refreshGroup d k =
     (let (k, out) = refreshEntry d k;
          k = (if rb_groupWordCount k = 3
               then k\<lparr>rb_groupWordCount := 0, rb_numOfGroups := rb_numOfGroups k + 1\<rparr>
               else k\<lparr>rb_groupWordCount := rb_groupWordCount k + 1\<rparr>);
          k = (if rb_numOfGroups k = ucast (rb_groupRepeat k)
               then k\<lparr>rb_stateId := RB_GROUP2SETUP, rb_numOfGroups := 0\<rparr> else k)
      in (k, out))"

definition refreshSetup2 :: "64 word \<Rightarrow> refreshBook \<Rightarrow> refreshBook" where
  "refreshSetup2 d k =
     k\<lparr>rb_Sreg := d, rb_groupBlockLen2 := rng 31 16 (rb_Sreg k), rb_groupRepeat2 := rng 15 8 d,
       rb_stateId := RB_GROUPDECODE2\<rparr>"

definition refreshGroup2 :: "64 word \<Rightarrow> refreshBook \<Rightarrow> refreshBook" where
  "refreshGroup2 d k =
     (let k = (if rb_groupWordCount2 k = 0 then
                 k\<lparr>rb_orderID := upd 63 48 (rng 15 0 d :: 16 word) (upd 47 0 (rng 63 16 (rb_Sreg k) :: 48 word) (rb_orderID k)),
                   rb_orderPriority := upd 47 0 (rng 63 16 d :: 48 word) (rb_orderPriority k)\<rparr>
               else if rb_groupWordCount2 k = 1 then
                 k\<lparr>rb_orderPriority := upd 63 48 (rng 15 0 d :: 16 word) (rb_orderPriority k),
                   rb_displyQty := rng 47 16 d, rb_refId := rng 55 48 d, rb_orderUpdate := rng 63 56 d\<rparr>
               else if rb_groupWordCount2 k = 2 then k\<lparr>rb_Sreg := d\<rparr>
               else k);
          k = (if 2 = rb_groupWordCount2 k
               then k\<lparr>rb_groupWordCount2 := 0, rb_numOfGroups2 := rb_numOfGroups2 k + 1\<rparr>
               else k\<lparr>rb_groupWordCount2 := rb_groupWordCount2 k + 1\<rparr>)
      in if rb_numOfGroups2 k = ucast (rb_groupRepeat2 k)
         then k\<lparr>rb_stateId := RB_DECODE, rb_numOfGroups2 := 0\<rparr> else k)"

definition MDIncrementalRefreshBook32 :: "64 word \<Rightarrow> refreshBook \<Rightarrow> refreshBook \<times> fixEmit" where
  "MDIncrementalRefreshBook32 d k =
     (case rb_stateId k of
        RB_DECODE \<Rightarrow> (refreshHeader d k, [])
      | RB_GROUPDECODE \<Rightarrow> refreshGroup d k
      | RB_GROUP2SETUP \<Rightarrow> (refreshSetup2 d k, [])
      | RB_GROUPDECODE2 \<Rightarrow> (refreshGroup2 d k, []))"

section \<open>What a message says\<close>

definition entryWord :: "64 word \<Rightarrow> 64 word \<Rightarrow> 64 word \<Rightarrow> 64 word \<Rightarrow> 64 word \<Rightarrow> 256 word" where
  "entryWord p a b c d =
     upd 47 0 (rng 63 16 p :: 48 word) (upd 111 48 a (upd 175 112 b (upd 239 176 c (upd 255 240 (rng 15 0 d :: 16 word) 0))))"

text \<open>Price mantissa, size, security identifier, report sequence, order count, level, action, type.\<close>

definition decodeEntry :: "64 word \<Rightarrow> 256 word \<Rightarrow> 32 word \<times> orderBookOperation" where
  "decodeEntry time e =
     (rng 127 96 e,
      \<lparr>obo_timestamp = time, obo_opCode = rng 207 200 e, obo_symbolIndex = 0, obo_orderId = 0,
       obo_orderCount = rng 191 160 e, obo_quantity = rng 95 64 e,
       obo_price = rng 31 0 (scalePrice (rng 63 0 e)),
       obo_direction = rng 215 208 e - 0x30, obo_level = rng 199 192 e\<rparr>)"

fun entries :: "64 word \<Rightarrow> 64 word list \<Rightarrow> 256 word list" where
  "entries p (a # b # c # d # ws) = entryWord p a b c d # entries d ws"
| "entries p ws = []"

lemma entryWord_fields:
  "(rng 95 64 (entryWord p a b c d) :: 32 word) = rng 47 16 a"
  "(rng 199 192 (entryWord p a b c d) :: 8 word) = rng 23 16 c"
  "(rng 207 200 (entryWord p a b c d) :: 8 word) = rng 31 24 c"
  "(rng 215 208 (entryWord p a b c d) :: 8 word) = rng 39 32 c"
  "upd 63 48 (rng 15 0 a :: 16 word) (upd 47 0 (rng 63 16 p :: 48 word) m) = (rng 63 0 (entryWord p a b c d) :: 64 word)"
  "upd 31 16 (rng 15 0 b :: 16 word) (upd 15 0 (rng 63 48 a :: 16 word) s) = (rng 127 96 (entryWord p a b c d) :: 32 word)"
  "upd 31 16 (rng 15 0 c :: 16 word) (upd 15 0 (rng 63 48 b :: 16 word) q) = (rng 191 160 (entryWord p a b c d) :: 32 word)"
  unfolding entryWord_def by (rule bit_word_eqI, auto simp: bit_simps)+

section \<open>Decoding a message\<close>

definition refreshWords :: "refreshBook \<Rightarrow> 64 word list \<Rightarrow> refreshBook \<times> fixEmit" where
  "refreshWords = mealy (\<lambda>k d. MDIncrementalRefreshBook32 d k)"

lemma refreshWords_simps [simp]:
  "refreshWords k [] = (k, [])"
  "refreshWords k (d # ds) = (let (k', xs) = MDIncrementalRefreshBook32 d k; (k'', ys) = refreshWords k' ds in (k'', xs @ ys))"
  by (simp_all add: refreshWords_def mealy.simps(2))

lemma refreshWords_append:
  "refreshWords k (ds @ es) = (let (k', xs) = refreshWords k ds; (k'', ys) = refreshWords k' es in (k'', xs @ ys))"
  by (simp add: refreshWords_def mealy_append)

text \<open>The counters that must be clear between messages.\<close>

definition restCounters :: "refreshBook \<Rightarrow> bool" where
  "restCounters k \<longleftrightarrow> rb_wordCount k = 0 \<and> rb_groupWordCount2 k = 0 \<and> rb_numOfGroups2 k = 0"

definition refreshReady :: "refreshBook \<Rightarrow> bool" where
  "refreshReady k \<longleftrightarrow> rb_stateId k = RB_DECODE \<and> rb_groupWordCount k = 0 \<and> rb_numOfGroups k = 0 \<and> restCounters k"

lemma unat_repeat:
  fixes r :: "8 word"
  assumes "n \<le> 65535"
  shows "(of_nat n :: 16 word) = ucast r \<longleftrightarrow> n = unat r"
proof -
  have "unat (of_nat n :: 16 word) = n" by (rule unat_of_nat_small) (use assms in simp)
  moreover have "unat (ucast r :: 16 word) = unat r"
    using unsigned_less [of r, where ?'a = nat] by (simp add: unsigned_ucast_eq take_bit_nat_eq_self)
  ultimately show ?thesis by (simp add: word_unat_eq_iff)
qed

lemma length_4_Suc: "length ws = 4 * Suc m \<Longrightarrow> \<exists>a b c d vs. ws = a # b # c # d # vs \<and> length vs = 4 * m"
proof -
  assume "length ws = 4 * Suc m"
  then have "length ws = Suc (Suc (Suc (Suc (4 * m))))" by simp
  then show ?thesis by (auto simp: length_Suc_conv)
qed

lemma length_3_Suc: "length ws = 3 * Suc m \<Longrightarrow> \<exists>a b c vs. ws = a # b # c # vs \<and> length vs = 3 * m"
proof -
  assume "length ws = 3 * Suc m"
  then have "length ws = Suc (Suc (Suc (3 * m)))" by simp
  then show ?thesis by (auto simp: length_Suc_conv)
qed

lemma refresh_entry:
  assumes "rb_stateId k = RB_GROUPDECODE" and "rb_groupWordCount k = 0" and "rb_numOfGroups k = of_nat n"
    and "n < unat (rb_groupRepeat k)"
  shows "\<exists>k'. refreshWords k [a, b, c, d] = (k', [decodeEntry (rb_time k) (entryWord (rb_Sreg k) a b c d)]) \<and>
    rb_groupWordCount k' = 0 \<and> rb_Sreg k' = d \<and> rb_time k' = rb_time k \<and> rb_groupRepeat k' = rb_groupRepeat k \<and>
    restCounters k' = restCounters k \<and>
    (if Suc n = unat (rb_groupRepeat k)
     then rb_stateId k' = RB_GROUP2SETUP \<and> rb_numOfGroups k' = 0
     else rb_stateId k' = RB_GROUPDECODE \<and> rb_numOfGroups k' = of_nat (Suc n))"
proof -
  have lt: "n < 256" using assms(4) unsigned_less [of "rb_groupRepeat k", where ?'a = nat] by simp
  have ne: "(of_nat n :: 16 word) \<noteq> ucast (rb_groupRepeat k)" using assms(4) lt by (simp add: unat_repeat)
  have last: "(of_nat n + 1 :: 16 word) = ucast (rb_groupRepeat k) \<longleftrightarrow> Suc n = unat (rb_groupRepeat k)"
    using lt unat_repeat [of "Suc n" "rb_groupRepeat k"] by (simp add: add.commute)
  let ?e = "entryWord (rb_Sreg k) a b c d"
  let ?s = "upd 15 0 (rng 63 48 a :: 16 word) (rb_securityID k)"
  let ?q = "upd 15 0 (rng 63 48 b :: 16 word) (rb_orderQty k)"
  note fields = entryWord_fields [where p = "rb_Sreg k" and a = a and b = b and c = c and d = d]
  let ?k1 = "k\<lparr>rb_mantissa := rng 63 0 ?e, rb_entrySize := rng 47 16 a, rb_securityID := ?s, rb_groupWordCount := 1\<rparr>"
  let ?k2 = "?k1\<lparr>rb_securityID := rng 127 96 ?e, rb_rptSeq := rng 47 16 b, rb_orderQty := ?q,
    rb_price64bit := scalePrice (rng 63 0 ?e), rb_groupWordCount := 2\<rparr>"
  let ?k3 = "?k2\<lparr>rb_orderQty := rng 191 160 ?e, rb_priceLevel := rng 23 16 c, rb_updateAction := rng 31 24 c,
    rb_entryType := rng 39 32 c, rb_groupWordCount := 3\<rparr>"
  let ?k4 = "?k3\<lparr>rb_Sreg := d, rb_groupWordCount := 0, rb_numOfGroups := of_nat n + 1\<rparr>"
  let ?k5 = "if Suc n = unat (rb_groupRepeat k) then ?k4\<lparr>rb_stateId := RB_GROUP2SETUP, rb_numOfGroups := 0\<rparr> else ?k4"
  note defs = MDIncrementalRefreshBook32_def refreshGroup_def refreshEntry_def Let_def
  have 1: "MDIncrementalRefreshBook32 a k = (?k1, [])"
    using assms(1-3) ne by (simp add: defs fields(5))
  have 2: "MDIncrementalRefreshBook32 b ?k1 = (?k2, [])"
    using assms(1-3) ne by (simp add: defs fields(6))
  have 3: "MDIncrementalRefreshBook32 c ?k2 = (?k3, [])"
    using assms(1-3) ne by (simp add: defs fields(7))
  have 4: "MDIncrementalRefreshBook32 d ?k3 = (?k5, [decodeEntry (rb_time k) ?e])"
    using assms(1-3) last by (simp add: defs refreshOperation_def decodeEntry_def fields(1-4))
  have "refreshWords k [a, b, c, d] = (?k5, [decodeEntry (rb_time k) ?e])"
    by (simp only: refreshWords_simps 1 2 3 4 Let_def prod.case append_Nil append_Nil2)
  then show ?thesis
    using assms(1) by (intro exI [of _ ?k5]) (auto simp: restCounters_def)
qed

lemma refresh_groups:
  "length ws = 4 * m \<Longrightarrow> 0 < m \<Longrightarrow> rb_stateId k = RB_GROUPDECODE \<Longrightarrow> rb_groupWordCount k = 0 \<Longrightarrow>
    rb_numOfGroups k = of_nat n \<Longrightarrow> n + m = unat (rb_groupRepeat k) \<Longrightarrow>
    \<exists>k'. refreshWords k ws = (k', map (decodeEntry (rb_time k)) (entries (rb_Sreg k) ws)) \<and>
      rb_stateId k' = RB_GROUP2SETUP \<and> rb_groupWordCount k' = 0 \<and> rb_numOfGroups k' = 0 \<and>
      restCounters k' = restCounters k"
proof (induction m arbitrary: ws k n)
  case 0
  then show ?case by simp
next
  case (Suc m)
  from length_4_Suc [OF Suc.prems(1)] obtain a b c d vs
    where ws: "ws = a # b # c # d # vs" "length vs = 4 * m" by blast
  have lt: "n < unat (rb_groupRepeat k)" using Suc.prems(6) by simp
  from refresh_entry [OF Suc.prems(3-5) lt, of a b c d] obtain k1 where
    k1: "refreshWords k [a, b, c, d] = (k1, [decodeEntry (rb_time k) (entryWord (rb_Sreg k) a b c d)])"
      "rb_groupWordCount k1 = 0" "rb_Sreg k1 = d" "rb_time k1 = rb_time k" "rb_groupRepeat k1 = rb_groupRepeat k"
      "restCounters k1 = restCounters k"
    and st: "if Suc n = unat (rb_groupRepeat k)
     then rb_stateId k1 = RB_GROUP2SETUP \<and> rb_numOfGroups k1 = 0
     else rb_stateId k1 = RB_GROUPDECODE \<and> rb_numOfGroups k1 = of_nat (Suc n)" by blast
  have split: "refreshWords k ws = (let (k', ys) = refreshWords k1 vs in
      (k', decodeEntry (rb_time k) (entryWord (rb_Sreg k) a b c d) # ys))"
    using refreshWords_append [of k "[a, b, c, d]" vs] by (simp add: ws(1) k1(1) split: prod.splits del: refreshWords_simps)
  show ?case
  proof (cases "m = 0")
    case True
    then have "vs = []" "Suc n = unat (rb_groupRepeat k)" using ws(2) Suc.prems(6) by simp_all
    then show ?thesis using split st k1 by (simp add: ws(1))
  next
    case False
    then have "rb_stateId k1 = RB_GROUPDECODE" "rb_numOfGroups k1 = of_nat (Suc n)"
      using st Suc.prems(6) by auto
    from Suc.IH [OF ws(2) _ this(1) k1(2) this(2)] False Suc.prems(6) k1(3-6) obtain k2 where
      "refreshWords k1 vs = (k2, map (decodeEntry (rb_time k)) (entries d vs))"
      "rb_stateId k2 = RB_GROUP2SETUP" "rb_groupWordCount k2 = 0" "rb_numOfGroups k2 = 0"
      "restCounters k2 = restCounters k" by auto
    then show ?thesis using split by (simp add: ws(1))
  qed
qed

lemma refresh_group2:
  assumes "rb_stateId k = RB_GROUPDECODE2" and "rb_groupWordCount2 k = 0" and "rb_numOfGroups2 k = of_nat n"
    and "n < unat (rb_groupRepeat2 k)"
  shows "\<exists>k'. refreshWords k [a, b, c] = (k', []) \<and>
    rb_groupWordCount2 k' = 0 \<and> rb_groupRepeat2 k' = rb_groupRepeat2 k \<and> rb_wordCount k' = rb_wordCount k \<and>
    rb_groupWordCount k' = rb_groupWordCount k \<and> rb_numOfGroups k' = rb_numOfGroups k \<and>
    (if Suc n = unat (rb_groupRepeat2 k)
     then rb_stateId k' = RB_DECODE \<and> rb_numOfGroups2 k' = 0
     else rb_stateId k' = RB_GROUPDECODE2 \<and> rb_numOfGroups2 k' = of_nat (Suc n))"
proof -
  have lt: "n < 256" using assms(4) unsigned_less [of "rb_groupRepeat2 k", where ?'a = nat] by simp
  have ne: "(of_nat n :: 16 word) \<noteq> ucast (rb_groupRepeat2 k)" using assms(4) lt by (simp add: unat_repeat)
  have last: "(of_nat n + 1 :: 16 word) = ucast (rb_groupRepeat2 k) \<longleftrightarrow> Suc n = unat (rb_groupRepeat2 k)"
    using lt unat_repeat [of "Suc n" "rb_groupRepeat2 k"] by (simp add: add.commute)
  show ?thesis
    using assms(1-3) ne last
    by (simp add: MDIncrementalRefreshBook32_def refreshGroup2_def Let_def add.commute)
qed

lemma refresh_groups2:
  "length ws = 3 * m \<Longrightarrow> 0 < m \<Longrightarrow> rb_stateId k = RB_GROUPDECODE2 \<Longrightarrow> rb_groupWordCount2 k = 0 \<Longrightarrow>
    rb_numOfGroups2 k = of_nat n \<Longrightarrow> n + m = unat (rb_groupRepeat2 k) \<Longrightarrow>
    rb_wordCount k = 0 \<Longrightarrow> rb_groupWordCount k = 0 \<Longrightarrow> rb_numOfGroups k = 0 \<Longrightarrow>
    \<exists>k'. refreshWords k ws = (k', []) \<and> refreshReady k'"
proof (induction m arbitrary: ws k n)
  case 0
  then show ?case by simp
next
  case (Suc m)
  from length_3_Suc [OF Suc.prems(1)] obtain a b c vs
    where ws: "ws = a # b # c # vs" "length vs = 3 * m" by blast
  have lt: "n < unat (rb_groupRepeat2 k)" using Suc.prems(6) by simp
  from refresh_group2 [OF Suc.prems(3-5) lt, of a b c] obtain k1 where
    k1: "refreshWords k [a, b, c] = (k1, [])"
      "rb_groupWordCount2 k1 = 0" "rb_groupRepeat2 k1 = rb_groupRepeat2 k" "rb_wordCount k1 = rb_wordCount k"
      "rb_groupWordCount k1 = rb_groupWordCount k" "rb_numOfGroups k1 = rb_numOfGroups k"
    and st: "if Suc n = unat (rb_groupRepeat2 k)
     then rb_stateId k1 = RB_DECODE \<and> rb_numOfGroups2 k1 = 0
     else rb_stateId k1 = RB_GROUPDECODE2 \<and> rb_numOfGroups2 k1 = of_nat (Suc n)" by blast
  have split: "refreshWords k ws = refreshWords k1 vs"
    using refreshWords_append [of k "[a, b, c]" vs] by (simp add: ws(1) k1(1) split: prod.splits del: refreshWords_simps)
  show ?case
  proof (cases "m = 0")
    case True
    then have "vs = []" "Suc n = unat (rb_groupRepeat2 k)" using ws(2) Suc.prems(6) by simp_all
    then show ?thesis using split st k1 Suc.prems(7-9) by (simp add: refreshReady_def restCounters_def)
  next
    case False
    then have "rb_stateId k1 = RB_GROUPDECODE2" "rb_numOfGroups2 k1 = of_nat (Suc n)"
      using st Suc.prems(6) by auto
    from Suc.IH [OF ws(2) _ this(1) k1(2) this(2)] False Suc.prems(6-9) k1(3-6) split show ?thesis by simp
  qed
qed

text \<open>A message: three header words, four words per entry, one set-up word, three words per order entry.\<close>

lemma refresh_message:
  assumes "refreshReady k"
    and "length es = 4 * unat (rng 15 8 h2 :: 8 word)" and "0 < unat (rng 15 8 h2 :: 8 word)"
    and "length os = 3 * unat (rng 15 8 s :: 8 word)" and "0 < unat (rng 15 8 s :: 8 word)"
  shows "\<exists>k'. refreshWords k ([h0, h1, h2] @ es @ [s] @ os) =
      (k', map (decodeEntry (upd 63 32 (rng 31 0 h1 :: 32 word) (ucast (rng 63 32 h0 :: 32 word)))) (entries h2 es)) \<and>
    refreshReady k'"
proof -
  let ?t = "upd 63 32 (rng 31 0 h1 :: 32 word) (ucast (rng 63 32 h0 :: 32 word)) :: 64 word"
  have t: "upd 63 32 (rng 31 0 h1 :: 32 word) (upd 31 0 (rng 63 32 h0 :: 32 word) w) = ?t" for w :: "64 word"
    by (rule bit_word_eqI) (auto simp: bit_simps)
  let ?r = "rng 15 8 h2 :: 8 word"
  obtain k1 where k1: "refreshWords k [h0, h1, h2] = (k1, [])" "rb_stateId k1 = RB_GROUPDECODE"
      "rb_groupWordCount k1 = 0" "rb_numOfGroups k1 = of_nat 0" "rb_time k1 = ?t" "rb_Sreg k1 = h2"
      "rb_groupRepeat k1 = ?r" "restCounters k1"
    using assms(1) by (simp add: MDIncrementalRefreshBook32_def refreshHeader_def refreshReady_def restCounters_def t Let_def)
  from refresh_groups [OF assms(2,3) k1(2-4)] k1(5-8) obtain k2 where
    k2: "refreshWords k1 es = (k2, map (decodeEntry ?t) (entries h2 es))" "rb_stateId k2 = RB_GROUP2SETUP"
      "rb_groupWordCount k2 = 0" "rb_numOfGroups k2 = 0" "restCounters k2" by auto
  let ?k3 = "refreshSetup2 s k2"
  have k3: "refreshWords k2 [s] = (?k3, [])" "rb_stateId ?k3 = RB_GROUPDECODE2" "rb_groupWordCount2 ?k3 = 0"
      "rb_numOfGroups2 ?k3 = of_nat 0" "rb_groupRepeat2 ?k3 = rng 15 8 s" "rb_wordCount ?k3 = 0"
      "rb_groupWordCount ?k3 = 0" "rb_numOfGroups ?k3 = 0"
    using k2 by (simp_all add: MDIncrementalRefreshBook32_def refreshSetup2_def restCounters_def)
  from refresh_groups2 [OF assms(4,5) k3(2-4) _ k3(6-8)] k3(5) obtain k4 where
    k4: "refreshWords ?k3 os = (k4, [])" "refreshReady k4" by auto
  show ?thesis
    unfolding refreshWords_append k1(1) k2(1) k3(1) k4(1) Let_def prod.case
    using k4(2) by (simp add: k2(1) k3(1) k4(1) Let_def del: refreshWords_simps)
qed

section \<open>The decoder\<close>

datatype fixState = FIX_IDLE | FIX_DECODE

text \<open>The aligner holds the stream from the packet handler (its input) and
  \<^verbatim>\<open>fixMsgFifoAlign\<close> (its output).\<close>

record fixDecoderState =
  fx_stateId :: fixState
  fx_currTmplID :: "16 word"
  fx_countProcessFix :: "32 word"
  fx_refresh :: refreshBook
  fx_align :: aligner
  fx_templateIdStream :: "16 word hls_stream"
  fx_securityIdStream :: "32 word hls_stream"
  fx_operationStream :: "orderBookOperation hls_stream"
  fx_regProcessFix :: "32 word"

definition fixDecodeWord :: "fixDecoderState \<Rightarrow> fixDecoderState" where
  "fixDecodeWord k =
     (let currWord = s_head (al_output (fx_align k));
          (refresh, out) = (if fx_currTmplID k = 32 then MDIncrementalRefreshBook32 (ax_data currWord) (fx_refresh k)
                            else (fx_refresh k, []));
          k = k\<lparr>fx_align := (fx_align k)\<lparr>al_output := s_rest (al_output (fx_align k))\<rparr>,
                fx_refresh := refresh,
                fx_securityIdStream := fx_securityIdStream k @ map fst out,
                fx_operationStream := fx_operationStream k @ map snd out\<rparr>
      in if ax_last currWord
         then k\<lparr>fx_countProcessFix := fx_countProcessFix k + 1, fx_stateId := FIX_IDLE\<rparr> else k)"

definition fixDecoder :: "fixDecoderState \<Rightarrow> fixDecoderState" where
  "fixDecoder k =
     (let k = (case fx_stateId k of
                 FIX_IDLE \<Rightarrow>
                   if \<not> s_empty (fx_templateIdStream k) then
                     k\<lparr>fx_currTmplID := s_head (fx_templateIdStream k),
                       fx_templateIdStream := s_rest (fx_templateIdStream k), fx_stateId := FIX_DECODE\<rparr>
                   else k
               | FIX_DECODE \<Rightarrow> if \<not> s_empty (al_output (fx_align k)) then fixDecodeWord k else k)
      in k\<lparr>fx_regProcessFix := fx_countProcessFix k\<rparr>)"

definition fixDecoderTop :: "fixDecoderState \<Rightarrow> fixDecoderState" where
  "fixDecoderTop k = fixDecoder (k\<lparr>fx_align := streamAlign 2 (fx_align k)\<rparr>)"

text \<open>The words of one message of template 32, all of them queued.\<close>

lemma fixDecoder_words:
  "is_packet ws \<Longrightarrow> fx_stateId k = FIX_DECODE \<Longrightarrow> fx_currTmplID k = 32 \<Longrightarrow> al_output (fx_align k) = ws @ rest \<Longrightarrow>
    refreshWords (fx_refresh k) (map ax_data ws) = (r, out) \<Longrightarrow>
    \<exists>k'. (fixDecoder ^^ length ws) k = k' \<and> fx_stateId k' = FIX_IDLE \<and> fx_refresh k' = r \<and>
      al_output (fx_align k') = rest \<and> fx_templateIdStream k' = fx_templateIdStream k \<and>
      fx_securityIdStream k' = fx_securityIdStream k @ map fst out \<and>
      fx_operationStream k' = fx_operationStream k @ map snd out \<and>
      fx_countProcessFix k' = fx_countProcessFix k + 1"
proof (induction ws arbitrary: k out)
  case Nil
  then show ?case by simp
next
  case (Cons w ws)
  obtain r1 xs where step: "MDIncrementalRefreshBook32 (ax_data w) (fx_refresh k) = (r1, xs)" by (metis prod.exhaust)
  obtain ys where rest: "refreshWords r1 (map ax_data ws) = (r, ys)" "out = xs @ ys"
    using Cons.prems(5) step by (auto simp: Let_def split: prod.splits)
  let ?k1 = "fixDecoder k"
  have k1: "al_output (fx_align ?k1) = ws @ rest" "fx_refresh ?k1 = r1" "fx_currTmplID ?k1 = 32"
      "fx_templateIdStream ?k1 = fx_templateIdStream k"
      "fx_securityIdStream ?k1 = fx_securityIdStream k @ map fst xs"
      "fx_operationStream ?k1 = fx_operationStream k @ map snd xs"
      "fx_stateId ?k1 = (if ax_last w then FIX_IDLE else FIX_DECODE)"
      "fx_countProcessFix ?k1 = fx_countProcessFix k + (if ax_last w then 1 else 0)"
    using Cons.prems(2-4) step by (simp_all add: fixDecoder_def fixDecodeWord_def Let_def)
  show ?case
  proof (cases "ax_last w")
    case True
    then have "ws = []" using Cons.prems(1) by (simp add: is_packet_Cons)
    then show ?thesis using True k1 rest by simp
  next
    case False
    then have ws: "is_packet ws" using Cons.prems(1) by (simp add: is_packet_Cons)
    have "fx_stateId ?k1 = FIX_DECODE" "refreshWords (fx_refresh ?k1) (map ax_data ws) = (r, ys)"
      using k1 False rest by simp_all
    from Cons.IH [OF ws this(1) k1(3,1) this(2)] k1 False rest(2) show ?thesis
      by (simp add: funpow_swap1)
  qed
qed

lemma fixDecoder_message:
  assumes "fx_stateId k = FIX_IDLE" and "fx_templateIdStream k = 32 # ts"
    and "al_output (fx_align k) = ws @ rest" and "is_packet ws"
    and "refreshWords (fx_refresh k) (map ax_data ws) = (r, out)"
  shows "\<exists>k'. (fixDecoder ^^ Suc (length ws)) k = k' \<and> fx_stateId k' = FIX_IDLE \<and> fx_refresh k' = r \<and>
      al_output (fx_align k') = rest \<and> fx_templateIdStream k' = ts \<and>
      fx_securityIdStream k' = fx_securityIdStream k @ map fst out \<and>
      fx_operationStream k' = fx_operationStream k @ map snd out \<and>
      fx_countProcessFix k' = fx_countProcessFix k + 1"
proof -
  let ?k1 = "fixDecoder k"
  have k1: "fx_stateId ?k1 = FIX_DECODE" "fx_currTmplID ?k1 = 32" "al_output (fx_align ?k1) = ws @ rest"
      "refreshWords (fx_refresh ?k1) (map ax_data ws) = (r, out)" "fx_templateIdStream ?k1 = ts"
      "fx_securityIdStream ?k1 = fx_securityIdStream k" "fx_operationStream ?k1 = fx_operationStream k"
      "fx_countProcessFix ?k1 = fx_countProcessFix k"
    using assms by (simp_all add: fixDecoder_def)
  from fixDecoder_words [OF assms(4) k1(1-4)] k1(5-8) show ?thesis
    by (simp add: funpow_Suc_right del: funpow.simps)
qed

section \<open>Symbol lookup\<close>

record symbolLookupState =
  sl_countTxOperation :: "32 word"
  sl_securityIdStream :: "32 word hls_stream"
  sl_operationStream :: "orderBookOperation hls_stream"
  sl_operationStreamPack :: "224 word hls_stream"
  sl_regCaptureBuffer :: "256 word"
  sl_regTxOperation :: "32 word"

definition symbolIndexOf :: "(nat \<Rightarrow> 32 word) \<Rightarrow> 32 word \<Rightarrow> 8 word option" where
  "symbolIndexOf regSymbolMap securityId =
     foldl (\<lambda>found i. if securityId = regSymbolMap i then Some (of_nat i) else found) None [0..<NUM_SYMBOL]"

definition symbolLookup :: "32 word \<Rightarrow> (nat \<Rightarrow> 32 word) \<Rightarrow> symbolLookupState \<Rightarrow> symbolLookupState" where
  "symbolLookup regCaptureControl regSymbolMap k =
     (let k = (if \<not> s_empty (sl_securityIdStream k) \<and> \<not> s_empty (sl_operationStream k) then
                 (let securityId = s_head (sl_securityIdStream k);
                      operation = s_head (sl_operationStream k);
                      k = k\<lparr>sl_securityIdStream := s_rest (sl_securityIdStream k),
                            sl_operationStream := s_rest (sl_operationStream k)\<rparr> in
                  case symbolIndexOf regSymbolMap securityId of
                    None \<Rightarrow> k
                  | Some i \<Rightarrow>
                      (let operationPack = orderBookOperationPack (operation\<lparr>obo_symbolIndex := i\<rparr>) 0 in
                       k\<lparr>sl_operationStreamPack := s_write (sl_operationStreamPack k) operationPack,
                         sl_regCaptureBuffer := (if \<not> bit regCaptureControl 31 then ucast operationPack
                                                 else sl_regCaptureBuffer k),
                         sl_countTxOperation := sl_countTxOperation k + 1\<rparr>))
               else k)
      in k\<lparr>sl_regTxOperation := sl_countTxOperation k\<rparr>)"

lemma foldl_last_match:
  "foldl (\<lambda>found i. if P i then Some (f i) else found) None [0..<n] =
    (case rev (filter P [0..<n]) of [] \<Rightarrow> None | i # _ \<Rightarrow> Some (f i))"
  by (induction n) auto

lemma symbolIndexOf_None: "symbolIndexOf m s = None \<longleftrightarrow> (\<forall>i<256. s \<noteq> m i)"
proof -
  have "rev (filter (\<lambda>i. s = m i) [0..<256]) = [] \<longleftrightarrow> (\<forall>i<256. s \<noteq> m i)"
    by (auto simp: filter_empty_conv)
  then show ?thesis
    by (auto simp: symbolIndexOf_def foldl_last_match split: list.split)
qed

lemma symbolIndexOf_Some:
  assumes "i < 256" and "m i = s" and "\<And>j. i < j \<Longrightarrow> j < 256 \<Longrightarrow> m j \<noteq> s"
  shows "symbolIndexOf m s = Some (of_nat i)"
proof -
  have "[0..<256] = [0..<i] @ i # [Suc i..<256]"
    using assms(1) upt_add_eq_append [of 0 i "256 - i"] by (simp add: upt_conv_Cons)
  moreover have "filter (\<lambda>j. s = m j) [Suc i..<256] = []"
    unfolding filter_empty_conv using assms(3) by (metis Suc_le_eq atLeastLessThan_iff set_upt)
  ultimately show ?thesis
    unfolding symbolIndexOf_def foldl_last_match using assms(2) by simp
qed

section \<open>Properties\<close>

definition refreshReset :: refreshBook where
  "refreshReset =
     \<lparr>rb_stateId = RB_DECODE, rb_wordCount = 0, rb_groupWordCount = 0, rb_groupWordCount2 = 0,
      rb_numOfGroups = 0, rb_numOfGroups2 = 0, rb_time = 0, rb_matchEvent = 0, rb_groupBlockLen = 0,
      rb_groupRepeat = 0, rb_groupBlockLen2 = 0, rb_groupRepeat2 = 0, rb_rptSeq = 0, rb_orderPriority = 0,
      rb_mantissa = 0, rb_price64bit = 0, rb_orderQty = 0, rb_securityID = 0, rb_updateAction = 0,
      rb_entrySize = 0, rb_priceLevel = 0, rb_entryType = 0, rb_orderID = 0, rb_displyQty = 0,
      rb_refId = 0, rb_orderUpdate = 0, rb_Sreg = 0\<rparr>"

definition fixDecoderReset :: fixDecoderState where
  "fixDecoderReset =
     \<lparr>fx_stateId = FIX_IDLE, fx_currTmplID = 0, fx_countProcessFix = 0, fx_refresh = refreshReset,
      fx_align = \<lparr>al_stateId = PKG, al_firstWord = True, al_prevWord = zeroWord, al_input = [], al_output = []\<rparr>,
      fx_templateIdStream = [], fx_securityIdStream = [], fx_operationStream = [], fx_regProcessFix = 0\<rparr>"

text \<open>C12: the FIX decoder reads a whole refresh message: from a state at rest, one call for the template and one per
  word emit, for each of the announced book entries in order, the security identifier and the order
  book operation that the 256-bit little-endian layout of the entry says, stamped with the time of
  the header; the order entries behind them are skipped and the decoder is at rest again.\<close>

theorem fix_message_decodes:
  assumes "fx_stateId k = FIX_IDLE" and "refreshReady (fx_refresh k)" and "fx_templateIdStream k = 32 # ts"
    and "al_output (fx_align k) = ws @ rest" and "is_packet ws"
    and "map ax_data ws = [h0, h1, h2] @ es @ [s] @ os"
    and "length es = 4 * unat (rng 15 8 h2 :: 8 word)" and "0 < unat (rng 15 8 h2 :: 8 word)"
    and "length os = 3 * unat (rng 15 8 s :: 8 word)" and "0 < unat (rng 15 8 s :: 8 word)"
  shows "\<exists>k'. (fixDecoder ^^ Suc (length ws)) k = k' \<and> fx_stateId k' = FIX_IDLE \<and> refreshReady (fx_refresh k') \<and>
    al_output (fx_align k') = rest \<and> fx_templateIdStream k' = ts \<and>
    (let out = map (decodeEntry (upd 63 32 (rng 31 0 h1 :: 32 word) (ucast (rng 63 32 h0 :: 32 word)))) (entries h2 es)
     in fx_securityIdStream k' = fx_securityIdStream k @ map fst out \<and>
        fx_operationStream k' = fx_operationStream k @ map snd out)"
proof -
  from refresh_message [OF assms(2,7-10), of h0 h1] assms(6) obtain r where
    r: "refreshWords (fx_refresh k) (map ax_data ws) =
      (r, map (decodeEntry (upd 63 32 (rng 31 0 h1 :: 32 word) (ucast (rng 63 32 h0 :: 32 word)))) (entries h2 es))"
      "refreshReady r" by auto
  from fixDecoder_message [OF assms(1,3,4,5) r(1)] r(2) show ?thesis
    by (auto simp: Let_def simp del: funpow.simps)
qed

definition sampleMessage :: "axiWord list" where
  "sampleMessage = map (\<lambda>d. \<lparr>ax_data = d, ax_keep = 255, ax_last = False\<rparr>) [0, 0, 0x100, 1, 2, 3, 4, 0x100, 5, 6] @
     [\<lparr>ax_data = 7, ax_keep = 255, ax_last = True\<rparr>]"

definition sampleFix :: fixDecoderState where
  "sampleFix = fixDecoderReset\<lparr>fx_align := \<lparr>al_stateId = PKG, al_firstWord = True, al_prevWord = zeroWord,
     al_input = [], al_output = sampleMessage\<rparr>, fx_templateIdStream := [32]\<rparr>"

theorem fix_message_decodes_witness:
  "\<exists>k'. (fixDecoder ^^ Suc (length sampleMessage)) sampleFix = k' \<and> refreshReady (fx_refresh k') \<and>
     fx_operationStream k' = [snd (decodeEntry 0 (entryWord 0x100 1 2 3 4))]"
proof -
  have r: "(rng 15 8 (0x100 :: 64 word) :: 8 word) = 1"
    by (rule bit_word_eqI) (auto simp: bit_simps bit_numeral_rec bit_1_iff)
  have h: "fx_stateId sampleFix = FIX_IDLE" "refreshReady (fx_refresh sampleFix)"
    "fx_templateIdStream sampleFix = 32 # []" "al_output (fx_align sampleFix) = sampleMessage @ []"
    "is_packet sampleMessage"
    "map ax_data sampleMessage = [0, 0, 0x100] @ [1, 2, 3, 4] @ [0x100] @ [5, 6, 7]"
    "length [1, 2, 3, 4 :: 64 word] = 4 * unat (rng 15 8 (0x100 :: 64 word) :: 8 word)"
    "0 < unat (rng 15 8 (0x100 :: 64 word) :: 8 word)"
    "length [5, 6, 7 :: 64 word] = 3 * unat (rng 15 8 (0x100 :: 64 word) :: 8 word)"
    by (simp_all add: sampleFix_def fixDecoderReset_def refreshReset_def refreshReady_def restCounters_def
        sampleMessage_def r)
  have t: "upd 63 32 (0 :: 32 word) (0 :: 64 word) = 0"
    by (rule bit_word_eqI) (simp add: bit_simps)
  from fix_message_decodes [OF h h(8)] show ?thesis
    by (auto simp: t Let_def sampleFix_def fixDecoderReset_def simp del: funpow.simps)
qed

text \<open>The symbol lookup writes one packed operation, carrying the index of the last table entry that holds the
  security identifier; an operation whose identifier is not in the table is consumed and dropped.\<close>

theorem symbol_lookup:
  assumes "sl_securityIdStream k = s # ss" and "sl_operationStream k = x # xs"
    and "i < 256 \<and> m i = s \<and> (\<forall>j<256. i < j \<longrightarrow> m j \<noteq> s) \<or> (\<forall>j<256. m j \<noteq> s)"
  shows "sl_securityIdStream (symbolLookup c m k) = ss \<and> sl_operationStream (symbolLookup c m k) = xs \<and>
    map orderBookOperationUnpack (sl_operationStreamPack (symbolLookup c m k)) =
      map orderBookOperationUnpack (sl_operationStreamPack k) @
        (if i < 256 \<and> m i = s then [x\<lparr>obo_symbolIndex := of_nat i\<rparr>] else [])"
proof (cases "i < 256 \<and> m i = s")
  case True
  then have "symbolIndexOf m s = Some (of_nat i)" using assms(3) by (intro symbolIndexOf_Some) auto
  then show ?thesis using assms(1,2) True by (simp add: symbolLookup_def s_write_def Let_def)
next
  case False
  then have "symbolIndexOf m s = None" using assms(3) by (auto simp: symbolIndexOf_None)
  then show ?thesis using assms(1,2) False by (simp add: symbolLookup_def Let_def)
qed

definition sampleLookup :: symbolLookupState where
  "sampleLookup =
     \<lparr>sl_countTxOperation = 0, sl_securityIdStream = [1003],
      sl_operationStream = [snd (decodeEntry 9 0)], sl_operationStreamPack = [], sl_regCaptureBuffer = 0,
      sl_regTxOperation = 0\<rparr>"

theorem symbol_lookup_witness:
  "map orderBookOperationUnpack (sl_operationStreamPack
      (symbolLookup 0 (\<lambda>i. if i = 3 then 1003 else 0) sampleLookup)) =
    [(snd (decodeEntry 9 0))\<lparr>obo_symbolIndex := 3\<rparr>]"
  using symbol_lookup [of sampleLookup 1003 "[]" "snd (decodeEntry 9 0)" "[]" 3 "\<lambda>i. if i = 3 then 1003 else 0" 0]
  by (simp add: sampleLookup_def)

end
