(* ===== verification/Feed_Handler.thy ===== *)
theory Feed_Handler
  imports Feed_Packets Fix_Decoder
begin

text \<open>
  \<^verbatim>\<open>feedHandlerTop\<close> of \<^verbatim>\<open>hw/feedHandler/feedhandler_top.cpp\<close> and
  \<^verbatim>\<open>FeedHandler::eventHandler\<close>: the packet handler, the message handler, the FIX
  decoder and the symbol lookup as one pipeline.  The FIFOs between two stages belong to both; the
  top function hands each stage what its predecessor has written and takes back what is left.
\<close>

record feedHandlerControl =
  fhc_capture :: "32 word"
  fhc_symbolMap :: "nat \<Rightarrow> 32 word"
  fhc_mdpDepth :: nat
  fhc_fixDepth :: nat

record feedHandler =
  fh_udp :: udpHandler
  fh_binary :: binaryHandler
  fh_fix :: fixDecoderState
  fh_lookup :: symbolLookupState
  fh_countRxEvent :: "32 word"
  fh_eventStream :: "8 word hls_stream"
  fh_regRxEvent :: "32 word"

definition fh_eventHandler :: "feedHandler \<Rightarrow> feedHandler" where
  "fh_eventHandler k =
     (let k = (if \<not> s_empty (fh_eventStream k)
               then k\<lparr>fh_eventStream := s_rest (fh_eventStream k), fh_countRxEvent := fh_countRxEvent k + 1\<rparr>
               else k)
      in k\<lparr>fh_regRxEvent := fh_countRxEvent k\<rparr>)"

definition runUdp :: "feedHandlerControl \<Rightarrow> feedHandler \<Rightarrow> feedHandler" where
  "runUdp ctl k = k\<lparr>fh_udp := udpPacketHandler (fhc_mdpDepth ctl) (fh_udp k)\<rparr>"

definition runBinary :: "feedHandlerControl \<Rightarrow> feedHandler \<Rightarrow> feedHandler" where
  "runBinary ctl k =
     (let b = fh_binary k;
          b = binaryPacketHandler (fhc_fixDepth ctl)
                (b\<lparr>bh_align := (bh_align b)\<lparr>al_input := uh_outputStream (fh_udp k)\<rparr>\<rparr>)
      in k\<lparr>fh_binary := b, fh_udp := (fh_udp k)\<lparr>uh_outputStream := al_input (bh_align b)\<rparr>\<rparr>)"

definition runFix :: "feedHandler \<Rightarrow> feedHandler" where
  "runFix k =
     (let f = fh_fix k; b = fh_binary k;
          f = fixDecoderTop (f\<lparr>fx_align := (fx_align f)\<lparr>al_input := bh_outputStream b\<rparr>,
                               fx_templateIdStream := bh_templateIdStream b\<rparr>)
      in k\<lparr>fh_fix := f, fh_binary := b\<lparr>bh_outputStream := al_input (fx_align f),
                                       bh_templateIdStream := fx_templateIdStream f\<rparr>\<rparr>)"

definition runLookup :: "feedHandlerControl \<Rightarrow> feedHandler \<Rightarrow> feedHandler" where
  "runLookup ctl k =
     (let l = (fh_lookup k)\<lparr>sl_securityIdStream := fx_securityIdStream (fh_fix k),
                           sl_operationStream := fx_operationStream (fh_fix k)\<rparr>;
          l = symbolLookup (fhc_capture ctl) (fhc_symbolMap ctl) l
      in k\<lparr>fh_lookup := l, fh_fix := (fh_fix k)\<lparr>fx_securityIdStream := sl_securityIdStream l,
                                                fx_operationStream := sl_operationStream l\<rparr>\<rparr>)"

definition feedHandlerTop :: "feedHandlerControl \<Rightarrow> feedHandler \<Rightarrow> feedHandler" where
  "feedHandlerTop ctl k = fh_eventHandler (runLookup ctl (runFix (runBinary ctl (runUdp ctl k))))"

section \<open>Identifiers and operations stay paired\<close>

text \<open>The lookup takes one element from each of two FIFOs.  They always hold the same number of
  elements, so the two it takes were written together.\<close>

definition paired :: "feedHandler \<Rightarrow> bool" where
  "paired k \<longleftrightarrow> length (fx_securityIdStream (fh_fix k)) = length (fx_operationStream (fh_fix k))"

lemma paired_udp [simp]: "paired (runUdp ctl k) = paired k"
  and paired_binary [simp]: "paired (runBinary ctl k) = paired k"
  and paired_event [simp]: "paired (fh_eventHandler k) = paired k"
  by (simp_all add: paired_def runUdp_def runBinary_def fh_eventHandler_def Let_def)

lemma paired_fixDecodeWord:
  "length (fx_securityIdStream (fixDecodeWord f)) = length (fx_operationStream (fixDecodeWord f)) \<longleftrightarrow>
   length (fx_securityIdStream f) = length (fx_operationStream f)"
  by (simp add: fixDecodeWord_def Let_def split: prod.splits)

lemma paired_fixDecoderTop:
  "length (fx_securityIdStream (fixDecoderTop f)) = length (fx_operationStream (fixDecoderTop f)) \<longleftrightarrow>
   length (fx_securityIdStream f) = length (fx_operationStream f)"
  by (cases "fx_stateId f") (simp_all add: fixDecoderTop_def fixDecoder_def Let_def paired_fixDecodeWord)

lemma paired_fix [simp]: "paired (runFix k) = paired k"
  by (simp add: paired_def runFix_def Let_def paired_fixDecoderTop)

lemma paired_lookup: "paired k \<Longrightarrow> paired (runLookup ctl k)"
  by (auto simp: paired_def runLookup_def symbolLookup_def Let_def s_rest_def split: option.splits)

inductive fh_reach :: "feedHandler \<Rightarrow> bool" where
  fh_init: "fx_securityIdStream (fh_fix k) = [] \<Longrightarrow> fx_operationStream (fh_fix k) = [] \<Longrightarrow> fh_reach k"
| fh_input: "fh_reach k \<Longrightarrow> fh_reach (k\<lparr>fh_udp := (fh_udp k)\<lparr>uh_inputStream := ws\<rparr>\<rparr>)"
| fh_output: "fh_reach k \<Longrightarrow> fh_reach (k\<lparr>fh_lookup := (fh_lookup k)\<lparr>sl_operationStreamPack := ps\<rparr>\<rparr>)"
| fh_event: "fh_reach k \<Longrightarrow> fh_reach (k\<lparr>fh_eventStream := es\<rparr>)"
| fh_call: "fh_reach k \<Longrightarrow> fh_reach (feedHandlerTop ctl k)"

lemma fh_reach_paired: "fh_reach k \<Longrightarrow> paired k"
proof (induction rule: fh_reach.induct)
  case (fh_call k ctl)
  then show ?case by (simp add: feedHandlerTop_def paired_lookup)
qed (simp_all add: paired_def)

section \<open>Properties\<close>

definition feedHandlerReset :: feedHandler where
  "feedHandlerReset =
     \<lparr>fh_udp = sampleUdp\<lparr>uh_inputStream := []\<rparr>,
      fh_binary = sampleBinary\<lparr>bh_align := \<lparr>al_stateId = PKG, al_firstWord = True, al_prevWord = zeroWord,
        al_input = [], al_output = []\<rparr>\<rparr>,
      fh_fix = fixDecoderReset,
      fh_lookup = \<lparr>sl_countTxOperation = 0, sl_securityIdStream = [], sl_operationStream = [],
        sl_operationStreamPack = [], sl_regCaptureBuffer = 0, sl_regTxOperation = 0\<rparr>,
      fh_countRxEvent = 0, fh_eventStream = [], fh_regRxEvent = 0\<rparr>"

text \<open>In every reachable state of the feed handler the queues of security identifiers and of decoded operations
  have the same length, so the symbol lookup never joins an operation with the identifier of another.\<close>

theorem feed_streams_paired:
  assumes "fh_reach k"
  shows "length (fx_securityIdStream (fh_fix (feedHandlerTop ctl k))) =
    length (fx_operationStream (fh_fix (feedHandlerTop ctl k)))"
  using fh_reach_paired [OF fh_call [OF assms, of ctl]] by (simp add: paired_def)

theorem feed_streams_paired_witness:
  "length (fx_securityIdStream (fh_fix (feedHandlerTop
     \<lparr>fhc_capture = 0, fhc_symbolMap = \<lambda>i. 0, fhc_mdpDepth = 2, fhc_fixDepth = 2\<rparr> feedHandlerReset))) =
   length (fx_operationStream (fh_fix (feedHandlerTop
     \<lparr>fhc_capture = 0, fhc_symbolMap = \<lambda>i. 0, fhc_mdpDepth = 2, fhc_fixDepth = 2\<rparr> feedHandlerReset)))"
  by (rule feed_streams_paired, rule fh_init) (simp_all add: feedHandlerReset_def fixDecoderReset_def)

end
