(* ===== verification/Time_Series.thy ===== *)
theory Time_Series
  imports Aat_Interfaces
begin

text \<open>
  \<^verbatim>\<open>TimeSeriesBuffer\<close> of \<^verbatim>\<open>hw/pricingEngine/pricingengine.hpp\<close>: a ring
  of \<^verbatim>\<open>MAX_WINDOW = 8\<close> time-stamped values and the window functions on it.

  The ring refines the list of the most recent values, latest first (\<open>recent\<close>); the locale \<open>history\<close>
  is the contract of such a bounded history, and the window functions are those of the list.
\<close>

abbreviation MAX_WINDOW :: nat where "MAX_WINDOW \<equiv> 8"

record TimeSeriesEntry =
  te_value :: "32 word"
  te_timestamp :: "56 word"

record TimeSeriesBuffer =
  ts_buffer :: "nat \<Rightarrow> TimeSeriesEntry"
  ts_index :: "8 word"
  ts_count :: "8 word"

definition ts_insert :: "32 word \<Rightarrow> 56 word \<Rightarrow> TimeSeriesBuffer \<Rightarrow> TimeSeriesBuffer" where
  "ts_insert val ts b =
     b\<lparr>ts_buffer := (ts_buffer b)(unat (ts_index b) := \<lparr>te_value = val, te_timestamp = ts\<rparr>),
       ts_index := of_nat ((unat (ts_index b) + 1) mod MAX_WINDOW),
       ts_count := (if unat (ts_count b) < MAX_WINDOW then ts_count b + 1 else ts_count b)\<rparr>"

definition getLatest :: "TimeSeriesBuffer \<Rightarrow> 32 word" where
  "getLatest b =
     (if ts_count b = 0 then 0
      else (let lastIdx = (if ts_index b \<noteq> 0 then unat (ts_index b) - 1 else MAX_WINDOW - 1)
            in te_value (ts_buffer b lastIdx)))"

definition getPrev :: "8 word \<Rightarrow> TimeSeriesBuffer \<Rightarrow> 32 word" where
  "getPrev n b =
     (if ts_count b < n then 0
      else te_value (ts_buffer b ((unat (ts_index b) + MAX_WINDOW - unat n) mod MAX_WINDOW)))"

text \<open>The loops of the window functions run over \<open>i < MAX_WINDOW\<close> with a guard \<open>i < actual\<close>.\<close>

definition actualWindow :: "8 word \<Rightarrow> TimeSeriesBuffer \<Rightarrow> nat" where
  "actualWindow window b = unat (if ts_count b < window then ts_count b else window)"

definition slotAt :: "TimeSeriesBuffer \<Rightarrow> nat \<Rightarrow> TimeSeriesEntry" where
  "slotAt b i = ts_buffer b ((unat (ts_index b) + MAX_WINDOW - 1 - i) mod MAX_WINDOW)"

definition windowFold :: "('s \<Rightarrow> 32 word \<Rightarrow> 's) \<Rightarrow> 's \<Rightarrow> nat \<Rightarrow> 8 word \<Rightarrow> TimeSeriesBuffer \<Rightarrow> 's" where
  "windowFold f s start window b =
     foldl (\<lambda>s i. if i < actualWindow window b then f s (te_value (slotAt b i)) else s) s [start..<MAX_WINDOW]"

definition windowSum :: "8 word \<Rightarrow> TimeSeriesBuffer \<Rightarrow> 64 word" where
  "windowSum = windowFold (\<lambda>sum v. sum + ucast v) 0 0"

definition movingAvg :: "8 word \<Rightarrow> TimeSeriesBuffer \<Rightarrow> 32 word" where
  "movingAvg window b =
     (if 0 < actualWindow window b then ucast (windowSum window b div of_nat (actualWindow window b)) else 0)"

definition movingSum :: "8 word \<Rightarrow> TimeSeriesBuffer \<Rightarrow> 32 word" where
  "movingSum window b = ucast (windowSum window b)"

definition movingMax :: "8 word \<Rightarrow> TimeSeriesBuffer \<Rightarrow> 32 word" where
  "movingMax = windowFold (\<lambda>maxVal v. if maxVal < v then v else maxVal) 0 0"

definition movingMin :: "8 word \<Rightarrow> TimeSeriesBuffer \<Rightarrow> 32 word" where
  "movingMin = windowFold (\<lambda>minVal v. if v < minVal then v else minVal) (- 1) 0"

definition emaStep :: "8 word \<Rightarrow> 32 word \<Rightarrow> 32 word \<Rightarrow> 32 word" where
  "emaStep alpha ema v =
     ucast (drop_bit 8 (ucast alpha * ucast v + ucast (255 - alpha) * ucast ema :: 64 word))"

definition expAvg :: "8 word \<Rightarrow> 8 word \<Rightarrow> TimeSeriesBuffer \<Rightarrow> 32 word" where
  "expAvg alpha window b =
     (if ts_count b = 0 then 0 else windowFold (emaStep alpha) (te_value (slotAt b 0)) 1 window b)"

definition derivative :: "TimeSeriesBuffer \<Rightarrow> 32 word" where
  "derivative b =
     (if ts_count b < 2 then 0
      else (let dv = te_value (slotAt b 0) - te_value (slotAt b 1);
                dt = te_timestamp (slotAt b 0) - te_timestamp (slotAt b 1)
            in if dt \<noteq> 0 then ucast ((ucast dv :: 56 word) div dt) else 0))"

section \<open>The bounded history\<close>

locale history =
  fixes inv :: "'b \<Rightarrow> bool"
    and add :: "'a \<Rightarrow> 'b \<Rightarrow> 'b"
    and view :: "'b \<Rightarrow> 'a list"
    and cap :: nat
  assumes inv_add: "inv b \<Longrightarrow> inv (add x b)"
    and view_add: "inv b \<Longrightarrow> view (add x b) = take cap (x # view b)"
begin

lemma inv_adds: "inv b \<Longrightarrow> inv (fold add xs b)"
  by (induction xs arbitrary: b) (simp_all add: inv_add)

text \<open>After any number of insertions the view is the last \<open>cap\<close> of everything inserted.\<close>

lemma view_adds:
  assumes "inv b" and "length (view b) \<le> cap"
  shows "view (fold add xs b) = take cap (rev xs @ view b)"
  using assms
proof (induction xs arbitrary: b)
  case Nil
  then show ?case by simp
next
  case (Cons x xs)
  have "view (fold add (x # xs) b) = take cap (rev xs @ take cap (x # view b))"
    using Cons.IH [of "add x b"] Cons.prems by (simp add: inv_add view_add)
  also have "\<dots> = take cap (rev (x # xs) @ view b)"
    by (simp add: take_Cons' min_def)
  finally show ?case .
qed

end

definition ts_ok :: "TimeSeriesBuffer \<Rightarrow> bool" where
  "ts_ok b \<longleftrightarrow> unat (ts_index b) < MAX_WINDOW \<and> unat (ts_count b) \<le> MAX_WINDOW"

definition recent :: "TimeSeriesBuffer \<Rightarrow> TimeSeriesEntry list" where
  "recent b = map (slotAt b) [0..<unat (ts_count b)]"

definition ts_add :: "TimeSeriesEntry \<Rightarrow> TimeSeriesBuffer \<Rightarrow> TimeSeriesBuffer" where
  "ts_add e = ts_insert (te_value e) (te_timestamp e)"

lemma length_recent [simp]: "length (recent b) = unat (ts_count b)"
  by (simp add: recent_def)

lemma unat_small8: "n < 256 \<Longrightarrow> unat (of_nat n :: 8 word) = n"
  by (rule unat_of_nat_small) simp

lemma ts_index_insert: "unat (ts_index (ts_insert v t b)) = (unat (ts_index b) + 1) mod 8"
  by (simp add: ts_insert_def unat_small8)

lemma ts_count_insert: "ts_ok b \<Longrightarrow> unat (ts_count (ts_insert v t b)) = min 8 (unat (ts_count b) + 1)"
proof -
  assume ok: "ts_ok b"
  have "unat (ts_count b + 1) = unat (ts_count b) + 1" if "unat (ts_count b) < 8"
    using that by (simp add: unat_word_ariths)
  then show ?thesis using ok by (auto simp: ts_insert_def ts_ok_def min_def)
qed

lemma ts_ok_insert: "ts_ok b \<Longrightarrow> ts_ok (ts_insert v t b)"
  using ts_count_insert [of b v t] by (simp add: ts_ok_def ts_index_insert)

lemma mod8_cases: "(n :: nat) < 8 \<Longrightarrow> n = 0 \<or> n = 1 \<or> n = 2 \<or> n = 3 \<or> n = 4 \<or> n = 5 \<or> n = 6 \<or> n = 7"
  by arith

lemma slotAt_insert:
  assumes "ts_ok b" and "i < 8"
  shows "slotAt (ts_insert v t b) i = (if i = 0 then \<lparr>te_value = v, te_timestamp = t\<rparr> else slotAt b (i - 1))"
proof -
  let ?x = "unat (ts_index b)"
  have x: "?x < 8" using assms(1) by (simp add: ts_ok_def)
  have "((?x + 1) mod 8 + 8 - 1 - i) mod 8 = (if i = 0 then ?x else (?x + 8 - 1 - (i - 1)) mod 8)"
    "i \<noteq> 0 \<Longrightarrow> (?x + 8 - 1 - (i - 1)) mod 8 \<noteq> ?x"
    using mod8_cases [OF x] mod8_cases [OF assms(2)] by auto
  then show ?thesis
    by (auto simp: slotAt_def ts_index_insert) (auto simp: ts_insert_def)
qed

lemma recent_insert:
  assumes "ts_ok b"
  shows "recent (ts_insert v t b) = take 8 (\<lparr>te_value = v, te_timestamp = t\<rparr> # recent b)"
proof (rule nth_equalityI)
  show "length (recent (ts_insert v t b)) = length (take 8 (\<lparr>te_value = v, te_timestamp = t\<rparr> # recent b))"
    using ts_count_insert [OF assms] by (simp add: min_def)
  fix i assume "i < length (recent (ts_insert v t b))"
  then have i: "i < 8" "i < unat (ts_count (ts_insert v t b))" "i < unat (ts_count b) + 1"
    using ts_count_insert [OF assms, of v t] by simp_all
  then show "recent (ts_insert v t b) ! i = take 8 (\<lparr>te_value = v, te_timestamp = t\<rparr> # recent b) ! i"
    using slotAt_insert [OF assms i(1)] by (cases i) (simp_all add: recent_def)
qed

interpretation ts: history ts_ok ts_add recent MAX_WINDOW
  by unfold_locales (simp_all add: ts_add_def ts_ok_insert recent_insert)

section \<open>The window functions are those of the list\<close>

lemma foldl_guard:
  "m \<le> k \<Longrightarrow> foldl (\<lambda>s i. if i < m then g s i else s) s [j..<k] = foldl g s [j..<m]"
proof (induction "k - m" arbitrary: k)
  case 0
  have "foldl (\<lambda>s i. if i < m then g s i else s) s xs = foldl g s xs" if "\<forall>i\<in>set xs. i < m" for xs
    using that by (induction xs rule: rev_induct) auto
  then show ?case using 0 by simp
next
  case (Suc d)
  then obtain n where k: "k = Suc n" "m \<le> n" by (cases k) auto
  then show ?case using Suc by (cases "j \<le> n") (auto simp: not_le)
qed

lemma actualWindow_le: "ts_ok b \<Longrightarrow> actualWindow w b \<le> 8"
  and actualWindow_min: "actualWindow w b = min (unat w) (unat (ts_count b))"
  by (auto simp: actualWindow_def ts_ok_def word_less_nat_alt min_def)

definition window :: "8 word \<Rightarrow> TimeSeriesBuffer \<Rightarrow> 32 word list" where
  "window w b = map te_value (take (unat w) (recent b))"

lemma window_slots: "window w b = map (\<lambda>i. te_value (slotAt b i)) [0..<actualWindow w b]"
  by (simp add: window_def recent_def actualWindow_min take_map min.commute flip: map_map)
     (simp add: take_upt min_def)

lemma windowFold_list:
  assumes "ts_ok b"
  shows "windowFold f s 0 w b = foldl f s (window w b)"
    and "actualWindow w b \<noteq> 0 \<Longrightarrow> windowFold f s 1 w b = foldl f s (tl (window w b))"
proof -
  have le: "actualWindow w b \<le> MAX_WINDOW" using actualWindow_le [OF assms] by simp
  have m: "foldl f s (map h xs) = foldl (\<lambda>s i. f s (h i)) s xs" for h :: "nat \<Rightarrow> 32 word" and xs
    by (induction xs arbitrary: s) auto
  show "windowFold f s 0 w b = foldl f s (window w b)"
    unfolding windowFold_def foldl_guard [OF le] window_slots m ..
  assume "actualWindow w b \<noteq> 0"
  then have "tl (window w b) = map (\<lambda>i. te_value (slotAt b i)) [1..<actualWindow w b]"
    by (simp add: window_slots upt_conv_Cons)
  then show "windowFold f s 1 w b = foldl f s (tl (window w b))"
    unfolding windowFold_def foldl_guard [OF le] m by (simp add: m)
qed

lemma foldl_sum:
  fixes a :: "64 word"
  shows "unat a + sum_list (map unat xs) < 2 ^ 64 \<Longrightarrow>
    unat (foldl (\<lambda>s (v :: 32 word). s + ucast v) a xs) = unat a + sum_list (map unat xs)"
proof (induction xs arbitrary: a)
  case Nil
  then show ?case by simp
next
  case (Cons x xs)
  have x: "unat (ucast x :: 64 word) = unat x"
    using unsigned_less [of x, where ?'a = nat] by (simp add: unsigned_ucast_eq take_bit_nat_eq_self)
  have "unat (a + ucast x) = unat a + unat x"
    using Cons.prems by (simp add: unat_word_ariths x)
  then show ?case using Cons by simp
qed

lemma sum_list_bound: "sum_list (map unat (xs :: 32 word list)) \<le> length xs * (2 ^ 32 - 1)"
proof (induction xs)
  case (Cons x xs)
  then show ?case using unsigned_less [of x, where ?'a = nat] by simp
qed simp

lemma length_window [simp]: "length (window w b) = actualWindow w b"
  by (simp add: window_slots)

lemma unat_windowSum:
  assumes "ts_ok b"
  shows "unat (windowSum w b) = sum_list (map unat (window w b))"
proof -
  have "sum_list (map unat (window w b)) \<le> 8 * (2 ^ 32 - 1)"
    using sum_list_bound [of "window w b"] actualWindow_le [OF assms, of w]
    by (simp add: order_trans [OF _ mult_le_mono1])
  then show ?thesis
    by (simp add: windowSum_def windowFold_list(1) [OF assms] foldl_sum)
qed

lemma movingSum_list: "ts_ok b \<Longrightarrow> movingSum w b = of_nat (sum_list (map unat (window w b)))"
  by (simp add: movingSum_def flip: unat_windowSum)

lemma unat_movingAvg:
  assumes "ts_ok b"
  shows "unat (movingAvg w b) =
    (if window w b = [] then 0 else sum_list (map unat (window w b)) div length (window w b))"
proof (cases "actualWindow w b = 0")
  case True
  then have "window w b = []" by (metis length_window length_0_conv)
  then show ?thesis using True by (simp add: movingAvg_def)
next
  case False
  let ?n = "actualWindow w b" and ?S = "sum_list (map unat (window w b))"
  have n: "?n \<le> 8" by (rule actualWindow_le [OF assms])
  have un: "unat (of_nat ?n :: 64 word) = ?n" by (rule unat_of_nat_small) (use n in simp)
  have div: "unat (windowSum w b div of_nat ?n) = ?S div ?n"
    by (simp add: unat_div un unat_windowSum [OF assms])
  have "?S \<le> ?n * (2 ^ 32 - 1)" using sum_list_bound [of "window w b"] by simp
  then have "?S div ?n \<le> 2 ^ 32 - 1"
    using False div_le_mono [of ?S "?n * (2 ^ 32 - 1)" ?n] by simp
  then have "?S div ?n < 2 ^ 32" by simp
  then have "unat (ucast (windowSum w b div of_nat ?n) :: 32 word) = ?S div ?n"
    by (simp add: unsigned_ucast_eq div take_bit_nat_eq_self)
  moreover have "window w b \<noteq> []" using False by (metis length_window length_0_conv)
  ultimately show ?thesis using False by (simp add: movingAvg_def)
qed

lemma movingMax_list:
  assumes "ts_ok b"
  shows "movingMax w b = Max (insert 0 (set (window w b)))"
proof -
  have m: "(\<lambda>v m :: 32 word. if m < v then v else m) = max" by (auto simp: max_def fun_eq_iff)
  have "foldl (\<lambda>m v. if m < v then v else m) a xs = Max (set (a # xs))" for a :: "32 word" and xs
    by (simp only: foldl_conv_fold m Max.set_eq_fold)
  then show ?thesis by (simp add: movingMax_def windowFold_list(1) [OF assms])
qed

lemma movingMin_list:
  assumes "ts_ok b"
  shows "movingMin w b = Min (insert (- 1) (set (window w b)))"
proof -
  have m: "(\<lambda>v m :: 32 word. if v < m then v else m) = min" by (auto simp: min_def fun_eq_iff)
  have "foldl (\<lambda>m v. if v < m then v else m) a xs = Min (set (a # xs))" for a :: "32 word" and xs
    by (simp only: foldl_conv_fold m Min.set_eq_fold)
  then show ?thesis by (simp add: movingMin_def windowFold_list(1) [OF assms])
qed

section \<open>Latest and previous\<close>

lemma getPrev_slot:
  assumes "ts_ok b" and "0 < unat n" and "unat n \<le> unat (ts_count b)"
  shows "getPrev n b = te_value (slotAt b (unat n - 1))"
proof -
  have "unat (ts_index b) + MAX_WINDOW - 1 - (unat n - 1) = unat (ts_index b) + MAX_WINDOW - unat n"
    using assms(2) by simp
  then show ?thesis
    using assms(3) by (simp add: getPrev_def slotAt_def word_less_nat_alt not_less)
qed

lemma getLatest_slot:
  assumes "ts_ok b" and "ts_count b \<noteq> 0"
  shows "getLatest b = te_value (slotAt b 0)"
proof -
  let ?x = "unat (ts_index b)"
  have x: "?x < 8" using assms(1) by (simp add: ts_ok_def)
  have z: "ts_index b = 0 \<longleftrightarrow> ?x = 0" by (simp add: unat_eq_0)
  have "(?x + 8 - 1 - 0) mod 8 = (if ?x \<noteq> 0 then ?x - 1 else 7)"
    using mod8_cases [OF x] by auto
  then show ?thesis using assms(2) by (simp add: getLatest_def slotAt_def z Let_def)
qed

text \<open>\<open>getPrev(1)\<close> is not the value before the latest but the latest itself.\<close>

lemma getPrev_1: "ts_ok b \<Longrightarrow> getPrev 1 b = getLatest b"
proof (cases "ts_count b = 0")
  case True
  then show ?thesis by (simp add: getPrev_def getLatest_def)
next
  case False
  assume ok: "ts_ok b"
  have "0 < unat (ts_count b)" using False by (metis gr0I unat_eq_0)
  then show ?thesis using getPrev_slot [OF ok, of 1] getLatest_slot [OF ok False] by simp
qed

section \<open>The exponential average\<close>

lemma emaStep_bound:
  assumes "unat ema \<le> M" and "unat v \<le> M" and "M < 2 ^ 32"
  shows "unat (emaStep alpha ema v) \<le> 255 * M div 256"
proof -
  have a: "unat alpha \<le> 255" using unsigned_less [of alpha, where ?'a = nat] by simp
  have sub: "unat (255 - alpha) = 255 - unat alpha" using a by (simp add: unat_sub_if')
  have u: "unat (ucast x :: 64 word) = unat x" if "LENGTH('b) \<le> 32" for x :: "'b::len word"
  proof -
    have "unat x < 2 ^ LENGTH('b)" by (rule unsigned_less)
    also have "(2 :: nat) ^ LENGTH('b) \<le> 2 ^ 32" by (rule power_increasing) (use that in simp_all)
    finally show ?thesis by (simp add: unsigned_ucast_eq take_bit_nat_eq_self)
  qed
  have le: "unat alpha * unat v + (255 - unat alpha) * unat ema \<le> 255 * M"
  proof -
    have "unat alpha * unat v + (255 - unat alpha) * unat ema \<le> unat alpha * M + (255 - unat alpha) * M"
      using assms(1,2) by (intro add_mono mult_le_mono) simp_all
    also have "\<dots> = 255 * M" using a by (simp flip: distrib_right)
    finally show ?thesis .
  qed
  have p1: "unat (ucast alpha * ucast v :: 64 word) = unat alpha * unat v"
    using le assms(3) by (simp add: unat_word_ariths u)
  have p2: "unat (ucast (255 - alpha) * ucast ema :: 64 word) = (255 - unat alpha) * unat ema"
    using le assms(3) by (simp add: unat_word_ariths u sub)
  have s: "unat (ucast alpha * ucast v + ucast (255 - alpha) * ucast ema :: 64 word) =
      unat alpha * unat v + (255 - unat alpha) * unat ema"
    using le assms(3) by (simp only: unat_word_ariths(1) p1 p2) simp
  have "unat (drop_bit 8 X) = unat X div 256" for X :: "64 word"
    by (simp add: drop_bit_eq_div unat_div)
  then have "unat (drop_bit 8 (ucast alpha * ucast v + ucast (255 - alpha) * ucast ema :: 64 word)) \<le> 255 * M div 256"
    using div_le_mono [OF le, of 256] by (simp only: s)
  then show ?thesis
    unfolding emaStep_def unsigned_ucast_eq by (rule order_trans [OF take_bit_nat_less_eq_self])
qed

lemma ema_fold_bound:
  "unat e \<le> M \<Longrightarrow> \<forall>v\<in>set vs. unat v \<le> M \<Longrightarrow> M < 2 ^ 32 \<Longrightarrow> unat (foldl (emaStep alpha) e vs) \<le> M"
proof (induction vs arbitrary: e)
  case (Cons v vs)
  have "unat (emaStep alpha e v) \<le> 255 * M div 256" using Cons.prems by (intro emaStep_bound) auto
  also have "\<dots> \<le> M" by simp
  finally show ?case using Cons by simp
qed simp

section \<open>Properties\<close>

text \<open>C13: after any insertions into an empty buffer, the moving average, sum, maximum and minimum over a window
  \<open>w\<close> are those of the last \<open>min w 8\<close> inserted values (0, 0, 0 and all ones on an empty window); the 64-bit
  accumulator never overflows.\<close>

theorem window_functions:
  fixes es :: "(32 word \<times> 56 word) list" and w :: "8 word"
  assumes "ts_index b = 0" and "ts_count b = 0"
  defines "c \<equiv> fold (\<lambda>(v, t). ts_insert v t) es b"
    and "vs \<equiv> map fst (take (min (unat w) 8) (rev es))"
  shows "unat (movingAvg w c) = (if vs = [] then 0 else sum_list (map unat vs) div length vs)
    \<and> movingSum w c = of_nat (sum_list (map unat vs))
    \<and> movingMax w c = Max (insert 0 (set vs)) \<and> movingMin w c = Min (insert (- 1) (set vs))"
proof -
  define ent :: "32 word \<times> 56 word \<Rightarrow> TimeSeriesEntry" where
    "ent = (\<lambda>(v, t). \<lparr>te_value = v, te_timestamp = t\<rparr>)"
  have ok: "ts_ok b" and r: "recent b = []" using assms(1,2) by (simp_all add: ts_ok_def recent_def)
  have c: "c = fold ts_add (map ent es) b"
    by (simp add: c_def fold_map ts_add_def ent_def comp_def case_prod_beta')
  have okc: "ts_ok c" unfolding c by (rule ts.inv_adds [OF ok])
  have "recent c = take 8 (map ent (rev es))"
    unfolding c using ts.view_adds [OF ok] by (simp add: r rev_map)
  then have "window w c = vs"
    by (simp add: window_def vs_def ent_def take_map split_beta comp_def)
  then show ?thesis
    using okc unat_movingAvg [OF okc, of w] by (simp add: movingSum_list movingMax_list movingMin_list)
qed

theorem window_functions_witness:
  "unat (movingAvg 2 (fold (\<lambda>(v, t). ts_insert v t) [(10, 0), (20, 1), (31, 2)]
     \<lparr>ts_buffer = \<lambda>i. \<lparr>te_value = 0, te_timestamp = 0\<rparr>, ts_index = 0, ts_count = 0\<rparr>)) = 25"
  using window_functions [of "\<lparr>ts_buffer = \<lambda>i. \<lparr>te_value = 0, te_timestamp = 0\<rparr>, ts_index = 0, ts_count = 0\<rparr>"
      2 "[(10, 0), (20, 1), (31, 2)]"]
  by (simp flip: numeral_2_eq_2)

text \<open>The exponential average never exceeds the largest value of its window, and on a window of two or more
  equal non-zero values it is strictly below that value: the weights \<open>alpha\<close> and \<open>255 - alpha\<close> sum to 255, not 256.\<close>

theorem exp_avg_leaks:
  assumes "ts_ok b" and "1 \<le> actualWindow w b" and "\<forall>v\<in>set (window w b). unat v \<le> M" and "M < 2 ^ 32"
  shows "unat (expAvg alpha w b) \<le> M \<and>
    (2 \<le> actualWindow w b \<and> 0 < M \<longrightarrow> unat (expAvg alpha w b) < M)"
proof -
  have c: "ts_count b \<noteq> 0" using assms(2) by (auto simp: actualWindow_min)
  obtain v vs where w: "window w b = v # vs"
    using assms(2) by (cases "window w b") (auto simp flip: length_window)
  have hd: "te_value (slotAt b 0) = v"
    using w assms(2) by (simp add: window_slots upt_conv_Cons)
  have e: "expAvg alpha w b = foldl (emaStep alpha) v vs"
    using c assms(2) windowFold_list(2) [OF assms(1), of w "emaStep alpha" v]
    by (simp add: expAvg_def hd w)
  have le: "unat (expAvg alpha w b) \<le> M"
    unfolding e using assms(3,4) by (intro ema_fold_bound) (simp_all add: w)
  have "unat (expAvg alpha w b) < M" if "2 \<le> actualWindow w b \<and> 0 < M"
  proof -
  from that have two: "2 \<le> actualWindow w b" and M: "0 < M" by simp_all
  obtain u us where vs: "vs = us @ [u]"
    using w two by (cases vs rule: rev_cases) (auto simp flip: length_window)
  have "unat (foldl (emaStep alpha) v us) \<le> M"
    using assms(3,4) by (intro ema_fold_bound) (simp_all add: w vs)
  then have "unat (emaStep alpha (foldl (emaStep alpha) v us) u) \<le> 255 * M div 256"
    using assms(3,4) by (intro emaStep_bound) (simp_all add: w vs)
  also have "\<dots> < M" using M by simp
  finally show ?thesis by (simp add: e vs)
  qed
  with le show ?thesis by simp
qed

definition sampleSeries :: TimeSeriesBuffer where
  "sampleSeries = \<lparr>ts_buffer = \<lambda>i. \<lparr>te_value = 1000, te_timestamp = of_nat i\<rparr>, ts_index = 3, ts_count = 3\<rparr>"

theorem exp_avg_leaks_witness: "unat (expAvg 32 8 sampleSeries) < 1000"
proof -
  have a: "ts_ok sampleSeries" by (simp add: ts_ok_def sampleSeries_def)
  have b: "1 \<le> actualWindow 8 sampleSeries" and c: "2 \<le> actualWindow 8 sampleSeries"
    by (simp_all add: actualWindow_def sampleSeries_def)
  have d: "\<forall>v\<in>set (window 8 sampleSeries). unat v \<le> 1000"
    by (auto simp: window_slots slotAt_def sampleSeries_def)
  show ?thesis using exp_avg_leaks [OF a b d, of 32] c by simp
qed

end
