(* ===== verification/Pricing_Primitives.thy ===== *)
theory Pricing_Primitives
  imports Time_Series "HOL-Library.Signed_Division"
begin

text \<open>
  The per-symbol cache of the pricing engine (\<^verbatim>\<open>pricingEngineCacheEntry_t\<close> of
  \<^verbatim>\<open>hw/pricingEngine/pricingengine.hpp\<close>) and the signal primitives of
  \<^verbatim>\<open>hw/pricingEngine/primitives.cpp\<close> that strategies read it with.

  The cache is a function of the 8-bit symbol index; arrays over the \<^verbatim>\<open>LEVELS = 5\<close> price levels are
  functions on \<open>nat\<close>.  A value of \<^verbatim>\<open>ap_fixed<W,I>\<close> is the integer \<open>v * 2 ^ (W - I)\<close>, wrapped to \<open>W\<close>
  signed bits when it is assigned (the default mode \<^verbatim>\<open>AP_WRAP\<close>) after truncation towards
  minus infinity (the default mode \<^verbatim>\<open>AP_TRN\<close>); a quotient truncates towards zero.  A division by zero
  is \<open>None\<close>.
\<close>

abbreviation LEVELS :: nat where "LEVELS \<equiv> 5"

abbreviation STATE_IDLE :: "8 word" where "STATE_IDLE \<equiv> 0"
abbreviation STATE_ACTIVE :: "8 word" where "STATE_ACTIVE \<equiv> 1"
abbreviation STATE_ERROR :: "8 word" where "STATE_ERROR \<equiv> 2"

abbreviation BID_PRICE :: "8 word" where "BID_PRICE \<equiv> 0"
abbreviation ASK_PRICE :: "8 word" where "ASK_PRICE \<equiv> 1"
abbreviation TRADE_PRICE :: "8 word" where "TRADE_PRICE \<equiv> 2"
abbreviation BID_SIZE :: "8 word" where "BID_SIZE \<equiv> 3"
abbreviation ASK_SIZE :: "8 word" where "ASK_SIZE \<equiv> 4"
abbreviation POSITION_SIZE :: "8 word" where "POSITION_SIZE \<equiv> 5"
abbreviation PNL_ESTIMATE :: "8 word" where "PNL_ESTIMATE \<equiv> 6"

record cacheEntry =
  ce_bidPrice :: "nat \<Rightarrow> 32 word"
  ce_askPrice :: "nat \<Rightarrow> 32 word"
  ce_tradePrice :: "32 word"
  ce_bidSize :: "nat \<Rightarrow> 32 word"
  ce_askSize :: "nat \<Rightarrow> 32 word"
  ce_bidSizeDelta :: "nat \<Rightarrow> 32 word"
  ce_askSizeDelta :: "nat \<Rightarrow> 32 word"
  ce_positionSize :: "32 word"
  ce_pnlEstimate :: "32 word"
  ce_bidPriceHistory :: TimeSeriesBuffer
  ce_askPriceHistory :: TimeSeriesBuffer
  ce_tradePriceHistory :: TimeSeriesBuffer
  ce_bidSizeHistory :: "nat \<Rightarrow> TimeSeriesBuffer"
  ce_askSizeHistory :: "nat \<Rightarrow> TimeSeriesBuffer"
  ce_positionSizeHistory :: TimeSeriesBuffer
  ce_pnlEstimateHistory :: TimeSeriesBuffer
  ce_valid :: "1 word"
  ce_lastUpdateTimestampBid :: "nat \<Rightarrow> 56 word"
  ce_lastUpdateTimestampAsk :: "nat \<Rightarrow> 56 word"
  ce_lastTradeSide :: "1 word"
  ce_tickIndex :: "32 word"
  ce_clockUS :: "32 word"
  ce_lastOrderId :: "32 word"
  ce_systemState :: "8 word"

type_synonym cache = "8 word \<Rightarrow> cacheEntry"

record BookLevel =
  bl_bidPrice :: "32 word"
  bl_bidSize :: "32 word"
  bl_askPrice :: "32 word"
  bl_askSize :: "32 word"

section \<open>Data input primitives\<close>

definition getBookSnapshot :: "cache \<Rightarrow> 8 word \<Rightarrow> 8 word \<Rightarrow> BookLevel list" where
  "getBookSnapshot cache symbolIndex depth =
     (let entry = cache symbolIndex;
          actualDepth = (if LEVELS < unat depth then LEVELS else unat depth)
      in map (\<lambda>i. if i < actualDepth
                  then \<lparr>bl_bidPrice = ce_bidPrice entry i, bl_bidSize = ce_bidSize entry i,
                        bl_askPrice = ce_askPrice entry i, bl_askSize = ce_askSize entry i\<rparr>
                  else \<lparr>bl_bidPrice = 0, bl_bidSize = 0, bl_askPrice = 0, bl_askSize = 0\<rparr>) [0..<LEVELS])"

definition getOrderDelta :: "cache \<Rightarrow> 8 word \<Rightarrow> 3 word \<Rightarrow> bool \<Rightarrow> 32 word" where
  "getOrderDelta cache symbolIndex level isBidSide =
     (let entry = cache symbolIndex
      in if LEVELS \<le> unat level then 0
         else if isBidSide then ce_bidSizeDelta entry (unat level) else ce_askSizeDelta entry (unat level))"

definition getTimeSinceLastUpdate :: "cache \<Rightarrow> 8 word \<Rightarrow> 3 word \<Rightarrow> bool \<Rightarrow> 56 word \<Rightarrow> 56 word" where
  "getTimeSinceLastUpdate cache symbolIndex level isBidSide nowTimestamp =
     (if LEVELS \<le> unat level then 0
      else (let entry = cache symbolIndex;
                lastUpdate = (if isBidSide then ce_lastUpdateTimestampBid entry (unat level)
                              else ce_lastUpdateTimestampAsk entry (unat level))
            in nowTimestamp - lastUpdate))"

section \<open>Data transformation primitives\<close>

definition getBuffer :: "cacheEntry \<Rightarrow> 8 word \<Rightarrow> nat \<Rightarrow> TimeSeriesBuffer" where
  "getBuffer entry field level =
     (if field = BID_PRICE then ce_bidPriceHistory entry
      else if field = ASK_PRICE then ce_askPriceHistory entry
      else if field = TRADE_PRICE then ce_tradePriceHistory entry
      else if field = BID_SIZE then ce_bidSizeHistory entry level
      else if field = ASK_SIZE then ce_askSizeHistory entry level
      else if field = POSITION_SIZE then ce_positionSizeHistory entry
      else if field = PNL_ESTIMATE then ce_pnlEstimateHistory entry
      else ce_tradePriceHistory entry)"

definition getMovingAvg :: "cache \<Rightarrow> 8 word \<Rightarrow> 8 word \<Rightarrow> 8 word \<Rightarrow> nat \<Rightarrow> 32 word" where
  "getMovingAvg cache symbolIndex field win level = movingAvg win (getBuffer (cache symbolIndex) field level)"

definition getExpAvg :: "cache \<Rightarrow> 8 word \<Rightarrow> 8 word \<Rightarrow> 8 word \<Rightarrow> 8 word \<Rightarrow> nat \<Rightarrow> 32 word" where
  "getExpAvg cache symbolIndex field alpha win level =
     expAvg alpha win (getBuffer (cache symbolIndex) field level)"

definition getMovingMax :: "cache \<Rightarrow> 8 word \<Rightarrow> 8 word \<Rightarrow> 8 word \<Rightarrow> nat \<Rightarrow> 32 word" where
  "getMovingMax cache symbolIndex field win level = movingMax win (getBuffer (cache symbolIndex) field level)"

definition getMovingMin :: "cache \<Rightarrow> 8 word \<Rightarrow> 8 word \<Rightarrow> 8 word \<Rightarrow> nat \<Rightarrow> 32 word" where
  "getMovingMin cache symbolIndex field win level = movingMin win (getBuffer (cache symbolIndex) field level)"

definition getMovingSum :: "cache \<Rightarrow> 8 word \<Rightarrow> 8 word \<Rightarrow> 8 word \<Rightarrow> nat \<Rightarrow> 32 word" where
  "getMovingSum cache symbolIndex field win level = movingSum win (getBuffer (cache symbolIndex) field level)"

definition getDerivative :: "cache \<Rightarrow> 8 word \<Rightarrow> 8 word \<Rightarrow> nat \<Rightarrow> 32 word" where
  "getDerivative cache symbolIndex field level = derivative (getBuffer (cache symbolIndex) field level)"

section \<open>Signals\<close>

definition getCrossover :: "TimeSeriesBuffer \<Rightarrow> TimeSeriesBuffer \<Rightarrow> 32 word" where
  "getCrossover signal1 signal2 =
     (if ts_count signal1 < 2 \<or> ts_count signal2 < 2 then 0
      else (let prev1 = getPrev 1 signal1; curr1 = getLatest signal1;
                prev2 = getPrev 1 signal2; curr2 = getLatest signal2
            in if prev1 \<le> prev2 \<and> curr2 < curr1 then 1
               else if prev2 \<le> prev1 \<and> curr1 < curr2 then - 1
               else 0))"

text \<open>\<^verbatim>\<open>ap_fixed<32,4>\<close> holds 28 fraction bits and \<^verbatim>\<open>ap_fixed<32,8>\<close> holds 24: an integer is
  converted by a shift and wrapped to 32 bits.\<close>

definition wrap32 :: "int \<Rightarrow> int" where
  "wrap32 x = sint (word_of_int x :: 32 word)"

definition getImbalance :: "32 word \<Rightarrow> 32 word \<Rightarrow> 16 word option" where
  "getImbalance bid_vol ask_vol =
     (let total = bid_vol + ask_vol
      in if total = 0 then Some 0
         else (let bid = wrap32 (uint bid_vol * 2 ^ 28);
                   ask = wrap32 (uint ask_vol * 2 ^ 28);
                   diff = wrap32 (bid - ask);
                   sum = wrap32 (bid + ask)
               in if sum = 0 then None else Some (word_of_int ((diff * 2 ^ 28 sdiv sum) div 2 ^ 14))))"

definition PRICE_JUMP :: "cache \<Rightarrow> 8 word \<Rightarrow> 32 word \<Rightarrow> bool" where
  "PRICE_JUMP cache symbolIndex threshold =
     (let curr = getLatest (ce_tradePriceHistory (cache symbolIndex));
          prev = getPrev 1 (ce_tradePriceHistory (cache symbolIndex));
          diff = (if prev < curr then curr - prev else prev - curr)
      in threshold < diff)"

definition fix24 :: "32 word \<Rightarrow> int" where
  "fix24 v = wrap32 (uint v * 2 ^ 24)"

definition fixMul :: "int \<Rightarrow> int \<Rightarrow> int" where
  "fixMul a b = wrap32 (a * b div 2 ^ 24)"

definition fixDiv :: "int \<Rightarrow> int \<Rightarrow> int" where
  "fixDiv a b = wrap32 (a * 2 ^ 24 sdiv b)"

definition SPIKE :: "TimeSeriesBuffer \<Rightarrow> int \<Rightarrow> bool" where
  "SPIKE tsBuf std_dev_thresh =
     (if ts_count tsBuf < 2 then False
      else (let count = fix24 (ucast (ts_count tsBuf));
                is = [0..<unat (ts_count tsBuf)];
                mean = foldl (\<lambda>mean i. wrap32 (mean + fix24 (getPrev (of_nat i) tsBuf))) 0 is;
                mean = fixDiv mean count;
                variance = foldl (\<lambda>variance i. (let diff = wrap32 (fix24 (getPrev (of_nat i) tsBuf) - mean)
                                               in wrap32 ((variance * 2 ^ 24 + diff * diff) div 2 ^ 24))) 0 is;
                variance = fixDiv variance count;
                current = fix24 (getLatest tsBuf);
                delta = wrap32 (current - mean);
                delta_sq = fixMul delta delta;
                thresh_sq = fixMul std_dev_thresh std_dev_thresh
            in thresh_sq * variance < delta_sq * 2 ^ 24))"

definition BOOK_PRESSURE :: "cache \<Rightarrow> 8 word \<Rightarrow> 4 word list \<Rightarrow> 32 word" where
  "BOOK_PRESSURE cache symbolIndex levels =
     (let (bid_sum, ask_sum) =
        foldl (\<lambda>(bid_sum, ask_sum) l.
            if unat l < LEVELS
            then (bid_sum + ce_bidSize (cache symbolIndex) (unat l), ask_sum + ce_askSize (cache symbolIndex) (unat l))
            else (bid_sum, ask_sum)) (0, 0) levels
      in bid_sum - ask_sum)"

definition STATEFUL_IF :: "8 word \<Rightarrow> bool \<Rightarrow> 8 word \<Rightarrow> cache \<Rightarrow> 8 word \<times> cache" where
  "STATEFUL_IF symbolIndex condition state cache =
     (let cache = (if condition then cache(symbolIndex := (cache symbolIndex)\<lparr>ce_systemState := state\<rparr>) else cache)
      in (ce_systemState (cache symbolIndex), cache))"

definition LATENCY_GATE :: "TimeSeriesBuffer \<Rightarrow> 8 word \<Rightarrow> 32 word" where
  "LATENCY_GATE tsBuf delay = (if ts_count tsBuf < delay then 0 else getPrev delay tsBuf)"

definition sendOrder ::
    "cache \<Rightarrow> 8 word \<Rightarrow> 32 word \<Rightarrow> 32 word \<Rightarrow> 1 word \<Rightarrow> orderEntryOperation \<Rightarrow> orderEntryOperation" where
  "sendOrder cache symbolIndex quantity price direction operation =
     operation\<lparr>oeo_timestamp := ucast (ce_clockUS (cache symbolIndex)), oeo_opCode := ORDERENTRY_ADD,
       oeo_symbolIndex := symbolIndex, oeo_quantity := quantity, oeo_price := price,
       oeo_direction := ucast direction\<rparr>"

section \<open>Lemmas\<close>

text \<open>The two signals that compare the latest value with \<open>getPrev(1)\<close> compare it with itself.\<close>

lemma getCrossover_0: "ts_ok s1 \<Longrightarrow> ts_ok s2 \<Longrightarrow> getCrossover s1 s2 = 0"
  by (auto simp: getCrossover_def getPrev_1 Let_def)

lemma PRICE_JUMP_False: "ts_ok (ce_tradePriceHistory (cache s)) \<Longrightarrow> \<not> PRICE_JUMP cache s threshold"
  by (simp add: PRICE_JUMP_def getPrev_1 Let_def)

text \<open>Shifted by 28 of 32 bits, a volume keeps its residue modulo 16 only.\<close>

lemma wrap32_add: "wrap32 (wrap32 a + wrap32 b) = wrap32 (a + b)"
  by (simp add: wrap32_def)

lemma wrap32_0_iff: "wrap32 x = 0 \<longleftrightarrow> x mod 2 ^ 32 = 0"
proof -
  have "wrap32 x = 0 \<longleftrightarrow> (word_of_int x :: 32 word) = 0"
    unfolding wrap32_def by (rule signed_eq_0_iff)
  then show ?thesis by (simp only: word_of_int_eq_0_iff dvd_eq_mod_eq_0) simp
qed

lemma shift28_mod: "(x * 2 ^ 28) mod 2 ^ 32 = 0 \<longleftrightarrow> x mod 16 = (0 :: int)"
  using mod_mult_mult2 [of x "2 ^ 28" 16] by simp

definition divisible :: "32 word \<Rightarrow> 32 word \<Rightarrow> bool" where
  "divisible bid_vol ask_vol \<longleftrightarrow> bid_vol + ask_vol = 0 \<or> (uint bid_vol + uint ask_vol) mod 16 \<noteq> 0"

lemma getImbalance_None: "getImbalance b a = None \<longleftrightarrow> \<not> divisible b a"
proof -
  have "wrap32 (wrap32 (uint b * 2 ^ 28) + wrap32 (uint a * 2 ^ 28)) = 0 \<longleftrightarrow> (uint b + uint a) mod 16 = 0"
    unfolding wrap32_add wrap32_0_iff distrib_right [symmetric] by (rule shift28_mod)
  then show ?thesis
    by (simp only: getImbalance_def divisible_def Let_def option.distinct if_split) simp
qed

end
