(* ===== verification/Pricing_Engine.thy ===== *)
theory Pricing_Engine
  imports Pricing_Primitives
begin

text \<open>
  \<^verbatim>\<open>hw/pricingEngine/pricingengine.cpp\<close>, \<^verbatim>\<open>pricingstrategy_custom.cpp\<close> and
  \<^verbatim>\<open>pricingengine_top.cpp\<close>: the kernel that turns order book responses into orders.

  \<open>pricingProcess\<close> is split as the code is laid out: \<open>updateCache\<close> is the update of the cache entry of
  the symbol, \<open>pricingStrategyCustom\<close> the strategy that is always run, \<open>placeOrder\<close> the accounting of an
  order.  A call that divides by zero in \<open>getImbalance\<close> is \<open>None\<close>.  The local \<^verbatim>\<open>operation\<close> of
  \<^verbatim>\<open>pricingProcess\<close> is declared without a value; here it starts as \<open>noOperation\<close>, and every field is
  assigned before it is used.
\<close>

record pricingStrategyReg =
  ps_select :: "32 word"
  ps_enable :: "32 word"
  ps_totalBid :: "32 word"
  ps_totalAsk :: "32 word"

record pricingControl =
  pc_strategy :: "32 word"
  pc_capture :: "32 word"

record pricingRegs =
  pr_rxResponse :: "32 word"
  pr_processResponse :: "32 word"
  pr_txOperation :: "32 word"
  pr_strategyNone :: "32 word"
  pr_strategyPeg :: "32 word"
  pr_strategyLimit :: "32 word"
  pr_strategyUnknown :: "32 word"
  pr_rxEvent :: "32 word"

text \<open>The memory of \<open>pricingProcess\<close>: the cache and its statics.\<close>

record pricingState =
  px_cache :: cache
  px_orderId :: "32 word"
  px_countProcessResponse :: "32 word"
  px_countStrategyNone :: "32 word"
  px_countStrategyPeg :: "32 word"
  px_countStrategyLimit :: "32 word"
  px_countStrategyCustom :: "32 word"
  px_countStrategyUnknown :: "32 word"

record pricingEngine =
  pe_state :: pricingState
  pe_countRxResponse :: "32 word"
  pe_countTxOperation :: "32 word"
  pe_countRxEvent :: "32 word"
  pe_regs :: pricingRegs
  pe_regCaptureBuffer :: "1024 word"
  pe_responseStreamPack :: "1024 word hls_stream"
  pe_responseStream :: "orderBookResponse hls_stream"
  pe_operationStream :: "orderEntryOperation hls_stream"
  pe_operationStreamPack :: "184 word hls_stream"
  pe_eventStream :: "8 word hls_stream"

section \<open>The cache\<close>

definition levelOf :: "160 word \<Rightarrow> nat \<Rightarrow> 32 word" where
  "levelOf w i = rng ((i + 1) * 32 - 1) (i * 32) w"

definition perLevel :: "(nat \<Rightarrow> 'a) \<Rightarrow> (nat \<Rightarrow> 'a) \<Rightarrow> nat \<Rightarrow> 'a" where
  "perLevel new old i = (if i < LEVELS then new i else old i)"

definition tradeSide :: "orderBookResponse \<Rightarrow> cacheEntry \<Rightarrow> 1 word" where
  "tradeSide response entry =
     (if ce_bidPrice entry 0 \<noteq> rng 31 0 (obr_bidPrice response) then 1
      else if ce_askPrice entry 0 \<noteq> rng 31 0 (obr_askPrice response) then 0
      else ce_lastTradeSide entry)"

definition updateLevels :: "orderBookResponse \<Rightarrow> cacheEntry \<Rightarrow> cacheEntry" where
  "updateLevels response entry =
     (let bidQty = levelOf (obr_bidQuantity response); askQty = levelOf (obr_askQuantity response);
          bidDelta = (\<lambda>i. bidQty i - ce_bidSize entry i); askDelta = (\<lambda>i. askQty i - ce_askSize entry i);
          ts = obr_timestamp response
      in entry\<lparr>
        ce_bidSizeDelta := perLevel bidDelta (ce_bidSizeDelta entry),
        ce_askSizeDelta := perLevel askDelta (ce_askSizeDelta entry),
        ce_lastUpdateTimestampBid :=
          perLevel (\<lambda>i. if bidDelta i \<noteq> 0 then ts else ce_lastUpdateTimestampBid entry i) (ce_lastUpdateTimestampBid entry),
        ce_lastUpdateTimestampAsk :=
          perLevel (\<lambda>i. if askDelta i \<noteq> 0 then ts else ce_lastUpdateTimestampAsk entry i) (ce_lastUpdateTimestampAsk entry),
        ce_bidSize := perLevel bidQty (ce_bidSize entry),
        ce_askSize := perLevel askQty (ce_askSize entry),
        ce_bidPrice := perLevel (levelOf (obr_bidPrice response)) (ce_bidPrice entry),
        ce_askPrice := perLevel (levelOf (obr_askPrice response)) (ce_askPrice entry)\<rparr>)"

definition updateHistories :: "56 word \<Rightarrow> cacheEntry \<Rightarrow> cacheEntry" where
  "updateHistories ts entry =
     entry\<lparr>
       ce_bidPriceHistory := ts_insert (ce_bidPrice entry 0) ts (ce_bidPriceHistory entry),
       ce_askPriceHistory := ts_insert (ce_askPrice entry 0) ts (ce_askPriceHistory entry),
       ce_tradePriceHistory := ts_insert (ce_tradePrice entry) ts (ce_tradePriceHistory entry),
       ce_bidSizeHistory := perLevel (\<lambda>i. ts_insert (ce_bidSize entry i) ts (ce_bidSizeHistory entry i)) (ce_bidSizeHistory entry),
       ce_askSizeHistory := perLevel (\<lambda>i. ts_insert (ce_askSize entry i) ts (ce_askSizeHistory entry i)) (ce_askSizeHistory entry),
       ce_positionSizeHistory := ts_insert (ce_positionSize entry) ts (ce_positionSizeHistory entry),
       ce_pnlEstimateHistory := ts_insert (ce_pnlEstimate entry) ts (ce_pnlEstimateHistory entry)\<rparr>"

definition updateCache :: "orderBookResponse \<Rightarrow> cacheEntry \<Rightarrow> cacheEntry" where
  "updateCache response entry =
     (let entry = entry\<lparr>ce_tickIndex := ce_tickIndex entry + 1, ce_clockUS := ucast (obr_timestamp response),
                        ce_valid := 1, ce_lastTradeSide := tradeSide response entry\<rparr>;
          entry = updateLevels response entry;
          entry = entry\<lparr>ce_tradePrice :=
            ucast ((ucast (ce_bidPrice entry 0) + ucast (ce_askPrice entry 0) :: 33 word) div 2)\<rparr>;
          entry = updateHistories (obr_timestamp response) entry
      in entry\<lparr>ce_systemState := 1\<rparr>)"

section \<open>Strategies\<close>

definition noOperation :: orderEntryOperation where
  "noOperation = \<lparr>oeo_timestamp = 0, oeo_opCode = 0, oeo_symbolIndex = 0, oeo_orderId = 0, oeo_quantity = 0,
     oeo_price = 0, oeo_direction = 0\<rparr>"

definition pricingStrategyCustom ::
    "orderBookResponse \<Rightarrow> cache \<times> orderEntryOperation \<Rightarrow> (bool \<times> cache \<times> orderEntryOperation) option" where
  "pricingStrategyCustom response = (\<lambda>(cache, operation).
     (let symbolIndex = obr_symbolIndex response;
          bookSnapshot = getBookSnapshot cache symbolIndex 5;
          orderDelta = getOrderDelta cache symbolIndex 0 True;
          timeSinceLastUpdate = getTimeSinceLastUpdate cache symbolIndex 0 True (obr_timestamp response);
          movingAvgBidPrice = getMovingAvg cache symbolIndex BID_PRICE 8 0;
          expAvgBidPrice = getExpAvg cache symbolIndex BID_PRICE 32 8 0;
          movingMaxBidPrice = getMovingMax cache symbolIndex BID_PRICE 8 0;
          movingMinBidPrice = getMovingMin cache symbolIndex BID_PRICE 8 0;
          movingSumBidSize = getMovingSum cache symbolIndex BID_SIZE 8 0;
          derivativeBidPrice = getDerivative cache symbolIndex BID_PRICE 0;
          crossoverSignal = getCrossover (ce_bidPriceHistory (cache symbolIndex)) (ce_tradePriceHistory (cache symbolIndex))
      in case getImbalance (bl_bidSize (bookSnapshot ! 0)) (bl_askSize (bookSnapshot ! 0)) of
        None \<Rightarrow> None
      | Some imbalance \<Rightarrow>
          (let priceJump = PRICE_JUMP cache symbolIndex 100;
               stdDevThreshold = 2 * 2 ^ 24;
               spikeDetected = SPIKE (ce_bidPriceHistory (cache symbolIndex)) stdDevThreshold;
               bookPressure = BOOK_PRESSURE cache symbolIndex [0, 1, 2, 3, 4];
               (state, cache) = STATEFUL_IF symbolIndex (priceJump \<or> spikeDetected) STATE_ACTIVE cache;
               delayedPrice = LATENCY_GATE (ce_bidPriceHistory (cache symbolIndex)) 2
           in Some (True, cache, sendOrder cache symbolIndex 1000 (rng 31 0 (obr_bidPrice response) + 50) 0 operation))))"

text \<open>The two other strategies are never called: the \<^verbatim>\<open>switch\<close> on the strategy is commented out.\<close>

definition pegOrder :: "32 word \<Rightarrow> orderBookResponse \<Rightarrow> cache \<times> orderEntryOperation \<Rightarrow> bool \<times> cache \<times> orderEntryOperation" where
  "pegOrder offset response = (\<lambda>(cache, operation).
     (let symbolIndex = obr_symbolIndex response; bid = rng 31 0 (obr_bidPrice response);
          executeOrder = (ce_bidPrice (cache symbolIndex) 0 \<noteq> bid);
          operation = (if executeOrder
            then operation\<lparr>oeo_timestamp := ucast (obr_timestamp response), oeo_opCode := ORDERENTRY_ADD,
                   oeo_symbolIndex := symbolIndex, oeo_quantity := 800, oeo_price := bid + offset,
                   oeo_direction := ORDER_BID\<rparr>
            else operation);
          entry = cache symbolIndex;
          entry = entry\<lparr>ce_bidPrice := (ce_bidPrice entry)(0 := bid),
                        ce_askPrice := (ce_askPrice entry)(0 := rng 31 0 (obr_askPrice response)),
                        ce_valid := 1\<rparr>
      in (executeOrder, cache(symbolIndex := entry), operation)))"

definition pricingStrategyPeg ::
    "orderBookResponse \<Rightarrow> cache \<times> orderEntryOperation \<Rightarrow> bool \<times> cache \<times> orderEntryOperation" where
  "pricingStrategyPeg = pegOrder 100"

definition pricingStrategyLimit ::
    "orderBookResponse \<Rightarrow> cache \<times> orderEntryOperation \<Rightarrow> bool \<times> cache \<times> orderEntryOperation" where
  "pricingStrategyLimit = pegOrder 50"

section \<open>The kernel\<close>

definition responsePull :: "pricingEngine \<Rightarrow> pricingEngine" where
  "responsePull k =
     (let k = (if \<not> s_empty (pe_responseStreamPack k)
        then k\<lparr>pe_responseStreamPack := s_rest (pe_responseStreamPack k),
               pe_responseStream := s_write (pe_responseStream k)
                 (orderBookResponseUnpack (s_head (pe_responseStreamPack k))),
               pe_countRxResponse := pe_countRxResponse k + 1\<rparr>
        else k)
      in k\<lparr>pe_regs := (pe_regs k)\<lparr>pr_rxResponse := pe_countRxResponse k\<rparr>\<rparr>)"

definition strategySelect :: "pricingControl \<Rightarrow> (8 word \<Rightarrow> pricingStrategyReg) \<Rightarrow> 8 word \<Rightarrow> 8 word" where
  "strategySelect ctl regStrategies symbolIndex =
     (if bit (pc_strategy ctl) 31 then rng 7 0 (pc_strategy ctl)
      else rng 7 0 (ps_select (regStrategies symbolIndex)))"

definition placeOrder :: "8 word \<Rightarrow> orderEntryOperation \<Rightarrow> pricingState \<Rightarrow> pricingState \<times> orderEntryOperation" where
  "placeOrder symbolIndex operation s =
     (let orderId = px_orderId s + 1;
          operation = operation\<lparr>oeo_orderId := orderId\<rparr>;
          entry = (px_cache s symbolIndex)\<lparr>ce_lastOrderId := orderId\<rparr>;
          entry = entry\<lparr>ce_positionSize :=
            (if oeo_direction operation = ORDER_BID then ce_positionSize entry + oeo_quantity operation
             else ce_positionSize entry - oeo_quantity operation)\<rparr>;
          entry = entry\<lparr>ce_pnlEstimate := ce_positionSize entry * (ce_tradePrice entry - ce_bidPrice entry 0)\<rparr>
      in (s\<lparr>px_orderId := orderId, px_cache := (px_cache s)(symbolIndex := entry)\<rparr>, operation))"

definition priceResponse ::
    "pricingControl \<Rightarrow> (8 word \<Rightarrow> pricingStrategyReg) \<Rightarrow> orderBookResponse \<Rightarrow> pricingState \<Rightarrow>
     (pricingState \<times> orderEntryOperation list) option" where
  "priceResponse ctl regStrategies response s =
     (let symbolIndex = obr_symbolIndex response;
          thresholdEnable = rng 7 0 (ps_enable (regStrategies symbolIndex)) :: 8 word;
          select = strategySelect ctl regStrategies symbolIndex;
          s = s\<lparr>px_countProcessResponse := px_countProcessResponse s + 1,
                px_cache := (px_cache s)(symbolIndex := updateCache response (px_cache s symbolIndex)),
                px_countStrategyCustom := px_countStrategyCustom s + 1\<rparr>
      in case pricingStrategyCustom response (px_cache s, noOperation) of
        None \<Rightarrow> None
      | Some (orderExecute, cache, operation) \<Rightarrow>
          (let s = s\<lparr>px_cache := cache\<rparr>
           in if orderExecute
              then (let (s, operation) = placeOrder symbolIndex operation s in Some (s, [operation]))
              else Some (s, [])))"

definition publishPricing :: "pricingState \<Rightarrow> pricingRegs \<Rightarrow> pricingRegs" where
  "publishPricing s r =
     r\<lparr>pr_processResponse := px_countProcessResponse s, pr_strategyNone := px_countStrategyNone s,
       pr_strategyPeg := px_countStrategyPeg s, pr_strategyLimit := px_countStrategyLimit s,
       pr_strategyUnknown := px_countStrategyUnknown s\<rparr>"

definition pricingProcess ::
    "pricingControl \<Rightarrow> (8 word \<Rightarrow> pricingStrategyReg) \<Rightarrow> pricingEngine \<Rightarrow> pricingEngine option" where
  "pricingProcess ctl regStrategies k =
     (case (if \<not> s_empty (pe_responseStream k)
            then (case priceResponse ctl regStrategies (s_head (pe_responseStream k)) (pe_state k) of
                None \<Rightarrow> None
              | Some (s, operations) \<Rightarrow>
                  Some (k\<lparr>pe_responseStream := s_rest (pe_responseStream k), pe_state := s,
                          pe_operationStream := pe_operationStream k @ operations\<rparr>))
            else Some k) of
        None \<Rightarrow> None
      | Some k \<Rightarrow> Some (k\<lparr>pe_regs := publishPricing (pe_state k) (pe_regs k)\<rparr>))"

definition operationPush :: "pricingControl \<Rightarrow> pricingEngine \<Rightarrow> pricingEngine" where
  "operationPush ctl k =
     (let k = (if \<not> s_empty (pe_operationStream k)
        then (let pack = orderEntryOperationPack (s_head (pe_operationStream k)) 0
              in k\<lparr>pe_operationStream := s_rest (pe_operationStream k),
                   pe_operationStreamPack := s_write (pe_operationStreamPack k) pack,
                   pe_countTxOperation := pe_countTxOperation k + 1,
                   pe_regCaptureBuffer := (if \<not> bit (pc_capture ctl) 31 then ucast pack else pe_regCaptureBuffer k)\<rparr>)
        else k)
      in k\<lparr>pe_regs := (pe_regs k)\<lparr>pr_txOperation := pe_countTxOperation k\<rparr>\<rparr>)"

definition pe_eventHandler :: "pricingEngine \<Rightarrow> pricingEngine" where
  "pe_eventHandler k =
     (let k = (if \<not> s_empty (pe_eventStream k)
        then k\<lparr>pe_eventStream := s_rest (pe_eventStream k), pe_countRxEvent := pe_countRxEvent k + 1\<rparr>
        else k)
      in k\<lparr>pe_regs := (pe_regs k)\<lparr>pr_rxEvent := pe_countRxEvent k\<rparr>\<rparr>)"

definition pricingEngineTop ::
    "pricingControl \<Rightarrow> (8 word \<Rightarrow> pricingStrategyReg) \<Rightarrow> pricingEngine \<Rightarrow> pricingEngine option" where
  "pricingEngineTop ctl regStrategies k =
     (case pricingProcess ctl regStrategies (responsePull k) of
        None \<Rightarrow> None
      | Some k \<Rightarrow> Some (pe_eventHandler (operationPush ctl k)))"

section \<open>What one response does\<close>

text \<open>Reference: the effect of a response on the memory, and the order it places.  A response traps exactly
  when the top-of-book volumes have a non-zero 32-bit sum but a sum divisible by 16.\<close>

definition priceOk :: "orderBookResponse \<Rightarrow> bool" where
  "priceOk r \<longleftrightarrow> divisible (levelOf (obr_bidQuantity r) 0) (levelOf (obr_askQuantity r) 0)"

definition orderFor :: "32 word \<Rightarrow> orderBookResponse \<Rightarrow> orderEntryOperation" where
  "orderFor orderId r =
     \<lparr>oeo_timestamp = ucast (ucast (obr_timestamp r) :: 32 word), oeo_opCode = ORDERENTRY_ADD,
      oeo_symbolIndex = obr_symbolIndex r, oeo_orderId = orderId, oeo_quantity = 1000,
      oeo_price = levelOf (obr_bidPrice r) 0 + 50, oeo_direction = ORDER_BID\<rparr>"

definition bookEntry :: "32 word \<Rightarrow> orderBookResponse \<Rightarrow> cacheEntry \<Rightarrow> cacheEntry" where
  "bookEntry orderId r entry =
     (let entry = updateCache r entry; position = ce_positionSize entry + 1000
      in entry\<lparr>ce_lastOrderId := orderId, ce_positionSize := position,
               ce_pnlEstimate := position * (ce_tradePrice entry - ce_bidPrice entry 0)\<rparr>)"

definition applyResponse :: "orderBookResponse \<Rightarrow> pricingState \<Rightarrow> pricingState" where
  "applyResponse r s =
     s\<lparr>px_countProcessResponse := px_countProcessResponse s + 1,
       px_countStrategyCustom := px_countStrategyCustom s + 1,
       px_orderId := px_orderId s + 1,
       px_cache := (px_cache s)(obr_symbolIndex r :=
         bookEntry (px_orderId s + 1) r (px_cache s (obr_symbolIndex r)))\<rparr>"

lemma updateCache_fields [simp]:
  "ce_systemState (updateCache r e) = STATE_ACTIVE"
  "ce_clockUS (updateCache r e) = ucast (obr_timestamp r)"
  "ce_bidSize (updateCache r e) 0 = levelOf (obr_bidQuantity r) 0"
  "ce_askSize (updateCache r e) 0 = levelOf (obr_askQuantity r) 0"
  "ce_bidPrice (updateCache r e) 0 = levelOf (obr_bidPrice r) 0"
  "ce_askPrice (updateCache r e) 0 = levelOf (obr_askPrice r) 0"
  "ce_positionSize (updateCache r e) = ce_positionSize e"
  "ce_tickIndex (updateCache r e) = ce_tickIndex e + 1"
  "ce_bidPriceHistory (updateCache r e) =
     ts_insert (levelOf (obr_bidPrice r) 0) (obr_timestamp r) (ce_bidPriceHistory e)"
  by (simp_all add: updateCache_def updateLevels_def updateHistories_def perLevel_def Let_def)

lemma STATEFUL_IF_active:
  assumes "ce_systemState (cache s) = v"
  shows "STATEFUL_IF s c v cache = (v, cache)"
proof -
  have "e\<lparr>ce_systemState := v\<rparr> = e" if "ce_systemState e = v" for e :: cacheEntry
    using that by (cases e) simp
  from this [OF assms] assms show ?thesis by (simp add: STATEFUL_IF_def Let_def fun_upd_idem)
qed

lemma getBookSnapshot_top:
  "bl_bidSize (getBookSnapshot cache s 5 ! 0) = ce_bidSize (cache s) 0"
  "bl_askSize (getBookSnapshot cache s 5 ! 0) = ce_askSize (cache s) 0"
  by (simp_all add: getBookSnapshot_def Let_def)

lemma levelOf_0: "levelOf w 0 = rng 31 0 w"
  by (simp add: levelOf_def)

lemma pricingStrategyCustom_eq:
  assumes "cache (obr_symbolIndex r) = updateCache r e"
  shows "pricingStrategyCustom r (cache, operation) =
    (if priceOk r
     then Some (True, cache, sendOrder cache (obr_symbolIndex r) 1000 (levelOf (obr_bidPrice r) 0 + 50) 0 operation)
     else None)"
proof -
  have act: "ce_systemState (cache (obr_symbolIndex r)) = STATE_ACTIVE" using assms by simp
  let ?i = "getImbalance (levelOf (obr_bidQuantity r) 0) (levelOf (obr_askQuantity r) 0)"
  have "pricingStrategyCustom r (cache, operation) = (case ?i of None \<Rightarrow> None | Some i \<Rightarrow>
      Some (True, cache, sendOrder cache (obr_symbolIndex r) 1000 (levelOf (obr_bidPrice r) 0 + 50) 0 operation))"
    using STATEFUL_IF_active [of cache "obr_symbolIndex r", OF act]
    by (simp add: pricingStrategyCustom_def getBookSnapshot_top assms levelOf_0 Let_def split: option.split)
  then show ?thesis
    using getImbalance_None [of "levelOf (obr_bidQuantity r) 0" "levelOf (obr_askQuantity r) 0"]
    by (cases ?i) (simp_all add: priceOk_def)
qed

lemma priceResponse_eq:
  "priceResponse ctl regs r s =
     (if priceOk r then Some (applyResponse r s, [orderFor (px_orderId s + 1) r]) else None)"
  by (simp add: priceResponse_def pricingStrategyCustom_eq Let_def placeOrder_def applyResponse_def
      bookEntry_def orderFor_def sendOrder_def noOperation_def)

section \<open>The kernel is a stage\<close>

definition pe_idle :: "pricingEngine \<Rightarrow> bool" where
  "pe_idle k \<longleftrightarrow> pe_responseStream k = [] \<and> pe_operationStream k = []"

definition pe_step :: "pricingState \<Rightarrow> 1024 word \<Rightarrow> pricingState \<times> 184 word list" where
  "pe_step s w =
     (let r = orderBookResponseUnpack w
      in (applyResponse r s, [orderEntryOperationPack (orderFor (px_orderId s + 1) r) 0]))"

lemmas pe_stage_defs = pricingEngineTop_def responsePull_def pricingProcess_def operationPush_def
  pe_eventHandler_def pe_idle_def s_write_def Let_def

interpretation pe_top: guarded_stage "pricingEngineTop ctl regs" pe_idle pe_responseStreamPack
    pe_operationStreamPack pe_state "\<lambda>w. priceOk (orderBookResponseUnpack w)" pe_step for ctl regs
proof (unfold_locales, goal_cases)
  case (1 k)
  then show ?case by (simp add: pe_stage_defs)
next
  case (2 k w ws s ys)
  then show ?case by (auto simp: pe_stage_defs pe_step_def priceResponse_eq)
next
  case (3 k w ws)
  then show ?case by (simp add: pe_stage_defs priceResponse_eq)
qed

fun ordersFor :: "32 word \<Rightarrow> orderBookResponse list \<Rightarrow> orderEntryOperation list" where
  "ordersFor orderId [] = []"
| "ordersFor orderId (r # rs) = orderFor (orderId + 1) r # ordersFor (orderId + 1) rs"

lemma mealy_pe_step:
  "fst (mealy pe_step s ws) = fold applyResponse (map orderBookResponseUnpack ws) s"
  "map orderEntryOperationUnpack (snd (mealy pe_step s ws)) =
     ordersFor (px_orderId s) (map orderBookResponseUnpack ws)"
  by (induction ws arbitrary: s) (simp_all add: pe_step_def Let_def applyResponse_def)

lemmas pe_run = pe_top.g_run [unfolded list_all_iff]

lemma applyResponse_other:
  "obr_symbolIndex r \<noteq> sb \<Longrightarrow> px_cache (applyResponse r s) sb = px_cache s sb"
  by (simp add: applyResponse_def)

lemma applyResponse_entry:
  "px_cache (applyResponse r s) (obr_symbolIndex r) =
     bookEntry (px_orderId s + 1) r (px_cache s (obr_symbolIndex r))"
  by (simp add: applyResponse_def)

definition responsesOf :: "8 word \<Rightarrow> orderBookResponse list \<Rightarrow> orderBookResponse list" where
  "responsesOf sb rs = filter (\<lambda>r. obr_symbolIndex r = sb) rs"

lemma position_fold:
  "ce_positionSize (px_cache (fold applyResponse rs s) sb) =
     ce_positionSize (px_cache s sb) + 1000 * of_nat (length (responsesOf sb rs))"
  "ce_tickIndex (px_cache (fold applyResponse rs s) sb) =
     ce_tickIndex (px_cache s sb) + of_nat (length (responsesOf sb rs))"
proof (induction rs arbitrary: s)
  case (Cons r rs)
  { case 1 show ?case
      using Cons(1) [of "applyResponse r s"]
      by (cases "obr_symbolIndex r = sb")
        (auto simp: responsesOf_def applyResponse_other applyResponse_entry bookEntry_def Let_def algebra_simps) }
  { case 2 show ?case
      using Cons(2) [of "applyResponse r s"]
      by (cases "obr_symbolIndex r = sb")
        (auto simp: responsesOf_def applyResponse_other applyResponse_entry bookEntry_def Let_def algebra_simps) }
qed (simp_all add: responsesOf_def)

definition bidSample :: "orderBookResponse \<Rightarrow> TimeSeriesEntry" where
  "bidSample r = \<lparr>te_value = levelOf (obr_bidPrice r) 0, te_timestamp = obr_timestamp r\<rparr>"

lemma history_fold:
  "ce_bidPriceHistory (px_cache (fold applyResponse rs s) sb) =
     fold ts_add (map bidSample (responsesOf sb rs)) (ce_bidPriceHistory (px_cache s sb))"
proof (induction rs arbitrary: s)
  case (Cons r rs)
  then show ?case
    by (cases "obr_symbolIndex r = sb")
      (auto simp: responsesOf_def applyResponse_other applyResponse_entry bookEntry_def Let_def
         ts_add_def bidSample_def)
qed (simp add: responsesOf_def)

section \<open>Properties\<close>

text \<open>C14: when no response traps, any run of the pricing engine places exactly one order per response it takes, in
  order: a bid for 1000 at 50 above the best bid, numbered consecutively, and nothing else.\<close>

theorem pricing_orders:
  assumes "pe_idle k" and "\<forall>w\<in>set (take n (pe_responseStreamPack k)). priceOk (orderBookResponseUnpack w)"
  shows "\<exists>k'. iter_opt (pricingEngineTop ctl regs) n k = Some k' \<and>
    pe_responseStreamPack k' = drop n (pe_responseStreamPack k) \<and>
    map orderEntryOperationUnpack (pe_operationStreamPack k') =
      map orderEntryOperationUnpack (pe_operationStreamPack k) @
      ordersFor (px_orderId (pe_state k)) (map orderBookResponseUnpack (take n (pe_responseStreamPack k)))"
  using pe_run [OF assms, of ctl regs] by (auto simp: mealy_pe_step)

definition sampleResponse :: orderBookResponse where
  "sampleResponse =
     \<lparr>obr_timestamp = 77, obr_symbolIndex = 2, obr_bidCount = 1, obr_bidPrice = 5000, obr_bidQuantity = 300,
      obr_askCount = 1, obr_askPrice = 5100, obr_askQuantity = 200\<rparr>"

definition emptySeries :: TimeSeriesBuffer where
  "emptySeries = \<lparr>ts_buffer = \<lambda>i. \<lparr>te_value = 0, te_timestamp = 0\<rparr>, ts_index = 0, ts_count = 0\<rparr>"

definition emptyEntry :: cacheEntry where
  "emptyEntry = \<lparr>ce_bidPrice = \<lambda>i. 0, ce_askPrice = \<lambda>i. 0, ce_tradePrice = 0, ce_bidSize = \<lambda>i. 0, ce_askSize = \<lambda>i. 0,
     ce_bidSizeDelta = \<lambda>i. 0, ce_askSizeDelta = \<lambda>i. 0, ce_positionSize = 0, ce_pnlEstimate = 0,
     ce_bidPriceHistory = emptySeries, ce_askPriceHistory = emptySeries, ce_tradePriceHistory = emptySeries,
     ce_bidSizeHistory = \<lambda>i. emptySeries, ce_askSizeHistory = \<lambda>i. emptySeries,
     ce_positionSizeHistory = emptySeries, ce_pnlEstimateHistory = emptySeries, ce_valid = 0,
     ce_lastUpdateTimestampBid = \<lambda>i. 0, ce_lastUpdateTimestampAsk = \<lambda>i. 0, ce_lastTradeSide = 0,
     ce_tickIndex = 0, ce_clockUS = 0, ce_lastOrderId = 0, ce_systemState = STATE_IDLE\<rparr>"

definition pricingReset :: pricingState where
  "pricingReset = \<lparr>px_cache = \<lambda>s. emptyEntry, px_orderId = 0, px_countProcessResponse = 0, px_countStrategyNone = 0,
     px_countStrategyPeg = 0, px_countStrategyLimit = 0, px_countStrategyCustom = 0, px_countStrategyUnknown = 0\<rparr>"

definition samplePricing :: "1024 word list \<Rightarrow> pricingEngine" where
  "samplePricing ws =
     \<lparr>pe_state = pricingReset, pe_countRxResponse = 0, pe_countTxOperation = 0, pe_countRxEvent = 0,
      pe_regs = \<lparr>pr_rxResponse = 0, pr_processResponse = 0, pr_txOperation = 0, pr_strategyNone = 0,
        pr_strategyPeg = 0, pr_strategyLimit = 0, pr_strategyUnknown = 0, pr_rxEvent = 0\<rparr>,
      pe_regCaptureBuffer = 0, pe_responseStreamPack = ws, pe_responseStream = [], pe_operationStream = [],
      pe_operationStreamPack = [], pe_eventStream = []\<rparr>"

definition sampleControl :: pricingControl where
  "sampleControl = \<lparr>pc_strategy = 0, pc_capture = 0\<rparr>"

definition sampleStrategies :: "8 word \<Rightarrow> pricingStrategyReg" where
  "sampleStrategies = (\<lambda>s. \<lparr>ps_select = 0, ps_enable = 0, ps_totalBid = 0, ps_totalAsk = 0\<rparr>)"

lemma levelOf_sample: "levelOf 300 0 = 300" "levelOf 200 0 = 200" "levelOf 5000 0 = 5000" "levelOf 500 0 = 500"
  by (simp_all add: levelOf_def rng_def take_bit_word_eq_self unsigned_ucast_eq)

lemma sample_priceOk: "priceOk sampleResponse"
  by (simp add: priceOk_def sampleResponse_def levelOf_sample divisible_def)

theorem pricing_orders_witness:
  "\<exists>k'. iter_opt (pricingEngineTop sampleControl sampleStrategies) 1
       (samplePricing [orderBookResponsePack sampleResponse 0]) = Some k' \<and>
     map orderEntryOperationUnpack (pe_operationStreamPack k') = [orderFor 1 sampleResponse]"
proof -
  let ?k = "samplePricing [orderBookResponsePack sampleResponse 0]"
  have i: "pe_idle ?k" by (simp add: pe_idle_def samplePricing_def)
  have ok: "\<forall>w\<in>set (take 1 (pe_responseStreamPack ?k)). priceOk (orderBookResponseUnpack w)"
    by (simp add: samplePricing_def sample_priceOk)
  show ?thesis
    using pricing_orders [OF i ok, of sampleControl sampleStrategies]
    by (auto simp: samplePricing_def pricingReset_def simp del: iter_opt.simps)
qed

text \<open>After any run without a trap, the position of every symbol has grown by 1000 for each response of that symbol
  and its tick index by one, modulo \<open>2 ^ 32\<close>; responses of other symbols change nothing in its cache entry.\<close>

theorem pricing_accounts:
  assumes "pe_idle k" and "\<forall>w\<in>set (take n (pe_responseStreamPack k)). priceOk (orderBookResponseUnpack w)"
  defines "rs \<equiv> map orderBookResponseUnpack (take n (pe_responseStreamPack k))"
  shows "\<exists>k'. iter_opt (pricingEngineTop ctl regs) n k = Some k' \<and>
    (let before = px_cache (pe_state k) sb; after = px_cache (pe_state k') sb; m = length (responsesOf sb rs)
     in ce_positionSize after = ce_positionSize before + 1000 * of_nat m \<and>
        ce_tickIndex after = ce_tickIndex before + of_nat m \<and> (m = 0 \<longrightarrow> after = before))"
proof -
  have other: "px_cache (fold applyResponse rs' s) sb = px_cache s sb" if "responsesOf sb rs' = []" for rs' s
    using that by (induction rs' arbitrary: s) (auto simp: responsesOf_def applyResponse_other split: if_splits)
  show ?thesis
    using pe_run [OF assms(1,2), of ctl regs]
    by (auto simp: mealy_pe_step Let_def position_fold other rs_def)
qed

theorem pricing_accounts_witness:
  "\<exists>k'. iter_opt (pricingEngineTop sampleControl sampleStrategies) 2
       (samplePricing [orderBookResponsePack sampleResponse 0, orderBookResponsePack sampleResponse 0]) = Some k' \<and>
     ce_positionSize (px_cache (pe_state k') 2) = 2000"
proof -
  let ?k = "samplePricing [orderBookResponsePack sampleResponse 0, orderBookResponsePack sampleResponse 0]"
  have i: "pe_idle ?k" by (simp add: pe_idle_def samplePricing_def)
  have ok: "\<forall>w\<in>set (take 2 (pe_responseStreamPack ?k)). priceOk (orderBookResponseUnpack w)"
    by (simp add: samplePricing_def sample_priceOk)
  show ?thesis
    using pricing_accounts [OF i ok, of sampleControl sampleStrategies 2]
    by (auto simp: samplePricing_def pricingReset_def emptyEntry_def responsesOf_def sampleResponse_def Let_def
        simp del: iter_opt.simps)
qed

text \<open>The bid price history of a symbol always shows the best bids of its last eight responses, latest first.\<close>

theorem pricing_history:
  assumes "pe_idle k" and "\<forall>w\<in>set (take n (pe_responseStreamPack k)). priceOk (orderBookResponseUnpack w)"
    and "ts_ok (ce_bidPriceHistory (px_cache (pe_state k) sb))"
  shows "\<exists>k'. iter_opt (pricingEngineTop ctl regs) n k = Some k' \<and>
    recent (ce_bidPriceHistory (px_cache (pe_state k') sb)) =
      take 8 (rev (map bidSample (responsesOf sb (map orderBookResponseUnpack (take n (pe_responseStreamPack k))))) @
        recent (ce_bidPriceHistory (px_cache (pe_state k) sb)))"
proof -
  have "length (recent (ce_bidPriceHistory (px_cache (pe_state k) sb))) \<le> MAX_WINDOW"
    using assms(3) by (simp add: ts_ok_def)
  note v = ts.view_adds [OF assms(3) this]
  show ?thesis
    using pe_run [OF assms(1,2), of ctl regs] by (auto simp: mealy_pe_step history_fold v)
qed

theorem pricing_history_witness:
  "\<exists>k'. iter_opt (pricingEngineTop sampleControl sampleStrategies) 1
       (samplePricing [orderBookResponsePack sampleResponse 0]) = Some k' \<and>
     recent (ce_bidPriceHistory (px_cache (pe_state k') 2)) = [\<lparr>te_value = 5000, te_timestamp = 77\<rparr>]"
proof -
  let ?k = "samplePricing [orderBookResponsePack sampleResponse 0]"
  have i: "pe_idle ?k" by (simp add: pe_idle_def samplePricing_def)
  have ok: "\<forall>w\<in>set (take 1 (pe_responseStreamPack ?k)). priceOk (orderBookResponseUnpack w)"
    by (simp add: samplePricing_def sample_priceOk)
  have t: "ts_ok (ce_bidPriceHistory (px_cache (pe_state ?k) 2))"
    by (simp add: samplePricing_def pricingReset_def emptyEntry_def emptySeries_def ts_ok_def)
  have r: "recent (ce_bidPriceHistory (px_cache (pe_state ?k) 2)) = []"
    by (simp add: samplePricing_def pricingReset_def emptyEntry_def emptySeries_def recent_def)
  have b: "responsesOf 2 [sampleResponse] = [sampleResponse]"
    "bidSample sampleResponse = \<lparr>te_value = 5000, te_timestamp = 77\<rparr>"
    by (simp_all add: responsesOf_def bidSample_def sampleResponse_def levelOf_sample)
  have q: "map orderBookResponseUnpack (take 1 (pe_responseStreamPack ?k)) = [sampleResponse]"
    by (simp add: samplePricing_def)
  show ?thesis
    using pricing_history [OF i ok t, of sampleControl sampleStrategies] unfolding q r b(1) by (simp add: b(2) del: iter_opt.simps)
qed

text \<open>The strategy selection registers have no effect: neither the global selection nor the per-symbol registers change
  any run, and the counters of the other strategies never move.\<close>

theorem strategy_registers_unused:
  "iter_opt (pricingEngineTop (ctl\<lparr>pc_strategy := g\<rparr>) regs') n k = iter_opt (pricingEngineTop ctl regs) n k \<and>
   (\<forall>k'. pricingEngineTop ctl regs k = Some k' \<longrightarrow>
      px_countStrategyNone (pe_state k') = px_countStrategyNone (pe_state k) \<and>
      px_countStrategyPeg (pe_state k') = px_countStrategyPeg (pe_state k) \<and>
      px_countStrategyLimit (pe_state k') = px_countStrategyLimit (pe_state k) \<and>
      px_countStrategyUnknown (pe_state k') = px_countStrategyUnknown (pe_state k))"
proof -
  have "pricingEngineTop (ctl\<lparr>pc_strategy := g\<rparr>) regs' = pricingEngineTop ctl regs"
    by (rule ext) (simp add: pricingEngineTop_def pricingProcess_def priceResponse_eq operationPush_def)
  moreover have "px_countStrategyNone (pe_state k') = px_countStrategyNone (pe_state k) \<and>
      px_countStrategyPeg (pe_state k') = px_countStrategyPeg (pe_state k) \<and>
      px_countStrategyLimit (pe_state k') = px_countStrategyLimit (pe_state k) \<and>
      px_countStrategyUnknown (pe_state k') = px_countStrategyUnknown (pe_state k)"
    if "pricingEngineTop ctl regs k = Some k'" for k'
    using that
    by (auto simp: pricingEngineTop_def pricingProcess_def priceResponse_eq operationPush_def pe_eventHandler_def
        responsePull_def applyResponse_def Let_def split: if_splits)
  ultimately show ?thesis by simp
qed

theorem strategy_registers_unused_witness:
  "iter_opt (pricingEngineTop (sampleControl\<lparr>pc_strategy := 0x80000002\<rparr>) sampleStrategies) 1 (samplePricing []) =
   iter_opt (pricingEngineTop sampleControl sampleStrategies) 1 (samplePricing [])"
  using strategy_registers_unused [where ctl = sampleControl and g = "0x80000002" and regs' = sampleStrategies
      and n = 1 and k = "samplePricing []" and regs = sampleStrategies]
  by (simp del: iter_opt.simps)

text \<open>C15: a run of the pricing engine returns exactly when no response it takes has top-of-book volumes whose sum is
  non-zero and divisible by 16: \<open>getImbalance\<close> keeps only the volumes modulo 16 and then divides by their
  sum.\<close>

theorem pricing_returns:
  assumes "pe_idle k"
  shows "(\<exists>k'. iter_opt (pricingEngineTop ctl regs) n k = Some k') \<longleftrightarrow>
    (\<forall>w\<in>set (take n (pe_responseStreamPack k)).
       (let r = orderBookResponseUnpack w; b = levelOf (obr_bidQuantity r) 0; a = levelOf (obr_askQuantity r) 0
        in b + a = 0 \<or> (uint b + uint a) mod 16 \<noteq> 0))"
  using pe_top.g_returns [OF assms, of ctl regs n]
  by (simp add: list_all_iff priceOk_def divisible_def Let_def)

theorem pricing_returns_witness:
  "\<not> (\<exists>k'. iter_opt (pricingEngineTop sampleControl sampleStrategies) 1
     (samplePricing [orderBookResponsePack (sampleResponse\<lparr>obr_bidQuantity := 5000, obr_askQuantity := 200\<rparr>) 0]) = Some k')"
proof -
  let ?k = "samplePricing [orderBookResponsePack (sampleResponse\<lparr>obr_bidQuantity := 5000, obr_askQuantity := 200\<rparr>) 0]"
  have i: "pe_idle ?k" by (simp add: pe_idle_def samplePricing_def)
  show ?thesis
    using pricing_returns [OF i, of sampleControl sampleStrategies 1]
    by (simp add: samplePricing_def levelOf_sample Let_def del: iter_opt.simps)
qed

text \<open>Right after the cache update of a response, the price jump and the crossover signals are never raised (they compare
  the latest sample with itself), and the two unused strategies would never place an order (they
  compare the response with the cache it has just updated).\<close>

theorem signals_never_fire:
  fixes cache :: cache and r :: orderBookResponse
  assumes "ts_ok (ce_tradePriceHistory e)" and "ts_ok (ce_bidPriceHistory e)"
  defines "cache' \<equiv> cache(obr_symbolIndex r := updateCache r e)"
  shows "\<not> PRICE_JUMP cache' (obr_symbolIndex r) threshold \<and>
    getCrossover (ce_bidPriceHistory (updateCache r e)) (ce_tradePriceHistory (updateCache r e)) = 0 \<and>
    fst (pricingStrategyPeg r (cache', operation)) = False \<and>
    fst (pricingStrategyLimit r (cache', operation)) = False"
proof -
  have t: "ts_ok (ce_tradePriceHistory (updateCache r e))"
    using assms(1) by (simp add: updateCache_def updateLevels_def updateHistories_def Let_def ts_ok_insert)
  have b: "ts_ok (ce_bidPriceHistory (updateCache r e))" using assms(2) by (simp add: ts_ok_insert)
  have p: "\<not> fst (pegOrder d r (cache', operation))" for d
    by (simp add: pegOrder_def cache'_def Let_def levelOf_0)
  show ?thesis
    using PRICE_JUMP_False [of cache' "obr_symbolIndex r" threshold] t getCrossover_0 [OF b t] p
    by (simp add: cache'_def pricingStrategyPeg_def pricingStrategyLimit_def)
qed

theorem signals_never_fire_witness:
  "\<not> PRICE_JUMP (\<lambda>s. updateCache sampleResponse emptyEntry) 2 0"
proof -
  have ok: "ts_ok (ce_tradePriceHistory emptyEntry)" "ts_ok (ce_bidPriceHistory emptyEntry)"
    by (simp_all add: emptyEntry_def emptySeries_def ts_ok_def)
  show ?thesis
    using signals_never_fire [OF ok, of "\<lambda>s. updateCache sampleResponse emptyEntry" sampleResponse 0 noOperation]
    by (simp add: fun_upd_idem sampleResponse_def)
qed

end
