(* ===== verification/Order_Ascii.thy ===== *)
theory Order_Ascii
  imports Aat_Interfaces
begin

text \<open>
  \<^verbatim>\<open>OrderEntry::uint32ToAscii\<close> and \<^verbatim>\<open>OrderEntry::bcdDigitiser\<close> of
  \<^verbatim>\<open>hw/orderEntry/orderentry.cpp\<close>: the serial conversion of a 32-bit number to ten ASCII digits.

  The four arrays of ten \<^verbatim>\<open>bcdDigit\<close>, \<^verbatim>\<open>bcdNext\<close>, \<^verbatim>\<open>carryIn\<close> and \<^verbatim>\<open>carryOut\<close> cells
  are one list of ten cells; \<^verbatim>\<open>carryIn\<close> is written before it is read in every round.  After \<open>i\<close> rounds
  the cells are the decimal digits of the top \<open>i\<close> bits (\<open>bcdCells\<close>).
\<close>

record bcdCell =
  bcdDigit :: "4 word"
  bcdNext :: "4 word"
  carryOut :: "1 word"

definition bcdDigitiser :: "1 word \<Rightarrow> bcdCell \<Rightarrow> bcdCell" where
  "bcdDigitiser carryIn c =
     (let d = push_bit 1 (bcdNext c) OR ucast carryIn
      in if d = 5 then \<lparr>bcdDigit = d, bcdNext = 0, carryOut = 1\<rparr>
         else if d = 6 then \<lparr>bcdDigit = d, bcdNext = 1, carryOut = 1\<rparr>
         else if d = 7 then \<lparr>bcdDigit = d, bcdNext = 2, carryOut = 1\<rparr>
         else if d = 8 then \<lparr>bcdDigit = d, bcdNext = 3, carryOut = 1\<rparr>
         else if d = 9 then \<lparr>bcdDigit = d, bcdNext = 4, carryOut = 1\<rparr>
         else \<lparr>bcdDigit = d, bcdNext = d, carryOut = 0\<rparr>)"

definition bcdRound :: "1 word \<Rightarrow> bcdCell list \<Rightarrow> bcdCell list" where
  "bcdRound b cells = map2 bcdDigitiser (b # map carryOut (butlast cells)) cells"

definition bcdLoop :: "32 word \<Rightarrow> nat \<Rightarrow> bcdCell list" where
  "bcdLoop inputData n =
     foldl (\<lambda>cells i. bcdRound (rng (31 - i) (31 - i) inputData) cells)
       (replicate 10 \<lparr>bcdDigit = 0, bcdNext = 0, carryOut = 0\<rparr>) [0..<n]"

definition uint32ToAscii :: "32 word \<Rightarrow> 80 word" where
  "uint32ToAscii inputData =
     foldl (\<lambda>outputAscii k. upd (8 * k + 3) (8 * k) (bcdDigit (bcdLoop inputData 32 ! k)) outputAscii)
       0x30303030303030303030 [0..<10]"

section \<open>The cells are decimal digits\<close>

definition digit :: "nat \<Rightarrow> nat \<Rightarrow> nat" where
  "digit n k = n div 10 ^ k mod 10"

definition cellOf :: "nat \<Rightarrow> bcdCell" where
  "cellOf d = \<lparr>bcdDigit = of_nat d, bcdNext = of_nat (d mod 5), carryOut = (if 5 \<le> d then 1 else 0)\<rparr>"

definition bcdCells :: "nat \<Rightarrow> bcdCell list" where
  "bcdCells n = map (\<lambda>k. cellOf (digit n k)) [0..<10]"

lemma bcdDigitiser_cell:
  assumes "d < 10" and "c < 2"
  shows "bcdDigitiser (of_nat c) (cellOf d) = cellOf (2 * (d mod 5) + c)"
proof -
  have "d = 0 \<or> d = 1 \<or> d = 2 \<or> d = 3 \<or> d = 4 \<or> d = 5 \<or> d = 6 \<or> d = 7 \<or> d = 8 \<or> d = 9"
    "c = 0 \<or> c = 1" using assms by arith+
  then show ?thesis by (elim disjE) (simp_all add: bcdDigitiser_def cellOf_def Let_def)
qed

lemma digit_double_0: "b < 2 \<Longrightarrow> digit (2 * n + b) 0 = 2 * (digit n 0 mod 5) + b"
proof -
  assume "b < 2"
  have "n = 5 * (n div 5) + n mod 5" by simp
  then have "2 * n + b = 10 * (n div 5) + (2 * (n mod 5) + b)" by arith
  then have "(2 * n + b) mod 10 = (2 * (n mod 5) + b) mod 10" by (metis mod_mult_self4)
  also have "\<dots> = 2 * (n mod 5) + b"
    using \<open>b < 2\<close> mod_less_divisor [of 5 n] by (intro mod_less) linarith
  finally have "(2 * n + b) mod 10 = 2 * (n mod 5) + b" .
  moreover have "n mod 10 mod 5 = n mod 5" by (rule mod_mod_cancel) simp
  ultimately show ?thesis by (simp add: digit_def)
qed

lemma double_div: "b < 2 \<Longrightarrow> (0 :: nat) < M \<Longrightarrow> \<exists>c < 2. (2 * n + b) div M = 2 * (n div M) + c"
proof -
  assume b: "b < 2" and M: "0 < M"
  let ?r = "2 * (n mod M) + b"
  have "n = n div M * M + n mod M" by (simp only: div_mult_mod_eq)
  then have "2 * n + b = 2 * (n div M * M) + ?r" by arith
  then have "2 * n + b = 2 * (n div M) * M + ?r" by (simp only: mult.assoc)
  then have "(2 * n + b) div M = 2 * (n div M) + ?r div M"
    using M by (metis div_mult_self3 less_irrefl)
  moreover have "?r < 2 * M" using b mod_less_divisor [OF M, of n] by linarith
  then have "?r div M < 2" using M by (simp add: less_mult_imp_div_less)
  ultimately show ?thesis by blast
qed

lemma digit_double_Suc:
  assumes "b < 2"
  shows "digit (2 * n + b) (Suc k) = 2 * (digit n (Suc k) mod 5) + (if 5 \<le> digit n k then 1 else 0)"
proof -
  define m where "m = n div 10 ^ k"
  obtain c where c: "c < 2" "(2 * n + b) div 10 ^ k = 2 * m + c"
    using double_div [OF assms, of "10 ^ k" n] by (auto simp: m_def)
  have d: "x div (10 * 10 ^ k) = x div 10 ^ k div 10" for x :: nat
    by (metis div_mult2_eq mult.commute)
  have "(2 * m + c) div 10 mod 10 = 2 * (m div 10 mod 10 mod 5) + (if 5 \<le> m mod 10 then 1 else 0)"
  proof -
    have "m = 10 * (m div 10) + m mod 10" by simp
    then have m: "2 * m + c = 10 * (2 * (m div 10)) + (2 * (m mod 10) + c)" by arith
    have e: "(2 * (m mod 10) + c) div 10 = (if 5 \<le> m mod 10 then 1 else 0)"
      using c(1) mod_less_divisor [of 10 m] by auto
    have "(2 * m + c) div 10 = 2 * (m div 10) + (if 5 \<le> m mod 10 then 1 else 0)"
      unfolding e [symmetric] by (subst m) simp
    then show ?thesis
      using digit_double_0 [of "if 5 \<le> m mod 10 then 1 else 0" "m div 10"] by (simp add: digit_def)
  qed
  then show ?thesis by (simp add: digit_def d c(2) m_def)
qed

lemma digit_less [simp]: "digit n k < 10"
  by (simp add: digit_def)

lemma bcdRound_cells:
  assumes "b < 2"
  shows "bcdRound (of_nat b) (bcdCells n) = bcdCells (2 * n + b)"
proof (rule nth_equalityI)
  show "length (bcdRound (of_nat b) (bcdCells n)) = length (bcdCells (2 * n + b))"
    by (simp add: bcdRound_def bcdCells_def)
  fix i assume "i < length (bcdRound (of_nat b) (bcdCells n))"
  then have i: "i < 10" by (simp add: bcdRound_def bcdCells_def)
  show "bcdRound (of_nat b) (bcdCells n) ! i = bcdCells (2 * n + b) ! i"
  proof (cases i)
    case 0
    have "bcdRound (of_nat b) (bcdCells n) ! i = bcdDigitiser (of_nat b) (cellOf (digit n 0))"
      using 0 by (simp add: bcdRound_def bcdCells_def)
    then show ?thesis
      using 0 assms by (simp add: bcdDigitiser_cell digit_double_0 bcdCells_def)
  next
    case (Suc j)
    have "bcdRound (of_nat b) (bcdCells n) ! i =
        bcdDigitiser (carryOut (cellOf (digit n j))) (cellOf (digit n (Suc j)))"
      using Suc i by (simp add: bcdRound_def bcdCells_def nth_butlast)
    also have "carryOut (cellOf (digit n j)) = of_nat (if 5 \<le> digit n j then 1 else 0)"
      by (simp add: cellOf_def)
    finally show ?thesis
      using Suc i assms by (simp add: bcdDigitiser_cell digit_double_Suc bcdCells_def del: of_nat_1 of_nat_0)
  qed
qed

lemma bcdLoop_cells: "n \<le> 32 \<Longrightarrow> bcdLoop x n = bcdCells (unat (drop_bit (32 - n) x))"
proof (induction n)
  case 0
  have "drop_bit 32 x = 0" by (rule bit_word_eqI) (simp add: bit_simps)
  then show ?case
    by (simp add: bcdLoop_def bcdCells_def digit_def cellOf_def map_replicate_const)
next
  case (Suc n)
  let ?b = "unat (rng (31 - n) (31 - n) x :: 1 word)"
  have b: "?b < 2" using unsigned_less [of "rng (31 - n) (31 - n) x :: 1 word", where ?'a = nat] by simp
  have of_b: "(of_nat ?b :: 1 word) = rng (31 - n) (31 - n) x" by simp
  have k: "Suc (31 - n) - (31 - n) = 1" "32 - n = Suc (31 - n)" "32 - Suc n = 31 - n" using Suc.prems by arith+
  have bit: "?b = unat x div 2 ^ (31 - n) mod 2"
    unfolding rng_def k unsigned_ucast_eq unsigned_take_bit_eq unsigned_drop_bit_eq
    using unsigned_less [of x, where ?'a = nat] by (simp add: take_bit_eq_mod drop_bit_eq_div)
  have u: "unat (drop_bit m x) = unat x div 2 ^ m" for m
    using unsigned_less [of x, where ?'a = nat] unfolding unsigned_drop_bit_eq
    by (simp add: drop_bit_eq_div take_bit_eq_mod)
  have "unat (drop_bit (31 - n) x) = 2 * unat (drop_bit (32 - n) x) + ?b"
    unfolding u bit k by (simp add: div_mult2_eq mult.commute [of 2])
  moreover have "bcdLoop x (Suc n) = bcdRound (of_nat ?b) (bcdLoop x n)"
    by (simp add: bcdLoop_def)
  ultimately show ?case
    using Suc by (simp add: bcdRound_cells [OF b] k del: word_of_nat_eq_0_iff of_nat_unat)
qed

section \<open>Properties\<close>

text \<open>The ASCII byte of a position, counted from the least significant.\<close>

definition asciiByte :: "80 word \<Rightarrow> nat \<Rightarrow> 8 word" where
  "asciiByte w k = rng (8 * k + 7) (8 * k) w"

lemma asciiByte_upd:
  assumes "k < 10" and "j < 10"
  shows "asciiByte (upd (8 * j + 3) (8 * j) (d :: 4 word) w) k =
    (if j = k then upd 3 0 d (asciiByte w k) else asciiByte w k)"
proof (cases "j = k")
  case True
  then show ?thesis
    using assms by (intro bit_word_eqI) (auto simp: asciiByte_def bit_simps)
next
  case False
  then have "8 * k + 7 < 8 * j \<or> 8 * j + 3 < 8 * k" by arith
  then show ?thesis using False by (simp add: asciiByte_def rng_upd_disjoint)
qed

lemma asciiByte_fold:
  assumes "k < 10"
  shows "m \<le> 10 \<Longrightarrow> asciiByte (foldl (\<lambda>w j. upd (8 * j + 3) (8 * j) (d j :: 4 word) w) w [0..<m]) k =
    (if k < m then upd 3 0 (d k) (asciiByte w k) else asciiByte w k)"
  by (induction m) (auto simp: asciiByte_upd assms)

lemma asciiByte_zeros: "k < 10 \<Longrightarrow> asciiByte 0x30303030303030303030 k = 0x30"
proof -
  assume "k < 10"
  then have "k = 0 \<or> k = 1 \<or> k = 2 \<or> k = 3 \<or> k = 4 \<or> k = 5 \<or> k = 6 \<or> k = 7 \<or> k = 8 \<or> k = 9" by arith
  then show ?thesis by (elim disjE) (simp_all add: asciiByte_def rng_def take_bit_eq_mod drop_bit_eq_div)
qed

lemma ascii_digit: "d < 10 \<Longrightarrow> upd 3 0 (of_nat d :: 4 word) (0x30 :: 8 word) = of_nat (48 + d)"
proof -
  assume "d < 10"
  then have "d = 0 \<or> d = 1 \<or> d = 2 \<or> d = 3 \<or> d = 4 \<or> d = 5 \<or> d = 6 \<or> d = 7 \<or> d = 8 \<or> d = 9" by arith
  then show ?thesis by (elim disjE) (simp_all add: upd_def mask_eq_exp_minus_1)
qed

lemma digits_sum: "n < 10 ^ m \<Longrightarrow> (\<Sum>k<m. digit n k * 10 ^ k) = n"
proof (induction m arbitrary: n)
  case (Suc m)
  have d: "digit n (Suc k) = digit (n div 10) k" for k by (simp add: digit_def div_mult2_eq)
  have "(\<Sum>k<Suc m. digit n k * 10 ^ k) = digit n 0 + 10 * (\<Sum>k<m. digit (n div 10) k * 10 ^ k)"
    by (subst sum.lessThan_Suc_shift) (simp add: d sum_distrib_left mult.left_commute)
  also have "\<dots> = n mod 10 + 10 * (n div 10)"
    using Suc by (simp add: digit_def less_mult_imp_div_less)
  finally show ?case by simp
qed simp

text \<open>\<^verbatim>\<open>uint32ToAscii\<close> gives the ten decimal digits of its argument as ASCII characters, most significant first: byte
  \<open>k\<close> counted from the least significant is the character of the digit of weight \<open>10 ^ k\<close>, and
  the digits add up to the argument.\<close>

theorem ascii_decimal:
  "(\<forall>k<10. asciiByte (uint32ToAscii x) k = of_nat (48 + digit (unat x) k)) \<and>
   (\<Sum>k<10. (unat (asciiByte (uint32ToAscii x) k) - 48) * 10 ^ k) = unat x"
proof -
  have b: "asciiByte (uint32ToAscii x) k = of_nat (48 + digit (unat x) k)" if k: "k < 10" for k
  proof -
    have "bcdDigit (bcdLoop x 32 ! k) = of_nat (digit (unat x) k)"
      using k by (simp add: bcdLoop_cells bcdCells_def cellOf_def)
    then show ?thesis
      using k ascii_digit [of "digit (unat x) k"]
      by (simp add: uint32ToAscii_def asciiByte_fold asciiByte_zeros)
  qed
  have u: "unat (asciiByte (uint32ToAscii x) k) - 48 = digit (unat x) k" if "k < 10" for k
  proof -
    have "48 + digit (unat x) k < 256" using digit_less [of "unat x" k] by linarith
    then have "unat (of_nat (48 + digit (unat x) k) :: 8 word) = 48 + digit (unat x) k"
      by (intro unat_of_nat_small) simp
    then show ?thesis by (simp only: b [OF that])
  qed
  have "unat x < 10 ^ 10" using unsigned_less [of x, where ?'a = nat] by simp
  then have "(\<Sum>k<10. digit (unat x) k * 10 ^ k) = unat x" by (rule digits_sum)
  moreover have "(\<Sum>k<10. (unat (asciiByte (uint32ToAscii x) k) - 48) * 10 ^ k) = (\<Sum>k<10. digit (unat x) k * 10 ^ k)"
    by (rule sum.cong) (simp_all add: u)
  ultimately show ?thesis using b by simp
qed

theorem ascii_decimal_witness: "asciiByte (uint32ToAscii 905) 2 = 57"
  using ascii_decimal [of 905] by (simp add: digit_def)

end
