(* ===== verification/Order_Message.thy ===== *)
theory Order_Message
  imports Order_Ascii
begin

text \<open>
  The egress message of \<^verbatim>\<open>hw/orderEntry/orderentry.hpp\<close> and the field update and partial
  checksum of \<^verbatim>\<open>OrderEntry::operationProcessTcp\<close> in \<^verbatim>\<open>orderentry.cpp\<close>.

  The message is 32 frames of eight bytes, most significant byte first on the wire.  Its fixed part is the
  template; the fields are order id (twice), timestamp, quantity and price.  \<open>onesSum\<close> is the one's
  complement sum of RFC 1071 on natural numbers.
\<close>

definition messageTemplateSum :: "16 word" where
  "messageTemplateSum = 0x1b65"

definition messageTemplate :: "64 word list" where
  "messageTemplate =
     [0x383d4649582e342e, 0x325e393d3133355e, 0x33353d445e33343d, 0x0000000000000000,
      0x00005e34393d4142, 0x433132334e5e3530, 0x3d58465f46494e54, 0x4543485e35323d32,
      0x303139303832382d, 0x0000000000000000, 0x5e35363d434d455e, 0x35373d475e313432,
      0x3d49455e5e33353d, 0x445e313d584c4e58, 0x3132333435363738, 0x5e31313d00000000,
      0x0000000000005e33, 0x383d000000000000, 0x000000005e34303d, 0x325e34343d000000,
      0x000000000000005e, 0x35343d315e35353d, 0x584c4e585e36303d, 0x3230313930383238,
      0x2d31303a31313a31, 0x325e313032383d4e, 0x5e3130373d43455a, 0x392043393337355e,
      0x3230343d305e3937, 0x30323d315e5e3130, 0x3d43484b2e2e2e2e, 0x2e2e2e2e2e2e2e2e]"

definition fillTemplate :: "orderEntryOperationEncode \<Rightarrow> 64 word list \<Rightarrow> 64 word list" where
  "fillTemplate op t =
     (let t = t[3 := upd 63 0 (rng 79 16 (oee_orderId op) :: 64 word) (t ! 3)];
          t = t[4 := upd 63 48 (rng 15 0 (oee_orderId op) :: 16 word) (t ! 4)];
          t = t[9 := upd 63 0 (oee_timestamp op) (t ! 9)];
          t = t[15 := upd 31 0 (rng 79 48 (oee_orderId op) :: 32 word) (t ! 15)];
          t = t[16 := upd 63 16 (rng 47 0 (oee_orderId op) :: 48 word) (t ! 16)];
          t = t[17 := upd 47 0 (rng 79 32 (oee_quantity op) :: 48 word) (t ! 17)];
          t = t[18 := upd 63 32 (rng 31 0 (oee_quantity op) :: 32 word) (t ! 18)];
          t = t[19 := upd 23 0 (rng 79 56 (oee_price op) :: 24 word) (t ! 19)];
          t = t[20 := upd 63 8 (rng 55 0 (oee_price op) :: 56 word) (t ! 20)]
      in t)"

text \<open>\<^verbatim>\<open>sum += x; sum = (sum + (sum >> 16)) & 0xFFFF\<close> on 24-bit sums.\<close>

definition addFold :: "24 word \<Rightarrow> 16 word \<Rightarrow> 24 word" where
  "addFold s x = (let s = s + ucast x in (s + drop_bit 16 s) AND 0xFFFF)"

definition timestampSum :: "64 word \<Rightarrow> 24 word" where
  "timestampSum ts =
     addFold (addFold (addFold (ucast (rng 15 0 ts :: 16 word)) (rng 31 16 ts)) (rng 47 32 ts)) (rng 63 48 ts)"

definition digitsSum :: "80 word \<Rightarrow> 24 word" where
  "digitsSum w =
     addFold (addFold (addFold (addFold (ucast (rng 15 0 w :: 16 word)) (rng 31 16 w)) (rng 47 32 w)) (rng 63 48 w))
       (rng 79 64 w)"

definition priceSum :: "80 word \<Rightarrow> 24 word" where
  "priceSum w =
     addFold (addFold (addFold (addFold (addFold (push_bit 8 (ucast (rng 7 0 w :: 8 word))) (rng 23 8 w)) (rng 39 24 w))
       (rng 55 40 w)) (rng 71 56 w)) (rng 79 72 w)"

definition mergeSum :: "24 word \<Rightarrow> 24 word \<Rightarrow> 24 word" where
  "mergeSum s x = (let s = s + x in (s + drop_bit 16 s) AND 0xFFFF)"

definition messageSum :: "orderEntryOperationEncode \<Rightarrow> 24 word" where
  "messageSum op =
     (let orderIdSum = digitsSum (oee_orderId op)
      in mergeSum (mergeSum (mergeSum (mergeSum (mergeSum (ucast messageTemplateSum) orderIdSum)
           (timestampSum (oee_timestamp op))) orderIdSum) (digitsSum (oee_quantity op))) (priceSum (oee_price op)))"

section \<open>One's complement sums\<close>

text \<open>The representative in \<open>0..65535\<close> that end-around carries give: zero only for zero.\<close>

definition onesSum :: "nat \<Rightarrow> nat" where
  "onesSum n = (if n = 0 then 0 else 1 + (n - 1) mod 65535)"

lemma onesSum_0 [simp]: "onesSum 0 = 0"
  by (simp add: onesSum_def)

lemma onesSum_le [simp]: "onesSum n \<le> 65535"
proof -
  have "(n - 1) mod 65535 < 65535" by (rule mod_less_divisor) simp
  then show ?thesis unfolding onesSum_def by (cases "n = 0") simp_all
qed

lemma onesSum_mod: "onesSum n mod 65535 = n mod 65535"
proof (cases n)
  case (Suc m)
  then show ?thesis by (simp add: onesSum_def) (metis mod_Suc_eq)
qed simp

lemma onesSum_0_iff: "onesSum n = 0 \<longleftrightarrow> n = 0"
  by (simp add: onesSum_def)

lemma onesSum_eqI: "m mod 65535 = n mod 65535 \<Longrightarrow> (m = 0 \<longleftrightarrow> n = 0) \<Longrightarrow> onesSum m = onesSum n"
proof -
  assume eq: "m mod 65535 = n mod 65535" and z: "m = 0 \<longleftrightarrow> n = 0"
  have "(m - 1) mod 65535 = (n - 1) mod 65535" if "0 < m" "0 < n"
  proof -
    have "(Suc (m - 1)) mod 65535 = Suc (n - 1) mod 65535" using eq that by simp
    then show ?thesis by (simp add: mod_Suc split: if_splits) 
  qed
  then show ?thesis using z by (auto simp: onesSum_def)
qed

lemma onesSum_add: "onesSum (onesSum m + n) = onesSum (m + n)" "onesSum (n + onesSum m) = onesSum (n + m)"
proof -
  have "(onesSum m + n) mod 65535 = (m + n) mod 65535"
    by (metis mod_add_left_eq onesSum_mod)
  then show 1: "onesSum (onesSum m + n) = onesSum (m + n)"
    by (rule onesSum_eqI) (simp add: onesSum_0_iff)
  then show "onesSum (n + onesSum m) = onesSum (n + m)" by (simp add: add.commute)
qed

lemma mergeSum_ones:
  assumes "unat s \<le> 65535" and "unat x \<le> 65535"
  shows "unat (mergeSum s x) = onesSum (unat s + unat x)"
proof -
  let ?t = "unat s + unat x"
  have t: "?t \<le> 131070" using assms by simp
  have u: "unat (s + x) = ?t" using t by (simp add: unat_word_ariths)
  have d: "unat (drop_bit 16 (s + x)) = ?t div 65536"
    using t unfolding unsigned_drop_bit_eq u by (simp add: drop_bit_eq_div take_bit_eq_mod)
  have q: "?t div 65536 \<le> 1" using t by (simp add: div_le_mono [of ?t 131070 65536, simplified])
  have "unat (s + x + drop_bit 16 (s + x)) = ?t + ?t div 65536"
    using t q by (simp only: unat_word_ariths(1) [of "s + x"] u d) simp
  moreover have "a AND 0xFFFF = take_bit 16 a" for a :: "24 word"
    by (simp add: take_bit_eq_mask mask_eq_exp_minus_1)
  ultimately have "unat (mergeSum s x) = (?t + ?t div 65536) mod 65536"
    unfolding mergeSum_def Let_def by (simp only: unsigned_take_bit_eq) (simp add: take_bit_eq_mod)
  also have "\<dots> = onesSum ?t"
  proof (cases "?t < 65536")
    case True
    then show ?thesis by (simp add: onesSum_def)
  next
    case False
    define r where "r = ?t - 65536"
    have r: "?t = 65536 + r" "r < 65535" using t False by (auto simp: r_def)
    have "(65536 + r) div 65536 = 1" using r(2) by (simp add: div_add_self1)
    moreover have "(65536 + r + 1) mod 65536 = Suc r"
      using r(2) mod_add_self1 [of 65536 "Suc r"] by simp
    ultimately show ?thesis using r(2) by (simp add: onesSum_def r(1))
  qed
  finally show ?thesis .
qed

lemma addFold_merge: "addFold s x = mergeSum s (ucast x)"
  by (simp add: addFold_def mergeSum_def)

lemma unat_ucast16 [simp]: "unat (ucast (x :: 16 word) :: 24 word) = unat x"
  using unsigned_less [of x, where ?'a = nat] by (simp add: unsigned_ucast_eq take_bit_nat_eq_self)

lemma unat16_le [simp]: "unat (x :: 16 word) \<le> 65535"
  using unsigned_less [of x, where ?'a = nat] by simp

lemma addFold_ones: "unat s \<le> 65535 \<Longrightarrow> unat (addFold s x) = onesSum (unat s + unat x)"
  by (simp add: addFold_merge mergeSum_ones)

section \<open>The message on the wire\<close>

definition byteReverse :: "64 word \<Rightarrow> 64 word" where
  "byteReverse inputData =
     upd 63 56 (rng 7 0 inputData :: 8 word) (
     upd 55 48 (rng 15 8 inputData :: 8 word) (
     upd 47 40 (rng 23 16 inputData :: 8 word) (
     upd 39 32 (rng 31 24 inputData :: 8 word) (
     upd 31 24 (rng 39 32 inputData :: 8 word) (
     upd 23 16 (rng 47 40 inputData :: 8 word) (
     upd 15 8 (rng 55 48 inputData :: 8 word) (
     upd 7 0 (rng 63 56 inputData :: 8 word) 0)))))))"

text \<open>The 16-bit words of a frame in the order in which they are sent: a stream word carries its first byte in its
  lowest bits.\<close>

definition wireWord :: "64 word \<Rightarrow> nat \<Rightarrow> nat" where
  "wireWord w i = 256 * unat (rng (16 * i + 7) (16 * i) w :: 8 word) + unat (rng (16 * i + 15) (16 * i + 8) w :: 8 word)"

definition wireSum :: "64 word \<Rightarrow> nat" where
  "wireSum w = wireWord w 0 + wireWord w 1 + wireWord w 2 + wireWord w 3"

definition frameSum :: "64 word \<Rightarrow> nat" where
  "frameSum f = unat (rng 63 48 f :: 16 word) + unat (rng 47 32 f :: 16 word)
     + unat (rng 31 16 f :: 16 word) + unat (rng 15 0 f :: 16 word)"

lemma two_bytes: "unat (push_bit 8 (ucast (a :: 8 word)) OR ucast (b :: 8 word) :: 16 word) = 256 * unat a + unat b"
proof -
  have ab: "unat a < 256" "unat b < 256"
    using unsigned_less [of a, where ?'a = nat] unsigned_less [of b, where ?'a = nat] by simp_all
  have "push_bit 8 (ucast a) OR ucast b = (push_bit 8 (ucast a) + ucast b :: 16 word)"
    by (rule disjunctive_add [symmetric]) (auto simp: bit_simps dest: bit_imp_le_length)
  also have "unat \<dots> = 256 * unat a + unat b"
    using ab by (simp add: push_bit_eq_mult unat_word_ariths unsigned_ucast_eq take_bit_nat_eq_self)
  finally show ?thesis .
qed

lemma rng16_octets:
  fixes f :: "64 word"
  shows "(rng (16 * i + 15) (16 * i) f :: 16 word) =
    push_bit 8 (ucast (rng (16 * i + 15) (16 * i + 8) f :: 8 word)) OR ucast (rng (16 * i + 7) (16 * i) f :: 8 word)"
  by (rule bit_word_eqI) (auto simp: bit_simps)

lemma unat_rng16:
  "unat (rng (16 * i + 15) (16 * i) (f :: 64 word) :: 16 word) =
     256 * unat (rng (16 * i + 15) (16 * i + 8) f :: 8 word) + unat (rng (16 * i + 7) (16 * i) f :: 8 word)"
  unfolding rng16_octets two_bytes ..

lemma wireSum_byteReverse: "wireSum (byteReverse f) = frameSum f"
  using unat_rng16 [of 0 f] unat_rng16 [of 1 f] unat_rng16 [of 2 f] unat_rng16 [of 3 f]
  by (simp add: wireSum_def wireWord_def frameSum_def byteReverse_def rng_simps)

section \<open>The checksum is that of the message\<close>

definition templateOk :: "64 word list \<Rightarrow> bool" where
  "templateOk t \<longleftrightarrow> length t = 32 \<and> (\<forall>op. fillTemplate op t = fillTemplate op messageTemplate)"

lemma upd_upd: "upd hi lo (v :: 'b::len word) (upd hi lo (u :: 'b word) w) = upd hi lo v w"
  by (rule bit_word_eqI) (simp add: bit_simps)

lemma length_fillTemplate [simp]: "length (fillTemplate op t) = length t"
  by (simp add: fillTemplate_def Let_def)

lemma nth_fillTemplate:
  assumes "length t = 32"
  shows "fillTemplate op t ! i =
    (if i = 3 then upd 63 0 (rng 79 16 (oee_orderId op) :: 64 word) (t ! i)
     else if i = 4 then upd 63 48 (rng 15 0 (oee_orderId op) :: 16 word) (t ! i)
     else if i = 9 then upd 63 0 (oee_timestamp op) (t ! i)
     else if i = 15 then upd 31 0 (rng 79 48 (oee_orderId op) :: 32 word) (t ! i)
     else if i = 16 then upd 63 16 (rng 47 0 (oee_orderId op) :: 48 word) (t ! i)
     else if i = 17 then upd 47 0 (rng 79 32 (oee_quantity op) :: 48 word) (t ! i)
     else if i = 18 then upd 63 32 (rng 31 0 (oee_quantity op) :: 32 word) (t ! i)
     else if i = 19 then upd 23 0 (rng 79 56 (oee_price op) :: 24 word) (t ! i)
     else if i = 20 then upd 63 8 (rng 55 0 (oee_price op) :: 56 word) (t ! i)
     else t ! i)"
  using assms by (simp add: fillTemplate_def Let_def nth_list_update)

lemma fillTemplate_overwrites:
  assumes "length t = 32"
  shows "fillTemplate op (fillTemplate op' t) = fillTemplate op t"
proof (rule nth_equalityI)
  fix i
  show "fillTemplate op (fillTemplate op' t) ! i = fillTemplate op t ! i"
    using assms by (simp add: nth_fillTemplate upd_upd)
qed simp

lemma length_messageTemplate [simp]: "length messageTemplate = 32"
  by (simp add: messageTemplate_def)

lemma templateOk_init [simp]: "templateOk messageTemplate"
  by (simp add: templateOk_def)

lemma templateOk_fill: "templateOk t \<Longrightarrow> templateOk (fillTemplate op t)"
  by (simp add: templateOk_def fillTemplate_overwrites)

definition fieldSum80 :: "80 word \<Rightarrow> nat" where
  "fieldSum80 w = unat (rng 15 0 w :: 16 word) + unat (rng 31 16 w :: 16 word) + unat (rng 47 32 w :: 16 word)
     + unat (rng 63 48 w :: 16 word) + unat (rng 79 64 w :: 16 word)"

definition priceFieldSum :: "80 word \<Rightarrow> nat" where
  "priceFieldSum w = 256 * unat (rng 7 0 w :: 8 word) + unat (rng 23 8 w :: 16 word) + unat (rng 39 24 w :: 16 word)
     + unat (rng 55 40 w :: 16 word) + unat (rng 71 56 w :: 16 word) + unat (rng 79 72 w :: 8 word)"

lemma digitsSum_ones: "unat (digitsSum w) = onesSum (fieldSum80 w)"
  by (simp add: digitsSum_def fieldSum80_def addFold_ones onesSum_add)

lemma timestampSum_ones: "unat (timestampSum ts) = onesSum (frameSum ts)"
  by (simp add: timestampSum_def frameSum_def addFold_ones onesSum_add add.commute add.left_commute)

lemma priceSum_ones: "unat (priceSum w) = onesSum (priceFieldSum w)"
proof -
  have l: "unat (rng 7 0 w :: 8 word) < 256" using unsigned_less [of "rng 7 0 w :: 8 word", where ?'a = nat] by simp
  then have p: "unat (push_bit 8 (ucast (rng 7 0 w :: 8 word)) :: 24 word) = 256 * unat (rng 7 0 w :: 8 word)"
    by (simp add: push_bit_eq_mult unat_word_ariths unsigned_ucast_eq take_bit_nat_eq_self)
  have "(rng 79 72 w :: 16 word) = ucast (rng 79 72 w :: 8 word)" by (rule bit_word_eqI) (auto simp: bit_simps)
  then have t: "unat (rng 79 72 w :: 16 word) = unat (rng 79 72 w :: 8 word)"
    using unsigned_less [of "rng 79 72 w :: 8 word", where ?'a = nat]
    by (simp add: unsigned_ucast_eq take_bit_nat_eq_self)
  show ?thesis using l by (simp add: priceSum_def priceFieldSum_def addFold_ones onesSum_add p t)
qed

lemma messageSum_ones:
  "unat (messageSum op) = onesSum (0x1b65 + 2 * fieldSum80 (oee_orderId op) + frameSum (oee_timestamp op)
     + fieldSum80 (oee_quantity op) + priceFieldSum (oee_price op))"
proof -
  have "unat messageTemplateSum = 0x1b65" by (simp add: messageTemplateSum_def)
  then have "unat (messageSum op) = onesSum (0x1b65 + fieldSum80 (oee_orderId op) + frameSum (oee_timestamp op)
      + fieldSum80 (oee_orderId op) + fieldSum80 (oee_quantity op) + priceFieldSum (oee_price op))"
    by (simp add: messageSum_def Let_def mergeSum_ones digitsSum_ones timestampSum_ones priceSum_ones onesSum_add)
  also have "\<dots> = onesSum (0x1b65 + 2 * fieldSum80 (oee_orderId op) + frameSum (oee_timestamp op)
     + fieldSum80 (oee_quantity op) + priceFieldSum (oee_price op))"
    by (rule arg_cong [where f = onesSum]) arith
  finally show ?thesis .
qed

lemma frameSum_field:
  "frameSum (rng 79 16 (w :: 80 word) :: 64 word) + unat (rng 15 0 w :: 16 word) = fieldSum80 w"
  by (simp add: frameSum_def fieldSum80_def rng_simps)

lemma frameSum_3: "frameSum (upd 63 0 (v :: 64 word) w) = frameSum v"
  by (simp add: frameSum_def rng_upd_inside)

lemma frameSum_4: "frameSum (upd 63 48 (v :: 16 word) 0x00005e34393d4142) = unat v + frameSum 0x00005e34393d4142"
  by (simp add: frameSum_def rng_simps) (simp add: rng_def take_bit_eq_mod drop_bit_eq_div)

lemmas const_frame = rng_def take_bit_eq_mod drop_bit_eq_div

lemma frameSum_15: "frameSum (upd 31 0 (v :: 32 word) 0x5e31313d00000000) =
    frameSum 0x5e31313d00000000 + unat (rng 31 16 v :: 16 word) + unat (rng 15 0 v :: 16 word)"
  by (simp add: frameSum_def rng_upd_inside rng_upd_disjoint) (simp add: const_frame)

lemma frameSum_16: "frameSum (upd 63 16 (v :: 48 word) 0x0000000000005e33) =
    frameSum 0x0000000000005e33 + unat (rng 47 32 v :: 16 word) + unat (rng 31 16 v :: 16 word) + unat (rng 15 0 v :: 16 word)"
  by (simp add: frameSum_def rng_upd_inside rng_upd_disjoint) (simp add: const_frame)

lemma frameSum_17: "frameSum (upd 47 0 (v :: 48 word) 0x383d000000000000) =
    frameSum 0x383d000000000000 + unat (rng 47 32 v :: 16 word) + unat (rng 31 16 v :: 16 word) + unat (rng 15 0 v :: 16 word)"
  by (simp add: frameSum_def rng_upd_inside rng_upd_disjoint) (simp add: const_frame)

lemma frameSum_18: "frameSum (upd 63 32 (v :: 32 word) 0x000000005e34303d) =
    frameSum 0x000000005e34303d + unat (rng 31 16 v :: 16 word) + unat (rng 15 0 v :: 16 word)"
  by (simp add: frameSum_def rng_upd_inside rng_upd_disjoint) (simp add: const_frame)

text \<open>The price starts and ends in the middle of a 16-bit word.\<close>

lemma frameSum_19: "frameSum (upd 23 0 (v :: 24 word) 0x325e34343d000000) =
    frameSum 0x325e34343d000000 + unat (rng 23 16 v :: 8 word) + unat (rng 15 0 v :: 16 word)"
  using unat_rng16 [of 1 "upd 23 0 v 0x325e34343d000000"]
  by (simp add: frameSum_def rng_upd_inside rng_upd_disjoint) (simp add: const_frame)

lemma frameSum_20: "frameSum (upd 63 8 (v :: 56 word) 0x000000000000005e) =
    frameSum 0x000000000000005e + unat (rng 55 40 v :: 16 word) + unat (rng 39 24 v :: 16 word)
      + unat (rng 23 8 v :: 16 word) + 256 * unat (rng 7 0 v :: 8 word)"
  using unat_rng16 [of 0 "upd 63 8 v 0x000000000000005e"]
  by (simp add: frameSum_def rng_upd_inside rng_upd_disjoint) (simp add: const_frame)

lemmas frameSum_filled = frameSum_3 frameSum_4 frameSum_15 frameSum_16 frameSum_17 frameSum_18 frameSum_19 frameSum_20

lemma fillTemplate_messageTemplate:
  "fillTemplate op messageTemplate =
     [0x383d4649582e342e, 0x325e393d3133355e, 0x33353d445e33343d,
      upd 63 0 (rng 79 16 (oee_orderId op) :: 64 word) 0,
      upd 63 48 (rng 15 0 (oee_orderId op) :: 16 word) 0x00005e34393d4142, 0x433132334e5e3530,
      0x3d58465f46494e54, 0x4543485e35323d32, 0x303139303832382d, upd 63 0 (oee_timestamp op) 0,
      0x5e35363d434d455e, 0x35373d475e313432, 0x3d49455e5e33353d, 0x445e313d584c4e58, 0x3132333435363738,
      upd 31 0 (rng 79 48 (oee_orderId op) :: 32 word) 0x5e31313d00000000,
      upd 63 16 (rng 47 0 (oee_orderId op) :: 48 word) 0x0000000000005e33,
      upd 47 0 (rng 79 32 (oee_quantity op) :: 48 word) 0x383d000000000000,
      upd 63 32 (rng 31 0 (oee_quantity op) :: 32 word) 0x000000005e34303d,
      upd 23 0 (rng 79 56 (oee_price op) :: 24 word) 0x325e34343d000000,
      upd 63 8 (rng 55 0 (oee_price op) :: 56 word) 0x000000000000005e,
      0x35343d315e35353d, 0x584c4e585e36303d, 0x3230313930383238, 0x2d31303a31313a31, 0x325e313032383d4e,
      0x5e3130373d43455a, 0x392043393337355e, 0x3230343d305e3937, 0x30323d315e5e3130, 0x3d43484b2e2e2e2e,
      0x2e2e2e2e2e2e2e2e]"
  by (simp add: fillTemplate_def messageTemplate_def Let_def)

lemma templateSum: "onesSum (sum_list (map frameSum messageTemplate)) = 0x1b65"
  by (simp add: messageTemplate_def frameSum_def const_frame onesSum_def)

lemma fieldSum_split:
  "fieldSum80 w = frameSum (rng 79 16 w :: 64 word) + unat (rng 15 0 w :: 16 word)"
  "fieldSum80 w = unat (rng 31 16 (rng 79 48 w :: 32 word) :: 16 word) + unat (rng 15 0 (rng 79 48 w :: 32 word) :: 16 word)
     + unat (rng 47 32 w :: 16 word) + unat (rng 31 16 w :: 16 word) + unat (rng 15 0 w :: 16 word)"
  by (simp_all add: frameSum_def fieldSum80_def rng_simps)

lemma messageFrames_sum:
  "sum_list (map frameSum (fillTemplate op messageTemplate)) =
     sum_list (map frameSum messageTemplate) + (2 * fieldSum80 (oee_orderId op) + frameSum (oee_timestamp op)
     + fieldSum80 (oee_quantity op) + priceFieldSum (oee_price op))"
proof -
  have z: "frameSum 0 = 0" by (simp add: frameSum_def)
  have o: "2 * fieldSum80 w = (frameSum (rng 79 16 w :: 64 word) + unat (rng 15 0 w :: 16 word)) +
     (unat (rng 79 64 w :: 16 word) + unat (rng 63 48 w :: 16 word)
     + unat (rng 47 32 w :: 16 word) + unat (rng 31 16 w :: 16 word) + unat (rng 15 0 w :: 16 word))" for w
    using fieldSum_split [of w] by (simp add: rng_simps)
  show ?thesis
    unfolding fillTemplate_messageTemplate o
    by (simp add: frameSum_filled z messageTemplate_def rng_simps fieldSum80_def priceFieldSum_def)
qed

text \<open>C16: the partial checksum sent with the message is the one's complement sum of the 128 network-order 16-bit words that
  are then sent, for every operation and every earlier content of the template fields.\<close>

theorem message_checksum:
  assumes "templateOk t"
  shows "unat (messageSum op) = onesSum (sum_list (map (wireSum \<circ> byteReverse) (fillTemplate op t)))"
proof -
  have "sum_list (map (wireSum \<circ> byteReverse) (fillTemplate op t)) = sum_list (map frameSum (fillTemplate op messageTemplate))"
    using assms by (simp add: templateOk_def wireSum_byteReverse comp_def)
  then have "onesSum (sum_list (map (wireSum \<circ> byteReverse) (fillTemplate op t))) =
      onesSum (onesSum (sum_list (map frameSum messageTemplate)) + (2 * fieldSum80 (oee_orderId op)
        + frameSum (oee_timestamp op) + fieldSum80 (oee_quantity op) + priceFieldSum (oee_price op)))"
    by (simp only: messageFrames_sum onesSum_add)
  then show ?thesis by (simp add: templateSum messageSum_ones add.assoc)
qed

definition sampleEncode :: orderEntryOperationEncode where
  "sampleEncode = \<lparr>oee_timestamp = 77, oee_opCode = 0, oee_symbolIndex = 2, oee_orderId = uint32ToAscii 1,
     oee_quantity = uint32ToAscii 1000, oee_price = uint32ToAscii 5050, oee_direction = 0\<rparr>"

theorem message_checksum_witness:
  "unat (messageSum sampleEncode) =
     onesSum (sum_list (map (wireSum \<circ> byteReverse) (fillTemplate sampleEncode messageTemplate)))"
  by (rule message_checksum) simp

end
