(* ===== verification/Order_Entry.thy ===== *)
theory Order_Entry
  imports Order_Message
begin

text \<open>
  \<^verbatim>\<open>hw/orderEntry/orderentry.cpp\<close> and \<^verbatim>\<open>orderentry_tcp_top.cpp\<close>: the kernel that sends orders
  over a TCP session of the network kernel.

  The private member \<^verbatim>\<open>mConnectionStatus\<close> and the statics of \<^verbatim>\<open>openActivePortTcp\<close> are the
  record \<open>connection\<close>; the message template is a list of 32 frames that every operation overwrites in
  place.  An element of a packed stream with side-band fields is an \<open>axiu\<close>; \<^verbatim>\<open>strb\<close> is never read.
  Bits of a local pack that the code leaves without a value are read as zero.
\<close>

record ('d, 'k) axiu =
  au_data :: 'd
  au_keep :: 'k
  au_last :: bool

datatype conState = IDLE | INIT_CON | WAIT_CON | ACTIVE_CON

record orderEntryRegControl =
  oec_control :: "32 word"
  oec_capture :: "32 word"
  oec_destAddress :: "32 word"
  oec_destPort :: "32 word"

record connectionStatus =
  con_connected :: "1 word"
  con_length :: "16 word"
  con_space :: "30 word"
  con_error :: "2 word"
  con_sessionID :: "16 word"

record connection =
  cn_state :: conState
  cn_connectionStatus :: ipTcpConnectionStatus
  cn_status :: connectionStatus
  cn_countDebug :: "32 word"
  cn_mConnectionStatus :: connectionStatus
  cn_openConnectionStream :: "(64 word, 8 word) axiu hls_stream"
  cn_connectionStatusStream :: "32 word hls_stream"
  cn_closeConnectionStream :: "(16 word, 2 word) axiu hls_stream"
  cn_txStatusStream :: "64 word hls_stream"

definition connectBit :: "32 word \<Rightarrow> bool" where
  "connectBit control \<longleftrightarrow> bit control 3"

definition debugMark :: "32 word \<Rightarrow> connection \<Rightarrow> connection" where
  "debugMark m c = c\<lparr>cn_countDebug := cn_countDebug c OR m\<rparr>"

definition readTxStatus :: "connection \<Rightarrow> connection" where
  "readTxStatus c =
     (if \<not> s_empty (cn_txStatusStream c)
      then (let txStatus = ipTcpTxStatusStreamUnpack (s_head (cn_txStatusStream c))
            in c\<lparr>cn_txStatusStream := s_rest (cn_txStatusStream c),
                 cn_status := (cn_status c)\<lparr>con_length := txs_length txStatus, con_space := txs_space txStatus,
                                            con_error := txs_error txStatus\<rparr>\<rparr>)
      else c)"

definition dropStatus :: "connectionStatus \<Rightarrow> connectionStatus" where
  "dropStatus s = s\<lparr>con_connected := 0, con_length := 0, con_space := 0, con_error := TXSTATUS_CLOSED\<rparr>"

definition requestConnection :: "orderEntryRegControl \<Rightarrow> connection \<Rightarrow> connection" where
  "requestConnection ctl c =
     (let tuple = \<lparr>ipt_address = oec_destAddress ctl, ipt_port = ucast (oec_destPort ctl)\<rparr>
      in (debugMark 0x00000020 c)
           \<lparr>cn_openConnectionStream := s_write (cn_openConnectionStream c)
              \<lparr>au_data = ipTuplePack_fn tuple 0, au_keep = 0x3F, au_last = True\<rparr>,
            cn_state := WAIT_CON\<rparr>)"

definition awaitConnection :: "orderEntryRegControl \<Rightarrow> connection \<Rightarrow> connection" where
  "awaitConnection ctl c =
     (let c = debugMark 0x00000300 c;
          c = (if \<not> s_empty (cn_connectionStatusStream c)
            then (let c = debugMark 0x00004000 c;
                      connectionStatus = ipTcpConnectionStatusUnpack (s_head (cn_connectionStatusStream c));
                      c = c\<lparr>cn_connectionStatusStream := s_rest (cn_connectionStatusStream c),
                            cn_connectionStatus := connectionStatus\<rparr>
                  in if cst_success connectionStatus \<noteq> 0
                     then (debugMark 0x00050000 c)
                       \<lparr>cn_state := ACTIVE_CON,
                        cn_status := \<lparr>con_connected = 1, con_length = 0, con_space = 0xffff,
                                      con_error = TXSTATUS_SUCCESS, con_sessionID = cst_sessionID connectionStatus\<rparr>\<rparr>
                     else c)
            else c)
      in if \<not> connectBit (oec_control ctl)
         then (debugMark 0x00700000 c)\<lparr>cn_state := IDLE, cn_status := dropStatus (cn_status c)\<rparr>
         else c)"

definition holdConnection :: "orderEntryRegControl \<Rightarrow> connection \<Rightarrow> connection" where
  "holdConnection ctl c =
     (let c = debugMark 0x00600000 c
      in if \<not> connectBit (oec_control ctl)
         then (debugMark 0x07000000 c)
           \<lparr>cn_closeConnectionStream := s_write (cn_closeConnectionStream c)
              \<lparr>au_data = cst_sessionID (cn_connectionStatus c), au_keep = 0x3, au_last = True\<rparr>,
            cn_state := IDLE, cn_status := dropStatus (cn_status c)\<rparr>
         else c)"

definition openActivePortTcp :: "orderEntryRegControl \<Rightarrow> connection \<Rightarrow> connection" where
  "openActivePortTcp ctl c =
     (let c = readTxStatus c;
          c = (case cn_state c of
            IDLE \<Rightarrow> if connectBit (oec_control ctl)
                     then (debugMark 0x00000001 c)\<lparr>cn_state := INIT_CON\<rparr> else c
          | INIT_CON \<Rightarrow> requestConnection ctl c
          | WAIT_CON \<Rightarrow> awaitConnection ctl c
          | ACTIVE_CON \<Rightarrow> holdConnection ctl c)
      in c\<lparr>cn_mConnectionStatus := cn_status c\<rparr>)"

section \<open>Listening, notifications and incoming data\<close>

record listenPort =
  lp_state :: "2 word"
  lp_listenPortStream :: "(16 word, 2 word) axiu hls_stream"
  lp_listenStatusStream :: "1 word hls_stream"

definition openListenPortTcp :: "listenPort \<Rightarrow> listenPort" where
  "openListenPortTcp l =
     (if lp_state l = 0
      then l\<lparr>lp_listenPortStream := s_write (lp_listenPortStream l) \<lparr>au_data = 7, au_keep = 0x3, au_last = True\<rparr>,
             lp_state := 1\<rparr>
      else if lp_state l = 1
      then (if \<not> s_empty (lp_listenStatusStream l)
            then l\<lparr>lp_listenStatusStream := s_rest (lp_listenStatusStream l),
                   lp_state := (if s_head (lp_listenStatusStream l) = 1 then 2 else 0)\<rparr>
            else l)
      else l)"

record notifier =
  nh_countNotification :: "32 word"
  nh_countReadRequest :: "32 word"
  nh_notificationStream :: "128 word hls_stream"
  nh_readRequestStream :: "(32 word, 4 word) axiu hls_stream"
  nh_regNotification :: "32 word"
  nh_regReadRequest :: "32 word"

definition notificationHandlerTcp :: "notifier \<Rightarrow> notifier" where
  "notificationHandlerTcp h =
     (let h = (if \<not> s_empty (nh_notificationStream h)
        then (let notification = ipTcpNotificationUnpack (s_head (nh_notificationStream h));
                  h = h\<lparr>nh_notificationStream := s_rest (nh_notificationStream h),
                        nh_countNotification := nh_countNotification h + 1\<rparr>
              in if ntf_length notification \<noteq> 0
                 then (let readRequest = \<lparr>rrq_sessionID = ntf_sessionID notification, rrq_length = ntf_length notification\<rparr>
                       in h\<lparr>nh_readRequestStream := s_write (nh_readRequestStream h)
                              \<lparr>au_data = ipTcpReadRequestPack_fn readRequest 0, au_keep = ucast (0x3F :: 32 word),
                               au_last = True\<rparr>,
                            nh_countReadRequest := nh_countReadRequest h + 1\<rparr>)
                 else h)
        else h)
      in h\<lparr>nh_regNotification := nh_countNotification h, nh_regReadRequest := nh_countReadRequest h\<rparr>)"

record server =
  sv_state :: "1 word"
  sv_countRxData :: "32 word"
  sv_countRxMeta :: "32 word"
  sv_rxMetaStream :: "16 word hls_stream"
  sv_rxDataStream :: "axiWord hls_stream"
  sv_regRxData :: "32 word"
  sv_regRxMeta :: "32 word"

definition serverProcessTcp :: "server \<Rightarrow> server" where
  "serverProcessTcp v =
     (let v = (if sv_state v = 0
        then (if \<not> s_empty (sv_rxMetaStream v)
              then v\<lparr>sv_rxMetaStream := s_rest (sv_rxMetaStream v), sv_countRxMeta := sv_countRxMeta v + 1, sv_state := 1\<rparr>
              else v)
        else (if \<not> s_empty (sv_rxDataStream v)
              then (let currWord = s_head (sv_rxDataStream v)
                    in v\<lparr>sv_rxDataStream := s_rest (sv_rxDataStream v), sv_countRxData := sv_countRxData v + 1,
                         sv_state := (if ax_last currWord then 0 else sv_state v)\<rparr>)
              else v))
      in v\<lparr>sv_regRxData := sv_countRxData v, sv_regRxMeta := sv_countRxMeta v\<rparr>)"

section \<open>Orders\<close>

record orderCounts =
  oc_processOperation :: "32 word"
  oc_txOrder :: "32 word"
  oc_txData :: "32 word"
  oc_txMeta :: "32 word"
  oc_txDrop :: "32 word"
  oc_debug :: "32 word"

record orderSender =
  os_template :: "64 word list"
  os_counts :: orderCounts
  os_regCounts :: orderCounts
  os_regTxStatus :: "32 word"
  os_regCaptureBuffer :: "1024 word"
  os_operationEncodeStream :: "orderEntryOperationEncode hls_stream"
  os_txMetaStream :: "(64 word, 8 word) axiu hls_stream"
  os_txDataStream :: "axiWord hls_stream"

definition OE_MSG_LEN_BYTES :: nat where "OE_MSG_LEN_BYTES = 256"
definition OE_MSG_NUM_FRAME :: nat where "OE_MSG_NUM_FRAME = 32"

definition operationEncode :: "orderEntryOperation \<Rightarrow> orderEntryOperationEncode" where
  "operationEncode operation =
     \<lparr>oee_timestamp = oeo_timestamp operation, oee_opCode = oeo_opCode operation,
      oee_symbolIndex = oeo_symbolIndex operation, oee_orderId = uint32ToAscii (oeo_orderId operation),
      oee_quantity = uint32ToAscii (oeo_quantity operation), oee_price = uint32ToAscii (oeo_price operation),
      oee_direction = oeo_direction operation\<rparr>"

definition partialSum :: "32 word \<Rightarrow> orderEntryOperationEncode \<Rightarrow> 24 word \<times> 1 word" where
  "partialSum control op = (if bit control 4 then (messageSum op, 1) else (0, 0))"

definition canSend :: "connectionStatus \<Rightarrow> bool" where
  "canSend s \<longleftrightarrow> con_connected s \<noteq> 0 \<and> of_nat OE_MSG_LEN_BYTES \<le> con_space s \<and> con_error s = TXSTATUS_SUCCESS"

text \<open>One iteration of \<^verbatim>\<open>loop_message_frame\<close>, on the sender and the capture of the message.\<close>

definition sendFrame :: "nat \<Rightarrow> orderSender \<times> 1024 word \<Rightarrow> orderSender \<times> 1024 word" where
  "sendFrame frameCount = (\<lambda>(s, messagePack).
     (let frameData = os_template s ! frameCount;
          messageWord = \<lparr>ax_data = byteReverse frameData, ax_keep = 0xFF, ax_last = (frameCount = 31)\<rparr>;
          n = os_counts s;
          n = (if frameCount = 31 then n\<lparr>oc_debug := oc_debug n + 1\<rparr> else n)
      in (s\<lparr>os_txDataStream := s_write (os_txDataStream s) messageWord,
            os_counts := n\<lparr>oc_txData := oc_txData n + 1\<rparr>\<rparr>,
          if frameCount * 64 + 63 < 1024 then upd (frameCount * 64 + 63) (frameCount * 64) frameData messagePack
          else messagePack)))"

definition sendOrderMessage :: "orderEntryRegControl \<Rightarrow> connectionStatus \<Rightarrow> 24 word \<times> 1 word \<Rightarrow> orderSender \<Rightarrow> orderSender" where
  "sendOrderMessage ctl con csum s =
     (let txMeta = \<lparr>txm_sessionID = con_sessionID con, txm_length = of_nat OE_MSG_LEN_BYTES,
                    txm_subSum = ucast (fst csum), txm_validSum = snd csum\<rparr>;
          s = s\<lparr>os_txMetaStream := s_write (os_txMetaStream s)
                  \<lparr>au_data = ipTcpTxMetaPack_fn txMeta 0, au_keep = 0x7F, au_last = True\<rparr>,
                os_counts := (os_counts s)\<lparr>oc_txMeta := oc_txMeta (os_counts s) + 1\<rparr>\<rparr>;
          (s, messagePack) = foldl (\<lambda>p i. sendFrame i p) (s, 0) [0..<OE_MSG_NUM_FRAME]
      in s\<lparr>os_counts := (os_counts s)\<lparr>oc_txOrder := oc_txOrder (os_counts s) + 1\<rparr>,
           os_regCaptureBuffer := (if \<not> bit (oec_capture ctl) 31 then messagePack else os_regCaptureBuffer s)\<rparr>)"

definition processOperation :: "orderEntryRegControl \<Rightarrow> connectionStatus \<Rightarrow> orderEntryOperationEncode \<Rightarrow> orderSender \<Rightarrow> orderSender" where
  "processOperation ctl con op s =
     (let s = s\<lparr>os_counts := (os_counts s)\<lparr>oc_processOperation := oc_processOperation (os_counts s) + 1\<rparr>,
                os_template := fillTemplate op (os_template s)\<rparr>;
          csum = partialSum (oec_control ctl) op
      in if canSend con then sendOrderMessage ctl con csum s
         else s\<lparr>os_counts := (os_counts s)\<lparr>oc_txDrop := oc_txDrop (os_counts s) + 1\<rparr>\<rparr>)"

definition publishOrders :: "connectionStatus \<Rightarrow> orderSender \<Rightarrow> orderSender" where
  "publishOrders con s =
     s\<lparr>os_regCounts := (os_counts s)\<lparr>oc_debug := oc_debug (os_regCounts s)\<rparr>,
       os_regTxStatus :=
         upd 31 31 (con_connected con) (upd 30 29 (con_error con) (upd 28 0 (con_space con) (os_regTxStatus s)))\<rparr>"

definition operationProcessTcp :: "orderEntryRegControl \<Rightarrow> connectionStatus \<Rightarrow> orderSender \<Rightarrow> orderSender" where
  "operationProcessTcp ctl con s =
     (let s = (if \<not> s_empty (os_operationEncodeStream s)
               then processOperation ctl con (s_head (os_operationEncodeStream s))
                      (s\<lparr>os_operationEncodeStream := s_rest (os_operationEncodeStream s)\<rparr>)
               else s)
      in publishOrders con s)"

section \<open>The kernel\<close>

record orderEntry =
  oe_listen :: listenPort
  oe_connection :: connection
  oe_sender :: orderSender
  oe_server :: server
  oe_notifier :: notifier
  oe_countRxOperation :: "32 word"
  oe_countRxEvent :: "32 word"
  oe_regRxOperation :: "32 word"
  oe_regRxEvent :: "32 word"
  oe_regDebug :: "32 word"
  oe_operationStreamPack :: "184 word hls_stream"
  oe_operationHostStreamPack :: "184 word hls_stream"
  oe_operationStream :: "orderEntryOperation hls_stream"
  oe_eventStream :: "8 word hls_stream"

definition oe_operationPull :: "orderEntry \<Rightarrow> orderEntry" where
  "oe_operationPull k =
     (let k = (if \<not> s_empty (oe_operationStreamPack k)
        then k\<lparr>oe_operationStreamPack := s_rest (oe_operationStreamPack k),
               oe_countRxOperation := oe_countRxOperation k + 1,
               oe_operationStream := s_write (oe_operationStream k)
                 (orderEntryOperationUnpack (s_head (oe_operationStreamPack k)))\<rparr>
        else if \<not> s_empty (oe_operationHostStreamPack k)
        then k\<lparr>oe_operationHostStreamPack := s_rest (oe_operationHostStreamPack k),
               oe_countRxOperation := oe_countRxOperation k + 1,
               oe_operationStream := s_write (oe_operationStream k)
                 (orderEntryOperationUnpack (s_head (oe_operationHostStreamPack k)))\<rparr>
        else k)
      in k\<lparr>oe_regRxOperation := oe_countRxOperation k\<rparr>)"

definition oe_operationEncode :: "orderEntry \<Rightarrow> orderEntry" where
  "oe_operationEncode k =
     (if \<not> s_empty (oe_operationStream k)
      then k\<lparr>oe_operationStream := s_rest (oe_operationStream k),
             oe_sender := (oe_sender k)\<lparr>os_operationEncodeStream :=
               s_write (os_operationEncodeStream (oe_sender k)) (operationEncode (s_head (oe_operationStream k)))\<rparr>\<rparr>
      else k)"

definition oe_eventHandler :: "orderEntry \<Rightarrow> orderEntry" where
  "oe_eventHandler k =
     (let k = (if \<not> s_empty (oe_eventStream k)
        then k\<lparr>oe_eventStream := s_rest (oe_eventStream k), oe_countRxEvent := oe_countRxEvent k + 1\<rparr>
        else k)
      in k\<lparr>oe_regRxEvent := oe_countRxEvent k\<rparr>)"

definition orderEntryTcpTop :: "orderEntryRegControl \<Rightarrow> orderEntry \<Rightarrow> orderEntry" where
  "orderEntryTcpTop ctl k =
     (let k = k\<lparr>oe_listen := openListenPortTcp (oe_listen k)\<rparr>;
          k = k\<lparr>oe_connection := openActivePortTcp ctl (oe_connection k)\<rparr>;
          k = k\<lparr>oe_regDebug := cn_countDebug (oe_connection k)\<rparr>;
          k = oe_operationPull k;
          k = oe_operationEncode k;
          k = k\<lparr>oe_sender := operationProcessTcp ctl (cn_mConnectionStatus (oe_connection k)) (oe_sender k)\<rparr>;
          k = k\<lparr>oe_server := serverProcessTcp (oe_server k)\<rparr>;
          k = k\<lparr>oe_notifier := notificationHandlerTcp (oe_notifier k)\<rparr>
      in oe_eventHandler k)"

end
