(* ===== verification/Order_Flow.thy ===== *)
theory Order_Flow
  imports Order_Entry
begin

text \<open>
  What the order entry kernel does: the messages it sends, the accounting of orders, the session it
  sends them on, and the handling of the listening port, of notifications and of received data.
\<close>

section \<open>One message\<close>

definition messageWord :: "64 word list \<Rightarrow> nat \<Rightarrow> axiWord" where
  "messageWord t i = \<lparr>ax_data = byteReverse (t ! i), ax_keep = 0xFF, ax_last = (i = 31)\<rparr>"

definition messageWords :: "64 word list \<Rightarrow> axiWord list" where
  "messageWords t = map (messageWord t) [0..<32]"

lemma is_packet_append: "\<forall>w\<in>set ws. \<not> ax_last w \<Longrightarrow> is_packet (ws @ [w]) = ax_last w"
  by (induction ws) (auto simp: is_packet_Cons)

lemma messageWords_packet: "is_packet (messageWords t)"
proof -
  have "[0..<32] = [0..<31] @ [31 :: nat]" by (simp add: upt_Suc_append [of 0 31, simplified])
  then have "messageWords t = map (messageWord t) [0..<31] @ [messageWord t 31]" by (simp add: messageWords_def)
  then show ?thesis using is_packet_append [of "map (messageWord t) [0..<31]"] by (simp add: messageWord_def)
qed

lemma sendFrames:
  "n \<le> 32 \<Longrightarrow> fst (foldl (\<lambda>p i. sendFrame i p) (s, p) [0..<n]) =
    s\<lparr>os_txDataStream := os_txDataStream s @ map (messageWord (os_template s)) [0..<n],
      os_counts := (os_counts s)\<lparr>oc_txData := oc_txData (os_counts s) + of_nat n,
        oc_debug := oc_debug (os_counts s) + (if n = 32 then 1 else 0)\<rparr>\<rparr>"
proof (induction n)
  case (Suc n)
  obtain t q where f: "foldl (\<lambda>p i. sendFrame i p) (s, p) [0..<n] = (t, q)" by fastforce
  have t: "t = s\<lparr>os_txDataStream := os_txDataStream s @ map (messageWord (os_template s)) [0..<n],
      os_counts := (os_counts s)\<lparr>oc_txData := oc_txData (os_counts s) + of_nat n,
        oc_debug := oc_debug (os_counts s)\<rparr>\<rparr>"
    using Suc f by simp
  have "fst (foldl (\<lambda>p i. sendFrame i p) (s, p) [0..<Suc n]) = fst (sendFrame n (t, q))"
    by (simp add: f)
  then show ?case
    by (simp add: sendFrame_def messageWord_def s_write_def Let_def t word_add_of_nat_Suc del: of_nat_Suc cong: if_cong)
qed simp

definition orderMeta :: "connectionStatus \<Rightarrow> 24 word \<times> 1 word \<Rightarrow> (64 word, 8 word) axiu" where
  "orderMeta con csum =
     \<lparr>au_data = ipTcpTxMetaPack_fn \<lparr>txm_sessionID = con_sessionID con, txm_length = 256,
        txm_subSum = ucast (fst csum), txm_validSum = snd csum\<rparr> 0, au_keep = 0x7F, au_last = True\<rparr>"

lemma sendOrderMessage_effect:
  "sendOrderMessage ctl con csum s =
     s\<lparr>os_txMetaStream := os_txMetaStream s @ [orderMeta con csum],
       os_txDataStream := os_txDataStream s @ messageWords (os_template s),
       os_counts := (os_counts s)\<lparr>oc_txMeta := oc_txMeta (os_counts s) + 1,
         oc_txData := oc_txData (os_counts s) + 32, oc_debug := oc_debug (os_counts s) + 1,
         oc_txOrder := oc_txOrder (os_counts s) + 1\<rparr>,
       os_regCaptureBuffer := os_regCaptureBuffer (sendOrderMessage ctl con csum s)\<rparr>"
proof -
  let ?s = "s\<lparr>os_txMetaStream := os_txMetaStream s @ [orderMeta con csum],
      os_counts := (os_counts s)\<lparr>oc_txMeta := oc_txMeta (os_counts s) + 1\<rparr>\<rparr>"
  obtain t p where f: "foldl (\<lambda>p i. sendFrame i p) (?s, 0) [0..<32] = (t, p)" by fastforce
  have "t = fst (foldl (\<lambda>p i. sendFrame i p) (?s, 0) [0..<32])" by (simp only: f fst_conv)
  note t = this [unfolded sendFrames [OF order_refl]]
  have "sendOrderMessage ctl con csum s =
      t\<lparr>os_counts := (os_counts t)\<lparr>oc_txOrder := oc_txOrder (os_counts t) + 1\<rparr>,
        os_regCaptureBuffer := (if \<not> bit (oec_capture ctl) 31 then p else os_regCaptureBuffer t)\<rparr>"
    unfolding sendOrderMessage_def orderMeta_def [symmetric] Let_def s_write_def OE_MSG_NUM_FRAME_def f
    by (simp add: orderMeta_def OE_MSG_LEN_BYTES_def f [unfolded orderMeta_def] del: upt.simps upt_rec_numeral)
  then show ?thesis by (simp add: t messageWords_def del: upt.simps upt_rec_numeral)
qed

lemma sendOrderMessage_sel [simp]:
  "os_txDataStream (sendOrderMessage ctl con csum s) = os_txDataStream s @ messageWords (os_template s)"
  "os_txMetaStream (sendOrderMessage ctl con csum s) = os_txMetaStream s @ [orderMeta con csum]"
  "os_template (sendOrderMessage ctl con csum s) = os_template s"
  "os_operationEncodeStream (sendOrderMessage ctl con csum s) = os_operationEncodeStream s"
  "os_counts (sendOrderMessage ctl con csum s) =
     (os_counts s)\<lparr>oc_txMeta := oc_txMeta (os_counts s) + 1, oc_txData := oc_txData (os_counts s) + 32,
       oc_debug := oc_debug (os_counts s) + 1, oc_txOrder := oc_txOrder (os_counts s) + 1\<rparr>"
  by (subst sendOrderMessage_effect, simp)+

section \<open>Orders in sequence\<close>

text \<open>With an active session that has room, the kernel is a stage: each call sends the message of one operation, those of
  the direct path first and those of the host path when it is empty.\<close>

definition oe_pending :: "orderEntry \<Rightarrow> 184 word list" where
  "oe_pending k = oe_operationStreamPack k @ oe_operationHostStreamPack k"

definition con_ready :: "orderEntryRegControl \<Rightarrow> connection \<Rightarrow> bool" where
  "con_ready ctl c \<longleftrightarrow> cn_state c = ACTIVE_CON \<and> connectBit (oec_control ctl) \<and> cn_txStatusStream c = [] \<and> canSend (cn_status c)"

definition oe_ready :: "orderEntryRegControl \<Rightarrow> orderEntry \<Rightarrow> bool" where
  "oe_ready ctl k \<longleftrightarrow> con_ready ctl (oe_connection k) \<and> oe_operationStream k = [] \<and>
     os_operationEncodeStream (oe_sender k) = [] \<and> templateOk (os_template (oe_sender k))"

definition orderWords :: "184 word \<Rightarrow> axiWord list" where
  "orderWords w = messageWords (fillTemplate (operationEncode (orderEntryOperationUnpack w)) messageTemplate)"

definition orderHead :: "orderEntryRegControl \<Rightarrow> connectionStatus \<Rightarrow> 184 word \<Rightarrow> (64 word, 8 word) axiu" where
  "orderHead ctl con w = orderMeta con (partialSum (oec_control ctl) (operationEncode (orderEntryOperationUnpack w)))"

definition oe_step :: "orderEntryRegControl \<Rightarrow> connectionStatus \<times> (64 word, 8 word) axiu list \<Rightarrow> 184 word \<Rightarrow>
    (connectionStatus \<times> (64 word, 8 word) axiu list) \<times> axiWord list" where
  "oe_step ctl = (\<lambda>(con, ms) w. ((con, ms @ [orderHead ctl con w]), orderWords w))"

lemma con_ready_step:
  assumes "con_ready ctl c"
  shows "con_ready ctl (openActivePortTcp ctl c)"
    and "cn_status (openActivePortTcp ctl c) = cn_status c"
    and "cn_mConnectionStatus (openActivePortTcp ctl c) = cn_status c"
  using assms
  by (simp_all add: con_ready_def openActivePortTcp_def readTxStatus_def holdConnection_def debugMark_def Let_def)

lemma processOperation_ready:
  assumes "canSend con" and "templateOk (os_template s)"
  shows "os_txDataStream (processOperation ctl con op s) = os_txDataStream s @ messageWords (fillTemplate op messageTemplate)"
    and "os_txMetaStream (processOperation ctl con op s) = os_txMetaStream s @ [orderMeta con (partialSum (oec_control ctl) op)]"
    and "templateOk (os_template (processOperation ctl con op s))"
    and "os_operationEncodeStream (processOperation ctl con op s) = os_operationEncodeStream s"
proof -
  have "fillTemplate op (os_template s) = fillTemplate op messageTemplate"
    using assms(2) by (simp add: templateOk_def)
  then show "os_txDataStream (processOperation ctl con op s) = os_txDataStream s @ messageWords (fillTemplate op messageTemplate)"
    "os_txMetaStream (processOperation ctl con op s) = os_txMetaStream s @ [orderMeta con (partialSum (oec_control ctl) op)]"
    "templateOk (os_template (processOperation ctl con op s))"
    "os_operationEncodeStream (processOperation ctl con op s) = os_operationEncodeStream s"
    using assms(1) by (simp_all add: processOperation_def Let_def templateOk_fill)
qed

text \<open>One call, component by component.\<close>

lemma oe_pull_frame:
  "oe_operationEncode (oe_operationPull (k\<lparr>oe_listen := a, oe_connection := b, oe_regDebug := c\<rparr>)) =
     (oe_operationEncode (oe_operationPull k))\<lparr>oe_listen := a, oe_connection := b, oe_regDebug := c\<rparr>"
  by (simp add: oe_operationPull_def oe_operationEncode_def Let_def)

lemma oe_pull_connection [simp]: "oe_connection (oe_operationEncode (oe_operationPull k)) = oe_connection k"
  by (simp add: oe_operationPull_def oe_operationEncode_def Let_def)

lemma oe_top_connection: "oe_connection (orderEntryTcpTop ctl k) = openActivePortTcp ctl (oe_connection k)"
  by (simp add: orderEntryTcpTop_def oe_pull_frame oe_eventHandler_def Let_def)

lemma oe_top_sender:
  "oe_sender (orderEntryTcpTop ctl k) =
     operationProcessTcp ctl (cn_mConnectionStatus (openActivePortTcp ctl (oe_connection k)))
       (oe_sender (oe_operationEncode (oe_operationPull k)))"
  by (simp add: orderEntryTcpTop_def oe_pull_frame oe_eventHandler_def Let_def)

lemma oe_top_streams:
  "oe_operationStream (orderEntryTcpTop ctl k) = oe_operationStream (oe_operationEncode (oe_operationPull k))"
  "oe_pending (orderEntryTcpTop ctl k) = oe_pending (oe_operationEncode (oe_operationPull k))"
  by (simp_all add: orderEntryTcpTop_def oe_pull_frame oe_eventHandler_def oe_pending_def Let_def)

lemma oe_pull_idle:
  assumes "oe_operationStream k = []" and "oe_pending k = []"
  shows "oe_operationStream (oe_operationEncode (oe_operationPull k)) = []"
    and "oe_pending (oe_operationEncode (oe_operationPull k)) = []"
    and "oe_sender (oe_operationEncode (oe_operationPull k)) = oe_sender k"
  using assms by (simp_all add: oe_pending_def oe_operationPull_def oe_operationEncode_def Let_def)

lemma oe_pull_one:
  assumes "oe_operationStream k = []" and "oe_pending k = w # ws"
  shows "oe_operationStream (oe_operationEncode (oe_operationPull k)) = []"
    and "oe_pending (oe_operationEncode (oe_operationPull k)) = ws"
    and "oe_sender (oe_operationEncode (oe_operationPull k)) = (oe_sender k)\<lparr>os_operationEncodeStream :=
      os_operationEncodeStream (oe_sender k) @ [operationEncode (orderEntryOperationUnpack w)]\<rparr>"
  using assms
  by (cases "oe_operationStreamPack k"; simp add: oe_pending_def oe_operationPull_def oe_operationEncode_def s_write_def Let_def)+

lemma publishOrders_sel [simp]:
  "os_txDataStream (publishOrders con s) = os_txDataStream s"
  "os_txMetaStream (publishOrders con s) = os_txMetaStream s"
  "os_template (publishOrders con s) = os_template s"
  "os_operationEncodeStream (publishOrders con s) = os_operationEncodeStream s"
  "os_counts (publishOrders con s) = os_counts s"
  by (simp_all add: publishOrders_def)

lemma oe_idle:
  assumes "oe_ready ctl k" and "oe_pending k = []"
  shows "oe_ready ctl (orderEntryTcpTop ctl k)" and "oe_pending (orderEntryTcpTop ctl k) = []"
    and "os_txDataStream (oe_sender (orderEntryTcpTop ctl k)) = os_txDataStream (oe_sender k)"
    and "os_txMetaStream (oe_sender (orderEntryTcpTop ctl k)) = os_txMetaStream (oe_sender k)"
    and "cn_status (oe_connection (orderEntryTcpTop ctl k)) = cn_status (oe_connection k)"
  using assms con_ready_step [of ctl "oe_connection k"] oe_pull_idle [of k]
  by (simp_all add: oe_ready_def oe_top_connection oe_top_sender oe_top_streams operationProcessTcp_def)

lemma oe_fire:
  assumes "oe_ready ctl k" and "oe_pending k = w # ws"
  shows "oe_ready ctl (orderEntryTcpTop ctl k)" and "oe_pending (orderEntryTcpTop ctl k) = ws"
    and "os_txDataStream (oe_sender (orderEntryTcpTop ctl k)) = os_txDataStream (oe_sender k) @ orderWords w"
    and "os_txMetaStream (oe_sender (orderEntryTcpTop ctl k)) =
      os_txMetaStream (oe_sender k) @ [orderHead ctl (cn_status (oe_connection k)) w]"
    and "cn_status (oe_connection (orderEntryTcpTop ctl k)) = cn_status (oe_connection k)"
proof -
  have c: "con_ready ctl (oe_connection k)" "canSend (cn_status (oe_connection k))"
    and s: "oe_operationStream k = []" "os_operationEncodeStream (oe_sender k) = []" "templateOk (os_template (oe_sender k))"
    using assms(1) by (simp_all add: oe_ready_def con_ready_def)
  note r = con_ready_step [OF c(1)] and p = oe_pull_one [OF s(1) assms(2)]
  have "oe_sender (orderEntryTcpTop ctl k) = publishOrders (cn_status (oe_connection k))
      (processOperation ctl (cn_status (oe_connection k)) (operationEncode (orderEntryOperationUnpack w))
        ((oe_sender k)\<lparr>os_operationEncodeStream := []\<rparr>))"
    by (simp add: oe_top_sender operationProcessTcp_def p r s)
  note t = this
  show "oe_ready ctl (orderEntryTcpTop ctl k)" "oe_pending (orderEntryTcpTop ctl k) = ws"
    "os_txDataStream (oe_sender (orderEntryTcpTop ctl k)) = os_txDataStream (oe_sender k) @ orderWords w"
    "os_txMetaStream (oe_sender (orderEntryTcpTop ctl k)) =
      os_txMetaStream (oe_sender k) @ [orderHead ctl (cn_status (oe_connection k)) w]"
    "cn_status (oe_connection (orderEntryTcpTop ctl k)) = cn_status (oe_connection k)"
    using c(2) s(3) by (simp_all add: oe_ready_def oe_top_connection oe_top_streams p r t processOperation_ready
        orderWords_def orderHead_def)
qed

interpretation oe_top: stage "orderEntryTcpTop ctl" "oe_ready ctl" oe_pending "\<lambda>k. os_txDataStream (oe_sender k)"
    "\<lambda>k. (cn_status (oe_connection k), os_txMetaStream (oe_sender k))" "oe_step ctl" for ctl
proof (unfold_locales, goal_cases)
  case (1 k)
  then show ?case by (cases "oe_pending k") (simp_all add: oe_idle(1) oe_fire(1))
next
  case (2 k)
  then show ?case by (simp add: oe_idle)
next
  case (3 k w ws m ys)
  then show ?case by (auto simp: oe_fire oe_step_def)
qed

section \<open>Accounting\<close>

definition counts_ok :: "orderCounts \<Rightarrow> bool" where
  "counts_ok c \<longleftrightarrow> oc_processOperation c = oc_txOrder c + oc_txDrop c \<and> oc_txMeta c = oc_txOrder c \<and>
     oc_txData c = 32 * oc_txOrder c \<and> oc_debug c = oc_txOrder c"

lemma counts_ok_process: "counts_ok (os_counts s) \<Longrightarrow> counts_ok (os_counts (processOperation ctl con op s))"
  by (simp add: counts_ok_def processOperation_def Let_def algebra_simps)

lemma counts_ok_top: "counts_ok (os_counts (oe_sender k)) \<Longrightarrow> counts_ok (os_counts (oe_sender (orderEntryTcpTop ctl k)))"
proof -
  have "os_counts (oe_sender (oe_operationEncode (oe_operationPull k))) = os_counts (oe_sender k)"
    by (simp add: oe_operationPull_def oe_operationEncode_def Let_def)
  then show "counts_ok (os_counts (oe_sender k)) \<Longrightarrow> counts_ok (os_counts (oe_sender (orderEntryTcpTop ctl k)))"
    by (simp add: oe_top_sender operationProcessTcp_def counts_ok_process Let_def)
qed

section \<open>Properties\<close>

text \<open>While the session is active and has room, \<open>n\<close> calls of the kernel send exactly the first \<open>n\<close> waiting operations,
  those of the direct path before those of the host path: for each one metadata word with the
  session, the length and the checksum, and the 32 words of its message, of which only the last
  carries \<open>last\<close>.\<close>

theorem order_messages:
  assumes "oe_ready ctl k"
  shows "os_txDataStream (oe_sender ((orderEntryTcpTop ctl ^^ n) k)) =
      os_txDataStream (oe_sender k) @ concat (map orderWords (take n (oe_pending k))) \<and>
    os_txMetaStream (oe_sender ((orderEntryTcpTop ctl ^^ n) k)) =
      os_txMetaStream (oe_sender k) @ map (orderHead ctl (cn_status (oe_connection k))) (take n (oe_pending k)) \<and>
    oe_pending ((orderEntryTcpTop ctl ^^ n) k) = drop n (oe_pending k) \<and>
    (\<forall>w. is_packet (orderWords w) \<and> length (orderWords w) = 32)"
proof -
  have m: "mealy (oe_step ctl) (con, ms) ws = ((con, ms @ map (orderHead ctl con) ws), concat (map orderWords ws))" for con ms ws
    by (induction ws arbitrary: ms) (simp_all add: mealy.simps(2) oe_step_def)
  show ?thesis
    using oe_top.run [OF assms, of n] messageWords_packet
    by (simp add: m orderWords_def messageWords_def)
qed

definition sampleOrder :: orderEntryOperation where
  "sampleOrder = \<lparr>oeo_timestamp = 5, oeo_opCode = ORDERENTRY_ADD, oeo_symbolIndex = 2, oeo_orderId = 1,
     oeo_quantity = 1000, oeo_price = 5050, oeo_direction = ORDER_BID\<rparr>"

definition zeroCounts :: orderCounts where
  "zeroCounts = \<lparr>oc_processOperation = 0, oc_txOrder = 0, oc_txData = 0, oc_txMeta = 0, oc_txDrop = 0, oc_debug = 0\<rparr>"

definition closedStatus :: connectionStatus where
  "closedStatus = \<lparr>con_connected = 0, con_length = 0, con_space = 0, con_error = 0, con_sessionID = 0\<rparr>"

definition connectionReset :: connection where
  "connectionReset = \<lparr>cn_state = IDLE, cn_connectionStatus = \<lparr>cst_sessionID = 0, cst_success = 0\<rparr>, cn_status = closedStatus,
     cn_countDebug = 0, cn_mConnectionStatus = closedStatus, cn_openConnectionStream = [],
     cn_connectionStatusStream = [], cn_closeConnectionStream = [], cn_txStatusStream = []\<rparr>"

definition sampleConnection :: connection where
  "sampleConnection = connectionReset
     \<lparr>cn_state := ACTIVE_CON, cn_connectionStatus := \<lparr>cst_sessionID = 9, cst_success = 1\<rparr>,
      cn_status := \<lparr>con_connected = 1, con_length = 0, con_space = 0xffff, con_error = TXSTATUS_SUCCESS, con_sessionID = 9\<rparr>\<rparr>"

definition sampleOrderEntry :: "connection \<Rightarrow> 184 word list \<Rightarrow> orderEntry" where
  "sampleOrderEntry c ws =
     \<lparr>oe_listen = \<lparr>lp_state = 0, lp_listenPortStream = [], lp_listenStatusStream = []\<rparr>, oe_connection = c,
      oe_sender = \<lparr>os_template = messageTemplate, os_counts = zeroCounts, os_regCounts = zeroCounts, os_regTxStatus = 0,
        os_regCaptureBuffer = 0, os_operationEncodeStream = [], os_txMetaStream = [], os_txDataStream = []\<rparr>,
      oe_server = \<lparr>sv_state = 0, sv_countRxData = 0, sv_countRxMeta = 0, sv_rxMetaStream = [], sv_rxDataStream = [],
        sv_regRxData = 0, sv_regRxMeta = 0\<rparr>,
      oe_notifier = \<lparr>nh_countNotification = 0, nh_countReadRequest = 0, nh_notificationStream = [],
        nh_readRequestStream = [], nh_regNotification = 0, nh_regReadRequest = 0\<rparr>,
      oe_countRxOperation = 0, oe_countRxEvent = 0, oe_regRxOperation = 0, oe_regRxEvent = 0, oe_regDebug = 0,
      oe_operationStreamPack = ws, oe_operationHostStreamPack = [], oe_operationStream = [], oe_eventStream = []\<rparr>"

definition sampleEntryControl :: orderEntryRegControl where
  "sampleEntryControl = \<lparr>oec_control = 0x18, oec_capture = 0, oec_destAddress = 0, oec_destPort = 0\<rparr>"

theorem order_messages_witness:
  "os_txDataStream (oe_sender ((orderEntryTcpTop sampleEntryControl ^^ 1)
     (sampleOrderEntry sampleConnection [orderEntryOperationPack sampleOrder 0]))) =
   orderWords (orderEntryOperationPack sampleOrder 0)"
proof -
  let ?k = "sampleOrderEntry sampleConnection [orderEntryOperationPack sampleOrder 0]"
  have r: "oe_ready sampleEntryControl ?k"
    by (simp add: oe_ready_def con_ready_def canSend_def connectBit_def sampleOrderEntry_def sampleConnection_def
        connectionReset_def sampleEntryControl_def OE_MSG_LEN_BYTES_def)
  have "oe_pending ?k = [orderEntryOperationPack sampleOrder 0]" "os_txDataStream (oe_sender ?k) = []"
    by (simp_all add: oe_pending_def sampleOrderEntry_def)
  then show ?thesis using order_messages [OF r, of 1] by (simp del: funpow.simps)
qed

text \<open>In every run from load, under any control registers, every operation processed was either sent or dropped, and
  each one sent is one metadata word and 32 data words (counters modulo \<open>2 ^ 32\<close>).\<close>

theorem order_accounting:
  fixes ctls :: "orderEntryRegControl list"
  assumes "os_counts (oe_sender k) = zeroCounts"
  defines "c \<equiv> os_counts (oe_sender (fold orderEntryTcpTop ctls k))"
  shows "oc_processOperation c = oc_txOrder c + oc_txDrop c \<and> oc_txMeta c = oc_txOrder c \<and>
    oc_txData c = 32 * oc_txOrder c"
proof -
  have "counts_ok (os_counts (oe_sender (fold orderEntryTcpTop cs k)))" if "counts_ok (os_counts (oe_sender k))" for cs
    using that by (induction cs arbitrary: k) (simp_all add: counts_ok_top)
  then have "counts_ok c" using assms(1) by (simp add: c_def counts_ok_def zeroCounts_def)
  then show ?thesis by (simp add: counts_ok_def)
qed

theorem order_accounting_witness:
  "oc_txMeta (os_counts (oe_sender (fold orderEntryTcpTop [sampleEntryControl, sampleEntryControl] (sampleOrderEntry connectionReset [])))) =
   oc_txOrder (os_counts (oe_sender (fold orderEntryTcpTop [sampleEntryControl, sampleEntryControl] (sampleOrderEntry connectionReset []))))"
proof -
  have "os_counts (oe_sender (sampleOrderEntry connectionReset [])) = zeroCounts" by (simp add: sampleOrderEntry_def)
  from order_accounting [OF this, of "[sampleEntryControl, sampleEntryControl]"] show ?thesis by simp
qed

end
