(* ===== verification/Order_Session.thy ===== *)
theory Order_Session
  imports Order_Flow
begin

text \<open>
  The session state machine \<^verbatim>\<open>openActivePortTcp\<close>, the listening handshake, the notification
  handler and the server of the order entry kernel, against every behaviour of the network kernel.
\<close>

section \<open>The session state machine\<close>

text \<open>What can be seen of a session at the streams and registers of the kernel: a call begins, a word taken from the status stream, a
  close request for a session, a call in which the host has cleared the connect bit, a message sent on a session.\<close>

datatype sessionEvent = Called | Answered "32 word" | Closed "16 word" | Disconnected | Sent "16 word"

text \<open>The events of one call, in the order in which the functions of the kernel are called.\<close>

definition callEvents :: "orderEntryRegControl \<Rightarrow> orderEntry \<Rightarrow> orderEntry \<Rightarrow> sessionEvent list" where
  "callEvents ctl k k' =
     (let c = oe_connection k; c' = oe_connection k';
          taken = take (length (cn_connectionStatusStream c) - length (cn_connectionStatusStream c')) (cn_connectionStatusStream c);
          closes = drop (length (cn_closeConnectionStream c)) (cn_closeConnectionStream c');
          metas = drop (length (os_txMetaStream (oe_sender k))) (os_txMetaStream (oe_sender k'))
      in Called # map Answered taken @ map (\<lambda>a. Closed (au_data a)) closes @
         (if connectBit (oec_control ctl) then [] else [Disconnected]) @ map (\<lambda>a. Sent (rng 15 0 (au_data a))) metas)"

text \<open>The runs of the kernel.  Between two calls the environment (the network kernel, the host and the pricing kernel) may
  put any words on the input streams and take any from the output streams, and may change the registers from call to
  call.\<close>

inductive sessionRun :: "orderEntry \<Rightarrow> sessionEvent list \<Rightarrow> bool" where
  run_load: "oe_connection k = connectionReset \<Longrightarrow> sessionRun k []"
| run_env: "sessionRun k es \<Longrightarrow> sessionRun (k\<lparr>
     oe_connection := (oe_connection k)\<lparr>cn_connectionStatusStream := xs, cn_txStatusStream := ys,
       cn_openConnectionStream := os, cn_closeConnectionStream := cs\<rparr>,
     oe_sender := (oe_sender k)\<lparr>os_txMetaStream := ms, os_txDataStream := ds\<rparr>,
     oe_operationStreamPack := ops, oe_operationHostStreamPack := hops, oe_eventStream := ev,
     oe_listen := l, oe_server := v, oe_notifier := h\<rparr>) es"
| run_call: "sessionRun k es \<Longrightarrow> k' = orderEntryTcpTop ctl k \<Longrightarrow> sessionRun k' (es @ callEvents ctl k k')"

text \<open>The session held after some events: the one of the last successful answer, until the host disconnects.\<close>

definition hold :: "sessionEvent \<Rightarrow> 16 word option \<Rightarrow> 16 word option" where
  "hold e s =
     (case e of
        Called \<Rightarrow> s
      | Answered w \<Rightarrow> let a = ipTcpConnectionStatusUnpack w in if cst_success a \<noteq> 0 then Some (cst_sessionID a) else s
      | Disconnected \<Rightarrow> None
      | Closed i \<Rightarrow> s
      | Sent i \<Rightarrow> s)"

definition held :: "sessionEvent list \<Rightarrow> 16 word option" where
  "held es = fold hold es None"

text \<open>Messages and close requests name the session held; a session held is given up with a close request for it,
  unless it was opened in the very call in which the host disconnects.\<close>

definition allowedAfter :: "sessionEvent list \<Rightarrow> sessionEvent \<Rightarrow> bool" where
  "allowedAfter es e =
     (case e of
        Called \<Rightarrow> True
      | Sent i \<Rightarrow> held es = Some i
      | Closed i \<Rightarrow> held es = Some i
      | Disconnected \<Rightarrow> (\<forall>i. held es = Some i \<longrightarrow> last es = Closed i \<or> (\<exists>w. last es = Answered w))
      | Answered w \<Rightarrow> held es = None)"

primrec allowed :: "sessionEvent list \<Rightarrow> sessionEvent list \<Rightarrow> bool" where
  "allowed es [] = True"
| "allowed es (e # es') = (allowedAfter es e \<and> allowed (es @ [e]) es')"

lemma allowed_append: "allowed es (xs @ ys) \<longleftrightarrow> allowed es xs \<and> allowed (es @ xs) ys"
  by (induction xs arbitrary: es) simp_all

lemma allowed_at: "allowed es (us @ e # vs) \<Longrightarrow> allowedAfter (es @ us) e"
  by (simp add: allowed_append)

lemma held_append: "held (es @ es') = fold hold es' (held es)"
  by (simp add: held_def)

definition cn_inv :: "connection \<Rightarrow> 16 word option \<Rightarrow> bool" where
  "cn_inv c s \<longleftrightarrow> cn_mConnectionStatus c = cn_status c \<and>
     (if cn_state c = ACTIVE_CON
      then con_connected (cn_status c) = 1 \<and> s = Some (con_sessionID (cn_status c)) \<and>
        con_sessionID (cn_status c) = cst_sessionID (cn_connectionStatus c)
      else con_connected (cn_status c) = 0 \<and> s = None)"

lemmas cn_defs = openActivePortTcp_def requestConnection_def awaitConnection_def holdConnection_def
  readTxStatus_def debugMark_def dropStatus_def

text \<open>One call on the connection: its events before a message is sent.\<close>

lemma connection_call:
  fixes ctl :: orderEntryRegControl
  assumes "cn_inv c (held es)"
  defines "c' \<equiv> openActivePortTcp ctl c"
  defines "evs \<equiv> Called # map Answered (take (length (cn_connectionStatusStream c) - length (cn_connectionStatusStream c')) (cn_connectionStatusStream c)) @
    map (\<lambda>a. Closed (au_data a)) (drop (length (cn_closeConnectionStream c)) (cn_closeConnectionStream c')) @
    (if connectBit (oec_control ctl) then [] else [Disconnected])"
  shows "cn_inv c' (held (es @ evs)) \<and> allowed es evs"
proof (cases "cn_state c")
  case WAIT_CON
  then show ?thesis
    using assms(1) unfolding c'_def evs_def
    by (cases "cn_connectionStatusStream c")
      (auto simp: cn_inv_def cn_defs s_write_def held_append hold_def allowedAfter_def Let_def)
qed (use assms(1) in \<open>auto simp: c'_def evs_def cn_inv_def cn_defs s_write_def held_append hold_def allowedAfter_def Let_def\<close>)

lemma orderMeta_session: "rng 15 0 (au_data (orderMeta con csum)) = con_sessionID con"
  by (simp add: orderMeta_def ipTcpTxMetaPack_fn_def rng_simps)

text \<open>A call sends no message or one on the session of the published status, and only when connected.\<close>

lemma sender_call:
  fixes con :: connectionStatus and s :: orderSender
  shows "os_txMetaStream (operationProcessTcp ctl con s) = os_txMetaStream s \<or>
    con_connected con \<noteq> 0 \<and> (\<exists>a. os_txMetaStream (operationProcessTcp ctl con s) = os_txMetaStream s @ [a] \<and>
      rng 15 0 (au_data a) = con_sessionID con)"
  by (auto simp: operationProcessTcp_def processOperation_def canSend_def orderMeta_session Let_def)

lemma oe_pull_metas: "os_txMetaStream (oe_sender (oe_operationEncode (oe_operationPull k))) = os_txMetaStream (oe_sender k)"
  by (simp add: oe_operationPull_def oe_operationEncode_def Let_def)

lemma session_call:
  fixes ctl :: orderEntryRegControl
  assumes "cn_inv (oe_connection k) (held es)"
  defines "k' \<equiv> orderEntryTcpTop ctl k"
  shows "cn_inv (oe_connection k') (held (es @ callEvents ctl k k')) \<and> allowed es (callEvents ctl k k')"
proof -
  let ?c = "oe_connection k" and ?c' = "openActivePortTcp ctl (oe_connection k)"
  define evs where "evs = Called # map Answered (take (length (cn_connectionStatusStream ?c) - length (cn_connectionStatusStream ?c'))
      (cn_connectionStatusStream ?c)) @
    map (\<lambda>a. Closed (au_data a)) (drop (length (cn_closeConnectionStream ?c)) (cn_closeConnectionStream ?c')) @
    (if connectBit (oec_control ctl) then [] else [Disconnected])"
  note c = connection_call [OF assms(1), of ctl, folded evs_def]
  let ?metas = "drop (length (os_txMetaStream (oe_sender k))) (os_txMetaStream (oe_sender k'))"
  have e: "callEvents ctl k k' = evs @ map (\<lambda>a. Sent (rng 15 0 (au_data a))) ?metas"
    by (simp add: callEvents_def evs_def k'_def oe_top_connection Let_def)
  have "?metas = [] \<or> con_connected (cn_mConnectionStatus ?c') \<noteq> 0 \<and> (\<exists>a. ?metas = [a] \<and> rng 15 0 (au_data a) = con_sessionID (cn_mConnectionStatus ?c'))"
    using sender_call [of ctl "cn_mConnectionStatus ?c'" "oe_sender (oe_operationEncode (oe_operationPull k))"]
    by (auto simp: k'_def oe_top_sender oe_pull_metas)
  moreover have "held (es @ evs) = Some (con_sessionID (cn_mConnectionStatus ?c'))" if "con_connected (cn_mConnectionStatus ?c') \<noteq> 0"
    using c that by (auto simp: cn_inv_def split: if_splits)
  moreover have "oe_connection k' = ?c'" by (simp add: k'_def oe_top_connection)
  ultimately show ?thesis
    using c unfolding e by (auto simp: allowed_append allowedAfter_def held_append hold_def)
qed

lemma session_run: "sessionRun k es \<Longrightarrow> cn_inv (oe_connection k) (held es) \<and> allowed [] es"
proof (induction rule: sessionRun.induct)
  case (run_load k)
  then show ?case by (simp add: cn_inv_def connectionReset_def closedStatus_def held_def)
next
  case (run_env k es xs ys os cs ms ds ops hops ev l v h)
  then show ?case by (simp add: cn_inv_def)
next
  case (run_call k es k' ctl)
  then show ?case using session_call [of k es ctl] by (simp add: allowed_append)
qed

text \<open>C17: Whatever the network kernel answers and the host writes, in every run from load every message is sent, and every
  close request made, for the session held at that moment: the one of the last successful answer, unless the host has
  disconnected since.  A session held is given up with a close request for it, unless it was opened in the very call in which
  the host disconnects; no answer is taken while a session is held.  The published status shows whether a session
  is held, and which.\<close>

theorem session_consistent:
  assumes "sessionRun k es" and "st = cn_mConnectionStatus (oe_connection k)"
  shows "held es = (if con_connected st = 1 then Some (con_sessionID st) else None) \<and>
    (\<forall>us e vs. es = us @ e # vs \<longrightarrow>
      (case e of
         Called \<Rightarrow> True
       | Sent i \<Rightarrow> held us = Some i
       | Closed i \<Rightarrow> held us = Some i
       | Disconnected \<Rightarrow> (\<forall>i. held us = Some i \<longrightarrow> last us = Closed i \<or> (\<exists>w. last us = Answered w))
       | Answered w \<Rightarrow> held us = None))"
proof -
  note r = session_run [OF assms(1)]
  have "held es = (if con_connected st = 1 then Some (con_sessionID st) else None)"
    using r by (auto simp: cn_inv_def assms(2) split: if_splits)
  moreover have "allowedAfter us e" if "es = us @ e # vs" for us e vs
    using r allowed_at [of "[]" us e vs] that by simp
  ultimately show ?thesis unfolding allowedAfter_def by blast
qed

text \<open>A session that is opened, used for one message and closed.\<close>

lemma sampleSession:
  fixes k :: orderEntry
  assumes "oe_connection k = connectionReset" and "oe_operationStreamPack k = []" and "oe_operationHostStreamPack k = []"
    and "oe_operationStream k = []" and "os_operationEncodeStream (oe_sender k) = []"
  shows "\<exists>k'. sessionRun k' [Called, Called, Called, Answered 0x10009, Sent 9]"
proof -
  let ?ctl = sampleEntryControl
  have bit: "connectBit (oec_control ?ctl)" by (simp add: connectBit_def sampleEntryControl_def)
  have w: "cst_success (ipTcpConnectionStatusUnpack 0x10009) \<noteq> 0" "cst_sessionID (ipTcpConnectionStatusUnpack 0x10009) = 9"
    by (simp_all add: ipTcpConnectionStatusUnpack_def rng_def take_bit_eq_mod drop_bit_eq_div)
  have idle: "os_txMetaStream (oe_sender (orderEntryTcpTop ?ctl k)) = os_txMetaStream (oe_sender k) \<and>
      oe_pending (orderEntryTcpTop ?ctl k) = [] \<and> oe_operationStream (orderEntryTcpTop ?ctl k) = [] \<and>
      os_operationEncodeStream (oe_sender (orderEntryTcpTop ?ctl k)) = []"
    if "oe_pending k = []" "oe_operationStream k = []" "os_operationEncodeStream (oe_sender k) = []" for k :: orderEntry
    using oe_pull_idle [OF that(2,1)] that by (simp add: oe_top_sender oe_top_streams operationProcessTcp_def)
  have p: "oe_pending k = []" using assms(2,3) by (simp add: oe_pending_def)
  define k1 where "k1 = orderEntryTcpTop ?ctl k"
  define k2 where "k2 = orderEntryTcpTop ?ctl k1"
  have c1: "oe_connection k1 = openActivePortTcp ?ctl connectionReset" by (simp add: k1_def oe_top_connection assms(1))
  then have s1: "cn_state (oe_connection k1) = INIT_CON" "cn_connectionStatusStream (oe_connection k1) = []"
    "cn_closeConnectionStream (oe_connection k1) = []" using bit by (simp_all add: cn_defs connectionReset_def Let_def)
  have i1: "os_txMetaStream (oe_sender k1) = os_txMetaStream (oe_sender k)" "oe_pending k1 = []" "oe_operationStream k1 = []"
    "os_operationEncodeStream (oe_sender k1) = []" using idle [OF p assms(4,5)] by (simp_all add: k1_def)
  have s2: "cn_state (oe_connection k2) = WAIT_CON" "cn_connectionStatusStream (oe_connection k2) = []"
    "cn_closeConnectionStream (oe_connection k2) = []"
    using s1 by (simp_all add: k2_def oe_top_connection cn_defs Let_def)
  have i2: "os_txMetaStream (oe_sender k2) = os_txMetaStream (oe_sender k1)" "oe_pending k2 = []" "oe_operationStream k2 = []"
    "os_operationEncodeStream (oe_sender k2) = []" using idle [OF i1(2-4)] by (simp_all add: k2_def)
  have "sessionRun k1 ([] @ callEvents ?ctl k k1)" unfolding k1_def by (rule run_call [OF run_load [OF assms(1)] refl])
  moreover have "callEvents ?ctl k k1 = [Called]" using bit s1 i1 assms(1) by (simp add: callEvents_def connectionReset_def Let_def)
  ultimately have "sessionRun k1 [Called]" by simp
  then have "sessionRun k2 ([Called] @ callEvents ?ctl k1 k2)" unfolding k2_def by (rule run_call) (rule refl)
  moreover have "callEvents ?ctl k1 k2 = [Called]" using bit s1 s2 i2 by (simp add: callEvents_def Let_def)
  ultimately have r2: "sessionRun k2 [Called, Called]" by simp
  define op where "op = orderEntryOperationPack sampleOrder 0"
  define k3 where "k3 = k2\<lparr>oe_connection := (oe_connection k2)\<lparr>cn_connectionStatusStream := [0x10009], cn_txStatusStream := [],
      cn_openConnectionStream := [], cn_closeConnectionStream := []\<rparr>,
    oe_sender := (oe_sender k2)\<lparr>os_txMetaStream := [], os_txDataStream := []\<rparr>,
    oe_operationStreamPack := [op], oe_operationHostStreamPack := [], oe_eventStream := [],
    oe_listen := oe_listen k2, oe_server := oe_server k2, oe_notifier := oe_notifier k2\<rparr>"
  have r3: "sessionRun k3 [Called, Called]" unfolding k3_def by (rule run_env [OF r2])
  define k4 where "k4 = orderEntryTcpTop ?ctl k3"
  have c4: "cn_connectionStatusStream (oe_connection k4) = []" "cn_closeConnectionStream (oe_connection k4) = []"
    "canSend (cn_mConnectionStatus (oe_connection k4))" "con_sessionID (cn_mConnectionStatus (oe_connection k4)) = 9"
    using s2 bit w by (simp_all add: k4_def k3_def oe_top_connection cn_defs canSend_def OE_MSG_LEN_BYTES_def Let_def)
  have "oe_operationStream k3 = []" "oe_pending k3 = op # []" using i2 by (simp_all add: k3_def oe_pending_def)
  from oe_pull_one(3) [OF this] have q: "oe_sender (oe_operationEncode (oe_operationPull k3)) =
      (oe_sender k3)\<lparr>os_operationEncodeStream := [operationEncode (orderEntryOperationUnpack op)]\<rparr>"
    using i2(4) by (simp add: k3_def)
  have "\<exists>a. os_txMetaStream (oe_sender k4) = [a] \<and> rng 15 0 (au_data a) = (9 :: 16 word)"
    using c4(3,4) by (simp add: k4_def oe_top_sender oe_top_connection q operationProcessTcp_def processOperation_def orderMeta_session Let_def)
      (simp add: k3_def)
  then obtain a where a: "os_txMetaStream (oe_sender k4) = [a]" "rng 15 0 (au_data a) = (9 :: 16 word)" by blast
  have "callEvents ?ctl k3 k4 = [Called, Answered 0x10009, Sent 9]"
    using bit c4(1,2) a by (simp add: callEvents_def k3_def Let_def)
  moreover have "sessionRun k4 ([Called, Called] @ callEvents ?ctl k3 k4)" unfolding k4_def by (rule run_call [OF r3 refl])
  ultimately show ?thesis by auto
qed

theorem session_consistent_witness:
  "\<exists>k. sessionRun k [Called, Called, Called, Answered 0x10009, Sent 9] \<and>
     held [Called, Called, Called, Answered 0x10009] = Some 9 \<and> con_sessionID (cn_mConnectionStatus (oe_connection k)) = 9"
proof -
  obtain k where k: "sessionRun k [Called, Called, Called, Answered 0x10009, Sent 9]"
    using sampleSession [of "sampleOrderEntry connectionReset []"] by (auto simp: sampleOrderEntry_def)
  have e: "[Called, Called, Called, Answered 0x10009, Sent 9] = [Called, Called, Called, Answered 0x10009] @ Sent 9 # []" by simp
  note c = session_consistent [OF k refl]
  have h: "held [Called, Called, Called, Answered 0x10009] = Some 9"
    using conjunct2 [OF c, rule_format, OF e] by simp
  then have "held [Called, Called, Called, Answered 0x10009, Sent 9] = Some 9" by (simp add: held_def hold_def)
  with k h conjunct1 [OF c] show ?thesis by (intro exI [of _ k]) (auto split: if_splits)
qed

text \<open>When the answer to an open request arrives in the very call in which the host has cleared the connect bit, the session that
  has just been opened is forgotten: the machine goes idle, reports no connection, and makes no close
  request for it in that call or in any later one until a new session is active.\<close>

theorem session_abandoned:
  assumes "cn_state c = WAIT_CON" and "cn_connectionStatusStream c = w # ws"
    and "cst_success (ipTcpConnectionStatusUnpack w) \<noteq> 0" and "\<not> connectBit (oec_control ctl)"
  shows "let c' = openActivePortTcp ctl c in
    cn_state c' = IDLE \<and> cn_connectionStatusStream c' = ws \<and> con_connected (cn_mConnectionStatus c') = 0 \<and>
    cn_closeConnectionStream ((openActivePortTcp ctl ^^ n) c') = cn_closeConnectionStream c"
proof -
  let ?c = "openActivePortTcp ctl c"
  have 1: "cn_state ?c = IDLE" "cn_connectionStatusStream ?c = ws" "con_connected (cn_mConnectionStatus ?c) = 0"
    "cn_closeConnectionStream ?c = cn_closeConnectionStream c"
    using assms by (simp_all add: cn_defs Let_def)
  have "cn_state ((openActivePortTcp ctl ^^ n) ?c) = IDLE \<and>
      cn_closeConnectionStream ((openActivePortTcp ctl ^^ n) ?c) = cn_closeConnectionStream c"
  proof (induction n)
    case (Suc n)
    then show ?case using assms(4) by (simp add: openActivePortTcp_def [of ctl "(openActivePortTcp ctl ^^ n) ?c"] readTxStatus_def Let_def)
  qed (simp add: 1)
  then show ?thesis by (simp add: 1 Let_def)
qed

theorem session_abandoned_witness:
  "cn_closeConnectionStream ((openActivePortTcp \<lparr>oec_control = 0, oec_capture = 0, oec_destAddress = 0, oec_destPort = 0\<rparr> ^^ 4)
     (openActivePortTcp \<lparr>oec_control = 0, oec_capture = 0, oec_destAddress = 0, oec_destPort = 0\<rparr>
       (connectionReset\<lparr>cn_state := WAIT_CON, cn_connectionStatusStream := [0x10009]\<rparr>))) = []"
proof -
  let ?c = "connectionReset\<lparr>cn_state := WAIT_CON, cn_connectionStatusStream := [0x10009]\<rparr>"
  let ?ctl = "\<lparr>oec_control = 0, oec_capture = 0, oec_destAddress = 0, oec_destPort = 0\<rparr>"
  have a: "cn_state ?c = WAIT_CON" "cn_connectionStatusStream ?c = [0x10009]" by simp_all
  have b: "cst_success (ipTcpConnectionStatusUnpack 0x10009) \<noteq> 0"
    by (simp add: ipTcpConnectionStatusUnpack_def rng_def take_bit_eq_mod drop_bit_eq_div)
  have d: "\<not> connectBit (oec_control ?ctl)" by (simp add: connectBit_def)
  show ?thesis using session_abandoned [OF a b d, of 4] by (simp add: connectionReset_def Let_def del: funpow.simps)
qed

section \<open>The listening port\<close>

definition listenRequest :: "(16 word, 2 word) axiu" where
  "listenRequest = \<lparr>au_data = 7, au_keep = 3, au_last = True\<rparr>"

lemma listen_done: "lp_state l = 2 \<Longrightarrow> (openListenPortTcp ^^ n) l = l"
  by (induction n) (simp_all add: openListenPortTcp_def)

lemma listen_refused:
  assumes "lp_state l = 0" and "lp_listenStatusStream l = x # xs"
  shows "(openListenPortTcp ^^ 2) l =
    l\<lparr>lp_state := (if x = 1 then 2 else 0), lp_listenStatusStream := xs,
      lp_listenPortStream := lp_listenPortStream l @ [listenRequest]\<rparr>"
  using assms by (simp add: numeral_2_eq_2 openListenPortTcp_def s_write_def listenRequest_def)

lemma funpow_add_apply: "(f ^^ (m + n)) x = (f ^^ n) ((f ^^ m) x)"
  by (simp add: funpow_add add.commute [of m])

text \<open>C18: the listening handshake ends: if the network kernel refuses \<open>j\<close> times and then accepts, \<open>2 * (j + 1)\<close> calls ask \<open>j + 1\<close>
  times for port 7, reach the listening state, and no later call asks again.\<close>

theorem listen_handshake:
  assumes "lp_state l = 0" and "lp_listenStatusStream l = replicate j 0 @ 1 # xs" and "2 * (j + 1) \<le> n"
  shows "(openListenPortTcp ^^ n) l =
    l\<lparr>lp_state := 2, lp_listenStatusStream := xs,
      lp_listenPortStream := lp_listenPortStream l @ replicate (j + 1) listenRequest\<rparr>"
  using assms
proof (induction j arbitrary: l n)
  case 0
  define m where "m = n - 2"
  then have n: "n = 2 + m" using 0(3) by simp
  have "lp_listenStatusStream l = 1 # xs" using 0(2) by simp
  from listen_refused [OF 0(1) this] show ?case
    unfolding n funpow_add_apply by (simp add: listen_done del: funpow.simps)
next
  case (Suc j)
  define m where "m = n - 2"
  then have n: "n = 2 + m" using Suc.prems(3) by simp
  let ?l = "l\<lparr>lp_state := 0, lp_listenStatusStream := replicate j 0 @ 1 # xs,
      lp_listenPortStream := lp_listenPortStream l @ [listenRequest]\<rparr>"
  have "(openListenPortTcp ^^ n) l = (openListenPortTcp ^^ m) ?l"
    using listen_refused [of l 0 "replicate j 0 @ 1 # xs"] Suc.prems(1,2)
    unfolding n funpow_add_apply by (simp del: funpow.simps)
  then show ?case using Suc.IH [of ?l m] Suc.prems n by (simp del: funpow.simps)
qed

theorem listen_handshake_witness:
  "lp_state ((openListenPortTcp ^^ 5) \<lparr>lp_state = 0, lp_listenPortStream = [], lp_listenStatusStream = [0, 1]\<rparr>) = 2"
proof -
  let ?l = "\<lparr>lp_state = 0, lp_listenPortStream = [], lp_listenStatusStream = [0, 1]\<rparr>"
  have "lp_state ?l = 0" "lp_listenStatusStream ?l = replicate 1 0 @ 1 # []" by simp_all
  from listen_handshake [OF this, of 5] show ?thesis by (simp del: funpow.simps)
qed

section \<open>Notifications\<close>

definition readRequestFor :: "128 word \<Rightarrow> (32 word, 4 word) axiu list" where
  "readRequestFor w =
     (let n = ipTcpNotificationUnpack w
      in if ntf_length n = 0 then []
         else [\<lparr>au_data = ipTcpReadRequestPack_fn \<lparr>rrq_sessionID = ntf_sessionID n, rrq_length = ntf_length n\<rparr> 0,
                au_keep = ucast (0x3F :: 32 word), au_last = True\<rparr>])"

interpretation oe_notify: map_stage notificationHandlerTcp "\<lambda>_. True" nh_notificationStream nh_readRequestStream
    nh_countNotification readRequestFor
  by unfold_locales (simp_all add: notificationHandlerTcp_def readRequestFor_def s_write_def Let_def)

lemma readRequest_fields:
  "rng 15 0 (ipTcpReadRequestPack_fn r d) = rrq_sessionID r" "rng 31 16 (ipTcpReadRequestPack_fn r d) = rrq_length r"
  by (simp_all add: ipTcpReadRequestPack_fn_def rng_simps)

text \<open>Every notification with data is answered by exactly one read request for its session and length, in order, and
  those without data by none.\<close>

theorem notifications_answered:
  assumes "length (nh_notificationStream h) \<le> n"
  shows "map (\<lambda>q. (rng 15 0 (au_data q) :: 16 word, rng 31 16 (au_data q) :: 16 word))
      (drop (length (nh_readRequestStream h)) (nh_readRequestStream ((notificationHandlerTcp ^^ n) h))) =
    map (\<lambda>t. (ntf_sessionID t, ntf_length t))
      (filter (\<lambda>t. ntf_length t \<noteq> 0) (map ipTcpNotificationUnpack (nh_notificationStream h))) \<and>
    nh_notificationStream ((notificationHandlerTcp ^^ n) h) = []"
proof -
  have "map (\<lambda>q. (rng 15 0 (au_data q) :: 16 word, rng 31 16 (au_data q) :: 16 word)) (concat (map readRequestFor ws)) =
      map (\<lambda>t. (ntf_sessionID t, ntf_length t)) (filter (\<lambda>t. ntf_length t \<noteq> 0) (map ipTcpNotificationUnpack ws))" for ws
    by (induction ws) (simp_all add: readRequestFor_def readRequest_fields Let_def)
  then show ?thesis using oe_notify.map_drain [OF TrueI assms] by (simp del: funpow.simps)
qed

theorem notifications_answered_witness:
  "nh_notificationStream ((notificationHandlerTcp ^^ 2)
     \<lparr>nh_countNotification = 0, nh_countReadRequest = 0, nh_notificationStream = [0x100007, 3], nh_readRequestStream = [],
      nh_regNotification = 0, nh_regReadRequest = 0\<rparr>) = []"
  using notifications_answered [of "\<lparr>nh_countNotification = 0, nh_countReadRequest = 0,
      nh_notificationStream = [0x100007, 3], nh_readRequestStream = [], nh_regNotification = 0, nh_regReadRequest = 0\<rparr>" 2]
  by (simp del: funpow.simps)

section \<open>Received data\<close>

lemma server_words:
  "is_packet p \<Longrightarrow> sv_state v = 1 \<Longrightarrow> sv_rxDataStream v = p @ ds \<Longrightarrow>
    sv_state ((serverProcessTcp ^^ length p) v) = 0 \<and> sv_rxDataStream ((serverProcessTcp ^^ length p) v) = ds \<and>
    sv_rxMetaStream ((serverProcessTcp ^^ length p) v) = sv_rxMetaStream v \<and>
    sv_countRxMeta ((serverProcessTcp ^^ length p) v) = sv_countRxMeta v \<and>
    sv_countRxData ((serverProcessTcp ^^ length p) v) = sv_countRxData v + of_nat (length p)"
proof (induction p arbitrary: v)
  case (Cons w p)
  let ?v = "serverProcessTcp v"
  have v: "sv_state ?v = (if ax_last w then 0 else 1)" "sv_rxDataStream ?v = p @ ds" "sv_rxMetaStream ?v = sv_rxMetaStream v"
    "sv_countRxMeta ?v = sv_countRxMeta v" "sv_countRxData ?v = sv_countRxData v + 1"
    using Cons.prems by (simp_all add: serverProcessTcp_def Let_def)
  show ?case
  proof (cases "ax_last w")
    case True
    then have "p = []" using Cons.prems(1) by (simp add: is_packet_Cons)
    then show ?thesis using v True by simp
  next
    case False
    then have "is_packet p" using Cons.prems(1) by (simp add: is_packet_Cons)
    have u: "(serverProcessTcp ^^ length (w # p)) v = (serverProcessTcp ^^ length p) ?v"
      by (simp add: funpow_swap1)
    show ?thesis using Cons.IH [OF \<open>is_packet p\<close> _ v(2)] v False unfolding u by (simp add: add.assoc)
  qed
qed simp

lemma server_packet:
  assumes "is_packet p" and "sv_state v = 0" and "sv_rxMetaStream v = m # ms" and "sv_rxDataStream v = p @ ds"
  defines "v' \<equiv> (serverProcessTcp ^^ (1 + length p)) v"
  shows "sv_state v' = 0" "sv_rxDataStream v' = ds" "sv_rxMetaStream v' = ms"
    "sv_countRxMeta v' = sv_countRxMeta v + 1" "sv_countRxData v' = sv_countRxData v + of_nat (length p)"
proof -
  let ?v = "serverProcessTcp v"
  have v: "sv_state ?v = 1" "sv_rxDataStream ?v = p @ ds" "sv_rxMetaStream ?v = ms"
    "sv_countRxMeta ?v = sv_countRxMeta v + 1" "sv_countRxData ?v = sv_countRxData v"
    using assms(2-4) by (simp_all add: serverProcessTcp_def Let_def)
  have "v' = (serverProcessTcp ^^ length p) ?v" by (simp only: v'_def funpow_add_apply) simp
  then show "sv_state v' = 0" "sv_rxDataStream v' = ds" "sv_rxMetaStream v' = ms"
    "sv_countRxMeta v' = sv_countRxMeta v + 1" "sv_countRxData v' = sv_countRxData v + of_nat (length p)"
    using server_words [OF assms(1) v(1,2)] v by simp_all
qed

text \<open>The server drains what the network kernel delivers: for as many packets as metadata words, one call per metadata word and
  one per data word later both streams are empty, the server waits for the next packet, and both are
  counted.\<close>

theorem server_drains:
  assumes "sv_state v = 0" and "sv_rxDataStream v = concat ps" and "length (sv_rxMetaStream v) = length ps"
    and "\<forall>p\<in>set ps. is_packet p"
  defines "v' \<equiv> (serverProcessTcp ^^ (length ps + length (concat ps))) v"
  shows "sv_state v' = 0 \<and> sv_rxMetaStream v' = [] \<and> sv_rxDataStream v' = [] \<and>
    sv_countRxMeta v' = sv_countRxMeta v + of_nat (length ps) \<and>
    sv_countRxData v' = sv_countRxData v + of_nat (length (concat ps))"
  using assms(1-4) unfolding v'_def
proof (induction ps arbitrary: v)
  case (Cons p ps)
  then obtain m ms where m: "sv_rxMetaStream v = m # ms" "length ms = length ps" by (cases "sv_rxMetaStream v") auto
  have "is_packet p" "sv_rxDataStream v = p @ concat ps" using Cons.prems by simp_all
  note s = server_packet [OF this(1) Cons.prems(1) m(1) this(2)]
  let ?v = "(serverProcessTcp ^^ (1 + length p)) v"
  have n: "length (p # ps) + length (concat (p # ps)) = (1 + length p) + (length ps + length (concat ps))" by simp
  show ?case
    unfolding n funpow_add_apply [where m = "1 + length p"]
    using Cons.IH [of ?v] s m(2) Cons.prems(4) by (simp del: funpow.simps)
qed simp

theorem server_drains_witness:
  "sv_rxDataStream ((serverProcessTcp ^^ 3) \<lparr>sv_state = 0, sv_countRxData = 0, sv_countRxMeta = 0, sv_rxMetaStream = [9],
     sv_rxDataStream = [\<lparr>ax_data = 1, ax_keep = - 1, ax_last = False\<rparr>, \<lparr>ax_data = 2, ax_keep = - 1, ax_last = True\<rparr>],
     sv_regRxData = 0, sv_regRxMeta = 0\<rparr>) = []"
proof -
  let ?p = "[\<lparr>ax_data = 1, ax_keep = - 1, ax_last = False\<rparr>, \<lparr>ax_data = 2, ax_keep = - 1, ax_last = True\<rparr>]"
  let ?v = "\<lparr>sv_state = 0, sv_countRxData = 0, sv_countRxMeta = 0, sv_rxMetaStream = [9], sv_rxDataStream = ?p,
     sv_regRxData = 0, sv_regRxMeta = 0\<rparr>"
  have "sv_state ?v = 0" "sv_rxDataStream ?v = concat [?p]" "length (sv_rxMetaStream ?v) = length [?p]"
    "\<forall>p\<in>set [?p]. is_packet p" by simp_all
  from server_drains [OF this] show ?thesis by (simp add: eval_nat_numeral del: funpow.simps)
qed

end
