(* ===== verification/Toe_Types.thy ===== *)
theory Toe_Types
  imports Hls_Stream
begin

text \<open>
  The messages that the modules of the TCP offload engine exchange
  (\<^verbatim>\<open>hw/tcp_udp_ip/hls/toe/toe_internals.hpp\<close>, \<^verbatim>\<open>toe_config.hpp\<close>,
  \<^verbatim>\<open>toe.hpp\<close>), in the configuration the repository builds: 32 sessions, 16-bit windows without
  scaling, \<open>TCP_NODELAY\<close> on, and the timer constants of a synthesised kernel.  One-bit flags are
  \<open>bool\<close>.

  Every module keeps a table of \<open>MAX_SESSIONS\<close> entries and indexes it with 16-bit session
  identifiers.  An index past the end is undefined in the source and traps here (\<open>None\<close>).

  The modules run forever and are driven by their neighbours.  \<open>reaches step env\<close> is the closure of
  the module's step and of the moves \<open>env\<close> of its neighbours, on which the invariants are proved.
\<close>

section \<open>Configuration\<close>

definition MAX_SESSIONS :: nat where "MAX_SESSIONS = 32"
definition MSS :: nat where "MSS = 1460"

text \<open>\<open>(us / 0.0033 / MAX_SESSIONS) + 1\<close>, truncated: rounds over the table in \<open>us\<close> microseconds.\<close>

definition timeConst :: "nat \<Rightarrow> 32 word" where
  "timeConst us = of_nat (us * 10000 div (33 * MAX_SESSIONS) + 1)"

definition TIME_64us :: "32 word" where "TIME_64us = timeConst 64"
definition TIME_50ms :: "32 word" where "TIME_50ms = timeConst 50000"
definition TIME_1s :: "32 word" where "TIME_1s = timeConst 1000000"
definition TIME_5s :: "32 word" where "TIME_5s = timeConst 5000000"
definition TIME_10s :: "32 word" where "TIME_10s = timeConst 10000000"
definition TIME_15s :: "32 word" where "TIME_15s = timeConst 15000000"
definition TIME_30s :: "32 word" where "TIME_30s = timeConst 30000000"
definition TIME_60s :: "32 word" where "TIME_60s = timeConst 60000000"

definition inTable :: "16 word \<Rightarrow> bool" where
  "inTable sessionID \<longleftrightarrow> unat sessionID < MAX_SESSIONS"

lemma inTable_0 [simp]: "inTable 0"
  by (simp add: inTable_def MAX_SESSIONS_def)

lemma inTable_less: "inTable s \<longleftrightarrow> s < 32"
  by (simp add: inTable_def MAX_SESSIONS_def word_less_nat_alt)

section \<open>Messages\<close>

datatype eventType = TX | RT | ACK | SYN | SYN_ACK | FIN | RST_ACK | RST | ACK_NODELAY

datatype sessionState = CLOSED | SYN_SENT | SYN_RECEIVED | ESTABLISHED | FIN_WAIT_1 | FIN_WAIT_2
  | CLOSING | TIME_WAIT | LAST_ACK

record fourTuple =
  ft_srcIp :: "32 word"
  ft_dstIp :: "32 word"
  ft_srcPort :: "16 word"
  ft_dstPort :: "16 word"

record sessionLookupQuery =
  lq_tuple :: fourTuple
  lq_allowCreation :: bool

record sessionLookupReply =
  lr_sessionID :: "16 word"
  lr_hit :: bool

record stateQuery =
  sq_sessionID :: "16 word"
  sq_state :: sessionState
  sq_write :: bool

record toeEvent =
  ev_type :: eventType
  ev_sessionID :: "16 word"
  ev_address :: "16 word"
  ev_length :: "16 word"
  ev_rt_count :: "3 word"
  ev_subSum :: "16 word"
  ev_validSum :: bool

definition plainEvent :: "eventType \<Rightarrow> 16 word \<Rightarrow> 3 word \<Rightarrow> toeEvent" where
  "plainEvent t i rt_count =
     \<lparr>ev_type = t, ev_sessionID = i, ev_address = 0, ev_length = 0, ev_rt_count = rt_count,
      ev_subSum = 0, ev_validSum = False\<rparr>"

record openStatus =
  op_sessionID :: "16 word"
  op_success :: bool

record appNotification =
  an_sessionID :: "16 word"
  an_length :: "16 word"
  an_ipAddress :: "32 word"
  an_dstPort :: "16 word"
  an_closed :: bool
  an_opened :: bool

definition sessionNotification :: "16 word \<Rightarrow> appNotification" where
  "sessionNotification i =
     \<lparr>an_sessionID = i, an_length = 0, an_ipAddress = 0, an_dstPort = 0, an_closed = False, an_opened = False\<rparr>"

section \<open>Modules among their neighbours\<close>

inductive reaches :: "('s \<Rightarrow> 's option) \<Rightarrow> ('s \<Rightarrow> 's \<Rightarrow> bool) \<Rightarrow> 's \<Rightarrow> 's \<Rightarrow> bool"
  for step env k where
  reaches_refl: "reaches step env k k"
| reaches_step: "reaches step env k s \<Longrightarrow> step s = Some t \<Longrightarrow> reaches step env k t"
| reaches_env: "reaches step env k s \<Longrightarrow> env s t \<Longrightarrow> reaches step env k t"

lemma reaches_inv:
  fixes inv :: "'s \<Rightarrow> bool"
  assumes "reaches step env k s" and "inv k"
    and "\<And>s t. inv s \<Longrightarrow> step s = Some t \<Longrightarrow> inv t"
    and "\<And>s t. inv s \<Longrightarrow> env s t \<Longrightarrow> inv t"
  shows "inv s"
  using assms(1) by induction (use assms(2-4) in blast)+

lemma reaches_iter: "iter_opt step n k = Some s \<Longrightarrow> reaches step env k s"
proof (induction n arbitrary: s)
  case 0
  then show ?case by (simp add: reaches_refl)
next
  case (Suc n)
  from Suc.prems have "(case iter_opt step n k of None \<Rightarrow> None | Some t \<Rightarrow> iter_opt step 1 t) = Some s"
    using iter_opt_add [of step n 1 k] by (simp del: iter_opt.simps)
  then obtain t where "iter_opt step n k = Some t" and "step t = Some s"
    by (auto split: option.splits)
  with Suc.IH show ?case by (blast intro: reaches_step)
qed

end
