(* ===== verification/Toe_State_Table.thy ===== *)
theory Toe_State_Table
  imports Toe_Types
begin

text \<open>
  The connection state of every session, \<^verbatim>\<open>toe/state_table/state_table.cpp\<close>.

  The receive engine and the application interface update an entry in two requests, a read and a
  write; the read locks the entry until the write.  A request that hits an entry locked by the
  other side is set aside and retried in calls that have nothing else to do.  The theorems: no
  entry is locked by both sides, a locked entry is changed by its holder only, and the table with its
  answers is a serial execution of the requests on an atomic table.
\<close>

section \<open>Model\<close>

record stateTable =
  st_table :: "16 word \<Rightarrow> sessionState"
  st_txSessionID :: "16 word"
  st_rxSessionID :: "16 word"
  st_rxSessionLocked :: bool
  st_txSessionLocked :: bool
  st_txAccess :: stateQuery
  st_rxAccess :: stateQuery
  st_txWait :: bool
  st_rxWait :: bool
  st_closeSessionID :: "16 word"
  st_closeWait :: bool
  st_cntActiveOpens :: "32 word"
  st_cntPassiveOpens :: "32 word"
  st_statActiveOpens :: "32 word"
  st_statPassiveOpens :: "32 word"
  st_rxUpdReq :: "stateQuery hls_stream"
  st_txUpdReq :: "stateQuery hls_stream"
  st_txReq :: "16 word hls_stream"
  st_releaseState :: "16 word hls_stream"
  st_rxUpdRsp :: "sessionState hls_stream"
  st_txUpdRsp :: "sessionState hls_stream"
  st_txRsp :: "sessionState hls_stream"
  st_releaseSession :: "16 word hls_stream"
  st_clearSession :: "16 word hls_stream"

text \<open>The statics at load.\<close>

definition stateTableReset :: stateTable where
  "stateTableReset =
     \<lparr>st_table = (\<lambda>_. CLOSED), st_txSessionID = 0, st_rxSessionID = 0, st_rxSessionLocked = False,
      st_txSessionLocked = False, st_txAccess = \<lparr>sq_sessionID = 0, sq_state = CLOSED, sq_write = False\<rparr>,
      st_rxAccess = \<lparr>sq_sessionID = 0, sq_state = CLOSED, sq_write = False\<rparr>, st_txWait = False,
      st_rxWait = False, st_closeSessionID = 0, st_closeWait = False, st_cntActiveOpens = 0,
      st_cntPassiveOpens = 0, st_statActiveOpens = 0, st_statPassiveOpens = 0, st_rxUpdReq = [],
      st_txUpdReq = [], st_txReq = [], st_releaseState = [], st_rxUpdRsp = [], st_txUpdRsp = [],
      st_txRsp = [], st_releaseSession = [], st_clearSession = []\<rparr>"

text \<open>The access of the application interface, and of the receive engine.  The source spells both out twice,
  for a request just read and for one that was set aside; the receive engine's copies differ: only the first
  tells the delayed acknowledgements to clear the session (\<open>clear\<close>).\<close>

definition txPerform :: "stateTable \<Rightarrow> stateTable option" where
  "txPerform k =
     (let a = st_txAccess k; i = sq_sessionID a in
      if \<not> inTable i then None
      else if sq_write a then
        Some (k\<lparr>st_table := (st_table k)(i := sq_state a), st_txSessionLocked := False,
                st_cntActiveOpens := st_cntActiveOpens k + (if sq_state a = SYN_SENT then 1 else 0)\<rparr>)
      else Some (k\<lparr>st_txUpdRsp := s_write (st_txUpdRsp k) (st_table k i),
                   st_txSessionID := i, st_txSessionLocked := True\<rparr>))"

definition rxPerform :: "bool \<Rightarrow> stateTable \<Rightarrow> stateTable option" where
  "rxPerform clear k =
     (let a = st_rxAccess k; i = sq_sessionID a in
      if \<not> inTable i then None
      else if sq_write a then
        (let k = (if sq_state a = CLOSED
                  then (let k = k\<lparr>st_releaseSession := s_write (st_releaseSession k) i\<rparr>
                        in if clear then k\<lparr>st_clearSession := s_write (st_clearSession k) i\<rparr> else k)
                  else if sq_state a = SYN_RECEIVED then k\<lparr>st_cntPassiveOpens := st_cntPassiveOpens k + 1\<rparr>
                  else k)
         in Some (k\<lparr>st_table := (st_table k)(i := sq_state a), st_rxSessionLocked := False\<rparr>))
      else Some (k\<lparr>st_rxUpdRsp := s_write (st_rxUpdRsp k) (st_table k i),
                   st_rxSessionID := i, st_rxSessionLocked := True\<rparr>))"

definition closePerform :: "stateTable \<Rightarrow> stateTable option" where
  "closePerform k =
     (let i = st_closeSessionID k in
      if \<not> inTable i then None
      else Some (k\<lparr>st_table := (st_table k)(i := CLOSED),
                   st_releaseSession := s_write (st_releaseSession k) i\<rparr>))"

definition rxHolds :: "stateTable \<Rightarrow> 16 word \<Rightarrow> bool" where
  "rxHolds k i \<longleftrightarrow> i = st_rxSessionID k \<and> st_rxSessionLocked k"

definition txHolds :: "stateTable \<Rightarrow> 16 word \<Rightarrow> bool" where
  "txHolds k i \<longleftrightarrow> i = st_txSessionID k \<and> st_txSessionLocked k"

text \<open>One branch per client, for a request just read.\<close>

definition txUpdate :: "stateTable \<Rightarrow> stateTable option" where
  "txUpdate k =
     (let k = k\<lparr>st_txAccess := s_head (st_txUpdReq k), st_txUpdReq := s_rest (st_txUpdReq k)\<rparr>
      in if rxHolds k (sq_sessionID (st_txAccess k)) then Some (k\<lparr>st_txWait := True\<rparr>) else txPerform k)"

definition txQuery :: "stateTable \<Rightarrow> stateTable option" where
  "txQuery k =
     (let i = s_head (st_txReq k)
      in Some (k\<lparr>st_txReq := s_rest (st_txReq k),
                 st_txRsp := s_write (st_txRsp k) (if inTable i then st_table k i else CLOSED)\<rparr>))"

definition rxUpdate :: "stateTable \<Rightarrow> stateTable option" where
  "rxUpdate k =
     (let k = k\<lparr>st_rxAccess := s_head (st_rxUpdReq k), st_rxUpdReq := s_rest (st_rxUpdReq k)\<rparr>
      in if txHolds k (sq_sessionID (st_rxAccess k)) then Some (k\<lparr>st_rxWait := True\<rparr>) else rxPerform True k)"

definition timerRelease :: "stateTable \<Rightarrow> stateTable option" where
  "timerRelease k =
     (let k = k\<lparr>st_closeSessionID := s_head (st_releaseState k), st_releaseState := s_rest (st_releaseState k)\<rparr>
      in if rxHolds k (st_closeSessionID k) \<or> txHolds k (st_closeSessionID k)
         then Some (k\<lparr>st_closeWait := True\<rparr>) else closePerform k)"

text \<open>The request that waits, in a call without a new one.\<close>

definition waitingAccess :: "stateTable \<Rightarrow> stateTable option" where
  "waitingAccess k =
     (if st_txWait k then
        (if rxHolds k (sq_sessionID (st_txAccess k)) then Some k
         else map_option (\<lambda>k. k\<lparr>st_txWait := False\<rparr>) (txPerform k))
      else if st_rxWait k then
        (if txHolds k (sq_sessionID (st_rxAccess k)) then Some k
         else map_option (\<lambda>k. k\<lparr>st_rxWait := False\<rparr>) (rxPerform False k))
      else if st_closeWait k then
        (if rxHolds k (st_closeSessionID k) \<or> txHolds k (st_closeSessionID k) then Some k
         else map_option (\<lambda>k. k\<lparr>st_closeWait := False\<rparr>) (closePerform k))
      else Some k)"

definition publishStats :: "stateTable \<Rightarrow> stateTable" where
  "publishStats k =
     k\<lparr>st_statActiveOpens := st_cntActiveOpens k, st_statPassiveOpens := st_cntPassiveOpens k\<rparr>"

definition state_table :: "stateTable \<Rightarrow> stateTable option" where
  "state_table k =
     map_option publishStats
       (if \<not> s_empty (st_txUpdReq k) \<and> \<not> st_txWait k then txUpdate k
        else if \<not> s_empty (st_txReq k) then txQuery k
        else if \<not> s_empty (st_rxUpdReq k) \<and> \<not> st_rxWait k then rxUpdate k
        else if \<not> s_empty (st_releaseState k) \<and> \<not> st_closeWait k then timerRelease k
        else waitingAccess k)"

lemmas state_table_defs = state_table_def txUpdate_def txQuery_def rxUpdate_def timerRelease_def
  waitingAccess_def txPerform_def rxPerform_def closePerform_def publishStats_def

section \<open>Locks\<close>

text \<open>The neighbours of the table only touch its streams.\<close>

definition streamsOnly :: "stateTable \<Rightarrow> stateTable \<Rightarrow> bool" where
  "streamsOnly s t \<longleftrightarrow>
     (\<exists>a b c d e f g h i. t = s\<lparr>st_rxUpdReq := a, st_txUpdReq := b, st_txReq := c, st_releaseState := d,
        st_rxUpdRsp := e, st_txUpdRsp := f, st_txRsp := g, st_releaseSession := h, st_clearSession := i\<rparr>)"

definition lockedApart :: "stateTable \<Rightarrow> bool" where
  "lockedApart k \<longleftrightarrow> (\<forall>i. \<not> (rxHolds k i \<and> txHolds k i))"

lemma lockedApart_iff:
  "lockedApart k \<longleftrightarrow> \<not> (st_rxSessionLocked k \<and> st_txSessionLocked k \<and> st_rxSessionID k = st_txSessionID k)"
  by (auto simp: lockedApart_def rxHolds_def txHolds_def)

lemma lockedApart_step:
  assumes "lockedApart k" and "state_table k = Some k'"
  shows "lockedApart k'"
  using assms
  by (auto simp: state_table_defs lockedApart_iff rxHolds_def txHolds_def Let_def
      split: if_splits)

lemma lockedApart_env: "lockedApart k \<Longrightarrow> streamsOnly k k' \<Longrightarrow> lockedApart k'"
  by (auto simp: streamsOnly_def lockedApart_iff)

text \<open>C20: Whatever the neighbours request, and in whatever order the calls interleave with their requests, no
  session is ever locked by the receive engine and by the application interface at once.\<close>

theorem state_table_mutex:
  assumes "reaches state_table streamsOnly stateTableReset k"
  shows "\<not> (rxHolds k i \<and> txHolds k i)"
proof -
  have "lockedApart stateTableReset" by (simp add: lockedApart_iff stateTableReset_def)
  from reaches_inv [where inv = lockedApart, OF assms this lockedApart_step lockedApart_env]
  show ?thesis by (simp add: lockedApart_def)
qed

theorem state_table_mutex_witness:
  "let k = stateTableReset\<lparr>st_rxUpdReq := [\<lparr>sq_sessionID = 3, sq_state = CLOSED, sq_write = False\<rparr>]\<rparr>
   in \<exists>k'. state_table k = Some k' \<and> rxHolds k' 3 \<and> \<not> (rxHolds k' 3 \<and> txHolds k' 3)"
proof -
  let ?k = "stateTableReset\<lparr>st_rxUpdReq := [\<lparr>sq_sessionID = 3, sq_state = CLOSED, sq_write = False\<rparr>]\<rparr>"
  have "streamsOnly stateTableReset ?k"
    unfolding streamsOnly_def by (rule exI)+ (simp add: stateTableReset_def)
  then have r: "reaches state_table streamsOnly stateTableReset ?k"
    by (blast intro: reaches_refl reaches_env)
  have "\<exists>k'. state_table ?k = Some k' \<and> rxHolds k' 3"
    by (simp add: state_table_defs stateTableReset_def rxHolds_def txHolds_def inTable_less)
  then obtain k' where k': "state_table ?k = Some k'" "rxHolds k' 3" by blast
  from state_table_mutex [OF reaches_step [OF r k'(1)], of 3] k' show ?thesis by auto
qed

definition rxQuiet :: "16 word \<Rightarrow> sessionState \<Rightarrow> stateTable \<Rightarrow> bool" where
  "rxQuiet i v k \<longleftrightarrow> rxHolds k i \<and> \<not> st_rxWait k \<and> st_rxUpdReq k = [] \<and> st_table k i = v"

lemma rxQuiet_step:
  assumes "rxQuiet i v k" and "state_table k = Some k'"
  shows "rxQuiet i v k'"
  using assms
  by (auto simp: state_table_defs rxQuiet_def rxHolds_def txHolds_def Let_def split: if_splits)

lemma rxQuiet_env: "rxQuiet i v k \<Longrightarrow> streamsOnly k k' \<and> st_rxUpdReq k' = [] \<Longrightarrow> rxQuiet i v k'"
  by (auto simp: streamsOnly_def rxQuiet_def rxHolds_def)

text \<open>Read-modify-write is atomic.  From the read by which the receive engine locks a session until its next
  request, the entry keeps the value that was answered, through any number of calls and any requests of the
  application and of the timers; the write that follows is not held up by any lock, changes the entry in the
  call that takes it and gives the lock back.\<close>

theorem state_lock_atomic:
  assumes "rxHolds k i" and "inTable i" and "\<not> st_rxWait k" and "st_rxUpdReq k = []"
    and "lockedApart k"
    and "reaches state_table (\<lambda>s t. streamsOnly s t \<and> st_rxUpdReq t = []) k k'"
  shows "rxHolds k' i \<and> st_table k' i = st_table k i \<and>
    (\<exists>k''. state_table (k'\<lparr>st_txUpdReq := [], st_txReq := [],
           st_rxUpdReq := [\<lparr>sq_sessionID = i, sq_state = v, sq_write = True\<rparr>]\<rparr>) = Some k'' \<and>
         st_table k'' i = v \<and> \<not> rxHolds k'' i)"
proof -
  have start: "rxQuiet i (st_table k i) k" using assms by (simp add: rxQuiet_def)
  have q: "rxQuiet i (st_table k i) k'"
    using reaches_inv [where inv = "rxQuiet i (st_table k i)", OF assms(6) start rxQuiet_step rxQuiet_env] .
  then have kept: "rxHolds k' i \<and> st_table k' i = st_table k i" by (simp add: rxQuiet_def)
  have "lockedApart k'"
    by (rule reaches_inv [where inv = lockedApart, OF assms(6,5)])
      (blast intro: lockedApart_step lockedApart_env)+
  with q have "\<not> txHolds k' i" and "\<not> st_rxWait k'"
    by (auto simp: rxQuiet_def lockedApart_def)
  moreover define t where "t = k'\<lparr>st_txUpdReq := [], st_txReq := [],
           st_rxUpdReq := [\<lparr>sq_sessionID = i, sq_state = v, sq_write = True\<rparr>]\<rparr>"
  ultimately have "state_table t = map_option publishStats (rxPerform True
      (t\<lparr>st_rxAccess := \<lparr>sq_sessionID = i, sq_state = v, sq_write = True\<rparr>, st_rxUpdReq := []\<rparr>))"
    by (auto simp: state_table_def rxUpdate_def txHolds_def Let_def)
  with assms(2) have "\<exists>k''. state_table t = Some k'' \<and> st_table k'' i = v \<and> \<not> rxHolds k'' i"
    by (simp add: rxPerform_def publishStats_def rxHolds_def Let_def)
  with kept show ?thesis unfolding t_def by blast
qed

section \<open>Serial execution\<close>

datatype tableAccess = TxAccess stateQuery | TxQuery "16 word" | RxAccess stateQuery | TimerClose "16 word"

record atomicTable =
  at_table :: "16 word \<Rightarrow> sessionState"
  at_txUpdRsp :: "sessionState list"
  at_txRsp :: "sessionState list"
  at_rxUpdRsp :: "sessionState list"
  at_released :: "16 word list"
  at_opens :: "32 word \<times> 32 word"

fun serialAccess :: "tableAccess \<Rightarrow> atomicTable \<Rightarrow> atomicTable" where
  "serialAccess (TxAccess q) a =
     (if sq_write q then a\<lparr>at_table := (at_table a)(sq_sessionID q := sq_state q),
        at_opens := (fst (at_opens a) + (if sq_state q = SYN_SENT then 1 else 0), snd (at_opens a))\<rparr>
      else a\<lparr>at_txUpdRsp := at_txUpdRsp a @ [at_table a (sq_sessionID q)]\<rparr>)"
| "serialAccess (TxQuery i) a = a\<lparr>at_txRsp := at_txRsp a @ [if inTable i then at_table a i else CLOSED]\<rparr>"
| "serialAccess (RxAccess q) a =
     (if sq_write q then a\<lparr>at_table := (at_table a)(sq_sessionID q := sq_state q),
        at_released := at_released a @ (if sq_state q = CLOSED then [sq_sessionID q] else []),
        at_opens := (fst (at_opens a), snd (at_opens a) + (if sq_state q = SYN_RECEIVED then 1 else 0))\<rparr>
      else a\<lparr>at_rxUpdRsp := at_rxUpdRsp a @ [at_table a (sq_sessionID q)]\<rparr>)"
| "serialAccess (TimerClose i) a =
     a\<lparr>at_table := (at_table a)(i := CLOSED), at_released := at_released a @ [i]\<rparr>"

definition absTable :: "stateTable \<Rightarrow> atomicTable" where
  "absTable k =
     \<lparr>at_table = st_table k, at_txUpdRsp = st_txUpdRsp k, at_txRsp = st_txRsp k, at_rxUpdRsp = st_rxUpdRsp k,
      at_released = st_releaseSession k, at_opens = (st_cntActiveOpens k, st_cntPassiveOpens k)\<rparr>"

text \<open>What each client has requested and not been served, oldest first.\<close>

definition setAside :: "bool \<Rightarrow> 'a \<Rightarrow> 'a list" where
  "setAside waits a = (if waits then [a] else [])"

lemma setAside_simps [simp]: "setAside True a = [a]" "setAside False a = []"
  by (simp_all add: setAside_def)

definition txPending :: "stateTable \<Rightarrow> stateQuery list" where
  "txPending k = setAside (st_txWait k) (st_txAccess k) @ st_txUpdReq k"
definition rxPending :: "stateTable \<Rightarrow> stateQuery list" where
  "rxPending k = setAside (st_rxWait k) (st_rxAccess k) @ st_rxUpdReq k"
definition closePending :: "stateTable \<Rightarrow> 16 word list" where
  "closePending k = setAside (st_closeWait k) (st_closeSessionID k) @ st_releaseState k"

fun pickTx :: "tableAccess \<Rightarrow> stateQuery list" where
  "pickTx (TxAccess q) = [q]" | "pickTx _ = []"
fun pickQuery :: "tableAccess \<Rightarrow> 16 word list" where
  "pickQuery (TxQuery i) = [i]" | "pickQuery _ = []"
fun pickRx :: "tableAccess \<Rightarrow> stateQuery list" where
  "pickRx (RxAccess q) = [q]" | "pickRx _ = []"
fun pickClose :: "tableAccess \<Rightarrow> 16 word list" where
  "pickClose (TimerClose i) = [i]" | "pickClose _ = []"

text \<open>The accesses \<open>accs\<close>, executed one after the other on the atomic table, lead from \<open>k\<close> to \<open>k'\<close> and
  use up the requests of each client from the front.\<close>

definition serialized :: "stateTable \<Rightarrow> tableAccess list \<Rightarrow> stateTable \<Rightarrow> bool" where
  "serialized k accs k' \<longleftrightarrow>
     absTable k' = fold serialAccess accs (absTable k) \<and>
     concat (map pickTx accs) @ txPending k' = txPending k \<and>
     concat (map pickQuery accs) @ st_txReq k' = st_txReq k \<and>
     concat (map pickRx accs) @ rxPending k' = rxPending k \<and>
     concat (map pickClose accs) @ closePending k' = closePending k"

lemma serialized_Nil: "serialized k [] k"
  by (simp add: serialized_def)

lemma serialized_append: "serialized k xs s \<Longrightarrow> serialized s ys t \<Longrightarrow> serialized k (xs @ ys) t"
  unfolding serialized_def fold_append comp_apply map_append concat_append append_assoc by simp

lemmas serialized_defs = serialized_def absTable_def txPending_def rxPending_def closePending_def

text \<open>Each branch of a call serves one request or sets it aside.\<close>

lemma txUpdate_serial:
  assumes "\<not> s_empty (st_txUpdReq k)" and "\<not> st_txWait k" and "txUpdate k = Some k'"
  shows "\<exists>accs. serialized k accs k'"
proof -
  obtain q qs where q: "st_txUpdReq k = q # qs" using assms(1) by (cases "st_txUpdReq k") auto
  have "serialized k (if rxHolds k (sq_sessionID q) then [] else [TxAccess q]) k'"
    using assms(2,3) q
    by (auto simp: serialized_defs txUpdate_def txPerform_def rxHolds_def s_write_def Let_def split: if_splits)
  then show ?thesis by blast
qed

lemma txQuery_serial:
  assumes "\<not> s_empty (st_txReq k)" and "txQuery k = Some k'"
  shows "\<exists>accs. serialized k accs k'"
proof -
  obtain q qs where q: "st_txReq k = q # qs" using assms(1) by (cases "st_txReq k") auto
  have "serialized k [TxQuery q] k'"
    using assms(2) q by (auto simp: serialized_defs txQuery_def s_write_def Let_def)
  then show ?thesis by blast
qed

lemma rxUpdate_serial:
  assumes "\<not> s_empty (st_rxUpdReq k)" and "\<not> st_rxWait k" and "rxUpdate k = Some k'"
  shows "\<exists>accs. serialized k accs k'"
proof -
  obtain q qs where q: "st_rxUpdReq k = q # qs" using assms(1) by (cases "st_rxUpdReq k") auto
  have "serialized k (if txHolds k (sq_sessionID q) then [] else [RxAccess q]) k'"
    using assms(2,3) q
    by (auto simp: serialized_defs rxUpdate_def rxPerform_def txHolds_def s_write_def Let_def split: if_splits)
  then show ?thesis by blast
qed

lemma timerRelease_serial:
  assumes "\<not> s_empty (st_releaseState k)" and "\<not> st_closeWait k" and "timerRelease k = Some k'"
  shows "\<exists>accs. serialized k accs k'"
proof -
  obtain q qs where q: "st_releaseState k = q # qs" using assms(1) by (cases "st_releaseState k") auto
  have "serialized k (if rxHolds k q \<or> txHolds k q then [] else [TimerClose q]) k'"
    using assms(2,3) q
    by (auto simp: serialized_defs timerRelease_def closePerform_def rxHolds_def txHolds_def s_write_def Let_def
        split: if_splits)
  then show ?thesis by blast
qed

lemma txPerform_serial:
  "txPerform k = Some k' \<Longrightarrow> st_txWait k \<Longrightarrow> serialized k [TxAccess (st_txAccess k)] (k'\<lparr>st_txWait := False\<rparr>)"
  by (auto simp: serialized_defs txPerform_def s_write_def Let_def split: if_splits)

lemma rxPerform_serial:
  "rxPerform c k = Some k' \<Longrightarrow> st_rxWait k \<Longrightarrow> serialized k [RxAccess (st_rxAccess k)] (k'\<lparr>st_rxWait := False\<rparr>)"
  by (auto simp: serialized_defs rxPerform_def s_write_def Let_def split: if_splits)

lemma closePerform_serial:
  "closePerform k = Some k' \<Longrightarrow> st_closeWait k \<Longrightarrow>
     serialized k [TimerClose (st_closeSessionID k)] (k'\<lparr>st_closeWait := False\<rparr>)"
  by (auto simp: serialized_defs closePerform_def s_write_def Let_def split: if_splits)

lemma waitingAccess_serial: "waitingAccess k = Some k' \<Longrightarrow> \<exists>accs. serialized k accs k'"
  by (auto simp: waitingAccess_def split: if_splits
      intro: serialized_Nil txPerform_serial rxPerform_serial closePerform_serial)

lemma publishStats_serial: "serialized k accs k' \<Longrightarrow> serialized k accs (publishStats k')"
  by (simp add: serialized_defs publishStats_def)

lemma state_table_serial:
  assumes "state_table k = Some k'"
  shows "\<exists>accs. serialized k accs k'"
  using assms
  by (auto simp: state_table_def split: if_splits
      dest: txUpdate_serial txQuery_serial rxUpdate_serial timerRelease_serial waitingAccess_serial
      intro: publishStats_serial)

text \<open>C19: The state table is linearizable: any number of calls has the effect and gives the answers of the
  requests executed one after the other on an atomic table, each client's in the order it made them, none lost
  and none served twice.\<close>

theorem state_table_linearizable:
  assumes "iter_opt state_table n k = Some k'"
  shows "\<exists>accs. serialized k accs k'"
  using assms
proof (induction n arbitrary: k)
  case 0
  then show ?case using serialized_Nil by auto
next
  case (Suc n)
  from Suc.prems obtain s where s: "state_table k = Some s" "iter_opt state_table n s = Some k'"
    by (auto split: option.splits)
  from state_table_serial [OF s(1)] Suc.IH [OF s(2)] show ?case by (blast intro: serialized_append)
qed

text \<open>A session that the receive engine closes while the application holds its lock is released to the session
  lookup later, but the acknowledgement delay is never told: a pending acknowledgement of the old connection can
  still go out under the identifier, when it has been given to a new one.\<close>

theorem delayed_close_keeps_ack:
  assumes "st_rxWait k" and "st_rxAccess k = \<lparr>sq_sessionID = i, sq_state = CLOSED, sq_write = True\<rparr>"
    and "inTable i" and "\<not> txHolds k i" and "\<not> st_txWait k"
    and "st_txUpdReq k = []" and "st_txReq k = []" and "st_releaseState k = []"
  shows "\<exists>k'. state_table k = Some k' \<and> st_table k' i = CLOSED \<and> \<not> st_rxWait k' \<and>
    st_releaseSession k' = st_releaseSession k @ [i] \<and> st_clearSession k' = st_clearSession k"
  using assms
  by (simp add: state_table_def waitingAccess_def rxPerform_def publishStats_def s_write_def Let_def)

theorem delayed_close_keeps_ack_witness:
  "let k = stateTableReset\<lparr>st_rxWait := True, st_rxAccess := \<lparr>sq_sessionID = 5, sq_state = CLOSED, sq_write = True\<rparr>\<rparr>
   in \<exists>k'. state_table k = Some k' \<and> st_releaseSession k' = [5] \<and> st_clearSession k' = []"
  using delayed_close_keeps_ack [of "stateTableReset\<lparr>st_rxWait := True,
      st_rxAccess := \<lparr>sq_sessionID = 5, sq_state = CLOSED, sq_write = True\<rparr>\<rparr>" 5]
  by (auto simp: stateTableReset_def inTable_less txHolds_def Let_def)

theorem state_lock_atomic_witness:
  "let k = stateTableReset\<lparr>st_rxSessionID := 3, st_rxSessionLocked := True,
         st_txUpdReq := [\<lparr>sq_sessionID = 3, sq_state = SYN_SENT, sq_write = True\<rparr>]\<rparr>
   in \<exists>k'. state_table k = Some k' \<and> rxHolds k' 3 \<and> st_table k' 3 = CLOSED"
proof -
  let ?k = "stateTableReset\<lparr>st_rxSessionID := 3, st_rxSessionLocked := True,
         st_txUpdReq := [\<lparr>sq_sessionID = 3, sq_state = SYN_SENT, sq_write = True\<rparr>]\<rparr>"
  have pre: "rxHolds ?k 3" "inTable 3" "\<not> st_rxWait ?k" "st_rxUpdReq ?k = []" "lockedApart ?k"
    by (simp_all add: stateTableReset_def rxHolds_def inTable_less lockedApart_iff)
  obtain k' where k': "state_table ?k = Some k'"
    by (auto simp: state_table_def txUpdate_def stateTableReset_def rxHolds_def)
  have "reaches state_table (\<lambda>s t. streamsOnly s t \<and> st_rxUpdReq t = []) ?k k'"
    using k' by (blast intro: reaches_refl reaches_step)
  from state_lock_atomic [OF pre this] k' show ?thesis by (simp add: stateTableReset_def)
qed

theorem state_table_linearizable_witness:
  "let k = stateTableReset\<lparr>st_rxUpdReq := [\<lparr>sq_sessionID = 3, sq_state = CLOSED, sq_write = False\<rparr>],
         st_txUpdReq := [\<lparr>sq_sessionID = 3, sq_state = SYN_SENT, sq_write = True\<rparr>]\<rparr>
   in \<exists>k' accs. iter_opt state_table 2 k = Some k' \<and> serialized k accs k' \<and> st_rxUpdRsp k' = [SYN_SENT]"
proof -
  let ?k = "stateTableReset\<lparr>st_rxUpdReq := [\<lparr>sq_sessionID = 3, sq_state = CLOSED, sq_write = False\<rparr>],
         st_txUpdReq := [\<lparr>sq_sessionID = 3, sq_state = SYN_SENT, sq_write = True\<rparr>]\<rparr>"
  have "map_option st_rxUpdRsp (iter_opt state_table 2 ?k) = Some [SYN_SENT]"
    by code_simp
  then obtain k' where k': "iter_opt state_table 2 ?k = Some k'" "st_rxUpdRsp k' = [SYN_SENT]" by auto
  from state_table_linearizable [OF k'(1)] k' show ?thesis by auto
qed

end
