(* ===== verification/Toe_Port_Table.thy ===== *)
theory Toe_Port_Table
  imports Toe_Types
begin

text \<open>
  The port table, \<^verbatim>\<open>toe/port_table/port_table.cpp\<close>: the lower half of the ports can be opened for
  listening, the upper half is handed out to connections the application opens.

  \<open>listening_port_table\<close> and \<open>free_port_table\<close> hold the two halves; \<open>check_in_multiplexer\<close> splits
  the port checks of the receive engine between them and \<open>check_out_multiplexer\<close> puts the answers back
  in order.  The theorems: a port is opened for listening once, a handed-out port is in no other
  hands, a free port is found within one turn of the cursor, and the checks are answered in order.
\<close>

section \<open>The listening half\<close>

record listenTable =
  lt_table :: "15 word \<Rightarrow> bool"
  lt_listenReq :: "16 word hls_stream"
  lt_checkReq :: "15 word hls_stream"
  lt_listenRsp :: "bool hls_stream"
  lt_checkRsp :: "bool hls_stream"

definition listening_port_table :: "listenTable \<Rightarrow> listenTable" where
  "listening_port_table k =
     (if \<not> s_empty (lt_listenReq k) then
        (let currPort = s_head (lt_listenReq k);
             k = k\<lparr>lt_listenReq := s_rest (lt_listenReq k)\<rparr> in
         if \<not> lt_table k (rng 14 0 currPort) \<and> currPort < 32768
         then k\<lparr>lt_table := (lt_table k)(ucast currPort := True), lt_listenRsp := s_write (lt_listenRsp k) True\<rparr>
         else k\<lparr>lt_listenRsp := s_write (lt_listenRsp k) False\<rparr>)
      else if \<not> s_empty (lt_checkReq k) then
        k\<lparr>lt_checkReq := s_rest (lt_checkReq k),
          lt_checkRsp := s_write (lt_checkRsp k) (lt_table k (s_head (lt_checkReq k)))\<rparr>
      else k)"

section \<open>The free half\<close>

text \<open>The stream of ports found ahead of demand holds seven (\<^verbatim>\<open>toe.cpp\<close>).\<close>

definition PORT_RSP_DEPTH :: nat where "PORT_RSP_DEPTH = 7"

record freeTable =
  ft_table :: "15 word \<Rightarrow> bool"
  ft_cursor :: "15 word"
  ft_releasePort :: "16 word hls_stream"
  ft_checkReq :: "15 word hls_stream"
  ft_checkRsp :: "bool hls_stream"
  ft_portRsp :: "16 word hls_stream"

definition free_port_table :: "freeTable \<Rightarrow> freeTable" where
  "free_port_table k =
     (let k' = (if \<not> s_empty (ft_releasePort k) then
                  (let currPort = s_head (ft_releasePort k);
                       k = k\<lparr>ft_releasePort := s_rest (ft_releasePort k)\<rparr> in
                   if 32768 \<le> currPort then k\<lparr>ft_table := (ft_table k)(rng 14 0 currPort := False)\<rparr> else k)
                else if \<not> s_empty (ft_checkReq k) then
                  k\<lparr>ft_checkReq := s_rest (ft_checkReq k),
                    ft_checkRsp := s_write (ft_checkRsp k) (ft_table k (s_head (ft_checkReq k)))\<rparr>
                else if \<not> ft_table k (ft_cursor k) \<and> \<not> s_full PORT_RSP_DEPTH (ft_portRsp k) then
                  (let freePort = upd 15 15 (1 :: 1 word) (upd 14 0 (ft_cursor k) (0 :: 16 word)) in
                   k\<lparr>ft_table := (ft_table k)(ft_cursor k := True),
                     ft_portRsp := s_write (ft_portRsp k) freePort\<rparr>)
                else k)
      in k'\<lparr>ft_cursor := ft_cursor k' + 1\<rparr>)"

section \<open>Routing of the checks\<close>

datatype cmState = READ_DST | READ_LISTENING | READ_USED

record portTable =
  pt_listen :: listenTable
  pt_free :: freeTable
  pt_checkReq :: "16 word hls_stream"
  pt_dstFifo :: "bool hls_stream"
  pt_fsm :: cmState
  pt_checkRsp :: "bool hls_stream"

definition check_in_multiplexer :: "portTable \<Rightarrow> portTable" where
  "check_in_multiplexer k =
     (if \<not> s_empty (pt_checkReq k) then
        (let checkPort = s_head (pt_checkReq k);
             k = k\<lparr>pt_checkReq := s_rest (pt_checkReq k)\<rparr> in
         if checkPort < 32768
         then k\<lparr>pt_listen := (pt_listen k)\<lparr>lt_checkReq := s_write (lt_checkReq (pt_listen k)) (ucast checkPort)\<rparr>,
                pt_dstFifo := s_write (pt_dstFifo k) True\<rparr>
         else k\<lparr>pt_free := (pt_free k)\<lparr>ft_checkReq := s_write (ft_checkReq (pt_free k)) (ucast checkPort)\<rparr>,
                pt_dstFifo := s_write (pt_dstFifo k) False\<rparr>)
      else k)"

definition check_out_multiplexer :: "portTable \<Rightarrow> portTable" where
  "check_out_multiplexer k =
     (case pt_fsm k of
        READ_DST \<Rightarrow>
          (if \<not> s_empty (pt_dstFifo k)
           then k\<lparr>pt_dstFifo := s_rest (pt_dstFifo k),
                  pt_fsm := (if s_head (pt_dstFifo k) then READ_LISTENING else READ_USED)\<rparr>
           else k)
      | READ_LISTENING \<Rightarrow>
          (if \<not> s_empty (lt_checkRsp (pt_listen k))
           then k\<lparr>pt_checkRsp := s_write (pt_checkRsp k) (s_head (lt_checkRsp (pt_listen k))),
                  pt_listen := (pt_listen k)\<lparr>lt_checkRsp := s_rest (lt_checkRsp (pt_listen k))\<rparr>,
                  pt_fsm := READ_DST\<rparr>
           else k)
      | READ_USED \<Rightarrow>
          (if \<not> s_empty (ft_checkRsp (pt_free k))
           then k\<lparr>pt_checkRsp := s_write (pt_checkRsp k) (s_head (ft_checkRsp (pt_free k))),
                  pt_free := (pt_free k)\<lparr>ft_checkRsp := s_rest (ft_checkRsp (pt_free k))\<rparr>,
                  pt_fsm := READ_DST\<rparr>
           else k))"

definition port_table :: "portTable \<Rightarrow> portTable" where
  "port_table k =
     (let k = k\<lparr>pt_listen := listening_port_table (pt_listen k)\<rparr>;
          k = k\<lparr>pt_free := free_port_table (pt_free k)\<rparr>;
          k = check_in_multiplexer k
      in check_out_multiplexer k)"

section \<open>Opening a port for listening\<close>

text \<open>The table opens \<open>p\<close> unless it is open or out of range: a stage whose memory is the table.\<close>

definition openPort :: "(15 word \<Rightarrow> bool) \<Rightarrow> 16 word \<Rightarrow> (15 word \<Rightarrow> bool) \<times> bool list" where
  "openPort t p = (let ok = \<not> t (ucast p) \<and> p < 32768
                   in (if ok then t(ucast p := True) else t, [ok]))"

lemma rng_14_0: "(rng 14 0 (p :: 16 word) :: 15 word) = ucast p"
  by (rule bit_word_eqI) (auto simp: bit_simps)

interpretation lt_open: stage listening_port_table "\<lambda>k. lt_checkReq k = []" lt_listenReq lt_listenRsp lt_table openPort
proof unfold_locales
  fix k :: listenTable
  assume "lt_checkReq k = []"
  then show "lt_checkReq (listening_port_table k) = []"
    by (simp add: listening_port_table_def Let_def)
  assume "lt_checkReq k = []" and "lt_listenReq k = []"
  then show "lt_listenReq (listening_port_table k) = [] \<and> lt_listenRsp (listening_port_table k) = lt_listenRsp k \<and>
      lt_table (listening_port_table k) = lt_table k"
    by (simp add: listening_port_table_def)
next
  fix k :: listenTable and p ps m' ys
  assume "lt_checkReq k = []" and "lt_listenReq k = p # ps" and "openPort (lt_table k) p = (m', ys)"
  then show "lt_listenReq (listening_port_table k) = ps \<and> lt_listenRsp (listening_port_table k) = lt_listenRsp k @ ys \<and>
      lt_table (listening_port_table k) = m'"
    by (auto simp: listening_port_table_def openPort_def rng_14_0 s_write_def Let_def)
qed

lemma ucast_low:
  assumes "(p :: 16 word) < 32768"
  shows "(ucast (ucast p :: 15 word) :: 16 word) = p"
proof -
  have "unat p < 2 ^ 15" using assms by (simp add: word_less_nat_alt)
  then show ?thesis
    by (simp add: word_unat_eq_iff unsigned_ucast_eq unsigned_take_bit_eq take_bit_nat_eq_self)
qed

lemma ucast_inj_low: "(p :: 16 word) < 32768 \<Longrightarrow> q < 32768 \<Longrightarrow> (ucast p :: 15 word) = ucast q \<longleftrightarrow> p = q"
  using ucast_low by metis

lemma openPorts:
  "mealy openPort t ps =
     (\<lambda>q. t q \<or> (\<exists>p \<in> set ps. p < 32768 \<and> ucast p = q),
      map (\<lambda>i. ps ! i < 32768 \<and> \<not> t (ucast (ps ! i)) \<and> ps ! i \<notin> set (take i ps)) [0..<length ps])"
proof (induction ps rule: rev_induct)
  case Nil
  then show ?case by simp
next
  case (snoc p ps)
  let ?t = "\<lambda>q. t q \<or> (\<exists>p \<in> set ps. p < 32768 \<and> ucast p = q)"
  have seen: "p < 32768 \<Longrightarrow> (\<exists>x \<in> set ps. x < 32768 \<and> (ucast x :: 15 word) = ucast p) \<longleftrightarrow> p \<in> set ps"
    using ucast_inj_low by blast
  have a: "snd (openPort ?t p) = [p < 32768 \<and> \<not> t (ucast p) \<and> p \<notin> set ps]"
    using seen by (auto simp: openPort_def Let_def)
  have b: "fst (openPort ?t p) = (\<lambda>q. t q \<or> (\<exists>p \<in> set (ps @ [p]). p < 32768 \<and> ucast p = q))"
    by (auto simp: openPort_def Let_def fun_eq_iff)
  have "mealy openPort t (ps @ [p]) = (fst (openPort ?t p), snd (mealy openPort t ps) @ snd (openPort ?t p))"
    by (simp add: mealy_append snoc.IH mealy.simps(2) Let_def split: prod.splits)
  then show ?case
    unfolding a b by (simp add: snoc.IH nth_append cong: if_cong)
qed

text \<open>A listening request is granted exactly when the port lies in the lower half, is not open yet and was not
  requested before; afterwards exactly the ports opened before and the granted ones are open.\<close>

theorem listen_port_once:
  assumes "lt_checkReq k = []" and "length (lt_listenReq k) \<le> n"
  defines "ps \<equiv> lt_listenReq k" and "k' \<equiv> (listening_port_table ^^ n) k"
  shows "lt_listenRsp k' = lt_listenRsp k @
      map (\<lambda>i. ps ! i < 32768 \<and> \<not> lt_table k (ucast (ps ! i)) \<and> ps ! i \<notin> set (take i ps)) [0..<length ps] \<and>
    (lt_table k' q \<longleftrightarrow> lt_table k q \<or> ucast q \<in> set ps)"
proof -
  note d = lt_open.drain [OF assms(1,2), folded k'_def, unfolded openPorts, folded ps_def]
  have up: "(ucast (ucast q :: 16 word) :: 15 word) = q" "(ucast q :: 16 word) < 32768"
    using unsigned_less [of q, where ?'a = nat]
    by (simp_all add: word_unat_eq_iff word_less_nat_alt unsigned_ucast_eq unsigned_take_bit_eq take_bit_nat_eq_self)
  then have "(\<exists>p \<in> set ps. p < 32768 \<and> ucast p = q) \<longleftrightarrow> ucast q \<in> set ps"
    using ucast_low by metis
  then show ?thesis using d(2,3) by simp
qed

theorem listen_port_once_witness:
  "let k = \<lparr>lt_table = (\<lambda>_. False), lt_listenReq = [80, 40000, 80], lt_checkReq = [], lt_listenRsp = [], lt_checkRsp = []\<rparr>
   in lt_listenRsp ((listening_port_table ^^ 3) k) = [True, False, False]"
  using listen_port_once [of "\<lparr>lt_table = (\<lambda>_. False), lt_listenReq = [80, 40000, 80], lt_checkReq = [],
      lt_listenRsp = [], lt_checkRsp = []\<rparr>" 3]
  by (simp add: upt_rec)

section \<open>Handing out a port\<close>

definition highPort :: "15 word \<Rightarrow> 16 word" where
  "highPort q = upd 15 15 (1 :: 1 word) (upd 14 0 q (0 :: 16 word))"

lemma highPort_low [simp]: "rng 14 0 (highPort q) = q"
  unfolding highPort_def by (rule bit_word_eqI) (auto simp: bit_simps)

lemma highPort_inject [simp]: "highPort p = highPort q \<longleftrightarrow> p = q"
  by (metis highPort_low)

lemma bit15_le: "bit (p :: 16 word) 15 \<longleftrightarrow> 32768 \<le> p"
proof
  assume "bit p 15"
  then have "p < 32768 \<Longrightarrow> bit (ucast (ucast p :: 15 word) :: 16 word) 15" by (simp only: ucast_low)
  then show "32768 \<le> p" by (fastforce simp: bit_simps not_le)
next
  assume le: "32768 \<le> p"
  show "bit p 15"
  proof (rule ccontr)
    assume "\<not> bit p 15"
    then have "n < 16 \<Longrightarrow> bit p n \<Longrightarrow> n < 15" for n by (cases "n = 15") auto
    then have "take_bit 15 p = p" by (intro bit_word_eqI) (auto simp: bit_simps)
    then have "unat p < 2 ^ 15" by (metis take_bit_nat_less_exp unsigned_take_bit_eq)
    with le show False by (simp add: word_le_nat_alt)
  qed
qed

lemma highPort_high: "32768 \<le> highPort q"
  unfolding highPort_def bit15_le [symmetric] by (simp add: bit_simps)

lemma high_highPort: "32768 \<le> p \<Longrightarrow> highPort (rng 14 0 p) = p"
  unfolding highPort_def bit15_le [symmetric]
  by (rule bit_word_eqI) (auto simp: bit_simps le_less_Suc_eq dest: le_neq_implies_less)

text \<open>A free-port table among its neighbours.  \<open>held\<close> are the ports in the hands of connections: the transmit
  interface takes them out of the stream, and the session lookup releases one of them, or a port of the
  lower half, when a connection ends.\<close>

inductive portUse :: "freeTable \<Rightarrow> 16 word set \<Rightarrow> bool" where
  use_start: "portUse \<lparr>ft_table = (\<lambda>_. False), ft_cursor = 0, ft_releasePort = [], ft_checkReq = [],
      ft_checkRsp = [], ft_portRsp = []\<rparr> {}"
| use_call: "portUse k held \<Longrightarrow> portUse (free_port_table k) held"
| use_check: "portUse k held \<Longrightarrow> portUse (k\<lparr>ft_checkReq := cs, ft_checkRsp := rs\<rparr>) held"
| use_take: "portUse k held \<Longrightarrow> ft_portRsp k = p # ps \<Longrightarrow> portUse (k\<lparr>ft_portRsp := ps\<rparr>) (insert p held)"
| use_release: "portUse k held \<Longrightarrow> p \<in> held \<Longrightarrow>
      portUse (k\<lparr>ft_releasePort := ft_releasePort k @ [p]\<rparr>) (held - {p})"
| use_release_low: "portUse k held \<Longrightarrow> p < 32768 \<Longrightarrow>
      portUse (k\<lparr>ft_releasePort := ft_releasePort k @ [p]\<rparr>) held"

definition releasing :: "freeTable \<Rightarrow> 16 word list" where
  "releasing k = filter (\<lambda>p. 32768 \<le> p) (ft_releasePort k)"

definition portsAccounted :: "freeTable \<Rightarrow> 16 word set \<Rightarrow> bool" where
  "portsAccounted k held \<longleftrightarrow>
     distinct (ft_portRsp k @ releasing k) \<and>
     held \<inter> set (ft_portRsp k @ releasing k) = {} \<and>
     (\<forall>p. p \<in> held \<union> set (ft_portRsp k) \<longrightarrow> 32768 \<le> p) \<and>
     (\<forall>q. ft_table k q \<longleftrightarrow> highPort q \<in> held \<union> set (ft_portRsp k @ releasing k))"

lemma releasing_Cons: "ft_releasePort k = p # ps \<Longrightarrow>
    releasing k = (if 32768 \<le> p then [p] else []) @ releasing (k\<lparr>ft_releasePort := ps\<rparr>)"
  by (simp add: releasing_def)

lemma free_call_release:
  assumes "portsAccounted k held" and "ft_releasePort k = p # ps"
  shows "portsAccounted (free_port_table k) held"
proof (cases "32768 \<le> p")
  case True
  then obtain r where "p = highPort r" using high_highPort by metis
  with assms True show ?thesis
    by (auto simp: portsAccounted_def free_port_table_def releasing_def Let_def)
next
  case False
  with assms show ?thesis
    by (auto simp: portsAccounted_def free_port_table_def releasing_def Let_def)
qed

lemma free_call:
  assumes "portsAccounted k held"
  shows "portsAccounted (free_port_table k) held"
proof (cases "ft_releasePort k")
  case Nil
  with assms show ?thesis
    using highPort_high
    by (auto simp: portsAccounted_def free_port_table_def releasing_def s_write_def Let_def
        simp flip: highPort_def)
next
  case (Cons p ps)
  with assms free_call_release show ?thesis by blast
qed

lemma portUse_accounted: "portUse k held \<Longrightarrow> portsAccounted k held"
proof (induction rule: portUse.induct)
  case use_start
  show ?case by (simp add: portsAccounted_def releasing_def)
next
  case (use_call k held)
  then show ?case by (simp add: free_call)
next
  case (use_check k held cs rs)
  then show ?case by (simp add: portsAccounted_def releasing_def)
next
  case (use_take k held p ps)
  then have "p \<notin> set ps" by (simp add: portsAccounted_def)
  with use_take show ?case by (simp add: portsAccounted_def releasing_def) blast
next
  case (use_release k held p)
  then have "32768 \<le> p" by (simp add: portsAccounted_def)
  with use_release show ?case by (auto simp: portsAccounted_def releasing_def)
next
  case (use_release_low k held p)
  then show ?case by (auto simp: portsAccounted_def releasing_def not_le)
qed

text \<open>The next port handed out is in the upper half, in nobody's hands, and offered only once; a port is marked
  used exactly while it is offered, held or on its way back.\<close>

theorem free_ports_fresh:
  assumes "portUse k held" and "ft_portRsp k = p # ps"
  shows "32768 \<le> p \<and> p \<notin> held \<and> p \<notin> set ps \<and>
    (ft_table k q \<longleftrightarrow> highPort q \<in> held \<union> set (ft_portRsp k) \<union> set (releasing k))"
  using portUse_accounted [OF assms(1)] assms(2) by (auto simp: portsAccounted_def)

theorem free_ports_fresh_witness:
  "let k = free_port_table \<lparr>ft_table = (\<lambda>_. False), ft_cursor = 0, ft_releasePort = [], ft_checkReq = [],
      ft_checkRsp = [], ft_portRsp = []\<rparr>
   in ft_portRsp k = [32768] \<and> (32768 :: 16 word) \<notin> {}"
proof -
  let ?k = "free_port_table \<lparr>ft_table = (\<lambda>_. False), ft_cursor = 0, ft_releasePort = [], ft_checkReq = [],
      ft_checkRsp = [], ft_portRsp = []\<rparr>"
  have u: "portUse ?k {}" by (rule use_call [OF use_start])
  have p: "ft_portRsp ?k = [32768]"
    by (simp add: free_port_table_def s_full_def PORT_RSP_DEPTH_def s_write_def upd_def)
  from free_ports_fresh [OF u p] p show ?thesis by simp
qed

lemma free_scan:
  assumes "ft_releasePort k = []" and "ft_checkReq k = []" and "\<not> s_full PORT_RSP_DEPTH (ft_portRsp k)"
    and "\<not> ft_table k q" and "unat (q - ft_cursor k) = d"
  shows "\<exists>n \<le> d. \<exists>r. \<not> ft_table k r \<and> ft_portRsp ((free_port_table ^^ Suc n) k) = ft_portRsp k @ [highPort r]"
  using assms
proof (induction d arbitrary: k)
  case 0
  then have "q = ft_cursor k" by (simp add: unat_eq_0)
  with 0 show ?case
    by (auto simp: free_port_table_def s_write_def Let_def simp flip: highPort_def)
next
  case (Suc d)
  show ?case
  proof (cases "ft_table k (ft_cursor k)")
    case False
    with Suc.prems have "ft_portRsp ((free_port_table ^^ Suc 0) k) = ft_portRsp k @ [highPort (ft_cursor k)]"
      by (simp add: free_port_table_def s_write_def Let_def flip: highPort_def)
    with False show ?thesis by blast
  next
    case True
    define t where "t = free_port_table k"
    have t: "ft_releasePort t = []" "ft_checkReq t = []" "ft_portRsp t = ft_portRsp k" "ft_table t = ft_table k"
      "ft_cursor t = ft_cursor k + 1"
      using Suc.prems True by (simp_all add: t_def free_port_table_def Let_def)
    have "unat (q - ft_cursor k - 1) = d" using Suc.prems(5) by (simp add: unat_minus_one flip: unat_eq_0)
    then have "unat (q - ft_cursor t) = d" by (simp add: t diff_diff_eq)
    with Suc.IH [of t] Suc.prems t obtain r m where
      m: "m \<le> d" "ft_portRsp ((free_port_table ^^ Suc m) t) = ft_portRsp k @ [highPort r]" "\<not> ft_table k r"
      by metis
    then have "ft_portRsp ((free_port_table ^^ Suc (Suc m)) k) = ft_portRsp k @ [highPort r]"
      by (simp add: t_def funpow_swap1)
    with m show ?thesis by (meson Suc_le_mono)
  qed
qed

text \<open>While nothing else is asked of the table and there is room for a port, a free port, if there is any, is
  put out within one turn of the cursor.\<close>

theorem free_port_found:
  assumes "ft_releasePort k = []" and "ft_checkReq k = []" and "\<not> s_full PORT_RSP_DEPTH (ft_portRsp k)"
    and "\<not> ft_table k q"
  shows "\<exists>n \<le> 32768. \<exists>r. \<not> ft_table k r \<and>
    ft_portRsp ((free_port_table ^^ n) k) = ft_portRsp k @ [highPort r]"
proof -
  have "unat (q - ft_cursor k) < 32768" using unsigned_less [of "q - ft_cursor k", where ?'a = nat] by simp
  with free_scan [OF assms refl] show ?thesis by (meson Suc_leI le_less_trans)
qed

theorem free_port_found_witness:
  "let k = \<lparr>ft_table = (\<lambda>q. q < 7), ft_cursor = 3, ft_releasePort = [], ft_checkReq = [], ft_checkRsp = [],
      ft_portRsp = []\<rparr>
   in \<exists>n \<le> 32768. \<exists>r \<ge> 7. ft_portRsp ((free_port_table ^^ n) k) = [highPort r]"
  using free_port_found [of "\<lparr>ft_table = (\<lambda>q. q < 7), ft_cursor = 3, ft_releasePort = [], ft_checkReq = [],
      ft_checkRsp = [], ft_portRsp = []\<rparr>" 9]
  by (simp add: s_full_def PORT_RSP_DEPTH_def not_less)

section \<open>The order of the answers\<close>

text \<open>The answers as the routes order them: \<open>ls\<close> come from the listening half, \<open>us\<close> from the free half.\<close>

fun weave :: "bool list \<Rightarrow> bool list \<Rightarrow> bool list \<Rightarrow> bool list" where
  "weave [] ls us = []"
| "weave (r # rs) ls us = (if r then hd ls # weave rs (tl ls) us else hd us # weave rs ls (tl us))"

fun routed :: "bool list \<Rightarrow> bool list \<Rightarrow> bool list \<Rightarrow> bool" where
  "routed [] ls us \<longleftrightarrow> ls = [] \<and> us = []"
| "routed (r # rs) ls us \<longleftrightarrow>
     (if r then ls \<noteq> [] \<and> routed rs (tl ls) us else us \<noteq> [] \<and> routed rs ls (tl us))"

lemma weave_listening: "routed rs ls us \<Longrightarrow>
    routed (rs @ [True]) (ls @ [x]) us \<and> weave (rs @ [True]) (ls @ [x]) us = weave rs ls us @ [x]"
  by (induction rs ls us rule: routed.induct) auto

lemma weave_used: "routed rs ls us \<Longrightarrow>
    routed (rs @ [False]) ls (us @ [x]) \<and> weave (rs @ [False]) ls (us @ [x]) = weave rs ls us @ [x]"
  by (induction rs ls us rule: routed.induct) auto

definition routes :: "portTable \<Rightarrow> bool list" where
  "routes k = (case pt_fsm k of READ_DST \<Rightarrow> [] | READ_LISTENING \<Rightarrow> [True] | READ_USED \<Rightarrow> [False]) @ pt_dstFifo k"
definition listenAnswers :: "portTable \<Rightarrow> bool list" where
  "listenAnswers k = lt_checkRsp (pt_listen k) @ map (lt_table (pt_listen k)) (lt_checkReq (pt_listen k))"
definition usedAnswers :: "portTable \<Rightarrow> bool list" where
  "usedAnswers k = ft_checkRsp (pt_free k) @ map (ft_table (pt_free k)) (ft_checkReq (pt_free k))"
definition portStatus :: "portTable \<Rightarrow> 16 word \<Rightarrow> bool" where
  "portStatus k p = (if p < 32768 then lt_table (pt_listen k) (ucast p) else ft_table (pt_free k) (ucast p))"

text \<open>The answers given, those under way and those still to be routed.\<close>

definition answers :: "portTable \<Rightarrow> bool list" where
  "answers k = pt_checkRsp k @ weave (routes k) (listenAnswers k) (usedAnswers k) @ map (portStatus k) (pt_checkReq k)"

definition checksOnly :: "portTable \<Rightarrow> bool" where
  "checksOnly k \<longleftrightarrow> lt_listenReq (pt_listen k) = [] \<and> ft_releasePort (pt_free k) = [] \<and>
     s_full PORT_RSP_DEPTH (ft_portRsp (pt_free k)) \<and> routed (routes k) (listenAnswers k) (usedAnswers k)"

definition checksLeft :: "portTable \<Rightarrow> nat" where
  "checksLeft k = 3 * length (pt_checkReq k) + 2 * length (pt_dstFifo k) + (if pt_fsm k = READ_DST then 0 else 1)"

lemmas port_defs = routes_def listenAnswers_def usedAnswers_def

lemma tables_keep:
  assumes "checksOnly k"
  defines "k' \<equiv> k\<lparr>pt_listen := listening_port_table (pt_listen k), pt_free := free_port_table (pt_free k)\<rparr>"
  shows "checksOnly k'" and "answers k' = answers k" and "portStatus k' = portStatus k" and "checksLeft k' = checksLeft k"
    and "listenAnswers k' \<noteq> [] \<Longrightarrow> lt_checkRsp (pt_listen k') \<noteq> []"
    and "usedAnswers k' \<noteq> [] \<Longrightarrow> ft_checkRsp (pt_free k') \<noteq> []"
proof -
  have l: "lt_table (pt_listen k') = lt_table (pt_listen k)" "lt_listenReq (pt_listen k') = []"
    "listenAnswers k' = listenAnswers k" "listenAnswers k' \<noteq> [] \<Longrightarrow> lt_checkRsp (pt_listen k') \<noteq> []"
    using assms by (cases "lt_checkReq (pt_listen k)";
      simp add: checksOnly_def listenAnswers_def listening_port_table_def s_write_def)+
  have u: "ft_table (pt_free k') = ft_table (pt_free k)" "ft_releasePort (pt_free k') = []"
    "ft_portRsp (pt_free k') = ft_portRsp (pt_free k)"
    "usedAnswers k' = usedAnswers k" "usedAnswers k' \<noteq> [] \<Longrightarrow> ft_checkRsp (pt_free k') \<noteq> []"
    using assms by (cases "ft_checkReq (pt_free k)";
      simp add: checksOnly_def usedAnswers_def free_port_table_def s_write_def Let_def)+
  have r: "routes k' = routes k" by (simp add: routes_def k'_def)
  show "portStatus k' = portStatus k" by (simp add: portStatus_def l u fun_eq_iff)
  then show "answers k' = answers k" by (simp add: answers_def l u r) (simp add: k'_def)
  show "checksOnly k'" using assms(1) by (simp add: checksOnly_def l u r)
  show "checksLeft k' = checksLeft k" by (simp add: checksLeft_def k'_def)
  show "listenAnswers k' \<noteq> [] \<Longrightarrow> lt_checkRsp (pt_listen k') \<noteq> []" by (rule l)
  show "usedAnswers k' \<noteq> [] \<Longrightarrow> ft_checkRsp (pt_free k') \<noteq> []" by (rule u)
qed

lemma check_in_keeps:
  assumes "checksOnly k"
  defines "k' \<equiv> check_in_multiplexer k"
  shows "checksOnly k'" and "answers k' = answers k" and "portStatus k' = portStatus k"
proof -
  have l: "lt_table (pt_listen k') = lt_table (pt_listen k)" and u: "ft_table (pt_free k') = ft_table (pt_free k)"
    by (simp_all add: k'_def check_in_multiplexer_def Let_def)
  then show p: "portStatus k' = portStatus k" by (simp add: portStatus_def fun_eq_iff)
  have c: "checksOnly k' \<and> answers k' = answers k"
  proof (cases "pt_checkReq k")
    case Nil
    with assms show ?thesis by (simp add: check_in_multiplexer_def)
  next
    case (Cons x xs)
    show ?thesis
    proof (cases "x < 32768")
      case True
      have "routes k' = routes k @ [True]" "listenAnswers k' = listenAnswers k @ [portStatus k x]"
        "usedAnswers k' = usedAnswers k"
        using Cons True by (simp_all add: k'_def check_in_multiplexer_def port_defs portStatus_def s_write_def
            split: cmState.split)
      with weave_listening [of "routes k" "listenAnswers k" "usedAnswers k" "portStatus k x"] assms(1) Cons True
      show ?thesis
        by (simp add: checksOnly_def answers_def p) (simp add: k'_def check_in_multiplexer_def)
    next
      case False
      have "routes k' = routes k @ [False]" "usedAnswers k' = usedAnswers k @ [portStatus k x]"
        "listenAnswers k' = listenAnswers k"
        using Cons False by (simp_all add: k'_def check_in_multiplexer_def port_defs portStatus_def s_write_def
            split: cmState.split)
      with weave_used [of "routes k" "listenAnswers k" "usedAnswers k" "portStatus k x"] assms(1) Cons False
      show ?thesis
        by (simp add: checksOnly_def answers_def p) (simp add: k'_def check_in_multiplexer_def)
    qed
  qed
  then show "checksOnly k'" and "answers k' = answers k" by blast+
qed

lemma check_in_left:
  "checksLeft (check_in_multiplexer k) = checksLeft k - (if pt_checkReq k = [] then 0 else 1)"
  by (cases "pt_checkReq k") (auto simp: checksLeft_def check_in_multiplexer_def s_write_def Let_def)

lemma check_in_ready:
  "lt_checkRsp (pt_listen (check_in_multiplexer k)) = lt_checkRsp (pt_listen k)"
  "ft_checkRsp (pt_free (check_in_multiplexer k)) = ft_checkRsp (pt_free k)"
  "pt_fsm (check_in_multiplexer k) = pt_fsm k"
  "pt_dstFifo k \<noteq> [] \<Longrightarrow> pt_dstFifo (check_in_multiplexer k) \<noteq> []"
  by (simp_all add: check_in_multiplexer_def s_write_def Let_def)

lemma check_out_keeps:
  assumes "checksOnly k"
  defines "k' \<equiv> check_out_multiplexer k"
  shows "checksOnly k'" and "answers k' = answers k" and "portStatus k' = portStatus k"
proof -
  have l: "lt_table (pt_listen k') = lt_table (pt_listen k)" and u: "ft_table (pt_free k') = ft_table (pt_free k)"
    by (simp_all add: k'_def check_out_multiplexer_def split: cmState.split)
  then show p: "portStatus k' = portStatus k" by (simp add: portStatus_def fun_eq_iff)
  have c: "checksOnly k' \<and> answers k' = answers k"
  proof (cases "pt_fsm k")
    case READ_DST
    with assms show ?thesis
      by (cases "pt_dstFifo k") (auto simp: checksOnly_def answers_def port_defs check_out_multiplexer_def
          portStatus_def split: cmState.split)
  next
    case READ_LISTENING
    with assms show ?thesis
      by (cases "lt_checkRsp (pt_listen k)") (auto simp: checksOnly_def answers_def port_defs check_out_multiplexer_def
          portStatus_def s_write_def)
  next
    case READ_USED
    with assms show ?thesis
      by (cases "ft_checkRsp (pt_free k)") (auto simp: checksOnly_def answers_def port_defs check_out_multiplexer_def
          portStatus_def s_write_def)
  qed
  then show "checksOnly k'" and "answers k' = answers k" by blast+
qed

lemma check_out_left:
  assumes "pt_fsm k = READ_LISTENING \<Longrightarrow> lt_checkRsp (pt_listen k) \<noteq> []"
    and "pt_fsm k = READ_USED \<Longrightarrow> ft_checkRsp (pt_free k) \<noteq> []"
  shows "checksLeft (check_out_multiplexer k) =
    checksLeft k - (if pt_fsm k = READ_DST \<and> pt_dstFifo k = [] then 0 else 1)"
  using assms
  by (cases "pt_fsm k"; cases "pt_dstFifo k") (auto simp: checksLeft_def check_out_multiplexer_def s_empty_def)

lemma checksOnly_waits:
  assumes "checksOnly k"
  shows "pt_fsm k = READ_LISTENING \<Longrightarrow> listenAnswers k \<noteq> []" and "pt_fsm k = READ_USED \<Longrightarrow> usedAnswers k \<noteq> []"
  using assms by (auto simp: checksOnly_def routes_def)

lemma port_table_check:
  assumes "checksOnly k"
  shows "checksOnly (port_table k) \<and> answers (port_table k) = answers k \<and>
    portStatus (port_table k) = portStatus k \<and> checksLeft (port_table k) \<le> checksLeft k - 1"
proof -
  define t where "t = k\<lparr>pt_listen := listening_port_table (pt_listen k), pt_free := free_port_table (pt_free k)\<rparr>"
  note t = tables_keep [OF assms, folded t_def]
  define u where "u = check_in_multiplexer t"
  note u = check_in_keeps [OF t(1), folded u_def]
  note v = check_out_keeps [OF u(1)]
  have e: "port_table k = check_out_multiplexer u" by (simp add: port_table_def u_def t_def Let_def)
  have r: "pt_fsm u = READ_LISTENING \<Longrightarrow> lt_checkRsp (pt_listen u) \<noteq> []"
    "pt_fsm u = READ_USED \<Longrightarrow> ft_checkRsp (pt_free u) \<noteq> []"
    using checksOnly_waits [OF t(1)] t(5,6) by (simp_all add: u_def check_in_ready)
  have "checksLeft (check_out_multiplexer u) \<le> checksLeft t - 1"
    using check_out_left [OF r] check_in_left [of t, folded u_def]
    by (cases "pt_checkReq t = []"; cases "pt_fsm u") (auto simp: checksLeft_def u_def check_in_multiplexer_def)
  with t u v show ?thesis by (simp add: e)
qed

text \<open>Port checks are answered in the order they were made, each with the status of its port, after at
  most three calls per check, however the two halves of the table share the work.\<close>

theorem port_checks_in_order:
  assumes "lt_listenReq (pt_listen k) = []" and "ft_releasePort (pt_free k) = []"
    and "s_full PORT_RSP_DEPTH (ft_portRsp (pt_free k))"
    and "pt_fsm k = READ_DST" and "pt_dstFifo k = []"
    and "lt_checkReq (pt_listen k) = []" and "lt_checkRsp (pt_listen k) = []"
    and "ft_checkReq (pt_free k) = []" and "ft_checkRsp (pt_free k) = []"
    and "3 * length (pt_checkReq k) \<le> n"
  shows "pt_checkRsp ((port_table ^^ n) k) = pt_checkRsp k @ map (portStatus k) (pt_checkReq k)"
proof -
  have start: "checksOnly k" "answers k = pt_checkRsp k @ map (portStatus k) (pt_checkReq k)"
    using assms by (simp_all add: checksOnly_def answers_def port_defs)
  have "checksOnly ((port_table ^^ n) k) \<and> answers ((port_table ^^ n) k) = answers k \<and>
      checksLeft ((port_table ^^ n) k) \<le> checksLeft k - n"
  proof (induction n)
    case 0
    then show ?case using start by simp
  next
    case (Suc n)
    with port_table_check [of "(port_table ^^ n) k"] show ?case by auto
  qed
  moreover have "checksLeft k \<le> n" using assms by (simp add: checksLeft_def)
  ultimately show ?thesis
    using start(2) by (auto simp: checksLeft_def answers_def routes_def split: if_splits)
qed

theorem port_checks_in_order_witness:
  "let k = \<lparr>pt_listen = \<lparr>lt_table = (\<lambda>p. p = 80), lt_listenReq = [], lt_checkReq = [], lt_listenRsp = [], lt_checkRsp = []\<rparr>,
      pt_free = \<lparr>ft_table = (\<lambda>p. p < 7), ft_cursor = 7, ft_releasePort = [], ft_checkReq = [], ft_checkRsp = [],
        ft_portRsp = map highPort [0, 1, 2, 3, 4, 5, 6]\<rparr>,
      pt_checkReq = [32770, 80, 81], pt_dstFifo = [], pt_fsm = READ_DST, pt_checkRsp = []\<rparr>
   in pt_checkRsp ((port_table ^^ 9) k) = [True, True, False]"
  using port_checks_in_order [of "\<lparr>pt_listen = \<lparr>lt_table = (\<lambda>p. p = 80), lt_listenReq = [], lt_checkReq = [], lt_listenRsp = [], lt_checkRsp = []\<rparr>,
      pt_free = \<lparr>ft_table = (\<lambda>p. p < 7), ft_cursor = 7, ft_releasePort = [], ft_checkReq = [], ft_checkRsp = [],
        ft_portRsp = map highPort [0, 1, 2, 3, 4, 5, 6]\<rparr>,
      pt_checkReq = [32770, 80, 81], pt_dstFifo = [], pt_fsm = READ_DST, pt_checkRsp = []\<rparr>" 9]
  by (simp add: s_full_def PORT_RSP_DEPTH_def portStatus_def)

end
