(* ===== verification/Toe_Timers.thy ===== *)
theory Toe_Timers
  imports Toe_Types
begin

text \<open>
  The three timers of the TCP engine: \<^verbatim>\<open>toe/retransmit_timer\<close>, \<^verbatim>\<open>toe/probe_timer\<close>,
  \<^verbatim>\<open>toe/close_timer\<close> and \<^verbatim>\<open>timerWrapper\<close> of \<^verbatim>\<open>toe.cpp\<close>.

  Each keeps one count per session and visits one session per call, round and round; requests to set
  or clear a timer take a call of their own.  The locale \<open>rotor\<close> is the contract of such a timer in
  calls without requests, and gives for any number of calls how often a session was visited and what
  its entry has become.  The three timers are its interpretations.
\<close>

section \<open>Visits\<close>

definition nextSession :: "16 word \<Rightarrow> 16 word" where
  "nextSession p = (if p + 1 = 32 then 0 else p + 1)"

text \<open>Calls until session \<open>i\<close> is visited from position \<open>p\<close>, and visits in \<open>n\<close> calls.\<close>

definition distanceTo :: "16 word \<Rightarrow> 16 word \<Rightarrow> nat" where
  "distanceTo p i = (unat i + MAX_SESSIONS - unat p) mod MAX_SESSIONS"
definition visits :: "nat \<Rightarrow> 16 word \<Rightarrow> 16 word \<Rightarrow> nat" where
  "visits n p i = (n + (MAX_SESSIONS - 1) - distanceTo p i) div MAX_SESSIONS"

fun ticks :: "('e \<Rightarrow> 'e \<times> 'o list) \<Rightarrow> nat \<Rightarrow> 'e \<Rightarrow> 'e \<times> 'o list" where
  "ticks f 0 e = (e, [])"
| "ticks f (Suc n) e = (let (e', os) = f e; (e'', os') = ticks f n e' in (e'', os @ os'))"

lemma unat_next: "inTable p \<Longrightarrow> unat (nextSession p) = (unat p + 1) mod 32"
  by (auto simp: nextSession_def inTable_def MAX_SESSIONS_def unat_word_ariths word_unat_eq_iff mod_if)

lemma inTable_next [simp]: "inTable p \<Longrightarrow> inTable (nextSession p)"
  by (simp add: inTable_def unat_next) (simp add: MAX_SESSIONS_def inTable_def)

lemma visits_0 [simp]: "inTable p \<Longrightarrow> inTable i \<Longrightarrow> visits 0 p i = 0"
  by (simp add: visits_def MAX_SESSIONS_def)

lemma distance_next:
  assumes "inTable p" and "inTable i"
  shows "distanceTo (nextSession p) i = (if i = p then 31 else distanceTo p i - 1)"
    and "i = p \<longleftrightarrow> distanceTo p i = 0" and "distanceTo p i < 32"
proof -
  have b: "unat p < 32" "unat i < 32" using assms by (simp_all add: inTable_def MAX_SESSIONS_def)
  show e: "i = p \<longleftrightarrow> distanceTo p i = 0"
    using b by (auto simp: distanceTo_def MAX_SESSIONS_def word_unat_eq_iff mod_if split: if_splits)
  show "distanceTo p i < 32" by (simp add: distanceTo_def MAX_SESSIONS_def)
  show "distanceTo (nextSession p) i = (if i = p then 31 else distanceTo p i - 1)"
    using b unfolding distanceTo_def unat_next [OF assms(1)] MAX_SESSIONS_def
    by (auto simp: word_unat_eq_iff mod_if split: if_splits)
qed

lemma visits_Suc:
  assumes "inTable p" and "inTable i"
  shows "visits (Suc n) p i = (if i = p then 1 else 0) + visits n (nextSession p) i"
  using distance_next [OF assms] by (auto simp: visits_def MAX_SESSIONS_def)

section \<open>Rotating timers\<close>

locale rotor =
  fixes step :: "'s \<Rightarrow> 's option"
    and idle :: "'s \<Rightarrow> bool"
    and pos :: "'s \<Rightarrow> 16 word"
    and entry :: "'s \<Rightarrow> 16 word \<Rightarrow> 'e"
    and outs :: "'s \<Rightarrow> 'o list"
    and tag :: "'o \<Rightarrow> 16 word"
    and tick :: "16 word \<Rightarrow> 'e \<Rightarrow> 'e \<times> 'o list"
  assumes visit: "idle s \<Longrightarrow> \<exists>t. step s = Some t \<and> idle t \<and> pos t = nextSession (pos s) \<and>
      entry t = (entry s)(pos s := fst (tick (pos s) (entry s (pos s)))) \<and>
      outs t = outs s @ snd (tick (pos s) (entry s (pos s)))"
    and pos_in: "idle s \<Longrightarrow> inTable (pos s)"
    and tagged: "x \<in> set (snd (tick i e)) \<Longrightarrow> tag x = i"
begin

lemma filter_tick: "filter (\<lambda>x. tag x = j) (snd (tick i e)) = (if i = j then snd (tick i e) else [])"
  using tagged by (fastforce simp: filter_empty_conv filter_id_conv)

text \<open>Of each session, \<open>n\<close> calls do as many ticks as there are visits, and emit what those ticks emit.\<close>

lemma turn:
  assumes "idle s" and "inTable i"
  shows "\<exists>t. iter_opt step n s = Some t \<and> idle t \<and>
    (entry t i, filter (\<lambda>x. tag x = i) (outs t)) =
      (let (e, os) = ticks (tick i) (visits n (pos s) i) (entry s i)
       in (e, filter (\<lambda>x. tag x = i) (outs s) @ os))"
  using assms(1)
proof (induction n arbitrary: s)
  case 0
  then show ?case using pos_in assms(2) by simp
next
  case (Suc n)
  from visit [OF Suc.prems] obtain t where t: "step s = Some t" "idle t" "pos t = nextSession (pos s)"
    "entry t = (entry s)(pos s := fst (tick (pos s) (entry s (pos s))))"
    "outs t = outs s @ snd (tick (pos s) (entry s (pos s)))" by blast
  from Suc.IH [OF t(2)] obtain u where u: "iter_opt step n t = Some u" "idle u"
    "(entry u i, filter (\<lambda>x. tag x = i) (outs u)) =
      (let (e, os) = ticks (tick i) (visits n (pos t) i) (entry t i)
       in (e, filter (\<lambda>x. tag x = i) (outs t) @ os))" by blast
  show ?case
    using u t visits_Suc [OF pos_in [OF Suc.prems] assms(2), of n]
    by (cases "i = pos s") (auto simp: filter_tick Let_def split: prod.splits)
qed

end

text \<open>An entry whose count is decremented at each tick and that fires on the tick that finds it zero
  (\<^verbatim>\<open>close_timer_entry\<close>, \<^verbatim>\<open>probe_timer_entry\<close>).\<close>

record timerEntry =
  tm_time :: "32 word"
  tm_active :: bool

definition countdown :: "(16 word \<Rightarrow> 'o) \<Rightarrow> 16 word \<Rightarrow> timerEntry \<Rightarrow> timerEntry \<times> 'o list" where
  "countdown fire i e =
     (if tm_active e then
        (if 0 < tm_time e then (e\<lparr>tm_time := tm_time e - 1\<rparr>, [])
         else (e\<lparr>tm_time := 0, tm_active := False\<rparr>, [fire i]))
      else (e, []))"

lemma countdown_simps [simp]:
  "\<not> tm_active e \<Longrightarrow> countdown fire i e = (e, [])"
  "tm_active e \<Longrightarrow> tm_time e = 0 \<Longrightarrow> countdown fire i e = (e\<lparr>tm_time := 0, tm_active := False\<rparr>, [fire i])"
  "tm_active e \<Longrightarrow> tm_time e \<noteq> 0 \<Longrightarrow> countdown fire i e = (e\<lparr>tm_time := tm_time e - 1\<rparr>, [])"
  by (simp_all add: countdown_def word_neq_0_conv)

lemma ticks_inactive: "\<not> tm_active e \<Longrightarrow> ticks (countdown fire i) n e = (e, [])"
  by (induction n) simp_all

lemma ticks_countdown:
  "tm_active e \<Longrightarrow> ticks (countdown fire i) n e =
     (if n \<le> unat (tm_time e) then (e\<lparr>tm_time := tm_time e - of_nat n\<rparr>, [])
      else (e\<lparr>tm_time := 0, tm_active := False\<rparr>, [fire i]))"
proof (induction n arbitrary: e)
  case 0
  then show ?case by simp
next
  case (Suc n)
  show ?case
  proof (cases "tm_time e = 0")
    case True
    with Suc.prems show ?thesis by (simp add: ticks_inactive)
  next
    case False
    then have "n \<le> unat (tm_time e - 1) \<longleftrightarrow> Suc n \<le> unat (tm_time e)"
      by (simp add: unat_minus_one) (metis Suc_le_eq Suc_le_mono Suc_pred unat_gt_0)
    with Suc.prems False show ?thesis by (simp add: Suc.IH diff_diff_eq)
  qed
qed

text \<open>The tick number \<open>t\<close> from position \<open>p\<close> comes \<open>distanceTo p i + 32 * t\<close> calls later.\<close>

lemma visits_greater: "t < visits n p i \<longleftrightarrow> distanceTo p i + 32 * t < n"
proof -
  have d: "distanceTo p i < 32" by (simp add: distanceTo_def MAX_SESSIONS_def)
  have "Suc t \<le> (m :: nat) div 32 \<longleftrightarrow> Suc t * 32 \<le> m" for m
    by (rule less_eq_div_iff_mult_less_eq) simp
  from this [of "n + 31 - distanceTo p i"] d show ?thesis
    unfolding visits_def MAX_SESSIONS_def Suc_le_eq [symmetric] by (simp add: Suc_le_eq) linarith
qed

section \<open>Close timer\<close>

record closeTimer =
  ct_table :: "16 word \<Rightarrow> timerEntry"
  ct_currSessionID :: "16 word"
  ct_setSessionID :: "16 word"
  ct_prevSessionID :: "16 word"
  ct_waitForWrite :: bool
  ct_setTimer :: "16 word hls_stream"
  ct_releaseState :: "16 word hls_stream"

definition close_timer :: "closeTimer \<Rightarrow> closeTimer option" where
  "close_timer k =
     (if ct_waitForWrite k then
        map_option (\<lambda>k. k\<lparr>ct_prevSessionID := ct_prevSessionID k - 1\<rparr>)
          (if ct_setSessionID k \<noteq> ct_prevSessionID k then
             (if inTable (ct_setSessionID k)
              then Some (k\<lparr>ct_table := (ct_table k)(ct_setSessionID k := \<lparr>tm_time = TIME_60s, tm_active = True\<rparr>),
                           ct_waitForWrite := False\<rparr>)
              else None)
           else Some k)
      else if \<not> s_empty (ct_setTimer k) then
        Some (k\<lparr>ct_setSessionID := s_head (ct_setTimer k), ct_setTimer := s_rest (ct_setTimer k),
                ct_waitForWrite := True\<rparr>)
      else if \<not> inTable (ct_currSessionID k) then None
      else
        (let i = ct_currSessionID k;
             k = k\<lparr>ct_prevSessionID := i\<rparr>;
             e = ct_table k i;
             k = (if tm_active e then
                    (if 0 < tm_time e then k\<lparr>ct_table := (ct_table k)(i := e\<lparr>tm_time := tm_time e - 1\<rparr>)\<rparr>
                     else k\<lparr>ct_table := (ct_table k)(i := e\<lparr>tm_time := 0, tm_active := False\<rparr>),
                            ct_releaseState := s_write (ct_releaseState k) i\<rparr>)
                  else k);
             k = k\<lparr>ct_currSessionID := i + 1\<rparr>
         in Some (if ct_currSessionID k = 32 then k\<lparr>ct_currSessionID := 0\<rparr> else k)))"

definition closeIdle :: "closeTimer \<Rightarrow> bool" where
  "closeIdle k \<longleftrightarrow> \<not> ct_waitForWrite k \<and> ct_setTimer k = [] \<and> inTable (ct_currSessionID k)"

interpretation close: rotor close_timer closeIdle ct_currSessionID ct_table ct_releaseState "\<lambda>i. i" "countdown (\<lambda>i. i)"
proof unfold_locales
  fix s :: closeTimer
  assume "closeIdle s"
  moreover from this have "inTable (nextSession (ct_currSessionID s))" by (simp add: closeIdle_def)
  ultimately show "\<exists>t. close_timer s = Some t \<and> closeIdle t \<and> ct_currSessionID t = nextSession (ct_currSessionID s) \<and>
      ct_table t = (ct_table s)(ct_currSessionID s := fst (countdown (\<lambda>i. i) (ct_currSessionID s) (ct_table s (ct_currSessionID s)))) \<and>
      ct_releaseState t = ct_releaseState s @ snd (countdown (\<lambda>i. i) (ct_currSessionID s) (ct_table s (ct_currSessionID s)))"
    by (auto simp: close_timer_def closeIdle_def nextSession_def countdown_def s_write_def Let_def)
qed (auto simp: closeIdle_def countdown_def split: if_splits)

text \<open>In calls without requests a session is released exactly once if its timer runs, in the visit after its count
  has reached zero, and never otherwise.\<close>

theorem close_timer_fires:
  assumes "\<not> ct_waitForWrite k" and "ct_setTimer k = []" and "inTable (ct_currSessionID k)" and "inTable i"
  shows "\<exists>k'. iter_opt close_timer n k = Some k' \<and>
    filter (\<lambda>x. x = i) (ct_releaseState k') = filter (\<lambda>x. x = i) (ct_releaseState k) @
      (if tm_active (ct_table k i) \<and> distanceTo (ct_currSessionID k) i + 32 * unat (tm_time (ct_table k i)) < n
       then [i] else [])"
proof -
  have "closeIdle k" using assms by (simp add: closeIdle_def)
  from close.turn [OF this assms(4), of n] show ?thesis
    by (cases "tm_active (ct_table k i)") (auto simp: ticks_inactive ticks_countdown Let_def
        simp flip: visits_greater split: if_splits)
qed

theorem close_timer_fires_witness:
  "let k = \<lparr>ct_table = (\<lambda>i. \<lparr>tm_time = 2, tm_active = (i = 5)\<rparr>), ct_currSessionID = 1, ct_setSessionID = 0,
       ct_prevSessionID = 0, ct_waitForWrite = False, ct_setTimer = [], ct_releaseState = []\<rparr>
   in \<exists>k'. iter_opt close_timer 69 k = Some k' \<and> filter (\<lambda>x. x = 5) (ct_releaseState k') = [5]"
  using close_timer_fires [of "\<lparr>ct_table = (\<lambda>i. \<lparr>tm_time = 2, tm_active = (i = 5)\<rparr>), ct_currSessionID = 1,
      ct_setSessionID = 0, ct_prevSessionID = 0, ct_waitForWrite = False, ct_setTimer = [], ct_releaseState = []\<rparr>" 5 69]
  by (simp add: inTable_less distanceTo_def MAX_SESSIONS_def)

lemma close_timer_set:
  assumes "\<not> ct_waitForWrite k" and "ct_setTimer k = [i]" and "inTable (ct_currSessionID k)" and "inTable i"
  shows "\<exists>m t. m \<in> {2, 3} \<and> iter_opt close_timer m k = Some t \<and> closeIdle t \<and>
    ct_releaseState t = ct_releaseState k \<and> ct_table t i = \<lparr>tm_time = TIME_60s, tm_active = True\<rparr>"
proof -
  let ?m = "if ct_prevSessionID k = i then 3 else 2"
  have "\<exists>t. iter_opt close_timer ?m k = Some t \<and> closeIdle t \<and>
    ct_releaseState t = ct_releaseState k \<and> ct_table t i = \<lparr>tm_time = TIME_60s, tm_active = True\<rparr>"
    using assms by (simp add: numeral_3_eq_3 numeral_2_eq_2 close_timer_def closeIdle_def Let_def)
  moreover have "?m \<in> {2, 3}" by simp
  ultimately show ?thesis by blast
qed

text \<open>A session set to wait out its \<open>TIME_WAIT\<close> is not released before sixty seconds' worth of turns over the
  table, and is released exactly once within two turns after that.\<close>

theorem close_timer_waits:
  assumes "\<not> ct_waitForWrite k" and "ct_setTimer k = [i]" and "inTable (ct_currSessionID k)" and "inTable i"
    and "i \<notin> set (ct_releaseState k)"
  shows "\<exists>k'. iter_opt close_timer (3 + n) k = Some k' \<and>
      (n < 32 * unat TIME_60s \<longrightarrow> i \<notin> set (ct_releaseState k')) \<and>
      (32 * unat TIME_60s + 64 \<le> n \<longrightarrow> filter (\<lambda>x. x = i) (ct_releaseState k') = [i])"
proof -
  obtain m t where t: "m \<in> {2, 3}" "iter_opt close_timer m k = Some t" "closeIdle t"
    "ct_releaseState t = ct_releaseState k" "ct_table t i = \<lparr>tm_time = TIME_60s, tm_active = True\<rparr>"
    using close_timer_set [OF assms(1-4)] by blast
  have none: "filter (\<lambda>x. x = i) (ct_releaseState k) = []"
    using assms(5) by (auto simp: filter_empty_conv)
  have d: "distanceTo (ct_currSessionID t) i < 32" by (simp add: distanceTo_def MAX_SESSIONS_def)
  have e: "3 + n = m + (3 - m + n)" and q: "3 - m + n \<le> n + 1" using t(1) by auto
  have "\<exists>k'. iter_opt close_timer (m + (3 - m + n)) k = Some k' \<and> filter (\<lambda>x. x = i) (ct_releaseState k') =
      (if distanceTo (ct_currSessionID t) i + 32 * unat TIME_60s < 3 - m + n then [i] else [])"
    using close_timer_fires [of t i "3 - m + n"] t none assms(4) by (simp add: iter_opt_add closeIdle_def)
  then obtain k' where k': "iter_opt close_timer (3 + n) k = Some k'" "filter (\<lambda>x. x = i) (ct_releaseState k') =
      (if distanceTo (ct_currSessionID t) i + 32 * unat TIME_60s < 3 - m + n then [i] else [])"
    unfolding e [symmetric] by blast
  show ?thesis
    using k' q d by (auto simp: filter_empty_conv split: if_splits)
qed

theorem close_timer_waits_witness:
  "let k = \<lparr>ct_table = (\<lambda>i. \<lparr>tm_time = 0, tm_active = False\<rparr>), ct_currSessionID = 0, ct_setSessionID = 0,
       ct_prevSessionID = 0, ct_waitForWrite = False, ct_setTimer = [7], ct_releaseState = []\<rparr>
   in \<exists>k'. iter_opt close_timer (3 + 1000000) k = Some k' \<and> 7 \<notin> set (ct_releaseState k')"
  using close_timer_waits [of "\<lparr>ct_table = (\<lambda>i. \<lparr>tm_time = 0, tm_active = False\<rparr>), ct_currSessionID = 0,
       ct_setSessionID = 0, ct_prevSessionID = 0, ct_waitForWrite = False, ct_setTimer = [7], ct_releaseState = []\<rparr>"
       7 1000000]
  by (simp add: inTable_less TIME_60s_def timeConst_def MAX_SESSIONS_def)

end
