(* ===== verification/Toe_Events.thy ===== *)
theory Toe_Events
  imports Toe_Timers
begin

text \<open>
  The path of events to the transmit engine: \<^verbatim>\<open>toe/event_engine/event_engine.cpp\<close> and
  \<^verbatim>\<open>toe/ack_delay/ack_delay.cpp\<close>, connected as in \<^verbatim>\<open>toe.cpp\<close>.

  The event engine forwards the events of the receive engine at once, and those of the timers and of the
  application only when its counters say that everything forwarded before has been consumed.  The
  acknowledgement delay holds back an acknowledgement for 64 microseconds in the hope of a packet that
  carries it along.
\<close>

section \<open>Model\<close>

text \<open>\<open>ev_tuple\<close> is \<open>None\<close> where the source leaves the tuple of the event uninitialised.\<close>

record extendedEvent = toeEvent +
  ev_tuple :: "fourTuple option"

definition extendEvent :: "toeEvent \<Rightarrow> extendedEvent" where
  "extendEvent e = toeEvent.extend e \<lparr>ev_tuple = None\<rparr>"

text \<open>The declared depths of \<open>eventEng2ackDelay_event\<close> and \<open>ackDelay2txEng_event\<close>.\<close>

definition ACK_DELAY_DEPTH :: nat where "ACK_DELAY_DEPTH = 4"
definition TX_ENG_DEPTH :: nat where "TX_ENG_DEPTH = 16"

record eventPath =
  ee_writeCounter :: "8 word"
  ee_adReadCounter :: "8 word"
  ee_adWriteCounter :: "8 word"
  ee_txEngReadCounter :: "8 word"
  ee_txAppEvent :: "toeEvent hls_stream"
  ee_rxEngEvent :: "extendedEvent hls_stream"
  ee_timerEvent :: "toeEvent hls_stream"
  ee_toAckDelay :: "extendedEvent hls_stream"
  ee_adReadCount :: "1 word hls_stream"
  ee_adWriteCount :: "1 word hls_stream"
  ee_txEngReadCount :: "1 word hls_stream"
  ad_table :: "16 word \<Rightarrow> 10 word"
  ad_clearTable :: "16 word \<Rightarrow> bool"
  ad_pointer :: "16 word"
  ad_releaseSession :: "16 word hls_stream"
  ad_toTxEng :: "extendedEvent hls_stream"

definition forwardEvent :: "extendedEvent \<Rightarrow> eventPath \<Rightarrow> eventPath" where
  "forwardEvent e k =
     k\<lparr>ee_toAckDelay := s_write (ee_toAckDelay k) e, ee_writeCounter := ee_writeCounter k + 1\<rparr>"

definition eventSelect :: "eventPath \<Rightarrow> eventPath" where
  "eventSelect k =
     (if \<not> s_empty (ee_rxEngEvent k) \<and> \<not> s_full ACK_DELAY_DEPTH (ee_toAckDelay k) then
        forwardEvent (s_head (ee_rxEngEvent k)) (k\<lparr>ee_rxEngEvent := s_rest (ee_rxEngEvent k)\<rparr>)
      else if ee_writeCounter k = ee_adReadCounter k \<and> ee_adWriteCounter k = ee_txEngReadCounter k then
        (if \<not> s_empty (ee_timerEvent k) then
           forwardEvent (extendEvent (s_head (ee_timerEvent k))) (k\<lparr>ee_timerEvent := s_rest (ee_timerEvent k)\<rparr>)
         else if \<not> s_empty (ee_txAppEvent k) then
           forwardEvent (extendEvent (s_head (ee_txAppEvent k))) (k\<lparr>ee_txAppEvent := s_rest (ee_txAppEvent k)\<rparr>)
         else k)
      else k)"

definition eventCounts :: "eventPath \<Rightarrow> eventPath" where
  "eventCounts k =
     (let k = (if \<not> s_empty (ee_adReadCount k)
               then k\<lparr>ee_adReadCount := s_rest (ee_adReadCount k), ee_adReadCounter := ee_adReadCounter k + 1\<rparr> else k);
          k = (if \<not> s_empty (ee_adWriteCount k)
               then k\<lparr>ee_adWriteCounter := ee_adWriteCounter k + 1, ee_adWriteCount := s_rest (ee_adWriteCount k)\<rparr> else k)
      in if \<not> s_empty (ee_txEngReadCount k)
         then k\<lparr>ee_txEngReadCounter := ee_txEngReadCounter k + 1, ee_txEngReadCount := s_rest (ee_txEngReadCount k)\<rparr>
         else k)"

definition event_engine :: "eventPath \<Rightarrow> eventPath" where
  "event_engine k = eventCounts (eventSelect k)"

text \<open>An event arrives at the acknowledgement delay; a session is released; the timers are served.\<close>

definition delayEvent :: "eventPath \<Rightarrow> eventPath option" where
  "delayEvent k =
     (let ev = s_head (ee_toAckDelay k);
          k = k\<lparr>ee_toAckDelay := s_rest (ee_toAckDelay k), ee_adReadCount := s_write (ee_adReadCount k) 1\<rparr>;
          i = ev_sessionID ev in
      if \<not> inTable i then None
      else if ev_type ev = ACK \<and> ad_table k i = 0
      then Some (k\<lparr>ad_table := (ad_table k)(i := ucast (TIME_64us div 2))\<rparr>)
      else Some (k\<lparr>ad_toTxEng := s_write (ad_toTxEng k) ev, ee_adWriteCount := s_write (ee_adWriteCount k) 1,
                   ad_table := (ad_table k)(i := 0)\<rparr>))"

definition delayRelease :: "eventPath \<Rightarrow> eventPath option" where
  "delayRelease k =
     (let i = s_head (ad_releaseSession k);
          k = k\<lparr>ad_releaseSession := s_rest (ad_releaseSession k)\<rparr> in
      if inTable i then Some (k\<lparr>ad_clearTable := (ad_clearTable k)(i := True)\<rparr>) else None)"

definition delayService :: "eventPath \<Rightarrow> eventPath option" where
  "delayService k =
     (let i = ad_pointer k in
      if \<not> inTable i then None
      else
        (let (value, k) =
           (if ad_clearTable k i then (0, k\<lparr>ad_clearTable := (ad_clearTable k)(i := False)\<rparr>)
            else if 0 < ad_table k i \<and> \<not> s_full TX_ENG_DEPTH (ad_toTxEng k) then
              (ad_table k i - 1,
               if ad_table k i = 1
               then k\<lparr>ad_toTxEng := s_write (ad_toTxEng k) (extendEvent (plainEvent ACK i 0)),
                      ee_adWriteCount := s_write (ee_adWriteCount k) 1\<rparr>
               else k)
            else (0, k))
         in Some (k\<lparr>ad_table := (ad_table k)(i := value),
                    ad_pointer := (if ad_pointer k + 1 = 32 then 0 else ad_pointer k + 1)\<rparr>)))"

definition ack_delay :: "eventPath \<Rightarrow> eventPath option" where
  "ack_delay k =
     (if \<not> s_empty (ee_toAckDelay k) then delayEvent k
      else if \<not> s_empty (ad_releaseSession k) then delayRelease k
      else delayService k)"

definition eventPathStep :: "eventPath \<Rightarrow> eventPath option" where
  "eventPathStep k = ack_delay (event_engine k)"

lemmas ack_delay_defs = ack_delay_def delayEvent_def delayRelease_def delayService_def

section \<open>Delayed acknowledgements\<close>

text \<open>An acknowledgement that is being delayed when the stream to the transmit engine is full is dropped for
  good as soon as its session is visited, whatever is left of its time: nothing is put out, nothing stays pending,
  and in the following turn there is nothing left to send.\<close>

theorem ack_lost_when_full:
  assumes "ee_toAckDelay k = []" and "ad_releaseSession k = []" and "inTable (ad_pointer k)"
    and "0 < ad_table k (ad_pointer k)" and "s_full TX_ENG_DEPTH (ad_toTxEng k)"
  shows "\<exists>k'. ack_delay k = Some k' \<and> ad_table k' (ad_pointer k) = 0 \<and> ad_toTxEng k' = ad_toTxEng k"
  using assms by (auto simp: ack_delay_defs Let_def)

definition ackTick :: "16 word \<Rightarrow> 10 word \<times> bool \<Rightarrow> (10 word \<times> bool) \<times> extendedEvent list" where
  "ackTick i e =
     (case e of (c, clear) \<Rightarrow>
        if clear then ((0, False), [])
        else if c = 0 then ((0, False), [])
        else ((c - 1, False), if c = 1 then [extendEvent (plainEvent ACK i 0)] else []))"

text \<open>Every session with a running delay still has room for its acknowledgement.\<close>

definition pendingAcks :: "eventPath \<Rightarrow> 16 word set" where
  "pendingAcks k = {i. inTable i \<and> ad_table k i \<noteq> 0}"

definition ackIdle :: "eventPath \<Rightarrow> bool" where
  "ackIdle k \<longleftrightarrow> ee_toAckDelay k = [] \<and> ad_releaseSession k = [] \<and> inTable (ad_pointer k) \<and>
     length (ad_toTxEng k) + card (pendingAcks k) \<le> TX_ENG_DEPTH"

lemma finite_inTable: "finite {i. inTable i}"
  by simp

interpretation ackd: rotor ack_delay ackIdle ad_pointer "\<lambda>k i. (ad_table k i, ad_clearTable k i)" ad_toTxEng
  ev_sessionID ackTick
proof unfold_locales
  fix s :: eventPath
  assume idle: "ackIdle s"
  let ?p = "ad_pointer s"
  have fin: "finite (pendingAcks s)" by simp
  have room: "\<not> s_full TX_ENG_DEPTH (ad_toTxEng s)" if "ad_table s ?p \<noteq> 0"
  proof -
    have "?p \<in> pendingAcks s" using idle that by (simp add: pendingAcks_def ackIdle_def)
    then have "0 < card (pendingAcks s)" using fin card_gt_0_iff by blast
    with idle show ?thesis by (simp add: ackIdle_def s_full_def)
  qed
  have drop: "card (pendingAcks s - {?p}) \<le> card (pendingAcks s)" using fin by (simp add: card_mono)
  have fire: "card (pendingAcks s) = Suc (card (pendingAcks s - {?p}))" if "ad_table s ?p \<noteq> 0"
  proof (rule card.remove [OF fin])
    show "?p \<in> pendingAcks s" using idle that by (simp add: pendingAcks_def ackIdle_def)
  qed
  have gone: "pendingAcks t = pendingAcks s - {?p}" if "ad_table t = (ad_table s)(?p := 0)" for t
    using that by (auto simp: pendingAcks_def)
  have nxt: "inTable (nextSession ?p)" using idle by (simp add: ackIdle_def)
  consider "ad_clearTable s ?p" | "\<not> ad_clearTable s ?p" "ad_table s ?p = 0"
    | "\<not> ad_clearTable s ?p" "ad_table s ?p = 1" | "\<not> ad_clearTable s ?p" "ad_table s ?p \<noteq> 0" "ad_table s ?p \<noteq> 1"
    by blast
  then show "\<exists>t. ack_delay s = Some t \<and> ackIdle t \<and> ad_pointer t = nextSession ?p \<and>
      (\<lambda>i. (ad_table t i, ad_clearTable t i)) = (\<lambda>i. (ad_table s i, ad_clearTable s i))
        (?p := fst (ackTick ?p (ad_table s ?p, ad_clearTable s ?p))) \<and>
      ad_toTxEng t = ad_toTxEng s @ snd (ackTick ?p (ad_table s ?p, ad_clearTable s ?p))"
  proof cases
    case 1
    with idle nxt drop show ?thesis
      by (auto simp: ack_delay_def delayService_def ackIdle_def nextSession_def ackTick_def Let_def gone fun_eq_iff)
  next
    case 2
    define t where "t = s\<lparr>ad_table := (ad_table s)(?p := 0), ad_pointer := nextSession ?p\<rparr>"
    have "pendingAcks t = pendingAcks s" using 2 by (auto simp: t_def pendingAcks_def)
    moreover have "ack_delay s = Some t"
      using 2 idle by (simp add: ack_delay_def delayService_def ackIdle_def t_def nextSession_def Let_def)
    ultimately show ?thesis using 2 idle nxt by (auto simp: ackIdle_def t_def ackTick_def fun_eq_iff)
  next
    case 3
    define t where "t = s\<lparr>ad_table := (ad_table s)(?p := 0), ad_pointer := nextSession ?p,
      ad_toTxEng := ad_toTxEng s @ [extendEvent (plainEvent ACK ?p 0)],
      ee_adWriteCount := ee_adWriteCount s @ [1]\<rparr>"
    have "pendingAcks t = pendingAcks s - {?p}" by (auto simp: t_def pendingAcks_def)
    with fire 3 have "card (pendingAcks s) = Suc (card (pendingAcks t))" by simp
    moreover have "ack_delay s = Some t"
      using 3 idle room
      by (simp add: ack_delay_def delayService_def ackIdle_def t_def nextSession_def s_write_def Let_def)
    ultimately show ?thesis using 3 idle nxt by (auto simp: ackIdle_def t_def ackTick_def fun_eq_iff)
  next
    case 4
    define t where "t = s\<lparr>ad_table := (ad_table s)(?p := ad_table s ?p - 1), ad_pointer := nextSession ?p\<rparr>"
    have "pendingAcks t = pendingAcks s" using 4 by (auto simp: t_def pendingAcks_def)
    moreover have "ack_delay s = Some t"
      using 4 idle room
      by (simp add: ack_delay_def delayService_def ackIdle_def t_def nextSession_def word_neq_0_conv Let_def)
    ultimately show ?thesis using 4 idle nxt by (auto simp: ackIdle_def t_def ackTick_def fun_eq_iff)
  qed
qed (auto simp: ackIdle_def ackTick_def extendEvent_def plainEvent_def toeEvent.defs split: if_splits prod.splits)

lemma ackTick_simps [simp]:
  "ackTick i (c, True) = ((0, False), [])"
  "ackTick i (0, b) = ((0, False), [])"
  "c \<noteq> 0 \<Longrightarrow> c \<noteq> 1 \<Longrightarrow> ackTick i (c, False) = ((c - 1, False), [])"
  "ackTick i (1, False) = ((0, False), [extendEvent (plainEvent ACK i 0)])"
  by (simp_all add: ackTick_def)

lemma ticks_ack_0: "ticks (ackTick i) n (0, False) = ((0, False), [])"
  by (induction n) simp_all

lemma ticks_ack_clear: "ticks (ackTick i) n (c, True) = (if n = 0 then ((c, True), []) else ((0, False), []))"
  by (cases n) (simp_all add: ticks_ack_0)

lemma ticks_ack: "ticks (ackTick i) n (c, False) =
    (if n < unat c then ((c - of_nat n, False), [])
     else ((0, False), if c = 0 then [] else [extendEvent (plainEvent ACK i 0)]))"
proof (induction n arbitrary: c)
  case 0
  then show ?case by (simp add: unat_gt_0)
next
  case (Suc n)
  consider "c = 0" | "c = 1" | "c \<noteq> 0" "c \<noteq> 1" by blast
  then show ?case
  proof cases
    case 3
    then have "n < unat (c - 1) \<longleftrightarrow> Suc n < unat c" and "c - 1 \<noteq> 0" by (auto simp: unat_minus_one)
    with 3 show ?thesis by (simp add: Suc.IH diff_diff_eq)
  qed (simp_all add: ticks_ack_0)
qed

text \<open>While no event and no release comes in and there is room for all pending acknowledgements, a delayed
  acknowledgement of count \<open>c\<close> is sent exactly once, in the visit number \<open>c\<close> of its session, unless the session
  has been released; nothing else is sent.\<close>

theorem ack_delay_sends:
  assumes "ackIdle k" and "inTable i"
  shows "\<exists>k'. iter_opt ack_delay n k = Some k' \<and>
    filter (\<lambda>e. ev_sessionID e = i) (ad_toTxEng k') = filter (\<lambda>e. ev_sessionID e = i) (ad_toTxEng k) @
      (if \<not> ad_clearTable k i \<and> ad_table k i \<noteq> 0 \<and>
          distanceTo (ad_pointer k) i + 32 * (unat (ad_table k i) - 1) < n
       then [extendEvent (plainEvent ACK i 0)] else [])"
proof -
  obtain k' where k': "iter_opt ack_delay n k = Some k'" "((ad_table k' i, ad_clearTable k' i),
      filter (\<lambda>e. ev_sessionID e = i) (ad_toTxEng k')) =
      (let (e, os) = ticks (ackTick i) (visits n (ad_pointer k) i) (ad_table k i, ad_clearTable k i)
       in (e, filter (\<lambda>e. ev_sessionID e = i) (ad_toTxEng k) @ os))"
    using ackd.turn [OF assms, of n] by blast
  show ?thesis
  proof (cases "ad_clearTable k i")
    case True
    with k' show ?thesis by (auto simp: ticks_ack_clear split: if_splits)
  next
    case False
    have "\<not> v < unat c \<longleftrightarrow> unat c - 1 < v" if "c \<noteq> 0" for v and c :: "10 word"
      using that unat_gt_0 [of c] by auto
    with False k' show ?thesis
      by (cases "ad_table k i = 0") (auto simp: ticks_ack Let_def simp flip: visits_greater split: if_splits)
  qed
qed

section \<open>Order of the events\<close>

text \<open>The transmit engine takes an event and returns a count; the sources of events and of releases add
  to their streams.\<close>

definition pathNeighbours :: "eventPath \<Rightarrow> eventPath \<Rightarrow> bool" where
  "pathNeighbours s t \<longleftrightarrow>
     (\<exists>a b c r. t = s\<lparr>ee_txAppEvent := a, ee_rxEngEvent := b, ee_timerEvent := c, ad_releaseSession := r\<rparr>) \<or>
     (\<exists>e es. ad_toTxEng s = e # es \<and>
        t = s\<lparr>ad_toTxEng := es, ee_txEngReadCount := ee_txEngReadCount s @ [1]\<rparr>)"

text \<open>The counters agree with the streams, modulo their width.\<close>

definition countsAgree :: "eventPath \<Rightarrow> bool" where
  "countsAgree k \<longleftrightarrow>
     ee_writeCounter k = ee_adReadCounter k + of_nat (length (ee_adReadCount k) + length (ee_toAckDelay k)) \<and>
     ee_adWriteCounter k + of_nat (length (ee_adWriteCount k)) =
       ee_txEngReadCounter k + of_nat (length (ee_txEngReadCount k) + length (ad_toTxEng k))"

lemma countsAgree_update [simp]:
  "countsAgree (k\<lparr>ee_rxEngEvent := b\<rparr>) = countsAgree k"
  "countsAgree (k\<lparr>ee_timerEvent := c\<rparr>) = countsAgree k"
  "countsAgree (k\<lparr>ee_txAppEvent := d\<rparr>) = countsAgree k"
  by (simp_all add: countsAgree_def)

lemma countsAgree_forward: "countsAgree k \<Longrightarrow> countsAgree (forwardEvent e k)"
  by (simp add: countsAgree_def forwardEvent_def s_write_def ac_simps)

lemma countsAgree_counts: "countsAgree k \<Longrightarrow> countsAgree (eventCounts k)"
  by (cases "ee_adReadCount k"; cases "ee_adWriteCount k"; cases "ee_txEngReadCount k")
    (simp_all add: countsAgree_def eventCounts_def ac_simps)

lemma countsAgree_engine: "countsAgree k \<Longrightarrow> countsAgree (event_engine k)"
  by (simp add: event_engine_def eventSelect_def countsAgree_forward countsAgree_counts)

lemma countsAgree_delay:
  assumes "countsAgree k" and "ack_delay k = Some k'"
  shows "countsAgree k'"
proof (cases "ee_toAckDelay k")
  case Nil
  with assms show ?thesis
    by (cases "ad_releaseSession k")
      (auto simp: countsAgree_def ack_delay_defs s_write_def ac_simps Let_def split: if_splits)
next
  case (Cons e es)
  with assms show ?thesis
    by (auto simp: countsAgree_def ack_delay_defs s_write_def ac_simps Let_def split: if_splits)
qed

lemma countsAgree_step: "countsAgree k \<Longrightarrow> eventPathStep k = Some k' \<Longrightarrow> countsAgree k'"
  unfolding eventPathStep_def by (blast intro: countsAgree_delay countsAgree_engine)

lemma countsAgree_neighbours: "countsAgree k \<Longrightarrow> pathNeighbours k k' \<Longrightarrow> countsAgree k'"
  by (auto simp: pathNeighbours_def countsAgree_def ac_simps)

text \<open>The statics at load.\<close>

definition eventPathReset :: eventPath where
  "eventPathReset =
     \<lparr>ee_writeCounter = 0, ee_adReadCounter = 0, ee_adWriteCounter = 0, ee_txEngReadCounter = 0, ee_txAppEvent = [],
      ee_rxEngEvent = [], ee_timerEvent = [], ee_toAckDelay = [], ee_adReadCount = [], ee_adWriteCount = [],
      ee_txEngReadCount = [], ad_table = (\<lambda>_. 0), ad_clearTable = (\<lambda>_. False), ad_pointer = 0,
      ad_releaseSession = [], ad_toTxEng = []\<rparr>"

text \<open>The event engine forwards a timer or application event in this call.\<close>

definition forwardsLowPriority :: "eventPath \<Rightarrow> bool" where
  "forwardsLowPriority k \<longleftrightarrow>
     ee_timerEvent (eventSelect k) \<noteq> ee_timerEvent k \<or> ee_txAppEvent (eventSelect k) \<noteq> ee_txAppEvent k"

lemma forwardsLowPriority_counters:
  "forwardsLowPriority k \<Longrightarrow>
     ee_writeCounter k = ee_adReadCounter k \<and> ee_adWriteCounter k = ee_txEngReadCounter k"
  by (auto simp: forwardsLowPriority_def eventSelect_def forwardEvent_def split: if_splits)

lemma of_nat_8_eq:
  assumes "(of_nat m :: 8 word) = of_nat n" and "m < 256" and "n < 256"
  shows "m = n"
proof -
  have "unat (of_nat m :: 8 word) = unat (of_nat n :: 8 word)" using assms(1) by (rule arg_cong)
  then show ?thesis using assms(2,3) by (simp add: unat_of_nat take_bit_nat_eq_self)
qed

text \<open>A timer or application event is forwarded only when every event forwarded earlier has been read by the
  acknowledgement delay, and no more events wait for the transmit engine than those whose count the event
  engine has not seen yet: with no count under way, none waits.  The streams must hold fewer than 256 entries,
  as their declared depths ensure.\<close>

theorem events_in_order:
  assumes "reaches eventPathStep pathNeighbours eventPathReset k"
    and "forwardsLowPriority k"
    and "length (ee_adReadCount k) + length (ee_toAckDelay k) < 256"
    and "length (ee_adWriteCount k) < 256" and "length (ee_txEngReadCount k) + length (ad_toTxEng k) < 256"
  shows "ee_toAckDelay k = [] \<and> length (ad_toTxEng k) \<le> length (ee_adWriteCount k)"
proof -
  have "countsAgree eventPathReset" by (simp add: countsAgree_def eventPathReset_def)
  from reaches_inv [where inv = countsAgree, OF assms(1) this countsAgree_step countsAgree_neighbours]
  have c: "countsAgree k" .
  note e = forwardsLowPriority_counters [OF assms(2)]
  from c have r: "ee_writeCounter k = ee_adReadCounter k + of_nat (length (ee_adReadCount k) + length (ee_toAckDelay k))"
    and w: "ee_adWriteCounter k + of_nat (length (ee_adWriteCount k)) =
      ee_txEngReadCounter k + of_nat (length (ee_txEngReadCount k) + length (ad_toTxEng k))"
    unfolding countsAgree_def by blast+
  from r e have "ee_adReadCounter k + of_nat (length (ee_adReadCount k) + length (ee_toAckDelay k)) = ee_adReadCounter k + 0"
    by (simp only: add_0_right)
  then have r: "(of_nat (length (ee_adReadCount k) + length (ee_toAckDelay k)) :: 8 word) = of_nat 0"
    unfolding semiring_1_class.of_nat_0 by (rule add_left_imp_eq)
  from w e have w: "(of_nat (length (ee_adWriteCount k)) :: 8 word) = of_nat (length (ee_txEngReadCount k) + length (ad_toTxEng k))"
    by (simp only: add_left_cancel)
  from of_nat_8_eq [OF r] of_nat_8_eq [OF w] assms(3-5) show ?thesis by simp
qed

theorem events_in_order_witness:
  "let k = eventPathReset\<lparr>ee_timerEvent := [plainEvent RT 3 1]\<rparr>
   in ee_timerEvent (eventSelect k) = [] \<and> ee_toAckDelay k = [] \<and> length (ad_toTxEng k) \<le> length (ee_adWriteCount k)"
proof -
  let ?k = "eventPathReset\<lparr>ee_timerEvent := [plainEvent RT 3 1]\<rparr>"
  have "pathNeighbours eventPathReset ?k"
    unfolding pathNeighbours_def by (rule disjI1, (rule exI)+) (simp add: eventPathReset_def)
  then have r: "reaches eventPathStep pathNeighbours eventPathReset ?k"
    by (blast intro: reaches_refl reaches_env)
  have f: "ee_timerEvent (eventSelect ?k) = []"
    by (simp add: eventSelect_def forwardEvent_def eventPathReset_def)
  then have "forwardsLowPriority ?k" by (simp add: forwardsLowPriority_def)
  from events_in_order [OF r this] f show ?thesis by (simp add: eventPathReset_def)
qed

theorem ack_lost_when_full_witness:
  "let k = eventPathReset\<lparr>ad_table := (\<lambda>_. 0)(0 := 200), ad_toTxEng := replicate 16 (extendEvent (plainEvent TX 1 0))\<rparr>
   in \<exists>k'. ack_delay k = Some k' \<and> ad_table k' 0 = 0 \<and> ad_toTxEng k' = ad_toTxEng k"
  using ack_lost_when_full [of "eventPathReset\<lparr>ad_table := (\<lambda>_. 0)(0 := 200),
      ad_toTxEng := replicate 16 (extendEvent (plainEvent TX 1 0))\<rparr>"]
  by (simp add: eventPathReset_def s_full_def TX_ENG_DEPTH_def)

theorem ack_delay_sends_witness:
  "let k = eventPathReset\<lparr>ad_table := (\<lambda>_. 0)(4 := 303)\<rparr>
   in \<exists>k'. iter_opt ack_delay 10000 k = Some k' \<and>
        filter (\<lambda>e. ev_sessionID e = 4) (ad_toTxEng k') = [extendEvent (plainEvent ACK 4 0)]"
proof -
  let ?k = "eventPathReset\<lparr>ad_table := (\<lambda>_. 0)(4 := 303)\<rparr>"
  have "pendingAcks ?k = {4}" by (auto simp: pendingAcks_def eventPathReset_def inTable_less)
  then have "ackIdle ?k" by (simp add: ackIdle_def eventPathReset_def TX_ENG_DEPTH_def)
  moreover have "inTable 4" by (simp add: inTable_less)
  ultimately have "\<exists>k'. iter_opt ack_delay 10000 ?k = Some k' \<and>
    filter (\<lambda>e. ev_sessionID e = 4) (ad_toTxEng k') = filter (\<lambda>e. ev_sessionID e = 4) (ad_toTxEng ?k) @
      (if \<not> ad_clearTable ?k 4 \<and> ad_table ?k 4 \<noteq> 0 \<and>
          distanceTo (ad_pointer ?k) 4 + 32 * (unat (ad_table ?k 4) - 1) < 10000
       then [extendEvent (plainEvent ACK 4 0)] else [])"
    by (rule ack_delay_sends)
  then show ?thesis by (simp add: eventPathReset_def distanceTo_def MAX_SESSIONS_def)
qed

end
