(* ===== verification/Toe_Sar.thy ===== *)
theory Toe_Sar
  imports Toe_Types
begin

text \<open>
  The send and receive windows of the sessions: \<^verbatim>\<open>toe/rx_sar_table/rx_sar_table.cpp\<close> and
  \<^verbatim>\<open>toe/tx_sar_table/tx_sar_table.cpp\<close>.  Buffers are 64 KB, so positions in a buffer are the low 16
  bits of sequence numbers.
\<close>

section \<open>Receive window\<close>

record rxSarEntry =
  rx_recvd :: "32 word"
  rx_appd :: "16 word"

record rxSarReply =
  rr_recvd :: "32 word"
  rr_windowSize :: "16 word"

record rxSarRecvd =
  rq_sessionID :: "16 word"
  rq_recvd :: "32 word"
  rq_write :: bool
  rq_init :: bool

record rxSarAppd =
  ra_sessionID :: "16 word"
  ra_appd :: "16 word"
  ra_write :: bool

record rxSarTable =
  rx_table :: "16 word \<Rightarrow> rxSarEntry"
  rx_engReq :: "rxSarRecvd hls_stream"
  rx_appReq :: "rxSarAppd hls_stream"
  rx_txEngReq :: "16 word hls_stream"
  rx_engRsp :: "rxSarEntry hls_stream"
  rx_appRsp :: "rxSarAppd hls_stream"
  rx_txEngRsp :: "rxSarReply hls_stream"

definition rxSarReplyOf :: "rxSarEntry \<Rightarrow> rxSarReply" where
  "rxSarReplyOf e = \<lparr>rr_recvd = rx_recvd e, rr_windowSize = (rx_appd e - ucast (rx_recvd e)) - 1\<rparr>"

definition rx_sar_table :: "rxSarTable \<Rightarrow> rxSarTable option" where
  "rx_sar_table k =
     (if \<not> s_empty (rx_txEngReq k) then
        (let i = s_head (rx_txEngReq k); k = k\<lparr>rx_txEngReq := s_rest (rx_txEngReq k)\<rparr> in
         if inTable i then Some (k\<lparr>rx_txEngRsp := s_write (rx_txEngRsp k) (rxSarReplyOf (rx_table k i))\<rparr>) else None)
      else if \<not> s_empty (rx_appReq k) then
        (let q = s_head (rx_appReq k); i = ra_sessionID q; k = k\<lparr>rx_appReq := s_rest (rx_appReq k)\<rparr> in
         if \<not> inTable i then None
         else if ra_write q then Some (k\<lparr>rx_table := (rx_table k)(i := (rx_table k i)\<lparr>rx_appd := ra_appd q\<rparr>)\<rparr>)
         else Some (k\<lparr>rx_appRsp := s_write (rx_appRsp k)
                \<lparr>ra_sessionID = i, ra_appd = rx_appd (rx_table k i), ra_write = True\<rparr>\<rparr>))
      else if \<not> s_empty (rx_engReq k) then
        (let q = s_head (rx_engReq k); i = rq_sessionID q; k = k\<lparr>rx_engReq := s_rest (rx_engReq k)\<rparr> in
         if \<not> inTable i then None
         else if rq_write q then
           (let e = (rx_table k i)\<lparr>rx_recvd := rq_recvd q\<rparr>;
                e = (if rq_init q then e\<lparr>rx_appd := ucast (rq_recvd q)\<rparr> else e)
            in Some (k\<lparr>rx_table := (rx_table k)(i := e)\<rparr>))
         else Some (k\<lparr>rx_engRsp := s_write (rx_engRsp k) (rx_table k i)\<rparr>))
      else Some k)"

section \<open>Send window\<close>

definition INITIAL_WINDOW :: "16 word" where "INITIAL_WINDOW = of_nat (10 * MSS)"

record txSarEntry =
  tx_ackd :: "32 word"
  tx_not_ackd :: "32 word"
  tx_recv_window :: "16 word"
  tx_cong_window :: "16 word"
  tx_slowstart_threshold :: "16 word"
  tx_app :: "16 word"
  tx_count :: "2 word"
  tx_fastRetransmitted :: bool
  tx_synSent :: bool
  tx_finReady :: bool
  tx_finSent :: bool

record rxTxSarQuery =
  xq_sessionID :: "16 word"
  xq_ackd :: "32 word"
  xq_recv_window :: "16 word"
  xq_cong_window :: "16 word"
  xq_count :: "2 word"
  xq_fastRetransmitted :: bool
  xq_write :: bool

record txTxSarQuery =
  tq_sessionID :: "16 word"
  tq_not_ackd :: "32 word"
  tq_write :: bool
  tq_init :: bool
  tq_synSent :: bool
  tq_finReady :: bool
  tq_finSent :: bool
  tq_isRtQuery :: bool

record txAppTxSarPush =
  tp_sessionID :: "16 word"
  tp_app :: "16 word"

record rxTxSarReply =
  xr_prevAck :: "32 word"
  xr_nextByte :: "32 word"
  xr_cong_window :: "16 word"
  xr_slowstart_threshold :: "16 word"
  xr_count :: "2 word"
  xr_fastRetransmitted :: bool

record txTxSarReply =
  tr_ackd :: "32 word"
  tr_not_ackd :: "32 word"
  tr_usableWindow :: "16 word"
  tr_app :: "16 word"
  tr_usedLength :: "16 word"
  tr_synSent :: bool
  tr_finReady :: bool
  tr_finSent :: bool

record txSarAckPush =
  ak_sessionID :: "16 word"
  ak_ackd :: "16 word"
  ak_min_window :: "16 word"
  ak_init :: bool

record txSarTable =
  tx_table :: "16 word \<Rightarrow> txSarEntry"
  tx_rxEngReq :: "rxTxSarQuery hls_stream"
  tx_txEngReq :: "txTxSarQuery hls_stream"
  tx_appPush :: "txAppTxSarPush hls_stream"
  tx_rxEngRsp :: "rxTxSarReply hls_stream"
  tx_txEngRsp :: "txTxSarReply hls_stream"
  tx_ackPush :: "txSarAckPush hls_stream"

definition minWindow :: "16 word \<Rightarrow> 16 word \<Rightarrow> 16 word" where
  "minWindow cong_window recv_window = (if cong_window < recv_window then cong_window else recv_window)"

definition txSarReplyOf :: "txSarEntry \<Rightarrow> txTxSarReply" where
  "txSarReplyOf e =
     (let usedLength = ucast (tx_not_ackd e) - ucast (tx_ackd e);
          window = minWindow (tx_cong_window e) (tx_recv_window e);
          usableWindow = (if window < usedLength then window - usedLength else window)
      in \<lparr>tr_ackd = tx_ackd e, tr_not_ackd = tx_not_ackd e, tr_usableWindow = usableWindow, tr_app = tx_app e,
          tr_usedLength = usedLength, tr_synSent = tx_synSent e, tr_finReady = tx_finReady e, tr_finSent = tx_finSent e\<rparr>)"

text \<open>A write of the transmit engine: a new position, with the whole entry when the connection starts, or the
  windows of a retransmission.\<close>

definition txSarWrite :: "txTxSarQuery \<Rightarrow> txSarEntry \<Rightarrow> txSarEntry" where
  "txSarWrite q e =
     (if \<not> tq_isRtQuery q then
        (let e = e\<lparr>tx_not_ackd := tq_not_ackd q\<rparr>;
             e = (if tq_init q then
                    e\<lparr>tx_app := ucast (tq_not_ackd q), tx_ackd := tq_not_ackd q - 1, tx_cong_window := INITIAL_WINDOW,
                      tx_slowstart_threshold := 0xFFFF, tx_synSent := tq_synSent q, tx_finReady := tq_finReady q,
                      tx_finSent := tq_finSent q\<rparr>
                  else e);
             e = (if tq_synSent q then e\<lparr>tx_synSent := True\<rparr> else e);
             e = (if tq_finReady q then e\<lparr>tx_finReady := True\<rparr> else e)
         in if tq_finSent q then e\<lparr>tx_finSent := True\<rparr> else e)
      else e\<lparr>tx_slowstart_threshold := rng 15 0 (tq_not_ackd q), tx_cong_window := INITIAL_WINDOW\<rparr>)"

definition tx_sar_table :: "txSarTable \<Rightarrow> txSarTable option" where
  "tx_sar_table k =
     (if \<not> s_empty (tx_txEngReq k) then
        (let q = s_head (tx_txEngReq k); i = tq_sessionID q; k = k\<lparr>tx_txEngReq := s_rest (tx_txEngReq k)\<rparr> in
         if \<not> inTable i then None
         else if tq_write q then
           (let k = k\<lparr>tx_table := (tx_table k)(i := txSarWrite q (tx_table k i))\<rparr> in
            if \<not> tq_isRtQuery q \<and> tq_init q
            then Some (k\<lparr>tx_ackPush := s_write (tx_ackPush k)
                   \<lparr>ak_sessionID = i, ak_ackd = ucast (tq_not_ackd q), ak_min_window = INITIAL_WINDOW, ak_init = True\<rparr>\<rparr>)
            else Some k)
         else Some (k\<lparr>tx_txEngRsp := s_write (tx_txEngRsp k) (txSarReplyOf (tx_table k i))\<rparr>))
      else if \<not> s_empty (tx_appPush k) then
        (let p = s_head (tx_appPush k); i = tp_sessionID p; k = k\<lparr>tx_appPush := s_rest (tx_appPush k)\<rparr> in
         if inTable i then Some (k\<lparr>tx_table := (tx_table k)(i := (tx_table k i)\<lparr>tx_app := tp_app p\<rparr>)\<rparr>) else None)
      else if \<not> s_empty (tx_rxEngReq k) then
        (let q = s_head (tx_rxEngReq k); i = xq_sessionID q; k = k\<lparr>tx_rxEngReq := s_rest (tx_rxEngReq k)\<rparr> in
         if \<not> inTable i then None
         else if xq_write q then
           Some (k\<lparr>tx_table := (tx_table k)(i := (tx_table k i)\<lparr>tx_ackd := xq_ackd q, tx_recv_window := xq_recv_window q,
                     tx_cong_window := xq_cong_window q, tx_count := xq_count q,
                     tx_fastRetransmitted := xq_fastRetransmitted q\<rparr>),
                   tx_ackPush := s_write (tx_ackPush k)
                     \<lparr>ak_sessionID = i, ak_ackd = ucast (xq_ackd q),
                      ak_min_window = minWindow (xq_cong_window q) (xq_recv_window q), ak_init = False\<rparr>\<rparr>)
         else
           (let e = tx_table k i
            in Some (k\<lparr>tx_rxEngRsp := s_write (tx_rxEngRsp k)
                 \<lparr>xr_prevAck = tx_ackd e, xr_nextByte = tx_not_ackd e, xr_cong_window = tx_cong_window e,
                  xr_slowstart_threshold = tx_slowstart_threshold e, xr_count = tx_count e,
                  xr_fastRetransmitted = tx_fastRetransmitted e\<rparr>\<rparr>)))
      else Some k)"

section \<open>Windows\<close>

text \<open>Bytes received and not read by the application, and bytes sent and not acknowledged.\<close>

definition unread :: "rxSarEntry \<Rightarrow> nat" where
  "unread e = unat (ucast (rx_recvd e) - rx_appd e :: 16 word)"

definition inFlight :: "txSarEntry \<Rightarrow> nat" where
  "inFlight e = unat (ucast (tx_not_ackd e) - ucast (tx_ackd e) :: 16 word)"

text \<open>The advertised window and the bytes waiting for the application add up to the buffer less one byte: a
  sender that respects the window never overruns the buffer, through wrap-around of the sequence numbers.\<close>

theorem rx_window_exact:
  "unat (rr_windowSize (rxSarReplyOf e)) + unread e = 65535"
proof -
  let ?u = "ucast (rx_recvd e) - rx_appd e :: 16 word"
  have "rr_windowSize (rxSarReplyOf e) = - 1 - ?u"
    by (simp add: rxSarReplyOf_def algebra_simps)
  moreover have "unat (- 1 - ?u) = unat (- 1 :: 16 word) - unat ?u"
    by (rule unat_sub) simp
  moreover have "unat ?u \<le> unat (- 1 :: 16 word)" by (simp flip: word_le_nat_alt)
  moreover have "unat (- 1 :: 16 word) = 65535" by (simp add: unsigned_minus_1_eq_mask mask_eq_exp_minus_1)
  ultimately show ?thesis by (simp add: unread_def)
qed

text \<open>The usable window answered to the transmit engine is the whole window when the bytes in flight fit into
  it, and their negative excess when they do not: with anything in flight, the answer and the bytes in flight
  exceed the window that the peer and the congestion control allow.\<close>

theorem usable_window_exceeds:
  "unat (tr_usableWindow (txSarReplyOf e)) + inFlight e =
     unat (minWindow (tx_cong_window e) (tx_recv_window e)) +
       (if unat (minWindow (tx_cong_window e) (tx_recv_window e)) < inFlight e then 65536 else inFlight e)"
proof -
  define u :: "16 word" where "u = ucast (tx_not_ackd e) - ucast (tx_ackd e)"
  define w where "w = minWindow (tx_cong_window e) (tx_recv_window e)"
  have "unat (if w < u then w - u else w) + unat u = unat w + (if unat w < unat u then 65536 else unat u)"
    using unsigned_less [of u, where ?'a = nat] by (simp add: word_less_nat_alt unat_sub_if')
  moreover have "tr_usableWindow (txSarReplyOf e) = (if w < u then w - u else w)"
    by (simp add: txSarReplyOf_def u_def w_def Let_def)
  ultimately show ?thesis by (simp only: inFlight_def u_def [symmetric] w_def [symmetric])
qed

end
