(* ===== verification/Toe_Retransmit.thy ===== *)
theory Toe_Retransmit
  imports Toe_Timers
begin

text \<open>
  The retransmission and probe timers and their composition with the close timer:
  \<^verbatim>\<open>toe/retransmit_timer/retransmit_timer.cpp\<close>, \<^verbatim>\<open>toe/probe_timer/probe_timer.cpp\<close>,
  \<^verbatim>\<open>stream_merger\<close> of \<^verbatim>\<open>axi_utils.hpp\<close> and \<^verbatim>\<open>timerWrapper\<close> of \<^verbatim>\<open>toe.cpp\<close>.
\<close>

section \<open>Retransmission timer\<close>

record retransmitEntry =
  re_time :: "32 word"
  re_retries :: "3 word"
  re_active :: bool
  re_type :: eventType

record rxRetransmitTimerUpdate =
  ru_sessionID :: "16 word"
  ru_stop :: bool

record txRetransmitTimerSet =
  rs_sessionID :: "16 word"
  rs_type :: eventType

record retransmitTimer =
  rt_table :: "16 word \<Rightarrow> retransmitEntry"
  rt_position :: "16 word"
  rt_waitForWrite :: bool
  rt_prevPosition :: "16 word"
  rt_update :: rxRetransmitTimerUpdate
  rt_clearTimer :: "rxRetransmitTimerUpdate hls_stream"
  rt_setTimer :: "txRetransmitTimerSet hls_stream"
  rt_setEvent :: "toeEvent hls_stream"
  rt_releaseState :: "16 word hls_stream"
  rt_rxNotification :: "appNotification hls_stream"
  rt_txNotification :: "openStatus hls_stream"

definition RT_EVENT_DEPTH :: nat where "RT_EVENT_DEPTH = 2"

text \<open>The pending update, the request to (re)start a timer, and the visit of a session.\<close>

definition rtUpdateEntry :: "bool \<Rightarrow> retransmitEntry \<Rightarrow> retransmitEntry" where
  "rtUpdateEntry stop e =
     (if \<not> stop then e\<lparr>re_time := TIME_1s\<rparr> else e\<lparr>re_time := 0, re_active := False\<rparr>)\<lparr>re_retries := 0\<rparr>"

definition rtInterval :: "3 word \<Rightarrow> 32 word" where
  "rtInterval retries =
     (if retries = 0 then TIME_1s else if retries = 1 then TIME_5s else if retries = 2 then TIME_10s
      else if retries = 3 then TIME_15s else TIME_30s)"

definition rtSetEntry :: "eventType \<Rightarrow> retransmitEntry \<Rightarrow> retransmitEntry" where
  "rtSetEntry t e =
     (let e = e\<lparr>re_type := t\<rparr>;
          e = (if \<not> re_active e then e\<lparr>re_time := rtInterval (re_retries e)\<rparr> else e)
      in e\<lparr>re_active := True\<rparr>)"

definition rtVisit :: "16 word \<Rightarrow> retransmitTimer \<Rightarrow> retransmitTimer" where
  "rtVisit i k =
     (let e = rt_table k i in
      if re_active e then
        (if 0 < re_time e then k\<lparr>rt_table := (rt_table k)(i := e\<lparr>re_time := re_time e - 1\<rparr>)\<rparr>
         else if \<not> s_full RT_EVENT_DEPTH (rt_setEvent k) then
           (let e = e\<lparr>re_time := 0, re_active := False\<rparr> in
            if re_retries e < 4 then
              (let e = e\<lparr>re_retries := re_retries e + 1\<rparr> in
               k\<lparr>rt_table := (rt_table k)(i := e),
                 rt_setEvent := s_write (rt_setEvent k) (plainEvent (re_type e) i (re_retries e))\<rparr>)
            else
              (let e = e\<lparr>re_retries := 0\<rparr>;
                   k = k\<lparr>rt_table := (rt_table k)(i := e), rt_releaseState := s_write (rt_releaseState k) i\<rparr> in
               if re_type e = SYN
               then k\<lparr>rt_txNotification := s_write (rt_txNotification k) \<lparr>op_sessionID = i, op_success = False\<rparr>\<rparr>
               else k\<lparr>rt_rxNotification := s_write (rt_rxNotification k) ((sessionNotification i)\<lparr>an_closed := True\<rparr>)\<rparr>))
         else k)
      else k)"

definition retransmit_timer :: "retransmitTimer \<Rightarrow> retransmitTimer option" where
  "retransmit_timer k =
     (if rt_waitForWrite k \<and> ru_sessionID (rt_update k) \<noteq> rt_prevPosition k then
        (let i = ru_sessionID (rt_update k) in
         if inTable i
         then Some (k\<lparr>rt_table := (rt_table k)(i := rtUpdateEntry (ru_stop (rt_update k)) (rt_table k i)),
                      rt_waitForWrite := False\<rparr>)
         else None)
      else if \<not> s_empty (rt_clearTimer k) \<and> \<not> rt_waitForWrite k then
        Some (k\<lparr>rt_update := s_head (rt_clearTimer k), rt_clearTimer := s_rest (rt_clearTimer k),
                rt_waitForWrite := True\<rparr>)
      else if \<not> s_empty (rt_setTimer k) then
        (let set = s_head (rt_setTimer k); i = rs_sessionID set;
             k = k\<lparr>rt_setTimer := s_rest (rt_setTimer k)\<rparr>;
             k = (if uint i - 3 < uint (rt_position k) \<and> rt_position k \<le> i
                  then k\<lparr>rt_position := rt_position k + 5\<rparr> else k) in
         if inTable i
         then Some (k\<lparr>rt_table := (rt_table k)(i := rtSetEntry (rs_type set) (rt_table k i)), rt_prevPosition := i\<rparr>)
         else None)
      else
        (let i = rt_position k;
             k = k\<lparr>rt_position := rt_position k + 1\<rparr>;
             k = (if 32 \<le> rt_position k then k\<lparr>rt_position := 0\<rparr> else k) in
         if inTable i then Some ((rtVisit i k)\<lparr>rt_prevPosition := i\<rparr>) else None))"

section \<open>Probe timer\<close>

record probeTimer =
  pb_table :: "16 word \<Rightarrow> timerEntry"
  pb_currSessionID :: "16 word"
  pb_updSessionID :: "16 word"
  pb_prevSessionID :: "16 word"
  pb_WaitForWrite :: bool
  pb_clearTimer :: "16 word hls_stream"
  pb_setTimer :: "16 word hls_stream"
  pb_setEvent :: "toeEvent hls_stream"

definition PROBE_EVENT_DEPTH :: nat where "PROBE_EVENT_DEPTH = 2"

definition probeVisit :: "16 word \<Rightarrow> bool \<Rightarrow> probeTimer \<Rightarrow> probeTimer" where
  "probeVisit i fastResume k =
     (let e = pb_table k i in
      if tm_active e \<and> \<not> s_full PROBE_EVENT_DEPTH (pb_setEvent k) then
        (if tm_time e = 0 \<or> fastResume
         then k\<lparr>pb_table := (pb_table k)(i := e\<lparr>tm_time := 0, tm_active := False\<rparr>),
                pb_setEvent := s_write (pb_setEvent k) (plainEvent RT i 0)\<rparr>
         else k\<lparr>pb_table := (pb_table k)(i := e\<lparr>tm_time := tm_time e - 1\<rparr>)\<rparr>)
      else k)"

definition probe_timer :: "probeTimer \<Rightarrow> probeTimer option" where
  "probe_timer k =
     (if pb_WaitForWrite k then
        map_option (\<lambda>k. k\<lparr>pb_prevSessionID := pb_prevSessionID k - 1\<rparr>)
          (if pb_updSessionID k \<noteq> pb_prevSessionID k then
             (if inTable (pb_updSessionID k)
              then Some (k\<lparr>pb_table := (pb_table k)(pb_updSessionID k := \<lparr>tm_time = TIME_50ms, tm_active = True\<rparr>),
                           pb_WaitForWrite := False\<rparr>)
              else None)
           else Some k)
      else if \<not> s_empty (pb_setTimer k) then
        Some (k\<lparr>pb_updSessionID := s_head (pb_setTimer k), pb_setTimer := s_rest (pb_setTimer k),
                pb_WaitForWrite := True\<rparr>)
      else
        (let (checkID, fastResume, k) =
           (if \<not> s_empty (pb_clearTimer k)
            then (s_head (pb_clearTimer k), True, k\<lparr>pb_clearTimer := s_rest (pb_clearTimer k)\<rparr>)
            else (pb_currSessionID k, False,
                  k\<lparr>pb_currSessionID := (if pb_currSessionID k + 1 = 32 then 0 else pb_currSessionID k + 1)\<rparr>))
         in if inTable checkID
            then Some ((probeVisit checkID fastResume k)\<lparr>pb_prevSessionID := checkID\<rparr>) else None))"

section \<open>The three timers together\<close>

definition stream_merger :: "'a hls_stream \<Rightarrow> 'a hls_stream \<Rightarrow> 'a hls_stream \<Rightarrow> 'a hls_stream \<times> 'a hls_stream \<times> 'a hls_stream" where
  "stream_merger in1 in2 out1 =
     (if \<not> s_empty in1 then (s_rest in1, in2, s_write out1 (s_head in1))
      else if \<not> s_empty in2 then (in1, s_rest in2, s_write out1 (s_head in2))
      else (in1, in2, out1))"

record timers =
  tw_rt :: retransmitTimer
  tw_probe :: probeTimer
  tw_close :: closeTimer
  tw_setEvent :: "toeEvent hls_stream"
  tw_releaseState :: "16 word hls_stream"

definition mergeEvents :: "timers \<Rightarrow> timers" where
  "mergeEvents k =
     (let (rt, probe, out) = stream_merger (rt_setEvent (tw_rt k)) (pb_setEvent (tw_probe k)) (tw_setEvent k)
      in k\<lparr>tw_rt := (tw_rt k)\<lparr>rt_setEvent := rt\<rparr>, tw_probe := (tw_probe k)\<lparr>pb_setEvent := probe\<rparr>, tw_setEvent := out\<rparr>)"

definition mergeReleases :: "timers \<Rightarrow> timers" where
  "mergeReleases k =
     (let (close, rt, out) = stream_merger (ct_releaseState (tw_close k)) (rt_releaseState (tw_rt k)) (tw_releaseState k)
      in k\<lparr>tw_close := (tw_close k)\<lparr>ct_releaseState := close\<rparr>, tw_rt := (tw_rt k)\<lparr>rt_releaseState := rt\<rparr>,
           tw_releaseState := out\<rparr>)"

definition timerWrapper :: "timers \<Rightarrow> timers option" where
  "timerWrapper k =
     (let k = mergeEvents k in
      case retransmit_timer (tw_rt k) of None \<Rightarrow> None | Some rt \<Rightarrow>
      case probe_timer (tw_probe k) of None \<Rightarrow> None | Some probe \<Rightarrow>
      case close_timer (tw_close k) of None \<Rightarrow> None | Some close \<Rightarrow>
        Some (mergeReleases (k\<lparr>tw_rt := rt, tw_probe := probe, tw_close := close\<rparr>)))"

section \<open>Expiry\<close>

text \<open>What a visit does to an entry when there is room for an event.\<close>

definition rtTick :: "16 word \<Rightarrow> retransmitEntry \<Rightarrow> retransmitEntry \<times> toeEvent list" where
  "rtTick i e =
     (if re_active e then
        (if 0 < re_time e then (e\<lparr>re_time := re_time e - 1\<rparr>, [])
         else if re_retries e < 4
         then (e\<lparr>re_time := 0, re_active := False, re_retries := re_retries e + 1\<rparr>,
               [plainEvent (re_type e) i (re_retries e + 1)])
         else (e\<lparr>re_time := 0, re_active := False, re_retries := 0\<rparr>, []))
      else (e, []))"

text \<open>The visit that ends the attempts on a session, and what a timer puts out on the streams that only such a visit
  writes: the release of the session, and the notice to the application.\<close>

definition gaveUp :: "retransmitEntry \<Rightarrow> bool" where
  "gaveUp e \<longleftrightarrow> re_active e \<and> re_time e = 0 \<and> \<not> re_retries e < 4"

definition rtQuit :: "(16 word \<Rightarrow> retransmitEntry \<Rightarrow> 'o list) \<Rightarrow> 16 word \<Rightarrow> retransmitEntry \<Rightarrow> retransmitEntry \<times> 'o list" where
  "rtQuit g i e = (fst (rtTick i e), if gaveUp e then g i e else [])"

definition quitRelease :: "16 word \<Rightarrow> retransmitEntry \<Rightarrow> 16 word list" where
  "quitRelease i e = [i]"

definition quitOpen :: "16 word \<Rightarrow> retransmitEntry \<Rightarrow> openStatus list" where
  "quitOpen i e = (if re_type e = SYN then [\<lparr>op_sessionID = i, op_success = False\<rparr>] else [])"

definition quitNotice :: "16 word \<Rightarrow> retransmitEntry \<Rightarrow> appNotification list" where
  "quitNotice i e = (if re_type e = SYN then [] else [(sessionNotification i)\<lparr>an_closed := True\<rparr>])"

lemmas quit_defs = rtQuit_def gaveUp_def quitRelease_def quitOpen_def quitNotice_def

lemma rtVisit_tick:
  assumes "rt_setEvent k = []"
  shows "rt_table (rtVisit i k) = (rt_table k)(i := fst (rtTick i (rt_table k i)))"
    and "rt_setEvent (rtVisit i k) = snd (rtTick i (rt_table k i))"
    and "rt_waitForWrite (rtVisit i k) = rt_waitForWrite k"
    and "rt_clearTimer (rtVisit i k) = rt_clearTimer k"
    and "rt_setTimer (rtVisit i k) = rt_setTimer k"
    and "rt_position (rtVisit i k) = rt_position k"
    and "rt_releaseState (rtVisit i k) = rt_releaseState k @ snd (rtQuit quitRelease i (rt_table k i))"
    and "rt_txNotification (rtVisit i k) = rt_txNotification k @ snd (rtQuit quitOpen i (rt_table k i))"
    and "rt_rxNotification (rtVisit i k) = rt_rxNotification k @ snd (rtQuit quitNotice i (rt_table k i))"
  using assms by (auto simp: rtVisit_def rtTick_def quit_defs s_full_def RT_EVENT_DEPTH_def s_write_def word_neq_0_conv Let_def)

lemma rtTick_simps [simp]:
  "\<not> re_active e \<Longrightarrow> rtTick i e = (e, [])"
  "re_active e \<Longrightarrow> re_time e \<noteq> 0 \<Longrightarrow> rtTick i e = (e\<lparr>re_time := re_time e - 1\<rparr>, [])"
  by (simp_all add: rtTick_def word_neq_0_conv)

lemma ticks_rt_inactive: "\<not> re_active e \<Longrightarrow> ticks (rtTick i) n e = (e, [])"
  by (induction n) simp_all

lemma ticks_rt:
  "re_active e \<Longrightarrow> ticks (rtTick i) n e =
     (if n \<le> unat (re_time e) then (e\<lparr>re_time := re_time e - of_nat n\<rparr>, [])
      else rtTick i (e\<lparr>re_time := 0\<rparr>))"
proof (induction n arbitrary: e)
  case 0
  then show ?case by simp
next
  case (Suc n)
  show ?case
  proof (cases "re_time e = 0")
    case True
    then have eq: "e\<lparr>re_time := 0\<rparr> = e" by simp
    have "\<not> re_active (fst (rtTick i e))" using True Suc.prems by (simp add: rtTick_def)
    with True show ?thesis
      unfolding eq by (cases "rtTick i e") (simp add: ticks_rt_inactive)
  next
    case False
    then have "n \<le> unat (re_time e - 1) \<longleftrightarrow> Suc n \<le> unat (re_time e)"
      by (simp add: unat_minus_one) (metis Suc_le_eq Suc_le_mono Suc_pred unat_gt_0)
    with Suc.prems False show ?thesis by (simp add: Suc.IH diff_diff_eq)
  qed
qed

lemma ticks_quit:
  "ticks (rtQuit g i) n e =
     (if \<not> re_active e then (e, [])
      else if n \<le> unat (re_time e) then (e\<lparr>re_time := re_time e - of_nat n\<rparr>, [])
      else rtQuit g i (e\<lparr>re_time := 0\<rparr>))"
proof (induction n arbitrary: e)
  case 0
  then show ?case by simp
next
  case (Suc n)
  have off: "ticks (rtQuit g i) m e = (e, [])" if "\<not> re_active e" for m e
    using that by (induction m) (simp_all add: rtQuit_def gaveUp_def)
  show ?case
  proof (cases "re_active e \<and> re_time e \<noteq> 0")
    case True
    then have "n \<le> unat (re_time e - 1) \<longleftrightarrow> Suc n \<le> unat (re_time e)"
      by (simp add: unat_minus_one) (metis Suc_le_eq Suc_le_mono Suc_pred unat_gt_0)
    moreover have "rtQuit g i e = (e\<lparr>re_time := re_time e - 1\<rparr>, [])" using True by (simp add: rtQuit_def gaveUp_def)
    ultimately show ?thesis using True by (simp add: Suc.IH diff_diff_eq)
  next
    case False
    show ?thesis
    proof (cases "re_active e")
      case True
      with False have "re_time e = 0" by simp
      then have eq: "e\<lparr>re_time := 0\<rparr> = e" by simp
      have "\<not> re_active (fst (rtTick i e))" using True \<open>re_time e = 0\<close> by (simp add: rtTick_def)
      then have "\<not> re_active (fst (rtQuit g i e))" by (simp add: rtQuit_def)
      with True \<open>re_time e = 0\<close> show ?thesis unfolding eq by (cases "rtQuit g i e") (simp add: off)
    next
      case False
      then show ?thesis by (simp add: off del: ticks.simps)
    qed
  qed
qed

definition isRetransmit :: "toeEvent \<Rightarrow> bool" where
  "isRetransmit e \<longleftrightarrow> ev_rt_count e \<noteq> 0"

lemma retries_Suc:
  assumes "(r :: 3 word) < 4"
  shows "r + 1 \<noteq> 0"
proof
  assume "r + 1 = 0"
  then have "r = - 1" by (simp add: eq_neg_iff_add_eq_0)
  with assms show False by simp
qed

lemma rtTick_event: "x \<in> set (snd (rtTick i e)) \<Longrightarrow> ev_sessionID x = i \<and> isRetransmit x"
  by (auto simp: rtTick_def plainEvent_def isRetransmit_def retries_Suc split: if_splits)

definition timersIdle :: "timers \<Rightarrow> bool" where
  "timersIdle k \<longleftrightarrow>
     \<not> rt_waitForWrite (tw_rt k) \<and> rt_clearTimer (tw_rt k) = [] \<and> rt_setTimer (tw_rt k) = [] \<and>
     inTable (rt_position (tw_rt k)) \<and>
     \<not> pb_WaitForWrite (tw_probe k) \<and> pb_clearTimer (tw_probe k) = [] \<and> pb_setTimer (tw_probe k) = [] \<and>
     inTable (pb_currSessionID (tw_probe k)) \<and> closeIdle (tw_close k) \<and>
     length (rt_setEvent (tw_rt k)) \<le> 1 \<and> list_all isRetransmit (rt_setEvent (tw_rt k)) \<and>
     list_all (\<lambda>e. \<not> isRetransmit e) (pb_setEvent (tw_probe k))"

text \<open>The retransmission events put out by the three timers together: merged, and still to be merged.\<close>

definition retransmitEvents :: "timers \<Rightarrow> toeEvent list" where
  "retransmitEvents k = filter isRetransmit (tw_setEvent k) @ rt_setEvent (tw_rt k)"

lemma retransmit_idle_step:
  assumes "\<not> rt_waitForWrite k" and "rt_clearTimer k = []" and "rt_setTimer k = []" and "inTable (rt_position k)"
    and "rt_setEvent k = []"
  shows "\<exists>t. retransmit_timer k = Some t \<and> \<not> rt_waitForWrite t \<and> rt_clearTimer t = [] \<and> rt_setTimer t = [] \<and>
    rt_position t = nextSession (rt_position k) \<and>
    rt_table t = (rt_table k)(rt_position k := fst (rtTick (rt_position k) (rt_table k (rt_position k)))) \<and>
    rt_setEvent t = snd (rtTick (rt_position k) (rt_table k (rt_position k))) \<and>
    rt_releaseState t = rt_releaseState k @ snd (rtQuit quitRelease (rt_position k) (rt_table k (rt_position k))) \<and>
    rt_txNotification t = rt_txNotification k @ snd (rtQuit quitOpen (rt_position k) (rt_table k (rt_position k))) \<and>
    rt_rxNotification t = rt_rxNotification k @ snd (rtQuit quitNotice (rt_position k) (rt_table k (rt_position k)))"
proof -
  have wrap: "32 \<le> rt_position k + 1 \<longleftrightarrow> rt_position k + 1 = 32"
    using assms(4) by (auto simp: inTable_def MAX_SESSIONS_def word_le_nat_alt word_unat_eq_iff unat_word_ariths)
  define s where "s = k\<lparr>rt_position := nextSession (rt_position k)\<rparr>"
  have "retransmit_timer k = Some ((rtVisit (rt_position k) s)\<lparr>rt_prevPosition := rt_position k\<rparr>)"
    using assms wrap by (simp add: retransmit_timer_def s_def nextSession_def Let_def)
  with assms show ?thesis by (simp add: rtVisit_tick s_def)
qed

lemma probe_idle_step:
  assumes "\<not> pb_WaitForWrite k" and "pb_clearTimer k = []" and "pb_setTimer k = []" and "inTable (pb_currSessionID k)"
    and "list_all (\<lambda>e. \<not> isRetransmit e) (pb_setEvent k)"
  shows "\<exists>t. probe_timer k = Some t \<and> \<not> pb_WaitForWrite t \<and> pb_clearTimer t = [] \<and> pb_setTimer t = [] \<and>
    inTable (pb_currSessionID t) \<and> list_all (\<lambda>e. \<not> isRetransmit e) (pb_setEvent t)"
proof -
  have "inTable (if pb_currSessionID k + 1 = 32 then 0 else pb_currSessionID k + 1)"
    using inTable_next [OF assms(4)] by (simp add: nextSession_def)
  with assms show ?thesis
    by (auto simp: probe_timer_def probeVisit_def s_write_def isRetransmit_def plainEvent_def Let_def)
qed

lemma mergeEvents_retransmit:
  assumes "timersIdle k"
  shows "retransmitEvents (mergeEvents k) = retransmitEvents k" and "rt_setEvent (tw_rt (mergeEvents k)) = []"
    and "list_all (\<lambda>e. \<not> isRetransmit e) (pb_setEvent (tw_probe (mergeEvents k)))"
proof -
  have "retransmitEvents (mergeEvents k) = retransmitEvents k \<and> rt_setEvent (tw_rt (mergeEvents k)) = [] \<and>
    list_all (\<lambda>e. \<not> isRetransmit e) (pb_setEvent (tw_probe (mergeEvents k)))"
    using assms by (cases "rt_setEvent (tw_rt k)"; cases "pb_setEvent (tw_probe k)")
      (auto simp: timersIdle_def retransmitEvents_def mergeEvents_def stream_merger_def s_write_def)
  then show "retransmitEvents (mergeEvents k) = retransmitEvents k" and "rt_setEvent (tw_rt (mergeEvents k)) = []"
    and "list_all (\<lambda>e. \<not> isRetransmit e) (pb_setEvent (tw_probe (mergeEvents k)))" by blast+
qed

lemma mergeEvents_frame:
  "tw_close (mergeEvents k) = tw_close k"
  "\<exists>es. tw_rt (mergeEvents k) = (tw_rt k)\<lparr>rt_setEvent := es\<rparr>"
  "\<exists>es. tw_probe (mergeEvents k) = (tw_probe k)\<lparr>pb_setEvent := es\<rparr>"
  by (auto simp: mergeEvents_def Let_def split: prod.splits)

lemma mergeReleases_frame:
  "\<exists>os. tw_close (mergeReleases k) = (tw_close k)\<lparr>ct_releaseState := os\<rparr>"
  "\<exists>os. tw_rt (mergeReleases k) = (tw_rt k)\<lparr>rt_releaseState := os\<rparr>"
  "tw_probe (mergeReleases k) = tw_probe k"
  "tw_setEvent (mergeReleases k) = tw_setEvent k"
  by (auto simp: mergeReleases_def Let_def split: prod.splits)

text \<open>The releases put out by the two timers that release sessions, merged and still to be merged.\<close>

definition releases :: "timers \<Rightarrow> 16 word list" where
  "releases k = tw_releaseState k @ rt_releaseState (tw_rt k) @ ct_releaseState (tw_close k)"

lemma releases_merge: "count_list (releases (mergeReleases k)) i = count_list (releases k) i"
  by (cases "ct_releaseState (tw_close k)"; cases "rt_releaseState (tw_rt k)")
    (simp_all add: releases_def mergeReleases_def stream_merger_def s_write_def)

lemma releases_events: "releases (mergeEvents k) = releases k"
  by (simp add: releases_def mergeEvents_def Let_def split: prod.splits)

lemma timerWrapper_idle:
  assumes "timersIdle s"
  defines "p \<equiv> rt_position (tw_rt s)"
  defines "q \<equiv> ct_currSessionID (tw_close s)"
  defines "e \<equiv> rt_table (tw_rt s) p"
  defines "r \<equiv> rtTick p e"
  defines "c \<equiv> countdown (\<lambda>i. i) q (ct_table (tw_close s) q)"
  shows "\<exists>t. timerWrapper s = Some t \<and> timersIdle t \<and> rt_position (tw_rt t) = nextSession p \<and>
    rt_table (tw_rt t) = (rt_table (tw_rt s))(p := fst r) \<and> retransmitEvents t = retransmitEvents s @ snd r \<and>
    rt_txNotification (tw_rt t) = rt_txNotification (tw_rt s) @ snd (rtQuit quitOpen p e) \<and>
    rt_rxNotification (tw_rt t) = rt_rxNotification (tw_rt s) @ snd (rtQuit quitNotice p e) \<and>
    (\<forall>i. count_list (releases t) i =
      count_list (releases s) i + count_list (snd (rtQuit quitRelease p e)) i + count_list (snd c) i) \<and>
    ct_currSessionID (tw_close t) = nextSession q \<and> ct_table (tw_close t) = (ct_table (tw_close s))(q := fst c)"
proof -
  define m where "m = mergeEvents s"
  note m = mergeEvents_retransmit [OF assms(1), folded m_def]
  obtain es fs where rt: "tw_rt m = (tw_rt s)\<lparr>rt_setEvent := es\<rparr>" and pb: "tw_probe m = (tw_probe s)\<lparr>pb_setEvent := fs\<rparr>"
    and cl: "tw_close m = tw_close s"
    using mergeEvents_frame [of s] by (auto simp: m_def)
  obtain rt' where rt': "retransmit_timer (tw_rt m) = Some rt'" "\<not> rt_waitForWrite rt'" "rt_clearTimer rt' = []"
      "rt_setTimer rt' = []" "rt_position rt' = nextSession p"
      "rt_table rt' = (rt_table (tw_rt s))(p := fst r)" "rt_setEvent rt' = snd r"
      "rt_releaseState rt' = rt_releaseState (tw_rt s) @ snd (rtQuit quitRelease p e)"
      "rt_txNotification rt' = rt_txNotification (tw_rt s) @ snd (rtQuit quitOpen p e)"
      "rt_rxNotification rt' = rt_rxNotification (tw_rt s) @ snd (rtQuit quitNotice p e)"
    using retransmit_idle_step [of "tw_rt m"] assms(1) m(2) by (auto simp: rt timersIdle_def p_def r_def e_def)
  obtain pb' where pb': "probe_timer (tw_probe m) = Some pb'" "\<not> pb_WaitForWrite pb'" "pb_clearTimer pb' = []"
      "pb_setTimer pb' = []" "inTable (pb_currSessionID pb')" "list_all (\<lambda>e. \<not> isRetransmit e) (pb_setEvent pb')"
    using probe_idle_step [of "tw_probe m"] assms(1) m(3) by (auto simp: pb timersIdle_def)
  obtain cl' where cl': "close_timer (tw_close m) = Some cl'" "closeIdle cl'" "ct_currSessionID cl' = nextSession q"
      "ct_table cl' = (ct_table (tw_close s))(q := fst c)" "ct_releaseState cl' = ct_releaseState (tw_close s) @ snd c"
    using close.visit [of "tw_close s"] assms(1) by (auto simp: cl timersIdle_def q_def c_def)
  define u where "u = m\<lparr>tw_rt := rt', tw_probe := pb', tw_close := cl'\<rparr>"
  obtain os os' where f: "tw_close (mergeReleases u) = cl'\<lparr>ct_releaseState := os\<rparr>"
      "tw_rt (mergeReleases u) = rt'\<lparr>rt_releaseState := os'\<rparr>" "tw_probe (mergeReleases u) = pb'"
      "tw_setEvent (mergeReleases u) = tw_setEvent m"
    using mergeReleases_frame [of u] by (auto simp: u_def)
  have w: "timerWrapper s = Some (mergeReleases u)"
    by (simp add: timerWrapper_def m_def [symmetric] rt' pb' cl' u_def Let_def)
  have "length (snd r) \<le> 1" and "list_all isRetransmit (snd r)"
    using rtTick_event [of _ p e] unfolding r_def by (auto simp: rtTick_def list_all_iff)
  moreover have "inTable p" using assms(1) by (simp add: timersIdle_def p_def)
  ultimately have "timersIdle (mergeReleases u)"
    using rt' pb' cl' by (simp add: timersIdle_def f closeIdle_def)
  moreover have "retransmitEvents (mergeReleases u) = retransmitEvents s @ snd r"
    using m(1,2) rt'(7) by (simp add: retransmitEvents_def f)
  moreover have "count_list (releases (mergeReleases u)) i =
      count_list (releases s) i + count_list (snd (rtQuit quitRelease p e)) i + count_list (snd c) i" for i
    using releases_events [of s] rt'(8) cl'(5)
    by (simp add: releases_merge) (simp add: releases_def u_def rt cl flip: m_def)
  ultimately show ?thesis using w rt' cl' by (simp add: f)
qed

interpretation wrap: rotor timerWrapper timersIdle "\<lambda>k. rt_position (tw_rt k)" "\<lambda>k. rt_table (tw_rt k)"
  retransmitEvents ev_sessionID rtTick
proof unfold_locales
  fix s :: timers
  assume "timersIdle s"
  from timerWrapper_idle [OF this] show "\<exists>t. timerWrapper s = Some t \<and> timersIdle t \<and>
      rt_position (tw_rt t) = nextSession (rt_position (tw_rt s)) \<and>
      rt_table (tw_rt t) = (rt_table (tw_rt s))(rt_position (tw_rt s) :=
        fst (rtTick (rt_position (tw_rt s)) (rt_table (tw_rt s) (rt_position (tw_rt s))))) \<and>
      retransmitEvents t = retransmitEvents s @ snd (rtTick (rt_position (tw_rt s)) (rt_table (tw_rt s) (rt_position (tw_rt s))))"
    by blast
qed (auto simp: timersIdle_def dest: rtTick_event)

interpretation wrapOpen: rotor timerWrapper timersIdle "\<lambda>k. rt_position (tw_rt k)" "\<lambda>k. rt_table (tw_rt k)"
  "\<lambda>k. rt_txNotification (tw_rt k)" op_sessionID "rtQuit quitOpen"
proof unfold_locales
  fix s :: timers
  assume "timersIdle s"
  from timerWrapper_idle [OF this] show "\<exists>t. timerWrapper s = Some t \<and> timersIdle t \<and>
      rt_position (tw_rt t) = nextSession (rt_position (tw_rt s)) \<and>
      rt_table (tw_rt t) = (rt_table (tw_rt s))(rt_position (tw_rt s) :=
        fst (rtQuit quitOpen (rt_position (tw_rt s)) (rt_table (tw_rt s) (rt_position (tw_rt s))))) \<and>
      rt_txNotification (tw_rt t) = rt_txNotification (tw_rt s) @
        snd (rtQuit quitOpen (rt_position (tw_rt s)) (rt_table (tw_rt s) (rt_position (tw_rt s))))"
    unfolding rtQuit_def fst_conv by blast
qed (auto simp: timersIdle_def rtQuit_def quitOpen_def split: if_splits)

interpretation wrapNotice: rotor timerWrapper timersIdle "\<lambda>k. rt_position (tw_rt k)" "\<lambda>k. rt_table (tw_rt k)"
  "\<lambda>k. rt_rxNotification (tw_rt k)" an_sessionID "rtQuit quitNotice"
proof unfold_locales
  fix s :: timers
  assume "timersIdle s"
  from timerWrapper_idle [OF this] show "\<exists>t. timerWrapper s = Some t \<and> timersIdle t \<and>
      rt_position (tw_rt t) = nextSession (rt_position (tw_rt s)) \<and>
      rt_table (tw_rt t) = (rt_table (tw_rt s))(rt_position (tw_rt s) :=
        fst (rtQuit quitNotice (rt_position (tw_rt s)) (rt_table (tw_rt s) (rt_position (tw_rt s))))) \<and>
      rt_rxNotification (tw_rt t) = rt_rxNotification (tw_rt s) @
        snd (rtQuit quitNotice (rt_position (tw_rt s)) (rt_table (tw_rt s) (rt_position (tw_rt s))))"
    unfolding rtQuit_def fst_conv by blast
qed (auto simp: timersIdle_def rtQuit_def quitNotice_def sessionNotification_def split: if_splits)

text \<open>The merged stream of releases mixes two timers, so releases of a session are counted.\<close>

lemma releases_turn:
  assumes "timersIdle s" and "inTable i"
  shows "\<exists>t. iter_opt timerWrapper n s = Some t \<and> count_list (releases t) i = count_list (releases s) i +
    length (snd (ticks (rtQuit quitRelease i) (visits n (rt_position (tw_rt s)) i) (rt_table (tw_rt s) i))) +
    length (snd (ticks (countdown (\<lambda>i. i) i) (visits n (ct_currSessionID (tw_close s)) i) (ct_table (tw_close s) i)))"
  using assms(1)
proof (induction n arbitrary: s)
  case 0
  then have "inTable (rt_position (tw_rt s))" "inTable (ct_currSessionID (tw_close s))" by (simp_all add: timersIdle_def closeIdle_def)
  with assms(2) show ?case by simp
next
  case (Suc n)
  define p q where "p = rt_position (tw_rt s)" and "q = ct_currSessionID (tw_close s)"
  have pq: "inTable p" "inTable q" using Suc.prems by (simp_all add: p_def q_def timersIdle_def closeIdle_def)
  define e c where "e = rt_table (tw_rt s) p" and "c = ct_table (tw_close s) q"
  from timerWrapper_idle [OF Suc.prems] obtain t where t: "timerWrapper s = Some t" "timersIdle t"
    "rt_position (tw_rt t) = nextSession p" "rt_table (tw_rt t) = (rt_table (tw_rt s))(p := fst (rtQuit quitRelease p e))"
    "count_list (releases t) i = count_list (releases s) i + count_list (snd (rtQuit quitRelease p e)) i +
      count_list (snd (countdown (\<lambda>i. i) q c)) i"
    "ct_currSessionID (tw_close t) = nextSession q" "ct_table (tw_close t) = (ct_table (tw_close s))(q := fst (countdown (\<lambda>i. i) q c))"
    unfolding p_def q_def e_def c_def rtQuit_def by auto
  from Suc.IH [OF t(2)] obtain u where u: "iter_opt timerWrapper n t = Some u"
    "count_list (releases u) i = count_list (releases t) i +
      length (snd (ticks (rtQuit quitRelease i) (visits n (nextSession p) i) (rt_table (tw_rt t) i))) +
      length (snd (ticks (countdown (\<lambda>i. i) i) (visits n (nextSession q) i) (ct_table (tw_close t) i)))"
    unfolding t(3,6) by blast
  have one: "count_list (snd (rtQuit quitRelease p e)) i = (if i = p then length (snd (rtQuit quitRelease p e)) else 0)"
    "count_list (snd (countdown (\<lambda>i. i) q c)) i = (if i = q then length (snd (countdown (\<lambda>i. i) q c)) else 0)"
    by (simp_all add: rtQuit_def quitRelease_def countdown_def)
  have 1: "length (snd (ticks (rtQuit quitRelease i) (visits (Suc n) p i) (rt_table (tw_rt s) i))) =
      (if i = p then length (snd (rtQuit quitRelease p e)) else 0) +
      length (snd (ticks (rtQuit quitRelease i) (visits n (nextSession p) i) (rt_table (tw_rt t) i)))"
    using visits_Suc [OF pq(1) assms(2), of n] t(4) by (cases "i = p") (auto simp: e_def Let_def split: prod.splits)
  have 2: "length (snd (ticks (countdown (\<lambda>i. i) i) (visits (Suc n) q i) (ct_table (tw_close s) i))) =
      (if i = q then length (snd (countdown (\<lambda>i. i) q c)) else 0) +
      length (snd (ticks (countdown (\<lambda>i. i) i) (visits n (nextSession q) i) (ct_table (tw_close t) i)))"
    using visits_Suc [OF pq(2) assms(2), of n] t(7) by (cases "i = q") (auto simp: c_def Let_def split: prod.splits)
  show ?case
    using t(1) u(1) unfolding p_def [symmetric] q_def [symmetric] 1 2
    by (intro exI [of _ u]) (simp add: u(2) t(5) one)
qed

text \<open>C23: In calls without requests a running retransmission timer fires exactly once, in the visit after its count
  has reached zero.  Up to four times in a row it fires with an event that carries the number of the attempt.  The fifth time
  it fires without an event: the session is released, the application gets one notice (a failed opening for a \<open>SYN\<close>, a
  closed session otherwise), and the attempts start over.  Nothing else is released or noticed for the session, apart from the
  release by its close timer.  An idle timer does not fire, and probe events do not delay it.\<close>

theorem retransmit_fires:
  fixes n :: nat
  assumes "timersIdle k" and "inTable i"
  defines "e \<equiv> rt_table (tw_rt k) i"
  defines "due \<equiv> re_active e \<and> distanceTo (rt_position (tw_rt k)) i + 32 * unat (re_time e) < n"
  defines "c \<equiv> ct_table (tw_close k) i"
  defines "closes \<equiv> tm_active c \<and> distanceTo (ct_currSessionID (tw_close k)) i + 32 * unat (tm_time c) < n"
  shows "\<exists>k'. iter_opt timerWrapper n k = Some k' \<and>
    filter (\<lambda>x. ev_sessionID x = i) (retransmitEvents k') = filter (\<lambda>x. ev_sessionID x = i) (retransmitEvents k) @
      (if due \<and> re_retries e < 4 then [plainEvent (re_type e) i (re_retries e + 1)] else []) \<and>
    count_list (releases k') i = count_list (releases k) i +
      (if due \<and> \<not> re_retries e < 4 then 1 else 0) + (if closes then 1 else 0) \<and>
    filter (\<lambda>x. op_sessionID x = i) (rt_txNotification (tw_rt k')) = filter (\<lambda>x. op_sessionID x = i) (rt_txNotification (tw_rt k)) @
      (if due \<and> \<not> re_retries e < 4 \<and> re_type e = SYN then [\<lparr>op_sessionID = i, op_success = False\<rparr>] else []) \<and>
    filter (\<lambda>x. an_sessionID x = i) (rt_rxNotification (tw_rt k')) = filter (\<lambda>x. an_sessionID x = i) (rt_rxNotification (tw_rt k)) @
      (if due \<and> \<not> re_retries e < 4 \<and> re_type e \<noteq> SYN then [(sessionNotification i)\<lparr>an_closed := True\<rparr>] else []) \<and>
    re_active (rt_table (tw_rt k') i) = (re_active e \<and> \<not> due) \<and>
    re_retries (rt_table (tw_rt k') i) = (if due then (if re_retries e < 4 then re_retries e + 1 else 0) else re_retries e)"
proof -
  let ?v = "visits n (rt_position (tw_rt k)) i"
  obtain k' where run: "iter_opt timerWrapper n k = Some k'"
    and ev: "(rt_table (tw_rt k') i, filter (\<lambda>x. ev_sessionID x = i) (retransmitEvents k')) =
      (let (e', os) = ticks (rtTick i) ?v e in (e', filter (\<lambda>x. ev_sessionID x = i) (retransmitEvents k) @ os))"
    using wrap.turn [OF assms(1,2), of n, folded e_def] by blast
  have tx: "filter (\<lambda>x. op_sessionID x = i) (rt_txNotification (tw_rt k')) =
      filter (\<lambda>x. op_sessionID x = i) (rt_txNotification (tw_rt k)) @ snd (ticks (rtQuit quitOpen i) ?v e)"
    using wrapOpen.turn [OF assms(1,2), of n, folded e_def] run by (auto simp: Let_def split: prod.splits)
  have rx: "filter (\<lambda>x. an_sessionID x = i) (rt_rxNotification (tw_rt k')) =
      filter (\<lambda>x. an_sessionID x = i) (rt_rxNotification (tw_rt k)) @ snd (ticks (rtQuit quitNotice i) ?v e)"
    using wrapNotice.turn [OF assms(1,2), of n, folded e_def] run by (auto simp: Let_def split: prod.splits)
  have rel: "count_list (releases k') i = count_list (releases k) i + length (snd (ticks (rtQuit quitRelease i) ?v e)) +
      length (snd (ticks (countdown (\<lambda>i. i) i) (visits n (ct_currSessionID (tw_close k)) i) c))"
    using releases_turn [OF assms(1,2), of n, folded e_def c_def] run by simp
  have cl: "length (snd (ticks (countdown (\<lambda>i. i) i) (visits n (ct_currSessionID (tw_close k)) i) c)) = (if closes then 1 else 0)"
    by (cases "tm_active c") (simp_all add: closes_def ticks_inactive ticks_countdown flip: visits_greater)
  have q: "snd (ticks (rtQuit g i) ?v e) = (if due \<and> \<not> re_retries e < 4 then g i (e\<lparr>re_time := 0\<rparr>) else [])"
    for g :: "16 word \<Rightarrow> retransmitEntry \<Rightarrow> 'o list"
    by (simp add: ticks_quit due_def rtQuit_def gaveUp_def flip: visits_greater)
  have "re_active (rt_table (tw_rt k') i) = (re_active e \<and> \<not> due) \<and>
    re_retries (rt_table (tw_rt k') i) = (if due then (if re_retries e < 4 then re_retries e + 1 else 0) else re_retries e) \<and>
    filter (\<lambda>x. ev_sessionID x = i) (retransmitEvents k') = filter (\<lambda>x. ev_sessionID x = i) (retransmitEvents k) @
      (if due \<and> re_retries e < 4 then [plainEvent (re_type e) i (re_retries e + 1)] else [])"
  proof (cases "re_active e")
    case False
    with ev show ?thesis by (simp add: ticks_rt_inactive due_def)
  next
    case True
    with ev show ?thesis
      by (cases due) (auto simp: ticks_rt due_def rtTick_def Let_def simp flip: visits_greater)
  qed
  then show ?thesis
    using run by (intro exI [of _ k']) (simp add: tx rx rel cl q quitRelease_def quitOpen_def quitNotice_def)
qed

text \<open>A request to set a timer that has expired runs it for one, five, ten, fifteen or thirty seconds, by the
  number of attempts made since the last acknowledgement; a running timer is left alone.\<close>

theorem retransmit_backoff:
  "re_active (rtSetEntry t e) \<and> re_type (rtSetEntry t e) = t \<and> re_retries (rtSetEntry t e) = re_retries e \<and>
   re_time (rtSetEntry t e) =
     (if re_active e then re_time e else [TIME_1s, TIME_5s, TIME_10s, TIME_15s, TIME_30s] ! min 4 (unat (re_retries e)))"
proof -
  have "re_retries e \<in> {0, 1, 2, 3} \<or> 4 \<le> unat (re_retries e)"
    by (simp add: word_unat_eq_iff) arith
  then show ?thesis by (auto simp: rtSetEntry_def rtInterval_def min_absorb1 Let_def)
qed

text \<open>A request for one of the last sessions, made while the visit is just behind it, pushes the position past the
  end of the table: the next visit accesses an entry that does not exist.\<close>

theorem retransmit_overrun:
  assumes "\<not> rt_waitForWrite k" and "rt_clearTimer k = []" and "rt_setTimer k = [\<lparr>rs_sessionID = i, rs_type = t\<rparr>]"
    and "inTable i" and "27 \<le> rt_position k" and "rt_position k \<le> i" and "uint i - 3 < uint (rt_position k)"
  shows "\<exists>k'. retransmit_timer k = Some k' \<and> \<not> inTable (rt_position k') \<and> retransmit_timer k' = None"
proof -
  have "unat (rt_position k) < 32"
    using assms(4,6) by (simp add: inTable_def MAX_SESSIONS_def word_le_nat_alt)
  moreover have "27 \<le> unat (rt_position k)" using assms(5) by (simp add: word_le_nat_alt)
  ultimately have "\<not> inTable (rt_position k + 5)"
    by (simp add: inTable_def MAX_SESSIONS_def unat_word_ariths)
  with assms show ?thesis
    by (auto simp: retransmit_timer_def Let_def)
qed

text \<open>The timers at load, with one session waiting for its second attempt.\<close>

definition timersReset :: timers where
  "timersReset =
     \<lparr>tw_rt = \<lparr>rt_table = (\<lambda>_. \<lparr>re_time = 0, re_retries = 0, re_active = False, re_type = TX\<rparr>), rt_position = 0,
        rt_waitForWrite = False, rt_prevPosition = 0, rt_update = \<lparr>ru_sessionID = 0, ru_stop = False\<rparr>,
        rt_clearTimer = [], rt_setTimer = [], rt_setEvent = [], rt_releaseState = [], rt_rxNotification = [],
        rt_txNotification = []\<rparr>,
      tw_probe = \<lparr>pb_table = (\<lambda>_. \<lparr>tm_time = 0, tm_active = False\<rparr>), pb_currSessionID = 0, pb_updSessionID = 0,
        pb_prevSessionID = 0, pb_WaitForWrite = False, pb_clearTimer = [], pb_setTimer = [], pb_setEvent = []\<rparr>,
      tw_close = \<lparr>ct_table = (\<lambda>_. \<lparr>tm_time = 0, tm_active = False\<rparr>), ct_currSessionID = 0, ct_setSessionID = 0,
        ct_prevSessionID = 0, ct_waitForWrite = False, ct_setTimer = [], ct_releaseState = []\<rparr>,
      tw_setEvent = [], tw_releaseState = []\<rparr>"

lemma timersReset_idle: "timersIdle timersReset"
  by (simp add: timersIdle_def timersReset_def closeIdle_def)

theorem retransmit_fires_witness:
  "let k = timersReset\<lparr>tw_rt := (tw_rt timersReset)\<lparr>rt_table := (rt_table (tw_rt timersReset))
         (9 := \<lparr>re_time = 2, re_retries = 4, re_active = True, re_type = RT\<rparr>)\<rparr>\<rparr>
   in \<exists>k'. iter_opt timerWrapper 74 k = Some k' \<and>
        filter (\<lambda>x. ev_sessionID x = 9) (retransmitEvents k') = [] \<and> count_list (releases k') 9 = 1 \<and>
        filter (\<lambda>x. an_sessionID x = 9) (rt_rxNotification (tw_rt k')) = [(sessionNotification 9)\<lparr>an_closed := True\<rparr>]"
proof -
  let ?k = "timersReset\<lparr>tw_rt := (tw_rt timersReset)\<lparr>rt_table := (rt_table (tw_rt timersReset))
         (9 := \<lparr>re_time = 2, re_retries = 4, re_active = True, re_type = RT\<rparr>)\<rparr>\<rparr>"
  have "timersIdle ?k" and "inTable 9"
    using timersReset_idle by (simp_all add: timersIdle_def inTable_less)
  from retransmit_fires [OF this, of 74] show ?thesis
    by (auto simp: timersReset_def distanceTo_def MAX_SESSIONS_def retransmitEvents_def releases_def)
qed

theorem retransmit_overrun_witness:
  "let k = (tw_rt timersReset)\<lparr>rt_position := 31, rt_setTimer := [\<lparr>rs_sessionID = 31, rs_type = RT\<rparr>]\<rparr>
   in \<exists>k'. retransmit_timer k = Some k' \<and> rt_position k' = 36 \<and> retransmit_timer k' = None"
proof -
  let ?k = "(tw_rt timersReset)\<lparr>rt_position := 31, rt_setTimer := [\<lparr>rs_sessionID = 31, rs_type = RT\<rparr>]\<rparr>"
  have "\<exists>k'. retransmit_timer ?k = Some k' \<and> \<not> inTable (rt_position k') \<and> retransmit_timer k' = None"
    by (rule retransmit_overrun [where i = 31 and t = RT]) (simp_all add: timersReset_def inTable_less)
  moreover have "map_option rt_position (retransmit_timer ?k) = Some 36"
    by (simp add: retransmit_timer_def timersReset_def inTable_less Let_def)
  ultimately show ?thesis by auto
qed

end
