(* ===== verification/Toe_Rx_Fsm.thy ===== *)
theory Toe_Rx_Fsm
  imports Toe_Sar Toe_Retransmit
begin

text \<open>
  The TCP state machine of the receive engine, \<^verbatim>\<open>rxTcpFSM\<close> of
  \<^verbatim>\<open>toe/rx_engine/rx_engine.cpp\<close>.

  A segment is served in two calls: one requests the state and the windows of its session, the next,
  when all answers are there, decides by the control bits and the state of the connection.  What it writes to
  the other modules is collected per segment in \<open>fsmOut\<close> and appended to the streams.  Locals that a path
  leaves uninitialised are the argument \<open>junk\<close>.
\<close>

section \<open>Segments and what they cause\<close>

record rxEngineMetaData =
  rm_seqNumb :: "32 word"
  rm_ackNumb :: "32 word"
  rm_winSize :: "16 word"
  rm_winScale :: "4 word"
  rm_length :: "16 word"
  rm_ack :: bool
  rm_rst :: bool
  rm_syn :: bool
  rm_fin :: bool
  rm_dataOffset :: "4 word"

record rxFsmMetaData =
  fm_sessionID :: "16 word"
  fm_srcIpAddress :: "32 word"
  fm_dstIpPort :: "16 word"
  fm_meta :: rxEngineMetaData

record fsmOut =
  fo_state :: "stateQuery list"
  fo_rxSar :: "rxSarRecvd list"
  fo_txSar :: "rxTxSarQuery list"
  fo_retransmit :: "rxRetransmitTimerUpdate list"
  fo_probe :: "16 word list"
  fo_close :: "16 word list"
  fo_openStatus :: "openStatus list"
  fo_event :: "toeEvent list"
  fo_drop :: "bool list"
  fo_notification :: "appNotification list"
  fo_attemptFails :: "1 word list"
  fo_estabResets :: "1 word list"

definition noOut :: fsmOut where
  "noOut = \<lparr>fo_state = [], fo_rxSar = [], fo_txSar = [], fo_retransmit = [], fo_probe = [], fo_close = [],
     fo_openStatus = [], fo_event = [], fo_drop = [], fo_notification = [], fo_attemptFails = [], fo_estabResets = []\<rparr>"

definition appendOut :: "fsmOut \<Rightarrow> fsmOut \<Rightarrow> fsmOut" where
  "appendOut a b = \<lparr>fo_state = fo_state a @ fo_state b, fo_rxSar = fo_rxSar a @ fo_rxSar b,
     fo_txSar = fo_txSar a @ fo_txSar b, fo_retransmit = fo_retransmit a @ fo_retransmit b,
     fo_probe = fo_probe a @ fo_probe b, fo_close = fo_close a @ fo_close b,
     fo_openStatus = fo_openStatus a @ fo_openStatus b, fo_event = fo_event a @ fo_event b,
     fo_drop = fo_drop a @ fo_drop b, fo_notification = fo_notification a @ fo_notification b,
     fo_attemptFails = fo_attemptFails a @ fo_attemptFails b, fo_estabResets = fo_estabResets a @ fo_estabResets b\<rparr>"

text \<open>The constructors of the messages.\<close>

definition setState :: "16 word \<Rightarrow> sessionState \<Rightarrow> stateQuery" where
  "setState i s = \<lparr>sq_sessionID = i, sq_state = s, sq_write = True\<rparr>"
definition setRecvd :: "16 word \<Rightarrow> 32 word \<Rightarrow> rxSarRecvd" where
  "setRecvd i recvd = \<lparr>rq_sessionID = i, rq_recvd = recvd, rq_write = True, rq_init = False\<rparr>"
definition initRecvd :: "16 word \<Rightarrow> 32 word \<Rightarrow> rxSarRecvd" where
  "initRecvd i recvd = \<lparr>rq_sessionID = i, rq_recvd = recvd, rq_write = True, rq_init = True\<rparr>"
definition setTxSar :: "16 word \<Rightarrow> 32 word \<Rightarrow> 16 word \<Rightarrow> 16 word \<Rightarrow> 2 word \<Rightarrow> bool \<Rightarrow> rxTxSarQuery" where
  "setTxSar i ackd recv_win cong_win count fastRetransmitted =
     \<lparr>xq_sessionID = i, xq_ackd = ackd, xq_recv_window = recv_win, xq_cong_window = cong_win, xq_count = count,
      xq_fastRetransmitted = fastRetransmitted, xq_write = True\<rparr>"
definition seqEvent :: "eventType \<Rightarrow> 16 word \<Rightarrow> 32 word \<Rightarrow> toeEvent" where
  "seqEvent t i seq = (plainEvent t i 1)\<lparr>ev_address := rng 31 16 seq, ev_length := rng 15 0 seq\<rparr>"

definition dataNotification :: "rxFsmMetaData \<Rightarrow> appNotification" where
  "dataNotification f = (sessionNotification (fm_sessionID f))\<lparr>an_length := rm_length (fm_meta f),
     an_ipAddress := fm_srcIpAddress f, an_dstPort := fm_dstIpPort f\<rparr>"
definition stateNotification :: "rxFsmMetaData \<Rightarrow> appNotification" where
  "stateNotification f = (sessionNotification (fm_sessionID f))\<lparr>an_ipAddress := fm_srcIpAddress f,
     an_dstPort := fm_dstIpPort f\<rparr>"

section \<open>An acknowledgement\<close>

definition CONGESTION_WINDOW_MAX :: nat where "CONGESTION_WINDOW_MAX = 65536 - 2048"

text \<open>The bookkeeping of the send window: a duplicate is counted, a new acknowledgement opens the congestion
  window.  The flag says whether the probe timer is cleared.\<close>

definition ackCounts :: "rxEngineMetaData \<Rightarrow> rxTxSarReply \<Rightarrow> rxTxSarReply \<times> bool" where
  "ackCounts m tx =
     (if rm_ackNumb m = xr_prevAck tx \<and> xr_prevAck tx \<noteq> xr_nextByte tx then
        (if rm_length m = 0 then tx\<lparr>xr_count := xr_count tx + 1\<rparr> else tx, False)
      else
        (let tx = (if uint (xr_cong_window tx) \<le> uint (xr_slowstart_threshold tx) - int MSS
                   then tx\<lparr>xr_cong_window := xr_cong_window tx + of_nat MSS\<rparr>
                   else if unat (xr_cong_window tx) \<le> CONGESTION_WINDOW_MAX
                   then tx\<lparr>xr_cong_window := xr_cong_window tx + 365\<rparr> else tx)
         in (tx\<lparr>xr_count := 0, xr_fastRetransmitted := False\<rparr>, True)))"

definition ackInWindow :: "32 word \<Rightarrow> rxTxSarReply \<Rightarrow> bool" where
  "ackInWindow ack tx \<longleftrightarrow>
     (xr_prevAck tx \<le> ack \<and> ack \<le> xr_nextByte tx) \<or>
     ((xr_prevAck tx \<le> ack \<or> ack \<le> xr_nextByte tx) \<and> xr_nextByte tx < xr_prevAck tx)"

definition roomForData :: "16 word \<Rightarrow> 16 word \<Rightarrow> bool" where
  "roomForData data_count max_data_count \<longleftrightarrow> 375 < uint max_data_count - uint data_count"

definition ackAccepts :: "16 word \<Rightarrow> 16 word \<Rightarrow> rxEngineMetaData \<Rightarrow> rxSarEntry \<Rightarrow> bool" where
  "ackAccepts data_count max_data_count m rx \<longleftrightarrow>
     rm_length m \<noteq> 0 \<and> rm_seqNumb m = rx_recvd rx \<and> roomForData data_count max_data_count"

text \<open>Windows, payload and event of an acknowledgement in a state that takes one.\<close>

definition ackUpdate :: "16 word \<Rightarrow> 16 word \<Rightarrow> rxFsmMetaData \<Rightarrow> rxSarEntry \<Rightarrow> rxTxSarReply \<Rightarrow> fsmOut \<Rightarrow> fsmOut" where
  "ackUpdate data_count max_data_count f rx tx out =
     (let m = fm_meta f; i = fm_sessionID f;
          accept = ackAccepts data_count max_data_count m rx;
          (tx, clearProbe) = ackCounts m tx
      in out\<lparr>fo_probe := (if clearProbe then [i] else []),
             fo_txSar := (if ackInWindow (rm_ackNumb m) tx
               then [setTxSar i (rm_ackNumb m) (rm_winSize m) (xr_cong_window tx) (xr_count tx)
                       (xr_count tx = 3 \<or> xr_fastRetransmitted tx)] else []),
             fo_rxSar := (if accept then [setRecvd i (rm_seqNumb m + ucast (rm_length m))] else []),
             fo_drop := (if rm_length m \<noteq> 0 then [\<not> accept] else []),
             fo_event := (if xr_count tx = 3 \<and> \<not> xr_fastRetransmitted tx then [plainEvent RT i 0]
                          else if rm_length m \<noteq> 0 then [plainEvent ACK i 0] else [])\<rparr>)"

text \<open>The state and the notification: a notification for data, if there is one, carries the opened or closed flag
  along.\<close>

definition ackState :: "sessionState \<Rightarrow> bool \<Rightarrow> sessionState" where
  "ackState s acked =
     (if acked then (case s of SYN_RECEIVED \<Rightarrow> ESTABLISHED | CLOSING \<Rightarrow> TIME_WAIT | LAST_ACK \<Rightarrow> CLOSED | _ \<Rightarrow> s) else s)"

definition ackNote :: "rxFsmMetaData \<Rightarrow> sessionState \<Rightarrow> bool \<Rightarrow> bool \<Rightarrow> appNotification list" where
  "ackNote f s acked accept =
     (let note = (if accept then dataNotification f else stateNotification f) in
      if acked \<and> s = SYN_RECEIVED then [note\<lparr>an_opened := True\<rparr>]
      else if acked \<and> s = LAST_ACK then [note\<lparr>an_closed := True\<rparr>]
      else if accept then [note] else [])"

definition fsmAck :: "16 word \<Rightarrow> 16 word \<Rightarrow> rxFsmMetaData \<Rightarrow> sessionState \<Rightarrow> rxSarEntry \<Rightarrow> rxTxSarReply \<Rightarrow> fsmOut" where
  "fsmAck data_count max_data_count f tcpState rx tx =
     (let m = fm_meta f; i = fm_sessionID f; acked = (rm_ackNumb m = xr_nextByte tx);
          out = noOut\<lparr>fo_retransmit := [\<lparr>ru_sessionID = i, ru_stop = acked\<rparr>]\<rparr> in
      if tcpState \<in> {ESTABLISHED, SYN_RECEIVED, FIN_WAIT_1, CLOSING, LAST_ACK} then
        (ackUpdate data_count max_data_count f rx tx out)
          \<lparr>fo_state := [setState i (ackState tcpState acked)],
           fo_close := (if acked \<and> tcpState = CLOSING then [i] else []),
           fo_notification := ackNote f tcpState acked (ackAccepts data_count max_data_count m rx)\<rparr>
      else
        out\<lparr>fo_event := [seqEvent RST_ACK i (rm_seqNumb m + ucast (rm_length m))],
            fo_drop := (if rm_length m \<noteq> 0 then [True] else []), fo_state := [setState i tcpState]\<rparr>)"

section \<open>The other segments\<close>

definition fsmSyn :: "rxFsmMetaData \<Rightarrow> sessionState \<Rightarrow> rxSarEntry \<Rightarrow> rxTxSarReply \<Rightarrow> fsmOut" where
  "fsmSyn f tcpState rx junk =
     (let m = fm_meta f; i = fm_sessionID f in
      if tcpState = CLOSED \<or> tcpState = SYN_SENT then
        noOut\<lparr>fo_rxSar := [initRecvd i (rm_seqNumb m + 1)],
              fo_txSar := [setTxSar i 0 (rm_winSize m) (xr_cong_window junk) 0 False],
              fo_event := [plainEvent SYN_ACK i 0], fo_state := [setState i SYN_RECEIVED]\<rparr>
      else if tcpState = SYN_RECEIVED then
        (if rm_seqNumb m + 1 = rx_recvd rx
         then noOut\<lparr>fo_event := [plainEvent SYN_ACK i 1], fo_state := [setState i tcpState]\<rparr>
         else noOut\<lparr>fo_event := [seqEvent RST_ACK i (rm_seqNumb m + 1)], fo_state := [setState i CLOSED],
                    fo_attemptFails := [1]\<rparr>)
      else noOut\<lparr>fo_event := [plainEvent ACK_NODELAY i 0], fo_state := [setState i tcpState]\<rparr>)"

definition nonSynchronized :: "sessionState \<Rightarrow> bool" where
  "nonSynchronized s \<longleftrightarrow> s = SYN_SENT \<or> s = SYN_RECEIVED \<or> s = CLOSED"

definition fsmSynAck :: "rxFsmMetaData \<Rightarrow> sessionState \<Rightarrow> rxTxSarReply \<Rightarrow> fsmOut" where
  "fsmSynAck f tcpState tx =
     (let m = fm_meta f; i = fm_sessionID f;
          out = noOut\<lparr>fo_retransmit := [\<lparr>ru_sessionID = i, ru_stop = (rm_ackNumb m = xr_nextByte tx)\<rparr>]\<rparr> in
      if tcpState = SYN_SENT \<and> rm_ackNumb m = xr_nextByte tx then
        out\<lparr>fo_rxSar := [initRecvd i (rm_seqNumb m + 1)],
            fo_txSar := [setTxSar i (rm_ackNumb m) (rm_winSize m) (xr_cong_window tx) 0 False],
            fo_event := [plainEvent ACK_NODELAY i 0], fo_state := [setState i ESTABLISHED],
            fo_openStatus := [\<lparr>op_sessionID = i, op_success = True\<rparr>]\<rparr>
      else if nonSynchronized tcpState then
        out\<lparr>fo_event := [seqEvent RST i (rm_ackNumb m)], fo_state := [setState i tcpState]\<rparr>
      else out\<lparr>fo_event := [plainEvent ACK_NODELAY i 0], fo_state := [setState i tcpState]\<rparr>)"

definition fsmFin :: "rxFsmMetaData \<Rightarrow> sessionState \<Rightarrow> rxSarEntry \<Rightarrow> rxTxSarReply \<Rightarrow> fsmOut" where
  "fsmFin f tcpState rx tx =
     (let m = fm_meta f; i = fm_sessionID f;
          out = noOut\<lparr>fo_retransmit := [\<lparr>ru_sessionID = i, ru_stop = (rm_ackNumb m = xr_nextByte tx)\<rparr>]\<rparr> in
      if tcpState \<in> {ESTABLISHED, FIN_WAIT_1, FIN_WAIT_2} \<and> rx_recvd rx = rm_seqNumb m then
        (let out = out\<lparr>fo_txSar := [setTxSar i (rm_ackNumb m) (rm_winSize m) (xr_cong_window tx) (xr_count tx)
                     (xr_fastRetransmitted tx)],
                   fo_rxSar := [setRecvd i (rm_seqNumb m + ucast (rm_length m) + 1)], fo_probe := [i]\<rparr>;
             out = (if rm_length m \<noteq> 0 then out\<lparr>fo_notification := [dataNotification f], fo_drop := [False]\<rparr> else out)
         in if tcpState = ESTABLISHED then out\<lparr>fo_event := [plainEvent FIN i 0], fo_state := [setState i LAST_ACK]\<rparr>
            else
              (let out = (if rm_ackNumb m = xr_nextByte tx
                          then out\<lparr>fo_state := [setState i TIME_WAIT], fo_close := [i]\<rparr>
                          else out\<lparr>fo_state := [setState i CLOSING]\<rparr>)
               in out\<lparr>fo_event := [plainEvent ACK i 0]\<rparr>))
      else
        (let out = out\<lparr>fo_event := [plainEvent ACK i 0], fo_state := [setState i tcpState]\<rparr>
         in if rm_length m \<noteq> 0 then out\<lparr>fo_drop := [True]\<rparr> else out))"

definition fsmDefault :: "rxFsmMetaData \<Rightarrow> sessionState \<Rightarrow> rxSarEntry \<Rightarrow> rxTxSarReply \<Rightarrow> fsmOut" where
  "fsmDefault f tcpState rx tx =
     (let m = fm_meta f; i = fm_sessionID f in
      if rm_rst m then
        (let out = (if rm_length m \<noteq> 0 then noOut\<lparr>fo_drop := [True]\<rparr> else noOut) in
         if tcpState = SYN_SENT then
           (if rm_ackNumb m = xr_nextByte tx
            then out\<lparr>fo_openStatus := [\<lparr>op_sessionID = i, op_success = False\<rparr>], fo_state := [setState i CLOSED],
                     fo_retransmit := [\<lparr>ru_sessionID = i, ru_stop = True\<rparr>]\<rparr>
            else out\<lparr>fo_state := [setState i tcpState]\<rparr>)
         else if rm_seqNumb m = rx_recvd rx then
           (let out = (if tcpState \<noteq> SYN_RECEIVED
                       then out\<lparr>fo_notification := [(stateNotification f)\<lparr>an_closed := True\<rparr>]\<rparr> else out);
                out = out\<lparr>fo_state := [setState i CLOSED], fo_retransmit := [\<lparr>ru_sessionID = i, ru_stop = True\<rparr>],
                          fo_attemptFails := [1]\<rparr>
            in if tcpState = ESTABLISHED then out\<lparr>fo_estabResets := [1]\<rparr> else out)
         else out\<lparr>fo_state := [setState i tcpState]\<rparr>)
      else noOut\<lparr>fo_state := [setState i tcpState]\<rparr>)"

section \<open>The two calls of a segment\<close>

datatype segmentKind = SegAck | SegSyn | SegSynAck | SegFin | SegOther

text \<open>The control bits, \<open>rst fin syn ack\<close>.\<close>

definition segmentKind :: "rxEngineMetaData \<Rightarrow> segmentKind" where
  "segmentKind m =
     (case (rm_rst m, rm_fin m, rm_syn m, rm_ack m) of
        (False, False, False, True) \<Rightarrow> SegAck
      | (False, False, True, False) \<Rightarrow> SegSyn
      | (False, False, True, True) \<Rightarrow> SegSynAck
      | (False, True, False, True) \<Rightarrow> SegFin
      | _ \<Rightarrow> SegOther)"

definition fsmServe :: "16 word \<Rightarrow> 16 word \<Rightarrow> rxFsmMetaData \<Rightarrow> sessionState \<Rightarrow> rxSarEntry \<Rightarrow> rxTxSarReply \<Rightarrow> fsmOut" where
  "fsmServe data_count max_data_count f tcpState rx tx =
     (case segmentKind (fm_meta f) of
        SegAck \<Rightarrow> fsmAck data_count max_data_count f tcpState rx tx
      | SegSyn \<Rightarrow> fsmSyn f tcpState rx tx
      | SegSynAck \<Rightarrow> fsmSynAck f tcpState tx
      | SegFin \<Rightarrow> fsmFin f tcpState rx tx
      | SegOther \<Rightarrow> fsmDefault f tcpState rx tx)"

record rxTcpFsm =
  rf_transition :: bool
  rf_meta :: rxFsmMetaData
  rf_txSarRequest :: bool
  rf_metaFifo :: "rxFsmMetaData hls_stream"
  rf_stateRsp :: "sessionState hls_stream"
  rf_rxSarRsp :: "rxSarEntry hls_stream"
  rf_txSarRsp :: "rxTxSarReply hls_stream"
  rf_out :: fsmOut

definition fsmLoad :: "rxTcpFsm \<Rightarrow> rxTcpFsm" where
  "fsmLoad k =
     (if \<not> s_empty (rf_metaFifo k) then
        (let f = s_head (rf_metaFifo k); i = fm_sessionID f;
             k = k\<lparr>rf_metaFifo := s_rest (rf_metaFifo k), rf_meta := f, rf_transition := True\<rparr>;
             reads = noOut\<lparr>fo_state := [\<lparr>sq_sessionID = i, sq_state = CLOSED, sq_write = False\<rparr>],
               fo_rxSar := [\<lparr>rq_sessionID = i, rq_recvd = 0, rq_write = False, rq_init = False\<rparr>]\<rparr> in
         if rm_ack (fm_meta f)
         then k\<lparr>rf_txSarRequest := True,
                rf_out := appendOut (rf_out k) (reads\<lparr>fo_txSar := [\<lparr>xq_sessionID = i, xq_ackd = 0,
                  xq_recv_window = 0, xq_cong_window = 0, xq_count = 0, xq_fastRetransmitted = False,
                  xq_write = False\<rparr>]\<rparr>)\<rparr>
         else k\<lparr>rf_out := appendOut (rf_out k) reads\<rparr>)
      else k)"

text \<open>The answer of the send window is read when it was requested, or, for a segment of the last kind, when there
  is one.\<close>

definition fsmTransition :: "rxTxSarReply \<Rightarrow> 16 word \<Rightarrow> 16 word \<Rightarrow> rxTcpFsm \<Rightarrow> rxTcpFsm" where
  "fsmTransition junk data_count max_data_count k =
     (if \<not> s_empty (rf_stateRsp k) \<and> \<not> s_empty (rf_rxSarRsp k) \<and> \<not> (rf_txSarRequest k \<and> s_empty (rf_txSarRsp k)) then
        (let f = rf_meta k;
             readTx = (segmentKind (fm_meta f) \<noteq> SegSyn \<and> \<not> s_empty (rf_txSarRsp k));
             tx = (if readTx then s_head (rf_txSarRsp k) else junk)
         in k\<lparr>rf_transition := False, rf_txSarRequest := False,
              rf_stateRsp := s_rest (rf_stateRsp k), rf_rxSarRsp := s_rest (rf_rxSarRsp k),
              rf_txSarRsp := (if readTx then s_rest (rf_txSarRsp k) else rf_txSarRsp k),
              rf_out := appendOut (rf_out k)
                (fsmServe data_count max_data_count f (s_head (rf_stateRsp k)) (s_head (rf_rxSarRsp k)) tx)\<rparr>)
      else k)"

definition rxTcpFSM :: "rxTxSarReply \<Rightarrow> 16 word \<Rightarrow> 16 word \<Rightarrow> rxTcpFsm \<Rightarrow> rxTcpFsm" where
  "rxTcpFSM junk data_count max_data_count k =
     (if rf_transition k then fsmTransition junk data_count max_data_count k else fsmLoad k)"

lemmas serve_defs = fsmAck_def fsmSyn_def fsmSynAck_def fsmFin_def fsmDefault_def noOut_def setState_def

section \<open>The state of the connection\<close>

text \<open>The transition table of the state machine: \<open>acked\<close> says that the segment acknowledges everything sent,
  \<open>inOrder\<close> that it starts at the next byte expected, \<open>sameSyn\<close> that a \<open>SYN\<close> repeats the one received.\<close>

fun tcpNext :: "segmentKind \<Rightarrow> bool \<Rightarrow> bool \<Rightarrow> bool \<Rightarrow> bool \<Rightarrow> sessionState \<Rightarrow> sessionState" where
  "tcpNext SegAck rst acked inOrder sameSyn s =
     (if \<not> acked then s
      else case s of SYN_RECEIVED \<Rightarrow> ESTABLISHED | CLOSING \<Rightarrow> TIME_WAIT | LAST_ACK \<Rightarrow> CLOSED | _ \<Rightarrow> s)"
| "tcpNext SegSyn rst acked inOrder sameSyn s =
     (case s of CLOSED \<Rightarrow> SYN_RECEIVED | SYN_SENT \<Rightarrow> SYN_RECEIVED
      | SYN_RECEIVED \<Rightarrow> (if sameSyn then s else CLOSED) | _ \<Rightarrow> s)"
| "tcpNext SegSynAck rst acked inOrder sameSyn s = (if s = SYN_SENT \<and> acked then ESTABLISHED else s)"
| "tcpNext SegFin rst acked inOrder sameSyn s =
     (if \<not> inOrder then s
      else case s of ESTABLISHED \<Rightarrow> LAST_ACK
        | FIN_WAIT_1 \<Rightarrow> (if acked then TIME_WAIT else CLOSING)
        | FIN_WAIT_2 \<Rightarrow> (if acked then TIME_WAIT else CLOSING) | _ \<Rightarrow> s)"
| "tcpNext SegOther rst acked inOrder sameSyn s =
     (if rst \<and> (if s = SYN_SENT then acked else inOrder) then CLOSED else s)"

lemma tcp_state_one:
  fixes f :: rxFsmMetaData
  defines "m \<equiv> fm_meta f"
  shows "fo_state (fsmServe dc mdc f s rx tx) =
    [setState (fm_sessionID f)
       (tcpNext (segmentKind m) (rm_rst m) (rm_ackNumb m = xr_nextByte tx) (rm_seqNumb m = rx_recvd rx)
          (rm_seqNumb m + 1 = rx_recvd rx) s)]"
proof (cases "segmentKind m")
  case SegAck
  then show ?thesis by (cases s) (auto simp: fsmServe_def fsmAck_def ackState_def m_def Let_def)
next
  case SegSyn
  then show ?thesis by (cases s) (auto simp: fsmServe_def fsmSyn_def noOut_def m_def Let_def)
next
  case SegSynAck
  then show ?thesis by (cases s) (auto simp: fsmServe_def fsmSynAck_def noOut_def nonSynchronized_def m_def Let_def)
next
  case SegFin
  then show ?thesis by (cases s) (auto simp: fsmServe_def fsmFin_def noOut_def m_def Let_def)
next
  case SegOther
  then show ?thesis by (cases s) (auto simp: fsmServe_def fsmDefault_def noOut_def m_def Let_def)
qed

text \<open>C21: Every segment served writes exactly one state, that of its session and the one the transition table
  gives, in every state of the connection and for every combination of control bits.\<close>

theorem tcp_state_written:
  fixes f :: rxFsmMetaData
  defines "m \<equiv> fm_meta f"
  shows "fo_state (fsmServe dc mdc f s rx tx) =
    [setState (fm_sessionID f)
       (tcpNext (segmentKind m) (rm_rst m) (rm_ackNumb m = xr_nextByte tx) (rm_seqNumb m = rx_recvd rx)
          (rm_seqNumb m + 1 = rx_recvd rx) s)]"
  unfolding m_def by (rule tcp_state_one)

lemma fsmServe_state:
  "\<exists>s'. fo_state (fsmServe dc mdc f s rx tx) = [setState (fm_sessionID f) s']"
  using tcp_state_one by blast

text \<open>The requests of the state table: every read is followed by one write of the same session.\<close>

fun lockPairs :: "stateQuery list \<Rightarrow> bool" where
  "lockPairs [] = True"
| "lockPairs [q] = False"
| "lockPairs (q # q' # qs) =
     (\<not> sq_write q \<and> sq_write q' \<and> sq_sessionID q = sq_sessionID q' \<and> lockPairs qs)"

lemma lockPairs_append: "lockPairs qs \<Longrightarrow> lockPairs (qs @ rs) = lockPairs rs"
  by (induction qs rule: lockPairs.induct) auto

definition readState :: "16 word \<Rightarrow> stateQuery" where
  "readState i = \<lparr>sq_sessionID = i, sq_state = CLOSED, sq_write = False\<rparr>"

text \<open>Between two segments the requests are paired; while one is served its read is still open.\<close>

definition locksPaired :: "rxTcpFsm \<Rightarrow> bool" where
  "locksPaired k \<longleftrightarrow>
     (if rf_transition k
      then \<exists>qs. fo_state (rf_out k) = qs @ [readState (fm_sessionID (rf_meta k))] \<and> lockPairs qs
      else lockPairs (fo_state (rf_out k)))"

lemma locksPaired_step:
  assumes "locksPaired k"
  shows "locksPaired (rxTcpFSM junk dc mdc k)"
proof (cases "rf_transition k")
  case False
  with assms show ?thesis
    by (auto simp: locksPaired_def rxTcpFSM_def fsmLoad_def appendOut_def noOut_def readState_def Let_def)
next
  case True
  then obtain qs where qs: "fo_state (rf_out k) = qs @ [readState (fm_sessionID (rf_meta k))]" "lockPairs qs"
    using assms by (auto simp: locksPaired_def)
  show ?thesis
  proof (cases "rf_transition (rxTcpFSM junk dc mdc k)")
    case True
    then have "rxTcpFSM junk dc mdc k = k"
      using \<open>rf_transition k\<close> by (auto simp: rxTcpFSM_def fsmTransition_def Let_def split: if_splits)
    with assms show ?thesis by simp
  next
    case False
    then obtain s rx tx where "fo_state (rf_out (rxTcpFSM junk dc mdc k)) =
        fo_state (rf_out k) @ fo_state (fsmServe dc mdc (rf_meta k) s rx tx)"
      using \<open>rf_transition k\<close>
      by (auto simp: rxTcpFSM_def fsmTransition_def appendOut_def Let_def split: if_splits)
    moreover obtain s' where "fo_state (fsmServe dc mdc (rf_meta k) s rx tx) = [setState (fm_sessionID (rf_meta k)) s']"
      using fsmServe_state by blast
    ultimately show ?thesis
      using False qs by (simp add: locksPaired_def lockPairs_append readState_def setState_def)
  qed
qed

text \<open>The neighbours fill the input streams.\<close>

definition fsmInputs :: "rxTcpFsm \<Rightarrow> rxTcpFsm \<Rightarrow> bool" where
  "fsmInputs s t \<longleftrightarrow> (\<exists>a b c d. t = s\<lparr>rf_metaFifo := a, rf_stateRsp := b, rf_rxSarRsp := c, rf_txSarRsp := d\<rparr>)"

text \<open>C22: The state machine gives back every lock it takes: whatever arrives, its requests to the state table
  alternate between a read and a write of the same session, and only the segment being served can be
  waiting for its write.\<close>

theorem fsm_releases_locks:
  assumes "reaches (\<lambda>k. Some (rxTcpFSM junk dc mdc k)) fsmInputs k0 k"
    and "\<not> rf_transition k0" and "rf_out k0 = noOut"
  shows "if rf_transition k
    then \<exists>qs. fo_state (rf_out k) = qs @ [readState (fm_sessionID (rf_meta k))] \<and> lockPairs qs
    else lockPairs (fo_state (rf_out k))"
proof -
  have init: "locksPaired k0" using assms(2,3) by (simp add: locksPaired_def noOut_def)
  have step: "\<And>s t. locksPaired s \<Longrightarrow> Some (rxTcpFSM junk dc mdc s) = Some t \<Longrightarrow> locksPaired t"
    using locksPaired_step by blast
  have env: "\<And>s t. locksPaired s \<Longrightarrow> fsmInputs s t \<Longrightarrow> locksPaired t"
    by (auto simp: fsmInputs_def locksPaired_def)
  from reaches_inv [where inv = locksPaired, OF assms(1) init step env]
  show ?thesis by (simp add: locksPaired_def)
qed

section \<open>The fate of the payload\<close>

text \<open>The state machine tells the packet dropper what to do with a payload when the segment is an acknowledgement, a
  \<open>FIN\<close> with acknowledgement or a reset.  For payload on any other segment -- with a \<open>SYN\<close>, or without an
  acknowledgement -- there is no verdict, and the dropper takes the verdict of a later segment for it.\<close>

theorem payload_verdicts:
  fixes f :: rxFsmMetaData
  defines "m \<equiv> fm_meta f"
  shows "length (fo_drop (fsmServe dc mdc f s rx tx)) =
    (if rm_length m \<noteq> 0 \<and> (segmentKind m \<in> {SegAck, SegFin} \<or> rm_rst m) then 1 else 0)"
proof -
  have other: "segmentKind m \<noteq> SegOther \<Longrightarrow> \<not> rm_rst m"
    by (auto simp: segmentKind_def split: bool.splits)
  show ?thesis
  proof (cases "segmentKind m")
    case SegAck
    with other show ?thesis
      by (cases "ackCounts m tx") (simp add: fsmServe_def fsmAck_def ackUpdate_def noOut_def m_def Let_def)
  next
    case SegSyn
    with other show ?thesis by (simp add: fsmServe_def fsmSyn_def noOut_def m_def Let_def)
  next
    case SegSynAck
    with other show ?thesis by (simp add: fsmServe_def fsmSynAck_def noOut_def m_def Let_def)
  next
    case SegFin
    with other show ?thesis by (simp add: fsmServe_def fsmFin_def noOut_def m_def Let_def)
  next
    case SegOther
    then show ?thesis
      by (cases "rm_rst m"; cases "s = SYN_SENT") (simp_all add: fsmServe_def fsmDefault_def noOut_def m_def Let_def)
  qed
qed

section \<open>Congestion window and fast retransmission\<close>

text \<open>A new acknowledgement opens the congestion window by one segment below the slow-start threshold and by 365
  bytes above it, up to its bound; the 16-bit window never wraps.\<close>

theorem congestion_window_grows:
  assumes "ackCounts m tx = (tx', True)"
  shows "unat (xr_cong_window tx') = unat (xr_cong_window tx) +
      (if unat (xr_cong_window tx) + 1460 \<le> unat (xr_slowstart_threshold tx) then 1460
       else if unat (xr_cong_window tx) \<le> 63488 then 365 else 0) \<and>
    xr_count tx' = 0 \<and> \<not> xr_fastRetransmitted tx'"
proof -
  have e: "ackCounts m tx = (let tx = (if uint (xr_cong_window tx) \<le> uint (xr_slowstart_threshold tx) - int MSS
                   then tx\<lparr>xr_cong_window := xr_cong_window tx + of_nat MSS\<rparr>
                   else if unat (xr_cong_window tx) \<le> CONGESTION_WINDOW_MAX
                   then tx\<lparr>xr_cong_window := xr_cong_window tx + 365\<rparr> else tx)
         in (tx\<lparr>xr_count := 0, xr_fastRetransmitted := False\<rparr>, True))"
    using assms by (simp add: ackCounts_def split: if_splits)
  have slow: "uint (xr_cong_window tx) \<le> uint (xr_slowstart_threshold tx) - int MSS \<longleftrightarrow>
      unat (xr_cong_window tx) + 1460 \<le> unat (xr_slowstart_threshold tx)"
    unfolding uint_nat MSS_def by linarith
  have b: "unat (xr_slowstart_threshold tx) < 65536" "unat (xr_cong_window tx) < 65536"
    using unsigned_less [of "xr_slowstart_threshold tx", where ?'a = nat]
      unsigned_less [of "xr_cong_window tx", where ?'a = nat] by simp_all
  have tx': "tx' = fst (ackCounts m tx)" using assms by simp
  have "unat (xr_cong_window tx') = unat (xr_cong_window tx) +
      (if unat (xr_cong_window tx) + 1460 \<le> unat (xr_slowstart_threshold tx) then 1460
       else if unat (xr_cong_window tx) \<le> 63488 then 365 else 0)"
    using b unfolding tx' e slow by (simp add: Let_def MSS_def CONGESTION_WINDOW_MAX_def unat_word_ariths)
  moreover have "xr_count tx' = 0" and "\<not> xr_fastRetransmitted tx'" unfolding tx' e by (simp_all add: Let_def)
  ultimately show ?thesis by simp
qed

text \<open>The send window as the next segment finds it, after the write of this one (\<open>tx_sar_table\<close>).\<close>

definition storeTx :: "rxTxSarQuery \<Rightarrow> rxTxSarReply \<Rightarrow> rxTxSarReply" where
  "storeTx q tx = tx\<lparr>xr_prevAck := xq_ackd q, xr_cong_window := xq_cong_window q, xr_count := xq_count q,
     xr_fastRetransmitted := xq_fastRetransmitted q\<rparr>"

text \<open>The events of \<open>n\<close> copies of an acknowledgement, each served with the window the one before has stored.\<close>

fun duplicateAcks :: "16 word \<Rightarrow> 16 word \<Rightarrow> rxFsmMetaData \<Rightarrow> sessionState \<Rightarrow> rxSarEntry \<Rightarrow> rxTxSarReply \<Rightarrow> nat \<Rightarrow> toeEvent list" where
  "duplicateAcks dc mdc f s rx tx 0 = []"
| "duplicateAcks dc mdc f s rx tx (Suc n) =
     (let out = fsmServe dc mdc f s rx tx
      in fo_event out @ duplicateAcks dc mdc f s rx (fold storeTx (fo_txSar out) tx) n)"

lemma duplicate_served:
  assumes "segmentKind (fm_meta f) = SegAck" and "s \<in> {ESTABLISHED, SYN_RECEIVED, FIN_WAIT_1, CLOSING, LAST_ACK}"
    and "rm_length (fm_meta f) = 0" and "rm_ackNumb (fm_meta f) = xr_prevAck tx" and "xr_prevAck tx \<noteq> xr_nextByte tx"
  shows "fo_event (fsmServe dc mdc f s rx tx) =
      (if xr_count tx + 1 = 3 \<and> \<not> xr_fastRetransmitted tx then [plainEvent RT (fm_sessionID f) 0] else [])"
    and "fold storeTx (fo_txSar (fsmServe dc mdc f s rx tx)) tx = tx\<lparr>xr_count := xr_count tx + 1,
      xr_fastRetransmitted := (xr_count tx + 1 = 3 \<or> xr_fastRetransmitted tx)\<rparr>"
proof -
  have "ackInWindow (xr_prevAck tx) (tx\<lparr>xr_count := c\<rparr>)" for c by (auto simp: ackInWindow_def)
  with assms show "fo_event (fsmServe dc mdc f s rx tx) =
      (if xr_count tx + 1 = 3 \<and> \<not> xr_fastRetransmitted tx then [plainEvent RT (fm_sessionID f) 0] else [])"
    and "fold storeTx (fo_txSar (fsmServe dc mdc f s rx tx)) tx = tx\<lparr>xr_count := xr_count tx + 1,
      xr_fastRetransmitted := (xr_count tx + 1 = 3 \<or> xr_fastRetransmitted tx)\<rparr>"
    by (simp_all add: fsmServe_def fsmAck_def ackUpdate_def ackCounts_def noOut_def storeTx_def setTxSar_def Let_def)
qed

lemma duplicates_after:
  assumes "segmentKind (fm_meta f) = SegAck" and "s \<in> {ESTABLISHED, SYN_RECEIVED, FIN_WAIT_1, CLOSING, LAST_ACK}"
    and "rm_length (fm_meta f) = 0"
  shows "rm_ackNumb (fm_meta f) = xr_prevAck tx \<Longrightarrow> xr_prevAck tx \<noteq> xr_nextByte tx \<Longrightarrow> xr_fastRetransmitted tx \<Longrightarrow>
    duplicateAcks dc mdc f s rx tx n = []"
  by (induction n arbitrary: tx) (simp_all add: duplicate_served [OF assms])

text \<open>While data is outstanding, the third copy of an acknowledgement without payload requests a retransmission, and
  no other copy does, however many come: the two-bit counter wraps, but the retransmission is remembered.\<close>

theorem fast_retransmit_once:
  assumes "segmentKind (fm_meta f) = SegAck" and "s \<in> {ESTABLISHED, SYN_RECEIVED, FIN_WAIT_1, CLOSING, LAST_ACK}"
    and "rm_length (fm_meta f) = 0" and "rm_ackNumb (fm_meta f) = xr_prevAck tx" and "xr_prevAck tx \<noteq> xr_nextByte tx"
    and "xr_count tx = 0" and "\<not> xr_fastRetransmitted tx"
  shows "duplicateAcks dc mdc f s rx tx n = (if 3 \<le> n then [plainEvent RT (fm_sessionID f) 0] else [])"
proof -
  note d = duplicate_served [OF assms(1-3)]
  consider "n = 0" | "n = Suc 0" | "n = Suc (Suc 0)" | m where "n = Suc (Suc (Suc m))"
    by (metis not0_implies_Suc)
  then show ?thesis
    using assms(4-7) by cases (simp_all add: d duplicates_after [OF assms(1-3)])
qed

text \<open>An acknowledgement of a session with three bytes in flight, for the instances below.\<close>

definition sampleAck :: rxFsmMetaData where
  "sampleAck = \<lparr>fm_sessionID = 2, fm_srcIpAddress = 0x0A000001, fm_dstIpPort = 80, fm_meta =
     \<lparr>rm_seqNumb = 500, rm_ackNumb = 100, rm_winSize = 0xFFFF, rm_winScale = 0, rm_length = 0, rm_ack = True,
      rm_rst = False, rm_syn = False, rm_fin = False, rm_dataOffset = 5\<rparr>\<rparr>"
definition sampleWindow :: rxTxSarReply where
  "sampleWindow = \<lparr>xr_prevAck = 100, xr_nextByte = 103, xr_cong_window = 14600, xr_slowstart_threshold = 0xFFFF,
     xr_count = 0, xr_fastRetransmitted = False\<rparr>"

theorem fast_retransmit_once_witness:
  "duplicateAcks 0 0 sampleAck ESTABLISHED \<lparr>rx_recvd = 500, rx_appd = 500\<rparr> sampleWindow 6 = [plainEvent RT 2 0]"
  using fast_retransmit_once [of sampleAck ESTABLISHED sampleWindow 0 0 "\<lparr>rx_recvd = 500, rx_appd = 500\<rparr>" 6]
  by (simp add: sampleAck_def sampleWindow_def segmentKind_def)

theorem congestion_window_grows_witness:
  "ackCounts ((fm_meta sampleAck)\<lparr>rm_ackNumb := 103\<rparr>) sampleWindow =
     (sampleWindow\<lparr>xr_cong_window := 16060\<rparr>, True) \<and> unat (16060 :: 16 word) = 14600 + 1460"
proof -
  have a: "ackCounts ((fm_meta sampleAck)\<lparr>rm_ackNumb := 103\<rparr>) sampleWindow = (sampleWindow\<lparr>xr_cong_window := 16060\<rparr>, True)"
    by (simp add: ackCounts_def sampleAck_def sampleWindow_def MSS_def)
  from congestion_window_grows [OF a] a show ?thesis by (simp add: sampleWindow_def)
qed

theorem fsm_releases_locks_witness:
  "let k = \<lparr>rf_transition = False, rf_meta = sampleAck, rf_txSarRequest = False, rf_metaFifo = [sampleAck],
       rf_stateRsp = [], rf_rxSarRsp = [], rf_txSarRsp = [], rf_out = noOut\<rparr>
   in fo_state (rf_out (rxTcpFSM sampleWindow 0 0 k)) = [readState 2]"
proof -
  let ?k = "\<lparr>rf_transition = False, rf_meta = sampleAck, rf_txSarRequest = False, rf_metaFifo = [sampleAck],
       rf_stateRsp = [], rf_rxSarRsp = [], rf_txSarRsp = [], rf_out = noOut\<rparr>"
  have "reaches (\<lambda>k. Some (rxTcpFSM sampleWindow 0 0 k)) fsmInputs ?k (rxTcpFSM sampleWindow 0 0 ?k)"
    by (rule reaches_step [OF reaches_refl]) simp
  from fsm_releases_locks [OF this]
  show ?thesis by (auto simp: rxTcpFSM_def fsmLoad_def sampleAck_def appendOut_def noOut_def readState_def Let_def)
qed

end
