(* ===== verification/Toe_Hash_Table.thy ===== *)
theory Toe_Hash_Table
  imports Toe_Types
begin

text \<open>
  The table of open connections, \<^verbatim>\<open>hw/tcp_udp_ip/hls/hash_table/hash_table.cpp\<close>: a cuckoo hash
  table of nine tables with four slots each, asked and updated by the session lookup over 128-bit streams.

  The hash functions are tabulation hashes over \<^verbatim>\<open>tabulation_table.txt\<close>, two bits per table.  The
  definitions take that table as an argument \<open>tab\<close>, and the theorems hold for every one.

  The theorems: an invariant (every entry lies in a slot its key hashes to, no key twice) under which the table
  is a map, with the effect of lookup, insertion and removal on it.  An insertion may fail after twelve
  evictions; then exactly one entry is lost, and ten keys with the same hashes suffice for that.
\<close>

section \<open>Requests and responses\<close>

definition NUM_TABLES :: nat where "NUM_TABLES = 9"
definition MAX_TRIALS :: nat where "MAX_TRIALS = 12"
definition KEY_SIZE :: nat where "KEY_SIZE = 64"

datatype kvOperation = KV_INSERT | KV_DELETE

record htLookupReq =
  hq_key :: "64 word"
  hq_source :: "1 word"

record htLookupResp =
  hr_key :: "64 word"
  hr_value :: "16 word"
  hr_hit :: bool
  hr_source :: "1 word"

record htUpdateReq =
  hu_op :: kvOperation
  hu_key :: "64 word"
  hu_value :: "16 word"
  hu_source :: "1 word"

record htUpdateResp =
  hp_op :: kvOperation
  hp_key :: "64 word"
  hp_value :: "16 word"
  hp_success :: bool
  hp_source :: "1 word"

definition axiu2htUpdateReq :: "128 word \<Rightarrow> htUpdateReq" where
  "axiu2htUpdateReq w =
     \<lparr>hu_op = (if (rng 0 0 w :: 1 word) = 0 then KV_INSERT else KV_DELETE), hu_key = rng 64 1 w,
      hu_value = rng 80 65 w, hu_source = rng 88 81 w\<rparr>"

definition htUpdateResp2axiu :: "htUpdateResp \<Rightarrow> 128 word" where
  "htUpdateResp2axiu r =
     upd 0 0 ((case hp_op r of KV_INSERT \<Rightarrow> 0 | KV_DELETE \<Rightarrow> 1) :: 1 word) (
     upd 64 1 (hp_key r) (
     upd 80 65 (hp_value r) (
     upd 88 81 (of_bool (hp_success r) :: 8 word) (
     upd 96 89 (ucast (hp_source r) :: 8 word) 0))))"

definition axiu2htLookupReq :: "128 word \<Rightarrow> htLookupReq" where
  "axiu2htLookupReq w = \<lparr>hq_key = rng 63 0 w, hq_source = rng 71 64 w\<rparr>"

definition htLookupResp2axiu :: "htLookupResp \<Rightarrow> 128 word" where
  "htLookupResp2axiu r =
     upd 63 0 (hr_key r) (
     upd 79 64 (hr_value r) (
     upd 87 80 (of_bool (hr_hit r) :: 8 word) (
     upd 95 88 (ucast (hr_source r) :: 8 word) 0)))"

section \<open>The tables\<close>

type_synonym tabulation = "nat \<Rightarrow> bool \<Rightarrow> nat \<Rightarrow> 16 word"

record htEntry =
  he_key :: "64 word"
  he_value :: "16 word"
  he_valid :: bool

type_synonym cuckooTables = "nat \<Rightarrow> 2 word \<Rightarrow> htEntry"

definition calculate_hashes :: "tabulation \<Rightarrow> 64 word \<Rightarrow> nat \<Rightarrow> 2 word" where
  "calculate_hashes tab key i =
     foldl (\<lambda>hash k. hash XOR rng 1 0 (tab i (bit key k) k)) 0 [0..<KEY_SIZE]"

text \<open>The entry of table \<open>i\<close> that \<open>key\<close> hashes to, and writing it back.\<close>

definition slotOf :: "tabulation \<Rightarrow> cuckooTables \<Rightarrow> 64 word \<Rightarrow> nat \<Rightarrow> htEntry" where
  "slotOf tab t key i = t i (calculate_hashes tab key i)"

definition storeSlot :: "tabulation \<Rightarrow> 64 word \<Rightarrow> nat \<Rightarrow> htEntry \<Rightarrow> cuckooTables \<Rightarrow> cuckooTables" where
  "storeSlot tab key i e t = t(i := (t i)(calculate_hashes tab key i := e))"

text \<open>The loops over the tables keep the last slot that qualifies.\<close>

definition lastSlot :: "(nat \<Rightarrow> bool) \<Rightarrow> nat option" where
  "lastSlot P = List.find P (rev [0..<NUM_TABLES])"

text \<open>The value of a miss is uninitialised in the source: \<open>junk\<close>.\<close>

definition ht_lookup :: "tabulation \<Rightarrow> 16 word \<Rightarrow> cuckooTables \<Rightarrow> htLookupReq \<Rightarrow> htLookupResp" where
  "ht_lookup tab junk t request =
     (let key = hq_key request;
          slot = lastSlot (\<lambda>i. he_valid (slotOf tab t key i) \<and> he_key (slotOf tab t key i) = key)
      in \<lparr>hr_key = key, hr_value = (case slot of Some i \<Rightarrow> he_value (slotOf tab t key i) | None \<Rightarrow> junk),
          hr_hit = (slot \<noteq> None), hr_source = hq_source request\<rparr>)"

text \<open>The trials of an insertion: \<open>e\<close> looks for a free slot, or evicts an entry that is tried next.  The
  result has the tables, the victim bit, success, and the entry left over.\<close>

definition victimPos :: "tabulation \<Rightarrow> 64 word \<Rightarrow> nat \<Rightarrow> 1 word \<Rightarrow> nat" where
  "victimPos tab key victimIdx victimBit =
     unat (calculate_hashes tab key victimIdx) mod (NUM_TABLES - 1) + unat victimBit"

fun insertLoop :: "tabulation \<Rightarrow> nat \<Rightarrow> nat \<Rightarrow> 1 word \<Rightarrow> cuckooTables \<Rightarrow> htEntry \<Rightarrow> cuckooTables \<times> 1 word \<times> bool \<times> htEntry" where
  "insertLoop tab 0 victimIdx victimBit t e = (t, victimBit, False, e)"
| "insertLoop tab (Suc trials) victimIdx victimBit t e =
     (case lastSlot (\<lambda>i. \<not> he_valid (slotOf tab t (he_key e) i)) of
        Some i \<Rightarrow> (storeSlot tab (he_key e) i e t, victimBit + 1, True, e)
      | None \<Rightarrow>
          (let pos = victimPos tab (he_key e) victimIdx victimBit
           in insertLoop tab trials (if victimIdx + 1 = NUM_TABLES then 0 else victimIdx + 1) (victimBit + 1)
                (storeSlot tab (he_key e) pos e t) (slotOf tab t (he_key e) pos)))"

record hashTable =
  ht_tables :: cuckooTables
  ht_victimBit :: "1 word"
  ht_failureCounter :: "16 word"
  ht_regFailures :: "16 word"
  ht_lupReq :: "128 word hls_stream"
  ht_updReq :: "128 word hls_stream"
  ht_lupRsp :: "128 word hls_stream"
  ht_updRsp :: "128 word hls_stream"

definition newEntry :: "htUpdateReq \<Rightarrow> htEntry" where
  "newEntry request = \<lparr>he_key = hu_key request, he_value = hu_value request, he_valid = True\<rparr>"

definition updateResp :: "htUpdateReq \<Rightarrow> bool \<Rightarrow> htUpdateResp" where
  "updateResp request success =
     \<lparr>hp_op = hu_op request, hp_key = hu_key request, hp_value = hu_value request, hp_success = success,
      hp_source = hu_source request\<rparr>"

definition ht_insert :: "tabulation \<Rightarrow> htUpdateReq \<Rightarrow> hashTable \<Rightarrow> hashTable \<times> htUpdateResp" where
  "ht_insert tab request k =
     (let (t, victimBit, success, _) =
            insertLoop tab MAX_TRIALS 0 (ht_victimBit k) (ht_tables k) (newEntry request)
      in (k\<lparr>ht_tables := t, ht_victimBit := victimBit, ht_regFailures := ht_failureCounter k,
            ht_failureCounter := (if success then ht_failureCounter k else ht_failureCounter k + 1)\<rparr>,
          updateResp request success))"

definition matches :: "tabulation \<Rightarrow> cuckooTables \<Rightarrow> 64 word \<Rightarrow> nat \<Rightarrow> bool" where
  "matches tab t key i \<longleftrightarrow> he_valid (slotOf tab t key i) \<and> he_key (slotOf tab t key i) = key"

definition removeSlot :: "tabulation \<Rightarrow> 64 word \<Rightarrow> nat \<Rightarrow> cuckooTables \<times> bool \<Rightarrow> cuckooTables \<times> bool" where
  "removeSlot tab key i ts =
     (if matches tab (fst ts) key i
      then (storeSlot tab key i ((slotOf tab (fst ts) key i)\<lparr>he_valid := False\<rparr>) (fst ts), True) else ts)"

definition ht_remove :: "tabulation \<Rightarrow> htUpdateReq \<Rightarrow> hashTable \<Rightarrow> hashTable \<times> htUpdateResp" where
  "ht_remove tab request k =
     (let (t, success) = fold (removeSlot tab (hu_key request)) [0..<NUM_TABLES] (ht_tables k, False)
      in (k\<lparr>ht_tables := t\<rparr>, updateResp request success))"

definition hash_table :: "tabulation \<Rightarrow> 16 word \<Rightarrow> hashTable \<Rightarrow> hashTable" where
  "hash_table tab junk k =
     (if \<not> s_empty (ht_lupReq k) then
        k\<lparr>ht_lupReq := s_rest (ht_lupReq k),
          ht_lupRsp := s_write (ht_lupRsp k)
            (htLookupResp2axiu (ht_lookup tab junk (ht_tables k) (axiu2htLookupReq (s_head (ht_lupReq k)))))\<rparr>
      else if \<not> s_empty (ht_updReq k) then
        (let request = axiu2htUpdateReq (s_head (ht_updReq k));
             k = k\<lparr>ht_updReq := s_rest (ht_updReq k)\<rparr>;
             (k, response) = (if hu_op request = KV_INSERT then ht_insert tab request k else ht_remove tab request k)
         in k\<lparr>ht_updRsp := s_write (ht_updRsp k) (htUpdateResp2axiu response)\<rparr>)
      else k)"

section \<open>The table as a map\<close>

lemma lastSlot_None: "lastSlot P = None \<longleftrightarrow> (\<forall>i<NUM_TABLES. \<not> P i)"
  by (auto simp: lastSlot_def find_None_iff)

lemma lastSlot_Some: "lastSlot P = Some i \<Longrightarrow> P i \<and> i < NUM_TABLES"
proof -
  have "List.find P xs = Some i \<Longrightarrow> P i \<and> i \<in> set xs" for xs by (induction xs) (auto split: if_splits)
  from this [of "rev [0..<NUM_TABLES]"] show "lastSlot P = Some i \<Longrightarrow> P i \<and> i < NUM_TABLES"
    by (simp add: lastSlot_def)
qed

lemma victimPos_less: "victimPos tab key victimIdx victimBit < NUM_TABLES"
proof -
  have "unat victimBit < 2" using unsigned_less [of victimBit, where ?'a = nat] by simp
  moreover have "unat (calculate_hashes tab key victimIdx) mod 8 < 8" by simp
  ultimately show ?thesis unfolding victimPos_def NUM_TABLES_def by simp
qed

text \<open>The valid entries of the table.\<close>

definition entries :: "cuckooTables \<Rightarrow> htEntry set" where
  "entries t = {t i a | i a. i < NUM_TABLES \<and> he_valid (t i a)}"

lemma entriesI: "i < NUM_TABLES \<Longrightarrow> he_valid (t i a) \<Longrightarrow> t i a \<in> entries t"
  by (auto simp: entries_def)

text \<open>The invariant: every valid entry lies where its key hashes to, and no key is there twice.\<close>

definition tableOk :: "tabulation \<Rightarrow> cuckooTables \<Rightarrow> bool" where
  "tableOk tab t \<longleftrightarrow>
     (\<forall>i<NUM_TABLES. \<forall>a. he_valid (t i a) \<longrightarrow> calculate_hashes tab (he_key (t i a)) i = a) \<and>
     (\<forall>i<NUM_TABLES. \<forall>j<NUM_TABLES. \<forall>a b. he_valid (t i a) \<and> he_valid (t j b) \<and> he_key (t i a) = he_key (t j b) \<longrightarrow> i = j)"

definition contents :: "tabulation \<Rightarrow> cuckooTables \<Rightarrow> 64 word \<rightharpoonup> 16 word" where
  "contents tab t key =
     map_option (\<lambda>i. he_value (slotOf tab t key i)) (lastSlot (matches tab t key))"

lemma tableOk_hash: "tableOk tab t \<Longrightarrow> i < NUM_TABLES \<Longrightarrow> he_valid (t i a) \<Longrightarrow>
    calculate_hashes tab (he_key (t i a)) i = a"
  by (simp add: tableOk_def)

lemma tableOk_same: "tableOk tab t \<Longrightarrow> i < NUM_TABLES \<Longrightarrow> j < NUM_TABLES \<Longrightarrow> he_valid (t i a) \<Longrightarrow>
    he_valid (t j b) \<Longrightarrow> he_key (t i a) = he_key (t j b) \<Longrightarrow> i = j"
  unfolding tableOk_def by blast

lemma tableOk_unique:
  assumes "tableOk tab t" and "e \<in> entries t" and "e' \<in> entries t" and "he_key e = he_key e'"
  shows "e = e'"
proof -
  obtain i a where i: "e = t i a" "i < NUM_TABLES" "he_valid (t i a)" using assms(2) by (auto simp: entries_def)
  obtain j b where j: "e' = t j b" "j < NUM_TABLES" "he_valid (t j b)" using assms(3) by (auto simp: entries_def)
  have "i = j" using tableOk_same [OF assms(1) i(2) j(2) i(3) j(3)] assms(4) i(1) j(1) by simp
  have "calculate_hashes tab (he_key e) i = a" using tableOk_hash [OF assms(1) i(2,3)] by (simp only: i(1))
  moreover have "calculate_hashes tab (he_key e') j = b" using tableOk_hash [OF assms(1) j(2,3)] by (simp only: j(1))
  ultimately have "a = b" using \<open>i = j\<close> assms(4) by metis
  then show ?thesis using i(1) j(1) \<open>i = j\<close> by metis
qed

text \<open>Under the invariant the map is the set of entries read as a function of their keys.\<close>

lemma contents_Some:
  assumes "tableOk tab t"
  shows "contents tab t key = Some v \<longleftrightarrow> (\<exists>e\<in>entries t. he_key e = key \<and> he_value e = v)"
proof
  assume "contents tab t key = Some v"
  then obtain i where "lastSlot (matches tab t key) = Some i" "he_value (slotOf tab t key i) = v"
    by (auto simp: contents_def)
  with lastSlot_Some [OF this(1)] show "\<exists>e\<in>entries t. he_key e = key \<and> he_value e = v"
    by (auto simp: matches_def slotOf_def entries_def)
next
  assume "\<exists>e\<in>entries t. he_key e = key \<and> he_value e = v"
  then obtain e where e: "e \<in> entries t" "he_key e = key" "he_value e = v" by blast
  then obtain i a where i: "i < NUM_TABLES" "he_valid (t i a)" "e = t i a" by (auto simp: entries_def)
  then have "matches tab t key i"
    using tableOk_hash [OF assms i(1,2)] e(2) by (auto simp: matches_def slotOf_def)
  then obtain j where j: "lastSlot (matches tab t key) = Some j"
    using i(1) lastSlot_None by (metis not_None_eq)
  have "slotOf tab t key j \<in> entries t" "he_key (slotOf tab t key j) = key"
    using lastSlot_Some [OF j] by (auto simp: matches_def slotOf_def entries_def)
  with tableOk_unique [OF assms e(1)] e(2) have "slotOf tab t key j = e" by metis
  with j e(3) show "contents tab t key = Some v" by (simp add: contents_def)
qed

lemma contents_None:
  "tableOk tab t \<Longrightarrow> contents tab t key = None \<longleftrightarrow> (\<forall>e\<in>entries t. he_key e \<noteq> key)"
  using contents_Some [of tab t key] by (metis not_None_eq)

section \<open>Insertion and removal\<close>

lemma storeSlot_apply: "storeSlot tab key i e t j a =
    (if j = i \<and> a = calculate_hashes tab key i then e else t j a)"
  by (simp add: storeSlot_def)

text \<open>Storing an entry under a new key replaces the entry of its slot, if there is one.\<close>

lemma entries_storeSlot:
  assumes "tableOk tab t" and "i < NUM_TABLES" and "he_valid e"
  shows "entries (storeSlot tab (he_key e) i e t) = insert e (entries t - {slotOf tab t (he_key e) i})"
proof (rule set_eqI, rule iffI)
  fix x
  let ?h = "calculate_hashes tab (he_key e) i"
  assume "x \<in> entries (storeSlot tab (he_key e) i e t)"
  then obtain j a where x: "x = storeSlot tab (he_key e) i e t j a" "j < NUM_TABLES" "he_valid x"
    by (auto simp: entries_def)
  show "x \<in> insert e (entries t - {slotOf tab t (he_key e) i})"
  proof (cases "j = i \<and> a = ?h")
    case True
    with x show ?thesis by (simp add: storeSlot_apply)
  next
    case False
    then have xt: "x = t j a" using x(1) by (auto simp: storeSlot_apply)
    have "x \<noteq> t i ?h"
    proof
      assume eq: "x = t i ?h"
      have v: "he_valid (t j a)" "he_valid (t i ?h)" "he_key (t j a) = he_key (t i ?h)" using x(3) xt eq by simp_all
      have "j = i" by (rule tableOk_same [OF assms(1) x(2) assms(2) v])
      with tableOk_hash [OF assms(1) x(2) v(1)] tableOk_hash [OF assms(1,2) v(2)] v(3) False show False by simp
    qed
    moreover have "x \<in> entries t" using x(2,3) unfolding xt entries_def by blast
    ultimately show ?thesis by (simp add: slotOf_def)
  qed
next
  fix x
  assume "x \<in> insert e (entries t - {slotOf tab t (he_key e) i})"
  then consider "x = e" | j a where "x = t j a" "j < NUM_TABLES" "he_valid (t j a)"
      "\<not> (j = i \<and> a = calculate_hashes tab (he_key e) i)"
    by (auto simp: entries_def slotOf_def)
  then show "x \<in> entries (storeSlot tab (he_key e) i e t)"
  proof cases
    case 1
    with assms(2,3) entriesI [of i "storeSlot tab (he_key e) i e t" "calculate_hashes tab (he_key e) i"]
    show ?thesis by (simp add: storeSlot_apply)
  next
    case 2
    then have "storeSlot tab (he_key e) i e t j a = x" by (auto simp: storeSlot_apply)
    with 2 entriesI [of j "storeSlot tab (he_key e) i e t" a] show ?thesis by simp
  qed
qed

lemma tableOk_storeSlot:
  assumes "tableOk tab t" and "i < NUM_TABLES" and "\<forall>e'\<in>entries t. he_key e' \<noteq> he_key e"
  shows "tableOk tab (storeSlot tab (he_key e) i e t)"
proof -
  have new: "he_key (t j a) \<noteq> he_key e" if "j < NUM_TABLES" "he_valid (t j a)" for j a
    using assms(3) that by (auto simp: entries_def)
  show ?thesis
    unfolding tableOk_def storeSlot_apply
    using assms(1) new tableOk_same [OF assms(1)] by (auto simp: tableOk_def split: if_splits; metis)
qed

text \<open>The eviction loop: nothing is lost but the entry left over.\<close>

lemma insertLoop_entries:
  assumes "tableOk tab t" and "he_valid e" and "\<forall>e'\<in>entries t. he_key e' \<noteq> he_key e"
  shows "case insertLoop tab trials victimIdx victimBit t e of (t', _, success, rest) \<Rightarrow>
    tableOk tab t' \<and> (if success then entries t' = insert e (entries t)
      else insert rest (entries t') = insert e (entries t) \<and> (\<forall>e'\<in>entries t'. he_key e' \<noteq> he_key rest))"
  using assms
proof (induction trials arbitrary: victimIdx victimBit t e)
  case 0
  then show ?case by simp
next
  case (Suc trials)
  note ok = Suc.prems
  show ?case
  proof (cases "lastSlot (\<lambda>i. \<not> he_valid (slotOf tab t (he_key e) i))")
    case (Some i)
    with lastSlot_Some [OF Some] entries_storeSlot [OF ok(1) _ ok(2), of i] tableOk_storeSlot [OF ok(1) _ ok(3), of i]
    show ?thesis by (auto simp: entries_def)
  next
    case None
    let ?pos = "victimPos tab (he_key e) victimIdx victimBit"
    let ?v = "slotOf tab t (he_key e) ?pos" and ?t = "storeSlot tab (he_key e) ?pos e t"
    have v: "he_valid ?v" "?v \<in> entries t" using None victimPos_less entriesI [OF victimPos_less]
      by (simp_all add: lastSlot_None slotOf_def)
    have e: "entries ?t = insert e (entries t - {?v})" by (rule entries_storeSlot [OF ok(1) victimPos_less ok(2)])
    have t: "tableOk tab ?t" by (rule tableOk_storeSlot [OF ok(1) victimPos_less ok(3)])
    have new: "\<forall>e'\<in>entries ?t. he_key e' \<noteq> he_key ?v"
      using e ok(3) v(2) tableOk_unique [OF ok(1) _ v(2)] by auto
    have swap: "insert ?v (entries ?t) = insert e (entries t)" using e v(2) by auto
    have loop: "insertLoop tab (Suc trials) victimIdx victimBit t e =
        insertLoop tab trials (if victimIdx + 1 = NUM_TABLES then 0 else victimIdx + 1) (victimBit + 1) ?t ?v"
      using None by (simp only: insertLoop.simps option.case Let_def)
    show ?thesis unfolding loop using Suc.IH [OF t v(1) new] by (simp only: swap)
  qed
qed

lemma map_Some_eqI: "(\<And>x y. m x = Some y \<longleftrightarrow> m' x = Some y) \<Longrightarrow> m = m'"
  by (rule ext) (metis not_None_eq)

lemma insert_entries:
  assumes "tableOk tab (ht_tables k)" and "contents tab (ht_tables k) (hu_key request) = None"
    and "ht_insert tab request k = (k', response)"
  shows "\<exists>rest. tableOk tab (ht_tables k') \<and>
    (if hp_success response then entries (ht_tables k') = insert (newEntry request) (entries (ht_tables k))
     else insert rest (entries (ht_tables k')) = insert (newEntry request) (entries (ht_tables k)) \<and>
       (\<forall>e\<in>entries (ht_tables k'). he_key e \<noteq> he_key rest))"
proof -
  have new: "\<forall>e\<in>entries (ht_tables k). he_key e \<noteq> he_key (newEntry request)"
    using assms(2) by (simp add: contents_None [OF assms(1)] newEntry_def)
  obtain t b success rest where loop:
    "insertLoop tab MAX_TRIALS 0 (ht_victimBit k) (ht_tables k) (newEntry request) = (t, b, success, rest)"
    by (metis prod_cases4)
  have "he_valid (newEntry request)" by (simp add: newEntry_def)
  note * = insertLoop_entries [OF assms(1) this new, of MAX_TRIALS 0 "ht_victimBit k", unfolded loop prod.case]
  have "ht_tables k' = t" "hp_success response = success"
    using assms(3) loop by (auto simp: ht_insert_def updateResp_def)
  with * show ?thesis by blast
qed

lemma hash_insert_map:
  assumes "tableOk tab (ht_tables k)" and "contents tab (ht_tables k) (hu_key request) = None"
    and "ht_insert tab request k = (k', response)"
  shows "tableOk tab (ht_tables k') \<and>
    (\<exists>lost. contents tab (ht_tables k') =
        ((contents tab (ht_tables k))(hu_key request \<mapsto> hu_value request)) |` (- lost) \<and>
      (if hp_success response then lost = {}
       else \<exists>key v. lost = {key} \<and> ((contents tab (ht_tables k))(hu_key request \<mapsto> hu_value request)) key = Some v))"
proof -
  obtain rest where "tableOk tab (ht_tables k') \<and>
    (if hp_success response then entries (ht_tables k') = insert (newEntry request) (entries (ht_tables k))
     else insert rest (entries (ht_tables k')) = insert (newEntry request) (entries (ht_tables k)) \<and>
       (\<forall>e\<in>entries (ht_tables k'). he_key e \<noteq> he_key rest))"
    using insert_entries [OF assms] by blast
  then have r: "tableOk tab (ht_tables k')"
    "hp_success response \<Longrightarrow> entries (ht_tables k') = insert (newEntry request) (entries (ht_tables k))"
    "\<not> hp_success response \<Longrightarrow> insert rest (entries (ht_tables k')) = insert (newEntry request) (entries (ht_tables k))"
    "\<not> hp_success response \<Longrightarrow> \<forall>e\<in>entries (ht_tables k'). he_key e \<noteq> he_key rest"
    by (simp_all split: if_splits)
  define m where "m = (contents tab (ht_tables k))(hu_key request \<mapsto> hu_value request)"
  have m: "m key = Some v \<longleftrightarrow> (\<exists>e\<in>insert (newEntry request) (entries (ht_tables k)). he_key e = key \<and> he_value e = v)"
    for key v
    unfolding m_def using assms(2)
    by (auto simp: contents_Some [OF assms(1)] contents_None [OF assms(1)] newEntry_def)
  have "tableOk tab (ht_tables k') \<and> (\<exists>lost. contents tab (ht_tables k') = m |` (- lost) \<and>
      (if hp_success response then lost = {} else \<exists>key v. lost = {key} \<and> m key = Some v))"
  proof (cases "hp_success response")
    case True
    have "contents tab (ht_tables k') key = Some v \<longleftrightarrow> m key = Some v" for key v
      unfolding contents_Some [OF r(1)] m r(2) [OF True] ..
    then have "contents tab (ht_tables k') = m" by (rule map_Some_eqI)
    then have "contents tab (ht_tables k') = m |` (- {})" by (simp add: restrict_map_def)
    with r(1) True show ?thesis by metis
  next
    case False
    note rest = r(3,4) [OF False]
    have "contents tab (ht_tables k') key = Some v \<longleftrightarrow> (m |` (- {he_key rest})) key = Some v" for key v
    proof -
      have "(m |` (- {he_key rest})) key = Some v \<longleftrightarrow> key \<noteq> he_key rest \<and> m key = Some v"
        by (simp add: restrict_map_def)
      also have "\<dots> \<longleftrightarrow> (\<exists>e\<in>entries (ht_tables k'). he_key e = key \<and> he_value e = v)"
        unfolding m rest(1) [symmetric] using rest(2) by auto
      finally show ?thesis unfolding contents_Some [OF r(1)] by simp
    qed
    then have "contents tab (ht_tables k') = m |` (- {he_key rest})" by (rule map_Some_eqI)
    moreover have "m (he_key rest) = Some (he_value rest)" unfolding m rest(1) [symmetric] by blast
    ultimately show ?thesis using r(1) False by metis
  qed
  then show ?thesis by (simp only: m_def)
qed

text \<open>C24: An insertion of a new key refines the update of a map: it keeps the invariant; when it succeeds the map
  gains exactly the new binding; when it fails, it gains the new binding and then loses exactly one, which may be
  that of an older key.\<close>

theorem hash_insert_refines:
  assumes "tableOk tab (ht_tables k)" and "contents tab (ht_tables k) (hu_key request) = None"
    and "ht_insert tab request k = (k', response)"
  shows "tableOk tab (ht_tables k') \<and>
    (\<exists>lost. contents tab (ht_tables k') =
        ((contents tab (ht_tables k))(hu_key request \<mapsto> hu_value request)) |` (- lost) \<and>
      (if hp_success response then lost = {}
       else \<exists>key v. lost = {key} \<and> ((contents tab (ht_tables k))(hu_key request \<mapsto> hu_value request)) key = Some v))"
  by (rule hash_insert_map [OF assms])

text \<open>Removal clears the slots that match.\<close>

lemma fold_removeSlot:
  "fst (fold (removeSlot tab key) is (t, success)) i a =
      (if i \<in> set is \<and> a = calculate_hashes tab key i \<and> matches tab t key i
       then (t i a)\<lparr>he_valid := False\<rparr> else t i a) \<and>
    (snd (fold (removeSlot tab key) is (t, success)) \<longleftrightarrow> success \<or> (\<exists>j\<in>set is. matches tab t key j))"
proof (induction "is" arbitrary: i a rule: rev_induct)
  case Nil
  then show ?case by simp
next
  case (snoc j js)
  let ?r = "fold (removeSlot tab key) js (t, success)"
  have slot: "slotOf tab (fst ?r) key j =
      (if j \<in> set js \<and> matches tab t key j then (slotOf tab t key j)\<lparr>he_valid := False\<rparr> else slotOf tab t key j)"
    using snoc.IH [of j "calculate_hashes tab key j"] by (auto simp: slotOf_def)
  have m: "matches tab (fst ?r) key j \<longleftrightarrow> j \<notin> set js \<and> matches tab t key j"
    unfolding matches_def slot by auto
  show ?case
  proof (cases "matches tab (fst ?r) key j")
    case True
    then have "fold (removeSlot tab key) (js @ [j]) (t, success) =
        (storeSlot tab key j ((slotOf tab t key j)\<lparr>he_valid := False\<rparr>) (fst ?r), True)"
      using m slot by (simp add: removeSlot_def)
    with True m snoc.IH [of i a] show ?thesis by (auto simp: storeSlot_apply slotOf_def)
  next
    case False
    then have "fold (removeSlot tab key) (js @ [j]) (t, success) = ?r" by (simp add: removeSlot_def)
    with False m snoc.IH [of i a] show ?thesis by auto
  qed
qed

text \<open>A removal refines the removal from a map: it keeps the invariant, the map loses exactly the key asked for,
  and the answer says whether the key was there; a lookup answers with the binding of the map and changes
  nothing.\<close>

theorem hash_remove_refines:
  assumes "tableOk tab (ht_tables k)" and "ht_remove tab request k = (k', response)"
  shows "tableOk tab (ht_tables k') \<and>
    contents tab (ht_tables k') = (contents tab (ht_tables k))(hu_key request := None) \<and>
    (hp_success response \<longleftrightarrow> contents tab (ht_tables k) (hu_key request) \<noteq> None) \<and>
    (\<forall>junk q. hr_hit (ht_lookup tab junk (ht_tables k') q) = (contents tab (ht_tables k') (hq_key q) \<noteq> None) \<and>
      (case contents tab (ht_tables k') (hq_key q) of None \<Rightarrow> True
       | Some v \<Rightarrow> hr_value (ht_lookup tab junk (ht_tables k') q) = v))"
proof -
  let ?t = "ht_tables k" and ?t' = "ht_tables k'" and ?key = "hu_key request"
  have step: "?t' = fst (fold (removeSlot tab ?key) [0..<NUM_TABLES] (?t, False))"
    "hp_success response = snd (fold (removeSlot tab ?key) [0..<NUM_TABLES] (?t, False))"
    using assms(2) by (auto simp: ht_remove_def updateResp_def split: prod.splits)
  have r: "?t' i a = (if i < NUM_TABLES \<and> a = calculate_hashes tab ?key i \<and> matches tab ?t ?key i
       then (?t i a)\<lparr>he_valid := False\<rparr> else ?t i a)" for i a
    unfolding step fold_removeSlot [THEN conjunct1] by simp
  have "hp_success response \<longleftrightarrow> (\<exists>j\<in>set [0..<NUM_TABLES]. matches tab ?t ?key j)"
    unfolding step fold_removeSlot [THEN conjunct2] by simp
  then have success: "hp_success response \<longleftrightarrow> \<not> (\<forall>j<NUM_TABLES. \<not> matches tab ?t ?key j)" by auto
  have keep: "he_valid (?t' i a) \<Longrightarrow> ?t' i a = ?t i a" for i a by (auto simp: r)
  have ok: "tableOk tab ?t'"
    using assms(1) keep unfolding tableOk_def by metis
  have same: "entries ?t' = {e \<in> entries ?t. he_key e \<noteq> ?key}"
  proof (rule set_eqI, rule iffI)
    fix e assume "e \<in> entries ?t'"
    then obtain i a where e: "e = ?t' i a" "i < NUM_TABLES" "he_valid (?t' i a)" by (auto simp: entries_def)
    then have t: "e = ?t i a" "he_valid (?t i a)" using keep by metis+
    have "he_key e \<noteq> ?key"
    proof
      assume "he_key e = ?key"
      then have "a = calculate_hashes tab ?key i" using tableOk_hash [OF assms(1) e(2) t(2)] t(1) by simp
      with e(2) t \<open>he_key e = ?key\<close> have "\<not> he_valid (?t' i a)" by (simp add: r matches_def slotOf_def)
      with e(3) show False by simp
    qed
    with t entriesI [of i ?t a] e(2) show "e \<in> {e \<in> entries ?t. he_key e \<noteq> ?key}" by simp
  next
    fix e assume "e \<in> {e \<in> entries ?t. he_key e \<noteq> ?key}"
    then obtain i a where e: "e = ?t i a" "i < NUM_TABLES" "he_valid (?t i a)" "he_key e \<noteq> ?key" by (auto simp: entries_def)
    then have "?t' i a = ?t i a" by (auto simp: r matches_def slotOf_def)
    with e entriesI [of i ?t' a] show "e \<in> entries ?t'" by simp
  qed
  have "contents tab ?t' = (contents tab ?t)(?key := None)"
    by (rule map_Some_eqI) (auto simp: contents_Some [OF ok] same contents_Some [OF assms(1)])
  moreover have "hp_success response \<longleftrightarrow> contents tab ?t ?key \<noteq> None"
    unfolding success lastSlot_None [symmetric] by (simp add: contents_def)
  moreover have "hr_hit (ht_lookup tab junk ?t' q) = (contents tab ?t' (hq_key q) \<noteq> None) \<and>
      (case contents tab ?t' (hq_key q) of None \<Rightarrow> True | Some v \<Rightarrow> hr_value (ht_lookup tab junk ?t' q) = v)" for junk q
    by (auto simp: ht_lookup_def contents_def matches_def [abs_def] Let_def split: option.splits)
  ultimately show ?thesis using ok by blast
qed

section \<open>Insertions that fail\<close>

text \<open>All nine slots of \<open>key\<close> are taken by keys that hash to the same nine slots.\<close>

definition crowded :: "tabulation \<Rightarrow> cuckooTables \<Rightarrow> 64 word \<Rightarrow> bool" where
  "crowded tab t key \<longleftrightarrow> (\<forall>i<NUM_TABLES. he_valid (slotOf tab t key i) \<and>
     (\<forall>j<NUM_TABLES. calculate_hashes tab (he_key (slotOf tab t key i)) j = calculate_hashes tab key j))"

lemma crowded_loop:
  assumes "crowded tab t key" and "he_valid e"
    and "\<forall>j<NUM_TABLES. calculate_hashes tab (he_key e) j = calculate_hashes tab key j"
  shows "\<not> fst (snd (snd (insertLoop tab trials victimIdx victimBit t e)))"
  using assms
proof (induction trials arbitrary: victimIdx victimBit t e)
  case 0
  then show ?case by simp
next
  case (Suc trials)
  let ?pos = "victimPos tab (he_key e) victimIdx victimBit"
  let ?v = "slotOf tab t (he_key e) ?pos" and ?t = "storeSlot tab (he_key e) ?pos e t"
  have same: "slotOf tab t (he_key e) i = slotOf tab t key i" if "i < NUM_TABLES" for i
    using Suc.prems(3) that by (simp add: slotOf_def)
  have "lastSlot (\<lambda>i. \<not> he_valid (slotOf tab t (he_key e) i)) = None"
    using Suc.prems(1) same by (simp add: lastSlot_None crowded_def)
  then have loop: "insertLoop tab (Suc trials) victimIdx victimBit t e =
      insertLoop tab trials (if victimIdx + 1 = NUM_TABLES then 0 else victimIdx + 1) (victimBit + 1) ?t ?v"
    by (simp only: insertLoop.simps option.case Let_def)
  have v: "he_valid ?v" "\<forall>j<NUM_TABLES. calculate_hashes tab (he_key ?v) j = calculate_hashes tab key j"
    using Suc.prems(1) same [OF victimPos_less] victimPos_less by (auto simp: crowded_def)
  have "slotOf tab ?t key i = (if i = ?pos then e else slotOf tab t key i)" if "i < NUM_TABLES" for i
    using Suc.prems(3) that by (auto simp: slotOf_def storeSlot_apply)
  then have "crowded tab ?t key" using Suc.prems by (auto simp: crowded_def)
  from Suc.IH [OF this v] show ?case unfolding loop .
qed

text \<open>Ten connections whose keys have the same hashes do not fit, although the table has thirty-six slots: the
  insertion of the tenth fails after its trials, and one of the ten is not in the table afterwards.\<close>

theorem hash_insert_collision:
  assumes "tableOk tab (ht_tables k)" and "contents tab (ht_tables k) (hu_key request) = None"
    and "crowded tab (ht_tables k) (hu_key request)"
    and "ht_insert tab request k = (k', response)"
  shows "\<not> hp_success response \<and> (\<exists>key v. ((contents tab (ht_tables k))(hu_key request \<mapsto> hu_value request)) key = Some v \<and>
    contents tab (ht_tables k') key = None)"
proof -
  have "\<not> hp_success response"
    using crowded_loop [OF assms(3), of "newEntry request" MAX_TRIALS 0 "ht_victimBit k"] assms(4)
    by (auto simp: ht_insert_def updateResp_def newEntry_def split: prod.splits)
  moreover obtain lost where "contents tab (ht_tables k') =
      ((contents tab (ht_tables k))(hu_key request \<mapsto> hu_value request)) |` (- lost)"
    "\<exists>key v. lost = {key} \<and> ((contents tab (ht_tables k))(hu_key request \<mapsto> hu_value request)) key = Some v"
    using hash_insert_map [OF assms(1,2,4)] calculation by auto
  ultimately show ?thesis by (metis ComplD insertI1 restrict_map_def)
qed

text \<open>The degenerate table, under which all keys collide, for the instances.\<close>

definition flat :: tabulation where
  "flat = (\<lambda>i b k. 0)"

lemma flat_hash: "calculate_hashes flat key i = 0"
proof -
  have "foldl (\<lambda>hash k. hash XOR rng 1 0 (flat i (bit key k) k)) 0 ks = (0 :: 2 word)" for ks
    by (induction ks) (simp_all add: flat_def)
  then show ?thesis by (simp add: calculate_hashes_def)
qed

definition sampleTable :: "nat \<Rightarrow> hashTable" where
  "sampleTable n = \<lparr>ht_tables = (\<lambda>i a. \<lparr>he_key = of_nat i, he_value = of_nat i, he_valid = (a = 0 \<and> i < n)\<rparr>),
     ht_victimBit = 0, ht_failureCounter = 0, ht_regFailures = 0, ht_lupReq = [], ht_updReq = [], ht_lupRsp = [],
     ht_updRsp = []\<rparr>"

lemma sampleTable_ok: "tableOk flat (ht_tables (sampleTable n))"
proof -
  have "i = j" if "i < NUM_TABLES" "j < NUM_TABLES" "(of_nat i :: 64 word) = of_nat j" for i j
    using that by (simp add: NUM_TABLES_def word_unat_eq_iff unat_of_nat_small)
  then show ?thesis by (auto simp: tableOk_def sampleTable_def flat_hash)
qed

lemma sampleTable_new: "contents flat (ht_tables (sampleTable n)) 100 = None"
proof -
  have "(of_nat i :: 64 word) \<noteq> 100" if "i < NUM_TABLES" for i
    using that by (simp add: NUM_TABLES_def word_unat_eq_iff unat_of_nat_small)
  then show ?thesis unfolding contents_None [OF sampleTable_ok] by (auto simp: entries_def sampleTable_def)
qed

definition sampleInsert :: htUpdateReq where
  "sampleInsert = \<lparr>hu_op = KV_INSERT, hu_key = 100, hu_value = 7, hu_source = 0\<rparr>"

theorem hash_insert_refines_witness:
  "let (k', response) = ht_insert flat sampleInsert (sampleTable 2)
   in hp_success response \<and> contents flat (ht_tables k') = (contents flat (ht_tables (sampleTable 2)))(100 \<mapsto> 7)"
proof -
  obtain k' response where i: "ht_insert flat sampleInsert (sampleTable 2) = (k', response)"
    by (cases "ht_insert flat sampleInsert (sampleTable 2)")
  have new: "contents flat (ht_tables (sampleTable 2)) (hu_key sampleInsert) = None"
    by (simp add: sampleInsert_def sampleTable_new)
  obtain j where "lastSlot (\<lambda>i. \<not> he_valid (slotOf flat (ht_tables (sampleTable 2)) 100 i)) = Some j"
    using lastSlot_None [of "\<lambda>i. \<not> he_valid (slotOf flat (ht_tables (sampleTable 2)) 100 i)"]
    by (auto simp: sampleTable_def slotOf_def flat_hash NUM_TABLES_def dest: spec [of _ 5])
  then have "hp_success response"
    using i by (auto simp: ht_insert_def MAX_TRIALS_def newEntry_def sampleInsert_def updateResp_def numeral_eq_Suc)
  with hash_insert_refines [OF sampleTable_ok new i] i show ?thesis by (auto simp: sampleInsert_def)
qed

theorem hash_remove_refines_witness:
  "let (k', response) = ht_remove flat (sampleInsert\<lparr>hu_op := KV_DELETE, hu_key := 1\<rparr>) (sampleTable 2)
   in contents flat (ht_tables k') 1 = None \<and> contents flat (ht_tables k') 0 = contents flat (ht_tables (sampleTable 2)) 0"
proof -
  obtain k' response where r: "ht_remove flat (sampleInsert\<lparr>hu_op := KV_DELETE, hu_key := 1\<rparr>) (sampleTable 2) = (k', response)"
    by (cases "ht_remove flat (sampleInsert\<lparr>hu_op := KV_DELETE, hu_key := 1\<rparr>) (sampleTable 2)")
  from hash_remove_refines [OF sampleTable_ok r] r show ?thesis by simp
qed

theorem hash_insert_collision_witness:
  "let (k', response) = ht_insert flat sampleInsert (sampleTable 9)
   in \<not> hp_success response"
proof -
  obtain k' response where i: "ht_insert flat sampleInsert (sampleTable 9) = (k', response)"
    by (cases "ht_insert flat sampleInsert (sampleTable 9)")
  have "crowded flat (ht_tables (sampleTable 9)) (hu_key sampleInsert)"
    by (simp add: crowded_def flat_hash slotOf_def sampleTable_def NUM_TABLES_def)
  from hash_insert_collision [OF sampleTable_ok _ this i] i sampleTable_new show ?thesis
    by (simp add: sampleInsert_def)
qed

end
