(* ===== verification/Net_Shift.thy ===== *)
theory Net_Shift
  imports Hls_Stream Stream_Bytes
begin

text \<open>
  The byte shifters of \<^verbatim>\<open>hw/tcp_udp_ip/hls/axi_utils.hpp\<close>, which every module of the network stack
  puts in front of or behind the insertion or removal of a header, and the contract of such a stage.

  The locale \<open>packet_stage\<close> is that contract: from a state in which it is between two packets, a stage
  takes a packet off its input, in some number of calls, and puts one packet on its output whose bytes are a function
  of those of the first.  Its lemma carries this over to any sequence of packets.
\<close>

section \<open>Contract\<close>

locale packet_stage =
  fixes step :: "'s \<Rightarrow> 's"
    and ready :: "'s \<Rightarrow> bool"
    and inq :: "'s \<Rightarrow> axiWord list"
    and outq :: "'s \<Rightarrow> axiWord list"
    and pre :: "8 word list \<Rightarrow> bool"
    and f :: "8 word list \<Rightarrow> 8 word list"
  assumes packet: "ready s \<Longrightarrow> inq s = ws @ rest \<Longrightarrow> carries ws bs \<Longrightarrow> pre bs \<Longrightarrow>
    \<exists>n out. ready ((step ^^ n) s) \<and> inq ((step ^^ n) s) = rest \<and> outq ((step ^^ n) s) = outq s @ out \<and> carries out (f bs)"
begin

lemma packets:
  assumes "ready s" and "inq s = concat wss @ rest" and "list_all2 carries wss bss" and "list_all pre bss"
  shows "\<exists>n outs. ready ((step ^^ n) s) \<and> inq ((step ^^ n) s) = rest \<and> outq ((step ^^ n) s) = outq s @ concat outs \<and>
    list_all2 carries outs (map f bss)"
  using assms
proof (induction wss arbitrary: s bss)
  case Nil
  then show ?case by (intro exI [of _ 0] exI [of _ "[]"]) simp
next
  case (Cons ws wss)
  then obtain bs bss' where bss: "bss = bs # bss'" "carries ws bs" "list_all2 carries wss bss'" "pre bs" "list_all pre bss'"
    by (cases bss) auto
  obtain n out where n: "ready ((step ^^ n) s)" "inq ((step ^^ n) s) = concat wss @ rest"
      "outq ((step ^^ n) s) = outq s @ out" "carries out (f bs)"
    using packet [of s ws "concat wss @ rest" bs] Cons.prems bss by auto
  obtain m outs where m: "ready ((step ^^ m) ((step ^^ n) s))" "inq ((step ^^ m) ((step ^^ n) s)) = rest"
      "outq ((step ^^ m) ((step ^^ n) s)) = outq ((step ^^ n) s) @ concat outs" "list_all2 carries outs (map f bss')"
    using Cons.IH [OF n(1,2) bss(3,5)] by blast
  show ?case
    using m n(3,4) bss(1) by (intro exI [of _ "m + n"] exI [of _ "out # outs"]) (simp add: funpow_add)
qed

end

section \<open>Shifters\<close>

datatype shiftState = SH_PKG | SH_REMAINDER

record shifter =
  sh_fsmState :: shiftState
  sh_firstWord :: bool
  sh_prevWord :: axiWord
  sh_input :: "axiWord hls_stream"
  sh_output :: "axiWord hls_stream"

text \<open>Towards the lower lanes: the first \<open>offset\<close> bytes are dropped.  The static \<open>rs_firstWord\<close> starts as
  \<open>offset \<noteq> 0\<close>.\<close>

definition rshiftWordByOctet :: "nat \<Rightarrow> shifter \<Rightarrow> shifter" where
  "rshiftWordByOctet offset k =
     (case sh_fsmState k of
        SH_PKG \<Rightarrow>
          if \<not> s_empty (sh_input k) then
            (let currWord = s_head (sh_input k);
                 sendWord =
                   (if sh_firstWord k then zeroWord
                    else if offset = 0 then currWord
                    else (joinWord offset (sh_prevWord k) currWord zeroWord)
                      \<lparr>ax_last := ((rng 7 offset (ax_keep currWord) :: 8 word) = 0)\<rparr>) in
             k\<lparr>sh_input := s_rest (sh_input k),
               sh_output := (if sh_firstWord k then sh_output k else s_write (sh_output k) sendWord),
               sh_prevWord := currWord,
               sh_firstWord := (ax_last currWord \<and> offset \<noteq> 0),
               sh_fsmState := (if ax_last currWord \<and> \<not> ax_last sendWord then SH_REMAINDER else SH_PKG)\<rparr>)
          else k
      | SH_REMAINDER \<Rightarrow>
          k\<lparr>sh_output := s_write (sh_output k)
               ((joinWord offset (sh_prevWord k) zeroWord zeroWord)\<lparr>ax_last := True\<rparr>),
            sh_fsmState := SH_PKG\<rparr>)"

text \<open>Towards the upper lanes: \<open>offset\<close> zero bytes are put in front.  The word sent joins the upper
  \<open>offset\<close> lanes of the word before with the lower ones of the current word.\<close>

definition padWord :: axiWord where
  "padWord = \<lparr>ax_data = 0, ax_keep = 0xFF, ax_last = False\<rparr>"

definition lshiftWordByOctet :: "nat \<Rightarrow> shifter \<Rightarrow> shifter" where
  "lshiftWordByOctet offset k =
     (if sh_fsmState k = SH_REMAINDER then
        k\<lparr>sh_output := s_write (sh_output k)
             ((joinWord (8 - offset) (sh_prevWord k) zeroWord zeroWord)\<lparr>ax_last := True\<rparr>),
          sh_fsmState := SH_PKG\<rparr>
      else if \<not> s_empty (sh_input k) then
        (let currWord = s_head (sh_input k); k = k\<lparr>sh_input := s_rest (sh_input k)\<rparr> in
         if offset = 0 then k\<lparr>sh_output := s_write (sh_output k) currWord\<rparr>
         else
           (let sendWord = (joinWord (8 - offset) (if sh_firstWord k then padWord else sh_prevWord k) currWord zeroWord)
                  \<lparr>ax_last := ((rng 7 (8 - offset) (ax_keep currWord) :: 8 word) = 0)\<rparr> in
            k\<lparr>sh_output := s_write (sh_output k) sendWord, sh_prevWord := currWord,
              sh_firstWord := ax_last currWord,
              sh_fsmState := (if ax_last currWord \<and> \<not> ax_last sendWord then SH_REMAINDER else SH_PKG)\<rparr>))
      else k)"

definition shiftReady :: "nat \<Rightarrow> shifter \<Rightarrow> bool" where
  "shiftReady offset k \<longleftrightarrow> sh_fsmState k = SH_PKG \<and> (offset \<noteq> 0 \<longrightarrow> sh_firstWord k)"

section \<open>What they do to a packet\<close>

lemma funpow_Suc_apply: "(f ^^ Suc n) x = (f ^^ n) (f x)"
  by (simp add: funpow_swap1)

lemma rshift_word:
  assumes "0 < n" and "sh_fsmState k = SH_PKG" and "\<not> sh_firstWord k" and "sh_input k = w # ws"
  shows "rshiftWordByOctet n k =
    (let fin = ((rng 7 n (ax_keep w) :: 8 word) = 0) in
     k\<lparr>sh_input := ws, sh_output := sh_output k @ [(joinWord n (sh_prevWord k) w zeroWord)\<lparr>ax_last := fin\<rparr>],
       sh_prevWord := w, sh_firstWord := ax_last w,
       sh_fsmState := (if ax_last w \<and> \<not> fin then SH_REMAINDER else SH_PKG)\<rparr>)"
  using assms by (simp add: rshiftWordByOctet_def s_write_def Let_def)

lemma lshift_word:
  assumes "0 < n" and "sh_fsmState k = SH_PKG" and "sh_input k = w # ws"
  shows "lshiftWordByOctet n k =
    (let fin = ((rng 7 (8 - n) (ax_keep w) :: 8 word) = 0) in
     k\<lparr>sh_input := ws, sh_output := sh_output k @
         [(joinWord (8 - n) (if sh_firstWord k then padWord else sh_prevWord k) w zeroWord)\<lparr>ax_last := fin\<rparr>],
       sh_prevWord := w, sh_firstWord := ax_last w,
       sh_fsmState := (if ax_last w \<and> \<not> fin then SH_REMAINDER else SH_PKG)\<rparr>)"
  using assms by (simp add: lshiftWordByOctet_def s_write_def Let_def)

text \<open>Both send the joined words of the rest of a packet.\<close>

lemma rshift_rest:
  assumes "0 < n"
  shows "is_packet ws \<Longrightarrow> sh_fsmState k = SH_PKG \<Longrightarrow> \<not> sh_firstWord k \<Longrightarrow> sh_input k = ws @ rest \<Longrightarrow>
    (rshiftWordByOctet n ^^ length (joinRest n (sh_prevWord k) ws)) k =
      k\<lparr>sh_input := rest, sh_output := sh_output k @ joinRest n (sh_prevWord k) ws,
        sh_prevWord := last ws, sh_firstWord := True\<rparr>"
proof (induction ws arbitrary: k)
  case Nil
  then show ?case by simp
next
  case (Cons w ws)
  note st = rshift_word [OF assms Cons.prems(2,3), of w "ws @ rest"]
  show ?case
  proof (cases "ax_last w")
    case True
    then have [simp]: "ws = []" using Cons.prems(1) by (simp add: is_packet_Cons)
    show ?thesis
      using True Cons.prems(2,4) st by (simp add: funpow_Suc_apply Let_def del: funpow.simps(2))
        (simp add: rshiftWordByOctet_def s_write_def)
  next
    case False
    then have ws: "is_packet ws" using Cons.prems(1) by (simp add: is_packet_Cons)
    show ?thesis
      using False Cons.prems(2,4) is_packet_nonempty [OF ws] Cons.IH [OF ws, of "rshiftWordByOctet n k"]
      by (simp add: st funpow_Suc_apply Let_def del: funpow.simps(2))
  qed
qed

lemma lshift_rest:
  assumes "0 < n"
  shows "is_packet ws \<Longrightarrow> sh_fsmState k = SH_PKG \<Longrightarrow> sh_input k = ws @ rest \<Longrightarrow>
    (let p = (if sh_firstWord k then padWord else sh_prevWord k) in
     (lshiftWordByOctet n ^^ length (joinRest (8 - n) p ws)) k =
      k\<lparr>sh_input := rest, sh_output := sh_output k @ joinRest (8 - n) p ws,
        sh_prevWord := last ws, sh_firstWord := True\<rparr>)"
proof (induction ws arbitrary: k)
  case Nil
  then show ?case by simp
next
  case (Cons w ws)
  note st = lshift_word [OF assms Cons.prems(2), of w "ws @ rest"]
  show ?case
  proof (cases "ax_last w")
    case True
    then have [simp]: "ws = []" using Cons.prems(1) by (simp add: is_packet_Cons)
    show ?thesis
      using True Cons.prems(2,3) st by (simp add: funpow_Suc_apply Let_def del: funpow.simps(2))
        (simp add: lshiftWordByOctet_def s_write_def)
  next
    case False
    then have ws: "is_packet ws" using Cons.prems(1) by (simp add: is_packet_Cons)
    show ?thesis
      using False Cons.prems(2,3) is_packet_nonempty [OF ws] Cons.IH [OF ws, of "lshiftWordByOctet n k"]
      by (simp add: st funpow_Suc_apply Let_def del: funpow.simps(2))
  qed
qed

lemma rshift_packet:
  assumes "0 < n" and "n < 8" and "shiftReady n k" and "sh_input k = ws @ rest" and "carries ws bs" and "n < length bs"
  shows "\<exists>m out. shiftReady n ((rshiftWordByOctet n ^^ m) k) \<and> sh_input ((rshiftWordByOctet n ^^ m) k) = rest \<and>
    sh_output ((rshiftWordByOctet n ^^ m) k) = sh_output k @ out \<and> carries out (drop n bs)"
proof -
  obtain p vs where ws: "ws = p # vs" using carries_nonempty [OF assms(5)] by (cases ws) auto
  have k: "sh_fsmState k = SH_PKG" "sh_firstWord k" using assms(1,3) by (simp_all add: shiftReady_def)
  have out: "carries (joinRest n p vs) (drop n bs)" using carries_joinRest [OF assms(1,2)] assms(5,6) by (simp add: ws)
  have st: "rshiftWordByOctet n k = k\<lparr>sh_input := vs @ rest, sh_prevWord := p, sh_firstWord := ax_last p,
      sh_fsmState := (if ax_last p then SH_REMAINDER else SH_PKG)\<rparr>"
    using k assms(1,4) by (simp add: rshiftWordByOctet_def ws zeroWord_def Let_def)
  let ?m = "Suc (length (joinRest n p vs))"
  have "(rshiftWordByOctet n ^^ ?m) k = k\<lparr>sh_input := rest, sh_output := sh_output k @ joinRest n p vs,
      sh_prevWord := last ws, sh_firstWord := True\<rparr>"
  proof (cases "vs = []")
    case True
    then have "ax_last p" using carries_packet [OF assms(5)] by (simp add: ws)
    with True k st show ?thesis
      by (simp add: funpow_Suc_apply ws del: funpow.simps(2)) (simp add: rshiftWordByOctet_def s_write_def)
  next
    case False
    then have "is_packet vs" "\<not> ax_last p" using carries_packet [OF assms(5)] by (auto simp: ws is_packet_Cons split: if_splits)
    with False k st rshift_rest [OF assms(1), of vs "rshiftWordByOctet n k" rest] show ?thesis
      by (simp add: funpow_Suc_apply ws del: funpow.simps(2))
  qed
  with out k show ?thesis by (intro exI [of _ ?m] exI [of _ "joinRest n p vs"]) (simp add: shiftReady_def del: funpow.simps(2))
qed

lemma pad_carries:
  assumes "carries ws bs"
  shows "carries (padWord # ws) (replicate 8 0 @ bs)"
proof -
  have "lanes padWord = kept (replicate 8 0)"
    by (rule nth_equalityI) (auto simp: nth_lanes padWord_def byteAt_def less_Suc_eq numeral_eq_Suc)
  with assms carries_nonempty [OF assms] show ?thesis by (simp add: carries_Cons padWord_def)
qed

lemma lshift_packet:
  assumes "0 < n" and "n < 8" and "shiftReady n k" and "sh_input k = ws @ rest" and "carries ws bs"
  shows "\<exists>m out. shiftReady n ((lshiftWordByOctet n ^^ m) k) \<and> sh_input ((lshiftWordByOctet n ^^ m) k) = rest \<and>
    sh_output ((lshiftWordByOctet n ^^ m) k) = sh_output k @ out \<and> carries out (replicate n 0 @ bs)"
proof -
  have k: "sh_fsmState k = SH_PKG" "sh_firstWord k" using assms(1,3) by (simp_all add: shiftReady_def)
  let ?out = "joinRest (8 - n) padWord ws"
  have "carries ?out (drop (8 - n) (replicate 8 0 @ bs))"
    using carries_joinRest [OF _ _ pad_carries [OF assms(5)], of "8 - n"] assms(1,2) by simp
  moreover have "drop (8 - n) (replicate 8 (0 :: 8 word) @ bs) = replicate n 0 @ bs"
    using assms(2) by (simp add: drop_replicate)
  ultimately show ?thesis
    using lshift_rest [OF assms(1) carries_packet [OF assms(5)] k(1) assms(4)] k
    by (intro exI [of _ "length ?out"] exI [of _ ?out]) (simp add: shiftReady_def Let_def)
qed

text \<open>With offset 0 both hand the words on as they are.\<close>

lemma shift0_word:
  assumes "shiftReady 0 k" and "sh_input k = w # ws"
  shows "lshiftWordByOctet 0 k = k\<lparr>sh_input := ws, sh_output := sh_output k @ [w]\<rparr>"
    and "\<not> sh_firstWord k \<Longrightarrow> rshiftWordByOctet 0 k = k\<lparr>sh_input := ws, sh_output := sh_output k @ [w], sh_prevWord := w\<rparr>"
  using assms by (simp_all add: lshiftWordByOctet_def rshiftWordByOctet_def shiftReady_def s_write_def Let_def)

lemma lshift0_words: "shiftReady 0 k \<Longrightarrow> sh_input k = ws @ rest \<Longrightarrow>
    (lshiftWordByOctet 0 ^^ length ws) k = k\<lparr>sh_input := rest, sh_output := sh_output k @ ws\<rparr>"
proof (induction ws arbitrary: k)
  case (Cons w ws)
  with Cons.IH [of "lshiftWordByOctet 0 k"] show ?case
    by (simp add: shift0_word(1) funpow_Suc_apply shiftReady_def del: funpow.simps(2))
qed simp

lemma rshift0_words: "shiftReady 0 k \<Longrightarrow> \<not> sh_firstWord k \<Longrightarrow> sh_input k = ws @ rest \<Longrightarrow>
    \<exists>p. (rshiftWordByOctet 0 ^^ length ws) k = k\<lparr>sh_input := rest, sh_output := sh_output k @ ws, sh_prevWord := p\<rparr>"
proof (induction ws arbitrary: k)
  case Nil
  then show ?case by (intro exI [of _ "sh_prevWord k"]) simp
next
  case (Cons w ws)
  have st: "rshiftWordByOctet 0 k = k\<lparr>sh_input := ws @ rest, sh_output := sh_output k @ [w], sh_prevWord := w\<rparr>"
    using shift0_word(2) [OF Cons.prems(1) _ Cons.prems(2)] Cons.prems(3) by simp
  obtain p where "(rshiftWordByOctet 0 ^^ length ws) (rshiftWordByOctet 0 k) =
      k\<lparr>sh_input := rest, sh_output := sh_output k @ w # ws, sh_prevWord := p\<rparr>"
    using Cons.IH [of "rshiftWordByOctet 0 k"] Cons.prems(1,2) by (auto simp: st shiftReady_def)
  then show ?case by (intro exI [of _ p]) (simp add: funpow_Suc_apply del: funpow.simps(2))
qed

text \<open>A byte shifter with offset 1 to 7 takes one packet off its input and puts one packet on its output, and is
  ready for the next: towards the lower lanes the packet without its first \<open>offset\<close> bytes, towards the
  upper lanes the packet with \<open>offset\<close> zero bytes in front.\<close>

theorem shifters_bytes:
  assumes "0 < n" and "n < 8" and "shiftReady n k" and "sh_input k = ws @ rest" and "carries ws bs" and "n < length bs"
  shows "(\<exists>m out. shiftReady n ((rshiftWordByOctet n ^^ m) k) \<and> sh_input ((rshiftWordByOctet n ^^ m) k) = rest \<and>
      sh_output ((rshiftWordByOctet n ^^ m) k) = sh_output k @ out \<and> carries out (drop n bs)) \<and>
    (\<exists>m out. shiftReady n ((lshiftWordByOctet n ^^ m) k) \<and> sh_input ((lshiftWordByOctet n ^^ m) k) = rest \<and>
      sh_output ((lshiftWordByOctet n ^^ m) k) = sh_output k @ out \<and> carries out (replicate n 0 @ bs))"
  using rshift_packet [OF assms] lshift_packet [OF assms(1-5)] by blast

text \<open>The offsets at which the network stack uses them: 4 for the IPv4 and the TCP pseudo header, 6 for the Ethernet
  header, 0 for headers of whole words.\<close>

interpretation lshift4: packet_stage "lshiftWordByOctet 4" "shiftReady 4" sh_input sh_output "\<lambda>bs. True" "\<lambda>bs. replicate 4 0 @ bs"
  by unfold_locales (rule lshift_packet; simp)

interpretation lshift6: packet_stage "lshiftWordByOctet 6" "shiftReady 6" sh_input sh_output "\<lambda>bs. True" "\<lambda>bs. replicate 6 0 @ bs"
  by unfold_locales (rule lshift_packet; simp)

interpretation rshift6: packet_stage "rshiftWordByOctet 6" "shiftReady 6" sh_input sh_output "\<lambda>bs. 6 < length bs" "drop 6"
  by unfold_locales (rule rshift_packet; simp)

interpretation lshift0: packet_stage "lshiftWordByOctet 0" "shiftReady 0" sh_input sh_output "\<lambda>bs. True" "\<lambda>bs. bs"
proof unfold_locales
  fix s ws rest bs
  assume "shiftReady 0 s" "sh_input s = ws @ rest" "carries ws bs"
  then show "\<exists>n out. shiftReady 0 ((lshiftWordByOctet 0 ^^ n) s) \<and> sh_input ((lshiftWordByOctet 0 ^^ n) s) = rest \<and>
      sh_output ((lshiftWordByOctet 0 ^^ n) s) = sh_output s @ out \<and> carries out bs"
    by (intro exI [of _ "length ws"] exI [of _ ws]) (simp add: lshift0_words shiftReady_def)
qed

interpretation rshift0: packet_stage "rshiftWordByOctet 0" "\<lambda>k. shiftReady 0 k \<and> \<not> sh_firstWord k" sh_input sh_output
    "\<lambda>bs. True" "\<lambda>bs. bs"
proof unfold_locales
  fix s ws rest bs
  assume s: "shiftReady 0 s \<and> \<not> sh_firstWord s" "sh_input s = ws @ rest" "carries ws bs"
  then obtain p where "(rshiftWordByOctet 0 ^^ length ws) s = s\<lparr>sh_input := rest, sh_output := sh_output s @ ws, sh_prevWord := p\<rparr>"
    using rshift0_words by blast
  with s show "\<exists>n out. (shiftReady 0 ((rshiftWordByOctet 0 ^^ n) s) \<and> \<not> sh_firstWord ((rshiftWordByOctet 0 ^^ n) s)) \<and>
      sh_input ((rshiftWordByOctet 0 ^^ n) s) = rest \<and>
      sh_output ((rshiftWordByOctet 0 ^^ n) s) = sh_output s @ out \<and> carries out bs"
    by (intro exI [of _ "length ws"] exI [of _ ws]) (simp add: shiftReady_def)
qed

definition sampleShifter :: shifter where
  "sampleShifter = \<lparr>sh_fsmState = SH_PKG, sh_firstWord = True, sh_prevWord = zeroWord,
     sh_input = [\<lparr>ax_data = 0x0807060504030201, ax_keep = 0xFF, ax_last = False\<rparr>,
       \<lparr>ax_data = 0x0A09, ax_keep = 3, ax_last = True\<rparr>], sh_output = []\<rparr>"

theorem shifters_bytes_witness:
  "\<exists>m. carries (sh_output ((rshiftWordByOctet 6 ^^ m) sampleShifter)) [7, 8, 9, 10]"
proof -
  have r: "shiftReady 6 sampleShifter" "sh_input sampleShifter = sh_input sampleShifter @ []"
    "carries (sh_input sampleShifter) [1, 2, 3, 4, 5, 6, 7, 8, 9, 10]"
    by (simp add: shiftReady_def sampleShifter_def, simp, code_simp)
  from shifters_bytes [OF _ _ r] show ?thesis by (auto simp: sampleShifter_def simp del: funpow.simps)
qed

end
