(* ===== verification/Net_Header.thy ===== *)
theory Net_Header
  imports Net_Shift
begin

text \<open>
  Packet headers: the class \<^verbatim>\<open>packetHeader<64, HEADER_SIZE>\<close> of \<^verbatim>\<open>packet.hpp\<close>,
  which collects a header from the first words of a packet and gives it out again word by word, and the
  byte order of its fields.  A header is kept in network order, first byte in the lowest bits; the accessors
  turn a field around, so that its value is the big-endian number of its bytes.

  The lemmas read a parsed header at the level of bytes: after the words of a packet, byte \<open>i\<close> of the header is
  byte \<open>i\<close> of the packet.
\<close>

section \<open>Byte order\<close>

definition reverse16 :: "16 word \<Rightarrow> 16 word" where
  "reverse16 w = upd 7 0 (rng 15 8 w :: 8 word) (upd 15 8 (rng 7 0 w :: 8 word) 0)"

definition reverse32 :: "32 word \<Rightarrow> 32 word" where
  "reverse32 w = upd 7 0 (rng 31 24 w :: 8 word) (upd 15 8 (rng 23 16 w :: 8 word)
     (upd 23 16 (rng 15 8 w :: 8 word) (upd 31 24 (rng 7 0 w :: 8 word) 0)))"

lemma reverse16_rng: "(rng 7 0 (reverse16 w) :: 8 word) = rng 15 8 w" "(rng 15 8 (reverse16 w) :: 8 word) = rng 7 0 w"
  by (simp_all add: reverse16_def rng_simps)

lemma reverse32_rng: "(rng 7 0 (reverse32 w) :: 8 word) = rng 31 24 w" "(rng 15 8 (reverse32 w) :: 8 word) = rng 23 16 w"
    "(rng 23 16 (reverse32 w) :: 8 word) = rng 15 8 w" "(rng 31 24 (reverse32 w) :: 8 word) = rng 7 0 w"
  by (simp_all add: reverse32_def rng_simps)

lemma word16_eqI:
  assumes "(rng 7 0 v :: 8 word) = rng 7 0 w" and "(rng 15 8 v :: 8 word) = rng 15 8 w"
  shows "v = (w :: 16 word)"
proof (rule bit_word_eqI)
  fix i assume "i < LENGTH(16)"
  then have "i < 8 \<or> 8 \<le> i \<and> i - 8 < 8 \<and> i \<le> 15" by auto
  then show "bit v i = bit w i"
    using arg_cong [OF assms(1), of "\<lambda>x. bit x i"] arg_cong [OF assms(2), of "\<lambda>x. bit x (i - 8)"]
    by (elim disjE conjE) (simp_all add: bit_simps)
qed

lemma word32_eqI:
  assumes "(rng 7 0 v :: 8 word) = rng 7 0 w" and "(rng 15 8 v :: 8 word) = rng 15 8 w"
    and "(rng 23 16 v :: 8 word) = rng 23 16 w" and "(rng 31 24 v :: 8 word) = rng 31 24 w"
  shows "v = (w :: 32 word)"
proof (rule bit_word_eqI)
  fix i assume "i < LENGTH(32)"
  then have "i < 8 \<or> 8 \<le> i \<and> i - 8 < 8 \<and> i < 16 \<or> 16 \<le> i \<and> i - 16 < 8 \<and> i < 24 \<or> 24 \<le> i \<and> i - 24 < 8 \<and> i < 32"
    by auto
  then show "bit v i = bit w i"
    using arg_cong [OF assms(1), of "\<lambda>x. bit x i"] arg_cong [OF assms(2), of "\<lambda>x. bit x (i - 8)"]
      arg_cong [OF assms(3), of "\<lambda>x. bit x (i - 16)"] arg_cong [OF assms(4), of "\<lambda>x. bit x (i - 24)"]
    by (elim disjE conjE) (simp_all add: bit_simps)
qed

lemma reverse16_reverse16 [simp]: "reverse16 (reverse16 w) = w"
  by (rule word16_eqI) (simp_all add: reverse16_rng)

lemma reverse32_reverse32 [simp]: "reverse32 (reverse32 w) = w"
  by (rule word32_eqI) (simp_all add: reverse32_rng)

text \<open>Big-endian numbers and their bytes.\<close>

definition be16 :: "8 word \<Rightarrow> 8 word \<Rightarrow> 16 word" where
  "be16 a b = upd 15 8 a (upd 7 0 b 0)"
definition be32 :: "8 word \<Rightarrow> 8 word \<Rightarrow> 8 word \<Rightarrow> 8 word \<Rightarrow> 32 word" where
  "be32 a b c d = upd 31 24 a (upd 23 16 b (upd 15 8 c (upd 7 0 d 0)))"
definition bytes16 :: "16 word \<Rightarrow> 8 word list" where
  "bytes16 w = [rng 15 8 w, rng 7 0 w]"
definition bytes32 :: "32 word \<Rightarrow> 8 word list" where
  "bytes32 w = [rng 31 24 w, rng 23 16 w, rng 15 8 w, rng 7 0 w]"

lemma be_rng: "(rng 15 8 (be16 a b) :: 8 word) = a" "(rng 7 0 (be16 a b) :: 8 word) = b"
    "(rng 31 24 (be32 a b c d) :: 8 word) = a" "(rng 23 16 (be32 a b c d) :: 8 word) = b"
    "(rng 15 8 (be32 a b c d) :: 8 word) = c" "(rng 7 0 (be32 a b c d) :: 8 word) = d"
  by (simp_all add: be16_def be32_def rng_simps)

lemma bytes_be [simp]: "bytes16 (be16 a b) = [a, b]" "bytes32 (be32 a b c d) = [a, b, c, d]"
  by (simp_all add: bytes16_def bytes32_def be_rng)

lemma be_bytes: "be16 (rng 15 8 w) (rng 7 0 w) = w" "be32 (rng 31 24 v) (rng 23 16 v) (rng 15 8 v) (rng 7 0 v) = v"
proof -
  show "be16 (rng 15 8 w) (rng 7 0 w) = w" by (rule word16_eqI) (simp_all add: be_rng)
  show "be32 (rng 31 24 v) (rng 23 16 v) (rng 15 8 v) (rng 7 0 v) = v" by (rule word32_eqI) (simp_all add: be_rng)
qed

lemma length_bytes [simp]: "length (bytes16 w) = 2" "length (bytes32 v) = 4"
  by (simp_all add: bytes16_def bytes32_def)

section \<open>Headers\<close>

record 'h packetHeader =
  ph_ready :: bool
  ph_idx :: "16 word"
  ph_header :: 'h

definition parseWord :: "64 word \<Rightarrow> 'h::len word packetHeader \<Rightarrow> 'h word packetHeader" where
  "parseWord w k =
     (if ph_ready k then k
      else
        (let i = unat (ph_idx k) * 64 in
         if i + 64 < LENGTH('h)
         then k\<lparr>ph_header := upd (i + 63) i w (ph_header k), ph_idx := ph_idx k + 1\<rparr>
         else k\<lparr>ph_header := upd (LENGTH('h) - 1) i w (ph_header k), ph_ready := True, ph_idx := ph_idx k + 1\<rparr>))"

text \<open>The word given out, the bytes left, and the header moved on.\<close>

definition consumeWord :: "64 word \<Rightarrow> 'h::len word packetHeader \<Rightarrow> 64 word \<times> 8 word \<times> 'h word packetHeader" where
  "consumeWord w k =
     (let i = unat (ph_idx k) in
      if (i + 1) * 64 \<le> LENGTH('h)
      then (rng ((i + 1) * 64 - 1) (i * 64) (ph_header k), of_nat ((LENGTH('h) - (i + 1) * 64) div 8),
            k\<lparr>ph_idx := ph_idx k + 1\<rparr>)
      else if i * 64 < LENGTH('h)
      then (upd (LENGTH('h) mod 64 - 1) 0 (rng (LENGTH('h) - 1) (i * 64) (ph_header k) :: 64 word) w, 0,
            k\<lparr>ph_idx := ph_idx k + 1\<rparr>)
      else (w, 0, k))"

definition clearHeader :: "'h::len word packetHeader \<Rightarrow> 'h word packetHeader" where
  "clearHeader k = k\<lparr>ph_ready := False, ph_idx := 0\<rparr>"

section \<open>Parsing a packet\<close>

definition headerByte :: "'h::len word \<Rightarrow> nat \<Rightarrow> 8 word" where
  "headerByte h i = rng (8 * i + 7) (8 * i) h"

text \<open>\<open>parsed k n bs\<close>: \<open>n\<close> words have been parsed since the header was cleared, and its bytes so far are
  those of \<open>bs\<close>.\<close>

definition parsed :: "'h::len word packetHeader \<Rightarrow> nat \<Rightarrow> 8 word list \<Rightarrow> bool" where
  "parsed k n bs \<longleftrightarrow> ph_idx k = of_nat n \<and> (ph_ready k \<longleftrightarrow> LENGTH('h) \<le> 64 * n) \<and>
     (\<forall>i. i < 8 * n \<and> 8 * i + 8 \<le> LENGTH('h) \<longrightarrow> headerByte (ph_header k) i = bs ! i)"

lemma parsed_clear: "parsed (clearHeader k) 0 bs"
  by (simp add: parsed_def clearHeader_def)

lemma parsed_byte: "parsed (k :: 'h::len word packetHeader) n bs \<Longrightarrow> i < 8 * n \<Longrightarrow> 8 * i + 8 \<le> LENGTH('h) \<Longrightarrow>
    headerByte (ph_header k) i = bs ! i"
  by (simp add: parsed_def)

lemma parsed_ready: "parsed (k :: 'h::len word packetHeader) n bs \<Longrightarrow> ph_ready k \<longleftrightarrow> LENGTH('h) \<le> 64 * n"
  by (simp add: parsed_def)

lemma headerByte_upd:
  fixes h :: "'h::len word"
  assumes "8 * i + 8 \<le> LENGTH('h)" and "8 * i + 7 \<le> hi \<or> hi = LENGTH('h) - 1" and "hi < 64 * n + 64"
    and "64 * n + 63 \<le> hi \<or> hi = LENGTH('h) - 1"
  shows "headerByte (upd hi (64 * n) w h) i =
    (if 8 * n \<le> i \<and> i < 8 * n + 8 then byteAt w (i - 8 * n) else headerByte h i)"
proof (rule bit_word_eqI)
  fix j assume "j < LENGTH(8)"
  then have j: "j < 8" by simp
  show "bit (headerByte (upd hi (64 * n) w h) i) j =
      bit (if 8 * n \<le> i \<and> i < 8 * n + 8 then byteAt w (i - 8 * n) else headerByte h i) j"
  proof (cases "8 * n \<le> i \<and> i < 8 * n + 8")
    case True
    then have "8 * i + j - 64 * n = 8 * (i - 8 * n) + j" "64 * n \<le> 8 * i + j" "8 * i + j \<le> hi" "8 * i + j < LENGTH('h)"
      using j assms by auto
    with True j show ?thesis by (simp add: headerByte_def byteAt_def bit_simps)
  next
    case False
    then have "\<not> (64 * n \<le> 8 * i + j \<and> 8 * i + j \<le> hi)" using j assms(3) by auto
    with False j show ?thesis by (auto simp: headerByte_def bit_simps)
  qed
qed

lemma parsed_word:
  fixes k :: "'h::len word packetHeader"
  assumes "parsed k n bs" and "64 * n < LENGTH('h)" and "LENGTH('h) < 2 ^ 16"
    and "\<And>i. i < 8 \<Longrightarrow> 8 * (8 * n + i) + 8 \<le> LENGTH('h) \<Longrightarrow> byteAt w i = bs ! (8 * n + i)"
  shows "parsed (parseWord w k) (Suc n) bs"
proof -
  have idx: "unat (ph_idx k) = n" and run: "\<not> ph_ready k"
    using assms(1-3) by (simp_all add: parsed_def unat_of_nat_small)
  let ?hi = "if n * 64 + 64 < LENGTH('h) then n * 64 + 63 else LENGTH('h) - 1"
  have k': "parseWord w k = k\<lparr>ph_header := upd ?hi (64 * n) w (ph_header k), ph_ready := (LENGTH('h) \<le> 64 * Suc n),
      ph_idx := ph_idx k + 1\<rparr>"
    using run by (simp add: parseWord_def idx Let_def mult.commute)
  have "headerByte (upd ?hi (64 * n) w (ph_header k)) i = bs ! i"
    if i: "i < 8 * Suc n" "8 * i + 8 \<le> LENGTH('h)" for i
  proof -
    have "headerByte (upd ?hi (64 * n) w (ph_header k)) i =
        (if 8 * n \<le> i \<and> i < 8 * n + 8 then byteAt w (i - 8 * n) else headerByte (ph_header k) i)"
      by (rule headerByte_upd) (use i assms(2) in auto)
    then show ?thesis
      using i assms(1) assms(4) [of "i - 8 * n"] by (auto simp: parsed_def)
  qed
  then show ?thesis using assms(1) by (simp add: k' parsed_def)
qed

text \<open>Fields of two and four bytes.\<close>

lemma rng16_bytes: "lo = 8 * i \<Longrightarrow> hi = lo + 15 \<Longrightarrow> hi < LENGTH('h) \<Longrightarrow>
    reverse16 (rng hi lo (h :: 'h::len word)) = be16 (headerByte h i) (headerByte h (Suc i))"
  by (rule word16_eqI) (simp_all add: reverse16_rng be_rng headerByte_def rng_simps ac_simps)

lemma rng32_bytes: "lo = 8 * i \<Longrightarrow> hi = lo + 31 \<Longrightarrow> hi < LENGTH('h) \<Longrightarrow> reverse32 (rng hi lo (h :: 'h::len word)) =
    be32 (headerByte h i) (headerByte h (i + 1)) (headerByte h (i + 2)) (headerByte h (i + 3))"
  by (rule word32_eqI) (simp_all add: reverse32_rng be_rng headerByte_def rng_simps ac_simps)

lemma rng_byte: "8 * i \<le> lo \<Longrightarrow> lo \<le> hi \<Longrightarrow> hi < 8 * i + 8 \<Longrightarrow>
    (rng hi lo (h :: 'h::len word) :: 'a::len word) = rng (hi - 8 * i) (lo - 8 * i) (headerByte h i)"
  by (rule bit_word_eqI) (auto simp: headerByte_def bit_simps)

end
