(* ===== verification/Toe_Session_Lookup.thy ===== *)
theory Toe_Session_Lookup
  imports Toe_Hash_Table Net_Header "HOL-Library.Multiset"
begin

text \<open>
  The session lookup of the TCP offload engine, \<^verbatim>\<open>toe/session_lookup_controller\<close>, together with the
  hash table kernel it asks over 128-bit streams.

  \<open>session_lookup_controller\<close> runs the five functions of the source once per call, in their order:
  the manager of the 32 session identifiers, the state machine that answers lookups and creates sessions, the
  sender of the updates, the filter of their answers, and the reverse table from identifiers to connections.
  \<open>hashCall\<close> is one call of the hash table on the streams between the two kernels; the kernels run
  concurrently, so a run of the system is any interleaving of the two.

  The theorems: every identifier is at exactly one place, so that no two connections share one; and as long as no
  insertion fails, the hash table and the reverse table are inverse to each other on the open connections.  A
  lookup that comes between the release of a session and the removal of its entry is answered with an identifier
  that is about to be handed out again.
\<close>

section \<open>Messages\<close>

datatype lookupSource = RX | TX_APP
datatype lookupOp = INSERT | DELETE

record threeTupleInternal =
  tt_theirIp :: "32 word"
  tt_myPort :: "16 word"
  tt_theirPort :: "16 word"

text \<open>The comparison of the source is a linear order.\<close>

definition tuple_less :: "threeTupleInternal \<Rightarrow> threeTupleInternal \<Rightarrow> bool" where
  "tuple_less t u =
     (if tt_theirIp t < tt_theirIp u then True
      else if tt_theirIp t = tt_theirIp u then
        (if tt_myPort t < tt_myPort u then True
         else if tt_myPort t = tt_myPort u then (if tt_theirPort t < tt_theirPort u then True else False)
         else False)
      else False)"

definition tuple_le :: "threeTupleInternal \<Rightarrow> threeTupleInternal \<Rightarrow> bool" where
  "tuple_le t u \<longleftrightarrow> \<not> tuple_less u t"

lemma tuple_order:
  "tuple_less t u \<longleftrightarrow> tt_theirIp t < tt_theirIp u \<or> tt_theirIp t = tt_theirIp u \<and>
     (tt_myPort t < tt_myPort u \<or> tt_myPort t = tt_myPort u \<and> tt_theirPort t < tt_theirPort u)"
  "tuple_le t u \<longleftrightarrow> tt_theirIp t < tt_theirIp u \<or> tt_theirIp t = tt_theirIp u \<and>
     (tt_myPort t < tt_myPort u \<or> tt_myPort t = tt_myPort u \<and> tt_theirPort t \<le> tt_theirPort u)"
  using less_linear [of "tt_theirIp t" "tt_theirIp u"] less_linear [of "tt_myPort t" "tt_myPort u"]
  by (auto simp: tuple_le_def tuple_less_def not_less)

interpretation tuples: linorder tuple_le tuple_less
proof unfold_locales
  fix t u v :: threeTupleInternal
  show "tuple_less t u = (tuple_le t u \<and> \<not> tuple_le u t)" "tuple_le t t" "tuple_le t u \<or> tuple_le u t"
    by (auto simp: tuple_order)
  show "tuple_le t u \<Longrightarrow> tuple_le u v \<Longrightarrow> tuple_le t v"
    unfolding tuple_order by (elim disjE conjE) auto
  show "tuple_le t u \<Longrightarrow> tuple_le u t \<Longrightarrow> t = u"
    by (cases t; cases u) (auto simp: tuple_order)
qed

record sessionLookupQueryInternal =
  qi_tuple :: threeTupleInternal
  qi_allowCreation :: bool
  qi_source :: lookupSource

record rtlSessionLookupReply =
  rl_key :: threeTupleInternal
  rl_sessionID :: "16 word"
  rl_hit :: bool
  rl_source :: lookupSource

record rtlSessionUpdateRequest =
  rr_op :: lookupOp
  rr_key :: threeTupleInternal
  rr_value :: "16 word"
  rr_source :: lookupSource

record rtlSessionUpdateReply =
  sr_op :: lookupOp
  sr_key :: threeTupleInternal
  sr_sessionID :: "16 word"
  sr_success :: bool
  sr_source :: lookupSource

record revLupInsert =
  ri_key :: "16 word"
  ri_value :: threeTupleInternal

text \<open>The stream words.  The hash table gives back the source as it was sent, so that the other values of the
  source field, for which the code leaves the source unset, do not occur.\<close>

definition sourceBits :: "lookupSource \<Rightarrow> 8 word" where
  "sourceBits s = (case s of RX \<Rightarrow> 0 | TX_APP \<Rightarrow> 1)"

definition rtlSessionUpdateRequest2axiu :: "rtlSessionUpdateRequest \<Rightarrow> 128 word" where
  "rtlSessionUpdateRequest2axiu r =
     upd 0 0 ((case rr_op r of INSERT \<Rightarrow> 0 | DELETE \<Rightarrow> 1) :: 1 word) (
     upd 32 1 (tt_theirIp (rr_key r)) (
     upd 48 33 (tt_myPort (rr_key r)) (
     upd 64 49 (tt_theirPort (rr_key r)) (
     upd 80 65 (rr_value r) (
     upd 88 81 (sourceBits (rr_source r)) 0)))))"

definition axiu2rtlSessionUpdateReply :: "128 word \<Rightarrow> rtlSessionUpdateReply" where
  "axiu2rtlSessionUpdateReply w =
     \<lparr>sr_op = (if (rng 0 0 w :: 1 word) = 0 then INSERT else DELETE),
      sr_key = \<lparr>tt_theirIp = rng 32 1 w, tt_myPort = rng 48 33 w, tt_theirPort = rng 64 49 w\<rparr>,
      sr_sessionID = rng 80 65 w, sr_success = ((rng 88 81 w :: 8 word) \<noteq> 0),
      sr_source = (if (rng 96 89 w :: 8 word) = 0 then RX else TX_APP)\<rparr>"

definition rtlSessionLookupRequest2axiu :: "threeTupleInternal \<Rightarrow> lookupSource \<Rightarrow> 128 word" where
  "rtlSessionLookupRequest2axiu key source =
     upd 31 0 (tt_theirIp key) (
     upd 47 32 (tt_myPort key) (
     upd 63 48 (tt_theirPort key) (
     upd 71 64 (sourceBits source) 0)))"

definition axiu2rtlSessionLookupReply :: "128 word \<Rightarrow> rtlSessionLookupReply" where
  "axiu2rtlSessionLookupReply w =
     \<lparr>rl_key = \<lparr>tt_theirIp = rng 31 0 w, tt_myPort = rng 47 32 w, tt_theirPort = rng 63 48 w\<rparr>,
      rl_sessionID = rng 79 64 w, rl_hit = ((rng 87 80 w :: 8 word) \<noteq> 0),
      rl_source = (if (rng 95 88 w :: 8 word) = 0 then RX else TX_APP)\<rparr>"

section \<open>Controller\<close>

datatype slcState = LUP_REQ | LUP_RSP | UPD_RSP

record sessionLookup =
  sl_counter :: "14 word"
  sl_freeList :: "14 word hls_stream"
  sl_finFifo :: "14 word hls_stream"
  sl_fsmState :: slcState
  sl_insertTuples :: "threeTupleInternal hls_stream"
  sl_queryCache :: "sessionLookupQueryInternal hls_stream"
  sl_insertRsp :: "rtlSessionUpdateReply hls_stream"
  sl_insertReq :: "rtlSessionUpdateRequest hls_stream"
  sl_deleteReq :: "rtlSessionUpdateRequest hls_stream"
  sl_revInsert :: "revLupInsert hls_stream"
  sl_usedSessionIDs :: "32 word"
  sl_currEstab :: "32 word"
  sl_reverseTable :: "16 word \<Rightarrow> threeTupleInternal"
  sl_tupleValid :: "16 word \<Rightarrow> bool"
  sl_rxReq :: "sessionLookupQuery hls_stream"
  sl_txAppReq :: "fourTuple hls_stream"
  sl_releaseSession :: "16 word hls_stream"
  sl_revReq :: "16 word hls_stream"
  sl_rxRsp :: "sessionLookupReply hls_stream"
  sl_txAppRsp :: "sessionLookupReply hls_stream"
  sl_releasePort :: "16 word hls_stream"
  sl_revRsp :: "fourTuple hls_stream"
  sl_lookupReq :: "128 word hls_stream"
  sl_lookupRsp :: "128 word hls_stream"
  sl_updateReq :: "128 word hls_stream"
  sl_updateRsp :: "128 word hls_stream"
  sl_hash :: hashTable

definition sessionIdManager :: "sessionLookup \<Rightarrow> sessionLookup" where
  "sessionIdManager k =
     (if \<not> s_empty (sl_finFifo k) then
        k\<lparr>sl_finFifo := s_rest (sl_finFifo k), sl_freeList := s_write (sl_freeList k) (s_head (sl_finFifo k))\<rparr>
      else if unat (sl_counter k) < MAX_SESSIONS then
        k\<lparr>sl_freeList := s_write (sl_freeList k) (sl_counter k), sl_counter := sl_counter k + 1\<rparr>
      else k)"

text \<open>A lookup is sent, with its query kept for the answer.\<close>

definition sendLookup :: "sessionLookupQueryInternal \<Rightarrow> sessionLookup \<Rightarrow> sessionLookup" where
  "sendLookup q k =
     k\<lparr>sl_lookupReq := s_write (sl_lookupReq k) (rtlSessionLookupRequest2axiu (qi_tuple q) (qi_source q)),
       sl_queryCache := s_write (sl_queryCache k) q, sl_fsmState := LUP_RSP\<rparr>"

definition slcRequest :: "sessionLookup \<Rightarrow> sessionLookup" where
  "slcRequest k =
     (if \<not> s_empty (sl_txAppReq k) then
        (let t = s_head (sl_txAppReq k)
         in sendLookup \<lparr>qi_tuple = \<lparr>tt_theirIp = ft_dstIp t, tt_myPort = ft_srcPort t, tt_theirPort = ft_dstPort t\<rparr>,
                        qi_allowCreation = True, qi_source = TX_APP\<rparr>
              (k\<lparr>sl_txAppReq := s_rest (sl_txAppReq k)\<rparr>))
      else if \<not> s_empty (sl_rxReq k) then
        (let q = s_head (sl_rxReq k); t = lq_tuple q
         in sendLookup \<lparr>qi_tuple = \<lparr>tt_theirIp = ft_srcIp t, tt_myPort = ft_dstPort t, tt_theirPort = ft_srcPort t\<rparr>,
                        qi_allowCreation = lq_allowCreation q, qi_source = RX\<rparr>
              (k\<lparr>sl_rxReq := s_rest (sl_rxReq k)\<rparr>))
      else k)"

definition sendReply :: "lookupSource \<Rightarrow> 16 word \<Rightarrow> bool \<Rightarrow> sessionLookup \<Rightarrow> sessionLookup" where
  "sendReply source sessionID hit k =
     (if source = RX then k\<lparr>sl_rxRsp := s_write (sl_rxRsp k) \<lparr>lr_sessionID = sessionID, lr_hit = hit\<rparr>\<rparr>
      else k\<lparr>sl_txAppRsp := s_write (sl_txAppRsp k) \<lparr>lr_sessionID = sessionID, lr_hit = hit\<rparr>\<rparr>)"

definition slcResponse :: "sessionLookup \<Rightarrow> sessionLookup" where
  "slcResponse k =
     (if \<not> s_empty (sl_lookupRsp k) \<and> \<not> s_empty (sl_queryCache k) then
        (let lupReply = axiu2rtlSessionLookupReply (s_head (sl_lookupRsp k));
             intQuery = s_head (sl_queryCache k);
             k = k\<lparr>sl_lookupRsp := s_rest (sl_lookupRsp k), sl_queryCache := s_rest (sl_queryCache k)\<rparr> in
         if \<not> rl_hit lupReply \<and> qi_allowCreation intQuery \<and> \<not> s_empty (sl_freeList k) then
           k\<lparr>sl_freeList := s_rest (sl_freeList k),
             sl_insertReq := s_write (sl_insertReq k) \<lparr>rr_op = INSERT, rr_key = qi_tuple intQuery,
               rr_value = ucast (s_head (sl_freeList k)), rr_source = rl_source lupReply\<rparr>,
             sl_insertTuples := s_write (sl_insertTuples k) (qi_tuple intQuery), sl_fsmState := UPD_RSP\<rparr>
         else
           (sendReply (rl_source lupReply) (rl_sessionID lupReply) (rl_hit lupReply) k)\<lparr>sl_fsmState := LUP_REQ\<rparr>)
      else k)"

definition slcUpdated :: "sessionLookup \<Rightarrow> sessionLookup" where
  "slcUpdated k =
     (if \<not> s_empty (sl_insertRsp k) \<and> \<not> s_empty (sl_insertTuples k) then
        (let insertReply = s_head (sl_insertRsp k); tuple = s_head (sl_insertTuples k);
             k = k\<lparr>sl_insertRsp := s_rest (sl_insertRsp k), sl_insertTuples := s_rest (sl_insertTuples k)\<rparr>;
             k = sendReply (sr_source insertReply) (sr_sessionID insertReply) True k
         in k\<lparr>sl_revInsert := s_write (sl_revInsert k) \<lparr>ri_key = sr_sessionID insertReply, ri_value = tuple\<rparr>,
              sl_fsmState := LUP_REQ\<rparr>)
      else k)"

definition lookupReplyHandler :: "sessionLookup \<Rightarrow> sessionLookup" where
  "lookupReplyHandler k =
     (case sl_fsmState k of LUP_REQ \<Rightarrow> slcRequest k | LUP_RSP \<Rightarrow> slcResponse k | UPD_RSP \<Rightarrow> slcUpdated k)"

definition updateRequestSender :: "sessionLookup \<Rightarrow> sessionLookup" where
  "updateRequestSender k =
     (let k = (if \<not> s_empty (sl_insertReq k) then
                 k\<lparr>sl_insertReq := s_rest (sl_insertReq k), sl_usedSessionIDs := sl_usedSessionIDs k + 1,
                   sl_updateReq := s_write (sl_updateReq k) (rtlSessionUpdateRequest2axiu (s_head (sl_insertReq k)))\<rparr>
               else if \<not> s_empty (sl_deleteReq k) then
                 k\<lparr>sl_deleteReq := s_rest (sl_deleteReq k), sl_usedSessionIDs := sl_usedSessionIDs k - 1,
                   sl_updateReq := s_write (sl_updateReq k) (rtlSessionUpdateRequest2axiu (s_head (sl_deleteReq k))),
                   sl_finFifo := s_write (sl_finFifo k) (ucast (rr_value (s_head (sl_deleteReq k))))\<rparr>
               else k)
      in k\<lparr>sl_currEstab := sl_usedSessionIDs k\<rparr>)"

definition updateReplyHandler :: "sessionLookup \<Rightarrow> sessionLookup" where
  "updateReplyHandler k =
     (if \<not> s_empty (sl_updateRsp k) then
        (let upReply = axiu2rtlSessionUpdateReply (s_head (sl_updateRsp k));
             k = k\<lparr>sl_updateRsp := s_rest (sl_updateRsp k)\<rparr>
         in if sr_op upReply = INSERT then k\<lparr>sl_insertRsp := s_write (sl_insertRsp k) upReply\<rparr> else k)
      else k)"

text \<open>Ports are kept in network order: the port table is told the two bytes exchanged.\<close>

definition reverseLookupTableInterface :: "32 word \<Rightarrow> sessionLookup \<Rightarrow> sessionLookup option" where
  "reverseLookupTableInterface myIpAddress k =
     (if \<not> s_empty (sl_revInsert k) then
        (let i = s_head (sl_revInsert k) in
         if \<not> inTable (ri_key i) then None
         else Some (k\<lparr>sl_revInsert := s_rest (sl_revInsert k),
                      sl_reverseTable := (sl_reverseTable k)(ri_key i := ri_value i),
                      sl_tupleValid := (sl_tupleValid k)(ri_key i := True)\<rparr>))
      else if \<not> s_empty (sl_releaseSession k) then
        (let sessionID = s_head (sl_releaseSession k); releaseTuple = sl_reverseTable k sessionID in
         if \<not> inTable sessionID then None
         else
           (let k' = k\<lparr>sl_releaseSession := s_rest (sl_releaseSession k),
                       sl_tupleValid := (sl_tupleValid k)(sessionID := False)\<rparr>
            in Some (if sl_tupleValid k sessionID
                     then k'\<lparr>sl_releasePort := s_write (sl_releasePort k) (reverse16 (tt_myPort releaseTuple)),
                             sl_deleteReq := s_write (sl_deleteReq k) \<lparr>rr_op = DELETE, rr_key = releaseTuple,
                               rr_value = sessionID, rr_source = RX\<rparr>\<rparr>
                     else k')))
      else if \<not> s_empty (sl_revReq k) then
        (let sessionID = s_head (sl_revReq k); t = sl_reverseTable k sessionID in
         if \<not> inTable sessionID then None
         else Some (k\<lparr>sl_revReq := s_rest (sl_revReq k),
                      sl_revRsp := s_write (sl_revRsp k) \<lparr>ft_srcIp = myIpAddress, ft_dstIp = tt_theirIp t,
                        ft_srcPort = tt_myPort t, ft_dstPort = tt_theirPort t\<rparr>\<rparr>))
      else Some k)"

definition session_lookup_controller :: "32 word \<Rightarrow> sessionLookup \<Rightarrow> sessionLookup option" where
  "session_lookup_controller myIpAddress k =
     reverseLookupTableInterface myIpAddress
       (updateReplyHandler (updateRequestSender (lookupReplyHandler (sessionIdManager k))))"

text \<open>One call of the hash table kernel on the streams it shares with the controller.\<close>

definition hashCall :: "tabulation \<Rightarrow> 16 word \<Rightarrow> sessionLookup \<Rightarrow> sessionLookup" where
  "hashCall tab junk k =
     (let h = hash_table tab junk ((sl_hash k)\<lparr>ht_lupReq := sl_lookupReq k, ht_updReq := sl_updateReq k,
                ht_lupRsp := sl_lookupRsp k, ht_updRsp := sl_updateRsp k\<rparr>)
      in k\<lparr>sl_hash := h, sl_lookupReq := ht_lupReq h, sl_updateReq := ht_updReq h,
           sl_lookupRsp := ht_lupRsp h, sl_updateRsp := ht_updRsp h\<rparr>)"

section \<open>The words on the streams\<close>

text \<open>The hash table sees a connection as a 64-bit key, the source as one bit.\<close>

definition keyWord :: "threeTupleInternal \<Rightarrow> 64 word" where
  "keyWord t = upd 31 0 (tt_theirIp t) (upd 47 32 (tt_myPort t) (upd 63 48 (tt_theirPort t) 0))"

definition tupleOf :: "64 word \<Rightarrow> threeTupleInternal" where
  "tupleOf w = \<lparr>tt_theirIp = rng 31 0 w, tt_myPort = rng 47 32 w, tt_theirPort = rng 63 48 w\<rparr>"

lemma tupleOf_keyWord [simp]: "tupleOf (keyWord t) = t"
  by (simp add: tupleOf_def keyWord_def rng_simps)

lemma keyWord_inject [simp]: "keyWord t = keyWord u \<longleftrightarrow> t = u"
  by (metis tupleOf_keyWord)

definition kvOp :: "lookupOp \<Rightarrow> kvOperation" where
  "kvOp op = (case op of INSERT \<Rightarrow> KV_INSERT | DELETE \<Rightarrow> KV_DELETE)"

definition sourceBit :: "lookupSource \<Rightarrow> 1 word" where
  "sourceBit s = (case s of RX \<Rightarrow> 0 | TX_APP \<Rightarrow> 1)"

lemma update_request_word: "axiu2htUpdateReq (rtlSessionUpdateRequest2axiu r) =
    \<lparr>hu_op = kvOp (rr_op r), hu_key = keyWord (rr_key r), hu_value = rr_value r, hu_source = sourceBit (rr_source r)\<rparr>"
proof -
  have "(rng 64 1 (rtlSessionUpdateRequest2axiu r) :: 64 word) = keyWord (rr_key r)"
    by (rule bit_word_eqI) (auto simp: rtlSessionUpdateRequest2axiu_def keyWord_def bit_simps)
  moreover have "(rng 88 81 (rtlSessionUpdateRequest2axiu r) :: 1 word) = sourceBit (rr_source r)"
    by (rule bit_word_eqI)
      (auto simp: rtlSessionUpdateRequest2axiu_def sourceBit_def sourceBits_def bit_simps split: lookupSource.splits)
  ultimately show ?thesis
    by (simp add: axiu2htUpdateReq_def) (simp add: rtlSessionUpdateRequest2axiu_def kvOp_def rng_simps split: lookupOp.splits)
qed

lemma update_reply_word: "axiu2rtlSessionUpdateReply (htUpdateResp2axiu
    (updateResp \<lparr>hu_op = kvOp op, hu_key = keyWord t, hu_value = v, hu_source = sourceBit s\<rparr> success)) =
    \<lparr>sr_op = op, sr_key = t, sr_sessionID = v, sr_success = success, sr_source = s\<rparr>" (is "axiu2rtlSessionUpdateReply ?w = _")
proof -
  have "(rng 32 1 ?w :: 32 word) = tt_theirIp t" "(rng 48 33 ?w :: 16 word) = tt_myPort t"
    "(rng 64 49 ?w :: 16 word) = tt_theirPort t"
    by (rule bit_word_eqI; auto simp: htUpdateResp2axiu_def updateResp_def keyWord_def bit_simps)+
  then show ?thesis
    by (simp add: axiu2rtlSessionUpdateReply_def)
      (simp add: htUpdateResp2axiu_def updateResp_def kvOp_def sourceBit_def rng_simps
        split: lookupOp.splits lookupSource.splits)
qed

lemma lookup_request_word: "axiu2htLookupReq (rtlSessionLookupRequest2axiu t s) =
    \<lparr>hq_key = keyWord t, hq_source = sourceBit s\<rparr>"
proof -
  have "(rng 63 0 (rtlSessionLookupRequest2axiu t s) :: 64 word) = keyWord t"
    by (rule bit_word_eqI) (auto simp: rtlSessionLookupRequest2axiu_def keyWord_def bit_simps)
  moreover have "(rng 71 64 (rtlSessionLookupRequest2axiu t s) :: 1 word) = sourceBit s"
    by (rule bit_word_eqI)
      (auto simp: rtlSessionLookupRequest2axiu_def sourceBit_def sourceBits_def bit_simps split: lookupSource.splits)
  ultimately show ?thesis by (simp add: axiu2htLookupReq_def)
qed

lemma lookup_reply_word: "axiu2rtlSessionLookupReply (htLookupResp2axiu
    \<lparr>hr_key = keyWord t, hr_value = v, hr_hit = hit, hr_source = sourceBit s\<rparr>) =
    \<lparr>rl_key = t, rl_sessionID = v, rl_hit = hit, rl_source = s\<rparr>" (is "axiu2rtlSessionLookupReply ?w = _")
proof -
  have "(rng 31 0 ?w :: 32 word) = tt_theirIp t" "(rng 47 32 ?w :: 16 word) = tt_myPort t"
    "(rng 63 48 ?w :: 16 word) = tt_theirPort t"
    by (rule bit_word_eqI; auto simp: htLookupResp2axiu_def keyWord_def bit_simps)+
  then show ?thesis
    by (simp add: axiu2rtlSessionLookupReply_def)
      (simp add: htLookupResp2axiu_def sourceBit_def rng_simps split: lookupSource.splits)
qed

section \<open>The identifiers\<close>

text \<open>The identifiers of the insertions among the words of an update stream.\<close>

definition insertIds :: "128 word list \<Rightarrow> 16 word list" where
  "insertIds ws = map (rng 80 65) (filter (\<lambda>w. (rng 0 0 w :: 1 word) = 0) ws)"

text \<open>Where an identifier can be: free, on its way back, in the course of an insertion, waiting to be entered in the
  reverse table, or waiting to be removed.  The open ones are those valid in the reverse table.\<close>

definition idPlaces :: "sessionLookup \<Rightarrow> 16 word list" where
  "idPlaces k = map ucast (sl_freeList k) @ map ucast (sl_finFifo k) @ map rr_value (sl_insertReq k) @
     insertIds (sl_updateReq k) @ insertIds (sl_updateRsp k) @ map sr_sessionID (sl_insertRsp k) @
     map ri_key (sl_revInsert k) @ map rr_value (sl_deleteReq k)"

definition openIds :: "sessionLookup \<Rightarrow> 16 word set" where
  "openIds k = {i. sl_tupleValid k i}"

definition knownIds :: "sessionLookup \<Rightarrow> 16 word set" where
  "knownIds k = {i. unat i < unat (sl_counter k)}"

definition idsOk :: "sessionLookup \<Rightarrow> bool" where
  "idsOk k \<longleftrightarrow> mset (idPlaces k) + mset_set (openIds k) = mset_set (knownIds k) \<and> unat (sl_counter k) \<le> MAX_SESSIONS \<and>
     (\<forall>r\<in>set (sl_insertReq k). rr_op r = INSERT) \<and> (\<forall>r\<in>set (sl_deleteReq k). rr_op r = DELETE)"

lemma insertIds_simps [simp]:
  "insertIds [] = []"
  "insertIds (w # ws) = (if (rng 0 0 w :: 1 word) = 0 then [rng 80 65 w] else []) @ insertIds ws"
  "insertIds (us @ ws) = insertIds us @ insertIds ws"
  by (simp_all add: insertIds_def)

lemma idsOk_cong:
  assumes "idsOk k" and "mset (idPlaces t) = mset (idPlaces k)" and "sl_tupleValid t = sl_tupleValid k"
    and "sl_counter t = sl_counter k" and "\<forall>r\<in>set (sl_insertReq t). rr_op r = INSERT"
    and "\<forall>r\<in>set (sl_deleteReq t). rr_op r = DELETE"
  shows "idsOk t"
  using assms by (simp add: idsOk_def openIds_def knownIds_def)

lemma known_less: "idsOk k \<Longrightarrow> i \<in> set (idPlaces k) \<or> i \<in> openIds k \<Longrightarrow> inTable i"
proof -
  assume ok: "idsOk k" and "i \<in> set (idPlaces k) \<or> i \<in> openIds k"
  then have "i \<in># mset (idPlaces k) + mset_set (openIds k)" by auto
  with ok have "i \<in># mset_set (knownIds k)" by (simp only: idsOk_def)
  then have "i \<in> knownIds k" by simp
  with ok show "inTable i" by (simp add: idsOk_def knownIds_def inTable_def)
qed

lemma ids_count:
  assumes "idsOk k"
  shows "count (mset (idPlaces k)) i + (if i \<in> openIds k then 1 else 0) = (if i \<in> knownIds k then 1 else 0)"
proof -
  have "count (mset (idPlaces k) + mset_set (openIds k)) i = count (mset_set (knownIds k)) i"
    using assms by (simp only: idsOk_def)
  then show ?thesis by (simp add: count_mset_set')
qed

lemma idsOk_manager: "idsOk k \<Longrightarrow> idsOk (sessionIdManager k)"
proof (cases "sl_finFifo k")
  case (Cons x xs)
  assume "idsOk k"
  then show ?thesis
    by (rule idsOk_cong) (use \<open>idsOk k\<close> Cons in \<open>simp_all add: sessionIdManager_def idPlaces_def s_write_def idsOk_def\<close>)
next
  case Nil
  assume ok: "idsOk k"
  show ?thesis
  proof (cases "unat (sl_counter k) < MAX_SESSIONS")
    case True
    let ?c = "unat (sl_counter k)"
    have c: "unat (sl_counter k + 1) = Suc ?c"
      using True by (simp add: unat_word_ariths MAX_SESSIONS_def)
    have u: "unat (ucast (sl_counter k) :: 16 word) = ?c"
      using unsigned_less [of "sl_counter k", where ?'a = nat]
      by (simp add: unsigned_ucast_eq unsigned_take_bit_eq take_bit_nat_eq_self)
    have "{i :: 16 word. unat i < Suc ?c} = insert (ucast (sl_counter k)) {i. unat i < ?c}"
      using u by (auto simp: less_Suc_eq word_unat_eq_iff)
    then have "mset_set {i :: 16 word. unat i < Suc ?c} = add_mset (ucast (sl_counter k)) (mset_set {i. unat i < ?c})"
      using u by simp
    with ok True c Nil show ?thesis
      by (simp add: idsOk_def sessionIdManager_def idPlaces_def openIds_def knownIds_def s_write_def)
  next
    case False
    with ok Nil show ?thesis by (simp add: sessionIdManager_def)
  qed
qed

lemma idsOk_sendReply: "idPlaces (sendReply s i hit k) = idPlaces k" "sl_tupleValid (sendReply s i hit k) = sl_tupleValid k"
    "sl_counter (sendReply s i hit k) = sl_counter k" "sl_insertReq (sendReply s i hit k) = sl_insertReq k"
    "sl_deleteReq (sendReply s i hit k) = sl_deleteReq k"
  by (simp_all add: sendReply_def idPlaces_def)

lemma idsOk_handler:
  assumes "idsOk k"
  shows "idsOk (lookupReplyHandler k)"
proof (cases "sl_fsmState k")
  case LUP_REQ
  show ?thesis
    by (rule idsOk_cong [OF assms])
      (use LUP_REQ assms in \<open>simp_all add: lookupReplyHandler_def slcRequest_def sendLookup_def idPlaces_def idsOk_def Let_def\<close>)
next
  case LUP_RSP
  show ?thesis
  proof (cases "sl_freeList k")
    case Nil
    show ?thesis
      by (rule idsOk_cong [OF assms])
        (use LUP_RSP assms Nil in \<open>simp_all add: lookupReplyHandler_def slcResponse_def sendReply_def idPlaces_def idsOk_def Let_def\<close>)
  next
    case (Cons x xs)
    show ?thesis
      by (rule idsOk_cong [OF assms])
        (use LUP_RSP assms Cons in \<open>auto simp: lookupReplyHandler_def slcResponse_def sendReply_def idPlaces_def idsOk_def
          s_write_def Let_def\<close>)
  qed
next
  case UPD_RSP
  show ?thesis
  proof (cases "sl_insertRsp k")
    case Nil
    with UPD_RSP assms show ?thesis by (simp add: lookupReplyHandler_def slcUpdated_def)
  next
    case (Cons x xs)
    show ?thesis
      by (rule idsOk_cong [OF assms])
        (use UPD_RSP assms Cons in \<open>auto simp: lookupReplyHandler_def slcUpdated_def sendReply_def idPlaces_def idsOk_def
          s_write_def Let_def\<close>)
  qed
qed

lemma update_word_ids:
  "(rng 0 0 (rtlSessionUpdateRequest2axiu r) :: 1 word) = (case rr_op r of INSERT \<Rightarrow> 0 | DELETE \<Rightarrow> 1)"
  "(rng 80 65 (rtlSessionUpdateRequest2axiu r) :: 16 word) = rr_value r"
  by (simp_all add: rtlSessionUpdateRequest2axiu_def rng_simps)

lemma ucast_session: "inTable i \<Longrightarrow> ucast (ucast i :: 14 word) = i"
  by (simp add: inTable_less word_less_nat_alt word_unat_eq_iff unsigned_ucast_eq unsigned_take_bit_eq take_bit_nat_eq_self)

lemma idsOk_sender:
  assumes "idsOk k"
  shows "idsOk (updateRequestSender k)"
proof (cases "sl_insertReq k")
  case (Cons r rs)
  show ?thesis
    by (rule idsOk_cong [OF assms])
      (use assms Cons in \<open>simp_all add: updateRequestSender_def idPlaces_def idsOk_def s_write_def update_word_ids Let_def\<close>)
next
  case Nil
  show ?thesis
  proof (cases "sl_deleteReq k")
    case (Cons r rs)
    have "inTable (rr_value r)" by (rule known_less [OF assms]) (simp add: idPlaces_def Cons)
    then have "ucast (ucast (rr_value r) :: 14 word) = rr_value r" by (rule ucast_session)
    then show ?thesis
      by (intro idsOk_cong [OF assms])
        (use assms Cons Nil in \<open>simp_all add: updateRequestSender_def idPlaces_def idsOk_def s_write_def update_word_ids Let_def\<close>)
  qed (use assms Nil in \<open>simp add: updateRequestSender_def idPlaces_def openIds_def knownIds_def idsOk_def\<close>)
qed

lemma idsOk_replies:
  assumes "idsOk k"
  shows "idsOk (updateReplyHandler k)"
proof (cases "sl_updateRsp k")
  case (Cons w ws)
  show ?thesis
    by (rule idsOk_cong [OF assms])
      (use assms Cons in \<open>auto simp: updateReplyHandler_def idPlaces_def idsOk_def s_write_def axiu2rtlSessionUpdateReply_def Let_def\<close>)
qed (use assms in \<open>simp add: updateReplyHandler_def\<close>)

lemma idsOk_reverse:
  assumes "idsOk k" and "reverseLookupTableInterface ip k = Some t"
  shows "idsOk t"
proof (cases "sl_revInsert k")
  case (Cons r rs)
  have "ri_key r \<in> set (idPlaces k)" by (simp add: idPlaces_def Cons)
  then have "0 < count (mset (idPlaces k)) (ri_key r)" by simp
  with ids_count [OF assms(1), of "ri_key r"] have new: "ri_key r \<notin> openIds k" by (auto split: if_splits)
  have "openIds t = insert (ri_key r) (openIds k)" "sl_counter t = sl_counter k"
    "mset (idPlaces k) = add_mset (ri_key r) (mset (idPlaces t))"
    "sl_insertReq t = sl_insertReq k" "sl_deleteReq t = sl_deleteReq k"
    using assms(2) Cons
    by (auto simp: reverseLookupTableInterface_def openIds_def idPlaces_def Let_def split: if_splits)
  with new assms(1) show ?thesis by (simp add: idsOk_def knownIds_def)
next
  case Nil
  show ?thesis
  proof (cases "sl_releaseSession k = [] \<or> \<not> sl_tupleValid k (s_head (sl_releaseSession k))")
    case True
    then have "t = k \<or> (\<exists>a b c i. t = k\<lparr>sl_releaseSession := a, sl_tupleValid := (sl_tupleValid k)(i := False)\<rparr> \<and> \<not> sl_tupleValid k i) \<or>
        (\<exists>a b. t = k\<lparr>sl_revReq := a, sl_revRsp := b\<rparr>)"
      using assms(2) Nil by (auto simp: reverseLookupTableInterface_def Let_def split: if_splits)
    then have "sl_tupleValid t = sl_tupleValid k \<and> idPlaces t = idPlaces k \<and> sl_counter t = sl_counter k \<and>
        sl_insertReq t = sl_insertReq k \<and> sl_deleteReq t = sl_deleteReq k"
      by (auto simp: idPlaces_def fun_eq_iff split: if_splits)
    with assms(1) show ?thesis by (simp add: idsOk_def openIds_def knownIds_def)
  next
    case False
    let ?i = "s_head (sl_releaseSession k)"
    obtain p where t: "t = k\<lparr>sl_releaseSession := s_rest (sl_releaseSession k),
        sl_tupleValid := (sl_tupleValid k)(?i := False), sl_releasePort := p,
        sl_deleteReq := sl_deleteReq k @ [\<lparr>rr_op = DELETE, rr_key = sl_reverseTable k ?i, rr_value = ?i, rr_source = RX\<rparr>]\<rparr>"
      using assms(2) False Nil by (auto simp: reverseLookupTableInterface_def s_write_def s_empty_def Let_def split: if_splits)
    have "openIds k = insert ?i (openIds t)" "?i \<notin> openIds t" using False by (auto simp: t openIds_def)
    moreover have "mset (idPlaces t) = add_mset ?i (mset (idPlaces k))" by (simp add: t idPlaces_def)
    moreover have "sl_counter t = sl_counter k" "sl_insertReq t = sl_insertReq k"
      "sl_deleteReq t = sl_deleteReq k @ [\<lparr>rr_op = DELETE, rr_key = sl_reverseTable k ?i, rr_value = ?i, rr_source = RX\<rparr>]"
      by (simp_all add: t)
    moreover note assms(1)
    ultimately show ?thesis by (simp add: idsOk_def knownIds_def)
  qed
qed

lemma idsOk_controller: "idsOk k \<Longrightarrow> session_lookup_controller ip k = Some t \<Longrightarrow> idsOk t"
  unfolding session_lookup_controller_def
  by (erule idsOk_reverse [rotated]) (intro idsOk_replies idsOk_sender idsOk_handler idsOk_manager)

text \<open>The hash table answers an update with the identifier and the operation it was sent.\<close>

lemma response_word_ids:
  "(rng 0 0 (htUpdateResp2axiu (updateResp (axiu2htUpdateReq w) success)) :: 1 word) = rng 0 0 w"
  "(rng 80 65 (htUpdateResp2axiu (updateResp (axiu2htUpdateReq w) success)) :: 16 word) = rng 80 65 w"
  using word1_cases [of "rng 0 0 w"]
  by (auto simp: htUpdateResp2axiu_def updateResp_def axiu2htUpdateReq_def rng_simps)

lemma update_response:
  "snd (ht_insert tab q k) = updateResp q (fst (snd (snd (insertLoop tab MAX_TRIALS 0 (ht_victimBit k) (ht_tables k) (newEntry q)))))"
  "snd (ht_remove tab q k) = updateResp q (snd (fold (removeSlot tab (hu_key q)) [0..<NUM_TABLES] (ht_tables k, False)))"
  by (auto simp: ht_insert_def ht_remove_def split: prod.splits)

lemma hash_update_streams:
  assumes "ht_lupReq k = []" and "ht_updReq k = w # ws"
  shows "\<exists>success. ht_updReq (hash_table tab junk k) = ws \<and> ht_lupReq (hash_table tab junk k) = [] \<and>
    ht_lupRsp (hash_table tab junk k) = ht_lupRsp k \<and>
    ht_updRsp (hash_table tab junk k) = ht_updRsp k @ [htUpdateResp2axiu (updateResp (axiu2htUpdateReq w) success)]"
proof (cases "hu_op (axiu2htUpdateReq w) = KV_INSERT")
  case True
  with assms show ?thesis
    by (auto simp: hash_table_def s_write_def ht_insert_def Let_def split: prod.splits)
next
  case False
  with assms show ?thesis
    by (auto simp: hash_table_def s_write_def ht_remove_def Let_def split: prod.splits)
qed

lemma hash_lookup_streams:
  assumes "ht_lupReq k = w # ws"
  shows "hash_table tab junk k = k\<lparr>ht_lupReq := ws,
    ht_lupRsp := ht_lupRsp k @ [htLookupResp2axiu (ht_lookup tab junk (ht_tables k) (axiu2htLookupReq w))]\<rparr>"
  using assms by (simp add: hash_table_def s_write_def)

lemma hash_idle: "ht_lupReq k = [] \<Longrightarrow> ht_updReq k = [] \<Longrightarrow> hash_table tab junk k = k"
  by (simp add: hash_table_def)

lemma idsOk_hash:
  assumes "idsOk k"
  shows "idsOk (hashCall tab junk k)"
proof -
  let ?h = "(sl_hash k)\<lparr>ht_lupReq := sl_lookupReq k, ht_updReq := sl_updateReq k,
                ht_lupRsp := sl_lookupRsp k, ht_updRsp := sl_updateRsp k\<rparr>"
  have "mset (insertIds (ht_updReq (hash_table tab junk ?h))) + mset (insertIds (ht_updRsp (hash_table tab junk ?h))) =
      mset (insertIds (sl_updateReq k)) + mset (insertIds (sl_updateRsp k))"
  proof (cases "sl_lookupReq k")
    case (Cons w ws)
    then show ?thesis by (simp add: hash_table_def s_write_def)
  next
    case Nil
    show ?thesis
    proof (cases "sl_updateReq k")
      case (Cons w ws)
      with hash_update_streams [of ?h w ws tab junk] Nil show ?thesis by (auto simp: response_word_ids)
    next
      case empty: Nil
      with Nil show ?thesis by (simp add: hash_idle)
    qed
  qed
  then have "mset (idPlaces (hashCall tab junk k)) = mset (idPlaces k)"
    by (simp add: hashCall_def idPlaces_def Let_def)
  then show ?thesis
    by (rule idsOk_cong [OF assms]) (use assms in \<open>simp_all add: hashCall_def idsOk_def Let_def\<close>)
qed

text \<open>The neighbours: requests and releases come in, answers are taken away, and the hash table runs.\<close>

definition sessionMoves :: "tabulation \<Rightarrow> sessionLookup \<Rightarrow> sessionLookup \<Rightarrow> bool" where
  "sessionMoves tab s t \<longleftrightarrow> (\<exists>junk. t = hashCall tab junk s) \<or>
     (\<exists>a b c d e f g h. t = s\<lparr>sl_rxReq := a, sl_txAppReq := b, sl_releaseSession := c, sl_revReq := d, sl_rxRsp := e,
        sl_txAppRsp := f, sl_releasePort := g, sl_revRsp := h\<rparr>)"

definition sessionLookupReset :: sessionLookup where
  "sessionLookupReset =
     \<lparr>sl_counter = 0, sl_freeList = [], sl_finFifo = [], sl_fsmState = LUP_REQ, sl_insertTuples = [],
      sl_queryCache = [], sl_insertRsp = [], sl_insertReq = [], sl_deleteReq = [], sl_revInsert = [],
      sl_usedSessionIDs = 0, sl_currEstab = 0,
      sl_reverseTable = (\<lambda>i. \<lparr>tt_theirIp = 0, tt_myPort = 0, tt_theirPort = 0\<rparr>), sl_tupleValid = (\<lambda>i. False),
      sl_rxReq = [], sl_txAppReq = [], sl_releaseSession = [], sl_revReq = [], sl_rxRsp = [], sl_txAppRsp = [],
      sl_releasePort = [], sl_revRsp = [], sl_lookupReq = [], sl_lookupRsp = [], sl_updateReq = [], sl_updateRsp = [],
      sl_hash = sampleTable 0\<rparr>"

lemma idsOk_reach:
  assumes "reaches (session_lookup_controller ip) (sessionMoves tab) sessionLookupReset k"
  shows "idsOk k"
proof -
  have init: "idsOk sessionLookupReset"
    by (simp add: idsOk_def sessionLookupReset_def idPlaces_def openIds_def knownIds_def)
  have env: "idsOk t" if ok: "idsOk s" and m: "sessionMoves tab s t" for s t
    using m unfolding sessionMoves_def
  proof (elim disjE exE)
    fix junk assume "t = hashCall tab junk s"
    with idsOk_hash [OF ok] show ?thesis by simp
  next
    fix a b c d e f g h
    assume "t = s\<lparr>sl_rxReq := a, sl_txAppReq := b, sl_releaseSession := c, sl_revReq := d, sl_rxRsp := e,
        sl_txAppRsp := f, sl_releasePort := g, sl_revRsp := h\<rparr>"
    with ok show ?thesis by (simp add: idsOk_def idPlaces_def openIds_def knownIds_def)
  qed
  show ?thesis by (rule reaches_inv [where inv = idsOk, OF assms init idsOk_controller env])
qed

text \<open>C25: In every reachable state each identifier that has been put into circulation is at exactly one place: free, in
  the course of an insertion or a removal, or open, and there never are more than 32.  So two connections never
  have the same identifier, and none is lost.\<close>

theorem session_ids_unique:
  assumes "reaches (session_lookup_controller ip) (sessionMoves tab) sessionLookupReset k"
  shows "distinct (idPlaces k) \<and> (\<forall>i. sl_tupleValid k i \<longrightarrow> i \<notin> set (idPlaces k)) \<and>
    (\<forall>i. i \<in> set (idPlaces k) \<or> sl_tupleValid k i \<longleftrightarrow> unat i < unat (sl_counter k)) \<and> unat (sl_counter k) \<le> 32"
proof -
  note ok = idsOk_reach [OF assms]
  have c: "count (mset (idPlaces k)) i + (if sl_tupleValid k i then 1 else 0) =
      (if unat i < unat (sl_counter k) then 1 else 0)" for i
    using ids_count [OF ok, of i] by (simp add: openIds_def knownIds_def)
  have one: "count (mset (idPlaces k)) i = (if i \<in> set (idPlaces k) then 1 else 0)" for i
    using c [of i] by (auto simp: count_eq_zero_iff split: if_splits)
  then have "distinct (idPlaces k)" by (simp add: distinct_count_atmost_1)
  moreover have "(i \<in> set (idPlaces k) \<or> sl_tupleValid k i \<longleftrightarrow> unat i < unat (sl_counter k)) \<and>
      (sl_tupleValid k i \<longrightarrow> i \<notin> set (idPlaces k))" for i
    using c [of i] unfolding one by (simp split: if_splits)
  moreover have "unat (sl_counter k) \<le> 32" using ok by (simp add: idsOk_def MAX_SESSIONS_def)
  ultimately show ?thesis by blast
qed

section \<open>Agreement of the tables\<close>

text \<open>Keys and identifiers on an update stream, and those of the requests on their way: insertions before and
  after the hash table has made them, sessions waiting to be opened, and removals.\<close>

definition insertsOf :: "128 word list \<Rightarrow> (64 word \<times> 16 word) list" where
  "insertsOf ws = map (\<lambda>w. (rng 64 1 w, rng 80 65 w)) (filter (\<lambda>w. (rng 0 0 w :: 1 word) = 0) ws)"
definition deletesOf :: "128 word list \<Rightarrow> (64 word \<times> 16 word) list" where
  "deletesOf ws = map (\<lambda>w. (rng 64 1 w, rng 80 65 w)) (filter (\<lambda>w. (rng 0 0 w :: 1 word) \<noteq> 0) ws)"
definition updatePair :: "rtlSessionUpdateRequest \<Rightarrow> 64 word \<times> 16 word" where
  "updatePair r = (keyWord (rr_key r), rr_value r)"

definition beforeInsert :: "sessionLookup \<Rightarrow> (64 word \<times> 16 word) list" where
  "beforeInsert k = map updatePair (sl_insertReq k) @ insertsOf (sl_updateReq k)"
definition afterInsert :: "sessionLookup \<Rightarrow> (64 word \<times> 16 word) list" where
  "afterInsert k = insertsOf (sl_updateRsp k) @ map (\<lambda>r. (keyWord (sr_key r), sr_sessionID r)) (sl_insertRsp k)"
definition openingPairs :: "sessionLookup \<Rightarrow> (64 word \<times> 16 word) list" where
  "openingPairs k = map (\<lambda>r. (keyWord (ri_value r), ri_key r)) (sl_revInsert k)"
definition closingPairs :: "sessionLookup \<Rightarrow> (64 word \<times> 16 word) list" where
  "closingPairs k = map updatePair (sl_deleteReq k) @ deletesOf (sl_updateReq k)"
definition openPairs :: "sessionLookup \<Rightarrow> (64 word \<times> 16 word) set" where
  "openPairs k = (\<lambda>i. (keyWord (sl_reverseTable k i), i)) ` openIds k"
definition tableMap :: "tabulation \<Rightarrow> sessionLookup \<Rightarrow> 64 word \<rightharpoonup> 16 word" where
  "tableMap tab k = contents tab (ht_tables (sl_hash k))"

text \<open>The hash table has exactly the bindings of the sessions that are open, about to be, or about to be removed,
  each of them once.\<close>

definition tablesAgree :: "tabulation \<Rightarrow> sessionLookup \<Rightarrow> bool" where
  "tablesAgree tab k \<longleftrightarrow> tableOk tab (ht_tables (sl_hash k)) \<and>
     mset (afterInsert k @ openingPairs k @ closingPairs k) + mset_set (openPairs k) = mset_set (Map.graph (tableMap tab k))"

text \<open>The state machine has one lookup or one insertion under way; a key is inserted only while it is not in the
  table.\<close>

definition noInsert :: "sessionLookup \<Rightarrow> bool" where
  "noInsert k \<longleftrightarrow> beforeInsert k = [] \<and> afterInsert k = [] \<and> sl_insertTuples k = []"
definition noQuery :: "sessionLookup \<Rightarrow> bool" where
  "noQuery k \<longleftrightarrow> sl_queryCache k = [] \<and> sl_lookupReq k = [] \<and> sl_lookupRsp k = []"
definition oneQuery :: "tabulation \<Rightarrow> sessionLookup \<Rightarrow> bool" where
  "oneQuery tab k \<longleftrightarrow> (\<exists>q. sl_queryCache k = [q] \<and>
     (sl_lookupReq k = [rtlSessionLookupRequest2axiu (qi_tuple q) (qi_source q)] \<and> sl_lookupRsp k = [] \<or>
      sl_lookupReq k = [] \<and> (\<exists>w. sl_lookupRsp k = [w] \<and>
        (rl_hit (axiu2rtlSessionLookupReply w) \<or> tableMap tab k (keyWord (qi_tuple q)) = None))))"
definition oneInsert :: "tabulation \<Rightarrow> sessionLookup \<Rightarrow> bool" where
  "oneInsert tab k \<longleftrightarrow> (\<exists>t i. sl_insertTuples k = [t] \<and> beforeInsert k @ afterInsert k = [(keyWord t, i)] \<and>
     (beforeInsert k \<noteq> [] \<longrightarrow> tableMap tab k (keyWord t) = None))"

definition phaseOk :: "tabulation \<Rightarrow> sessionLookup \<Rightarrow> bool" where
  "phaseOk tab k \<longleftrightarrow> (case sl_fsmState k of
     LUP_REQ \<Rightarrow> noInsert k \<and> noQuery k
   | LUP_RSP \<Rightarrow> noInsert k \<and> oneQuery tab k
   | UPD_RSP \<Rightarrow> oneInsert tab k \<and> noQuery k)"

definition sessionsOk :: "tabulation \<Rightarrow> sessionLookup \<Rightarrow> bool" where
  "sessionsOk tab k \<longleftrightarrow> idsOk k \<and> tablesAgree tab k \<and> phaseOk tab k"

lemma pairsOf_simps [simp]:
  "insertsOf [] = []" "deletesOf [] = []"
  "insertsOf (w # ws) = (if (rng 0 0 w :: 1 word) = 0 then [(rng 64 1 w, rng 80 65 w)] else []) @ insertsOf ws"
  "deletesOf (w # ws) = (if (rng 0 0 w :: 1 word) = 0 then [] else [(rng 64 1 w, rng 80 65 w)]) @ deletesOf ws"
  "insertsOf (us @ ws) = insertsOf us @ insertsOf ws"
  "deletesOf (us @ ws) = deletesOf us @ deletesOf ws"
  by (simp_all add: insertsOf_def deletesOf_def)

lemma update_word_key: "(rng 64 1 (rtlSessionUpdateRequest2axiu r) :: 64 word) = keyWord (rr_key r)"
  using arg_cong [OF update_request_word [of r], of hu_key] by (simp add: axiu2htUpdateReq_def)

lemmas update_key = update_word_key [unfolded One_nat_def]

lemmas streamPairs = beforeInsert_def afterInsert_def openingPairs_def closingPairs_def

lemma tablesAgree_cong:
  assumes "tablesAgree tab k" and "sl_hash t = sl_hash k" and "sl_tupleValid t = sl_tupleValid k"
    and "sl_reverseTable t = sl_reverseTable k"
    and "mset (afterInsert t @ openingPairs t @ closingPairs t) = mset (afterInsert k @ openingPairs k @ closingPairs k)"
  shows "tablesAgree tab t"
  using assms by (simp add: tablesAgree_def openPairs_def openIds_def tableMap_def)

lemma sessions_manager: "sessionsOk tab k \<Longrightarrow> sessionsOk tab (sessionIdManager k)"
  using idsOk_manager [of k]
  by (auto simp: sessionsOk_def sessionIdManager_def tablesAgree_def openPairs_def openIds_def tableMap_def streamPairs
      phaseOk_def noInsert_def noQuery_def oneQuery_def oneInsert_def split: slcState.splits)

lemma sessions_request:
  assumes "sessionsOk tab k" and "sl_fsmState k = LUP_REQ"
  shows "tablesAgree tab (slcRequest k) \<and> phaseOk tab (slcRequest k)"
proof -
  have sent: "tablesAgree tab (sendLookup q k') \<and> phaseOk tab (sendLookup q k')"
    if "k' = k\<lparr>sl_txAppReq := a\<rparr> \<or> k' = k\<lparr>sl_rxReq := b\<rparr>" for q k' a b
    using assms that
    by (auto simp: sendLookup_def sessionsOk_def tablesAgree_def openPairs_def openIds_def tableMap_def streamPairs
        phaseOk_def noInsert_def noQuery_def oneQuery_def s_write_def)
  show ?thesis
    using assms(1) unfolding slcRequest_def Let_def
    by (simp add: sessionsOk_def sent [OF disjI1 [OF refl]] sent [OF disjI2 [OF refl]])
qed

lemma sendReply_same:
  "sl_hash (sendReply s i hit k) = sl_hash k" "sl_reverseTable (sendReply s i hit k) = sl_reverseTable k"
  "beforeInsert (sendReply s i hit k) = beforeInsert k" "afterInsert (sendReply s i hit k) = afterInsert k"
  "openingPairs (sendReply s i hit k) = openingPairs k" "closingPairs (sendReply s i hit k) = closingPairs k"
  "sl_insertTuples (sendReply s i hit k) = sl_insertTuples k" "sl_queryCache (sendReply s i hit k) = sl_queryCache k"
  "sl_lookupReq (sendReply s i hit k) = sl_lookupReq k" "sl_lookupRsp (sendReply s i hit k) = sl_lookupRsp k"
  by (simp_all add: sendReply_def streamPairs)

lemma sessions_response:
  assumes "sessionsOk tab k" and "sl_fsmState k = LUP_RSP"
  shows "tablesAgree tab (slcResponse k) \<and> phaseOk tab (slcResponse k)"
proof (cases "sl_lookupRsp k")
  case Nil
  with assms show ?thesis by (simp add: slcResponse_def sessionsOk_def)
next
  case (Cons w ws)
  have none: "noInsert k" using assms by (simp add: sessionsOk_def phaseOk_def)
  obtain q where q: "sl_queryCache k = [q]" "sl_lookupReq k = []" "ws = []"
    "rl_hit (axiu2rtlSessionLookupReply w) \<or> tableMap tab k (keyWord (qi_tuple q)) = None"
    using assms Cons by (auto simp: sessionsOk_def phaseOk_def oneQuery_def)
  let ?k = "k\<lparr>sl_lookupRsp := [], sl_queryCache := []\<rparr>" and ?r = "axiu2rtlSessionLookupReply w"
  have ta: "tablesAgree tab k" using assms(1) by (simp add: sessionsOk_def)
  show ?thesis
  proof (cases "\<not> rl_hit ?r \<and> qi_allowCreation q \<and> sl_freeList k \<noteq> []")
    case True
    let ?t = "?k\<lparr>sl_freeList := s_rest (sl_freeList k), sl_insertReq := s_write (sl_insertReq k)
      \<lparr>rr_op = INSERT, rr_key = qi_tuple q, rr_value = ucast (s_head (sl_freeList k)), rr_source = rl_source ?r\<rparr>,
      sl_insertTuples := s_write (sl_insertTuples k) (qi_tuple q), sl_fsmState := UPD_RSP\<rparr>"
    have t: "slcResponse k = ?t"
      using Cons q True by (simp add: slcResponse_def s_empty_def s_rest_def s_head_def Let_def)
    have "tablesAgree tab ?t" by (rule tablesAgree_cong [OF ta]) (simp_all add: streamPairs)
    moreover have "phaseOk tab ?t"
      using none q True
      by (simp add: phaseOk_def oneInsert_def noQuery_def noInsert_def streamPairs updatePair_def s_write_def tableMap_def)
    ultimately show ?thesis by (simp only: t)
  next
    case False
    let ?t = "(sendReply (rl_source ?r) (rl_sessionID ?r) (rl_hit ?r) ?k)\<lparr>sl_fsmState := LUP_REQ\<rparr>"
    have t: "slcResponse k = ?t"
      using Cons q False by (auto simp: slcResponse_def s_empty_def s_rest_def s_head_def Let_def)
    have same: "beforeInsert ?t = beforeInsert k" "afterInsert ?t = afterInsert k" "openingPairs ?t = openingPairs k"
      "closingPairs ?t = closingPairs k"
      by (simp_all add: sendReply_def streamPairs)
    have "tablesAgree tab ?t"
      by (rule tablesAgree_cong [OF ta]) (simp_all add: same sendReply_same idsOk_sendReply)
    moreover have "phaseOk tab ?t"
      using none q by (simp add: phaseOk_def noQuery_def noInsert_def same sendReply_same)
    ultimately show ?thesis by (simp only: t)
  qed
qed

lemma insert_reply:
  assumes "oneInsert tab k" and "sl_insertRsp k = r # rs"
  shows "rs = [] \<and> beforeInsert k = [] \<and> insertsOf (sl_updateRsp k) = [] \<and>
    (\<exists>t. sl_insertTuples k = [t] \<and> keyWord (sr_key r) = keyWord t)"
  using assms by (auto simp: oneInsert_def afterInsert_def append_eq_Cons_conv)

lemma sessions_updated:
  assumes "sessionsOk tab k" and "sl_fsmState k = UPD_RSP"
  shows "tablesAgree tab (slcUpdated k) \<and> phaseOk tab (slcUpdated k)"
proof (cases "sl_insertRsp k")
  case Nil
  with assms show ?thesis by (simp add: slcUpdated_def sessionsOk_def)
next
  case (Cons r rs)
  have ta: "tablesAgree tab k" and one: "oneInsert tab k" and quiet: "noQuery k"
    using assms by (simp_all add: sessionsOk_def phaseOk_def)
  obtain t where t: "rs = []" "beforeInsert k = []" "insertsOf (sl_updateRsp k) = []" "sl_insertTuples k = [t]"
    "keyWord (sr_key r) = keyWord t"
    using insert_reply [OF one Cons] by blast
  let ?k = "k\<lparr>sl_insertRsp := [], sl_insertTuples := []\<rparr>"
  let ?t = "(sendReply (sr_source r) (sr_sessionID r) True ?k)\<lparr>sl_revInsert := s_write (sl_revInsert k)
    \<lparr>ri_key = sr_sessionID r, ri_value = t\<rparr>, sl_fsmState := LUP_REQ\<rparr>"
  have step: "slcUpdated k = ?t"
    using Cons t by (simp add: slcUpdated_def s_empty_def s_head_def s_rest_def sendReply_def Let_def)
  have pairs: "beforeInsert ?t = []" "afterInsert ?t = []" "openingPairs ?t = openingPairs k @ [(keyWord t, sr_sessionID r)]"
    "closingPairs ?t = closingPairs k"
    using t by (simp_all add: sendReply_def streamPairs s_write_def)
  have "afterInsert k = [(keyWord t, sr_sessionID r)]" using Cons t by (simp add: streamPairs)
  then have "tablesAgree tab ?t"
    by (intro tablesAgree_cong [OF ta]) (simp_all add: pairs sendReply_same idsOk_sendReply)
  moreover have "phaseOk tab ?t"
    using quiet by (simp add: phaseOk_def noInsert_def noQuery_def pairs sendReply_same)
  ultimately show ?thesis by (simp only: step)
qed

lemma sessions_handler: "sessionsOk tab k \<Longrightarrow> sessionsOk tab (lookupReplyHandler k)"
  using idsOk_handler [of k] sessions_request [of tab k] sessions_response [of tab k] sessions_updated [of tab k]
  by (cases "sl_fsmState k") (simp_all add: sessionsOk_def lookupReplyHandler_def)

text \<open>What a function changes on the update streams only.\<close>

lemma phaseOk_cong:
  assumes "phaseOk tab k" and "sl_fsmState t = sl_fsmState k" and "sl_hash t = sl_hash k"
    and "sl_insertTuples t = sl_insertTuples k" and "noQuery t = noQuery k" and "oneQuery tab t = oneQuery tab k"
    and "beforeInsert t = beforeInsert k" and "afterInsert t = afterInsert k"
  shows "phaseOk tab t"
  using assms by (simp add: phaseOk_def noInsert_def oneInsert_def tableMap_def split: slcState.splits)

lemma inserts_one: "phaseOk tab k \<Longrightarrow> length (beforeInsert k) + length (afterInsert k) \<le> 1"
proof -
  have "length (beforeInsert k) + length (afterInsert k) = 1" if one: "oneInsert tab k"
  proof -
    obtain t i where "beforeInsert k @ afterInsert k = [(keyWord t, i)]" using one unfolding oneInsert_def by blast
    from arg_cong [where f = length, OF this] show ?thesis by simp
  qed
  then show "phaseOk tab k \<Longrightarrow> length (beforeInsert k) + length (afterInsert k) \<le> 1"
    by (auto simp: phaseOk_def noInsert_def split: slcState.splits)
qed

lemma sessions_sender:
  assumes "sessionsOk tab k"
  shows "sessionsOk tab (updateRequestSender k)"
proof -
  have ta: "tablesAgree tab k" and ph: "phaseOk tab k" using assms by (simp_all add: sessionsOk_def)
  have ops: "\<forall>r\<in>set (sl_insertReq k). rr_op r = INSERT" "\<forall>r\<in>set (sl_deleteReq k). rr_op r = DELETE"
    using assms by (simp_all add: sessionsOk_def idsOk_def)
  have same: "sl_fsmState (updateRequestSender k) = sl_fsmState k" "sl_hash (updateRequestSender k) = sl_hash k"
    "sl_insertTuples (updateRequestSender k) = sl_insertTuples k" "sl_tupleValid (updateRequestSender k) = sl_tupleValid k"
    "sl_reverseTable (updateRequestSender k) = sl_reverseTable k" "openingPairs (updateRequestSender k) = openingPairs k"
    "afterInsert (updateRequestSender k) = afterInsert k" "noQuery (updateRequestSender k) = noQuery k"
    "oneQuery tab (updateRequestSender k) = oneQuery tab k"
    by (simp_all add: updateRequestSender_def noQuery_def oneQuery_def tableMap_def streamPairs Let_def)
  have "beforeInsert (updateRequestSender k) = beforeInsert k \<and>
      mset (closingPairs (updateRequestSender k)) = mset (closingPairs k)"
  proof (cases "sl_insertReq k")
    case (Cons r rs)
    then have "rs = []" "insertsOf (sl_updateReq k) = []" using inserts_one [OF ph] by (simp_all add: streamPairs)
    with Cons ops show ?thesis
      by (simp add: updateRequestSender_def streamPairs updatePair_def s_write_def update_word_ids update_key Let_def)
  next
    case Nil
    show ?thesis
    proof (cases "sl_deleteReq k")
      case (Cons r rs)
      with Nil ops show ?thesis
        by (simp add: updateRequestSender_def streamPairs updatePair_def s_write_def update_word_ids update_key Let_def)
    qed (use Nil in \<open>simp add: updateRequestSender_def streamPairs\<close>)
  qed
  then have "tablesAgree tab (updateRequestSender k)" and "phaseOk tab (updateRequestSender k)"
    using tablesAgree_cong [OF ta, of "updateRequestSender k"] phaseOk_cong [OF ph, of "updateRequestSender k"] same
    by simp_all
  then show ?thesis using idsOk_sender assms by (simp add: sessionsOk_def)
qed

lemma sessions_replies:
  assumes "sessionsOk tab k"
  shows "sessionsOk tab (updateReplyHandler k)"
proof -
  have ta: "tablesAgree tab k" and ph: "phaseOk tab k" using assms by (simp_all add: sessionsOk_def)
  have same: "sl_fsmState (updateReplyHandler k) = sl_fsmState k" "sl_hash (updateReplyHandler k) = sl_hash k"
    "sl_insertTuples (updateReplyHandler k) = sl_insertTuples k" "sl_tupleValid (updateReplyHandler k) = sl_tupleValid k"
    "sl_reverseTable (updateReplyHandler k) = sl_reverseTable k" "openingPairs (updateReplyHandler k) = openingPairs k"
    "closingPairs (updateReplyHandler k) = closingPairs k"
    "beforeInsert (updateReplyHandler k) = beforeInsert k" "noQuery (updateReplyHandler k) = noQuery k"
    "oneQuery tab (updateReplyHandler k) = oneQuery tab k"
    by (simp_all add: updateReplyHandler_def noQuery_def oneQuery_def tableMap_def streamPairs Let_def)
  have "afterInsert (updateReplyHandler k) = afterInsert k"
  proof (cases "sl_updateRsp k")
    case (Cons w ws)
    have key: "keyWord \<lparr>tt_theirIp = rng 32 1 w, tt_myPort = rng 48 33 w, tt_theirPort = rng 64 49 w\<rparr> = rng 64 1 w"
      by (rule bit_word_eqI) (auto simp: keyWord_def bit_simps)
    show ?thesis
    proof (cases "(rng 0 0 w :: 1 word) = 0")
      case True
      with Cons inserts_one [OF ph] have "insertsOf ws = []" "sl_insertRsp k = []" by (simp_all add: streamPairs)
      with True Cons key show ?thesis
        by (simp add: updateReplyHandler_def streamPairs s_write_def axiu2rtlSessionUpdateReply_def Let_def)
    next
      case False
      with Cons show ?thesis
        by (simp add: updateReplyHandler_def streamPairs axiu2rtlSessionUpdateReply_def Let_def)
    qed
  qed (simp add: updateReplyHandler_def)
  then have "tablesAgree tab (updateReplyHandler k)" and "phaseOk tab (updateReplyHandler k)"
    using tablesAgree_cong [OF ta, of "updateReplyHandler k"] phaseOk_cong [OF ph, of "updateReplyHandler k"] same
    by simp_all
  then show ?thesis using idsOk_replies assms by (simp add: sessionsOk_def)
qed

lemma sessions_reverse:
  assumes "sessionsOk tab k" and "reverseLookupTableInterface ip k = Some t"
  shows "sessionsOk tab t"
proof -
  have ids: "idsOk k" and ta: "tablesAgree tab k" and ph: "phaseOk tab k"
    using assms(1) by (simp_all add: sessionsOk_def)
  have "sl_fsmState t = sl_fsmState k \<and> sl_hash t = sl_hash k \<and> sl_insertTuples t = sl_insertTuples k \<and>
      noQuery t = noQuery k \<and> oneQuery tab t = oneQuery tab k \<and> beforeInsert t = beforeInsert k \<and>
      afterInsert t = afterInsert k"
    using assms(2)
    by (auto simp: reverseLookupTableInterface_def noQuery_def oneQuery_def tableMap_def streamPairs Let_def
        split: if_splits)
  then have phase: "phaseOk tab t" and same: "sl_hash t = sl_hash k" "afterInsert t = afterInsert k"
    by (simp_all add: phaseOk_cong [OF ph])
  have "mset (openingPairs t @ closingPairs t) + mset_set (openPairs t) =
      mset (openingPairs k @ closingPairs k) + mset_set (openPairs k)"
  proof (cases "sl_revInsert k")
    case (Cons r rs)
    have "0 < count (mset (idPlaces k)) (ri_key r)" by (simp add: idPlaces_def Cons)
    with ids_count [OF ids, of "ri_key r"] have new: "ri_key r \<notin> openIds k" by (auto split: if_splits)
    have t: "openIds t = insert (ri_key r) (openIds k)" "sl_reverseTable t = (sl_reverseTable k)(ri_key r := ri_value r)"
      "openingPairs k = (keyWord (ri_value r), ri_key r) # openingPairs t" "closingPairs t = closingPairs k"
      using assms(2) Cons
      by (auto simp: reverseLookupTableInterface_def openIds_def streamPairs Let_def split: if_splits)
    have "openPairs t = insert (keyWord (ri_value r), ri_key r) (openPairs k)"
      using new unfolding openPairs_def t by (auto simp: image_iff split: if_splits)
    moreover have "(keyWord (ri_value r), ri_key r) \<notin> openPairs k" using new by (auto simp: openPairs_def)
    ultimately show ?thesis by (simp add: t)
  next
    case Nil
    show ?thesis
    proof (cases "sl_releaseSession k = [] \<or> \<not> sl_tupleValid k (s_head (sl_releaseSession k))")
      case True
      then have "t = k \<or> (\<exists>a i. t = k\<lparr>sl_releaseSession := a, sl_tupleValid := (sl_tupleValid k)(i := False)\<rparr> \<and> \<not> sl_tupleValid k i) \<or>
          (\<exists>a b. t = k\<lparr>sl_revReq := a, sl_revRsp := b\<rparr>)"
        using assms(2) Nil by (auto simp: reverseLookupTableInterface_def Let_def split: if_splits)
      then have "sl_tupleValid t = sl_tupleValid k \<and> sl_reverseTable t = sl_reverseTable k \<and>
          openingPairs t = openingPairs k \<and> closingPairs t = closingPairs k"
        by (auto simp: streamPairs fun_eq_iff split: if_splits)
      then show ?thesis by (simp add: openPairs_def openIds_def)
    next
      case False
      let ?i = "s_head (sl_releaseSession k)"
      obtain p where t: "t = k\<lparr>sl_releaseSession := s_rest (sl_releaseSession k),
          sl_tupleValid := (sl_tupleValid k)(?i := False), sl_releasePort := p,
          sl_deleteReq := sl_deleteReq k @ [\<lparr>rr_op = DELETE, rr_key = sl_reverseTable k ?i, rr_value = ?i, rr_source = RX\<rparr>]\<rparr>"
        using assms(2) False Nil by (auto simp: reverseLookupTableInterface_def s_write_def s_empty_def Let_def split: if_splits)
      let ?p = "(keyWord (sl_reverseTable k ?i), ?i)"
      have "openIds k = insert ?i (openIds t)" "?i \<notin> openIds t" "sl_reverseTable t = sl_reverseTable k"
        using False by (auto simp: t openIds_def)
      then have "openPairs k = insert ?p (openPairs t)" "?p \<notin> openPairs t" by (auto simp: openPairs_def)
      moreover have "mset (openingPairs t @ closingPairs t) = add_mset ?p (mset (openingPairs k @ closingPairs k))"
        by (simp add: t streamPairs updatePair_def)
      ultimately show ?thesis by simp
    qed
  qed
  then have "tablesAgree tab t" using ta same by (simp add: tablesAgree_def tableMap_def add.assoc)
  with phase idsOk_reverse [OF ids assms(2)] show ?thesis by (simp add: sessionsOk_def)
qed

lemma sessions_controller: "sessionsOk tab k \<Longrightarrow> session_lookup_controller ip k = Some t \<Longrightarrow> sessionsOk tab t"
  unfolding session_lookup_controller_def
  by (erule sessions_reverse [rotated])
    (intro sessions_replies sessions_sender sessions_handler sessions_manager)

text \<open>One call of the hash table.\<close>

lemma response_word_key:
  "(rng 64 1 (htUpdateResp2axiu (updateResp (axiu2htUpdateReq w) success)) :: 64 word) = rng 64 1 w"
  by (simp add: htUpdateResp2axiu_def updateResp_def axiu2htUpdateReq_def rng_simps)

lemmas response_word = response_word_ids response_word_key response_word_key [unfolded One_nat_def]

lemma update_word_op: "(hu_op (axiu2htUpdateReq w) = KV_INSERT) = ((rng 0 0 w :: 1 word) = 0)"
  by (simp add: axiu2htUpdateReq_def)

lemma hash_insert_word:
  assumes "tableOk tab (ht_tables h)" and "ht_lupReq h = []" and "ht_updReq h = w # ws"
    and "(rng 0 0 w :: 1 word) = 0" and "contents tab (ht_tables h) (rng 64 1 w) = None"
    and "ht_failureCounter (hash_table tab junk h) = ht_failureCounter h"
  shows "tableOk tab (ht_tables (hash_table tab junk h)) \<and> contents tab (ht_tables (hash_table tab junk h)) =
    (contents tab (ht_tables h))(rng 64 1 w \<mapsto> rng 80 65 w)"
proof -
  define q where "q = axiu2htUpdateReq w"
  have q: "hu_op q = KV_INSERT" "hu_key q = rng 64 1 w" "hu_value q = rng 80 65 w"
    using assms(4) by (simp_all add: q_def axiu2htUpdateReq_def)
  obtain k' r where i: "ht_insert tab q (h\<lparr>ht_updReq := ws\<rparr>) = (k', r)" by fastforce
  have step: "ht_tables (hash_table tab junk h) = ht_tables k'"
    "ht_failureCounter (hash_table tab junk h) = ht_failureCounter k'"
    using assms(2,3) i q(1) by (simp_all add: hash_table_def Let_def flip: q_def)
  have "ht_failureCounter k' = (if hp_success r then ht_failureCounter h else ht_failureCounter h + 1)"
    using i by (auto simp: ht_insert_def updateResp_def split: prod.splits)
  then have "hp_success r" using assms(6) step(2) by (simp split: if_splits)
  moreover have "tableOk tab (ht_tables (h\<lparr>ht_updReq := ws\<rparr>))"
    "contents tab (ht_tables (h\<lparr>ht_updReq := ws\<rparr>)) (hu_key q) = None"
    using assms(1,5) q(2) by simp_all
  note hash_insert_map [OF this i]
  ultimately have "tableOk tab (ht_tables k')"
    "contents tab (ht_tables k') = (contents tab (ht_tables (h\<lparr>ht_updReq := ws\<rparr>)))(hu_key q \<mapsto> hu_value q)"
    by (auto simp: restrict_map_def)
  then show ?thesis by (simp only: step q) simp
qed

lemma hash_delete_word:
  assumes "tableOk tab (ht_tables h)" and "ht_lupReq h = []" and "ht_updReq h = w # ws"
    and "(rng 0 0 w :: 1 word) \<noteq> 0"
  shows "tableOk tab (ht_tables (hash_table tab junk h)) \<and>
    contents tab (ht_tables (hash_table tab junk h)) = (contents tab (ht_tables h))(rng 64 1 w := None)"
proof -
  define q where "q = axiu2htUpdateReq w"
  have q: "hu_op q \<noteq> KV_INSERT" "hu_key q = rng 64 1 w" using assms(4) by (simp_all add: q_def axiu2htUpdateReq_def)
  obtain k' r where i: "ht_remove tab q (h\<lparr>ht_updReq := ws\<rparr>) = (k', r)" by fastforce
  have step: "ht_tables (hash_table tab junk h) = ht_tables k'"
    using assms(2,3) i q(1) by (simp add: hash_table_def Let_def flip: q_def)
  show ?thesis using hash_remove_refines [OF _ i] assms(1) unfolding step q(2) by simp
qed

lemma lookup_hit: "hr_hit (ht_lookup tab junk t q) = (contents tab t (hq_key q) \<noteq> None)"
  by (simp add: ht_lookup_def contents_def matches_def [abs_def] Let_def)

lemma lookup_value: "contents tab t (hq_key q) = Some v \<Longrightarrow> hr_value (ht_lookup tab junk t q) = v"
  by (auto simp: ht_lookup_def contents_def matches_def [abs_def] Let_def)

lemma lookup_answer: "axiu2rtlSessionLookupReply (htLookupResp2axiu (ht_lookup tab junk t
    (axiu2htLookupReq (rtlSessionLookupRequest2axiu key s)))) =
    \<lparr>rl_key = key, rl_sessionID = (case contents tab t (keyWord key) of Some v \<Rightarrow> v | None \<Rightarrow> junk),
     rl_hit = (contents tab t (keyWord key) \<noteq> None), rl_source = s\<rparr>"
proof -
  have "ht_lookup tab junk t \<lparr>hq_key = keyWord key, hq_source = sourceBit s\<rparr> =
      \<lparr>hr_key = keyWord key, hr_value = (case contents tab t (keyWord key) of Some v \<Rightarrow> v | None \<Rightarrow> junk),
       hr_hit = (contents tab t (keyWord key) \<noteq> None), hr_source = sourceBit s\<rparr>"
    by (auto simp: ht_lookup_def contents_def matches_def [abs_def] Let_def split: option.splits)
  then show ?thesis by (simp only: lookup_request_word lookup_reply_word)
qed

text \<open>The neighbours of a controller whose insertions all succeed.\<close>

definition roomyMoves :: "tabulation \<Rightarrow> sessionLookup \<Rightarrow> sessionLookup \<Rightarrow> bool" where
  "roomyMoves tab s t \<longleftrightarrow>
     sessionMoves tab s t \<and> ht_failureCounter (sl_hash t) = ht_failureCounter (sl_hash s)"

definition hashIn :: "sessionLookup \<Rightarrow> hashTable" where
  "hashIn k = (sl_hash k)\<lparr>ht_lupReq := sl_lookupReq k, ht_updReq := sl_updateReq k,
     ht_lupRsp := sl_lookupRsp k, ht_updRsp := sl_updateRsp k\<rparr>"

lemma hashCall_simps:
  "sl_hash (hashCall tab junk k) = hash_table tab junk (hashIn k)"
  "sl_lookupReq (hashCall tab junk k) = ht_lupReq (hash_table tab junk (hashIn k))"
  "sl_updateReq (hashCall tab junk k) = ht_updReq (hash_table tab junk (hashIn k))"
  "sl_lookupRsp (hashCall tab junk k) = ht_lupRsp (hash_table tab junk (hashIn k))"
  "sl_updateRsp (hashCall tab junk k) = ht_updRsp (hash_table tab junk (hashIn k))"
  "sl_fsmState (hashCall tab junk k) = sl_fsmState k" "sl_insertTuples (hashCall tab junk k) = sl_insertTuples k"
  "sl_queryCache (hashCall tab junk k) = sl_queryCache k" "sl_tupleValid (hashCall tab junk k) = sl_tupleValid k"
  "sl_reverseTable (hashCall tab junk k) = sl_reverseTable k" "sl_insertReq (hashCall tab junk k) = sl_insertReq k"
  "sl_deleteReq (hashCall tab junk k) = sl_deleteReq k" "sl_insertRsp (hashCall tab junk k) = sl_insertRsp k"
  "sl_revInsert (hashCall tab junk k) = sl_revInsert k"
  by (simp_all add: hashCall_def hashIn_def Let_def)

lemmas hashCall_same = hashCall_simps(6-14)

lemma sessions_lookup:
  assumes "sessionsOk tab k" and "sl_lookupReq k = w # ws"
  shows "tablesAgree tab (hashCall tab junk k) \<and> phaseOk tab (hashCall tab junk k)"
proof -
  have ta: "tablesAgree tab k" and ph: "phaseOk tab k" using assms(1) by (simp_all add: sessionsOk_def)
  have "sl_fsmState k = LUP_RSP" "noInsert k" "oneQuery tab k"
    using ph assms(2) by (auto simp: phaseOk_def noQuery_def split: slcState.splits)
  then obtain q where q: "sl_queryCache k = [q]" "w = rtlSessionLookupRequest2axiu (qi_tuple q) (qi_source q)"
    "ws = []" "sl_lookupRsp k = []"
    using assms(2) by (auto simp: oneQuery_def)
  let ?t = "hashCall tab junk k"
  define a where "a = htLookupResp2axiu (ht_lookup tab junk (ht_tables (sl_hash k)) (axiu2htLookupReq w))"
  have t: "ht_tables (sl_hash ?t) = ht_tables (sl_hash k)" "sl_lookupReq ?t = []" "sl_lookupRsp ?t = [a]"
    "sl_updateReq ?t = sl_updateReq k" "sl_updateRsp ?t = sl_updateRsp k"
    using assms(2) q by (simp_all add: hashCall_simps hashIn_def hash_lookup_streams a_def)
  have pairs: "beforeInsert ?t = beforeInsert k" "afterInsert ?t = afterInsert k" "openingPairs ?t = openingPairs k"
    "closingPairs ?t = closingPairs k" "openPairs ?t = openPairs k" "tableMap tab ?t = tableMap tab k"
    by (simp_all add: streamPairs openPairs_def openIds_def tableMap_def t hashCall_same)
  have "rl_hit (axiu2rtlSessionLookupReply a) \<or> tableMap tab k (keyWord (qi_tuple q)) = None"
    unfolding a_def q(2) lookup_answer by (auto simp: tableMap_def)
  then have "oneQuery tab ?t" using q(1) t by (simp add: oneQuery_def pairs hashCall_same)
  moreover have "noInsert ?t" using \<open>noInsert k\<close> by (simp add: noInsert_def pairs hashCall_same)
  moreover have "tablesAgree tab ?t" using ta by (simp add: tablesAgree_def pairs t)
  ultimately show ?thesis using \<open>sl_fsmState k = LUP_RSP\<close> by (simp add: phaseOk_def hashCall_same)
qed

lemma sessions_update:
  assumes "sessionsOk tab k" and "sl_lookupReq k = []" and "sl_updateReq k = w # ws"
    and quiet: "ht_failureCounter (sl_hash (hashCall tab junk k)) = ht_failureCounter (sl_hash k)"
  shows "tablesAgree tab (hashCall tab junk k) \<and> phaseOk tab (hashCall tab junk k)"
proof -
  have ta: "tablesAgree tab k" and ph: "phaseOk tab k" using assms(1) by (simp_all add: sessionsOk_def)
  let ?t = "hashCall tab junk k" and ?key = "rng 64 1 w :: 64 word" and ?id = "rng 80 65 w :: 16 word"
  have h: "ht_tables (hashIn k) = ht_tables (sl_hash k)" "ht_lupReq (hashIn k) = []" "ht_updReq (hashIn k) = w # ws"
    "ht_failureCounter (hashIn k) = ht_failureCounter (sl_hash k)"
    using assms(2,3) by (simp_all add: hashIn_def)
  obtain success where s: "ht_updReq (hash_table tab junk (hashIn k)) = ws" "ht_lupReq (hash_table tab junk (hashIn k)) = []"
    "ht_lupRsp (hash_table tab junk (hashIn k)) = ht_lupRsp (hashIn k)" "ht_updRsp (hash_table tab junk (hashIn k)) =
      ht_updRsp (hashIn k) @ [htUpdateResp2axiu (updateResp (axiu2htUpdateReq w) success)]"
    using hash_update_streams [OF h(2,3)] by blast
  define a where "a = htUpdateResp2axiu (updateResp (axiu2htUpdateReq w) success)"
  have a: "(rng 0 0 a :: 1 word) = rng 0 0 w" "(rng 64 1 a :: 64 word) = ?key" "(rng 80 65 a :: 16 word) = ?id"
    unfolding a_def by (rule response_word)+
  note a = a a(2) [unfolded One_nat_def]
  have t: "sl_lookupReq ?t = []" "sl_lookupRsp ?t = sl_lookupRsp k" "sl_updateReq ?t = ws"
    "sl_updateRsp ?t = sl_updateRsp k @ [a]"
    unfolding hashCall_simps s a_def by (simp_all add: hashIn_def)
  have ok: "tableOk tab (ht_tables (sl_hash k))" using ta by (simp add: tablesAgree_def)
  show ?thesis
  proof (cases "(rng 0 0 w :: 1 word) = 0")
    case True
    have "beforeInsert k \<noteq> []" using True assms(3) by (simp add: beforeInsert_def)
    then have upd: "sl_fsmState k = UPD_RSP" "oneInsert tab k" "noQuery k"
      using ph by (auto simp: phaseOk_def noInsert_def split: slcState.splits)
    then obtain u i where u: "sl_insertTuples k = [u]" "beforeInsert k @ afterInsert k = [(keyWord u, i)]"
      "tableMap tab k (keyWord u) = None"
      using \<open>beforeInsert k \<noteq> []\<close> unfolding oneInsert_def by blast
    have one: "sl_insertReq k = []" "insertsOf ws = []" "afterInsert k = []" "?key = keyWord u" "?id = i"
      using u(2) True assms(3) by (auto simp: beforeInsert_def Cons_eq_append_conv append_eq_Cons_conv)
    have free: "tableMap tab k ?key = None" using u(3) one(4) by simp
    have tab: "tableOk tab (ht_tables (sl_hash ?t))" "tableMap tab ?t = (tableMap tab k)(?key \<mapsto> ?id)"
      using hash_insert_word [of tab "hashIn k" w ws junk] ok h True free quiet
      by (simp_all add: tableMap_def hashCall_simps)
    have pairs: "beforeInsert ?t = []" "afterInsert ?t = [(?key, ?id)]" "openingPairs ?t = openingPairs k"
      "closingPairs ?t = closingPairs k" "openPairs ?t = openPairs k"
      using one True a assms(3)
      by (simp_all add: streamPairs openPairs_def openIds_def t hashCall_same)
    have "Map.graph (tableMap tab ?t) = insert (?key, ?id) (Map.graph (tableMap tab k))"
      "(?key, ?id) \<notin> Map.graph (tableMap tab k)"
      using free by (auto simp: tab(2) graph_map_upd in_graphD fun_upd_idem dest: in_graphD)
    then have "tablesAgree tab ?t" using ta tab(1) one(3) by (simp add: tablesAgree_def pairs)
    moreover have "phaseOk tab ?t"
      using upd(1,3) u(1) one(4)
      by (simp add: phaseOk_def oneInsert_def noQuery_def pairs t hashCall_same)
    ultimately show ?thesis by simp
  next
    case False
    have tab: "tableOk tab (ht_tables (sl_hash ?t))" "tableMap tab ?t = (tableMap tab k)(?key := None)"
      using hash_delete_word [of tab "hashIn k" w ws junk] ok h False
      by (simp_all add: tableMap_def hashCall_simps)
    have pairs: "beforeInsert ?t = beforeInsert k" "afterInsert ?t = afterInsert k" "openingPairs ?t = openingPairs k"
      "mset (closingPairs k) = add_mset (?key, ?id) (mset (closingPairs ?t))" "openPairs ?t = openPairs k"
      using False a assms(3)
      by (simp_all add: streamPairs openPairs_def openIds_def t hashCall_same)
    have eq: "mset (afterInsert k @ openingPairs k) + add_mset (?key, ?id) (mset (closingPairs ?t)) + mset_set (openPairs k) =
        mset_set (Map.graph (tableMap tab k))"
      using ta pairs(4) by (simp add: tablesAgree_def add.assoc)
    then have "(?key, ?id) \<in># mset_set (Map.graph (tableMap tab k))" by (metis union_iff union_single_eq_member)
    then have "(?key, ?id) \<in> Map.graph (tableMap tab k)" by simp
    then have "Map.graph (tableMap tab k) = insert (?key, ?id) (Map.graph (tableMap tab ?t))"
      "(?key, ?id) \<notin> Map.graph (tableMap tab ?t)"
      by (auto simp: tab(2) Map.graph_def split: if_splits)
    then have "tablesAgree tab ?t" using eq tab(1) by (simp add: tablesAgree_def pairs add.assoc)
    moreover have "phaseOk tab ?t"
      using ph unfolding phaseOk_def noInsert_def noQuery_def oneQuery_def oneInsert_def tab(2) pairs(1,2) hashCall_same t(1,2)
      by (auto simp: assms(2) split: slcState.splits)
    ultimately show ?thesis by simp
  qed
qed

lemma sessions_hash:
  assumes "sessionsOk tab k" and "ht_failureCounter (sl_hash (hashCall tab junk k)) = ht_failureCounter (sl_hash k)"
  shows "sessionsOk tab (hashCall tab junk k)"
proof -
  have ids: "idsOk (hashCall tab junk k)" using assms(1) by (simp add: sessionsOk_def idsOk_hash)
  show ?thesis
  proof (cases "sl_lookupReq k")
    case (Cons w ws)
    with sessions_lookup [OF assms(1) Cons] ids show ?thesis by (simp add: sessionsOk_def)
  next
    case Nil
    show ?thesis
    proof (cases "sl_updateReq k")
      case (Cons w ws)
      with sessions_update [OF assms(1) Nil Cons assms(2)] ids show ?thesis by (simp add: sessionsOk_def)
    next
      case empty: Nil
      have "hash_table tab junk (hashIn k) = hashIn k" using Nil empty by (simp add: hash_idle hashIn_def)
      then have t: "ht_tables (sl_hash (hashCall tab junk k)) = ht_tables (sl_hash k)"
        "sl_lookupReq (hashCall tab junk k) = sl_lookupReq k" "sl_updateReq (hashCall tab junk k) = sl_updateReq k"
        "sl_lookupRsp (hashCall tab junk k) = sl_lookupRsp k" "sl_updateRsp (hashCall tab junk k) = sl_updateRsp k"
        by (simp_all add: hashCall_simps) (simp_all add: hashIn_def)
      from assms(1) ids show ?thesis
        by (simp add: sessionsOk_def tablesAgree_def phaseOk_def noInsert_def noQuery_def oneQuery_def oneInsert_def
            streamPairs openPairs_def openIds_def tableMap_def t hashCall_same split: slcState.splits)
    qed
  qed
qed

lemma empty_table: "tableOk tab (ht_tables (sampleTable 0)) \<and> contents tab (ht_tables (sampleTable 0)) = Map.empty"
proof -
  have ok: "tableOk tab (ht_tables (sampleTable 0))" by (simp add: tableOk_def sampleTable_def)
  moreover have "entries (ht_tables (sampleTable 0)) = {}" by (simp add: entries_def sampleTable_def)
  ultimately show ?thesis using contents_None [OF ok] by auto
qed

lemma sessions_reach:
  assumes "reaches (session_lookup_controller ip) (roomyMoves tab) sessionLookupReset k"
  shows "sessionsOk tab k"
proof -
  have init: "sessionsOk tab sessionLookupReset"
    using empty_table [of tab]
    by (simp add: sessionsOk_def idsOk_def sessionLookupReset_def idPlaces_def openIds_def knownIds_def tablesAgree_def
        streamPairs openPairs_def tableMap_def phaseOk_def noInsert_def noQuery_def)
  have env: "sessionsOk tab t" if ok: "sessionsOk tab s" and m: "roomyMoves tab s t" for s t
    using m unfolding roomyMoves_def sessionMoves_def
  proof (elim conjE disjE exE)
    fix junk assume "t = hashCall tab junk s" "ht_failureCounter (sl_hash t) = ht_failureCounter (sl_hash s)"
    with sessions_hash [OF ok] show ?thesis by simp
  next
    fix a b c d e f g h
    assume "t = s\<lparr>sl_rxReq := a, sl_txAppReq := b, sl_releaseSession := c, sl_revReq := d, sl_rxRsp := e,
        sl_txAppRsp := f, sl_releasePort := g, sl_revRsp := h\<rparr>"
    with ok show ?thesis
      by (simp add: sessionsOk_def idsOk_def idPlaces_def openIds_def knownIds_def tablesAgree_def
        streamPairs openPairs_def tableMap_def phaseOk_def noInsert_def noQuery_def oneQuery_def oneInsert_def
        split: slcState.splits)
  qed
  show ?thesis
    by (rule reaches_inv [where inv = "sessionsOk tab", OF assms init sessions_controller env])
qed

lemma tablesAgree_pairs:
  assumes "tablesAgree tab k"
  shows "tableMap tab k key = Some i \<longleftrightarrow>
    (key, i) \<in> openPairs k \<or> (key, i) \<in> set (afterInsert k @ openingPairs k @ closingPairs k)"
proof -
  have "(key, i) \<in># mset_set (Map.graph (tableMap tab k)) \<longleftrightarrow>
      (key, i) \<in># mset (afterInsert k @ openingPairs k @ closingPairs k) + mset_set (openPairs k)"
    using assms by (simp add: tablesAgree_def)
  then show ?thesis by (auto simp: Map.graph_def)
qed

text \<open>C26: As long as no insertion fails, the hash table and the reverse table are inverse to each other: the hash table
  binds exactly the connections of the open identifiers, each to its identifier, and those on their way in or
  out.  In particular every open session is found under its own connection.\<close>

theorem session_tables_inverse:
  assumes "reaches (session_lookup_controller ip) (roomyMoves tab) sessionLookupReset k"
  shows "contents tab (ht_tables (sl_hash k)) key = Some i \<longleftrightarrow>
    (sl_tupleValid k i \<and> key = keyWord (sl_reverseTable k i)) \<or>
    (key, i) \<in> set (afterInsert k @ openingPairs k @ closingPairs k)"
  using tablesAgree_pairs [of tab k key i] sessions_reach [OF assms]
  by (auto simp: sessionsOk_def tableMap_def openPairs_def openIds_def)

text \<open>From the release of a session to the removal of its entry the hash table still answers a lookup of the
  connection with a hit and the identifier, which no longer is open and is about to be handed to another
  connection.\<close>

theorem stale_session_hit:
  assumes "reaches (session_lookup_controller ip) (roomyMoves tab) sessionLookupReset k"
    and "r \<in> set (sl_deleteReq k)"
  shows "\<not> sl_tupleValid k (rr_value r) \<and>
    axiu2rtlSessionLookupReply (htLookupResp2axiu (ht_lookup tab junk (ht_tables (sl_hash k))
      (axiu2htLookupReq (rtlSessionLookupRequest2axiu (rr_key r) source)))) =
    \<lparr>rl_key = rr_key r, rl_sessionID = rr_value r, rl_hit = True, rl_source = source\<rparr>"
proof -
  have ok: "idsOk k" "tablesAgree tab k" using sessions_reach [OF assms(1)] by (simp_all add: sessionsOk_def)
  have "0 < count (mset (idPlaces k)) (rr_value r)" using assms(2) by (simp add: idPlaces_def)
  with ids_count [OF ok(1), of "rr_value r"] have "\<not> sl_tupleValid k (rr_value r)"
    by (auto simp: openIds_def split: if_splits)
  moreover have "(keyWord (rr_key r), rr_value r) \<in> set (closingPairs k)"
    using assms(2) by (force simp: closingPairs_def updatePair_def)
  then have "contents tab (ht_tables (sl_hash k)) (keyWord (rr_key r)) = Some (rr_value r)"
    using tablesAgree_pairs [OF ok(2)] by (simp add: tableMap_def)
  ultimately show ?thesis by (simp add: lookup_answer)
qed

section \<open>A run\<close>

text \<open>A connection is looked up, created and released; the hash function is the degenerate one.\<close>

definition hostTuple :: fourTuple where
  "hostTuple = \<lparr>ft_srcIp = 0x0100000A, ft_dstIp = 0x0200000A, ft_srcPort = 0x5000, ft_dstPort = 0x1700\<rparr>"

definition turn :: "sessionLookup \<Rightarrow> sessionLookup option" where
  "turn k = (case session_lookup_controller 0 k of None \<Rightarrow> None
     | Some s \<Rightarrow> (let t = hashCall flat 0 s
         in if ht_failureCounter (sl_hash t) = ht_failureCounter (sl_hash s) then Some t else None))"

lemma turn_reaches:
  assumes "reaches (session_lookup_controller 0) (roomyMoves flat) k0 k" and "turn k = Some t"
  shows "reaches (session_lookup_controller 0) (roomyMoves flat) k0 t"
proof -
  obtain s where s: "session_lookup_controller 0 k = Some s" "t = hashCall flat 0 s"
    "ht_failureCounter (sl_hash t) = ht_failureCounter (sl_hash s)"
    using assms(2) by (auto simp: turn_def Let_def split: option.splits if_splits)
  have "roomyMoves flat s t" using s(2,3) unfolding roomyMoves_def sessionMoves_def by blast
  then show ?thesis by (rule reaches_env [OF reaches_step [OF assms(1) s(1)]])
qed

definition openedRun :: "sessionLookup option" where
  "openedRun = iter_opt turn 4 (sessionLookupReset\<lparr>sl_txAppReq := [hostTuple]\<rparr>)"

text \<open>Then the state table releases the session.\<close>

definition releasedRun :: "sessionLookup option" where
  "releasedRun = (case openedRun of None \<Rightarrow> None
     | Some k \<Rightarrow> session_lookup_controller 0 (k\<lparr>sl_releaseSession := [0]\<rparr>))"

definition hostKey :: threeTupleInternal where
  "hostKey = \<lparr>tt_theirIp = 0x0200000A, tt_myPort = 0x5000, tt_theirPort = 0x1700\<rparr>"

lemma run_values: "case openedRun of None \<Rightarrow> False | Some k \<Rightarrow>
   sl_tupleValid k 0 \<and> sl_reverseTable k 0 = hostKey \<and> sl_txAppRsp k = [\<lparr>lr_sessionID = 0, lr_hit = True\<rparr>] \<and>
   sl_fsmState k = LUP_REQ \<and> sl_finFifo k = [] \<and> sl_counter k = 4 \<and>
   sl_insertReq k = [] \<and> sl_deleteReq k = [] \<and> sl_updateRsp k = [] \<and> sl_rxReq k = [] \<and> sl_txAppReq k = [] \<and> sl_revInsert k = []"
  by code_simp

lemma roomy_inputs: "roomyMoves tab k (k\<lparr>sl_rxReq := a, sl_txAppReq := b, sl_releaseSession := c, sl_revReq := d,
    sl_rxRsp := e, sl_txAppRsp := f, sl_releasePort := g, sl_revRsp := h\<rparr>)"
  unfolding roomyMoves_def sessionMoves_def by (intro conjI disjI2 exI) (rule refl, simp)

lemma start_reaches: "reaches (session_lookup_controller 0) (roomyMoves flat) sessionLookupReset
    (sessionLookupReset\<lparr>sl_txAppReq := [hostTuple]\<rparr>)"
proof -
  have "roomyMoves flat sessionLookupReset (sessionLookupReset\<lparr>sl_txAppReq := [hostTuple]\<rparr>)"
    using roomy_inputs [where tab = flat and k = sessionLookupReset and a = "[]" and b = "[hostTuple]" and c = "[]"
      and d = "[]" and e = "[]" and f = "[]" and g = "[]" and h = "[]"]
    by (simp add: sessionLookupReset_def)
  then show ?thesis by (rule reaches_env [OF reaches_refl])
qed

lemma turns_reach: "reaches (session_lookup_controller 0) (roomyMoves flat) k0 k \<Longrightarrow> iter_opt turn n k = Some t \<Longrightarrow>
    reaches (session_lookup_controller 0) (roomyMoves flat) k0 t"
proof (induction n arbitrary: k)
  case (Suc n)
  then obtain s where "turn k = Some s" "iter_opt turn n s = Some t" by (auto split: option.splits)
  with Suc.IH [OF turn_reaches [OF Suc.prems(1)]] show ?case by blast
qed simp

lemma roomy_sessionMoves: "reaches step (roomyMoves tab) k0 k \<Longrightarrow> reaches step (sessionMoves tab) k0 k"
  by (induction rule: reaches.induct) (auto simp: roomyMoves_def intro: reaches_refl reaches_step reaches_env)

lemma opened:
  obtains k where "openedRun = Some k" "reaches (session_lookup_controller 0) (roomyMoves flat) sessionLookupReset k"
    "sl_tupleValid k 0" "sl_reverseTable k 0 = hostKey"
proof -
  obtain k where k: "openedRun = Some k" "sl_tupleValid k 0" "sl_reverseTable k 0 = hostKey"
    using run_values by (auto split: option.splits)
  have "reaches (session_lookup_controller 0) (roomyMoves flat) sessionLookupReset k"
    using turns_reach [OF start_reaches] k(1) by (simp add: openedRun_def)
  with k that show thesis by blast
qed

lemma released:
  obtains k where "releasedRun = Some k" "reaches (session_lookup_controller 0) (roomyMoves flat) sessionLookupReset k"
    "sl_deleteReq k = [\<lparr>rr_op = DELETE, rr_key = hostKey, rr_value = 0, rr_source = RX\<rparr>]"
proof -
  obtain k where k: "openedRun = Some k" "sl_tupleValid k 0" "sl_reverseTable k 0 = hostKey"
    "sl_fsmState k = LUP_REQ" "sl_finFifo k = []" "sl_counter k = 4" "sl_insertReq k = []" "sl_deleteReq k = []"
    "sl_updateRsp k = []" "sl_rxReq k = []" "sl_txAppReq k = []" "sl_revInsert k = []"
    using run_values by (auto split: option.splits)
  let ?k = "k\<lparr>sl_releaseSession := [0]\<rparr>"
  have r: "reaches (session_lookup_controller 0) (roomyMoves flat) sessionLookupReset k"
    using turns_reach [OF start_reaches] k(1) by (simp add: openedRun_def)
  have "roomyMoves flat k ?k"
    using roomy_inputs [where tab = flat and k = k and a = "sl_rxReq k" and b = "sl_txAppReq k" and c = "[0]"
      and d = "sl_revReq k" and e = "sl_rxRsp k" and f = "sl_txAppRsp k" and g = "sl_releasePort k" and h = "sl_revRsp k"]
    by simp
  note r' = reaches_env [OF r this]
  have "\<exists>t. session_lookup_controller 0 ?k = Some t \<and>
      sl_deleteReq t = [\<lparr>rr_op = DELETE, rr_key = hostKey, rr_value = 0, rr_source = RX\<rparr>]"
    using k(2-) by (simp add: session_lookup_controller_def sessionIdManager_def lookupReplyHandler_def slcRequest_def
      updateRequestSender_def updateReplyHandler_def reverseLookupTableInterface_def inTable_def MAX_SESSIONS_def
      s_write_def Let_def)
  then obtain t where t: "session_lookup_controller 0 ?k = Some t"
      "sl_deleteReq t = [\<lparr>rr_op = DELETE, rr_key = hostKey, rr_value = 0, rr_source = RX\<rparr>]" by blast
  show thesis
  proof (rule that [OF _ reaches_step [OF r' t(1)] t(2)])
    show "releasedRun = Some t" unfolding releasedRun_def k(1) option.case by (rule t(1))
  qed
qed

theorem session_ids_unique_witness:
  "case openedRun of None \<Rightarrow> False | Some k \<Rightarrow> sl_tupleValid k 0 \<and> distinct (idPlaces k) \<and> 0 \<notin> set (idPlaces k)"
proof -
  obtain k where k: "openedRun = Some k" "reaches (session_lookup_controller 0) (roomyMoves flat) sessionLookupReset k"
    "sl_tupleValid k 0" by (rule opened)
  then show ?thesis unfolding k(1) option.case using session_ids_unique [OF roomy_sessionMoves [OF k(2)]] by blast
qed

theorem session_tables_inverse_witness:
  "case openedRun of None \<Rightarrow> False
   | Some k \<Rightarrow> sl_tupleValid k 0 \<and> contents flat (ht_tables (sl_hash k)) (keyWord hostKey) = Some 0"
proof -
  obtain k where k: "openedRun = Some k" "reaches (session_lookup_controller 0) (roomyMoves flat) sessionLookupReset k"
    "sl_tupleValid k 0" "sl_reverseTable k 0 = hostKey" by (rule opened)
  then show ?thesis
    unfolding k(1) option.case using session_tables_inverse [OF k(2), of "keyWord hostKey" 0] k(3,4) by simp
qed

theorem stale_session_hit_witness:
  "case releasedRun of None \<Rightarrow> False
   | Some k \<Rightarrow> \<not> sl_tupleValid k 0 \<and>
     axiu2rtlSessionLookupReply (htLookupResp2axiu (ht_lookup flat 7 (ht_tables (sl_hash k))
       (axiu2htLookupReq (rtlSessionLookupRequest2axiu hostKey RX)))) =
     \<lparr>rl_key = hostKey, rl_sessionID = 0, rl_hit = True, rl_source = RX\<rparr>"
proof -
  obtain k where k: "releasedRun = Some k" "reaches (session_lookup_controller 0) (roomyMoves flat) sessionLookupReset k"
    "sl_deleteReq k = [\<lparr>rr_op = DELETE, rr_key = hostKey, rr_value = 0, rr_source = RX\<rparr>]" by (rule released)
  then show ?thesis
    unfolding k(1) option.case
    using stale_session_hit [OF k(2), of "\<lparr>rr_op = DELETE, rr_key = hostKey, rr_value = 0, rr_source = RX\<rparr>" 7 RX] by simp
qed

end
