(* ===== verification/Toe_Rx_Ip.thy ===== *)
theory Toe_Rx_Ip
  imports Net_Header
begin

text \<open>
  The first stage of the receive engine, \<^verbatim>\<open>process_ipv4\<close> of
  \<^verbatim>\<open>toe/rx_engine/rx_engine.cpp\<close>: it reads the IPv4 header of a packet, passes on the addresses and
  the length of the TCP segment, and takes the header off.

  The main theorem is at the level of bytes, for every header length.  A header of five words or of an odd number
  of words is removed exactly; one of an even number of words above five is removed together with the first eight
  bytes of the segment behind it.
\<close>

record pseudoMeta =
  pm_their_address :: "32 word"
  pm_our_address :: "32 word"
  pm_length :: "16 word"

section \<open>IPv4 header fields\<close>

definition getSrcAddr :: "160 word \<Rightarrow> 32 word" where "getSrcAddr h = reverse32 (rng 127 96 h)"
definition getDstAddr :: "160 word \<Rightarrow> 32 word" where "getDstAddr h = reverse32 (rng 159 128 h)"
definition getLength :: "160 word \<Rightarrow> 16 word" where "getLength h = reverse16 (rng 31 16 h)"
definition getHeaderLength :: "160 word \<Rightarrow> 4 word" where "getHeaderLength h = rng 3 0 h"

section \<open>Stage\<close>

datatype ipv4State = IP_META | IP_DROP | IP_BODY | IP_SHIFT | IP_LAST

record ipv4Stage =
  ip_header :: "160 word packetHeader"
  ip_headerWordsDropped :: "4 word"
  ip_state :: ipv4State
  ip_length :: "4 word"
  ip_prevWord :: axiWord
  ip_dataIn :: "axiWord hls_stream"
  ip_metaOut :: "pseudoMeta hls_stream"
  ip_dataOut :: "axiWord hls_stream"

definition ipEnd :: "ipv4Stage \<Rightarrow> ipv4Stage" where
  "ipEnd k = k\<lparr>ip_state := IP_META, ip_header := clearHeader (ip_header k), ip_headerWordsDropped := 0\<rparr>"

definition process_ipv4 :: "ipv4Stage \<Rightarrow> ipv4Stage" where
  "process_ipv4 k =
     (case ip_state k of
        IP_META \<Rightarrow>
          if \<not> s_empty (ip_dataIn k) then
            (let inWord = s_head (ip_dataIn k);
                 k = k\<lparr>ip_dataIn := s_rest (ip_dataIn k), ip_prevWord := inWord,
                       ip_header := parseWord (ax_data inWord) (ip_header k)\<rparr>;
                 h = ph_header (ip_header k);
                 k = (if ph_ready (ip_header k) then
                        k\<lparr>ip_length := getHeaderLength h - ip_headerWordsDropped k,
                          ip_metaOut := s_write (ip_metaOut k) \<lparr>pm_their_address = getSrcAddr h,
                            pm_our_address = getDstAddr h, pm_length = getLength h - ucast (getHeaderLength h) * 4\<rparr>,
                          ip_state := (if getHeaderLength h > 5 then IP_DROP else IP_SHIFT)\<rparr>
                      else k)
             in k\<lparr>ip_headerWordsDropped := ip_headerWordsDropped k + 2\<rparr>)
          else k
      | IP_DROP \<Rightarrow>
          if \<not> s_empty (ip_dataIn k) then
            (let n = ip_length k - 2
             in k\<lparr>ip_dataIn := s_rest (ip_dataIn k), ip_prevWord := s_head (ip_dataIn k), ip_length := n,
                  ip_state := (if n = 1 then IP_SHIFT else if n = 0 then IP_BODY else IP_DROP)\<rparr>)
          else k
      | IP_BODY \<Rightarrow>
          if \<not> s_empty (ip_dataIn k) then
            (let inWord = s_head (ip_dataIn k);
                 k = k\<lparr>ip_dataIn := s_rest (ip_dataIn k), ip_dataOut := s_write (ip_dataOut k) inWord\<rparr>
             in if ax_last inWord then ipEnd k else k)
          else k
      | IP_SHIFT \<Rightarrow>
          if \<not> s_empty (ip_dataIn k) then
            (let inWord = s_head (ip_dataIn k);
                 sendWord = (joinWord 4 (ip_prevWord k) inWord zeroWord)\<lparr>ax_last := \<not> bit (ax_keep inWord) 4\<rparr>;
                 k = k\<lparr>ip_dataIn := s_rest (ip_dataIn k), ip_dataOut := s_write (ip_dataOut k) sendWord,
                       ip_prevWord := inWord\<rparr>
             in if ax_last sendWord then ipEnd k else if ax_last inWord then k\<lparr>ip_state := IP_LAST\<rparr> else k)
          else k
      | IP_LAST \<Rightarrow>
          ipEnd (k\<lparr>ip_dataOut := s_write (ip_dataOut k)
            ((joinWord 4 (ip_prevWord k) zeroWord zeroWord)\<lparr>ax_last := True\<rparr>)\<rparr>))"

definition ipReady :: "ipv4Stage \<Rightarrow> bool" where
  "ipReady k \<longleftrightarrow> ip_state k = IP_META \<and> ph_idx (ip_header k) = 0 \<and> \<not> ph_ready (ip_header k) \<and> ip_headerWordsDropped k = 0"

lemma ipReady_ipEnd [simp]: "ipReady (ipEnd k)"
  by (simp add: ipReady_def ipEnd_def clearHeader_def)

lemma ipEnd_same [simp]: "ip_dataIn (ipEnd k) = ip_dataIn k" "ip_dataOut (ipEnd k) = ip_dataOut k" "ip_metaOut (ipEnd k) = ip_metaOut k"
  by (simp_all add: ipEnd_def)

text \<open>Forwarding the rest of a packet, aligned or joined.\<close>

lemma ip_body: "carries ws bs \<Longrightarrow> ip_state k = IP_BODY \<Longrightarrow> ip_dataIn k = ws @ rest \<Longrightarrow>
    ipReady ((process_ipv4 ^^ length ws) k) \<and> ip_dataIn ((process_ipv4 ^^ length ws) k) = rest \<and>
    ip_dataOut ((process_ipv4 ^^ length ws) k) = ip_dataOut k @ ws \<and> ip_metaOut ((process_ipv4 ^^ length ws) k) = ip_metaOut k"
proof (induction ws arbitrary: k bs)
  case Nil
  then show ?case by simp
next
  case (Cons w ws)
  show ?case
  proof (cases "ws = []")
    case True
    then have "ax_last w" using Cons.prems(1) by (simp add: carries_single lastWord_def)
    with True Cons.prems show ?thesis by (simp add: process_ipv4_def s_write_def Let_def)
  next
    case False
    then have w: "\<not> ax_last w" "carries ws (drop 8 bs)" using Cons.prems(1) by (simp_all add: carries_Cons)
    have "process_ipv4 k = k\<lparr>ip_dataIn := ws @ rest, ip_dataOut := ip_dataOut k @ [w]\<rparr>"
      using Cons.prems(2,3) w(1) by (simp add: process_ipv4_def s_write_def Let_def)
    with Cons.IH [OF w(2), of "process_ipv4 k"] Cons.prems(2) show ?thesis
      by (simp add: funpow_Suc_apply del: funpow.simps(2))
  qed
qed

text \<open>The fifth lane of a word decides whether anything is kept from there on.\<close>

lemma carries_keep4:
  assumes "carries (w # ws) bs"
  shows "(rng 7 4 (ax_keep w) :: 8 word) = 0 \<longleftrightarrow> \<not> bit (ax_keep w) 4"
proof -
  obtain cs js where w: "lanes w = kept cs @ map (\<lambda>j. (j, False)) js"
  proof (cases "ws = []")
    case True
    with assms that show thesis by (auto simp: carries_single lastWord_lanes)
  next
    case False
    then have "lanes w = kept (take 8 bs) @ map (\<lambda>j. (j, False)) []" using assms by (simp add: carries_Cons)
    then show thesis by (rule that)
  qed
  show ?thesis using nothing_kept [OF w, of 4] bit_keep [OF w, of 4] by auto
qed

lemma ip_shift: "carries (p # ws) bs \<Longrightarrow> 4 < length bs \<Longrightarrow> ip_prevWord k = p \<Longrightarrow>
    (if ws = [] then ip_state k = IP_LAST else ip_state k = IP_SHIFT) \<Longrightarrow> ip_dataIn k = ws @ rest \<Longrightarrow>
    \<exists>n. ipReady ((process_ipv4 ^^ n) k) \<and> ip_dataIn ((process_ipv4 ^^ n) k) = rest \<and>
    ip_dataOut ((process_ipv4 ^^ n) k) = ip_dataOut k @ joinRest 4 p ws \<and> ip_metaOut ((process_ipv4 ^^ n) k) = ip_metaOut k"
proof (induction ws arbitrary: k p bs)
  case Nil
  then show ?case by (intro exI [of _ 1]) (simp add: process_ipv4_def s_write_def)
next
  case (Cons w ws)
  have p: "carries (w # ws) (drop 8 bs)" using Cons.prems(1) by (simp add: carries_Cons)
  note k4 = carries_keep4 [OF p]
  have lw: "ax_last w \<longleftrightarrow> ws = []" using carries_packet [OF p] by (auto simp: is_packet_Cons split: if_splits)
  let ?s = "(joinWord 4 p w zeroWord)\<lparr>ax_last := \<not> bit (ax_keep w) 4\<rparr>"
  let ?k = "k\<lparr>ip_dataIn := ws @ rest, ip_dataOut := ip_dataOut k @ [?s], ip_prevWord := w\<rparr>"
  have st: "process_ipv4 k = (if \<not> bit (ax_keep w) 4 then ipEnd ?k else if ax_last w then ?k\<lparr>ip_state := IP_LAST\<rparr> else ?k)"
    using Cons.prems(3-5) by (simp add: process_ipv4_def s_write_def Let_def)
  have open_: "ws \<noteq> [] \<Longrightarrow> bit (ax_keep w) 4"
    using p bit_keep [of w "take 8 (drop 8 bs)" "[]" 4] by (simp add: carries_Cons)
  show ?case
  proof (cases "bit (ax_keep w) 4")
    case False
    with open_ have "ws = []" by blast
    with False st k4 lw show ?thesis by (intro exI [of _ 1]) simp
  next
    case True
    have len: "4 < length (drop 8 bs)"
    proof (cases "ws = []")
      case True
      then obtain js where "lanes w = kept (drop 8 bs) @ map (\<lambda>j. (j, False)) js"
        using p by (auto simp: carries_single lastWord_lanes)
      with bit_keep [OF this, of 4] \<open>bit (ax_keep w) 4\<close> show ?thesis by simp
    next
      case False
      then show ?thesis using p by (simp add: carries_Cons)
    qed
    have ph: "if ws = [] then ip_state (process_ipv4 k) = IP_LAST else ip_state (process_ipv4 k) = IP_SHIFT"
      using True lw st Cons.prems(4) by auto
    have st': "ip_prevWord (process_ipv4 k) = w" "ip_dataIn (process_ipv4 k) = ws @ rest"
      "ip_dataOut (process_ipv4 k) = ip_dataOut k @ [?s]" "ip_metaOut (process_ipv4 k) = ip_metaOut k"
      using True by (simp_all add: st)
    from Cons.IH [OF p len st'(1) ph st'(2)] obtain n where
      "ipReady ((process_ipv4 ^^ n) (process_ipv4 k)) \<and> ip_dataIn ((process_ipv4 ^^ n) (process_ipv4 k)) = rest \<and>
        ip_dataOut ((process_ipv4 ^^ n) (process_ipv4 k)) = ip_dataOut (process_ipv4 k) @ joinRest 4 w ws \<and>
        ip_metaOut ((process_ipv4 ^^ n) (process_ipv4 k)) = ip_metaOut (process_ipv4 k)" ..
    then show ?thesis
      using True k4 st'(3,4) by (intro exI [of _ "Suc n"]) (simp add: funpow_Suc_apply Let_def del: funpow.simps(2))
  qed
qed

section \<open>The header taken off\<close>

text \<open>The bytes taken off a packet with a header of \<open>hl\<close> words.\<close>

definition headerTaken :: "nat \<Rightarrow> nat" where
  "headerTaken hl = (if 5 < hl \<and> even hl then 4 * hl + 8 else 4 * hl)"

text \<open>Dropping the options: \<open>m\<close> words more, or a half word more.\<close>

definition dropped :: "nat \<Rightarrow> nat" where
  "dropped d = (if even d then 4 * d else 4 * d - 8)"

lemma ip_drop: "carries ws bs \<Longrightarrow> ip_state k = IP_DROP \<Longrightarrow> ip_dataIn k = ws @ rest \<Longrightarrow> ip_length k = of_nat d \<Longrightarrow>
    1 < d \<Longrightarrow> d < 16 \<Longrightarrow> dropped d + 8 < length bs \<Longrightarrow>
    \<exists>n out. ipReady ((process_ipv4 ^^ n) k) \<and> ip_dataIn ((process_ipv4 ^^ n) k) = rest \<and>
      ip_dataOut ((process_ipv4 ^^ n) k) = ip_dataOut k @ out \<and> carries out (drop (dropped d) bs) \<and>
      ip_metaOut ((process_ipv4 ^^ n) k) = ip_metaOut k"
proof (induction ws arbitrary: k bs d)
  case Nil
  then show ?case by simp
next
  case (Cons w ws)
  have "8 < length bs" using Cons.prems(5,7) by (auto simp: dropped_def split: if_splits)
  then have ne: "ws \<noteq> []" using Cons.prems(1) by (auto simp: carries_single lastWord_def)
  then have w: "carries ws (drop 8 bs)" using Cons.prems(1) by (simp add: carries_Cons)
  let ?k = "k\<lparr>ip_dataIn := ws @ rest, ip_prevWord := w, ip_length := ip_length k - 2\<rparr>"
  have n: "ip_length k - 2 = of_nat (d - 2)" using Cons.prems(4,5) by (simp add: of_nat_diff)
  have d: "(of_nat (d - 2) :: 4 word) = 1 \<longleftrightarrow> d = 3" "(of_nat (d - 2) :: 4 word) = 0 \<longleftrightarrow> d = 2"
  proof -
    have "unat (of_nat (d - 2) :: 4 word) = d - 2" by (rule unat_of_nat_small) (use Cons.prems(6) in simp)
    then show "(of_nat (d - 2) :: 4 word) = 1 \<longleftrightarrow> d = 3" "(of_nat (d - 2) :: 4 word) = 0 \<longleftrightarrow> d = 2"
      using Cons.prems(5) unfolding word_unat_eq_iff by auto
  qed
  have st: "process_ipv4 k = ?k\<lparr>ip_state := (if d = 3 then IP_SHIFT else if d = 2 then IP_BODY else IP_DROP)\<rparr>"
    using Cons.prems(2,3) n d by (simp add: process_ipv4_def Let_def)
  consider "d = 2" | "d = 3" | "3 < d" using Cons.prems(5) by linarith
  then show ?case
  proof cases
    case 1
    then have k: "ip_state (process_ipv4 k) = IP_BODY" "ip_dataIn (process_ipv4 k) = ws @ rest" by (simp_all add: st)
    from ip_body [OF w k] 1 w st show ?thesis
      by (intro exI [of _ "Suc (length ws)"] exI [of _ ws]) (simp add: funpow_Suc_apply dropped_def del: funpow.simps(2))
  next
    case 2
    have k: "ip_prevWord (process_ipv4 k) = w" "ip_dataIn (process_ipv4 k) = ws @ rest"
      "if ws = [] then ip_state (process_ipv4 k) = IP_LAST else ip_state (process_ipv4 k) = IP_SHIFT"
      using 2 ne by (simp_all add: st)
    have four: "4 < length bs" using \<open>8 < length bs\<close> by simp
    from ip_shift [OF Cons.prems(1) four k(1,3,2)] obtain n where
      n: "ipReady ((process_ipv4 ^^ n) (process_ipv4 k)) \<and> ip_dataIn ((process_ipv4 ^^ n) (process_ipv4 k)) = rest \<and>
        ip_dataOut ((process_ipv4 ^^ n) (process_ipv4 k)) = ip_dataOut (process_ipv4 k) @ joinRest 4 w ws \<and>
        ip_metaOut ((process_ipv4 ^^ n) (process_ipv4 k)) = ip_metaOut (process_ipv4 k)" ..
    have "carries (joinRest 4 w ws) (drop 4 bs)" using carries_joinRest [OF _ _ Cons.prems(1) four] by simp
    with n 2 show ?thesis
      by (intro exI [of _ "Suc n"] exI [of _ "joinRest 4 w ws"])
        (simp add: funpow_Suc_apply dropped_def st del: funpow.simps(2))
  next
    case 3
    then have dd: "dropped d = 8 + dropped (d - 2)" by (auto simp: dropped_def)
    have k: "ip_state (process_ipv4 k) = IP_DROP" "ip_dataIn (process_ipv4 k) = ws @ rest"
      "ip_length (process_ipv4 k) = of_nat (d - 2)" "ip_dataOut (process_ipv4 k) = ip_dataOut k"
      "ip_metaOut (process_ipv4 k) = ip_metaOut k"
      using 3 n by (simp_all add: st)
    have b: "1 < d - 2" "d - 2 < 16" "dropped (d - 2) + 8 < length (drop 8 bs)"
      using 3 Cons.prems(6,7) dd by auto
    from Cons.IH [OF w k(1-3) b] obtain n out where
      n: "ipReady ((process_ipv4 ^^ n) (process_ipv4 k)) \<and> ip_dataIn ((process_ipv4 ^^ n) (process_ipv4 k)) = rest \<and>
        ip_dataOut ((process_ipv4 ^^ n) (process_ipv4 k)) = ip_dataOut (process_ipv4 k) @ out \<and>
        carries out (drop (dropped (d - 2)) (drop 8 bs)) \<and>
        ip_metaOut ((process_ipv4 ^^ n) (process_ipv4 k)) = ip_metaOut (process_ipv4 k)" by blast
    then show ?thesis
      using k(4,5) dd by (intro exI [of _ "Suc n"] exI [of _ out]) (simp add: funpow_Suc_apply add.commute del: funpow.simps(2))
  qed
qed

text \<open>The three words with the header.\<close>

definition ipHeaderLength :: "8 word list \<Rightarrow> nat" where
  "ipHeaderLength bs = unat (bs ! 0 AND 15)"

lemma carries_byte:
  assumes "carries (w # ws) bs" and "ws \<noteq> []" and "i < 8"
  shows "byteAt (ax_data w) i = bs ! i"
proof -
  have e: "lanes w = kept (take 8 bs)" "8 < length bs" using assms(1,2) by (simp_all add: carries_Cons)
  have "fst (lanes w ! i) = fst (kept (take 8 bs) ! i)" by (simp only: e)
  with e(2) assms(3) show ?thesis by (simp add: nth_lanes)
qed

lemma of_nat_unat_ucast: "(of_nat (unat (w :: 'a::len word)) :: 'b::len word) = ucast w"
  by (simp add: word_unat_eq_iff unat_of_nat unsigned_ucast_eq unsigned_take_bit_eq)

lemma nibble: "(b :: 8 word) AND 15 = take_bit 4 b"
  by (simp add: take_bit_eq_mask mask_eq_exp_minus_1)

lemma low_nibble: "(rng 3 0 (b :: 8 word) :: 4 word) = of_nat (unat (b AND 15))"
proof -
  have "(rng 3 0 b :: 4 word) = ucast (b AND 15)"
    unfolding nibble by (rule bit_word_eqI) (auto simp: bit_simps)
  then show ?thesis by (simp add: of_nat_unat_ucast)
qed

lemma ipHeaderLength_less: "ipHeaderLength bs < 16"
  using take_bit_nat_less_exp [of 4 "unat (bs ! 0)"] by (simp add: ipHeaderLength_def nibble unsigned_take_bit_eq)

lemma ip_header:
  assumes "ipReady k" and "ip_dataIn k = a # b # c # ws @ rest" and "carries (a # b # c # ws) bs" and "24 < length bs"
  shows "\<exists>h. (process_ipv4 ^^ 3) k = k\<lparr>ip_dataIn := ws @ rest, ip_prevWord := c, ip_header := h,
      ip_length := of_nat (ipHeaderLength bs) - 4, ip_headerWordsDropped := 6,
      ip_metaOut := ip_metaOut k @ [\<lparr>pm_their_address = be32 (bs ! 12) (bs ! 13) (bs ! 14) (bs ! 15),
        pm_our_address = be32 (bs ! 16) (bs ! 17) (bs ! 18) (bs ! 19),
        pm_length = be16 (bs ! 2) (bs ! 3) - of_nat (4 * ipHeaderLength bs)\<rparr>],
      ip_state := (if 5 < ipHeaderLength bs then IP_DROP else IP_SHIFT)\<rparr>"
proof -
  have p: "carries (b # c # ws) (drop 8 bs)" "carries (c # ws) (drop 16 bs)" "ws \<noteq> []"
    using assms(3,4) by (auto simp: carries_Cons carries_single lastWord_def)
  define h1 where "h1 = parseWord (ax_data a) (ip_header k)"
  define h2 where "h2 = parseWord (ax_data b) h1"
  define h3 where "h3 = parseWord (ax_data c) h2"
  have 0: "parsed (ip_header k) 0 bs" using assms(1) by (simp add: parsed_def ipReady_def)
  have 1: "parsed h1 1 bs" unfolding h1_def One_nat_def
    by (rule parsed_word [OF 0]) (use carries_byte [OF assms(3)] in simp_all)
  have "parsed h2 (Suc 1) bs" unfolding h2_def
    by (rule parsed_word [OF 1]) (use carries_byte [OF p(1)] assms(4) in simp_all)
  then have 2: "parsed h2 2 bs" by (simp add: numeral_2_eq_2)
  have "parsed h3 (Suc 2) bs" unfolding h3_def
    by (rule parsed_word [OF 2]) (use carries_byte [OF p(2) p(3)] assms(4) in simp_all)
  then have 3: "parsed h3 3 bs" by simp
  have byte: "headerByte (ph_header h3) i = bs ! i" if "i < 20" for i
    using parsed_byte [OF 3, of i] that by simp
  have ready: "\<not> ph_ready h1" "\<not> ph_ready h2" "ph_ready h3"
    using parsed_ready [OF 1] parsed_ready [OF 2] parsed_ready [OF 3] by simp_all
  have hl: "getHeaderLength (ph_header h3) = of_nat (ipHeaderLength bs)"
    using byte [of 0] rng_byte [of 0 0 3 "ph_header h3", where 'a = 4] low_nibble [of "bs ! 0"]
    by (simp add: getHeaderLength_def ipHeaderLength_def)
  have "unat (of_nat (ipHeaderLength bs) :: 4 word) = ipHeaderLength bs"
    by (rule unat_of_nat_small) (use ipHeaderLength_less [of bs] in simp)
  then have hl5: "5 < getHeaderLength (ph_header h3) \<longleftrightarrow> 5 < ipHeaderLength bs"
    and sh: "ucast (getHeaderLength (ph_header h3)) * 4 = (of_nat (4 * ipHeaderLength bs) :: 16 word)"
    unfolding hl by (simp add: word_less_nat_alt, simp flip: of_nat_unat_ucast)
  have fields: "getSrcAddr (ph_header h3) = be32 (bs ! 12) (bs ! 13) (bs ! 14) (bs ! 15)"
    "getDstAddr (ph_header h3) = be32 (bs ! 16) (bs ! 17) (bs ! 18) (bs ! 19)"
    "getLength (ph_header h3) = be16 (bs ! 2) (bs ! 3)"
    using rng32_bytes [of 96 12 127 "ph_header h3"] rng32_bytes [of 128 16 159 "ph_header h3"]
      rng16_bytes [of 16 2 31 "ph_header h3"]
    by (simp_all add: getSrcAddr_def getDstAddr_def getLength_def byte)
  have st1: "process_ipv4 k = k\<lparr>ip_dataIn := b # c # ws @ rest, ip_prevWord := a, ip_header := h1, ip_headerWordsDropped := 2\<rparr>"
    using assms(1,2) ready(1) by (simp add: process_ipv4_def ipReady_def Let_def flip: h1_def)
  have st2: "process_ipv4 (process_ipv4 k) =
      k\<lparr>ip_dataIn := c # ws @ rest, ip_prevWord := b, ip_header := h2, ip_headerWordsDropped := 4\<rparr>"
    using assms(1) ready(2) by (simp add: st1) (simp add: process_ipv4_def ipReady_def Let_def flip: h2_def)
  have st3: "process_ipv4 (process_ipv4 (process_ipv4 k)) = k\<lparr>ip_dataIn := ws @ rest, ip_prevWord := c, ip_header := h3,
      ip_length := of_nat (ipHeaderLength bs) - 4, ip_headerWordsDropped := 6,
      ip_metaOut := ip_metaOut k @ [\<lparr>pm_their_address = be32 (bs ! 12) (bs ! 13) (bs ! 14) (bs ! 15),
        pm_our_address = be32 (bs ! 16) (bs ! 17) (bs ! 18) (bs ! 19),
        pm_length = be16 (bs ! 2) (bs ! 3) - of_nat (4 * ipHeaderLength bs)\<rparr>],
      ip_state := (if 5 < ipHeaderLength bs then IP_DROP else IP_SHIFT)\<rparr>"
    using assms(1) ready(3) hl hl5 fields sh
    by (simp add: st2) (simp add: process_ipv4_def ipReady_def s_write_def Let_def flip: h3_def)
  show ?thesis by (rule exI [of _ h3]) (simp add: st3 numeral_3_eq_3 funpow_Suc_apply del: funpow.simps(2))
qed

definition ipMeta :: "8 word list \<Rightarrow> pseudoMeta" where
  "ipMeta bs = \<lparr>pm_their_address = be32 (bs ! 12) (bs ! 13) (bs ! 14) (bs ! 15),
     pm_our_address = be32 (bs ! 16) (bs ! 17) (bs ! 18) (bs ! 19),
     pm_length = be16 (bs ! 2) (bs ! 3) - of_nat (4 * ipHeaderLength bs)\<rparr>"

definition ipPacket :: "8 word list \<Rightarrow> bool" where
  "ipPacket bs \<longleftrightarrow> 5 \<le> ipHeaderLength bs \<and> 4 * ipHeaderLength bs + 20 \<le> length bs"

lemma ip_packet:
  assumes "ipReady k" and "ip_dataIn k = ws @ rest" and "carries ws bs" and "ipPacket bs"
  shows "\<exists>n out. ipReady ((process_ipv4 ^^ n) k) \<and> ip_dataIn ((process_ipv4 ^^ n) k) = rest \<and>
    ip_dataOut ((process_ipv4 ^^ n) k) = ip_dataOut k @ out \<and> carries out (drop (headerTaken (ipHeaderLength bs)) bs) \<and>
    ip_metaOut ((process_ipv4 ^^ n) k) = ip_metaOut k @ [ipMeta bs]"
proof -
  let ?hl = "ipHeaderLength bs"
  have len: "5 \<le> ?hl" "?hl < 16" "4 * ?hl + 20 \<le> length bs"
    using assms(4) ipHeaderLength_less by (simp_all add: ipPacket_def)
  have long: "8 < length cs \<Longrightarrow> carries us cs \<Longrightarrow> \<exists>u vs. us = u # vs \<and> vs \<noteq> [] \<and> carries vs (drop 8 cs)" for us cs
    by (cases us) (auto simp: carries.simps(2) lastWord_def split: if_splits)
  have l: "8 < length bs" "8 < length (drop 8 bs)" "8 < length (drop 16 bs)" using len by simp_all
  obtain a vs where a: "ws = a # vs" "carries vs (drop 8 bs)" using long [OF l(1) assms(3)] by auto
  obtain b us where b: "vs = b # us" "carries us (drop 16 bs)" using long [OF l(2) a(2)] by auto
  obtain c xs where c: "us = c # xs" "xs \<noteq> []" "carries xs (drop 24 bs)" using long [OF l(3) b(2)] by auto
  have ws: "ws = a # b # c # xs" using a b c by simp
  have "24 < length bs" using len by simp
  from ip_header [OF assms(1) _ _ this, of a b c xs rest] assms(2,3) obtain h where
    h: "(process_ipv4 ^^ 3) k = k\<lparr>ip_dataIn := xs @ rest, ip_prevWord := c, ip_header := h,
      ip_length := of_nat ?hl - 4, ip_headerWordsDropped := 6, ip_metaOut := ip_metaOut k @ [ipMeta bs],
      ip_state := (if 5 < ?hl then IP_DROP else IP_SHIFT)\<rparr>" (is "_ = ?k")
    unfolding ws ipMeta_def by auto
  have "\<exists>n out. ipReady ((process_ipv4 ^^ n) ?k) \<and> ip_dataIn ((process_ipv4 ^^ n) ?k) = rest \<and>
      ip_dataOut ((process_ipv4 ^^ n) ?k) = ip_dataOut k @ out \<and> carries out (drop (headerTaken ?hl) bs) \<and>
      ip_metaOut ((process_ipv4 ^^ n) ?k) = ip_metaOut k @ [ipMeta bs]"
  proof (cases "5 < ?hl")
    case True
    have k: "ip_state ?k = IP_DROP" "ip_dataIn ?k = xs @ rest" "ip_length ?k = of_nat (?hl - 4)"
      using True by (simp_all add: of_nat_diff)
    have d: "dropped (?hl - 4) + 24 = headerTaken ?hl" using True by (auto simp: dropped_def headerTaken_def)
    have "dropped (?hl - 4) + 8 < length (drop 24 bs)" using len d True by (auto simp: headerTaken_def split: if_splits)
    with ip_drop [OF c(3) k] True len(2) d show ?thesis by fastforce
  next
    case False
    then have hl: "?hl = 5" using len by simp
    have cx: "carries (c # xs) (drop 16 bs)" "4 < length (drop 16 bs)" using b(2) c(1) len by simp_all
    have k: "ip_prevWord ?k = c" "if xs = [] then ip_state ?k = IP_LAST else ip_state ?k = IP_SHIFT" "ip_dataIn ?k = xs @ rest"
      using hl c(2) by simp_all
    have "carries (joinRest 4 c xs) (drop 20 bs)" using carries_joinRest [OF _ _ cx] by simp
    with ip_shift [OF cx k] hl show ?thesis by (simp add: headerTaken_def) blast
  qed
  then obtain n out where n: "ipReady ((process_ipv4 ^^ n) ?k) \<and> ip_dataIn ((process_ipv4 ^^ n) ?k) = rest \<and>
      ip_dataOut ((process_ipv4 ^^ n) ?k) = ip_dataOut k @ out \<and> carries out (drop (headerTaken ?hl) bs) \<and>
      ip_metaOut ((process_ipv4 ^^ n) ?k) = ip_metaOut k @ [ipMeta bs]" by blast
  have "(process_ipv4 ^^ (n + 3)) k = (process_ipv4 ^^ n) ?k" using h by (simp only: funpow_add comp_apply)
  with n show ?thesis by (intro exI [of _ "n + 3"] exI [of _ out]) simp
qed

text \<open>C30: The receive engine takes the IPv4 header off a packet and passes on the addresses and the length of the
  segment.  With a header of five words, or of an odd number of words, what is left is exactly the TCP segment;
  with an even number of words above five the first eight bytes of the segment, its ports and its sequence number,
  are lost as well.\<close>

theorem ip_header_removed:
  assumes "ipReady k" and "ip_dataIn k = ws @ rest" and "carries ws bs" and "ipPacket bs"
  shows "\<exists>n out. ipReady ((process_ipv4 ^^ n) k) \<and> ip_dataIn ((process_ipv4 ^^ n) k) = rest \<and>
    ip_dataOut ((process_ipv4 ^^ n) k) = ip_dataOut k @ out \<and>
    carries out (drop (if 5 < ipHeaderLength bs \<and> even (ipHeaderLength bs)
      then 4 * ipHeaderLength bs + 8 else 4 * ipHeaderLength bs) bs) \<and>
    ip_metaOut ((process_ipv4 ^^ n) k) = ip_metaOut k @ [ipMeta bs]"
  using ip_packet [OF assms] unfolding headerTaken_def .

interpretation rxIp: packet_stage process_ipv4 ipReady ip_dataIn ip_dataOut ipPacket
    "\<lambda>bs. drop (headerTaken (ipHeaderLength bs)) bs"
  by unfold_locales (use ip_packet in blast)

text \<open>A packet with one option word pair: a header of six words, then a segment of twenty bytes.\<close>

definition samplePacket :: "8 word list" where
  "samplePacket = [0x46, 0, 0, 44, 0, 0, 0, 0, 64, 6, 0, 0, 10, 0, 0, 1, 10, 0, 0, 2, 1, 1, 1, 0,
     0, 80, 0, 81, 0, 0, 0, 1, 0, 0, 0, 2, 0x50, 2, 16, 0, 0, 0, 0, 0]"

definition sampleWord :: "64 word \<Rightarrow> axiWord" where
  "sampleWord d = \<lparr>ax_data = d, ax_keep = 0xFF, ax_last = False\<rparr>"

definition sampleIpWords :: "axiWord list" where
  "sampleIpWords = [sampleWord 0x000000002C000046, sampleWord 0x0100000A00000640, sampleWord 0x000101010200000A,
     sampleWord 0x0100000051005000, sampleWord 0x0010025002000000, \<lparr>ax_data = 0, ax_keep = 0xF, ax_last = True\<rparr>]"

definition sampleIpStage :: ipv4Stage where
  "sampleIpStage = \<lparr>ip_header = \<lparr>ph_ready = False, ph_idx = 0, ph_header = 0\<rparr>, ip_headerWordsDropped = 0,
     ip_state = IP_META, ip_length = 0, ip_prevWord = zeroWord, ip_dataIn = sampleIpWords, ip_metaOut = [], ip_dataOut = []\<rparr>"

theorem ip_header_removed_witness:
  "\<exists>n. carries (ip_dataOut ((process_ipv4 ^^ n) sampleIpStage)) [0, 0, 0, 2, 0x50, 2, 16, 0, 0, 0, 0, 0]"
proof -
  have h: "ipReady sampleIpStage" "ip_dataIn sampleIpStage = sampleIpWords @ []"
    "carries sampleIpWords samplePacket" "ipPacket samplePacket" "ipHeaderLength samplePacket = 6"
    by (simp add: ipReady_def sampleIpStage_def, simp add: sampleIpStage_def, code_simp, code_simp, code_simp)
  have "drop 32 samplePacket = [0, 0, 0, 2, 0x50, 2, 16, 0, 0, 0, 0, 0]" by (simp add: samplePacket_def)
  with ip_header_removed [OF h(1-4)] h(5) show ?thesis by (auto simp: sampleIpStage_def simp del: funpow.simps)
qed

end
