(* ===== verification/Net_Checksum.thy ===== *)
theory Net_Checksum
  imports Net_Header
begin

text \<open>
  The internet checksum as the network stack computes it: \<^verbatim>\<open>two_complement_subchecksums\<close> of
  \<^verbatim>\<open>toe/two_complement_subchecksums.hpp\<close> passes a packet on and adds up each of the four 16-bit columns
  of its words; \<^verbatim>\<open>check_ipv4_checksum\<close> and \<^verbatim>\<open>finalize_ipv4_checksum\<close> of
  \<^verbatim>\<open>ipv4/ipv4.hpp\<close> add up the columns.  The sums are folded to 16 bits after every addition.

  The reference is the one's complement sum of the big-endian 16-bit words of the packet, an odd byte at the end
  padded with zero.
\<close>

section \<open>Stages\<close>

type_synonym subSums = "nat \<Rightarrow> 17 word"

definition foldSum :: "17 word \<Rightarrow> 17 word" where
  "foldSum s = (s + drop_bit 16 s) AND 0xFFFF"

definition addSum :: "17 word \<Rightarrow> 17 word \<Rightarrow> 17 word" where
  "addSum s t = foldSum (s + t)"

text \<open>Column \<open>i\<close> of a word: both bytes kept, only the first one, or none.\<close>

definition addColumn :: "axiWord \<Rightarrow> nat \<Rightarrow> 17 word \<Rightarrow> 17 word" where
  "addColumn w i s =
     (if (rng (2 * i + 1) (2 * i) (ax_keep w) :: 2 word) = 3
      then addSum s (ucast (be16 (rng (16 * i + 7) (16 * i) (ax_data w)) (rng (16 * i + 15) (16 * i + 8) (ax_data w))))
      else if bit (ax_keep w) (2 * i)
      then addSum s (ucast (be16 (rng (16 * i + 7) (16 * i) (ax_data w)) 0))
      else s)"

record checksumStage =
  cs_sums :: subSums
  cs_dataIn :: "axiWord hls_stream"
  cs_dataOut :: "axiWord hls_stream"
  cs_subSums :: "subSums hls_stream"

definition two_complement_subchecksums :: "checksumStage \<Rightarrow> checksumStage" where
  "two_complement_subchecksums k =
     (if \<not> s_empty (cs_dataIn k) then
        (let currWord = s_head (cs_dataIn k);
             k = k\<lparr>cs_dataIn := s_rest (cs_dataIn k), cs_dataOut := s_write (cs_dataOut k) currWord,
                   cs_sums := (\<lambda>i. if i < 4 then addColumn currWord i (cs_sums k i) else cs_sums k i)\<rparr>
         in if ax_last currWord
            then k\<lparr>cs_subSums := s_write (cs_subSums k) (cs_sums k), cs_sums := (\<lambda>i. 0)\<rparr> else k)
      else k)"

definition totalSum :: "subSums \<Rightarrow> 17 word" where
  "totalSum s = addSum (addSum (s 0) (s 2)) (addSum (s 1) (s 3))"

definition check_ipv4_checksum :: "subSums hls_stream \<times> bool hls_stream \<Rightarrow> subSums hls_stream \<times> bool hls_stream" where
  "check_ipv4_checksum = (\<lambda>(sums, valid).
     (if \<not> s_empty sums
      then (s_rest sums, s_write valid ((rng 15 0 (NOT (totalSum (s_head sums))) :: 16 word) = 0)) else (sums, valid)))"

definition finalize_ipv4_checksum :: "subSums hls_stream \<times> 16 word hls_stream \<Rightarrow> subSums hls_stream \<times> 16 word hls_stream" where
  "finalize_ipv4_checksum = (\<lambda>(sums, checksum).
     (if \<not> s_empty sums
      then (s_rest sums, s_write checksum (rng 15 0 (NOT (totalSum (s_head sums))))) else (sums, checksum)))"

section \<open>One's complement sums\<close>

text \<open>The sixteen-bit representative of \<open>n\<close>: zero only for zero.\<close>

definition oneSum :: "nat \<Rightarrow> nat" where
  "oneSum n = (if n = 0 then 0 else (n - 1) mod 65535 + 1)"

fun beWords :: "8 word list \<Rightarrow> nat list" where
  "beWords (a # b # bs) = unat (be16 a b) # beWords bs"
| "beWords [a] = [unat (be16 a 0)]"
| "beWords [] = []"

definition packetSum :: "8 word list \<Rightarrow> nat" where
  "packetSum bs = sum_list (beWords bs)"

lemma oneSum_le: "oneSum n \<le> 65535"
proof -
  have "(n - 1) mod 65535 < 65535" by (rule mod_less_divisor) simp
  then show ?thesis unfolding oneSum_def by (cases "n = 0") (simp_all del: One_nat_def)
qed

lemma oneSum_add [simp]: "oneSum (oneSum m + n) = oneSum (m + n)" "oneSum (m + oneSum n) = oneSum (m + n)"
proof -
  have "oneSum (oneSum m + n) = oneSum (m + n)" for m n
  proof (cases "m = 0")
    case False
    have "((m - 1) mod 65535 + n) mod 65535 = (m - 1 + n) mod 65535" by (simp add: mod_add_left_eq)
    moreover have "m - 1 + n = m + n - 1" using False by simp
    ultimately show ?thesis using False by (simp add: oneSum_def)
  qed (simp add: oneSum_def)
  from this [of m n] this [of n m] show "oneSum (oneSum m + n) = oneSum (m + n)" "oneSum (m + oneSum n) = oneSum (m + n)"
    by (simp_all add: add.commute)
qed

lemma oneSum_small: "n \<le> 65535 \<Longrightarrow> oneSum n = n"
  by (simp add: oneSum_def)

lemma addSum_one:
  assumes "unat s \<le> 65535" and "unat t \<le> 65535"
  shows "unat (addSum s t) = oneSum (unat s + unat t)"
proof -
  let ?a = "unat s + unat t"
  have a: "unat (s + t) = ?a" using assms by (simp add: unat_word_ariths)
  have d: "unat (drop_bit 16 (s + t)) = ?a div 65536"
    by (simp add: drop_bit_eq_div unat_div a)
  have "?a div 65536 \<le> 1" using assms by (simp add: div_le_mono [THEN order_trans [where y = "131070 div 65536"]])
  then have s: "unat (s + t + drop_bit 16 (s + t)) = ?a + ?a div 65536"
    using assms by (simp add: unat_word_ariths a d)
  have m: "(0xFFFF :: 17 word) = mask 16" by (simp add: mask_eq_exp_minus_1)
  have "unat (addSum s t) = (?a + ?a div 65536) mod 65536"
    unfolding addSum_def foldSum_def m by (simp add: take_bit_eq_mask [symmetric] unsigned_take_bit_eq s take_bit_eq_mod unat_mod)
  also have "\<dots> = oneSum ?a"
  proof (cases "?a < 65536")
    case True
    then show ?thesis by (simp add: oneSum_small)
  next
    case False
    then have "?a div 65536 = 1" using assms by (intro div_nat_eqI) auto
    moreover have "(?a - 1) mod 65535 = ?a - 1 - 65535" using False assms by (simp add: le_mod_geq)
    ultimately show ?thesis using False assms by (simp add: oneSum_def le_mod_geq)
  qed
  finally show ?thesis .
qed

lemma addSum_le: "unat s \<le> 65535 \<Longrightarrow> unat t \<le> 65535 \<Longrightarrow> unat (addSum s t) \<le> 65535"
  by (simp add: addSum_one oneSum_le)

section \<open>The columns of a packet\<close>

text \<open>What a word adds to column \<open>i\<close>.\<close>

definition columnOf :: "axiWord \<Rightarrow> nat \<Rightarrow> nat" where
  "columnOf w i =
     (if bit (ax_keep w) (2 * i) \<and> bit (ax_keep w) (2 * i + 1)
      then unat (be16 (byteAt (ax_data w) (2 * i)) (byteAt (ax_data w) (2 * i + 1)))
      else if bit (ax_keep w) (2 * i) then unat (be16 (byteAt (ax_data w) (2 * i)) 0) else 0)"

lemma unat_be16: "unat (ucast (be16 a b) :: 17 word) = unat (be16 a b)" "unat (be16 a b) \<le> 65535"
proof -
  have l: "unat (be16 a b) < 65536" using unsigned_less [of "be16 a b", where ?'a = nat] by simp
  then show "unat (be16 a b) \<le> 65535" by simp
  show "unat (ucast (be16 a b) :: 17 word) = unat (be16 a b)"
    using l by (simp add: unsigned_ucast_eq unsigned_take_bit_eq take_bit_nat_eq_self)
qed

lemma addColumn_one:
  assumes "unat s \<le> 65535" and "i < 4"
  shows "unat (addColumn w i s) = oneSum (unat s + columnOf w i)"
proof -
  have both: "(rng (2 * i + 1) (2 * i) (ax_keep w) :: 2 word) = 3 \<longleftrightarrow> bit (ax_keep w) (2 * i) \<and> bit (ax_keep w) (2 * i + 1)"
  proof -
    let ?r = "rng (2 * i + 1) (2 * i) (ax_keep w) :: 2 word"
    have "?r = 3 \<longleftrightarrow> (\<forall>n<2. bit ?r n = bit (3 :: 2 word) n)" by (auto simp: bit_eq_iff bit_simps)
    also have "\<dots> \<longleftrightarrow> bit ?r 0 \<and> bit ?r 1" by (auto simp: less_Suc_eq numeral_2_eq_2 bit_simps)
    finally show ?thesis by (simp add: bit_simps)
  qed
  have data: "rng (16 * i + 7) (16 * i) (ax_data w) = byteAt (ax_data w) (2 * i)"
    "rng (16 * i + 15) (16 * i + 8) (ax_data w) = byteAt (ax_data w) (2 * i + 1)"
    by (simp_all add: byteAt_def algebra_simps)
  show ?thesis
    unfolding addColumn_def both data columnOf_def
    using assms(1) unat_be16 by (simp add: addSum_one oneSum_small)
qed

lemma columns_full:
  assumes "lanes w = kept cs" 
  shows "columnOf w 0 + columnOf w 1 + columnOf w 2 + columnOf w 3 = packetSum cs"
proof -
  have "length cs = 8" using arg_cong [OF assms, of length] by simp
  then obtain c0 c1 c2 c3 c4 c5 c6 c7 where cs: "cs = [c0, c1, c2, c3, c4, c5, c6, c7]"
    by (auto simp: numeral_eq_Suc length_Suc_conv)
  have "byteAt (ax_data w) i = cs ! i \<and> bit (ax_keep w) i" if "i < 8" for i
    using arg_cong [OF assms, of "\<lambda>l. l ! i"] that \<open>length cs = 8\<close> by (simp add: nth_lanes)
  from this [of 0] this [of 1] this [of 2] this [of 3] this [of 4] this [of 5] this [of 6] this [of 7]
  show ?thesis by (simp add: columnOf_def packetSum_def cs)
qed

lemma columns_last:
  assumes "lanes w = kept cs @ map (\<lambda>j. (j, False)) js"
  shows "columnOf w 0 + columnOf w 1 + columnOf w 2 + columnOf w 3 = packetSum cs"
proof -
  have len: "length cs \<le> 8" using arg_cong [OF assms, of length] by simp
  have b: "bit (ax_keep w) i = (i < length cs) \<and> (i < length cs \<longrightarrow> byteAt (ax_data w) i = cs ! i)" if "i < 8" for i
    using arg_cong [OF assms, of "\<lambda>l. l ! i"] that arg_cong [OF assms, of length]
    by (auto simp: nth_lanes nth_append split: if_splits)
  have "cs = [] \<or> (\<exists>a. cs = [a]) \<or> (\<exists>a b. cs = [a, b]) \<or> (\<exists>a b c. cs = [a, b, c]) \<or> (\<exists>a b c d. cs = [a, b, c, d]) \<or>
      (\<exists>a b c d e. cs = [a, b, c, d, e]) \<or> (\<exists>a b c d e f. cs = [a, b, c, d, e, f]) \<or>
      (\<exists>a b c d e f g. cs = [a, b, c, d, e, f, g]) \<or> (\<exists>a b c d e f g h. cs = [a, b, c, d, e, f, g, h])"
    using len by (auto simp: numeral_eq_Suc le_Suc_eq length_Suc_conv)
  with b [of 0] b [of 1] b [of 2] b [of 3] b [of 4] b [of 5] b [of 6] b [of 7]
  show ?thesis by (elim disjE exE) (simp_all add: columnOf_def packetSum_def)
qed

text \<open>Over a packet.\<close>

lemma packetSum_append8: "length cs = 8 \<Longrightarrow> packetSum (cs @ bs) = packetSum cs + packetSum bs"
  by (auto simp: numeral_eq_Suc length_Suc_conv packetSum_def)

lemma checksum_words:
  assumes "carries ws bs" and "cs_dataIn k = ws @ rest" and "\<And>i. i < 4 \<Longrightarrow> unat (cs_sums k i) = oneSum (n i)"
  shows "\<exists>k'. (two_complement_subchecksums ^^ length ws) k = k' \<and> cs_dataIn k' = rest \<and>
    cs_dataOut k' = cs_dataOut k @ ws \<and> cs_sums k' = (\<lambda>i. 0) \<and>
    (\<exists>s. cs_subSums k' = cs_subSums k @ [s] \<and> (\<exists>m. (\<forall>i<4. unat (s i) = oneSum (m i)) \<and>
       m 0 + m 1 + m 2 + m 3 = n 0 + n 1 + n 2 + n 3 + packetSum bs))"
  using assms
proof (induction ws arbitrary: k bs n)
  case Nil
  then show ?case by simp
next
  case (Cons w ws)
  let ?sums = "\<lambda>i. if i < 4 then addColumn w i (cs_sums k i) else cs_sums k i"
  define m where "m = (\<lambda>i. n i + columnOf w i)"
  have s: "unat (?sums i) = oneSum (m i)" if "i < 4" for i
    using Cons.prems(3) [OF that] that by (simp add: addColumn_one oneSum_le m_def)
  have total: "m 0 + m 1 + m 2 + m 3 = n 0 + n 1 + n 2 + n 3 + (columnOf w 0 + columnOf w 1 + columnOf w 2 + columnOf w 3)"
    by (simp add: m_def)
  let ?k = "k\<lparr>cs_dataIn := ws @ rest, cs_dataOut := cs_dataOut k @ [w], cs_sums := ?sums\<rparr>"
  have st: "two_complement_subchecksums k =
      (if ax_last w then ?k\<lparr>cs_subSums := cs_subSums k @ [?sums], cs_sums := (\<lambda>i. 0)\<rparr> else ?k)"
    using Cons.prems(2) by (simp add: two_complement_subchecksums_def s_write_def Let_def)
  show ?case
  proof (cases "ws = []")
    case True
    then obtain js where w: "ax_last w" "lanes w = kept bs @ map (\<lambda>j. (j, False)) js"
      using Cons.prems(1) by (auto simp: carries_single lastWord_lanes)
    have "\<exists>m. (\<forall>i<4. unat (?sums i) = oneSum (m i)) \<and> m 0 + m 1 + m 2 + m 3 = n 0 + n 1 + n 2 + n 3 + packetSum bs"
      using s total columns_last [OF w(2)] by (intro exI [of _ m]) simp
    with True st w(1) show ?thesis by simp
  next
    case False
    then have w: "\<not> ax_last w" "lanes w = kept (take 8 bs)" "carries ws (drop 8 bs)" "8 < length bs"
      using Cons.prems(1) by (simp_all add: carries_Cons)
    have "packetSum bs = packetSum (take 8 bs) + packetSum (drop 8 bs)"
      using packetSum_append8 [of "take 8 bs" "drop 8 bs"] w(4) by simp
    with total columns_full [OF w(2)]
    have t: "m 0 + m 1 + m 2 + m 3 + packetSum (drop 8 bs) = n 0 + n 1 + n 2 + n 3 + packetSum bs" by simp
    have k: "cs_dataIn (two_complement_subchecksums k) = ws @ rest"
      "i < 4 \<Longrightarrow> unat (cs_sums (two_complement_subchecksums k) i) = oneSum (m i)" for i
      using w(1) s by (simp_all add: st)
    from Cons.IH [OF w(3) k] show ?thesis
      unfolding t using w(1) by (simp add: st funpow_Suc_apply del: funpow.simps(2))
  qed
qed

lemma totalSum_one:
  assumes "\<forall>i<4. unat (s i) = oneSum (m i)"
  shows "unat (totalSum s) = oneSum (m 0 + m 1 + m 2 + m 3)"
proof -
  have "unat (s 0) = oneSum (m 0)" "unat (s 1) = oneSum (m 1)" "unat (s 2) = oneSum (m 2)" "unat (s 3) = oneSum (m 3)"
    using assms by auto
  then show ?thesis
    unfolding totalSum_def by (simp add: addSum_one oneSum_le addSum_le) (simp add: ac_simps)
qed

lemma complement_low:
  assumes "unat s \<le> 65535"
  shows "unat (rng 15 0 (NOT (s :: 17 word)) :: 16 word) = 65535 - unat s"
proof -
  have "(rng 15 0 (NOT s) :: 16 word) = NOT (rng 15 0 s)" by (rule bit_word_eqI) (auto simp: bit_simps)
  also have "\<dots> = - 1 - rng 15 0 s" by (simp add: not_eq_complement)
  finally have "unat (rng 15 0 (NOT s) :: 16 word) = unat (- 1 :: 16 word) - unat (rng 15 0 s :: 16 word)"
    by (simp add: unat_sub)
  moreover have "unat (rng 15 0 s :: 16 word) = unat s"
    using assms by (simp add: rng_def unsigned_ucast_eq unsigned_take_bit_eq take_bit_nat_eq_self)
  ultimately show ?thesis by (simp add: unsigned_minus_1_eq_mask mask_eq_exp_minus_1)
qed

lemma checksum_packet:
  assumes "carries ws bs" and "cs_dataIn k = ws @ rest" and "cs_sums k = (\<lambda>i. 0)" and "cs_subSums k = []"
  shows "\<exists>k'. (two_complement_subchecksums ^^ length ws) k = k' \<and> cs_dataIn k' = rest \<and>
    cs_dataOut k' = cs_dataOut k @ ws \<and> cs_sums k' = (\<lambda>i. 0) \<and>
    check_ipv4_checksum (cs_subSums k', valid) = ([], valid @ [oneSum (packetSum bs) = 65535]) \<and>
    (\<exists>c. snd (finalize_ipv4_checksum (cs_subSums k', sums)) = sums @ [c] \<and> unat c = 65535 - oneSum (packetSum bs))"
proof -
  have z: "\<And>i. i < 4 \<Longrightarrow> unat (cs_sums k i) = oneSum 0" using assms(3) by (simp add: oneSum_def)
  obtain k' s m where k': "(two_complement_subchecksums ^^ length ws) k = k'" "cs_dataIn k' = rest"
    "cs_dataOut k' = cs_dataOut k @ ws" "cs_sums k' = (\<lambda>i. 0)" "cs_subSums k' = [s]"
    "\<forall>i<4. unat (s i) = oneSum (m i)" "m 0 + m 1 + m 2 + m 3 = packetSum bs"
    using checksum_words [OF assms(1,2), of "\<lambda>i. 0"] z assms(4) by auto
  have t: "unat (totalSum s) = oneSum (packetSum bs)" using totalSum_one [OF k'(6)] k'(7) by simp
  have c: "unat (rng 15 0 (NOT (totalSum s)) :: 16 word) = 65535 - oneSum (packetSum bs)"
    using complement_low [of "totalSum s"] t oneSum_le by simp
  have "(rng 15 0 (NOT (totalSum s)) :: 16 word) = 0 \<longleftrightarrow> oneSum (packetSum bs) = 65535"
    using c oneSum_le [of "packetSum bs"] by (auto simp: unat_eq_0 [symmetric] simp del: unat_eq_0)
  with c k'(1-5) show ?thesis
    by (simp add: check_ipv4_checksum_def finalize_ipv4_checksum_def s_write_def)
qed

text \<open>C31: The checksum stages agree with the one's complement sum of the packet: the packet is passed on unchanged, the
  check says valid exactly when the folded sum is all ones, and the checksum computed is the complement of the
  folded sum, which makes the sum of packet and checksum all ones.\<close>

theorem internet_checksum:
  assumes "carries ws bs" and "cs_dataIn k = ws @ rest" and "cs_sums k = (\<lambda>i. 0)" and "cs_subSums k = []"
  shows "\<exists>k'. (two_complement_subchecksums ^^ length ws) k = k' \<and> cs_dataIn k' = rest \<and>
    cs_dataOut k' = cs_dataOut k @ ws \<and> cs_sums k' = (\<lambda>i. 0) \<and>
    snd (check_ipv4_checksum (cs_subSums k', valid)) = valid @ [oneSum (packetSum bs) = 65535] \<and>
    (\<exists>c. snd (finalize_ipv4_checksum (cs_subSums k', sums)) = sums @ [c] \<and> unat c = 65535 - oneSum (packetSum bs))"
  using checksum_packet [OF assms, of valid sums] by auto

definition sampleChecksum :: checksumStage where
  "sampleChecksum = \<lparr>cs_sums = (\<lambda>i. 0), cs_dataIn = [\<lparr>ax_data = 0x0807060504030201, ax_keep = 0xFF, ax_last = False\<rparr>,
     \<lparr>ax_data = 0xFF09, ax_keep = 1, ax_last = True\<rparr>], cs_dataOut = [], cs_subSums = []\<rparr>"

theorem internet_checksum_witness:
  "\<exists>c. snd (finalize_ipv4_checksum (cs_subSums ((two_complement_subchecksums ^^ 2) sampleChecksum), [])) = [c] \<and>
     unat c = 65535 - 6420"
proof -
  have h: "carries (cs_dataIn sampleChecksum) [1, 2, 3, 4, 5, 6, 7, 8, 9]" "cs_dataIn sampleChecksum = cs_dataIn sampleChecksum @ []"
    "cs_sums sampleChecksum = (\<lambda>i. 0)" "cs_subSums sampleChecksum = []"
    by (code_simp, simp_all add: sampleChecksum_def)
  have p: "oneSum (packetSum [1, 2, 3, 4, 5, 6, 7, 8, 9]) = 6420"
    by (simp add: packetSum_def oneSum_def be16_def upd_def mask_eq_exp_minus_1)
  have l: "length (cs_dataIn sampleChecksum) = 2" by (simp add: sampleChecksum_def)
  from internet_checksum [OF h, where sums = "[]" and valid = "[]"] obtain k' c where
    "(two_complement_subchecksums ^^ 2) sampleChecksum = k'"
    "snd (finalize_ipv4_checksum (cs_subSums k', [])) = [] @ [c]" "unat c = 65535 - 6420"
    unfolding p l by blast
  then show ?thesis by (intro exI [of _ c]) (simp only: append_Nil)
qed

end
