(* ===== verification/Toe_Rx_Segment.thy ===== *)
theory Toe_Rx_Segment
  imports Toe_Rx_Fsm Toe_Rx_Ip Net_Checksum
begin

text \<open>
  The stages of the receive engine that read a TCP segment (\<^verbatim>\<open>toe/rx_engine/rx_engine.cpp\<close>):
  \<^verbatim>\<open>prependPseudoHeader\<close> puts the pseudo header of the checksum in front of it,
  \<^verbatim>\<open>processPseudoHeader\<close> reads header and verdict, \<^verbatim>\<open>drop_optional_header_fields\<close>
  takes off the options.  The theorems give each stage on the bytes of a segment.
\<close>

section \<open>Pseudo header\<close>

datatype prependState = PH_META | PH_HEADER | PH_PAYLOAD

record prependStage =
  pp_state :: prependState
  pp_prevWord :: axiWord
  pp_firstPayload :: bool
  pp_header :: "96 word packetHeader"
  pp_ipMetaIn :: "pseudoMeta hls_stream"
  pp_packetIn :: "axiWord hls_stream"
  pp_output :: "axiWord hls_stream"

definition prependPseudoHeader :: "prependStage \<Rightarrow> prependStage" where
  "prependPseudoHeader k =
     (case pp_state k of
        PH_META \<Rightarrow>
          if \<not> s_empty (pp_ipMetaIn k) then
            (let meta = s_head (pp_ipMetaIn k); h = clearHeader (pp_header k) in
             k\<lparr>pp_ipMetaIn := s_rest (pp_ipMetaIn k),
               pp_header := h\<lparr>ph_header := upd 95 80 (reverse16 (pm_length meta))
                 (upd 63 32 (reverse32 (pm_our_address meta)) (upd 31 0 (reverse32 (pm_their_address meta)) (ph_header h)))\<rparr>,
               pp_state := PH_HEADER\<rparr>)
          else k
      | PH_HEADER \<Rightarrow>
          (let (d, remainingLength, h) = consumeWord (ax_data (pp_prevWord k)) (pp_header k);
               word = \<lparr>ax_data = d, ax_keep = 0xFF, ax_last = False\<rparr> in
           if remainingLength \<noteq> 0
           then k\<lparr>pp_header := h, pp_prevWord := word, pp_output := s_write (pp_output k) word\<rparr>
           else k\<lparr>pp_header := h, pp_prevWord := word, pp_firstPayload := True, pp_state := PH_PAYLOAD\<rparr>)
      | PH_PAYLOAD \<Rightarrow>
          if \<not> s_empty (pp_packetIn k) then
            (let currWord = s_head (pp_packetIn k);
                 sendWord = (if pp_firstPayload k
                   then currWord\<lparr>ax_data := upd 31 0 (rng 31 0 (ax_data (pp_prevWord k)) :: 32 word) (ax_data currWord)\<rparr>
                   else currWord)
             in k\<lparr>pp_packetIn := s_rest (pp_packetIn k), pp_firstPayload := False,
                  pp_output := s_write (pp_output k) sendWord,
                  pp_state := (if ax_last currWord then PH_META else PH_PAYLOAD)\<rparr>)
          else k)"

text \<open>The constructor of the header sets the zero byte and the protocol; nothing changes them.\<close>

definition prependReady :: "prependStage \<Rightarrow> bool" where
  "prependReady k \<longleftrightarrow> pp_state k = PH_META \<and> headerByte (ph_header (pp_header k)) 8 = 0 \<and>
     headerByte (ph_header (pp_header k)) 9 = 6"

definition pseudoBytes :: "pseudoMeta \<Rightarrow> 8 word list" where
  "pseudoBytes m = bytes32 (pm_their_address m) @ bytes32 (pm_our_address m) @ [0, 6] @ bytes16 (pm_length m)"

lemma carries_front:
  assumes "carries (w # ws) bs" and "4 \<le> length bs"
  shows "carries (w\<lparr>ax_data := upd 31 0 (v :: 32 word) (ax_data w)\<rparr> # ws) (map (\<lambda>i. rng (8 * i + 7) (8 * i) v) [0..<4] @ drop 4 bs)"
proof -
  let ?w = "w\<lparr>ax_data := upd 31 0 v (ax_data w)\<rparr>" and ?vs = "map (\<lambda>i. rng (8 * i + 7) (8 * i) v :: 8 word) [0..<4]"
  have byte: "byteAt (upd 31 0 v d) i = (if i < 4 then rng (8 * i + 7) (8 * i) v else byteAt d i)" for d i
    by (rule bit_word_eqI) (auto simp: byteAt_def bit_simps)
  have l: "lanes ?w ! i = (if i < 4 then (?vs ! i, snd (lanes w ! i)) else lanes w ! i)" if "i < 8" for i
    using that by (auto simp: nth_lanes byte nth_upt)
  have join: "lanes ?w = kept (?vs @ drop 4 cs) @ js" if "lanes w = kept cs @ js" "4 \<le> length cs" for cs js
  proof (rule nth_equalityI)
    show "length (lanes ?w) = length (kept (?vs @ drop 4 cs) @ js)"
      using arg_cong [OF that(1), of length] that(2) by simp
    fix i assume "i < length (lanes ?w)"
    then have i: "i < 8" by simp
    show "lanes ?w ! i = (kept (?vs @ drop 4 cs) @ js) ! i"
      unfolding l [OF i] that(1) using that(2) by (auto simp: nth_append)
  qed
  show ?thesis
  proof (cases "ws = []")
    case True
    then obtain js where w: "ax_last w" "lanes w = kept bs @ map (\<lambda>j. (j, False)) js"
      using assms(1) by (auto simp: carries_single lastWord_lanes)
    from join [OF w(2) assms(2)] True w(1) show ?thesis unfolding True carries_single lastWord_lanes by auto
  next
    case False
    then have w: "\<not> ax_last w" "8 < length bs" "lanes w = kept (take 8 bs) @ []" "carries ws (drop 8 bs)"
      using assms(1) by (simp_all add: carries_Cons)
    have "take 8 (?vs @ drop 4 bs) = ?vs @ drop 4 (take 8 bs)" by (simp add: drop_take)
    with join [OF w(3)] False w show ?thesis by (simp add: carries_Cons)
  qed
qed

lemma pp_words: "is_packet ws \<Longrightarrow> pp_state k = PH_PAYLOAD \<Longrightarrow> \<not> pp_firstPayload k \<Longrightarrow> pp_packetIn k = ws @ rest \<Longrightarrow>
    (prependPseudoHeader ^^ length ws) k = k\<lparr>pp_packetIn := rest, pp_output := pp_output k @ ws, pp_state := PH_META\<rparr>"
proof (induction ws arbitrary: k)
  case Nil
  then show ?case by simp
next
  case (Cons w ws)
  have st: "prependPseudoHeader k = k\<lparr>pp_packetIn := ws @ rest, pp_output := pp_output k @ [w],
      pp_state := (if ax_last w then PH_META else PH_PAYLOAD)\<rparr>"
    using Cons.prems(2-4) by (simp add: prependPseudoHeader_def s_write_def Let_def)
  show ?case
  proof (cases "ax_last w")
    case True
    then have "ws = []" using Cons.prems(1) by (simp add: is_packet_Cons)
    with True st show ?thesis by simp
  next
    case False
    then have "is_packet ws" using Cons.prems(1) by (simp add: is_packet_Cons)
    with Cons.IH [of "prependPseudoHeader k"] Cons.prems(3) False st show ?thesis
      by (simp add: funpow_Suc_apply del: funpow.simps(2))
  qed
qed

lemma prepend_packet:
  assumes "prependReady k" and "pp_ipMetaIn k = m # ms" and "pp_packetIn k = ws @ rest" and "carries ws bs" and "4 \<le> length bs"
  shows "\<exists>n out. prependReady ((prependPseudoHeader ^^ n) k) \<and> pp_ipMetaIn ((prependPseudoHeader ^^ n) k) = ms \<and>
    pp_packetIn ((prependPseudoHeader ^^ n) k) = rest \<and>
    pp_output ((prependPseudoHeader ^^ n) k) = pp_output k @ out \<and> carries out (pseudoBytes m @ drop 4 bs)"
proof -
  obtain w vs where ws: "ws = w # vs" using carries_nonempty [OF assms(4)] by (cases ws) auto
  define h where "h = upd 95 80 (reverse16 (pm_length m))
    (upd 63 32 (reverse32 (pm_our_address m)) (upd 31 0 (reverse32 (pm_their_address m)) (ph_header (pp_header k))))"
  have old: "(rng 71 64 (ph_header (pp_header k)) :: 8 word) = 0" "(rng 79 72 (ph_header (pp_header k)) :: 8 word) = 6"
    using assms(1) by (simp_all add: prependReady_def headerByte_def)
  have hb: "map (headerByte h) [0..<12] = pseudoBytes m"
    by (simp add: upt_rec h_def headerByte_def rng_upd_inside rng_simps reverse32_rng reverse16_rng old
        pseudoBytes_def bytes32_def bytes16_def)
  have "headerByte h i = pseudoBytes m ! i" if "i < 12" for i using that by (simp flip: hb)
  from this [of 8] this [of 9] have proto: "headerByte h 8 = 0" "headerByte h 9 = 6"
    by (simp_all add: pseudoBytes_def bytes32_def bytes16_def)
  define first where "first = \<lparr>ax_data = rng 63 0 h, ax_keep = 0xFF, ax_last = False\<rparr>"
  define second where "second = upd 31 0 (rng 95 64 h :: 64 word) (rng 63 0 h :: 64 word)"
  let ?w = "w\<lparr>ax_data := upd 31 0 (rng 31 0 second :: 32 word) (ax_data w)\<rparr>"
  have st1: "prependPseudoHeader k = k\<lparr>pp_ipMetaIn := ms,
      pp_header := \<lparr>ph_ready = False, ph_idx = 0, ph_header = h\<rparr>, pp_state := PH_HEADER\<rparr>"
    using assms(1,2) by (simp add: prependPseudoHeader_def prependReady_def clearHeader_def h_def Let_def)
  have st2: "(prependPseudoHeader ^^ 2) k = k\<lparr>pp_ipMetaIn := ms,
      pp_header := \<lparr>ph_ready = False, ph_idx = 1, ph_header = h\<rparr>, pp_state := PH_HEADER, pp_prevWord := first,
      pp_output := pp_output k @ [first]\<rparr>"
    by (simp add: numeral_2_eq_2 st1)
      (simp add: prependPseudoHeader_def consumeWord_def s_write_def first_def Let_def)
  have st3: "(prependPseudoHeader ^^ 3) k = k\<lparr>pp_ipMetaIn := ms,
      pp_header := \<lparr>ph_ready = False, ph_idx = 2, ph_header = h\<rparr>, pp_state := PH_PAYLOAD, pp_firstPayload := True,
      pp_prevWord := \<lparr>ax_data = second, ax_keep = 0xFF, ax_last = False\<rparr>, pp_output := pp_output k @ [first]\<rparr>"
    using st2 by (simp add: numeral_3_eq_3 numeral_2_eq_2)
      (simp add: prependPseudoHeader_def consumeWord_def second_def first_def Let_def)
  let ?k = "k\<lparr>pp_ipMetaIn := ms, pp_header := \<lparr>ph_ready = False, ph_idx = 2, ph_header = h\<rparr>, pp_firstPayload := False,
      pp_prevWord := \<lparr>ax_data = second, ax_keep = 0xFF, ax_last = False\<rparr>, pp_packetIn := vs @ rest,
      pp_output := pp_output k @ [first, ?w], pp_state := (if ax_last w then PH_META else PH_PAYLOAD)\<rparr>"
  have st4: "(prependPseudoHeader ^^ 4) k = ?k"
  proof -
    have "(prependPseudoHeader ^^ (1 + 3)) k = prependPseudoHeader ((prependPseudoHeader ^^ 3) k)"
      by (simp add: numeral_eq_Suc)
    then show ?thesis using st3 assms(3) ws by (simp add: prependPseudoHeader_def s_write_def Let_def)
  qed
  have run: "(prependPseudoHeader ^^ length vs) ?k = ?k\<lparr>pp_packetIn := rest, pp_output := pp_output k @ first # ?w # vs, pp_state := PH_META\<rparr>"
  proof (cases "vs = []")
    case True
    then have "ax_last w" using assms(4) ws by (simp add: carries_single lastWord_def)
    with True show ?thesis by simp
  next
    case False
    then have "\<not> ax_last w" "is_packet vs" using carries_packet [OF assms(4)] ws by (auto simp: is_packet_Cons split: if_splits)
    with pp_words [of vs ?k rest] show ?thesis by simp
  qed
  have bytes: "map (\<lambda>i. rng (8 * i + 7) (8 * i) (rng 31 0 second :: 32 word)) [0..<4] = map (headerByte h) [8..<12]"
    by (simp add: upt_rec second_def headerByte_def rng_simps rng_upd_inside)
  have "carries (?w # vs) (map (headerByte h) [8..<12] @ drop 4 bs)"
    using carries_front [of w vs bs "rng 31 0 second"] assms(4,5) ws by (simp add: bytes)
  moreover have "lanes first = kept (map (headerByte h) [0..<8])"
    by (rule nth_equalityI) (auto simp: nth_lanes first_def byteAt_def headerByte_def rng_simps less_Suc_eq numeral_eq_Suc)
  ultimately have "carries (first # ?w # vs) (map (headerByte h) [0..<8] @ map (headerByte h) [8..<12] @ drop 4 bs)"
    by (simp add: carries_Cons first_def)
  moreover have "map (headerByte h) [0..<8] @ map (headerByte h) [8..<12] = pseudoBytes m"
  proof -
    have "[0..<12] = [0..<8] @ [8..<12]" by (simp add: upt_rec)
    then show ?thesis by (simp only: hb [symmetric] map_append)
  qed
  ultimately have "carries (first # ?w # vs) (pseudoBytes m @ drop 4 bs)" by (metis append_assoc)
  moreover have "(prependPseudoHeader ^^ (length vs + 4)) k = (prependPseudoHeader ^^ length vs) ?k"
    using st4 by (simp only: funpow_add comp_apply)
  ultimately show ?thesis
    unfolding run using proto
    by (intro exI [of _ "length vs + 4"] exI [of _ "first # ?w # vs"]) (simp add: run prependReady_def del: funpow.simps)
qed

section \<open>TCP header\<close>

record optionalFieldsMeta =
  of_dataOffset :: "4 word"
  of_syn :: bool

text \<open>The accessors of \<^verbatim>\<open>tcpFullPseudoHeader\<close>.\<close>

definition fullSrcAddr :: "256 word \<Rightarrow> 32 word" where "fullSrcAddr h = reverse32 (rng 31 0 h)"
definition fullDstAddr :: "256 word \<Rightarrow> 32 word" where "fullDstAddr h = reverse32 (rng 63 32 h)"
definition isMulticast :: "32 word \<Rightarrow> bool" where "isMulticast addr \<longleftrightarrow> (rng 7 4 addr :: 4 word) = 0xE"
definition isBroadcast :: "32 word \<Rightarrow> bool" where "isBroadcast addr \<longleftrightarrow> addr = 0xFFFFFFFF"
definition fullLength :: "256 word \<Rightarrow> 16 word" where "fullLength h = reverse16 (rng 95 80 h)"
definition fullSrcPort :: "256 word \<Rightarrow> 16 word" where "fullSrcPort h = reverse16 (rng 111 96 h)"
definition fullDstPort :: "256 word \<Rightarrow> 16 word" where "fullDstPort h = reverse16 (rng 127 112 h)"
definition fullSeqNumb :: "256 word \<Rightarrow> 32 word" where "fullSeqNumb h = reverse32 (rng 159 128 h)"
definition fullAckNumb :: "256 word \<Rightarrow> 32 word" where "fullAckNumb h = reverse32 (rng 191 160 h)"
definition fullDataOffset :: "256 word \<Rightarrow> 4 word" where "fullDataOffset h = rng 199 196 h"
definition fullWindowSize :: "256 word \<Rightarrow> 16 word" where "fullWindowSize h = reverse16 (rng 223 208 h)"

record segmentStage =
  sg_header :: "256 word packetHeader"
  sg_firstWord :: bool
  sg_pkgValid :: bool
  sg_metaWritten :: bool
  sg_dataIn :: "axiWord hls_stream"
  sg_dataOut :: "axiWord hls_stream"
  sg_validIn :: "bool hls_stream"
  sg_metaOut :: "rxEngineMetaData hls_stream"
  sg_tupleOut :: "fourTuple hls_stream"
  sg_portOut :: "16 word hls_stream"
  sg_ofMetaOut :: "optionalFieldsMeta hls_stream"
  sg_invalidSeg :: "1 word hls_stream"
  sg_receivedSeg :: "1 word hls_stream"

text \<open>Without window scaling nothing writes the scale of the metadata: \<open>junk\<close>.\<close>

definition headerMeta :: "4 word \<Rightarrow> 256 word \<Rightarrow> rxEngineMetaData" where
  "headerMeta junk h =
     \<lparr>rm_seqNumb = fullSeqNumb h, rm_ackNumb = fullAckNumb h, rm_winSize = fullWindowSize h, rm_winScale = junk,
      rm_length = fullLength h - ucast (fullDataOffset h) * 4, rm_ack = bit h 204, rm_rst = bit h 202,
      rm_syn = bit h 201, rm_fin = bit h 200, rm_dataOffset = fullDataOffset h\<rparr>"

definition headerTuple :: "256 word \<Rightarrow> fourTuple" where
  "headerTuple h = \<lparr>ft_srcIp = reverse32 (fullSrcAddr h), ft_dstIp = reverse32 (fullDstAddr h),
     ft_srcPort = reverse16 (fullSrcPort h), ft_dstPort = reverse16 (fullDstPort h)\<rparr>"

definition headerUnicast :: "256 word \<Rightarrow> bool" where
  "headerUnicast h \<longleftrightarrow> \<not> (isMulticast (rng 63 32 h) \<or> isBroadcast (rng 63 32 h) \<or> isMulticast (rng 31 0 h) \<or> isBroadcast (rng 31 0 h))"

text \<open>The header is there: its metadata go out, or the segment is counted as invalid.\<close>

definition headerDone :: "4 word \<Rightarrow> segmentStage \<Rightarrow> segmentStage" where
  "headerDone junk k =
     (let h = ph_header (sg_header k);
          k = k\<lparr>sg_pkgValid := sg_pkgValid k \<and> headerUnicast h\<rparr>;
          meta = headerMeta junk h in
      if sg_metaWritten k then k
      else if sg_pkgValid k then
        k\<lparr>sg_metaWritten := True, sg_metaOut := s_write (sg_metaOut k) meta,
          sg_portOut := s_write (sg_portOut k) (fullDstPort h), sg_tupleOut := s_write (sg_tupleOut k) (headerTuple h),
          sg_ofMetaOut := (if rm_length meta \<noteq> 0 \<or> fullDataOffset h > 5
            then s_write (sg_ofMetaOut k) \<lparr>of_dataOffset = fullDataOffset h - 5, of_syn = rm_syn meta\<rparr>
            else sg_ofMetaOut k)\<rparr>
      else k\<lparr>sg_metaWritten := True, sg_invalidSeg := s_write (sg_invalidSeg k) 1\<rparr>)"

definition processPseudoHeader :: "4 word \<Rightarrow> segmentStage \<Rightarrow> segmentStage" where
  "processPseudoHeader junk k =
     (if \<not> s_empty (sg_dataIn k) \<and> (\<not> sg_firstWord k \<or> \<not> s_empty (sg_validIn k)) then
        (let word = s_head (sg_dataIn k);
             k = k\<lparr>sg_dataIn := s_rest (sg_dataIn k), sg_header := parseWord (ax_data word) (sg_header k)\<rparr>;
             k = (if sg_firstWord k
                  then k\<lparr>sg_pkgValid := s_head (sg_validIn k), sg_validIn := s_rest (sg_validIn k),
                         sg_firstWord := False, sg_receivedSeg := s_write (sg_receivedSeg k) 1\<rparr> else k);
             k = (if sg_metaWritten k \<and> sg_pkgValid k then k\<lparr>sg_dataOut := s_write (sg_dataOut k) word\<rparr> else k);
             k = (if ph_ready (sg_header k) then headerDone junk k else k)
         in if ax_last word
            then k\<lparr>sg_header := clearHeader (sg_header k), sg_firstWord := True, sg_metaWritten := False\<rparr> else k)
      else k)"

definition segReady :: "segmentStage \<Rightarrow> bool" where
  "segReady k \<longleftrightarrow> sg_firstWord k \<and> \<not> sg_metaWritten k \<and> ph_idx (sg_header k) = 0 \<and> \<not> ph_ready (sg_header k)"

text \<open>The header on the bytes of pseudo header and segment.\<close>

definition segMeta :: "4 word \<Rightarrow> 8 word list \<Rightarrow> rxEngineMetaData" where
  "segMeta junk bs =
     (let off = rng 7 4 (bs ! 24) :: 4 word in
      \<lparr>rm_seqNumb = be32 (bs ! 16) (bs ! 17) (bs ! 18) (bs ! 19), rm_ackNumb = be32 (bs ! 20) (bs ! 21) (bs ! 22) (bs ! 23),
       rm_winSize = be16 (bs ! 26) (bs ! 27), rm_winScale = junk, rm_length = be16 (bs ! 10) (bs ! 11) - ucast off * 4,
       rm_ack = bit (bs ! 25) 4, rm_rst = bit (bs ! 25) 2, rm_syn = bit (bs ! 25) 1, rm_fin = bit (bs ! 25) 0,
       rm_dataOffset = off\<rparr>)"

text \<open>Addresses and ports of the tuple are in network order.\<close>

definition segTuple :: "8 word list \<Rightarrow> fourTuple" where
  "segTuple bs = \<lparr>ft_srcIp = be32 (bs ! 3) (bs ! 2) (bs ! 1) (bs ! 0), ft_dstIp = be32 (bs ! 7) (bs ! 6) (bs ! 5) (bs ! 4),
     ft_srcPort = be16 (bs ! 13) (bs ! 12), ft_dstPort = be16 (bs ! 15) (bs ! 14)\<rparr>"

definition unicast :: "8 word list \<Rightarrow> bool" where
  "unicast bs \<longleftrightarrow> (rng 7 4 (bs ! 0) :: 4 word) \<noteq> 0xE \<and> take 4 bs \<noteq> replicate 4 0xFF \<and>
     (rng 7 4 (bs ! 4) :: 4 word) \<noteq> 0xE \<and> take 4 (drop 4 bs) \<noteq> replicate 4 0xFF"

lemma reverse32_be: "reverse32 (be32 a b c d) = be32 d c b a"
  by (rule word32_eqI) (simp_all add: reverse32_rng be_rng)

lemma reverse16_be: "reverse16 (be16 a b) = be16 b a"
  by (rule word16_eqI) (simp_all add: reverse16_rng be_rng)

lemma rng32_raw: "lo = 8 * i \<Longrightarrow> hi = lo + 31 \<Longrightarrow> hi < LENGTH('h) \<Longrightarrow> (rng hi lo (h :: 'h::len word) :: 32 word) =
    be32 (headerByte h (i + 3)) (headerByte h (i + 2)) (headerByte h (i + 1)) (headerByte h i)"
  using arg_cong [OF rng32_bytes [of lo i hi h], of reverse32] by (simp add: reverse32_be)

lemma rng16_raw: "lo = 8 * i \<Longrightarrow> hi = lo + 15 \<Longrightarrow> hi < LENGTH('h) \<Longrightarrow> (rng hi lo (h :: 'h::len word) :: 16 word) =
    be16 (headerByte h (Suc i)) (headerByte h i)"
  using arg_cong [OF rng16_bytes [of lo i hi h], of reverse16] by (simp add: reverse16_be)

lemma bit_byte: "n = 8 * i + j \<Longrightarrow> j < 8 \<Longrightarrow> bit h n = bit (headerByte h i) j"
  by (simp add: headerByte_def bit_simps)

lemma be32_FF: "be32 a b c d = 0xFFFFFFFF \<longleftrightarrow> a = 0xFF \<and> b = 0xFF \<and> c = 0xFF \<and> d = 0xFF"
proof
  have f: "(rng 31 24 (0xFFFFFFFF :: 32 word) :: 8 word) = 0xFF" "(rng 23 16 (0xFFFFFFFF :: 32 word) :: 8 word) = 0xFF"
    "(rng 15 8 (0xFFFFFFFF :: 32 word) :: 8 word) = 0xFF" "(rng 7 0 (0xFFFFFFFF :: 32 word) :: 8 word) = 0xFF"
    by code_simp+
  {
    assume "be32 a b c d = 0xFFFFFFFF"
    with f be_rng(3-6) [of a b c d] show "a = 0xFF \<and> b = 0xFF \<and> c = 0xFF \<and> d = 0xFF" by simp
  next
    assume "a = 0xFF \<and> b = 0xFF \<and> c = 0xFF \<and> d = 0xFF"
    with f show "be32 a b c d = 0xFFFFFFFF" by (intro word32_eqI) (simp_all add: be_rng)
  }
qed

lemma header_fields:
  fixes h :: "256 word"
  assumes "\<And>i. i < 32 \<Longrightarrow> headerByte h i = bs ! i" and "32 \<le> length bs"
  shows "headerMeta junk h = segMeta junk bs" and "headerTuple h = segTuple bs" and "headerUnicast h = unicast bs"
    and "fullDstPort h = be16 (bs ! 14) (bs ! 15)" and "fullDataOffset h = rng 7 4 (bs ! 24)"
proof -
  have w32: "(rng (lo + 31) lo h :: 32 word) = be32 (bs ! (i + 3)) (bs ! (i + 2)) (bs ! (i + 1)) (bs ! i)"
    if "lo = 8 * i" "i + 3 < 32" for lo i
    using rng32_raw [of lo i "lo + 31" h] assms(1) that by simp
  have w16: "(rng (lo + 15) lo h :: 16 word) = be16 (bs ! Suc i) (bs ! i)" if "lo = 8 * i" "Suc i < 32" for lo i
    using rng16_raw [of lo i "lo + 15" h] assms(1) that by simp
  have off: "fullDataOffset h = rng 7 4 (bs ! 24)"
    using rng_byte [of 24 196 199 h, where 'a = 4] assms(1) [of 24] by (simp add: fullDataOffset_def)
  have bits: "bit h 204 = bit (bs ! 25) 4" "bit h 202 = bit (bs ! 25) 2" "bit h 201 = bit (bs ! 25) 1"
    "bit h 200 = bit (bs ! 25) 0"
    using assms(1) [of 25] bit_byte [of 204 25 4 h] bit_byte [of 202 25 2 h] bit_byte [of 201 25 1 h] bit_byte [of 200 25 0 h]
    by simp_all
  show "fullDataOffset h = rng 7 4 (bs ! 24)" by (rule off)
  show "headerMeta junk h = segMeta junk bs"
    using w32 [of 128 16] w32 [of 160 20] w16 [of 208 26] w16 [of 80 10] bits off
    by (simp add: headerMeta_def segMeta_def fullSeqNumb_def fullAckNumb_def fullWindowSize_def fullLength_def
        reverse32_be reverse16_be Let_def)
  show "headerTuple h = segTuple bs"
    using w32 [of 0 0] w32 [of 32 4] w16 [of 96 12] w16 [of 112 14]
    by (simp add: headerTuple_def segTuple_def fullSrcAddr_def fullDstAddr_def fullSrcPort_def fullDstPort_def
        eval_nat_numeral)
  show "fullDstPort h = be16 (bs ! 14) (bs ! 15)"
    using w16 [of 112 14] by (simp add: fullDstPort_def reverse16_be)
  have "(rng 7 4 (rng 63 32 h :: 32 word) :: 4 word) = rng 7 4 (bs ! 4)"
    "(rng 7 4 (rng 31 0 h :: 32 word) :: 4 word) = rng 7 4 (bs ! 0)"
    using rng_byte [of 4 36 39 h, where 'a = 4] rng_byte [of 0 4 7 h, where 'a = 4] assms(1) [of 4] assms(1) [of 0]
    by (simp_all add: rng_rng)
  moreover have "take 4 bs = [bs ! 0, bs ! 1, bs ! 2, bs ! 3]" "take 4 (drop 4 bs) = [bs ! 4, bs ! 5, bs ! 6, bs ! 7]"
    using assms(2) by (auto intro!: nth_equalityI simp: numeral_eq_Suc less_Suc_eq)
  ultimately show "headerUnicast h = unicast bs"
    using w32 [of 0 0] w32 [of 32 4]
    by (auto simp: headerUnicast_def unicast_def isMulticast_def isBroadcast_def be32_FF numeral_eq_Suc)
qed

lemma carries_tl: "carries (w # ws) bs \<Longrightarrow> 8 < length bs \<Longrightarrow>
    ws \<noteq> [] \<and> \<not> ax_last w \<and> carries ws (drop 8 bs) \<and> (\<forall>i<8. byteAt (ax_data w) i = bs ! i)"
  using carries_byte [of w ws bs] by (cases "ws = []") (auto simp: carries_Cons carries_single lastWord_def)

text \<open>The header takes four words; the fourth may be the last.\<close>

lemma carries_four:
  assumes "carries ws bs" and "32 \<le> length bs"
  shows "\<exists>a b c d vs. ws = a # b # c # d # vs \<and> \<not> ax_last a \<and> \<not> ax_last b \<and> \<not> ax_last c \<and> ax_last d = (vs = []) \<and>
    (if vs = [] then length bs = 32 else carries vs (drop 32 bs)) \<and>
    (\<forall>i<8. byteAt (ax_data a) i = bs ! i \<and> byteAt (ax_data b) i = bs ! (8 + i) \<and> byteAt (ax_data c) i = bs ! (16 + i) \<and>
      byteAt (ax_data d) i = bs ! (24 + i))"
proof -
  obtain a us where a: "ws = a # us" using assms(1) by (cases ws) auto
  have l: "8 < length bs" "8 < length (drop 8 bs)" "8 < length (drop 16 bs)" using assms(2) by simp_all
  have ca: "us \<noteq> [] \<and> \<not> ax_last a \<and> carries us (drop 8 bs) \<and> (\<forall>i<8. byteAt (ax_data a) i = bs ! i)"
    using carries_tl [of a us bs] assms(1) a l(1) by simp
  then obtain b ts where b: "us = b # ts" "carries us (drop 8 bs)" by (cases us) auto
  have cb: "ts \<noteq> [] \<and> \<not> ax_last b \<and> carries ts (drop 16 bs) \<and> (\<forall>i<8. byteAt (ax_data b) i = bs ! (8 + i))"
    using carries_tl [OF _ l(2), of b ts] b assms(2) by simp
  then obtain c ss where c: "ts = c # ss" "carries ts (drop 16 bs)" by (cases ts) auto
  have cc: "ss \<noteq> [] \<and> \<not> ax_last c \<and> carries ss (drop 24 bs) \<and> (\<forall>i<8. byteAt (ax_data c) i = bs ! (16 + i))"
    using carries_tl [OF _ l(3), of c ss] c assms(2) by simp
  then obtain d vs where d: "ss = d # vs" "carries ss (drop 24 bs)" by (cases ss) auto
  have ld: "ax_last d = (vs = []) \<and> (if vs = [] then length bs = 32 else carries vs (drop 32 bs)) \<and>
      (\<forall>i<8. byteAt (ax_data d) i = bs ! (24 + i))"
  proof (cases "vs = []")
    case True
    then obtain js where w: "ax_last d" "lanes d = kept (drop 24 bs) @ map (\<lambda>j. (j, False)) js"
      using d by (auto simp: carries_single lastWord_lanes)
    have "length bs = 32" using arg_cong [OF w(2), of length] assms(2) by simp
    then have "byteAt (ax_data d) i = bs ! (24 + i)" if "i < 8" for i
      using arg_cong [OF w(2), of "\<lambda>l. fst (l ! i)"] that by (simp add: nth_lanes nth_append)
    with True w(1) \<open>length bs = 32\<close> show ?thesis by simp
  next
    case False
    with d(2) have "8 < length (drop 24 bs)" unfolding d(1) by (simp add: carries_Cons)
    with False d carries_tl [of d vs "drop 24 bs"] assms(2) show ?thesis by simp
  qed
  show ?thesis
    using ca cb cc ld a b(1) c(1) d(1) by (intro exI [of _ a] exI [of _ b] exI [of _ c] exI [of _ d] exI [of _ vs]) simp
qed

text \<open>After the header the words are passed on if the segment is valid.\<close>

lemma seg_rest: "is_packet ws \<Longrightarrow> \<not> sg_firstWord k \<Longrightarrow> sg_metaWritten k \<Longrightarrow> ph_ready (sg_header k) \<Longrightarrow>
    (sg_pkgValid k \<longrightarrow> headerUnicast (ph_header (sg_header k))) \<Longrightarrow> sg_dataIn k = ws @ rest \<Longrightarrow>
    (processPseudoHeader junk ^^ length ws) k = k\<lparr>sg_dataIn := rest,
      sg_dataOut := (if sg_pkgValid k then sg_dataOut k @ ws else sg_dataOut k),
      sg_header := clearHeader (sg_header k), sg_firstWord := True, sg_metaWritten := False\<rparr>"
proof (induction ws arbitrary: k)
  case Nil
  then show ?case by simp
next
  case (Cons w ws)
  have p: "parseWord (ax_data w) (sg_header k) = sg_header k" using Cons.prems(4) by (simp add: parseWord_def)
  have v: "(sg_pkgValid k \<and> headerUnicast (ph_header (sg_header k))) = sg_pkgValid k" using Cons.prems(5) by blast
  let ?k = "k\<lparr>sg_dataIn := ws @ rest, sg_dataOut := (if sg_pkgValid k then sg_dataOut k @ [w] else sg_dataOut k)\<rparr>"
  have st: "processPseudoHeader junk k = (if ax_last w
      then ?k\<lparr>sg_header := clearHeader (sg_header k), sg_firstWord := True, sg_metaWritten := False\<rparr> else ?k)"
    using Cons.prems(2-4,6) v p by (cases k) (auto simp: processPseudoHeader_def headerDone_def s_write_def Let_def)
  show ?case
  proof (cases "ax_last w")
    case True
    then have "ws = []" using Cons.prems(1) by (simp add: is_packet_Cons)
    with True st show ?thesis by simp
  next
    case False
    then have "is_packet ws" using Cons.prems(1) by (simp add: is_packet_Cons)
    with Cons.IH [of "processPseudoHeader junk k"] Cons.prems(2-5) False st show ?thesis
      by (simp add: funpow_Suc_apply del: funpow.simps(2))
  qed
qed

definition segOutput :: "4 word \<Rightarrow> 8 word list \<Rightarrow> axiWord list \<Rightarrow> bool \<Rightarrow> segmentStage \<Rightarrow> segmentStage" where
  "segOutput junk bs data valid k =
     (let meta = segMeta junk bs in
      if valid \<and> unicast bs then
        k\<lparr>sg_dataOut := sg_dataOut k @ data, sg_metaOut := sg_metaOut k @ [meta], sg_tupleOut := sg_tupleOut k @ [segTuple bs],
          sg_portOut := sg_portOut k @ [be16 (bs ! 14) (bs ! 15)],
          sg_ofMetaOut := sg_ofMetaOut k @ (if rm_length meta \<noteq> 0 \<or> rm_dataOffset meta > 5
            then [\<lparr>of_dataOffset = rm_dataOffset meta - 5, of_syn = rm_syn meta\<rparr>] else [])\<rparr>
      else k\<lparr>sg_invalidSeg := sg_invalidSeg k @ [1]\<rparr>)"

lemma segOutput_same: "sg_firstWord (segOutput junk bs data valid k) = sg_firstWord k"
    "sg_metaWritten (segOutput junk bs data valid k) = sg_metaWritten k"
  by (simp_all add: segOutput_def Let_def)

lemma seg_packet:
  assumes "segReady k" and "sg_dataIn k = ws @ rest" and "sg_validIn k = valid # vs" and "carries ws bs" and "32 \<le> length bs"
  shows "segReady ((processPseudoHeader junk ^^ length ws) k) \<and>
    (\<exists>h v. (processPseudoHeader junk ^^ length ws) k = (segOutput junk bs (drop 4 ws) valid k)\<lparr>sg_dataIn := rest,
      sg_validIn := vs, sg_receivedSeg := sg_receivedSeg k @ [1], sg_header := h, sg_pkgValid := v\<rparr>) \<and>
    (32 < length bs \<longrightarrow> carries (drop 4 ws) (drop 32 bs)) \<and> (length bs = 32 \<longrightarrow> drop 4 ws = [])"
proof -
  obtain a b c d us where w: "ws = a # b # c # d # us" "\<not> ax_last a" "\<not> ax_last b" "\<not> ax_last c" "ax_last d = (us = [])"
    "if us = [] then length bs = 32 else carries us (drop 32 bs)"
    "\<forall>i<8. byteAt (ax_data a) i = bs ! i \<and> byteAt (ax_data b) i = bs ! (8 + i) \<and> byteAt (ax_data c) i = bs ! (16 + i) \<and>
      byteAt (ax_data d) i = bs ! (24 + i)"
    using carries_four [OF assms(4,5)] by blast
  let ?f = "processPseudoHeader junk"
  define h1 where "h1 = parseWord (ax_data a) (sg_header k)"
  define h2 where "h2 = parseWord (ax_data b) h1"
  define h3 where "h3 = parseWord (ax_data c) h2"
  define h4 where "h4 = parseWord (ax_data d) h3"
  have 0: "parsed (sg_header k) 0 bs" using assms(1) by (simp add: parsed_def segReady_def)
  have 1: "parsed h1 1 bs" unfolding h1_def One_nat_def by (rule parsed_word [OF 0]) (use w(7) in simp_all)
  have "parsed h2 (Suc 1) bs" unfolding h2_def by (rule parsed_word [OF 1]) (use w(7) in simp_all)
  then have 2: "parsed h2 2 bs" by (simp add: numeral_2_eq_2)
  have "parsed h3 (Suc 2) bs" unfolding h3_def by (rule parsed_word [OF 2]) (use w(7) in simp_all)
  then have 3: "parsed h3 3 bs" by simp
  have "parsed h4 (Suc 3) bs" unfolding h4_def by (rule parsed_word [OF 3]) (use w(7) in simp_all)
  then have 4: "parsed h4 4 bs" by simp
  have ready: "\<not> ph_ready h1" "\<not> ph_ready h2" "\<not> ph_ready h3" "ph_ready h4"
    using parsed_ready [OF 1] parsed_ready [OF 2] parsed_ready [OF 3] parsed_ready [OF 4] by simp_all
  note fields = header_fields [of "ph_header h4" bs, OF parsed_byte [OF 4] assms(5)]
  let ?k3 = "k\<lparr>sg_dataIn := d # us @ rest, sg_header := h3, sg_pkgValid := valid, sg_validIn := vs, sg_firstWord := False,
      sg_receivedSeg := sg_receivedSeg k @ [1]\<rparr>"
  have st1: "?f k = k\<lparr>sg_dataIn := b # c # d # us @ rest, sg_header := h1, sg_pkgValid := valid, sg_validIn := vs,
      sg_firstWord := False, sg_receivedSeg := sg_receivedSeg k @ [1]\<rparr>"
    using assms(1-3) w(1,2) ready(1) by (simp add: processPseudoHeader_def segReady_def s_write_def Let_def flip: h1_def)
  have st2: "?f (?f k) = k\<lparr>sg_dataIn := c # d # us @ rest, sg_header := h2, sg_pkgValid := valid, sg_validIn := vs,
      sg_firstWord := False, sg_receivedSeg := sg_receivedSeg k @ [1]\<rparr>"
    using assms(1) w(3) ready(2) by (simp add: st1) (simp add: processPseudoHeader_def segReady_def Let_def flip: h2_def)
  have st3: "?f (?f (?f k)) = ?k3"
    using assms(1) w(4) ready(3) by (simp add: st2) (simp add: processPseudoHeader_def segReady_def Let_def flip: h3_def)
  let ?k4 = "(segOutput junk bs [] valid k)\<lparr>sg_dataIn := us @ rest, sg_header := h4, sg_pkgValid := valid \<and> unicast bs,
      sg_validIn := vs, sg_firstWord := False, sg_metaWritten := True, sg_receivedSeg := sg_receivedSeg k @ [1]\<rparr>"
  have off: "rm_dataOffset (segMeta junk bs) = rng 7 4 (bs ! 24)" by (simp add: segMeta_def Let_def)
  have done4: "headerDone junk (?k3\<lparr>sg_dataIn := us @ rest, sg_header := h4\<rparr>) = ?k4"
    using assms(1) fields off by (simp add: headerDone_def segReady_def segOutput_def s_write_def Let_def)
  have st4: "?f ?k3 = (if ax_last d
      then ?k4\<lparr>sg_header := clearHeader h4, sg_firstWord := True, sg_metaWritten := False\<rparr> else ?k4)"
    using assms(1) ready(4) done4 by (simp add: processPseudoHeader_def segReady_def Let_def flip: h4_def)
  have len: "length ws = length us + 4" by (simp add: w(1))
  have run: "(?f ^^ length ws) k = (?f ^^ length us) (?f ?k3)"
    unfolding len funpow_add comp_apply by (simp add: numeral_eq_Suc st3 [symmetric] del: funpow.simps(1))
  have finish: "segReady ((?f ^^ length ws) k) \<and> (\<exists>h v. (?f ^^ length ws) k = (segOutput junk bs data valid k)\<lparr>sg_dataIn := rest,
      sg_validIn := vs, sg_receivedSeg := sg_receivedSeg k @ [1], sg_header := h, sg_pkgValid := v\<rparr>)"
    if e: "(?f ^^ length ws) k = (segOutput junk bs data valid k)\<lparr>sg_dataIn := rest, sg_validIn := vs,
        sg_receivedSeg := sg_receivedSeg k @ [1], sg_header := clearHeader h4, sg_pkgValid := valid \<and> unicast bs\<rparr>" for data
    unfolding e
  proof (rule conjI)
    show "\<exists>h v. (segOutput junk bs data valid k)\<lparr>sg_dataIn := rest, sg_validIn := vs,
        sg_receivedSeg := sg_receivedSeg k @ [1], sg_header := clearHeader h4, sg_pkgValid := valid \<and> unicast bs\<rparr> =
      (segOutput junk bs data valid k)\<lparr>sg_dataIn := rest, sg_validIn := vs,
        sg_receivedSeg := sg_receivedSeg k @ [1], sg_header := h, sg_pkgValid := v\<rparr>" by (intro exI) (rule refl)
  qed (use assms(1) in \<open>simp add: segReady_def segOutput_same clearHeader_def\<close>)
  show ?thesis
  proof (cases "us = []")
    case True
    then have "length bs = 32" "drop 4 ws = []" using w(1,6) by simp_all
    moreover have "(?f ^^ length ws) k = ?k4\<lparr>sg_header := clearHeader h4, sg_firstWord := True, sg_metaWritten := False\<rparr>"
      using True w(5) run st4 by simp
    moreover have "\<dots> = (segOutput junk bs [] valid k)\<lparr>sg_dataIn := rest, sg_validIn := vs,
        sg_receivedSeg := sg_receivedSeg k @ [1], sg_header := clearHeader h4, sg_pkgValid := valid \<and> unicast bs\<rparr>"
      using assms(1) True by (cases k) (simp add: segReady_def segOutput_def Let_def)
    ultimately show ?thesis using finish [of "[]"] by simp
  next
    case False
    then have us: "\<not> ax_last d" "carries us (drop 32 bs)" "is_packet us" "drop 4 ws = us"
      using w(1,5,6) carries_packet by auto
    have k4: "?f ?k3 = ?k4" using us(1) st4 by simp
    have "(?f ^^ length ws) k = ?k4\<lparr>sg_dataIn := rest,
        sg_dataOut := (if valid \<and> unicast bs then sg_dataOut ?k4 @ us else sg_dataOut ?k4),
        sg_header := clearHeader h4, sg_firstWord := True, sg_metaWritten := False\<rparr>"
      unfolding run k4 using seg_rest [OF us(3), of ?k4 rest junk] ready(4) fields(3) by simp
    moreover have "\<dots> = (segOutput junk bs us valid k)\<lparr>sg_dataIn := rest, sg_validIn := vs,
        sg_receivedSeg := sg_receivedSeg k @ [1], sg_header := clearHeader h4, sg_pkgValid := valid \<and> unicast bs\<rparr>"
      using assms(1) by (cases k) (simp add: segReady_def segOutput_def Let_def)
    moreover have "32 < length bs" using carries_nonempty [OF us(2)] by simp
    ultimately show ?thesis using finish [of us] us(2,4) by simp
  qed
qed

section \<open>Options\<close>

record optionStage =
  op_state :: nat
  op_dataOffset :: "4 word"
  op_prevWord :: axiWord
  op_metaIn :: "optionalFieldsMeta hls_stream"
  op_dataIn :: "axiWord hls_stream"
  op_dataOut :: "axiWord hls_stream"

text \<open>The code reads keep flag \<open>dataOffset * 4\<close> of a word with eight; what it reads beyond them is not defined,
  here \<open>beyond\<close>.\<close>

definition keepFlag :: "bool \<Rightarrow> axiWord \<Rightarrow> nat \<Rightarrow> bool" where
  "keepFlag beyond w i = (if i < 8 then bit (ax_keep w) i else beyond)"

text \<open>A part select outside the word traps.\<close>

definition joinAt :: "nat \<Rightarrow> axiWord \<Rightarrow> axiWord \<Rightarrow> axiWord option" where
  "joinAt d p c = (if d = 1 then Some (joinWord (4 * d) p c zeroWord) else None)"

definition drop_optional_header_fields :: "bool \<Rightarrow> optionStage \<Rightarrow> optionStage option" where
  "drop_optional_header_fields beyond k =
     (if op_state k = 0 then
        if \<not> s_empty (op_metaIn k) \<and> \<not> s_empty (op_dataIn k) then
          (let meta = s_head (op_metaIn k); currWord = s_head (op_dataIn k); d = unat (of_dataOffset meta) in
           Some (k\<lparr>op_metaIn := s_rest (op_metaIn k), op_dataIn := s_rest (op_dataIn k),
             op_dataOffset := of_dataOffset meta, op_prevWord := currWord,
             op_dataOut := (if d = 0 then s_write (op_dataOut k) currWord else op_dataOut k),
             op_state := (if \<not> ax_last currWord then 1
               else if d \<noteq> 0 \<and> d * 4 < 8 \<and> keepFlag beyond currWord (d * 4) then 2 else 0)\<rparr>))
        else Some k
      else if op_state k = 1 then
        if \<not> s_empty (op_dataIn k) then
          (let currWord = s_head (op_dataIn k); d = unat (op_dataOffset k);
               k' = k\<lparr>op_dataIn := s_rest (op_dataIn k), op_prevWord := currWord\<rparr>;
               d' = (if d > 2 then d - 2 else d);
               k' = k'\<lparr>op_dataOffset := of_nat d',
                  op_state := (if \<not> ax_last currWord then 1 else if keepFlag beyond currWord (d' * 4) \<and> d' \<noteq> 0 then 2 else 0)\<rparr>
           in if d > 2 then Some k'
              else if d = 0 \<or> d = 2 then Some (k'\<lparr>op_dataOut := s_write (op_dataOut k) currWord\<rparr>)
              else map_option (\<lambda>w. k'\<lparr>op_dataOut := s_write (op_dataOut k)
                     (w\<lparr>ax_last := \<not> keepFlag beyond currWord (d * 4)\<rparr>)\<rparr>) (joinAt d (op_prevWord k) currWord))
        else Some k
      else
        map_option (\<lambda>w. k\<lparr>op_dataOut := s_write (op_dataOut k) (w\<lparr>ax_last := True\<rparr>), op_state := 0\<rparr>)
          (joinAt (unat (op_dataOffset k)) (op_prevWord k) zeroWord))"

text \<open>A result of a run: between packets again, with the bytes \<open>bs\<close> sent, or nothing when there are none.\<close>

definition optionsSent :: "optionStage \<Rightarrow> axiWord list \<Rightarrow> 8 word list \<Rightarrow> optionStage \<Rightarrow> bool" where
  "optionsSent k rest bs k' \<longleftrightarrow> op_state k' = 0 \<and> op_dataIn k' = rest \<and> op_metaIn k' = op_metaIn k \<and>
     (\<exists>out. op_dataOut k' = op_dataOut k @ out \<and> (if bs = [] then out = [] else carries out bs))"

lemma opt_forward: "is_packet ws \<Longrightarrow> op_state k = 1 \<Longrightarrow> op_dataOffset k = 0 \<or> op_dataOffset k = 2 \<and> \<not> beyond \<Longrightarrow> op_dataIn k = ws @ rest \<Longrightarrow>
    \<exists>p. iter_opt (drop_optional_header_fields beyond) (length ws) k =
      Some (k\<lparr>op_dataIn := rest, op_dataOut := op_dataOut k @ ws, op_prevWord := p, op_state := 0\<rparr>)"
proof (induction ws arbitrary: k)
  case Nil
  then show ?case by simp
next
  case (Cons w ws)
  have d: "unat (op_dataOffset k) = 0 \<or> unat (op_dataOffset k) = 2 \<and> \<not> beyond" using Cons.prems(3) by auto
  have o': "of_nat (unat (op_dataOffset k)) = op_dataOffset k" by simp
  let ?k = "k\<lparr>op_dataIn := ws @ rest, op_dataOut := op_dataOut k @ [w], op_prevWord := w, op_state := (if ax_last w then 0 else 1)\<rparr>"
  have st: "drop_optional_header_fields beyond k = Some ?k"
    using Cons.prems(2,4) d by (auto simp: drop_optional_header_fields_def keepFlag_def s_write_def Let_def)
  show ?case
  proof (cases "ax_last w")
    case True
    then have "ws = []" using Cons.prems(1) by (simp add: is_packet_Cons)
    with True st show ?thesis by (intro exI [of _ w]) simp
  next
    case False
    then have "is_packet ws" using Cons.prems(1) by (simp add: is_packet_Cons)
    with Cons.IH [of ?k] Cons.prems(3) False st show ?thesis by auto
  qed
qed

lemma opt_shift: "carries (p # ws) bs \<Longrightarrow> op_prevWord k = p \<Longrightarrow> op_dataOffset k = 1 \<Longrightarrow> op_dataIn k = ws @ rest \<Longrightarrow>
    4 < length bs \<Longrightarrow> (if ws = [] then op_state k = 2 else op_state k = 1) \<Longrightarrow>
    \<exists>n p'. iter_opt (drop_optional_header_fields beyond) n k =
      Some (k\<lparr>op_dataIn := rest, op_dataOut := op_dataOut k @ joinRest 4 p ws, op_prevWord := p', op_state := 0\<rparr>)"
proof (induction ws arbitrary: k p bs)
  case Nil
  then show ?case
    by (intro exI [of _ 1] exI [of _ p]) (simp add: drop_optional_header_fields_def joinAt_def s_write_def)
next
  case (Cons w ws)
  have p: "carries (w # ws) (drop 8 bs)" using Cons.prems(1) by (simp add: carries_Cons)
  note k4 = carries_keep4 [OF p]
  have lw: "ax_last w \<longleftrightarrow> ws = []" using carries_packet [OF p] by (auto simp: is_packet_Cons split: if_splits)
  have open_: "bit (ax_keep w) 4 \<longleftrightarrow> 4 < length (drop 8 bs)"
  proof (cases "ws = []")
    case True
    then obtain js where "lanes w = kept (drop 8 bs) @ map (\<lambda>j. (j, False)) js"
      using p by (auto simp: carries_single lastWord_lanes)
    from bit_keep [OF this, of 4] show ?thesis by simp
  next
    case False
    then show ?thesis using p bit_keep [of w "take 8 (drop 8 bs)" "[]" 4] by (auto simp: carries_Cons)
  qed
  let ?s = "(joinWord 4 p w zeroWord)\<lparr>ax_last := \<not> bit (ax_keep w) 4\<rparr>"
  let ?k = "k\<lparr>op_dataIn := ws @ rest, op_dataOut := op_dataOut k @ [?s], op_prevWord := w,
      op_state := (if \<not> ax_last w then 1 else if bit (ax_keep w) 4 then 2 else 0)\<rparr>"
  have st: "drop_optional_header_fields beyond k = Some ?k"
    using Cons.prems(2-4,6) by (simp add: drop_optional_header_fields_def joinAt_def keepFlag_def s_write_def Let_def)
  show ?case
  proof (cases "bit (ax_keep w) 4")
    case False
    with open_ p have "ws = []" by (cases "ws = []") (auto simp: carries_Cons)
    with False st k4 lw show ?thesis by (intro exI [of _ 1] exI [of _ w]) simp
  next
    case True
    have "\<exists>n p'. iter_opt (drop_optional_header_fields beyond) n ?k =
        Some (?k\<lparr>op_dataIn := rest, op_dataOut := op_dataOut ?k @ joinRest 4 w ws, op_prevWord := p', op_state := 0\<rparr>)"
      by (rule Cons.IH [OF p]) (use True lw open_ Cons.prems(3) in auto)
    then obtain n p' where "iter_opt (drop_optional_header_fields beyond) n ?k =
        Some (k\<lparr>op_dataIn := rest, op_dataOut := op_dataOut k @ joinRest 4 p (w # ws), op_prevWord := p', op_state := 0\<rparr>)"
      using True k4 by (auto simp: Let_def)
    then show ?thesis using st by (intro exI [of _ "Suc n"] exI [of _ p']) simp
  qed
qed

text \<open>\<open>opt_skip\<close>: from the second word on, with \<open>d\<close> option words still to remove counted from the word before.\<close>

lemma optionsSent_out: "(if bs = [] then out = [] else carries out bs) \<Longrightarrow>
    optionsSent k rest bs (k\<lparr>op_dataIn := rest, op_dataOut := op_dataOut k @ out, op_dataOffset := off, op_prevWord := p,
      op_state := 0\<rparr>)"
  by (simp add: optionsSent_def)

lemma optionsSent_mono: "optionsSent k rest bs k'' \<Longrightarrow> op_metaIn k = op_metaIn k' \<Longrightarrow> op_dataOut k = op_dataOut k' \<Longrightarrow>
    optionsSent k' rest bs k''"
  by (simp add: optionsSent_def)

lemma carries_last_keep4: "carries [w] bs \<Longrightarrow> ax_last w \<and> length bs \<le> 8 \<and> (bit (ax_keep w) 4 \<longleftrightarrow> 4 < length bs)"
proof -
  assume "carries [w] bs"
  then obtain js where w: "ax_last w" "lanes w = kept bs @ map (\<lambda>j. (j, False)) js" by (auto simp: carries_single lastWord_lanes)
  have "length bs \<le> 8" using arg_cong [OF w(2), of length] by simp
  with w(1) bit_keep [OF w(2), of 4] show ?thesis by simp
qed

lemma opt_skip: "carries (p # ws) bs \<Longrightarrow> ws \<noteq> [] \<Longrightarrow> op_state k = 1 \<Longrightarrow> op_prevWord k = p \<Longrightarrow> op_dataIn k = ws @ rest \<Longrightarrow>
    unat (op_dataOffset k) = d \<Longrightarrow> 1 \<le> d \<Longrightarrow> 4 * d \<le> length bs \<Longrightarrow> \<not> beyond \<or> odd d \<Longrightarrow>
    \<exists>n k'. iter_opt (drop_optional_header_fields beyond) n k = Some k' \<and> optionsSent k rest (drop (4 * d) bs) k'"
proof (induction ws arbitrary: p bs k d)
  case Nil
  then show ?case by simp
next
  case (Cons w ws)
  have c: "carries (w # ws) (drop 8 bs)" and long: "8 < length bs" using Cons.prems(1) by (simp_all add: carries_Cons)
  consider "d = 1" | "d = 2" | "2 < d" using Cons.prems(7) by linarith
  then show ?case
  proof cases
    case 1
    then have off: "op_dataOffset k = 1" using Cons.prems(6) by (simp add: word_unat_eq_iff)
    obtain n q where run: "iter_opt (drop_optional_header_fields beyond) n k =
        Some (k\<lparr>op_dataIn := rest, op_dataOut := op_dataOut k @ joinRest 4 p (w # ws), op_prevWord := q, op_state := 0\<rparr>)"
      using opt_shift [OF Cons.prems(1,4) off Cons.prems(5), of beyond] long Cons.prems(3) by auto
    have "carries (joinRest 4 p (w # ws)) (drop 4 bs)" by (rule carries_joinRest [OF _ _ Cons.prems(1)]) (use long in simp_all)
    with run 1 long show ?thesis by (intro exI [of _ n]) (auto simp: optionsSent_def)
  next
    case 2
    have "op_dataOffset k = 2" using 2 Cons.prems(6) by (simp add: word_unat_eq_iff)
    moreover have "\<not> beyond" using Cons.prems(9) 2 by simp
    ultimately have off: "op_dataOffset k = 0 \<or> op_dataOffset k = 2 \<and> \<not> beyond" by simp
    obtain q where run: "iter_opt (drop_optional_header_fields beyond) (length (w # ws)) k =
        Some (k\<lparr>op_dataIn := rest, op_dataOut := op_dataOut k @ (w # ws), op_prevWord := q, op_state := 0\<rparr>)"
      using opt_forward [OF carries_packet [OF c] Cons.prems(3) off Cons.prems(5)] by blast
    with 2 c long show ?thesis by (intro exI [of _ "length (w # ws)"]) (auto simp: optionsSent_def)
  next
    case 3
    define e where "e = d - 2"
    have e: "1 \<le> e" "d = e + 2" "e < 16" using 3 Cons.prems(6) unsigned_less [of "op_dataOffset k", where 'a = nat] by (simp_all add: e_def)
    have ue: "unat (word_of_nat e :: 4 word) = e" using e(3) by (simp add: unat_of_nat)
    let ?k = "k\<lparr>op_dataIn := ws @ rest, op_prevWord := w, op_dataOffset := of_nat e,
        op_state := (if \<not> ax_last w then 1 else if keepFlag beyond w (e * 4) then 2 else 0)\<rparr>"
    have st: "drop_optional_header_fields beyond k = Some ?k"
    proof -
      have "unat (op_dataOffset k) - 2 = e" "2 < unat (op_dataOffset k)" "e \<noteq> 0" using 3 Cons.prems(6) e(1) by (simp_all add: e_def)
      with Cons.prems(3,5) show ?thesis by (simp add: drop_optional_header_fields_def Let_def)
    qed
    have left: "drop (4 * d) bs = drop (4 * e) (drop 8 bs)" "4 * e \<le> length (drop 8 bs)" using e Cons.prems(8) by (simp_all add: add.commute)
    show ?thesis
    proof (cases "ws = []")
      case False
      with c have "\<not> ax_last w" by (simp add: carries_Cons)
      then have "\<exists>n k'. iter_opt (drop_optional_header_fields beyond) n ?k = Some k' \<and>
          optionsSent ?k rest (drop (4 * e) (drop 8 bs)) k'"
        by (intro Cons.IH [OF c False]) (use ue e(1,2) left(2) Cons.prems(9) in simp_all)
      then obtain n k' where "iter_opt (drop_optional_header_fields beyond) n ?k = Some k'"
        "optionsSent ?k rest (drop (4 * e) (drop 8 bs)) k'" by blast
      with st left show ?thesis
        by (intro exI [of _ "Suc n"] exI [of _ k']) (auto elim!: optionsSent_mono)
    next
      case True
      note last = carries_last_keep4 [OF c [unfolded True]]
      show ?thesis
      proof (cases "e = 1 \<and> 4 < length (drop 8 bs)")
        case t: True
        have "\<exists>n p'. iter_opt (drop_optional_header_fields beyond) n ?k =
            Some (?k\<lparr>op_dataIn := rest, op_dataOut := op_dataOut ?k @ joinRest 4 w ws, op_prevWord := p', op_state := 0\<rparr>)"
          by (rule opt_shift [OF c]) (use t last True in \<open>simp_all add: keepFlag_def\<close>)
        then obtain n p' where run: "iter_opt (drop_optional_header_fields beyond) n ?k =
            Some (?k\<lparr>op_dataIn := rest, op_dataOut := op_dataOut ?k @ joinRest 4 w ws, op_prevWord := p', op_state := 0\<rparr>)"
          by blast
        have "carries (joinRest 4 w ws) (drop 4 (drop 8 bs))" by (rule carries_joinRest [OF _ _ c]) (use t in simp_all)
        with run st t left(1) show ?thesis
          by (intro exI [of _ "Suc n"]) (auto simp: optionsSent_def)
      next
        case f: False
        have k: "length (drop 8 bs) = 4 * e \<and> \<not> keepFlag beyond w (e * 4)"
        proof (cases "e = 1")
          case 1: True
          with f left(2) have "length (drop 8 bs) = 4" by linarith
          with 1 last show ?thesis by (simp add: keepFlag_def)
        next
          case n1: False
          then have "e = 2" "length (drop 8 bs) = 8" using e(1) left(2) last by linarith+
          moreover from this have "\<not> beyond" using Cons.prems(9) e(2) by simp
          ultimately show ?thesis by (simp add: keepFlag_def)
        qed
        then have "length bs \<le> 4 * e + 8" unfolding length_drop by linarith
        then have "drop (4 * d) bs = []" using left(1) by simp
        with k st True last show ?thesis
          by (intro exI [of _ 1]) (simp add: optionsSent_def)
      qed
    qed
  qed
qed

text \<open>The stage on one segment: of the bytes after the fixed header the option bytes are removed.\<close>

lemma options_segment:
  assumes "op_state k = 0" and "op_metaIn k = m # ms" and "op_dataIn k = ws @ rest" and "carries ws bs"
    and "4 * unat (of_dataOffset m) \<le> length bs" and "\<not> beyond \<or> of_dataOffset m = 0 \<or> odd (unat (of_dataOffset m))"
  shows "\<exists>n k'. iter_opt (drop_optional_header_fields beyond) n k = Some k' \<and>
    optionsSent (k\<lparr>op_metaIn := ms\<rparr>) rest (drop (4 * unat (of_dataOffset m)) bs) k'"
proof -
  define d where "d = unat (of_dataOffset m)"
  obtain w us where w: "ws = w # us" using assms(4) by (cases ws) auto
  let ?k = "k\<lparr>op_metaIn := ms, op_dataIn := us @ rest, op_dataOffset := of_dataOffset m, op_prevWord := w,
      op_dataOut := (if d = 0 then op_dataOut k @ [w] else op_dataOut k),
      op_state := (if \<not> ax_last w then 1 else if d \<noteq> 0 \<and> d * 4 < 8 \<and> keepFlag beyond w (d * 4) then 2 else 0)\<rparr>"
  have st: "drop_optional_header_fields beyond k = Some ?k"
    using assms(1-3) w by (simp add: drop_optional_header_fields_def s_write_def d_def Let_def)
  have lift: ?thesis if "iter_opt (drop_optional_header_fields beyond) n ?k = Some k'"
    "optionsSent (k\<lparr>op_metaIn := ms\<rparr>) rest (drop (4 * d) bs) k'" for n k'
    using st that by (intro exI [of _ "Suc n"] exI [of _ k']) (simp add: d_def)
  show ?thesis
  proof (cases "us = []")
    case True
    note last = carries_last_keep4 [OF assms(4) [unfolded w True]]
    consider (none) "d = 0" | (shift) "d = 1" "4 < length bs" | (empty) "length bs = 4 * d" "0 < d"
      using last assms(5) by (fastforce simp: d_def)
    then show ?thesis
    proof cases
      case none
      with last True assms(4) w carries_nonempty [OF assms(4)] show ?thesis by (intro lift [of 0 ?k]) (simp_all add: optionsSent_def)
    next
      case shift
      then have off: "of_dataOffset m = 1" by (simp add: word_unat_eq_iff d_def)
      have "\<exists>n p'. iter_opt (drop_optional_header_fields beyond) n ?k =
          Some (?k\<lparr>op_dataIn := rest, op_dataOut := op_dataOut ?k @ joinRest 4 w us, op_prevWord := p', op_state := 0\<rparr>)"
        by (rule opt_shift [OF assms(4) [unfolded w]]) (use shift off last True in \<open>simp_all add: keepFlag_def\<close>)
      then obtain n p' where run: "iter_opt (drop_optional_header_fields beyond) n ?k =
          Some (?k\<lparr>op_dataIn := rest, op_dataOut := op_dataOut ?k @ joinRest 4 w us, op_prevWord := p', op_state := 0\<rparr>)"
        by blast
      have "carries (joinRest 4 w us) (drop 4 bs)" by (rule carries_joinRest [OF _ _ assms(4) [unfolded w]]) (use shift in simp_all)
      with shift show ?thesis by (intro lift [OF run]) (simp add: optionsSent_def)
    next
      case empty
      then have "\<not> (d * 4 < 8 \<and> keepFlag beyond w (d * 4))" using last by (cases "d = 1") (auto simp: keepFlag_def)
      with empty last True show ?thesis by (intro lift [of 0 ?k]) (auto simp: optionsSent_def)
    qed
  next
    case False
    then have nl: "\<not> ax_last w" using assms(4) w by (simp add: carries_Cons)
    show ?thesis
    proof (cases "d = 0")
      case True
      have pk: "is_packet us" using assms(4) w False carries_packet [of us "drop 8 bs"] by (auto simp: carries_Cons)
      have off: "of_dataOffset m = 0" using True by (simp add: d_def unat_eq_0)
      have "\<exists>p. iter_opt (drop_optional_header_fields beyond) (length us) ?k =
          Some (?k\<lparr>op_dataIn := rest, op_dataOut := op_dataOut ?k @ us, op_prevWord := p, op_state := 0\<rparr>)"
        by (rule opt_forward [OF pk]) (use nl off in simp_all)
      then obtain p where run: "iter_opt (drop_optional_header_fields beyond) (length us) ?k =
          Some (?k\<lparr>op_dataIn := rest, op_dataOut := op_dataOut ?k @ us, op_prevWord := p, op_state := 0\<rparr>)" by blast
      show ?thesis by (rule lift [OF run]) (use True assms(4) w carries_nonempty [OF assms(4)] in \<open>simp add: optionsSent_def\<close>)
    next
      case d: False
      have "\<exists>n k'. iter_opt (drop_optional_header_fields beyond) n ?k = Some k' \<and> optionsSent ?k rest (drop (4 * d) bs) k'"
        by (rule opt_skip [OF assms(4) [unfolded w] False]) (use nl d assms(5,6) in \<open>auto simp: d_def\<close>)
      then obtain n k' where "iter_opt (drop_optional_header_fields beyond) n ?k = Some k'" "optionsSent ?k rest (drop (4 * d) bs) k'"
        by blast
      with d show ?thesis by (intro lift [of n k']) (auto elim!: optionsSent_mono)
    qed
  qed
qed


section \<open>The properties\<close>

text \<open>\<^verbatim>\<open>processPseudoHeader\<close> reads the header of a segment that comes with its pseudo header.  A segment with a
  good checksum between unicast addresses yields its metadata, its four-tuple, its port request and, when it has
  options or payload, the request to drop the options, and the words after the fixed header go on unchanged; every
  other segment is counted as an error and nothing of it goes on.  In both cases the stage is ready for the next one.\<close>

theorem tcp_header_read:
  assumes "segReady k" and "sg_dataIn k = ws @ rest" and "sg_validIn k = valid # vs" and "carries ws bs" and "32 \<le> length bs"
  shows "\<exists>k' out. (processPseudoHeader junk ^^ length ws) k = k' \<and> segReady k' \<and> sg_dataIn k' = rest \<and> sg_validIn k' = vs \<and>
    (if valid \<and> unicast bs
     then sg_dataOut k' = sg_dataOut k @ out \<and> (if length bs = 32 then out = [] else carries out (drop 32 bs)) \<and>
       sg_metaOut k' = sg_metaOut k @ [segMeta junk bs] \<and> sg_tupleOut k' = sg_tupleOut k @ [segTuple bs] \<and>
       sg_portOut k' = sg_portOut k @ [be16 (bs ! 14) (bs ! 15)] \<and>
       sg_ofMetaOut k' = sg_ofMetaOut k @ (if rm_length (segMeta junk bs) \<noteq> 0 \<or> rm_dataOffset (segMeta junk bs) > 5
         then [\<lparr>of_dataOffset = rm_dataOffset (segMeta junk bs) - 5, of_syn = rm_syn (segMeta junk bs)\<rparr>] else []) \<and>
       sg_invalidSeg k' = sg_invalidSeg k
     else sg_dataOut k' = sg_dataOut k \<and> sg_metaOut k' = sg_metaOut k \<and> sg_tupleOut k' = sg_tupleOut k \<and>
       sg_portOut k' = sg_portOut k \<and> sg_ofMetaOut k' = sg_ofMetaOut k \<and> sg_invalidSeg k' = sg_invalidSeg k @ [1]) \<and>
    sg_receivedSeg k' = sg_receivedSeg k @ [1]"
proof -
  obtain h v where r: "segReady ((processPseudoHeader junk ^^ length ws) k)"
    "(processPseudoHeader junk ^^ length ws) k = (segOutput junk bs (drop 4 ws) valid k)\<lparr>sg_dataIn := rest,
      sg_validIn := vs, sg_receivedSeg := sg_receivedSeg k @ [1], sg_header := h, sg_pkgValid := v\<rparr>"
    "32 < length bs \<longrightarrow> carries (drop 4 ws) (drop 32 bs)" "length bs = 32 \<longrightarrow> drop 4 ws = []"
    using seg_packet [OF assms] by blast
  show ?thesis
    by (intro exI [of _ "(processPseudoHeader junk ^^ length ws) k"] exI [of _ "drop 4 ws"] conjI refl r(1))
      (use r(3,4) assms(5) in \<open>simp_all add: r(2) segOutput_def Let_def\<close>)
qed

text \<open>\<^verbatim>\<open>drop_optional_header_fields\<close> takes exactly the option bytes off the words after the fixed header, for every
  number of option words that fits, and the next segment starts from the initial state; when nothing is left nothing
  is sent.  With an even number of option words the code may read the keep flag past the last one of a word, which then has
  to count as clear.\<close>

theorem options_removed:
  assumes "op_state k = 0" and "op_metaIn k = m # ms" and "op_dataIn k = ws @ rest" and "carries ws bs"
    and "4 * unat (of_dataOffset m) \<le> length bs" and "\<not> beyond \<or> of_dataOffset m = 0 \<or> odd (unat (of_dataOffset m))"
  shows "\<exists>n k' out. iter_opt (drop_optional_header_fields beyond) n k = Some k' \<and> op_state k' = 0 \<and> op_metaIn k' = ms \<and>
    op_dataIn k' = rest \<and> op_dataOut k' = op_dataOut k @ out \<and>
    (if drop (4 * unat (of_dataOffset m)) bs = [] then out = [] else carries out (drop (4 * unat (of_dataOffset m)) bs))"
  using options_segment [OF assms] unfolding optionsSent_def by fastforce

text \<open>With two option words in the last word of a segment the stage reads keep flag eight of eight.  If what it
  reads there is set it takes the state that sends a remainder, and the part select of that state has no bits: the
  next call has no result.\<close>

theorem option_flag_beyond:
  assumes "op_state k = 1" and "op_dataOffset k = 2" and "op_dataIn k = w # rest" and "ax_last w"
  shows "\<exists>k'. drop_optional_header_fields beyond k = Some k' \<and> op_dataOut k' = op_dataOut k @ [w] \<and>
    op_state k' = (if beyond then 2 else 0) \<and> (beyond \<longrightarrow> drop_optional_header_fields beyond k' = None)"
  using assms by (auto simp: drop_optional_header_fields_def keepFlag_def joinAt_def s_write_def Let_def)


section \<open>Witnesses\<close>

text \<open>A SYN from 10.0.0.1 port 80 to 10.0.0.2 port 81, and a packet of twelve bytes.\<close>

definition sampleSyn :: "8 word list" where
  "sampleSyn = [10, 0, 0, 1, 10, 0, 0, 2, 0, 6, 0, 20, 0, 80, 0, 81, 0, 0, 0, 7, 0, 0, 0, 0, 0x50, 2, 16, 0, 0, 0, 0, 0]"

definition sampleSegmentStage :: segmentStage where
  "sampleSegmentStage = \<lparr>sg_header = \<lparr>ph_ready = False, ph_idx = 0, ph_header = 0\<rparr>, sg_firstWord = True, sg_pkgValid = False,
     sg_metaWritten = False, sg_dataIn = [sampleWord 0x0200000A0100000A, sampleWord 0x5100500014000600,
       sampleWord 0x0000000007000000, \<lparr>ax_data = 0x00000000100250, ax_keep = 0xFF, ax_last = True\<rparr>],
     sg_dataOut = [], sg_validIn = [True], sg_metaOut = [], sg_tupleOut = [], sg_portOut = [], sg_ofMetaOut = [],
     sg_invalidSeg = [], sg_receivedSeg = []\<rparr>"

theorem tcp_header_read_witness:
  "sg_portOut ((processPseudoHeader 0 ^^ 4) sampleSegmentStage) = [be16 0 81] \<and>
   rm_syn (hd (sg_metaOut ((processPseudoHeader 0 ^^ 4) sampleSegmentStage)))"
proof -
  have h: "segReady sampleSegmentStage" "sg_dataIn sampleSegmentStage = sg_dataIn sampleSegmentStage @ []"
    "sg_validIn sampleSegmentStage = True # []" "carries (sg_dataIn sampleSegmentStage) sampleSyn" "32 \<le> length sampleSyn"
    by (simp add: segReady_def sampleSegmentStage_def, simp, simp add: sampleSegmentStage_def, code_simp, simp add: sampleSyn_def)
  have u: "unicast sampleSyn" "sampleSyn ! 14 = 0" "sampleSyn ! 15 = 81" "rm_syn (segMeta 0 sampleSyn)" by code_simp+
  have l: "length (sg_dataIn sampleSegmentStage) = 4" by (simp add: sampleSegmentStage_def)
  have e: "sg_portOut sampleSegmentStage = []" "sg_metaOut sampleSegmentStage = []" by (simp_all add: sampleSegmentStage_def)
  from tcp_header_read [OF h, where junk = 0] u e show ?thesis unfolding l by auto
qed

definition sampleOptionStage :: optionStage where
  "sampleOptionStage = \<lparr>op_state = 0, op_dataOffset = 0, op_prevWord = zeroWord,
     op_metaIn = [\<lparr>of_dataOffset = 1, of_syn = False\<rparr>], op_dataIn = [sampleWord 0x0807060504030201,
       \<lparr>ax_data = 0x0C0B0A09, ax_keep = 0xF, ax_last = True\<rparr>], op_dataOut = []\<rparr>"

theorem options_removed_witness:
  "\<exists>n k'. iter_opt (drop_optional_header_fields True) n sampleOptionStage = Some k' \<and>
     carries (op_dataOut k') [5, 6, 7, 8, 9, 10, 11, 12]"
proof -
  have h: "op_state sampleOptionStage = 0" "op_metaIn sampleOptionStage = \<lparr>of_dataOffset = 1, of_syn = False\<rparr> # []"
    "op_dataIn sampleOptionStage = op_dataIn sampleOptionStage @ []"
    "carries (op_dataIn sampleOptionStage) [1, 2, 3, 4, 5, 6, 7, 8, 9, 10, 11, 12]"
    by (simp_all add: sampleOptionStage_def) code_simp
  from options_removed [OF h, of True] show ?thesis by (auto simp: sampleOptionStage_def)
qed

theorem option_flag_beyond_witness:
  "\<exists>k'. drop_optional_header_fields True (sampleOptionStage\<lparr>op_state := 1, op_dataOffset := 2,
       op_dataIn := [\<lparr>ax_data = 1, ax_keep = 0xFF, ax_last = True\<rparr>]\<rparr>) = Some k' \<and>
     drop_optional_header_fields True k' = None"
  using option_flag_beyond [of "sampleOptionStage\<lparr>op_state := 1, op_dataOffset := 2,
      op_dataIn := [\<lparr>ax_data = 1, ax_keep = 0xFF, ax_last = True\<rparr>]\<rparr>" "\<lparr>ax_data = 1, ax_keep = 0xFF, ax_last = True\<rparr>" "[]" True]
  by auto

end
