(* ===== verification/Toe_Rx_Path.thy ===== *)
theory Toe_Rx_Path
  imports Toe_Rx_Segment
begin

text \<open>
  The stages of the receive engine between the network and the metadata handler, connected as \<^verbatim>\<open>rx_engine\<close>
  (\<^verbatim>\<open>toe/rx_engine/rx_engine.cpp\<close>) connects them.  They run concurrently: a step of the path is a call of any
  one stage, or the words in the streams getting on.  A stream between two stages is in two parts, what its writer has
  put in and what its reader can see; \<open>rxLinks\<close> moves the one to the other.
\<close>

record rxPath =
  px_ip :: ipv4Stage
  px_align :: shifter
  px_prepend :: prependStage
  px_sums :: checksumStage
  px_check :: "subSums hls_stream \<times> bool hls_stream"
  px_segment :: segmentStage
  px_unalign :: shifter
  px_options :: optionStage

definition rxLinks :: "rxPath \<Rightarrow> rxPath" where
  "rxLinks p = p\<lparr>
     px_ip := (px_ip p)\<lparr>ip_dataOut := [], ip_metaOut := []\<rparr>,
     px_align := (px_align p)\<lparr>sh_input := sh_input (px_align p) @ ip_dataOut (px_ip p), sh_output := []\<rparr>,
     px_prepend := (px_prepend p)\<lparr>pp_ipMetaIn := pp_ipMetaIn (px_prepend p) @ ip_metaOut (px_ip p),
       pp_packetIn := pp_packetIn (px_prepend p) @ sh_output (px_align p), pp_output := []\<rparr>,
     px_sums := (px_sums p)\<lparr>cs_dataIn := cs_dataIn (px_sums p) @ pp_output (px_prepend p), cs_dataOut := [], cs_subSums := []\<rparr>,
     px_check := (fst (px_check p) @ cs_subSums (px_sums p), []),
     px_segment := (px_segment p)\<lparr>sg_dataIn := sg_dataIn (px_segment p) @ cs_dataOut (px_sums p),
       sg_validIn := sg_validIn (px_segment p) @ snd (px_check p), sg_dataOut := [], sg_ofMetaOut := []\<rparr>,
     px_unalign := (px_unalign p)\<lparr>sh_input := sh_input (px_unalign p) @ sg_dataOut (px_segment p), sh_output := []\<rparr>,
     px_options := (px_options p)\<lparr>op_metaIn := op_metaIn (px_options p) @ sg_ofMetaOut (px_segment p),
       op_dataIn := op_dataIn (px_options p) @ sh_output (px_unalign p)\<rparr>\<rparr>"

inductive rxFire :: "bool \<Rightarrow> 4 word \<Rightarrow> rxPath \<Rightarrow> rxPath \<Rightarrow> bool" for beyond junk where
  ip: "rxFire beyond junk p (p\<lparr>px_ip := process_ipv4 (px_ip p)\<rparr>)"
| align: "rxFire beyond junk p (p\<lparr>px_align := lshiftWordByOctet 4 (px_align p)\<rparr>)"
| prepend: "rxFire beyond junk p (p\<lparr>px_prepend := prependPseudoHeader (px_prepend p)\<rparr>)"
| sums: "rxFire beyond junk p (p\<lparr>px_sums := two_complement_subchecksums (px_sums p)\<rparr>)"
| check: "rxFire beyond junk p (p\<lparr>px_check := check_ipv4_checksum (px_check p)\<rparr>)"
| segment: "rxFire beyond junk p (p\<lparr>px_segment := processPseudoHeader junk (px_segment p)\<rparr>)"
| unalign: "rxFire beyond junk p (p\<lparr>px_unalign := rshiftWordByOctet 0 (px_unalign p)\<rparr>)"
| options: "drop_optional_header_fields beyond (px_options p) = Some k \<Longrightarrow> rxFire beyond junk p (p\<lparr>px_options := k\<rparr>)"
| links: "rxFire beyond junk p (rxLinks p)"

text \<open>A part of a state that runs by itself.\<close>

locale part =
  fixes fires :: "'s \<Rightarrow> 's \<Rightarrow> bool"
    and get :: "'s \<Rightarrow> 'k"
    and put :: "'k \<Rightarrow> 's \<Rightarrow> 's"
    and step :: "'k \<Rightarrow> 'k"
  assumes fire: "fires s (put (step (get s)) s)"
    and get_put: "get (put k s) = k"
    and put_put: "put k (put k' s) = put k s"
    and put_get: "put (get s) s = s"
begin

lemma runs: "fires\<^sup>*\<^sup>* s (put ((step ^^ n) (get s)) s)"
proof (induction n)
  case 0
  show ?case by (simp add: put_get)
next
  case (Suc n)
  have "fires (put ((step ^^ n) (get s)) s) (put (step ((step ^^ n) (get s))) s)"
    using fire [of "put ((step ^^ n) (get s)) s"] by (simp add: get_put put_put)
  with Suc.IH show ?case by simp
qed

lemma runs_to: "fires\<^sup>*\<^sup>* s0 s \<Longrightarrow> (step ^^ n) (get s) = k \<Longrightarrow> fires\<^sup>*\<^sup>* s0 (put k s)"
  using runs [of s n] by auto

end

interpretation ipPart: part "rxFire beyond junk" px_ip "\<lambda>k p. p\<lparr>px_ip := k\<rparr>" process_ipv4
  for beyond junk by unfold_locales (simp_all add: rxFire.ip)
interpretation alignPart: part "rxFire beyond junk" px_align "\<lambda>k p. p\<lparr>px_align := k\<rparr>" "lshiftWordByOctet 4"
  for beyond junk by unfold_locales (simp_all add: rxFire.align)
interpretation prependPart: part "rxFire beyond junk" px_prepend "\<lambda>k p. p\<lparr>px_prepend := k\<rparr>" prependPseudoHeader
  for beyond junk by unfold_locales (simp_all add: rxFire.prepend)
interpretation sumsPart: part "rxFire beyond junk" px_sums "\<lambda>k p. p\<lparr>px_sums := k\<rparr>" two_complement_subchecksums
  for beyond junk by unfold_locales (simp_all add: rxFire.sums)
interpretation checkPart: part "rxFire beyond junk" px_check "\<lambda>k p. p\<lparr>px_check := k\<rparr>" check_ipv4_checksum
  for beyond junk by unfold_locales (simp_all add: rxFire.check)
interpretation segmentPart: part "rxFire beyond junk" px_segment "\<lambda>k p. p\<lparr>px_segment := k\<rparr>" "processPseudoHeader junk"
  for beyond junk by unfold_locales (simp_all add: rxFire.segment)
interpretation unalignPart: part "rxFire beyond junk" px_unalign "\<lambda>k p. p\<lparr>px_unalign := k\<rparr>" "rshiftWordByOctet 0"
  for beyond junk by unfold_locales (simp_all add: rxFire.unalign)

lemma options_runs: "iter_opt (drop_optional_header_fields beyond) n (px_options p) = Some k \<Longrightarrow>
    (rxFire beyond junk)\<^sup>*\<^sup>* p (p\<lparr>px_options := k\<rparr>)"
proof (induction n arbitrary: p)
  case 0
  then have "p\<lparr>px_options := k\<rparr> = p" by auto
  then show ?case by simp
next
  case (Suc n)
  then obtain k' where k': "drop_optional_header_fields beyond (px_options p) = Some k'"
    "iter_opt (drop_optional_header_fields beyond) n k' = Some k" by (auto split: option.splits)
  have "(rxFire beyond junk)\<^sup>*\<^sup>* (p\<lparr>px_options := k'\<rparr>) (p\<lparr>px_options := k\<rparr>)"
    using Suc.IH [of "p\<lparr>px_options := k'\<rparr>"] k'(2) by simp
  with rxFire.options [OF k'(1)] show ?case by (metis converse_rtranclp_into_rtranclp)
qed

lemma links_run: "(rxFire beyond junk)\<^sup>*\<^sup>* p q \<Longrightarrow> (rxFire beyond junk)\<^sup>*\<^sup>* p (rxLinks q)"
  by (erule rtranclp.rtrancl_into_rtrancl) (rule rxFire.links)

text \<open>Nothing is on its way: every stage is between two packets and every stream inside the path is empty.\<close>

definition rxIdle :: "rxPath \<Rightarrow> bool" where
  "rxIdle p \<longleftrightarrow>
     ipReady (px_ip p) \<and> ip_dataOut (px_ip p) = [] \<and> ip_metaOut (px_ip p) = [] \<and>
     shiftReady 4 (px_align p) \<and> sh_input (px_align p) = [] \<and> sh_output (px_align p) = [] \<and>
     prependReady (px_prepend p) \<and> pp_ipMetaIn (px_prepend p) = [] \<and> pp_packetIn (px_prepend p) = [] \<and>
     pp_output (px_prepend p) = [] \<and>
     cs_sums (px_sums p) = (\<lambda>i. 0) \<and> cs_dataIn (px_sums p) = [] \<and> cs_dataOut (px_sums p) = [] \<and>
     cs_subSums (px_sums p) = [] \<and> px_check p = ([], []) \<and>
     segReady (px_segment p) \<and> sg_dataIn (px_segment p) = [] \<and> sg_validIn (px_segment p) = [] \<and>
     sg_dataOut (px_segment p) = [] \<and> sg_ofMetaOut (px_segment p) = [] \<and>
     shiftReady 0 (px_unalign p) \<and> \<not> sh_firstWord (px_unalign p) \<and> sh_input (px_unalign p) = [] \<and>
     sh_output (px_unalign p) = [] \<and>
     op_state (px_options p) = 0 \<and> op_metaIn (px_options p) = [] \<and> op_dataIn (px_options p) = []"


text \<open>Emptying what is empty changes nothing.\<close>

lemma empty_same:
  "ip_dataOut i = [] \<Longrightarrow> i\<lparr>ip_dataOut := []\<rparr> = i" "ip_metaOut i = [] \<Longrightarrow> i\<lparr>ip_metaOut := []\<rparr> = i"
  "sh_input h = [] \<Longrightarrow> h\<lparr>sh_input := []\<rparr> = h" "sh_output h = [] \<Longrightarrow> h\<lparr>sh_output := []\<rparr> = h"
  "pp_ipMetaIn b = [] \<Longrightarrow> b\<lparr>pp_ipMetaIn := []\<rparr> = b" "pp_packetIn b = [] \<Longrightarrow> b\<lparr>pp_packetIn := []\<rparr> = b"
  "pp_output b = [] \<Longrightarrow> b\<lparr>pp_output := []\<rparr> = b"
  "cs_dataIn c = [] \<Longrightarrow> c\<lparr>cs_dataIn := []\<rparr> = c" "cs_dataOut c = [] \<Longrightarrow> c\<lparr>cs_dataOut := []\<rparr> = c"
  "cs_subSums c = [] \<Longrightarrow> c\<lparr>cs_subSums := []\<rparr> = c"
  "sg_dataIn g = [] \<Longrightarrow> g\<lparr>sg_dataIn := []\<rparr> = g" "sg_validIn g = [] \<Longrightarrow> g\<lparr>sg_validIn := []\<rparr> = g"
  "sg_dataOut g = [] \<Longrightarrow> g\<lparr>sg_dataOut := []\<rparr> = g" "sg_ofMetaOut g = [] \<Longrightarrow> g\<lparr>sg_ofMetaOut := []\<rparr> = g"
  "op_metaIn d = [] \<Longrightarrow> d\<lparr>op_metaIn := []\<rparr> = d" "op_dataIn d = [] \<Longrightarrow> d\<lparr>op_dataIn := []\<rparr> = d"
  by (cases i, simp, cases i, simp, cases h, simp, cases h, simp, cases b, simp, cases b, simp, cases b, simp,
      cases c, simp, cases c, simp, cases c, simp, cases g, simp, cases g, simp, cases g, simp, cases g, simp,
      cases d, simp, cases d, simp)

section \<open>A packet on its way\<close>

text \<open>The pseudo header and the TCP segment of an IPv4 packet.\<close>

definition pseudoSegment :: "8 word list \<Rightarrow> 8 word list" where
  "pseudoSegment bs = pseudoBytes (ipMeta bs) @ drop (4 * ipHeaderLength bs) bs"

lemma path_front:
  assumes "rxIdle p" and "ip_dataIn (px_ip p) = ws @ rest" and "carries ws bs" and "ipPacket bs"
    and "ipHeaderLength bs = 5 \<or> odd (ipHeaderLength bs)"
  shows "\<exists>q out. (rxFire beyond junk)\<^sup>*\<^sup>* p q \<and> carries out (pseudoSegment bs) \<and> ip_dataIn (px_ip q) = rest \<and>
    px_segment q = (px_segment p)\<lparr>sg_dataIn := out, sg_validIn := [oneSum (packetSum (pseudoSegment bs)) = 65535]\<rparr> \<and>
    rxIdle (q\<lparr>px_segment := px_segment p\<rparr>) \<and> px_unalign q = px_unalign p \<and> px_options q = px_options p"
proof -
  note i = assms(1) [unfolded rxIdle_def]
  let ?sb = "drop (4 * ipHeaderLength bs) bs" and ?v = "oneSum (packetSum (pseudoSegment bs)) = 65535"
  have taken: "headerTaken (ipHeaderLength bs) = 4 * ipHeaderLength bs" using assms(5) by (auto simp: headerTaken_def)
  obtain n1 w1 where s1: "ipReady ((process_ipv4 ^^ n1) (px_ip p))" "ip_dataIn ((process_ipv4 ^^ n1) (px_ip p)) = rest"
    "ip_dataOut ((process_ipv4 ^^ n1) (px_ip p)) = w1" "carries w1 ?sb"
    "ip_metaOut ((process_ipv4 ^^ n1) (px_ip p)) = [ipMeta bs]"
    using ip_packet [OF _ assms(2-4)] i taken by auto
  define k1 where "k1 = (process_ipv4 ^^ n1) (px_ip p)"
  define k1' where "k1' = k1\<lparr>ip_dataOut := [], ip_metaOut := []\<rparr>"
  define a where "a = (px_align p)\<lparr>sh_input := w1\<rparr>"
  have ra: "shiftReady 4 a" "sh_input a = w1 @ []" "sh_output a = []" using i by (simp_all add: a_def shiftReady_def)
  obtain n2 w2 where s2: "shiftReady 4 ((lshiftWordByOctet 4 ^^ n2) a)" "sh_input ((lshiftWordByOctet 4 ^^ n2) a) = []"
    "sh_output ((lshiftWordByOctet 4 ^^ n2) a) = w2" "carries w2 (replicate 4 0 @ ?sb)"
    using lshift_packet [OF _ _ ra(1,2) s1(4)] ra(3) by auto
  define k2 where "k2 = (lshiftWordByOctet 4 ^^ n2) a"
  define k2' where "k2' = k2\<lparr>sh_output := []\<rparr>"
  define b where "b = (px_prepend p)\<lparr>pp_ipMetaIn := [ipMeta bs], pp_packetIn := w2\<rparr>"
  have rb: "prependReady b" "pp_ipMetaIn b = ipMeta bs # []" "pp_packetIn b = w2 @ []" "pp_output b = []"
    using i by (simp_all add: b_def prependReady_def)
  obtain n3 w3 where s3: "prependReady ((prependPseudoHeader ^^ n3) b)" "pp_ipMetaIn ((prependPseudoHeader ^^ n3) b) = []"
    "pp_packetIn ((prependPseudoHeader ^^ n3) b) = []" "pp_output ((prependPseudoHeader ^^ n3) b) = w3"
    "carries w3 (pseudoSegment bs)"
    using prepend_packet [OF rb(1-3) s2(4)] rb(4) by (auto simp: pseudoSegment_def)
  define k3 where "k3 = (prependPseudoHeader ^^ n3) b"
  define k3' where "k3' = k3\<lparr>pp_output := []\<rparr>"
  define c where "c = (px_sums p)\<lparr>cs_dataIn := w3\<rparr>"
  have rc: "cs_dataIn c = w3 @ []" "cs_sums c = (\<lambda>i. 0)" "cs_subSums c = []" "cs_dataOut c = []" using i by (simp_all add: c_def)
  define k4 where "k4 = (two_complement_subchecksums ^^ length w3) c"
  have s4: "cs_dataIn k4 = []" "cs_dataOut k4 = w3" "cs_sums k4 = (\<lambda>i. 0)" "check_ipv4_checksum (cs_subSums k4, []) = ([], [?v])"
    using checksum_packet [OF s3(5) rc(1-3), where valid = "[]"] rc(4) by (auto simp: k4_def)
  obtain A B C D E G H J where p: "p = \<lparr>px_ip = A, px_align = B, px_prepend = C, px_sums = D, px_check = E,
      px_segment = G, px_unalign = H, px_options = J\<rparr>" by (cases p)
  note i = i [unfolded p, simplified]
  let ?q = "p\<lparr>px_ip := k1', px_align := k2', px_prepend := k3', px_sums := k4\<lparr>cs_dataOut := [],
      cs_subSums := []\<rparr>, px_check := ([], []), px_segment := G\<lparr>sg_dataIn := w3, sg_validIn := [?v]\<rparr>\<rparr>"
  let ?r = "(rxFire beyond junk)\<^sup>*\<^sup>*"
  have "?r p (p\<lparr>px_ip := k1\<rparr>)" by (rule ipPart.runs_to) (simp_all add: k1_def)
  from links_run [OF this] have "?r p (p\<lparr>px_ip := k1', px_align := a, px_prepend := C\<lparr>pp_ipMetaIn := [ipMeta bs]\<rparr>\<rparr>)"
    using i s1 by (simp add: p rxLinks_def k1_def k1'_def a_def empty_same)
  from alignPart.runs_to [OF this, of n2 k2] have "?r p (p\<lparr>px_ip := k1', px_align := k2, px_prepend := C\<lparr>pp_ipMetaIn := [ipMeta bs]\<rparr>\<rparr>)"
    by (simp add: p k2_def)
  from links_run [OF this] have "?r p (p\<lparr>px_ip := k1', px_align := k2', px_prepend := b\<rparr>)"
    using i s1 s2 by (simp add: p rxLinks_def k2_def k2'_def k1'_def k1_def b_def empty_same)
  from prependPart.runs_to [OF this, of n3 k3] have "?r p (p\<lparr>px_ip := k1', px_align := k2', px_prepend := k3\<rparr>)"
    by (simp add: p k3_def)
  from links_run [OF this] have "?r p (p\<lparr>px_ip := k1', px_align := k2', px_prepend := k3', px_sums := c\<rparr>)"
    using i s1 s2 s3 by (simp add: p rxLinks_def k3_def k3'_def k2_def k2'_def k1'_def k1_def c_def empty_same)
  from sumsPart.runs_to [OF this, of "length w3" k4] have "?r p (p\<lparr>px_ip := k1', px_align := k2', px_prepend := k3', px_sums := k4\<rparr>)"
    by (simp add: p k4_def)
  from links_run [OF this] have "?r p (p\<lparr>px_ip := k1', px_align := k2', px_prepend := k3', px_sums := k4\<lparr>cs_dataOut := [],
      cs_subSums := []\<rparr>, px_check := (cs_subSums k4, []), px_segment := G\<lparr>sg_dataIn := w3\<rparr>\<rparr>)"
    using i s1 s2 s3 s4 by (simp add: p rxLinks_def k3_def k3'_def k2_def k2'_def k1'_def k1_def empty_same)
  from checkPart.runs_to [OF this, of 1 "([], [?v])"] have "?r p (p\<lparr>px_ip := k1', px_align := k2', px_prepend := k3', px_sums := k4\<lparr>cs_dataOut := [],
      cs_subSums := []\<rparr>, px_check := ([], [?v]), px_segment := G\<lparr>sg_dataIn := w3\<rparr>\<rparr>)"
    using s4(4) by (simp add: p)
  from links_run [OF this] have run: "?r p ?q"
    using i s1 s2 s3 s4 by (simp add: p rxLinks_def k3_def k3'_def k2_def k2'_def k1'_def k1_def empty_same)
  have "rxIdle (?q\<lparr>px_segment := px_segment p\<rparr>)"
    using i s1 s2 s3 s4 by (simp add: p rxIdle_def k1_def k1'_def k2_def k2'_def k3_def k3'_def ipReady_def shiftReady_def prependReady_def)
  with run s1 s3 show ?thesis
    by (intro exI [of _ ?q] exI [of _ w3]) (simp add: p k1_def k1'_def)
qed


lemma sub_unat: "b \<le> a \<Longrightarrow> unat (a - b) = unat a - unat b"
  for a b :: "'a::len word"
  by (simp add: unat_sub)

text \<open>Lengths of a header that fits: the option request and the payload length are exact.\<close>

lemma segMeta_lengths:
  assumes "unat (be16 (ph ! 10) (ph ! 11)) + 12 = length ph" and "5 \<le> unat (rng 7 4 (ph ! 24) :: 4 word)"
    and "12 + 4 * unat (rng 7 4 (ph ! 24) :: 4 word) \<le> length ph"
  shows "unat (rm_dataOffset (segMeta junk ph)) = unat (rng 7 4 (ph ! 24) :: 4 word)"
    and "unat (rm_dataOffset (segMeta junk ph) - 5) = unat (rng 7 4 (ph ! 24) :: 4 word) - 5"
    and "unat (rm_length (segMeta junk ph)) = length ph - 12 - 4 * unat (rng 7 4 (ph ! 24) :: 4 word)"
    and "rm_length (segMeta junk ph) \<noteq> 0 \<or> rm_dataOffset (segMeta junk ph) > 5 \<longleftrightarrow> 32 < length ph"
proof -
  define off :: "4 word" where "off = rng 7 4 (ph ! 24)"
  define len where "len = be16 (ph ! 10) (ph ! 11)"
  have o16: "unat off < 16" using unsigned_less [of off, where 'a = nat] by simp
  have four: "unat (ucast off * 4 :: 16 word) = 4 * unat off"
    using o16 by (simp add: unat_word_ariths unsigned_ucast_eq unsigned_take_bit_eq take_bit_eq_mod)
  show d: "unat (rm_dataOffset (segMeta junk ph)) = unat (rng 7 4 (ph ! 24) :: 4 word)" by (simp add: segMeta_def Let_def)
  show "unat (rm_dataOffset (segMeta junk ph) - 5) = unat (rng 7 4 (ph ! 24) :: 4 word) - 5"
    using assms(2) by (subst sub_unat) (simp_all add: d word_le_nat_alt)
  show l: "unat (rm_length (segMeta junk ph)) = length ph - 12 - 4 * unat (rng 7 4 (ph ! 24) :: 4 word)"
  proof -
    have "rm_length (segMeta junk ph) = len - ucast off * 4" by (simp add: segMeta_def len_def off_def Let_def)
    moreover have "ucast off * 4 \<le> len" using assms(1,3) four by (simp add: word_le_nat_alt len_def off_def)
    ultimately show ?thesis using assms(1) four by (simp add: sub_unat len_def off_def)
  qed
  have z: "rm_length (segMeta junk ph) \<noteq> 0 \<longleftrightarrow> 0 < unat (rm_length (segMeta junk ph))" by (simp add: unat_gt_0)
  have f: "rm_dataOffset (segMeta junk ph) > 5 \<longleftrightarrow> 5 < unat (rm_dataOffset (segMeta junk ph))" by (simp add: word_less_nat_alt)
  show "rm_length (segMeta junk ph) \<noteq> 0 \<or> rm_dataOffset (segMeta junk ph) > 5 \<longleftrightarrow> 32 < length ph"
    unfolding z f l d using assms(2,3) by linarith
qed

lemma path_back:
  assumes "rxIdle (q\<lparr>px_segment := g\<rparr>)" and "px_segment q = g\<lparr>sg_dataIn := ws, sg_validIn := [v]\<rparr>" and "carries ws ph"
    and "unat (be16 (ph ! 10) (ph ! 11)) + 12 = length ph" and "5 \<le> unat (rng 7 4 (ph ! 24) :: 4 word)"
    and "12 + 4 * unat (rng 7 4 (ph ! 24) :: 4 word) \<le> length ph"
    and "\<not> beyond \<or> unat (rng 7 4 (ph ! 24) :: 4 word) = 5 \<or> even (unat (rng 7 4 (ph ! 24) :: 4 word))"
  shows "\<exists>q' out. (rxFire beyond junk)\<^sup>*\<^sup>* q q' \<and> rxIdle q' \<and> px_ip q' = px_ip q \<and>
    op_dataOut (px_options q') = op_dataOut (px_options q) @ out \<and>
    (if v \<and> unicast ph
     then sg_metaOut (px_segment q') = sg_metaOut g @ [segMeta junk ph] \<and>
       sg_tupleOut (px_segment q') = sg_tupleOut g @ [segTuple ph] \<and>
       sg_portOut (px_segment q') = sg_portOut g @ [be16 (ph ! 14) (ph ! 15)] \<and> sg_invalidSeg (px_segment q') = sg_invalidSeg g \<and>
       (if length ph = 12 + 4 * unat (rng 7 4 (ph ! 24) :: 4 word) then out = []
        else carries out (drop (12 + 4 * unat (rng 7 4 (ph ! 24) :: 4 word)) ph))
     else sg_metaOut (px_segment q') = sg_metaOut g \<and> sg_tupleOut (px_segment q') = sg_tupleOut g \<and>
       sg_portOut (px_segment q') = sg_portOut g \<and> sg_invalidSeg (px_segment q') = sg_invalidSeg g @ [1] \<and> out = [])"
proof -
  note i = assms(1) [unfolded rxIdle_def, simplified]
  define g1 where "g1 = g\<lparr>sg_dataIn := ws, sg_validIn := [v]\<rparr>"
  note lens = segMeta_lengths [OF assms(4-6), of junk]
  have rg: "segReady g1" "sg_dataIn g1 = ws @ []" "sg_validIn g1 = v # []" "32 \<le> length ph"
    using i assms(5,6) by (simp_all add: g1_def segReady_def)
  obtain h v' where s1: "segReady ((processPseudoHeader junk ^^ length ws) g1)"
    "(processPseudoHeader junk ^^ length ws) g1 = (segOutput junk ph (drop 4 ws) v g1)\<lparr>sg_dataIn := [],
      sg_validIn := [], sg_receivedSeg := sg_receivedSeg g1 @ [1], sg_header := h, sg_pkgValid := v'\<rparr>"
    "32 < length ph \<Longrightarrow> carries (drop 4 ws) (drop 32 ph)" "length ph = 32 \<Longrightarrow> drop 4 ws = []"
    using seg_packet [OF rg(1-3) assms(3) rg(4), of junk] by blast
  define k where "k = (processPseudoHeader junk ^^ length ws) g1"
  define k' where "k' = k\<lparr>sg_dataOut := [], sg_ofMetaOut := []\<rparr>"
  let ?r = "(rxFire beyond junk)\<^sup>*\<^sup>*"
  obtain A B C D E H J where q: "q = \<lparr>px_ip = A, px_align = B, px_prepend = C, px_sums = D, px_check = E,
      px_segment = g1, px_unalign = H, px_options = J\<rparr>" using assms(2) by (cases q) (auto simp: g1_def)
  note i = i [unfolded q, simplified]
  have "?r q (q\<lparr>px_segment := k\<rparr>)" by (rule segmentPart.runs_to [of _ _ _ _ "length ws"]) (simp_all add: q k_def)
  note r1 = links_run [OF this]
  show ?thesis
  proof (cases "v \<and> unicast ph")
    case False
    then have k: "sg_dataOut k = []" "sg_ofMetaOut k = []" "sg_metaOut k = sg_metaOut g" "sg_tupleOut k = sg_tupleOut g"
      "sg_portOut k = sg_portOut g" "sg_invalidSeg k = sg_invalidSeg g @ [1]" "sg_dataIn k = []" "sg_validIn k = []"
      using i s1(2) by (auto simp: k_def segOutput_def g1_def Let_def)
    have "rxLinks (q\<lparr>px_segment := k\<rparr>) = q\<lparr>px_segment := k\<rparr>" using i k by (simp add: q rxLinks_def empty_same)
    with r1 i k s1(1) False show ?thesis
      by (intro exI [of _ "q\<lparr>px_segment := k\<rparr>"] exI [of _ "[]"]) (simp add: q rxIdle_def k_def)
  next
    case True
    define m where "m = \<lparr>of_dataOffset = rm_dataOffset (segMeta junk ph) - 5, of_syn = rm_syn (segMeta junk ph)\<rparr>"
    define us where "us = drop 4 ws"
    have k: "sg_dataOut k = us" "sg_ofMetaOut k = (if 32 < length ph then [m] else [])"
      "sg_metaOut k = sg_metaOut g @ [segMeta junk ph]" "sg_tupleOut k = sg_tupleOut g @ [segTuple ph]"
      "sg_portOut k = sg_portOut g @ [be16 (ph ! 14) (ph ! 15)]" "sg_invalidSeg k = sg_invalidSeg g" "sg_dataIn k = []" "sg_validIn k = []"
      using i s1(2) True lens(4) by (simp_all add: k_def segOutput_def g1_def m_def us_def Let_def)
    show ?thesis
    proof (cases "32 < length ph")
      case short: False
      with k rg(4) s1(4) have k0: "sg_dataOut k = []" "sg_ofMetaOut k = []" by (simp_all add: us_def)
      have "rxLinks (q\<lparr>px_segment := k\<rparr>) = q\<lparr>px_segment := k\<rparr>" using i k k0 by (simp add: q rxLinks_def empty_same)
      with r1 i k k0 s1(1) True short assms(5,6) show ?thesis
        by (intro exI [of _ "q\<lparr>px_segment := k\<rparr>"] exI [of _ "[]"]) (simp add: q rxIdle_def k_def)
    next
      case long: True
      define a where "a = H\<lparr>sh_input := us\<rparr>"
      have ra: "shiftReady 0 a" "\<not> sh_firstWord a" "sh_input a = us @ []" "sh_output a = []" using i by (simp_all add: a_def shiftReady_def)
      obtain pw where s2: "(rshiftWordByOctet 0 ^^ length us) a = a\<lparr>sh_input := [], sh_output := us, sh_prevWord := pw\<rparr>"
        using rshift0_words [OF ra(1-3)] ra(4) by auto
      define k2 where "k2 = a\<lparr>sh_input := [], sh_output := [], sh_prevWord := pw\<rparr>"
      define b where "b = J\<lparr>op_metaIn := [m], op_dataIn := us\<rparr>"
      have rb: "op_state b = 0" "op_metaIn b = m # []" "op_dataIn b = us @ []" using i by (simp_all add: b_def)
      have fits: "4 * unat (of_dataOffset m) \<le> length (drop 32 ph)" using assms(5,6) lens(2) by (simp add: m_def)
      have flag: "\<not> beyond \<or> of_dataOffset m = 0 \<or> odd (unat (of_dataOffset m))"
        using assms(5,7) lens(2) by (auto simp: m_def word_unat_eq_iff)
      obtain n k3 where s3: "iter_opt (drop_optional_header_fields beyond) n b = Some k3"
        "optionsSent (b\<lparr>op_metaIn := []\<rparr>) [] (drop (4 * unat (of_dataOffset m)) (drop 32 ph)) k3"
        using options_segment [OF rb s1(3) [OF long, folded us_def] fits flag] by blast
      have dr: "drop (4 * unat (of_dataOffset m)) (drop 32 ph) = drop (12 + 4 * unat (rng 7 4 (ph ! 24) :: 4 word)) ph"
      proof -
        have "4 * (n - 5) + 32 = 12 + 4 * n" if "5 \<le> n" for n :: nat using that by simp
        from this [OF assms(5)] show ?thesis by (simp only: drop_drop m_def optionalFieldsMeta.simps lens(2))
      qed
      have "?r q (q\<lparr>px_segment := k', px_unalign := a, px_options := J\<lparr>op_metaIn := [m]\<rparr>\<rparr>)"
        using r1 i k long by (simp add: q rxLinks_def empty_same k'_def a_def)
      from unalignPart.runs_to [OF this, of "length us"] s2
      have "?r q (q\<lparr>px_segment := k', px_unalign := a\<lparr>sh_input := [], sh_output := us, sh_prevWord := pw\<rparr>, px_options := J\<lparr>op_metaIn := [m]\<rparr>\<rparr>)"
        by (simp add: q)
      from links_run [OF this] have r2: "?r q (q\<lparr>px_segment := k', px_unalign := k2, px_options := b\<rparr>)"
        using i k by (simp add: q rxLinks_def empty_same k'_def k2_def b_def a_def)
      from options_runs [of beyond n "q\<lparr>px_segment := k', px_unalign := k2, px_options := b\<rparr>" k3 junk] s3(1)
      have "?r (q\<lparr>px_segment := k', px_unalign := k2, px_options := b\<rparr>) (q\<lparr>px_segment := k', px_unalign := k2, px_options := k3\<rparr>)"
        by (simp add: q)
      with r2 have r3: "?r q (q\<lparr>px_segment := k', px_unalign := k2, px_options := k3\<rparr>)" by (rule rtranclp_trans)
      obtain out where out: "op_state k3 = 0" "op_dataIn k3 = []" "op_metaIn k3 = []" "op_dataOut k3 = op_dataOut J @ out"
        "if drop (12 + 4 * unat (rng 7 4 (ph ! 24) :: 4 word)) ph = [] then out = []
         else carries out (drop (12 + 4 * unat (rng 7 4 (ph ! 24) :: 4 word)) ph)"
        using s3(2) unfolding dr optionsSent_def by (auto simp: b_def)
      have "rxIdle (q\<lparr>px_segment := k', px_unalign := k2, px_options := k3\<rparr>)"
        using i k out s1(1) ra by (simp add: q rxIdle_def k'_def k2_def segReady_def shiftReady_def flip: k_def)
      with r3 k out True assms(6) show ?thesis
        by (intro exI [of _ "q\<lparr>px_segment := k', px_unalign := k2, px_options := k3\<rparr>"] exI [of _ out])
          (auto simp: q k'_def split: if_splits)
    qed
  qed
qed


text \<open>Pseudo header and segment on the bytes of the packet.\<close>

lemma pseudoSegment_bytes:
  assumes "ipPacket bs" and "unat (be16 (bs ! 2) (bs ! 3)) = length bs"
  shows "length (pseudoSegment bs) = 12 + (length bs - 4 * ipHeaderLength bs)"
    and "unat (be16 (pseudoSegment bs ! 10) (pseudoSegment bs ! 11)) + 12 = length (pseudoSegment bs)"
    and "pseudoSegment bs ! 24 = bs ! (4 * ipHeaderLength bs + 12)"
    and "drop (12 + n) (pseudoSegment bs) = drop (4 * ipHeaderLength bs + n) bs"
proof -
  let ?hl = "ipHeaderLength bs"
  have p: "4 * ?hl \<le> length bs" "?hl < 16" using assms(1) ipHeaderLength_less by (auto simp: ipPacket_def)
  have l12: "length (pseudoBytes m) = 12" for m by (simp add: pseudoBytes_def)
  show len: "length (pseudoSegment bs) = 12 + (length bs - 4 * ?hl)" by (simp add: pseudoSegment_def l12)
  show "drop (12 + n) (pseudoSegment bs) = drop (4 * ?hl + n) bs" by (simp add: pseudoSegment_def l12 add.commute)
  have 1: "pseudoSegment bs ! 10 = rng 15 8 (pm_length (ipMeta bs))" "pseudoSegment bs ! 11 = rng 7 0 (pm_length (ipMeta bs))"
    by (simp_all add: pseudoSegment_def pseudoBytes_def nth_append bytes32_def bytes16_def)
  have "unat (of_nat (4 * ?hl) :: 16 word) = 4 * ?hl" using p(2) by (simp add: unat_of_nat del: of_nat_mult)
  then have "unat (pm_length (ipMeta bs)) = length bs - 4 * ?hl"
    using p assms(2) by (simp add: ipMeta_def sub_unat word_le_nat_alt del: of_nat_mult)
  then show "unat (be16 (pseudoSegment bs ! 10) (pseudoSegment bs ! 11)) + 12 = length (pseudoSegment bs)"
    unfolding 1 be_bytes(1) len by simp
  have "20 + 4 * ?hl \<le> length bs" using assms(1) by (simp add: ipPacket_def)
  then show "pseudoSegment bs ! 24 = bs ! (4 * ?hl + 12)" by (simp add: pseudoSegment_def nth_append l12)
qed

text \<open>C27: A well-formed IPv4 packet (its length field is its length, its headers fit) without IP options or with an odd
  number of header words crosses the stages of the receive engine, whatever its TCP options and its payload.  If the one's
  complement sum of pseudo header and segment is all ones and neither address is a multicast or broadcast one, the metadata,
  the four-tuple and the port request of its header are issued and exactly its payload is passed on, or nothing when there is
  none; otherwise the segment is counted as an error and nothing of it is issued.  The path is then idle again.

  Two kinds of packets are left out.  With an even number of IP header words above five, eight bytes of the segment are
  removed with the header (\<open>ip_header_removed\<close>).  With an even number of TCP option words the code may read the
  keep flag past the last one of a word, and the result is this only when it reads as clear (\<open>option_flag_beyond\<close>);
  without options, or with an odd number, what it reads there (\<open>beyond\<close>) is of no consequence.\<close>

theorem ip_packet_to_payload:
  assumes "rxIdle p" and "ip_dataIn (px_ip p) = ws @ rest" and "carries ws bs" and "ipPacket bs"
    and "ipHeaderLength bs = 5 \<or> odd (ipHeaderLength bs)" and "unat (be16 (bs ! 2) (bs ! 3)) = length bs"
    and "start = 4 * ipHeaderLength bs" and "off = unat (rng 7 4 (bs ! (start + 12)) :: 4 word)" and "tcp = 4 * off" and "5 \<le> off"
    and "start + tcp \<le> length bs" and "ph = pseudoSegment bs" and "\<not> beyond \<or> off = 5 \<or> even off"
  shows "\<exists>q out. (rxFire beyond junk)\<^sup>*\<^sup>* p q \<and> rxIdle q \<and> ip_dataIn (px_ip q) = rest \<and>
    op_dataOut (px_options q) = op_dataOut (px_options p) @ out \<and>
    (if oneSum (packetSum ph) = 65535 \<and> unicast ph
     then sg_metaOut (px_segment q) = sg_metaOut (px_segment p) @ [segMeta junk ph] \<and>
       sg_tupleOut (px_segment q) = sg_tupleOut (px_segment p) @ [segTuple ph] \<and>
       sg_portOut (px_segment q) = sg_portOut (px_segment p) @ [be16 (bs ! (start + 2)) (bs ! (start + 3))] \<and>
       sg_invalidSeg (px_segment q) = sg_invalidSeg (px_segment p) \<and>
       (if length bs = start + tcp then out = [] else carries out (drop (start + tcp) bs))
     else sg_metaOut (px_segment q) = sg_metaOut (px_segment p) \<and> sg_tupleOut (px_segment q) = sg_tupleOut (px_segment p) \<and>
       sg_portOut (px_segment q) = sg_portOut (px_segment p) \<and>
       sg_invalidSeg (px_segment q) = sg_invalidSeg (px_segment p) @ [1] \<and> out = [])"
proof -
  note b = pseudoSegment_bytes [OF assms(4,6)]
  obtain q0 w where f: "(rxFire beyond junk)\<^sup>*\<^sup>* p q0" "carries w (pseudoSegment bs)" "ip_dataIn (px_ip q0) = rest"
    "px_segment q0 = (px_segment p)\<lparr>sg_dataIn := w, sg_validIn := [oneSum (packetSum (pseudoSegment bs)) = 65535]\<rparr>"
    "rxIdle (q0\<lparr>px_segment := px_segment p\<rparr>)" "px_options q0 = px_options p"
    using path_front [OF assms(1-5)] by blast
  have off: "5 \<le> unat (rng 7 4 (pseudoSegment bs ! 24) :: 4 word)"
    "12 + 4 * unat (rng 7 4 (pseudoSegment bs ! 24) :: 4 word) \<le> length (pseudoSegment bs)"
    "length (pseudoSegment bs) = 12 + 4 * unat (rng 7 4 (pseudoSegment bs ! 24) :: 4 word) \<longleftrightarrow> length bs = start + tcp"
    "drop (12 + 4 * unat (rng 7 4 (pseudoSegment bs ! 24) :: 4 word)) (pseudoSegment bs) = drop (start + tcp) bs"
    using assms(7-11) b(1) by (simp_all add: b(3,4)) linarith+
  have flag: "\<not> beyond \<or> unat (rng 7 4 (pseudoSegment bs ! 24) :: 4 word) = 5 \<or> even (unat (rng 7 4 (pseudoSegment bs ! 24) :: 4 word))"
    using assms(7,8,13) by (simp add: b(3))
  have "pseudoSegment bs ! 14 = bs ! (start + 2)" "pseudoSegment bs ! 15 = bs ! (start + 3)"
    using assms(4,7) by (simp_all add: pseudoSegment_def nth_append pseudoBytes_def ipPacket_def)
  with path_back [OF f(5,4,2) b(2) off(1,2) flag, of junk] obtain q out where "(rxFire beyond junk)\<^sup>*\<^sup>* q0 q" "rxIdle q"
    "px_ip q = px_ip q0" "op_dataOut (px_options q) = op_dataOut (px_options q0) @ out"
    "if oneSum (packetSum ph) = 65535 \<and> unicast ph
     then sg_metaOut (px_segment q) = sg_metaOut (px_segment p) @ [segMeta junk ph] \<and>
       sg_tupleOut (px_segment q) = sg_tupleOut (px_segment p) @ [segTuple ph] \<and>
       sg_portOut (px_segment q) = sg_portOut (px_segment p) @ [be16 (bs ! (start + 2)) (bs ! (start + 3))] \<and>
       sg_invalidSeg (px_segment q) = sg_invalidSeg (px_segment p) \<and>
       (if length bs = start + tcp then out = [] else carries out (drop (start + tcp) bs))
     else sg_metaOut (px_segment q) = sg_metaOut (px_segment p) \<and> sg_tupleOut (px_segment q) = sg_tupleOut (px_segment p) \<and>
       sg_portOut (px_segment q) = sg_portOut (px_segment p) \<and>
       sg_invalidSeg (px_segment q) = sg_invalidSeg (px_segment p) @ [1] \<and> out = []"
    unfolding off(3,4) assms(12) by auto
  with f(1,3,6) show ?thesis
    by (intro exI [of _ q] exI [of _ out] conjI) (auto intro: rtranclp_trans)
qed


text \<open>A segment with a payload of four bytes.\<close>

definition sampleDelivery :: "8 word list" where
  "sampleDelivery = [69, 0, 0, 44, 0, 0, 0, 0, 64, 6, 0, 0, 10, 0, 0, 1, 10, 0, 0, 2, 0, 80, 0, 81, 0, 0, 0, 1, 0, 0, 0, 2, 80, 24, 16, 0, 135, 28, 0, 0, 1, 2, 3, 4]"

definition samplePath :: rxPath where
  "samplePath = \<lparr>
     px_ip = sampleIpStage\<lparr>ip_dataIn := [sampleWord 0x000000002C000045,
       sampleWord 0x0100000A00000640,
       sampleWord 0x510050000200000A,
       sampleWord 0x0200000001000000,
       sampleWord 0x00001C8700101850,
       \<lparr>ax_data = 0x4030201, ax_keep = 0xF, ax_last = True\<rparr>]\<rparr>,
     px_align = \<lparr>sh_fsmState = SH_PKG, sh_firstWord = True, sh_prevWord = zeroWord, sh_input = [], sh_output = []\<rparr>,
     px_prepend = \<lparr>pp_state = PH_META, pp_prevWord = zeroWord, pp_firstPayload = False,
       pp_header = \<lparr>ph_ready = False, ph_idx = 0, ph_header = upd 79 72 (6 :: 8 word) 0\<rparr>, pp_ipMetaIn = [], pp_packetIn = [], pp_output = []\<rparr>,
     px_sums = sampleChecksum\<lparr>cs_dataIn := []\<rparr>, px_check = ([], []),
     px_segment = sampleSegmentStage\<lparr>sg_dataIn := [], sg_validIn := []\<rparr>,
     px_unalign = \<lparr>sh_fsmState = SH_PKG, sh_firstWord = False, sh_prevWord = zeroWord, sh_input = [], sh_output = []\<rparr>,
     px_options = sampleOptionStage\<lparr>op_metaIn := [], op_dataIn := []\<rparr>\<rparr>"

theorem ip_packet_to_payload_witness:
  "\<exists>q. (rxFire True 0)\<^sup>*\<^sup>* samplePath q \<and> carries (op_dataOut (px_options q)) [1, 2, 3, 4] \<and>
     sg_portOut (px_segment q) = [be16 0 81]"
proof -
  let ?ws = "ip_dataIn (px_ip samplePath)"
  have h: "rxIdle samplePath" "?ws = ?ws @ []" "carries ?ws sampleDelivery" "ipPacket sampleDelivery"
    "ipHeaderLength sampleDelivery = 5" "unat (be16 (sampleDelivery ! 2) (sampleDelivery ! 3)) = length sampleDelivery"
    "4 * unat (rng 7 4 (sampleDelivery ! 32) :: 4 word) = 20" "length sampleDelivery = 44"
    by (simp add: rxIdle_def samplePath_def ipReady_def shiftReady_def prependReady_def headerByte_def sampleIpStage_def
        sampleChecksum_def sampleSegmentStage_def sampleOptionStage_def segReady_def rng_simps rng_upd_inside, simp, code_simp, code_simp, code_simp, code_simp, code_simp, code_simp)
  have ph: "pseudoSegment sampleDelivery = [10, 0, 0, 1, 10, 0, 0, 2, 0, 6, 0, 24, 0, 80, 0, 81, 0, 0, 0, 1, 0, 0, 0, 2, 80, 24, 16, 0, 135, 28, 0, 0, 1, 2, 3, 4]"
    by code_simp
  have s: "oneSum (packetSum (pseudoSegment sampleDelivery)) = 65535" "unicast (pseudoSegment sampleDelivery)"
    unfolding ph by (simp add: packetSum_def oneSum_def be16_def upd_def mask_eq_exp_minus_1, code_simp)
  have d: "drop 40 sampleDelivery = [1, 2, 3, 4]" "sampleDelivery ! 22 = 0" "sampleDelivery ! 23 = 81" by (simp_all add: sampleDelivery_def)
  have o: "op_dataOut (px_options samplePath) = []" "sg_portOut (px_segment samplePath) = []"
    by (simp_all add: samplePath_def sampleOptionStage_def sampleSegmentStage_def)
  have off: "unat (rng 7 4 (sampleDelivery ! 32) :: 4 word) = 5" using h(7) by simp
  from ip_packet_to_payload [OF h(1-4) disjI1 [OF h(5)] h(6) refl refl refl _ _ refl, of True 0] h(5,8) off s d o
  show ?thesis by auto
qed

end
