(* ===== verification/Toe_Rx_Meta.thy ===== *)
theory Toe_Rx_Meta
  imports Toe_Rx_Path Toe_Events
begin

text \<open>
  The last stages of the receive engine (\<^verbatim>\<open>toe/rx_engine/rx_engine.cpp\<close>): \<^verbatim>\<open>rxMetadataHandler\<close>
  looks up the session of a segment or answers it with a reset, \<^verbatim>\<open>rxPackageDropper\<close> passes on or drops its
  payload, \<^verbatim>\<open>rxEventMerger\<close> and \<^verbatim>\<open>statCounters\<close> collect events and statistics.  The theorems: what is
  decided for every segment, and which payload reaches the application.
\<close>

section \<open>Metadata handler\<close>







section \<open>Packet dropper\<close>

datatype dropperState = READ_DROP1 | READ_DROP2 | DP_FWD | DP_DROP

record dropper =
  dp_state :: dropperState
  dp_dataIn :: "axiWord hls_stream"
  dp_drop1 :: "bool hls_stream"
  dp_drop2 :: "bool hls_stream"
  dp_dataOut :: "axiWord hls_stream"

definition rxPackageDropper :: "dropper \<Rightarrow> dropper" where
  "rxPackageDropper k =
     (case dp_state k of
        READ_DROP1 \<Rightarrow>
          if \<not> s_empty (dp_drop1 k)
          then k\<lparr>dp_drop1 := s_rest (dp_drop1 k), dp_state := (if s_head (dp_drop1 k) then DP_DROP else READ_DROP2)\<rparr> else k
      | READ_DROP2 \<Rightarrow>
          if \<not> s_empty (dp_drop2 k)
          then k\<lparr>dp_drop2 := s_rest (dp_drop2 k), dp_state := (if s_head (dp_drop2 k) then DP_DROP else DP_FWD)\<rparr> else k
      | DP_FWD \<Rightarrow>
          if \<not> s_empty (dp_dataIn k)
          then k\<lparr>dp_dataIn := s_rest (dp_dataIn k), dp_dataOut := s_write (dp_dataOut k) (s_head (dp_dataIn k)),
                 dp_state := (if ax_last (s_head (dp_dataIn k)) then READ_DROP1 else DP_FWD)\<rparr> else k
      | DP_DROP \<Rightarrow>
          if \<not> s_empty (dp_dataIn k)
          then k\<lparr>dp_dataIn := s_rest (dp_dataIn k),
                 dp_state := (if ax_last (s_head (dp_dataIn k)) then READ_DROP1 else DP_DROP)\<rparr> else k)"

section \<open>Events and statistics\<close>

text \<open>Writing an \<^verbatim>\<open>event\<close> to a stream of \<^verbatim>\<open>extendedEvent\<close> goes through the constructor, which does not take
  over the checksum.\<close>

definition convertEvent :: "toeEvent \<Rightarrow> extendedEvent" where
  "convertEvent e = extendEvent (e\<lparr>ev_subSum := 0, ev_validSum := False\<rparr>)"

record eventMerger =
  em_in1 :: "extendedEvent hls_stream"
  em_in2 :: "toeEvent hls_stream"
  em_out :: "extendedEvent hls_stream"

definition rxEventMerger :: "eventMerger \<Rightarrow> eventMerger" where
  "rxEventMerger k =
     (if \<not> s_empty (em_in1 k) then k\<lparr>em_in1 := s_rest (em_in1 k), em_out := s_write (em_out k) (s_head (em_in1 k))\<rparr>
      else if \<not> s_empty (em_in2 k)
      then k\<lparr>em_in2 := s_rest (em_in2 k), em_out := s_write (em_out k) (convertEvent (s_head (em_in2 k)))\<rparr>
      else k)"

record tcpCounts =
  ct_attemptFails :: "32 word"
  ct_estabResets :: "32 word"
  ct_inSegs :: "32 word"
  ct_inErrs :: "32 word"
  ct_attemptFailsIn :: "1 word hls_stream"
  ct_estabResetsIn :: "1 word hls_stream"
  ct_inSegsIn :: "1 word hls_stream"
  ct_inErrsIn :: "1 word hls_stream"

definition statCounters :: "tcpCounts \<Rightarrow> tcpCounts" where
  "statCounters k =
     (let k = (if s_empty (ct_attemptFailsIn k) then k else k\<lparr>ct_attemptFailsIn := s_rest (ct_attemptFailsIn k), ct_attemptFails := ct_attemptFails k + 1\<rparr>);
          k = (if s_empty (ct_estabResetsIn k) then k else k\<lparr>ct_estabResetsIn := s_rest (ct_estabResetsIn k), ct_estabResets := ct_estabResets k + 1\<rparr>);
          k = (if s_empty (ct_inSegsIn k) then k else k\<lparr>ct_inSegsIn := s_rest (ct_inSegsIn k), ct_inSegs := ct_inSegs k + 1\<rparr>)
      in if s_empty (ct_inErrsIn k) then k else k\<lparr>ct_inErrsIn := s_rest (ct_inErrsIn k), ct_inErrs := ct_inErrs k + 1\<rparr>)"


section \<open>The decision on a segment\<close>




section \<open>The fate of the payload\<close>

text \<open>The verdicts of the two streams in the order of the packets: a packet the handler keeps takes one of the state machine.\<close>

fun verdicts :: "bool list \<Rightarrow> bool list \<Rightarrow> bool list" where
  "verdicts (True # ds) es = False # verdicts ds es"
| "verdicts (False # ds) (e # es) = (\<not> e) # verdicts ds es"
| "verdicts _ _ = []"

definition kept_packets :: "'a list list \<Rightarrow> bool list \<Rightarrow> 'a list" where
  "kept_packets wss vs = concat (map fst (filter snd (zip wss vs)))"

lemma kept_packets_Cons: "kept_packets (ws # wss) (v # vs) = (if v then ws else []) @ kept_packets wss vs"
  by (simp add: kept_packets_def)

lemma dropper_words: "is_packet ws \<Longrightarrow> dp_state k = (if v then DP_FWD else DP_DROP) \<Longrightarrow> dp_dataIn k = ws @ rest \<Longrightarrow>
    (rxPackageDropper ^^ length ws) k = k\<lparr>dp_dataIn := rest, dp_dataOut := dp_dataOut k @ (if v then ws else []), dp_state := READ_DROP1\<rparr>"
proof (induction ws arbitrary: k)
  case Nil
  then show ?case by simp
next
  case (Cons w ws)
  have st: "rxPackageDropper k = k\<lparr>dp_dataIn := ws @ rest, dp_dataOut := dp_dataOut k @ (if v then [w] else []),
      dp_state := (if ax_last w then READ_DROP1 else dp_state k)\<rparr>"
    using Cons.prems(2,3) by (cases k) (auto simp: rxPackageDropper_def s_write_def)
  show ?case
  proof (cases "ax_last w")
    case True
    then have "ws = []" using Cons.prems(1) by (simp add: is_packet_Cons)
    with True st show ?thesis by simp
  next
    case False
    then have "is_packet ws" using Cons.prems(1) by (simp add: is_packet_Cons)
    with Cons.IH [of "rxPackageDropper k"] Cons.prems(2) False st show ?thesis
      by (simp add: funpow_Suc_apply del: funpow.simps(2))
  qed
qed

lemma dropper_packets: "dp_state k = READ_DROP1 \<Longrightarrow> dp_dataIn k = concat wss @ rest \<Longrightarrow> list_all is_packet wss \<Longrightarrow>
    dp_drop1 k = ds @ ds' \<Longrightarrow> dp_drop2 k = es @ es' \<Longrightarrow> length ds = length wss \<Longrightarrow> length es = length (filter Not ds) \<Longrightarrow>
    \<exists>n. (rxPackageDropper ^^ n) k = k\<lparr>dp_state := READ_DROP1, dp_dataIn := rest, dp_drop1 := ds', dp_drop2 := es',
      dp_dataOut := dp_dataOut k @ kept_packets wss (verdicts ds es)\<rparr>"
proof (induction wss arbitrary: k ds es)
  case Nil
  then have "k\<lparr>dp_state := READ_DROP1, dp_dataIn := rest, dp_drop1 := ds', dp_drop2 := es', dp_dataOut := dp_dataOut k @ kept_packets [] (verdicts ds es)\<rparr> = k"
    by (cases k) (simp add: kept_packets_def)
  then show ?case by (intro exI [of _ 0]) simp
next
  case (Cons ws wss)
  obtain d ds1 where d: "ds = d # ds1" using Cons.prems(6) by (cases ds) auto
  show ?case
  proof (cases d)
    case True
    let ?k = "k\<lparr>dp_drop1 := ds1 @ ds', dp_state := DP_DROP\<rparr>"
    have st: "rxPackageDropper k = ?k" using Cons.prems(1,4) d True by (simp add: rxPackageDropper_def)
    have "(rxPackageDropper ^^ length ws) ?k = ?k\<lparr>dp_dataIn := concat wss @ rest, dp_state := READ_DROP1\<rparr>"
      using dropper_words [of ws ?k False "concat wss @ rest"] Cons.prems(2,3) by simp
    moreover have "\<exists>n. (rxPackageDropper ^^ n) (?k\<lparr>dp_dataIn := concat wss @ rest, dp_state := READ_DROP1\<rparr>) =
        k\<lparr>dp_state := READ_DROP1, dp_dataIn := rest, dp_drop1 := ds', dp_drop2 := es', dp_dataOut := dp_dataOut k @ kept_packets wss (verdicts ds1 es)\<rparr>"
      using Cons.IH [of "?k\<lparr>dp_dataIn := concat wss @ rest, dp_state := READ_DROP1\<rparr>" ds1 es] Cons.prems(1,3,5-7) d True by simp
    ultimately obtain n where "(rxPackageDropper ^^ n) ((rxPackageDropper ^^ length ws) ?k) =
        k\<lparr>dp_state := READ_DROP1, dp_dataIn := rest, dp_drop1 := ds', dp_drop2 := es', dp_dataOut := dp_dataOut k @ kept_packets wss (verdicts ds1 es)\<rparr>" by auto
    then have "(rxPackageDropper ^^ (n + (length ws + 1))) k =
        k\<lparr>dp_state := READ_DROP1, dp_dataIn := rest, dp_drop1 := ds', dp_drop2 := es', dp_dataOut := dp_dataOut k @ kept_packets wss (verdicts ds1 es)\<rparr>"
      unfolding funpow_add comp_apply by (simp add: st)
    with d True show ?thesis by (intro exI [of _ "n + (length ws + 1)"]) (simp add: kept_packets_Cons)
  next
    case False
    obtain e es1 where e: "es = e # es1" using Cons.prems(7) d False by (cases es) auto
    let ?k = "k\<lparr>dp_drop1 := ds1 @ ds', dp_drop2 := es1 @ es', dp_state := (if \<not> e then DP_FWD else DP_DROP)\<rparr>"
    let ?k' = "?k\<lparr>dp_dataIn := concat wss @ rest, dp_dataOut := dp_dataOut k @ (if \<not> e then ws else []), dp_state := READ_DROP1\<rparr>"
    have st: "rxPackageDropper (rxPackageDropper k) = ?k" using Cons.prems(1,4,5) d e False by (simp add: rxPackageDropper_def)
    have w: "(rxPackageDropper ^^ length ws) ?k = ?k'"
      using dropper_words [of ws ?k "\<not> e" "concat wss @ rest"] Cons.prems(2,3) by simp
    have "\<exists>n. (rxPackageDropper ^^ n) ?k' = k\<lparr>dp_state := READ_DROP1, dp_dataIn := rest, dp_drop1 := ds', dp_drop2 := es',
        dp_dataOut := (dp_dataOut k @ (if \<not> e then ws else [])) @ kept_packets wss (verdicts ds1 es1)\<rparr>"
      using Cons.IH [of ?k' ds1 es1] Cons.prems(1,3,6,7) d e False by simp
    then obtain n where "(rxPackageDropper ^^ n) ((rxPackageDropper ^^ length ws) ?k) = k\<lparr>dp_state := READ_DROP1, dp_dataIn := rest, dp_drop1 := ds', dp_drop2 := es',
        dp_dataOut := (dp_dataOut k @ (if \<not> e then ws else [])) @ kept_packets wss (verdicts ds1 es1)\<rparr>" unfolding w by blast
    then have "(rxPackageDropper ^^ (n + (length ws + 2))) k = k\<lparr>dp_state := READ_DROP1, dp_dataIn := rest, dp_drop1 := ds', dp_drop2 := es',
        dp_dataOut := (dp_dataOut k @ (if \<not> e then ws else [])) @ kept_packets wss (verdicts ds1 es1)\<rparr>"
      unfolding funpow_add comp_apply by (simp add: st numeral_2_eq_2)
    with d e False show ?thesis by (intro exI [of _ "n + (length ws + 2)"]) (simp add: kept_packets_Cons)
  qed
qed


text \<open>A segment with the answers it gets: whether the lookup hits, and what the state machine reads.\<close>

record servedSegment =
  sv_fsmMeta :: rxFsmMetaData
  sv_hit :: bool
  sv_state :: sessionState
  sv_rxSar :: rxSarEntry
  sv_txSar :: rxTxSarReply

definition withPayload :: "servedSegment \<Rightarrow> bool" where
  "withPayload g \<longleftrightarrow> rm_length (fm_meta (sv_fsmMeta g)) \<noteq> 0"

definition fsmVerdict :: "16 word \<Rightarrow> 16 word \<Rightarrow> servedSegment \<Rightarrow> bool list" where
  "fsmVerdict dc mdc g = fo_drop (fsmServe dc mdc (sv_fsmMeta g) (sv_state g) (sv_rxSar g) (sv_txSar g))"

definition delivered :: "16 word \<Rightarrow> 16 word \<Rightarrow> servedSegment \<Rightarrow> bool" where
  "delivered dc mdc g \<longleftrightarrow> sv_hit g \<and> fsmVerdict dc mdc g = [False]"

lemma fsmVerdict_length: "length (fsmVerdict dc mdc g) = (if withPayload g \<and>
    (segmentKind (fm_meta (sv_fsmMeta g)) \<in> {SegAck, SegFin} \<or> rm_rst (fm_meta (sv_fsmMeta g))) then 1 else 0)"
  by (simp add: fsmVerdict_def withPayload_def payload_verdicts)

definition handlerVerdicts :: "servedSegment list \<Rightarrow> bool list" where
  "handlerVerdicts gs = concat (map (\<lambda>g. if withPayload g then [\<not> sv_hit g] else []) gs)"

definition fsmVerdicts :: "16 word \<Rightarrow> 16 word \<Rightarrow> servedSegment list \<Rightarrow> bool list" where
  "fsmVerdicts dc mdc gs = concat (map (\<lambda>g. if sv_hit g then fsmVerdict dc mdc g else []) gs)"

text \<open>The segments whose payload the state machine judges.\<close>

definition judged :: "servedSegment \<Rightarrow> bool" where
  "judged g \<longleftrightarrow> segmentKind (fm_meta (sv_fsmMeta g)) \<in> {SegAck, SegFin} \<or> rm_rst (fm_meta (sv_fsmMeta g))"

lemma served_verdicts:
  assumes "\<forall>g\<in>set gs. withPayload g \<and> sv_hit g \<longrightarrow> judged g"
  shows "verdicts (handlerVerdicts gs @ ds) (fsmVerdicts dc mdc gs @ es) =
      map (delivered dc mdc) (filter withPayload gs) @ verdicts ds es"
  using assms
proof (induction gs)
  case (Cons g gs)
  have none: "\<not> withPayload g \<Longrightarrow> fsmVerdict dc mdc g = []" using fsmVerdict_length [of dc mdc g] by simp
  have one: "withPayload g \<Longrightarrow> sv_hit g \<Longrightarrow> \<exists>d. fsmVerdict dc mdc g = [d]"
    using Cons.prems fsmVerdict_length [of dc mdc g] by (auto simp: judged_def length_Suc_conv)
  show ?case
    using Cons.IH Cons.prems none one
    by (cases "withPayload g"; cases "sv_hit g") (auto simp: delivered_def handlerVerdicts_def fsmVerdicts_def)
qed (simp add: handlerVerdicts_def fsmVerdicts_def)

lemma length_handlerVerdicts: "length (handlerVerdicts gs) = length (filter withPayload gs)"
  by (induction gs) (simp_all add: handlerVerdicts_def)

text \<open>The verdicts used up, and what stops the dropper.\<close>

lemma verdicts_split: "\<exists>d1 d2 e1 e2. ds = d1 @ d2 \<and> es = e1 @ e2 \<and> length d1 = length (verdicts ds es) \<and>
    length e1 = length (filter Not d1) \<and> verdicts d1 e1 = verdicts ds es \<and> (d2 = [] \<or> (\<exists>d3. d2 = False # d3) \<and> e2 = [])"
proof (induction ds es rule: verdicts.induct)
  case (1 ds es)
  then obtain d1 d2 e1 e2 where "ds = d1 @ d2" "es = e1 @ e2" "length d1 = length (verdicts ds es)" "length e1 = length (filter Not d1)"
    "verdicts d1 e1 = verdicts ds es" "d2 = [] \<or> (\<exists>d3. d2 = False # d3) \<and> e2 = []" by blast
  then show ?case by (intro exI [of _ "True # d1"] exI [of _ d2] exI [of _ e1] exI [of _ e2]) simp
next
  case (2 ds e es)
  then obtain d1 d2 e1 e2 where "ds = d1 @ d2" "es = e1 @ e2" "length d1 = length (verdicts ds es)" "length e1 = length (filter Not d1)"
    "verdicts d1 e1 = verdicts ds es" "d2 = [] \<or> (\<exists>d3. d2 = False # d3) \<and> e2 = []" by blast
  then show ?case by (intro exI [of _ "False # d1"] exI [of _ d2] exI [of _ "e # e1"] exI [of _ e2]) simp
qed auto

lemma zip_take_length: "zip (take (length ys) xs) ys = zip xs ys"
  by (induction xs ys rule: list_induct2') simp_all

lemma dropper_stops:
  assumes "dp_state k = READ_DROP1" and "dp_dataIn k = concat wss @ rest" and "list_all is_packet wss"
    and "length (dp_drop1 k) = length wss" and "vs = verdicts (dp_drop1 k) (dp_drop2 k)"
  shows "\<exists>n k'. (rxPackageDropper ^^ n) k = k' \<and> rxPackageDropper k' = k' \<and>
    dp_dataOut k' = dp_dataOut k @ kept_packets wss vs \<and> dp_dataIn k' = concat (drop (length vs) wss) @ rest"
proof -
  obtain d1 d2 e1 e2 where d: "dp_drop1 k = d1 @ d2" "dp_drop2 k = e1 @ e2" "length d1 = length vs"
    "length e1 = length (filter Not d1)" "verdicts d1 e1 = vs" "d2 = [] \<or> (\<exists>d3. d2 = False # d3) \<and> e2 = []"
    using verdicts_split [of "dp_drop1 k" "dp_drop2 k"] assms(5) by blast
  let ?us = "take (length vs) wss" and ?rest = "concat (drop (length vs) wss) @ rest"
  have le: "length vs \<le> length wss" using d(1,3) assms(4) by simp
  have "concat wss = concat ?us @ concat (drop (length vs) wss)" by (simp flip: concat_append)
  then have w: "dp_dataIn k = concat ?us @ ?rest" "list_all is_packet ?us" "length d1 = length ?us"
    using assms(2,3) d(3) le by (simp_all add: list_all_iff) (meson in_set_takeD)
  have "kept_packets ?us vs = kept_packets wss vs"
    by (simp add: kept_packets_def zip_take_length)
  with dropper_packets [OF assms(1) w(1,2) d(1,2) w(3) d(4)] d(5)
  obtain n where n: "(rxPackageDropper ^^ n) k = k\<lparr>dp_state := READ_DROP1, dp_dataIn := ?rest, dp_drop1 := d2, dp_drop2 := e2,
      dp_dataOut := dp_dataOut k @ kept_packets wss vs\<rparr>" (is "_ = ?k") by auto
  show ?thesis
  proof (cases "d2 = []")
    case True
    then have "rxPackageDropper ?k = ?k" by (simp add: rxPackageDropper_def)
    with n show ?thesis by (intro exI [of _ n] exI [of _ ?k]) simp
  next
    case False
    then obtain d3 where d3: "d2 = False # d3" "e2 = []" using d(6) by blast
    let ?k' = "?k\<lparr>dp_state := READ_DROP2, dp_drop1 := d3\<rparr>"
    have "rxPackageDropper ?k = ?k'" "rxPackageDropper ?k' = ?k'" using d3 by (simp_all add: rxPackageDropper_def)
    with n show ?thesis by (intro exI [of _ "Suc n"] exI [of _ ?k']) simp
  qed
qed

text \<open>C29: The payload that reaches the application.  The dropper runs until it has no verdict left for the next payload.
  As long as every segment with payload that finds its session is an acknowledgement, a \<open>FIN\<close> with acknowledgement or a
  reset, it takes for each payload the verdicts of its own segment: exactly the payloads that the state machine accepts are
  passed on, in order.  The first such segment of another kind (a \<open>SYN\<close>, or neither \<open>ACK\<close> nor \<open>RST\<close>) gets no verdict of
  its own: its payload is passed on or dropped as the state machine decides for the next one it judges, and is held back
  when there is none.\<close>

theorem payload_fate:
  assumes "dp_state k = READ_DROP1" and "dp_dataIn k = concat wss @ rest" and "list_all is_packet wss"
    and "length wss = length (filter withPayload gs)"
    and "dp_drop1 k = handlerVerdicts gs" and "dp_drop2 k = fsmVerdicts dc mdc gs"
  shows "\<exists>n k' vs. (rxPackageDropper ^^ n) k = k' \<and> rxPackageDropper k' = k' \<and>
    dp_dataOut k' = dp_dataOut k @ concat (map fst (filter snd (zip wss vs))) \<and> dp_dataIn k' = concat (drop (length vs) wss) @ rest \<and>
    ((\<forall>g\<in>set gs. withPayload g \<and> sv_hit g \<longrightarrow> judged g) \<longrightarrow> vs = map (delivered dc mdc) (filter withPayload gs)) \<and>
    (\<forall>as g bs. gs = as @ g # bs \<and> (\<forall>h\<in>set as. withPayload h \<and> sv_hit h \<longrightarrow> judged h) \<and>
        withPayload g \<and> sv_hit g \<and> \<not> judged g \<longrightarrow>
      (case fsmVerdicts dc mdc bs of
         [] \<Rightarrow> vs = map (delivered dc mdc) (filter withPayload as)
       | d # ds \<Rightarrow> \<exists>vs'. vs = map (delivered dc mdc) (filter withPayload as) @ (\<not> d) # vs'))"
proof -
  let ?vs = "verdicts (handlerVerdicts gs) (fsmVerdicts dc mdc gs)"
  have len: "length (dp_drop1 k) = length wss" using assms(4,5) by (simp add: length_handlerVerdicts)
  have own: "?vs = map (delivered dc mdc) (filter withPayload gs)" if "\<forall>g\<in>set gs. withPayload g \<and> sv_hit g \<longrightarrow> judged g"
    using served_verdicts [OF that, of "[]" dc mdc "[]"] by simp
  have shift: "case fsmVerdicts dc mdc bs of
         [] \<Rightarrow> ?vs = map (delivered dc mdc) (filter withPayload as)
       | d # ds \<Rightarrow> \<exists>vs'. ?vs = map (delivered dc mdc) (filter withPayload as) @ (\<not> d) # vs'"
    if h: "gs = as @ g # bs" "\<forall>h\<in>set as. withPayload h \<and> sv_hit h \<longrightarrow> judged h" "withPayload g" "sv_hit g" "\<not> judged g" for as g bs
  proof -
    have "fsmVerdict dc mdc g = []" using fsmVerdict_length [of dc mdc g] h(3,5) by (simp add: judged_def)
    then have "handlerVerdicts gs = handlerVerdicts as @ False # handlerVerdicts bs" "fsmVerdicts dc mdc gs = fsmVerdicts dc mdc as @ fsmVerdicts dc mdc bs"
      using h(1,3,4) by (simp_all add: handlerVerdicts_def fsmVerdicts_def)
    then have "?vs = map (delivered dc mdc) (filter withPayload as) @ verdicts (False # handlerVerdicts bs) (fsmVerdicts dc mdc bs)"
      using served_verdicts [OF h(2)] by simp
    then show ?thesis by (cases "fsmVerdicts dc mdc bs") auto
  qed
  obtain n k' where "(rxPackageDropper ^^ n) k = k'" "rxPackageDropper k' = k'" "dp_dataOut k' = dp_dataOut k @ kept_packets wss ?vs"
    "dp_dataIn k' = concat (drop (length ?vs) wss) @ rest"
    using dropper_stops [OF assms(1-3) len refl] assms(5,6) by auto
  with own shift show ?thesis unfolding kept_packets_def by blast
qed

text \<open>A payload on a \<open>SYN\<close> that finds its session gets no verdict from the state machine, but the dropper
  waits for one: it takes the verdict of the next segment for it, and the payload of that segment is held back.\<close>

theorem syn_payload_misaligned:
  assumes "dp_state k = READ_DROP1" and "dp_dataIn k = ws @ vs" and "is_packet ws" and "is_packet vs"
    and "withPayload g" and "withPayload h" and "segmentKind (fm_meta (sv_fsmMeta g)) = SegSyn"
    and "segmentKind (fm_meta (sv_fsmMeta h)) = SegAck"
    and "dp_drop1 k = [False, False]" and "dp_drop2 k = fsmVerdict dc mdc g @ fsmVerdict dc mdc h"
  shows "\<exists>n k'. (rxPackageDropper ^^ n) k = k' \<and> rxPackageDropper k' = k' \<and> dp_dataIn k' = vs \<and>
    dp_dataOut k' = dp_dataOut k @ (if fsmVerdict dc mdc h = [False] then ws else [])"
proof -
  have "rm_rst (fm_meta (sv_fsmMeta g)) = False" using assms(7) by (auto simp: segmentKind_def split: bool.splits)
  then have g: "fsmVerdict dc mdc g = []" using fsmVerdict_length [of dc mdc g] assms(5,7) by simp
  have "length (fsmVerdict dc mdc h) = 1" using fsmVerdict_length [of dc mdc h] assms(6,8) by simp
  then obtain d where d: "fsmVerdict dc mdc h = [d]" by (auto simp: length_Suc_conv)
  have "\<exists>n. (rxPackageDropper ^^ n) k = k\<lparr>dp_state := READ_DROP1, dp_dataIn := vs, dp_drop1 := [False], dp_drop2 := [],
      dp_dataOut := dp_dataOut k @ kept_packets [ws] (verdicts [False] [d])\<rparr>"
    by (rule dropper_packets) (use assms(1-4,9,10) g d in simp_all)
  then obtain n where n: "(rxPackageDropper ^^ n) k = k\<lparr>dp_state := READ_DROP1, dp_dataIn := vs, dp_drop1 := [False], dp_drop2 := [],
      dp_dataOut := dp_dataOut k @ (if d then [] else ws)\<rparr>"
    by (cases d) (auto simp: kept_packets_def)
  let ?k = "k\<lparr>dp_state := READ_DROP2, dp_dataIn := vs, dp_drop1 := [], dp_drop2 := [], dp_dataOut := dp_dataOut k @ (if d then [] else ws)\<rparr>"
  have "(rxPackageDropper ^^ Suc n) k = ?k" using n by (simp add: rxPackageDropper_def)
  moreover have "rxPackageDropper ?k = ?k" by (simp add: rxPackageDropper_def)
  ultimately show ?thesis using d by (intro exI [of _ "Suc n"] exI [of _ ?k]) simp
qed


section \<open>Witnesses\<close>

definition sampleMeta :: rxEngineMetaData where
  "sampleMeta = \<lparr>rm_seqNumb = 7, rm_ackNumb = 9, rm_winSize = 4096, rm_winScale = 0, rm_length = 4, rm_ack = False, rm_rst = False,
     rm_syn = True, rm_fin = False, rm_dataOffset = 5\<rparr>"



definition sampleServed :: "rxEngineMetaData \<Rightarrow> servedSegment" where
  "sampleServed m = \<lparr>sv_fsmMeta = \<lparr>fm_sessionID = 1, fm_srcIpAddress = 0, fm_dstIpPort = 80, fm_meta = m\<rparr>, sv_hit = True,
     sv_state = ESTABLISHED, sv_rxSar = \<lparr>rx_recvd = 7, rx_appd = 0\<rparr>,
     sv_txSar = \<lparr>xr_prevAck = 9, xr_nextByte = 9, xr_cong_window = 0, xr_slowstart_threshold = 0, xr_count = 0,
       xr_fastRetransmitted = False\<rparr>\<rparr>"

definition samplePush :: rxEngineMetaData where
  "samplePush = sampleMeta\<lparr>rm_ack := True, rm_syn := False\<rparr>"

definition sampleDropper :: dropper where
  "sampleDropper = \<lparr>dp_state = READ_DROP1, dp_dataIn = [\<lparr>ax_data = 1, ax_keep = 0xF, ax_last = True\<rparr>],
     dp_drop1 = [False], dp_drop2 = [False], dp_dataOut = []\<rparr>"

lemma samplePush_verdict: "fsmVerdict 0 1000 (sampleServed samplePush) = [False]"
  by (simp add: fsmVerdict_def sampleServed_def samplePush_def sampleMeta_def fsmServe_def segmentKind_def fsmAck_def ackUpdate_def
      ackAccepts_def roomForData_def noOut_def Let_def split: prod.splits)

theorem payload_fate_witness:
  "\<exists>n. dp_dataOut ((rxPackageDropper ^^ n) sampleDropper) = [\<lparr>ax_data = 1, ax_keep = 0xF, ax_last = True\<rparr>]"
proof -
  let ?g = "sampleServed samplePush" and ?w = "\<lparr>ax_data = 1, ax_keep = 0xF, ax_last = True\<rparr>"
  have p: "withPayload ?g" "sv_hit ?g" "judged ?g"
    by (simp_all add: withPayload_def sampleServed_def samplePush_def sampleMeta_def segmentKind_def judged_def)
  have dl: "delivered 0 1000 ?g" using p samplePush_verdict by (simp add: delivered_def)
  have h: "dp_state sampleDropper = READ_DROP1" "dp_dataIn sampleDropper = concat [[?w]] @ []" "list_all is_packet [[?w]]"
    "length [[?w]] = length (filter withPayload [?g])" "dp_drop1 sampleDropper = handlerVerdicts [?g]"
    "dp_drop2 sampleDropper = fsmVerdicts 0 1000 [?g]" "dp_dataOut sampleDropper = []"
    using p samplePush_verdict by (simp_all add: sampleDropper_def handlerVerdicts_def fsmVerdicts_def)
  from payload_fate [OF h(1-6)] obtain n k' vs where n: "(rxPackageDropper ^^ n) sampleDropper = k'"
    "dp_dataOut k' = dp_dataOut sampleDropper @ concat (map fst (filter snd (zip [[?w]] vs)))"
    "(\<forall>g\<in>set [?g]. withPayload g \<and> sv_hit g \<longrightarrow> judged g) \<longrightarrow> vs = map (delivered 0 1000) (filter withPayload [?g])" by blast
  have "vs = [True]" using n(3) p dl by simp
  with n(1,2) h(7) show ?thesis by auto
qed

theorem syn_payload_misaligned_witness:
  "\<exists>n. dp_dataIn ((rxPackageDropper ^^ n) (sampleDropper\<lparr>dp_dataIn := [\<lparr>ax_data = 1, ax_keep = 0xF, ax_last = True\<rparr>,
     \<lparr>ax_data = 2, ax_keep = 0xF, ax_last = True\<rparr>], dp_drop1 := [False, False]\<rparr>)) =
   [\<lparr>ax_data = 2, ax_keep = 0xF, ax_last = True\<rparr>]"
proof -
  let ?k = "sampleDropper\<lparr>dp_dataIn := [\<lparr>ax_data = 1, ax_keep = 0xF, ax_last = True\<rparr>, \<lparr>ax_data = 2, ax_keep = 0xF, ax_last = True\<rparr>],
    dp_drop1 := [False, False]\<rparr>"
  have s: "fsmVerdict 0 1000 (sampleServed sampleMeta) = []"
    by (simp add: fsmVerdict_def sampleServed_def sampleMeta_def fsmServe_def segmentKind_def fsmSyn_def noOut_def Let_def)
  have "\<exists>n k'. (rxPackageDropper ^^ n) ?k = k' \<and> rxPackageDropper k' = k' \<and> dp_dataIn k' = [\<lparr>ax_data = 2, ax_keep = 0xF, ax_last = True\<rparr>] \<and>
      dp_dataOut k' = dp_dataOut ?k @ (if fsmVerdict 0 1000 (sampleServed samplePush) = [False]
        then [\<lparr>ax_data = 1, ax_keep = 0xF, ax_last = True\<rparr>] else [])"
    by (rule syn_payload_misaligned [where g = "sampleServed sampleMeta"])
      (use s samplePush_verdict in \<open>simp_all add: sampleDropper_def withPayload_def sampleServed_def sampleMeta_def samplePush_def segmentKind_def\<close>)
  then show ?thesis by blast
qed

end
