(* ===== verification/Toe_App_If.thy ===== *)
theory Toe_App_If
  imports Toe_Sar Net_Header
begin

text \<open>
  The control side of the application interface of the TCP engine: listening on a port
  (\<^verbatim>\<open>rx_app_if.cpp\<close>), reading received data (\<^verbatim>\<open>rx_app_stream_if.cpp\<close>), opening and closing
  connections (\<^verbatim>\<open>tx_app_if.cpp\<close>).  The theorems: requests are answered one at a time and in order, a
  connection is opened with the addresses and ports of the request, and a lock taken to close one is given back.
\<close>

section \<open>Listening\<close>

text \<open>A word of \<open>w\<close> bits on a stream to or from the application.\<close>

record 'w appWord =
  aw_data :: 'w
  aw_keep :: nat
  aw_last :: bool

record rxAppIf =
  li_wait :: bool
  li_appReq :: "16 word hls_stream"
  li_tableRsp :: "bool hls_stream"
  li_appRsp :: "8 word appWord hls_stream"
  li_tableReq :: "16 word hls_stream"

definition rx_app_if :: "rxAppIf \<Rightarrow> rxAppIf" where
  "rx_app_if k =
     (if \<not> s_empty (li_appReq k) \<and> \<not> li_wait k then
        k\<lparr>li_appReq := s_rest (li_appReq k), li_tableReq := s_write (li_tableReq k) (s_head (li_appReq k)), li_wait := True\<rparr>
      else if \<not> s_empty (li_tableRsp k) \<and> li_wait k then
        k\<lparr>li_tableRsp := s_rest (li_tableRsp k),
          li_appRsp := s_write (li_appRsp k) \<lparr>aw_data = of_bool (s_head (li_tableRsp k)), aw_keep = 1, aw_last = True\<rparr>,
          li_wait := False\<rparr>
      else k)"

section \<open>Reading\<close>

record rxAppStreamIf =
  ri_fsmState :: "1 word"
  ri_readLength :: "16 word"
  ri_appReq :: "32 word hls_stream"
  ri_sarRsp :: "rxSarAppd hls_stream"
  ri_appRsp :: "16 word appWord hls_stream"
  ri_sarReq :: "rxSarAppd hls_stream"
  ri_bufferCmd :: "1 word hls_stream"

definition rx_app_stream_if :: "rxAppStreamIf \<Rightarrow> rxAppStreamIf" where
  "rx_app_stream_if k =
     (if ri_fsmState k = 0 then
        (if \<not> s_empty (ri_appReq k) then
           (let req = s_head (ri_appReq k); k = k\<lparr>ri_appReq := s_rest (ri_appReq k)\<rparr> in
            if (rng 31 16 req :: 16 word) \<noteq> 0
            then k\<lparr>ri_sarReq := s_write (ri_sarReq k) \<lparr>ra_sessionID = rng 15 0 req, ra_appd = 0, ra_write = False\<rparr>,
                   ri_readLength := rng 31 16 req, ri_fsmState := 1\<rparr>
            else k)
         else k)
      else
        (if \<not> s_empty (ri_sarRsp k) then
           (let rxSar = s_head (ri_sarRsp k) in
            k\<lparr>ri_sarRsp := s_rest (ri_sarRsp k),
              ri_appRsp := s_write (ri_appRsp k) \<lparr>aw_data = ra_sessionID rxSar, aw_keep = 0x11, aw_last = True\<rparr>,
              ri_bufferCmd := s_write (ri_bufferCmd k) 1,
              ri_sarReq := s_write (ri_sarReq k) \<lparr>ra_sessionID = ra_sessionID rxSar,
                ra_appd = ra_appd rxSar + ri_readLength k, ra_write = True\<rparr>,
              ri_fsmState := 0\<rparr>)
         else k))"

section \<open>Opening and closing\<close>

definition isValidDstIp :: "32 word \<Rightarrow> bool" where
  "isValidDstIp addr \<longleftrightarrow> (rng 7 4 addr :: 4 word) \<noteq> 0xE \<and> addr \<noteq> 0xFFFFFFFF"

definition openStatus2axiu :: "openStatus \<Rightarrow> 32 word appWord" where
  "openStatus2axiu s = \<lparr>aw_data = upd 31 24 (0 :: 8 word) (upd 23 16 (of_bool (op_success s) :: 8 word)
     (upd 15 0 (op_sessionID s) 0)), aw_keep = 0xF, aw_last = True\<rparr>"

record toeIpTuple =
  it_address :: "32 word"
  it_port :: "16 word"

definition axiu2ipTuple :: "64 word \<Rightarrow> toeIpTuple" where
  "axiu2ipTuple w = \<lparr>it_address = rng 31 0 w, it_port = rng 47 32 w\<rparr>"

record txAppIf =
  ti_closing :: bool
  ti_closeSessionID :: "16 word"
  ti_invalidOpen :: bool
  ti_openReq :: "64 word hls_stream"
  ti_closeReq :: "16 word hls_stream"
  ti_lookupRsp :: "sessionLookupReply hls_stream"
  ti_portRsp :: "16 word hls_stream"
  ti_stateRsp :: "sessionState hls_stream"
  ti_established :: "openStatus hls_stream"
  ti_rtNotification :: "openStatus hls_stream"
  ti_openRsp :: "32 word appWord hls_stream"
  ti_lookupReq :: "fourTuple hls_stream"
  ti_stateReq :: "stateQuery hls_stream"
  ti_event :: "toeEvent hls_stream"

definition txAppOpen :: "32 word \<Rightarrow> txAppIf \<Rightarrow> txAppIf" where
  "txAppOpen myIpAddress k =
     (if \<not> s_empty (ti_openReq k) \<and> \<not> s_empty (ti_portRsp k) then
        (let server = axiu2ipTuple (s_head (ti_openReq k)); freePort = s_head (ti_portRsp k);
             k = k\<lparr>ti_openReq := s_rest (ti_openReq k), ti_portRsp := s_rest (ti_portRsp k)\<rparr> in
         if isValidDstIp (reverse32 (it_address server))
         then k\<lparr>ti_lookupReq := s_write (ti_lookupReq k) \<lparr>ft_srcIp = myIpAddress, ft_dstIp = reverse32 (it_address server),
                ft_srcPort = reverse16 freePort, ft_dstPort = reverse16 (it_port server)\<rparr>\<rparr>
         else k\<lparr>ti_invalidOpen := True\<rparr>)
      else k)"

definition txAppIdle :: "txAppIf \<Rightarrow> txAppIf" where
  "txAppIdle k =
     (if \<not> s_empty (ti_lookupRsp k) then
        (let session = s_head (ti_lookupRsp k); k = k\<lparr>ti_lookupRsp := s_rest (ti_lookupRsp k)\<rparr> in
         if lr_hit session
         then k\<lparr>ti_event := s_write (ti_event k) (plainEvent SYN (lr_sessionID session) 0),
                ti_stateReq := s_write (ti_stateReq k) \<lparr>sq_sessionID = lr_sessionID session, sq_state = SYN_SENT, sq_write = True\<rparr>\<rparr>
         else k\<lparr>ti_openRsp := s_write (ti_openRsp k) (openStatus2axiu \<lparr>op_sessionID = 0, op_success = False\<rparr>)\<rparr>)
      else if \<not> s_empty (ti_established k) then
        k\<lparr>ti_established := s_rest (ti_established k), ti_openRsp := s_write (ti_openRsp k) (openStatus2axiu (s_head (ti_established k)))\<rparr>
      else if \<not> s_empty (ti_rtNotification k) then
        k\<lparr>ti_rtNotification := s_rest (ti_rtNotification k),
          ti_openRsp := s_write (ti_openRsp k) (openStatus2axiu (s_head (ti_rtNotification k)))\<rparr>
      else if \<not> s_empty (ti_closeReq k) then
        (let i = s_head (ti_closeReq k); k = k\<lparr>ti_closeReq := s_rest (ti_closeReq k), ti_closeSessionID := i\<rparr> in
         if unat i < MAX_SESSIONS
         then k\<lparr>ti_stateReq := s_write (ti_stateReq k) \<lparr>sq_sessionID = i, sq_state = CLOSED, sq_write = False\<rparr>, ti_closing := True\<rparr>
         else k)
      else if ti_invalidOpen k then
        k\<lparr>ti_openRsp := s_write (ti_openRsp k) (openStatus2axiu \<lparr>op_sessionID = 0, op_success = False\<rparr>), ti_invalidOpen := False\<rparr>
      else k)"

definition txAppClose :: "txAppIf \<Rightarrow> txAppIf" where
  "txAppClose k =
     (if \<not> s_empty (ti_stateRsp k) then
        (let state = s_head (ti_stateRsp k); i = ti_closeSessionID k;
             k = k\<lparr>ti_stateRsp := s_rest (ti_stateRsp k), ti_closing := False\<rparr> in
         if state = ESTABLISHED \<or> state = FIN_WAIT_2 \<or> state = FIN_WAIT_1
         then k\<lparr>ti_stateReq := s_write (ti_stateReq k) \<lparr>sq_sessionID = i, sq_state = FIN_WAIT_1, sq_write = True\<rparr>,
                ti_event := s_write (ti_event k) (plainEvent FIN i 0)\<rparr>
         else k\<lparr>ti_stateReq := s_write (ti_stateReq k) \<lparr>sq_sessionID = i, sq_state = state, sq_write = True\<rparr>\<rparr>)
      else k)"

definition tx_app_if :: "32 word \<Rightarrow> txAppIf \<Rightarrow> txAppIf" where
  "tx_app_if myIpAddress k =
     (let k = txAppOpen myIpAddress k in if ti_closing k then txAppClose k else txAppIdle k)"


section \<open>One request at a time\<close>

text \<open>A module that sends a request only after the answer to the one before.\<close>

definition listenInputs :: "rxAppIf \<Rightarrow> rxAppIf \<Rightarrow> bool" where
  "listenInputs s t \<longleftrightarrow> (\<exists>a b. t = s\<lparr>li_appReq := a, li_tableRsp := b\<rparr>)"

text \<open>Ports are asked for one at a time: the requests to the port table are the answers to the application and the one
  waiting.\<close>

theorem listen_one_at_a_time:
  assumes "reaches (\<lambda>k. Some (rx_app_if k)) listenInputs k0 k" and "\<not> li_wait k0" and "li_tableReq k0 = []" and "li_appRsp k0 = []"
  shows "length (li_tableReq k) = length (li_appRsp k) + of_bool (li_wait k)"
proof -
  let ?inv = "\<lambda>k. length (li_tableReq k) = length (li_appRsp k) + of_bool (li_wait k)"
  have step: "?inv t" if "?inv s" "Some (rx_app_if s) = Some t" for s t
    using that by (auto simp: rx_app_if_def s_write_def split: if_splits)
  have env: "?inv t" if "?inv s" "listenInputs s t" for s t using that by (auto simp: listenInputs_def)
  have init: "?inv k0" using assms(2-4) by simp
  show ?thesis by (rule reaches_inv [where inv = ?inv, OF assms(1) init step env])
qed

section \<open>Reading from a session\<close>

text \<open>The read interface and the receive window table, as \<^verbatim>\<open>toe\<close> connects them.\<close>

definition readPath :: "rxAppStreamIf \<times> rxSarTable \<Rightarrow> (rxAppStreamIf \<times> rxSarTable) option" where
  "readPath = (\<lambda>(k, t).
     (let k = rx_app_stream_if k in
      map_option (\<lambda>t. (k\<lparr>ri_sarReq := [], ri_sarRsp := ri_sarRsp k @ rx_appRsp t\<rparr>, t\<lparr>rx_appRsp := []\<rparr>))
        (rx_sar_table (t\<lparr>rx_appReq := rx_appReq t @ ri_sarReq k\<rparr>))))"

text \<open>A read request for \<open>n\<close> bytes of a session in the table is granted in two calls and moves the read pointer of
  that session, and of no other, by \<open>n\<close>; nothing checks the session of the request, and one beyond the table is an
  access out of bounds.\<close>

theorem read_advances_pointer:
  assumes "ri_fsmState k = 0" and "ri_appReq k = req # reqs" and "ri_sarReq k = []" and "ri_sarRsp k = []"
    and "rx_txEngReq t = []" and "rx_appReq t = []" and "rx_appRsp t = []"
    and "i = rng 15 0 req" and "n = rng 31 16 req" and "n \<noteq> 0"
  shows "iter_opt readPath 2 (k, t) =
    (if inTable i
     then Some (k\<lparr>ri_appReq := reqs, ri_readLength := n, ri_bufferCmd := ri_bufferCmd k @ [1],
         ri_appRsp := ri_appRsp k @ [\<lparr>aw_data = i, aw_keep = 0x11, aw_last = True\<rparr>]\<rparr>,
       t\<lparr>rx_table := (rx_table t)(i := (rx_table t i)\<lparr>rx_appd := rx_appd (rx_table t i) + n\<rparr>)\<rparr>)
     else None)"
  using assms by (cases k; cases t)
    (auto simp: numeral_2_eq_2 readPath_def rx_app_stream_if_def rx_sar_table_def s_write_def Let_def)

section \<open>Opening and closing\<close>

text \<open>The requests to the state table: a read, which locks the session, is followed by a write of the same session;
  writes by themselves only announce a connection attempt.\<close>

fun locksGivenBack :: "stateQuery list \<Rightarrow> bool" where
  "locksGivenBack [] = True"
| "locksGivenBack [q] = (sq_write q \<and> sq_state q = SYN_SENT)"
| "locksGivenBack (q # r # qs) =
     (if sq_write q then sq_state q = SYN_SENT \<and> locksGivenBack (r # qs)
      else sq_write r \<and> sq_sessionID r = sq_sessionID q \<and> locksGivenBack qs)"

lemma locksGivenBack_syn: "locksGivenBack qs \<Longrightarrow> sq_write q \<Longrightarrow> sq_state q = SYN_SENT \<Longrightarrow> locksGivenBack (qs @ [q])"
proof (induction qs rule: locksGivenBack.induct)
  case (2 p)
  then show ?case by simp
next
  case (3 p r qs)
  then show ?case by (cases "sq_write p") auto
qed simp

lemma locksGivenBack_pair: "locksGivenBack qs \<Longrightarrow> \<not> sq_write q \<Longrightarrow> sq_write r \<Longrightarrow> sq_sessionID r = sq_sessionID q \<Longrightarrow>
    locksGivenBack (qs @ [q, r])"
proof (induction qs rule: locksGivenBack.induct)
  case (2 p)
  then show ?case by simp
next
  case (3 p r' qs)
  then show ?case by (cases "sq_write p") auto
qed simp

definition appIfInputs :: "txAppIf \<Rightarrow> txAppIf \<Rightarrow> bool" where
  "appIfInputs s t \<longleftrightarrow> (\<exists>a b c d e f g. t = s\<lparr>ti_openReq := a, ti_closeReq := b, ti_lookupRsp := c, ti_portRsp := d,
     ti_stateRsp := e, ti_established := f, ti_rtNotification := g\<rparr>)"

definition closingLock :: "txAppIf \<Rightarrow> bool" where
  "closingLock k \<longleftrightarrow>
     (if ti_closing k
      then unat (ti_closeSessionID k) < MAX_SESSIONS \<and> (\<exists>qs. locksGivenBack qs \<and>
        ti_stateReq k = qs @ [\<lparr>sq_sessionID = ti_closeSessionID k, sq_state = CLOSED, sq_write = False\<rparr>])
      else locksGivenBack (ti_stateReq k))"

lemma txAppOpen_same: "ti_closing (txAppOpen ip k) = ti_closing k" "ti_stateReq (txAppOpen ip k) = ti_stateReq k"
    "ti_closeSessionID (txAppOpen ip k) = ti_closeSessionID k"
  by (simp_all add: txAppOpen_def Let_def)

lemma closingLock_step: "closingLock k \<Longrightarrow> closingLock (tx_app_if ip k)"
proof (cases "ti_closing k")
  case True
  assume "closingLock k"
  with True obtain qs where qs: "locksGivenBack qs" "unat (ti_closeSessionID k) < MAX_SESSIONS"
    "ti_stateReq k = qs @ [\<lparr>sq_sessionID = ti_closeSessionID k, sq_state = CLOSED, sq_write = False\<rparr>]"
    by (auto simp: closingLock_def)
  have "locksGivenBack (qs @ [\<lparr>sq_sessionID = ti_closeSessionID k, sq_state = CLOSED, sq_write = False\<rparr>,
      \<lparr>sq_sessionID = ti_closeSessionID k, sq_state = s, sq_write = True\<rparr>])" for s
    using locksGivenBack_pair [OF qs(1)] by simp
  with True qs show ?thesis
    by (auto simp: tx_app_if_def txAppClose_def closingLock_def txAppOpen_same s_write_def Let_def)
next
  case False
  assume "closingLock k"
  with False have "locksGivenBack (ti_stateReq k)" by (simp add: closingLock_def)
  with False show ?thesis
    by (auto simp: tx_app_if_def txAppIdle_def closingLock_def txAppOpen_same s_write_def Let_def intro: locksGivenBack_syn)
qed

text \<open>Closing gives back the lock it takes: whatever the application asks for, the interface reads the state only of a
  session in the table, the next request to the state table is the write of that session, and every other
  request is the announcement of a connection attempt.\<close>

theorem close_gives_lock_back:
  assumes "reaches (\<lambda>k. Some (tx_app_if ip k)) appIfInputs k0 k" and "\<not> ti_closing k0" and "ti_stateReq k0 = []"
  shows "if ti_closing k
    then unat (ti_closeSessionID k) < MAX_SESSIONS \<and> (\<exists>qs. locksGivenBack qs \<and>
      ti_stateReq k = qs @ [\<lparr>sq_sessionID = ti_closeSessionID k, sq_state = CLOSED, sq_write = False\<rparr>])
    else locksGivenBack (ti_stateReq k)"
proof -
  have init: "closingLock k0" using assms(2,3) by (simp add: closingLock_def)
  have env: "closingLock t" if "closingLock s" "appIfInputs s t" for s t
    using that by (auto simp: appIfInputs_def closingLock_def)
  have step: "closingLock t" if "closingLock s" "Some (tx_app_if ip s) = Some t" for s t
    using that closingLock_step by auto
  from reaches_inv [where inv = closingLock, OF assms(1) init step env] show ?thesis by (simp add: closingLock_def)
qed

text \<open>An open request to a multicast or broadcast address is answered only by a flag, so that two of them that arrive while a
  close waits for its state get one answer; the ports taken for them are gone.\<close>

theorem invalid_open_lost:
  assumes "ti_closing k" and "ti_stateRsp k = []" and "ti_openReq k = [a, b]" and "ti_portRsp k = [p, q]"
    and "\<not> isValidDstIp (reverse32 (it_address (axiu2ipTuple a)))" and "\<not> isValidDstIp (reverse32 (it_address (axiu2ipTuple b)))"
    and "ti_lookupRsp k = []" and "ti_established k = []" and "ti_rtNotification k = []" and "ti_closeReq k = []"
  shows "\<exists>k2. tx_app_if ip (tx_app_if ip k) = k2 \<and> ti_openReq k2 = [] \<and> ti_portRsp k2 = [] \<and>
    (\<exists>k4. (tx_app_if ip ^^ 2) (k2\<lparr>ti_stateRsp := [s]\<rparr>) = k4 \<and> tx_app_if ip k4 = k4 \<and> ti_lookupReq k4 = ti_lookupReq k \<and>
      ti_openRsp k4 = ti_openRsp k @ [openStatus2axiu \<lparr>op_sessionID = 0, op_success = False\<rparr>])"
proof -
  define k2 where "k2 = k\<lparr>ti_openReq := [], ti_portRsp := [], ti_invalidOpen := True\<rparr>"
  have 1: "tx_app_if ip k = k\<lparr>ti_openReq := [b], ti_portRsp := [q], ti_invalidOpen := True\<rparr>"
    using assms(1-5) by (simp add: tx_app_if_def txAppOpen_def txAppClose_def Let_def)
  have 2: "tx_app_if ip (tx_app_if ip k) = k2"
    using assms(1,2,6) unfolding 1 by (simp add: tx_app_if_def txAppOpen_def txAppClose_def k2_def Let_def)
  define k3 where "k3 = tx_app_if ip (k2\<lparr>ti_stateRsp := [s]\<rparr>)"
  have 3: "ti_closing k3 = False" "ti_openReq k3 = []" "ti_stateRsp k3 = []" "ti_lookupRsp k3 = []" "ti_established k3 = []"
    "ti_rtNotification k3 = []" "ti_closeReq k3 = []" "ti_invalidOpen k3" "ti_lookupReq k3 = ti_lookupReq k" "ti_openRsp k3 = ti_openRsp k"
    using assms(1,7-10) by (simp_all add: k3_def k2_def tx_app_if_def txAppOpen_def txAppClose_def Let_def)
  define k4 where "k4 = k3\<lparr>ti_openRsp := ti_openRsp k @ [openStatus2axiu \<lparr>op_sessionID = 0, op_success = False\<rparr>], ti_invalidOpen := False\<rparr>"
  have 4: "tx_app_if ip k3 = k4" using 3 by (simp add: tx_app_if_def txAppOpen_def txAppIdle_def k4_def s_write_def)
  have "tx_app_if ip k4 = k4" using 3 by (simp add: tx_app_if_def txAppOpen_def txAppIdle_def k4_def)
  moreover have "(tx_app_if ip ^^ 2) (k2\<lparr>ti_stateRsp := [s]\<rparr>) = k4" using 4 by (simp add: numeral_2_eq_2 flip: k3_def)
  moreover have "ti_lookupReq k4 = ti_lookupReq k" "ti_openRsp k4 = ti_openRsp k @ [openStatus2axiu \<lparr>op_sessionID = 0, op_success = False\<rparr>]"
    using 3 by (simp_all add: k4_def)
  ultimately show ?thesis using 2 by (simp add: k2_def)
qed

section \<open>Witnesses\<close>

definition sampleRead :: rxAppStreamIf where
  "sampleRead = \<lparr>ri_fsmState = 0, ri_readLength = 0, ri_appReq = [0x00100003], ri_sarRsp = [], ri_appRsp = [], ri_sarReq = [],
     ri_bufferCmd = []\<rparr>"

definition sampleRxTable :: rxSarTable where
  "sampleRxTable = \<lparr>rx_table = (\<lambda>i. \<lparr>rx_recvd = 100, rx_appd = 5\<rparr>), rx_engReq = [], rx_appReq = [], rx_txEngReq = [],
     rx_engRsp = [], rx_appRsp = [], rx_txEngRsp = []\<rparr>"

theorem read_advances_pointer_witness:
  "\<exists>k t. iter_opt readPath 2 (sampleRead, sampleRxTable) = Some (k, t) \<and> rx_appd (rx_table t 3) = 21"
proof -
  have r: "(rng 15 0 (0x00100003 :: 32 word) :: 16 word) = 3" "(rng 31 16 (0x00100003 :: 32 word) :: 16 word) = 16"
    "(16 :: 16 word) \<noteq> 0" "inTable 3" by code_simp+
  from read_advances_pointer [of sampleRead "0x00100003" "[]" sampleRxTable, OF _ _ _ _ _ _ _ r(1) [symmetric] r(2) [symmetric] r(3)] r(4)
  show ?thesis by (simp add: sampleRead_def sampleRxTable_def)
qed

definition sampleAppIf :: txAppIf where
  "sampleAppIf = \<lparr>ti_closing = False, ti_closeSessionID = 0, ti_invalidOpen = False, ti_openReq = [], ti_closeReq = [4],
     ti_lookupRsp = [], ti_portRsp = [], ti_stateRsp = [], ti_established = [], ti_rtNotification = [], ti_openRsp = [],
     ti_lookupReq = [], ti_stateReq = [], ti_event = []\<rparr>"

theorem close_gives_lock_back_witness:
  "unat (ti_closeSessionID (tx_app_if 1 sampleAppIf)) < MAX_SESSIONS"
proof -
  have r: "reaches (\<lambda>k. Some (tx_app_if 1 k)) appIfInputs sampleAppIf (tx_app_if 1 sampleAppIf)"
    by (rule reaches_step [OF reaches_refl]) simp
  have c: "ti_closing (tx_app_if 1 sampleAppIf)"
    by (simp add: tx_app_if_def txAppIdle_def txAppOpen_def sampleAppIf_def MAX_SESSIONS_def Let_def)
  from close_gives_lock_back [OF r] c show ?thesis by (simp add: sampleAppIf_def)
qed

theorem invalid_open_lost_witness:
  "\<exists>k4. length (ti_openRsp k4) = 1 \<and> tx_app_if 1 k4 = k4"
proof -
  let ?k = "sampleAppIf\<lparr>ti_closing := True, ti_closeReq := [], ti_openReq := [0x0050FFFFFFFF, 0x0050FFFFFFFF], ti_portRsp := [1, 2]\<rparr>"
  have b: "\<not> isValidDstIp (reverse32 (it_address (axiu2ipTuple 0x0050FFFFFFFF)))" by code_simp
  have "\<exists>k2. tx_app_if 1 (tx_app_if 1 ?k) = k2 \<and> ti_openReq k2 = [] \<and> ti_portRsp k2 = [] \<and>
    (\<exists>k4. (tx_app_if 1 ^^ 2) (k2\<lparr>ti_stateRsp := [CLOSED]\<rparr>) = k4 \<and> tx_app_if 1 k4 = k4 \<and> ti_lookupReq k4 = ti_lookupReq ?k \<and>
      ti_openRsp k4 = ti_openRsp ?k @ [openStatus2axiu \<lparr>op_sessionID = 0, op_success = False\<rparr>])"
    by (rule invalid_open_lost [OF _ _ _ _ b b]) (simp_all add: sampleAppIf_def)
  then obtain k4 where "tx_app_if 1 k4 = k4" "ti_openRsp k4 = ti_openRsp ?k @ [openStatus2axiu \<lparr>op_sessionID = 0, op_success = False\<rparr>]"
    by blast
  then show ?thesis by (intro exI [of _ k4]) (simp add: sampleAppIf_def)
qed

end
