(* ===== verification/Toe_Tx_App.thy ===== *)
theory Toe_Tx_App
  imports Toe_App_If Stream_Bytes
begin

text \<open>
  The data side of the application interface of the TCP engine (\<^verbatim>\<open>tx_app_stream_if.cpp\<close>,
  \<^verbatim>\<open>tx_app_interface.cpp\<close>), without Nagle's algorithm: a write is granted when it fits, its bytes go
  to a ring buffer in memory and, unbuffered, to the transmit engine, and the pointer of the application moves when the
  memory has confirmed the write.  The theorems: when a write is granted, where its bytes go, and which
  confirmations are waited for.
\<close>

section \<open>Messages\<close>

record mmCmd =
  mc_bbt :: "23 word"
  mc_type :: "1 word"
  mc_dsa :: "6 word"
  mc_eof :: "1 word"
  mc_drr :: "1 word"
  mc_saddr :: "32 word"
  mc_tag :: "4 word"
  mc_rsvd :: "4 word"

definition newMmCmd :: "32 word \<Rightarrow> 16 word \<Rightarrow> mmCmd" where
  "newMmCmd addr len = \<lparr>mc_bbt = ucast len, mc_type = 1, mc_dsa = 0, mc_eof = 1, mc_drr = 1, mc_saddr = addr, mc_tag = 0, mc_rsvd = 0\<rparr>"

definition mmCmd2axiu :: "mmCmd \<Rightarrow> 128 word" where
  "mmCmd2axiu c = upd 127 72 (0 :: 56 word) (upd 71 68 (mc_rsvd c) (upd 67 64 (mc_tag c) (upd 63 32 (mc_saddr c)
     (upd 31 31 (mc_drr c) (upd 30 30 (mc_eof c) (upd 29 24 (mc_dsa c) (upd 23 23 (mc_type c) (upd 22 0 (mc_bbt c) 0))))))))"

record appTxMeta =
  am_sessionID :: "16 word"
  am_length :: "16 word"
  am_subSum :: "16 word"
  am_validSum :: bool

definition axiu2appTxMeta :: "64 word \<Rightarrow> appTxMeta" where
  "axiu2appTxMeta w = \<lparr>am_sessionID = rng 15 0 w, am_length = rng 31 16 w, am_subSum = rng 47 32 w, am_validSum = bit w 48\<rparr>"

record appTxRsp =
  ar_sessionID :: "16 word"
  ar_length :: "16 word"
  ar_remaining_space :: "30 word"
  ar_error :: "2 word"

definition NO_ERROR :: "2 word" where "NO_ERROR = 0"
definition ERROR_NOCONNECTION :: "2 word" where "ERROR_NOCONNECTION = 1"
definition ERROR_NOSPACE :: "2 word" where "ERROR_NOSPACE = 2"

definition appTxRsp2axiu :: "appTxRsp \<Rightarrow> 64 word" where
  "appTxRsp2axiu r = upd 63 62 (ar_error r) (upd 61 32 (ar_remaining_space r) (upd 31 16 (ar_length r) (upd 15 0 (ar_sessionID r) 0)))"

record txAppTxSarQuery =
  aq_sessionID :: "16 word"
  aq_mempt :: "16 word"
  aq_write :: bool

record txAppTxSarReply =
  as_sessionID :: "16 word"
  as_ackd :: "16 word"
  as_mempt :: "16 word"
  as_min_window :: "16 word"

section \<open>Granting a write\<close>

record txMetaLoader =
  ml_readMeta :: bool
  ml_writeMeta :: appTxMeta
  ml_metaIn :: "64 word hls_stream"
  ml_stateRsp :: "sessionState hls_stream"
  ml_sarRsp :: "txAppTxSarReply hls_stream"
  ml_rsp :: "64 word hls_stream"
  ml_stateReq :: "16 word hls_stream"
  ml_sarReq :: "txAppTxSarQuery hls_stream"
  ml_pushCmd :: "mmCmd hls_stream"
  ml_event :: "toeEvent hls_stream"

definition maxWriteLength :: "txAppTxSarReply \<Rightarrow> 16 word" where
  "maxWriteLength s =
     (let maxWriteLength = (as_ackd s - as_mempt s) - 1
      in if maxWriteLength > of_nat MSS then of_nat MSS else maxWriteLength)"

definition usableWindow :: "txAppTxSarReply \<Rightarrow> 16 word" where
  "usableWindow s =
     (let usedLength = as_mempt s - as_ackd s; usableWindow = as_min_window s
      in if usableWindow > usedLength then usableWindow - usedLength else usableWindow)"

definition pkgAddr :: "16 word \<Rightarrow> 16 word \<Rightarrow> 32 word" where
  "pkgAddr i mempt = upd 15 0 mempt (upd 29 16 (rng 13 0 i :: 14 word) (upd 31 30 (1 :: 2 word) 0))"

definition tasi_metaLoader :: "txMetaLoader \<Rightarrow> txMetaLoader" where
  "tasi_metaLoader k =
     (if \<not> ml_readMeta k then
        (if \<not> s_empty (ml_metaIn k) then
           (let m = axiu2appTxMeta (s_head (ml_metaIn k)) in
            k\<lparr>ml_metaIn := s_rest (ml_metaIn k), ml_writeMeta := m, ml_stateReq := s_write (ml_stateReq k) (am_sessionID m),
              ml_sarReq := s_write (ml_sarReq k) \<lparr>aq_sessionID = am_sessionID m, aq_mempt = 0, aq_write = False\<rparr>,
              ml_readMeta := True\<rparr>)
         else k)
      else if \<not> s_empty (ml_sarRsp k) \<and> \<not> s_empty (ml_stateRsp k) then
        (let s = s_head (ml_sarRsp k); state = s_head (ml_stateRsp k); m = ml_writeMeta k;
             maxLen = maxWriteLength s; space = usableWindow s;
             k = k\<lparr>ml_sarRsp := s_rest (ml_sarRsp k), ml_stateRsp := s_rest (ml_stateRsp k), ml_readMeta := False\<rparr>;
             answer = (\<lambda>left err. s_write (ml_rsp k) (appTxRsp2axiu \<lparr>ar_sessionID = am_sessionID m, ar_length = am_length m,
               ar_remaining_space = ucast left, ar_error = err\<rparr>)) in
         if state \<noteq> ESTABLISHED then k\<lparr>ml_rsp := answer maxLen ERROR_NOCONNECTION\<rparr>
         else if am_length m = 0 then k\<lparr>ml_rsp := answer maxLen ERROR_NOSPACE\<rparr>
         else if am_length m > maxLen \<or> space < am_length m then k\<lparr>ml_rsp := answer space ERROR_NOSPACE\<rparr>
         else
           k\<lparr>ml_pushCmd := s_write (ml_pushCmd k) (newMmCmd (pkgAddr (am_sessionID m) (as_mempt s)) (am_length m)),
             ml_rsp := answer space NO_ERROR,
             ml_event := s_write (ml_event k) \<lparr>ev_type = TX, ev_sessionID = am_sessionID m, ev_address = as_mempt s,
               ev_length = am_length m, ev_rt_count = 0, ev_subSum = am_subSum m, ev_validSum = am_validSum m\<rparr>,
             ml_sarReq := s_write (ml_sarReq k) \<lparr>aq_sessionID = am_sessionID m, aq_mempt = as_mempt s + am_length m, aq_write = True\<rparr>\<rparr>)
      else k)"

section \<open>Writing to the ring\<close>

datatype pusherState = PU_IDLE | PU_CUT_FIRST | PU_ALIGN_SECOND | PU_FWD_ALIGNED | PU_RESIDUE

record pkgPusher =
  pu_state :: pusherState
  pu_cmd :: mmCmd
  pu_remainingLength :: "16 word"
  pu_lengthFirstPkg :: "16 word"
  pu_offset :: "8 word"
  pu_prevWord :: axiWord
  pu_cmdIn :: "mmCmd hls_stream"
  pu_dataIn :: "axiWord hls_stream"
  pu_writeCmd :: "128 word hls_stream"
  pu_writeData :: "axiWord hls_stream"

definition lenToKeep :: "nat \<Rightarrow> 8 word" where
  "lenToKeep n = (if n = 0 then 0xFF else of_nat (2 ^ n - 1))"

definition alignWords :: "nat \<Rightarrow> axiWord \<Rightarrow> axiWord \<Rightarrow> axiWord" where
  "alignWords offset p c = joinWord offset p c zeroWord"

text \<open>The command for the part after the wrap.\<close>

definition secondCmd :: "pkgPusher \<Rightarrow> mmCmd" where
  "secondCmd k = (pu_cmd k)\<lparr>mc_saddr := upd 15 0 (0 :: 16 word) (mc_saddr (pu_cmd k)),
     mc_bbt := mc_bbt (pu_cmd k) - ucast (pu_lengthFirstPkg k)\<rparr>"

text \<open>The word that fills up the last one is not initialised: \<open>emptyWord\<close>.\<close>

definition tasi_pkg_pusher :: "axiWord \<Rightarrow> pkgPusher \<Rightarrow> pkgPusher" where
  "tasi_pkg_pusher emptyWord k =
     (case pu_state k of
        PU_IDLE \<Rightarrow>
          if \<not> s_empty (pu_cmdIn k) then
            (let cmd = s_head (pu_cmdIn k); k = k\<lparr>pu_cmdIn := s_rest (pu_cmdIn k), pu_cmd := cmd\<rparr> in
             if unat (rng 15 0 (mc_saddr cmd) :: 16 word) + unat (mc_bbt cmd) > 65536
             then (let lengthFirst = ucast (65536 - mc_saddr cmd) in
                   k\<lparr>pu_lengthFirstPkg := lengthFirst, pu_remainingLength := lengthFirst,
                     pu_offset := ucast (rng 2 0 lengthFirst :: 3 word),
                     pu_writeCmd := s_write (pu_writeCmd k) (mmCmd2axiu (newMmCmd (mc_saddr cmd) lengthFirst)),
                     pu_state := PU_CUT_FIRST\<rparr>)
             else k\<lparr>pu_writeCmd := s_write (pu_writeCmd k) (mmCmd2axiu cmd), pu_state := PU_FWD_ALIGNED\<rparr>)
          else k
      | PU_CUT_FIRST \<Rightarrow>
          if \<not> s_empty (pu_dataIn k) then
            (let w = s_head (pu_dataIn k); r = pu_remainingLength k; k = k\<lparr>pu_dataIn := s_rest (pu_dataIn k), pu_prevWord := w\<rparr> in
             if r > 8 then k\<lparr>pu_remainingLength := r - 8, pu_writeData := s_write (pu_writeData k) w\<rparr>
             else
               (let k' = k\<lparr>pu_cmd := secondCmd k, pu_writeCmd := s_write (pu_writeCmd k) (mmCmd2axiu (secondCmd k))\<rparr> in
                if r = 8
                then k'\<lparr>pu_writeData := s_write (pu_writeData k) (w\<lparr>ax_last := True\<rparr>), pu_state := PU_FWD_ALIGNED\<rparr>
                else k'\<lparr>pu_writeData := s_write (pu_writeData k) (w\<lparr>ax_keep := lenToKeep (unat r), ax_last := True\<rparr>),
                       pu_state := (if ax_last w then PU_RESIDUE else PU_ALIGN_SECOND)\<rparr>))
          else k
      | PU_FWD_ALIGNED \<Rightarrow>
          if \<not> s_empty (pu_dataIn k) then
            (let w = s_head (pu_dataIn k) in
             k\<lparr>pu_dataIn := s_rest (pu_dataIn k), pu_writeData := s_write (pu_writeData k) w,
               pu_state := (if ax_last w then PU_IDLE else PU_FWD_ALIGNED)\<rparr>)
          else k
      | PU_ALIGN_SECOND \<Rightarrow>
          if \<not> s_empty (pu_dataIn k) then
            (let w = s_head (pu_dataIn k); offset = unat (pu_offset k); fin = \<not> bit (ax_keep w) offset in
             k\<lparr>pu_dataIn := s_rest (pu_dataIn k), pu_prevWord := w,
               pu_writeData := s_write (pu_writeData k) ((alignWords offset (pu_prevWord k) w)\<lparr>ax_last := fin\<rparr>),
               pu_state := (if ax_last w then (if fin then PU_IDLE else PU_RESIDUE) else PU_ALIGN_SECOND)\<rparr>)
          else k
      | PU_RESIDUE \<Rightarrow>
          k\<lparr>pu_writeData := s_write (pu_writeData k)
              ((alignWords (unat (pu_offset k)) (pu_prevWord k) emptyWord)\<lparr>ax_last := True\<rparr>),
            pu_state := PU_IDLE\<rparr>)"


section \<open>What is granted\<close>

lemma unat_left: "unat ((a - m) - 1 :: 16 word) = 65535 - unat (m - a)"
proof -
  have "(a - m) - 1 = -1 - (m - a)" by simp
  moreover have "m - a \<le> -1" by simp
  ultimately have "unat ((a - m) - 1) = unat (-1 :: 16 word) - unat (m - a)" by (simp only: unat_sub)
  then show ?thesis by (simp add: unsigned_minus_1_eq_mask mask_eq_exp_minus_1)
qed

lemma unat_maxWriteLength: "unat (maxWriteLength s) = min 1460 (65535 - unat (as_mempt s - as_ackd s))"
  by (simp add: maxWriteLength_def MSS_def Let_def word_less_nat_alt unat_left)

lemma unat_usableWindow: "unat (usableWindow s) =
    (if unat (as_mempt s - as_ackd s) < unat (as_min_window s) then unat (as_min_window s) - unat (as_mempt s - as_ackd s)
     else unat (as_min_window s))"
  by (simp add: usableWindow_def Let_def word_less_nat_alt unat_sub word_le_nat_alt)


text \<open>When the unacknowledged bytes have used up the window, the window counts as empty no more but as free again: a
  write up to the window size is granted and goes beyond what the peer has offered.\<close>

theorem window_overrun:
  assumes "ml_readMeta k" and "ml_sarRsp k = s # ss" and "ml_stateRsp k = ESTABLISHED # sts"
    and "am_length (ml_writeMeta k) \<noteq> 0" and "unat (am_length (ml_writeMeta k)) \<le> 1460"
    and "unat (as_mempt s - as_ackd s) + unat (am_length (ml_writeMeta k)) \<le> 65535"
    and "as_min_window s \<le> as_mempt s - as_ackd s" and "am_length (ml_writeMeta k) \<le> as_min_window s"
  shows "length (ml_pushCmd (tasi_metaLoader k)) = length (ml_pushCmd k) + 1 \<and>
    unat (as_min_window s) < unat (as_mempt s - as_ackd s) + unat (am_length (ml_writeMeta k))"
proof -
  have m: "\<not> am_length (ml_writeMeta k) > maxWriteLength s" "\<not> usableWindow s < am_length (ml_writeMeta k)"
    using assms(5-8) unfolding word_less_nat_alt unat_maxWriteLength unat_usableWindow by (auto simp: word_le_nat_alt)
  have "0 < unat (am_length (ml_writeMeta k))" using assms(4) by (simp add: unat_gt_0)
  with assms(1-4,7) m show ?thesis
    by (simp add: tasi_metaLoader_def s_write_def word_le_nat_alt Let_def)
qed


section \<open>Where the bytes go\<close>

lemma pusher_forward: "is_packet ws \<Longrightarrow> pu_state k = PU_FWD_ALIGNED \<Longrightarrow> pu_dataIn k = ws @ rest \<Longrightarrow>
    (tasi_pkg_pusher e ^^ length ws) k = k\<lparr>pu_dataIn := rest, pu_writeData := pu_writeData k @ ws, pu_state := PU_IDLE\<rparr>"
proof (induction ws arbitrary: k)
  case Nil
  then show ?case by simp
next
  case (Cons w ws)
  have st: "tasi_pkg_pusher e k = k\<lparr>pu_dataIn := ws @ rest, pu_writeData := pu_writeData k @ [w],
      pu_state := (if ax_last w then PU_IDLE else PU_FWD_ALIGNED)\<rparr>"
    using Cons.prems(2,3) by (simp add: tasi_pkg_pusher_def s_write_def Let_def)
  show ?case
  proof (cases "ax_last w")
    case True
    then have "ws = []" using Cons.prems(1) by (simp add: is_packet_Cons)
    with True st show ?thesis by simp
  next
    case False
    then have "is_packet ws" using Cons.prems(1) by (simp add: is_packet_Cons)
    with Cons.IH [of "tasi_pkg_pusher e k"] False st show ?thesis
      by (simp add: funpow_Suc_apply del: funpow.simps(2))
  qed
qed

lemma pusher_align: "carries (p # ws) bs \<Longrightarrow> n < length bs \<Longrightarrow> n < 8 \<Longrightarrow> unat (pu_offset k) = n \<Longrightarrow> pu_prevWord k = p \<Longrightarrow>
    pu_state k = (if ws = [] then PU_RESIDUE else PU_ALIGN_SECOND) \<Longrightarrow> pu_dataIn k = ws @ rest \<Longrightarrow>
    \<exists>m q. (tasi_pkg_pusher e ^^ m) k = k\<lparr>pu_dataIn := rest, pu_writeData := pu_writeData k @ joinEnd e n p ws,
      pu_prevWord := q, pu_state := PU_IDLE\<rparr>"
proof (induction ws arbitrary: k p bs)
  case Nil
  then show ?case
    by (intro exI [of _ 1] exI [of _ p]) (simp add: tasi_pkg_pusher_def alignWords_def s_write_def)
next
  case (Cons w ws)
  have c: "carries (w # ws) (drop 8 bs)" using Cons.prems(1) by (simp add: carries_Cons)
  note flags = keep_flag [OF c Cons.prems(3)]
  let ?x = "(joinWord n p w zeroWord)\<lparr>ax_last := length (drop 8 bs) \<le> n\<rparr>"
  let ?k = "k\<lparr>pu_dataIn := ws @ rest, pu_prevWord := w, pu_writeData := pu_writeData k @ [?x],
      pu_state := (if ws = [] then (if length (drop 8 bs) \<le> n then PU_IDLE else PU_RESIDUE) else PU_ALIGN_SECOND)\<rparr>"
  have st: "tasi_pkg_pusher e k = ?k"
    using Cons.prems(4-7) flags by (auto simp: tasi_pkg_pusher_def alignWords_def s_write_def Let_def not_less)
  show ?case
  proof (cases "length (drop 8 bs) \<le> n")
    case True
    then have "ws = []" using c Cons.prems(3) by (cases "ws = []") (auto simp: carries_Cons)
    with True st flags show ?thesis by (intro exI [of _ 1] exI [of _ w]) (simp add: Let_def)
  next
    case False
    have "\<exists>m q. (tasi_pkg_pusher e ^^ m) ?k = ?k\<lparr>pu_dataIn := rest, pu_writeData := pu_writeData ?k @ joinEnd e n w ws,
        pu_prevWord := q, pu_state := PU_IDLE\<rparr>"
      by (rule Cons.IH [OF c]) (use False Cons.prems(3,4) in auto)
    then obtain m q where m: "(tasi_pkg_pusher e ^^ m) ?k = ?k\<lparr>pu_dataIn := rest, pu_writeData := pu_writeData ?k @ joinEnd e n w ws,
        pu_prevWord := q, pu_state := PU_IDLE\<rparr>" by blast
    have "(tasi_pkg_pusher e ^^ Suc m) k = (tasi_pkg_pusher e ^^ m) ?k" using st by (simp add: funpow_Suc_apply del: funpow.simps(2))
    with m False flags show ?thesis by (intro exI [of _ "Suc m"] exI [of _ q]) (simp add: Let_def del: funpow.simps(2))
  qed
qed

text \<open>The word cut short carries its first \<open>r\<close> bytes.\<close>

lemma bit_lenToKeep: "0 < n \<Longrightarrow> n \<le> 8 \<Longrightarrow> i < 8 \<Longrightarrow> bit (lenToKeep n) i \<longleftrightarrow> i < n"
proof -
  assume n: "0 < n" "n \<le> 8" and i: "i < 8"
  have "lenToKeep n = mask n" using n(1) by (simp add: lenToKeep_def mask_eq_exp_minus_1)
  with i show ?thesis by (simp add: bit_mask_iff)
qed

lemma carries_cut:
  assumes "carries (w # ws) bs" and "0 < r" and "r \<le> 8" and "r \<le> length bs"
  shows "carries [w\<lparr>ax_keep := lenToKeep r, ax_last := True\<rparr>] (take r bs)"
proof -
  let ?w = "w\<lparr>ax_keep := lenToKeep r, ax_last := True\<rparr>"
  let ?js = "map (\<lambda>i. byteAt (ax_data w) i) [r..<8]"
  have "lanes ?w = kept (take r bs) @ map (\<lambda>j. (j, False)) ?js"
  proof (rule nth_equalityI)
    show "length (lanes ?w) = length (kept (take r bs) @ map (\<lambda>j. (j, False)) ?js)" using assms by simp
    fix i assume "i < length (lanes ?w)"
    then have i: "i < 8" by simp
    then show "lanes ?w ! i = (kept (take r bs) @ map (\<lambda>j. (j, False)) ?js) ! i"
      using assms carries_byteAt [OF assms(1) i] bit_lenToKeep [OF assms(2,3) i] by (simp add: nth_lanes nth_append)
  qed
  then have "\<exists>js. lanes ?w = kept (take r bs) @ map (\<lambda>j. (j, False)) js" by blast
  with assms show ?thesis unfolding carries_single lastWord_lanes by auto
qed


text \<open>A packet that begins with the given bytes: its last word may keep more lanes behind them.\<close>

fun beginsWith :: "axiWord list \<Rightarrow> 8 word list \<Rightarrow> bool" where
  "beginsWith [] bs = False"
| "beginsWith (w # ws) bs =
     (if ws = [] then ax_last w \<and> bs \<noteq> [] \<and> length bs \<le> 8 \<and> take (length bs) (lanes w) = kept bs
      else \<not> ax_last w \<and> 8 < length bs \<and> lanes w = kept (take 8 bs) \<and> beginsWith ws (drop 8 bs))"

lemma carries_beginsWith: "carries ws bs \<Longrightarrow> beginsWith ws bs"
  by (induction ws arbitrary: bs) (auto simp: carries.simps(2) lastWord_def split: if_splits)

text \<open>Whatever word fills up the last one, the packet begins with the bytes left.\<close>

lemma beginsWith_joinEnd:
  assumes "0 < n" and "n < 8"
  shows "carries (p # ws) bs \<Longrightarrow> n < length bs \<Longrightarrow> beginsWith (joinEnd e n p ws) (drop n bs)"
proof (induction ws arbitrary: p bs)
  case Nil
  then obtain js where p: "lanes p = kept bs @ map (\<lambda>j. (j, False)) js" by (auto simp: carries_single lastWord_lanes)
  have "length bs \<le> 8" using arg_cong [OF p, of length] by simp
  have "take (length bs - n) (lanes (joinWord n p e zeroWord)) = kept (drop n bs)"
    using p Nil.prems(2) assms by (simp add: lanes_joinWord)
  with Nil.prems(2) \<open>length bs \<le> 8\<close> show ?case by simp
next
  case (Cons w ws)
  have c: "carries (w # ws) (drop 8 bs)" using Cons.prems(1) by (simp add: carries_Cons)
  have j: "carries (joinRest n p (w # ws)) (drop n bs)" by (rule carries_joinRest [OF assms Cons.prems])
  show ?case
  proof (cases "ax_last w \<and> (rng 7 n (ax_keep w) :: 8 word) = 0")
    case True
    then have "joinEnd e n p (w # ws) = joinRest n p (w # ws)" by (simp add: Let_def)
    with carries_beginsWith [OF j] show ?thesis by simp
  next
    case False
    have ne: "joinEnd x n w ws \<noteq> []" for x by (cases ws) (simp_all add: Let_def)
    have h: "\<not> ax_last (hd (joinEnd e n p (w # ws)))" "8 < length (drop n bs)"
      "lanes (hd (joinEnd e n p (w # ws))) = kept (take 8 (drop n bs))"
      using j False ne by (simp_all add: Let_def carries_Cons)
    moreover have "beginsWith (joinEnd e n w ws) (drop n (drop 8 bs))" by (rule Cons.IH [OF c]) (use h(2) in simp)
    ultimately show ?thesis using False ne by (simp add: Let_def add.commute)
  qed
qed

text \<open>The part up to the end of the buffer, then the rest.\<close>

lemma pusher_cut:
  fixes e :: axiWord
  assumes junk: "clear \<Longrightarrow> \<forall>j<8. \<not> bit (ax_keep e) j"
  shows "carries ws bs \<Longrightarrow> 0 < r \<Longrightarrow> r < length bs \<Longrightarrow> pu_state k = PU_CUT_FIRST \<Longrightarrow> unat (pu_remainingLength k) = r \<Longrightarrow>
    unat (pu_offset k) = r mod 8 \<Longrightarrow> pu_dataIn k = ws @ rest \<Longrightarrow>
    \<exists>m k' out1 out2. (tasi_pkg_pusher e ^^ m) k = k' \<and> pu_state k' = PU_IDLE \<and> pu_dataIn k' = rest \<and> pu_cmdIn k' = pu_cmdIn k \<and>
      pu_writeCmd k' = pu_writeCmd k @ [mmCmd2axiu (secondCmd k)] \<and> pu_writeData k' = pu_writeData k @ out1 @ out2 \<and>
      carries out1 (take r bs) \<and> beginsWith out2 (drop r bs) \<and> (clear \<longrightarrow> carries out2 (drop r bs))"
proof (induction ws arbitrary: k bs r)
  case Nil
  then show ?case by simp
next
  case (Cons w ws)
  have cmp: "pu_remainingLength k > 8 \<longleftrightarrow> 8 < r" "pu_remainingLength k = 8 \<longleftrightarrow> r = 8"
    using Cons.prems(5) by (simp_all add: word_less_nat_alt word_unat_eq_iff)
  have lw: "ax_last w \<longleftrightarrow> ws = []" using keep_flag(3) [OF Cons.prems(1), of 0] by simp
  consider "8 < r" | "r = 8" | "r < 8" by linarith
  then show ?case
  proof cases
    case 1
    then have long: "8 < length bs" using Cons.prems(3) by simp
    then have c: "lanes w = kept (take 8 bs)" "carries ws (drop 8 bs)" "\<not> ax_last w" "ws \<noteq> []"
      using Cons.prems(1) by (cases "ws = []"; auto simp: carries_Cons carries_single lastWord_def)+
    let ?k = "k\<lparr>pu_dataIn := ws @ rest, pu_prevWord := w, pu_remainingLength := pu_remainingLength k - 8, pu_writeData := pu_writeData k @ [w]\<rparr>"
    have st: "tasi_pkg_pusher e k = ?k"
      using Cons.prems(4,7) cmp 1 by (simp add: tasi_pkg_pusher_def s_write_def Let_def)
    have r8: "unat (pu_remainingLength k - 8) = r - 8" using Cons.prems(5) 1 by (simp add: unat_sub word_le_nat_alt)
    have md: "(r - 8) mod 8 = r mod 8" using 1 by (simp add: mod_if [of r])
    have "\<exists>m k' out1 out2. (tasi_pkg_pusher e ^^ m) ?k = k' \<and> pu_state k' = PU_IDLE \<and> pu_dataIn k' = rest \<and> pu_cmdIn k' = pu_cmdIn ?k \<and>
      pu_writeCmd k' = pu_writeCmd ?k @ [mmCmd2axiu (secondCmd ?k)] \<and> pu_writeData k' = pu_writeData ?k @ out1 @ out2 \<and>
      carries out1 (take (r - 8) (drop 8 bs)) \<and> beginsWith out2 (drop (r - 8) (drop 8 bs)) \<and>
      (clear \<longrightarrow> carries out2 (drop (r - 8) (drop 8 bs)))"
      by (rule Cons.IH [OF c(2)]) (use Cons.prems(3,4,6) 1 r8 md in simp_all)
    then obtain m k' out1 out2 where ih: "(tasi_pkg_pusher e ^^ m) ?k = k'" "pu_state k' = PU_IDLE" "pu_dataIn k' = rest"
      "pu_cmdIn k' = pu_cmdIn k" "pu_writeCmd k' = pu_writeCmd k @ [mmCmd2axiu (secondCmd k)]"
      "pu_writeData k' = pu_writeData k @ w # out1 @ out2" "carries out1 (take (r - 8) (drop 8 bs))"
      "beginsWith out2 (drop r bs) \<and> (clear \<longrightarrow> carries out2 (drop r bs))"
      using 1 by (auto simp: secondCmd_def)
    have "carries (w # out1) (take r bs)"
      using carries_nonempty [OF ih(7)] ih(7) c(1,3) 1 long Cons.prems(3) by (subst carries_Cons) (auto simp: drop_take)
    moreover have "(tasi_pkg_pusher e ^^ Suc m) k = k'" using st ih(1) by (simp add: funpow_Suc_apply del: funpow.simps(2))
    ultimately show ?thesis using ih(2-6,8) by (intro exI [of _ "Suc m"] exI [of _ k'] exI [of _ "w # out1"] exI [of _ out2]) simp
  next
    case 2
    then have c: "lanes w = kept (take 8 bs)" "carries ws (drop 8 bs)" "ws \<noteq> []"
      using Cons.prems(1,3) by (cases "ws = []"; auto simp: carries_Cons carries_single lastWord_def)+
    let ?k = "k\<lparr>pu_dataIn := ws @ rest, pu_prevWord := w, pu_cmd := secondCmd k, pu_writeCmd := pu_writeCmd k @ [mmCmd2axiu (secondCmd k)],
        pu_writeData := pu_writeData k @ [w\<lparr>ax_last := True\<rparr>], pu_state := PU_FWD_ALIGNED\<rparr>"
    have st: "tasi_pkg_pusher e k = ?k"
      using Cons.prems(4,7) cmp 2 by (simp add: tasi_pkg_pusher_def s_write_def secondCmd_def Let_def)
    have "(tasi_pkg_pusher e ^^ length ws) ?k = ?k\<lparr>pu_dataIn := rest, pu_writeData := pu_writeData ?k @ ws, pu_state := PU_IDLE\<rparr>"
      by (rule pusher_forward) (use carries_packet [OF c(2)] in simp_all)
    then have "(tasi_pkg_pusher e ^^ Suc (length ws)) k = ?k\<lparr>pu_dataIn := rest, pu_writeData := pu_writeData ?k @ ws, pu_state := PU_IDLE\<rparr>"
      using st by (simp add: funpow_Suc_apply del: funpow.simps(2))
    moreover have "carries [w\<lparr>ax_last := True\<rparr>] (take r bs)"
      using c(1) 2 Cons.prems(3) by (auto simp: carries_single lastWord_def)
    ultimately show ?thesis using 2 c(2) carries_beginsWith [OF c(2)]
      by (intro exI [of _ "Suc (length ws)"] exI exI [of _ "[w\<lparr>ax_last := True\<rparr>]"] exI [of _ ws] conjI) (assumption | simp)+
  next
    case 3
    let ?x = "w\<lparr>ax_keep := lenToKeep r, ax_last := True\<rparr>"
    let ?k = "k\<lparr>pu_dataIn := ws @ rest, pu_prevWord := w, pu_cmd := secondCmd k, pu_writeCmd := pu_writeCmd k @ [mmCmd2axiu (secondCmd k)],
        pu_writeData := pu_writeData k @ [?x], pu_state := (if ws = [] then PU_RESIDUE else PU_ALIGN_SECOND)\<rparr>"
    have st: "tasi_pkg_pusher e k = ?k"
      using Cons.prems(4,5,7) cmp 3 lw by (simp add: tasi_pkg_pusher_def s_write_def secondCmd_def Let_def)
    obtain m q where m: "(tasi_pkg_pusher e ^^ m) ?k = ?k\<lparr>pu_dataIn := rest, pu_writeData := pu_writeData ?k @ joinEnd e r w ws,
        pu_prevWord := q, pu_state := PU_IDLE\<rparr>"
      using pusher_align [OF Cons.prems(1,3) 3, of ?k rest e] Cons.prems(6) 3 by auto
    have "(tasi_pkg_pusher e ^^ Suc m) k = ?k\<lparr>pu_dataIn := rest, pu_writeData := pu_writeData ?k @ joinEnd e r w ws,
        pu_prevWord := q, pu_state := PU_IDLE\<rparr>"
      using st m by (simp add: funpow_Suc_apply del: funpow.simps(2))
    moreover have "carries [?x] (take r bs)" by (rule carries_cut [OF Cons.prems(1)]) (use Cons.prems(2,3) 3 in simp_all)
    moreover have "beginsWith (joinEnd e r w ws) (drop r bs) \<and>
        (clear \<longrightarrow> carries (joinEnd e r w ws) (drop r bs))"
      using beginsWith_joinEnd [OF Cons.prems(2) 3 Cons.prems(1,3), of e] carries_joinEnd [OF Cons.prems(2) 3 _ Cons.prems(1,3), of e] 3 junk
      by auto
    ultimately show ?thesis
      by (intro exI [of _ "Suc m"] exI exI [of _ "[?x]"] exI [of _ "joinEnd e r w ws"] conjI) (assumption | simp)+
  qed
qed


text \<open>The memory behind the commands (AXI DataMover): the bytes of the data go to consecutive addresses from \<open>saddr\<close> on.\<close>

definition storeBytes :: "32 word \<Rightarrow> 8 word list \<Rightarrow> (32 word \<Rightarrow> 8 word) \<Rightarrow> 32 word \<Rightarrow> 8 word" where
  "storeBytes addr bs mem = (\<lambda>x. if unat (x - addr) < length bs then bs ! unat (x - addr) else mem x)"

text \<open>The send buffer of session \<open>i\<close>, a ring of 65536 bytes, with \<open>bs\<close> written from position \<open>a\<close> on.\<close>

definition sendBuffer :: "16 word \<Rightarrow> 16 word \<Rightarrow> 8 word list \<Rightarrow> (32 word \<Rightarrow> 8 word) \<Rightarrow> 32 word \<Rightarrow> 8 word" where
  "sendBuffer i a bs mem = (\<lambda>x.
     (let pos = unat (rng 15 0 x - a :: 16 word)
      in if rng 31 16 x = (rng 31 16 (pkgAddr i 0) :: 16 word) \<and> pos < length bs then bs ! pos else mem x))"

lemma halves: "unat (rng 31 16 x :: 16 word) = unat x div 65536" "unat (rng 15 0 x :: 16 word) = unat x mod 65536"
  for x :: "32 word"
proof -
  have "(rng 31 16 x :: 16 word) = ucast (drop_bit 16 x)" "(rng 15 0 x :: 16 word) = ucast x"
    by (rule bit_word_eqI; auto simp: bit_simps)+
  moreover have "unat (drop_bit 16 x) = unat x div 65536"
  proof -
    have "take_bit 32 (unat x) = unat x"
      by (rule take_bit_nat_eq_self) (use unsigned_less [of x, where ?'a = nat] in simp)
    then show ?thesis unfolding unsigned_drop_bit_eq by (simp add: drop_bit_eq_div)
  qed
  moreover have "unat x div 65536 < 65536"
    using unsigned_less [of x, where ?'a = nat] by (simp add: less_mult_imp_div_less)
  ultimately show "unat (rng 31 16 x :: 16 word) = unat x div 65536" "unat (rng 15 0 x :: 16 word) = unat x mod 65536"
    by (simp_all add: unsigned_ucast_eq take_bit_eq_mod)
qed

lemma pkgAddr_halves: "(rng 15 0 (pkgAddr i a) :: 16 word) = a" "(rng 31 16 (pkgAddr i a) :: 16 word) = rng 31 16 (pkgAddr i 0)"
  by (rule bit_word_eqI; auto simp: pkgAddr_def bit_simps)+

lemma storeBytes_page:
  assumes "unat (rng 15 0 addr :: 16 word) + length bs \<le> 65536"
  shows "storeBytes addr bs mem x =
    (if rng 31 16 x = (rng 31 16 addr :: 16 word) \<and> unat (rng 15 0 addr :: 16 word) \<le> unat (rng 15 0 x :: 16 word) \<and>
        unat (rng 15 0 x :: 16 word) < unat (rng 15 0 addr :: 16 word) + length bs
     then bs ! (unat (rng 15 0 x :: 16 word) - unat (rng 15 0 addr :: 16 word)) else mem x)"
proof -
  define X A where "X = unat x" and "A = unat addr"
  have b: "X < 4294967296" "A < 4294967296"
    using unsigned_less [of x, where ?'a = nat] unsigned_less [of addr, where ?'a = nat] by (simp_all add: X_def A_def)
  have s: "unat (x - addr) = (if A \<le> X then X - A else X + 4294967296 - A)"
    by (simp add: unat_sub_if' X_def A_def)
  have e: "rng 31 16 x = (rng 31 16 addr :: 16 word) \<longleftrightarrow> X div 65536 = A div 65536"
    by (simp add: word_unat_eq_iff halves X_def A_def)
  have l: "A mod 65536 + length bs \<le> 65536" using assms by (simp add: halves A_def)
  have d: "X = X div 65536 * 65536 + X mod 65536" "A = A div 65536 * 65536 + A mod 65536" by simp_all
  have hi: "A div 65536 < 65536" using b(2) by simp
  have "unat (x - addr) < length bs \<longleftrightarrow> X div 65536 = A div 65536 \<and> A mod 65536 \<le> X mod 65536 \<and> X mod 65536 < A mod 65536 + length bs"
  proof
    assume u: "unat (x - addr) < length bs"
    have ax: "A \<le> X"
    proof (rule ccontr)
      assume "\<not> A \<le> X"
      with s u have "4294967296 - A < length bs" by simp
      moreover have "A \<le> 4294901760 + A mod 65536" using d(2) hi by linarith
      ultimately show False using l by linarith
    qed
    have x: "X < A + length bs" using u s ax by simp
    have "X div 65536 = A div 65536"
    proof (rule antisym)
      show "A div 65536 \<le> X div 65536" using ax by (rule div_le_mono)
      have "X < Suc (A div 65536) * 65536" unfolding mult_Suc using x l d(2) by linarith
      then have "X div 65536 < Suc (A div 65536)" by (rule less_mult_imp_div_less)
      then show "X div 65536 \<le> A div 65536" by simp
    qed
    with ax x d show "X div 65536 = A div 65536 \<and> A mod 65536 \<le> X mod 65536 \<and> X mod 65536 < A mod 65536 + length bs" by linarith
  next
    assume h: "X div 65536 = A div 65536 \<and> A mod 65536 \<le> X mod 65536 \<and> X mod 65536 < A mod 65536 + length bs"
    then have "A \<le> X" "X - A < length bs" using d by linarith+
    with s show "unat (x - addr) < length bs" by simp
  qed
  moreover have "unat (x - addr) = X mod 65536 - A mod 65536" if "X div 65536 = A div 65536" "A mod 65536 \<le> X mod 65536"
  proof -
    have "A \<le> X" "X - A = X mod 65536 - A mod 65536" using that d by linarith+
    with s show ?thesis by simp
  qed
  ultimately show ?thesis unfolding storeBytes_def e halves X_def [symmetric] A_def [symmetric] by auto
qed

lemma low_offset: "unat (l - a :: 16 word) = (if unat a \<le> unat l then unat l - unat a else unat l + 65536 - unat a)"
  by (simp add: unat_sub_if')

text \<open>Positions on the ring, as numbers.\<close>

lemma ring_unsplit:
  fixes p q len :: nat
  assumes "q < 65536" and "p + len \<le> 65536"
  shows "(if p \<le> q then q - p else q + 65536 - p) < len \<longleftrightarrow> p \<le> q \<and> q < p + len"
  using assms by (cases "p \<le> q") auto

lemma ring_split:
  fixes p q n len :: nat
  assumes "q < 65536" and "n + p = 65536" and "n < len" and "len - n \<le> p"
  shows "(if p \<le> q then q - p else q + 65536 - p) < len \<longleftrightarrow> q < len - n \<or> p \<le> q"
    and "q < len - n \<Longrightarrow> (if p \<le> q then q - p else q + 65536 - p) = q + n"
  using assms by (cases "p \<le> q"; auto)+

lemma send_unsplit:
  assumes "unat a + length bs \<le> 65536"
  shows "storeBytes (pkgAddr i a) bs mem = sendBuffer i a bs mem"
proof
  fix x :: "32 word"
  have q: "unat (rng 15 0 x :: 16 word) < 65536" using unsigned_less [of "rng 15 0 x :: 16 word", where ?'a = nat] by simp
  have "storeBytes (pkgAddr i a) bs mem x = (if rng 31 16 x = (rng 31 16 (pkgAddr i 0) :: 16 word) \<and>
      unat a \<le> unat (rng 15 0 x :: 16 word) \<and> unat (rng 15 0 x :: 16 word) < unat a + length bs
     then bs ! (unat (rng 15 0 x :: 16 word) - unat a) else mem x)"
    using storeBytes_page [of "pkgAddr i a" bs mem x] assms unfolding pkgAddr_halves(1) pkgAddr_halves(2) [of i a] by simp
  then show "storeBytes (pkgAddr i a) bs mem x = sendBuffer i a bs mem x"
    unfolding sendBuffer_def low_offset Let_def ring_unsplit [OF q assms] by simp
qed

lemma send_split:
  assumes "65536 < unat a + length bs" and "length bs \<le> 65536" and "n = 65536 - unat a"
  shows "storeBytes (pkgAddr i 0) (drop n bs) (storeBytes (pkgAddr i a) (take n bs) mem) = sendBuffer i a bs mem"
proof
  fix x :: "32 word"
  define q where "q = unat (rng 15 0 x :: 16 word)"
  have b: "q < 65536" "unat a < 65536"
    using unsigned_less [of "rng 15 0 x :: 16 word", where ?'a = nat] unsigned_less [of a, where ?'a = nat] by (simp_all add: q_def)
  have n: "n + unat a = 65536" "n < length bs" "length bs - n \<le> unat a" using assms b(2) by simp_all
  let ?P = "rng 31 16 x = (rng 31 16 (pkgAddr i 0) :: 16 word)"
  have "storeBytes (pkgAddr i a) (take n bs) mem x = (if ?P \<and> unat a \<le> q \<and> q < unat a + length (take n bs)
      then take n bs ! (q - unat a) else mem x)"
    using storeBytes_page [of "pkgAddr i a" "take n bs" mem x] n unfolding pkgAddr_halves(1) pkgAddr_halves(2) [of i a] q_def by simp
  moreover have "unat a + length (take n bs) = 65536" using n by simp
  moreover have "take n bs ! (q - unat a) = bs ! (q - unat a)" using n b by simp
  ultimately have 1: "storeBytes (pkgAddr i a) (take n bs) mem x = (if ?P \<and> unat a \<le> q then bs ! (q - unat a) else mem x)"
    using b(1) by simp
  have 2: "storeBytes (pkgAddr i 0) (drop n bs) m x = (if ?P \<and> q < length bs - n then bs ! (q + n) else m x)" for m
  proof -
    have "unat (rng 15 0 (pkgAddr i 0) :: 16 word) + length (drop n bs) \<le> 65536" using n by (simp add: pkgAddr_halves(1))
    from storeBytes_page [OF this, of m x] show ?thesis using n(2) by (simp add: pkgAddr_halves(1) q_def add.commute)
  qed
  note r = ring_split [OF b(1) n]
  show "storeBytes (pkgAddr i 0) (drop n bs) (storeBytes (pkgAddr i a) (take n bs) mem) x = sendBuffer i a bs mem x"
  proof (cases "q < length bs - n")
    case True
    then show ?thesis unfolding 2 1 sendBuffer_def low_offset Let_def q_def [symmetric] r(1) r(2) [OF True] by (simp add: less_diff_conv)
  next
    case False
    then show ?thesis unfolding 2 1 sendBuffer_def low_offset Let_def q_def [symmetric] r(1) by simp
  qed
qed


text \<open>The first command ends at the end of the buffer.\<close>

lemma first_length:
  assumes "65536 < unat a + unat (len :: 16 word)"
  shows "unat (ucast (65536 - pkgAddr i a) :: 16 word) = 65536 - unat a"
    and "unat (ucast (rng 2 0 (ucast (65536 - pkgAddr i a) :: 16 word) :: 3 word) :: 8 word) = (65536 - unat a) mod 8"
proof -
  define A where "A = unat (pkgAddr i a)"
  have a: "A mod 65536 = unat a" using halves(2) [of "pkgAddr i a"] by (simp add: A_def pkgAddr_halves)
  have pos: "0 < unat a" "unat a < 65536"
    using assms unsigned_less [of len, where ?'a = nat] unsigned_less [of a, where ?'a = nat] by simp_all
  have "unat (65536 - pkgAddr i a) = (if A \<le> 65536 then 65536 - A else 4295032832 - A)"
    by (simp add: unat_sub_if' A_def)
  moreover have "A < 4294967296" using unsigned_less [of "pkgAddr i a", where ?'a = nat] by (simp add: A_def)
  moreover have "(65536 - A) mod 65536 = 65536 - unat a" if "A \<le> 65536"
    using a pos that by (cases "A = 65536") auto
  moreover have "(4295032832 - A) mod 65536 = 65536 - unat a" if "A < 4294967296"
  proof -
    have "A = A div 65536 * 65536 + unat a" "A div 65536 < 65536" using a that div_mult_mod_eq [of A 65536] by auto
    then have e: "4295032832 - A = (65536 - unat a) + 65536 * (65536 - A div 65536)" using pos by linarith
    show ?thesis unfolding e mod_mult_self2 using pos by simp
  qed
  ultimately show l: "unat (ucast (65536 - pkgAddr i a) :: 16 word) = 65536 - unat a"
    by (simp add: unsigned_ucast_eq take_bit_eq_mod split: if_splits)
  have r: "(rng 2 0 w :: 3 word) = ucast w" for w :: "16 word" by (rule bit_word_eqI) (auto simp: bit_simps)
  have u: "unat (ucast (rng 2 0 w :: 3 word) :: 8 word) = unat w mod 8" for w :: "16 word"
  proof -
    have "unat (ucast (ucast w :: 3 word) :: 8 word) = take_bit 3 (unat w)"
      by (simp add: unsigned_ucast_eq unsigned_take_bit_eq)
    then show ?thesis unfolding r by (simp add: take_bit_eq_mod [of 3 "unat w"])
  qed
  show "unat (ucast (rng 2 0 (ucast (65536 - pkgAddr i a) :: 16 word) :: 3 word) :: 8 word) = (65536 - unat a) mod 8"
    unfolding u l ..
qed

text \<open>A write that wraps.\<close>

lemma pusher_split:
  assumes "pu_state k = PU_IDLE" and "pu_cmdIn k = newMmCmd (pkgAddr i a) len # cmds"
    and "pu_dataIn k = ws @ rest" and "carries ws bs" and "length bs = unat len" and "n = 65536 - unat a"
    and True: "65536 < unat a + unat len" and clear: "clear \<Longrightarrow> \<forall>j<8. \<not> bit (ax_keep e) j"
  shows "\<exists>m k' c1 c2 out1 out2. (tasi_pkg_pusher e ^^ m) k = k' \<and> pu_state k' = PU_IDLE \<and> pu_cmdIn k' = cmds \<and> pu_dataIn k' = rest \<and>
    pu_writeCmd k' = pu_writeCmd k @ [mmCmd2axiu c1, mmCmd2axiu c2] \<and> pu_writeData k' = pu_writeData k @ out1 @ out2 \<and>
    mc_saddr c1 = pkgAddr i a \<and> mc_saddr c2 = pkgAddr i 0 \<and> unat (mc_bbt c1) = n \<and> unat (mc_bbt c2) = unat len - n \<and>
    carries out1 (take n bs) \<and> beginsWith out2 (drop n bs) \<and> (clear \<longrightarrow> carries out2 (drop n bs))"
proof -
  define cmd where "cmd = newMmCmd (pkgAddr i a) len"
  have len: "unat len < 65536" "unat a < 65536"
    using unsigned_less [of len, where ?'a = nat] unsigned_less [of a, where ?'a = nat] by simp_all
  have wide: "unat (ucast l :: 23 word) = unat l" for l :: "16 word"
    using unsigned_less [of l, where ?'a = nat] by (simp add: unsigned_ucast_eq take_bit_nat_eq_self)
  have sum: "unat (rng 15 0 (mc_saddr cmd) :: 16 word) + unat (mc_bbt cmd) = unat a + unat len"
    by (simp add: cmd_def newMmCmd_def pkgAddr_halves wide)
  define l1 :: "16 word" where "l1 = ucast (65536 - pkgAddr i a)"
  have l1: "unat l1 = n" using first_length(1) [OF True] by (simp add: l1_def assms(6))
  have n: "0 < n" "n < unat len" "n < 65536" using True len by (simp_all add: assms(6))
  let ?k = "k\<lparr>pu_cmdIn := cmds, pu_cmd := cmd, pu_lengthFirstPkg := l1, pu_remainingLength := l1, pu_offset := ucast (rng 2 0 l1 :: 3 word),
      pu_writeCmd := pu_writeCmd k @ [mmCmd2axiu (newMmCmd (pkgAddr i a) l1)], pu_state := PU_CUT_FIRST\<rparr>"
  have st: "tasi_pkg_pusher e k = ?k"
    using assms(1,2) sum True by (simp add: tasi_pkg_pusher_def s_write_def l1_def Let_def flip: cmd_def)
      (simp add: cmd_def newMmCmd_def)
  have "\<exists>m k' out1 out2. (tasi_pkg_pusher e ^^ m) ?k = k' \<and> pu_state k' = PU_IDLE \<and> pu_dataIn k' = rest \<and> pu_cmdIn k' = pu_cmdIn ?k \<and>
    pu_writeCmd k' = pu_writeCmd ?k @ [mmCmd2axiu (secondCmd ?k)] \<and> pu_writeData k' = pu_writeData ?k @ out1 @ out2 \<and>
    carries out1 (take n bs) \<and> beginsWith out2 (drop n bs) \<and> (clear \<longrightarrow> carries out2 (drop n bs))"
    by (rule pusher_cut [OF clear assms(4) n(1)])
      (use n assms(3,5,6) l1 first_length(2) [OF True, of i] in \<open>simp_all add: l1_def\<close>)
  then obtain m k' out1 out2 where r: "(tasi_pkg_pusher e ^^ m) ?k = k'" "pu_state k' = PU_IDLE" "pu_dataIn k' = rest"
    "pu_cmdIn k' = cmds" "pu_writeCmd k' = pu_writeCmd k @ [mmCmd2axiu (newMmCmd (pkgAddr i a) l1), mmCmd2axiu (secondCmd ?k)]"
    "pu_writeData k' = pu_writeData k @ out1 @ out2" "carries out1 (take n bs)" "beginsWith out2 (drop n bs)"
    "clear \<longrightarrow> carries out2 (drop n bs)" by auto
  have "upd 15 0 (0 :: 16 word) (pkgAddr i a) = pkgAddr i 0" by (rule bit_word_eqI) (auto simp: pkgAddr_def bit_simps)
  then have c2: "mc_saddr (secondCmd ?k) = pkgAddr i 0" by (simp add: secondCmd_def cmd_def newMmCmd_def)
  have b2: "unat (mc_bbt (secondCmd ?k)) = unat len - n"
    using n by (simp add: secondCmd_def cmd_def newMmCmd_def unat_sub word_le_nat_alt wide l1)
  have "(tasi_pkg_pusher e ^^ Suc m) k = k'" using st r(1) by (simp add: funpow_Suc_apply del: funpow.simps(2))
  moreover have "mc_saddr (newMmCmd (pkgAddr i a) l1) = pkgAddr i a" "unat (mc_bbt (newMmCmd (pkgAddr i a) l1)) = n"
    by (simp_all add: newMmCmd_def wide l1)
  ultimately show ?thesis using r(2-9) c2 b2
    by (intro exI [of _ "Suc m"] exI [of _ k'] exI [of _ "newMmCmd (pkgAddr i a) l1"] exI [of _ "secondCmd ?k"]
        exI [of _ out1] exI [of _ out2]) simp
qed

text \<open>C33: The bytes of a granted write end up in the send buffer of its session, from the write pointer on and around the end of
  the buffer, and nowhere else: one memory command, or two when the write wraps, with addresses and lengths that cover exactly
  these bytes, and one data packet for each, shifted into place for the second.  The first packet carries exactly the bytes
  its command announces.  The second begins with them, whatever the uninitialised \<open>emptyWord\<close> holds that fills up its last
  word; it carries exactly these when \<open>emptyWord\<close> keeps no byte, and may keep more lanes behind them otherwise.  What is stored is
  what the commands announce.\<close>

theorem write_fills_ring:
  assumes "pu_state k = PU_IDLE" and "pu_cmdIn k = newMmCmd (pkgAddr i a) len # cmds"
    and "pu_dataIn k = ws @ rest" and "carries ws bs" and "length bs = unat len" and "n = 65536 - unat a"
  shows "\<exists>m k' parts outs. (tasi_pkg_pusher e ^^ m) k = k' \<and> pu_state k' = PU_IDLE \<and> pu_cmdIn k' = cmds \<and> pu_dataIn k' = rest \<and>
    map (\<lambda>(c, chunk). (mc_saddr c, chunk)) parts =
      (if n < unat len then [(pkgAddr i a, take n bs), (pkgAddr i 0, drop n bs)] else [(pkgAddr i a, bs)]) \<and>
    pu_writeCmd k' = pu_writeCmd k @ map (\<lambda>(c, chunk). mmCmd2axiu c) parts \<and>
    pu_writeData k' = pu_writeData k @ concat outs \<and>
    list_all2 (\<lambda>(c, chunk) out. length chunk = unat (mc_bbt c) \<and> beginsWith out chunk) parts outs \<and>
    carries (hd outs) (snd (hd parts)) \<and>
    ((\<forall>j<8. \<not> bit (ax_keep e) j) \<longrightarrow> list_all2 (\<lambda>(c, chunk) out. carries out chunk) parts outs) \<and>
    fold (\<lambda>(c, chunk). storeBytes (mc_saddr c) chunk) parts mem = sendBuffer i a bs mem"
proof -
  define cmd where "cmd = newMmCmd (pkgAddr i a) len"
  have len: "unat len < 65536" "unat a < 65536"
    using unsigned_less [of len, where ?'a = nat] unsigned_less [of a, where ?'a = nat] by simp_all
  have wide: "unat (ucast l :: 23 word) = unat l" for l :: "16 word"
    using unsigned_less [of l, where ?'a = nat] by (simp add: unsigned_ucast_eq take_bit_nat_eq_self)
  have sum: "unat (rng 15 0 (mc_saddr cmd) :: 16 word) + unat (mc_bbt cmd) = unat a + unat len"
    by (simp add: cmd_def newMmCmd_def pkgAddr_halves wide)
  define clear where "clear \<longleftrightarrow> (\<forall>j<8. \<not> bit (ax_keep e) j)"
  show ?thesis
  proof (cases "65536 < unat a + unat len")
    case False
    let ?k = "k\<lparr>pu_cmdIn := cmds, pu_cmd := cmd, pu_writeCmd := pu_writeCmd k @ [mmCmd2axiu cmd], pu_state := PU_FWD_ALIGNED\<rparr>"
    have st: "tasi_pkg_pusher e k = ?k"
      using assms(1,2) sum False by (simp add: tasi_pkg_pusher_def s_write_def Let_def flip: cmd_def)
    have "(tasi_pkg_pusher e ^^ length ws) ?k = ?k\<lparr>pu_dataIn := rest, pu_writeData := pu_writeData ?k @ ws, pu_state := PU_IDLE\<rparr>"
      by (rule pusher_forward) (use carries_packet [OF assms(4)] assms(3) in simp_all)
    then have "(tasi_pkg_pusher e ^^ Suc (length ws)) k = ?k\<lparr>pu_dataIn := rest, pu_writeData := pu_writeData ?k @ ws, pu_state := PU_IDLE\<rparr>"
      using st by (simp add: funpow_Suc_apply del: funpow.simps(2))
    moreover have "storeBytes (mc_saddr cmd) bs mem = sendBuffer i a bs mem"
      using send_unsplit [of a bs i mem] False assms(5) by (simp add: cmd_def newMmCmd_def)
    moreover have "length bs = unat (mc_bbt cmd)" using assms(5) by (simp add: cmd_def newMmCmd_def wide)
    moreover have "mc_saddr cmd = pkgAddr i a" by (simp add: cmd_def newMmCmd_def)
    moreover have "\<not> n < unat len" using False len by (simp add: assms(6))
    ultimately show ?thesis using assms(4) carries_beginsWith [OF assms(4)]
      by (intro exI [of _ "Suc (length ws)"] exI [of _ "?k\<lparr>pu_dataIn := rest, pu_writeData := pu_writeData ?k @ ws, pu_state := PU_IDLE\<rparr>"]
          exI [of _ "[(cmd, bs)]"] exI [of _ "[ws]"]) simp
  next
    case True
    obtain m k' c1 c2 out1 out2 where r: "(tasi_pkg_pusher e ^^ m) k = k'" "pu_state k' = PU_IDLE" "pu_cmdIn k' = cmds" "pu_dataIn k' = rest"
      "pu_writeCmd k' = pu_writeCmd k @ [mmCmd2axiu c1, mmCmd2axiu c2]" "pu_writeData k' = pu_writeData k @ out1 @ out2"
      "mc_saddr c1 = pkgAddr i a" "mc_saddr c2 = pkgAddr i 0" "unat (mc_bbt c1) = n" "unat (mc_bbt c2) = unat len - n"
      "carries out1 (take n bs)" "beginsWith out2 (drop n bs)" "clear \<longrightarrow> carries out2 (drop n bs)"
      using pusher_split [OF assms True iffD1 [OF clear_def], of clear] by blast
    have "storeBytes (pkgAddr i 0) (drop n bs) (storeBytes (pkgAddr i a) (take n bs) mem) = sendBuffer i a bs mem"
      by (rule send_split) (use True assms(5,6) len in simp_all)
    moreover have "n < unat len" using True len by (simp add: assms(6))
    ultimately show ?thesis using r(1-12) r(13) [unfolded clear_def] assms(5) carries_beginsWith [OF r(11)]
      by (intro exI [of _ m] exI [of _ k'] exI [of _ "[(c1, take n bs), (c2, drop n bs)]"] exI [of _ "[out1, out2]"]) simp
  qed
qed


section \<open>Witnesses\<close>

definition sampleLoader :: "16 word \<Rightarrow> 16 word \<Rightarrow> 16 word \<Rightarrow> txMetaLoader" where
  "sampleLoader len mempt win = \<lparr>ml_readMeta = True, ml_writeMeta = \<lparr>am_sessionID = 3, am_length = len, am_subSum = 0, am_validSum = False\<rparr>,
     ml_metaIn = [], ml_stateRsp = [ESTABLISHED], ml_sarRsp = [\<lparr>as_sessionID = 3, as_ackd = 0, as_mempt = mempt, as_min_window = win\<rparr>],
     ml_rsp = [], ml_stateReq = [], ml_sarReq = [], ml_pushCmd = [], ml_event = []\<rparr>"


theorem window_overrun_witness:
  "length (ml_pushCmd (tasi_metaLoader (sampleLoader 100 300 200))) = 1"
proof -
  have f: "ml_readMeta (sampleLoader len mempt win)" "ml_stateRsp (sampleLoader len mempt win) = ESTABLISHED # []"
    "ml_sarRsp (sampleLoader len mempt win) = \<lparr>as_sessionID = 3, as_ackd = 0, as_mempt = mempt, as_min_window = win\<rparr> # []"
    for len mempt win by (simp_all add: sampleLoader_def)
  have "length (ml_pushCmd (tasi_metaLoader (sampleLoader 100 300 200))) = length (ml_pushCmd (sampleLoader 100 300 200)) + 1 \<and>
    unat (200 :: 16 word) < unat (300 - 0 :: 16 word) + unat (100 :: 16 word)"
    using window_overrun [OF f(1,3,2), of 100 300 200] by (simp add: sampleLoader_def)
  then show ?thesis by (simp add: sampleLoader_def)
qed

definition samplePusher :: pkgPusher where
  "samplePusher = \<lparr>pu_state = PU_IDLE, pu_cmd = newMmCmd 0 0, pu_remainingLength = 0, pu_lengthFirstPkg = 0, pu_offset = 0,
     pu_prevWord = zeroWord, pu_cmdIn = [newMmCmd (pkgAddr 3 65533) 5], pu_dataIn = [\<lparr>ax_data = 0x0504030201, ax_keep = 0x1F, ax_last = True\<rparr>],
     pu_writeCmd = [], pu_writeData = []\<rparr>"

text \<open>A word of which all lanes are kept, in the place of \<open>emptyWord\<close>: three bytes before the end of the buffer, two behind.\<close>

definition junkWord :: axiWord where
  "junkWord = \<lparr>ax_data = 0xAABBCCDDEEFF1122, ax_keep = 0xFF, ax_last = False\<rparr>"

theorem write_fills_ring_witness:
  "\<exists>m c1 c2 out1 out2. pu_writeData ((tasi_pkg_pusher junkWord ^^ m) samplePusher) = out1 @ out2 \<and>
     pu_writeCmd ((tasi_pkg_pusher junkWord ^^ m) samplePusher) = [mmCmd2axiu c1, mmCmd2axiu c2] \<and>
     mc_saddr c1 = pkgAddr 3 65533 \<and> mc_bbt c1 = 3 \<and> mc_saddr c2 = pkgAddr 3 0 \<and> mc_bbt c2 = 2 \<and>
     carries out1 [1, 2, 3] \<and> beginsWith out2 [4, 5] \<and>
     sendBuffer 3 65533 [1, 2, 3, 4, 5] (\<lambda>_. 0) (pkgAddr 3 1) = 5"
proof -
  have h: "pu_state samplePusher = PU_IDLE"
    "pu_cmdIn samplePusher = newMmCmd (pkgAddr 3 65533) 5 # []" "pu_dataIn samplePusher = pu_dataIn samplePusher @ []"
    "carries (pu_dataIn samplePusher) [1, 2, 3, 4, 5]" "length [1, 2, 3, 4, 5 :: 8 word] = unat (5 :: 16 word)"
    "3 = 65536 - unat (65533 :: 16 word)"
    by (simp add: samplePusher_def, simp add: samplePusher_def, simp, code_simp, simp, simp)
  obtain m k' parts outs where r: "map (\<lambda>(c :: mmCmd, chunk :: 8 word list). (mc_saddr c, chunk)) parts =
      (if (3 :: nat) < unat (5 :: 16 word) then [(pkgAddr 3 65533, take 3 [1, 2, 3, 4, 5]), (pkgAddr 3 0, drop 3 [1, 2, 3, 4, 5])]
       else [(pkgAddr 3 65533, [1, 2, 3, 4, 5])])"
    "pu_writeCmd k' = pu_writeCmd samplePusher @ map (\<lambda>(c, chunk). mmCmd2axiu c) parts"
    "pu_writeData k' = pu_writeData samplePusher @ concat outs"
    "list_all2 (\<lambda>(c, chunk) out. length chunk = unat (mc_bbt c) \<and> beginsWith out chunk) parts outs"
    "carries (hd outs) (snd (hd parts))"
    and k: "(tasi_pkg_pusher junkWord ^^ m) samplePusher = k'"
    using write_fills_ring [OF h, of junkWord "\<lambda>_. 0"] by blast
  from r(1) obtain c1 c2 where p: "parts = [(c1, [1, 2, 3]), (c2, [4, 5])]" "mc_saddr c1 = pkgAddr 3 65533" "mc_saddr c2 = pkgAddr 3 0"
    by (auto simp: map_eq_Cons_conv)
  with r(4) obtain out1 out2 where o: "outs = [out1, out2]" "unat (mc_bbt c1) = 3" "unat (mc_bbt c2) = 2" "beginsWith out2 [4, 5]"
    by (auto simp: list_all2_Cons1)
  have "mc_bbt c1 = 3" "mc_bbt c2 = 2" using o(2,3) by (simp_all add: word_unat_eq_iff)
  moreover have "sendBuffer 3 65533 [1, 2, 3, 4, 5] (\<lambda>_. 0) (pkgAddr 3 1) = 5"
    by (simp add: sendBuffer_def pkgAddr_halves(1) pkgAddr_halves(2) [of 3 1] Let_def)
  ultimately show ?thesis using r(2,3,5) k p o
    by (intro exI [of _ m] exI [of _ c1] exI [of _ c2] exI [of _ out1] exI [of _ out2]) (simp add: samplePusher_def)
qed

end
