(* ===== verification/Toe_Tx_Interface.thy ===== *)
theory Toe_Tx_Interface
  imports Toe_Tx_App
begin

text \<open>
  The transmit side of the application interface as a whole (\<^verbatim>\<open>tx_app_interface.cpp\<close>): the events of
  its two halves are merged, the memory confirms the writes, and a table keeps for each session the write pointer and what the
  peer has acknowledged.  The theorems: the pointer of the application moves once for each write, in order, when the confirmations
  it awaits have come, which are those of its memory commands and one more when it ends exactly at the end of the buffer;
  that one is taken from the next write.
\<close>

section \<open>Events and confirmations\<close>

record txMerger =
  me_appIn :: "toeEvent hls_stream"
  me_streamIn :: "toeEvent hls_stream"
  me_txCache :: "toeEvent hls_stream"
  me_out :: "toeEvent hls_stream"

definition txEventMerger :: "txMerger \<Rightarrow> txMerger" where
  "txEventMerger k =
     (if \<not> s_empty (me_appIn k) then
        k\<lparr>me_appIn := s_rest (me_appIn k), me_out := s_write (me_out k) (s_head (me_appIn k))\<rparr>
      else if \<not> s_empty (me_streamIn k) then
        (let ev = s_head (me_streamIn k) in
         k\<lparr>me_streamIn := s_rest (me_streamIn k), me_out := s_write (me_out k) ev,
           me_txCache := (if ev_type ev = TX then s_write (me_txCache k) ev else me_txCache k)\<rparr>)
      else k)"

record mmStatus =
  mm_tag :: "4 word"
  mm_interr :: bool
  mm_decerr :: bool
  mm_slverr :: bool
  mm_okay :: bool

definition axiu2mmStatus :: "8 word \<Rightarrow> mmStatus" where
  "axiu2mmStatus w = \<lparr>mm_tag = rng 3 0 w, mm_interr = bit w 4, mm_decerr = bit w 5, mm_slverr = bit w 6, mm_okay = bit w 7\<rparr>"

datatype txStatusState = READ_EV | READ_STATUS_1 | READ_STATUS_2

record txStatusHandler =
  ts_state :: txStatusState
  ts_ev :: toeEvent
  ts_writeStatus :: "8 word hls_stream"
  ts_eventCache :: "toeEvent hls_stream"
  ts_push :: "txAppTxSarPush hls_stream"

definition pushPointer :: "toeEvent \<Rightarrow> txAppTxSarPush" where
  "pushPointer ev = \<lparr>tp_sessionID = ev_sessionID ev, tp_app = ev_address ev + ev_length ev\<rparr>"

definition txAppStatusHandler :: "txStatusHandler \<Rightarrow> txStatusHandler" where
  "txAppStatusHandler k =
     (case ts_state k of
        READ_EV \<Rightarrow>
          if \<not> s_empty (ts_eventCache k) then
            (let ev = s_head (ts_eventCache k) in
             k\<lparr>ts_eventCache := s_rest (ts_eventCache k), ts_ev := ev,
               ts_state := (if ev_type ev = TX then READ_STATUS_1 else READ_EV)\<rparr>)
          else k
      | READ_STATUS_1 \<Rightarrow>
          if \<not> s_empty (ts_writeStatus k) then
            (let status = axiu2mmStatus (s_head (ts_writeStatus k));
                 tempLength = ucast (ev_address (ts_ev k)) + ucast (ev_length (ts_ev k)) :: 17 word;
                 k = k\<lparr>ts_writeStatus := s_rest (ts_writeStatus k)\<rparr> in
             if mm_okay status then
               (if bit tempLength 16 then k\<lparr>ts_state := READ_STATUS_2\<rparr>
                else k\<lparr>ts_push := s_write (ts_push k) (pushPointer (ts_ev k)), ts_state := READ_EV\<rparr>)
             else k)
          else k
      | READ_STATUS_2 \<Rightarrow>
          if \<not> s_empty (ts_writeStatus k) then
            (let status = axiu2mmStatus (s_head (ts_writeStatus k)); k = k\<lparr>ts_writeStatus := s_rest (ts_writeStatus k)\<rparr> in
             if mm_okay status then k\<lparr>ts_push := s_write (ts_push k) (pushPointer (ts_ev k)), ts_state := READ_EV\<rparr> else k)
          else k)"

section \<open>Pointers of the sessions\<close>

record txAppTableEntry =
  te_ackd :: "16 word"
  te_mempt :: "16 word"
  te_min_window :: "16 word"

record txAppTable =
  xa_table :: "16 word \<Rightarrow> txAppTableEntry"
  xa_ackPush :: "txSarAckPush hls_stream"
  xa_updReq :: "txAppTxSarQuery hls_stream"
  xa_updRsp :: "txAppTxSarReply hls_stream"

definition tx_app_table :: "txAppTable \<Rightarrow> txAppTable option" where
  "tx_app_table k =
     (if \<not> s_empty (xa_ackPush k) then
        (let q = s_head (xa_ackPush k); i = ak_sessionID q; e = xa_table k i;
             k = k\<lparr>xa_ackPush := s_rest (xa_ackPush k)\<rparr> in
         if \<not> inTable i then None
         else Some (k\<lparr>xa_table := (xa_table k)(i := if ak_init q
                then e\<lparr>te_ackd := ak_ackd q - 1, te_mempt := ak_ackd q, te_min_window := ak_min_window q\<rparr>
                else e\<lparr>te_ackd := ak_ackd q, te_min_window := ak_min_window q\<rparr>)\<rparr>))
      else if \<not> s_empty (xa_updReq k) then
        (let q = s_head (xa_updReq k); i = aq_sessionID q; e = xa_table k i;
             k = k\<lparr>xa_updReq := s_rest (xa_updReq k)\<rparr> in
         if \<not> inTable i then None
         else if aq_write q then Some (k\<lparr>xa_table := (xa_table k)(i := e\<lparr>te_mempt := aq_mempt q\<rparr>)\<rparr>)
         else Some (k\<lparr>xa_updRsp := s_write (xa_updRsp k) \<lparr>as_sessionID = i, as_ackd = te_ackd e, as_mempt = te_mempt e,
                as_min_window = te_min_window e\<rparr>\<rparr>))
      else Some k)"

section \<open>The interface\<close>

text \<open>\<open>duplicate_ap_axiu_stream\<close>: the data goes to the pusher and to the transmit engine.\<close>

definition duplicate_ap_axiu_stream :: "axiWord hls_stream \<times> axiWord hls_stream \<times> axiWord hls_stream \<Rightarrow>
    axiWord hls_stream \<times> axiWord hls_stream \<times> axiWord hls_stream" where
  "duplicate_ap_axiu_stream = (\<lambda>(inp, out0, out1).
     (if \<not> s_empty inp then (s_rest inp, s_write out0 (s_head inp), s_write out1 (s_head inp)) else (inp, out0, out1)))"

record txAppInterface =
  xi_merger :: txMerger
  xi_status :: txStatusHandler
  xi_loader :: txMetaLoader
  xi_dataIn :: "axiWord hls_stream"
  xi_dataStream :: "axiWord hls_stream"
  xi_pusher :: pkgPusher
  xi_appIf :: txAppIf
  xi_table :: txAppTable

text \<open>The modules in the order of the calls; what one writes the later ones see in the same call.\<close>

definition tx_app_stream_if :: "axiWord \<Rightarrow> txAppInterface \<Rightarrow> txAppInterface" where
  "tx_app_stream_if e k =
     (let l = tasi_metaLoader (xi_loader k);
          (dataIn, fifo, dataStream) = duplicate_ap_axiu_stream (xi_dataIn k, pu_dataIn (xi_pusher k), xi_dataStream k);
          p = tasi_pkg_pusher e ((xi_pusher k)\<lparr>pu_cmdIn := pu_cmdIn (xi_pusher k) @ ml_pushCmd l, pu_dataIn := fifo\<rparr>)
      in k\<lparr>xi_loader := l\<lparr>ml_pushCmd := []\<rparr>, xi_dataIn := dataIn, xi_dataStream := dataStream, xi_pusher := p\<rparr>)"

definition tx_app_interface :: "axiWord \<Rightarrow> 32 word \<Rightarrow> txAppInterface \<Rightarrow> txAppInterface option" where
  "tx_app_interface e myIpAddress k =
     (let m = txEventMerger (xi_merger k);
          s = txAppStatusHandler ((xi_status k)\<lparr>ts_eventCache := ts_eventCache (xi_status k) @ me_txCache m\<rparr>);
          k = tx_app_stream_if e (k\<lparr>xi_merger := m\<lparr>me_txCache := []\<rparr>, xi_status := s\<rparr>);
          a = tx_app_if myIpAddress (xi_appIf k);
          m = (xi_merger k)\<lparr>me_streamIn := me_streamIn (xi_merger k) @ ml_event (xi_loader k),
                me_appIn := me_appIn (xi_merger k) @ ti_event a\<rparr>;
          l = xi_loader k;
          k = k\<lparr>xi_merger := m, xi_appIf := a\<lparr>ti_event := []\<rparr>, xi_loader := l\<lparr>ml_event := [], ml_sarReq := []\<rparr>\<rparr>
      in map_option (\<lambda>t. k\<lparr>xi_table := t\<lparr>xa_updRsp := []\<rparr>,
             xi_loader := (xi_loader k)\<lparr>ml_sarRsp := ml_sarRsp (xi_loader k) @ xa_updRsp t\<rparr>\<rparr>)
           (tx_app_table ((xi_table k)\<lparr>xa_updReq := xa_updReq (xi_table k) @ ml_sarReq l\<rparr>)))"

section \<open>Confirmed writes\<close>

lemma carry_bit: "bit (ucast (a :: 16 word) + ucast (b :: 16 word) :: 17 word) 16 \<longleftrightarrow> 65536 \<le> unat a + unat b"
proof -
  have ab: "unat a < 65536" "unat b < 65536"
    using unsigned_less [of a, where ?'a = nat] unsigned_less [of b, where ?'a = nat] by simp_all
  have "unat (ucast a + ucast b :: 17 word) = unat a + unat b"
    using ab by (simp add: unat_word_ariths unsigned_ucast_eq take_bit_nat_eq_self)
  moreover have "bit w 16 = bit (unat w) 16" for w :: "17 word" by (simp add: bit_unsigned_iff)
  ultimately have "bit (ucast a + ucast b :: 17 word) 16 \<longleftrightarrow> odd ((unat a + unat b) div 2 ^ 16)"
    by (simp add: bit_iff_odd [of "unat a + unat b"])
  moreover have "(unat a + unat b) div 65536 = (if 65536 \<le> unat a + unat b then 1 else 0)"
    using ab by (auto simp: div_nat_eqI)
  ultimately show ?thesis by simp
qed


text \<open>The memory commands of a write, as in \<open>write_fills_ring\<close>.\<close>

definition commandsOf :: "toeEvent \<Rightarrow> nat" where
  "commandsOf ev = (if 65536 < unat (ev_address ev) + unat (ev_length ev) then 2 else 1)"

text \<open>What the handler waits for: the confirmations of the commands, and one more when the write ends exactly at the end of the
  buffer.\<close>

definition awaited :: "toeEvent \<Rightarrow> nat" where
  "awaited ev = commandsOf ev + (if unat (ev_address ev) + unat (ev_length ev) = 65536 then 1 else 0)"

text \<open>The writes that are confirmed by the first \<open>n\<close> good statuses, in the order of the writes.\<close>

fun confirmed :: "nat \<Rightarrow> toeEvent list \<Rightarrow> toeEvent list" where
  "confirmed n [] = []"
| "confirmed n (ev # evs) = (if awaited ev \<le> n then ev # confirmed (n - awaited ev) evs else [])"

text \<open>The handler from reset on: events and statuses arrive and the handler is called, in any order.\<close>

inductive statusRun :: "toeEvent list \<Rightarrow> 8 word list \<Rightarrow> txStatusHandler \<Rightarrow> bool" where
  status_start: "ts_state k = READ_EV \<Longrightarrow> ts_eventCache k = [] \<Longrightarrow> ts_writeStatus k = [] \<Longrightarrow> ts_push k = [] \<Longrightarrow> statusRun [] [] k"
| status_event: "statusRun evs sts k \<Longrightarrow> statusRun (evs @ [ev]) sts (k\<lparr>ts_eventCache := ts_eventCache k @ [ev]\<rparr>)"
| status_arrives: "statusRun evs sts k \<Longrightarrow> statusRun evs (sts @ [w]) (k\<lparr>ts_writeStatus := ts_writeStatus k @ [w]\<rparr>)"
| status_call: "statusRun evs sts k \<Longrightarrow> statusRun evs sts (txAppStatusHandler k)"

abbreviation okayStatuses :: "8 word list \<Rightarrow> nat" where
  "okayStatuses sts \<equiv> length (filter (\<lambda>w. mm_okay (axiu2mmStatus w)) sts)"

abbreviation txWrites :: "toeEvent list \<Rightarrow> toeEvent list" where
  "txWrites evs \<equiv> filter (\<lambda>ev. ev_type ev = TX) evs"

text \<open>The pushed writes, the one the handler works at and those still to come are all of them, and the statuses
  taken are those of the pushed ones, and one in \<open>READ_STATUS_2\<close>.\<close>

definition statusAccount :: "toeEvent list \<Rightarrow> 8 word list \<Rightarrow> toeEvent list \<Rightarrow> txStatusHandler \<Rightarrow> bool" where
  "statusAccount evs sts ds k \<longleftrightarrow> ts_push k = map pushPointer ds \<and>
     txWrites evs = ds @ (if ts_state k = READ_EV then [] else [ts_ev k]) @ txWrites (ts_eventCache k) \<and>
     okayStatuses sts = sum_list (map awaited ds) + (if ts_state k = READ_STATUS_2 then 1 else 0) + okayStatuses (ts_writeStatus k) \<and>
     (ts_state k = READ_STATUS_2 \<longrightarrow> awaited (ts_ev k) = 2)"

lemma awaited_carry: "awaited ev = (if bit (ucast (ev_address ev) + ucast (ev_length ev) :: 17 word) 16 then 2 else 1)"
  by (simp add: awaited_def commandsOf_def carry_bit)

lemma account_call:
  assumes "statusAccount evs sts ds k"
  shows "\<exists>ds'. statusAccount evs sts ds' (txAppStatusHandler k)"
proof (cases "ts_state k")
  case READ_EV
  then have "statusAccount evs sts ds (txAppStatusHandler k)"
    using assms by (cases "ts_eventCache k") (auto simp: statusAccount_def txAppStatusHandler_def Let_def)
  then show ?thesis by blast
next
  case READ_STATUS_1
  then have "statusAccount evs sts ds (txAppStatusHandler k) \<or> statusAccount evs sts (ds @ [ts_ev k]) (txAppStatusHandler k)"
    using assms by (cases "ts_writeStatus k") (auto simp: statusAccount_def txAppStatusHandler_def s_write_def awaited_carry Let_def)
  then show ?thesis by blast
next
  case READ_STATUS_2
  then have "statusAccount evs sts ds (txAppStatusHandler k) \<or> statusAccount evs sts (ds @ [ts_ev k]) (txAppStatusHandler k)"
    using assms by (cases "ts_writeStatus k") (auto simp: statusAccount_def txAppStatusHandler_def s_write_def Let_def)
  then show ?thesis by blast
qed

lemma account_run: "statusRun evs sts k \<Longrightarrow> \<exists>ds. statusAccount evs sts ds k"
proof (induction rule: statusRun.induct)
  case (status_start k)
  then show ?case by (intro exI [of _ "[]"]) (simp add: statusAccount_def)
next
  case (status_call evs sts k)
  then show ?case using account_call by blast
qed (auto simp: statusAccount_def)

lemma confirmed_append: "confirmed (sum_list (map awaited ds) + n) (ds @ evs) = ds @ confirmed n evs"
  by (induction ds) (simp_all add: add.assoc)

lemma account_confirmed:
  assumes "statusAccount evs sts ds k"
  shows "confirmed (okayStatuses sts) (txWrites evs) = ds @ confirmed ((if ts_state k = READ_STATUS_2 then 1 else 0) + okayStatuses (ts_writeStatus k))
    ((if ts_state k = READ_EV then [] else [ts_ev k]) @ txWrites (ts_eventCache k))"
proof -
  let ?n = "(if ts_state k = READ_STATUS_2 then 1 else 0) + okayStatuses (ts_writeStatus k)"
  have n: "okayStatuses sts = sum_list (map awaited ds) + ?n" using assms unfolding statusAccount_def by (simp only: add.assoc)
  have w: "txWrites evs = ds @ (if ts_state k = READ_EV then [] else [ts_ev k]) @ txWrites (ts_eventCache k)"
    using assms unfolding statusAccount_def by blast
  show ?thesis unfolding n w confirmed_append ..
qed

text \<open>The handler runs until it has nothing to read; then nothing more is confirmed.\<close>

definition statusWaiting :: "txStatusHandler \<Rightarrow> bool" where
  "statusWaiting k \<longleftrightarrow> (if ts_state k = READ_EV then ts_eventCache k = [] else ts_writeStatus k = [])"

lemma status_progress: "\<not> statusWaiting k \<Longrightarrow> length (ts_eventCache (txAppStatusHandler k)) + length (ts_writeStatus (txAppStatusHandler k)) <
    length (ts_eventCache k) + length (ts_writeStatus k)"
  by (cases "ts_state k"; cases "ts_eventCache k"; cases "ts_writeStatus k")
    (auto simp: statusWaiting_def txAppStatusHandler_def Let_def)

lemma status_waits: "\<exists>m. statusWaiting ((txAppStatusHandler ^^ m) k)"
proof (induction "length (ts_eventCache k) + length (ts_writeStatus k)" arbitrary: k rule: less_induct)
  case less
  show ?case
  proof (cases "statusWaiting k")
    case True
    then show ?thesis by (intro exI [of _ 0]) simp
  next
    case False
    from less [OF status_progress [OF False]] obtain m where "statusWaiting ((txAppStatusHandler ^^ m) (txAppStatusHandler k))" by blast
    then show ?thesis by (intro exI [of _ "Suc m"]) (simp add: funpow_Suc_apply del: funpow.simps(2))
  qed
qed

lemma waiting_confirmed:
  assumes "statusAccount evs sts ds k" and "statusWaiting k"
  shows "confirmed (okayStatuses sts) (txWrites evs) = ds"
proof -
  have "0 < awaited ev" for ev by (simp add: awaited_carry)
  then show ?thesis
    using assms unfolding account_confirmed [OF assms(1)] by (cases "ts_state k") (auto simp: statusWaiting_def statusAccount_def)
qed

text \<open>C34: However events, statuses and calls interleave, the pointers pushed are at every moment the first ones of the
  confirmed writes, in order and each once, at the end of the write modulo the buffer, and the calls that follow push the
  rest of them.  A write is confirmed when, beyond those of the writes before it, as many good statuses have come as it awaits:
  one for each of its memory commands, and one more when it ends exactly at the end of the buffer.  Other statuses and events
  that are no write are taken and do not count.\<close>

theorem writes_confirmed:
  assumes "statusRun evs sts k"
    and "pointers = map (\<lambda>ev. \<lparr>tp_sessionID = ev_sessionID ev, tp_app = ev_address ev + ev_length ev\<rparr>)
      (confirmed (length (filter (\<lambda>w. mm_okay (axiu2mmStatus w)) sts)) (filter (\<lambda>ev. ev_type ev = TX) evs))"
  shows "(\<exists>n. ts_push k = take n pointers) \<and> (\<exists>m. ts_push ((txAppStatusHandler ^^ m) k) = pointers)"
proof
  have ptr: "map (\<lambda>ev. \<lparr>tp_sessionID = ev_sessionID ev, tp_app = ev_address ev + ev_length ev\<rparr>) = map pushPointer"
    by (simp add: pushPointer_def fun_eq_iff)
  obtain ds where "statusAccount evs sts ds k" using account_run [OF assms(1)] by blast
  then show "\<exists>n. ts_push k = take n pointers"
    using account_confirmed [of evs sts ds k] unfolding assms(2) ptr
    by (intro exI [of _ "length ds"]) (simp add: statusAccount_def)
  obtain m where m: "statusWaiting ((txAppStatusHandler ^^ m) k)" using status_waits by blast
  have "statusRun evs sts ((txAppStatusHandler ^^ m) k)" by (induction m) (simp_all add: assms(1) status_call)
  from account_run [OF this] obtain ds' where "statusAccount evs sts ds' ((txAppStatusHandler ^^ m) k)" by blast
  with waiting_confirmed [OF this m] show "\<exists>m. ts_push ((txAppStatusHandler ^^ m) k) = pointers"
    unfolding assms(2) ptr by (intro exI [of _ m]) (simp add: statusAccount_def)
qed

text \<open>A write that ends exactly at the end of the buffer takes one memory command, but its handler waits for two
  confirmations: it takes that of the next write for its own, and the pointer is never moved for the next write although the
  memory has confirmed it.\<close>

theorem confirmation_stolen:
  assumes "ts_state k = READ_EV" and "ts_eventCache k = [ev, ev']" and "ev_type ev = TX" and "ev_type ev' = TX"
    and "unat (ev_address ev) + unat (ev_length ev) = 65536" and "unat (ev_address ev') + unat (ev_length ev') < 65536"
    and "ts_writeStatus k = [s, s']" and "mm_okay (axiu2mmStatus s)" and "mm_okay (axiu2mmStatus s')"
  shows "length (ts_writeStatus k) = commandsOf ev + commandsOf ev' \<and>
    (\<exists>n k'. (txAppStatusHandler ^^ n) k = k' \<and> txAppStatusHandler k' = k' \<and> ts_push k' = ts_push k @ [pushPointer ev])"
proof -
  have c: "bit (ucast (ev_address ev) + ucast (ev_length ev) :: 17 word) 16" using assms(5) by (simp add: carry_bit)
  let ?k1 = "k\<lparr>ts_eventCache := [ev'], ts_ev := ev, ts_state := READ_STATUS_1\<rparr>"
  let ?k2 = "?k1\<lparr>ts_writeStatus := [s'], ts_state := READ_STATUS_2\<rparr>"
  let ?k3 = "?k2\<lparr>ts_writeStatus := [], ts_push := ts_push k @ [pushPointer ev], ts_state := READ_EV\<rparr>"
  let ?k4 = "?k3\<lparr>ts_eventCache := [], ts_ev := ev', ts_state := READ_STATUS_1\<rparr>"
  have "txAppStatusHandler k = ?k1" using assms(1-3) by (simp add: txAppStatusHandler_def Let_def)
  moreover have "txAppStatusHandler ?k1 = ?k2" using assms(7,8) c by (simp add: txAppStatusHandler_def Let_def)
  moreover have "txAppStatusHandler ?k2 = ?k3" using assms(9) by (simp add: txAppStatusHandler_def s_write_def Let_def)
  moreover have "txAppStatusHandler ?k3 = ?k4" using assms(4) by (simp add: txAppStatusHandler_def Let_def)
  moreover have "txAppStatusHandler ?k4 = ?k4" by (simp add: txAppStatusHandler_def)
  ultimately have "(txAppStatusHandler ^^ 4) k = ?k4" "txAppStatusHandler ?k4 = ?k4" by (simp_all add: numeral_eq_Suc)
  moreover have "ts_push ?k4 = ts_push k @ [pushPointer ev]" by simp
  ultimately show ?thesis using assms(5-7) unfolding commandsOf_def by (intro conjI exI [of _ 4] exI [of _ ?k4]) simp_all
qed


section \<open>Witnesses\<close>

definition sampleWrite :: "16 word \<Rightarrow> 16 word \<Rightarrow> toeEvent" where
  "sampleWrite a len = (plainEvent TX 3 0)\<lparr>ev_address := a, ev_length := len\<rparr>"

definition sampleStatus :: "toeEvent list \<Rightarrow> nat \<Rightarrow> txStatusHandler" where
  "sampleStatus evs n = \<lparr>ts_state = READ_EV, ts_ev = plainEvent TX 0 0, ts_writeStatus = replicate n 0x80, ts_eventCache = evs, ts_push = []\<rparr>"

lemma sample_okay: "mm_okay (axiu2mmStatus 0x80)"
  by code_simp

lemma statusRun_events: "statusRun es ss k \<Longrightarrow> statusRun (es @ evs) ss (k\<lparr>ts_eventCache := ts_eventCache k @ evs\<rparr>)"
proof (induction evs rule: rev_induct)
  case (snoc ev evs)
  from status_event [OF snoc.IH [OF snoc.prems], of ev] show ?case by simp
qed simp

lemma statusRun_statuses: "statusRun es ss k \<Longrightarrow> statusRun es (ss @ sts) (k\<lparr>ts_writeStatus := ts_writeStatus k @ sts\<rparr>)"
proof (induction sts rule: rev_induct)
  case (snoc w sts)
  from status_arrives [OF snoc.IH [OF snoc.prems], of w] show ?case by simp
qed simp

text \<open>A write that ends exactly at the end of the buffer, one that wraps and one that does neither, with a failed status among four
  good ones: the third write is not confirmed yet.\<close>

theorem writes_confirmed_witness:
  "\<exists>n. map tp_app (ts_push ((txAppStatusHandler ^^ n)
     ((sampleStatus [sampleWrite 65526 10, sampleWrite 65530 16, sampleWrite 10 20] 0)\<lparr>ts_writeStatus := [0x80, 0, 0x80, 0x80, 0x80]\<rparr>))) = [0, 10]"
proof -
  let ?evs = "[sampleWrite 65526 10, sampleWrite 65530 16, sampleWrite 10 20]" and ?sts = "[0x80, 0, 0x80, 0x80, 0x80] :: 8 word list"
  have "statusRun [] [] (sampleStatus [] 0)" by (rule status_start) (simp_all add: sampleStatus_def)
  from statusRun_statuses [OF statusRun_events [OF this, of ?evs], of ?sts]
  have run: "statusRun ?evs ?sts ((sampleStatus ?evs 0)\<lparr>ts_writeStatus := ?sts\<rparr>)" by (simp add: sampleStatus_def)
  have "\<not> mm_okay (axiu2mmStatus 0)" by code_simp
  then have "length (filter (\<lambda>w. mm_okay (axiu2mmStatus w)) ?sts) = 4" "filter (\<lambda>ev. ev_type ev = TX) ?evs = ?evs"
    by (simp_all add: sample_okay sampleWrite_def plainEvent_def)
  moreover have "confirmed 4 ?evs = [sampleWrite 65526 10, sampleWrite 65530 16]"
    by (simp add: awaited_def commandsOf_def sampleWrite_def)
  ultimately obtain n where "ts_push ((txAppStatusHandler ^^ n) ((sampleStatus ?evs 0)\<lparr>ts_writeStatus := ?sts\<rparr>)) =
      map (\<lambda>ev. \<lparr>tp_sessionID = ev_sessionID ev, tp_app = ev_address ev + ev_length ev\<rparr>) [sampleWrite 65526 10, sampleWrite 65530 16]"
    using writes_confirmed [OF run refl] by auto
  then show ?thesis by (intro exI [of _ n]) (simp add: sampleWrite_def)
qed

theorem confirmation_stolen_witness:
  "\<exists>n k'. (txAppStatusHandler ^^ n) (sampleStatus [sampleWrite 65526 10, sampleWrite 0 10] 2) = k' \<and>
     txAppStatusHandler k' = k' \<and> length (ts_push k') = 1"
proof -
  have "length (ts_writeStatus (sampleStatus [sampleWrite 65526 10, sampleWrite 0 10] 2)) =
      commandsOf (sampleWrite 65526 10) + commandsOf (sampleWrite 0 10) \<and>
    (\<exists>n k'. (txAppStatusHandler ^^ n) (sampleStatus [sampleWrite 65526 10, sampleWrite 0 10] 2) = k' \<and> txAppStatusHandler k' = k' \<and>
      ts_push k' = ts_push (sampleStatus [sampleWrite 65526 10, sampleWrite 0 10] 2) @ [pushPointer (sampleWrite 65526 10)])"
  proof (rule confirmation_stolen)
    have "replicate 2 0x80 = [0x80, 0x80 :: 8 word]" by (simp add: numeral_2_eq_2)
    then show "ts_writeStatus (sampleStatus [sampleWrite 65526 10, sampleWrite 0 10] 2) = [0x80, 0x80]" by (simp add: sampleStatus_def)
  qed (simp_all add: sampleStatus_def sampleWrite_def plainEvent_def sample_okay)
  then show ?thesis by (auto simp: sampleStatus_def)
qed

end
