(* ===== verification/Toe_Tx_Meta.thy ===== *)
theory Toe_Tx_Meta
  imports Toe_Tx_App Toe_Events Toe_Retransmit
begin

text \<open>
  The front of the transmit engine (\<^verbatim>\<open>toe/tx_engine/tx_engine.cpp\<close>): \<^verbatim>\<open>metaLoader\<close> takes an
  event, loads the two window entries of its session and decides which segments it stands for, with their sequence
  numbers, the memory reads, the timers and the new position; \<^verbatim>\<open>tupleSplitter\<close> adds addresses and ports;
  \<^verbatim>\<open>statCounters\<close> counts.  The configuration is the one built: \<^verbatim>\<open>TCP_NODELAY\<close> without window
  scaling.

  Every branch sets all fields of the static \<^verbatim>\<open>meta\<close> before it sends it, and \<^verbatim>\<open>currLength\<close>
  before it reads it; they are local here.
\<close>

section \<open>Segments of an event\<close>

record tx_engine_meta =
  te_seqNumb :: "32 word"
  te_ackNumb :: "32 word"
  te_window_size :: "16 word"
  te_length :: "16 word"
  te_ack :: bool
  te_rst :: bool
  te_syn :: bool
  te_fin :: bool

text \<open>The constructor with sequence numbers and flags.\<close>

definition flagMeta :: "32 word \<Rightarrow> 32 word \<Rightarrow> bool \<Rightarrow> bool \<Rightarrow> bool \<Rightarrow> bool \<Rightarrow> tx_engine_meta" where
  "flagMeta seqNumb ackNumb ack rst syn fin =
     \<lparr>te_seqNumb = seqNumb, te_ackNumb = ackNumb, te_window_size = 0, te_length = 0, te_ack = ack, te_rst = rst,
      te_syn = syn, te_fin = fin\<rparr>"

text \<open>Requests to the window table.\<close>

definition readQuery :: "16 word \<Rightarrow> txTxSarQuery" where
  "readQuery i = \<lparr>tq_sessionID = i, tq_not_ackd = 0, tq_write = False, tq_init = False, tq_synSent = False,
     tq_finReady = False, tq_finSent = False, tq_isRtQuery = False\<rparr>"

definition writeQuery :: "16 word \<Rightarrow> 32 word \<Rightarrow> txTxSarQuery" where
  "writeQuery i not_ackd = (readQuery i)\<lparr>tq_not_ackd := not_ackd, tq_write := True\<rparr>"

definition synQuery :: "16 word \<Rightarrow> 32 word \<Rightarrow> bool \<Rightarrow> txTxSarQuery" where
  "synQuery i not_ackd synSent = (writeQuery i not_ackd)\<lparr>tq_init := True, tq_synSent := synSent\<rparr>"

definition finQuery :: "16 word \<Rightarrow> 32 word \<Rightarrow> txTxSarQuery" where
  "finQuery i not_ackd = (writeQuery i not_ackd)\<lparr>tq_finReady := True, tq_finSent := True\<rparr>"

definition txTxSarRtQuery :: "16 word \<Rightarrow> 16 word \<Rightarrow> txTxSarQuery" where
  "txTxSarRtQuery i ssthresh = (writeQuery i (ucast ssthresh))\<lparr>tq_isRtQuery := True\<rparr>"

text \<open>A reset event carries a number in its address and length and a flag in its count.\<close>

definition hasSessionID :: "extendedEvent \<Rightarrow> bool" where
  "hasSessionID e \<longleftrightarrow> ev_rt_count e \<noteq> 0"

definition resetNumb :: "extendedEvent \<Rightarrow> 32 word" where
  "resetNumb e = upd 15 0 (ev_length e) (upd 31 16 (ev_address e) 0)"

record metaEngine =
  mt_active :: bool
  mt_sarLoaded :: bool
  mt_curEvent :: extendedEvent
  mt_randomValue :: "32 word"
  mt_segmentCount :: "2 word"
  mt_rxSar :: rxSarReply
  mt_txSarReg :: txTxSarReply
  mt_eventIn :: "extendedEvent hls_stream"
  mt_rxSarRsp :: "rxSarReply hls_stream"
  mt_txSarRsp :: "txTxSarReply hls_stream"
  mt_rxSarReq :: "16 word hls_stream"
  mt_txSarReq :: "txTxSarQuery hls_stream"
  mt_setRetransmit :: "txRetransmitTimerSet hls_stream"
  mt_setProbe :: "16 word hls_stream"
  mt_ipMeta :: "16 word hls_stream"
  mt_tcpMeta :: "tx_engine_meta hls_stream"
  mt_readCmd :: "mmCmd hls_stream"
  mt_revReq :: "16 word hls_stream"
  mt_isLookUp :: "bool hls_stream"
  mt_isDDRbypass :: "bool hls_stream"
  mt_shortCut :: "fourTuple hls_stream"
  mt_readCount :: "1 word hls_stream"
  mt_subSum :: "16 word hls_stream"
  mt_validSum :: "bool hls_stream"
  mt_outSegs :: "1 word hls_stream"
  mt_retransSegs :: "1 word hls_stream"

text \<open>A segment of the session: its length, its header data and the lookup of its addresses.\<close>

definition sendMeta :: "16 word \<Rightarrow> tx_engine_meta \<Rightarrow> metaEngine \<Rightarrow> metaEngine" where
  "sendMeta i m k = k\<lparr>mt_ipMeta := s_write (mt_ipMeta k) (te_length m), mt_tcpMeta := s_write (mt_tcpMeta k) m,
     mt_isLookUp := s_write (mt_isLookUp k) True, mt_revReq := s_write (mt_revReq k) i\<rparr>"

definition setRetransmit :: "16 word \<Rightarrow> eventType \<Rightarrow> metaEngine \<Rightarrow> metaEngine" where
  "setRetransmit i t k = k\<lparr>mt_setRetransmit := s_write (mt_setRetransmit k) \<lparr>rs_sessionID = i, rs_type = t\<rparr>\<rparr>"

definition sarQuery :: "txTxSarQuery \<Rightarrow> metaEngine \<Rightarrow> metaEngine" where
  "sarQuery q k = k\<lparr>mt_txSarReq := s_write (mt_txSarReq k) q\<rparr>"

text \<open>State 0: the event is taken, its checksum passed on and the entries of its session asked for.\<close>

definition metaEvent :: "metaEngine \<Rightarrow> metaEngine" where
  "metaEvent k =
     (if \<not> s_empty (mt_eventIn k) then
        (let e = s_head (mt_eventIn k); i = ev_sessionID e;
             k = k\<lparr>mt_eventIn := s_rest (mt_eventIn k), mt_curEvent := e, mt_readCount := s_write (mt_readCount k) 1,
               mt_sarLoaded := False, mt_subSum := s_write (mt_subSum k) (ev_subSum e),
               mt_validSum := s_write (mt_validSum k) (ev_validSum e), mt_active := True,
               mt_randomValue := mt_randomValue k + 1, mt_segmentCount := 0\<rparr> in
         (if ev_type e = RT \<or> ev_type e = TX \<or> ev_type e = SYN_ACK \<or> ev_type e = FIN \<or> ev_type e = ACK_NODELAY \<or>
             ev_type e = ACK then sarQuery (readQuery i) (k\<lparr>mt_rxSarReq := s_write (mt_rxSarReq k) i\<rparr>)
          else if (ev_type e = RST_ACK \<or> ev_type e = RST) \<and> hasSessionID e then sarQuery (readQuery i) k
          else if ev_type e = SYN \<and> ev_rt_count e \<noteq> 0 then sarQuery (readQuery i) k
          else k))
      else k\<lparr>mt_segmentCount := 0\<rparr>)"

text \<open>Both entries are there; \<open>takeSars\<close> takes them.\<close>

definition sarsReady :: "metaEngine \<Rightarrow> bool" where
  "sarsReady k \<longleftrightarrow> \<not> s_empty (mt_rxSarRsp k) \<and> \<not> s_empty (mt_txSarRsp k)"

definition takeSars :: "metaEngine \<Rightarrow> metaEngine" where
  "takeSars k = k\<lparr>mt_rxSar := s_head (mt_rxSarRsp k), mt_rxSarRsp := s_rest (mt_rxSarRsp k), mt_txSarRsp := s_rest (mt_txSarRsp k)\<rparr>"

definition sessionMeta :: "metaEngine \<Rightarrow> 32 word \<Rightarrow> 16 word \<Rightarrow> tx_engine_meta" where
  "sessionMeta k seqNumb len = \<lparr>te_seqNumb = seqNumb, te_ackNumb = rr_recvd (mt_rxSar k),
     te_window_size = rr_windowSize (mt_rxSar k), te_length = len, te_ack = True, te_rst = False, te_syn = False, te_fin = False\<rparr>"

definition metaTX :: "metaEngine \<Rightarrow> metaEngine" where
  "metaTX k =
     (if sarsReady k then
        (let e = mt_curEvent k; i = ev_sessionID e; txSar = s_head (mt_txSarRsp k); k = takeSars k;
             meta = sessionMeta k (tr_not_ackd txSar) (ev_length e);
             k = (if 0x7FFF < ev_length e then k\<lparr>mt_setProbe := s_write (mt_setProbe k) i\<rparr> else k);
             k = (sarQuery (writeQuery i (tr_not_ackd txSar + ucast (ev_length e))) k)\<lparr>mt_active := False\<rparr> in
         if te_length meta \<noteq> 0 then
           (setRetransmit i RT (sendMeta i meta k))
             \<lparr>mt_isDDRbypass := s_write (mt_isDDRbypass k) True, mt_outSegs := s_write (mt_outSegs k) 1\<rparr>
         else k)
      else k)"

definition slowStart :: "16 word \<Rightarrow> 16 word" where
  "slowStart currLength = (if unat currLength > 4 * MSS then currLength div 2 else of_nat (2 * MSS))"

text \<open>The first call with both entries there loads them, and after a first timeout changes the windows.\<close>

definition rtLoad :: "metaEngine \<Rightarrow> metaEngine" where
  "rtLoad k =
     (if mt_sarLoaded k then k
      else
        (let e = mt_curEvent k; txSar = s_head (mt_txSarRsp k); k = takeSars k;
             k = (if ev_rt_count e = 1 then sarQuery (txTxSarRtQuery (ev_sessionID e) (slowStart (tr_usedLength txSar))) k else k)
         in k\<lparr>mt_sarLoaded := True, mt_txSarReg := txSar\<rparr>))"

definition rtSend :: "metaEngine \<Rightarrow> metaEngine" where
  "rtSend k =
     (let i = ev_sessionID (mt_curEvent k); txSar = mt_txSarReg k; currLength = tr_usedLength txSar;
          addr = pkgAddr i (rng 15 0 (tr_ackd txSar));
          meta = sessionMeta k (tr_ackd txSar) (if unat currLength > MSS then of_nat MSS else currLength);
          k = (if unat currLength > MSS
               then k\<lparr>mt_txSarReg := txSar\<lparr>tr_ackd := tr_ackd txSar + of_nat MSS, tr_usedLength := tr_usedLength txSar - of_nat MSS\<rparr>,
                      mt_active := mt_segmentCount k \<noteq> 3, mt_segmentCount := mt_segmentCount k + 1\<rparr>
               else if tr_finSent txSar then k\<lparr>mt_curEvent := (mt_curEvent k)\<lparr>ev_type := FIN\<rparr>\<rparr>
               else k\<lparr>mt_active := False\<rparr>) in
      if te_length meta \<noteq> 0 then
        (let k = k\<lparr>mt_readCmd := s_write (mt_readCmd k) (newMmCmd addr (te_length meta))\<rparr> in
         (setRetransmit i RT (sendMeta i meta k))
           \<lparr>mt_isDDRbypass := s_write (mt_isDDRbypass k) False, mt_retransSegs := s_write (mt_retransSegs k) 1\<rparr>)
      else k)"

definition metaRT :: "metaEngine \<Rightarrow> metaEngine" where
  "metaRT k = (if sarsReady k \<or> mt_sarLoaded k then rtSend (rtLoad k) else k)"

definition metaACK :: "metaEngine \<Rightarrow> metaEngine" where
  "metaACK k =
     (if sarsReady k then
        (let i = ev_sessionID (mt_curEvent k); txSar = s_head (mt_txSarRsp k); k = takeSars k in
         (sendMeta i (sessionMeta k (tr_not_ackd txSar) 0) k)\<lparr>mt_active := False\<rparr>)
      else k)"

text \<open>The next initial sequence number.\<close>

definition nextRandom :: "32 word \<Rightarrow> 32 word" where
  "nextRandom r = (r * 8) XOR r"

definition metaSYN :: "metaEngine \<Rightarrow> metaEngine" where
  "metaSYN k =
     (let e = mt_curEvent k; i = ev_sessionID e; again = ev_rt_count e \<noteq> 0 in
      if \<not> again \<or> \<not> s_empty (mt_txSarRsp k) then
        (let (seqNumb, k) =
               (if again then (tr_ackd (s_head (mt_txSarRsp k)), k\<lparr>mt_txSarRsp := s_rest (mt_txSarRsp k)\<rparr>)
                else (mt_randomValue k,
                      sarQuery (synQuery i (mt_randomValue k + 1) True) (k\<lparr>mt_randomValue := nextRandom (mt_randomValue k)\<rparr>)));
             meta = (flagMeta seqNumb 0 False False True False)\<lparr>te_window_size := 0xFFFF, te_length := 4\<rparr> in
         (setRetransmit i SYN (sendMeta i meta k))\<lparr>mt_active := False\<rparr>)
      else k)"

definition metaSYNACK :: "metaEngine \<Rightarrow> metaEngine" where
  "metaSYNACK k =
     (if sarsReady k then
        (let e = mt_curEvent k; i = ev_sessionID e; txSar = s_head (mt_txSarRsp k); k = takeSars k;
             (seqNumb, k) =
               (if ev_rt_count e \<noteq> 0 then (tr_ackd txSar, k)
                else
                  (let (s, k) = (if \<not> tr_synSent txSar
                         then (mt_randomValue k, k\<lparr>mt_randomValue := nextRandom (mt_randomValue k)\<rparr>) else (tr_not_ackd txSar, k))
                   in (s, sarQuery (synQuery i (s + 1) False) k)));
             meta = (flagMeta seqNumb (rr_recvd (mt_rxSar k)) True False True False)\<lparr>te_window_size := 0xFFFF, te_length := 4\<rparr> in
         (setRetransmit i SYN_ACK (sendMeta i meta k))\<lparr>mt_active := False\<rparr>)
      else k)"

definition metaFIN :: "metaEngine \<Rightarrow> metaEngine" where
  "metaFIN k =
     (if sarsReady k \<or> mt_sarLoaded k then
        (let e = mt_curEvent k; i = ev_sessionID e; loaded = mt_sarLoaded k;
             txSar = (if loaded then mt_txSarReg k else s_head (mt_txSarRsp k));
             k = (if loaded then k else takeSars k);
             again = ev_rt_count e \<noteq> 0; seqNumb = (if again then tr_not_ackd txSar - 1 else tr_not_ackd txSar);
             k = (if again then k else sarQuery (finQuery i (tr_not_ackd txSar + 1)) k) in
         (setRetransmit i RT (sendMeta i ((sessionMeta k seqNumb 0)\<lparr>te_fin := True\<rparr>) k))\<lparr>mt_active := False\<rparr>)
      else k)"

text \<open>A reset without session goes to the addresses it came with; when the event has none, \<open>junk\<close> stands for the
  variable nobody set.\<close>

definition metaReset :: "fourTuple \<Rightarrow> (32 word \<Rightarrow> tx_engine_meta) \<Rightarrow> metaEngine \<Rightarrow> metaEngine" where
  "metaReset junk metaOf k =
     (let e = mt_curEvent k in
      if \<not> hasSessionID e then
        k\<lparr>mt_ipMeta := s_write (mt_ipMeta k) 0, mt_tcpMeta := s_write (mt_tcpMeta k) (metaOf 0),
          mt_isLookUp := s_write (mt_isLookUp k) False,
          mt_shortCut := s_write (mt_shortCut k) (case ev_tuple e of Some t \<Rightarrow> t | None \<Rightarrow> junk), mt_active := False\<rparr>
      else if \<not> s_empty (mt_txSarRsp k) then
        (let txSar = s_head (mt_txSarRsp k); k = k\<lparr>mt_txSarRsp := s_rest (mt_txSarRsp k)\<rparr> in
         (sendMeta (ev_sessionID e) (metaOf (tr_not_ackd txSar)) k)\<lparr>mt_active := False\<rparr>)
      else k)"

definition metaLoader :: "fourTuple \<Rightarrow> metaEngine \<Rightarrow> metaEngine" where
  "metaLoader junk k =
     (if \<not> mt_active k then metaEvent k
      else
        (case ev_type (mt_curEvent k) of
           TX \<Rightarrow> metaTX k
         | RT \<Rightarrow> metaRT k
         | ACK \<Rightarrow> metaACK k
         | ACK_NODELAY \<Rightarrow> metaACK k
         | SYN \<Rightarrow> metaSYN k
         | SYN_ACK \<Rightarrow> metaSYNACK k
         | FIN \<Rightarrow> metaFIN k
         | RST_ACK \<Rightarrow> metaReset junk (\<lambda>seqNumb. flagMeta seqNumb (resetNumb (mt_curEvent k)) True True False False) k
         | RST \<Rightarrow> metaReset junk (\<lambda>_. flagMeta (resetNumb (mt_curEvent k)) 0 False True False False) k))"

section \<open>Addresses and counters\<close>

record twoTuple =
  tt_srcIp :: "32 word"
  tt_dstIp :: "32 word"

record tupleSplit =
  sp_getMeta :: bool
  sp_isLookUp :: bool
  sp_revRsp :: "fourTuple hls_stream"
  sp_shortCut :: "fourTuple hls_stream"
  sp_lookUpIn :: "bool hls_stream"
  sp_ipTuple :: "twoTuple hls_stream"
  sp_tcpTuple :: "fourTuple hls_stream"

definition splitTuple :: "fourTuple \<Rightarrow> tupleSplit \<Rightarrow> tupleSplit" where
  "splitTuple t k = k\<lparr>sp_ipTuple := s_write (sp_ipTuple k) \<lparr>tt_srcIp = ft_srcIp t, tt_dstIp = ft_dstIp t\<rparr>,
     sp_tcpTuple := s_write (sp_tcpTuple k) t, sp_getMeta := True\<rparr>"

definition tupleSplitter :: "tupleSplit \<Rightarrow> tupleSplit" where
  "tupleSplitter k =
     (if sp_getMeta k then
        (if \<not> s_empty (sp_lookUpIn k) then
           k\<lparr>sp_isLookUp := s_head (sp_lookUpIn k), sp_lookUpIn := s_rest (sp_lookUpIn k), sp_getMeta := False\<rparr>
         else k)
      else if \<not> s_empty (sp_revRsp k) \<and> sp_isLookUp k then
        splitTuple (s_head (sp_revRsp k)) (k\<lparr>sp_revRsp := s_rest (sp_revRsp k)\<rparr>)
      else if \<not> s_empty (sp_shortCut k) \<and> \<not> sp_isLookUp k then
        splitTuple (s_head (sp_shortCut k)) (k\<lparr>sp_shortCut := s_rest (sp_shortCut k)\<rparr>)
      else k)"

record txCounts =
  tn_outSegs :: "32 word"
  tn_retransSegs :: "32 word"

definition txStatCounters :: "1 word hls_stream \<times> 1 word hls_stream \<times> txCounts \<Rightarrow> 1 word hls_stream \<times> 1 word hls_stream \<times> txCounts" where
  "txStatCounters = (\<lambda>(outSegs, retransSegs, c).
     (let c = (if \<not> s_empty outSegs then c\<lparr>tn_outSegs := tn_outSegs c + 1\<rparr> else c);
          c = (if \<not> s_empty retransSegs then c\<lparr>tn_retransSegs := tn_retransSegs c + 1\<rparr> else c) in
      (if s_empty outSegs then outSegs else s_rest outSegs, if s_empty retransSegs then retransSegs else s_rest retransSegs, c)))"

section \<open>Sequence numbers\<close>

text \<open>The loader with the window table it asks: a call of each, the streams between them getting on.\<close>

definition metaPath :: "fourTuple \<Rightarrow> metaEngine \<times> txSarTable \<Rightarrow> (metaEngine \<times> txSarTable) option" where
  "metaPath junk = (\<lambda>(k, t).
     (let k = metaLoader junk k in
      map_option (\<lambda>t. (k\<lparr>mt_txSarReq := [], mt_txSarRsp := mt_txSarRsp k @ tx_txEngRsp t\<rparr>, t\<lparr>tx_txEngRsp := []\<rparr>))
        (tx_sar_table (t\<lparr>tx_txEngReq := tx_txEngReq t @ mt_txSarReq k\<rparr>))))"

text \<open>Segments of an open connection that are sent for the first time, and the sequence numbers they use up.\<close>

definition firstSent :: "extendedEvent \<Rightarrow> bool" where
  "firstSent e \<longleftrightarrow> inTable (ev_sessionID e) \<and>
     (ev_type e = TX \<and> ev_length e \<noteq> 0 \<or> ev_type e = ACK \<or> ev_type e = ACK_NODELAY \<or> ev_type e = FIN \<and> ev_rt_count e = 0)"

definition payloadOf :: "extendedEvent \<Rightarrow> 16 word" where
  "payloadOf e = (if ev_type e = TX then ev_length e else 0)"

definition seqSpace :: "extendedEvent \<Rightarrow> 32 word" where
  "seqSpace e = ucast (payloadOf e) + (if ev_type e = FIN then 1 else 0)"

definition firstMeta :: "extendedEvent \<Rightarrow> rxSarReply \<Rightarrow> 32 word \<Rightarrow> tx_engine_meta" where
  "firstMeta e r s = \<lparr>te_seqNumb = s, te_ackNumb = rr_recvd r, te_window_size = rr_windowSize r, te_length = payloadOf e,
     te_ack = True, te_rst = False, te_syn = False, te_fin = (ev_type e = FIN)\<rparr>"

text \<open>One stream of sequence numbers per session.\<close>

fun inSequence :: "(16 word \<Rightarrow> 32 word) \<Rightarrow> (extendedEvent \<times> rxSarReply) list \<Rightarrow> tx_engine_meta list" where
  "inSequence pos [] = []"
| "inSequence pos ((e, r) # es) = firstMeta e r (pos (ev_sessionID e)) #
     inSequence (pos(ev_sessionID e := pos (ev_sessionID e) + seqSpace e)) es"

definition tableIdle :: "txSarTable \<Rightarrow> bool" where
  "tableIdle t \<longleftrightarrow> tx_txEngReq t = [] \<and> tx_txEngRsp t = [] \<and> tx_appPush t = [] \<and> tx_rxEngReq t = []"

lemma table_serves:
  assumes "tx_txEngReq t = [q]" and "inTable (tq_sessionID q)"
  shows "\<not> tq_write q \<Longrightarrow> tx_sar_table t = Some (t\<lparr>tx_txEngReq := [],
      tx_txEngRsp := tx_txEngRsp t @ [txSarReplyOf (tx_table t (tq_sessionID q))]\<rparr>)"
    and "tq_write q \<Longrightarrow> \<not> tq_init q \<Longrightarrow> tx_sar_table t = Some (t\<lparr>tx_txEngReq := [],
      tx_table := (tx_table t)(tq_sessionID q := txSarWrite q (tx_table t (tq_sessionID q)))\<rparr>)"
  using assms by (simp_all add: tx_sar_table_def s_write_def Let_def)

lemma table_waits: "tableIdle t \<Longrightarrow> tx_sar_table t = Some t"
  by (simp add: tx_sar_table_def tableIdle_def)

text \<open>A call of the loader that asks for nothing, reads, or writes.\<close>

lemma metaPath_call:
  assumes "metaLoader junk k = k'" and "tableIdle t" and "mt_txSarReq k' = qs"
  shows "qs = [] \<Longrightarrow> metaPath junk (k, t) = Some (k', t)"
    and "qs = [readQuery i] \<Longrightarrow> inTable i \<Longrightarrow> metaPath junk (k, t) =
      Some (k'\<lparr>mt_txSarReq := [], mt_txSarRsp := mt_txSarRsp k' @ [txSarReplyOf (tx_table t i)]\<rparr>, t)"
    and "qs = [q] \<Longrightarrow> tq_write q \<Longrightarrow> \<not> tq_init q \<Longrightarrow> inTable (tq_sessionID q) \<Longrightarrow> metaPath junk (k, t) =
      Some (k'\<lparr>mt_txSarReq := []\<rparr>, t\<lparr>tx_table := (tx_table t)(tq_sessionID q := txSarWrite q (tx_table t (tq_sessionID q)))\<rparr>)"
proof -
  have t: "t\<lparr>tx_txEngReq := []\<rparr> = t" "t\<lparr>tx_txEngRsp := []\<rparr> = t" "tx_txEngRsp t = []" "tx_txEngReq t = []"
    using assms(2) by (cases t; simp add: tableIdle_def)+
  { assume "qs = []"
    then have "k'\<lparr>mt_txSarReq := []\<rparr> = k'" "k'\<lparr>mt_txSarReq := [], mt_txSarRsp := mt_txSarRsp k'\<rparr> = k'"
      using assms(3) by (cases k'; simp)+
    then show "metaPath junk (k, t) = Some (k', t)"
      using \<open>qs = []\<close> assms t table_waits [of t] by (simp add: metaPath_def Let_def) }
  { assume "qs = [readQuery i]" "inTable i"
    then show "metaPath junk (k, t) =
      Some (k'\<lparr>mt_txSarReq := [], mt_txSarRsp := mt_txSarRsp k' @ [txSarReplyOf (tx_table t i)]\<rparr>, t)"
      using assms t table_serves(1) [of "t\<lparr>tx_txEngReq := [readQuery i]\<rparr>" "readQuery i"]
      by (simp add: metaPath_def readQuery_def Let_def) }
  { assume "qs = [q]" "tq_write q" "\<not> tq_init q" "inTable (tq_sessionID q)"
    moreover have "k'\<lparr>mt_txSarReq := [], mt_txSarRsp := mt_txSarRsp k'\<rparr> = k'\<lparr>mt_txSarReq := []\<rparr>" by simp
    ultimately show "metaPath junk (k, t) =
      Some (k'\<lparr>mt_txSarReq := []\<rparr>, t\<lparr>tx_table := (tx_table t)(tq_sessionID q := txSarWrite q (tx_table t (tq_sessionID q)))\<rparr>)"
      using assms t table_serves(2) [of "t\<lparr>tx_txEngReq := [q]\<rparr>" q] by (simp add: metaPath_def Let_def) }
qed

lemma metaEvent_first:
  assumes "firstSent e" and "\<not> mt_active k" and "mt_eventIn k = e # es"
  shows "metaLoader junk k = k\<lparr>mt_eventIn := es, mt_curEvent := e, mt_readCount := mt_readCount k @ [1],
    mt_sarLoaded := False, mt_subSum := mt_subSum k @ [ev_subSum e], mt_validSum := mt_validSum k @ [ev_validSum e],
    mt_active := True, mt_randomValue := mt_randomValue k + 1, mt_segmentCount := 0,
    mt_rxSarReq := mt_rxSarReq k @ [ev_sessionID e], mt_txSarReq := mt_txSarReq k @ [readQuery (ev_sessionID e)]\<rparr>"
proof -
  have "ev_type e = RT \<or> ev_type e = TX \<or> ev_type e = SYN_ACK \<or> ev_type e = FIN \<or> ev_type e = ACK_NODELAY \<or> ev_type e = ACK"
    using assms(1) by (auto simp: firstSent_def)
  with assms(2,3) show ?thesis by (simp add: metaLoader_def metaEvent_def sarQuery_def s_write_def Let_def)
qed

lemma metaPath_event:
  assumes "firstSent e" and "\<not> mt_active k" and "mt_eventIn k = e # es" and "mt_rxSarRsp k = r # rs"
    and "mt_txSarRsp k = []" and "mt_txSarReq k = []" and "tableIdle t"
  shows "\<exists>k' t'. iter_opt (metaPath junk) 2 (k, t) = Some (k', t') \<and> \<not> mt_active k' \<and> mt_eventIn k' = es \<and> mt_rxSarRsp k' = rs \<and>
    mt_txSarRsp k' = [] \<and> mt_txSarReq k' = [] \<and> tableIdle t' \<and>
    mt_tcpMeta k' = mt_tcpMeta k @ [firstMeta e r (tx_not_ackd (tx_table t (ev_sessionID e)))] \<and>
    mt_revReq k' = mt_revReq k @ [ev_sessionID e] \<and>
    (\<lambda>i. tx_not_ackd (tx_table t' i)) = (\<lambda>i. tx_not_ackd (tx_table t i))
      (ev_sessionID e := tx_not_ackd (tx_table t (ev_sessionID e)) + seqSpace e)"
proof -
  let ?i = "ev_sessionID e" and ?e = "tx_table t (ev_sessionID e)"
  have i: "inTable ?i" using assms(1) by (simp add: firstSent_def)
  define k1 where "k1 = (metaLoader junk k)\<lparr>mt_txSarReq := [], mt_txSarRsp := [txSarReplyOf ?e]\<rparr>"
  note ev = metaEvent_first [OF assms(1-3), of junk]
  have s1: "metaPath junk (k, t) = Some (k1, t)"
    using metaPath_call(2) [OF refl assms(7), of junk k _ ?i] i assms(5,6) ev by (simp add: k1_def)
  have f: "mt_active k1" "mt_curEvent k1 = e" "mt_rxSarRsp k1 = r # rs" "mt_txSarRsp k1 = [txSarReplyOf ?e]" "mt_txSarReq k1 = []"
    "mt_eventIn k1 = es" "mt_tcpMeta k1 = mt_tcpMeta k" "mt_revReq k1 = mt_revReq k" "\<not> mt_sarLoaded k1"
    using assms(4,5) by (simp_all add: k1_def ev)
  have na: "tr_not_ackd (txSarReplyOf ?e) = tx_not_ackd ?e" by (simp add: txSarReplyOf_def Let_def)
  let ?m = "firstMeta e r (tx_not_ackd ?e)"
  define k2 where "k2 = metaLoader junk k1"
  have loads: "\<not> mt_active k2 \<and> mt_eventIn k2 = es \<and> mt_rxSarRsp k2 = rs \<and> mt_txSarRsp k2 = [] \<and>
    mt_tcpMeta k2 = mt_tcpMeta k @ [?m] \<and> mt_revReq k2 = mt_revReq k @ [?i] \<and>
    mt_txSarReq k2 = (if ev_type e = TX then [writeQuery ?i (tx_not_ackd ?e + seqSpace e)]
      else if ev_type e = FIN then [finQuery ?i (tx_not_ackd ?e + seqSpace e)] else [])"
  proof -
    consider "ev_type e = TX" "ev_length e \<noteq> 0" | "ev_type e = ACK" | "ev_type e = ACK_NODELAY" | "ev_type e = FIN" "ev_rt_count e = 0"
      using assms(1) by (auto simp: firstSent_def)
    then show ?thesis
      by cases (simp_all add: k2_def metaLoader_def metaTX_def metaACK_def metaFIN_def f sarsReady_def takeSars_def sendMeta_def
        setRetransmit_def sarQuery_def s_write_def sessionMeta_def firstMeta_def payloadOf_def seqSpace_def na Let_def)
  qed
  have s2: "\<exists>k' t'. metaPath junk (k1, t) = Some (k', t') \<and> \<not> mt_active k' \<and> mt_eventIn k' = es \<and> mt_rxSarRsp k' = rs \<and>
    mt_txSarRsp k' = [] \<and> mt_txSarReq k' = [] \<and> tableIdle t' \<and> mt_tcpMeta k' = mt_tcpMeta k @ [?m] \<and> mt_revReq k' = mt_revReq k @ [?i] \<and>
    (\<lambda>i. tx_not_ackd (tx_table t' i)) = (\<lambda>i. tx_not_ackd (tx_table t i))(?i := tx_not_ackd ?e + seqSpace e)"
  proof (cases "ev_type e = TX \<or> ev_type e = FIN")
    case True
    define q where "q = (if ev_type e = TX then writeQuery ?i (tx_not_ackd ?e + seqSpace e) else finQuery ?i (tx_not_ackd ?e + seqSpace e))"
    have q: "mt_txSarReq k2 = [q]" "tq_write q" "\<not> tq_init q" "tq_sessionID q = ?i" "tx_not_ackd (txSarWrite q ?e) = tx_not_ackd ?e + seqSpace e"
      using True loads by (auto simp: q_def writeQuery_def finQuery_def readQuery_def txSarWrite_def Let_def)
    have "metaPath junk (k1, t) = Some (k2\<lparr>mt_txSarReq := []\<rparr>, t\<lparr>tx_table := (tx_table t)(?i := txSarWrite q ?e)\<rparr>)"
      using metaPath_call(3) [OF k2_def [symmetric] assms(7) q(1) refl q(2,3)] q(4) i by simp
    with loads q(5) assms(7) show ?thesis by (auto simp: tableIdle_def fun_eq_iff)
  next
    case False
    then have "seqSpace e = 0" by (simp add: seqSpace_def payloadOf_def)
    moreover have "metaPath junk (k1, t) = Some (k2, t)"
      using metaPath_call(1) [OF k2_def [symmetric] assms(7)] loads False by simp
    ultimately show ?thesis using loads False assms(7) by (intro exI [of _ k2] exI [of _ t]) (simp add: fun_eq_iff)
  qed
  with s1 show ?thesis by (auto simp: numeral_2_eq_2)
qed

text \<open>C8: Segments sent for the first time follow the sequence space of their session without gap or overlap, whatever
  sessions the events are of: each starts where the last one of its session ended, with the payload of its event, one
  number more for a FIN, and the window table ends where the last one did.\<close>

theorem segments_in_sequence:
  assumes "list_all (\<lambda>(e, r). firstSent e) es" and "\<not> mt_active k" and "mt_eventIn k = map fst es" and "mt_rxSarRsp k = map snd es"
    and "mt_txSarRsp k = []" and "mt_txSarReq k = []" and "tableIdle t"
  shows "\<exists>k' t'. iter_opt (metaPath junk) (2 * length es) (k, t) = Some (k', t') \<and> \<not> mt_active k' \<and> mt_eventIn k' = [] \<and>
    mt_tcpMeta k' = mt_tcpMeta k @ inSequence (\<lambda>i. tx_not_ackd (tx_table t i)) es \<and>
    mt_revReq k' = mt_revReq k @ map (\<lambda>(e, r). ev_sessionID e) es \<and>
    tx_not_ackd (tx_table t' i) = tx_not_ackd (tx_table t i) + (\<Sum>(e, r)\<leftarrow>es. if ev_sessionID e = i then seqSpace e else 0)"
  using assms
proof (induction es arbitrary: k t)
  case Nil
  then show ?case by simp
next
  case (Cons x es)
  obtain e r where x: "x = (e, r)" by (cases x)
  from metaPath_event [of e k "map fst es" r "map snd es" t junk] Cons.prems obtain k1 t1 where
    s: "iter_opt (metaPath junk) 2 (k, t) = Some (k1, t1)" "\<not> mt_active k1" "mt_eventIn k1 = map fst es" "mt_rxSarRsp k1 = map snd es"
      "mt_txSarRsp k1 = []" "mt_txSarReq k1 = []" "tableIdle t1"
      "mt_tcpMeta k1 = mt_tcpMeta k @ [firstMeta e r (tx_not_ackd (tx_table t (ev_sessionID e)))]"
      "mt_revReq k1 = mt_revReq k @ [ev_sessionID e]"
      "(\<lambda>i. tx_not_ackd (tx_table t1 i)) = (\<lambda>i. tx_not_ackd (tx_table t i))
        (ev_sessionID e := tx_not_ackd (tx_table t (ev_sessionID e)) + seqSpace e)"
    by (auto simp: x)
  from fun_cong [OF s(10), of i] have p: "tx_not_ackd (tx_table t1 i) =
      (if ev_sessionID e = i then tx_not_ackd (tx_table t i) + seqSpace e else tx_not_ackd (tx_table t i))" by auto
  from Cons.IH [OF _ s(2-7)] Cons.prems(1) obtain k' t' where
    "iter_opt (metaPath junk) (2 * length es) (k1, t1) = Some (k', t')" "\<not> mt_active k'" "mt_eventIn k' = []"
    "mt_tcpMeta k' = mt_tcpMeta k1 @ inSequence (\<lambda>i. tx_not_ackd (tx_table t1 i)) es"
    "mt_revReq k' = mt_revReq k1 @ map (\<lambda>(e, r). ev_sessionID e) es"
    "tx_not_ackd (tx_table t' i) = tx_not_ackd (tx_table t1 i) + (\<Sum>(e, r)\<leftarrow>es. if ev_sessionID e = i then seqSpace e else 0)"
    by auto
  moreover from this(1) have "iter_opt (metaPath junk) (2 * length (x # es)) (k, t) = Some (k', t')"
    using s(1) iter_opt_add [of "metaPath junk" 2 "2 * length es" "(k, t)"] by (simp del: iter_opt.simps)
  ultimately show ?case using s(8,9) unfolding s(10)
    by (intro exI [of _ k'] exI [of _ t']) (simp add: x p del: iter_opt.simps)
qed

section \<open>Retransmission\<close>

text \<open>What is cut off the unacknowledged bytes: at most \<open>n + 1\<close> segments of at most \<open>MSS\<close> bytes.\<close>

fun rtSegs :: "nat \<Rightarrow> 32 word \<Rightarrow> nat \<Rightarrow> (32 word \<times> nat) list" where
  "rtSegs n s u =
     (if MSS < u then (s, MSS) # (case n of 0 \<Rightarrow> [] | Suc n \<Rightarrow> rtSegs n (s + of_nat MSS) (u - MSS))
      else if u = 0 then [] else [(s, u)])"

declare rtSegs.simps [simp del]

lemma rtSegs_sum: "sum_list (map snd (rtSegs n s u)) = min u ((n + 1) * MSS)"
  by (induction n s u rule: rtSegs.induct) (subst rtSegs.simps; auto split: nat.split)

definition rtCmd :: "16 word \<Rightarrow> 32 word \<times> nat \<Rightarrow> mmCmd" where
  "rtCmd i = (\<lambda>(s, l). newMmCmd (pkgAddr i (rng 15 0 s)) (of_nat l))"

text \<open>The loader in the middle of a retransmission, with both entries loaded.\<close>

definition retransmits :: "metaEngine \<Rightarrow> extendedEvent \<Rightarrow> rxSarReply \<Rightarrow> txTxSarReply \<Rightarrow> bool" where
  "retransmits k e r t \<longleftrightarrow> mt_active k \<and> ev_type e = RT \<and> mt_curEvent k = e \<and> mt_sarLoaded k \<and> mt_rxSar k = r \<and> mt_txSarReg k = t"

definition rtSent :: "extendedEvent \<Rightarrow> rxSarReply \<Rightarrow> (32 word \<times> nat) list \<Rightarrow> metaEngine \<Rightarrow> metaEngine \<Rightarrow> bool" where
  "rtSent e r segs k k' \<longleftrightarrow>
     mt_tcpMeta k' = mt_tcpMeta k @ map (\<lambda>(s, l). \<lparr>te_seqNumb = s, te_ackNumb = rr_recvd r, te_window_size = rr_windowSize r,
       te_length = of_nat l, te_ack = True, te_rst = False, te_syn = False, te_fin = False\<rparr>) segs \<and>
     mt_ipMeta k' = mt_ipMeta k @ map (\<lambda>(s, l). of_nat l) segs \<and>
     mt_readCmd k' = mt_readCmd k @ map (rtCmd (ev_sessionID e)) segs \<and>
     mt_revReq k' = mt_revReq k @ map (\<lambda>_. ev_sessionID e) segs \<and>
     mt_isDDRbypass k' = mt_isDDRbypass k @ map (\<lambda>_. False) segs \<and>
     mt_subSum k' = mt_subSum k \<and> mt_validSum k' = mt_validSum k \<and> mt_eventIn k' = mt_eventIn k \<and>
     mt_txSarReq k' = mt_txSarReq k \<and> mt_rxSarRsp k' = mt_rxSarRsp k \<and> mt_txSarRsp k' = mt_txSarRsp k"

lemma rtSent_refl: "rtSent e r [] k k"
  by (simp add: rtSent_def)

lemma rtSent_trans: "rtSent e r xs k k1 \<Longrightarrow> rtSent e r ys k1 k2 \<Longrightarrow> rtSent e r (xs @ ys) k k2"
  by (simp add: rtSent_def)

lemma MSS_words: "unat (of_nat MSS :: 16 word) = MSS" "unat (u :: 16 word) \<le> MSS \<Longrightarrow> of_nat (unat u) = u"
  by (simp_all add: MSS_def)

lemma rt_step:
  assumes "retransmits k e r t" and "unat (tr_usedLength t) = u"
  shows "\<exists>k'. metaLoader junk k = k' \<and>
    (if MSS < u then rtSent e r [(tr_ackd t, MSS)] k k' \<and> mt_active k' = (mt_segmentCount k \<noteq> 3) \<and> mt_segmentCount k' = mt_segmentCount k + 1 \<and>
       mt_curEvent k' = e \<and> mt_sarLoaded k' \<and> mt_rxSar k' = r \<and>
       mt_txSarReg k' = t\<lparr>tr_ackd := tr_ackd t + of_nat MSS, tr_usedLength := tr_usedLength t - of_nat MSS\<rparr>
     else rtSent e r (if u = 0 then [] else [(tr_ackd t, u)]) k k' \<and> mt_active k' = tr_finSent t \<and>
       mt_curEvent k' = (if tr_finSent t then e\<lparr>ev_type := FIN\<rparr> else e) \<and> mt_sarLoaded k' \<and> mt_rxSar k' = r \<and> mt_txSarReg k' = t)"
proof -
  have z: "u = 0 \<longleftrightarrow> tr_usedLength t = 0" using assms(2) by (auto simp: unat_eq_0)
  have m: "(of_nat MSS :: 16 word) \<noteq> 0" by (simp add: MSS_def)
  have v: "of_nat u = tr_usedLength t" "tr_usedLength t = 0 \<Longrightarrow> \<not> MSS < u" using assms(2) z by auto
  have f: "mt_active k" "ev_type e = RT" "mt_curEvent k = e" "mt_sarLoaded k" "mt_rxSar k = r" "mt_txSarReg k = t"
    using assms(1) by (simp_all add: retransmits_def)
  show ?thesis
    by (cases "MSS < u"; cases "u = 0"; cases "tr_finSent t")
      (simp_all add: metaLoader_def metaRT_def rtLoad_def rtSend_def f assms(2) sendMeta_def setRetransmit_def s_write_def sessionMeta_def rtSent_def
        rtCmd_def v z m Let_def)
qed

lemma rt_segments:
  "retransmits k e r t \<Longrightarrow> \<not> tr_finSent t \<Longrightarrow> unat (tr_usedLength t) = u \<Longrightarrow> unat (mt_segmentCount k) + n = 3 \<Longrightarrow>
    \<exists>m k'. (metaLoader junk ^^ m) k = k' \<and> rtSent e r (rtSegs n (tr_ackd t) u) k k' \<and> \<not> mt_active k'"
proof (induction n arbitrary: k t u)
  case 0
  then have c: "mt_segmentCount k = 3" by (simp add: word_unat_eq_iff)
  obtain k' where "metaLoader junk k = k'" "rtSent e r (rtSegs 0 (tr_ackd t) u) k k'" "\<not> mt_active k'"
    using rt_step [OF 0(1,3), of junk] 0(2) c by (auto simp: rtSegs.simps [of 0] split: if_splits)
  then show ?case by (intro exI [of _ 1]) simp
next
  case (Suc n)
  have c: "mt_segmentCount k \<noteq> 3" using Suc.prems(4) by auto
  obtain k1 where k1: "metaLoader junk k = k1" using rt_step [OF Suc.prems(1,3), of junk] by blast
  show ?case
  proof (cases "MSS < u")
    case False
    with rt_step [OF Suc.prems(1,3), of junk] Suc.prems(2) k1 show ?thesis
      by (intro exI [of _ 1] exI [of _ k1]) (auto simp: rtSegs.simps [of "Suc n"])
  next
    case True
    let ?t = "t\<lparr>tr_ackd := tr_ackd t + of_nat MSS, tr_usedLength := tr_usedLength t - of_nat MSS\<rparr>"
    have s1: "rtSent e r [(tr_ackd t, MSS)] k k1" "mt_segmentCount k1 = mt_segmentCount k + 1" "retransmits k1 e r ?t"
      using rt_step [OF Suc.prems(1,3), of junk] Suc.prems(1) True c k1 by (auto simp: retransmits_def)
    have u: "unat (tr_usedLength ?t) = u - MSS"
      using True Suc.prems(3) by (simp add: unat_sub MSS_words(1) word_le_nat_alt)
    have "unat (mt_segmentCount k1) = unat (mt_segmentCount k) + 1"
      using Suc.prems(4) s1(2) by (simp add: unat_word_ariths)
    then have "unat (mt_segmentCount k1) + n = 3" using Suc.prems(4) by simp
    from Suc.IH [OF s1(3) _ u this] Suc.prems(2) obtain m k' where
      "(metaLoader junk ^^ m) k1 = k'" "rtSent e r (rtSegs n (tr_ackd ?t) (u - MSS)) k1 k'" "\<not> mt_active k'" by auto
    with rtSent_trans [OF s1(1)] True k1 show ?thesis
      by (intro exI [of _ "Suc m"] exI [of _ k'])
        (simp add: rtSegs.simps [of "Suc n"] funpow_Suc_apply del: funpow.simps(2))
  qed
qed

text \<open>The first call with both entries there: they are loaded, and a first timeout halves the window.\<close>

lemma rt_load:
  assumes "\<not> mt_active k" and "mt_eventIn k = e # es" and "ev_type e = RT" and "mt_rxSarRsp k = r # rs" and "mt_txSarRsp k = t # ts"
  shows "\<exists>k1. retransmits k1 e r t \<and> mt_segmentCount k1 = 0 \<and> (metaLoader junk ^^ 2) k = metaLoader junk k1 \<and>
    mt_eventIn k1 = es \<and> mt_rxSarRsp k1 = rs \<and> mt_txSarRsp k1 = ts \<and>
    mt_rxSarReq k1 = mt_rxSarReq k @ [ev_sessionID e] \<and>
    mt_txSarReq k1 = mt_txSarReq k @ readQuery (ev_sessionID e) #
      (if ev_rt_count e = 1 then [txTxSarRtQuery (ev_sessionID e) (slowStart (tr_usedLength t))] else []) \<and>
    mt_subSum k1 = mt_subSum k @ [ev_subSum e] \<and> mt_validSum k1 = mt_validSum k @ [ev_validSum e] \<and>
    mt_tcpMeta k1 = mt_tcpMeta k \<and> mt_ipMeta k1 = mt_ipMeta k \<and> mt_readCmd k1 = mt_readCmd k \<and> mt_revReq k1 = mt_revReq k \<and>
    mt_isDDRbypass k1 = mt_isDDRbypass k"
proof -
  define k0 where "k0 = metaLoader junk k"
  have k0: "k0 = k\<lparr>mt_eventIn := es, mt_curEvent := e, mt_readCount := mt_readCount k @ [1],
    mt_sarLoaded := False, mt_subSum := mt_subSum k @ [ev_subSum e], mt_validSum := mt_validSum k @ [ev_validSum e],
    mt_active := True, mt_randomValue := mt_randomValue k + 1, mt_segmentCount := 0,
    mt_rxSarReq := mt_rxSarReq k @ [ev_sessionID e], mt_txSarReq := mt_txSarReq k @ [readQuery (ev_sessionID e)]\<rparr>"
    using assms(1-3) by (simp add: k0_def metaLoader_def metaEvent_def sarQuery_def s_write_def Let_def)
  define k1 where "k1 = rtLoad k0"
  have k1: "k1 = ((if ev_rt_count e = 1 then sarQuery (txTxSarRtQuery (ev_sessionID e) (slowStart (tr_usedLength t))) (takeSars k0)
    else takeSars k0)\<lparr>mt_sarLoaded := True, mt_txSarReg := t\<rparr>)"
    using assms(5) by (simp add: k1_def rtLoad_def k0 Let_def)
  have "metaLoader junk k0 = rtSend k1" using assms(3-5) by (simp add: k1_def k0 metaLoader_def metaRT_def sarsReady_def)
  moreover have "metaLoader junk k1 = rtSend k1"
  proof -
    have "mt_active k1" "mt_curEvent k1 = e" "mt_sarLoaded k1" by (simp_all add: k1 k0 takeSars_def sarQuery_def)
    with assms(3) show ?thesis by (simp add: metaLoader_def metaRT_def rtLoad_def)
  qed
  ultimately have "metaLoader junk k0 = metaLoader junk k1" by simp
  then have "(metaLoader junk ^^ 2) k = metaLoader junk k1" by (simp add: numeral_2_eq_2 k0_def)
  moreover have "retransmits k1 e r t" using assms(3-5) by (simp add: retransmits_def k1 k0 takeSars_def sarQuery_def)
  ultimately show ?thesis
    using assms(4,5) by (intro exI [of _ k1]) (simp add: k1 k0 takeSars_def sarQuery_def s_write_def)
qed

text \<open>C35: A retransmission event of a session without FIN sends the unacknowledged bytes from the acknowledged one on, in
  order, in at most four segments of at most \<open>MSS\<close> bytes, each read from its place in the send buffer; after a
  first timeout the threshold of the congestion control is set to half of them, two segments at least.  However many
  segments it sends, it hands one payload checksum on.\<close>

theorem retransmission_segments:
  assumes "\<not> mt_active k" and "mt_eventIn k = e # es" and "ev_type e = RT" and "mt_rxSarRsp k = r # rs" and "mt_txSarRsp k = t # ts"
    and "\<not> tr_finSent t" and "i = ev_sessionID e" and "segs = rtSegs 3 (tr_ackd t) (unat (tr_usedLength t))"
  shows "\<exists>m k'. (metaLoader junk ^^ m) k = k' \<and> \<not> mt_active k' \<and> mt_eventIn k' = es \<and>
    mt_tcpMeta k' = mt_tcpMeta k @ map (\<lambda>(s, l). \<lparr>te_seqNumb = s, te_ackNumb = rr_recvd r, te_window_size = rr_windowSize r,
       te_length = of_nat l, te_ack = True, te_rst = False, te_syn = False, te_fin = False\<rparr>) segs \<and>
    mt_readCmd k' = mt_readCmd k @ map (\<lambda>(s, l). newMmCmd (pkgAddr i (rng 15 0 s)) (of_nat l)) segs \<and>
    mt_revReq k' = mt_revReq k @ map (\<lambda>_. i) segs \<and>
    mt_txSarReq k' = mt_txSarReq k @ readQuery i #
      (if ev_rt_count e = 1 then [txTxSarRtQuery i (slowStart (tr_usedLength t))] else []) \<and>
    mt_subSum k' = mt_subSum k @ [ev_subSum e] \<and> mt_validSum k' = mt_validSum k @ [ev_validSum e] \<and>
    sum_list (map snd segs) = min (unat (tr_usedLength t)) (4 * MSS)"
proof -
  from rt_load [OF assms(1-5), of junk] obtain k1 where k1: "retransmits k1 e r t" "mt_segmentCount k1 = 0"
    "(metaLoader junk ^^ 2) k = metaLoader junk k1" "mt_eventIn k1 = es" "mt_txSarReq k1 = mt_txSarReq k @ readQuery i #
      (if ev_rt_count e = 1 then [txTxSarRtQuery i (slowStart (tr_usedLength t))] else [])"
    "mt_subSum k1 = mt_subSum k @ [ev_subSum e]" "mt_validSum k1 = mt_validSum k @ [ev_validSum e]"
    "mt_tcpMeta k1 = mt_tcpMeta k" "mt_readCmd k1 = mt_readCmd k" "mt_revReq k1 = mt_revReq k"
    unfolding assms(7) by blast
  from rt_segments [OF k1(1) assms(6) refl, of 3 junk] k1(2) obtain m k' where
    m: "(metaLoader junk ^^ m) k1 = k'" "rtSent e r segs k1 k'" "\<not> mt_active k'" unfolding assms(8) by auto
  from k1(1) m(1,3) obtain m' where "m = Suc m'" by (cases m) (auto simp: retransmits_def)
  with m(1) k1(3) have "(metaLoader junk ^^ (m' + 2)) k = k'"
    by (simp only: funpow_add comp_apply funpow_Suc_apply)
  with m(2,3) k1 show ?thesis
    unfolding assms(7) by (intro exI [of _ "m' + 2"] exI [of _ k'])
      (auto simp: rtSent_def rtCmd_def assms(8) rtSegs_sum simp del: funpow.simps)
qed

lemma ucast_Suc: "(ucast (x + 1 :: 32 word) :: 16 word) = ucast x + 1"
  by (simp add: word_unat_eq_iff unsigned_ucast_eq unat_word_ariths take_bit_eq_mod mod_mod_cancel mod_simps)

text \<open>C36: Once a FIN has been sent, the number it used counts as a byte to be sent again: when only the FIN is
  unacknowledged, one byte behind the data is read from the send buffer and sent with the number of the FIN.  The FIN
  that follows has its own number after a timeout, but in a fast retransmission, whose event has no count, it gets
  the next one and the window table moves on again.\<close>

theorem fin_retransmitted_as_data:
  assumes "\<not> mt_active k" and "mt_eventIn k = e # es" and "ev_type e = RT" and "mt_rxSarRsp k = r # rs"
    and "mt_txSarRsp k = txSarReplyOf s # ts" and "tx_finSent s" and "tx_not_ackd s = tx_ackd s + 1" and "i = ev_sessionID e"
  shows "\<exists>k'. (metaLoader junk ^^ 3) k = k' \<and> \<not> mt_active k' \<and>
    mt_tcpMeta k' = mt_tcpMeta k @
      [\<lparr>te_seqNumb = tx_ackd s, te_ackNumb = rr_recvd r, te_window_size = rr_windowSize r, te_length = 1, te_ack = True,
        te_rst = False, te_syn = False, te_fin = False\<rparr>,
       \<lparr>te_seqNumb = (if ev_rt_count e = 0 then tx_ackd s + 1 else tx_ackd s), te_ackNumb = rr_recvd r,
        te_window_size = rr_windowSize r, te_length = 0, te_ack = True, te_rst = False, te_syn = False, te_fin = True\<rparr>] \<and>
    mt_readCmd k' = mt_readCmd k @ [newMmCmd (pkgAddr i (rng 15 0 (tx_ackd s))) 1] \<and>
    (ev_rt_count e = 0 \<longrightarrow> last (mt_txSarReq k') = finQuery i (tx_ackd s + 2))"
proof -
  let ?t = "txSarReplyOf s"
  have t: "tr_usedLength ?t = 1" "tr_finSent ?t" "tr_ackd ?t = tx_ackd s" "tr_not_ackd ?t = tx_ackd s + 1"
    using assms(6,7) by (simp_all add: txSarReplyOf_def ucast_Suc Let_def)
  from rt_load [OF assms(1-5), of junk] obtain k1 where k1: "retransmits k1 e r ?t" "mt_segmentCount k1 = 0"
    "(metaLoader junk ^^ 2) k = metaLoader junk k1" "mt_tcpMeta k1 = mt_tcpMeta k" "mt_readCmd k1 = mt_readCmd k"
    by blast
  define k2 where "k2 = metaLoader junk k1"
  have k2: "rtSent e r [(tx_ackd s, 1)] k1 k2" "mt_active k2" "mt_curEvent k2 = e\<lparr>ev_type := FIN\<rparr>" "mt_sarLoaded k2"
    "mt_rxSar k2 = r" "mt_txSarReg k2 = ?t"
    using rt_step [OF k1(1), of 1 junk] t by (simp_all add: k2_def MSS_def)
  have "metaLoader junk k2 = metaFIN k2" using k2(2,3) by (simp add: metaLoader_def)
  moreover have "(metaLoader junk ^^ 3) k = metaLoader junk k2"
    using k1(3) by (simp add: numeral_3_eq_3 numeral_2_eq_2 k2_def)
  ultimately have k3: "(metaLoader junk ^^ 3) k = metaFIN k2" by simp
  have d: "mt_tcpMeta k2 = mt_tcpMeta k @ [\<lparr>te_seqNumb = tx_ackd s, te_ackNumb = rr_recvd r, te_window_size = rr_windowSize r,
      te_length = 1, te_ack = True, te_rst = False, te_syn = False, te_fin = False\<rparr>]"
    "mt_readCmd k2 = mt_readCmd k @ [newMmCmd (pkgAddr i (rng 15 0 (tx_ackd s))) 1]"
    using k2(1) k1(4,5) by (simp_all add: rtSent_def rtCmd_def assms(8))
  show ?thesis
    unfolding k3
    by (intro exI conjI, rule refl)
      (simp_all add: metaFIN_def k2 d t assms(8) sarQuery_def sendMeta_def setRetransmit_def s_write_def sessionMeta_def add.commute Let_def)
qed

section \<open>Witnesses\<close>

definition sampleEvent :: "eventType \<Rightarrow> 16 word \<Rightarrow> 16 word \<Rightarrow> 3 word \<Rightarrow> extendedEvent" where
  "sampleEvent t i len n = extendEvent (plainEvent t i n)\<lparr>ev_length := len\<rparr>"

definition sampleReply :: rxSarReply where
  "sampleReply = \<lparr>rr_recvd = 5000, rr_windowSize = 0xFFFF\<rparr>"

definition sampleEntry :: txSarEntry where
  "sampleEntry = \<lparr>tx_ackd = 999, tx_not_ackd = 1000, tx_recv_window = 0xFFFF, tx_cong_window = 14600,
     tx_slowstart_threshold = 0xFFFF, tx_app = 1000, tx_count = 0, tx_fastRetransmitted = False, tx_synSent = True,
     tx_finReady = True, tx_finSent = True\<rparr>"

definition sampleEngine :: "extendedEvent list \<Rightarrow> rxSarReply list \<Rightarrow> txTxSarReply list \<Rightarrow> metaEngine" where
  "sampleEngine es rs ts = \<lparr>mt_active = False, mt_sarLoaded = False, mt_curEvent = sampleEvent ACK 0 0 0,
     mt_randomValue = 0x562301af, mt_segmentCount = 0, mt_rxSar = sampleReply, mt_txSarReg = txSarReplyOf sampleEntry,
     mt_eventIn = es, mt_rxSarRsp = rs, mt_txSarRsp = ts, mt_rxSarReq = [], mt_txSarReq = [], mt_setRetransmit = [],
     mt_setProbe = [], mt_ipMeta = [], mt_tcpMeta = [], mt_readCmd = [], mt_revReq = [], mt_isLookUp = [], mt_isDDRbypass = [],
     mt_shortCut = [], mt_readCount = [], mt_subSum = [], mt_validSum = [], mt_outSegs = [], mt_retransSegs = []\<rparr>"

definition sampleSarTable :: txSarTable where
  "sampleSarTable = \<lparr>tx_table = (\<lambda>_. sampleEntry), tx_rxEngReq = [], tx_txEngReq = [], tx_appPush = [], tx_rxEngRsp = [],
     tx_txEngRsp = [], tx_ackPush = []\<rparr>"

definition sampleTuple :: fourTuple where
  "sampleTuple = \<lparr>ft_srcIp = 0x0100000A, ft_dstIp = 0x0200000A, ft_srcPort = 0x5000, ft_dstPort = 0x5100\<rparr>"

theorem segments_in_sequence_witness:
  "\<exists>k' :: metaEngine. map te_seqNumb (mt_tcpMeta k') = [1000, 1100, 1000, 1350] \<and> map te_fin (mt_tcpMeta k') = [False, False, False, True]"
proof -
  let ?es = "[(sampleEvent TX 3 100 0, sampleReply), (sampleEvent TX 3 250 0, sampleReply), (sampleEvent ACK 4 0 0, sampleReply),
    (sampleEvent FIN 3 0 0, sampleReply)]"
  let ?k = "sampleEngine (map fst ?es) (map snd ?es) []"
  have h: "list_all (\<lambda>(e, r). firstSent e) ?es" "\<not> mt_active ?k" "mt_eventIn ?k = map fst ?es" "mt_rxSarRsp ?k = map snd ?es"
    "mt_txSarRsp ?k = []" "mt_txSarReq ?k = []" "tableIdle sampleSarTable"
    by (simp_all add: firstSent_def inTable_def MAX_SESSIONS_def sampleEvent_def extendEvent_def plainEvent_def
        toeEvent.defs sampleEngine_def tableIdle_def sampleSarTable_def)
  from segments_in_sequence [OF h, of sampleTuple 3] obtain k' :: metaEngine where
    "mt_tcpMeta k' = mt_tcpMeta ?k @ inSequence (\<lambda>i. tx_not_ackd (tx_table sampleSarTable i)) ?es" by blast
  then show ?thesis
    by (intro exI [of _ k']) (simp add: sampleEngine_def firstMeta_def seqSpace_def payloadOf_def sampleEvent_def extendEvent_def
        plainEvent_def toeEvent.defs sampleSarTable_def sampleEntry_def)
qed

theorem retransmission_segments_witness:
  "\<exists>m. map te_seqNumb (mt_tcpMeta ((metaLoader sampleTuple ^^ m)
      (sampleEngine [sampleEvent RT 3 0 1] [sampleReply] [(txSarReplyOf sampleEntry)\<lparr>tr_usedLength := 3000, tr_finSent := False\<rparr>])))
    = [999, 2459, 3919] \<and>
   length (mt_subSum ((metaLoader sampleTuple ^^ m)
      (sampleEngine [sampleEvent RT 3 0 1] [sampleReply] [(txSarReplyOf sampleEntry)\<lparr>tr_usedLength := 3000, tr_finSent := False\<rparr>]))) = 1"
proof -
  let ?e = "sampleEvent RT 3 0 1" and ?t = "(txSarReplyOf sampleEntry)\<lparr>tr_usedLength := 3000, tr_finSent := False\<rparr>"
  let ?k = "sampleEngine [?e] [sampleReply] [?t]"
  have h: "\<not> mt_active ?k" "mt_eventIn ?k = ?e # []" "ev_type ?e = RT" "mt_rxSarRsp ?k = sampleReply # []" "mt_txSarRsp ?k = ?t # []"
    "\<not> tr_finSent ?t"
    by (simp_all add: sampleEngine_def sampleEvent_def extendEvent_def plainEvent_def toeEvent.defs)
  from retransmission_segments [OF h refl refl, of sampleTuple] obtain m where
    "mt_tcpMeta ((metaLoader sampleTuple ^^ m) ?k) = mt_tcpMeta ?k @ map (\<lambda>(s, l). \<lparr>te_seqNumb = s, te_ackNumb = rr_recvd sampleReply,
       te_window_size = rr_windowSize sampleReply, te_length = of_nat l, te_ack = True, te_rst = False, te_syn = False,
       te_fin = False\<rparr>) (rtSegs 3 (tr_ackd ?t) (unat (tr_usedLength ?t)))"
    "mt_subSum ((metaLoader sampleTuple ^^ m) ?k) = mt_subSum ?k @ [ev_subSum ?e]" by blast
  moreover have "rtSegs 3 (tr_ackd ?t) (unat (tr_usedLength ?t)) = [(999, 1460), (2459, 1460), (3919, 80)]"
    by code_simp
  ultimately show ?thesis by (intro exI [of _ m]) (simp add: sampleEngine_def)
qed

theorem fin_retransmitted_as_data_witness:
  "map te_seqNumb (mt_tcpMeta ((metaLoader sampleTuple ^^ 3)
      (sampleEngine [sampleEvent RT 3 0 0] [sampleReply] [txSarReplyOf sampleEntry]))) = [999, 1000]"
proof -
  let ?e = "sampleEvent RT 3 0 0" and ?k = "sampleEngine [sampleEvent RT 3 0 0] [sampleReply] [txSarReplyOf sampleEntry]"
  have h: "\<not> mt_active ?k" "mt_eventIn ?k = ?e # []" "ev_type ?e = RT" "mt_rxSarRsp ?k = sampleReply # []"
    "mt_txSarRsp ?k = txSarReplyOf sampleEntry # []" "tx_finSent sampleEntry" "tx_not_ackd sampleEntry = tx_ackd sampleEntry + 1"
    "ev_rt_count ?e = 0" "mt_tcpMeta ?k = []" "tx_ackd sampleEntry = 999"
    by (simp_all add: sampleEngine_def sampleEvent_def extendEvent_def plainEvent_def toeEvent.defs sampleEntry_def)
  from fin_retransmitted_as_data [OF h(1-7) refl, of sampleTuple] h(8-10) show ?thesis by auto
qed

end
