(* ===== verification/Toe_Tx_Memory.thy ===== *)
theory Toe_Tx_Memory
  imports Toe_Tx_Meta
begin

text \<open>
  The data side of the transmit engine (\<^verbatim>\<open>toe/tx_engine/tx_engine.cpp\<close>): the reads of a retransmission
  are broken at the end of the send buffer (\<^verbatim>\<open>txEngMemAccessBreakdown\<close>), their data put together again
  (\<^verbatim>\<open>read_data_stitching\<close>), and payload comes from there or straight from the application
  (\<^verbatim>\<open>read_data_arbiter\<close>).
\<close>

section \<open>Reads\<close>

text \<open>The bits above the command are not set: they are those of \<open>junk\<close>.\<close>

definition mmCmd2axiu2 :: "128 word \<Rightarrow> mmCmd \<Rightarrow> 128 word" where
  "mmCmd2axiu2 junk c = upd 71 68 (mc_rsvd c) (upd 67 64 (mc_tag c) (upd 63 32 (mc_saddr c)
     (upd 31 31 (mc_drr c) (upd 30 30 (mc_eof c) (upd 29 24 (mc_dsa c) (upd 23 23 (mc_type c) (upd 22 0 (mc_bbt c) junk)))))))"

record memBreakdown =
  bd_second :: bool
  bd_cmd :: mmCmd
  bd_lengthFirst :: "16 word"
  bd_in :: "mmCmd hls_stream"
  bd_out :: "128 word hls_stream"
  bd_merge :: "bool hls_stream"

definition txEngMemAccessBreakdown :: "128 word \<Rightarrow> memBreakdown \<Rightarrow> memBreakdown" where
  "txEngMemAccessBreakdown junk k =
     (if \<not> bd_second k then
        (if \<not> s_empty (bd_in k) then
           (let cmd = s_head (bd_in k); k = k\<lparr>bd_in := s_rest (bd_in k), bd_cmd := cmd\<rparr> in
            if unat (rng 15 0 (mc_saddr cmd) :: 16 word) + unat (mc_bbt cmd) > 65536
            then (let lengthFirst = ucast (65536 - mc_saddr cmd) in
                  k\<lparr>bd_lengthFirst := lengthFirst, bd_merge := s_write (bd_merge k) True,
                    bd_out := s_write (bd_out k) (mmCmd2axiu2 junk (newMmCmd (mc_saddr cmd) lengthFirst)), bd_second := True\<rparr>)
            else k\<lparr>bd_merge := s_write (bd_merge k) False, bd_out := s_write (bd_out k) (mmCmd2axiu2 junk cmd)\<rparr>)
         else k)
      else
        k\<lparr>bd_out := s_write (bd_out k) (mmCmd2axiu2 junk (newMmCmd 0 (ucast (mc_bbt (bd_cmd k) - ucast (bd_lengthFirst k))))),
          bd_second := False\<rparr>)"

section \<open>Stitching\<close>

definition keepToLen :: "8 word \<Rightarrow> 8 word" where
  "keepToLen keep = (case find (\<lambda>n. keep = mask n) [1..<9] of Some n \<Rightarrow> of_nat n | None \<Rightarrow> 0)"

datatype stitchState = RD_IDLE | RD_FIRST_PART | RD_STITCH | RD_ATTACH_ALIGNED | RD_RESIDUE

record stitcher =
  rd_state :: stitchState
  rd_prevWord :: axiWord
  rd_needsMerge :: bool
  rd_offset :: "8 word"
  rd_mergeIn :: "bool hls_stream"
  rd_dataIn :: "axiWord hls_stream"
  rd_dataOut :: "axiWord hls_stream"

text \<open>The lower \<open>n\<close> lanes of one word under the lower lanes of another, and the upper \<open>n\<close> lanes of a word
  moved down.\<close>

definition stitchWord :: "nat \<Rightarrow> axiWord \<Rightarrow> axiWord \<Rightarrow> axiWord" where
  "stitchWord n p c = zeroWord
     \<lparr>ax_data := upd 63 (8 * n) (rng (63 - 8 * n) 0 (ax_data c) :: 64 word)
        (upd (8 * n - 1) 0 (rng (8 * n - 1) 0 (ax_data p) :: 64 word) 0),
      ax_keep := upd 7 n (rng (7 - n) 0 (ax_keep c) :: 8 word) (upd (n - 1) 0 (rng (n - 1) 0 (ax_keep p) :: 8 word) 0)\<rparr>"

definition restWord :: "nat \<Rightarrow> axiWord \<Rightarrow> axiWord \<Rightarrow> axiWord" where
  "restWord n p c = p
     \<lparr>ax_data := upd (8 * n - 1) 0 (rng 63 (64 - 8 * n) (ax_data c) :: 64 word) (ax_data p),
      ax_keep := upd (n - 1) 0 (rng 7 (8 - n) (ax_keep c) :: 8 word) (ax_keep p)\<rparr>"

text \<open>A word of the first read: the last one waits for the second read when they are to be merged.\<close>

definition firstPart :: "axiWord \<Rightarrow> stitcher \<Rightarrow> stitcher" where
  "firstPart w k =
     (let k = k\<lparr>rd_offset := keepToLen (ax_keep w)\<rparr> in
      if ax_last w then
        (if rd_needsMerge k then
           (let w = w\<lparr>ax_last := False\<rparr>; k = k\<lparr>rd_prevWord := w\<rparr> in
            if \<not> bit (ax_keep w) 7 then k\<lparr>rd_state := RD_STITCH\<rparr>
            else k\<lparr>rd_dataOut := s_write (rd_dataOut k) w, rd_state := RD_ATTACH_ALIGNED\<rparr>)
         else k\<lparr>rd_dataOut := s_write (rd_dataOut k) w, rd_prevWord := w, rd_state := RD_IDLE\<rparr>)
      else k\<lparr>rd_dataOut := s_write (rd_dataOut k) w, rd_prevWord := w, rd_state := RD_FIRST_PART\<rparr>)"

text \<open>With offset 0 the part selects of the last two states are out of range: \<open>None\<close>.\<close>

definition read_data_stitching :: "stitcher \<Rightarrow> stitcher option" where
  "read_data_stitching k =
     (let offset = unat (rd_offset k) in
      case rd_state k of
        RD_IDLE \<Rightarrow>
          if \<not> s_empty (rd_mergeIn k) \<and> \<not> s_empty (rd_dataIn k) then
            Some (firstPart (s_head (rd_dataIn k))
              (k\<lparr>rd_needsMerge := s_head (rd_mergeIn k), rd_mergeIn := s_rest (rd_mergeIn k), rd_dataIn := s_rest (rd_dataIn k)\<rparr>))
          else Some k
      | RD_FIRST_PART \<Rightarrow>
          if \<not> s_empty (rd_dataIn k) then Some (firstPart (s_head (rd_dataIn k)) (k\<lparr>rd_dataIn := s_rest (rd_dataIn k)\<rparr>))
          else Some k
      | RD_ATTACH_ALIGNED \<Rightarrow>
          if \<not> s_empty (rd_dataIn k) then
            (let w = s_head (rd_dataIn k) in
             Some (k\<lparr>rd_dataIn := s_rest (rd_dataIn k), rd_dataOut := s_write (rd_dataOut k) w,
               rd_state := (if ax_last w then RD_IDLE else RD_ATTACH_ALIGNED)\<rparr>))
          else Some k
      | RD_STITCH \<Rightarrow>
          if \<not> s_empty (rd_dataIn k) then
            (let w = s_head (rd_dataIn k); fin = \<not> bit (ax_keep w) (8 - offset) in
             if offset = 0 then None
             else Some (k\<lparr>rd_dataIn := s_rest (rd_dataIn k),
               rd_dataOut := s_write (rd_dataOut k) ((stitchWord offset (rd_prevWord k) w)\<lparr>ax_last := fin\<rparr>),
               rd_prevWord := restWord offset (rd_prevWord k) w,
               rd_state := (if ax_last w then (if fin then RD_IDLE else RD_RESIDUE) else RD_STITCH)\<rparr>))
          else Some k
      | RD_RESIDUE \<Rightarrow>
          if offset = 0 then None
          else Some (k\<lparr>rd_dataOut := s_write (rd_dataOut k) ((stitchWord offset (rd_prevWord k) zeroWord)\<lparr>ax_last := True\<rparr>),
            rd_state := RD_IDLE\<rparr>))"

section \<open>Sources of payload\<close>

datatype arbiterState = AR_FLAG | AR_MEMORY | AR_BYPASS

record arbiter =
  ar_state :: arbiterState
  ar_memIn :: "axiWord hls_stream"
  ar_flagIn :: "bool hls_stream"
  ar_appIn :: "axiWord hls_stream"
  ar_out :: "axiWord hls_stream"

definition read_data_arbiter :: "arbiter \<Rightarrow> arbiter" where
  "read_data_arbiter k =
     (case ar_state k of
        AR_FLAG \<Rightarrow>
          if \<not> s_empty (ar_flagIn k)
          then k\<lparr>ar_flagIn := s_rest (ar_flagIn k), ar_state := (if s_head (ar_flagIn k) then AR_BYPASS else AR_MEMORY)\<rparr> else k
      | AR_MEMORY \<Rightarrow>
          if \<not> s_empty (ar_memIn k) then
            (let w = s_head (ar_memIn k) in
             k\<lparr>ar_memIn := s_rest (ar_memIn k), ar_out := s_write (ar_out k) w, ar_state := (if ax_last w then AR_FLAG else AR_MEMORY)\<rparr>)
          else k
      | AR_BYPASS \<Rightarrow>
          if \<not> s_empty (ar_appIn k) then
            (let w = s_head (ar_appIn k) in
             k\<lparr>ar_appIn := s_rest (ar_appIn k), ar_out := s_write (ar_out k) w, ar_state := (if ax_last w then AR_FLAG else AR_BYPASS)\<rparr>)
          else k)"

section \<open>What a retransmission reads\<close>

text \<open>The bytes a read command fetches.\<close>

definition readBytes :: "(32 word \<Rightarrow> 8 word) \<Rightarrow> mmCmd \<Rightarrow> 8 word list" where
  "readBytes mem c = map (\<lambda>j. mem (mc_saddr c + of_nat j)) [0..<unat (mc_bbt c)]"

lemma pkgAddr_plus:
  assumes "unat a + j < 65536"
  shows "pkgAddr i a + of_nat j = pkgAddr i (a + of_nat j)"
proof -
  have z: "pkgAddr i b = pkgAddr i 0 OR ucast b" for b
    by (rule bit_word_eqI) (auto simp: pkgAddr_def bit_simps dest: bit_imp_le_length)
  have o: "pkgAddr i b = pkgAddr i 0 + ucast b" for b
  proof -
    have "pkgAddr i 0 AND ucast b = 0" by (rule bit_word_eqI) (auto simp: pkgAddr_def bit_simps dest: bit_imp_le_length)
    then show ?thesis unfolding z [of b] by (simp add: disjunctive_add_eq_or)
  qed
  have "(ucast (a + of_nat j) :: 32 word) = ucast a + of_nat j"
    using assms by (simp add: word_unat_eq_iff unsigned_ucast_eq unat_word_ariths unat_of_nat take_bit_nat_eq_self)
  then show ?thesis by (simp add: o [of a] o [of "a + of_nat j"])
qed

lemma readBytes_send:
  assumes "unat a + n \<le> 65536" and "n \<le> length bs" and "n < 65536"
  shows "readBytes (sendBuffer i a bs mem) (newMmCmd (pkgAddr i a) (of_nat n)) = take n bs"
proof (rule nth_equalityI)
  have bbt: "unat (mc_bbt (newMmCmd (pkgAddr i a) (of_nat n))) = n"
    using assms(3) by (simp add: newMmCmd_def unsigned_ucast_eq unat_of_nat take_bit_eq_mod)
  show "length (readBytes (sendBuffer i a bs mem) (newMmCmd (pkgAddr i a) (of_nat n))) = length (take n bs)"
    using assms(2) by (simp add: readBytes_def bbt)
  fix j assume "j < length (readBytes (sendBuffer i a bs mem) (newMmCmd (pkgAddr i a) (of_nat n)))"
  then have j: "j < n" by (simp add: readBytes_def bbt)
  have "unat (of_nat j :: 16 word) = j" using j assms(3) by (simp add: unat_of_nat)
  moreover have "pkgAddr i a + of_nat j = pkgAddr i (a + of_nat j)" by (rule pkgAddr_plus) (use j assms(1) in simp)
  ultimately have "sendBuffer i a bs mem (pkgAddr i a + of_nat j) = bs ! j"
    using j assms(2) by (simp add: sendBuffer_def pkgAddr_halves(1) pkgAddr_halves(2) [of i "a + of_nat j"] Let_def)
  moreover have "mc_saddr (newMmCmd (pkgAddr i a) (of_nat n)) = pkgAddr i a" by (simp add: newMmCmd_def)
  ultimately show "readBytes (sendBuffer i a bs mem) (newMmCmd (pkgAddr i a) (of_nat n)) ! j = take n bs ! j"
    using j assms(2) by (simp add: readBytes_def bbt)
qed

lemma readBytes_zero:
  assumes "n < 65536"
  shows "readBytes (sendBuffer i a bs mem) (newMmCmd 0 (of_nat n)) = map (\<lambda>j. mem (of_nat j)) [0..<n]"
proof -
  have bbt: "unat (mc_bbt (newMmCmd 0 (of_nat n))) = n"
    using assms by (simp add: newMmCmd_def unsigned_ucast_eq unat_of_nat take_bit_eq_mod)
  have "sendBuffer i a bs mem (of_nat j) = mem (of_nat j)" if "j < n" for j
  proof -
    have "unat (of_nat j :: 32 word) = j" using that assms by (simp add: unat_of_nat)
    then have z: "unat (rng 31 16 (of_nat j :: 32 word) :: 16 word) = 0" unfolding halves using that assms by simp
    have "bit (rng 31 16 (pkgAddr i 0) :: 16 word) 14" by (simp add: pkgAddr_def bit_simps)
    then have "(rng 31 16 (of_nat j :: 32 word) :: 16 word) \<noteq> rng 31 16 (pkgAddr i 0)"
      using z by (auto simp: unat_eq_0)
    then show ?thesis by (simp add: sendBuffer_def)
  qed
  then have "map (\<lambda>j. sendBuffer i a bs mem (of_nat j)) [0..<n] = map (\<lambda>j. mem (of_nat j)) [0..<n]" by simp
  moreover have "mc_saddr (newMmCmd 0 (of_nat n)) = 0" by (simp add: newMmCmd_def)
  ultimately show ?thesis by (simp add: readBytes_def bbt)
qed

text \<open>C37: The bytes of a retransmission come from the send buffer where the write of the application put them, as long as
  they do not wrap around its end.  When they do, two reads are issued, to be merged; the second has address 0 instead
  of the start of the session's buffer, so that what follows the wrap is not the written bytes but whatever the memory
  holds outside every send buffer.\<close>

theorem retransmission_reads:
  assumes "\<not> bd_second k" and "bd_in k = newMmCmd (pkgAddr i a) len # cmds" and "length bs = unat len"
  shows "\<exists>m k' parts. (txEngMemAccessBreakdown junk ^^ m) k = k' \<and> \<not> bd_second k' \<and> bd_in k' = cmds \<and>
    bd_out k' = bd_out k @ map (mmCmd2axiu2 junk) parts \<and>
    bd_merge k' = bd_merge k @ [65536 < unat a + unat len] \<and>
    concat (map (readBytes (sendBuffer i a bs mem)) parts) =
      (if unat a + unat len \<le> 65536 then bs
       else take (65536 - unat a) bs @ map (\<lambda>j. mem (of_nat j)) [0..<unat len - (65536 - unat a)])"
proof -
  define cmd where "cmd = newMmCmd (pkgAddr i a) len"
  have len: "unat len < 65536" using unsigned_less [of len, where ?'a = nat] by simp
  have wide: "unat (ucast l :: 23 word) = unat l" for l :: "16 word"
    using unsigned_less [of l, where ?'a = nat] by (simp add: unsigned_ucast_eq take_bit_nat_eq_self)
  have sum: "unat (rng 15 0 (mc_saddr cmd) :: 16 word) + unat (mc_bbt cmd) = unat a + unat len"
    by (simp add: cmd_def newMmCmd_def pkgAddr_halves wide)
  show ?thesis
  proof (cases "unat a + unat len \<le> 65536")
    case True
    have "txEngMemAccessBreakdown junk k = k\<lparr>bd_in := cmds, bd_cmd := cmd, bd_merge := bd_merge k @ [False],
        bd_out := bd_out k @ [mmCmd2axiu2 junk cmd]\<rparr>"
      using assms(1,2) sum True by (simp add: txEngMemAccessBreakdown_def s_write_def Let_def flip: cmd_def)
    moreover have "readBytes (sendBuffer i a bs mem) cmd = bs"
      using readBytes_send [of a "unat len" bs i mem] True assms(3) len by (simp add: cmd_def)
    ultimately show ?thesis using True assms(1)
      by (intro exI [of _ 1] exI exI [of _ "[cmd]"] conjI) (rule refl | simp)+
  next
    case False
    define l1 where "l1 = (ucast (65536 - pkgAddr i a) :: 16 word)"
    have l1: "unat l1 = 65536 - unat a" using first_length(1) [of a len i] False by (simp add: l1_def)
    define l2 where "l2 = (ucast (mc_bbt cmd - ucast l1) :: 16 word)"
    have "unat l2 = unat len - (65536 - unat a)"
    proof -
      have le: "unat l1 \<le> unat len" using l1 False by simp
      have "unat (mc_bbt cmd - ucast l1) = unat len - unat l1"
        using le by (simp add: cmd_def newMmCmd_def unat_sub word_le_nat_alt wide)
      then show ?thesis using len l1 by (simp add: l2_def unsigned_ucast_eq take_bit_eq_mod)
    qed
    then have l2: "l2 = of_nat (unat len - (65536 - unat a))" using len by (simp add: word_unat_eq_iff unat_of_nat)
    have "65536 - unat a < 65536" using False len by linarith
    then have l1': "l1 = of_nat (65536 - unat a)" using l1 by (simp add: word_unat_eq_iff unat_of_nat)
    let ?k = "k\<lparr>bd_in := cmds, bd_cmd := cmd, bd_lengthFirst := l1, bd_merge := bd_merge k @ [True],
        bd_out := bd_out k @ [mmCmd2axiu2 junk (newMmCmd (pkgAddr i a) l1)], bd_second := True\<rparr>"
    have s1: "txEngMemAccessBreakdown junk k = ?k"
      using assms(1,2) sum False by (simp add: txEngMemAccessBreakdown_def s_write_def Let_def flip: cmd_def)
        (simp add: cmd_def newMmCmd_def l1_def)
    have s2: "txEngMemAccessBreakdown junk ?k = ?k\<lparr>bd_out := bd_out ?k @ [mmCmd2axiu2 junk (newMmCmd 0 l2)], bd_second := False\<rparr>"
      by (simp add: txEngMemAccessBreakdown_def s_write_def l2_def)
    have "readBytes (sendBuffer i a bs mem) (newMmCmd (pkgAddr i a) l1) = take (65536 - unat a) bs"
      unfolding l1' by (rule readBytes_send) (use False len assms(3) unsigned_less [of a, where ?'a = nat] in auto)
    moreover have "readBytes (sendBuffer i a bs mem) (newMmCmd 0 l2) = map (\<lambda>j. mem (of_nat j)) [0..<unat len - (65536 - unat a)]"
      unfolding l2 by (rule readBytes_zero) (use len in simp)
    ultimately show ?thesis using False s1 s2
      by (intro exI [of _ 2] exI exI [of _ "[newMmCmd (pkgAddr i a) l1, newMmCmd 0 l2]"] conjI)
        (rule refl | simp add: numeral_2_eq_2)+
  qed
qed

section \<open>Bytes of merged reads\<close>

lemma keepToLen_kept:
  assumes "lanes w = kept bs @ map (\<lambda>j. (j, False)) js" and "bs \<noteq> []"
  shows "unat (keepToLen (ax_keep w)) = length bs"
proof -
  have l: "length bs \<le> 8" using arg_cong [OF assms(1), of length] by simp
  have m: "ax_keep w = mask (length bs)"
    by (rule bit_word_eqI) (use bit_keep [OF assms(1)] l in \<open>auto simp: bit_mask_iff\<close>)
  have "length bs = 1 \<or> length bs = 2 \<or> length bs = 3 \<or> length bs = 4 \<or> length bs = 5 \<or> length bs = 6 \<or> length bs = 7 \<or> length bs = 8"
  proof -
    have "1 \<le> length bs" using assms(2) by (cases bs) auto
    with l show ?thesis by arith
  qed
  then show ?thesis
    unfolding keepToLen_def m by (elim disjE) (simp_all add: mask_eq_exp_minus_1 upt_rec)
qed

lemma lanes_stitchWord:
  assumes "0 < n" and "n < 8"
  shows "lanes (stitchWord n p c) = take n (lanes p) @ take (8 - n) (lanes c)"
proof (rule nth_equalityI)
  show "length (lanes (stitchWord n p c)) = length (take n (lanes p) @ take (8 - n) (lanes c))" using assms by simp
  fix i assume "i < length (lanes (stitchWord n p c))"
  then have i: "i < 8" by simp
  have data: "byteAt (ax_data (stitchWord n p c)) i = (if i < n then byteAt (ax_data p) i else byteAt (ax_data c) (i - n))"
  proof (rule bit_word_eqI)
    fix j assume "j < LENGTH(8)"
    then have j: "j < 8" by simp
    show "bit (byteAt (ax_data (stitchWord n p c)) i) j = bit (if i < n then byteAt (ax_data p) i else byteAt (ax_data c) (i - n)) j"
    proof (cases "i < n")
      case True
      then have "8 * i + j \<le> 8 * n - 1" using j by simp
      with True i j assms show ?thesis by (simp add: stitchWord_def byteAt_def bit_simps)
    next
      case False
      then have "8 * n \<le> 8 * i + j" "8 * i + j - 8 * n = 8 * (i - n) + j" "8 * (i - n) + j \<le> 63 - 8 * n" "8 * (i - n) + j < 64" using i j by simp_all
      with False i j assms show ?thesis by (simp add: stitchWord_def byteAt_def bit_simps)
    qed
  qed
  have keep: "bit (ax_keep (stitchWord n p c)) i = (if i < n then bit (ax_keep p) i else bit (ax_keep c) (i - n))"
    using i assms by (auto simp: stitchWord_def bit_simps)
  show "lanes (stitchWord n p c) ! i = (take n (lanes p) @ take (8 - n) (lanes c)) ! i"
    using i assms by (auto simp: nth_lanes nth_append data keep)
qed

lemma lanes_restWord:
  assumes "0 < n" and "n < 8"
  shows "take n (lanes (restWord n p c)) = drop (8 - n) (lanes c)"
proof (rule nth_equalityI)
  show "length (take n (lanes (restWord n p c))) = length (drop (8 - n) (lanes c))" using assms by simp
  fix i assume "i < length (take n (lanes (restWord n p c)))"
  then have i: "i < n" "i < 8" using assms by auto
  have data: "byteAt (ax_data (restWord n p c)) i = byteAt (ax_data c) (8 - n + i)"
  proof (rule bit_word_eqI)
    fix j assume "j < LENGTH(8)"
    then have j: "j < 8" by simp
    then have "8 * i + j \<le> 8 * n - 1" "64 - 8 * n + (8 * i + j) = 8 * (8 - n + i) + j" "8 * i + j < 64" "64 - 8 * n + (8 * i + j) \<le> 63"
      using i assms by (auto simp: algebra_simps)
    then show "bit (byteAt (ax_data (restWord n p c)) i) j = bit (byteAt (ax_data c) (8 - n + i)) j"
      using j by (simp add: restWord_def byteAt_def bit_simps ac_simps)
  qed
  have keep: "bit (ax_keep (restWord n p c)) i = bit (ax_keep c) (8 - n + i)"
    using i assms by (auto simp: restWord_def bit_simps add.commute)
  show "take n (lanes (restWord n p c)) ! i = drop (8 - n) (lanes c) ! i"
    using i assms by (simp add: nth_lanes data keep)
qed

text \<open>Between the two parts, \<open>ps\<close> are the bytes that still wait.\<close>

lemma stitch_rest:
  assumes "0 < n" and "n < 8" and "length ps = n" and "unat (rd_offset k) = n" and "rd_state k = RD_STITCH"
    and "take n (lanes (rd_prevWord k)) = kept ps" and "rd_dataIn k = ws @ rest" and "carries ws bs"
  shows "\<exists>m k' out. iter_opt read_data_stitching m k = Some k' \<and> rd_state k' = RD_IDLE \<and> rd_dataIn k' = rest \<and>
    rd_mergeIn k' = rd_mergeIn k \<and> rd_dataOut k' = rd_dataOut k @ out \<and> carries out (ps @ bs)"
  using assms(3-)
proof (induction ws arbitrary: k ps bs)
  case Nil
  then show ?case by simp
next
  case (Cons w ws)
  let ?p = "rd_prevWord k"
  have n8: "8 - n < 8" using assms(1) by simp
  note flags = keep_flag [OF Cons.prems(6) n8]
  let ?x = "(stitchWord n ?p w)\<lparr>ax_last := length bs \<le> 8 - n\<rparr>"
  let ?k = "k\<lparr>rd_dataIn := ws @ rest, rd_dataOut := rd_dataOut k @ [?x], rd_prevWord := restWord n ?p w,
      rd_state := (if ws = [] then (if length bs \<le> 8 - n then RD_IDLE else RD_RESIDUE) else RD_STITCH)\<rparr>"
  have st: "read_data_stitching k = Some ?k"
    using Cons.prems(2,3,5) flags(1,3) assms(1) by (simp add: read_data_stitching_def s_write_def Let_def not_less)
  have x: "lanes ?x = kept ps @ take (8 - n) (lanes w)" using lanes_stitchWord [OF assms(1,2)] Cons.prems(4) by simp
  show ?case
  proof (cases "ws = []")
    case True
    then obtain js where w: "lanes w = kept bs @ map (\<lambda>j. (j, False)) js" "ax_last w" "bs \<noteq> []"
      using Cons.prems(6) by (auto simp: carries_single lastWord_lanes)
    show ?thesis
    proof (cases "length bs \<le> 8 - n")
      case fin: True
      have "lanes ?x = kept (ps @ bs) @ map (\<lambda>j. (j, False)) (take (8 - n - length bs) js)"
        using x w(1) fin by (simp add: take_map)
      then have "carries [?x] (ps @ bs)" using w(3) fin unfolding carries_single lastWord_lanes by auto
      with st True fin show ?thesis by (intro exI [of _ 1] exI [of _ ?k] exI [of _ "[?x]"]) simp
    next
      case False
      let ?r = "(stitchWord n (restWord n ?p w) zeroWord)\<lparr>ax_last := True\<rparr>"
      have r: "lanes ?r = drop (8 - n) (lanes w) @ take (8 - n) (lanes zeroWord)"
        using lanes_stitchWord [OF assms(1,2)] lanes_restWord [OF assms(1,2)] by simp
      have "lanes ?r = kept (drop (8 - n) bs) @ map (\<lambda>j. (j, False)) (drop (8 - n - length bs) js @ replicate (8 - n) 0)"
        using r w(1) False by (simp add: lanes_zero drop_map)
      then have "\<exists>js. lanes ?r = kept (drop (8 - n) bs) @ map (\<lambda>j. (j, False)) js" by blast
      then have "carries [?r] (drop (8 - n) bs)" using False unfolding carries_single lastWord_lanes by auto
      moreover have "lanes ?x = kept (take 8 (ps @ bs))" using x w(1) False Cons.prems(1) assms(2) by simp
      ultimately have "carries [?x, ?r] (ps @ bs)" using False Cons.prems(1) assms(2) by (simp add: carries_Cons)
      moreover have "read_data_stitching ?k = Some (?k\<lparr>rd_dataOut := rd_dataOut ?k @ [?r], rd_state := RD_IDLE\<rparr>)"
        using True False Cons.prems(2) assms(1) by (simp add: read_data_stitching_def s_write_def)
      ultimately show ?thesis using st True False
        by (intro exI [of _ 2] exI exI [of _ "[?x, ?r]"] conjI) (simp add: numeral_2_eq_2 | rule refl | assumption)+
    qed
  next
    case False
    then have w: "lanes w = kept (take 8 bs)" "8 < length bs" "carries ws (drop 8 bs)"
      using Cons.prems(6) by (simp_all add: carries_Cons)
    let ?ps = "drop (8 - n) (take 8 bs)"
    have "\<exists>m k' out. iter_opt read_data_stitching m ?k = Some k' \<and> rd_state k' = RD_IDLE \<and> rd_dataIn k' = rest \<and>
        rd_mergeIn k' = rd_mergeIn ?k \<and> rd_dataOut k' = rd_dataOut ?k @ out \<and> carries out (?ps @ drop 8 bs)"
      by (rule Cons.IH) (use w False Cons.prems(2) lanes_restWord [OF assms(1,2)] assms(1,2) in simp_all)
    then obtain m k' out where ih: "iter_opt read_data_stitching m ?k = Some k'" "rd_state k' = RD_IDLE" "rd_dataIn k' = rest"
      "rd_mergeIn k' = rd_mergeIn k" "rd_dataOut k' = rd_dataOut k @ ?x # out" "carries out (?ps @ drop 8 bs)" by auto
    have "?ps @ drop 8 bs = drop (8 - n) bs"
      using w(2) assms(1,2) append_take_drop_id [of n "drop (8 - n) bs"] by (simp add: drop_take)
    moreover have "lanes ?x = kept (take 8 (ps @ bs))" using x w(1,2) Cons.prems(1) assms(2) by simp
    ultimately have "carries (?x # out) (ps @ bs)"
      using ih(6) carries_nonempty [OF ih(6)] w(2) Cons.prems(1) assms(2) by (simp add: carries_Cons)
    with ih st show ?thesis by (intro exI [of _ "Suc m"] exI [of _ k'] exI [of _ "?x # out"]) simp
  qed
qed

lemma attach_rest: "is_packet ws \<Longrightarrow> rd_state k = RD_ATTACH_ALIGNED \<Longrightarrow> rd_dataIn k = ws @ rest \<Longrightarrow>
    iter_opt read_data_stitching (length ws) k = Some (k\<lparr>rd_dataIn := rest, rd_dataOut := rd_dataOut k @ ws, rd_state := RD_IDLE\<rparr>)"
proof (induction ws arbitrary: k)
  case Nil
  then show ?case by simp
next
  case (Cons w ws)
  have st: "read_data_stitching k = Some (k\<lparr>rd_dataIn := ws @ rest, rd_dataOut := rd_dataOut k @ [w],
      rd_state := (if ax_last w then RD_IDLE else RD_ATTACH_ALIGNED)\<rparr>)"
    using Cons.prems(2,3) by (simp add: read_data_stitching_def s_write_def Let_def)
  show ?case
  proof (cases "ax_last w")
    case True
    then have "ws = []" using Cons.prems(1) by (simp add: is_packet_Cons)
    with True st show ?thesis by simp
  next
    case False
    then have "is_packet ws" using Cons.prems(1) by (simp add: is_packet_Cons)
    from Cons.IH [OF this, of "k\<lparr>rd_dataIn := ws @ rest, rd_dataOut := rd_dataOut k @ [w], rd_state := RD_ATTACH_ALIGNED\<rparr>"] False st
    show ?thesis by simp
  qed
qed

text \<open>The first part, word by word.\<close>

lemma stitch_first:
  assumes "rd_dataIn k = w # ws"
    and "rd_state k = RD_FIRST_PART \<and> k1 = k\<lparr>rd_dataIn := ws\<rparr> \<or>
      rd_state k = RD_IDLE \<and> rd_mergeIn k = m # ms \<and> k1 = k\<lparr>rd_needsMerge := m, rd_mergeIn := ms, rd_dataIn := ws\<rparr>"
  shows "read_data_stitching k = Some (firstPart w k1)"
  using assms by (auto simp: read_data_stitching_def)

lemma first_rest:
  assumes "rd_dataIn k = vs @ ws @ rest" and "carries vs as" and "rd_needsMerge k = merge" and "rd_mergeIn k = ms"
    and "rd_state k = RD_FIRST_PART" and "merge \<Longrightarrow> carries ws bs" and "\<not> merge \<Longrightarrow> ws = []"
  shows "\<exists>m k' out. iter_opt read_data_stitching m k = Some k' \<and> rd_state k' = RD_IDLE \<and> rd_dataIn k' = rest \<and>
    rd_mergeIn k' = ms \<and> rd_dataOut k' = rd_dataOut k @ out \<and> carries out (as @ (if merge then bs else []))"
  using assms(1-5)
proof (induction vs arbitrary: k as)
  case Nil
  then show ?case by simp
next
  case (Cons w vs)
  define k0 where "k0 = k\<lparr>rd_dataIn := vs @ ws @ rest\<rparr>"
  have st: "read_data_stitching k = Some (firstPart w k0)"
    by (rule stitch_first) (use Cons.prems in \<open>simp_all add: k0_def\<close>)
  show ?case
  proof (cases "vs = []")
    case False
    then have w: "\<not> ax_last w" "lanes w = kept (take 8 as)" "carries vs (drop 8 as)" "8 < length as"
      using Cons.prems(2) by (simp_all add: carries_Cons)
    let ?k = "firstPart w k0"
    have k: "?k = k0\<lparr>rd_offset := keepToLen (ax_keep w), rd_dataOut := rd_dataOut k @ [w], rd_prevWord := w, rd_state := RD_FIRST_PART\<rparr>"
      using w(1) by (simp add: firstPart_def k0_def s_write_def)
    have "\<exists>m k' out. iter_opt read_data_stitching m ?k = Some k' \<and> rd_state k' = RD_IDLE \<and> rd_dataIn k' = rest \<and>
        rd_mergeIn k' = ms \<and> rd_dataOut k' = rd_dataOut ?k @ out \<and> carries out (drop 8 as @ (if merge then bs else []))"
      by (rule Cons.IH) (use w Cons.prems(3-5) in \<open>simp_all add: k, simp_all add: k0_def\<close>)
    then obtain m k' out where ih: "iter_opt read_data_stitching m ?k = Some k'" "rd_state k' = RD_IDLE" "rd_dataIn k' = rest"
      "rd_mergeIn k' = ms" "rd_dataOut k' = rd_dataOut k @ w # out" "carries out (drop 8 as @ (if merge then bs else []))"
      by (auto simp: k)
    have "carries (w # out) (as @ (if merge then bs else []))"
      using ih(6) carries_nonempty [OF ih(6)] w by (simp add: carries_Cons split: if_splits)
    with ih st show ?thesis by (intro exI [of _ "Suc m"] exI [of _ k'] exI [of _ "w # out"]) simp
  next
    case True
    then obtain js where w: "ax_last w" "lanes w = kept as @ map (\<lambda>j. (j, False)) js" "as \<noteq> []"
      using Cons.prems(2) by (auto simp: carries_single lastWord_lanes)
    have len: "length as \<le> 8" using arg_cong [OF w(2), of length] by simp
    have b7: "bit (ax_keep w) 7 \<longleftrightarrow> length as = 8" using bit_keep [OF w(2), of 7] len by auto
    note off = keepToLen_kept [OF w(2,3)]
    show ?thesis
    proof (cases merge)
      case False
      then have "firstPart w k0 = k0\<lparr>rd_offset := keepToLen (ax_keep w), rd_dataOut := rd_dataOut k @ [w], rd_prevWord := w, rd_state := RD_IDLE\<rparr>"
        using w(1) Cons.prems(3) by (simp add: firstPart_def k0_def s_write_def)
      with st True False Cons.prems(2,4) assms(7) show ?thesis
        by (intro exI [of _ 1] exI exI [of _ "[w]"] conjI) (simp add: k0_def | rule refl)+
    next
      case m: True
      let ?w = "w\<lparr>ax_last := False\<rparr>"
      show ?thesis
      proof (cases "length as = 8")
        case full: True
        let ?k = "k0\<lparr>rd_offset := keepToLen (ax_keep w), rd_prevWord := ?w, rd_dataOut := rd_dataOut k @ [?w], rd_state := RD_ATTACH_ALIGNED\<rparr>"
        have fp: "firstPart w k0 = ?k" using w(1) m Cons.prems(3) b7 full by (simp add: firstPart_def k0_def s_write_def Let_def)
        have run: "iter_opt read_data_stitching (length ws) ?k =
            Some (?k\<lparr>rd_dataIn := rest, rd_dataOut := rd_dataOut ?k @ ws, rd_state := RD_IDLE\<rparr>)"
          by (rule attach_rest) (use carries_packet [OF assms(6) [OF m]] True in \<open>simp_all add: k0_def\<close>)
        have "js = []" using arg_cong [OF w(2), of length] full by simp
        then have "lanes ?w = kept as" using w(2) by simp
        then have "carries (?w # ws) (as @ bs)"
          using assms(6) [OF m] carries_nonempty [OF assms(6) [OF m]] full by (simp add: carries_Cons)
        with st fp run m Cons.prems(4) show ?thesis
          by (intro exI [of _ "Suc (length ws)"] exI exI [of _ "?w # ws"] conjI) (simp add: k0_def | rule refl)+
      next
        case False
        let ?k = "k0\<lparr>rd_offset := keepToLen (ax_keep w), rd_prevWord := ?w, rd_state := RD_STITCH\<rparr>"
        have fp: "firstPart w k0 = ?k" using w(1) m Cons.prems(3) b7 False by (simp add: firstPart_def k0_def s_write_def Let_def)
        have "\<exists>m k' out. iter_opt read_data_stitching m ?k = Some k' \<and> rd_state k' = RD_IDLE \<and> rd_dataIn k' = rest \<and>
            rd_mergeIn k' = rd_mergeIn ?k \<and> rd_dataOut k' = rd_dataOut ?k @ out \<and> carries out (as @ bs)"
          by (rule stitch_rest [of "length as"]) (use w False len off assms(6) [OF m] True in \<open>auto simp: k0_def\<close>)
        then obtain n k' out where "iter_opt read_data_stitching n ?k = Some k'" "rd_state k' = RD_IDLE" "rd_dataIn k' = rest"
          "rd_mergeIn k' = ms" "rd_dataOut k' = rd_dataOut k @ out" "carries out (as @ bs)"
          using Cons.prems(4) by (auto simp: k0_def)
        with st fp m show ?thesis by (intro exI [of _ "Suc n"] exI [of _ k'] exI [of _ out]) simp
      qed
    qed
  qed
qed

text \<open>From the idle state the first word is treated as the others.\<close>

lemma stitch_packet:
  assumes "rd_state k = RD_IDLE" and "rd_mergeIn k = merge # ms" and "rd_dataIn k = vs @ ws @ rest" and "carries vs as"
    and "merge \<Longrightarrow> carries ws bs" and "\<not> merge \<Longrightarrow> ws = []"
  shows "\<exists>m k' out. iter_opt read_data_stitching m k = Some k' \<and> rd_state k' = RD_IDLE \<and> rd_dataIn k' = rest \<and>
    rd_mergeIn k' = ms \<and> rd_dataOut k' = rd_dataOut k @ out \<and> carries out (as @ (if merge then bs else []))"
proof -
  let ?k = "k\<lparr>rd_needsMerge := merge, rd_mergeIn := ms, rd_state := RD_FIRST_PART\<rparr>"
  obtain w vs' where vs: "vs = w # vs'" using carries_nonempty [OF assms(4)] by (cases vs) auto
  let ?k1 = "k\<lparr>rd_needsMerge := merge, rd_mergeIn := ms, rd_dataIn := vs' @ ws @ rest\<rparr>"
  have "read_data_stitching k = Some (firstPart w ?k1)"
    by (rule stitch_first) (use assms(1-3) vs in simp_all)
  moreover have "read_data_stitching ?k = Some (firstPart w (?k1\<lparr>rd_state := RD_FIRST_PART\<rparr>))"
    by (rule stitch_first) (use assms(3) vs in \<open>simp, cases k, simp\<close>)
  moreover have "firstPart w (?k1\<lparr>rd_state := RD_FIRST_PART\<rparr>) = firstPart w ?k1"
    by (simp add: firstPart_def Let_def)
  ultimately have same: "read_data_stitching ?k = read_data_stitching k" by simp
  have "\<exists>m k' out. iter_opt read_data_stitching m ?k = Some k' \<and> rd_state k' = RD_IDLE \<and> rd_dataIn k' = rest \<and>
    rd_mergeIn k' = ms \<and> rd_dataOut k' = rd_dataOut ?k @ out \<and> carries out (as @ (if merge then bs else []))"
    by (rule first_rest [where merge = merge and bs = bs and ws = ws and vs = vs]) (use assms in simp_all)
  then obtain m k' out where m: "iter_opt read_data_stitching m ?k = Some k'" "rd_state k' = RD_IDLE" "rd_dataIn k' = rest"
    "rd_mergeIn k' = ms" "rd_dataOut k' = rd_dataOut k @ out" "carries out (as @ (if merge then bs else []))" by auto
  from m(1,2) obtain n where "m = Suc n" by (cases m) auto
  with m(1) same have "iter_opt read_data_stitching m k = Some k'" by simp
  with m(2-6) show ?thesis by blast
qed

text \<open>The packets of two reads are merged into one with the bytes of both in order, whatever their lengths, and the
  packet of a single read is passed on: nothing is read out of range.\<close>

theorem merged_reads:
  assumes "rd_state k = RD_IDLE" and "rd_mergeIn k = merge # ms" and "carries vs as" and "carries ws bs"
    and "rd_dataIn k = vs @ (if merge then ws else []) @ rest"
  shows "\<exists>m k' out. iter_opt read_data_stitching m k = Some k' \<and> rd_state k' = RD_IDLE \<and> rd_dataIn k' = rest \<and>
    rd_mergeIn k' = ms \<and> rd_dataOut k' = rd_dataOut k @ out \<and> carries out (if merge then as @ bs else as)"
  using stitch_packet [OF assms(1,2,5,3), of bs] assms(4) by (cases merge) auto

section \<open>Witnesses\<close>

definition sampleBreakdown :: memBreakdown where
  "sampleBreakdown = \<lparr>bd_second = False, bd_cmd = newMmCmd 0 0, bd_lengthFirst = 0, bd_in = [newMmCmd (pkgAddr 3 65534) 4],
     bd_out = [], bd_merge = []\<rparr>"

theorem retransmission_reads_witness:
  "\<exists>parts. concat (map (readBytes (sendBuffer 3 65534 [1, 2, 3, 4] (\<lambda>_. 0))) parts) = [1, 2, 0, 0]"
proof -
  have h: "\<not> bd_second sampleBreakdown" "bd_in sampleBreakdown = newMmCmd (pkgAddr 3 65534) 4 # []"
    "length [1, 2, 3, 4 :: 8 word] = unat (4 :: 16 word)"
    by (simp_all add: sampleBreakdown_def)
  have n: "unat (65534 :: 16 word) = 65534" "unat (4 :: 16 word) = 4" by simp_all
  obtain parts where "concat (map (readBytes (sendBuffer 3 65534 [1, 2, 3, 4] (\<lambda>_. 0))) parts) =
      (if unat (65534 :: 16 word) + unat (4 :: 16 word) \<le> 65536 then [1, 2, 3, 4]
       else take (65536 - unat (65534 :: 16 word)) [1, 2, 3, 4] @ map (\<lambda>j. 0) [0..<unat (4 :: 16 word) - (65536 - unat (65534 :: 16 word))])"
    using retransmission_reads [OF h, of 0 "\<lambda>_. 0"] by blast
  moreover have "(if unat (65534 :: 16 word) + unat (4 :: 16 word) \<le> 65536 then [1, 2, 3, 4]
       else take (65536 - unat (65534 :: 16 word)) [1, 2, 3, 4] @ map (\<lambda>j. 0) [0..<unat (4 :: 16 word) - (65536 - unat (65534 :: 16 word))])
     = [1, 2, 0, 0 :: 8 word]" unfolding n by (simp add: upt_rec)
  ultimately show ?thesis by (intro exI [of _ parts]) (simp only:)
qed

definition sampleStitcher :: stitcher where
  "sampleStitcher = \<lparr>rd_state = RD_IDLE, rd_prevWord = zeroWord, rd_needsMerge = False, rd_offset = 0, rd_mergeIn = [True],
     rd_dataIn = [\<lparr>ax_data = 0x030201, ax_keep = 7, ax_last = True\<rparr>, \<lparr>ax_data = 0x0B0A090807060504, ax_keep = 0xFF, ax_last = True\<rparr>],
     rd_dataOut = []\<rparr>"

theorem merged_reads_witness:
  "\<exists>m k'. iter_opt read_data_stitching m sampleStitcher = Some k' \<and> carries (rd_dataOut k') [1, 2, 3, 4, 5, 6, 7, 8, 9, 10, 11]"
proof -
  have h: "rd_state sampleStitcher = RD_IDLE" "rd_mergeIn sampleStitcher = True # []"
    "carries (take 1 (rd_dataIn sampleStitcher)) [1, 2, 3]" "carries (drop 1 (rd_dataIn sampleStitcher)) [4, 5, 6, 7, 8, 9, 10, 11]"
    "rd_dataIn sampleStitcher = take 1 (rd_dataIn sampleStitcher) @ (if True then drop 1 (rd_dataIn sampleStitcher) else []) @ []"
    "rd_dataOut sampleStitcher = []"
    by (simp add: sampleStitcher_def, simp add: sampleStitcher_def, code_simp, code_simp, simp, simp add: sampleStitcher_def)
  from merged_reads [OF h(1-5)] h(6) show ?thesis by fastforce
qed

end
