(* ===== verification/Toe_Tx_Header.thy ===== *)
theory Toe_Tx_Header
  imports Toe_Tx_Memory Toe_Rx_Segment
begin

text \<open>
  The first stages of the transmit engine (\<^verbatim>\<open>toe/tx_engine/tx_engine.cpp\<close>) that make a packet of header data
  and payload: \<^verbatim>\<open>pseudoHeaderConstructionNew\<close> writes the pseudo header of the checksum and the TCP
  header, \<^verbatim>\<open>tcp_ipv4_checksum\<close> adds them up with the payload.  Words have the built width of 64 bits; what
  the code does for wider words only is left out.  The lemmas say which bytes the header words carry, and that the
  checksum issued is the complement of the one's complement sum of header and payload.
\<close>

section \<open>Header\<close>

datatype headerState = HC_META | HC_HEADER | HC_BODY | HC_MSS_OPTION

record headerStage =
  hc_state :: headerState
  hc_header :: "256 word packetHeader"
  hc_hasBody :: bool
  hc_isSYN :: bool
  hc_metaIn :: "tx_engine_meta hls_stream"
  hc_tupleIn :: "fourTuple hls_stream"
  hc_dataIn :: "axiWord hls_stream"
  hc_headerOut :: "axiWord hls_stream"
  hc_payloadOut :: "axiWord hls_stream"
  hc_hasPayload :: "bool hls_stream"

definition bitWord :: "bool \<Rightarrow> 1 word" where
  "bitWord b = (if b then 1 else 0)"

text \<open>The setters of \<^verbatim>\<open>tcpFullPseudoHeader\<close>, in the order of the calls.\<close>

definition setTcpHeader :: "tx_engine_meta \<Rightarrow> fourTuple \<Rightarrow> 256 word \<Rightarrow> 256 word" where
  "setTcpHeader m t h =
     (let h = upd 31 0 (reverse32 (reverse32 (ft_srcIp t))) h;
          h = upd 63 32 (reverse32 (reverse32 (ft_dstIp t))) h;
          h = upd 95 80 (reverse16 (te_length m + 0x14)) h;
          h = upd 111 96 (reverse16 (reverse16 (ft_srcPort t))) h;
          h = upd 127 112 (reverse16 (reverse16 (ft_dstPort t))) h;
          h = upd 159 128 (reverse32 (te_seqNumb m)) h;
          h = upd 191 160 (reverse32 (te_ackNumb m)) h;
          h = upd 199 196 (5 + ucast (bitWord (te_syn m)) :: 4 word) h;
          h = upd 200 200 (bitWord (te_fin m)) h;
          h = upd 201 201 (bitWord (te_syn m)) h;
          h = upd 202 202 (bitWord (te_rst m)) h;
          h = upd 204 204 (bitWord (te_ack m)) h;
          h = upd 223 208 (reverse16 (te_window_size m)) h
      in upd 239 224 (reverse16 0) h)"

definition mssWord :: axiWord where
  "mssWord = \<lparr>ax_data = upd 31 16 (reverse16 (of_nat MSS)) (upd 15 8 (4 :: 8 word) (upd 7 0 (2 :: 8 word) 0)), ax_keep = 0x0F, ax_last = True\<rparr>"

definition pseudoHeaderConstructionNew :: "headerStage \<Rightarrow> headerStage" where
  "pseudoHeaderConstructionNew k =
     (case hc_state k of
        HC_META \<Rightarrow>
          if \<not> s_empty (hc_metaIn k) \<and> \<not> s_empty (hc_tupleIn k) then
            (let m = s_head (hc_metaIn k); t = s_head (hc_tupleIn k); h = clearHeader (hc_header k);
                 hasBody = (te_length m \<noteq> 0 \<and> \<not> te_syn m) in
             k\<lparr>hc_metaIn := s_rest (hc_metaIn k), hc_tupleIn := s_rest (hc_tupleIn k),
               hc_header := h\<lparr>ph_header := setTcpHeader m t (ph_header h)\<rparr>, hc_hasBody := hasBody,
               hc_hasPayload := s_write (hc_hasPayload k) hasBody, hc_isSYN := te_syn m, hc_state := HC_HEADER\<rparr>)
          else k
      | HC_HEADER \<Rightarrow>
          (let (d, remainingLength, h) = consumeWord 0 (hc_header k); final = remainingLength < 8;
               lastHeader = (final \<and> (hc_hasBody k \<or> \<not> hc_isSYN k)) in
           k\<lparr>hc_header := h, hc_headerOut := s_write (hc_headerOut k) \<lparr>ax_data = d, ax_keep = 0xFF, ax_last = lastHeader\<rparr>,
             hc_state := (if \<not> final then HC_HEADER else if hc_hasBody k then HC_BODY
               else if hc_isSYN k then HC_MSS_OPTION else HC_META)\<rparr>)
      | HC_BODY \<Rightarrow>
          if \<not> s_empty (hc_dataIn k) then
            (let w = s_head (hc_dataIn k) in
             k\<lparr>hc_dataIn := s_rest (hc_dataIn k), hc_payloadOut := s_write (hc_payloadOut k) w,
               hc_state := (if ax_last w then HC_META else HC_BODY)\<rparr>)
          else k
      | HC_MSS_OPTION \<Rightarrow> k\<lparr>hc_headerOut := s_write (hc_headerOut k) mssWord, hc_state := HC_META\<rparr>)"

section \<open>Checksum\<close>

datatype sumState = TS_START | TS_HEADER | TS_PAYLOAD | TS_SUMMED | TS_FINISH

record sumStage =
  ts_sums :: subSums
  ts_state :: sumState
  ts_hasBody :: bool
  ts_validSum :: bool
  ts_firstWord :: bool
  ts_headerIn :: "axiWord hls_stream"
  ts_headerOut :: "axiWord hls_stream"
  ts_dataIn :: "axiWord hls_stream"
  ts_dataOut :: "axiWord hls_stream"
  ts_subSumIn :: "16 word hls_stream"
  ts_validIn :: "bool hls_stream"
  ts_payloadIn :: "bool hls_stream"
  ts_payloadDup :: "bool hls_stream"
  ts_checksum :: "16 word hls_stream"
  ts_event :: "bool hls_stream"

definition addColumns :: "axiWord \<Rightarrow> subSums \<Rightarrow> subSums" where
  "addColumns w s = (\<lambda>i. if i < 4 then addColumn w i (s i) else s i)"

definition issueChecksum :: "sumStage \<Rightarrow> sumStage" where
  "issueChecksum k = k\<lparr>ts_checksum := s_write (ts_checksum k) (rng 15 0 (NOT (totalSum (ts_sums k)))),
     ts_event := s_write (ts_event k) True, ts_sums := (\<lambda>i. 0)\<rparr>"

definition tcp_ipv4_checksum :: "sumStage \<Rightarrow> sumStage" where
  "tcp_ipv4_checksum k =
     (case ts_state k of
        TS_START \<Rightarrow>
          if \<not> s_empty (ts_payloadIn k) \<and> \<not> s_empty (ts_validIn k) \<and> \<not> s_empty (ts_subSumIn k) then
            (let hasBody = s_head (ts_payloadIn k); valid = s_head (ts_validIn k) in
             k\<lparr>ts_payloadIn := s_rest (ts_payloadIn k), ts_validIn := s_rest (ts_validIn k), ts_subSumIn := s_rest (ts_subSumIn k),
               ts_hasBody := hasBody, ts_payloadDup := s_write (ts_payloadDup k) hasBody, ts_validSum := valid,
               ts_sums := (if valid then (ts_sums k)(0 := ucast (s_head (ts_subSumIn k))) else ts_sums k),
               ts_firstWord := True, ts_state := TS_HEADER\<rparr>)
          else k
      | TS_HEADER \<Rightarrow>
          if \<not> s_empty (ts_headerIn k) then
            (let w = s_head (ts_headerIn k) in
             k\<lparr>ts_headerIn := s_rest (ts_headerIn k), ts_headerOut := s_write (ts_headerOut k) w,
               ts_sums := addColumns w (ts_sums k),
               ts_state := (if \<not> ax_last w then TS_HEADER else if ts_hasBody k \<and> \<not> ts_validSum k then TS_PAYLOAD
                 else if ts_hasBody k \<and> ts_validSum k then TS_SUMMED else TS_FINISH)\<rparr>)
          else k
      | TS_PAYLOAD \<Rightarrow>
          if \<not> s_empty (ts_dataIn k) then
            (let w = s_head (ts_dataIn k) in
             k\<lparr>ts_dataIn := s_rest (ts_dataIn k), ts_dataOut := s_write (ts_dataOut k) w,
               ts_sums := addColumns w (ts_sums k), ts_state := (if ax_last w then TS_FINISH else TS_PAYLOAD)\<rparr>)
          else k
      | TS_SUMMED \<Rightarrow>
          (let k = (if \<not> s_empty (ts_dataIn k) then
                      (let w = s_head (ts_dataIn k) in
                       k\<lparr>ts_dataIn := s_rest (ts_dataIn k), ts_dataOut := s_write (ts_dataOut k) w,
                         ts_state := (if ax_last w then TS_START else TS_SUMMED)\<rparr>)
                    else k) in
           if ts_firstWord k then (issueChecksum k)\<lparr>ts_firstWord := False\<rparr> else k)
      | TS_FINISH \<Rightarrow> (issueChecksum k)\<lparr>ts_state := TS_START\<rparr>)"

section \<open>What the header stage writes\<close>

lemma full_prefix:
  assumes "lanes x = kept cs" and "\<not> ax_last x" and "carries out bs"
  shows "carries (x # out) (cs @ bs)"
proof -
  have "length cs = 8" using arg_cong [OF assms(1), of length] by simp
  with assms carries_nonempty [OF assms(3)] show ?thesis by (simp add: carries_Cons)
qed

definition offsetByte :: "tx_engine_meta \<Rightarrow> 8 word" where
  "offsetByte m = upd 7 4 (5 + ucast (bitWord (te_syn m)) :: 4 word) 0"

definition flagByte :: "tx_engine_meta \<Rightarrow> 8 word" where
  "flagByte m = upd 4 4 (bitWord (te_ack m)) (upd 2 2 (bitWord (te_rst m)) (upd 1 1 (bitWord (te_syn m)) (upd 0 0 (bitWord (te_fin m)) 0)))"

definition headBytes :: "tx_engine_meta \<Rightarrow> fourTuple \<Rightarrow> 8 word list" where
  "headBytes m t = bytes32 (reverse32 (ft_srcIp t)) @ bytes32 (reverse32 (ft_dstIp t)) @ [0, 6] @ bytes16 (te_length m + 20) @
     bytes16 (reverse16 (ft_srcPort t)) @ bytes16 (reverse16 (ft_dstPort t)) @ bytes32 (te_seqNumb m) @ bytes32 (te_ackNumb m) @
     [offsetByte m, flagByte m] @ bytes16 (te_window_size m) @ [0, 0, 0, 0]"

definition optionBytes :: "tx_engine_meta \<Rightarrow> 8 word list" where
  "optionBytes m = (if te_syn m then [2, 4, 5, 180] else [])"

lemma length_headBytes [simp]: "length (headBytes m t) = 32"
  by (simp add: headBytes_def)

text \<open>The constructor of the header sets what nothing changes; the rest of the static header starts as zero.\<close>

definition headerInit :: "256 word \<Rightarrow> bool" where
  "headerInit h \<longleftrightarrow> headerByte h 8 = 0 \<and> headerByte h 9 = 6 \<and> (rng 195 192 h :: 4 word) = 0 \<and> \<not> bit h 203 \<and>
     (rng 207 205 h :: 3 word) = 0 \<and> headerByte h 30 = 0 \<and> headerByte h 31 = 0"

definition hcReady :: "headerStage \<Rightarrow> bool" where
  "hcReady k \<longleftrightarrow> hc_state k = HC_META \<and> headerInit (ph_header (hc_header k))"

lemma bit_reverse: "reverse16 0 = 0" "bit (bitWord b) 0 = b" "n \<noteq> 0 \<Longrightarrow> \<not> bit (bitWord b) n"
  by (code_simp, simp_all add: bitWord_def bit_1_iff)

lemma headerInit_set: "headerInit h \<Longrightarrow> headerInit (setTcpHeader m t h)"
  by (simp add: headerInit_def setTcpHeader_def headerByte_def rng_simps bit_upd Let_def)

lemma setTcpHeader_bytes:
  assumes "headerInit h" and "i < 32"
  shows "headerByte (setTcpHeader m t h) i = headBytes m t ! i"
proof -
  let ?h = "setTcpHeader m t h"
  note d = setTcpHeader_def headerByte_def rng_simps rng_upd_inside reverse32_rng reverse16_rng bit_reverse(1) Let_def
  note i0 = assms(1) [unfolded headerInit_def headerByte_def, simplified]
  have 1: "map (headerByte ?h) [0..<12] = take 12 (headBytes m t)"
    by (simp add: upt_rec d i0 headBytes_def bytes32_def bytes16_def)
  have 2: "map (headerByte ?h) [12..<24] = take 12 (drop 12 (headBytes m t))"
    by (simp add: upt_rec d i0 headBytes_def bytes32_def bytes16_def)
  have o: "headerByte ?h 24 = offsetByte m"
  proof (rule bit_word_eqI)
    fix j assume "j < LENGTH(8)"
    then have "j < 4 \<or> 4 \<le> j \<and> j < 8" by auto
    moreover have "bit h (192 + j) \<longleftrightarrow> bit (rng 195 192 h :: 4 word) j" if "j < 4" using that by (simp add: bit_simps)
    ultimately show "bit (headerByte ?h 24) j = bit (offsetByte m) j"
      using i0 by (auto simp: headerByte_def bit_simps setTcpHeader_def offsetByte_def Let_def)
  qed
  have f: "headerByte ?h 25 = flagByte m"
  proof (rule bit_word_eqI)
    fix j assume "j < LENGTH(8)"
    then have "j = 0 \<or> j = 1 \<or> j = 2 \<or> j = 3 \<or> j = 4 \<or> j = 5 \<or> j = 6 \<or> j = 7" by auto
    moreover have "bit h (205 + n) \<longleftrightarrow> bit (rng 207 205 h :: 3 word) n" if "n < 3" for n using that by (simp add: bit_simps)
    from this [of 0] this [of 1] this [of 2] have "\<not> bit h 205" "\<not> bit h 206" "\<not> bit h 207" using i0 by simp_all
    ultimately show "bit (headerByte ?h 25) j = bit (flagByte m) j"
      using i0 by (elim disjE) (simp_all add: headerByte_def bit_rng bit_upd setTcpHeader_def flagByte_def Let_def)
  qed
  have 3: "map (headerByte ?h) [26..<32] = take 6 (drop 26 (headBytes m t))"
    by (simp add: upt_rec d i0 headBytes_def bytes32_def bytes16_def)
  have u: "[0..<32] = [0..<12] @ [12..<24] @ [24, 25] @ [26..<32]" by code_simp
  have "map (headerByte ?h) [0..<32] = map (headerByte ?h) [0..<12] @ map (headerByte ?h) [12..<24] @
      [headerByte ?h 24, headerByte ?h 25] @ map (headerByte ?h) [26..<32]"
    unfolding u by simp
  also have "\<dots> = headBytes m t"
    unfolding 1 2 3 o f by (simp add: headBytes_def bytes32_def bytes16_def)
  finally have "map (headerByte ?h) [0..<32] ! i = headBytes m t ! i" by simp
  with assms(2) show ?thesis by simp
qed

text \<open>A word of a header that is given out.\<close>

definition headWord :: "'h::len word \<Rightarrow> nat \<Rightarrow> bool \<Rightarrow> axiWord" where
  "headWord h i l = \<lparr>ax_data = rng (64 * i + 63) (64 * i) h, ax_keep = 0xFF, ax_last = l\<rparr>"

lemma headWord_last [simp]: "ax_last (headWord h i l) = l"
  by (simp add: headWord_def)

lemma byteAt_rng:
  assumes "8 * (8 * i + j) + 8 \<le> LENGTH('h)" and "j < 8" and "64 * i + 8 * j + 7 \<le> hi"
  shows "byteAt (rng hi (64 * i) (h :: 'h::len word)) j = headerByte h (8 * i + j)"
proof (rule bit_word_eqI)
  fix n assume "n < LENGTH(8)"
  then have "n < 8" by simp
  with assms show "bit (byteAt (rng hi (64 * i) h) j) n = bit (headerByte h (8 * i + j)) n"
    by (simp add: byteAt_def headerByte_def bit_simps algebra_simps)
qed

lemma lanes_headWord:
  assumes "64 * i + 64 \<le> LENGTH('h)"
  shows "lanes (headWord (h :: 'h::len word) i l) = kept (map (headerByte h) [8 * i..<8 * i + 8])"
proof (rule nth_equalityI)
  fix j assume "j < length (lanes (headWord h i l))"
  then have j: "j < 8" by simp
  then have "bit (0xFF :: 8 word) j" by (auto simp: less_Suc_eq numeral_eq_Suc)
  with j assms show "lanes (headWord h i l) ! j = kept (map (headerByte h) [8 * i..<8 * i + 8]) ! j"
    by (simp add: nth_lanes headWord_def byteAt_rng)
qed simp

lemma hc_word:
  assumes "hc_state k = HC_HEADER" and "ph_idx (hc_header k) = of_nat i" and "i < 4"
  shows "pseudoHeaderConstructionNew k = k\<lparr>hc_header := (hc_header k)\<lparr>ph_idx := of_nat (Suc i)\<rparr>,
    hc_headerOut := hc_headerOut k @ [headWord (ph_header (hc_header k)) i (i = 3 \<and> (hc_hasBody k \<or> \<not> hc_isSYN k))],
    hc_state := (if i \<noteq> 3 then HC_HEADER else if hc_hasBody k then HC_BODY else if hc_isSYN k then HC_MSS_OPTION else HC_META)\<rparr>"
proof -
  have i: "i = 0 \<or> i = 1 \<or> i = 2 \<or> i = 3" using assms(3) by auto
  then have u: "unat (ph_idx (hc_header k)) = i" using assms(2) by auto
  from i show ?thesis
    using assms(1,2) u by (elim disjE) (simp_all add: pseudoHeaderConstructionNew_def consumeWord_def s_write_def headWord_def)
qed

lemma funpow4: "(f ^^ 4) x = f (f (f (f x)))"
  by (simp add: numeral_eq_Suc)

lemma hc_words:
  assumes "hc_state k = HC_HEADER" and "ph_idx (hc_header k) = 0" and "h = ph_header (hc_header k)"
  shows "(pseudoHeaderConstructionNew ^^ 4) k = k\<lparr>hc_header := (hc_header k)\<lparr>ph_idx := 4\<rparr>,
    hc_headerOut := hc_headerOut k @ [headWord h 0 False, headWord h 1 False, headWord h 2 False, headWord h 3 (hc_hasBody k \<or> \<not> hc_isSYN k)],
    hc_state := (if hc_hasBody k then HC_BODY else if hc_isSYN k then HC_MSS_OPTION else HC_META)\<rparr>"
proof -
  define k1 where "k1 = k\<lparr>hc_header := (hc_header k)\<lparr>ph_idx := 1\<rparr>, hc_headerOut := hc_headerOut k @ [headWord h 0 False]\<rparr>"
  define k2 where "k2 = k1\<lparr>hc_header := (hc_header k)\<lparr>ph_idx := 2\<rparr>, hc_headerOut := hc_headerOut k1 @ [headWord h 1 False]\<rparr>"
  define k3 where "k3 = k2\<lparr>hc_header := (hc_header k)\<lparr>ph_idx := 3\<rparr>, hc_headerOut := hc_headerOut k2 @ [headWord h 2 False]\<rparr>"
  have f1: "hc_state k1 = HC_HEADER" "ph_idx (hc_header k1) = of_nat 1" "ph_header (hc_header k1) = h"
    using assms by (simp_all add: k1_def)
  have f2: "hc_state k2 = HC_HEADER" "ph_idx (hc_header k2) = of_nat 2" "ph_header (hc_header k2) = h"
    using assms f1 by (simp_all add: k2_def)
  have f3: "hc_state k3 = HC_HEADER" "ph_idx (hc_header k3) = of_nat 3" "ph_header (hc_header k3) = h"
    using assms f2 by (simp_all add: k3_def)
  have "pseudoHeaderConstructionNew k = k1" using hc_word [of k 0] assms by (simp add: k1_def)
  moreover have "pseudoHeaderConstructionNew k1 = k2" unfolding hc_word [OF f1(1,2), simplified] f1(3) using f1(1) by (simp add: k2_def k1_def)
  moreover have "pseudoHeaderConstructionNew k2 = k3" unfolding hc_word [OF f2(1,2), simplified] f2(3) using f2(1) by (simp add: k3_def k2_def k1_def)
  ultimately show ?thesis unfolding funpow4 using hc_word [OF f3(1,2)] f3(3) by (simp add: k3_def k2_def k1_def)
qed

lemma hc_body: "is_packet ws \<Longrightarrow> hc_state k = HC_BODY \<Longrightarrow> hc_dataIn k = ws @ rest \<Longrightarrow>
    (pseudoHeaderConstructionNew ^^ length ws) k = k\<lparr>hc_dataIn := rest, hc_payloadOut := hc_payloadOut k @ ws, hc_state := HC_META\<rparr>"
proof (induction ws arbitrary: k)
  case (Cons w ws)
  have st: "pseudoHeaderConstructionNew k = k\<lparr>hc_dataIn := ws @ rest, hc_payloadOut := hc_payloadOut k @ [w],
      hc_state := (if ax_last w then HC_META else HC_BODY)\<rparr>"
    using Cons.prems by (simp add: pseudoHeaderConstructionNew_def s_write_def Let_def)
  show ?case
  proof (cases "ax_last w")
    case True
    then have "ws = []" using Cons.prems(1) by (simp add: is_packet_Cons)
    with True st show ?thesis by simp
  next
    case False
    then have "is_packet ws" using Cons.prems(1) by (simp add: is_packet_Cons)
    with Cons.IH [of "pseudoHeaderConstructionNew k"] False show ?thesis
      by (simp add: st funpow_Suc_apply del: funpow.simps(2))
  qed
qed simp

definition bodyOf :: "tx_engine_meta \<Rightarrow> bool" where
  "bodyOf m \<longleftrightarrow> te_length m \<noteq> 0 \<and> \<not> te_syn m"

definition headWords :: "256 word \<Rightarrow> tx_engine_meta \<Rightarrow> axiWord list" where
  "headWords h m = [headWord h 0 False, headWord h 1 False, headWord h 2 False, headWord h 3 (\<not> te_syn m)] @ (if te_syn m then [mssWord] else [])"

lemma mssWord_carries: "carries [mssWord] [2, 4, 5, 180]"
  by code_simp

lemma headWords_carries:
  assumes "headerInit h"
  shows "carries (headWords (setTcpHeader m t h) m) (headBytes m t @ optionBytes m)"
proof -
  let ?h = "setTcpHeader m t h" and ?hb = "headBytes m t"
  have l: "lanes (headWord ?h i b) = kept (take 8 (drop (8 * i) ?hb))" if "i < 4" for i b
  proof -
    have "map (headerByte ?h) [8 * i..<8 * i + 8] = take 8 (drop (8 * i) ?hb)"
      using that setTcpHeader_bytes [OF assms] by (intro nth_equalityI) auto
    with that show ?thesis by (simp add: lanes_headWord)
  qed
  have last: "carries (headWord ?h 3 (\<not> te_syn m) # (if te_syn m then [mssWord] else [])) (drop 24 ?hb @ optionBytes m)"
  proof (cases "te_syn m")
    case True
    have "lanes (headWord ?h 3 False) = kept (drop 24 ?hb)" using l [of 3] by simp
    from full_prefix [OF this _ mssWord_carries] True show ?thesis by (simp add: optionBytes_def)
  next
    case False
    have "drop 24 ?hb \<noteq> []" by (simp flip: length_greater_0_conv)
    with False l [of 3] show ?thesis by (auto simp: carries_single lastWord_lanes optionBytes_def intro: exI [of _ "[]"])
  qed
  have d: "take 8 (drop n ?hb) @ drop (n + 8) ?hb = drop n ?hb" for n by (metis append_take_drop_id drop_drop add.commute)
  note c2 = full_prefix [OF l [of 2 False] _ last, simplified]
  note c1 = full_prefix [OF l [of 1 False] _ c2, simplified]
  note c0 = full_prefix [OF l [of 0 False] _ c1, simplified]
  have "take 8 ?hb @ take 8 (drop 8 ?hb) @ take 8 (drop 16 ?hb) @ drop 24 ?hb = ?hb"
    using d [of 0] d [of 8] d [of 16] by simp
  then have e: "?hb @ optionBytes m = take 8 ?hb @ take 8 (drop 8 ?hb) @ take 8 (drop 16 ?hb) @ drop 24 ?hb @ optionBytes m"
    by (metis append.assoc)
  show ?thesis unfolding e headWords_def using c0 by simp
qed

text \<open>One segment through the header stage.\<close>

definition hcSent :: "headerStage \<Rightarrow> tx_engine_meta \<Rightarrow> fourTuple \<Rightarrow> axiWord list \<Rightarrow> headerStage \<Rightarrow> bool" where
  "hcSent k m t ws k' \<longleftrightarrow> hcReady k' \<and> hc_metaIn k = m # hc_metaIn k' \<and> hc_tupleIn k = t # hc_tupleIn k' \<and>
     hc_dataIn k = ws @ hc_dataIn k' \<and> hc_payloadOut k' = hc_payloadOut k @ ws \<and> hc_hasPayload k' = hc_hasPayload k @ [bodyOf m] \<and>
     (\<exists>out. hc_headerOut k' = hc_headerOut k @ out \<and> carries out (headBytes m t @ optionBytes m))"

lemma hc_segment:
  assumes "hcReady k" and "hc_metaIn k = m # ms" and "hc_tupleIn k = t # ts" and "hc_dataIn k = ws @ rest"
    and "if bodyOf m then is_packet ws else ws = []"
  shows "\<exists>n. hcSent k m t ws ((pseudoHeaderConstructionNew ^^ n) k)"
proof -
  define h where "h = setTcpHeader m t (ph_header (hc_header k))"
  define k1 where "k1 = k\<lparr>hc_metaIn := ms, hc_tupleIn := ts, hc_header := \<lparr>ph_ready = False, ph_idx = 0, ph_header = h\<rparr>,
    hc_hasBody := bodyOf m, hc_hasPayload := hc_hasPayload k @ [bodyOf m], hc_isSYN := te_syn m, hc_state := HC_HEADER\<rparr>"
  have i: "headerInit (ph_header (hc_header k))" "hc_state k = HC_META" using assms(1) by (simp_all add: hcReady_def)
  have hi: "headerInit h" using i by (simp add: h_def headerInit_set)
  have out: "carries (headWords h m) (headBytes m t @ optionBytes m)" unfolding h_def by (rule headWords_carries [OF i(1)])
  have s1: "pseudoHeaderConstructionNew k = k1"
    using assms(2,3) i(2) by (cases "hc_header k") (simp add: pseudoHeaderConstructionNew_def k1_def h_def clearHeader_def s_write_def bodyOf_def Let_def)
  have f1: "hc_state k1 = HC_HEADER" "ph_idx (hc_header k1) = 0" "h = ph_header (hc_header k1)" by (simp_all add: k1_def)
  define k2 where "k2 = (pseudoHeaderConstructionNew ^^ 4) k1"
  have k2: "k2 = k1\<lparr>hc_header := \<lparr>ph_ready = False, ph_idx = 4, ph_header = h\<rparr>,
      hc_headerOut := hc_headerOut k @ [headWord h 0 False, headWord h 1 False, headWord h 2 False, headWord h 3 (bodyOf m \<or> \<not> te_syn m)],
      hc_state := (if bodyOf m then HC_BODY else if te_syn m then HC_MSS_OPTION else HC_META)\<rparr>"
    unfolding k2_def hc_words [OF f1] by (simp add: k1_def)
  have syn: "bodyOf m \<Longrightarrow> \<not> te_syn m" by (simp add: bodyOf_def)
  have "\<exists>n. hcSent k m t ws ((pseudoHeaderConstructionNew ^^ n) k2)"
  proof (cases "bodyOf m")
    case True
    with assms(5) have ws: "is_packet ws" by simp
    have "hc_state k2 = HC_BODY" "hc_dataIn k2 = ws @ rest" using True assms(4) by (simp_all add: k2 k1_def)
    from hc_body [OF ws this] True syn out hi assms(2-4) show ?thesis
      by (intro exI [of _ "length ws"]) (simp add: hcSent_def hcReady_def k2 k1_def headWords_def)
  next
    case nobody: False
    show ?thesis
    proof (cases "te_syn m")
      case True
      have "pseudoHeaderConstructionNew k2 = k2\<lparr>hc_headerOut := hc_headerOut k2 @ [mssWord], hc_state := HC_META\<rparr>"
        using True nobody by (simp add: k2 pseudoHeaderConstructionNew_def s_write_def)
      with True nobody out hi assms(2-5) show ?thesis
        by (intro exI [of _ 1]) (simp add: hcSent_def hcReady_def k2 k1_def headWords_def)
    next
      case False
      with nobody out hi assms(2-5) show ?thesis
        by (intro exI [of _ 0]) (simp add: hcSent_def hcReady_def k2 k1_def headWords_def)
    qed
  qed
  then obtain n where "hcSent k m t ws ((pseudoHeaderConstructionNew ^^ n) k2)" ..
  moreover have "(pseudoHeaderConstructionNew ^^ n) k2 = (pseudoHeaderConstructionNew ^^ (n + 4 + 1)) k"
    unfolding k2_def funpow_add by (simp add: s1)
  ultimately show ?thesis by metis
qed

section \<open>What the checksum stage computes\<close>

definition columnsOf :: "subSums \<Rightarrow> (nat \<Rightarrow> nat) \<Rightarrow> bool" where
  "columnsOf s n \<longleftrightarrow> (\<forall>i<4. unat (s i) = oneSum (n i))"

lemma columns_word: "columnsOf s n \<Longrightarrow> columnsOf (addColumns w s) (\<lambda>i. n i + columnOf w i)"
  by (simp add: columnsOf_def addColumns_def addColumn_one oneSum_le)

lemma columns_packet: "carries ws bs \<Longrightarrow> columnsOf s n \<Longrightarrow>
    \<exists>m. columnsOf (fold addColumns ws s) m \<and> m 0 + m 1 + m 2 + m 3 = n 0 + n 1 + n 2 + n 3 + packetSum bs"
proof (induction ws arbitrary: s n bs)
  case (Cons w ws)
  let ?m = "\<lambda>i. n i + columnOf w i"
  note c = columns_word [OF Cons.prems(2), of w]
  show ?case
  proof (cases "ws = []")
    case True
    then obtain js where "lanes w = kept bs @ map (\<lambda>j. (j, False)) js"
      using Cons.prems(1) by (auto simp: carries_single lastWord_lanes)
    from columns_last [OF this] c True show ?thesis by (intro exI [of _ ?m]) simp
  next
    case False
    then have w: "lanes w = kept (take 8 bs)" "carries ws (drop 8 bs)" "8 < length bs"
      using Cons.prems(1) by (simp_all add: carries_Cons)
    have "packetSum bs = packetSum (take 8 bs) + packetSum (drop 8 bs)"
      using packetSum_append8 [of "take 8 bs" "drop 8 bs"] w(3) by simp
    with columns_full [OF w(1)] Cons.IH [OF w(2) c] show ?thesis by auto
  qed
qed simp

lemma ts_head: "is_packet ws \<Longrightarrow> ts_state k = TS_HEADER \<Longrightarrow> ts_headerIn k = ws @ rest \<Longrightarrow>
    (tcp_ipv4_checksum ^^ length ws) k = k\<lparr>ts_headerIn := rest, ts_headerOut := ts_headerOut k @ ws,
      ts_sums := fold addColumns ws (ts_sums k),
      ts_state := (if \<not> ts_hasBody k then TS_FINISH else if ts_validSum k then TS_SUMMED else TS_PAYLOAD)\<rparr>"
proof (induction ws arbitrary: k)
  case (Cons w ws)
  have st: "tcp_ipv4_checksum k = k\<lparr>ts_headerIn := ws @ rest, ts_headerOut := ts_headerOut k @ [w], ts_sums := addColumns w (ts_sums k),
      ts_state := (if \<not> ax_last w then TS_HEADER else if \<not> ts_hasBody k then TS_FINISH else if ts_validSum k then TS_SUMMED else TS_PAYLOAD)\<rparr>"
    using Cons.prems by (auto simp: tcp_ipv4_checksum_def s_write_def Let_def)
  show ?case
  proof (cases "ax_last w")
    case True
    then have "ws = []" using Cons.prems(1) by (simp add: is_packet_Cons)
    with True st show ?thesis by simp
  next
    case False
    then have "is_packet ws" using Cons.prems(1) by (simp add: is_packet_Cons)
    with Cons.IH [of "tcp_ipv4_checksum k"] False show ?thesis
      by (simp add: st funpow_Suc_apply del: funpow.simps(2))
  qed
qed simp

lemma ts_payload: "is_packet ws \<Longrightarrow> ts_state k = TS_PAYLOAD \<Longrightarrow> ts_dataIn k = ws @ rest \<Longrightarrow>
    (tcp_ipv4_checksum ^^ length ws) k = k\<lparr>ts_dataIn := rest, ts_dataOut := ts_dataOut k @ ws,
      ts_sums := fold addColumns ws (ts_sums k), ts_state := TS_FINISH\<rparr>"
proof (induction ws arbitrary: k)
  case (Cons w ws)
  have st: "tcp_ipv4_checksum k = k\<lparr>ts_dataIn := ws @ rest, ts_dataOut := ts_dataOut k @ [w], ts_sums := addColumns w (ts_sums k),
      ts_state := (if ax_last w then TS_FINISH else TS_PAYLOAD)\<rparr>"
    using Cons.prems by (simp add: tcp_ipv4_checksum_def s_write_def Let_def)
  show ?case
  proof (cases "ax_last w")
    case True
    then have "ws = []" using Cons.prems(1) by (simp add: is_packet_Cons)
    with True st show ?thesis by simp
  next
    case False
    then have "is_packet ws" using Cons.prems(1) by (simp add: is_packet_Cons)
    with Cons.IH [of "tcp_ipv4_checksum k"] False show ?thesis
      by (simp add: st funpow_Suc_apply del: funpow.simps(2))
  qed
qed simp

lemma issueChecksum_same: "ts_dataIn (issueChecksum k) = ts_dataIn k" "ts_dataOut (issueChecksum k) = ts_dataOut k"
    "ts_state (issueChecksum k) = ts_state k" "ts_firstWord (issueChecksum k) = ts_firstWord k"
    "issueChecksum (k\<lparr>ts_dataIn := a\<rparr>) = (issueChecksum k)\<lparr>ts_dataIn := a\<rparr>"
    "issueChecksum (k\<lparr>ts_dataOut := a\<rparr>) = (issueChecksum k)\<lparr>ts_dataOut := a\<rparr>"
    "issueChecksum (k\<lparr>ts_state := st\<rparr>) = (issueChecksum k)\<lparr>ts_state := st\<rparr>"
  by (simp_all add: issueChecksum_def)

lemma ts_summed: "is_packet ws \<Longrightarrow> ts_state k = TS_SUMMED \<Longrightarrow> ts_dataIn k = ws @ rest \<Longrightarrow>
    (tcp_ipv4_checksum ^^ length ws) k = (if ts_firstWord k then issueChecksum k else k)\<lparr>ts_dataIn := rest, ts_dataOut := ts_dataOut k @ ws,
      ts_firstWord := False, ts_state := TS_START\<rparr>"
proof (induction ws arbitrary: k)
  case (Cons w ws)
  let ?k = "(if ts_firstWord k then issueChecksum k else k)\<lparr>ts_dataIn := ws @ rest, ts_dataOut := ts_dataOut k @ [w],
      ts_firstWord := False, ts_state := (if ax_last w then TS_START else TS_SUMMED)\<rparr>"
  have st: "tcp_ipv4_checksum k = ?k"
    using Cons.prems by (cases k) (simp add: tcp_ipv4_checksum_def s_write_def issueChecksum_def Let_def)
  show ?case
  proof (cases "ax_last w")
    case True
    then have "ws = []" using Cons.prems(1) by (simp add: is_packet_Cons)
    with True st show ?thesis by simp
  next
    case False
    then have "is_packet ws" using Cons.prems(1) by (simp add: is_packet_Cons)
    with Cons.IH [of "tcp_ipv4_checksum k"] False show ?thesis
      by (simp add: st funpow_Suc_apply del: funpow.simps(2))
  qed
qed simp

definition tsReady :: "sumStage \<Rightarrow> bool" where
  "tsReady k \<longleftrightarrow> ts_state k = TS_START \<and> ts_sums k = (\<lambda>i. 0)"

definition tsSent :: "sumStage \<Rightarrow> bool \<Rightarrow> bool \<Rightarrow> 16 word \<Rightarrow> axiWord list \<Rightarrow> axiWord list \<Rightarrow> nat \<Rightarrow> sumStage \<Rightarrow> bool" where
  "tsSent k b v s hs ws n k' \<longleftrightarrow> tsReady k' \<and> ts_payloadIn k = b # ts_payloadIn k' \<and> ts_validIn k = v # ts_validIn k' \<and>
     ts_subSumIn k = s # ts_subSumIn k' \<and> ts_headerIn k = hs @ ts_headerIn k' \<and> ts_dataIn k = ws @ ts_dataIn k' \<and>
     ts_payloadDup k' = ts_payloadDup k @ [b] \<and> ts_headerOut k' = ts_headerOut k @ hs \<and> ts_dataOut k' = ts_dataOut k @ ws \<and>
     ts_event k' = ts_event k @ [True] \<and> (\<exists>c. ts_checksum k' = ts_checksum k @ [c] \<and> unat c = 65535 - oneSum n)"

lemma issue_columns:
  assumes "columnsOf (ts_sums k) m" and "m 0 + m 1 + m 2 + m 3 = n"
  shows "\<exists>c. issueChecksum k = k\<lparr>ts_checksum := ts_checksum k @ [c], ts_event := ts_event k @ [True], ts_sums := (\<lambda>i. 0)\<rparr> \<and>
    unat c = 65535 - oneSum n"
proof -
  have "unat (totalSum (ts_sums k)) = oneSum n" using totalSum_one [of "ts_sums k" m] assms by (simp add: columnsOf_def)
  with complement_low [of "totalSum (ts_sums k)"] oneSum_le show ?thesis
    by (intro exI [of _ "rng 15 0 (NOT (totalSum (ts_sums k)))"]) (simp add: issueChecksum_def s_write_def)
qed

lemma start_columns: "columnsOf (if v then (\<lambda>i. 0)(0 := ucast s) else (\<lambda>i. 0)) (\<lambda>i. if v \<and> i = 0 then unat (s :: 16 word) else 0)"
proof -
  have l: "unat s \<le> 65535" using unsigned_less [of s, where ?'a = nat] by simp
  then have "unat (ucast s :: 17 word) = unat s" by (simp add: unsigned_ucast_eq unsigned_take_bit_eq take_bit_nat_eq_self)
  with l show ?thesis by (auto simp: columnsOf_def oneSum_small)
qed

lemma ts_segment:
  assumes "tsReady k" and "ts_payloadIn k = b # bs" and "ts_validIn k = v # vs" and "ts_subSumIn k = s # ss"
    and "ts_headerIn k = hs @ hrest" and "carries hs head" and "ts_dataIn k = ws @ rest"
    and "if b then carries ws payload else ws = []"
  shows "\<exists>n. tsSent k b v s hs ws (packetSum head + (if v then unat s else if b then packetSum payload else 0)) ((tcp_ipv4_checksum ^^ n) k)"
proof -
  let ?f = tcp_ipv4_checksum and ?goal = "\<lambda>k'. tsSent k b v s hs ws (packetSum head + (if v then unat s else if b then packetSum payload else 0)) k'"
  define s0 where "s0 = (if v then (\<lambda>i. 0)(0 := ucast s) else (\<lambda>i. 0) :: subSums)"
  define n0 where "n0 = (\<lambda>i :: nat. if v \<and> i = 0 then unat s else 0)"
  define k1 where "k1 = k\<lparr>ts_payloadIn := bs, ts_validIn := vs, ts_subSumIn := ss, ts_hasBody := b, ts_payloadDup := ts_payloadDup k @ [b],
    ts_validSum := v, ts_sums := s0, ts_firstWord := True, ts_state := TS_HEADER\<rparr>"
  define k2 where "k2 = k1\<lparr>ts_headerIn := hrest, ts_headerOut := ts_headerOut k @ hs, ts_sums := fold addColumns hs s0,
    ts_state := (if \<not> b then TS_FINISH else if v then TS_SUMMED else TS_PAYLOAD)\<rparr>"
  have s1: "?f k = k1"
    using assms(1-4) by (simp add: tcp_ipv4_checksum_def tsReady_def k1_def s0_def s_write_def Let_def)
  have s2: "(?f ^^ length hs) k1 = k2"
    using ts_head [OF carries_packet [OF assms(6)], of k1 hrest] assms(5) by (simp add: k1_def k2_def)
  have run: "(?f ^^ n) k2 = (?f ^^ (n + length hs + 1)) k" for n unfolding funpow_add by (simp add: s1 s2)
  have c0: "columnsOf s0 n0" unfolding s0_def n0_def by (rule start_columns)
  have n0: "n0 0 + n0 1 + n0 2 + n0 3 = (if v then unat s else 0)" by (simp add: n0_def)
  obtain m1 where m1: "columnsOf (fold addColumns hs s0) m1" "m1 0 + m1 1 + m1 2 + m1 3 = (if v then unat s else 0) + packetSum head"
    using columns_packet [OF assms(6) c0] unfolding n0 by blast
  have "\<exists>n. ?goal ((?f ^^ n) k2)"
  proof (cases "b \<and> \<not> v")
    case True
    with assms(8) have p: "carries ws payload" by simp
    obtain m2 where m2: "columnsOf (fold addColumns ws (fold addColumns hs s0)) m2" "m2 0 + m2 1 + m2 2 + m2 3 = packetSum head + packetSum payload"
      using columns_packet [OF p m1(1)] m1(2) True by auto
    define k3 where "k3 = k2\<lparr>ts_dataIn := rest, ts_dataOut := ts_dataOut k2 @ ws, ts_sums := fold addColumns ws (fold addColumns hs s0), ts_state := TS_FINISH\<rparr>"
    have s3: "(?f ^^ length ws) k2 = k3"
      using ts_payload [OF carries_packet [OF p], of k2 rest] True assms(7) by (simp add: k2_def k1_def k3_def)
    have "columnsOf (ts_sums k3) m2" using m2(1) by (simp add: k3_def)
    from issue_columns [OF this m2(2)] obtain c where c: "issueChecksum k3 = k3\<lparr>ts_checksum := ts_checksum k3 @ [c],
        ts_event := ts_event k3 @ [True], ts_sums := (\<lambda>i. 0)\<rparr>" "unat c = 65535 - oneSum (packetSum head + packetSum payload)" by blast
    have "?f k3 = (issueChecksum k3)\<lparr>ts_state := TS_START\<rparr>" by (simp add: tcp_ipv4_checksum_def k3_def)
    then have "?goal (?f k3)"
      using True assms(2-7) c by (simp add: tsSent_def tsReady_def k3_def k2_def k1_def)
    then have "?goal ((?f ^^ Suc (length ws)) k2)" by (simp add: s3)
    then show ?thesis by blast
  next
    case False
    then have m: "m1 0 + m1 1 + m1 2 + m1 3 = packetSum head + (if v then unat s else if b then packetSum payload else 0)" using m1(2) by auto
    have "columnsOf (ts_sums k2) m1" using m1(1) by (simp add: k2_def)
    from issue_columns [OF this m] obtain c where c: "issueChecksum k2 = k2\<lparr>ts_checksum := ts_checksum k2 @ [c],
        ts_event := ts_event k2 @ [True], ts_sums := (\<lambda>i. 0)\<rparr>"
        "unat c = 65535 - oneSum (packetSum head + (if v then unat s else if b then packetSum payload else 0))" by blast
    show ?thesis
    proof (cases b)
      case True
      with assms(8) have p: "is_packet ws" by (simp add: carries_packet)
      have "ts_state k2 = TS_SUMMED" "ts_dataIn k2 = ws @ rest" "ts_firstWord k2" using True False assms(7) by (simp_all add: k2_def k1_def)
      with ts_summed [OF p] have "(?f ^^ length ws) k2 = (issueChecksum k2)\<lparr>ts_dataIn := rest, ts_dataOut := ts_dataOut k2 @ ws,
          ts_firstWord := False, ts_state := TS_START\<rparr>" by simp
      then have "?goal ((?f ^^ length ws) k2)"
        using assms(2-7) c by (simp add: tsSent_def tsReady_def k2_def k1_def)
      then show ?thesis by blast
    next
      case nb: False
      with assms(8) have w: "ws = []" by simp
      have "?f k2 = (issueChecksum k2)\<lparr>ts_state := TS_START\<rparr>" using nb by (simp add: tcp_ipv4_checksum_def k2_def)
      then have "?goal ((?f ^^ 1) k2)"
        using nb w assms(2-7) c by (simp add: tsSent_def tsReady_def k2_def k1_def)
      then show ?thesis by blast
    qed
  qed
  then show ?thesis unfolding run by blast
qed

end
