(* ===== verification/Toe_Tx_Segment.thy ===== *)
theory Toe_Tx_Segment
  imports Toe_Tx_Header
begin

text \<open>
  The last stages of the transmit engine (\<^verbatim>\<open>toe/tx_engine/tx_engine.cpp\<close>):
  \<^verbatim>\<open>remove_pseudo_header\<close> joins TCP header and payload, \<^verbatim>\<open>insert_checksum\<close> puts the
  checksum in its place and \<^verbatim>\<open>generate_ipv4\<close> the IPv4 header in front.
\<close>

section \<open>Assembly\<close>

datatype assembleState = AS_PSEUDO | AS_PSEUDO_1 | AS_IP_HEADER | AS_BODY | AS_REMAINDER

record assembler =
  as_state :: assembleState
  as_prevWord :: axiWord
  as_hasBody :: bool
  as_headerIn :: "axiWord hls_stream"
  as_dataIn :: "axiWord hls_stream"
  as_payloadIn :: "bool hls_stream"
  as_dataOut :: "axiWord hls_stream"

text \<open>Twelve bytes are dropped: the first word and half of the second.\<close>

definition remove_pseudo_header :: "assembler \<Rightarrow> assembler" where
  "remove_pseudo_header k =
     (case as_state k of
        AS_PSEUDO \<Rightarrow>
          if \<not> s_empty (as_headerIn k) \<and> \<not> s_empty (as_payloadIn k) then
            k\<lparr>as_hasBody := s_head (as_payloadIn k), as_payloadIn := s_rest (as_payloadIn k),
              as_headerIn := s_rest (as_headerIn k), as_state := AS_PSEUDO_1\<rparr>
          else k
      | AS_PSEUDO_1 \<Rightarrow>
          if \<not> s_empty (as_headerIn k) then
            k\<lparr>as_prevWord := s_head (as_headerIn k), as_headerIn := s_rest (as_headerIn k), as_state := AS_IP_HEADER\<rparr>
          else k
      | AS_IP_HEADER \<Rightarrow>
          if \<not> s_empty (as_headerIn k) then
            (let w = s_head (as_headerIn k); done = (ax_last w \<and> \<not> as_hasBody k \<and> \<not> 15 < ax_keep w) in
             k\<lparr>as_headerIn := s_rest (as_headerIn k), as_prevWord := w,
               as_dataOut := s_write (as_dataOut k) ((joinWord 4 (as_prevWord k) w zeroWord)\<lparr>ax_last := done\<rparr>),
               as_state := (if \<not> ax_last w then AS_IP_HEADER else if as_hasBody k then AS_BODY
                 else if 15 < ax_keep w then AS_REMAINDER else AS_PSEUDO)\<rparr>)
          else k
      | AS_BODY \<Rightarrow>
          if \<not> s_empty (as_dataIn k) then
            (let w = s_head (as_dataIn k); done = (ax_last w \<and> \<not> 15 < ax_keep w) in
             k\<lparr>as_dataIn := s_rest (as_dataIn k), as_prevWord := w,
               as_dataOut := s_write (as_dataOut k) ((joinWord 4 (as_prevWord k) w zeroWord)\<lparr>ax_last := done\<rparr>),
               as_state := (if \<not> ax_last w then AS_BODY else if 15 < ax_keep w then AS_REMAINDER else AS_PSEUDO)\<rparr>)
          else k
      | AS_REMAINDER \<Rightarrow>
          k\<lparr>as_dataOut := s_write (as_dataOut k) ((joinWord 4 (as_prevWord k) zeroWord zeroWord)\<lparr>ax_last := True\<rparr>),
            as_state := AS_PSEUDO\<rparr>)"

record inserter =
  ic_state :: "2 word"
  ic_wordCount :: "3 word"
  ic_checksumIn :: "16 word hls_stream"
  ic_dataIn :: "axiWord hls_stream"
  ic_dataOut :: "axiWord hls_stream"

definition insert_checksum :: "inserter \<Rightarrow> inserter" where
  "insert_checksum k =
     (if ic_state k = 0 then
        (if \<not> s_empty (ic_dataIn k) then
           (let k = k\<lparr>ic_dataIn := s_rest (ic_dataIn k), ic_dataOut := s_write (ic_dataOut k) (s_head (ic_dataIn k)),
                  ic_wordCount := ic_wordCount k + 1\<rparr> in
            if ic_wordCount k = 2 then k\<lparr>ic_wordCount := 0, ic_state := 1\<rparr> else k)
         else k)
      else if ic_state k = 1 then
        (if \<not> s_empty (ic_checksumIn k) \<and> \<not> s_empty (ic_dataIn k) then
           (let w = s_head (ic_dataIn k); c = s_head (ic_checksumIn k) in
            k\<lparr>ic_dataIn := s_rest (ic_dataIn k), ic_checksumIn := s_rest (ic_checksumIn k),
              ic_dataOut := s_write (ic_dataOut k) (w\<lparr>ax_data := upd 15 0 (reverse16 c) (ax_data w)\<rparr>),
              ic_state := (if ax_last w then 0 else 2)\<rparr>)
         else k)
      else if ic_state k = 2 then
        (if \<not> s_empty (ic_dataIn k) then
           (let w = s_head (ic_dataIn k) in
            k\<lparr>ic_dataIn := s_rest (ic_dataIn k), ic_dataOut := s_write (ic_dataOut k) w,
              ic_state := (if ax_last w then 0 else 2)\<rparr>)
         else k)
      else k)"

section \<open>IPv4 header\<close>

datatype generateState = GI_META | GI_HEADER | GI_PARTIAL_HEADER | GI_BODY

record generator =
  gi_state :: generateState
  gi_header :: "160 word packetHeader"
  gi_metaIn :: "16 word hls_stream"
  gi_tupleIn :: "twoTuple hls_stream"
  gi_dataIn :: "axiWord hls_stream"
  gi_eventIn :: "bool hls_stream"
  gi_dataOut :: "axiWord hls_stream"

definition TCP_PROTOCOL :: "8 word" where "TCP_PROTOCOL = 6"

text \<open>The setters of \<^verbatim>\<open>ipv4Header\<close>.\<close>

definition setIpHeader :: "16 word \<Rightarrow> twoTuple \<Rightarrow> 160 word \<Rightarrow> 160 word" where
  "setIpHeader len t h =
     (let h = upd 31 16 (reverse16 (len + 40)) h;
          h = upd 159 128 (reverse32 (reverse32 (tt_dstIp t))) h;
          h = upd 127 96 (reverse32 (reverse32 (tt_srcIp t))) h
      in upd 79 72 TCP_PROTOCOL h)"

definition generate_ipv4 :: "generator \<Rightarrow> generator" where
  "generate_ipv4 k =
     (case gi_state k of
        GI_META \<Rightarrow>
          if \<not> s_empty (gi_metaIn k) \<and> \<not> s_empty (gi_tupleIn k) \<and> \<not> s_empty (gi_eventIn k) then
            (let h = clearHeader (gi_header k) in
             k\<lparr>gi_eventIn := s_rest (gi_eventIn k), gi_metaIn := s_rest (gi_metaIn k), gi_tupleIn := s_rest (gi_tupleIn k),
               gi_header := h\<lparr>ph_header := setIpHeader (s_head (gi_metaIn k)) (s_head (gi_tupleIn k)) (ph_header h)\<rparr>,
               gi_state := GI_HEADER\<rparr>)
          else k
      | GI_HEADER \<Rightarrow>
          (let (d, remainingLength, h) = consumeWord 0 (gi_header k) in
           k\<lparr>gi_header := h, gi_dataOut := s_write (gi_dataOut k) \<lparr>ax_data = d, ax_keep = 0xFF, ax_last = False\<rparr>,
             gi_state := (if remainingLength < 8 then GI_PARTIAL_HEADER else GI_HEADER)\<rparr>)
      | GI_PARTIAL_HEADER \<Rightarrow>
          if \<not> s_empty (gi_dataIn k) then
            (let w = s_head (gi_dataIn k); (d, remainingLength, h) = consumeWord (ax_data w) (gi_header k) in
             k\<lparr>gi_dataIn := s_rest (gi_dataIn k), gi_header := h, gi_dataOut := s_write (gi_dataOut k) (w\<lparr>ax_data := d\<rparr>),
               gi_state := (if ax_last w then GI_META else GI_BODY)\<rparr>)
          else k
      | GI_BODY \<Rightarrow>
          if \<not> s_empty (gi_dataIn k) then
            (let w = s_head (gi_dataIn k) in
             k\<lparr>gi_dataIn := s_rest (gi_dataIn k), gi_dataOut := s_write (gi_dataOut k) w,
               gi_state := (if ax_last w then GI_META else GI_BODY)\<rparr>)
          else k)"

section \<open>Patched words\<close>

text \<open>The first bytes of a packet overwritten.\<close>

lemma carries_patch:
  assumes "carries (w # ws) bs" and "length vs \<le> length bs" and "length vs \<le> 8"
    and "\<And>i. i < 8 \<Longrightarrow> byteAt d i = (if i < length vs then vs ! i else byteAt (ax_data w) i)"
  shows "carries (w\<lparr>ax_data := d\<rparr> # ws) (vs @ drop (length vs) bs)"
proof -
  let ?w = "w\<lparr>ax_data := d\<rparr>"
  have join: "lanes ?w = kept (vs @ drop (length vs) cs) @ js" if "lanes w = kept cs @ js" "length vs \<le> length cs" for cs js
  proof (rule nth_equalityI)
    show "length (lanes ?w) = length (kept (vs @ drop (length vs) cs) @ js)"
      using arg_cong [OF that(1), of length] that(2) by simp
    fix i assume "i < length (lanes ?w)"
    then have i: "i < 8" by simp
    have "lanes ?w ! i = (if i < length vs then (vs ! i, snd (lanes w ! i)) else lanes w ! i)"
      using assms(4) [OF i] i by (simp add: nth_lanes)
    then show "lanes ?w ! i = (kept (vs @ drop (length vs) cs) @ js) ! i"
      unfolding that(1) using that(2) by (auto simp: nth_append)
  qed
  show ?thesis
  proof (cases "ws = []")
    case True
    then obtain js where w: "ax_last w" "lanes w = kept bs @ map (\<lambda>j. (j, False)) js" "bs \<noteq> []"
      using assms(1) by (auto simp: carries_single lastWord_lanes)
    from join [OF w(2) assms(2)] True w(1,3) assms(2) show ?thesis unfolding True carries_single lastWord_lanes by auto
  next
    case False
    then have w: "\<not> ax_last w" "8 < length bs" "lanes w = kept (take 8 bs) @ []" "carries ws (drop 8 bs)"
      using assms(1) by (simp_all add: carries_Cons)
    have "length vs \<le> length (take 8 bs)" using assms(2,3) by simp
    from join [OF w(3) this] False w assms(3) show ?thesis by (simp add: carries_Cons drop_take)
  qed
qed

section \<open>Header and payload joined\<close>

lemma keep_high: "(15 < k) = ((rng 7 4 (k :: 8 word) :: 8 word) \<noteq> 0)"
proof -
  have "(rng 7 4 k :: 8 word) = drop_bit 4 k" by (rule bit_word_eqI) (auto simp: bit_simps dest: bit_imp_le_length)
  then have "unat (rng 7 4 k :: 8 word) = unat k div 16" by (simp add: drop_bit_eq_div unat_div)
  then show ?thesis by (auto simp: word_less_nat_alt simp flip: unat_eq_0)
qed

lemma joinWord_last [simp]: "joinWord n (p\<lparr>ax_last := l\<rparr>) c w = joinWord n p c w" "joinWord n p (c\<lparr>ax_last := l\<rparr>) w = joinWord n p c w"
  by (simp_all add: joinWord_def)

lemma joinEnd_last [simp]: "joinEnd e n (p\<lparr>ax_last := l\<rparr>) ws = joinEnd e n p ws"
  by (cases ws) (simp_all add: Let_def)

definition openWords :: "axiWord list \<Rightarrow> axiWord list" where
  "openWords ws = map (\<lambda>w. w\<lparr>ax_last := False\<rparr>) ws"

lemma openWords_simps [simp]: "openWords [] = []" "openWords (w # ws) = w\<lparr>ax_last := False\<rparr> # openWords ws"
  by (simp_all add: openWords_def)

lemma carries_append: "carries hs head \<Longrightarrow> 8 dvd length head \<Longrightarrow> carries ws payload \<Longrightarrow> carries (openWords hs @ ws) (head @ payload)"
proof (induction hs arbitrary: head)
  case (Cons h hs)
  show ?case
  proof (cases "hs = []")
    case True
    with Cons.prems(1) have l: "lastWord h head" by (simp add: carries_single)
    have "0 < length head" using l by (auto simp: lastWord_def)
    with Cons.prems(2) have "8 \<le> length head" by (rule dvd_imp_le)
    with l have "lanes (h\<lparr>ax_last := False\<rparr>) = kept head" by (simp add: lastWord_def)
    with full_prefix [OF this _ Cons.prems(3)] True show ?thesis by simp
  next
    case False
    with Cons.prems(1) have h: "8 < length head" "lanes (h\<lparr>ax_last := False\<rparr>) = kept (take 8 head)" "carries hs (drop 8 head)"
      by (simp_all add: carries_Cons)
    have "8 dvd length (drop 8 head)" using Cons.prems(2) by (simp add: dvd_diff_nat)
    from full_prefix [OF h(2) _ Cons.IH [OF h(3) this Cons.prems(3)]] show ?thesis by (simp flip: append_assoc)
  qed
qed simp

lemma as_body: "carries (p # ws) bs \<Longrightarrow> as_prevWord k = p\<lparr>ax_last := l\<rparr> \<Longrightarrow>
    as_state k = (if ws = [] then AS_REMAINDER else AS_BODY) \<Longrightarrow> as_dataIn k = ws @ rest \<Longrightarrow>
    \<exists>n q. (remove_pseudo_header ^^ n) k = k\<lparr>as_dataIn := rest, as_dataOut := as_dataOut k @ joinRest 4 p ws, as_prevWord := q, as_state := AS_PSEUDO\<rparr>"
proof (induction ws arbitrary: p bs k l)
  case Nil
  then have "(remove_pseudo_header ^^ 1) k = k\<lparr>as_dataIn := rest, as_dataOut := as_dataOut k @ joinRest 4 p [],
      as_prevWord := as_prevWord k, as_state := AS_PSEUDO\<rparr>"
    by (cases k) (simp add: remove_pseudo_header_def s_write_def)
  then show ?case by blast
next
  case (Cons w ws)
  have c: "carries (w # ws) (drop 8 bs)" using Cons.prems(1) by (simp add: carries_Cons)
  let ?fin = "(rng 7 4 (ax_keep w) :: 8 word) = 0" and ?x = "(joinWord 4 p w zeroWord)"
  have st: "remove_pseudo_header k = k\<lparr>as_dataIn := ws @ rest, as_prevWord := w, as_dataOut := as_dataOut k @ [?x\<lparr>ax_last := ax_last w \<and> ?fin\<rparr>],
      as_state := (if \<not> ax_last w then AS_BODY else if \<not> ?fin then AS_REMAINDER else AS_PSEUDO)\<rparr>"
    using Cons.prems(2-4) by (simp add: remove_pseudo_header_def s_write_def keep_high Let_def)
  show ?case
  proof (cases "ax_last w \<and> ?fin")
    case True
    then have "ws = []" using carries_packet [OF c] by (simp add: is_packet_Cons)
    with True st have "(remove_pseudo_header ^^ 1) k = k\<lparr>as_dataIn := rest, as_dataOut := as_dataOut k @ joinRest 4 p [w],
      as_prevWord := w, as_state := AS_PSEUDO\<rparr>" by simp
    with \<open>ws = []\<close> show ?thesis by blast
  next
    case False
    have nf: "\<not> ?fin \<and> (ax_last w \<longleftrightarrow> ws = [])"
    proof (cases "ws = []")
      case True
      with c have "ax_last w" by (simp add: carries_single lastWord_def)
      with False True show ?thesis by simp
    next
      case no: False
      with c have "lanes w = kept (take 8 (drop 8 bs))" "\<not> ax_last w" by (simp_all add: carries_Cons)
      with full_kept [of w _ 4] no show ?thesis by simp
    qed
    have "as_prevWord (remove_pseudo_header k) = w\<lparr>ax_last := ax_last w\<rparr>" by (simp add: st)
    moreover have "as_state (remove_pseudo_header k) = (if ws = [] then AS_REMAINDER else AS_BODY)" using nf by (simp add: st)
    moreover have "as_dataIn (remove_pseudo_header k) = ws @ rest" by (simp add: st)
    ultimately obtain n q where "(remove_pseudo_header ^^ n) (remove_pseudo_header k) = (remove_pseudo_header k)\<lparr>as_dataIn := rest,
        as_dataOut := as_dataOut (remove_pseudo_header k) @ joinRest 4 w ws, as_prevWord := q, as_state := AS_PSEUDO\<rparr>"
      using Cons.IH [OF c] by blast
    then have "(remove_pseudo_header ^^ Suc n) k = k\<lparr>as_dataIn := rest, as_dataOut := as_dataOut k @ joinRest 4 p (w # ws),
        as_prevWord := q, as_state := AS_PSEUDO\<rparr>"
      using nf by (simp add: funpow_Suc_apply st Let_def del: funpow.simps(2))
    then show ?thesis by blast
  qed
qed

text \<open>The header words, without a payload and with one.\<close>

lemma as_word:
  assumes "as_state k = AS_IP_HEADER" and "as_headerIn k = w # hs" and "as_prevWord k = p\<lparr>ax_last := l\<rparr>"
  shows "remove_pseudo_header k = k\<lparr>as_headerIn := hs, as_prevWord := w,
    as_dataOut := as_dataOut k @ [(joinWord 4 p w zeroWord)\<lparr>ax_last := ax_last w \<and> \<not> as_hasBody k \<and> (rng 7 4 (ax_keep w) :: 8 word) = 0\<rparr>],
    as_state := (if \<not> ax_last w then AS_IP_HEADER else if as_hasBody k then AS_BODY
      else if (rng 7 4 (ax_keep w) :: 8 word) \<noteq> 0 then AS_REMAINDER else AS_PSEUDO)\<rparr>"
  using assms by (simp add: remove_pseudo_header_def s_write_def keep_high Let_def)

lemma as_head: "carries (p # ws) bs \<Longrightarrow> as_prevWord k = p\<lparr>ax_last := l\<rparr> \<Longrightarrow> \<not> as_hasBody k \<Longrightarrow>
    as_state k = (if ws = [] then AS_REMAINDER else AS_IP_HEADER) \<Longrightarrow> as_headerIn k = ws @ rest \<Longrightarrow>
    \<exists>n q. (remove_pseudo_header ^^ n) k = k\<lparr>as_headerIn := rest, as_dataOut := as_dataOut k @ joinRest 4 p ws, as_prevWord := q, as_state := AS_PSEUDO\<rparr>"
proof (induction ws arbitrary: p bs k l)
  case Nil
  then have "(remove_pseudo_header ^^ 1) k = k\<lparr>as_headerIn := rest, as_dataOut := as_dataOut k @ joinRest 4 p [],
      as_prevWord := as_prevWord k, as_state := AS_PSEUDO\<rparr>"
    by (cases k) (simp add: remove_pseudo_header_def s_write_def)
  then show ?case by blast
next
  case (Cons w ws)
  have c: "carries (w # ws) (drop 8 bs)" using Cons.prems(1) by (simp add: carries_Cons)
  let ?fin = "(rng 7 4 (ax_keep w) :: 8 word) = 0" and ?x = "(joinWord 4 p w zeroWord)"
  have st: "remove_pseudo_header k = k\<lparr>as_headerIn := ws @ rest, as_prevWord := w, as_dataOut := as_dataOut k @ [?x\<lparr>ax_last := ax_last w \<and> ?fin\<rparr>],
      as_state := (if \<not> ax_last w then AS_IP_HEADER else if \<not> ?fin then AS_REMAINDER else AS_PSEUDO)\<rparr>"
    using as_word [where k = k and w = w and hs = "ws @ rest" and p = p and l = l] Cons.prems by simp
  show ?case
  proof (cases "ax_last w \<and> ?fin")
    case True
    then have "ws = []" using carries_packet [OF c] by (simp add: is_packet_Cons)
    with True st have "(remove_pseudo_header ^^ 1) k = k\<lparr>as_headerIn := rest, as_dataOut := as_dataOut k @ joinRest 4 p [w],
      as_prevWord := w, as_state := AS_PSEUDO\<rparr>" by simp
    with \<open>ws = []\<close> show ?thesis by blast
  next
    case False
    have nf: "\<not> ?fin \<and> (ax_last w \<longleftrightarrow> ws = [])"
    proof (cases "ws = []")
      case True
      with c have "ax_last w" by (simp add: carries_single lastWord_def)
      with False True show ?thesis by simp
    next
      case no: False
      with c have "lanes w = kept (take 8 (drop 8 bs))" "\<not> ax_last w" by (simp_all add: carries_Cons)
      with full_kept [of w _ 4] no show ?thesis by simp
    qed
    have "as_prevWord (remove_pseudo_header k) = w\<lparr>ax_last := ax_last w\<rparr>" by (simp add: st)
    moreover have "as_state (remove_pseudo_header k) = (if ws = [] then AS_REMAINDER else AS_IP_HEADER)" using nf by (simp add: st)
    moreover have "as_headerIn (remove_pseudo_header k) = ws @ rest" "\<not> as_hasBody (remove_pseudo_header k)" using Cons.prems(3) by (simp_all add: st)
    ultimately obtain n q where "(remove_pseudo_header ^^ n) (remove_pseudo_header k) = (remove_pseudo_header k)\<lparr>as_headerIn := rest,
        as_dataOut := as_dataOut (remove_pseudo_header k) @ joinRest 4 w ws, as_prevWord := q, as_state := AS_PSEUDO\<rparr>"
      using Cons.IH [OF c] by blast
    then have "(remove_pseudo_header ^^ Suc n) k = k\<lparr>as_headerIn := rest, as_dataOut := as_dataOut k @ joinRest 4 p (w # ws),
        as_prevWord := q, as_state := AS_PSEUDO\<rparr>"
      using nf by (simp add: funpow_Suc_apply st Let_def del: funpow.simps(2))
    then show ?thesis by blast
  qed
qed

lemma as_head_body: "is_packet hs \<Longrightarrow> carries (p # openWords hs @ ws) bs \<Longrightarrow> ws \<noteq> [] \<Longrightarrow> as_hasBody k \<Longrightarrow>
    as_prevWord k = p\<lparr>ax_last := l\<rparr> \<Longrightarrow> as_state k = AS_IP_HEADER \<Longrightarrow> as_headerIn k = hs @ hrest \<Longrightarrow> as_dataIn k = ws @ rest \<Longrightarrow>
    \<exists>n q. (remove_pseudo_header ^^ n) k = k\<lparr>as_headerIn := hrest, as_dataIn := rest,
      as_dataOut := as_dataOut k @ joinRest 4 p (openWords hs @ ws), as_prevWord := q, as_state := AS_PSEUDO\<rparr>"
proof (induction hs arbitrary: p bs k l)
  case Nil
  then show ?case by simp
next
  case (Cons w hs)
  let ?w = "w\<lparr>ax_last := False\<rparr>" and ?x = "(joinWord 4 p w zeroWord)\<lparr>ax_last := False\<rparr>"
  have c: "carries (?w # openWords hs @ ws) (drop 8 bs)" using Cons.prems(2) by (simp add: carries_Cons)
  then have "lanes ?w = kept (take 8 (drop 8 bs))" using Cons.prems(3) by (simp add: carries_Cons)
  from full_kept [OF this, of 4] have nf: "(rng 7 4 (ax_keep w) :: 8 word) \<noteq> 0" by simp
  have st: "remove_pseudo_header k = k\<lparr>as_headerIn := hs @ hrest, as_prevWord := w, as_dataOut := as_dataOut k @ [?x],
      as_state := (if ax_last w then AS_BODY else AS_IP_HEADER)\<rparr>"
    using as_word [where k = k and w = w and hs = "hs @ hrest" and p = p and l = l] Cons.prems by simp
  have pw: "as_prevWord (remove_pseudo_header k) = ?w\<lparr>ax_last := ax_last w\<rparr>" by (simp add: st)
  have "\<exists>n q. (remove_pseudo_header ^^ n) (remove_pseudo_header k) = (remove_pseudo_header k)\<lparr>as_headerIn := hrest, as_dataIn := rest,
        as_dataOut := as_dataOut (remove_pseudo_header k) @ joinRest 4 ?w (openWords hs @ ws), as_prevWord := q, as_state := AS_PSEUDO\<rparr>"
  proof (cases "ax_last w")
    case True
    then have hs: "hs = []" using Cons.prems(1) by (simp add: is_packet_Cons)
    with c have c': "carries (?w # ws) (drop 8 bs)" by simp
    have "as_state (remove_pseudo_header k) = (if ws = [] then AS_REMAINDER else AS_BODY)" "as_dataIn (remove_pseudo_header k) = ws @ rest"
      using True Cons.prems(3,8) by (simp_all add: st)
    from as_body [OF c' pw this] obtain n q where nq: "(remove_pseudo_header ^^ n) (remove_pseudo_header k) = (remove_pseudo_header k)\<lparr>as_dataIn := rest,
        as_dataOut := as_dataOut (remove_pseudo_header k) @ joinRest 4 ?w ws, as_prevWord := q, as_state := AS_PSEUDO\<rparr>" by blast
    show ?thesis unfolding nq by (intro exI [of _ n] exI [of _ q]) (use hs nq in \<open>simp add: st\<close>)
  next
    case False
    then have "is_packet hs" using Cons.prems(1) by (simp add: is_packet_Cons)
    then show ?thesis
      by (rule Cons.IH [OF _ c Cons.prems(3) _ pw]) (use False Cons.prems in \<open>simp_all add: st\<close>)
  qed
  then obtain n q where "(remove_pseudo_header ^^ n) (remove_pseudo_header k) = (remove_pseudo_header k)\<lparr>as_headerIn := hrest, as_dataIn := rest,
        as_dataOut := as_dataOut (remove_pseudo_header k) @ joinRest 4 ?w (openWords hs @ ws), as_prevWord := q, as_state := AS_PSEUDO\<rparr>" by blast
  then have "(remove_pseudo_header ^^ Suc n) k = k\<lparr>as_headerIn := hrest, as_dataIn := rest,
      as_dataOut := as_dataOut k @ joinRest 4 p (openWords (w # hs) @ ws), as_prevWord := q, as_state := AS_PSEUDO\<rparr>"
    using nf by (simp add: funpow_Suc_apply st Let_def del: funpow.simps(2))
  then show ?case by blast
qed

definition asSent :: "assembler \<Rightarrow> bool \<Rightarrow> axiWord list \<Rightarrow> axiWord list \<Rightarrow> 8 word list \<Rightarrow> assembler \<Rightarrow> bool" where
  "asSent k b hs ws bs k' \<longleftrightarrow> as_state k' = AS_PSEUDO \<and> as_payloadIn k = b # as_payloadIn k' \<and> as_headerIn k = hs @ as_headerIn k' \<and>
     as_dataIn k = ws @ as_dataIn k' \<and> (\<exists>out. as_dataOut k' = as_dataOut k @ out \<and> carries out bs)"

lemma as_segment:
  assumes "as_state k = AS_PSEUDO" and "as_payloadIn k = b # bs" and "as_headerIn k = hs @ hrest" and "carries hs head"
    and "16 < length head" and "as_dataIn k = ws @ rest" and "if b then 8 dvd length head \<and> carries ws payload else ws = [] \<and> payload = []"
  shows "\<exists>n. asSent k b hs ws (drop 12 (head @ payload)) ((remove_pseudo_header ^^ n) k)"
proof -
  obtain x y vs where hs: "hs = x # y # vs" "vs \<noteq> []"
    using assms(4,5) by (cases hs; cases "tl hs"; cases "tl (tl hs)") (auto simp: carries_Cons carries_single lastWord_def)
  define k1 where "k1 = k\<lparr>as_hasBody := b, as_payloadIn := bs, as_headerIn := vs @ hrest, as_prevWord := y, as_state := AS_IP_HEADER\<rparr>"
  have s1: "remove_pseudo_header (remove_pseudo_header k) = k1"
    using assms(1-3) hs by (simp add: remove_pseudo_header_def k1_def)
  have "\<exists>n. asSent k b hs ws (drop 12 (head @ payload)) ((remove_pseudo_header ^^ n) k1)"
  proof (cases b)
    case False
    then have p: "ws = []" "payload = []" using assms(7) by auto
    have c: "carries (y # vs) (drop 8 head)" using assms(4) by (simp add: hs carries_Cons)
    have pw: "as_prevWord k1 = y\<lparr>ax_last := ax_last y\<rparr>" "\<not> as_hasBody k1" "as_state k1 = (if vs = [] then AS_REMAINDER else AS_IP_HEADER)"
      "as_headerIn k1 = vs @ hrest" using hs False by (simp_all add: k1_def)
    have o: "carries (joinRest 4 y vs) (drop 12 head)" using carries_joinRest [OF _ _ c, of 4] assms(5) by simp
    obtain n q where "(remove_pseudo_header ^^ n) k1 = k1\<lparr>as_headerIn := hrest, as_dataOut := as_dataOut k1 @ joinRest 4 y vs,
        as_prevWord := q, as_state := AS_PSEUDO\<rparr>" using as_head [OF c pw] by blast
    with o p assms(2,3,6) False have "asSent k b hs ws (drop 12 (head @ payload)) ((remove_pseudo_header ^^ n) k1)"
      by (simp add: asSent_def k1_def)
    then show ?thesis by blast
  next
    case True
    then have p: "8 dvd length head" "carries ws payload" using assms(7) by auto
    have "carries (x\<lparr>ax_last := False\<rparr> # y\<lparr>ax_last := False\<rparr> # openWords vs @ ws) (head @ payload)"
      using carries_append [OF assms(4) p] by (simp add: hs)
    then have c: "carries (y\<lparr>ax_last := False\<rparr> # openWords vs @ ws) (drop 8 (head @ payload))" by (simp add: carries_Cons del: drop_append)
    have vs: "is_packet vs" using carries_packet [OF assms(4)] hs by (auto simp: is_packet_Cons split: if_splits)
    have pw: "ws \<noteq> []" "as_hasBody k1" "as_prevWord k1 = y\<lparr>ax_last := False\<rparr>\<lparr>ax_last := ax_last y\<rparr>" "as_state k1 = AS_IP_HEADER"
      "as_headerIn k1 = vs @ hrest" "as_dataIn k1 = ws @ rest"
      using True assms(6) carries_nonempty [OF p(2)] by (simp_all add: k1_def)
    have "carries (joinRest 4 (y\<lparr>ax_last := False\<rparr>) (openWords vs @ ws)) (drop 4 (drop 8 (head @ payload)))"
      by (rule carries_joinRest [OF _ _ c]) (use assms(5) in simp_all)
    then have o: "carries (joinRest 4 y (openWords vs @ ws)) (drop 12 (head @ payload))" by (simp del: drop_append)
    obtain n q where "(remove_pseudo_header ^^ n) k1 = k1\<lparr>as_headerIn := hrest, as_dataIn := rest,
        as_dataOut := as_dataOut k1 @ joinRest 4 (y\<lparr>ax_last := False\<rparr>) (openWords vs @ ws), as_prevWord := q, as_state := AS_PSEUDO\<rparr>"
      using as_head_body [OF vs c pw] by blast
    with o assms(2,3,6) True have "asSent k b hs ws (drop 12 (head @ payload)) ((remove_pseudo_header ^^ n) k1)"
      by (simp add: asSent_def k1_def del: drop_append)
    then show ?thesis by blast
  qed
  then obtain n where "asSent k b hs ws (drop 12 (head @ payload)) ((remove_pseudo_header ^^ n) k1)" ..
  then have "asSent k b hs ws (drop 12 (head @ payload)) ((remove_pseudo_header ^^ Suc (Suc n)) k)"
    by (simp add: funpow_Suc_apply s1 del: funpow.simps(2))
  then show ?thesis by blast
qed

section \<open>The checksum in its place\<close>

lemma ic_body: "is_packet ws \<Longrightarrow> ic_state k = 2 \<Longrightarrow> ic_dataIn k = ws @ rest \<Longrightarrow>
    (insert_checksum ^^ length ws) k = k\<lparr>ic_dataIn := rest, ic_dataOut := ic_dataOut k @ ws, ic_state := 0\<rparr>"
proof (induction ws arbitrary: k)
  case (Cons w ws)
  have st: "insert_checksum k = k\<lparr>ic_dataIn := ws @ rest, ic_dataOut := ic_dataOut k @ [w], ic_state := (if ax_last w then 0 else 2)\<rparr>"
    using Cons.prems by (simp add: insert_checksum_def s_write_def Let_def)
  show ?case
  proof (cases "ax_last w")
    case True
    then have "ws = []" using Cons.prems(1) by (simp add: is_packet_Cons)
    with True st show ?thesis by simp
  next
    case False
    then have "is_packet ws" using Cons.prems(1) by (simp add: is_packet_Cons)
    with Cons.IH [of "insert_checksum k"] False show ?thesis
      by (simp add: st funpow_Suc_apply del: funpow.simps(2))
  qed
qed simp

definition icReady :: "inserter \<Rightarrow> bool" where
  "icReady k \<longleftrightarrow> ic_state k = 0 \<and> ic_wordCount k = 0"

lemma byteAt_upd16:
  assumes "i < 8"
  shows "byteAt (upd 15 0 (reverse16 c) d) i = (if i < 2 then bytes16 c ! i else byteAt d i)"
proof (cases "i < 2")
  case True
  then have "i = 0 \<or> i = 1" by auto
  then show ?thesis by (elim disjE) (simp_all add: byteAt_def rng_upd_inside rng_simps reverse16_rng bytes16_def)
next
  case False
  with assms show ?thesis by (simp add: byteAt_def) (rule bit_word_eqI; simp add: bit_simps)
qed

lemma ic_segment:
  assumes "icReady k" and "ic_checksumIn k = c # cs" and "ic_dataIn k = ws @ rest" and "carries ws bs" and "18 \<le> length bs"
  shows "\<exists>n out. icReady ((insert_checksum ^^ n) k) \<and> ic_checksumIn ((insert_checksum ^^ n) k) = cs \<and> ic_dataIn ((insert_checksum ^^ n) k) = rest \<and>
    ic_dataOut ((insert_checksum ^^ n) k) = ic_dataOut k @ out \<and> carries out (take 16 bs @ bytes16 c @ drop 18 bs)"
proof -
  obtain x y z vs where ws: "ws = x # y # z # vs"
    using assms(4,5) by (cases ws; cases "tl ws"; cases "tl (tl ws)") (auto simp: carries_Cons carries_single lastWord_def)
  let ?z = "z\<lparr>ax_data := upd 15 0 (reverse16 c) (ax_data z)\<rparr>"
  have w: "lanes x = kept (take 8 bs)" "\<not> ax_last x" "lanes y = kept (take 8 (drop 8 bs))" "\<not> ax_last y" "carries (z # vs) (drop 16 bs)"
    using assms(4) by (simp_all add: ws carries_Cons)
  have "carries (?z # vs) (bytes16 c @ drop (length (bytes16 c)) (drop 16 bs))"
    by (rule carries_patch [OF w(5)]) (use assms(5) in \<open>simp_all add: byteAt_upd16\<close>)
  then have "carries (?z # vs) (bytes16 c @ drop 18 bs)" by simp
  from full_prefix [OF w(1,2) full_prefix [OF w(3,4) this]] 
  have "carries (x # y # ?z # vs) ((take 8 bs @ take 8 (drop 8 bs)) @ bytes16 c @ drop 18 bs)" by simp
  moreover have "take 8 bs @ take 8 (drop 8 bs) = take 16 bs" using take_add [of 8 8 bs] by simp
  ultimately have out: "carries (x # y # ?z # vs) (take 16 bs @ bytes16 c @ drop 18 bs)" by simp
  have k: "ic_state k = 0" "ic_wordCount k = 0" using assms(1) by (simp_all add: icReady_def)
  let ?k1 = "k\<lparr>ic_dataIn := y # z # vs @ rest, ic_dataOut := ic_dataOut k @ [x], ic_wordCount := 1\<rparr>"
  let ?k2 = "k\<lparr>ic_dataIn := z # vs @ rest, ic_dataOut := ic_dataOut k @ [x, y], ic_wordCount := 0, ic_state := 1\<rparr>"
  let ?k3 = "k\<lparr>ic_dataIn := vs @ rest, ic_dataOut := ic_dataOut k @ [x, y, ?z], ic_checksumIn := cs, ic_wordCount := 0,
    ic_state := (if ax_last z then 0 else 2)\<rparr>"
  have 1: "insert_checksum k = ?k1" using k assms(3) by (simp add: insert_checksum_def s_write_def ws)
  have 2: "insert_checksum ?k1 = ?k2" using k by (simp add: insert_checksum_def s_write_def)
  have 3: "insert_checksum ?k2 = ?k3" using assms(2) by (simp add: insert_checksum_def s_write_def)
  have "\<exists>n. (insert_checksum ^^ n) ?k3 = ?k3\<lparr>ic_dataIn := rest, ic_dataOut := ic_dataOut k @ x # y # ?z # vs, ic_state := 0\<rparr>"
  proof (cases "vs = []")
    case True
    then have "ax_last z" using w(5) by (simp add: carries_single lastWord_def)
    with True show ?thesis by (intro exI [of _ 0]) simp
  next
    case False
    then have z: "\<not> ax_last z" "is_packet vs" using carries_packet [OF w(5)] by (auto simp: is_packet_Cons split: if_splits)
    from ic_body [OF z(2), of ?k3 rest] z(1) show ?thesis by (intro exI [of _ "length vs"]) simp
  qed
  then obtain n where n: "(insert_checksum ^^ n) ?k3 = ?k3\<lparr>ic_dataIn := rest, ic_dataOut := ic_dataOut k @ x # y # ?z # vs, ic_state := 0\<rparr>" ..
  have "(insert_checksum ^^ Suc (Suc (Suc n))) k = ?k3\<lparr>ic_dataIn := rest, ic_dataOut := ic_dataOut k @ x # y # ?z # vs, ic_state := 0\<rparr>"
    unfolding funpow_Suc_apply 1 2 3 n ..
  with out show ?thesis
    by (intro exI [of _ "Suc (Suc (Suc n))"] exI [of _ "x # y # ?z # vs"]) (simp add: icReady_def del: funpow.simps(2))
qed

section \<open>The IPv4 header\<close>

definition ipBytes :: "16 word \<Rightarrow> twoTuple \<Rightarrow> 8 word list" where
  "ipBytes len t = [0x45, 0] @ bytes16 (len + 40) @ [0, 0, 0, 0, 0x40, 6, 0, 0] @ bytes32 (reverse32 (tt_srcIp t)) @ bytes32 (reverse32 (tt_dstIp t))"

lemma length_ipBytes [simp]: "length (ipBytes len t) = 20"
  by (simp add: ipBytes_def)

text \<open>Version, header length and time to live come from the constructor of the header; nothing else is set.\<close>

definition ipInit :: "160 word \<Rightarrow> bool" where
  "ipInit h \<longleftrightarrow> headerByte h 0 = 0x45 \<and> headerByte h 1 = 0 \<and> headerByte h 4 = 0 \<and> headerByte h 5 = 0 \<and> headerByte h 6 = 0 \<and>
     headerByte h 7 = 0 \<and> headerByte h 8 = 0x40 \<and> headerByte h 10 = 0 \<and> headerByte h 11 = 0"

definition giReady :: "generator \<Rightarrow> bool" where
  "giReady k \<longleftrightarrow> gi_state k = GI_META \<and> ipInit (ph_header (gi_header k))"

lemma ipInit_set: "ipInit h \<Longrightarrow> ipInit (setIpHeader len t h)"
  by (simp add: ipInit_def setIpHeader_def headerByte_def rng_simps bit_upd Let_def)

lemma setIpHeader_bytes:
  assumes "ipInit h" and "i < 20"
  shows "headerByte (setIpHeader len t h) i = ipBytes len t ! i"
proof -
  let ?h = "setIpHeader len t h"
  note d = setIpHeader_def headerByte_def rng_simps rng_upd_inside reverse32_rng reverse16_rng TCP_PROTOCOL_def Let_def
  note i0 = assms(1) [unfolded ipInit_def headerByte_def, simplified]
  have 1: "map (headerByte ?h) [0..<10] = take 10 (ipBytes len t)"
    by (simp add: upt_rec d i0 ipBytes_def bytes32_def bytes16_def)
  have 2: "map (headerByte ?h) [10..<20] = take 10 (drop 10 (ipBytes len t))"
    by (simp add: upt_rec d i0 ipBytes_def bytes32_def bytes16_def)
  have u: "[0..<20] = [0..<10] @ [10..<20]" by code_simp
  have "map (headerByte ?h) [0..<20] = ipBytes len t"
    unfolding u map_append 1 2 by (simp add: ipBytes_def bytes32_def bytes16_def)
  then have "map (headerByte ?h) [0..<20] ! i = ipBytes len t ! i" by simp
  with assms(2) show ?thesis by simp
qed

lemma gi_body: "is_packet ws \<Longrightarrow> gi_state k = GI_BODY \<Longrightarrow> gi_dataIn k = ws @ rest \<Longrightarrow>
    (generate_ipv4 ^^ length ws) k = k\<lparr>gi_dataIn := rest, gi_dataOut := gi_dataOut k @ ws, gi_state := GI_META\<rparr>"
proof (induction ws arbitrary: k)
  case (Cons w ws)
  have st: "generate_ipv4 k = k\<lparr>gi_dataIn := ws @ rest, gi_dataOut := gi_dataOut k @ [w], gi_state := (if ax_last w then GI_META else GI_BODY)\<rparr>"
    using Cons.prems by (simp add: generate_ipv4_def s_write_def Let_def)
  show ?case
  proof (cases "ax_last w")
    case True
    then have "ws = []" using Cons.prems(1) by (simp add: is_packet_Cons)
    with True st show ?thesis by simp
  next
    case False
    then have "is_packet ws" using Cons.prems(1) by (simp add: is_packet_Cons)
    with Cons.IH [of "generate_ipv4 k"] False show ?thesis
      by (simp add: st funpow_Suc_apply del: funpow.simps(2))
  qed
qed simp

definition giSent :: "generator \<Rightarrow> 16 word \<Rightarrow> twoTuple \<Rightarrow> axiWord list \<Rightarrow> 8 word list \<Rightarrow> generator \<Rightarrow> bool" where
  "giSent k len t ws bs k' \<longleftrightarrow> giReady k' \<and> gi_metaIn k = len # gi_metaIn k' \<and> gi_tupleIn k = t # gi_tupleIn k' \<and>
     gi_eventIn k = True # gi_eventIn k' \<and> gi_dataIn k = ws @ gi_dataIn k' \<and> (\<exists>out. gi_dataOut k' = gi_dataOut k @ out \<and> carries out bs)"

lemma gi_segment:
  assumes "giReady k" and "gi_metaIn k = len # ls" and "gi_tupleIn k = t # ts" and "gi_eventIn k = True # es"
    and "gi_dataIn k = ws @ rest" and "carries ws (replicate 4 0 @ bs)"
  shows "\<exists>n. giSent k len t ws (ipBytes len t @ bs) ((generate_ipv4 ^^ n) k)"
proof -
  obtain w vs where ws: "ws = w # vs" using carries_nonempty [OF assms(6)] by (cases ws) auto
  have i: "gi_state k = GI_META" "ipInit (ph_header (gi_header k))" using assms(1) by (simp_all add: giReady_def)
  define h where "h = setIpHeader len t (ph_header (gi_header k))"
  define d where "d = (upd 31 0 (rng 159 128 h :: 64 word) (ax_data w) :: 64 word)"
  let ?hd = "\<lambda>n. \<lparr>ph_ready = False, ph_idx = n, ph_header = h\<rparr> :: 160 word packetHeader"
  define k1 where "k1 = k\<lparr>gi_metaIn := ls, gi_tupleIn := ts, gi_eventIn := es, gi_header := ?hd 0, gi_state := GI_HEADER\<rparr>"
  define k2 where "k2 = k1\<lparr>gi_header := ?hd 1, gi_dataOut := gi_dataOut k @ [headWord h 0 False]\<rparr>"
  define k3 where "k3 = k2\<lparr>gi_header := ?hd 2, gi_dataOut := gi_dataOut k @ [headWord h 0 False, headWord h 1 False], gi_state := GI_PARTIAL_HEADER\<rparr>"
  define k4 where "k4 = k3\<lparr>gi_header := ?hd 3, gi_dataIn := vs @ rest, gi_dataOut := gi_dataOut k @ [headWord h 0 False, headWord h 1 False, w\<lparr>ax_data := d\<rparr>],
    gi_state := (if ax_last w then GI_META else GI_BODY)\<rparr>"
  have s1: "generate_ipv4 k = k1"
    using i assms(2-4) by (cases "gi_header k") (simp add: generate_ipv4_def k1_def h_def clearHeader_def Let_def)
  have s2: "generate_ipv4 k1 = k2" by (simp add: generate_ipv4_def k1_def k2_def consumeWord_def s_write_def headWord_def)
  have s3: "generate_ipv4 k2 = k3" by (simp add: generate_ipv4_def k1_def k2_def k3_def consumeWord_def s_write_def headWord_def)
  have s4: "generate_ipv4 k3 = k4"
    using assms(5) by (simp add: generate_ipv4_def k1_def k2_def k3_def k4_def consumeWord_def s_write_def d_def ws Let_def)
  have hb: "map (headerByte h) [a..<b] = take (b - a) (drop a (ipBytes len t))" if "b \<le> 20" for a b
    using that setIpHeader_bytes [OF i(2)] unfolding h_def by (intro nth_equalityI) auto
  have l: "lanes (headWord h 0 False) = kept (take 8 (ipBytes len t))" "lanes (headWord h 1 False) = kept (take 8 (drop 8 (ipBytes len t)))"
    using hb [of 8 0] hb [of 16 8] by (simp_all add: lanes_headWord)
  have "byteAt d n = (if n < 4 then drop 16 (ipBytes len t) ! n else byteAt (ax_data w) n)" if "n < 8" for n
  proof (cases "n < 4")
    case True
    have "byteAt d n = byteAt (rng 159 (64 * 2) h) n"
      using True unfolding d_def byteAt_def by (intro bit_word_eqI) (simp add: bit_simps)
    also have "\<dots> = headerByte h (8 * 2 + n)" by (rule byteAt_rng) (use True in simp_all)
    finally show ?thesis using True setIpHeader_bytes [OF i(2), of "16 + n"] by (simp add: h_def)
  next
    case False
    then show ?thesis unfolding d_def byteAt_def by (simp, intro bit_word_eqI) (simp add: bit_simps)
  qed
  then have p: "carries (w\<lparr>ax_data := d\<rparr> # vs) (drop 16 (ipBytes len t) @ bs)"
    using carries_patch [of w vs "replicate 4 0 @ bs" "drop 16 (ipBytes len t)" d] assms(6) ws by simp
  have "take 8 (ipBytes len t) @ take 8 (drop 8 (ipBytes len t)) @ drop 16 (ipBytes len t) = ipBytes len t"
    by (metis append_take_drop_id drop_drop numeral_Bit0)
  then have e: "ipBytes len t @ bs = take 8 (ipBytes len t) @ take 8 (drop 8 (ipBytes len t)) @ drop 16 (ipBytes len t) @ bs"
    by (metis append.assoc)
  have out: "carries (headWord h 0 False # headWord h 1 False # w\<lparr>ax_data := d\<rparr> # vs) (ipBytes len t @ bs)"
    unfolding e by (intro full_prefix l p) simp_all
  have hi: "ipInit h" using i(2) by (simp add: h_def ipInit_set)
  have "\<exists>n. (generate_ipv4 ^^ n) k4 = k4\<lparr>gi_dataIn := rest, gi_dataOut := gi_dataOut k @ headWord h 0 False # headWord h 1 False # w\<lparr>ax_data := d\<rparr> # vs, gi_state := GI_META\<rparr>"
  proof (cases "vs = []")
    case True
    then have "ax_last w" using assms(6) by (simp add: ws carries_single lastWord_def)
    with True show ?thesis by (intro exI [of _ 0]) (simp add: k4_def)
  next
    case False
    then have z: "\<not> ax_last w" "is_packet vs" using carries_packet [OF assms(6)] by (auto simp: ws is_packet_Cons split: if_splits)
    from gi_body [OF z(2), of k4 rest] z(1) show ?thesis by (intro exI [of _ "length vs"]) (simp add: k4_def)
  qed
  then obtain n where n: "(generate_ipv4 ^^ n) k4 = k4\<lparr>gi_dataIn := rest, gi_dataOut := gi_dataOut k @ headWord h 0 False # headWord h 1 False # w\<lparr>ax_data := d\<rparr> # vs, gi_state := GI_META\<rparr>" ..
  have "giSent k len t ws (ipBytes len t @ bs) ((generate_ipv4 ^^ n) k4)"
    unfolding n using assms(2-5) out hi by (auto simp: giSent_def giReady_def k4_def k3_def k2_def k1_def ws)
  moreover have "(generate_ipv4 ^^ n) k4 = (generate_ipv4 ^^ Suc (Suc (Suc (Suc n)))) k"
    unfolding funpow_Suc_apply s1 s2 s3 s4 ..
  ultimately show ?thesis by metis
qed

end
