(* ===== verification/Toe_Tx_Path.thy ===== *)
theory Toe_Tx_Path
  imports Toe_Tx_Segment Toe_Rx_Path
begin

text \<open>
  The stages of the transmit engine from the payload and the header data of a segment to the packet on its way to the
  network, connected as \<^verbatim>\<open>tx_engine\<close> (\<^verbatim>\<open>toe/tx_engine/tx_engine.cpp\<close>) connects them.  As in
  the receive engine a step is a call of any one stage, or the words in the streams getting on.
\<close>

record txPath =
  ty_front :: shifter
  ty_header :: headerStage
  ty_sums :: sumStage
  ty_assemble :: assembler
  ty_insert :: inserter
  ty_align :: shifter
  ty_generate :: generator

definition txLinks :: "txPath \<Rightarrow> txPath" where
  "txLinks p = p\<lparr>
     ty_front := (ty_front p)\<lparr>sh_output := []\<rparr>,
     ty_header := (ty_header p)\<lparr>hc_dataIn := hc_dataIn (ty_header p) @ sh_output (ty_front p),
       hc_headerOut := [], hc_payloadOut := [], hc_hasPayload := []\<rparr>,
     ty_sums := (ty_sums p)\<lparr>ts_headerIn := ts_headerIn (ty_sums p) @ hc_headerOut (ty_header p),
       ts_dataIn := ts_dataIn (ty_sums p) @ hc_payloadOut (ty_header p),
       ts_payloadIn := ts_payloadIn (ty_sums p) @ hc_hasPayload (ty_header p),
       ts_headerOut := [], ts_dataOut := [], ts_payloadDup := [], ts_checksum := [], ts_event := []\<rparr>,
     ty_assemble := (ty_assemble p)\<lparr>as_headerIn := as_headerIn (ty_assemble p) @ ts_headerOut (ty_sums p),
       as_dataIn := as_dataIn (ty_assemble p) @ ts_dataOut (ty_sums p),
       as_payloadIn := as_payloadIn (ty_assemble p) @ ts_payloadDup (ty_sums p), as_dataOut := []\<rparr>,
     ty_insert := (ty_insert p)\<lparr>ic_checksumIn := ic_checksumIn (ty_insert p) @ ts_checksum (ty_sums p),
       ic_dataIn := ic_dataIn (ty_insert p) @ as_dataOut (ty_assemble p), ic_dataOut := []\<rparr>,
     ty_align := (ty_align p)\<lparr>sh_input := sh_input (ty_align p) @ ic_dataOut (ty_insert p), sh_output := []\<rparr>,
     ty_generate := (ty_generate p)\<lparr>gi_eventIn := gi_eventIn (ty_generate p) @ ts_event (ty_sums p),
       gi_dataIn := gi_dataIn (ty_generate p) @ sh_output (ty_align p)\<rparr>\<rparr>"

inductive txFire :: "txPath \<Rightarrow> txPath \<Rightarrow> bool" where
  front: "txFire p (p\<lparr>ty_front := lshiftWordByOctet 0 (ty_front p)\<rparr>)"
| header: "txFire p (p\<lparr>ty_header := pseudoHeaderConstructionNew (ty_header p)\<rparr>)"
| sums: "txFire p (p\<lparr>ty_sums := tcp_ipv4_checksum (ty_sums p)\<rparr>)"
| assemble: "txFire p (p\<lparr>ty_assemble := remove_pseudo_header (ty_assemble p)\<rparr>)"
| insert: "txFire p (p\<lparr>ty_insert := insert_checksum (ty_insert p)\<rparr>)"
| align: "txFire p (p\<lparr>ty_align := lshiftWordByOctet 4 (ty_align p)\<rparr>)"
| generate: "txFire p (p\<lparr>ty_generate := generate_ipv4 (ty_generate p)\<rparr>)"
| links: "txFire p (txLinks p)"

interpretation frontPart: part txFire ty_front "\<lambda>k p. p\<lparr>ty_front := k\<rparr>" "lshiftWordByOctet 0"
  by unfold_locales (simp_all add: txFire.front)
interpretation headerPart: part txFire ty_header "\<lambda>k p. p\<lparr>ty_header := k\<rparr>" pseudoHeaderConstructionNew
  by unfold_locales (simp_all add: txFire.header)
interpretation txSumsPart: part txFire ty_sums "\<lambda>k p. p\<lparr>ty_sums := k\<rparr>" tcp_ipv4_checksum
  by unfold_locales (simp_all add: txFire.sums)
interpretation assemblePart: part txFire ty_assemble "\<lambda>k p. p\<lparr>ty_assemble := k\<rparr>" remove_pseudo_header
  by unfold_locales (simp_all add: txFire.assemble)
interpretation insertPart: part txFire ty_insert "\<lambda>k p. p\<lparr>ty_insert := k\<rparr>" insert_checksum
  by unfold_locales (simp_all add: txFire.insert)
interpretation txAlignPart: part txFire ty_align "\<lambda>k p. p\<lparr>ty_align := k\<rparr>" "lshiftWordByOctet 4"
  by unfold_locales (simp_all add: txFire.align)
interpretation generatePart: part txFire ty_generate "\<lambda>k p. p\<lparr>ty_generate := k\<rparr>" generate_ipv4
  by unfold_locales (simp_all add: txFire.generate)

lemma txLinks_run: "txFire\<^sup>*\<^sup>* p q \<Longrightarrow> txFire\<^sup>*\<^sup>* p (txLinks q)"
  by (erule rtranclp.rtrancl_into_rtrancl) (rule txFire.links)

text \<open>Nothing is on its way inside; requests may wait at the inputs.\<close>

definition txIdle :: "txPath \<Rightarrow> bool" where
  "txIdle p \<longleftrightarrow>
     shiftReady 0 (ty_front p) \<and> sh_output (ty_front p) = [] \<and>
     hcReady (ty_header p) \<and> hc_dataIn (ty_header p) = [] \<and> hc_headerOut (ty_header p) = [] \<and> hc_payloadOut (ty_header p) = [] \<and>
     hc_hasPayload (ty_header p) = [] \<and>
     tsReady (ty_sums p) \<and> ts_headerIn (ty_sums p) = [] \<and> ts_dataIn (ty_sums p) = [] \<and> ts_payloadIn (ty_sums p) = [] \<and>
     ts_headerOut (ty_sums p) = [] \<and> ts_dataOut (ty_sums p) = [] \<and> ts_payloadDup (ty_sums p) = [] \<and> ts_checksum (ty_sums p) = [] \<and>
     ts_event (ty_sums p) = [] \<and>
     as_state (ty_assemble p) = AS_PSEUDO \<and> as_headerIn (ty_assemble p) = [] \<and> as_dataIn (ty_assemble p) = [] \<and>
     as_payloadIn (ty_assemble p) = [] \<and> as_dataOut (ty_assemble p) = [] \<and>
     icReady (ty_insert p) \<and> ic_checksumIn (ty_insert p) = [] \<and> ic_dataIn (ty_insert p) = [] \<and> ic_dataOut (ty_insert p) = [] \<and>
     shiftReady 4 (ty_align p) \<and> sh_input (ty_align p) = [] \<and> sh_output (ty_align p) = [] \<and>
     giReady (ty_generate p) \<and> gi_eventIn (ty_generate p) = [] \<and> gi_dataIn (ty_generate p) = []"

lemma tx_same:
  "sh_output h = [] \<Longrightarrow> h\<lparr>sh_output := []\<rparr> = h" "sh_input h = [] \<Longrightarrow> h\<lparr>sh_input := []\<rparr> = h"
  "hc_dataIn c = [] \<Longrightarrow> c\<lparr>hc_dataIn := []\<rparr> = c" "hc_headerOut c = [] \<Longrightarrow> c\<lparr>hc_headerOut := []\<rparr> = c"
  "hc_payloadOut c = [] \<Longrightarrow> c\<lparr>hc_payloadOut := []\<rparr> = c" "hc_hasPayload c = [] \<Longrightarrow> c\<lparr>hc_hasPayload := []\<rparr> = c"
  "ts_headerIn t = [] \<Longrightarrow> t\<lparr>ts_headerIn := []\<rparr> = t" "ts_dataIn t = [] \<Longrightarrow> t\<lparr>ts_dataIn := []\<rparr> = t"
  "ts_payloadIn t = [] \<Longrightarrow> t\<lparr>ts_payloadIn := []\<rparr> = t" "ts_headerOut t = [] \<Longrightarrow> t\<lparr>ts_headerOut := []\<rparr> = t"
  "ts_dataOut t = [] \<Longrightarrow> t\<lparr>ts_dataOut := []\<rparr> = t" "ts_payloadDup t = [] \<Longrightarrow> t\<lparr>ts_payloadDup := []\<rparr> = t"
  "ts_checksum t = [] \<Longrightarrow> t\<lparr>ts_checksum := []\<rparr> = t" "ts_event t = [] \<Longrightarrow> t\<lparr>ts_event := []\<rparr> = t"
  by (cases h, simp, cases h, simp, cases c, simp, cases c, simp, cases c, simp, cases c, simp, cases t, simp, cases t, simp,
      cases t, simp, cases t, simp, cases t, simp, cases t, simp, cases t, simp, cases t, simp)

lemma tx_same2:
  "as_headerIn a = [] \<Longrightarrow> a\<lparr>as_headerIn := []\<rparr> = a" "as_dataIn a = [] \<Longrightarrow> a\<lparr>as_dataIn := []\<rparr> = a"
  "as_payloadIn a = [] \<Longrightarrow> a\<lparr>as_payloadIn := []\<rparr> = a" "as_dataOut a = [] \<Longrightarrow> a\<lparr>as_dataOut := []\<rparr> = a"
  "ic_checksumIn i = [] \<Longrightarrow> i\<lparr>ic_checksumIn := []\<rparr> = i" "ic_dataIn i = [] \<Longrightarrow> i\<lparr>ic_dataIn := []\<rparr> = i"
  "ic_dataOut i = [] \<Longrightarrow> i\<lparr>ic_dataOut := []\<rparr> = i"
  "gi_eventIn g = [] \<Longrightarrow> g\<lparr>gi_eventIn := []\<rparr> = g" "gi_dataIn g = [] \<Longrightarrow> g\<lparr>gi_dataIn := []\<rparr> = g"
  by (cases a, simp, cases a, simp, cases a, simp, cases a, simp, cases i, simp, cases i, simp, cases i, simp, cases g, simp, cases g, simp)

section \<open>A segment on its way\<close>

text \<open>The segment as the checksum sees it, and the packet that is sent.\<close>

definition plainSegment :: "tx_engine_meta \<Rightarrow> fourTuple \<Rightarrow> 8 word list \<Rightarrow> 8 word list" where
  "plainSegment m t payload = headBytes m t @ optionBytes m @ payload"

definition withChecksum :: "16 word \<Rightarrow> 8 word list \<Rightarrow> 8 word list" where
  "withChecksum c bs = take 16 bs @ bytes16 c @ drop 18 bs"

definition sentPacket :: "tx_engine_meta \<Rightarrow> fourTuple \<Rightarrow> 16 word \<Rightarrow> twoTuple \<Rightarrow> 16 word \<Rightarrow> 8 word list \<Rightarrow> 8 word list" where
  "sentPacket m t len ip c payload = ipBytes len ip @ withChecksum c (drop 12 (plainSegment m t payload))"

text \<open>The inputs of one segment: its payload, if it has one, waits in words \<open>ws\<close>.\<close>

definition txInput :: "txPath \<Rightarrow> tx_engine_meta \<Rightarrow> fourTuple \<Rightarrow> axiWord list \<Rightarrow> 8 word list \<Rightarrow> bool \<Rightarrow> 16 word \<Rightarrow> 16 word \<Rightarrow> twoTuple \<Rightarrow> txPath \<Rightarrow> bool" where
  "txInput p m t ws payload v s len ip q \<longleftrightarrow>
     hc_metaIn (ty_header p) = m # hc_metaIn (ty_header q) \<and> hc_tupleIn (ty_header p) = t # hc_tupleIn (ty_header q) \<and>
     sh_input (ty_front p) = ws @ sh_input (ty_front q) \<and> (if bodyOf m then carries ws payload else ws = [] \<and> payload = []) \<and>
     ts_validIn (ty_sums p) = v # ts_validIn (ty_sums q) \<and> ts_subSumIn (ty_sums p) = s # ts_subSumIn (ty_sums q) \<and>
     gi_metaIn (ty_generate p) = len # gi_metaIn (ty_generate q) \<and> gi_tupleIn (ty_generate p) = ip # gi_tupleIn (ty_generate q)"

lemma length_optionBytes: "length (optionBytes m) = (if te_syn m then 4 else 0)"
  by (simp add: optionBytes_def)

lemma tx_path:
  assumes "txIdle p" and "hc_metaIn (ty_header p) = m # ms" and "hc_tupleIn (ty_header p) = t # ts"
    and "sh_input (ty_front p) = ws @ rest" and "if bodyOf m then carries ws payload else ws = [] \<and> payload = []"
    and "ts_validIn (ty_sums p) = v # vs" and "ts_subSumIn (ty_sums p) = s # ss"
    and "gi_metaIn (ty_generate p) = len # ls" and "gi_tupleIn (ty_generate p) = ip # ips"
  shows "\<exists>q out c. txFire\<^sup>*\<^sup>* p q \<and> txIdle q \<and> txInput p m t ws payload v s len ip q \<and>
    gi_dataOut (ty_generate q) = gi_dataOut (ty_generate p) @ out \<and> carries out (sentPacket m t len ip c payload) \<and>
    unat c = 65535 - oneSum (packetSum (headBytes m t @ optionBytes m) + (if v then unat s else packetSum payload))"
proof -
  let ?head = "headBytes m t @ optionBytes m" and ?b = "bodyOf m"
  obtain A B C D E F G where p: "p = \<lparr>ty_front = A, ty_header = B, ty_sums = C, ty_assemble = D, ty_insert = E, ty_align = F, ty_generate = G\<rparr>"
    by (cases p)
  note i = assms(1) [unfolded txIdle_def p, simplified]
  note a = assms(2-4,6-9) [unfolded p, simplified]
  define k1 where "k1 = A\<lparr>sh_input := rest, sh_output := []\<rparr>"
  have s1: "(lshiftWordByOctet 0 ^^ length ws) A = k1\<lparr>sh_output := ws\<rparr>"
    using lshift0_words [of A ws rest] i a by (simp add: k1_def)
  define b where "b = B\<lparr>hc_dataIn := ws\<rparr>"
  have rb: "hcReady b" "hc_metaIn b = m # ms" "hc_tupleIn b = t # ts" "hc_dataIn b = ws @ []" "if bodyOf m then is_packet ws else ws = []"
    using i a assms(5) by (auto simp: b_def hcReady_def carries_packet split: if_splits)
  have bo: "hc_headerOut b = []" "hc_payloadOut b = []" "hc_hasPayload b = []" using i by (simp_all add: b_def)
  obtain n2 where n2: "hcSent b m t ws ((pseudoHeaderConstructionNew ^^ n2) b)" using hc_segment [OF rb] by blast
  define k2 where "k2 = (pseudoHeaderConstructionNew ^^ n2) b"
  define k2' where "k2' = k2\<lparr>hc_headerOut := [], hc_payloadOut := [], hc_hasPayload := []\<rparr>"
  obtain hs where s2: "hcReady k2" "hc_metaIn k2 = ms" "hc_tupleIn k2 = ts" "hc_dataIn k2 = []" "hc_payloadOut k2 = ws" "hc_hasPayload k2 = [?b]"
    "hc_headerOut k2 = hs" "carries hs ?head"
    using n2 [folded k2_def, unfolded hcSent_def rb(2-4) bo] by auto
  define c where "c = C\<lparr>ts_headerIn := hs, ts_dataIn := ws, ts_payloadIn := [?b]\<rparr>"
  have rc: "tsReady c" "ts_payloadIn c = ?b # []" "ts_validIn c = v # vs" "ts_subSumIn c = s # ss" "ts_headerIn c = hs @ []"
    "ts_dataIn c = ws @ []" "if ?b then carries ws payload else ws = []"
    using i a assms(5) by (auto simp: c_def tsReady_def split: if_splits)
  have co: "ts_headerOut c = []" "ts_dataOut c = []" "ts_payloadDup c = []" "ts_event c = []" "ts_checksum c = []" using i by (simp_all add: c_def)
  obtain n3 where n3: "tsSent c ?b v s hs ws (packetSum ?head + (if v then unat s else if ?b then packetSum payload else 0))
      ((tcp_ipv4_checksum ^^ n3) c)" using ts_segment [OF rc(1-5) s2(8) rc(6,7)] by blast
  define k3 where "k3 = (tcp_ipv4_checksum ^^ n3) c"
  define k3' where "k3' = k3\<lparr>ts_headerOut := [], ts_dataOut := [], ts_payloadDup := [], ts_checksum := [], ts_event := []\<rparr>"
  note f3 = n3 [folded k3_def, unfolded tsSent_def rc(2-6) co append_Nil append_Nil2]
  obtain cs where cs: "ts_checksum k3 = [cs]"
    "unat cs = 65535 - oneSum (packetSum ?head + (if v then unat s else if ?b then packetSum payload else 0))"
    using f3 by (elim conjE exE) (rule that)
  have s3: "tsReady k3" "ts_payloadIn k3 = []" "ts_validIn k3 = vs" "ts_subSumIn k3 = ss" "ts_headerIn k3 = []" "ts_dataIn k3 = []"
    "ts_headerOut k3 = hs" "ts_dataOut k3 = ws" "ts_payloadDup k3 = [?b]" "ts_event k3 = [True]"
    using f3 by simp_all
  define d where "d = D\<lparr>as_headerIn := hs, as_dataIn := ws, as_payloadIn := [?b]\<rparr>"
  have rd: "as_state d = AS_PSEUDO" "as_payloadIn d = ?b # []" "as_headerIn d = hs @ []" "16 < length ?head" "as_dataIn d = ws @ []"
    "if ?b then 8 dvd length ?head \<and> carries ws payload else ws = [] \<and> payload = []"
    using i assms(5) by (auto simp: d_def length_optionBytes bodyOf_def split: if_splits)
  have da: "as_dataOut d = []" using i by (simp add: d_def)
  obtain n4 where n4: "asSent d ?b hs ws (drop 12 (?head @ payload)) ((remove_pseudo_header ^^ n4) d)"
    using as_segment [OF rd(1-3) s2(8) rd(4-6)] by blast
  define k4 where "k4 = (remove_pseudo_header ^^ n4) d"
  obtain w4 where s4: "as_state k4 = AS_PSEUDO" "as_payloadIn k4 = []" "as_headerIn k4 = []" "as_dataIn k4 = []" "as_dataOut k4 = w4"
    "carries w4 (drop 12 (plainSegment m t payload))"
    using n4 [folded k4_def, unfolded asSent_def rd(2,3,5) da] by (auto simp: plainSegment_def simp del: drop_append)
  define e where "e = E\<lparr>ic_checksumIn := [cs], ic_dataIn := w4\<rparr>"
  have re: "icReady e" "ic_checksumIn e = cs # []" "ic_dataIn e = w4 @ []" "18 \<le> length (drop 12 (plainSegment m t payload))"
    using i by (simp_all add: e_def icReady_def plainSegment_def)
  obtain n5 w5 where n5: "icReady ((insert_checksum ^^ n5) e)" "ic_checksumIn ((insert_checksum ^^ n5) e) = []" "ic_dataIn ((insert_checksum ^^ n5) e) = []"
    "ic_dataOut ((insert_checksum ^^ n5) e) = w5" "carries w5 (withChecksum cs (drop 12 (plainSegment m t payload)))"
    using ic_segment [OF re(1-3) s4(6) re(4)] i unfolding withChecksum_def by (auto simp: e_def)
  define k5 where "k5 = (insert_checksum ^^ n5) e"
  note s5 = n5 [folded k5_def]
  define f where "f = F\<lparr>sh_input := w5\<rparr>"
  have rf: "shiftReady 4 f" "sh_input f = w5 @ []" "sh_output f = []" using i by (simp_all add: f_def shiftReady_def)
  obtain n6 w6 where n6: "shiftReady 4 ((lshiftWordByOctet 4 ^^ n6) f)" "sh_input ((lshiftWordByOctet 4 ^^ n6) f) = []"
    "sh_output ((lshiftWordByOctet 4 ^^ n6) f) = w6" "carries w6 (replicate 4 0 @ withChecksum cs (drop 12 (plainSegment m t payload)))"
    using lshift_packet [OF _ _ rf(1,2) s5(5)] rf(3) by auto
  define k6 where "k6 = (lshiftWordByOctet 4 ^^ n6) f"
  note s6 = n6 [folded k6_def]
  define g where "g = G\<lparr>gi_eventIn := [True], gi_dataIn := w6\<rparr>"
  have rg: "giReady g" "gi_metaIn g = len # ls" "gi_tupleIn g = ip # ips" "gi_eventIn g = True # []" "gi_dataIn g = w6 @ []"
    using i a by (simp_all add: g_def giReady_def)
  have go: "gi_dataOut g = gi_dataOut G" by (simp add: g_def)
  obtain n7 where n7: "giSent g len ip w6 (ipBytes len ip @ withChecksum cs (drop 12 (plainSegment m t payload))) ((generate_ipv4 ^^ n7) g)"
    using gi_segment [OF rg s6(4)] by blast
  define k7 where "k7 = (generate_ipv4 ^^ n7) g"
  obtain out where s7: "giReady k7" "gi_metaIn k7 = ls" "gi_tupleIn k7 = ips" "gi_eventIn k7 = []" "gi_dataIn k7 = []"
    "gi_dataOut k7 = gi_dataOut G @ out" "carries out (sentPacket m t len ip cs payload)"
    using n7 [folded k7_def, unfolded giSent_def rg(2-5) go] by (auto simp: sentPacket_def)
  let ?r = "txFire\<^sup>*\<^sup>*"
  note st = txLinks_def tx_same tx_same2
  have "?r p (p\<lparr>ty_front := k1\<lparr>sh_output := ws\<rparr>\<rparr>)" by (rule frontPart.runs_to [of _ _ "length ws"]) (simp_all add: p s1)
  from txLinks_run [OF this] have "?r p (p\<lparr>ty_front := k1, ty_header := b\<rparr>)"
    using i by (simp add: p st k1_def b_def)
  from headerPart.runs_to [OF this, of n2 k2] have "?r p (p\<lparr>ty_front := k1, ty_header := k2\<rparr>)" by (simp add: p k2_def)
  from txLinks_run [OF this] have "?r p (p\<lparr>ty_front := k1, ty_header := k2', ty_sums := c\<rparr>)"
    using i s2 by (simp add: p st k1_def k2'_def c_def)
  from txSumsPart.runs_to [OF this, of n3 k3] have "?r p (p\<lparr>ty_front := k1, ty_header := k2', ty_sums := k3\<rparr>)" by (simp add: p k3_def)
  from txLinks_run [OF this] have "?r p (p\<lparr>ty_front := k1, ty_header := k2', ty_sums := k3', ty_assemble := d,
      ty_insert := E\<lparr>ic_checksumIn := [cs]\<rparr>, ty_generate := G\<lparr>gi_eventIn := [True]\<rparr>\<rparr>)"
    using i s2 s3 cs(1) by (simp add: p st k1_def k2'_def k3'_def d_def)
  from assemblePart.runs_to [OF this, of n4 k4] have "?r p (p\<lparr>ty_front := k1, ty_header := k2', ty_sums := k3', ty_assemble := k4,
      ty_insert := E\<lparr>ic_checksumIn := [cs]\<rparr>, ty_generate := G\<lparr>gi_eventIn := [True]\<rparr>\<rparr>)" by (simp add: p k4_def)
  from txLinks_run [OF this] have "?r p (p\<lparr>ty_front := k1, ty_header := k2', ty_sums := k3', ty_assemble := k4\<lparr>as_dataOut := []\<rparr>,
      ty_insert := e, ty_generate := G\<lparr>gi_eventIn := [True]\<rparr>\<rparr>)"
    using i s2 s3 s4 by (simp add: p st k1_def k2'_def k3'_def e_def)
  from insertPart.runs_to [OF this, of n5 k5] have "?r p (p\<lparr>ty_front := k1, ty_header := k2', ty_sums := k3', ty_assemble := k4\<lparr>as_dataOut := []\<rparr>,
      ty_insert := k5, ty_generate := G\<lparr>gi_eventIn := [True]\<rparr>\<rparr>)" by (simp add: p k5_def)
  from txLinks_run [OF this] have "?r p (p\<lparr>ty_front := k1, ty_header := k2', ty_sums := k3', ty_assemble := k4\<lparr>as_dataOut := []\<rparr>,
      ty_insert := k5\<lparr>ic_dataOut := []\<rparr>, ty_align := f, ty_generate := G\<lparr>gi_eventIn := [True]\<rparr>\<rparr>)"
    using i s2 s3 s4 s5 by (simp add: p st k1_def k2'_def k3'_def f_def)
  from txAlignPart.runs_to [OF this, of n6 k6] have "?r p (p\<lparr>ty_front := k1, ty_header := k2', ty_sums := k3', ty_assemble := k4\<lparr>as_dataOut := []\<rparr>,
      ty_insert := k5\<lparr>ic_dataOut := []\<rparr>, ty_align := k6, ty_generate := G\<lparr>gi_eventIn := [True]\<rparr>\<rparr>)" by (simp add: p k6_def)
  from txLinks_run [OF this] have "?r p (p\<lparr>ty_front := k1, ty_header := k2', ty_sums := k3', ty_assemble := k4\<lparr>as_dataOut := []\<rparr>,
      ty_insert := k5\<lparr>ic_dataOut := []\<rparr>, ty_align := k6\<lparr>sh_output := []\<rparr>, ty_generate := g\<rparr>)"
    using i s2 s3 s4 s5 s6 by (simp add: p st k1_def k2'_def k3'_def g_def)
  from generatePart.runs_to [OF this, of n7 k7] have run: "?r p (p\<lparr>ty_front := k1, ty_header := k2', ty_sums := k3', ty_assemble := k4\<lparr>as_dataOut := []\<rparr>,
      ty_insert := k5\<lparr>ic_dataOut := []\<rparr>, ty_align := k6\<lparr>sh_output := []\<rparr>, ty_generate := k7\<rparr>)" (is "txFire\<^sup>*\<^sup>* _ ?q") by (simp add: p k7_def)
  have idle: "txIdle ?q"
    using i s1 s2 s3 s4 s5 s6 s7 by (simp add: p txIdle_def k1_def k2'_def k3'_def shiftReady_def hcReady_def tsReady_def icReady_def)
  have inp: "txInput p m t ws payload v s len ip ?q"
    using a s2 s3 s7 assms(5) by (simp add: p txInput_def k1_def k2'_def k3'_def)
  have z: "(if v then unat s else if ?b then packetSum payload else 0) = (if v then unat s else packetSum payload)"
    using assms(5) by (auto simp: packetSum_def)
  show ?thesis
    using run idle inp s7(6,7) cs(2) unfolding z by (intro exI [of _ ?q] exI [of _ out] exI [of _ cs]) (simp add: p)
qed

section \<open>The checksum is right\<close>

lemma packetSum_append: "even (length xs) \<Longrightarrow> packetSum (xs @ ys) = packetSum xs + packetSum ys"
  by (induction xs rule: beWords.induct) (simp_all add: packetSum_def)

lemma oneSum_complement: "oneSum (n + (65535 - oneSum n)) = 65535"
proof -
  have "oneSum (n + (65535 - oneSum n)) = oneSum (oneSum n + (65535 - oneSum n))" by (simp only: oneSum_add)
  also have "oneSum n + (65535 - oneSum n) = 65535" using oneSum_le [of n] by simp
  finally show ?thesis by (simp add: oneSum_def)
qed

text \<open>The segment that is sent, behind its pseudo header.\<close>

definition wireSegment :: "tx_engine_meta \<Rightarrow> fourTuple \<Rightarrow> 16 word \<Rightarrow> 8 word list \<Rightarrow> 8 word list" where
  "wireSegment m t c payload = take 12 (headBytes m t) @ withChecksum c (drop 12 (plainSegment m t payload))"

lemma headBytes_split: "headBytes m t = take 28 (headBytes m t) @ [0, 0, 0, 0]"
  by (simp add: headBytes_def bytes32_def bytes16_def)

lemma wireSegment_bytes: "wireSegment m t c payload = take 28 (headBytes m t) @ bytes16 c @ [0, 0] @ optionBytes m @ payload"
proof -
  let ?h = "take 28 (headBytes m t)" and ?b = "optionBytes m @ payload"
  have h: "length ?h = 28" by simp
  have p: "plainSegment m t payload = ?h @ [0, 0, 0, 0] @ ?b"
    unfolding plainSegment_def by (metis append.assoc headBytes_split)
  have d: "drop 12 (plainSegment m t payload) = drop 12 ?h @ [0, 0, 0, 0] @ ?b" unfolding p using h by simp
  have "withChecksum c (drop 12 (plainSegment m t payload)) = drop 12 ?h @ bytes16 c @ [0, 0] @ ?b"
    unfolding d withChecksum_def using h by simp
  moreover have "take 12 (headBytes m t) @ drop 12 ?h = ?h" 
    using append_take_drop_id [of 12 ?h] by (simp add: take_take)
  ultimately show ?thesis unfolding wireSegment_def by (metis append.assoc)
qed

lemma wireSegment_sum:
  assumes "unat c = 65535 - oneSum (packetSum (headBytes m t @ optionBytes m) + (if v then unat s else packetSum payload))"
    and "v \<Longrightarrow> oneSum (unat (s :: 16 word)) = oneSum (packetSum payload)"
  shows "oneSum (packetSum (wireSegment m t c payload)) = 65535"
proof -
  let ?h = "take 28 (headBytes m t)" and ?n = "packetSum (headBytes m t @ optionBytes m) + packetSum payload"
  have o: "even (length (optionBytes m))" by (simp add: length_optionBytes)
  have b: "packetSum (bytes16 c) = unat c" by (simp add: bytes16_def packetSum_def be_bytes)
  have z: "packetSum [0, 0] = 0" "packetSum [0, 0, 0, 0] = 0" by (code_simp, code_simp)
  have hb: "packetSum (headBytes m t) = packetSum ?h"
    using arg_cong [OF headBytes_split, of packetSum m t] by (simp add: packetSum_append z)
  have "packetSum (wireSegment m t c payload) = packetSum ?h + unat c + packetSum (optionBytes m) + packetSum payload"
    unfolding wireSegment_bytes using o
      packetSum_append [of ?h "bytes16 c @ [0, 0] @ optionBytes m @ payload"] packetSum_append [of "bytes16 c" "[0, 0] @ optionBytes m @ payload"]
      packetSum_append [of "[0, 0]" "optionBytes m @ payload"] packetSum_append [of "optionBytes m" payload]
    by (simp only: b z) simp
  also have "\<dots> = ?n + unat c" by (simp add: packetSum_append hb)
  finally have w: "packetSum (wireSegment m t c payload) = ?n + unat c" .
  have "oneSum (packetSum (headBytes m t @ optionBytes m) + (if v then unat s else packetSum payload)) = oneSum ?n"
  proof (cases v)
    case True
    then show ?thesis using assms(2) oneSum_add(2) [of "packetSum (headBytes m t @ optionBytes m)" "unat s"] by simp
  qed simp
  then have "unat c = 65535 - oneSum ?n" using assms(1) by simp
  then show ?thesis unfolding w by (simp only: oneSum_complement)
qed

section \<open>What the receive engine reads\<close>

definition segmentLength :: "tx_engine_meta \<Rightarrow> 8 word list \<Rightarrow> bool" where
  "segmentLength m payload \<longleftrightarrow> unat (te_length m) = length (optionBytes m) + length payload \<and> unat (te_length m) + 40 < 65536"

lemma offset_byte: "unat (rng 7 4 (offsetByte m) :: 4 word) = (if te_syn m then 6 else 5)"
proof -
  have "(rng 3 0 w :: 4 word) = w" for w :: "4 word" by (rule bit_word_eqI) (simp add: bit_simps)
  then show ?thesis by (simp add: offsetByte_def bitWord_def rng_upd_inside rng_simps)
qed

lemma flag_bits: "bit (flagByte m) 0 = te_fin m" "bit (flagByte m) 1 = te_syn m" "bit (flagByte m) 2 = te_rst m" "bit (flagByte m) 4 = te_ack m"
  by (simp_all add: flagByte_def bit_upd bitWord_def)

lemma unat_plus: "unat (a :: 16 word) + n < 65536 \<Longrightarrow> unat (a + of_nat n) = unat a + n"
  by (simp add: unat_word_ariths unat_of_nat)

lemma sentPacket_read:
  assumes "segmentLength m payload" and "bs = sentPacket m t (te_length m) \<lparr>tt_srcIp = ft_srcIp t, tt_dstIp = ft_dstIp t\<rparr> c payload"
  shows "ipPacket bs" and "ipHeaderLength bs = 5" and "pseudoSegment bs = wireSegment m t c payload"
proof -
  let ?ib = "ipBytes (te_length m) \<lparr>tt_srcIp = ft_srcIp t, tt_dstIp = ft_dstIp t\<rparr>"
  let ?seg = "withChecksum c (drop 12 (plainSegment m t payload))"
  have bs: "bs = ?ib @ ?seg" using assms(2) by (simp add: sentPacket_def)
  have n: "bs ! i = ?ib ! i" if "i < 20" for i using that by (simp add: bs nth_append)
  have "bs ! 0 = 0x45" using n [of 0] by (simp add: ipBytes_def)
  then show hl: "ipHeaderLength bs = 5" by (simp add: ipHeaderLength_def) 
  have l: "length bs = 40 + length (optionBytes m) + length payload"
    by (simp add: bs withChecksum_def plainSegment_def)
  then show "ipPacket bs" using hl by (simp add: ipPacket_def)
  have i: "bs ! 2 = rng 15 8 (te_length m + 40)" "bs ! 3 = rng 7 0 (te_length m + 40)"
    "bs ! 12 = rng 31 24 (reverse32 (ft_srcIp t))" "bs ! 13 = rng 23 16 (reverse32 (ft_srcIp t))" "bs ! 14 = rng 15 8 (reverse32 (ft_srcIp t))"
    "bs ! 15 = rng 7 0 (reverse32 (ft_srcIp t))" "bs ! 16 = rng 31 24 (reverse32 (ft_dstIp t))" "bs ! 17 = rng 23 16 (reverse32 (ft_dstIp t))"
    "bs ! 18 = rng 15 8 (reverse32 (ft_dstIp t))" "bs ! 19 = rng 7 0 (reverse32 (ft_dstIp t))"
    using n by (simp_all add: ipBytes_def bytes16_def bytes32_def)
  have "ipMeta bs = \<lparr>pm_their_address = reverse32 (ft_srcIp t), pm_our_address = reverse32 (ft_dstIp t), pm_length = te_length m + 20\<rparr>"
    unfolding ipMeta_def i be_bytes hl by simp
  then have m: "pseudoBytes (ipMeta bs) = take 12 (headBytes m t)"
    by (simp add: pseudoBytes_def headBytes_def bytes32_def bytes16_def)
  have d: "drop 20 bs = ?seg" by (simp add: bs)
  show "pseudoSegment bs = wireSegment m t c payload"
    unfolding pseudoSegment_def hl wireSegment_def m by (simp add: d)
qed

text \<open>The header fields of the segment that is sent.\<close>

lemma wireSegment_read:
  assumes "segmentLength m payload" and "ph = wireSegment m t c payload"
  shows "unat (be16 (ph ! 10) (ph ! 11)) + 12 = length ph" and "unat (rng 7 4 (ph ! 24) :: 4 word) = (if te_syn m then 6 else 5)"
    and "length ph = 32 + length (optionBytes m) + length payload"
    and "drop (12 + 4 * unat (rng 7 4 (ph ! 24) :: 4 word)) ph = payload"
    and "be16 (ph ! 14) (ph ! 15) = reverse16 (ft_dstPort t)" and "segTuple ph = t" and "unicast ph = unicast (headBytes m t)"
    and "segMeta junk ph = \<lparr>rm_seqNumb = te_seqNumb m, rm_ackNumb = te_ackNumb m, rm_winSize = te_window_size m, rm_winScale = junk,
      rm_length = of_nat (length payload), rm_ack = te_ack m, rm_rst = te_rst m, rm_syn = te_syn m, rm_fin = te_fin m,
      rm_dataOffset = (if te_syn m then 6 else 5)\<rparr>"
proof -
  have ph: "ph = take 28 (headBytes m t) @ bytes16 c @ [0, 0] @ optionBytes m @ payload" by (simp add: assms(2) wireSegment_bytes)
  have n: "ph ! i = headBytes m t ! i" if "i < 28" for i using that by (simp add: ph nth_append)
  show l: "length ph = 32 + length (optionBytes m) + length payload" by (simp add: ph)
  have i24: "ph ! 24 = offsetByte m" using n [of 24] by (simp add: headBytes_def bytes32_def bytes16_def)
  show off: "unat (rng 7 4 (ph ! 24) :: 4 word) = (if te_syn m then 6 else 5)" by (simp add: i24 offset_byte)
  have i10: "ph ! 10 = rng 15 8 (te_length m + 20)" "ph ! 11 = rng 7 0 (te_length m + 20)"
    using n [of 10] n [of 11] by (simp_all add: headBytes_def bytes32_def bytes16_def)
  have len: "be16 (ph ! 10) (ph ! 11) = te_length m + 20" unfolding i10 be_bytes ..
  then have "unat (be16 (ph ! 10) (ph ! 11)) = unat (te_length m) + 20"
    using unat_plus [of "te_length m" 20] assms(1) by (simp add: segmentLength_def)
  then show "unat (be16 (ph ! 10) (ph ! 11)) + 12 = length ph" using assms(1) by (simp add: l segmentLength_def)
  show "drop (12 + 4 * unat (rng 7 4 (ph ! 24) :: 4 word)) ph = payload"
    unfolding off by (cases "te_syn m") (simp_all add: ph optionBytes_def)
  show "be16 (ph ! 14) (ph ! 15) = reverse16 (ft_dstPort t)"
    using n [of 14] n [of 15] by (simp add: headBytes_def bytes32_def bytes16_def be_bytes)
  have r: "reverse16 (be16 a b) = be16 b a" for a b by (rule word16_eqI) (simp_all add: reverse16_rng be_rng)
  have tup: "be32 (ph ! 0) (ph ! 1) (ph ! 2) (ph ! 3) = reverse32 (ft_srcIp t)" "be32 (ph ! 4) (ph ! 5) (ph ! 6) (ph ! 7) = reverse32 (ft_dstIp t)"
    "be16 (ph ! 12) (ph ! 13) = reverse16 (ft_srcPort t)" "be16 (ph ! 14) (ph ! 15) = reverse16 (ft_dstPort t)"
    using n by (simp_all add: headBytes_def bytes32_def bytes16_def be_bytes)
  from arg_cong [OF tup(1), of reverse32] arg_cong [OF tup(2), of reverse32] arg_cong [OF tup(3), of reverse16] arg_cong [OF tup(4), of reverse16]
  show "segTuple ph = t" by (cases t) (simp add: segTuple_def reverse32_be reverse16_be)
  have "take 4 ph = take 4 (headBytes m t)" "take 4 (drop 4 ph) = take 4 (drop 4 (headBytes m t))"
    by (simp_all add: ph take_drop min_def)
  then show "unicast ph = unicast (headBytes m t)" using n [of 0] n [of 4] by (simp add: unicast_def)
  have o: "(rng 7 4 (ph ! 24) :: 4 word) = (if te_syn m then 6 else 5)"
    using off by (auto simp: word_unat_eq_iff)
  have m4: "be32 (ph ! 16) (ph ! 17) (ph ! 18) (ph ! 19) = te_seqNumb m" "be32 (ph ! 20) (ph ! 21) (ph ! 22) (ph ! 23) = te_ackNumb m"
    "be16 (ph ! 26) (ph ! 27) = te_window_size m" "ph ! 25 = flagByte m"
    using n by (simp_all add: headBytes_def bytes32_def bytes16_def be_bytes)
  have u: "te_length m = of_nat (length (optionBytes m)) + of_nat (length payload)"
    using arg_cong [OF conjunct1 [OF assms(1) [unfolded segmentLength_def]], of "of_nat :: nat \<Rightarrow> 16 word"] by simp
  show "segMeta junk ph = \<lparr>rm_seqNumb = te_seqNumb m, rm_ackNumb = te_ackNumb m, rm_winSize = te_window_size m, rm_winScale = junk,
      rm_length = of_nat (length payload), rm_ack = te_ack m, rm_rst = te_rst m, rm_syn = te_syn m, rm_fin = te_fin m,
      rm_dataOffset = (if te_syn m then 6 else 5)\<rparr>"
    unfolding segMeta_def o m4 len flag_bits Let_def by (simp add: u length_optionBytes)
qed

section \<open>The properties\<close>

text \<open>C5: The stages of the transmit engine make of the header data of one segment, and its payload when it has
  one, one IPv4 packet: IPv4 header, TCP header with the maximum segment size option on a SYN, payload.  Its checksum
  makes the one's complement sum of pseudo header and segment all ones, whether the payload is summed here or
  a partial sum of it is handed over.  One request is taken from each input and the engine is idle again.\<close>

theorem segment_transmitted:
  assumes "txIdle p" and "hc_metaIn (ty_header p) = m # ms" and "hc_tupleIn (ty_header p) = t # ts"
    and "sh_input (ty_front p) = ws @ rest" and "if bodyOf m then carries ws payload else ws = [] \<and> payload = []"
    and "ts_validIn (ty_sums p) = v # vs" and "ts_subSumIn (ty_sums p) = s # ss"
    and "gi_metaIn (ty_generate p) = len # ls" and "gi_tupleIn (ty_generate p) = ip # ips"
    and "v \<Longrightarrow> oneSum (unat s) = oneSum (packetSum payload)"
  shows "\<exists>q out c. txFire\<^sup>*\<^sup>* p q \<and> txIdle q \<and> txInput p m t ws payload v s len ip q \<and>
    gi_dataOut (ty_generate q) = gi_dataOut (ty_generate p) @ out \<and>
    carries out (ipBytes len ip @ drop 12 (wireSegment m t c payload)) \<and>
    oneSum (packetSum (wireSegment m t c payload)) = 65535"
proof -
  obtain q out c where q: "txFire\<^sup>*\<^sup>* p q" "txIdle q" "txInput p m t ws payload v s len ip q"
    "gi_dataOut (ty_generate q) = gi_dataOut (ty_generate p) @ out" "carries out (sentPacket m t len ip c payload)"
    "unat c = 65535 - oneSum (packetSum (headBytes m t @ optionBytes m) + (if v then unat s else packetSum payload))"
    using tx_path [OF assms(1-9)] by blast
  have "drop 12 (wireSegment m t c payload) = withChecksum c (drop 12 (plainSegment m t payload))" by (simp add: wireSegment_def)
  with q wireSegment_sum [OF q(6) assms(10)] show ?thesis by (intro exI [of _ q] exI [of _ out] exI [of _ c]) (simp add: sentPacket_def)
qed

text \<open>C4: What the transmit engine sends the receive engine reads back: a packet made from header data and payload
  between unicast addresses crosses the stages of the receive engine, which issue exactly the numbers, flags, window
  and addresses the segment was made from, request its port and pass on exactly its payload.\<close>

theorem segment_roundtrip:
  assumes "txIdle p" and "hc_metaIn (ty_header p) = m # ms" and "hc_tupleIn (ty_header p) = t # ts"
    and "sh_input (ty_front p) = ws @ rest" and "if bodyOf m then carries ws payload else ws = [] \<and> payload = []"
    and "ts_validIn (ty_sums p) = v # vs" and "ts_subSumIn (ty_sums p) = s # ss"
    and "gi_metaIn (ty_generate p) = te_length m # ls"
    and "gi_tupleIn (ty_generate p) = \<lparr>tt_srcIp = ft_srcIp t, tt_dstIp = ft_dstIp t\<rparr> # ips"
    and "v \<Longrightarrow> oneSum (unat s) = oneSum (packetSum payload)" and "segmentLength m payload" and "unicast (headBytes m t)" and "rxIdle r"
  shows "\<exists>q out r' got. txFire\<^sup>*\<^sup>* p q \<and> txIdle q \<and> gi_dataOut (ty_generate q) = gi_dataOut (ty_generate p) @ out \<and>
    (rxFire False junk)\<^sup>*\<^sup>* (r\<lparr>px_ip := (px_ip r)\<lparr>ip_dataIn := out\<rparr>\<rparr>) r' \<and> rxIdle r' \<and> ip_dataIn (px_ip r') = [] \<and>
    sg_metaOut (px_segment r') = sg_metaOut (px_segment r) @ [\<lparr>rm_seqNumb = te_seqNumb m, rm_ackNumb = te_ackNumb m,
      rm_winSize = te_window_size m, rm_winScale = junk, rm_length = of_nat (length payload), rm_ack = te_ack m, rm_rst = te_rst m,
      rm_syn = te_syn m, rm_fin = te_fin m, rm_dataOffset = (if te_syn m then 6 else 5)\<rparr>] \<and>
    sg_tupleOut (px_segment r') = sg_tupleOut (px_segment r) @ [t] \<and>
    sg_portOut (px_segment r') = sg_portOut (px_segment r) @ [reverse16 (ft_dstPort t)] \<and>
    op_dataOut (px_options r') = op_dataOut (px_options r) @ got \<and> (if payload = [] then got = [] else carries got payload)"
proof -
  let ?ip = "\<lparr>tt_srcIp = ft_srcIp t, tt_dstIp = ft_dstIp t\<rparr>"
  obtain q out c where q: "txFire\<^sup>*\<^sup>* p q" "txIdle q" "gi_dataOut (ty_generate q) = gi_dataOut (ty_generate p) @ out"
    "carries out (sentPacket m t (te_length m) ?ip c payload)"
    "unat c = 65535 - oneSum (packetSum (headBytes m t @ optionBytes m) + (if v then unat s else packetSum payload))"
    using tx_path [OF assms(1-9)] by blast
  define r0 where "r0 = r\<lparr>px_ip := (px_ip r)\<lparr>ip_dataIn := out\<rparr>\<rparr>"
  let ?ph = "wireSegment m t c payload"
  note b = sentPacket_read [OF assms(11) refl, where t = t and c = c] and w = wireSegment_read [OF assms(11) refl, where t = t and c = c]
  have ok: "oneSum (packetSum ?ph) = 65535 \<and> unicast ?ph" using wireSegment_sum [OF q(5) assms(10)] w(7) assms(12) by simp
  have r0: "rxIdle r0" "ip_dataIn (px_ip r0) = out @ []" using assms(13) by (simp_all add: r0_def rxIdle_def ipReady_def)
  obtain r1 us where r1: "(rxFire False junk)\<^sup>*\<^sup>* r0 r1" "carries us ?ph" "ip_dataIn (px_ip r1) = []"
    "px_segment r1 = (px_segment r0)\<lparr>sg_dataIn := us, sg_validIn := [oneSum (packetSum ?ph) = 65535]\<rparr>"
    "rxIdle (r1\<lparr>px_segment := px_segment r0\<rparr>)" "px_options r1 = px_options r0"
    using path_front [OF r0 q(4) b(1) disjI1 [OF b(2)]] unfolding b(3) by blast
  have off: "5 \<le> unat (rng 7 4 (?ph ! 24) :: 4 word)" "12 + 4 * unat (rng 7 4 (?ph ! 24) :: 4 word) \<le> length ?ph"
    "length ?ph = 12 + 4 * unat (rng 7 4 (?ph ! 24) :: 4 word) \<longleftrightarrow> payload = []"
    by (simp_all add: w(2,3) length_optionBytes)
  obtain r2 got where r2: "(rxFire False junk)\<^sup>*\<^sup>* r1 r2" "rxIdle r2" "px_ip r2 = px_ip r1"
    "op_dataOut (px_options r2) = op_dataOut (px_options r1) @ got" "sg_metaOut (px_segment r2) = sg_metaOut (px_segment r0) @ [segMeta junk ?ph]"
    "sg_tupleOut (px_segment r2) = sg_tupleOut (px_segment r0) @ [segTuple ?ph]"
    "sg_portOut (px_segment r2) = sg_portOut (px_segment r0) @ [be16 (?ph ! 14) (?ph ! 15)]"
    "if payload = [] then got = [] else carries got payload"
    using path_back [OF r1(5,4,2) w(1) off(1,2), of False junk] ok unfolding off(3) w(4) by auto
  have s: "px_segment r0 = px_segment r" "px_options r0 = px_options r" by (simp_all add: r0_def)
  have "(rxFire False junk)\<^sup>*\<^sup>* r0 r2" using r1(1) r2(1) by (rule rtranclp_trans)
  then show ?thesis
    using q(1-3) r1(3,6) r2(2-8) w(5,6,8) s unfolding r0_def
    by (intro exI [of _ q] exI [of _ out] exI [of _ r2] exI [of _ got] conjI) simp_all
qed

text \<open>A segment with four bytes of payload.\<close>

definition sampleTxMeta :: tx_engine_meta where
  "sampleTxMeta = \<lparr>te_seqNumb = 1, te_ackNumb = 2, te_window_size = 0x1000, te_length = 4, te_ack = True, te_rst = False,
     te_syn = False, te_fin = False\<rparr>"

definition sampleTxTuple :: fourTuple where
  "sampleTxTuple = \<lparr>ft_srcIp = 0x0100000A, ft_dstIp = 0x0200000A, ft_srcPort = 0x5000, ft_dstPort = 0x5100\<rparr>"

definition sampleTxPath :: txPath where
  "sampleTxPath = \<lparr>
     ty_front = \<lparr>sh_fsmState = SH_PKG, sh_firstWord = True, sh_prevWord = zeroWord,
       sh_input = [\<lparr>ax_data = 0x04030201, ax_keep = 0xF, ax_last = True\<rparr>], sh_output = []\<rparr>,
     ty_header = \<lparr>hc_state = HC_META, hc_header = \<lparr>ph_ready = False, ph_idx = 0, ph_header = upd 79 72 (6 :: 8 word) 0\<rparr>,
       hc_hasBody = False, hc_isSYN = False, hc_metaIn = [sampleTxMeta], hc_tupleIn = [sampleTxTuple], hc_dataIn = [],
       hc_headerOut = [], hc_payloadOut = [], hc_hasPayload = []\<rparr>,
     ty_sums = \<lparr>ts_sums = (\<lambda>i. 0), ts_state = TS_START, ts_hasBody = False, ts_validSum = False, ts_firstWord = False,
       ts_headerIn = [], ts_headerOut = [], ts_dataIn = [], ts_dataOut = [], ts_subSumIn = [0], ts_validIn = [False],
       ts_payloadIn = [], ts_payloadDup = [], ts_checksum = [], ts_event = []\<rparr>,
     ty_assemble = \<lparr>as_state = AS_PSEUDO, as_prevWord = zeroWord, as_hasBody = False, as_headerIn = [], as_dataIn = [],
       as_payloadIn = [], as_dataOut = []\<rparr>,
     ty_insert = \<lparr>ic_state = 0, ic_wordCount = 0, ic_checksumIn = [], ic_dataIn = [], ic_dataOut = []\<rparr>,
     ty_align = \<lparr>sh_fsmState = SH_PKG, sh_firstWord = True, sh_prevWord = zeroWord, sh_input = [], sh_output = []\<rparr>,
     ty_generate = \<lparr>gi_state = GI_META, gi_header = \<lparr>ph_ready = False, ph_idx = 0, ph_header = upd 71 64 (0x40 :: 8 word) (upd 7 0 (0x45 :: 8 word) 0)\<rparr>,
       gi_metaIn = [4], gi_tupleIn = [\<lparr>tt_srcIp = ft_srcIp sampleTxTuple, tt_dstIp = ft_dstIp sampleTxTuple\<rparr>], gi_dataIn = [],
       gi_eventIn = [], gi_dataOut = []\<rparr>\<rparr>"

lemma sampleTx_ready:
  "txIdle sampleTxPath" "hc_metaIn (ty_header sampleTxPath) = sampleTxMeta # []" "hc_tupleIn (ty_header sampleTxPath) = sampleTxTuple # []"
  "sh_input (ty_front sampleTxPath) = sh_input (ty_front sampleTxPath) @ []"
  "if bodyOf sampleTxMeta then carries (sh_input (ty_front sampleTxPath)) [1, 2, 3, 4]
   else sh_input (ty_front sampleTxPath) = [] \<and> [1, 2, 3, 4 :: 8 word] = []"
  "ts_validIn (ty_sums sampleTxPath) = False # []" "ts_subSumIn (ty_sums sampleTxPath) = 0 # []"
  "gi_metaIn (ty_generate sampleTxPath) = te_length sampleTxMeta # []"
  "gi_tupleIn (ty_generate sampleTxPath) = \<lparr>tt_srcIp = ft_srcIp sampleTxTuple, tt_dstIp = ft_dstIp sampleTxTuple\<rparr> # []"
  "gi_dataOut (ty_generate sampleTxPath) = []"
proof -
  show "txIdle sampleTxPath"
    by (simp add: txIdle_def sampleTxPath_def shiftReady_def hcReady_def headerInit_def tsReady_def icReady_def giReady_def ipInit_def
        headerByte_def rng_simps rng_upd_inside bit_upd)
  show "if bodyOf sampleTxMeta then carries (sh_input (ty_front sampleTxPath)) [1, 2, 3, 4]
   else sh_input (ty_front sampleTxPath) = [] \<and> [1, 2, 3, 4 :: 8 word] = []" by code_simp
qed (simp_all add: sampleTxPath_def sampleTxMeta_def)

theorem segment_transmitted_witness:
  "\<exists>q c. txFire\<^sup>*\<^sup>* sampleTxPath q \<and>
    carries (gi_dataOut (ty_generate q)) (ipBytes 4 \<lparr>tt_srcIp = 0x0100000A, tt_dstIp = 0x0200000A\<rparr> @ drop 12 (wireSegment sampleTxMeta sampleTxTuple c [1, 2, 3, 4])) \<and>
    oneSum (packetSum (wireSegment sampleTxMeta sampleTxTuple c [1, 2, 3, 4])) = 65535"
  using segment_transmitted [OF sampleTx_ready(1-9)] sampleTx_ready(10)
  by (auto simp: sampleTxMeta_def sampleTxTuple_def simp del: not_False_eq_True)

theorem segment_roundtrip_witness:
  "\<exists>q r'. txFire\<^sup>*\<^sup>* sampleTxPath q \<and>
    (rxFire False 0)\<^sup>*\<^sup>* (samplePath\<lparr>px_ip := (px_ip samplePath)\<lparr>ip_dataIn := gi_dataOut (ty_generate q)\<rparr>\<rparr>) r' \<and>
    carries (op_dataOut (px_options r')) [1, 2, 3, 4] \<and> sg_tupleOut (px_segment r') = [sampleTxTuple]"
proof -
  have r: "rxIdle samplePath"
    by (simp add: rxIdle_def samplePath_def ipReady_def shiftReady_def prependReady_def headerByte_def sampleIpStage_def
        sampleChecksum_def sampleSegmentStage_def sampleOptionStage_def segReady_def rng_simps rng_upd_inside)
  have h: "segmentLength sampleTxMeta [1, 2, 3, 4]" "unicast (headBytes sampleTxMeta sampleTxTuple)"
    by (simp add: segmentLength_def optionBytes_def sampleTxMeta_def, code_simp)
  have o: "op_dataOut (px_options samplePath) = []" "sg_tupleOut (px_segment samplePath) = []"
    by (simp_all add: samplePath_def sampleOptionStage_def sampleSegmentStage_def)
  from segment_roundtrip [OF sampleTx_ready(1-9) _ h r, of 0] sampleTx_ready(10) o show ?thesis by auto
qed

end
