(* ===== verification/Net_Arp.thy ===== *)
theory Net_Arp
  imports Net_Header
begin

text \<open>
  The ARP server (\<^verbatim>\<open>arp_server_subnet/arp_server_subnet.cpp\<close>, \<^verbatim>\<open>arp_server_request_filter.cpp\<close>,
  \<^verbatim>\<open>arp_server_100ms_count.cpp\<close>): it answers requests for the address of the card, learns the addresses of other
  hosts, looks them up for outgoing packets and asks for those it does not know.  Addresses are in network order,
  first byte in the lowest bits; the table has one entry for each value of the last byte of the IP address.
\<close>

section \<open>Tables and messages\<close>

definition reverse48 :: "48 word \<Rightarrow> 48 word" where
  "reverse48 w = upd 7 0 (rng 47 40 w :: 8 word) (upd 15 8 (rng 39 32 w :: 8 word) (upd 23 16 (rng 31 24 w :: 8 word)
     (upd 31 24 (rng 23 16 w :: 8 word) (upd 39 32 (rng 15 8 w :: 8 word) (upd 47 40 (rng 7 0 w :: 8 word) 0)))))"

record arpTableEntry =
  ae_ipAddress :: "32 word"
  ae_macAddress :: "48 word"
  ae_valid :: bool

record arpTableReply =
  al_macAddress :: "48 word"
  al_hit :: bool

record arpReplyMeta =
  aq_srcMac :: "48 word"
  aq_ethType :: "16 word"
  aq_hwType :: "16 word"
  aq_protoType :: "16 word"
  aq_hwLen :: "8 word"
  aq_protoLen :: "8 word"
  aq_hwAddrSrc :: "48 word"
  aq_protoAddrSrc :: "32 word"

definition ARP_REQUEST :: "16 word" where "ARP_REQUEST = 0x0100"
definition ARP_REPLY :: "16 word" where "ARP_REPLY = 0x0200"
definition BROADCAST_MAC :: "48 word" where "BROADCAST_MAC = 0xFFFFFFFFFFFF"
definition MAX_WAIT :: "32 word" where "MAX_WAIT = 5"

definition isMulticastAddr :: "32 word \<Rightarrow> bool" where
  "isMulticastAddr addr \<longleftrightarrow> (rng 7 4 addr :: 4 word) = 0xE"

section \<open>Received messages\<close>

record arpReceiver =
  av_wordCount :: "4 word"
  av_opCode :: "16 word"
  av_protoAddrDst :: "32 word"
  av_meta :: arpReplyMeta
  av_dataIn :: "axiWord hls_stream"
  av_replyMeta :: "arpReplyMeta hls_stream"
  av_replyRecv :: "32 word hls_stream"
  av_insert :: "arpTableEntry hls_stream"
  av_reqRecvCnt :: "1 word hls_stream"
  av_replyRecvCnt :: "1 word hls_stream"

text \<open>The fields of a word; a word behind the sixth changes nothing.\<close>

definition arpFields :: "64 word \<Rightarrow> arpReceiver \<Rightarrow> arpReceiver" where
  "arpFields d k =
     (let m = av_meta k; n = av_wordCount k in
      if n = 0 then k\<lparr>av_meta := m\<lparr>aq_srcMac := upd 15 0 (rng 63 48 d :: 16 word) (aq_srcMac m)\<rparr>, av_wordCount := 1\<rparr>
      else if n = 1 then
        k\<lparr>av_meta := m\<lparr>aq_srcMac := upd 47 16 (rng 31 0 d :: 32 word) (aq_srcMac m), aq_ethType := rng 47 32 d, aq_hwType := rng 63 48 d\<rparr>,
          av_wordCount := 2\<rparr>
      else if n = 2 then
        k\<lparr>av_meta := m\<lparr>aq_protoType := rng 15 0 d, aq_hwLen := rng 23 16 d, aq_protoLen := rng 31 24 d,
            aq_hwAddrSrc := upd 15 0 (rng 63 48 d :: 16 word) (aq_hwAddrSrc m)\<rparr>,
          av_opCode := rng 47 32 d, av_wordCount := 3\<rparr>
      else if n = 3 then
        k\<lparr>av_meta := m\<lparr>aq_hwAddrSrc := upd 47 16 (rng 31 0 d :: 32 word) (aq_hwAddrSrc m), aq_protoAddrSrc := rng 63 32 d\<rparr>, av_wordCount := 4\<rparr>
      else if n = 4 then k\<lparr>av_protoAddrDst := upd 15 0 (rng 63 48 d :: 16 word) (av_protoAddrDst k), av_wordCount := 5\<rparr>
      else if n = 5 then k\<lparr>av_protoAddrDst := upd 31 16 (rng 15 0 d :: 16 word) (av_protoAddrDst k), av_wordCount := 6\<rparr>
      else k)"

definition arpMessage :: "32 word \<Rightarrow> arpReceiver \<Rightarrow> arpReceiver" where
  "arpMessage myIp k =
     (let m = av_meta k; src = aq_protoAddrSrc m; dst = av_protoAddrDst k;
          k = (if dst = myIp \<or> src = dst then
                 (let k = (if src \<noteq> 0 then k\<lparr>av_insert := s_write (av_insert k)
                             \<lparr>ae_ipAddress = src, ae_macAddress = aq_hwAddrSrc m, ae_valid = True\<rparr>,
                             av_replyRecv := s_write (av_replyRecv k) src\<rparr> else k)
                  in if av_opCode k = ARP_REPLY then k\<lparr>av_replyRecvCnt := s_write (av_replyRecvCnt k) 1\<rparr> else k)
               else k);
          k = (if av_opCode k = ARP_REQUEST \<and> dst = myIp
               then k\<lparr>av_reqRecvCnt := s_write (av_reqRecvCnt k) 1, av_replyMeta := s_write (av_replyMeta k) m\<rparr> else k)
      in k\<lparr>av_wordCount := 0\<rparr>)"

definition arp_pkg_receiver :: "32 word \<Rightarrow> arpReceiver \<Rightarrow> arpReceiver" where
  "arp_pkg_receiver myIp k =
     (if \<not> s_empty (av_dataIn k) then
        (let w = s_head (av_dataIn k); k = arpFields (ax_data w) (k\<lparr>av_dataIn := s_rest (av_dataIn k)\<rparr>)
         in if ax_last w then arpMessage myIp k else k)
      else k)"

section \<open>Sent messages\<close>

datatype arpSendState = ARS_IDLE | ARS_REPLY | ARS_SENTRQ

record arpSender =
  as2_fsmState :: arpSendState
  as2_sendCount :: "16 word"
  as2_replyMeta :: arpReplyMeta
  as2_inputIP :: "32 word"
  as2_metaIn :: "arpReplyMeta hls_stream"
  as2_requestIn :: "32 word hls_stream"
  as2_dataOut :: "axiWord hls_stream"
  as2_reqSent :: "1 word hls_stream"
  as2_replySent :: "1 word hls_stream"

definition arpWord :: "64 word \<Rightarrow> axiWord" where
  "arpWord d = \<lparr>ax_data = d, ax_keep = 0xFF, ax_last = False\<rparr>"
definition arpEnd :: "16 word \<Rightarrow> axiWord" where
  "arpEnd a = \<lparr>ax_data = upd 15 0 a 0, ax_keep = 3, ax_last = True\<rparr>"

definition macLow :: "48 word \<Rightarrow> 64 word \<Rightarrow> 64 word" where
  "macLow mac d = upd 63 48 (rng 15 0 mac :: 16 word) d"

text \<open>Words of a request and of a reply.  The count does not exceed five; a sixth word would be the variable nobody set.\<close>

definition requestWord :: "16 word \<Rightarrow> 48 word \<Rightarrow> 32 word \<Rightarrow> 32 word \<Rightarrow> axiWord" where
  "requestWord n mac myIp ip =
     (if n = 0 then arpWord (macLow mac (upd 47 0 BROADCAST_MAC 0))
      else if n = 1 then arpWord (upd 63 48 (0x0100 :: 16 word) (upd 47 32 (0x0608 :: 16 word) (upd 31 0 (rng 47 16 mac :: 32 word) 0)))
      else if n = 2 then arpWord (macLow mac (upd 47 32 ARP_REQUEST (upd 31 24 (4 :: 8 word) (upd 23 16 (6 :: 8 word) (upd 15 0 (0x0008 :: 16 word) 0)))))
      else if n = 3 then arpWord (upd 63 32 myIp (upd 31 0 (rng 47 16 mac :: 32 word) 0))
      else if n = 4 then arpWord (upd 63 48 (rng 15 0 ip :: 16 word) 0)
      else arpEnd (rng 31 16 ip))"

definition replyWord :: "16 word \<Rightarrow> 48 word \<Rightarrow> 32 word \<Rightarrow> arpReplyMeta \<Rightarrow> axiWord" where
  "replyWord n mac myIp m =
     (if n = 0 then arpWord (macLow mac (upd 47 0 (aq_srcMac m) 0))
      else if n = 1 then arpWord (upd 63 48 (aq_hwType m) (upd 47 32 (aq_ethType m) (upd 31 0 (rng 47 16 mac :: 32 word) 0)))
      else if n = 2 then arpWord (macLow mac (upd 47 32 ARP_REPLY (upd 31 24 (aq_protoLen m) (upd 23 16 (aq_hwLen m) (upd 15 0 (aq_protoType m) 0)))))
      else if n = 3 then arpWord (upd 63 32 myIp (upd 31 0 (rng 47 16 mac :: 32 word) 0))
      else if n = 4 then arpWord (upd 63 48 (rng 15 0 (aq_protoAddrSrc m) :: 16 word) (upd 47 0 (aq_hwAddrSrc m) 0))
      else arpEnd (rng 31 16 (aq_protoAddrSrc m)))"

definition arp_pkg_sender :: "48 word \<Rightarrow> 32 word \<Rightarrow> arpSender \<Rightarrow> arpSender" where
  "arp_pkg_sender mac myIp k =
     (let n = as2_sendCount k in
      case as2_fsmState k of
        ARS_IDLE \<Rightarrow>
          (let k = k\<lparr>as2_sendCount := 0\<rparr> in
           if \<not> s_empty (as2_metaIn k) then
             k\<lparr>as2_replyMeta := s_head (as2_metaIn k), as2_metaIn := s_rest (as2_metaIn k),
               as2_replySent := s_write (as2_replySent k) 1, as2_fsmState := ARS_REPLY\<rparr>
           else if \<not> s_empty (as2_requestIn k) then
             k\<lparr>as2_inputIP := s_head (as2_requestIn k), as2_requestIn := s_rest (as2_requestIn k),
               as2_reqSent := s_write (as2_reqSent k) 1, as2_fsmState := ARS_SENTRQ\<rparr>
           else k)
      | ARS_SENTRQ \<Rightarrow>
          k\<lparr>as2_dataOut := s_write (as2_dataOut k) (requestWord n mac myIp (as2_inputIP k)), as2_sendCount := n + 1,
            as2_fsmState := (if n = 5 then ARS_IDLE else ARS_SENTRQ)\<rparr>
      | ARS_REPLY \<Rightarrow>
          k\<lparr>as2_dataOut := s_write (as2_dataOut k) (replyWord n mac myIp (as2_replyMeta k)), as2_sendCount := n + 1,
            as2_fsmState := (if n = 5 then ARS_IDLE else ARS_REPLY)\<rparr>)"

section \<open>Table\<close>

text \<open>What the host writes: the entry register, which also gives the result of a search, and the operation, done whenever the
  toggle changes.\<close>

record arpHost =
  ao_entry :: arpTableEntry
  ao_toggle :: bool
  ao_opcode :: "2 word"
  ao_bin :: "8 word"

record arpTable =
  at2_table :: "8 word \<Rightarrow> arpTableEntry"
  at2_toggle :: bool
  at2_insertIn :: "arpTableEntry hls_stream"
  at2_queryIn :: "32 word hls_stream"
  at2_reply :: "arpTableReply hls_stream"
  at2_request :: "32 word hls_stream"

definition arpBin :: "32 word \<Rightarrow> 8 word" where
  "arpBin ip = rng 31 24 ip"

definition multicastMac :: "32 word \<Rightarrow> 48 word" where
  "multicastMac ip = upd 47 40 (rng 31 24 ip :: 8 word) (upd 39 32 (rng 23 16 ip :: 8 word)
     (upd 31 24 (rng 15 8 ip AND 0x7F :: 8 word) (upd 23 16 (0x5E :: 8 word) (upd 15 8 (0 :: 8 word) (upd 7 0 (1 :: 8 word) 0)))))"

definition hostOperation :: "arpHost \<Rightarrow> arpTable \<Rightarrow> arpHost \<times> arpTable" where
  "hostOperation h k =
     (let e = ao_entry h; t = at2_table k in
      if ao_opcode h = 1 then
        (let ip = reverse32 (ae_ipAddress e) in
         (h, k\<lparr>at2_table := t(arpBin ip := \<lparr>ae_ipAddress = ip, ae_macAddress = reverse48 (ae_macAddress e), ae_valid = ae_valid e\<rparr>)\<rparr>))
      else if ao_opcode h = 2 then (h, k\<lparr>at2_table := t(ao_bin h := \<lparr>ae_ipAddress = 0, ae_macAddress = 0, ae_valid = False\<rparr>)\<rparr>)
      else if ao_opcode h = 3 then
        (let b = t (ao_bin h) in
         (h\<lparr>ao_entry := \<lparr>ae_ipAddress = reverse32 (ae_ipAddress b), ae_macAddress = reverse48 (ae_macAddress b), ae_valid = ae_valid b\<rparr>\<rparr>, k))
      else (h, k))"

definition arp_table :: "arpHost \<times> arpTable \<Rightarrow> arpHost \<times> arpTable" where
  "arp_table = (\<lambda>(h, k).
     (if ao_toggle h \<noteq> at2_toggle k then hostOperation h (k\<lparr>at2_toggle := ao_toggle h\<rparr>)
      else if \<not> s_empty (at2_insertIn k) then
        (let e = s_head (at2_insertIn k) in
         (h, k\<lparr>at2_insertIn := s_rest (at2_insertIn k), at2_table := (at2_table k)(arpBin (ae_ipAddress e) := e)\<rparr>))
      else if \<not> s_empty (at2_queryIn k) then
        (let ip = s_head (at2_queryIn k); k = k\<lparr>at2_queryIn := s_rest (at2_queryIn k)\<rparr>; e = at2_table k (arpBin ip) in
         if isMulticastAddr ip
         then (h, k\<lparr>at2_reply := s_write (at2_reply k) \<lparr>al_macAddress = multicastMac ip, al_hit = True\<rparr>\<rparr>)
         else (h, k\<lparr>at2_request := (if ae_valid e then at2_request k else s_write (at2_request k) ip),
                    at2_reply := s_write (at2_reply k) \<lparr>al_macAddress = ae_macAddress e, al_hit = ae_valid e\<rparr>\<rparr>))
      else (h, k)))"

section \<open>Requests on their way\<close>

record arpTimerEntry =
  ay_time :: "32 word"
  ay_fActive :: bool

datatype arpTimerState = ATS_IDLE | ATS_CHECK_TIMERS | ATS_DECREMENT_TIMERS
datatype arpTableState = AWS_WAIT | AWS_INSERT_ENTRY | AWS_REMOVE_ENTRY

record arpFilter =
  af_table :: "8 word \<Rightarrow> arpTimerEntry"
  af_timerState :: arpTimerState
  af_tableState :: arpTableState
  af_currReq :: "32 word"
  af_index :: "8 word"
  af_nCount :: "8 word"
  af_hasData :: bool
  af_tickIn :: "bool hls_stream"
  af_requestIn :: "32 word hls_stream"
  af_replyIn :: "32 word hls_stream"
  af_filtered :: "32 word hls_stream"
  af_lost :: "1 word hls_stream"

definition filterTable :: "arpFilter \<Rightarrow> arpFilter" where
  "filterTable k =
     (let i = af_index k; e = af_table k i in
      case af_tableState k of
        AWS_WAIT \<Rightarrow>
          if \<not> s_empty (af_requestIn k) then
            (let r = s_head (af_requestIn k) in
             k\<lparr>af_requestIn := s_rest (af_requestIn k), af_currReq := r, af_index := arpBin r, af_tableState := AWS_INSERT_ENTRY, af_hasData := True\<rparr>)
          else if \<not> s_empty (af_replyIn k) then
            (let r = s_head (af_replyIn k) in
             k\<lparr>af_replyIn := s_rest (af_replyIn k), af_index := arpBin r, af_tableState := AWS_REMOVE_ENTRY, af_hasData := True\<rparr>)
          else k
      | AWS_INSERT_ENTRY \<Rightarrow>
          (let k = (if ay_fActive e then k
                    else k\<lparr>af_table := (af_table k)(i := \<lparr>ay_time = MAX_WAIT, ay_fActive = True\<rparr>),
                           af_filtered := s_write (af_filtered k) (af_currReq k)\<rparr>)
           in k\<lparr>af_hasData := False, af_tableState := AWS_WAIT\<rparr>)
      | AWS_REMOVE_ENTRY \<Rightarrow> k\<lparr>af_table := (af_table k)(i := e\<lparr>ay_fActive := False\<rparr>), af_hasData := False, af_tableState := AWS_WAIT\<rparr>)"

definition filterTimers :: "arpFilter \<Rightarrow> arpFilter" where
  "filterTimers k =
     (let n = af_nCount k; e = af_table k n in
      case af_timerState k of
        ATS_IDLE \<Rightarrow>
          if \<not> s_empty (af_tickIn k) then k\<lparr>af_tickIn := s_rest (af_tickIn k), af_nCount := 0, af_timerState := ATS_DECREMENT_TIMERS\<rparr> else k
      | ATS_DECREMENT_TIMERS \<Rightarrow>
          (let k = k\<lparr>af_table := (if ay_fActive e then (af_table k)(n := e\<lparr>ay_time := ay_time e - 1\<rparr>) else af_table k), af_nCount := n + 1\<rparr> in
           if n + 1 = 255 then k\<lparr>af_nCount := 0, af_timerState := ATS_CHECK_TIMERS\<rparr> else k)
      | ATS_CHECK_TIMERS \<Rightarrow>
          (let k = (if ay_fActive e \<and> ay_time e = 0
                    then k\<lparr>af_table := (af_table k)(n := e\<lparr>ay_fActive := False\<rparr>), af_lost := s_write (af_lost k) 1\<rparr> else k);
               k = k\<lparr>af_nCount := n + 1\<rparr>
           in if n + 1 = 255 then k\<lparr>af_timerState := ATS_IDLE\<rparr> else k))"

definition arp_server_request_filter :: "arpFilter \<Rightarrow> arpFilter" where
  "arp_server_request_filter k =
     (if \<not> s_empty (af_requestIn k) \<or> \<not> s_empty (af_replyIn k) \<or> af_hasData k then filterTable k else filterTimers k)"

text \<open>The 100 ms tick.\<close>

definition TIMER_NUM_CLOCKS :: "32 word" where "TIMER_NUM_CLOCKS = 25000000"

definition arp_server_100ms_count :: "32 word \<times> bool hls_stream \<Rightarrow> 32 word \<times> bool hls_stream" where
  "arp_server_100ms_count = (\<lambda>(count, tick). if count = TIMER_NUM_CLOCKS then (0, s_write tick True) else (count + 1, tick))"

section \<open>Counters and the server\<close>

record arpCounts =
  an_reqSent :: "32 word"
  an_repliesSent :: "32 word"
  an_reqRecv :: "32 word"
  an_repliesRecv :: "32 word"
  an_reqLost :: "32 word"

definition countFlag :: "1 word hls_stream \<Rightarrow> 32 word \<Rightarrow> 1 word hls_stream \<times> 32 word" where
  "countFlag s n = (if \<not> s_empty s then (s_rest s, n + 1) else (s, n))"

record arpServer =
  az_clock :: "32 word"
  az_receiver :: arpReceiver
  az_sender :: arpSender
  az_table :: arpTable
  az_filter :: arpFilter
  az_counts :: arpCounts

text \<open>The stages in the order of the code, each reading what its predecessors have written in the same call.\<close>

definition arp_statCounters :: "arpServer \<Rightarrow> arpServer" where
  "arp_statCounters k =
     (let c = az_counts k; s = az_sender k; v = az_receiver k; f = az_filter k;
          (rs, n1) = countFlag (as2_reqSent s) (an_reqSent c); (ps, n2) = countFlag (as2_replySent s) (an_repliesSent c);
          (rr, n3) = countFlag (av_reqRecvCnt v) (an_reqRecv c); (pr, n4) = countFlag (av_replyRecvCnt v) (an_repliesRecv c);
          (l, n5) = countFlag (af_lost f) (an_reqLost c) in
      k\<lparr>az_counts := \<lparr>an_reqSent = n1, an_repliesSent = n2, an_reqRecv = n3, an_repliesRecv = n4, an_reqLost = n5\<rparr>,
        az_sender := s\<lparr>as2_reqSent := rs, as2_replySent := ps\<rparr>, az_receiver := v\<lparr>av_reqRecvCnt := rr, av_replyRecvCnt := pr\<rparr>,
        az_filter := f\<lparr>af_lost := l\<rparr>\<rparr>)"

definition arp_server_subnet :: "48 word \<Rightarrow> 32 word \<Rightarrow> arpHost \<times> arpServer \<Rightarrow> arpHost \<times> arpServer" where
  "arp_server_subnet mac myIp = (\<lambda>(h, k).
     (let (clock, tick) = arp_server_100ms_count (az_clock k, af_tickIn (az_filter k));
          v = arp_pkg_receiver myIp (az_receiver k);
          s = arp_pkg_sender mac myIp ((az_sender k)\<lparr>as2_metaIn := as2_metaIn (az_sender k) @ av_replyMeta v\<rparr>);
          (h, t) = arp_table (h, (az_table k)\<lparr>at2_insertIn := at2_insertIn (az_table k) @ av_insert v\<rparr>);
          f = arp_server_request_filter ((az_filter k)\<lparr>af_tickIn := tick, af_requestIn := af_requestIn (az_filter k) @ at2_request t,
                af_replyIn := af_replyIn (az_filter k) @ av_replyRecv v\<rparr>)
      in (h, arp_statCounters (k\<lparr>az_clock := clock,
               az_receiver := v\<lparr>av_replyMeta := [], av_replyRecv := [], av_insert := []\<rparr>,
               az_sender := s\<lparr>as2_requestIn := as2_requestIn s @ af_filtered f\<rparr>,
               az_table := t\<lparr>at2_request := []\<rparr>, az_filter := f\<lparr>af_filtered := []\<rparr>\<rparr>))))"

section \<open>Messages between two servers\<close>

definition requestFrame :: "48 word \<Rightarrow> 32 word \<Rightarrow> 32 word \<Rightarrow> axiWord list" where
  "requestFrame mac myIp ip = map (\<lambda>n. requestWord n mac myIp ip) [0, 1, 2, 3, 4, 5]"

definition replyFrame :: "48 word \<Rightarrow> 32 word \<Rightarrow> arpReplyMeta \<Rightarrow> axiWord list" where
  "replyFrame mac myIp m = map (\<lambda>n. replyWord n mac myIp m) [0, 1, 2, 3, 4, 5]"

lemma funpow6: "(f ^^ 6) x = f (f (f (f (f (f x)))))" "(f ^^ 7) x = f (f (f (f (f (f (f x))))))"
  by (simp_all add: numeral_eq_Suc)

lemma sender_words:
  assumes "as2_fsmState k = ARS_SENTRQ \<or> as2_fsmState k = ARS_REPLY" and "as2_sendCount k = 0"
  shows "(arp_pkg_sender mac myIp ^^ 6) k = k\<lparr>as2_sendCount := 6, as2_fsmState := ARS_IDLE,
    as2_dataOut := as2_dataOut k @ (if as2_fsmState k = ARS_SENTRQ then requestFrame mac myIp (as2_inputIP k) else replyFrame mac myIp (as2_replyMeta k))\<rparr>"
proof -
  let ?w = "\<lambda>n. if as2_fsmState k = ARS_SENTRQ then requestWord n mac myIp (as2_inputIP k) else replyWord n mac myIp (as2_replyMeta k)"
  have st: "arp_pkg_sender mac myIp (k\<lparr>as2_sendCount := n, as2_dataOut := out\<rparr>) =
      k\<lparr>as2_sendCount := n + 1, as2_dataOut := out @ [?w n], as2_fsmState := (if n = 5 then ARS_IDLE else as2_fsmState k)\<rparr>" for n out
    using assms(1) by (elim disjE) (simp_all add: arp_pkg_sender_def s_write_def)
  have same: "k\<lparr>as2_fsmState := as2_fsmState k\<rparr> = k" "k = k\<lparr>as2_sendCount := 0, as2_dataOut := as2_dataOut k\<rparr>"
    using assms(2) by (cases k; simp)+
  have run: "arp_pkg_sender mac myIp (k\<lparr>as2_sendCount := n, as2_dataOut := out\<rparr>) = k\<lparr>as2_sendCount := n + 1, as2_dataOut := out @ [?w n]\<rparr>"
    if "n \<noteq> 5" for n out using st [where n = n and out = out] that same(1) by (cases k) simp
  have f: "arp_pkg_sender mac myIp k = k\<lparr>as2_sendCount := 1, as2_dataOut := as2_dataOut k @ [?w 0]\<rparr>"
    using run [where n = 0 and out = "as2_dataOut k"] same(2) by simp
  show ?thesis
    unfolding funpow6 f by (simp add: run st requestFrame_def replyFrame_def)
qed

lemma sender_request:
  assumes "as2_fsmState k = ARS_IDLE" and "as2_metaIn k = []" and "as2_requestIn k = ip # ips"
  shows "(arp_pkg_sender mac myIp ^^ 7) k = k\<lparr>as2_requestIn := ips, as2_inputIP := ip, as2_reqSent := as2_reqSent k @ [1],
    as2_sendCount := 6, as2_dataOut := as2_dataOut k @ requestFrame mac myIp ip\<rparr>"
proof -
  have "arp_pkg_sender mac myIp k = k\<lparr>as2_requestIn := ips, as2_inputIP := ip, as2_reqSent := as2_reqSent k @ [1], as2_sendCount := 0,
      as2_fsmState := ARS_SENTRQ\<rparr>" (is "_ = ?k1")
    using assms by (simp add: arp_pkg_sender_def s_write_def Let_def)
  moreover have "(arp_pkg_sender mac myIp ^^ 7) k = (arp_pkg_sender mac myIp ^^ 6) (arp_pkg_sender mac myIp k)" by (simp add: funpow6)
  ultimately show ?thesis using sender_words [of ?k1 mac myIp] assms(1) by (cases k) simp
qed

lemma sender_reply:
  assumes "as2_fsmState k = ARS_IDLE" and "as2_metaIn k = m # ms"
  shows "(arp_pkg_sender mac myIp ^^ 7) k = k\<lparr>as2_metaIn := ms, as2_replyMeta := m, as2_replySent := as2_replySent k @ [1],
    as2_sendCount := 6, as2_dataOut := as2_dataOut k @ replyFrame mac myIp m\<rparr>"
proof -
  have "arp_pkg_sender mac myIp k = k\<lparr>as2_metaIn := ms, as2_replyMeta := m, as2_replySent := as2_replySent k @ [1], as2_sendCount := 0,
      as2_fsmState := ARS_REPLY\<rparr>" (is "_ = ?k1")
    using assms by (simp add: arp_pkg_sender_def s_write_def Let_def)
  moreover have "(arp_pkg_sender mac myIp ^^ 7) k = (arp_pkg_sender mac myIp ^^ 6) (arp_pkg_sender mac myIp k)" by (simp add: funpow6)
  ultimately show ?thesis using sender_words [of ?k1 mac myIp] assms(1) by (cases k) simp
qed

text \<open>A received frame: its first 42 bytes are those of the message, whatever it is padded with.\<close>

definition sameFrame :: "axiWord list \<Rightarrow> axiWord list \<Rightarrow> bool" where
  "sameFrame ws vs \<longleftrightarrow> is_packet vs \<and> 6 \<le> length vs \<and> (\<forall>i<5. ax_data (vs ! i) = ax_data (ws ! i)) \<and>
     (rng 15 0 (ax_data (vs ! 5)) :: 16 word) = rng 15 0 (ax_data (ws ! 5))"

lemma arpFields_dataIn [simp]: "arpFields d (k\<lparr>av_dataIn := x\<rparr>) = (arpFields d k)\<lparr>av_dataIn := x\<rparr>" "av_dataIn (arpFields d k) = av_dataIn k"
  by (simp_all add: arpFields_def Let_def)

lemma receiver_words: "is_packet ws \<Longrightarrow> av_dataIn k = ws @ rest \<Longrightarrow>
    (arp_pkg_receiver myIp ^^ length ws) k = arpMessage myIp (fold arpFields (map ax_data ws) (k\<lparr>av_dataIn := rest\<rparr>))"
proof (induction ws arbitrary: k)
  case (Cons w ws)
  have st: "arp_pkg_receiver myIp k = (let k = arpFields (ax_data w) (k\<lparr>av_dataIn := ws @ rest\<rparr>) in if ax_last w then arpMessage myIp k else k)"
    using Cons.prems(2) by (simp add: arp_pkg_receiver_def)
  show ?case
  proof (cases "ax_last w")
    case True
    then have "ws = []" using Cons.prems(1) by (simp add: is_packet_Cons)
    with True st show ?thesis by simp
  next
    case False
    then have "is_packet ws" using Cons.prems(1) by (simp add: is_packet_Cons)
    with Cons.IH [of "arp_pkg_receiver myIp k"] False show ?thesis
      by (simp add: st funpow_Suc_apply del: funpow.simps(2))
  qed
qed simp

lemma fields_pad: "av_wordCount k = 6 \<Longrightarrow> fold arpFields ds k = k"
  by (induction ds) (simp_all add: arpFields_def)

text \<open>The fields of six words.\<close>

definition mac48 :: "16 word \<Rightarrow> 32 word \<Rightarrow> 48 word" where
  "mac48 lo hi = upd 47 16 hi (upd 15 0 lo 0)"

lemma mac48: "upd 47 16 hi (upd 15 0 lo m) = mac48 lo hi" "mac48 (rng 15 0 m) (rng 47 16 m) = m"
  by (rule bit_word_eqI; auto simp: mac48_def bit_simps)+

lemma ip32: "upd 31 16 (hi :: 16 word) (upd 15 0 (lo :: 16 word) (a :: 32 word)) = upd 31 16 hi (upd 15 0 lo 0)"
    "upd 31 16 (rng 31 16 (a :: 32 word) :: 16 word) (upd 15 0 (rng 15 0 a :: 16 word) 0) = a"
  by (rule bit_word_eqI; auto simp: bit_simps)+

lemma fields_six:
  assumes "av_wordCount k = 0"
  shows "fold arpFields [d0, d1, d2, d3, d4, d5] k = k\<lparr>av_wordCount := 6, av_opCode := rng 47 32 d2,
    av_protoAddrDst := upd 31 16 (rng 15 0 d5 :: 16 word) (upd 15 0 (rng 63 48 d4 :: 16 word) 0),
    av_meta := \<lparr>aq_srcMac = mac48 (rng 63 48 d0) (rng 31 0 d1), aq_ethType = rng 47 32 d1, aq_hwType = rng 63 48 d1,
      aq_protoType = rng 15 0 d2, aq_hwLen = rng 23 16 d2, aq_protoLen = rng 31 24 d2,
      aq_hwAddrSrc = mac48 (rng 63 48 d2) (rng 31 0 d3), aq_protoAddrSrc = rng 63 32 d3\<rparr>\<rparr>"
  using assms by (cases "av_meta k") (simp add: arpFields_def mac48(1) ip32(1) [of _ _ "av_protoAddrDst k"])

definition receiverReady :: "arpReceiver \<Rightarrow> bool" where
  "receiverReady k \<longleftrightarrow> av_wordCount k = 0"

lemma receiver_frame:
  assumes "receiverReady k" and "sameFrame fs vs" and "length fs = 6" and "av_dataIn k = vs @ rest"
  shows "(arp_pkg_receiver myIp ^^ length vs) k = arpMessage myIp (fold arpFields (map ax_data fs) (k\<lparr>av_dataIn := rest\<rparr>))"
proof -
  obtain a b c d e f pad where vs: "vs = a # b # c # d # e # f # pad"
  proof -
    have "6 \<le> length vs" using assms(2) by (simp add: sameFrame_def)
    then show ?thesis using that by (auto simp: numeral_eq_Suc Suc_le_length_iff)
  qed
  obtain g0 g1 g2 g3 g4 g5 where fs: "fs = [g0, g1, g2, g3, g4, g5]" using assms(3) by (auto simp: numeral_eq_Suc length_Suc_conv)
  have same: "\<And>i. i < 5 \<Longrightarrow> ax_data (vs ! i) = ax_data (fs ! i)" "(rng 15 0 (ax_data f) :: 16 word) = rng 15 0 (ax_data g5)"
    using assms(2) by (simp_all add: sameFrame_def vs fs)
  have d: "ax_data a = ax_data g0" "ax_data b = ax_data g1" "ax_data c = ax_data g2" "ax_data d = ax_data g3" "ax_data e = ax_data g4"
    using same(1) [of 0] same(1) [of 1] same(1) [of 2] same(1) [of 3] same(1) [of 4] by (simp_all add: vs fs)
  let ?k = "k\<lparr>av_dataIn := rest\<rparr>"
  have z: "av_wordCount ?k = 0" using assms(1) by (simp add: receiverReady_def)
  have six: "fold arpFields [ax_data a, ax_data b, ax_data c, ax_data d, ax_data e, ax_data f] ?k =
      fold arpFields [ax_data g0, ax_data g1, ax_data g2, ax_data g3, ax_data g4, ax_data g5] ?k"
    unfolding fields_six [OF z] d same(2) ..
  have "av_wordCount (fold arpFields [ax_data a, ax_data b, ax_data c, ax_data d, ax_data e, ax_data f] ?k) = 6" unfolding fields_six [OF z] by simp
  from fields_pad [OF this, of "map ax_data pad"] six
  have "fold arpFields (map ax_data vs) ?k = fold arpFields (map ax_data fs) ?k" by (simp add: vs fs)
  with receiver_words [of vs k rest myIp] assms(2,4) show ?thesis by (simp add: sameFrame_def)
qed

definition requestMeta :: "48 word \<Rightarrow> 32 word \<Rightarrow> arpReplyMeta" where
  "requestMeta mac ip = \<lparr>aq_srcMac = mac, aq_ethType = 0x0608, aq_hwType = 0x0100, aq_protoType = 0x0008, aq_hwLen = 6, aq_protoLen = 4,
     aq_hwAddrSrc = mac, aq_protoAddrSrc = ip\<rparr>"

lemma request_fields:
  assumes "av_wordCount k = 0"
  shows "fold arpFields (map ax_data (requestFrame mac myIp ip)) k = k\<lparr>av_wordCount := 6, av_opCode := ARP_REQUEST,
    av_protoAddrDst := ip, av_meta := requestMeta mac myIp\<rparr>"
proof -
  have f: "map ax_data (requestFrame mac myIp ip) = [ax_data (requestWord 0 mac myIp ip), ax_data (requestWord 1 mac myIp ip),
      ax_data (requestWord 2 mac myIp ip), ax_data (requestWord 3 mac myIp ip), ax_data (requestWord 4 mac myIp ip), ax_data (requestWord 5 mac myIp ip)]"
    by (simp add: requestFrame_def)
  show ?thesis
    unfolding f fields_six [OF assms]
    by (simp add: requestWord_def arpWord_def arpEnd_def macLow_def rng_simps rng_all mac48(2) ip32(2) requestMeta_def)
qed

lemma reply_fields:
  assumes "av_wordCount k = 0"
  shows "fold arpFields (map ax_data (replyFrame mac myIp m)) k = k\<lparr>av_wordCount := 6, av_opCode := ARP_REPLY,
    av_protoAddrDst := aq_protoAddrSrc m, av_meta := m\<lparr>aq_srcMac := mac, aq_hwAddrSrc := mac, aq_protoAddrSrc := myIp\<rparr>\<rparr>"
proof -
  have f: "map ax_data (replyFrame mac myIp m) = [ax_data (replyWord 0 mac myIp m), ax_data (replyWord 1 mac myIp m),
      ax_data (replyWord 2 mac myIp m), ax_data (replyWord 3 mac myIp m), ax_data (replyWord 4 mac myIp m), ax_data (replyWord 5 mac myIp m)]"
    by (simp add: replyFrame_def)
  show ?thesis
    unfolding f fields_six [OF assms]
    by (cases m) (simp add: replyWord_def arpWord_def arpEnd_def macLow_def rng_simps rng_all mac48(2) ip32(2))
qed

lemma frames_same: "sameFrame (requestFrame mac myIp ip) (requestFrame mac myIp ip)" "sameFrame (replyFrame mac myIp m) (replyFrame mac myIp m)"
  by (simp_all add: sameFrame_def requestFrame_def replyFrame_def requestWord_def replyWord_def arpWord_def arpEnd_def is_packet_Cons)

text \<open>What a request for the own address and the answer to an own request do.\<close>

lemma request_received:
  assumes "receiverReady k" and "sameFrame (requestFrame mac ip myIp) vs" and "av_dataIn k = vs @ rest" and "ip \<noteq> 0"
  shows "\<exists>k'. (arp_pkg_receiver myIp ^^ length vs) k = k' \<and> receiverReady k' \<and> av_dataIn k' = rest \<and>
    av_insert k' = av_insert k @ [\<lparr>ae_ipAddress = ip, ae_macAddress = mac, ae_valid = True\<rparr>] \<and> av_replyRecv k' = av_replyRecv k @ [ip] \<and>
    av_replyMeta k' = av_replyMeta k @ [requestMeta mac ip] \<and> av_reqRecvCnt k' = av_reqRecvCnt k @ [1] \<and> av_replyRecvCnt k' = av_replyRecvCnt k"
proof -
  have z: "av_wordCount (k\<lparr>av_dataIn := rest\<rparr>) = 0" using assms(1) by (simp add: receiverReady_def)
  have l: "length (requestFrame mac ip myIp) = 6" by (simp add: requestFrame_def)
  show ?thesis
    unfolding receiver_frame [OF assms(1,2) l assms(3)] request_fields [OF z]
    using assms(4) by (simp add: arpMessage_def requestMeta_def receiverReady_def s_write_def ARP_REQUEST_def ARP_REPLY_def Let_def)
qed

lemma answer_received:
  assumes "receiverReady k" and "sameFrame (replyFrame mac ip m) vs" and "av_dataIn k = vs @ rest" and "ip \<noteq> 0" and "aq_protoAddrSrc m = myIp"
  shows "\<exists>k'. (arp_pkg_receiver myIp ^^ length vs) k = k' \<and> receiverReady k' \<and> av_dataIn k' = rest \<and>
    av_insert k' = av_insert k @ [\<lparr>ae_ipAddress = ip, ae_macAddress = mac, ae_valid = True\<rparr>] \<and> av_replyRecv k' = av_replyRecv k @ [ip] \<and>
    av_replyMeta k' = av_replyMeta k \<and> av_reqRecvCnt k' = av_reqRecvCnt k \<and> av_replyRecvCnt k' = av_replyRecvCnt k @ [1]"
proof -
  have z: "av_wordCount (k\<lparr>av_dataIn := rest\<rparr>) = 0" using assms(1) by (simp add: receiverReady_def)
  have l: "length (replyFrame mac ip m) = 6" by (simp add: replyFrame_def)
  show ?thesis
    unfolding receiver_frame [OF assms(1,2) l assms(3)] reply_fields [OF z]
    using assms(4,5) by (simp add: arpMessage_def receiverReady_def s_write_def ARP_REQUEST_def ARP_REPLY_def Let_def)
qed

section \<open>Lookups\<close>

text \<open>The entries that have been learned, the last one for a bin first.\<close>

lemma arp_inserts: "ao_toggle h = at2_toggle k \<Longrightarrow> at2_insertIn k = es @ rest \<Longrightarrow>
    (arp_table ^^ length es) (h, k) = (h, k\<lparr>at2_insertIn := rest, at2_table := fold (\<lambda>e t. t(arpBin (ae_ipAddress e) := e)) es (at2_table k)\<rparr>)"
proof (induction es arbitrary: k)
  case (Cons e es)
  have "arp_table (h, k) = (h, k\<lparr>at2_insertIn := es @ rest, at2_table := (at2_table k)(arpBin (ae_ipAddress e) := e)\<rparr>)"
    using Cons.prems by (simp add: arp_table_def)
  with Cons.IH [of "k\<lparr>at2_insertIn := es @ rest, at2_table := (at2_table k)(arpBin (ae_ipAddress e) := e)\<rparr>"] Cons.prems(1)
  show ?case by (simp add: funpow_Suc_apply del: funpow.simps(2))
qed simp

lemma fold_bins: "fold (\<lambda>e t. t(arpBin (ae_ipAddress e) := e)) es t b =
    (case find (\<lambda>e. arpBin (ae_ipAddress e) = b) (rev es) of Some e \<Rightarrow> e | None \<Rightarrow> t b)"
proof (induction es rule: rev_induct)
  case (snoc e es)
  then show ?case by (auto split: option.splits)
qed simp

lemma arp_query:
  assumes "ao_toggle h = at2_toggle k" and "at2_insertIn k = []" and "at2_queryIn k = ip # ips"
  shows "arp_table (h, k) = (h, k\<lparr>at2_queryIn := ips,
    at2_request := (if isMulticastAddr ip \<or> ae_valid (at2_table k (arpBin ip)) then at2_request k else at2_request k @ [ip]),
    at2_reply := at2_reply k @ [if isMulticastAddr ip then \<lparr>al_macAddress = multicastMac ip, al_hit = True\<rparr>
      else \<lparr>al_macAddress = ae_macAddress (at2_table k (arpBin ip)), al_hit = ae_valid (at2_table k (arpBin ip))\<rparr>]\<rparr>)"
  using assms by (cases k) (simp add: arp_table_def s_write_def Let_def)

text \<open>C40: Lookups are answered from the entry learned last for the same last byte of the address, without comparing the
  address: a multicast address with the group address of RFC 1112, any other with that entry; when there is none the answer is a
  miss and the address is asked for.\<close>

theorem arp_lookup_last_byte:
  assumes "ao_toggle h = at2_toggle k" and "at2_insertIn k = es" and "at2_queryIn k = ip # ips"
    and "e = (case find (\<lambda>e. arpBin (ae_ipAddress e) = arpBin ip) (rev es) of Some e \<Rightarrow> e | None \<Rightarrow> at2_table k (arpBin ip))"
  shows "\<exists>k'. (arp_table ^^ Suc (length es)) (h, k) = (h, k') \<and> at2_insertIn k' = [] \<and> at2_queryIn k' = ips \<and>
    at2_reply k' = at2_reply k @ [if isMulticastAddr ip then \<lparr>al_macAddress = multicastMac ip, al_hit = True\<rparr>
      else \<lparr>al_macAddress = ae_macAddress e, al_hit = ae_valid e\<rparr>] \<and>
    at2_request k' = at2_request k @ (if isMulticastAddr ip \<or> ae_valid e then [] else [ip])"
proof -
  define k1 where "k1 = k\<lparr>at2_insertIn := [], at2_table := fold (\<lambda>e t. t(arpBin (ae_ipAddress e) := e)) es (at2_table k)\<rparr>"
  have 1: "(arp_table ^^ length es) (h, k) = (h, k1)" using arp_inserts [OF assms(1), of es "[]"] assms(2) by (simp add: k1_def)
  have q: "ao_toggle h = at2_toggle k1" "at2_insertIn k1 = []" "at2_queryIn k1 = ip # ips" using assms(1,3) by (simp_all add: k1_def)
  have e: "at2_table k1 (arpBin ip) = e" using assms(4) by (simp add: k1_def fold_bins)
  have f: "at2_reply k1 = at2_reply k" "at2_request k1 = at2_request k" by (simp_all add: k1_def)
  have "(arp_table ^^ Suc (length es)) (h, k) = arp_table (h, k1)" by (simp add: 1)
  then show ?thesis unfolding arp_query [OF q] e f using q by auto
qed

text \<open>C38: A server learns the address of another one by asking for it: the request is answered by the server asked, which learns
  the address of the one that asks, and the answer makes the next lookup there a hit, whatever the frames are padded
  with.  One request, one answer.\<close>

theorem arp_resolution:
  assumes "as2_fsmState sa = ARS_IDLE" and "as2_metaIn sa = []" and "as2_requestIn sa = ipB # ips" and "as2_dataOut sa = []"
    and "receiverReady b" and "av_dataIn b = vs" and "av_replyMeta b = []"
    and "sameFrame (as2_dataOut ((arp_pkg_sender macA ipA ^^ 7) sa)) vs" and "b' = (arp_pkg_receiver ipB ^^ length vs) b"
    and "as2_fsmState sb = ARS_IDLE" and "as2_metaIn sb = av_replyMeta b'" and "as2_dataOut sb = []"
    and "receiverReady a" and "av_dataIn a = us" and "av_insert a = []"
    and "sameFrame (as2_dataOut ((arp_pkg_sender macB ipB ^^ 7) sb)) us" and "a' = (arp_pkg_receiver ipA ^^ length us) a"
    and "ao_toggle h = at2_toggle ta" and "at2_insertIn ta = av_insert a'" and "at2_queryIn ta = [ipB]"
    and "ipA \<noteq> 0" and "ipB \<noteq> 0" and "\<not> isMulticastAddr ipB"
  shows "\<exists>ta'. (arp_table ^^ 2) (h, ta) = (h, ta') \<and> at2_reply ta' = at2_reply ta @ [\<lparr>al_macAddress = macB, al_hit = True\<rparr>] \<and>
      at2_request ta' = at2_request ta \<and> av_replyMeta a' = av_replyMeta a \<and>
      av_insert b' = av_insert b @ [\<lparr>ae_ipAddress = ipA, ae_macAddress = macA, ae_valid = True\<rparr>]"
proof -
  have 1: "as2_dataOut ((arp_pkg_sender macA ipA ^^ 7) sa) = requestFrame macA ipA ipB"
    unfolding sender_request [OF assms(1-3)] using assms(4) by simp
  have b: "sameFrame (requestFrame macA ipA ipB) vs" "av_dataIn b = vs @ []" using assms(6,8) by (simp_all add: 1)
  have b': "av_replyMeta b' = [requestMeta macA ipA]" "av_insert b' = av_insert b @ [\<lparr>ae_ipAddress = ipA, ae_macAddress = macA, ae_valid = True\<rparr>]"
    using request_received [OF assms(5) b assms(21)] assms(7,9) by auto
  have sb: "as2_metaIn sb = requestMeta macA ipA # []" using assms(11) b'(1) by simp
  have 2: "as2_dataOut ((arp_pkg_sender macB ipB ^^ 7) sb) = replyFrame macB ipB (requestMeta macA ipA)"
    unfolding sender_reply [OF assms(10) sb] using assms(12) by simp
  have a: "sameFrame (replyFrame macB ipB (requestMeta macA ipA)) us" "av_dataIn a = us @ []" "aq_protoAddrSrc (requestMeta macA ipA) = ipA"
    using assms(14,16) by (simp_all add: 2) (simp add: requestMeta_def)
  have a': "av_replyMeta a' = av_replyMeta a" "av_insert a' = [\<lparr>ae_ipAddress = ipB, ae_macAddress = macB, ae_valid = True\<rparr>]"
    using answer_received [OF assms(13) a(1,2) assms(22) a(3)] assms(15,17) by auto
  define k1 where "k1 = ta\<lparr>at2_insertIn := [], at2_table := (at2_table ta)(arpBin ipB := \<lparr>ae_ipAddress = ipB, ae_macAddress = macB, ae_valid = True\<rparr>)\<rparr>"
  have t: "arp_table (h, ta) = (h, k1)" using assms(18,19) a'(2) by (simp add: arp_table_def k1_def)
  have q: "ao_toggle h = at2_toggle k1" "at2_insertIn k1 = []" "at2_queryIn k1 = ipB # []" using assms(18,20) by (simp_all add: k1_def)
  have "(arp_table ^^ 2) (h, ta) = arp_table (h, k1)" by (simp add: numeral_2_eq_2 t)
  with arp_query [OF q] assms(23) a'(1) b'(2) show ?thesis by (simp add: k1_def)
qed

section \<open>Outstanding requests\<close>

definition filterReady :: "arpFilter \<Rightarrow> bool" where
  "filterReady k \<longleftrightarrow> af_timerState k = ATS_IDLE \<and> af_tableState k = AWS_WAIT \<and> \<not> af_hasData k \<and> af_requestIn k = [] \<and> af_replyIn k = []"

definition countDown :: "arpTimerEntry \<Rightarrow> arpTimerEntry" where
  "countDown e = (if ay_fActive e then e\<lparr>ay_time := ay_time e - 1\<rparr> else e)"

definition expired :: "arpTimerEntry \<Rightarrow> bool" where
  "expired e \<longleftrightarrow> ay_fActive e \<and> ay_time e = 0"

definition tickEntry :: "8 word \<Rightarrow> arpTimerEntry \<Rightarrow> arpTimerEntry" where
  "tickEntry i e = (if i = 255 then e else if expired (countDown e) then (countDown e)\<lparr>ay_fActive := False\<rparr> else countDown e)"

lemma quiet: "af_requestIn k = [] \<Longrightarrow> af_replyIn k = [] \<Longrightarrow> \<not> af_hasData k \<Longrightarrow> arp_server_request_filter k = filterTimers k"
  by (simp add: arp_server_request_filter_def)

lemma unat_of_nat8: "n < 256 \<Longrightarrow> unat (of_nat n :: 8 word) = n"
  by (simp add: unat_of_nat)

lemma eq_of_nat8: "n < 256 \<Longrightarrow> i = (of_nat n :: 8 word) \<longleftrightarrow> unat i = n"
  by (auto simp: word_unat_eq_iff unat_of_nat8)

lemma dec_run:
  assumes "af_timerState k = ATS_DECREMENT_TIMERS" and "af_nCount k = 0" and "n < 255"
  shows "(filterTimers ^^ n) k = k\<lparr>af_table := (\<lambda>i. if unat i < n then countDown (af_table k i) else af_table k i), af_nCount := of_nat n\<rparr>"
  using assms(3)
proof (induction n)
  case 0
  then show ?case using assms(2) by (cases k) simp
next
  case (Suc n)
  let ?t = "\<lambda>n i. if unat i < n then countDown (af_table k i) else af_table k i"
  have u: "unat (of_nat n :: 8 word) = n" using Suc.prems by (simp add: unat_of_nat8)
  have t: "(?t n)(of_nat n := countDown (?t n (of_nat n))) = ?t (Suc n)"
    using Suc.prems u by (auto simp: fun_eq_iff eq_of_nat8 less_Suc_eq)
  have s: "unat ((of_nat n :: 8 word) + 1) = Suc n" using Suc.prems u by (simp add: unat_word_ariths)
  have n: "(of_nat n :: 8 word) + 1 \<noteq> 255"
  proof
    assume e: "(of_nat n :: 8 word) + 1 = 255"
    show False using s Suc.prems unfolding e by simp
  qed
  have same: "(?t n)(of_nat n := countDown (?t n (of_nat n))) = (if ay_fActive (?t n (of_nat n)) then (?t n)(of_nat n := (?t n (of_nat n))\<lparr>ay_time := ay_time (?t n (of_nat n)) - 1\<rparr>) else ?t n)"
    by (auto simp: countDown_def fun_eq_iff)
  have "(filterTimers ^^ Suc n) k = filterTimers ((filterTimers ^^ n) k)" by simp
  also have "\<dots> = filterTimers (k\<lparr>af_table := ?t n, af_nCount := of_nat n\<rparr>)" using Suc.IH Suc.prems by simp
  also have "\<dots> = k\<lparr>af_table := (?t n)(of_nat n := countDown (?t n (of_nat n))), af_nCount := of_nat n + 1\<rparr>"
    unfolding same using assms(1) n by (simp add: filterTimers_def Let_def)
  finally show ?case unfolding t by (simp add: add.commute)
qed

lemma check_run:
  assumes "af_timerState k = ATS_CHECK_TIMERS" and "af_nCount k = 0" and "n < 255"
  shows "(filterTimers ^^ n) k = k\<lparr>
    af_table := (\<lambda>i. if unat i < n \<and> expired (af_table k i) then (af_table k i)\<lparr>ay_fActive := False\<rparr> else af_table k i),
    af_lost := af_lost k @ map (\<lambda>n. 1) (filter (\<lambda>n. expired (af_table k (of_nat n))) [0..<n]), af_nCount := of_nat n\<rparr>"
  using assms(3)
proof (induction n)
  case 0
  then show ?case using assms(2) by (cases k) simp
next
  case (Suc n)
  let ?t = "\<lambda>n i. if unat i < n \<and> expired (af_table k i) then (af_table k i)\<lparr>ay_fActive := False\<rparr> else af_table k i"
  let ?l = "\<lambda>n. af_lost k @ map (\<lambda>n. 1) (filter (\<lambda>n. expired (af_table k (of_nat n))) [0..<n])"
  have u: "unat (of_nat n :: 8 word) = n" using Suc.prems by (simp add: unat_of_nat8)
  have s: "unat ((of_nat n :: 8 word) + 1) = Suc n" using Suc.prems u by (simp add: unat_word_ariths)
  have n: "(of_nat n :: 8 word) + 1 \<noteq> 255"
  proof
    assume e: "(of_nat n :: 8 word) + 1 = 255"
    show False using s Suc.prems unfolding e by simp
  qed
  have e: "?t n (of_nat n) = af_table k (of_nat n)" using u by simp
  have t: "(if expired (af_table k (of_nat n)) then (?t n)(of_nat n := (af_table k (of_nat n))\<lparr>ay_fActive := False\<rparr>) else ?t n) = ?t (Suc n)"
    using Suc.prems u by (auto simp: fun_eq_iff eq_of_nat8 less_Suc_eq)
  have "(filterTimers ^^ Suc n) k = filterTimers (k\<lparr>af_table := ?t n, af_lost := ?l n, af_nCount := of_nat n\<rparr>)" using Suc.IH Suc.prems by simp
  also have "\<dots> = k\<lparr>af_table := ?t (Suc n), af_lost := ?l (Suc n), af_nCount := of_nat n + 1\<rparr>"
    unfolding t [symmetric] using assms(1) n e by (cases k) (simp add: filterTimers_def Let_def expired_def s_write_def)
  finally show ?case by (simp add: add.commute)
qed

lemma filter_sweep:
  assumes "af_timerState k = ATS_IDLE" and "af_tickIn k = b # bs"
  shows "\<exists>ls. (filterTimers ^^ 511) k = k\<lparr>af_tickIn := bs, af_nCount := 255, af_table := (\<lambda>i. tickEntry i (af_table k i)),
    af_lost := af_lost k @ ls\<rparr>"
proof -
  define t1 where "t1 = (\<lambda>i. if unat i < 255 then countDown (af_table k i) else af_table k i)"
  define t2 where "t2 = (\<lambda>i. if unat i < 255 \<and> expired (t1 i) then (t1 i)\<lparr>ay_fActive := False\<rparr> else t1 i)"
  define k0 where "k0 = k\<lparr>af_tickIn := bs, af_nCount := 0, af_timerState := ATS_DECREMENT_TIMERS\<rparr>"
  define k1 where "k1 = k0\<lparr>af_table := t1, af_nCount := 0, af_timerState := ATS_CHECK_TIMERS\<rparr>"
  have 0: "filterTimers k = k0" using assms by (simp add: filterTimers_def k0_def)
  have d: "af_timerState k0 = ATS_DECREMENT_TIMERS" "af_nCount k0 = 0" by (simp_all add: k0_def)
  have tk: "af_table k0 = af_table k" by (simp add: k0_def)
  have tk1: "af_table k1 = t1" "af_lost k1 = af_lost k" by (simp_all add: k1_def k0_def)
  have c: "af_timerState k1 = ATS_CHECK_TIMERS" "af_nCount k1 = 0" by (simp_all add: k1_def)
  have i255: "(i = 255) = (unat i = 255)" for i :: "8 word" by (auto simp: word_unat_eq_iff)
  have u254: "unat i < 255 \<longleftrightarrow> unat i < 254 \<or> i = 254" for i :: "8 word" by (auto simp: word_unat_eq_iff)
  let ?d = "\<lambda>i :: 8 word. if unat i < 254 then countDown (af_table k i) else af_table k i"
  have td: "(if ay_fActive (af_table k 254) then ?d(254 := (af_table k 254)\<lparr>ay_time := ay_time (af_table k 254) - 1\<rparr>) else ?d) = t1"
    by (auto simp: fun_eq_iff t1_def u254 countDown_def)
  let ?c = "\<lambda>i :: 8 word. if unat i < 254 \<and> expired (t1 i) then (t1 i)\<lparr>ay_fActive := False\<rparr> else t1 i"
  have tc: "(if expired (t1 254) then ?c(254 := (t1 254)\<lparr>ay_fActive := False\<rparr>) else ?c) = t2"
    by (auto simp: fun_eq_iff t2_def u254)
  have 1: "(filterTimers ^^ 255) k0 = k1"
  proof -
    have "(filterTimers ^^ 255) k0 = filterTimers ((filterTimers ^^ 254) k0)" using funpow.simps(2) [of 254 filterTimers] by simp
    also have "\<dots> = filterTimers (k0\<lparr>af_table := ?d, af_nCount := 254\<rparr>)" using dec_run [OF d, of 254] unfolding tk by simp
    also have "\<dots> = k1"
      unfolding k1_def td [symmetric] using d(1) by (cases k) (simp add: filterTimers_def k0_def Let_def)
    finally show ?thesis .
  qed
  have 2: "\<exists>ls. (filterTimers ^^ 255) k1 = k1\<lparr>af_table := t2, af_lost := af_lost k @ ls, af_nCount := 255, af_timerState := ATS_IDLE\<rparr>"
  proof -
    obtain l where l: "(filterTimers ^^ 254) k1 = k1\<lparr>af_table := (\<lambda>i. if unat i < 254 \<and> expired (t1 i) then (t1 i)\<lparr>ay_fActive := False\<rparr> else t1 i),
        af_lost := af_lost k @ l, af_nCount := 254\<rparr>"
      using check_run [OF c, of 254] unfolding tk1 by simp
    have "(filterTimers ^^ 255) k1 = filterTimers ((filterTimers ^^ 254) k1)" using funpow.simps(2) [of 254 filterTimers] by simp
    also have "\<dots> = k1\<lparr>af_table := t2, af_lost := af_lost k @ l @ (if expired (t1 254) then [1] else []), af_nCount := 255, af_timerState := ATS_IDLE\<rparr>"
      unfolding l tc [symmetric] using c(1) by (cases k1) (simp add: filterTimers_def expired_def s_write_def Let_def)
    finally show ?thesis by blast
  qed
  then obtain ls where ls: "(filterTimers ^^ 255) k1 = k1\<lparr>af_table := t2, af_lost := af_lost k @ ls, af_nCount := 255, af_timerState := ATS_IDLE\<rparr>" ..
  have run: "(filterTimers ^^ 511) k = (filterTimers ^^ 255) ((filterTimers ^^ 255) (filterTimers k))"
  proof -
    have "(511 :: nat) = 255 + (255 + 1)" by simp
    then show ?thesis by (simp only: funpow_add comp_apply One_nat_def funpow.simps id_apply)
  qed
  have t2: "t2 = (\<lambda>i. tickEntry i (af_table k i))"
  proof
    fix i :: "8 word"
    have "unat i < 256" using unsigned_less [of i, where ?'a = nat] by simp
    then have "unat i < 255 \<longleftrightarrow> i \<noteq> 255" by (auto simp: i255)
    then show "t2 i = tickEntry i (af_table k i)" by (simp add: t2_def t1_def tickEntry_def)
  qed
  show ?thesis
    unfolding run 0 1 ls t2 [symmetric] unfolding k1_def k0_def using assms(1) by (intro exI [of _ ls]) (cases k; simp)
qed

lemma timers_same [simp]: "af_requestIn (filterTimers k) = af_requestIn k" "af_replyIn (filterTimers k) = af_replyIn k"
    "af_hasData (filterTimers k) = af_hasData k" "af_tableState (filterTimers k) = af_tableState k" "af_filtered (filterTimers k) = af_filtered k"
  by (simp_all add: filterTimers_def Let_def split: arpTimerState.split)

lemma quiet_runs: "af_requestIn k = [] \<Longrightarrow> af_replyIn k = [] \<Longrightarrow> \<not> af_hasData k \<Longrightarrow>
    (arp_server_request_filter ^^ n) k = (filterTimers ^^ n) k"
  by (induction n arbitrary: k) (simp_all add: funpow_Suc_apply quiet del: funpow.simps(2))

lemma filter_ticks: "filterReady k \<Longrightarrow> n \<le> length (af_tickIn k) \<Longrightarrow> \<exists>k'. (arp_server_request_filter ^^ (511 * n)) k = k' \<and> filterReady k' \<and>
    af_table k' = (\<lambda>i. (tickEntry i ^^ n) (af_table k i)) \<and> af_filtered k' = af_filtered k \<and> af_tickIn k' = drop n (af_tickIn k)"
proof (induction n arbitrary: k)
  case (Suc n)
  obtain b bs where t: "af_tickIn k = b # bs" using Suc.prems(2) by (cases "af_tickIn k") auto
  have r: "af_requestIn k = []" "af_replyIn k = []" "\<not> af_hasData k" "af_timerState k = ATS_IDLE" "af_tableState k = AWS_WAIT"
    using Suc.prems(1) by (simp_all add: filterReady_def)
  define k1 where "k1 = (filterTimers ^^ 511) k"
  obtain ls where "(filterTimers ^^ 511) k = k\<lparr>af_tickIn := bs, af_nCount := 255, af_table := (\<lambda>i. tickEntry i (af_table k i)), af_lost := af_lost k @ ls\<rparr>"
    using filter_sweep [OF r(4) t] by blast
  then have k1: "filterReady k1" "af_tickIn k1 = bs" "af_table k1 = (\<lambda>i. tickEntry i (af_table k i))" "af_filtered k1 = af_filtered k"
    using r by (simp_all add: k1_def filterReady_def)
  have "n \<le> length (af_tickIn k1)" using Suc.prems(2) t k1(2) by simp
  with Suc.IH [OF k1(1)] have ih: "filterReady ((arp_server_request_filter ^^ (511 * n)) k1)"
      "af_table ((arp_server_request_filter ^^ (511 * n)) k1) = (\<lambda>i. (tickEntry i ^^ n) (af_table k1 i))"
      "af_filtered ((arp_server_request_filter ^^ (511 * n)) k1) = af_filtered k1" "af_tickIn ((arp_server_request_filter ^^ (511 * n)) k1) = drop n bs"
    using k1(2) by auto
  have "511 * Suc n = 511 * n + 511" by simp
  then have "(arp_server_request_filter ^^ (511 * Suc n)) k = (arp_server_request_filter ^^ (511 * n)) k1"
    unfolding k1_def quiet_runs [OF r(1-3), symmetric] by (simp only: funpow_add comp_apply)
  with ih k1 t show ?case by (simp add: funpow_Suc_apply del: funpow.simps(2))
qed simp

lemma tick_fix: "i \<noteq> 255 \<Longrightarrow> \<not> ay_fActive e \<Longrightarrow> (tickEntry i ^^ n) e = e"
  by (induction n) (simp_all add: tickEntry_def countDown_def expired_def)

lemma ticks_active:
  "ay_fActive ((tickEntry i ^^ n) \<lparr>ay_time = MAX_WAIT, ay_fActive = True\<rparr>) \<longleftrightarrow> n < 5 \<or> i = 255"
proof (cases "i = 255")
  case True
  then have "(tickEntry i ^^ n) e = e" for e by (induction n) (simp_all add: tickEntry_def)
  with True show ?thesis by simp
next
  case False
  let ?e = "\<lparr>ay_time = MAX_WAIT, ay_fActive = True\<rparr>"
  have s: "tickEntry i \<lparr>ay_time = t, ay_fActive = True\<rparr> = \<lparr>ay_time = t - 1, ay_fActive = t - 1 \<noteq> 0\<rparr>" for t
    using False by (simp add: tickEntry_def countDown_def expired_def)
  have t: "tickEntry i \<lparr>ay_time = 5, ay_fActive = True\<rparr> = \<lparr>ay_time = 4, ay_fActive = True\<rparr>"
    "tickEntry i \<lparr>ay_time = 4, ay_fActive = True\<rparr> = \<lparr>ay_time = 3, ay_fActive = True\<rparr>"
    "tickEntry i \<lparr>ay_time = 3, ay_fActive = True\<rparr> = \<lparr>ay_time = 2, ay_fActive = True\<rparr>"
    "tickEntry i \<lparr>ay_time = 2, ay_fActive = True\<rparr> = \<lparr>ay_time = 1, ay_fActive = True\<rparr>"
    "tickEntry i \<lparr>ay_time = 1, ay_fActive = True\<rparr> = \<lparr>ay_time = 0, ay_fActive = False\<rparr>"
    unfolding s by simp_all
  have m: "(2 :: nat) = Suc 1" "(3 :: nat) = Suc 2" "(4 :: nat) = Suc 3" "(5 :: nat) = Suc 4" by simp_all
  have f1: "(tickEntry i ^^ 1) ?e = \<lparr>ay_time = 4, ay_fActive = True\<rparr>" by (simp add: MAX_WAIT_def t)
  have f2: "(tickEntry i ^^ 2) ?e = \<lparr>ay_time = 3, ay_fActive = True\<rparr>" unfolding m(1) funpow.simps comp_apply f1 t ..
  have f3: "(tickEntry i ^^ 3) ?e = \<lparr>ay_time = 2, ay_fActive = True\<rparr>" unfolding m(2) funpow.simps comp_apply f2 t ..
  have f4: "(tickEntry i ^^ 4) ?e = \<lparr>ay_time = 1, ay_fActive = True\<rparr>" unfolding m(3) funpow.simps comp_apply f3 t ..
  have f5: "(tickEntry i ^^ 5) ?e = \<lparr>ay_time = 0, ay_fActive = False\<rparr>" unfolding m(4) funpow.simps comp_apply f4 t ..
  show ?thesis
  proof (cases "n < 5")
    case True
    then have "n = 0 \<or> n = 1 \<or> n = 2 \<or> n = 3 \<or> n = 4" by auto
    then show ?thesis by (elim disjE) (simp_all only: f1 f2 f3 f4, simp_all)
  next
    case n: False
    then have "(tickEntry i ^^ n) ?e = (tickEntry i ^^ (n - 5)) ((tickEntry i ^^ 5) ?e)"
      by (simp only: funpow_add [symmetric, unfolded comp_def, THEN fun_cong]) simp
    with n False show ?thesis by (simp add: f5 tick_fix)
  qed
qed

lemma filter_request:
  assumes "filterReady k"
  shows "\<exists>k'. (arp_server_request_filter ^^ 2) (k\<lparr>af_requestIn := [r]\<rparr>) = k' \<and> filterReady k' \<and>
    af_filtered k' = af_filtered k @ (if ay_fActive (af_table k (arpBin r)) then [] else [r]) \<and> af_tickIn k' = af_tickIn k \<and>
    af_table k' = (if ay_fActive (af_table k (arpBin r)) then af_table k else (af_table k)(arpBin r := \<lparr>ay_time = MAX_WAIT, ay_fActive = True\<rparr>))"
  using assms by (simp add: numeral_2_eq_2 arp_server_request_filter_def filterTable_def filterReady_def s_write_def Let_def)

lemma filter_reply:
  assumes "filterReady k"
  shows "\<exists>k'. (arp_server_request_filter ^^ 2) (k\<lparr>af_replyIn := [r]\<rparr>) = k' \<and> filterReady k' \<and> af_filtered k' = af_filtered k \<and>
    af_tickIn k' = af_tickIn k \<and> af_table k' = (af_table k)(arpBin r := (af_table k (arpBin r))\<lparr>ay_fActive := False\<rparr>)"
  using assms by (simp add: numeral_2_eq_2 arp_server_request_filter_def filterTable_def filterReady_def s_write_def Let_def)

text \<open>C39: A request goes out when none is outstanding for the same last byte of the address, and is outstanding until a
  message of such an address comes or five ticks of 100 ms have passed; until then further requests are held back.  The
  timer of last byte 255 is never counted down: without an answer it holds all further requests back for ever.\<close>

theorem arp_requests_filtered:
  assumes "filterReady k" and "\<not> ay_fActive (af_table k (arpBin r))" and "n \<le> length (af_tickIn k)"
    and "arpBin r' = arpBin r" and "arpBin answer = arpBin r"
    and "k1 = (arp_server_request_filter ^^ 2) (k\<lparr>af_requestIn := [r]\<rparr>)" and "k2 = (arp_server_request_filter ^^ (511 * n)) k1"
    and "k3 = (arp_server_request_filter ^^ 2) (k2\<lparr>af_replyIn := [answer]\<rparr>)"
  shows "af_filtered k1 = af_filtered k @ [r] \<and>
    af_filtered ((arp_server_request_filter ^^ 2) (k2\<lparr>af_requestIn := [r']\<rparr>)) =
      af_filtered k1 @ (if n < 5 \<or> arpBin r = 255 then [] else [r']) \<and>
    af_filtered ((arp_server_request_filter ^^ 2) (k3\<lparr>af_requestIn := [r']\<rparr>)) = af_filtered k1 @ [r']"
proof -
  have 1: "filterReady k1" "af_filtered k1 = af_filtered k @ [r]" "af_tickIn k1 = af_tickIn k"
    "af_table k1 = (af_table k)(arpBin r := \<lparr>ay_time = MAX_WAIT, ay_fActive = True\<rparr>)"
    using filter_request [OF assms(1), of r] assms(2,6) by auto
  have 2: "filterReady k2" "af_filtered k2 = af_filtered k1" "af_table k2 = (\<lambda>i. (tickEntry i ^^ n) (af_table k1 i))"
    using filter_ticks [OF 1(1), of n] assms(3,7) 1(3) by auto
  have a2: "ay_fActive (af_table k2 (arpBin r)) \<longleftrightarrow> n < 5 \<or> arpBin r = 255" unfolding 2(3) 1(4) by (simp add: ticks_active)
  have 3: "filterReady k3" "af_filtered k3 = af_filtered k2" "\<not> ay_fActive (af_table k3 (arpBin r))"
    using filter_reply [OF 2(1), of answer] assms(5,8) by auto
  have r2: "af_filtered ((arp_server_request_filter ^^ 2) (k2\<lparr>af_requestIn := [r']\<rparr>)) = af_filtered k2 @ (if ay_fActive (af_table k2 (arpBin r)) then [] else [r'])"
    using filter_request [OF 2(1), of r'] assms(4) by auto
  have r3: "af_filtered ((arp_server_request_filter ^^ 2) (k3\<lparr>af_requestIn := [r']\<rparr>)) = af_filtered k3 @ [r']"
    using filter_request [OF 3(1), of r'] assms(4) 3(3) by auto
  show ?thesis unfolding r2 r3 a2 2(2) 3(2) 1(2) by simp
qed

section \<open>Samples\<close>

definition sampleArpSender :: arpSender where
  "sampleArpSender = \<lparr>as2_fsmState = ARS_IDLE, as2_sendCount = 0, as2_replyMeta = requestMeta 0 0, as2_inputIP = 0, as2_metaIn = [],
     as2_requestIn = [], as2_dataOut = [], as2_reqSent = [], as2_replySent = []\<rparr>"

definition sampleArpReceiver :: arpReceiver where
  "sampleArpReceiver = \<lparr>av_wordCount = 0, av_opCode = 0, av_protoAddrDst = 0, av_meta = requestMeta 0 0, av_dataIn = [], av_replyMeta = [],
     av_replyRecv = [], av_insert = [], av_reqRecvCnt = [], av_replyRecvCnt = []\<rparr>"

definition sampleArpTable :: arpTable where
  "sampleArpTable = \<lparr>at2_table = (\<lambda>i. \<lparr>ae_ipAddress = 0, ae_macAddress = 0, ae_valid = False\<rparr>), at2_toggle = False, at2_insertIn = [],
     at2_queryIn = [], at2_reply = [], at2_request = []\<rparr>"

definition sampleArpHost :: arpHost where
  "sampleArpHost = \<lparr>ao_entry = \<lparr>ae_ipAddress = 0, ae_macAddress = 0, ae_valid = False\<rparr>, ao_toggle = False, ao_opcode = 0, ao_bin = 0\<rparr>"

definition sampleArpFilter :: arpFilter where
  "sampleArpFilter = \<lparr>af_table = (\<lambda>i. \<lparr>ay_time = 0, ay_fActive = False\<rparr>), af_timerState = ATS_IDLE, af_tableState = AWS_WAIT, af_currReq = 0,
     af_index = 0, af_nCount = 0, af_hasData = False, af_tickIn = replicate 100 True, af_requestIn = [], af_replyIn = [], af_filtered = [], af_lost = []\<rparr>"

text \<open>The address 10.0.1.5 is answered with the hardware address learned for 10.0.0.5.\<close>

theorem arp_lookup_last_byte_witness:
  "\<exists>k'. (arp_table ^^ 2) (sampleArpHost, sampleArpTable\<lparr>at2_insertIn := [\<lparr>ae_ipAddress = 0x0500000A, ae_macAddress = 0xAA, ae_valid = True\<rparr>],
      at2_queryIn := [0x0501000A]\<rparr>) = (sampleArpHost, k') \<and> at2_reply k' = [\<lparr>al_macAddress = 0xAA, al_hit = True\<rparr>]"
proof -
  let ?es = "[\<lparr>ae_ipAddress = 0x0500000A, ae_macAddress = 0xAA, ae_valid = True\<rparr>] :: arpTableEntry list"
  let ?k = "sampleArpTable\<lparr>at2_insertIn := ?es, at2_queryIn := [0x0501000A]\<rparr>"
  have h: "ao_toggle sampleArpHost = at2_toggle ?k" "at2_insertIn ?k = ?es" "at2_queryIn ?k = 0x0501000A # []"
    by (simp_all add: sampleArpHost_def sampleArpTable_def)
  have b: "arpBin 0x0500000A = 5" "arpBin 0x0501000A = 5" "\<not> isMulticastAddr 0x0501000A" by (code_simp, code_simp, code_simp)
  from arp_lookup_last_byte [OF h refl] b show ?thesis by (simp add: sampleArpTable_def numeral_2_eq_2) blast
qed

theorem arp_resolution_witness:
  "\<exists>ta'. (arp_table ^^ 2) (sampleArpHost, sampleArpTable\<lparr>at2_insertIn :=
      av_insert ((arp_pkg_receiver 0x0100000A ^^ 6) (sampleArpReceiver\<lparr>av_dataIn := replyFrame 0xBB 0x0200000A (requestMeta 0xAA 0x0100000A)\<rparr>)),
      at2_queryIn := [0x0200000A]\<rparr>) = (sampleArpHost, ta') \<and> at2_reply ta' = [\<lparr>al_macAddress = 0xBB, al_hit = True\<rparr>]"
proof -
  let ?vs = "requestFrame 0xAA 0x0100000A 0x0200000A" and ?us = "replyFrame 0xBB 0x0200000A (requestMeta 0xAA 0x0100000A)"
  let ?b = "sampleArpReceiver\<lparr>av_dataIn := ?vs\<rparr>" and ?a = "sampleArpReceiver\<lparr>av_dataIn := ?us\<rparr>"
  let ?sa = "sampleArpSender\<lparr>as2_requestIn := [0x0200000A]\<rparr>"
  let ?b' = "(arp_pkg_receiver 0x0200000A ^^ length ?vs) ?b" and ?a' = "(arp_pkg_receiver 0x0100000A ^^ length ?us) ?a"
  let ?sb = "sampleArpSender\<lparr>as2_metaIn := av_replyMeta ?b'\<rparr>"
  let ?ta = "sampleArpTable\<lparr>at2_insertIn := av_insert ?a', at2_queryIn := [0x0200000A]\<rparr>"
  have sf: "sameFrame ?vs ?vs" "sameFrame ?us ?us" by (rule frames_same)+
  have sa: "as2_fsmState ?sa = ARS_IDLE" "as2_metaIn ?sa = []" "as2_requestIn ?sa = 0x0200000A # []" "as2_dataOut ?sa = []" by (simp_all add: sampleArpSender_def)
  have 1: "sameFrame (as2_dataOut ((arp_pkg_sender 0xAA 0x0100000A ^^ 7) ?sa)) ?vs"
    unfolding sender_request [OF sa(1-3)] using sf(1) by (simp add: sampleArpSender_def)
  have r: "receiverReady ?b" "av_dataIn ?b = ?vs" "av_replyMeta ?b = []" "receiverReady ?a" "av_dataIn ?a = ?us" "av_insert ?a = []"
    by (simp_all add: receiverReady_def sampleArpReceiver_def)
  have z: "(0x0100000A :: 32 word) \<noteq> 0" "(0x0200000A :: 32 word) \<noteq> 0" "\<not> isMulticastAddr 0x0200000A" by (simp, simp, code_simp)
  have d: "av_dataIn ?b = ?vs @ []" by simp
  have m: "av_replyMeta ?b' = requestMeta 0xAA 0x0100000A # []" using request_received [OF r(1) sf(1) d z(1)] r(3) by auto
  have sb: "as2_fsmState ?sb = ARS_IDLE" "as2_metaIn ?sb = requestMeta 0xAA 0x0100000A # []" "as2_dataOut ?sb = []"
    using m by (simp_all add: sampleArpSender_def)
  have 2: "sameFrame (as2_dataOut ((arp_pkg_sender 0xBB 0x0200000A ^^ 7) ?sb)) ?us"
    unfolding sender_reply [OF sb(1,2)] using sf(2) by (simp add: sampleArpSender_def)
  have t: "ao_toggle sampleArpHost = at2_toggle ?ta" "at2_insertIn ?ta = av_insert ?a'" "at2_queryIn ?ta = [0x0200000A]"
    by (simp_all add: sampleArpHost_def sampleArpTable_def)
  have l: "length ?us = 6" by (simp add: replyFrame_def)
  have o: "at2_reply ?ta = []" by (simp add: sampleArpTable_def)
  have p: "at2_reply sampleArpTable = []" by (simp add: sampleArpTable_def)
  have sbm: "as2_metaIn ?sb = av_replyMeta ?b'" by simp
  from arp_resolution [OF sa r(1-3) 1 refl sb(1) sbm sb(3) r(4-6) 2 refl t z] show ?thesis unfolding o l by (auto simp: p)
qed

theorem arp_requests_filtered_witness:
  "af_filtered ((arp_server_request_filter ^^ 2) ((arp_server_request_filter ^^ (511 * 100)) ((arp_server_request_filter ^^ 2)
     (sampleArpFilter\<lparr>af_requestIn := [0xFF00000A]\<rparr>))\<lparr>af_requestIn := [0xFF00000A]\<rparr>)) = [0xFF00000A]"
proof -
  have h: "filterReady sampleArpFilter" "\<not> ay_fActive (af_table sampleArpFilter (arpBin 0xFF00000A))" "100 \<le> length (af_tickIn sampleArpFilter)"
    by (simp_all add: filterReady_def sampleArpFilter_def)
  have b: "arpBin 0xFF00000A = 255" by code_simp
  have f: "af_filtered sampleArpFilter = []" by (simp add: sampleArpFilter_def)
  from arp_requests_filtered [OF h refl refl refl refl refl] b f show ?thesis by simp
qed

end
