(* ===== verification/Net_Ip_Handler.thy ===== *)
theory Net_Ip_Handler
  imports Net_Arp Toe_Tx_Path
begin

text \<open>
  The IP handler, \<^verbatim>\<open>hw/tcp_udp_ip/hls/ip_handler/ip_handler.cpp\<close>: it takes the frames of the network apart,
  hands ARP frames to the ARP server and IPv4 packets with a good header and an address of the host, without their
  padding, to the server of their protocol where there is one.

  One definition per stage, then the stages connected as \<^verbatim>\<open>ip_handler_body\<close> connects them, and what happens to
  a frame on its way through.
\<close>

section \<open>Frames\<close>

definition ETH_ARP :: "16 word" where "ETH_ARP = 0x0806"
definition ETH_IPv4 :: "16 word" where "ETH_IPv4 = 0x0800"
definition PROTO_ICMP :: "8 word" where "PROTO_ICMP = 0x01"
definition PROTO_IGMP :: "8 word" where "PROTO_IGMP = 0x02"
definition PROTO_UDP :: "8 word" where "PROTO_UDP = 0x11"
definition PROTO_TCP :: "8 word" where "PROTO_TCP = 0x06"

definition getEthertype :: "112 word \<Rightarrow> 16 word" where
  "getEthertype h = reverse16 (rng 111 96 h)"

text \<open>The first word of a frame that is not ARP is left out: it holds the first eight bytes of the Ethernet header.\<close>

datatype detectState = DE_FIRST | DE_MIDDLE | DE_LAST

record ethDetect =
  de_state :: detectState
  de_header :: "112 word packetHeader"
  de_prevWord :: axiWord
  de_metaWritten :: bool
  de_dataIn :: "axiWord hls_stream"
  de_etherType :: "16 word hls_stream"
  de_dataOut :: "axiWord hls_stream"

definition detect_eth_protocol :: "ethDetect \<Rightarrow> ethDetect" where
  "detect_eth_protocol k =
     (case de_state k of
        DE_FIRST \<Rightarrow>
          if \<not> s_empty (de_dataIn k) then
            (let w = s_head (de_dataIn k) in
             k\<lparr>de_dataIn := s_rest (de_dataIn k), de_header := parseWord (ax_data w) (de_header k), de_prevWord := w,
               de_state := (if ax_last w then DE_LAST else DE_MIDDLE)\<rparr>)
          else k
      | DE_MIDDLE \<Rightarrow>
          if \<not> s_empty (de_dataIn k) then
            (let w = s_head (de_dataIn k);
                 k = k\<lparr>de_dataIn := s_rest (de_dataIn k), de_header := parseWord (ax_data w) (de_header k)\<rparr>;
                 t = getEthertype (ph_header (de_header k));
                 k = (if \<not> de_metaWritten k
                      then k\<lparr>de_etherType := s_write (de_etherType k) t, de_metaWritten := True,
                             de_dataOut := (if t = ETH_ARP then s_write (de_dataOut k) (de_prevWord k) else de_dataOut k)\<rparr>
                      else k\<lparr>de_dataOut := s_write (de_dataOut k) (de_prevWord k)\<rparr>)
             in k\<lparr>de_prevWord := w, de_state := (if ax_last w then DE_LAST else DE_MIDDLE)\<rparr>)
          else k
      | DE_LAST \<Rightarrow>
          k\<lparr>de_etherType := (if de_metaWritten k then de_etherType k
                             else s_write (de_etherType k) (getEthertype (ph_header (de_header k)))),
            de_dataOut := s_write (de_dataOut k) (de_prevWord k), de_header := clearHeader (de_header k),
            de_metaWritten := False, de_state := DE_FIRST\<rparr>)"

record ethRoute =
  er_fsmState :: bool
  er_etherType :: "16 word"
  er_typeIn :: "16 word hls_stream"
  er_dataIn :: "axiWord hls_stream"
  er_arpOut :: "axiWord hls_stream"
  er_ipOut :: "axiWord hls_stream"

definition routeWord :: "axiWord \<Rightarrow> ethRoute \<Rightarrow> ethRoute" where
  "routeWord w k =
     (if er_etherType k = ETH_ARP then k\<lparr>er_arpOut := s_write (er_arpOut k) w\<rparr>
      else if er_etherType k = ETH_IPv4 then k\<lparr>er_ipOut := s_write (er_ipOut k) w\<rparr> else k)"

definition route_by_eth_protocol :: "ethRoute \<Rightarrow> ethRoute" where
  "route_by_eth_protocol k =
     (if \<not> er_fsmState k then
        (if \<not> s_empty (er_typeIn k) \<and> \<not> s_empty (er_dataIn k) then
           (let w = s_head (er_dataIn k) in
            (routeWord w (k\<lparr>er_etherType := s_head (er_typeIn k), er_typeIn := s_rest (er_typeIn k), er_dataIn := s_rest (er_dataIn k)\<rparr>))
              \<lparr>er_fsmState := \<not> ax_last w\<rparr>)
         else k)
      else if \<not> s_empty (er_dataIn k) then
        (let w = s_head (er_dataIn k) in
         (routeWord w (k\<lparr>er_dataIn := s_rest (er_dataIn k)\<rparr>))\<lparr>er_fsmState := \<not> ax_last w\<rparr>)
      else k)"

section \<open>Header check\<close>

definition isBroadcastAddr :: "32 word \<Rightarrow> bool" where
  "isBroadcastAddr a \<longleftrightarrow> a = 0xFFFFFFFF"

definition isMatch :: "32 word \<Rightarrow> 32 word \<Rightarrow> bool" where
  "isMatch myIP dstIP \<longleftrightarrow> dstIP = myIP \<or> isMulticastAddr dstIP \<or> isBroadcastAddr dstIP"

definition hdr_valid :: "4 word \<Rightarrow> bool" where
  "hdr_valid version \<longleftrightarrow> version = 4"

record headerSums =
  hs_sums :: subSums
  hs_ipMatch :: bool
  hs_hdrValid :: bool

record headerCheck =
  ck_sums :: subSums
  ck_headerLen :: "8 word"
  ck_wordCount :: "3 word"
  ck_dstIpAddress :: "32 word"
  ck_ipVersion :: "4 word"
  ck_csumSent :: bool
  ck_csumSend :: bool
  ck_subSums :: headerSums
  ck_dataIn :: "axiWord hls_stream"
  ck_dataOut :: "axiWord hls_stream"
  ck_sumsOut :: "headerSums hls_stream"

text \<open>Column \<open>i\<close> of a word, both bytes.\<close>

definition headerColumn :: "axiWord \<Rightarrow> nat \<Rightarrow> 17 word \<Rightarrow> 17 word" where
  "headerColumn w i s = addSum s (ucast (be16 (rng (16 * i + 7) (16 * i) (ax_data w)) (rng (16 * i + 15) (16 * i + 8) (ax_data w))))"

definition headerSend :: "32 word \<Rightarrow> headerCheck \<Rightarrow> headerCheck" where
  "headerSend myIp k = k\<lparr>ck_subSums := \<lparr>hs_sums = ck_sums k, hs_ipMatch = isMatch myIp (ck_dstIpAddress k),
     hs_hdrValid = hdr_valid (ck_ipVersion k)\<rparr>, ck_csumSend := True\<rparr>"

definition headerWord :: "32 word \<Rightarrow> axiWord \<Rightarrow> headerCheck \<Rightarrow> headerCheck" where
  "headerWord myIp w k =
     (if ck_wordCount k \<le> 1 then
        (let k = (if ck_wordCount k = 0 then k\<lparr>ck_headerLen := ucast (rng 3 0 (ax_data w) :: 4 word), ck_ipVersion := rng 7 4 (ax_data w)\<rparr> else k)
         in k\<lparr>ck_sums := (\<lambda>i. if i < 4 then headerColumn w i (ck_sums k i) else ck_sums k i),
              ck_headerLen := ck_headerLen k - 2, ck_wordCount := ck_wordCount k + 1\<rparr>)
      else
        (let k = (if ck_wordCount k = 2 then k\<lparr>ck_wordCount := 3, ck_dstIpAddress := rng 31 0 (ax_data w)\<rparr> else k);
             l = ck_headerLen k
         in if l = 0 then k
            else if l = 1 then
              headerSend myIp (k\<lparr>ck_sums := (\<lambda>i. if i < 2 then headerColumn w i (ck_sums k i) else ck_sums k i), ck_headerLen := 0\<rparr>)
            else
              (let k = k\<lparr>ck_sums := (\<lambda>i. if i < 4 \<and> (rng (2 * i + 1) (2 * i) (ax_keep w) :: 2 word) = 3
                                          then headerColumn w i (ck_sums k i) else ck_sums k i)\<rparr>;
                   k = (if l = 2 then headerSend myIp k else k)
               in k\<lparr>ck_headerLen := l - 2\<rparr>)))"

definition check_ip_checksum :: "32 word \<Rightarrow> headerCheck \<Rightarrow> headerCheck" where
  "check_ip_checksum myIp k =
     (if \<not> s_empty (ck_dataIn k) then
        (let w = s_head (ck_dataIn k);
             k = headerWord myIp w (k\<lparr>ck_dataIn := s_rest (ck_dataIn k), ck_dataOut := s_write (ck_dataOut k) w\<rparr>);
             k = (if ck_csumSent k then k
                  else if ck_csumSend k then k\<lparr>ck_sumsOut := s_write (ck_sumsOut k) (ck_subSums k), ck_csumSent := True\<rparr>
                  else if ax_last w then k\<lparr>ck_sumsOut := s_write (ck_sumsOut k) \<lparr>hs_sums = ck_sums k, hs_ipMatch = False, hs_hdrValid = True\<rparr>\<rparr>
                  else k)
         in if ax_last w
            then k\<lparr>ck_csumSend := False, ck_csumSent := False, ck_wordCount := 0, ck_sums := (\<lambda>i. if i < 4 then 0 else ck_sums k i)\<rparr>
            else k)
      else k)"

record packetValid =
  pv_ipMatch :: bool
  pv_hdrValid :: bool

definition iph_check_ip_checksum :: "headerSums hls_stream \<times> packetValid hls_stream \<Rightarrow> headerSums hls_stream \<times> packetValid hls_stream" where
  "iph_check_ip_checksum = (\<lambda>(sums, valid).
     (if \<not> s_empty sums
      then (let s = s_head sums in
            (s_rest sums, s_write valid \<lparr>pv_ipMatch = hs_ipMatch s,
               pv_hdrValid = (hs_hdrValid s \<and> (rng 15 0 (NOT (totalSum (hs_sums s))) :: 16 word) = 0)\<rparr>))
      else (sums, valid)))"

datatype ipDropState = ID_GET_VALID | ID_FWD | ID_DROP

record ipDropper =
  id_state :: ipDropState
  id_inHdrErrors :: "32 word"
  id_inAddrErrors :: "32 word"
  id_inReceives :: "32 word"
  id_dataIn :: "axiWord hls_stream"
  id_validIn :: "packetValid hls_stream"
  id_dataOut :: "axiWord hls_stream"

definition ip_invalid_dropper :: "ipDropper \<Rightarrow> ipDropper" where
  "ip_invalid_dropper k =
     (case id_state k of
        ID_GET_VALID \<Rightarrow>
          if \<not> s_empty (id_validIn k) then
            (let v = s_head (id_validIn k) in
             k\<lparr>id_validIn := s_rest (id_validIn k), id_inReceives := id_inReceives k + 1,
               id_inHdrErrors := (if pv_hdrValid v then id_inHdrErrors k else id_inHdrErrors k + 1),
               id_inAddrErrors := (if pv_hdrValid v \<and> \<not> pv_ipMatch v then id_inAddrErrors k + 1 else id_inAddrErrors k),
               id_state := (if pv_hdrValid v \<and> pv_ipMatch v then ID_FWD else ID_DROP)\<rparr>)
          else k
      | ID_FWD \<Rightarrow>
          if \<not> s_empty (id_dataIn k) then
            (let w = s_head (id_dataIn k) in
             k\<lparr>id_dataIn := s_rest (id_dataIn k), id_dataOut := s_write (id_dataOut k) w,
               id_state := (if ax_last w then ID_GET_VALID else ID_FWD)\<rparr>)
          else k
      | ID_DROP \<Rightarrow>
          if \<not> s_empty (id_dataIn k) then
            k\<lparr>id_dataIn := s_rest (id_dataIn k), id_state := (if ax_last (s_head (id_dataIn k)) then ID_GET_VALID else ID_DROP)\<rparr>
          else k)"

section \<open>Padding and protocol\<close>

record cutter =
  cl_drop :: bool
  cl_wordCount :: "16 word"
  cl_totalLength :: "16 word"
  cl_dataIn :: "axiWord hls_stream"
  cl_dataOut :: "axiWord hls_stream"

definition cut_length :: "cutter \<Rightarrow> cutter" where
  "cut_length k =
     (if \<not> s_empty (cl_dataIn k) then
        (let w = s_head (cl_dataIn k); n = cl_wordCount k; k = k\<lparr>cl_dataIn := s_rest (cl_dataIn k)\<rparr> in
         if cl_drop k then k\<lparr>cl_drop := \<not> ax_last w\<rparr>
         else
           (let real_end = (n \<noteq> 0 \<and> (unat n + 1) * 8 \<ge> unat (cl_totalLength k));
                k = (if n = 0 then k\<lparr>cl_totalLength := upd 15 8 (rng 23 16 (ax_data w) :: 8 word)
                                      (upd 7 0 (rng 31 24 (ax_data w) :: 8 word) (cl_totalLength k))\<rparr>
                     else k\<lparr>cl_drop := (real_end \<and> \<not> ax_last w)\<rparr>);
                leftLength = (ucast (cl_totalLength k) - ucast n * 8 :: 4 word);
                w' = (if real_end then w\<lparr>ax_keep := lenToKeep (unat leftLength), ax_last := True\<rparr> else w)
            in k\<lparr>cl_dataOut := s_write (cl_dataOut k) w', cl_wordCount := (if ax_last w' then 0 else n + 1)\<rparr>))
      else k)"

datatype ip_handler_cfg = CONFIG_UDP | CONFIG_TCP | CONFIG_TCP_UDP

definition isHandledProtocol :: "ip_handler_cfg \<Rightarrow> 8 word \<Rightarrow> bool" where
  "isHandledProtocol cfg protocol \<longleftrightarrow> protocol = PROTO_IGMP \<or> protocol = PROTO_ICMP \<or>
     (case cfg of CONFIG_UDP \<Rightarrow> protocol = PROTO_UDP | CONFIG_TCP \<Rightarrow> protocol = PROTO_TCP
      | CONFIG_TCP_UDP \<Rightarrow> protocol = PROTO_TCP \<or> protocol = PROTO_UDP)"

record protoDetect =
  dp2_leftover :: bool
  dp2_ipProtocol :: "8 word"
  dp2_wordCount :: "2 word"
  dp2_prevWord :: axiWord
  dp2_inDelivers :: "32 word"
  dp2_inUnknownProtos :: "32 word"
  dp2_dataIn :: "axiWord hls_stream"
  dp2_icmpOut :: "axiWord hls_stream"
  dp2_igmpOut :: "axiWord hls_stream"
  dp2_tcpOut :: "axiWord hls_stream"

text \<open>There is no stream for UDP: such packets are counted and dropped, like those of any other protocol.\<close>

definition protoWord :: "ip_handler_cfg \<Rightarrow> protoDetect \<Rightarrow> protoDetect" where
  "protoWord cfg k =
     (let p = dp2_ipProtocol k; w = dp2_prevWord k in
      if p = PROTO_ICMP then k\<lparr>dp2_icmpOut := s_write (dp2_icmpOut k) w\<rparr>
      else if p = PROTO_IGMP then k\<lparr>dp2_igmpOut := s_write (dp2_igmpOut k) w\<rparr>
      else if p = PROTO_TCP \<and> isHandledProtocol cfg p then k\<lparr>dp2_tcpOut := s_write (dp2_tcpOut k) w\<rparr>
      else k)"

definition detect_ipv4_protocol :: "ip_handler_cfg \<Rightarrow> protoDetect \<Rightarrow> protoDetect" where
  "detect_ipv4_protocol cfg k =
     (if dp2_leftover k then (protoWord cfg k)\<lparr>dp2_leftover := False\<rparr>
      else if \<not> s_empty (dp2_dataIn k) then
        (let w = s_head (dp2_dataIn k); k = k\<lparr>dp2_dataIn := s_rest (dp2_dataIn k)\<rparr>;
             k = (if dp2_wordCount k = 0 then k\<lparr>dp2_wordCount := 1\<rparr>
                  else
                    (let p = rng 15 8 (ax_data w);
                         k = (if dp2_wordCount k = 1
                              then k\<lparr>dp2_ipProtocol := p, dp2_wordCount := 2,
                                     dp2_inDelivers := (if isHandledProtocol cfg p then dp2_inDelivers k + 1 else dp2_inDelivers k),
                                     dp2_inUnknownProtos := (if isHandledProtocol cfg p then dp2_inUnknownProtos k else dp2_inUnknownProtos k + 1)\<rparr>
                              else k)
                     in protoWord cfg k));
             k = k\<lparr>dp2_prevWord := w\<rparr>
         in if ax_last w then k\<lparr>dp2_wordCount := 0, dp2_leftover := True\<rparr> else k)
      else k)"

section \<open>What each stage does to a packet\<close>

text \<open>Ethernet type and first word.\<close>

definition detectReady :: "ethDetect \<Rightarrow> bool" where
  "detectReady k \<longleftrightarrow> de_state k = DE_FIRST \<and> ph_idx (de_header k) = 0 \<and> \<not> ph_ready (de_header k) \<and> \<not> de_metaWritten k"

definition etherType :: "8 word list \<Rightarrow> 16 word" where
  "etherType bs = be16 (bs ! 12) (bs ! 13)"

lemma detect_rest: "is_packet ws \<Longrightarrow> de_state k = DE_MIDDLE \<Longrightarrow> de_metaWritten k \<Longrightarrow> de_dataIn k = ws @ rest \<Longrightarrow>
    \<exists>h p. (detect_eth_protocol ^^ Suc (length ws)) k = k\<lparr>de_dataIn := rest, de_header := clearHeader h, de_prevWord := p,
      de_dataOut := de_dataOut k @ de_prevWord k # ws, de_metaWritten := False, de_state := DE_FIRST\<rparr>"
proof (induction ws arbitrary: k)
  case Nil
  then show ?case by simp
next
  case (Cons w ws)
  show ?case
  proof (cases "ax_last w")
    case True
    then have "ws = []" using Cons.prems(1) by (simp add: is_packet_Cons)
    with True Cons.prems show ?thesis
      by (intro exI [of _ "parseWord (ax_data w) (de_header k)"] exI [of _ w])
         (simp add: detect_eth_protocol_def s_write_def Let_def)
  next
    case False
    then have ws: "is_packet ws" using Cons.prems(1) by (simp add: is_packet_Cons)
    let ?k = "k\<lparr>de_dataIn := ws @ rest, de_header := parseWord (ax_data w) (de_header k), de_prevWord := w,
      de_dataOut := de_dataOut k @ [de_prevWord k]\<rparr>"
    have st: "detect_eth_protocol k = ?k"
      using False Cons.prems by (simp add: detect_eth_protocol_def s_write_def Let_def)
    have k: "de_state ?k = DE_MIDDLE" "de_metaWritten ?k" "de_dataIn ?k = ws @ rest" using Cons.prems by simp_all
    obtain h p where "(detect_eth_protocol ^^ Suc (length ws)) ?k = ?k\<lparr>de_dataIn := rest, de_header := clearHeader h, de_prevWord := p,
        de_dataOut := de_dataOut ?k @ w # ws, de_metaWritten := False, de_state := DE_FIRST\<rparr>"
      using Cons.IH [OF ws k] by auto
    then have "(detect_eth_protocol ^^ Suc (length (w # ws))) k = k\<lparr>de_dataIn := rest, de_header := clearHeader h, de_prevWord := p,
        de_dataOut := de_dataOut k @ de_prevWord k # w # ws, de_metaWritten := False, de_state := DE_FIRST\<rparr>"
      by (simp add: funpow_Suc_apply [of "Suc (length ws)"] st del: funpow.simps(2))
    then show ?thesis by blast
  qed
qed

lemma detect_packet:
  assumes "detectReady k" and "de_dataIn k = ws @ rest" and "carries ws bs" and "14 \<le> length bs"
  shows "\<exists>n. detectReady ((detect_eth_protocol ^^ n) k) \<and> de_dataIn ((detect_eth_protocol ^^ n) k) = rest \<and>
    de_etherType ((detect_eth_protocol ^^ n) k) = de_etherType k @ [etherType bs] \<and>
    de_dataOut ((detect_eth_protocol ^^ n) k) = de_dataOut k @ (if etherType bs = ETH_ARP then ws else tl ws)"
proof -
  have r: "de_state k = DE_FIRST" "ph_idx (de_header k) = 0" "\<not> ph_ready (de_header k)" "\<not> de_metaWritten k"
    using assms(1) by (simp_all add: detectReady_def)
  obtain v ws1 where ws1: "ws = v # ws1" using carries_nonempty [OF assms(3)] by (cases ws) auto
  have "ws1 \<noteq> []" using assms(3,4) by (auto simp: ws1 carries_single lastWord_def)
  then obtain w us where ws: "ws = v # w # us" using ws1 by (cases ws1) auto
  have c2: "carries (w # us) (drop 8 bs)" and v: "\<not> ax_last v" using assms(3) by (simp_all add: ws carries_Cons)
  have p0: "parsed (de_header k) 0 bs" using r by (simp add: parsed_def)
  have p1: "parsed (parseWord (ax_data v) (de_header k)) (Suc 0) bs"
    by (rule parsed_word [OF p0]) (use carries_byteAt [OF assms(3) [unfolded ws]] assms(4) in simp_all)
  have p2: "parsed (parseWord (ax_data w) (parseWord (ax_data v) (de_header k))) (Suc (Suc 0)) bs"
    by (rule parsed_word [OF p1]) (use carries_byteAt [OF c2] assms(4) in \<open>simp_all\<close>)
  define h where "h = parseWord (ax_data w) (parseWord (ax_data v) (de_header k))"
  have t: "getEthertype (ph_header h) = etherType bs"
    using parsed_byte [OF p2, of 12] parsed_byte [OF p2, of 13]
    by (simp add: getEthertype_def h_def rng16_bytes [where i = 12] etherType_def)
  define k1 where "k1 = k\<lparr>de_dataIn := w # us @ rest, de_header := parseWord (ax_data v) (de_header k), de_prevWord := v, de_state := DE_MIDDLE\<rparr>"
  have s1: "detect_eth_protocol k = k1" using r v assms(2) by (simp add: detect_eth_protocol_def ws k1_def)
  define o1 where "o1 = (if etherType bs = ETH_ARP then [v] else [])"
  define k2 where "k2 = k\<lparr>de_dataIn := us @ rest, de_header := h, de_prevWord := w, de_metaWritten := True,
      de_etherType := de_etherType k @ [etherType bs], de_dataOut := de_dataOut k @ o1, de_state := (if ax_last w then DE_LAST else DE_MIDDLE)\<rparr>"
  have s2: "detect_eth_protocol k1 = k2"
    using r t by (simp add: detect_eth_protocol_def k1_def k2_def o1_def s_write_def Let_def h_def)
  have o: "o1 @ w # us = (if etherType bs = ETH_ARP then ws else tl ws)" by (simp add: o1_def ws)
  show ?thesis
  proof (cases "us = []")
    case True
    then have "ax_last w" using c2 by (simp add: carries_single lastWord_def)
    have "(detect_eth_protocol ^^ 3) k = detect_eth_protocol k2" by (simp add: numeral_3_eq_3 s1 s2)
    then show ?thesis
      using True \<open>ax_last w\<close> o by (intro exI [of _ 3])
        (simp add: detect_eth_protocol_def k2_def detectReady_def clearHeader_def s_write_def)
  next
    case False
    then have w: "\<not> ax_last w" "is_packet us" using c2 carries_packet by (auto simp: carries_Cons)
    have k2: "de_state k2 = DE_MIDDLE" "de_metaWritten k2" "de_dataIn k2 = us @ rest" using w by (simp_all add: k2_def)
    obtain h' p where "(detect_eth_protocol ^^ Suc (length us)) k2 = k2\<lparr>de_dataIn := rest, de_header := clearHeader h', de_prevWord := p,
        de_dataOut := de_dataOut k2 @ de_prevWord k2 # us, de_metaWritten := False, de_state := DE_FIRST\<rparr>"
      using detect_rest [OF w(2) k2] by blast
    then have "(detect_eth_protocol ^^ Suc (Suc (Suc (length us)))) k = k2\<lparr>de_dataIn := rest, de_header := clearHeader h', de_prevWord := p,
        de_dataOut := de_dataOut k2 @ de_prevWord k2 # us, de_metaWritten := False, de_state := DE_FIRST\<rparr>"
      by (simp add: funpow_Suc_apply [of "Suc (Suc (length us))"] funpow_Suc_apply [of "Suc (length us)"] s1 s2 del: funpow.simps(2))
    then show ?thesis
      using o by (intro exI [of _ "Suc (Suc (Suc (length us)))"]) (simp add: k2_def detectReady_def clearHeader_def del: funpow.simps(2))
  qed
qed

text \<open>Routing.\<close>

definition routedTo :: "16 word \<Rightarrow> axiWord list \<Rightarrow> ethRoute \<Rightarrow> ethRoute" where
  "routedTo t ws k = k\<lparr>er_arpOut := er_arpOut k @ (if t = ETH_ARP then ws else []), er_ipOut := er_ipOut k @ (if t = ETH_IPv4 then ws else [])\<rparr>"

lemma routedTo_word: "routeWord w k = routedTo (er_etherType k) [w] k"
  by (simp add: routeWord_def routedTo_def s_write_def ETH_ARP_def ETH_IPv4_def)

lemma route_rest: "is_packet ws \<Longrightarrow> er_fsmState k \<Longrightarrow> er_dataIn k = ws @ rest \<Longrightarrow>
    (route_by_eth_protocol ^^ length ws) k = (routedTo (er_etherType k) ws k)\<lparr>er_dataIn := rest, er_fsmState := False\<rparr>"
proof (induction ws arbitrary: k)
  case Nil
  then show ?case by simp
next
  case (Cons w ws)
  have st: "route_by_eth_protocol k = (routedTo (er_etherType k) [w] k)\<lparr>er_dataIn := ws @ rest, er_fsmState := \<not> ax_last w\<rparr>"
    using Cons.prems(2,3) by (simp add: route_by_eth_protocol_def routedTo_word routedTo_def)
  show ?case
  proof (cases "ax_last w")
    case True
    then have "ws = []" using Cons.prems(1) by (simp add: is_packet_Cons)
    with True st show ?thesis by (simp add: routedTo_def)
  next
    case False
    then have ws: "is_packet ws" using Cons.prems(1) by (simp add: is_packet_Cons)
    have k: "er_fsmState (route_by_eth_protocol k)" "er_dataIn (route_by_eth_protocol k) = ws @ rest" using False by (simp_all add: st routedTo_def)
    show ?thesis
      using Cons.IH [OF ws k] False by (simp add: funpow_Suc_apply st routedTo_def del: funpow.simps(2))
  qed
qed

lemma route_packet:
  assumes "\<not> er_fsmState k" and "er_typeIn k = t # ts" and "er_dataIn k = ws @ rest" and "is_packet ws"
  shows "(route_by_eth_protocol ^^ length ws) k = (routedTo t ws k)\<lparr>er_etherType := t, er_typeIn := ts, er_dataIn := rest, er_fsmState := False\<rparr>"
proof -
  obtain w us where ws: "ws = w # us" using is_packet_nonempty [OF assms(4)] by (cases ws) auto
  have st: "route_by_eth_protocol k = (routedTo t [w] k)\<lparr>er_etherType := t, er_typeIn := ts, er_dataIn := us @ rest, er_fsmState := \<not> ax_last w\<rparr>"
    using assms(1-3) by (simp add: route_by_eth_protocol_def ws routedTo_word routedTo_def)
  show ?thesis
  proof (cases "ax_last w")
    case True
    then have "us = []" using assms(4) by (simp add: ws is_packet_Cons)
    with True st show ?thesis by (simp add: ws routedTo_def)
  next
    case False
    then have us: "is_packet us" using assms(4) by (simp add: ws is_packet_Cons)
    have k: "er_fsmState (route_by_eth_protocol k)" "er_dataIn (route_by_eth_protocol k) = us @ rest" using False by (simp_all add: st routedTo_def)
    show ?thesis using route_rest [OF us k] False by (simp add: ws funpow_Suc_apply st routedTo_def del: funpow.simps(2))
  qed
qed

text \<open>The sum of the header.\<close>

definition columnAt :: "axiWord \<Rightarrow> nat \<Rightarrow> nat" where
  "columnAt w i = unat (be16 (byteAt (ax_data w) (2 * i)) (byteAt (ax_data w) (2 * i + 1)))"

lemma headerColumn_one:
  assumes "unat s \<le> 65535" and "i < 4"
  shows "unat (headerColumn w i s) = oneSum (unat s + columnAt w i)"
proof -
  have data: "rng (16 * i + 7) (16 * i) (ax_data w) = byteAt (ax_data w) (2 * i)"
    "rng (16 * i + 15) (16 * i + 8) (ax_data w) = byteAt (ax_data w) (2 * i + 1)"
    by (simp_all add: byteAt_def algebra_simps)
  show ?thesis unfolding headerColumn_def data columnAt_def using assms(1) unat_be16 by (simp add: addSum_one)
qed

lemma columnAt_sums:
  assumes "carries (w # ws) bs"
  shows "8 \<le> length bs \<Longrightarrow> columnAt w 0 + columnAt w 1 + columnAt w 2 + columnAt w 3 = packetSum (take 8 bs)"
    and "4 \<le> length bs \<Longrightarrow> columnAt w 0 + columnAt w 1 = packetSum (take 4 bs)"
proof -
  note b = carries_byteAt [OF assms]
  have u: "[0..<8] = [0, 1, 2, 3, 4, 5, 6, 7 :: nat]" "[0..<4] = [0, 1, 2, 3 :: nat]" by (code_simp, code_simp)
  show "columnAt w 0 + columnAt w 1 + columnAt w 2 + columnAt w 3 = packetSum (take 8 bs)" if l: "8 \<le> length bs"
  proof -
    have "take 8 bs = map (\<lambda>i. byteAt (ax_data w) i) [0..<8]"
      using b l by (intro nth_equalityI) simp_all
    then show ?thesis unfolding u by (simp add: packetSum_def columnAt_def)
  qed
  show "columnAt w 0 + columnAt w 1 = packetSum (take 4 bs)" if l: "4 \<le> length bs"
  proof -
    have "take 4 bs = map (\<lambda>i. byteAt (ax_data w) i) [0..<4]"
      using b l by (intro nth_equalityI) simp_all
    then show ?thesis unfolding u by (simp add: packetSum_def columnAt_def)
  qed
qed

definition checkReady :: "headerCheck \<Rightarrow> bool" where
  "checkReady k \<longleftrightarrow> ck_wordCount k = 0 \<and> \<not> ck_csumSent k \<and> \<not> ck_csumSend k \<and> (\<forall>i<4. ck_sums k i = 0)"

text \<open>Behind the header words are handed on.\<close>

lemma check_tail: "is_packet ws \<Longrightarrow> ck_wordCount k = 3 \<Longrightarrow> ck_headerLen k = 0 \<Longrightarrow> ck_csumSent k \<Longrightarrow> ck_dataIn k = ws @ rest \<Longrightarrow>
    checkReady ((check_ip_checksum myIp ^^ length ws) k) \<and> ck_dataIn ((check_ip_checksum myIp ^^ length ws) k) = rest \<and>
    ck_dataOut ((check_ip_checksum myIp ^^ length ws) k) = ck_dataOut k @ ws \<and> ck_sumsOut ((check_ip_checksum myIp ^^ length ws) k) = ck_sumsOut k"
proof (induction ws arbitrary: k)
  case Nil
  then show ?case by simp
next
  case (Cons w ws)
  have le3: "\<not> (3 :: 3 word) \<le> 1" by code_simp
  let ?k = "k\<lparr>ck_dataIn := ws @ rest, ck_dataOut := ck_dataOut k @ [w]\<rparr>"
  have st: "check_ip_checksum myIp k = (if ax_last w then ?k\<lparr>ck_csumSend := False, ck_csumSent := False, ck_wordCount := 0,
      ck_sums := (\<lambda>i. if i < 4 then 0 else ck_sums k i)\<rparr> else ?k)"
    using Cons.prems(2-5) by (simp add: check_ip_checksum_def headerWord_def le3 s_write_def Let_def cong: if_cong)
  show ?case
  proof (cases "ax_last w")
    case True
    then have "ws = []" using Cons.prems(1) by (simp add: is_packet_Cons)
    with True st show ?thesis by (simp add: checkReady_def)
  next
    case False
    then have ws: "is_packet ws" using Cons.prems(1) by (simp add: is_packet_Cons)
    from Cons.IH [OF ws, of ?k] Cons.prems(2-5) False st show ?thesis by (simp add: funpow_Suc_apply del: funpow.simps(2))
  qed
qed

text \<open>What the stage issues for a header.\<close>

definition headerResult :: "32 word \<Rightarrow> headerCheck \<Rightarrow> nat \<Rightarrow> headerSums \<Rightarrow> bool" where
  "headerResult myIp k t r \<longleftrightarrow> hs_ipMatch r = isMatch myIp (ck_dstIpAddress k) \<and> hs_hdrValid r = hdr_valid (ck_ipVersion k) \<and>
     (\<exists>m. columnsOf (hs_sums r) m \<and> m 0 + m 1 + m 2 + m 3 = t)"

lemma keep_full:
  assumes "carries (w # ws) bs" and "8 \<le> length bs" and "i < 4"
  shows "(rng (2 * i + 1) (2 * i) (ax_keep w) :: 2 word) = 3"
proof -
  have "bit (ax_keep w) (2 * i)" "bit (ax_keep w) (2 * i + 1)" using keep_flag(1) [OF assms(1)] assms(2,3) by simp_all
  then show ?thesis by (intro bit_word_eqI) (auto simp: bit_simps less_Suc_eq numeral_2_eq_2 bit_numeral_rec)
qed

lemma check_header:
  assumes "0 < h" and "h < 16" and "4 * h \<le> length bs" and "carries ws bs" and "ck_wordCount k = 3" and "ck_headerLen k = of_nat h"
    and "\<not> ck_csumSent k" and "\<not> ck_csumSend k" and "columnsOf (ck_sums k) n" and "ck_dataIn k = ws @ rest"
  shows "\<exists>k' r. (check_ip_checksum myIp ^^ length ws) k = k' \<and> checkReady k' \<and> ck_dataIn k' = rest \<and> ck_dataOut k' = ck_dataOut k @ ws \<and>
    ck_sumsOut k' = ck_sumsOut k @ [r] \<and> headerResult myIp k (n 0 + n 1 + n 2 + n 3 + packetSum (take (4 * h) bs)) r"
  using assms
proof (induction ws arbitrary: h bs k n)
  case Nil
  then show ?case by simp
next
  case (Cons w ws)
  have le3: "\<not> (3 :: 3 word) \<le> 1" by code_simp
  have h8: "unat (of_nat h :: 8 word) = h" using Cons.prems(2) by (simp add: unat_of_nat_small)
  have hn: "(of_nat h :: 8 word) = 1 \<longleftrightarrow> h = 1" "(of_nat h :: 8 word) = 2 \<longleftrightarrow> h = 2" "(of_nat h :: 8 word) \<noteq> 0"
    using Cons.prems(1) h8 by (auto simp: word_eq_iff_unsigned)
  have c: "i < 4 \<Longrightarrow> unat (ck_sums k i) = oneSum (n i)" "i < 4 \<Longrightarrow> unat (ck_sums k i) \<le> 65535" for i
    using Cons.prems(9) by (simp_all add: columnsOf_def oneSum_le)
  let ?k = "k\<lparr>ck_dataIn := ws @ rest, ck_dataOut := ck_dataOut k @ [w]\<rparr>"
  show ?case
  proof (cases "h \<le> 2")
    case True
    define s where "s = (\<lambda>i. if i < 2 * h then headerColumn w i (ck_sums k i) else ck_sums k i)"
    define m where "m = (\<lambda>i. n i + (if i < 2 * h then columnAt w i else 0))"
    have s: "columnsOf s m" using c by (simp add: columnsOf_def s_def m_def headerColumn_one)
    have total: "m 0 + m 1 + m 2 + m 3 = n 0 + n 1 + n 2 + n 3 + packetSum (take (4 * h) bs)"
    proof -
      from True Cons.prems(1) have "h = 1 \<or> h = 2" by auto
      then show ?thesis using columnAt_sums [OF Cons.prems(4)] Cons.prems(3) by (auto simp: m_def)
    qed
    define r where "r = \<lparr>hs_sums = s, hs_ipMatch = isMatch myIp (ck_dstIpAddress k), hs_hdrValid = hdr_valid (ck_ipVersion k)\<rparr>"
    let ?k1 = "?k\<lparr>ck_sums := s, ck_headerLen := 0, ck_subSums := r, ck_csumSend := True, ck_sumsOut := ck_sumsOut k @ [r], ck_csumSent := True\<rparr>"
    have hw: "headerWord myIp w ?k = ?k\<lparr>ck_sums := s, ck_headerLen := 0, ck_subSums := r, ck_csumSend := True\<rparr>"
    proof -
      from True Cons.prems(1) have "h = 1 \<or> h = 2" by auto
      then show ?thesis
      proof
        assume h: "h = 1"
        then show ?thesis using Cons.prems(5,6) by (simp add: headerWord_def headerSend_def s_def r_def le3 Let_def cong: if_cong)
      next
        assume h: "h = 2"
        have "(\<lambda>i. if i < 4 \<and> (rng (2 * i + 1) (2 * i) (ax_keep w) :: 2 word) = 3 then headerColumn w i (ck_sums k i) else ck_sums k i) = s"
          using keep_full [OF Cons.prems(4)] Cons.prems(3) h by (auto simp: s_def)
        with h show ?thesis using Cons.prems(5,6) by (simp add: headerWord_def headerSend_def r_def le3 Let_def cong: if_cong)
      qed
    qed
    have res: "headerResult myIp k (n 0 + n 1 + n 2 + n 3 + packetSum (take (4 * h) bs)) r"
      using s total by (auto simp: headerResult_def r_def)
    have st: "check_ip_checksum myIp k = (if ax_last w then ?k1\<lparr>ck_csumSend := False, ck_csumSent := False, ck_wordCount := 0,
        ck_sums := (\<lambda>i. if i < 4 then 0 else s i)\<rparr> else ?k1)"
      using Cons.prems(7,8,10) hw by (simp add: check_ip_checksum_def s_write_def Let_def cong: if_cong)
    show ?thesis
    proof (cases "ws = []")
      case True
      then have "ax_last w" using Cons.prems(4) by (simp add: carries_single lastWord_def)
      with True st res show ?thesis by (simp add: checkReady_def)
    next
      case False
      then have w: "\<not> ax_last w" "is_packet ws" using Cons.prems(4) carries_packet by (auto simp: carries_Cons)
      from check_tail [OF w(2), of ?k1 rest myIp] Cons.prems(5) w(1) st res show ?thesis
        by (auto simp: funpow_Suc_apply simp del: funpow.simps(2))
    qed
  next
    case False
    have ne: "ws \<noteq> []" using False Cons.prems(3,4) by (auto simp: carries_single lastWord_def)
    then have w: "\<not> ax_last w" "carries ws (drop 8 bs)" using Cons.prems(4) by (simp_all add: carries_Cons)
    define s where "s = (\<lambda>i. if i < 4 then headerColumn w i (ck_sums k i) else ck_sums k i)"
    define m where "m = (\<lambda>i. n i + columnAt w i)"
    have s: "columnsOf s m" using c by (simp add: columnsOf_def s_def m_def headerColumn_one)
    have sk: "(\<lambda>i. if i < 4 \<and> (rng (2 * i + 1) (2 * i) (ax_keep w) :: 2 word) = 3 then headerColumn w i (ck_sums k i) else ck_sums k i) = s"
      using keep_full [OF Cons.prems(4)] Cons.prems(3) False by (auto simp: s_def)
    have l: "(of_nat h :: 8 word) - 2 = of_nat (h - 2)" using False by (simp add: of_nat_diff)
    let ?k1 = "?k\<lparr>ck_sums := s, ck_headerLen := of_nat (h - 2)\<rparr>"
    have h12: "h \<noteq> 1" "h \<noteq> 2" using False by auto
    have st: "check_ip_checksum myIp k = ?k1"
      using Cons.prems(5-8,10) w(1) hn h12 sk l by (simp add: check_ip_checksum_def headerWord_def le3 s_write_def Let_def cong: if_cong)
    have "packetSum (take (4 * h) bs) = packetSum (take 8 bs) + packetSum (take (4 * (h - 2)) (drop 8 bs))"
    proof -
      have "4 * h = 8 + 4 * (h - 2)" using False by simp
      then have "take (4 * h) bs = take 8 bs @ take (4 * (h - 2)) (drop 8 bs)" by (simp only: take_add)
      with Cons.prems(3) False show ?thesis by (simp add: packetSum_append8)
    qed
    then have total: "m 0 + m 1 + m 2 + m 3 + packetSum (take (4 * (h - 2)) (drop 8 bs)) =
        n 0 + n 1 + n 2 + n 3 + packetSum (take (4 * h) bs)"
      using columnAt_sums(1) [OF Cons.prems(4)] Cons.prems(3) False by (simp add: m_def)
    have k1: "0 < h - 2" "h - 2 < 16" "4 * (h - 2) \<le> length (drop 8 bs)" "ck_wordCount ?k1 = 3" "ck_headerLen ?k1 = of_nat (h - 2)"
      "\<not> ck_csumSent ?k1" "\<not> ck_csumSend ?k1" "columnsOf (ck_sums ?k1) m" "ck_dataIn ?k1 = ws @ rest"
      using False Cons.prems s by simp_all
    from Cons.IH [OF k1(1-3) w(2) k1(4-9), unfolded total] show ?thesis
      by (simp add: funpow_Suc_apply st headerResult_def del: funpow.simps(2))
  qed
qed

text \<open>The fields the stage reads.\<close>

definition ipVersion :: "8 word list \<Rightarrow> 4 word" where
  "ipVersion bs = rng 7 4 (bs ! 0)"

text \<open>The destination as the bytes stand in the packet, first byte lowest.\<close>

definition dstAddress :: "8 word list \<Rightarrow> 32 word" where
  "dstAddress bs = reverse32 (be32 (bs ! 16) (bs ! 17) (bs ! 18) (bs ! 19))"

lemma rng32_data: "(rng 31 0 (d :: 64 word) :: 32 word) = reverse32 (be32 (byteAt d 0) (byteAt d 1) (byteAt d 2) (byteAt d 3))"
  by (rule word32_eqI) (simp_all add: reverse32_rng be_rng byteAt_def rng_simps)

lemma ihl_word: "(ucast (rng 3 0 (d :: 64 word) :: 4 word) :: 8 word) = of_nat (unat (byteAt d 0 AND 15))"
proof -
  have "(rng 3 0 d :: 4 word) = rng 3 0 (byteAt d 0)" by (simp add: byteAt_def rng_simps)
  also have "\<dots> = of_nat (unat (byteAt d 0 AND 15))" by (rule low_nibble)
  finally have r: "(rng 3 0 d :: 4 word) = of_nat (unat (byteAt d 0 AND 15))" .
  have "unat (byteAt d 0 AND 15) < 16"
    using take_bit_nat_less_exp [of 4 "unat (byteAt d 0)"] by (simp add: nibble unsigned_take_bit_eq)
  then have "unat (of_nat (unat (byteAt d 0 AND 15)) :: 4 word) = unat (byteAt d 0 AND 15)" by (intro unat_of_nat_small) simp
  then show ?thesis unfolding r of_nat_unat_ucast [symmetric] by simp
qed

definition headerFits :: "8 word list \<Rightarrow> bool" where
  "headerFits bs \<longleftrightarrow> 5 \<le> ipHeaderLength bs \<and> 4 * ipHeaderLength bs \<le> length bs"

definition headerBytes :: "8 word list \<Rightarrow> 8 word list" where
  "headerBytes bs = take (4 * ipHeaderLength bs) bs"

lemma header_third:
  assumes "ck_wordCount k = 2"
  shows "headerWord myIp w k = headerWord myIp w (k\<lparr>ck_wordCount := 3, ck_dstIpAddress := rng 31 0 (ax_data w)\<rparr>)"
proof -
  have n: "\<not> (2 :: 3 word) \<le> 1" "\<not> (3 :: 3 word) \<le> 1" "(3 :: 3 word) \<noteq> 2" by (code_simp, code_simp, code_simp)
  show ?thesis using assms n by (simp add: headerWord_def)
qed

lemma check_packet:
  assumes "checkReady k" and "ck_dataIn k = ws @ rest" and "carries ws bs" and "headerFits bs"
  shows "\<exists>k' r. (check_ip_checksum myIp ^^ length ws) k = k' \<and> checkReady k' \<and> ck_dataIn k' = rest \<and> ck_dataOut k' = ck_dataOut k @ ws \<and>
    ck_sumsOut k' = ck_sumsOut k @ [r] \<and> hs_ipMatch r = isMatch myIp (dstAddress bs) \<and> hs_hdrValid r = hdr_valid (ipVersion bs) \<and>
    (\<exists>m. columnsOf (hs_sums r) m \<and> m 0 + m 1 + m 2 + m 3 = packetSum (headerBytes bs))"
proof -
  let ?h = "ipHeaderLength bs"
  have h: "5 \<le> ?h" "4 * ?h \<le> length bs" "?h < 16" using assms(4) ipHeaderLength_less by (simp_all add: headerFits_def)
  then have l: "20 \<le> length bs" by simp
  obtain a b c vs where ws: "ws = a # b # c # vs"
    using assms(3) l by (cases ws; cases "tl ws"; cases "tl (tl ws)") (auto simp: carries_Cons carries_single lastWord_def)
  have ca: "carries (b # c # vs) (drop 8 bs)" "carries (c # vs) (drop 16 bs)" "\<not> ax_last a" "\<not> ax_last b"
    using assms(3) by (simp_all add: ws carries_Cons)
  note by1 = carries_byteAt [OF assms(3) [unfolded ws]] and by3 = carries_byteAt [OF ca(2)]
  have b0: "byteAt (ax_data a) 0 = bs ! 0" by (rule by1) (use l in linarith)+
  have r: "ck_wordCount k = 0" "\<not> ck_csumSent k" "\<not> ck_csumSend k" "\<And>i. i < 4 \<Longrightarrow> ck_sums k i = 0"
    using assms(1) by (simp_all add: checkReady_def)
  have hl: "ucast (rng 3 0 (ax_data a) :: 4 word) = (of_nat ?h :: 8 word)"
    using b0 unfolding ihl_word ipHeaderLength_def by simp
  have v: "rng 7 4 (ax_data a) = ipVersion bs" using b0 [symmetric] by (simp add: ipVersion_def byteAt_def rng_simps)
  define s1 where "s1 = (\<lambda>i. if i < 4 then headerColumn a i (ck_sums k i) else ck_sums k i)"
  define s2 where "s2 = (\<lambda>i. if i < 4 then headerColumn b i (s1 i) else s1 i)"
  define n where "n = (\<lambda>i. columnAt a i + columnAt b i)"
  have c1: "unat (s1 i) = oneSum (columnAt a i)" if "i < 4" for i using r(4) [OF that] that by (simp add: s1_def headerColumn_one)
  have s2: "columnsOf s2 n" using c1 by (simp add: columnsOf_def s2_def n_def headerColumn_one oneSum_le)
  define k1 where "k1 = k\<lparr>ck_dataIn := b # c # vs @ rest, ck_dataOut := ck_dataOut k @ [a], ck_headerLen := of_nat ?h - 2,
      ck_ipVersion := ipVersion bs, ck_sums := s1, ck_wordCount := 1\<rparr>"
  have st1: "check_ip_checksum myIp k = k1"
    using r assms(2) ca(3) hl v by (simp add: check_ip_checksum_def headerWord_def s_write_def Let_def ws k1_def s1_def cong: if_cong)
  define k2 where "k2 = k1\<lparr>ck_dataIn := c # vs @ rest, ck_dataOut := ck_dataOut k @ [a, b], ck_headerLen := of_nat (?h - 4),
      ck_sums := s2, ck_wordCount := 2\<rparr>"
  have hm: "(of_nat ?h :: 8 word) - 2 - 2 = of_nat (?h - 4)" using h(1) by (simp add: of_nat_diff)
  have st2: "check_ip_checksum myIp k1 = k2"
    using r ca(4) hm by (simp add: check_ip_checksum_def headerWord_def s_write_def Let_def k1_def k2_def s2_def cong: if_cong)
  define k3 where "k3 = k2\<lparr>ck_wordCount := 3, ck_dstIpAddress := dstAddress bs\<rparr>"
  have d: "rng 31 0 (ax_data c) = dstAddress bs"
    using by3 [of 0] by3 [of 1] by3 [of 2] by3 [of 3] l unfolding rng32_data by (simp add: dstAddress_def)
  have st3: "check_ip_checksum myIp k2 = check_ip_checksum myIp k3"
  proof -
    let ?u = "\<lambda>x. x\<lparr>ck_dataIn := vs @ rest, ck_dataOut := ck_dataOut k @ [a, b, c]\<rparr>"
    have "headerWord myIp c (?u k2) = headerWord myIp c (?u k3)"
    proof -
      have "?u k3 = (?u k2)\<lparr>ck_wordCount := 3, ck_dstIpAddress := rng 31 0 (ax_data c)\<rparr>" unfolding d k3_def by simp
      moreover have "ck_wordCount (?u k2) = 2" by (simp add: k2_def)
      ultimately show ?thesis using header_third [of "?u k2" myIp c] by simp
    qed
    moreover have "ck_dataIn k2 = c # vs @ rest" "ck_dataIn k3 = c # vs @ rest" "ck_dataOut k2 = ck_dataOut k @ [a, b]"
      "ck_dataOut k3 = ck_dataOut k @ [a, b]" by (simp_all add: k3_def k2_def)
    ultimately show ?thesis by (simp add: check_ip_checksum_def s_write_def)
  qed
  have k3: "0 < ?h - 4" "?h - 4 < 16" "4 * (?h - 4) \<le> length (drop 16 bs)" "ck_wordCount k3 = 3" "ck_headerLen k3 = of_nat (?h - 4)"
    "\<not> ck_csumSent k3" "\<not> ck_csumSend k3" "columnsOf (ck_sums k3) n" "ck_dataIn k3 = (c # vs) @ rest"
    using h r s2 by (simp_all add: k3_def k2_def k1_def)
  obtain k' x where x: "(check_ip_checksum myIp ^^ length (c # vs)) k3 = k'" "checkReady k'" "ck_dataIn k' = rest"
    "ck_dataOut k' = ck_dataOut k3 @ c # vs" "ck_sumsOut k' = ck_sumsOut k3 @ [x]"
    "headerResult myIp k3 (n 0 + n 1 + n 2 + n 3 + packetSum (take (4 * (?h - 4)) (drop 16 bs))) x"
    using check_header [OF k3(1-3) ca(2) k3(4-9), of myIp] by blast
  have run: "(check_ip_checksum myIp ^^ length ws) k = k'"
    using x(1) by (simp add: ws funpow_Suc_apply st1 st2 st3 del: funpow.simps(2))
  have total: "n 0 + n 1 + n 2 + n 3 + packetSum (take (4 * (?h - 4)) (drop 16 bs)) = packetSum (headerBytes bs)"
  proof -
    have t: "headerBytes bs = take 8 bs @ take 8 (drop 8 bs) @ take (4 * (?h - 4)) (drop 16 bs)"
    proof -
      have "4 * ?h = 8 + (8 + 4 * (?h - 4))" using h by simp
      then have "headerBytes bs = take 8 bs @ take 8 (drop 8 bs) @ take (4 * (?h - 4)) (drop 8 (drop 8 bs))"
        unfolding headerBytes_def by (simp only: take_add)
      then show ?thesis by simp
    qed
    have "packetSum (headerBytes bs) = packetSum (take 8 bs) + (packetSum (take 8 (drop 8 bs)) + packetSum (take (4 * (?h - 4)) (drop 16 bs)))"
      unfolding t using l by (simp add: packetSum_append8)
    moreover have "columnAt a 0 + columnAt a 1 + columnAt a 2 + columnAt a 3 = packetSum (take 8 bs)"
      using columnAt_sums(1) [OF assms(3) [unfolded ws]] l by linarith
    moreover have "8 \<le> length (drop 8 bs)" using l by simp
    ultimately show ?thesis using columnAt_sums(1) [OF ca(1)] unfolding n_def by linarith
  qed
  show ?thesis
    using run x(2-6) unfolding total by (intro exI [of _ k'] exI [of _ x]) (simp add: headerResult_def k3_def k2_def k1_def ws)
qed

text \<open>A header is good when its sum is.\<close>

definition goodHeader :: "8 word list \<Rightarrow> bool" where
  "goodHeader bs \<longleftrightarrow> ipVersion bs = 4 \<and> oneSum (packetSum (headerBytes bs)) = 65535"

lemma verify_sums:
  assumes "columnsOf (hs_sums r) m" and "m 0 + m 1 + m 2 + m 3 = packetSum (headerBytes bs)" and "hs_hdrValid r = hdr_valid (ipVersion bs)"
  shows "iph_check_ip_checksum ([r], vs) = ([], vs @ [\<lparr>pv_ipMatch = hs_ipMatch r, pv_hdrValid = goodHeader bs\<rparr>])"
proof -
  have t: "unat (totalSum (hs_sums r)) = oneSum (packetSum (headerBytes bs))"
    using totalSum_one [of "hs_sums r" m] assms(1,2) by (simp add: columnsOf_def)
  have "unat (rng 15 0 (NOT (totalSum (hs_sums r))) :: 16 word) = 65535 - oneSum (packetSum (headerBytes bs))"
    using complement_low [of "totalSum (hs_sums r)"] oneSum_le [of "packetSum (headerBytes bs)"] by (simp add: t)
  then have "(rng 15 0 (NOT (totalSum (hs_sums r))) :: 16 word) = 0 \<longleftrightarrow> oneSum (packetSum (headerBytes bs)) = 65535"
    unfolding unsigned_eq_0_iff [where 'a = nat, symmetric] using oneSum_le [of "packetSum (headerBytes bs)"] by auto
  then show ?thesis using assms(3) by (simp add: iph_check_ip_checksum_def s_write_def goodHeader_def hdr_valid_def)
qed

text \<open>Dropping.\<close>

lemma dropper_rest: "is_packet ws \<Longrightarrow> id_state k \<noteq> ID_GET_VALID \<Longrightarrow> id_dataIn k = ws @ rest \<Longrightarrow>
    (ip_invalid_dropper ^^ length ws) k = k\<lparr>id_dataIn := rest,
      id_dataOut := id_dataOut k @ (if id_state k = ID_FWD then ws else []), id_state := ID_GET_VALID\<rparr>"
proof (induction ws arbitrary: k)
  case Nil
  then show ?case by simp
next
  case (Cons w ws)
  have st: "ip_invalid_dropper k = k\<lparr>id_dataIn := ws @ rest, id_dataOut := id_dataOut k @ (if id_state k = ID_FWD then [w] else []),
      id_state := (if ax_last w then ID_GET_VALID else id_state k)\<rparr>"
    using Cons.prems(2,3) by (cases "id_state k") (simp_all add: ip_invalid_dropper_def s_write_def)
  show ?case
  proof (cases "ax_last w")
    case True
    then have "ws = []" using Cons.prems(1) by (simp add: is_packet_Cons)
    with True st show ?thesis by simp
  next
    case False
    then have ws: "is_packet ws" using Cons.prems(1) by (simp add: is_packet_Cons)
    from Cons.IH [OF ws, of "ip_invalid_dropper k"] Cons.prems(2) False st show ?thesis by (simp add: funpow_Suc_apply del: funpow.simps(2))
  qed
qed

definition counted :: "packetValid \<Rightarrow> ipDropper \<Rightarrow> ipDropper" where
  "counted v k = k\<lparr>id_inReceives := id_inReceives k + 1,
     id_inHdrErrors := (if pv_hdrValid v then id_inHdrErrors k else id_inHdrErrors k + 1),
     id_inAddrErrors := (if pv_hdrValid v \<and> \<not> pv_ipMatch v then id_inAddrErrors k + 1 else id_inAddrErrors k)\<rparr>"

lemma dropper_packet:
  assumes "id_state k = ID_GET_VALID" and "id_validIn k = v # vs" and "id_dataIn k = ws @ rest" and "is_packet ws"
  shows "(ip_invalid_dropper ^^ Suc (length ws)) k = (counted v k)\<lparr>id_validIn := vs, id_dataIn := rest,
    id_dataOut := id_dataOut k @ (if pv_hdrValid v \<and> pv_ipMatch v then ws else [])\<rparr>"
proof -
  have st: "ip_invalid_dropper k = (counted v k)\<lparr>id_validIn := vs, id_state := (if pv_hdrValid v \<and> pv_ipMatch v then ID_FWD else ID_DROP)\<rparr>"
    using assms(1,2) by (simp add: ip_invalid_dropper_def counted_def)
  have k: "id_state (ip_invalid_dropper k) \<noteq> ID_GET_VALID" "id_dataIn (ip_invalid_dropper k) = ws @ rest"
    using assms(3) by (simp_all add: st counted_def)
  show ?thesis
    using dropper_rest [OF assms(4) k] assms(1) by (simp add: funpow_Suc_apply st counted_def del: funpow.simps(2))
qed

text \<open>Cutting off the padding.\<close>

definition totalLength :: "8 word list \<Rightarrow> nat" where
  "totalLength bs = unat (be16 (bs ! 2) (bs ! 3))"

lemma cut_drop: "is_packet ws \<Longrightarrow> cl_drop k \<Longrightarrow> cl_dataIn k = ws @ rest \<Longrightarrow>
    (cut_length ^^ length ws) k = k\<lparr>cl_dataIn := rest, cl_drop := False\<rparr>"
proof (induction ws arbitrary: k)
  case Nil
  then show ?case by simp
next
  case (Cons w ws)
  have st: "cut_length k = k\<lparr>cl_dataIn := ws @ rest, cl_drop := \<not> ax_last w\<rparr>" using Cons.prems(2,3) by (simp add: cut_length_def Let_def)
  show ?case
  proof (cases "ax_last w")
    case True
    then have "ws = []" using Cons.prems(1) by (simp add: is_packet_Cons)
    with True st show ?thesis by simp
  next
    case False
    then have ws: "is_packet ws" using Cons.prems(1) by (simp add: is_packet_Cons)
    from Cons.IH [OF ws, of "cut_length k"] Cons.prems(2) False st show ?thesis by (simp add: funpow_Suc_apply del: funpow.simps(2))
  qed
qed

lemma cut_rest: "carries ws bs \<Longrightarrow> \<not> cl_drop k \<Longrightarrow> cl_dataIn k = ws @ rest \<Longrightarrow> 0 < j \<Longrightarrow> cl_wordCount k = of_nat j \<Longrightarrow>
    unat (cl_totalLength k) = 8 * j + r \<Longrightarrow> 0 < r \<Longrightarrow> r \<le> length bs \<Longrightarrow>
    \<exists>out. (cut_length ^^ length ws) k = k\<lparr>cl_dataIn := rest, cl_dataOut := cl_dataOut k @ out, cl_wordCount := 0, cl_drop := False\<rparr> \<and>
      carries out (take r bs)"
proof (induction ws arbitrary: k bs j r)
  case Nil
  then show ?case by simp
next
  case (Cons w ws)
  have t: "unat (cl_totalLength k) < 65536" using unsigned_less [of "cl_totalLength k", where 'a = nat] by simp
  then have j: "unat (of_nat j :: 16 word) = j" using Cons.prems(6) by (intro unat_of_nat_small) simp
  have nj: "unat (cl_wordCount k) = j" unfolding Cons.prems(5) by (rule j)
  have n0: "cl_wordCount k \<noteq> 0" using Cons.prems(4) nj by auto
  have n1: "cl_wordCount k + 1 = of_nat (Suc j)" using Cons.prems(5) by (simp add: add.commute)
  have fin: "unat (cl_totalLength k) \<le> 8 + j * 8 \<longleftrightarrow> r \<le> 8" unfolding Cons.prems(6) by auto
  show ?case
  proof (cases "r \<le> 8")
    case True
    have left: "unat (ucast (cl_totalLength k) - ucast (cl_wordCount k) * 8 :: 4 word) = r"
    proof -
      have u: "ucast (cl_totalLength k) = (of_nat (8 * j + r) :: 4 word)" "ucast (cl_wordCount k) = (of_nat j :: 4 word)"
        using of_nat_unat_ucast [of "cl_totalLength k", where 'b = 4] of_nat_unat_ucast [of "cl_wordCount k", where 'b = 4]
        unfolding nj Cons.prems(6) by simp_all
      have "(of_nat (8 * j + r) :: 4 word) - of_nat j * 8 = of_nat r" by simp
      moreover have "unat (of_nat r :: 4 word) = r" using True by (intro unat_of_nat_small) simp
      ultimately show ?thesis unfolding u by simp
    qed
    let ?w = "w\<lparr>ax_keep := lenToKeep r, ax_last := True\<rparr>"
    let ?k = "k\<lparr>cl_dataIn := ws @ rest, cl_dataOut := cl_dataOut k @ [?w], cl_wordCount := 0, cl_drop := \<not> ax_last w\<rparr>"
    have st: "cut_length k = ?k"
      unfolding cut_length_def Let_def nj fin left using Cons.prems(2,3) n0 True by (simp add: s_write_def nj fin left)
    have out: "carries [?w] (take r bs)" using carries_cut [OF Cons.prems(1,7) True Cons.prems(8)] by simp
    show ?thesis
    proof (cases "ws = []")
      case True
      then have "ax_last w" using Cons.prems(1) by (simp add: carries_single lastWord_def)
      with True st out show ?thesis by (intro exI [of _ "[?w]"]) simp
    next
      case False
      then have w: "\<not> ax_last w" "is_packet ws" using Cons.prems(1) carries_packet by (auto simp: carries_Cons)
      from cut_drop [OF w(2), of ?k rest] w(1) st out show ?thesis
        by (intro exI [of _ "[?w]"]) (simp add: funpow_Suc_apply del: funpow.simps(2))
    qed
  next
    case False
    have ne: "ws \<noteq> []" using False Cons.prems(1,8) by (auto simp: carries_single lastWord_def)
    then have w: "\<not> ax_last w" "8 < length bs" "lanes w = kept (take 8 bs)" "carries ws (drop 8 bs)"
      using Cons.prems(1) by (simp_all add: carries_Cons)
    let ?k = "k\<lparr>cl_dataIn := ws @ rest, cl_dataOut := cl_dataOut k @ [w], cl_wordCount := of_nat (Suc j)\<rparr>"
    have st: "cut_length k = ?k"
      unfolding cut_length_def Let_def using Cons.prems(2,3) n0 n1 False w(1) fin by (simp add: s_write_def nj del: of_nat_Suc)
    have k: "\<not> cl_drop ?k" "cl_dataIn ?k = ws @ rest" "0 < Suc j" "cl_wordCount ?k = of_nat (Suc j)"
      "unat (cl_totalLength ?k) = 8 * Suc j + (r - 8)" "0 < r - 8" "r - 8 \<le> length (drop 8 bs)"
      using Cons.prems False by simp_all
    obtain out where o: "(cut_length ^^ length ws) ?k = ?k\<lparr>cl_dataIn := rest, cl_dataOut := cl_dataOut ?k @ out, cl_wordCount := 0, cl_drop := False\<rparr>"
      "carries out (take (r - 8) (drop 8 bs))" using Cons.IH [OF w(4) k] by blast
    have "carries (w # out) (take r bs)"
      using w o(2) carries_nonempty [OF o(2)] False Cons.prems(8) by (simp add: carries_Cons take_drop min_def)
    then show ?thesis using o(1) by (intro exI [of _ "w # out"]) (simp add: funpow_Suc_apply st del: funpow.simps(2))
  qed
qed

definition cutReady :: "cutter \<Rightarrow> bool" where
  "cutReady k \<longleftrightarrow> \<not> cl_drop k \<and> cl_wordCount k = 0"

lemma cut_packet:
  assumes "cutReady k" and "cl_dataIn k = ws @ rest" and "carries ws bs" and "8 < totalLength bs" and "totalLength bs \<le> length bs"
  shows "\<exists>k' out. (cut_length ^^ length ws) k = k' \<and> cutReady k' \<and> cl_dataIn k' = rest \<and> cl_dataOut k' = cl_dataOut k @ out \<and>
    carries out (take (totalLength bs) bs)"
proof -
  obtain w us where ws: "ws = w # us" using carries_nonempty [OF assms(3)] by (cases ws) auto
  have ne: "us \<noteq> []" using assms(3-5) by (auto simp: ws carries_single lastWord_def)
  then have w: "\<not> ax_last w" "8 < length bs" "lanes w = kept (take 8 bs)" "carries us (drop 8 bs)"
    using assms(3) by (simp_all add: ws carries_Cons)
  have tl: "upd 15 8 (rng 23 16 (ax_data w) :: 8 word) (upd 7 0 (rng 31 24 (ax_data w) :: 8 word) old) = be16 (bs ! 2) (bs ! 3)" for old :: "16 word"
  proof -
    have "byteAt (ax_data w) 2 = bs ! 2" "byteAt (ax_data w) 3 = bs ! 3" using carries_byteAt [OF assms(3) [unfolded ws]] w(2) by simp_all
    then have "rng 23 16 (ax_data w) = bs ! 2" "rng 31 24 (ax_data w) = bs ! 3" by (simp_all add: byteAt_def)
    then show ?thesis by (intro word16_eqI) (simp_all add: rng_simps be_rng)
  qed
  have r: "\<not> cl_drop k" "cl_wordCount k = 0" using assms(1) by (simp_all add: cutReady_def)
  let ?k = "k\<lparr>cl_dataIn := us @ rest, cl_dataOut := cl_dataOut k @ [w], cl_totalLength := be16 (bs ! 2) (bs ! 3), cl_wordCount := 1\<rparr>"
  have st: "cut_length k = ?k" using r assms(2) w(1) tl by (simp add: cut_length_def s_write_def ws Let_def)
  have k: "\<not> cl_drop ?k" "cl_dataIn ?k = us @ rest" "0 < Suc 0" "cl_wordCount ?k = of_nat (Suc 0)"
    "unat (cl_totalLength ?k) = 8 * Suc 0 + (totalLength bs - 8)" "0 < totalLength bs - 8" "totalLength bs - 8 \<le> length (drop 8 bs)"
    using r assms(4,5) by (simp_all add: totalLength_def)
  obtain out where o: "(cut_length ^^ length us) ?k = ?k\<lparr>cl_dataIn := rest, cl_dataOut := cl_dataOut ?k @ out, cl_wordCount := 0, cl_drop := False\<rparr>"
    "carries out (take (totalLength bs - 8) (drop 8 bs))" using cut_rest [OF w(4) k] by blast
  have "carries (w # out) (take (totalLength bs) bs)"
    using w o(2) carries_nonempty [OF o(2)] assms(4,5) by (simp add: carries_Cons take_drop min_def)
  then show ?thesis
    using o(1) by (intro exI [of _ "?k\<lparr>cl_dataIn := rest, cl_dataOut := cl_dataOut ?k @ out, cl_wordCount := 0, cl_drop := False\<rparr>"] exI [of _ "w # out"])
      (simp add: ws funpow_Suc_apply st cutReady_def del: funpow.simps(2))
qed

text \<open>Delivery.\<close>

definition protoSent :: "ip_handler_cfg \<Rightarrow> 8 word \<Rightarrow> axiWord list \<Rightarrow> protoDetect \<Rightarrow> protoDetect" where
  "protoSent cfg p ws k = k\<lparr>dp2_icmpOut := dp2_icmpOut k @ (if p = PROTO_ICMP then ws else []),
     dp2_igmpOut := dp2_igmpOut k @ (if p = PROTO_IGMP then ws else []),
     dp2_tcpOut := dp2_tcpOut k @ (if p = PROTO_TCP \<and> isHandledProtocol cfg p then ws else [])\<rparr>"

lemma protoSent_more: "protoSent cfg p ws (protoSent cfg p vs k) = protoSent cfg p (vs @ ws) k"
proof -
  have "(if P then xs else []) @ (if P then ys else []) = (if P then xs @ ys else [])" for P and xs ys :: "axiWord list" by simp
  then show ?thesis by (simp add: protoSent_def del: if_split)
qed

lemma protoSent_same [simp]: "dp2_leftover (protoSent cfg p ws k) = dp2_leftover k" "dp2_wordCount (protoSent cfg p ws k) = dp2_wordCount k"
  "dp2_dataIn (protoSent cfg p ws k) = dp2_dataIn k" "dp2_prevWord (protoSent cfg p ws k) = dp2_prevWord k"
  "dp2_ipProtocol (protoSent cfg p ws k) = dp2_ipProtocol k"
  by (simp_all add: protoSent_def)

lemma protoSent_upd [simp]: "protoSent cfg p ws (k\<lparr>dp2_leftover := a\<rparr>) = (protoSent cfg p ws k)\<lparr>dp2_leftover := a\<rparr>"
  "protoSent cfg p ws (k\<lparr>dp2_wordCount := b\<rparr>) = (protoSent cfg p ws k)\<lparr>dp2_wordCount := b\<rparr>"
  "protoSent cfg p ws (k\<lparr>dp2_dataIn := c\<rparr>) = (protoSent cfg p ws k)\<lparr>dp2_dataIn := c\<rparr>"
  "protoSent cfg p ws (k\<lparr>dp2_prevWord := d\<rparr>) = (protoSent cfg p ws k)\<lparr>dp2_prevWord := d\<rparr>"
  "protoSent cfg p ws (k\<lparr>dp2_ipProtocol := e\<rparr>) = (protoSent cfg p ws k)\<lparr>dp2_ipProtocol := e\<rparr>"
  by (simp_all add: protoSent_def)

lemma protoWord_protoSent: "protoWord cfg k = protoSent cfg (dp2_ipProtocol k) [dp2_prevWord k] k"
proof -
  have d: "PROTO_ICMP \<noteq> PROTO_IGMP" "PROTO_ICMP \<noteq> PROTO_TCP" "PROTO_IGMP \<noteq> PROTO_TCP"
    by (simp_all add: PROTO_ICMP_def PROTO_IGMP_def PROTO_TCP_def)
  have e: "k\<lparr>dp2_icmpOut := dp2_icmpOut k\<rparr> = k" "k\<lparr>dp2_igmpOut := dp2_igmpOut k\<rparr> = k" "k\<lparr>dp2_tcpOut := dp2_tcpOut k\<rparr> = k" by simp_all
  show ?thesis
    unfolding protoWord_def Let_def protoSent_def s_write_def
    using d e by (cases "dp2_ipProtocol k = PROTO_ICMP"; cases "dp2_ipProtocol k = PROTO_IGMP"; cases "dp2_ipProtocol k = PROTO_TCP") simp_all
qed

lemma proto_rest: "is_packet ws \<Longrightarrow> \<not> dp2_leftover k \<Longrightarrow> dp2_wordCount k = 2 \<Longrightarrow> dp2_dataIn k = ws @ rest \<Longrightarrow>
    \<exists>q. (detect_ipv4_protocol cfg ^^ Suc (length ws)) k = (protoSent cfg (dp2_ipProtocol k) (dp2_prevWord k # ws) k)
      \<lparr>dp2_dataIn := rest, dp2_wordCount := 0, dp2_prevWord := q\<rparr>"
proof (induction ws arbitrary: k)
  case Nil
  then show ?case by simp
next
  case (Cons w ws)
  let ?d = "protoSent cfg (dp2_ipProtocol k) [dp2_prevWord k] k"
  have st: "detect_ipv4_protocol cfg k = ?d\<lparr>dp2_dataIn := ws @ rest, dp2_prevWord := w,
      dp2_wordCount := (if ax_last w then 0 else 2), dp2_leftover := ax_last w\<rparr>"
    using Cons.prems(2-4) by (simp add: detect_ipv4_protocol_def protoWord_protoSent Let_def)
  show ?case
  proof (cases "ax_last w")
    case True
    then have "ws = []" using Cons.prems(1) by (simp add: is_packet_Cons)
    with True Cons.prems(2) show ?thesis
      by (intro exI [of _ w]) (simp add: st, simp add: detect_ipv4_protocol_def protoWord_protoSent protoSent_more)
  next
    case False
    then have ws: "is_packet ws" using Cons.prems(1) by (simp add: is_packet_Cons)
    have k: "\<not> dp2_leftover (detect_ipv4_protocol cfg k)" "dp2_wordCount (detect_ipv4_protocol cfg k) = 2"
      "dp2_dataIn (detect_ipv4_protocol cfg k) = ws @ rest" using False Cons.prems(2) by (simp_all add: st)
    obtain q where "(detect_ipv4_protocol cfg ^^ Suc (length ws)) (detect_ipv4_protocol cfg k) =
        (protoSent cfg (dp2_ipProtocol (detect_ipv4_protocol cfg k)) (dp2_prevWord (detect_ipv4_protocol cfg k) # ws) (detect_ipv4_protocol cfg k))
          \<lparr>dp2_dataIn := rest, dp2_wordCount := 0, dp2_prevWord := q\<rparr>" using Cons.IH [OF ws k] by blast
    then show ?thesis using False Cons.prems(2)
      by (intro exI [of _ q]) (simp add: funpow_Suc_apply [of "Suc (length ws)"] st protoSent_more del: funpow.simps(2))
  qed
qed

definition protoReady :: "protoDetect \<Rightarrow> bool" where
  "protoReady k \<longleftrightarrow> \<not> dp2_leftover k \<and> dp2_wordCount k = 0"

definition protoCounted :: "ip_handler_cfg \<Rightarrow> 8 word \<Rightarrow> protoDetect \<Rightarrow> protoDetect" where
  "protoCounted cfg p k = k\<lparr>dp2_inDelivers := dp2_inDelivers k + (if isHandledProtocol cfg p then 1 else 0),
     dp2_inUnknownProtos := dp2_inUnknownProtos k + (if isHandledProtocol cfg p then 0 else 1)\<rparr>"

lemma protoCounted_same [simp]: "dp2_leftover (protoCounted cfg p k) = dp2_leftover k" "dp2_wordCount (protoCounted cfg p k) = dp2_wordCount k"
  "dp2_dataIn (protoCounted cfg p k) = dp2_dataIn k" "dp2_prevWord (protoCounted cfg p k) = dp2_prevWord k"
  by (simp_all add: protoCounted_def)

lemma proto_packet:
  assumes "protoReady k" and "dp2_dataIn k = ws @ rest" and "carries ws bs" and "9 < length bs"
  shows "\<exists>n q. (detect_ipv4_protocol cfg ^^ n) k = (protoSent cfg (bs ! 9) ws (protoCounted cfg (bs ! 9) k))
    \<lparr>dp2_dataIn := rest, dp2_prevWord := q, dp2_ipProtocol := bs ! 9\<rparr>"
proof -
  obtain v ws1 where ws1: "ws = v # ws1" using carries_nonempty [OF assms(3)] by (cases ws) auto
  have "ws1 \<noteq> []" using assms(3,4) by (auto simp: ws1 carries_single lastWord_def)
  then obtain w us where ws: "ws = v # w # us" using ws1 by (cases ws1) auto
  have c: "carries (w # us) (drop 8 bs)" "\<not> ax_last v" using assms(3) by (simp_all add: ws carries_Cons)
  have p: "rng 15 8 (ax_data w) = bs ! 9" using carries_byteAt [OF c(1), of 1] assms(4) by (simp add: byteAt_def)
  have r: "\<not> dp2_leftover k" "dp2_wordCount k = 0" using assms(1) by (simp_all add: protoReady_def)
  let ?k1 = "k\<lparr>dp2_dataIn := w # us @ rest, dp2_wordCount := 1, dp2_prevWord := v\<rparr>"
  have 1: "detect_ipv4_protocol cfg k = ?k1" using r c(2) assms(2) by (simp add: detect_ipv4_protocol_def ws Let_def)
  let ?k2 = "(protoSent cfg (bs ! 9) [v] (protoCounted cfg (bs ! 9) k))\<lparr>dp2_dataIn := us @ rest, dp2_ipProtocol := bs ! 9, dp2_prevWord := w,
      dp2_wordCount := (if ax_last w then 0 else 2), dp2_leftover := ax_last w\<rparr>"
  have 2: "detect_ipv4_protocol cfg ?k1 = ?k2"
    using r p by (simp add: detect_ipv4_protocol_def protoWord_protoSent Let_def) (simp add: protoSent_def protoCounted_def)
  show ?thesis
  proof (cases "us = []")
    case True
    then have l: "ax_last w" using c(1) by (simp add: carries_single lastWord_def)
    have "(detect_ipv4_protocol cfg ^^ 3) k = detect_ipv4_protocol cfg ?k2" by (simp add: numeral_3_eq_3 1 2)
    then show ?thesis
      using True l r by (intro exI [of _ 3] exI [of _ w])
        (simp add: detect_ipv4_protocol_def protoWord_protoSent protoSent_more ws)
  next
    case False
    then have w: "\<not> ax_last w" "is_packet us" using c(1) carries_packet by (auto simp: carries_Cons)
    have k2: "\<not> dp2_leftover ?k2" "dp2_wordCount ?k2 = 2" "dp2_dataIn ?k2 = us @ rest" using w(1) by simp_all
    obtain q where "(detect_ipv4_protocol cfg ^^ Suc (length us)) ?k2 = (protoSent cfg (dp2_ipProtocol ?k2) (dp2_prevWord ?k2 # us) ?k2)
        \<lparr>dp2_dataIn := rest, dp2_wordCount := 0, dp2_prevWord := q\<rparr>" using proto_rest [OF w(2) k2] by blast
    then have "(detect_ipv4_protocol cfg ^^ Suc (Suc (Suc (length us)))) k = (protoSent cfg (dp2_ipProtocol ?k2) (dp2_prevWord ?k2 # us) ?k2)
        \<lparr>dp2_dataIn := rest, dp2_wordCount := 0, dp2_prevWord := q\<rparr>"
      by (simp only: funpow_Suc_apply [of "Suc (Suc (length us))"] funpow_Suc_apply [of "Suc (length us)"] 1 2)
    then show ?thesis
      using r w(1) by (intro exI [of _ "Suc (Suc (Suc (length us)))"] exI [of _ q])
        (simp add: protoSent_more ws del: funpow.simps(2))
  qed
qed

section \<open>The handler\<close>

record ipPath =
  hp_detect :: ethDetect
  hp_route :: ethRoute
  hp_shift :: shifter
  hp_check :: headerCheck
  hp_verify :: "headerSums hls_stream \<times> packetValid hls_stream"
  hp_dropper :: ipDropper
  hp_cut :: cutter
  hp_proto :: protoDetect

text \<open>A step is a call of any one stage, or the words in the streams between them getting on.\<close>

definition ipLinks :: "ipPath \<Rightarrow> ipPath" where
  "ipLinks p = p\<lparr>
     hp_detect := (hp_detect p)\<lparr>de_etherType := [], de_dataOut := []\<rparr>,
     hp_route := (hp_route p)\<lparr>er_typeIn := er_typeIn (hp_route p) @ de_etherType (hp_detect p),
       er_dataIn := er_dataIn (hp_route p) @ de_dataOut (hp_detect p), er_ipOut := []\<rparr>,
     hp_shift := (hp_shift p)\<lparr>sh_input := sh_input (hp_shift p) @ er_ipOut (hp_route p), sh_output := []\<rparr>,
     hp_check := (hp_check p)\<lparr>ck_dataIn := ck_dataIn (hp_check p) @ sh_output (hp_shift p), ck_dataOut := [], ck_sumsOut := []\<rparr>,
     hp_verify := (fst (hp_verify p) @ ck_sumsOut (hp_check p), []),
     hp_dropper := (hp_dropper p)\<lparr>id_dataIn := id_dataIn (hp_dropper p) @ ck_dataOut (hp_check p),
       id_validIn := id_validIn (hp_dropper p) @ snd (hp_verify p), id_dataOut := []\<rparr>,
     hp_cut := (hp_cut p)\<lparr>cl_dataIn := cl_dataIn (hp_cut p) @ id_dataOut (hp_dropper p), cl_dataOut := []\<rparr>,
     hp_proto := (hp_proto p)\<lparr>dp2_dataIn := dp2_dataIn (hp_proto p) @ cl_dataOut (hp_cut p)\<rparr>\<rparr>"

inductive ipFire :: "ip_handler_cfg \<Rightarrow> 32 word \<Rightarrow> ipPath \<Rightarrow> ipPath \<Rightarrow> bool" for cfg myIp where
  detect: "ipFire cfg myIp p (p\<lparr>hp_detect := detect_eth_protocol (hp_detect p)\<rparr>)"
| route: "ipFire cfg myIp p (p\<lparr>hp_route := route_by_eth_protocol (hp_route p)\<rparr>)"
| shift: "ipFire cfg myIp p (p\<lparr>hp_shift := rshiftWordByOctet 6 (hp_shift p)\<rparr>)"
| check: "ipFire cfg myIp p (p\<lparr>hp_check := check_ip_checksum myIp (hp_check p)\<rparr>)"
| verify: "ipFire cfg myIp p (p\<lparr>hp_verify := iph_check_ip_checksum (hp_verify p)\<rparr>)"
| dropper: "ipFire cfg myIp p (p\<lparr>hp_dropper := ip_invalid_dropper (hp_dropper p)\<rparr>)"
| cut: "ipFire cfg myIp p (p\<lparr>hp_cut := cut_length (hp_cut p)\<rparr>)"
| proto: "ipFire cfg myIp p (p\<lparr>hp_proto := detect_ipv4_protocol cfg (hp_proto p)\<rparr>)"
| links: "ipFire cfg myIp p (ipLinks p)"

interpretation detectPart: part "ipFire cfg myIp" hp_detect "\<lambda>k p. p\<lparr>hp_detect := k\<rparr>" detect_eth_protocol
  for cfg myIp by unfold_locales (simp_all add: ipFire.detect)
interpretation routePart: part "ipFire cfg myIp" hp_route "\<lambda>k p. p\<lparr>hp_route := k\<rparr>" route_by_eth_protocol
  for cfg myIp by unfold_locales (simp_all add: ipFire.route)
interpretation shiftPart: part "ipFire cfg myIp" hp_shift "\<lambda>k p. p\<lparr>hp_shift := k\<rparr>" "rshiftWordByOctet 6"
  for cfg myIp by unfold_locales (simp_all add: ipFire.shift)
interpretation headerPart: part "ipFire cfg myIp" hp_check "\<lambda>k p. p\<lparr>hp_check := k\<rparr>" "check_ip_checksum myIp"
  for cfg myIp by unfold_locales (simp_all add: ipFire.check)
interpretation verifyPart: part "ipFire cfg myIp" hp_verify "\<lambda>k p. p\<lparr>hp_verify := k\<rparr>" iph_check_ip_checksum
  for cfg myIp by unfold_locales (simp_all add: ipFire.verify)
interpretation dropperPart: part "ipFire cfg myIp" hp_dropper "\<lambda>k p. p\<lparr>hp_dropper := k\<rparr>" ip_invalid_dropper
  for cfg myIp by unfold_locales (simp_all add: ipFire.dropper)
interpretation cutPart: part "ipFire cfg myIp" hp_cut "\<lambda>k p. p\<lparr>hp_cut := k\<rparr>" cut_length
  for cfg myIp by unfold_locales (simp_all add: ipFire.cut)
interpretation protoPart: part "ipFire cfg myIp" hp_proto "\<lambda>k p. p\<lparr>hp_proto := k\<rparr>" "detect_ipv4_protocol cfg"
  for cfg myIp by unfold_locales (simp_all add: ipFire.proto)

lemma ipLinks_run: "(ipFire cfg myIp)\<^sup>*\<^sup>* p q \<Longrightarrow> (ipFire cfg myIp)\<^sup>*\<^sup>* p (ipLinks q)"
  by (erule rtranclp.rtrancl_into_rtrancl) (rule ipFire.links)

definition ipIdle :: "ipPath \<Rightarrow> bool" where
  "ipIdle p \<longleftrightarrow>
     detectReady (hp_detect p) \<and> de_etherType (hp_detect p) = [] \<and> de_dataOut (hp_detect p) = [] \<and>
     \<not> er_fsmState (hp_route p) \<and> er_typeIn (hp_route p) = [] \<and> er_dataIn (hp_route p) = [] \<and> er_ipOut (hp_route p) = [] \<and>
     shiftReady 6 (hp_shift p) \<and> sh_input (hp_shift p) = [] \<and> sh_output (hp_shift p) = [] \<and>
     checkReady (hp_check p) \<and> ck_dataIn (hp_check p) = [] \<and> ck_dataOut (hp_check p) = [] \<and> ck_sumsOut (hp_check p) = [] \<and>
     hp_verify p = ([], []) \<and>
     id_state (hp_dropper p) = ID_GET_VALID \<and> id_dataIn (hp_dropper p) = [] \<and> id_validIn (hp_dropper p) = [] \<and> id_dataOut (hp_dropper p) = [] \<and>
     cutReady (hp_cut p) \<and> cl_dataIn (hp_cut p) = [] \<and> cl_dataOut (hp_cut p) = [] \<and>
     protoReady (hp_proto p) \<and> dp2_dataIn (hp_proto p) = []"

lemma ip_empty_same:
  "de_etherType a = [] \<Longrightarrow> a\<lparr>de_etherType := []\<rparr> = a" "de_dataOut a = [] \<Longrightarrow> a\<lparr>de_dataOut := []\<rparr> = a"
  "er_typeIn b = [] \<Longrightarrow> b\<lparr>er_typeIn := []\<rparr> = b" "er_dataIn b = [] \<Longrightarrow> b\<lparr>er_dataIn := []\<rparr> = b" "er_ipOut b = [] \<Longrightarrow> b\<lparr>er_ipOut := []\<rparr> = b"
  "ck_dataIn c = [] \<Longrightarrow> c\<lparr>ck_dataIn := []\<rparr> = c" "ck_dataOut c = [] \<Longrightarrow> c\<lparr>ck_dataOut := []\<rparr> = c" "ck_sumsOut c = [] \<Longrightarrow> c\<lparr>ck_sumsOut := []\<rparr> = c"
  "id_dataIn d = [] \<Longrightarrow> d\<lparr>id_dataIn := []\<rparr> = d" "id_validIn d = [] \<Longrightarrow> d\<lparr>id_validIn := []\<rparr> = d" "id_dataOut d = [] \<Longrightarrow> d\<lparr>id_dataOut := []\<rparr> = d"
  "cl_dataIn e = [] \<Longrightarrow> e\<lparr>cl_dataIn := []\<rparr> = e" "cl_dataOut e = [] \<Longrightarrow> e\<lparr>cl_dataOut := []\<rparr> = e" "dp2_dataIn f = [] \<Longrightarrow> f\<lparr>dp2_dataIn := []\<rparr> = f"
  by (cases a, simp, cases a, simp, cases b, simp, cases b, simp, cases b, simp, cases c, simp, cases c, simp, cases c, simp,
      cases d, simp, cases d, simp, cases d, simp, cases e, simp, cases e, simp, cases f, simp)

text \<open>Up to the shifter.\<close>

lemma ip_front:
  assumes "ipIdle p" and "de_dataIn (hp_detect p) = ws @ rest" and "carries ws bs" and "14 \<le> length bs"
  shows "\<exists>q. (ipFire cfg myIp)\<^sup>*\<^sup>* p q \<and> ipIdle (q\<lparr>hp_shift := hp_shift p\<rparr>) \<and> de_dataIn (hp_detect q) = rest \<and>
    hp_shift q = (hp_shift p)\<lparr>sh_input := (if etherType bs = ETH_IPv4 then tl ws else [])\<rparr> \<and>
    er_arpOut (hp_route q) = er_arpOut (hp_route p) @ (if etherType bs = ETH_ARP then ws else []) \<and>
    hp_check q = hp_check p \<and> hp_dropper q = hp_dropper p \<and> hp_cut q = hp_cut p \<and> hp_proto q = hp_proto p"
proof -
  note i = assms(1) [unfolded ipIdle_def]
  let ?t = "etherType bs" and ?r = "(ipFire cfg myIp)\<^sup>*\<^sup>*"
  define us where "us = (if ?t = ETH_ARP then ws else tl ws)"
  have at: "ETH_ARP \<noteq> ETH_IPv4" by (simp add: ETH_ARP_def ETH_IPv4_def)
  have us: "is_packet us"
  proof -
    obtain v vs where "ws = v # vs" using carries_nonempty [OF assms(3)] by (cases ws) auto
    moreover from this have "vs \<noteq> []" using assms(3,4) by (auto simp: carries_single lastWord_def)
    ultimately show ?thesis using carries_packet [OF assms(3)] assms(3) by (auto simp: us_def carries_Cons is_packet_Cons)
  qed
  obtain n1 where s1: "detectReady ((detect_eth_protocol ^^ n1) (hp_detect p))" "de_dataIn ((detect_eth_protocol ^^ n1) (hp_detect p)) = rest"
    "de_etherType ((detect_eth_protocol ^^ n1) (hp_detect p)) = [?t]" "de_dataOut ((detect_eth_protocol ^^ n1) (hp_detect p)) = us"
    using detect_packet [OF _ assms(2-4)] i us_def by auto
  define k1 where "k1 = (detect_eth_protocol ^^ n1) (hp_detect p)"
  define k1' where "k1' = k1\<lparr>de_etherType := [], de_dataOut := []\<rparr>"
  define b where "b = (hp_route p)\<lparr>er_typeIn := [?t], er_dataIn := us\<rparr>"
  have rb: "\<not> er_fsmState b" "er_typeIn b = ?t # []" "er_dataIn b = us @ []" using i by (simp_all add: b_def)
  define k2 where "k2 = (routedTo ?t us b)\<lparr>er_etherType := ?t, er_typeIn := [], er_dataIn := [], er_fsmState := False\<rparr>"
  have s2: "(route_by_eth_protocol ^^ length us) b = k2" using route_packet [OF rb us] by (simp add: k2_def)
  define k2' where "k2' = k2\<lparr>er_ipOut := []\<rparr>"
  obtain A B C D E F G H where p: "p = \<lparr>hp_detect = A, hp_route = B, hp_shift = C, hp_check = D, hp_verify = E, hp_dropper = F, hp_cut = G,
      hp_proto = H\<rparr>" by (cases p)
  note i = i [unfolded p, simplified]
  have "?r p (p\<lparr>hp_detect := k1\<rparr>)" by (rule detectPart.runs_to) (simp_all add: k1_def)
  from ipLinks_run [OF this] have "?r p (p\<lparr>hp_detect := k1', hp_route := b\<rparr>)"
    using i s1 by (simp add: p ipLinks_def k1_def k1'_def b_def empty_same ip_empty_same)
  from routePart.runs_to [OF this, of "length us" k2] have "?r p (p\<lparr>hp_detect := k1', hp_route := k2\<rparr>)"
    using s2 by (simp add: p)
  note step = ipLinks_run [OF this]
  define X where "X = (if ?t = ETH_IPv4 then tl ws else [])"
  have x: "er_ipOut k2 = X" using i at by (simp add: k2_def routedTo_def b_def p us_def X_def)
  let ?q = "p\<lparr>hp_detect := k1', hp_route := k2', hp_shift := (hp_shift p)\<lparr>sh_input := X\<rparr>\<rparr>"
  have run: "?r p ?q"
    using step i s1 x by (simp add: p ipLinks_def k1_def k1'_def k2'_def k2_def routedTo_def b_def empty_same ip_empty_same)
  have "ipIdle (?q\<lparr>hp_shift := hp_shift p\<rparr>)" "de_dataIn (hp_detect ?q) = rest"
    using i s1 by (simp_all add: p ipIdle_def k1_def k1'_def k2'_def k2_def detectReady_def)
  moreover have "er_arpOut (hp_route ?q) = er_arpOut (hp_route p) @ (if ?t = ETH_ARP then ws else [])"
    by (simp add: k2'_def k2_def routedTo_def b_def us_def)
  ultimately show ?thesis using run by (intro exI [of _ ?q]) (simp add: X_def)
qed

text \<open>From the shifter on.\<close>

definition totalFits :: "8 word list \<Rightarrow> bool" where
  "totalFits bs \<longleftrightarrow> headerFits bs \<and> 20 \<le> totalLength bs \<and> totalLength bs \<le> length bs"

definition forHost :: "32 word \<Rightarrow> 8 word list \<Rightarrow> bool" where
  "forHost myIp bs \<longleftrightarrow> goodHeader bs \<and> isMatch myIp (dstAddress bs)"

definition verdict :: "32 word \<Rightarrow> 8 word list \<Rightarrow> packetValid" where
  "verdict myIp bs = \<lparr>pv_ipMatch = isMatch myIp (dstAddress bs), pv_hdrValid = goodHeader bs\<rparr>"

text \<open>\<open>sentOn cfg k bs k'\<close>: one packet with the bytes \<open>bs\<close> has gone out to the server of its protocol, if
  there is one.\<close>

definition sentOn :: "ip_handler_cfg \<Rightarrow> protoDetect \<Rightarrow> 8 word list \<Rightarrow> protoDetect \<Rightarrow> bool" where
  "sentOn cfg k bs k' \<longleftrightarrow> (\<exists>out. carries out bs \<and>
     dp2_icmpOut k' = dp2_icmpOut k @ (if bs ! 9 = PROTO_ICMP then out else []) \<and>
     dp2_igmpOut k' = dp2_igmpOut k @ (if bs ! 9 = PROTO_IGMP then out else []) \<and>
     dp2_tcpOut k' = dp2_tcpOut k @ (if bs ! 9 = PROTO_TCP \<and> isHandledProtocol cfg (bs ! 9) then out else []) \<and>
     dp2_inDelivers k' = dp2_inDelivers k + (if isHandledProtocol cfg (bs ! 9) then 1 else 0) \<and>
     dp2_inUnknownProtos k' = dp2_inUnknownProtos k + (if isHandledProtocol cfg (bs ! 9) then 0 else 1))"

lemma ip_checked:
  assumes "ipIdle (p\<lparr>hp_shift := h\<rparr>)" and "hp_shift p = h\<lparr>sh_input := ws\<rparr>" and "carries ws bs" and "bs' = drop 6 bs" and "headerFits bs'"
  shows "\<exists>q out. (ipFire cfg myIp)\<^sup>*\<^sup>* p q \<and> ipIdle (q\<lparr>hp_cut := hp_cut p\<rparr>) \<and> hp_detect q = hp_detect p \<and> hp_route q = hp_route p \<and>
    hp_proto q = hp_proto p \<and> hp_dropper q = counted (verdict myIp bs') (hp_dropper p) \<and> carries out bs' \<and>
    hp_cut q = (hp_cut p)\<lparr>cl_dataIn := (if forHost myIp bs' then out else [])\<rparr>"
proof -
  note i = assms(1) [unfolded ipIdle_def, simplified]
  let ?r = "(ipFire cfg myIp)\<^sup>*\<^sup>*"
  have l: "26 \<le> length bs" using assms(5) by (auto simp: assms(4) headerFits_def)
  have rs: "shiftReady 6 (hp_shift p)" "sh_input (hp_shift p) = ws @ []" "sh_output (hp_shift p) = []"
    using i assms(2) by (simp_all add: shiftReady_def)
  obtain n1 w1 where s1: "shiftReady 6 ((rshiftWordByOctet 6 ^^ n1) (hp_shift p))" "sh_input ((rshiftWordByOctet 6 ^^ n1) (hp_shift p)) = []"
    "sh_output ((rshiftWordByOctet 6 ^^ n1) (hp_shift p)) = w1" "carries w1 bs'"
    using rshift_packet [OF _ _ rs(1,2) assms(3)] l rs(3) assms(4) by auto
  define k1 where "k1 = (rshiftWordByOctet 6 ^^ n1) (hp_shift p)"
  define k1' where "k1' = k1\<lparr>sh_output := []\<rparr>"
  define b where "b = (hp_check p)\<lparr>ck_dataIn := w1\<rparr>"
  have rb: "checkReady b" "ck_dataIn b = w1 @ []" using i by (simp_all add: b_def checkReady_def)
  obtain x where s2: "checkReady ((check_ip_checksum myIp ^^ length w1) b)" "ck_dataIn ((check_ip_checksum myIp ^^ length w1) b) = []"
    "ck_dataOut ((check_ip_checksum myIp ^^ length w1) b) = w1" "ck_sumsOut ((check_ip_checksum myIp ^^ length w1) b) = [x]"
    "iph_check_ip_checksum ([x], []) = ([], [verdict myIp bs'])"
  proof -
    obtain k' r where x: "(check_ip_checksum myIp ^^ length w1) b = k'" "checkReady k'" "ck_dataIn k' = []" "ck_dataOut k' = ck_dataOut b @ w1"
      "ck_sumsOut k' = ck_sumsOut b @ [r]" "hs_ipMatch r = isMatch myIp (dstAddress bs')" "hs_hdrValid r = hdr_valid (ipVersion bs')"
      "\<exists>m. columnsOf (hs_sums r) m \<and> m 0 + m 1 + m 2 + m 3 = packetSum (headerBytes bs')"
      using check_packet [OF rb s1(4) assms(5)] by blast
    then obtain m where m: "columnsOf (hs_sums r) m" "m 0 + m 1 + m 2 + m 3 = packetSum (headerBytes bs')" by blast
    from verify_sums [OF m x(7), of "[]"] x(6) have "iph_check_ip_checksum ([r], []) = ([], [verdict myIp bs'])" by (simp add: verdict_def)
    with that x(1-5) i show ?thesis by (simp add: b_def)
  qed
  define k2 where "k2 = (check_ip_checksum myIp ^^ length w1) b"
  define k2' where "k2' = k2\<lparr>ck_dataOut := [], ck_sumsOut := []\<rparr>"
  define c where "c = (hp_dropper p)\<lparr>id_dataIn := w1, id_validIn := [verdict myIp bs']\<rparr>"
  define out where "out = (if forHost myIp bs' then w1 else [])"
  define k3 where "k3 = (counted (verdict myIp bs') c)\<lparr>id_validIn := [], id_dataIn := [], id_dataOut := out\<rparr>"
  have s3: "(ip_invalid_dropper ^^ Suc (length w1)) c = k3"
    using dropper_packet [of c "verdict myIp bs'" "[]" w1 "[]"] i carries_packet [OF s1(4)]
    by (simp add: c_def k3_def out_def forHost_def verdict_def del: funpow.simps(2))
  obtain A B C D E F G H where p: "p = \<lparr>hp_detect = A, hp_route = B, hp_shift = C, hp_check = D, hp_verify = E, hp_dropper = F, hp_cut = G,
      hp_proto = H\<rparr>" by (cases p)
  note i = i [unfolded p, simplified]
  note emp = empty_same ip_empty_same
  have "?r p (p\<lparr>hp_shift := k1\<rparr>)" by (rule shiftPart.runs_to) (simp_all add: k1_def)
  from ipLinks_run [OF this] have "?r p (p\<lparr>hp_shift := k1', hp_check := b\<rparr>)"
    using i s1 by (simp add: p ipLinks_def k1_def k1'_def b_def emp)
  from headerPart.runs_to [OF this, of "length w1" k2] have "?r p (p\<lparr>hp_shift := k1', hp_check := k2\<rparr>)" by (simp add: p k2_def)
  from ipLinks_run [OF this] have "?r p (p\<lparr>hp_shift := k1', hp_check := k2', hp_verify := ([x], []), hp_dropper := F\<lparr>id_dataIn := w1\<rparr>\<rparr>)"
    using i s1 s2 by (simp add: p ipLinks_def k1_def k1'_def k2_def k2'_def emp)
  from verifyPart.runs_to [OF this, of 1 "([], [verdict myIp bs'])"]
  have "?r p (p\<lparr>hp_shift := k1', hp_check := k2', hp_verify := ([], [verdict myIp bs']), hp_dropper := F\<lparr>id_dataIn := w1\<rparr>\<rparr>)"
    using s2(5) by (simp add: p)
  from ipLinks_run [OF this] have "?r p (p\<lparr>hp_shift := k1', hp_check := k2', hp_verify := ([], []), hp_dropper := c\<rparr>)"
    using i s1 s2 by (simp add: p ipLinks_def k1_def k1'_def k2_def k2'_def c_def emp)
  from dropperPart.runs_to [OF this, of "Suc (length w1)" k3]
  have "?r p (p\<lparr>hp_shift := k1', hp_check := k2', hp_verify := ([], []), hp_dropper := k3\<rparr>)"
    using s3 by (simp add: p del: funpow.simps(2))
  note step = ipLinks_run [OF this]
  have cd: "counted v (F\<lparr>id_dataIn := [], id_validIn := []\<rparr>) = (counted v F)\<lparr>id_dataIn := [], id_validIn := []\<rparr>" for v
    by (simp add: counted_def)
  have ce: "id_dataIn (counted v F) = []" "id_validIn (counted v F) = []" "id_dataOut (counted v F) = []" "id_state (counted v F) = ID_GET_VALID" for v
    using i by (simp_all add: counted_def)
  have k3o: "k3\<lparr>id_dataOut := []\<rparr> = counted (verdict myIp bs') F"
  proof -
    have "k3\<lparr>id_dataOut := []\<rparr> = (counted (verdict myIp bs') F)\<lparr>id_validIn := [], id_dataIn := [], id_dataOut := []\<rparr>"
      by (simp add: k3_def c_def counted_def p)
    then show ?thesis using ce by (simp add: emp)
  qed
  let ?q = "p\<lparr>hp_shift := k1', hp_check := k2', hp_verify := ([], []), hp_dropper := counted (verdict myIp bs') F, hp_cut := G\<lparr>cl_dataIn := out\<rparr>\<rparr>"
  have k3i: "id_dataIn k3 = []" "id_validIn k3 = []" "id_dataOut k3 = out" by (simp_all add: k3_def)
  have "k3\<lparr>id_dataIn := [], id_validIn := [], id_dataOut := []\<rparr> = k3\<lparr>id_dataOut := []\<rparr>" using k3i by (simp add: emp)
  then have run: "?r p ?q"
    using step i s1 s2 k3i k3o by (simp add: p ipLinks_def k1_def k1'_def k2_def k2'_def emp)
  have "ipIdle (?q\<lparr>hp_cut := hp_cut p\<rparr>)"
    using i s1 s2 ce by (simp add: p ipIdle_def k1_def k1'_def k2_def k2'_def shiftReady_def checkReady_def)
  with run s1(4) show ?thesis by (intro exI [of _ ?q] exI [of _ w1]) (simp add: p out_def)
qed

lemma protoSent_out: "dp2_icmpOut (protoSent cfg p ws k) = dp2_icmpOut k @ (if p = PROTO_ICMP then ws else [])"
  "dp2_igmpOut (protoSent cfg p ws k) = dp2_igmpOut k @ (if p = PROTO_IGMP then ws else [])"
  "dp2_tcpOut (protoSent cfg p ws k) = dp2_tcpOut k @ (if p = PROTO_TCP \<and> isHandledProtocol cfg p then ws else [])"
  "dp2_inDelivers (protoSent cfg p ws k) = dp2_inDelivers k" "dp2_inUnknownProtos (protoSent cfg p ws k) = dp2_inUnknownProtos k"
  by (simp_all add: protoSent_def del: if_split)

lemma protoCounted_out: "dp2_icmpOut (protoCounted cfg p k) = dp2_icmpOut k" "dp2_igmpOut (protoCounted cfg p k) = dp2_igmpOut k"
  "dp2_tcpOut (protoCounted cfg p k) = dp2_tcpOut k"
  "dp2_inDelivers (protoCounted cfg p k) = dp2_inDelivers k + (if isHandledProtocol cfg p then 1 else 0)"
  "dp2_inUnknownProtos (protoCounted cfg p k) = dp2_inUnknownProtos k + (if isHandledProtocol cfg p then 0 else 1)"
  by (simp_all add: protoCounted_def del: if_split)

lemma ip_sent:
  assumes "ipIdle (p\<lparr>hp_cut := g\<rparr>)" and "hp_cut p = g\<lparr>cl_dataIn := ws\<rparr>" and "carries ws bs" and "20 \<le> totalLength bs" and "totalLength bs \<le> length bs"
  shows "\<exists>q. (ipFire cfg myIp)\<^sup>*\<^sup>* p q \<and> ipIdle q \<and> hp_detect q = hp_detect p \<and> hp_route q = hp_route p \<and> hp_dropper q = hp_dropper p \<and>
    sentOn cfg (hp_proto p) (take (totalLength bs) bs) (hp_proto q)"
proof -
  note i = assms(1) [unfolded ipIdle_def, simplified]
  let ?r = "(ipFire cfg myIp)\<^sup>*\<^sup>*" and ?bs = "take (totalLength bs) bs"
  have rc: "cutReady (hp_cut p)" "cl_dataIn (hp_cut p) = ws @ []" "8 < totalLength bs" using i assms(2,4) by (simp_all add: cutReady_def)
  obtain k1 out where s1: "(cut_length ^^ length ws) (hp_cut p) = k1" "cutReady k1" "cl_dataIn k1 = []" "cl_dataOut k1 = out" "carries out ?bs"
    using cut_packet [OF rc(1,2) assms(3) rc(3) assms(5)] i assms(2) by auto
  define k1' where "k1' = k1\<lparr>cl_dataOut := []\<rparr>"
  define b where "b = (hp_proto p)\<lparr>dp2_dataIn := out\<rparr>"
  have rb: "protoReady b" "dp2_dataIn b = out @ []" "9 < length ?bs" using i assms(4,5) by (simp_all add: b_def protoReady_def)
  obtain n2 x where s2: "(detect_ipv4_protocol cfg ^^ n2) b = (protoSent cfg (?bs ! 9) out (protoCounted cfg (?bs ! 9) b))
      \<lparr>dp2_dataIn := [], dp2_prevWord := x, dp2_ipProtocol := ?bs ! 9\<rparr>"
    using proto_packet [OF rb(1,2) s1(5) rb(3)] by blast
  define k2 where "k2 = (protoSent cfg (?bs ! 9) out (protoCounted cfg (?bs ! 9) b))\<lparr>dp2_dataIn := [], dp2_prevWord := x, dp2_ipProtocol := ?bs ! 9\<rparr>"
  obtain A B C D E F G H where p: "p = \<lparr>hp_detect = A, hp_route = B, hp_shift = C, hp_check = D, hp_verify = E, hp_dropper = F, hp_cut = G,
      hp_proto = H\<rparr>" by (cases p)
  note i = i [unfolded p, simplified]
  have "?r p (p\<lparr>hp_cut := k1\<rparr>)" by (rule cutPart.runs_to [of _ _ _ _ "length ws"]) (simp_all add: s1(1))
  from ipLinks_run [OF this] have "?r p (p\<lparr>hp_cut := k1', hp_proto := b\<rparr>)"
    using i s1 by (simp add: p ipLinks_def k1'_def b_def empty_same ip_empty_same)
  from protoPart.runs_to [OF this, of n2 k2] have run: "?r p (p\<lparr>hp_cut := k1', hp_proto := k2\<rparr>)"
    using s2 by (simp add: p k2_def)
  have "protoReady k2" "dp2_dataIn k2 = []" using rb(1) by (simp_all add: k2_def protoReady_def)
  then have idle: "ipIdle (p\<lparr>hp_cut := k1', hp_proto := k2\<rparr>)" using i s1 by (simp add: p ipIdle_def k1'_def cutReady_def)
  have "dp2_icmpOut k2 = dp2_icmpOut H @ (if ?bs ! 9 = PROTO_ICMP then out else [])"
    "dp2_igmpOut k2 = dp2_igmpOut H @ (if ?bs ! 9 = PROTO_IGMP then out else [])"
    "dp2_tcpOut k2 = dp2_tcpOut H @ (if ?bs ! 9 = PROTO_TCP \<and> isHandledProtocol cfg (?bs ! 9) then out else [])"
    "dp2_inDelivers k2 = dp2_inDelivers H + (if isHandledProtocol cfg (?bs ! 9) then 1 else 0)"
    "dp2_inUnknownProtos k2 = dp2_inUnknownProtos H + (if isHandledProtocol cfg (?bs ! 9) then 0 else 1)"
    by (simp_all add: k2_def protoSent_out protoCounted_out b_def p del: if_split)
  with s1(5) have "sentOn cfg H ?bs k2" unfolding sentOn_def by blast
  with run idle show ?thesis by (intro exI [of _ "p\<lparr>hp_cut := k1', hp_proto := k2\<rparr>"]) (simp add: p)
qed

section \<open>A frame\<close>

lemma first_word_off:
  assumes "carries ws bs" and "8 < length bs"
  shows "carries (tl ws) (drop 8 bs)"
proof -
  obtain v vs where "ws = v # vs" using carries_nonempty [OF assms(1)] by (cases ws) auto
  moreover from this have "vs \<noteq> []" using assms by (auto simp: carries_single lastWord_def)
  ultimately show ?thesis using assms(1) by (auto simp: carries_Cons)
qed

text \<open>An IPv4 packet up to the verdict, and one that is delivered.\<close>

lemma ip_judged:
  assumes "ipIdle p" and "de_dataIn (hp_detect p) = ws @ rest" and "carries ws frame" and "14 \<le> length frame"
    and "packet = drop 14 frame" and "etherType frame = ETH_IPv4" and "headerFits packet"
  shows "\<exists>q out. (ipFire cfg myIp)\<^sup>*\<^sup>* p q \<and> ipIdle (q\<lparr>hp_cut := hp_cut p\<rparr>) \<and> de_dataIn (hp_detect q) = rest \<and>
    er_arpOut (hp_route q) = er_arpOut (hp_route p) \<and> hp_dropper q = counted (verdict myIp packet) (hp_dropper p) \<and>
    hp_proto q = hp_proto p \<and> carries out packet \<and> hp_cut q = (hp_cut p)\<lparr>cl_dataIn := (if forHost myIp packet then out else [])\<rparr>"
proof -
  have at: "ETH_ARP \<noteq> ETH_IPv4" by (simp add: ETH_ARP_def ETH_IPv4_def)
  obtain q where q: "(ipFire cfg myIp)\<^sup>*\<^sup>* p q" "ipIdle (q\<lparr>hp_shift := hp_shift p\<rparr>)" "de_dataIn (hp_detect q) = rest"
    "hp_shift q = (hp_shift p)\<lparr>sh_input := tl ws\<rparr>" "er_arpOut (hp_route q) = er_arpOut (hp_route p)"
    "hp_dropper q = hp_dropper p" "hp_cut q = hp_cut p" "hp_proto q = hp_proto p"
    using ip_front [OF assms(1-4), of cfg myIp] assms(6) at by auto
  have c: "carries (tl ws) (drop 8 frame)" using first_word_off [OF assms(3)] assms(4) by simp
  have pk: "packet = drop 6 (drop 8 frame)" using assms(5) by simp
  obtain q2 out where q2: "(ipFire cfg myIp)\<^sup>*\<^sup>* q q2" "ipIdle (q2\<lparr>hp_cut := hp_cut q\<rparr>)" "hp_detect q2 = hp_detect q" "hp_route q2 = hp_route q"
    "hp_proto q2 = hp_proto q" "hp_dropper q2 = counted (verdict myIp packet) (hp_dropper q)" "carries out packet"
    "hp_cut q2 = (hp_cut q)\<lparr>cl_dataIn := (if forHost myIp packet then out else [])\<rparr>"
    using ip_checked [OF q(2,4) c pk assms(7)] by blast
  show ?thesis
    using rtranclp_trans [OF q(1) q2(1)] q(3,5-8) q2(2-8) by (intro exI [of _ q2] exI [of _ out]) simp
qed

lemma ip_delivers:
  assumes "ipIdle p" and "de_dataIn (hp_detect p) = ws @ rest" and "carries ws frame" and "14 \<le> length frame"
    and "packet = drop 14 frame" and "etherType frame = ETH_IPv4" and "totalFits packet" and "forHost myIp packet"
  shows "\<exists>q. (ipFire cfg myIp)\<^sup>*\<^sup>* p q \<and> ipIdle q \<and> de_dataIn (hp_detect q) = rest \<and> er_arpOut (hp_route q) = er_arpOut (hp_route p) \<and>
    hp_dropper q = counted (verdict myIp packet) (hp_dropper p) \<and> sentOn cfg (hp_proto p) (take (totalLength packet) packet) (hp_proto q)"
proof -
  have f: "headerFits packet" "20 \<le> totalLength packet" "totalLength packet \<le> length packet" using assms(7) by (simp_all add: totalFits_def)
  obtain q out where q: "(ipFire cfg myIp)\<^sup>*\<^sup>* p q" "ipIdle (q\<lparr>hp_cut := hp_cut p\<rparr>)" "de_dataIn (hp_detect q) = rest"
    "er_arpOut (hp_route q) = er_arpOut (hp_route p)" "hp_dropper q = counted (verdict myIp packet) (hp_dropper p)"
    "hp_proto q = hp_proto p" "carries out packet" "hp_cut q = (hp_cut p)\<lparr>cl_dataIn := out\<rparr>"
    using ip_judged [OF assms(1-6) f(1), of cfg myIp] assms(8) by auto
  obtain q3 where q3: "(ipFire cfg myIp)\<^sup>*\<^sup>* q q3" "ipIdle q3" "hp_detect q3 = hp_detect q" "hp_route q3 = hp_route q" "hp_dropper q3 = hp_dropper q"
    "sentOn cfg (hp_proto q) (take (totalLength packet) packet) (hp_proto q3)"
    using ip_sent [OF q(2,8,7) f(2,3)] by blast
  show ?thesis using rtranclp_trans [OF q(1) q3(1)] q(3-6) q3(2-6) by (intro exI [of _ q3]) simp
qed

text \<open>The protocols without a server.\<close>

lemma sent_nowhere:
  assumes "sentOn cfg k bs k'" and "bs ! 9 \<notin> {PROTO_ICMP, PROTO_IGMP, PROTO_TCP}"
  shows "dp2_icmpOut k' = dp2_icmpOut k \<and> dp2_igmpOut k' = dp2_igmpOut k \<and> dp2_tcpOut k' = dp2_tcpOut k"
  using assms by (auto simp: sentOn_def)

lemma frame_handled:
  assumes "ipIdle p" and "de_dataIn (hp_detect p) = ws @ rest" and "carries ws frame" and "14 \<le> length frame"
    and "packet = drop 14 frame" and "etherType frame = ETH_IPv4 \<Longrightarrow> totalFits packet"
  shows "\<exists>q. (ipFire cfg myIp)\<^sup>*\<^sup>* p q \<and> ipIdle q \<and> de_dataIn (hp_detect q) = rest \<and>
    er_arpOut (hp_route q) = er_arpOut (hp_route p) @ (if etherType frame = ETH_ARP then ws else []) \<and>
    (if etherType frame = ETH_IPv4
     then hp_dropper q = counted (verdict myIp packet) (hp_dropper p) \<and>
       (if forHost myIp packet then sentOn cfg (hp_proto p) (take (totalLength packet) packet) (hp_proto q) else hp_proto q = hp_proto p)
     else hp_dropper q = hp_dropper p \<and> hp_proto q = hp_proto p)"
proof (cases "etherType frame = ETH_IPv4")
  case False
  obtain q where q: "(ipFire cfg myIp)\<^sup>*\<^sup>* p q" "ipIdle (q\<lparr>hp_shift := hp_shift p\<rparr>)" "de_dataIn (hp_detect q) = rest"
    "hp_shift q = (hp_shift p)\<lparr>sh_input := []\<rparr>" "er_arpOut (hp_route q) = er_arpOut (hp_route p) @ (if etherType frame = ETH_ARP then ws else [])"
    "hp_dropper q = hp_dropper p" "hp_proto q = hp_proto p"
    using ip_front [OF assms(1-4), of cfg myIp] False by auto
  have "(hp_shift p)\<lparr>sh_input := []\<rparr> = hp_shift p" using assms(1) by (simp add: ipIdle_def empty_same)
  then have "hp_shift p = hp_shift q" using q(4) by simp
  then have "q\<lparr>hp_shift := hp_shift p\<rparr> = q" by simp
  then have "ipIdle q" using q(2) by simp
  with q(1,3,5-7) False show ?thesis by (intro exI [of _ q]) simp
next
  case True
  then have at: "etherType frame \<noteq> ETH_ARP" by (simp add: ETH_ARP_def ETH_IPv4_def)
  show ?thesis
  proof (cases "forHost myIp packet")
    case fh: True
    from ip_delivers [OF assms(1-5) True assms(6) [OF True] fh, of cfg] True at fh show ?thesis by simp
  next
    case fh: False
    have f: "headerFits packet" using assms(6) [OF True] by (simp add: totalFits_def)
    obtain q where q: "(ipFire cfg myIp)\<^sup>*\<^sup>* p q" "ipIdle (q\<lparr>hp_cut := hp_cut p\<rparr>)" "de_dataIn (hp_detect q) = rest"
      "er_arpOut (hp_route q) = er_arpOut (hp_route p)" "hp_dropper q = counted (verdict myIp packet) (hp_dropper p)"
      "hp_proto q = hp_proto p" "hp_cut q = (hp_cut p)\<lparr>cl_dataIn := []\<rparr>"
      using ip_judged [OF assms(1-5) True f, of cfg myIp] fh by auto
    have "(hp_cut p)\<lparr>cl_dataIn := []\<rparr> = hp_cut p" using assms(1) by (simp add: ipIdle_def ip_empty_same)
    then have "hp_cut p = hp_cut q" using q(7) by simp
    then have "q\<lparr>hp_cut := hp_cut p\<rparr> = q" by simp
    then have "ipIdle q" using q(2) by simp
    with q(1,3-6) True at fh show ?thesis by (intro exI [of _ q]) simp
  qed
qed

text \<open>C7: The IP handler takes each frame off the network: an ARP frame goes to the ARP server as it is.  An IPv4 packet whose
  header sum is right and that is for the host, for all hosts or for a group goes, without its padding, to the server of its
  protocol: ICMP, IGMP, and TCP where the configuration handles it.  A packet of any other protocol goes nowhere, also a UDP
  packet, although the configurations with UDP count it as delivered; in every configuration a packet of a protocol not handled is
  counted as unknown.  An IPv4 packet that is bad or for another host is dropped and counted by its reason.  A frame of any
  other kind is dropped and not counted.\<close>

theorem frames_routed:
  assumes "ipIdle p" and "de_dataIn (hp_detect p) = ws @ rest" and "carries ws frame" and "14 \<le> length frame"
    and "packet = drop 14 frame" and "etherType frame = ETH_IPv4 \<Longrightarrow> totalFits packet"
  shows "\<exists>q. (ipFire cfg myIp)\<^sup>*\<^sup>* p q \<and> ipIdle q \<and> de_dataIn (hp_detect q) = rest \<and>
    er_arpOut (hp_route q) = er_arpOut (hp_route p) @ (if etherType frame = ETH_ARP then ws else []) \<and>
    (if etherType frame = ETH_IPv4
     then hp_dropper q = counted (verdict myIp packet) (hp_dropper p) \<and>
       (if forHost myIp packet then sentOn cfg (hp_proto p) (take (totalLength packet) packet) (hp_proto q) else hp_proto q = hp_proto p) \<and>
       (packet ! 9 \<notin> {PROTO_ICMP, PROTO_IGMP, PROTO_TCP} \<longrightarrow> dp2_icmpOut (hp_proto q) = dp2_icmpOut (hp_proto p) \<and>
         dp2_igmpOut (hp_proto q) = dp2_igmpOut (hp_proto p) \<and> dp2_tcpOut (hp_proto q) = dp2_tcpOut (hp_proto p))
     else hp_dropper q = hp_dropper p \<and> hp_proto q = hp_proto p)"
proof -
  obtain q where q: "(ipFire cfg myIp)\<^sup>*\<^sup>* p q" "ipIdle q" "de_dataIn (hp_detect q) = rest"
    "er_arpOut (hp_route q) = er_arpOut (hp_route p) @ (if etherType frame = ETH_ARP then ws else [])"
    "if etherType frame = ETH_IPv4
     then hp_dropper q = counted (verdict myIp packet) (hp_dropper p) \<and>
       (if forHost myIp packet then sentOn cfg (hp_proto p) (take (totalLength packet) packet) (hp_proto q) else hp_proto q = hp_proto p)
     else hp_dropper q = hp_dropper p \<and> hp_proto q = hp_proto p"
    using frame_handled [OF assms, of cfg myIp] by blast
  have nth: "take (totalLength packet) packet ! 9 = packet ! 9" if "etherType frame = ETH_IPv4"
    using assms(6) [OF that] by (simp add: totalFits_def)
  show ?thesis
  proof (cases "etherType frame = ETH_IPv4 \<and> forHost myIp packet")
    case True
    with q sent_nowhere [of cfg "hp_proto p" _ "hp_proto q"] nth show ?thesis by (intro exI [of _ q]) auto
  next
    case False
    with q show ?thesis by (intro exI [of _ q]) auto
  qed
qed

section \<open>Sample\<close>

definition sampleIpBytes :: "8 word list" where
  "sampleIpBytes = [69, 0, 0, 24, 0, 0, 0, 0, 64, 6, 102, 219, 10, 0, 0, 1, 10, 0, 0, 5, 1, 2, 3, 4]"

definition samplePadded :: "8 word list" where
  "samplePadded = sampleIpBytes @ [0, 0]"

definition sampleFrame :: "8 word list" where
  "sampleFrame = [0xAA, 0xAA, 0xAA, 0xAA, 0xAA, 0xAA, 0xBB, 0xBB, 0xBB, 0xBB, 0xBB, 0xBB, 8, 0] @ samplePadded"

definition sampleFrameWords :: "axiWord list" where
  "sampleFrameWords = [sampleWord 0xBBBBAAAAAAAAAAAA, sampleWord 0x450008BBBBBBBB, sampleWord 0x640000000001800, sampleWord 0xA0100000ADB66, \<lparr>ax_data = 0x40302010500, ax_keep = 0xFF, ax_last = True\<rparr>]"

definition sampleIpPath :: ipPath where
  "sampleIpPath = \<lparr>
     hp_detect = \<lparr>de_state = DE_FIRST, de_header = \<lparr>ph_ready = False, ph_idx = 0, ph_header = 0\<rparr>, de_prevWord = zeroWord,
       de_metaWritten = False, de_dataIn = sampleFrameWords, de_etherType = [], de_dataOut = []\<rparr>,
     hp_route = \<lparr>er_fsmState = False, er_etherType = 0, er_typeIn = [], er_dataIn = [], er_arpOut = [], er_ipOut = []\<rparr>,
     hp_shift = \<lparr>sh_fsmState = SH_PKG, sh_firstWord = True, sh_prevWord = zeroWord, sh_input = [], sh_output = []\<rparr>,
     hp_check = \<lparr>ck_sums = (\<lambda>i. 0), ck_headerLen = 0, ck_wordCount = 0, ck_dstIpAddress = 0, ck_ipVersion = 0, ck_csumSent = False,
       ck_csumSend = False, ck_subSums = \<lparr>hs_sums = (\<lambda>i. 0), hs_ipMatch = False, hs_hdrValid = False\<rparr>, ck_dataIn = [], ck_dataOut = [], ck_sumsOut = []\<rparr>,
     hp_verify = ([], []),
     hp_dropper = \<lparr>id_state = ID_GET_VALID, id_inHdrErrors = 0, id_inAddrErrors = 0, id_inReceives = 0, id_dataIn = [], id_validIn = [], id_dataOut = []\<rparr>,
     hp_cut = \<lparr>cl_drop = False, cl_wordCount = 0, cl_totalLength = 0, cl_dataIn = [], cl_dataOut = []\<rparr>,
     hp_proto = \<lparr>dp2_leftover = False, dp2_ipProtocol = 0, dp2_wordCount = 0, dp2_prevWord = zeroWord, dp2_inDelivers = 0,
       dp2_inUnknownProtos = 0, dp2_dataIn = [], dp2_icmpOut = [], dp2_igmpOut = [], dp2_tcpOut = []\<rparr>\<rparr>"

lemma sampleIpPath_idle: "ipIdle sampleIpPath"
  by (simp add: ipIdle_def sampleIpPath_def detectReady_def shiftReady_def checkReady_def cutReady_def protoReady_def)

lemma sampleIp_good: "totalFits samplePadded" "forHost 0x0500000A samplePadded" "take (totalLength samplePadded) samplePadded = sampleIpBytes"
proof -
  have hb: "headerBytes samplePadded = [69, 0, 0, 24, 0, 0, 0, 0, 64, 6, 102, 219, 10, 0, 0, 1, 10, 0, 0, 5]" by code_simp
  have sum: "oneSum (packetSum (headerBytes samplePadded)) = 65535"
    unfolding hb by (simp add: packetSum_def oneSum_def be16_def upd_def mask_eq_exp_minus_1)
  show "totalFits samplePadded" by code_simp
  have "ipVersion samplePadded = 4" "isMatch 0x0500000A (dstAddress samplePadded)" by (code_simp, code_simp)
  with sum show "forHost 0x0500000A samplePadded" by (simp add: forHost_def goodHeader_def)
  show "take (totalLength samplePadded) samplePadded = sampleIpBytes" by code_simp
qed

theorem frames_routed_witness:
  "\<exists>q. (ipFire CONFIG_TCP 0x0500000A)\<^sup>*\<^sup>* sampleIpPath q \<and> carries (dp2_tcpOut (hp_proto q)) sampleIpBytes \<and> dp2_inDelivers (hp_proto q) = 1"
proof -
  have h: "de_dataIn (hp_detect sampleIpPath) = sampleFrameWords @ []" "14 \<le> length sampleFrame" "samplePadded = drop 14 sampleFrame"
    by (simp_all add: sampleIpPath_def sampleFrame_def samplePadded_def sampleIpBytes_def)
  have c: "carries sampleFrameWords sampleFrame" by code_simp
  have t: "etherType sampleFrame = ETH_IPv4" by code_simp
  have b: "sampleIpBytes ! 9 = PROTO_TCP" "isHandledProtocol CONFIG_TCP PROTO_TCP" by (code_simp, code_simp)
  have d: "dp2_tcpOut (hp_proto sampleIpPath) = []" "dp2_inDelivers (hp_proto sampleIpPath) = 0" by (simp_all add: sampleIpPath_def)
  obtain q where q: "(ipFire CONFIG_TCP 0x0500000A)\<^sup>*\<^sup>* sampleIpPath q"
    "sentOn CONFIG_TCP (hp_proto sampleIpPath) (take (totalLength samplePadded) samplePadded) (hp_proto q)"
    using frames_routed [OF sampleIpPath_idle h(1) c h(2,3) sampleIp_good(1), of CONFIG_TCP "0x0500000A"] t sampleIp_good(2) by auto
  from q(2) b d have "carries (dp2_tcpOut (hp_proto q)) sampleIpBytes \<and> dp2_inDelivers (hp_proto q) = 1"
    unfolding sentOn_def sampleIp_good(3) by auto
  with q(1) show ?thesis by blast
qed

end
