(* ===== verification/Net_Mac_Ip.thy ===== *)
theory Net_Mac_Ip
  imports Net_Ip_Handler
begin

text \<open>
  The MAC encoder, \<^verbatim>\<open>hw/tcp_udp_ip/hls/mac_ip_encode/mac_ip_encode.cpp\<close> with
  \<^verbatim>\<open>compute_ipv4_checksum\<close> of \<^verbatim>\<open>ipv4/ipv4_utils.cpp\<close>: it asks the ARP server for the hardware
  address of the next hop of each IPv4 packet, puts in the header checksum and the Ethernet header, or drops the packet
  when the address is not known.

  The last theorem connects it with the IP handler of the next hop: what one host encodes is what the other one delivers.
\<close>

section \<open>Next hop\<close>

record ipExtract =
  ex_header :: "160 word packetHeader"
  ex_metaWritten :: bool
  ex_dataIn :: "axiWord hls_stream"
  ex_dataOut :: "axiWord hls_stream"
  ex_arpTableOut :: "32 word hls_stream"

definition nextHop :: "32 word \<Rightarrow> 32 word \<Rightarrow> 32 word \<Rightarrow> 32 word" where
  "nextHop regSubNetMask regDefaultGateway dst =
     (if isMulticastAddr dst \<or> (dst AND regSubNetMask) = (regDefaultGateway AND regSubNetMask) then dst else regDefaultGateway)"

definition extract_ip_address :: "32 word \<Rightarrow> 32 word \<Rightarrow> ipExtract \<Rightarrow> ipExtract" where
  "extract_ip_address regSubNetMask regDefaultGateway k =
     (if \<not> s_empty (ex_dataIn k) then
        (let w = s_head (ex_dataIn k);
             k = k\<lparr>ex_dataIn := s_rest (ex_dataIn k), ex_header := parseWord (ax_data w) (ex_header k), ex_dataOut := s_write (ex_dataOut k) w\<rparr>;
             k = (if ph_ready (ex_header k) \<and> \<not> ex_metaWritten k
                  then k\<lparr>ex_arpTableOut := s_write (ex_arpTableOut k)
                           (nextHop regSubNetMask regDefaultGateway (reverse32 (getDstAddr (ph_header (ex_header k))))), ex_metaWritten := True\<rparr>
                  else k)
         in if ax_last w then k\<lparr>ex_metaWritten := False, ex_header := clearHeader (ex_header k)\<rparr> else k)
      else k)"

section \<open>Header checksum\<close>

record ipSums =
  cp_sums :: subSums
  cp_headerLen :: "4 word"
  cp_wordCount :: "3 word"
  cp_dataIn :: "axiWord hls_stream"
  cp_dataOut :: "axiWord hls_stream"
  cp_subSums :: "subSums hls_stream"

definition sumColumns :: "(nat \<Rightarrow> bool) \<Rightarrow> axiWord \<Rightarrow> ipSums \<Rightarrow> ipSums" where
  "sumColumns c w k = k\<lparr>cp_sums := (\<lambda>i. if c i then headerColumn w i (cp_sums k i) else cp_sums k i)\<rparr>"

definition computeWord :: "bool \<Rightarrow> axiWord \<Rightarrow> ipSums \<Rightarrow> ipSums" where
  "computeWord skipChecksum w k =
     (if cp_wordCount k = 0 then
        (sumColumns (\<lambda>i. i < 4) w k)\<lparr>cp_headerLen := rng 3 0 (ax_data w) - 2, cp_wordCount := 1\<rparr>
      else if cp_wordCount k = 1 then
        (sumColumns (\<lambda>i. i < 4 \<and> (\<not> skipChecksum \<or> i \<noteq> 1)) w k)\<lparr>cp_headerLen := cp_headerLen k - 2, cp_wordCount := 2\<rparr>
      else
        (let l = cp_headerLen k in
         if l = 0 then k
         else if l = 1 then
           (let k = (sumColumns (\<lambda>i. i < 2) w k)\<lparr>cp_headerLen := 0\<rparr> in k\<lparr>cp_subSums := s_write (cp_subSums k) (cp_sums k)\<rparr>)
         else
           (let k = sumColumns (\<lambda>i. i < 4) w k;
                k = (if l = 2 then k\<lparr>cp_subSums := s_write (cp_subSums k) (cp_sums k)\<rparr> else k)
            in k\<lparr>cp_headerLen := l - 2\<rparr>)))"

definition compute_ipv4_checksum :: "bool \<Rightarrow> ipSums \<Rightarrow> ipSums" where
  "compute_ipv4_checksum skipChecksum k =
     (if \<not> s_empty (cp_dataIn k) then
        (let w = s_head (cp_dataIn k);
             k = computeWord skipChecksum w (k\<lparr>cp_dataIn := s_rest (cp_dataIn k), cp_dataOut := s_write (cp_dataOut k) w\<rparr>)
         in if ax_last w then k\<lparr>cp_sums := (\<lambda>i. if i < 4 then 0 else cp_sums k i), cp_wordCount := 0\<rparr> else k)
      else k)"

record ipInsert =
  ci_wordCount :: "4 word"
  ci_checksum :: "16 word"
  ci_dataIn :: "axiWord hls_stream"
  ci_checksumIn :: "16 word hls_stream"
  ci_dataOut :: "axiWord hls_stream"

definition insert_ip_checksum :: "ipInsert \<Rightarrow> ipInsert" where
  "insert_ip_checksum k =
     (let n = ci_wordCount k in
      if n = 0 then
        (if \<not> s_empty (ci_dataIn k) \<and> \<not> s_empty (ci_checksumIn k) then
           (let w = s_head (ci_dataIn k) in
            k\<lparr>ci_dataIn := s_rest (ci_dataIn k), ci_checksum := s_head (ci_checksumIn k), ci_checksumIn := s_rest (ci_checksumIn k),
              ci_dataOut := s_write (ci_dataOut k) w, ci_wordCount := (if ax_last w then 0 else 1)\<rparr>)
         else k)
      else if \<not> s_empty (ci_dataIn k) then
        (let w = s_head (ci_dataIn k);
             w' = (if n = 1 then w\<lparr>ax_data := upd 31 16 (reverse16 (ci_checksum k)) (ax_data w)\<rparr> else w)
         in k\<lparr>ci_dataIn := s_rest (ci_dataIn k), ci_dataOut := s_write (ci_dataOut k) w',
              ci_wordCount := (if ax_last w then 0 else if n = 1 then 2 else n)\<rparr>)
      else k)"

section \<open>Hardware address\<close>

definition ethHeader :: "48 word \<Rightarrow> 48 word \<Rightarrow> 112 word packetHeader" where
  "ethHeader dst src = clearHeader \<lparr>ph_ready = False, ph_idx = 0,
     ph_header = upd 111 96 (reverse16 0x0800) (upd 95 48 src (upd 47 0 dst 0))\<rparr>"

datatype replyState = HAR_ARP | HAR_FWD | HAR_DROP

record arpReplies =
  hr_state :: replyState
  hr_dropPktCnt :: "32 word"
  hr_droppedPkts :: "32 word"
  hr_arpTableIn :: "arpTableReply hls_stream"
  hr_dataIn :: "axiWord hls_stream"
  hr_headerOut :: "112 word packetHeader hls_stream"
  hr_dataOut :: "axiWord hls_stream"

definition handle_arp_reply :: "48 word \<Rightarrow> arpReplies \<Rightarrow> arpReplies" where
  "handle_arp_reply myMacAddress k =
     (case hr_state k of
        HAR_ARP \<Rightarrow>
          (let k = (if \<not> s_empty (hr_arpTableIn k) then
                      (let r = s_head (hr_arpTableIn k); k = k\<lparr>hr_arpTableIn := s_rest (hr_arpTableIn k)\<rparr> in
                       if al_hit r
                       then k\<lparr>hr_headerOut := s_write (hr_headerOut k) (ethHeader (al_macAddress r) myMacAddress), hr_state := HAR_FWD\<rparr>
                       else k\<lparr>hr_dropPktCnt := hr_dropPktCnt k + 1, hr_state := HAR_DROP\<rparr>)
                    else k)
           in k\<lparr>hr_droppedPkts := hr_dropPktCnt k\<rparr>)
      | HAR_FWD \<Rightarrow>
          if \<not> s_empty (hr_dataIn k) then
            (let w = s_head (hr_dataIn k) in
             k\<lparr>hr_dataIn := s_rest (hr_dataIn k), hr_dataOut := s_write (hr_dataOut k) w, hr_state := (if ax_last w then HAR_ARP else HAR_FWD)\<rparr>)
          else k
      | HAR_DROP \<Rightarrow>
          if \<not> s_empty (hr_dataIn k) then
            k\<lparr>hr_dataIn := s_rest (hr_dataIn k), hr_state := (if ax_last (s_head (hr_dataIn k)) then HAR_ARP else HAR_DROP)\<rparr>
          else k)"

datatype frameState = GE_HEADER | GE_PARTIAL_HEADER | GE_BODY

record framer =
  ge_state :: frameState
  ge_header :: "112 word packetHeader"
  ge_packets_sent :: "32 word"
  ge_headerIn :: "112 word packetHeader hls_stream"
  ge_dataIn :: "axiWord hls_stream"
  ge_dataOut :: "axiWord hls_stream"

definition insert_ethernet_header :: "framer \<Rightarrow> framer" where
  "insert_ethernet_header k =
     (case ge_state k of
        GE_HEADER \<Rightarrow>
          if \<not> s_empty (ge_headerIn k) then
            (let (d, _, h) = consumeWord 0 (s_head (ge_headerIn k)) in
             k\<lparr>ge_headerIn := s_rest (ge_headerIn k), ge_header := h, ge_state := GE_PARTIAL_HEADER,
               ge_dataOut := s_write (ge_dataOut k) \<lparr>ax_data = d, ax_keep = 0xFF, ax_last = False\<rparr>\<rparr>)
          else k
      | GE_PARTIAL_HEADER \<Rightarrow>
          if \<not> s_empty (ge_dataIn k) then
            (let w = s_head (ge_dataIn k); (d, _, h) = consumeWord (ax_data w) (ge_header k) in
             k\<lparr>ge_dataIn := s_rest (ge_dataIn k), ge_header := h, ge_dataOut := s_write (ge_dataOut k) (w\<lparr>ax_data := d\<rparr>),
               ge_state := (if ax_last w then GE_HEADER else GE_BODY)\<rparr>)
          else k
      | GE_BODY \<Rightarrow>
          if \<not> s_empty (ge_dataIn k) then
            (let w = s_head (ge_dataIn k) in
             k\<lparr>ge_dataIn := s_rest (ge_dataIn k), ge_dataOut := s_write (ge_dataOut k) w,
               ge_packets_sent := (if ax_last w then ge_packets_sent k + 1 else ge_packets_sent k),
               ge_state := (if ax_last w then GE_HEADER else GE_BODY)\<rparr>)
          else k)"

section \<open>What each stage does to a packet\<close>

definition exReady :: "ipExtract \<Rightarrow> bool" where
  "exReady k \<longleftrightarrow> ph_idx (ex_header k) = 0 \<and> \<not> ph_ready (ex_header k) \<and> \<not> ex_metaWritten k"

lemma parse_ready: "ph_ready h \<Longrightarrow> parseWord d h = h"
  by (simp add: parseWord_def)

lemma extract_rest: "is_packet ws \<Longrightarrow> ph_ready (ex_header k) \<Longrightarrow> ex_metaWritten k \<Longrightarrow> ex_dataIn k = ws @ rest \<Longrightarrow>
    (extract_ip_address m g ^^ length ws) k = k\<lparr>ex_dataIn := rest, ex_dataOut := ex_dataOut k @ ws, ex_metaWritten := False,
      ex_header := clearHeader (ex_header k)\<rparr>"
proof (induction ws arbitrary: k)
  case Nil
  then show ?case by simp
next
  case (Cons w ws)
  let ?k = "k\<lparr>ex_dataIn := ws @ rest, ex_dataOut := ex_dataOut k @ [w]\<rparr>"
  have st: "extract_ip_address m g k = (if ax_last w then ?k\<lparr>ex_metaWritten := False, ex_header := clearHeader (ex_header k)\<rparr> else ?k)"
    using Cons.prems(2-4) by (simp add: extract_ip_address_def parse_ready s_write_def Let_def)
  show ?case
  proof (cases "ax_last w")
    case True
    then have "ws = []" using Cons.prems(1) by (simp add: is_packet_Cons)
    with True st show ?thesis by simp
  next
    case False
    then have ws: "is_packet ws" using Cons.prems(1) by (simp add: is_packet_Cons)
    from Cons.IH [OF ws, of ?k] Cons.prems(2-4) False st show ?thesis by (simp add: funpow_Suc_apply del: funpow.simps(2))
  qed
qed

lemma extract_packet:
  assumes "exReady k" and "ex_dataIn k = ws @ rest" and "carries ws bs" and "20 \<le> length bs"
  shows "\<exists>k'. (extract_ip_address m g ^^ length ws) k = k' \<and> exReady k' \<and> ex_dataIn k' = rest \<and> ex_dataOut k' = ex_dataOut k @ ws \<and>
    ex_arpTableOut k' = ex_arpTableOut k @ [nextHop m g (dstAddress bs)]"
proof -
  obtain a b c vs where ws: "ws = a # b # c # vs"
    using assms(3,4) by (cases ws; cases "tl ws"; cases "tl (tl ws)") (auto simp: carries_Cons carries_single lastWord_def)
  have ca: "carries (b # c # vs) (drop 8 bs)" "carries (c # vs) (drop 16 bs)" "\<not> ax_last a" "\<not> ax_last b"
    using assms(3) by (simp_all add: ws carries_Cons)
  have r: "ph_idx (ex_header k) = 0" "\<not> ph_ready (ex_header k)" "\<not> ex_metaWritten k" using assms(1) by (simp_all add: exReady_def)
  define h1 where "h1 = parseWord (ax_data a) (ex_header k)"
  define h2 where "h2 = parseWord (ax_data b) h1"
  define h3 where "h3 = parseWord (ax_data c) h2"
  have 0: "parsed (ex_header k) 0 bs" using r by (simp add: parsed_def)
  have 1: "parsed h1 (Suc 0) bs" unfolding h1_def
    by (rule parsed_word [OF 0]) (use carries_byteAt [OF assms(3) [unfolded ws]] assms(4) in simp_all)
  have 2: "parsed h2 (Suc (Suc 0)) bs" unfolding h2_def
    by (rule parsed_word [OF 1]) (use carries_byteAt [OF ca(1)] assms(4) in simp_all)
  have 3: "parsed h3 (Suc (Suc (Suc 0))) bs" unfolding h3_def
    by (rule parsed_word [OF 2]) (use carries_byteAt [OF ca(2)] assms(4) in simp_all)
  have ready: "\<not> ph_ready h1" "\<not> ph_ready h2" "ph_ready h3"
    using parsed_ready [OF 1] parsed_ready [OF 2] parsed_ready [OF 3] by simp_all
  have byte: "headerByte (ph_header h3) i = bs ! i" if "i < 20" for i using parsed_byte [OF 3, of i] that by simp
  have d: "reverse32 (getDstAddr (ph_header h3)) = dstAddress bs"
    using byte by (simp add: getDstAddr_def dstAddress_def rng32_bytes [where i = 16])
  let ?o = "ex_dataOut k"
  have 11: "extract_ip_address m g k = k\<lparr>ex_dataIn := b # c # vs @ rest, ex_header := h1, ex_dataOut := ?o @ [a]\<rparr>" (is "_ = ?k1")
    using r ca(3) ready assms(2) by (simp add: extract_ip_address_def ws s_write_def Let_def h1_def)
  have 12: "extract_ip_address m g ?k1 = k\<lparr>ex_dataIn := c # vs @ rest, ex_header := h2, ex_dataOut := ?o @ [a, b]\<rparr>" (is "_ = ?k2")
    using r ca(4) ready by (simp add: extract_ip_address_def s_write_def Let_def h2_def)
  let ?k3 = "k\<lparr>ex_dataIn := vs @ rest, ex_header := h3, ex_dataOut := ?o @ [a, b, c],
      ex_arpTableOut := ex_arpTableOut k @ [nextHop m g (dstAddress bs)], ex_metaWritten := True\<rparr>"
  have 13: "extract_ip_address m g ?k2 = (if ax_last c then ?k3\<lparr>ex_metaWritten := False, ex_header := clearHeader h3\<rparr> else ?k3)"
    using r ready d by (simp add: extract_ip_address_def s_write_def Let_def h3_def)
  have run: "(extract_ip_address m g ^^ length ws) k = (extract_ip_address m g ^^ length vs)
      (if ax_last c then ?k3\<lparr>ex_metaWritten := False, ex_header := clearHeader h3\<rparr> else ?k3)"
    by (simp only: ws list.size(4) add_0_right add_Suc_right funpow_Suc_apply 11 12 13)
  show ?thesis
  proof (cases "vs = []")
    case True
    then have "ax_last c" using ca(2) by (simp add: carries_single lastWord_def)
    with True r(3) show ?thesis unfolding run by (simp add: ws exReady_def clearHeader_def)
  next
    case False
    then have c: "\<not> ax_last c" "is_packet vs" using ca(2) carries_packet by (auto simp: carries_Cons)
    have k3: "ph_ready (ex_header ?k3)" "ex_metaWritten ?k3" "ex_dataIn ?k3 = vs @ rest" using ready by simp_all
    from extract_rest [OF c(2) k3, of m g] c(1) show ?thesis
      unfolding run by (simp add: ws exReady_def clearHeader_def)
  qed
qed

text \<open>The checksum over the header as if its own field were zero.\<close>

definition unsummed :: "8 word list \<Rightarrow> 8 word list" where
  "unsummed bs = take 10 bs @ [0, 0] @ drop 12 bs"

definition cpReady :: "ipSums \<Rightarrow> bool" where
  "cpReady k \<longleftrightarrow> cp_wordCount k = 0 \<and> (\<forall>i<4. cp_sums k i = 0)"

lemma compute_tail: "is_packet ws \<Longrightarrow> cp_wordCount k = 2 \<Longrightarrow> cp_headerLen k = 0 \<Longrightarrow> cp_dataIn k = ws @ rest \<Longrightarrow>
    cpReady ((compute_ipv4_checksum s ^^ length ws) k) \<and> cp_dataIn ((compute_ipv4_checksum s ^^ length ws) k) = rest \<and>
    cp_dataOut ((compute_ipv4_checksum s ^^ length ws) k) = cp_dataOut k @ ws \<and> cp_subSums ((compute_ipv4_checksum s ^^ length ws) k) = cp_subSums k"
proof (induction ws arbitrary: k)
  case Nil
  then show ?case by simp
next
  case (Cons w ws)
  let ?k = "k\<lparr>cp_dataIn := ws @ rest, cp_dataOut := cp_dataOut k @ [w]\<rparr>"
  have st: "compute_ipv4_checksum s k = (if ax_last w then ?k\<lparr>cp_sums := (\<lambda>i. if i < 4 then 0 else cp_sums k i), cp_wordCount := 0\<rparr> else ?k)"
    using Cons.prems(2-4) by (simp add: compute_ipv4_checksum_def computeWord_def s_write_def Let_def cong: if_cong)
  show ?case
  proof (cases "ax_last w")
    case True
    then have "ws = []" using Cons.prems(1) by (simp add: is_packet_Cons)
    with True st show ?thesis by (simp add: cpReady_def)
  next
    case False
    then have ws: "is_packet ws" using Cons.prems(1) by (simp add: is_packet_Cons)
    from Cons.IH [OF ws, of ?k] Cons.prems(2-4) False st show ?thesis by (simp add: funpow_Suc_apply del: funpow.simps(2))
  qed
qed

lemma compute_header:
  assumes "0 < h" and "h < 16" and "4 * h \<le> length bs" and "carries ws bs" and "cp_wordCount k = 2" and "cp_headerLen k = of_nat h"
    and "columnsOf (cp_sums k) n" and "cp_dataIn k = ws @ rest"
  shows "\<exists>k' r m. (compute_ipv4_checksum s ^^ length ws) k = k' \<and> cpReady k' \<and> cp_dataIn k' = rest \<and> cp_dataOut k' = cp_dataOut k @ ws \<and>
    cp_subSums k' = cp_subSums k @ [r] \<and> columnsOf r m \<and> m 0 + m 1 + m 2 + m 3 = n 0 + n 1 + n 2 + n 3 + packetSum (take (4 * h) bs)"
  using assms
proof (induction ws arbitrary: h bs k n)
  case Nil
  then show ?case by simp
next
  case (Cons w ws)
  have h8: "unat (of_nat h :: 4 word) = h" using Cons.prems(2) by (simp add: unat_of_nat_small)
  have hn: "(of_nat h :: 4 word) = 1 \<longleftrightarrow> h = 1" "(of_nat h :: 4 word) = 2 \<longleftrightarrow> h = 2" "(of_nat h :: 4 word) \<noteq> 0"
    using Cons.prems(1) h8 by (auto simp: word_eq_iff_unsigned)
  have c: "i < 4 \<Longrightarrow> unat (cp_sums k i) = oneSum (n i)" "i < 4 \<Longrightarrow> unat (cp_sums k i) \<le> 65535" for i
    using Cons.prems(7) by (simp_all add: columnsOf_def oneSum_le)
  let ?k = "k\<lparr>cp_dataIn := ws @ rest, cp_dataOut := cp_dataOut k @ [w]\<rparr>"
  show ?case
  proof (cases "h \<le> 2")
    case True
    then have h12: "h = 1 \<or> h = 2" using Cons.prems(1) by auto
    define r where "r = (\<lambda>i. if i < 2 * h then headerColumn w i (cp_sums k i) else cp_sums k i)"
    define m where "m = (\<lambda>i. n i + (if i < 2 * h then columnAt w i else 0))"
    have r: "columnsOf r m" using c by (simp add: columnsOf_def r_def m_def headerColumn_one)
    have total: "m 0 + m 1 + m 2 + m 3 = n 0 + n 1 + n 2 + n 3 + packetSum (take (4 * h) bs)"
      using h12 columnAt_sums [OF Cons.prems(4)] Cons.prems(3) by (auto simp: m_def)
    let ?k1 = "?k\<lparr>cp_sums := r, cp_headerLen := 0, cp_subSums := cp_subSums k @ [r]\<rparr>"
    have cw: "computeWord s w ?k = ?k1"
      using h12 Cons.prems(5,6) by (elim disjE) (simp_all add: computeWord_def sumColumns_def r_def s_write_def Let_def cong: if_cong)
    have st: "compute_ipv4_checksum s k = (if ax_last w then ?k1\<lparr>cp_sums := (\<lambda>i. if i < 4 then 0 else r i), cp_wordCount := 0\<rparr> else ?k1)"
      using Cons.prems(8) cw by (simp add: compute_ipv4_checksum_def s_write_def Let_def cong: if_cong)
    show ?thesis
    proof (cases "ws = []")
      case True
      then have "ax_last w" using Cons.prems(4) by (simp add: carries_single lastWord_def)
      with True st r total show ?thesis by (intro exI [of _ "compute_ipv4_checksum s k"] exI [of _ r] exI [of _ m]) (simp add: cpReady_def)
    next
      case False
      then have w: "\<not> ax_last w" "is_packet ws" using Cons.prems(4) carries_packet by (auto simp: carries_Cons)
      from compute_tail [OF w(2), of ?k1 rest s] Cons.prems(5) w(1) st r total show ?thesis
        by (intro exI [of _ "(compute_ipv4_checksum s ^^ length ws) ?k1"] exI [of _ r] exI [of _ m])
           (simp add: funpow_Suc_apply del: funpow.simps(2))
    qed
  next
    case False
    have ne: "ws \<noteq> []" using False Cons.prems(3,4) by (auto simp: carries_single lastWord_def)
    then have w: "\<not> ax_last w" "carries ws (drop 8 bs)" using Cons.prems(4) by (simp_all add: carries_Cons)
    define r where "r = (\<lambda>i. if i < 4 then headerColumn w i (cp_sums k i) else cp_sums k i)"
    define m where "m = (\<lambda>i. n i + columnAt w i)"
    have r: "columnsOf r m" using c by (simp add: columnsOf_def r_def m_def headerColumn_one)
    have l: "(of_nat h :: 4 word) - 2 = of_nat (h - 2)" using False by (simp add: of_nat_diff)
    let ?k1 = "?k\<lparr>cp_sums := r, cp_headerLen := of_nat (h - 2)\<rparr>"
    have h12: "h \<noteq> 1" "h \<noteq> 2" using False by auto
    have st: "compute_ipv4_checksum s k = ?k1"
      using Cons.prems(5,6,8) w(1) hn h12 l
      by (simp add: compute_ipv4_checksum_def computeWord_def sumColumns_def r_def s_write_def Let_def cong: if_cong)
    have "4 * h = 8 + 4 * (h - 2)" using False by simp
    then have "take (4 * h) bs = take 8 bs @ take (4 * (h - 2)) (drop 8 bs)" by (simp only: take_add)
    then have "packetSum (take (4 * h) bs) = packetSum (take 8 bs) + packetSum (take (4 * (h - 2)) (drop 8 bs))"
      using Cons.prems(3) False by (simp add: packetSum_append8)
    then have total: "m 0 + m 1 + m 2 + m 3 + packetSum (take (4 * (h - 2)) (drop 8 bs)) = n 0 + n 1 + n 2 + n 3 + packetSum (take (4 * h) bs)"
      using columnAt_sums(1) [OF Cons.prems(4)] Cons.prems(3) False by (simp add: m_def)
    have k1: "0 < h - 2" "h - 2 < 16" "4 * (h - 2) \<le> length (drop 8 bs)" "cp_wordCount ?k1 = 2" "cp_headerLen ?k1 = of_nat (h - 2)"
      "columnsOf (cp_sums ?k1) m" "cp_dataIn ?k1 = ws @ rest"
      using False Cons.prems r by simp_all
    from Cons.IH [OF k1(1-3) w(2) k1(4-7), unfolded total] show ?thesis
      by (simp add: funpow_Suc_apply st del: funpow.simps(2))
  qed
qed

lemma unsummed_parts:
  assumes "20 \<le> length bs"
  shows "take 8 (unsummed bs) = take 8 bs" and "drop 16 (unsummed bs) = drop 16 bs" and "length (unsummed bs) = length bs"
    and "unsummed bs ! 0 = bs ! 0" and "i < 8 \<Longrightarrow> take 8 (drop 8 (unsummed bs)) ! i = (if i = 2 \<or> i = 3 then 0 else bs ! (8 + i))"
  using assms by (auto simp: unsummed_def min_def nth_append nth_Cons' not_less)

lemma header_split:
  assumes "5 \<le> ipHeaderLength bs"
  shows "headerBytes bs = take 8 bs @ take 8 (drop 8 bs) @ take (4 * (ipHeaderLength bs - 4)) (drop 16 bs)"
proof -
  have "4 * ipHeaderLength bs = 8 + (8 + 4 * (ipHeaderLength bs - 4))" using assms by simp
  then have "headerBytes bs = take 8 bs @ take 8 (drop 8 bs) @ take (4 * (ipHeaderLength bs - 4)) (drop 8 (drop 8 bs))"
    unfolding headerBytes_def by (simp only: take_add)
  then show ?thesis by simp
qed

lemma be16_zero: "be16 0 0 = 0" by code_simp

lemma compute_packet:
  assumes "cpReady k" and "cp_dataIn k = ws @ rest" and "carries ws bs" and "headerFits bs"
  shows "\<exists>k' r m. (compute_ipv4_checksum True ^^ length ws) k = k' \<and> cpReady k' \<and> cp_dataIn k' = rest \<and> cp_dataOut k' = cp_dataOut k @ ws \<and>
    cp_subSums k' = cp_subSums k @ [r] \<and> columnsOf r m \<and> m 0 + m 1 + m 2 + m 3 = packetSum (headerBytes (unsummed bs))"
proof -
  let ?h = "ipHeaderLength bs"
  have h: "5 \<le> ?h" "4 * ?h \<le> length bs" "?h < 16" using assms(4) ipHeaderLength_less by (simp_all add: headerFits_def)
  then have l: "20 \<le> length bs" by simp
  obtain a b c vs where ws: "ws = a # b # c # vs"
    using assms(3) l by (cases ws; cases "tl ws"; cases "tl (tl ws)") (auto simp: carries_Cons carries_single lastWord_def)
  have ca: "carries (b # c # vs) (drop 8 bs)" "carries (c # vs) (drop 16 bs)" "\<not> ax_last a" "\<not> ax_last b"
    using assms(3) by (simp_all add: ws carries_Cons)
  note by1 = carries_byteAt [OF assms(3) [unfolded ws]] and by2 = carries_byteAt [OF ca(1)]
  have r: "cp_wordCount k = 0" "\<And>i. i < 4 \<Longrightarrow> cp_sums k i = 0" using assms(1) by (simp_all add: cpReady_def)
  have b0: "byteAt (ax_data a) 0 = bs ! 0" by (rule by1) (use l in linarith)+
  have hl: "rng 3 0 (ax_data a) = (of_nat ?h :: 4 word)"
  proof -
    have "(rng 3 0 (ax_data a) :: 4 word) = rng 3 0 (byteAt (ax_data a) 0)" by (simp add: byteAt_def rng_simps)
    then show ?thesis using low_nibble [of "bs ! 0"] by (simp add: b0 ipHeaderLength_def)
  qed
  define s1 where "s1 = (\<lambda>i. if i < 4 then headerColumn a i (cp_sums k i) else cp_sums k i)"
  define s2 where "s2 = (\<lambda>i. if i < 4 \<and> i \<noteq> 1 then headerColumn b i (s1 i) else s1 i)"
  define n where "n = (\<lambda>i. columnAt a i + (if i = 1 then 0 else columnAt b i))"
  have c1: "unat (s1 i) = oneSum (columnAt a i)" if "i < 4" for i using r(2) [OF that] that by (simp add: s1_def headerColumn_one)
  have s2: "columnsOf s2 n" using c1 by (simp add: columnsOf_def s2_def n_def headerColumn_one oneSum_le)
  define k1 where "k1 = k\<lparr>cp_dataIn := b # c # vs @ rest, cp_dataOut := cp_dataOut k @ [a], cp_sums := s1, cp_headerLen := of_nat ?h - 2, cp_wordCount := 1\<rparr>"
  have st1: "compute_ipv4_checksum True k = k1"
    using r assms(2) ca(3) hl by (simp add: compute_ipv4_checksum_def computeWord_def sumColumns_def s_write_def Let_def ws k1_def s1_def cong: if_cong)
  define k2 where "k2 = k1\<lparr>cp_dataIn := c # vs @ rest, cp_dataOut := cp_dataOut k @ [a, b], cp_sums := s2, cp_headerLen := of_nat (?h - 4), cp_wordCount := 2\<rparr>"
  have hm: "(of_nat ?h :: 4 word) - 2 - 2 = of_nat (?h - 4)" using h(1) by (simp add: of_nat_diff)
  have st2: "compute_ipv4_checksum True k1 = k2"
    using ca(4) hm by (simp add: compute_ipv4_checksum_def computeWord_def sumColumns_def s_write_def Let_def k1_def k2_def s2_def cong: if_cong)
  have k2: "0 < ?h - 4" "?h - 4 < 16" "4 * (?h - 4) \<le> length (drop 16 bs)" "cp_wordCount k2 = 2" "cp_headerLen k2 = of_nat (?h - 4)"
    "columnsOf (cp_sums k2) n" "cp_dataIn k2 = (c # vs) @ rest"
    using h s2 by (simp_all add: k2_def k1_def)
  obtain k' x m where x: "(compute_ipv4_checksum True ^^ length (c # vs)) k2 = k'" "cpReady k'" "cp_dataIn k' = rest"
    "cp_dataOut k' = cp_dataOut k2 @ c # vs" "cp_subSums k' = cp_subSums k2 @ [x]" "columnsOf x m"
    "m 0 + m 1 + m 2 + m 3 = n 0 + n 1 + n 2 + n 3 + packetSum (take (4 * (?h - 4)) (drop 16 bs))"
    using compute_header [OF k2(1-3) ca(2) k2(4-7), of True] by blast
  have run: "(compute_ipv4_checksum True ^^ length ws) k = k'"
    using x(1) by (simp add: ws funpow_Suc_apply st1 st2 del: funpow.simps(2))
  note u = unsummed_parts [OF l]
  have hu: "ipHeaderLength (unsummed bs) = ?h" by (simp add: ipHeaderLength_def u(4))
  have mid: "columnAt b 0 + columnAt b 2 + columnAt b 3 = packetSum (take 8 (drop 8 (unsummed bs)))"
  proof -
    let ?b = "\<lambda>i. byteAt (ax_data b) i"
    have "take 8 (drop 8 (unsummed bs)) = map (\<lambda>i. if i = 2 \<or> i = 3 then 0 else ?b i) [0..<8]"
      using u(3,5) by2 l by (intro nth_equalityI) simp_all
    also have "\<dots> = [?b 0, ?b 1, 0, 0, ?b 4, ?b 5, ?b 6, ?b 7]" by (simp add: upt_rec numeral_eq_Suc)
    finally have "take 8 (drop 8 (unsummed bs)) = [?b 0, ?b 1, 0, 0, ?b 4, ?b 5, ?b 6, ?b 7]" .
    then show ?thesis by (simp add: packetSum_def columnAt_def be16_zero)
  qed
  have total: "n 0 + n 1 + n 2 + n 3 + packetSum (take (4 * (?h - 4)) (drop 16 bs)) = packetSum (headerBytes (unsummed bs))"
  proof -
    have "headerBytes (unsummed bs) = take 8 bs @ take 8 (drop 8 (unsummed bs)) @ take (4 * (?h - 4)) (drop 16 bs)"
      using header_split [of "unsummed bs"] h(1) by (simp add: hu u)
    then have "packetSum (headerBytes (unsummed bs)) = packetSum (take 8 bs) + (packetSum (take 8 (drop 8 (unsummed bs))) +
        packetSum (take (4 * (?h - 4)) (drop 16 bs)))"
      using l u(3) by (simp add: packetSum_append8)
    moreover have "columnAt a 0 + columnAt a 1 + columnAt a 2 + columnAt a 3 = packetSum (take 8 bs)"
      using columnAt_sums(1) [OF assms(3) [unfolded ws]] l by linarith
    ultimately show ?thesis using mid unfolding n_def by simp
  qed
  show ?thesis
    using run x(2-7) unfolding total by (intro exI [of _ k'] exI [of _ x] exI [of _ m]) (simp add: k2_def k1_def ws)
qed

text \<open>The checksum that makes the header good.\<close>

definition headerChecksum :: "8 word list \<Rightarrow> 16 word" where
  "headerChecksum bs = of_nat (65535 - oneSum (packetSum (headerBytes (unsummed bs))))"

definition summed :: "8 word list \<Rightarrow> 8 word list" where
  "summed bs = take 10 bs @ bytes16 (headerChecksum bs) @ drop 12 bs"

lemma unat_headerChecksum: "unat (headerChecksum bs) = 65535 - oneSum (packetSum (headerBytes (unsummed bs)))"
  unfolding headerChecksum_def by (rule unat_of_nat_small) simp

lemma finalize_sums:
  assumes "columnsOf r m" and "m 0 + m 1 + m 2 + m 3 = packetSum (headerBytes (unsummed bs))"
  shows "finalize_ipv4_checksum ([r], cs) = ([], cs @ [headerChecksum bs])"
proof -
  have t: "unat (totalSum r) = oneSum (packetSum (headerBytes (unsummed bs)))"
    using totalSum_one [of r m] assms by (simp add: columnsOf_def)
  have "unat (rng 15 0 (NOT (totalSum r)) :: 16 word) = 65535 - oneSum (packetSum (headerBytes (unsummed bs)))"
    using complement_low [of "totalSum r"] oneSum_le [of "packetSum (headerBytes (unsummed bs))"] by (simp add: t)
  then have "rng 15 0 (NOT (totalSum r)) = headerChecksum bs"
    by (simp add: word_unat_eq_iff unat_headerChecksum)
  then show ?thesis by (simp add: finalize_ipv4_checksum_def s_write_def)
qed

lemma summed_parts:
  assumes "20 \<le> length bs"
  shows "take 8 (summed bs) = take 8 bs" and "drop 16 (summed bs) = drop 16 bs" and "length (summed bs) = length bs"
    and "i < length bs \<Longrightarrow> i \<noteq> 10 \<Longrightarrow> i \<noteq> 11 \<Longrightarrow> summed bs ! i = bs ! i"
    and "summed bs ! 10 = rng 15 8 (headerChecksum bs)" and "summed bs ! 11 = rng 7 0 (headerChecksum bs)"
  using assms by (auto simp: summed_def bytes16_def min_def nth_append nth_Cons' not_less)

lemma summed_good:
  assumes "headerFits bs" and "ipVersion bs = 4"
  shows "goodHeader (summed bs)" and "headerFits (summed bs)" and "totalLength (summed bs) = totalLength bs" and "dstAddress (summed bs) = dstAddress bs"
proof -
  have l: "20 \<le> length bs" "5 \<le> ipHeaderLength bs" using assms(1) by (simp_all add: headerFits_def)
  note s = summed_parts [OF l(1)] and u = unsummed_parts [OF l(1)]
  have s0: "summed bs ! 0 = bs ! 0" by (rule s(4)) (use l(1) in linarith)+
  have hs: "ipHeaderLength (summed bs) = ipHeaderLength bs" "ipHeaderLength (unsummed bs) = ipHeaderLength bs"
    by (simp_all add: ipHeaderLength_def s0 u(4))
  show "headerFits (summed bs)" using assms(1) by (simp add: headerFits_def hs s(3))
  show "totalLength (summed bs) = totalLength bs" "dstAddress (summed bs) = dstAddress bs"
    using l(1) by (simp_all add: totalLength_def dstAddress_def s(4))
  define z where "z = [bs ! 8, bs ! 9, 0, 0, bs ! 12, bs ! 13, bs ! 14, bs ! 15]"
  define y where "y = [bs ! 8, bs ! 9, rng 15 8 (headerChecksum bs), rng 7 0 (headerChecksum bs), bs ! 12, bs ! 13, bs ! 14, bs ! 15]"
  have i8: "i < 8 \<Longrightarrow> i = 0 \<or> i = 1 \<or> i = 2 \<or> i = 3 \<or> i = 4 \<or> i = 5 \<or> i = 6 \<or> i = (7 :: nat)" for i by arith
  have z: "take 8 (drop 8 (unsummed bs)) = z"
  proof (rule nth_equalityI)
    show "length (take 8 (drop 8 (unsummed bs))) = length z" using l(1) u(3) by (simp add: z_def)
    fix i assume "i < length (take 8 (drop 8 (unsummed bs)))"
    then have i: "i < 8" by simp
    show "take 8 (drop 8 (unsummed bs)) ! i = z ! i" unfolding u(5) [OF i] using i8 [OF i] by (elim disjE) (simp_all add: z_def)
  qed
  have y: "take 8 (drop 8 (summed bs)) = y"
  proof (rule nth_equalityI)
    show "length (take 8 (drop 8 (summed bs))) = length y" using l(1) s(3) by (simp add: y_def)
    fix i assume "i < length (take 8 (drop 8 (summed bs)))"
    then have i: "i < 8" by simp
    show "take 8 (drop 8 (summed bs)) ! i = y ! i"
      using i8 [OF i] l(1) s(3-6) by (elim disjE) (simp_all add: y_def)
  qed
  have len: "length y = 8" "length z = 8" by (simp_all add: y_def z_def)
  have yz: "packetSum y = packetSum z + unat (headerChecksum bs)" by (simp add: y_def z_def packetSum_def be_bytes be16_zero)
  have "packetSum (headerBytes (summed bs)) = packetSum (headerBytes (unsummed bs)) + unat (headerChecksum bs)"
    using l header_split [of "summed bs"] header_split [of "unsummed bs"] s(3) u(3) yz
    by (simp add: hs s(1,2) u(1,2) y z packetSum_append8 len)
  then have "oneSum (packetSum (headerBytes (summed bs))) = oneSum (oneSum (packetSum (headerBytes (unsummed bs))) + unat (headerChecksum bs))"
    by simp
  also have "\<dots> = 65535" using oneSum_le [of "packetSum (headerBytes (unsummed bs))"] by (simp add: unat_headerChecksum oneSum_small)
  finally show "goodHeader (summed bs)" using assms(2) by (simp add: goodHeader_def ipVersion_def s0)
qed

text \<open>Putting the checksum in.\<close>

lemma insert_rest: "is_packet ws \<Longrightarrow> ci_wordCount k = 2 \<Longrightarrow> ci_dataIn k = ws @ rest \<Longrightarrow>
    (insert_ip_checksum ^^ length ws) k = k\<lparr>ci_dataIn := rest, ci_dataOut := ci_dataOut k @ ws, ci_wordCount := 0\<rparr>"
proof (induction ws arbitrary: k)
  case Nil
  then show ?case by simp
next
  case (Cons w ws)
  let ?k = "k\<lparr>ci_dataIn := ws @ rest, ci_dataOut := ci_dataOut k @ [w], ci_wordCount := (if ax_last w then 0 else 2)\<rparr>"
  have st: "insert_ip_checksum k = ?k" using Cons.prems(2,3) by (simp add: insert_ip_checksum_def s_write_def Let_def)
  show ?case
  proof (cases "ax_last w")
    case True
    then have "ws = []" using Cons.prems(1) by (simp add: is_packet_Cons)
    with True st show ?thesis by simp
  next
    case False
    then have ws: "is_packet ws" using Cons.prems(1) by (simp add: is_packet_Cons)
    from Cons.IH [OF ws, of ?k] Cons.prems(2-3) False st show ?thesis by (simp add: funpow_Suc_apply del: funpow.simps(2))
  qed
qed

lemma byteAt_upd_mid: "i < 8 \<Longrightarrow> byteAt (upd 31 16 (reverse16 c) d) i = (if i = 2 then rng 15 8 c else if i = 3 then rng 7 0 c else byteAt d i)"
proof -
  assume "i < 8"
  then have "i = 0 \<or> i = 1 \<or> i = 2 \<or> i = 3 \<or> i = 4 \<or> i = 5 \<or> i = 6 \<or> i = 7" by arith
  then show ?thesis by (elim disjE) (simp_all add: byteAt_def rng_upd_inside rng_simps reverse16_rng)
qed

lemma insert_packet:
  assumes "ci_wordCount k = 0" and "ci_checksumIn k = c # cs" and "ci_dataIn k = ws @ rest" and "carries ws bs" and "20 \<le> length bs"
  shows "\<exists>k' out. (insert_ip_checksum ^^ length ws) k = k' \<and> ci_wordCount k' = 0 \<and> ci_checksumIn k' = cs \<and> ci_dataIn k' = rest \<and>
    ci_dataOut k' = ci_dataOut k @ out \<and> carries out (take 10 bs @ bytes16 c @ drop 12 bs)"
proof -
  obtain a b vs where ws: "ws = a # b # vs" and vs: "vs \<noteq> []"
    using assms(4,5) by (cases ws; cases "tl ws"; cases "tl (tl ws)") (auto simp: carries_Cons carries_single lastWord_def)
  have w: "lanes a = kept (take 8 bs)" "\<not> ax_last a" "carries (b # vs) (drop 8 bs)" "\<not> ax_last b" "is_packet vs"
    using assms(4) vs carries_packet by (auto simp: ws carries_Cons)
  let ?b = "b\<lparr>ax_data := upd 31 16 (reverse16 c) (ax_data b)\<rparr>" and ?p = "[bs ! 8, bs ! 9] @ bytes16 c"
  have bb: "byteAt (ax_data b) 0 = bs ! 8" "byteAt (ax_data b) 1 = bs ! 9"
    using carries_byteAt [OF w(3), of 0] carries_byteAt [OF w(3), of 1] assms(5) by simp_all
  have "carries (?b # vs) (?p @ drop (length ?p) (drop 8 bs))"
  proof (rule carries_patch [OF w(3)])
    fix i :: nat assume i: "i < 8"
    then have "i = 0 \<or> i = 1 \<or> i = 2 \<or> i = 3 \<or> 4 \<le> i" by arith
    then show "byteAt (upd 31 16 (reverse16 c) (ax_data b)) i = (if i < length ?p then ?p ! i else byteAt (ax_data b) i)"
      unfolding byteAt_upd_mid [OF i] using bb by (elim disjE) (simp_all add: bytes16_def)
  qed (use assms(5) in simp_all)
  from full_prefix [OF w(1,2) this] have o: "carries (a # ?b # vs) (take 8 bs @ ?p @ drop 12 bs)" by simp
  have "take 10 bs = take 8 bs @ take 2 (drop 8 bs)" using take_add [of 8 2 bs] by simp
  also have "take 2 (drop 8 bs) = [bs ! 8, bs ! 9]"
    using assms(5) by (intro nth_equalityI) (auto simp: less_Suc_eq numeral_2_eq_2)
  finally have out: "carries (a # ?b # vs) (take 10 bs @ bytes16 c @ drop 12 bs)" using o by simp
  let ?k1 = "k\<lparr>ci_dataIn := b # vs @ rest, ci_checksum := c, ci_checksumIn := cs, ci_dataOut := ci_dataOut k @ [a], ci_wordCount := 1\<rparr>"
  let ?k2 = "k\<lparr>ci_dataIn := vs @ rest, ci_checksum := c, ci_checksumIn := cs, ci_dataOut := ci_dataOut k @ [a, ?b], ci_wordCount := 2\<rparr>"
  have 1: "insert_ip_checksum k = ?k1" using assms(1-3) w(2) by (simp add: insert_ip_checksum_def s_write_def Let_def ws)
  have 2: "insert_ip_checksum ?k1 = ?k2" using w(4) by (simp add: insert_ip_checksum_def s_write_def Let_def)
  have k2: "ci_wordCount ?k2 = 2" "ci_dataIn ?k2 = vs @ rest" by simp_all
  have "(insert_ip_checksum ^^ length ws) k = (insert_ip_checksum ^^ length vs) ?k2"
    by (simp only: ws list.size(4) add_0_right add_Suc_right funpow_Suc_apply 1 2)
  with insert_rest [OF w(5) k2] out show ?thesis
    by (intro exI [of _ "(insert_ip_checksum ^^ length ws) k"] exI [of _ "a # ?b # vs"]) simp
qed

text \<open>The answer of the ARP server.\<close>

lemma reply_rest: "is_packet ws \<Longrightarrow> hr_state k \<noteq> HAR_ARP \<Longrightarrow> hr_dataIn k = ws @ rest \<Longrightarrow>
    (handle_arp_reply my ^^ length ws) k = k\<lparr>hr_dataIn := rest, hr_dataOut := hr_dataOut k @ (if hr_state k = HAR_FWD then ws else []), hr_state := HAR_ARP\<rparr>"
proof (induction ws arbitrary: k)
  case Nil
  then show ?case by simp
next
  case (Cons w ws)
  have st: "handle_arp_reply my k = k\<lparr>hr_dataIn := ws @ rest, hr_dataOut := hr_dataOut k @ (if hr_state k = HAR_FWD then [w] else []),
      hr_state := (if ax_last w then HAR_ARP else hr_state k)\<rparr>"
    using Cons.prems(2,3) by (cases "hr_state k") (simp_all add: handle_arp_reply_def s_write_def)
  show ?case
  proof (cases "ax_last w")
    case True
    then have "ws = []" using Cons.prems(1) by (simp add: is_packet_Cons)
    with True st show ?thesis by simp
  next
    case False
    then have ws: "is_packet ws" using Cons.prems(1) by (simp add: is_packet_Cons)
    from Cons.IH [OF ws, of "handle_arp_reply my k"] Cons.prems(2) False st show ?thesis by (simp add: funpow_Suc_apply del: funpow.simps(2))
  qed
qed

definition missed :: "arpTableReply \<Rightarrow> 32 word" where
  "missed r = (if al_hit r then 0 else 1)"

lemma reply_packet:
  assumes "hr_state k = HAR_ARP" and "hr_arpTableIn k = r # rs" and "hr_dataIn k = ws @ rest" and "is_packet ws"
  shows "(handle_arp_reply my ^^ Suc (length ws)) k = k\<lparr>hr_arpTableIn := rs, hr_dataIn := rest,
    hr_headerOut := hr_headerOut k @ (if al_hit r then [ethHeader (al_macAddress r) my] else []),
    hr_dataOut := hr_dataOut k @ (if al_hit r then ws else []),
    hr_dropPktCnt := hr_dropPktCnt k + missed r, hr_droppedPkts := hr_dropPktCnt k + missed r\<rparr>"
proof -
  let ?k = "k\<lparr>hr_arpTableIn := rs, hr_headerOut := hr_headerOut k @ (if al_hit r then [ethHeader (al_macAddress r) my] else []),
    hr_dropPktCnt := hr_dropPktCnt k + missed r, hr_droppedPkts := hr_dropPktCnt k + missed r, hr_state := (if al_hit r then HAR_FWD else HAR_DROP)\<rparr>"
  have st: "handle_arp_reply my k = ?k"
    using assms(1,2) by (cases "al_hit r") (simp_all add: handle_arp_reply_def missed_def s_write_def)
  have k: "hr_state ?k \<noteq> HAR_ARP" "hr_dataIn ?k = ws @ rest" using assms(3) by simp_all
  show ?thesis
    using reply_rest [OF assms(4) k, of my] assms(1) by (cases "al_hit r") (simp_all add: funpow_Suc_apply st del: funpow.simps(2))
qed

text \<open>The frame.\<close>

lemma frame_rest: "is_packet ws \<Longrightarrow> ge_state k = GE_BODY \<Longrightarrow> ge_dataIn k = ws @ rest \<Longrightarrow>
    (insert_ethernet_header ^^ length ws) k = k\<lparr>ge_dataIn := rest, ge_dataOut := ge_dataOut k @ ws,
      ge_packets_sent := ge_packets_sent k + 1, ge_state := GE_HEADER\<rparr>"
proof (induction ws arbitrary: k)
  case Nil
  then show ?case by simp
next
  case (Cons w ws)
  have st: "insert_ethernet_header k = k\<lparr>ge_dataIn := ws @ rest, ge_dataOut := ge_dataOut k @ [w],
      ge_packets_sent := (if ax_last w then ge_packets_sent k + 1 else ge_packets_sent k), ge_state := (if ax_last w then GE_HEADER else GE_BODY)\<rparr>"
    using Cons.prems(2,3) by (simp add: insert_ethernet_header_def s_write_def Let_def)
  show ?case
  proof (cases "ax_last w")
    case True
    then have "ws = []" using Cons.prems(1) by (simp add: is_packet_Cons)
    with True st show ?thesis by simp
  next
    case False
    then have ws: "is_packet ws" using Cons.prems(1) by (simp add: is_packet_Cons)
    from Cons.IH [OF ws, of "insert_ethernet_header k"] False st show ?thesis by (simp add: funpow_Suc_apply del: funpow.simps(2))
  qed
qed

definition bytes48 :: "48 word \<Rightarrow> 8 word list" where
  "bytes48 a = [rng 7 0 a, rng 15 8 a, rng 23 16 a, rng 31 24 a, rng 39 32 a, rng 47 40 a]"

definition ethBytes :: "48 word \<Rightarrow> 48 word \<Rightarrow> 8 word list" where
  "ethBytes dst src = bytes48 dst @ bytes48 src @ [8, 0]"

lemma length_ethBytes [simp]: "length (ethBytes dst src) = 14"
  by (simp add: ethBytes_def bytes48_def)

lemma ethHeader_bytes: "i < 14 \<Longrightarrow> headerByte (ph_header (ethHeader dst src)) i = ethBytes dst src ! i"
proof -
  assume "i < 14"
  moreover have "[0..<14] = [0, 1, 2, 3, 4, 5, 6, 7, 8, 9, 10, 11, 12, 13 :: nat]" by code_simp
  moreover have "(rng 7 0 (reverse16 0x0800) :: 8 word) = 8" "(rng 15 8 (reverse16 0x0800) :: 8 word) = 0" by (code_simp, code_simp)
  ultimately have "map (headerByte (ph_header (ethHeader dst src))) [0..<14] = ethBytes dst src"
    by (simp add: ethHeader_def clearHeader_def headerByte_def ethBytes_def bytes48_def rng_upd_inside rng_simps)
  then have "map (headerByte (ph_header (ethHeader dst src))) [0..<14] ! i = ethBytes dst src ! i" by simp
  with \<open>i < 14\<close> show ?thesis by simp
qed

lemma frame_packet:
  assumes "ge_state k = GE_HEADER" and "ge_headerIn k = ethHeader dst src # hs" and "ge_dataIn k = ws @ rest" and "carries ws (replicate 6 0 @ bs)"
    and "8 < length bs"
  shows "\<exists>n h out. (insert_ethernet_header ^^ n) k = k\<lparr>ge_headerIn := hs, ge_header := h, ge_dataIn := rest, ge_dataOut := ge_dataOut k @ out,
      ge_packets_sent := ge_packets_sent k + 1\<rparr> \<and> carries out (ethBytes dst src @ bs)"
proof -
  obtain w vs where ws: "ws = w # vs" and vs: "vs \<noteq> []"
    using assms(4,5) by (cases ws; cases "tl ws") (auto simp: carries_Cons carries_single lastWord_def)
  have w: "\<not> ax_last w" "is_packet vs" using assms(4) vs carries_packet by (auto simp: ws carries_Cons)
  let ?h = "ethHeader dst src" and ?e = "ethBytes dst src"
  note hb = ethHeader_bytes [where dst = dst and src = src]
  define d0 where "d0 = (rng 63 0 (ph_header ?h) :: 64 word)"
  define d1 where "d1 = upd 47 0 (rng 111 64 (ph_header ?h) :: 64 word) (ax_data w)"
  have i0: "ph_idx ?h = 0" by (simp add: ethHeader_def clearHeader_def)
  have c0: "consumeWord 0 ?h = (d0, 6, ?h\<lparr>ph_idx := 1\<rparr>)" by (simp add: consumeWord_def i0 d0_def Let_def)
  have c1: "consumeWord (ax_data w) (?h\<lparr>ph_idx := 1\<rparr>) = (d1, 0, ?h\<lparr>ph_idx := 2\<rparr>)" by (simp add: consumeWord_def d1_def Let_def)
  have b0: "byteAt d0 i = ?e ! i" if "i < 8" for i
    using byteAt_rng [of 0 i 63 "ph_header ?h"] hb [of i] that by (simp add: d0_def)
  have b1: "byteAt d1 i = (if i < 6 then ?e ! (8 + i) else byteAt (ax_data w) i)" if i: "i < 8" for i
  proof (cases "i < 6")
    case True
    have "byteAt d1 i = byteAt (rng 111 64 (ph_header ?h)) i"
      using True by (intro bit_word_eqI) (simp add: d1_def byteAt_def bit_simps)
    also have "\<dots> = headerByte (ph_header ?h) (8 * 1 + i)" using byteAt_rng [of 1 i 111 "ph_header ?h"] True by simp
    finally show ?thesis using hb [of "8 + i"] True by simp
  next
    case False
    then show ?thesis using i by (intro bit_word_eqI) (auto simp: d1_def byteAt_def bit_simps)
  qed
  let ?a = "\<lparr>ax_data = d0, ax_keep = 0xFF, ax_last = False\<rparr>" and ?b = "w\<lparr>ax_data := d1\<rparr>"
  have la: "lanes ?a = kept (take 8 ?e)"
  proof (rule nth_equalityI)
    fix i assume "i < length (lanes ?a)"
    then have i: "i < 8" by simp
    then have "bit (0xFF :: 8 word) i" by (auto simp: less_Suc_eq numeral_eq_Suc)
    with i show "lanes ?a ! i = kept (take 8 ?e) ! i" by (simp add: nth_lanes b0)
  qed simp
  have "carries (?b # vs) (drop 8 ?e @ drop (length (drop 8 ?e)) (replicate 6 0 @ bs))"
    by (rule carries_patch [OF assms(4) [unfolded ws]]) (use b1 in simp_all)
  then have "carries (?b # vs) (drop 8 ?e @ bs)" by simp
  from full_prefix [OF la _ this] have out: "carries (?a # ?b # vs) (?e @ bs)" by (simp flip: append_assoc)
  let ?k1 = "k\<lparr>ge_headerIn := hs, ge_header := ?h\<lparr>ph_idx := 1\<rparr>, ge_state := GE_PARTIAL_HEADER, ge_dataOut := ge_dataOut k @ [?a]\<rparr>"
  let ?k2 = "k\<lparr>ge_headerIn := hs, ge_header := ?h\<lparr>ph_idx := 2\<rparr>, ge_state := GE_BODY, ge_dataIn := vs @ rest, ge_dataOut := ge_dataOut k @ [?a, ?b]\<rparr>"
  have 1: "insert_ethernet_header k = ?k1" using assms(1,2) c0 by (simp add: insert_ethernet_header_def s_write_def)
  have 2: "insert_ethernet_header ?k1 = ?k2" using assms(3) c1 w(1) by (simp add: insert_ethernet_header_def s_write_def ws)
  have k2: "ge_state ?k2 = GE_BODY" "ge_dataIn ?k2 = vs @ rest" by simp_all
  have "(insert_ethernet_header ^^ Suc (Suc (length vs))) k = (insert_ethernet_header ^^ length vs) ?k2"
    by (simp only: funpow_Suc_apply 1 2)
  with frame_rest [OF w(2) k2] out assms(1) show ?thesis
    by (intro exI [of _ "Suc (Suc (length vs))"] exI [of _ "?h\<lparr>ph_idx := 2\<rparr>"] exI [of _ "?a # ?b # vs"]) simp
qed

section \<open>The encoder\<close>

record macPath =
  mp_extract :: ipExtract
  mp_compute :: ipSums
  mp_final :: "subSums hls_stream \<times> 16 word hls_stream"
  mp_insert :: ipInsert
  mp_reply :: arpReplies
  mp_shift :: shifter
  mp_frame :: framer

definition macLinks :: "macPath \<Rightarrow> macPath" where
  "macLinks p = p\<lparr>
     mp_extract := (mp_extract p)\<lparr>ex_dataOut := []\<rparr>,
     mp_compute := (mp_compute p)\<lparr>cp_dataIn := cp_dataIn (mp_compute p) @ ex_dataOut (mp_extract p), cp_dataOut := [], cp_subSums := []\<rparr>,
     mp_final := (fst (mp_final p) @ cp_subSums (mp_compute p), []),
     mp_insert := (mp_insert p)\<lparr>ci_dataIn := ci_dataIn (mp_insert p) @ cp_dataOut (mp_compute p),
       ci_checksumIn := ci_checksumIn (mp_insert p) @ snd (mp_final p), ci_dataOut := []\<rparr>,
     mp_reply := (mp_reply p)\<lparr>hr_dataIn := hr_dataIn (mp_reply p) @ ci_dataOut (mp_insert p), hr_headerOut := [], hr_dataOut := []\<rparr>,
     mp_shift := (mp_shift p)\<lparr>sh_input := sh_input (mp_shift p) @ hr_dataOut (mp_reply p), sh_output := []\<rparr>,
     mp_frame := (mp_frame p)\<lparr>ge_headerIn := ge_headerIn (mp_frame p) @ hr_headerOut (mp_reply p),
       ge_dataIn := ge_dataIn (mp_frame p) @ sh_output (mp_shift p)\<rparr>\<rparr>"

inductive macFire :: "32 word \<Rightarrow> 32 word \<Rightarrow> 48 word \<Rightarrow> macPath \<Rightarrow> macPath \<Rightarrow> bool" for msk gw my where
  hop: "macFire msk gw my p (p\<lparr>mp_extract := extract_ip_address msk gw (mp_extract p)\<rparr>)"
| compute: "macFire msk gw my p (p\<lparr>mp_compute := compute_ipv4_checksum True (mp_compute p)\<rparr>)"
| finalize: "macFire msk gw my p (p\<lparr>mp_final := finalize_ipv4_checksum (mp_final p)\<rparr>)"
| put: "macFire msk gw my p (p\<lparr>mp_insert := insert_ip_checksum (mp_insert p)\<rparr>)"
| reply: "macFire msk gw my p (p\<lparr>mp_reply := handle_arp_reply my (mp_reply p)\<rparr>)"
| shift: "macFire msk gw my p (p\<lparr>mp_shift := lshiftWordByOctet 6 (mp_shift p)\<rparr>)"
| frame: "macFire msk gw my p (p\<lparr>mp_frame := insert_ethernet_header (mp_frame p)\<rparr>)"
| links: "macFire msk gw my p (macLinks p)"

interpretation extractPart: part "macFire msk gw my" mp_extract "\<lambda>k p. p\<lparr>mp_extract := k\<rparr>" "extract_ip_address msk gw"
  for msk gw my by unfold_locales (simp_all add: macFire.hop)
interpretation computePart: part "macFire msk gw my" mp_compute "\<lambda>k p. p\<lparr>mp_compute := k\<rparr>" "compute_ipv4_checksum True"
  for msk gw my by unfold_locales (simp_all add: macFire.compute)
interpretation finalPart: part "macFire msk gw my" mp_final "\<lambda>k p. p\<lparr>mp_final := k\<rparr>" finalize_ipv4_checksum
  for msk gw my by unfold_locales (simp_all add: macFire.finalize)
interpretation insertPart: part "macFire msk gw my" mp_insert "\<lambda>k p. p\<lparr>mp_insert := k\<rparr>" insert_ip_checksum
  for msk gw my by unfold_locales (simp_all add: macFire.put)
interpretation replyPart: part "macFire msk gw my" mp_reply "\<lambda>k p. p\<lparr>mp_reply := k\<rparr>" "handle_arp_reply my"
  for msk gw my by unfold_locales (simp_all add: macFire.reply)
interpretation macShiftPart: part "macFire msk gw my" mp_shift "\<lambda>k p. p\<lparr>mp_shift := k\<rparr>" "lshiftWordByOctet 6"
  for msk gw my by unfold_locales (simp_all add: macFire.shift)
interpretation framePart: part "macFire msk gw my" mp_frame "\<lambda>k p. p\<lparr>mp_frame := k\<rparr>" insert_ethernet_header
  for msk gw my by unfold_locales (simp_all add: macFire.frame)

lemma macLinks_run: "(macFire msk gw my)\<^sup>*\<^sup>* p q \<Longrightarrow> (macFire msk gw my)\<^sup>*\<^sup>* p (macLinks q)"
  by (erule rtranclp.rtrancl_into_rtrancl) (rule macFire.links)

definition macIdle :: "macPath \<Rightarrow> bool" where
  "macIdle p \<longleftrightarrow>
     exReady (mp_extract p) \<and> ex_dataOut (mp_extract p) = [] \<and>
     cpReady (mp_compute p) \<and> cp_dataIn (mp_compute p) = [] \<and> cp_dataOut (mp_compute p) = [] \<and> cp_subSums (mp_compute p) = [] \<and>
     mp_final p = ([], []) \<and>
     ci_wordCount (mp_insert p) = 0 \<and> ci_dataIn (mp_insert p) = [] \<and> ci_checksumIn (mp_insert p) = [] \<and> ci_dataOut (mp_insert p) = [] \<and>
     hr_state (mp_reply p) = HAR_ARP \<and> hr_dataIn (mp_reply p) = [] \<and> hr_headerOut (mp_reply p) = [] \<and> hr_dataOut (mp_reply p) = [] \<and>
     shiftReady 6 (mp_shift p) \<and> sh_input (mp_shift p) = [] \<and> sh_output (mp_shift p) = [] \<and>
     ge_state (mp_frame p) = GE_HEADER \<and> ge_headerIn (mp_frame p) = [] \<and> ge_dataIn (mp_frame p) = []"

lemma mac_empty_same:
  "ex_dataOut a = [] \<Longrightarrow> a\<lparr>ex_dataOut := []\<rparr> = a"
  "cp_dataIn b = [] \<Longrightarrow> b\<lparr>cp_dataIn := []\<rparr> = b" "cp_dataOut b = [] \<Longrightarrow> b\<lparr>cp_dataOut := []\<rparr> = b" "cp_subSums b = [] \<Longrightarrow> b\<lparr>cp_subSums := []\<rparr> = b"
  "ci_dataIn c = [] \<Longrightarrow> c\<lparr>ci_dataIn := []\<rparr> = c" "ci_checksumIn c = [] \<Longrightarrow> c\<lparr>ci_checksumIn := []\<rparr> = c" "ci_dataOut c = [] \<Longrightarrow> c\<lparr>ci_dataOut := []\<rparr> = c"
  "hr_dataIn d = [] \<Longrightarrow> d\<lparr>hr_dataIn := []\<rparr> = d" "hr_headerOut d = [] \<Longrightarrow> d\<lparr>hr_headerOut := []\<rparr> = d" "hr_dataOut d = [] \<Longrightarrow> d\<lparr>hr_dataOut := []\<rparr> = d"
  "ge_headerIn e = [] \<Longrightarrow> e\<lparr>ge_headerIn := []\<rparr> = e" "ge_dataIn e = [] \<Longrightarrow> e\<lparr>ge_dataIn := []\<rparr> = e"
  by (cases a, simp, cases b, simp, cases b, simp, cases b, simp, cases c, simp, cases c, simp, cases c, simp,
      cases d, simp, cases d, simp, cases d, simp, cases e, simp, cases e, simp)

text \<open>Up to the answer of the ARP server.\<close>

lemma mac_summed:
  assumes "macIdle p" and "ex_dataIn (mp_extract p) = ws @ rest" and "carries ws bs" and "headerFits bs"
  shows "\<exists>q out. (macFire msk gw my)\<^sup>*\<^sup>* p q \<and> macIdle (q\<lparr>mp_reply := mp_reply p\<rparr>) \<and> ex_dataIn (mp_extract q) = rest \<and>
    ex_arpTableOut (mp_extract q) = ex_arpTableOut (mp_extract p) @ [nextHop msk gw (dstAddress bs)] \<and>
    mp_reply q = (mp_reply p)\<lparr>hr_dataIn := out\<rparr> \<and> carries out (summed bs) \<and> mp_shift q = mp_shift p \<and> mp_frame q = mp_frame p"
proof -
  note i = assms(1) [unfolded macIdle_def]
  let ?r = "(macFire msk gw my)\<^sup>*\<^sup>*"
  have l: "20 \<le> length bs" using assms(4) by (auto simp: headerFits_def)
  obtain k1 where s1: "(extract_ip_address msk gw ^^ length ws) (mp_extract p) = k1" "exReady k1" "ex_dataIn k1 = rest" "ex_dataOut k1 = ws"
    "ex_arpTableOut k1 = ex_arpTableOut (mp_extract p) @ [nextHop msk gw (dstAddress bs)]"
    using extract_packet [OF _ assms(2,3) l, of msk gw] i by auto
  define k1' where "k1' = k1\<lparr>ex_dataOut := []\<rparr>"
  define b where "b = (mp_compute p)\<lparr>cp_dataIn := ws\<rparr>"
  have rb: "cpReady b" "cp_dataIn b = ws @ []" "cp_dataOut b = []" "cp_subSums b = []" using i by (simp_all add: b_def cpReady_def)
  obtain k2 r m where s2: "(compute_ipv4_checksum True ^^ length ws) b = k2" "cpReady k2" "cp_dataIn k2 = []" "cp_dataOut k2 = ws"
    "cp_subSums k2 = [r]" "columnsOf r m" "m 0 + m 1 + m 2 + m 3 = packetSum (headerBytes (unsummed bs))"
    using compute_packet [OF rb(1,2) assms(3,4)] rb(3,4) by auto
  define k2' where "k2' = k2\<lparr>cp_dataOut := [], cp_subSums := []\<rparr>"
  have s3: "finalize_ipv4_checksum ([r], []) = ([], [headerChecksum bs])" using finalize_sums [OF s2(6,7), of "[]"] by simp
  define c where "c = (mp_insert p)\<lparr>ci_dataIn := ws, ci_checksumIn := [headerChecksum bs]\<rparr>"
  have rc: "ci_wordCount c = 0" "ci_checksumIn c = headerChecksum bs # []" "ci_dataIn c = ws @ []" "ci_dataOut c = []" using i by (simp_all add: c_def)
  obtain k3 out where s4: "(insert_ip_checksum ^^ length ws) c = k3" "ci_wordCount k3 = 0" "ci_checksumIn k3 = []" "ci_dataIn k3 = []"
    "ci_dataOut k3 = out" "carries out (summed bs)"
    using insert_packet [OF rc(1-3) assms(3) l] rc(4) by (auto simp: summed_def)
  define k3' where "k3' = k3\<lparr>ci_dataOut := []\<rparr>"
  obtain A B C D E F G where p: "p = \<lparr>mp_extract = A, mp_compute = B, mp_final = C, mp_insert = D, mp_reply = E, mp_shift = F, mp_frame = G\<rparr>"
    by (cases p)
  note i = i [unfolded p, simplified]
  note emp = empty_same mac_empty_same
  have "?r p (p\<lparr>mp_extract := k1\<rparr>)" by (rule extractPart.runs_to [of _ _ _ _ _ "length ws"]) (simp_all add: s1(1))
  from macLinks_run [OF this] have "?r p (p\<lparr>mp_extract := k1', mp_compute := b\<rparr>)"
    using i s1 by (simp add: p macLinks_def k1'_def b_def emp)
  from computePart.runs_to [OF this, of "length ws" k2] have "?r p (p\<lparr>mp_extract := k1', mp_compute := k2\<rparr>)" by (simp add: p s2(1))
  from macLinks_run [OF this] have "?r p (p\<lparr>mp_extract := k1', mp_compute := k2', mp_final := ([r], []), mp_insert := D\<lparr>ci_dataIn := ws\<rparr>\<rparr>)"
    using i s1 s2(2-5) by (simp add: p macLinks_def k1'_def k2'_def emp)
  from finalPart.runs_to [OF this, of 1 "([], [headerChecksum bs])"]
  have "?r p (p\<lparr>mp_extract := k1', mp_compute := k2', mp_final := ([], [headerChecksum bs]), mp_insert := D\<lparr>ci_dataIn := ws\<rparr>\<rparr>)"
    using s3 by (simp add: p)
  from macLinks_run [OF this] have "?r p (p\<lparr>mp_extract := k1', mp_compute := k2', mp_final := ([], []), mp_insert := c\<rparr>)"
    using i s1 s2(2-5) by (simp add: p macLinks_def k1'_def k2'_def c_def emp)
  from insertPart.runs_to [OF this, of "length ws" k3] have "?r p (p\<lparr>mp_extract := k1', mp_compute := k2', mp_final := ([], []), mp_insert := k3\<rparr>)"
    by (simp add: p s4(1))
  note step = macLinks_run [OF this]
  let ?q = "p\<lparr>mp_extract := k1', mp_compute := k2', mp_final := ([], []), mp_insert := k3', mp_reply := E\<lparr>hr_dataIn := out\<rparr>\<rparr>"
  have run: "?r p ?q" using step i s1 s2(2-5) s4(2-5) by (simp add: p macLinks_def k1'_def k2'_def k3'_def emp)
  have "macIdle (?q\<lparr>mp_reply := mp_reply p\<rparr>)"
    using i s1 s2(2-5) s4(2-5) by (simp add: p macIdle_def k1'_def k2'_def k3'_def exReady_def cpReady_def)
  with run s1(3,5) s4(6) show ?thesis by (intro exI [of _ ?q] exI [of _ out]) (simp add: p k1'_def)
qed

text \<open>From there on.\<close>

lemma mac_sent:
  assumes "macIdle (p\<lparr>mp_reply := g\<rparr>)" and "mp_reply p = g\<lparr>hr_dataIn := ws\<rparr>" and "carries ws bs" and "8 < length bs" and "hr_arpTableIn g = r # rs"
  shows "\<exists>q out. (macFire msk gw my)\<^sup>*\<^sup>* p q \<and> macIdle q \<and> mp_extract q = mp_extract p \<and> hr_arpTableIn (mp_reply q) = rs \<and>
    hr_dropPktCnt (mp_reply q) = hr_dropPktCnt g + missed r \<and> ge_dataOut (mp_frame q) = ge_dataOut (mp_frame p) @ out \<and>
    ge_packets_sent (mp_frame q) = ge_packets_sent (mp_frame p) + 1 - missed r \<and>
    (if al_hit r then carries out (ethBytes (al_macAddress r) my @ bs) else out = [])"
proof -
  note i = assms(1) [unfolded macIdle_def, simplified]
  let ?r = "(macFire msk gw my)\<^sup>*\<^sup>*" and ?h = "ethHeader (al_macAddress r) my"
  define g1 where "g1 = g\<lparr>hr_dataIn := ws\<rparr>"
  define k1 where "k1 = g1\<lparr>hr_arpTableIn := rs, hr_dataIn := [], hr_headerOut := (if al_hit r then [?h] else []), hr_dataOut := (if al_hit r then ws else []),
    hr_dropPktCnt := hr_dropPktCnt g + missed r, hr_droppedPkts := hr_dropPktCnt g + missed r\<rparr>"
  have s1: "(handle_arp_reply my ^^ Suc (length ws)) g1 = k1"
    using reply_packet [of g1 r rs ws "[]" my] i assms(5) carries_packet [OF assms(3)] by (simp add: g1_def k1_def del: funpow.simps(2))
  define k1' where "k1' = k1\<lparr>hr_headerOut := [], hr_dataOut := []\<rparr>"
  have k1': "hr_state k1' = HAR_ARP" "hr_dataIn k1' = []" "hr_headerOut k1' = []" "hr_dataOut k1' = []" "hr_arpTableIn k1' = rs"
    "hr_dropPktCnt k1' = hr_dropPktCnt g + missed r" using i by (simp_all add: k1'_def k1_def g1_def)
  obtain A B C D F G where p: "p = \<lparr>mp_extract = A, mp_compute = B, mp_final = C, mp_insert = D, mp_reply = g1, mp_shift = F, mp_frame = G\<rparr>"
    using assms(2) by (cases p) (auto simp: g1_def)
  note i = i [unfolded p, simplified]
  note emp = empty_same mac_empty_same
  have "?r p (p\<lparr>mp_reply := k1\<rparr>)" by (rule replyPart.runs_to [of _ _ _ _ _ "Suc (length ws)"]) (simp_all add: p s1 del: funpow.simps(2))
  note r1 = macLinks_run [OF this]
  show ?thesis
  proof (cases "al_hit r")
    case False
    have "macLinks (p\<lparr>mp_reply := k1\<rparr>) = p\<lparr>mp_reply := k1'\<rparr>"
      using i False by (simp add: p macLinks_def k1'_def k1_def emp)
    moreover have "macIdle (p\<lparr>mp_reply := k1'\<rparr>)" using i k1' by (simp add: p macIdle_def)
    ultimately show ?thesis
      using r1 k1' False by (intro exI [of _ "p\<lparr>mp_reply := k1'\<rparr>"] exI [of _ "[]"]) (simp add: p missed_def)
  next
    case True
    define a where "a = F\<lparr>sh_input := ws\<rparr>"
    have ra: "shiftReady 6 a" "sh_input a = ws @ []" "sh_output a = []" using i by (simp_all add: a_def shiftReady_def)
    obtain n2 w2 where s2: "shiftReady 6 ((lshiftWordByOctet 6 ^^ n2) a)" "sh_input ((lshiftWordByOctet 6 ^^ n2) a) = []"
      "sh_output ((lshiftWordByOctet 6 ^^ n2) a) = w2" "carries w2 (replicate 6 0 @ bs)"
      using lshift_packet [OF _ _ ra(1,2) assms(3)] ra(3) by auto
    define k2 where "k2 = (lshiftWordByOctet 6 ^^ n2) a"
    define k2' where "k2' = k2\<lparr>sh_output := []\<rparr>"
    define b where "b = G\<lparr>ge_headerIn := [?h], ge_dataIn := w2\<rparr>"
    have rb: "ge_state b = GE_HEADER" "ge_headerIn b = ?h # []" "ge_dataIn b = w2 @ []" using i by (simp_all add: b_def)
    obtain n3 h out where s3: "(insert_ethernet_header ^^ n3) b = b\<lparr>ge_headerIn := [], ge_header := h, ge_dataIn := [], ge_dataOut := ge_dataOut b @ out,
        ge_packets_sent := ge_packets_sent b + 1\<rparr>" "carries out (ethBytes (al_macAddress r) my @ bs)"
      using frame_packet [OF rb s2(4) assms(4)] by blast
    define k3 where "k3 = b\<lparr>ge_headerIn := [], ge_header := h, ge_dataIn := [], ge_dataOut := ge_dataOut b @ out, ge_packets_sent := ge_packets_sent b + 1\<rparr>"
    have "?r p (p\<lparr>mp_reply := k1', mp_shift := a, mp_frame := G\<lparr>ge_headerIn := [?h]\<rparr>\<rparr>)"
      using r1 i True by (simp add: p macLinks_def k1'_def k1_def a_def emp)
    from macShiftPart.runs_to [OF this, of n2 k2] have "?r p (p\<lparr>mp_reply := k1', mp_shift := k2, mp_frame := G\<lparr>ge_headerIn := [?h]\<rparr>\<rparr>)"
      by (simp add: p k2_def)
    from macLinks_run [OF this] have "?r p (p\<lparr>mp_reply := k1', mp_shift := k2', mp_frame := b\<rparr>)"
      using i k1' s2 by (simp add: p macLinks_def k2_def k2'_def b_def emp)
    from framePart.runs_to [OF this, of n3 k3] have run: "?r p (p\<lparr>mp_reply := k1', mp_shift := k2', mp_frame := k3\<rparr>)"
      by (simp add: p s3(1) k3_def)
    have "macIdle (p\<lparr>mp_reply := k1', mp_shift := k2', mp_frame := k3\<rparr>)"
      using i k1' s2 rb by (simp add: p macIdle_def k2_def k2'_def k3_def shiftReady_def)
    with run k1' s3(2) True show ?thesis
      by (intro exI [of _ "p\<lparr>mp_reply := k1', mp_shift := k2', mp_frame := k3\<rparr>"] exI [of _ out]) (simp add: p missed_def k3_def b_def)
  qed
qed

lemma mac_packet:
  assumes "macIdle p" and "ex_dataIn (mp_extract p) = ws @ rest" and "carries ws bs" and "headerFits bs" and "hr_arpTableIn (mp_reply p) = r # rs"
  shows "\<exists>q out. (macFire msk gw my)\<^sup>*\<^sup>* p q \<and> macIdle q \<and> ex_dataIn (mp_extract q) = rest \<and> hr_arpTableIn (mp_reply q) = rs \<and>
    ex_arpTableOut (mp_extract q) = ex_arpTableOut (mp_extract p) @ [nextHop msk gw (dstAddress bs)] \<and>
    hr_dropPktCnt (mp_reply q) = hr_dropPktCnt (mp_reply p) + missed r \<and> ge_packets_sent (mp_frame q) = ge_packets_sent (mp_frame p) + 1 - missed r \<and>
    ge_dataOut (mp_frame q) = ge_dataOut (mp_frame p) @ out \<and>
    (if al_hit r then carries out (ethBytes (al_macAddress r) my @ summed bs) else out = [])"
proof -
  have l: "20 \<le> length bs" using assms(4) by (auto simp: headerFits_def)
  obtain q out where q: "(macFire msk gw my)\<^sup>*\<^sup>* p q" "macIdle (q\<lparr>mp_reply := mp_reply p\<rparr>)" "ex_dataIn (mp_extract q) = rest"
    "ex_arpTableOut (mp_extract q) = ex_arpTableOut (mp_extract p) @ [nextHop msk gw (dstAddress bs)]"
    "mp_reply q = (mp_reply p)\<lparr>hr_dataIn := out\<rparr>" "carries out (summed bs)" "mp_shift q = mp_shift p" "mp_frame q = mp_frame p"
    using mac_summed [OF assms(1-4)] by blast
  have "8 < length (summed bs)" using summed_parts(3) [OF l] l by simp
  from mac_sent [OF q(2,5,6) this assms(5), of msk gw my] obtain q2 out2 where q2: "(macFire msk gw my)\<^sup>*\<^sup>* q q2" "macIdle q2"
    "mp_extract q2 = mp_extract q" "hr_arpTableIn (mp_reply q2) = rs" "hr_dropPktCnt (mp_reply q2) = hr_dropPktCnt (mp_reply p) + missed r"
    "ge_dataOut (mp_frame q2) = ge_dataOut (mp_frame q) @ out2" "ge_packets_sent (mp_frame q2) = ge_packets_sent (mp_frame q) + 1 - missed r"
    "if al_hit r then carries out2 (ethBytes (al_macAddress r) my @ summed bs) else out2 = []" by blast
  show ?thesis
    using rtranclp_trans [OF q(1) q2(1)] q(3,4,8) q2(2-8) by (intro exI [of _ q2] exI [of _ out2]) simp
qed

section \<open>From host to host\<close>

lemma padded_header:
  assumes "headerFits bs"
  shows "headerBytes (bs @ pad) = headerBytes bs" and "headerFits (bs @ pad)" and "totalLength (bs @ pad) = totalLength bs"
    and "dstAddress (bs @ pad) = dstAddress bs" and "ipVersion (bs @ pad) = ipVersion bs" and "goodHeader (bs @ pad) = goodHeader bs"
proof -
  have l: "20 \<le> length bs" using assms by (auto simp: headerFits_def)
  have n: "(bs @ pad) ! i = bs ! i" if "i < 20" for i using that l by (simp add: nth_append)
  have h: "ipHeaderLength (bs @ pad) = ipHeaderLength bs" using n [of 0] by (simp add: ipHeaderLength_def)
  show hb: "headerBytes (bs @ pad) = headerBytes bs" using assms by (simp add: headerBytes_def h headerFits_def)
  show "headerFits (bs @ pad)" using assms by (simp add: headerFits_def h)
  show v: "ipVersion (bs @ pad) = ipVersion bs" using n [of 0] by (simp add: ipVersion_def)
  show "totalLength (bs @ pad) = totalLength bs" "dstAddress (bs @ pad) = dstAddress bs"
    using n by (simp_all add: totalLength_def dstAddress_def)
  show "goodHeader (bs @ pad) = goodHeader bs" by (simp add: goodHeader_def v hb)
qed

text \<open>What the wire does to a frame: it may have been padded to the smallest size of an Ethernet frame.\<close>

definition paddedBy :: "8 word list \<Rightarrow> axiWord list \<Rightarrow> axiWord list \<Rightarrow> bool" where
  "paddedBy pad out us \<longleftrightarrow> carries us (validBytes out @ pad)"

lemma frame_delivered:
  assumes "carries out (ethBytes dst src @ summed bs)" and "totalFits bs" and "ipVersion bs = 4" and "isMatch myIp (dstAddress bs)"
    and "ipIdle h" and "paddedBy pad out us" and "de_dataIn (hp_detect h) = us @ rem"
  shows "\<exists>h'. (ipFire cfg myIp)\<^sup>*\<^sup>* h h' \<and> ipIdle h' \<and> de_dataIn (hp_detect h') = rem \<and>
    sentOn cfg (hp_proto h) (take (totalLength bs) (summed bs)) (hp_proto h')"
proof -
  have f: "headerFits bs" "20 \<le> totalLength bs" "totalLength bs \<le> length bs" using assms(2) by (simp_all add: totalFits_def)
  then have l: "20 \<le> length bs" by simp
  note g = summed_good [OF f(1) assms(3)]
  note pd = padded_header [OF g(2), of pad]
  let ?frame = "ethBytes dst src @ summed bs @ pad" and ?pk = "summed bs @ pad"
  have us: "carries us ?frame" using assms(6) carries_validBytes [OF assms(1)] by (simp add: paddedBy_def)
  have t: "etherType ?frame = ETH_IPv4"
  proof -
    have "be16 8 0 = 0x0800" by code_simp
    then show ?thesis by (simp add: etherType_def ethBytes_def bytes48_def ETH_IPv4_def)
  qed
  have tf: "totalFits ?pk" using pd(2,3) g(3) f summed_parts(3) [OF l] by (simp add: totalFits_def)
  have fh: "forHost myIp ?pk" using pd(4,6) g(1,4) assms(4) by (simp add: forHost_def)
  have "14 \<le> length ?frame" "?pk = drop 14 ?frame" by simp_all
  from ip_delivers [OF assms(5,7) us this t tf fh, of cfg] obtain h' where h': "(ipFire cfg myIp)\<^sup>*\<^sup>* h h'" "ipIdle h'"
    "de_dataIn (hp_detect h') = rem" "sentOn cfg (hp_proto h) (take (totalLength ?pk) ?pk) (hp_proto h')" by blast
  have "take (totalLength ?pk) ?pk = take (totalLength bs) (summed bs)" using pd(3) g(3) f(3) summed_parts(3) [OF l] by simp
  with h' show ?thesis by (intro exI [of _ h']) simp
qed

text \<open>C6: The MAC encoder asks for the next hop of each packet; when its hardware address is known, the packet goes out in a
  frame to it with a right header checksum and otherwise unchanged, and the IP handler of a host with its destination
  address hands exactly this packet to the server of its protocol, if it has one, however the frame was padded.  When the hardware address
  is not known, the packet is dropped and counted.\<close>

theorem packet_delivered:
  assumes "macIdle p" and "ex_dataIn (mp_extract p) = ws @ rest" and "carries ws bs" and "totalFits bs" and "ipVersion bs = 4"
    and "hr_arpTableIn (mp_reply p) = r # rs" and "isMatch myIp (dstAddress bs)"
  shows "\<exists>q out. (macFire msk gw my)\<^sup>*\<^sup>* p q \<and> macIdle q \<and> ex_dataIn (mp_extract q) = rest \<and> hr_arpTableIn (mp_reply q) = rs \<and>
    ex_arpTableOut (mp_extract q) = ex_arpTableOut (mp_extract p) @ [nextHop msk gw (dstAddress bs)] \<and>
    ge_dataOut (mp_frame q) = ge_dataOut (mp_frame p) @ out \<and>
    (if al_hit r
     then carries out (ethBytes (al_macAddress r) my @ summed bs) \<and>
       (\<forall>h us pad rem. ipIdle h \<and> paddedBy pad out us \<and> de_dataIn (hp_detect h) = us @ rem \<longrightarrow>
          (\<exists>h'. (ipFire cfg myIp)\<^sup>*\<^sup>* h h' \<and> ipIdle h' \<and> de_dataIn (hp_detect h') = rem \<and>
             sentOn cfg (hp_proto h) (take (totalLength bs) (summed bs)) (hp_proto h'))) \<and>
       hr_dropPktCnt (mp_reply q) = hr_dropPktCnt (mp_reply p) \<and> ge_packets_sent (mp_frame q) = ge_packets_sent (mp_frame p) + 1
     else out = [] \<and> hr_dropPktCnt (mp_reply q) = hr_dropPktCnt (mp_reply p) + 1 \<and> ge_packets_sent (mp_frame q) = ge_packets_sent (mp_frame p))"
proof -
  have f: "headerFits bs" using assms(4) by (simp add: totalFits_def)
  obtain q out where q: "(macFire msk gw my)\<^sup>*\<^sup>* p q" "macIdle q" "ex_dataIn (mp_extract q) = rest" "hr_arpTableIn (mp_reply q) = rs"
    "ex_arpTableOut (mp_extract q) = ex_arpTableOut (mp_extract p) @ [nextHop msk gw (dstAddress bs)]"
    "hr_dropPktCnt (mp_reply q) = hr_dropPktCnt (mp_reply p) + missed r" "ge_packets_sent (mp_frame q) = ge_packets_sent (mp_frame p) + 1 - missed r"
    "ge_dataOut (mp_frame q) = ge_dataOut (mp_frame p) @ out"
    "if al_hit r then carries out (ethBytes (al_macAddress r) my @ summed bs) else out = []"
    using mac_packet [OF assms(1-3) f assms(6)] by blast
  show ?thesis
  proof (cases "al_hit r")
    case False
    with q show ?thesis by (intro exI [of _ q] exI [of _ out]) (simp add: missed_def)
  next
    case True
    then have c: "carries out (ethBytes (al_macAddress r) my @ summed bs)" using q(9) by simp
    have "\<forall>h us pad rem. ipIdle h \<and> paddedBy pad out us \<and> de_dataIn (hp_detect h) = us @ rem \<longrightarrow>
        (\<exists>h'. (ipFire cfg myIp)\<^sup>*\<^sup>* h h' \<and> ipIdle h' \<and> de_dataIn (hp_detect h') = rem \<and>
           sentOn cfg (hp_proto h) (take (totalLength bs) (summed bs)) (hp_proto h'))"
      using frame_delivered [OF c assms(4,5,7)] by blast
    with q(1-8) c True show ?thesis by (intro exI [of _ q] exI [of _ out]) (simp add: missed_def)
  qed
qed

section \<open>Sample\<close>

definition sampleMacPath :: macPath where
  "sampleMacPath = \<lparr>
     mp_extract = \<lparr>ex_header = \<lparr>ph_ready = False, ph_idx = 0, ph_header = 0\<rparr>, ex_metaWritten = False,
       ex_dataIn = [sampleWord 0x18000045, sampleWord 0x100000A00000640, \<lparr>ax_data = 0x40302010500000A, ax_keep = 0xFF, ax_last = True\<rparr>],
       ex_dataOut = [], ex_arpTableOut = []\<rparr>,
     mp_compute = \<lparr>cp_sums = (\<lambda>i. 0), cp_headerLen = 0, cp_wordCount = 0, cp_dataIn = [], cp_dataOut = [], cp_subSums = []\<rparr>,
     mp_final = ([], []),
     mp_insert = \<lparr>ci_wordCount = 0, ci_checksum = 0, ci_dataIn = [], ci_checksumIn = [], ci_dataOut = []\<rparr>,
     mp_reply = \<lparr>hr_state = HAR_ARP, hr_dropPktCnt = 0, hr_droppedPkts = 0, hr_arpTableIn = [\<lparr>al_macAddress = 0xAA, al_hit = True\<rparr>],
       hr_dataIn = [], hr_headerOut = [], hr_dataOut = []\<rparr>,
     mp_shift = \<lparr>sh_fsmState = SH_PKG, sh_firstWord = True, sh_prevWord = zeroWord, sh_input = [], sh_output = []\<rparr>,
     mp_frame = \<lparr>ge_state = GE_HEADER, ge_header = \<lparr>ph_ready = False, ph_idx = 0, ph_header = 0\<rparr>, ge_packets_sent = 0, ge_headerIn = [],
       ge_dataIn = [], ge_dataOut = []\<rparr>\<rparr>"

definition sampleSent :: "8 word list" where
  "sampleSent = [0x45, 0, 0, 24, 0, 0, 0, 0, 64, 6, 0, 0, 10, 0, 0, 1, 10, 0, 0, 5, 1, 2, 3, 4]"

theorem packet_delivered_witness:
  "\<exists>q h'. (macFire 0xFFFFFF 0x0100000A 0xBB)\<^sup>*\<^sup>* sampleMacPath q \<and> ex_arpTableOut (mp_extract q) = [0x0500000A] \<and>
     (ipFire CONFIG_TCP 0x0500000A)\<^sup>*\<^sup>* (sampleIpPath\<lparr>hp_detect := (hp_detect sampleIpPath)\<lparr>de_dataIn := ge_dataOut (mp_frame q)\<rparr>\<rparr>) h' \<and>
     carries (dp2_tcpOut (hp_proto h')) (summed sampleSent)"
proof -
  let ?p = sampleMacPath
  have i: "macIdle ?p" by (simp add: macIdle_def sampleMacPath_def exReady_def cpReady_def shiftReady_def)
  have h: "ex_dataIn (mp_extract ?p) = ex_dataIn (mp_extract ?p) @ []" "carries (ex_dataIn (mp_extract ?p)) sampleSent" "totalFits sampleSent"
    "ipVersion sampleSent = 4" "isMatch 0x0500000A (dstAddress sampleSent)" "nextHop 0xFFFFFF 0x0100000A (dstAddress sampleSent) = 0x0500000A"
    "totalLength sampleSent = 24" "length sampleSent = 24" "sampleSent ! 9 = PROTO_TCP" "isHandledProtocol CONFIG_TCP PROTO_TCP"
    by (simp, code_simp, code_simp, code_simp, code_simp, code_simp, code_simp, code_simp, code_simp, code_simp)
  have r: "hr_arpTableIn (mp_reply ?p) = \<lparr>al_macAddress = 0xAA, al_hit = True\<rparr> # []" by (simp add: sampleMacPath_def)
  have o: "ex_arpTableOut (mp_extract ?p) = []" "ge_dataOut (mp_frame ?p) = []" by (simp_all add: sampleMacPath_def)
  from packet_delivered [OF i h(1-4) r h(5), where msk = "0xFFFFFF" and gw = "0x0100000A" and my = "0xBB" and cfg = CONFIG_TCP] obtain q out where
    q: "(macFire 0xFFFFFF 0x0100000A 0xBB)\<^sup>*\<^sup>* ?p q" "ex_arpTableOut (mp_extract q) = [0x0500000A]" "ge_dataOut (mp_frame q) = out"
      "carries out (ethBytes 0xAA 0xBB @ summed sampleSent)"
    and d: "\<forall>hh us pad rem. ipIdle hh \<and> paddedBy pad out us \<and> de_dataIn (hp_detect hh) = us @ rem \<longrightarrow>
      (\<exists>h'. (ipFire CONFIG_TCP 0x0500000A)\<^sup>*\<^sup>* hh h' \<and> ipIdle h' \<and> de_dataIn (hp_detect h') = rem \<and>
         sentOn CONFIG_TCP (hp_proto hh) (take 24 (summed sampleSent)) (hp_proto h'))"
    using h(6,7) o by auto
  let ?h = "sampleIpPath\<lparr>hp_detect := (hp_detect sampleIpPath)\<lparr>de_dataIn := out\<rparr>\<rparr>"
  have "ipIdle ?h" using sampleIpPath_idle by (simp add: ipIdle_def detectReady_def)
  moreover have "paddedBy [] out out" using q(4) carries_validBytes [OF q(4)] by (simp add: paddedBy_def)
  moreover have "de_dataIn (hp_detect ?h) = out @ []" by simp
  ultimately obtain h' where h': "(ipFire CONFIG_TCP 0x0500000A)\<^sup>*\<^sup>* ?h h'"
    "sentOn CONFIG_TCP (hp_proto ?h) (take 24 (summed sampleSent)) (hp_proto h')" using d by blast
  have l: "length (summed sampleSent) = 24" "summed sampleSent ! 9 = PROTO_TCP"
    using summed_parts(3,4) [of sampleSent] h(8,9) by simp_all
  have "dp2_tcpOut (hp_proto ?h) = []" by (simp add: sampleIpPath_def)
  with h'(2) l h(10) have "carries (dp2_tcpOut (hp_proto h')) (summed sampleSent)" by (auto simp: sentOn_def)
  with q(1,2) h'(1) show ?thesis unfolding q(3) [symmetric] by blast
qed

end
