(* ===== verification/Spec2Isabelle.thy ===== *)
theory Spec2Isabelle
  imports Order_Book_Data_Mover Clock_Tick Line_Feeds Feed_Handler Pricing_Engine Order_Session
    Toe_State_Table Toe_Port_Table Toe_Events Toe_Rx_Fsm Toe_Session_Lookup Toe_Rx_Meta Toe_Tx_Interface Toe_Tx_Path Net_Mac_Ip
begin

text \<open>
  A model of the accelerated algorithmic trading system: the HLS C++ kernels of the trading pipeline
  and of the TCP offload engine below it, under \<^verbatim>\<open>src/Accelerated_Algorithmic_Trading/hw\<close>.

  \<^bold>\<open>The program.\<close>  Market data arrives as UDP packets.  The line handler filters them by address and
  port and arbitrates between two redundant lines; the feed handler cuts the packets into messages, decodes the
  FIX refreshes and maps securities to symbol indices; the order book keeps five price levels per side and
  symbol; the pricing engine keeps a time series per symbol and places orders; order entry turns an order into
  an ASCII message of 256 bytes and sends it on a TCP session.  The data mover carries the same streams between
  the order book and the host through ring buffers, and the clock tick generator triggers periodic events.  The
  TCP offload engine keeps 32 sessions in tables (state, ports, receive and transmit windows, connections) that
  are shared by a receive engine, the timers, the event path to the transmit engine and the application
  interfaces.

  \<^bold>\<open>How it is modelled.\<close>  A kernel is a function that is called once per clock; its statics and the streams
  it reads and writes are the fields of one record, a function of the source is a function on that record, and a
  top function composes them in the order of the source.  Streams are FIFO lists (\<open>Hls_Stream\<close>), integers are
  words of their width with the part selects \<open>rng\<close> and \<open>upd\<close> of \<open>Aat_Prelude\<close>.  A read of an empty
  stream, a division by zero or an index past the end of an array is \<open>None\<close>.  Values a path of the source
  leaves uninitialised are arguments (\<open>junk\<close>).  The neighbours of a module are a relation on its record, and
  \<open>reaches\<close> (\<open>Toe_Types\<close>) closes the module's step under it.

  \<^bold>\<open>Theories.\<close>
  \<^item> \<open>Aat_Prelude\<close>, \<open>Hls_Stream\<close>: part selects and their automation; FIFO streams, and the
    contract of a pipeline stage as the locales \<open>fifo\<close>, \<open>stage\<close> and their extensions.
  \<^item> \<open>Aat_Interfaces\<close>: \<^verbatim>\<open>aat_defines.hpp\<close>, \<^verbatim>\<open>aat_interfaces.hpp\<close>; messages
    and their wire formats, with round trips.
  \<^item> \<open>Clock_Tick\<close>: \<^verbatim>\<open>clockTickGenerator\<close>; the exact times of the ticks.
  \<^item> \<open>Line_Filter\<close>, \<open>Line_Arbitrator\<close>, \<open>Line_Feeds\<close>, \<open>Line_Handler\<close>:
    \<^verbatim>\<open>lineHandler\<close>; the arbitrator refines a machine on packets, two lines give one gap-free feed
    without duplicates, and the composition never blocks.
  \<^item> \<open>Feed_Packets\<close>, \<open>Feed_Align\<close>, \<open>Fix_Price\<close>, \<open>Fix_Decoder\<close>,
    \<open>Feed_Handler\<close>: \<^verbatim>\<open>feedHandler\<close>; headers are stripped and messages cut exactly, prices
    below \<open>2 ^ 53\<close> are exact, a whole refresh message decodes field by field.
  \<^item> \<open>Order_Book\<close>, \<open>Order_Book_Data_Mover\<close>: \<^verbatim>\<open>orderBook\<close>; every operation refines
    one on lists of levels, the rings lose nothing and pass each entry once.
  \<^item> \<open>Time_Series\<close>, \<open>Pricing_Primitives\<close>, \<open>Pricing_Engine\<close>:
    \<^verbatim>\<open>pricingEngine\<close>; the window functions on the last values inserted, orders and positions, and
    when the engine traps.
  \<^item> \<open>Order_Ascii\<close>, \<open>Order_Message\<close>, \<open>Order_Entry\<close>, \<open>Order_Flow\<close>,
    \<open>Order_Session\<close>: \<^verbatim>\<open>orderEntry\<close>; decimal conversion, the checksum of a message, what is
    sent, and the session state machine.
  \<^item> \<open>Toe_Types\<close>: messages and configuration of the TCP offload engine.
  \<^item> \<open>Toe_State_Table\<close>: the state table is a serial execution of its requests, with exclusive locks.
  \<^item> \<open>Toe_Port_Table\<close>, \<open>Toe_Sar\<close>: ports handed out are fresh and checks are answered in order;
    the windows.
  \<^item> \<open>Toe_Timers\<close>, \<open>Toe_Retransmit\<close>, \<open>Toe_Events\<close>: the timers as interpretations of
    one locale \<open>rotor\<close>, with the exact call in which each fires; the path of the events.
  \<^item> \<open>Toe_Hash_Table\<close>, \<open>Toe_Session_Lookup\<close>: the cuckoo hash table as a map; the session
    lookup on top of it, the uniqueness of identifiers and the agreement of its two tables.
  \<^item> \<open>Stream_Bytes\<close>, \<open>Net_Shift\<close>, \<open>Net_Header\<close>, \<open>Net_Checksum\<close>: what the network
    stages share (\<^verbatim>\<open>axi_utils.hpp\<close>, \<^verbatim>\<open>packet.hpp\<close>, \<^verbatim>\<open>ipv4.hpp\<close>,
    \<^verbatim>\<open>two_complement_subchecksums.hpp\<close>); words that carry the bytes of a packet, what the byte
    shifters, the header parser and the checksum do to them.
  \<^item> \<open>Toe_Rx_Ip\<close>, \<open>Toe_Rx_Segment\<close>, \<open>Toe_Rx_Path\<close>: the stages of the receive engine that read
    a packet, and the path they form: from the words of an IPv4 packet to header fields and payload.
  \<^item> \<open>Toe_Rx_Fsm\<close>, \<open>Toe_Rx_Meta\<close>: session lookup and state machine of the receive engine; the state
    it writes in every case, the locks it gives back, fast retransmission, the fate of the payload.
  \<^item> \<open>Toe_App_If\<close>, \<open>Toe_Tx_App\<close>, \<open>Toe_Tx_Interface\<close>: the side of the application
    (\<^verbatim>\<open>rx_app_if.cpp\<close>, \<^verbatim>\<open>rx_app_stream_if.cpp\<close>, \<^verbatim>\<open>tx_app_if.cpp\<close>, \<^verbatim>\<open>tx_app_stream_if.cpp\<close>,
    \<^verbatim>\<open>tx_app_interface.cpp\<close>); locks, granted writes, the bytes of a write in the send buffer, confirmations.
  \<^item> \<open>Toe_Tx_Meta\<close>, \<open>Toe_Tx_Memory\<close>: the transmit engine (\<^verbatim>\<open>toe/tx_engine/tx_engine.cpp\<close>)
    up to the data of a segment: the loader of header data with every event type, its requests to the window table, the
    reads of a retransmission; sequence numbers without gap, retransmitted bytes, the FIN sent again.
  \<^item> \<open>Toe_Tx_Header\<close>, \<open>Toe_Tx_Segment\<close>, \<open>Toe_Tx_Path\<close>: its stages that make a packet of header
    data and payload, and the path they form; the checksum of what is sent, and that the receive engine reads back what
    the transmit engine sent.
  \<^item> \<open>Net_Arp\<close>: the ARP server (\<^verbatim>\<open>arp_server_subnet.cpp\<close>,
    \<^verbatim>\<open>arp_server_request_filter.cpp\<close>); how two servers learn each other's addresses, what a lookup is answered with, and
    when a request is repeated.
  \<^item> \<open>Net_Ip_Handler\<close>: the IP handler (\<^verbatim>\<open>ip_handler.cpp\<close>); what happens to each frame on its
    way to the ARP server and to the servers of the protocols, the header checksum, padding and the counters.
  \<^item> \<open>Net_Mac_Ip\<close>: the MAC encoder (\<^verbatim>\<open>mac_ip_encode.cpp\<close>, \<^verbatim>\<open>ipv4_utils.cpp\<close>); next hop,
    header checksum and Ethernet header, and that the IP handler of the next hop delivers the packet one host encoded.
  \<^bold>\<open>Bounds.\<close>  Loops with a fixed bound in the source (levels, windows, message words, eviction trials) are
  folds or recursions over that bound, so they need no fuel.  Theorems on runs quantify over the number of calls;
  where a run ends, the number of calls that is enough is part of the statement.  Streams are not bounded except
  where the source tests \<open>full()\<close>.  The configuration is the one the repository builds: 64-bit words, 32
  sessions, \<open>TCP_NODELAY\<close>, \<open>RX_DDR_BYPASS\<close> and \<open>FAST_RETRANSMIT\<close> on, no window scaling.

  \<^bold>\<open>Not modelled.\<close>
  The network stack below the TCP engine (ICMP, IGMP, UDP).  Code of the TCP engine that the
  built configuration leaves out (window scaling, received payload through memory, the transmission
  of new data through memory).
  The test benches, the vendor MAC and CMAC kernels (RTL) and the host software under \<^verbatim>\<open>sw\<close>: register
  access through the vendor runtime, the shell's command parser and its printing.
\<close>

end
